(* ===== verification/Prelude.thy ===== *)
theory Prelude
  imports Main "HOL-Library.Word" "HOL-Library.Monad_Syntax" "HOL-Library.Sublist"
begin

text \<open>
  Shared vocabulary of the development: the widths of the C integer types of the
  program, the characters its text formats use, and generic facts on lists, words and
  characters that several components need.  Nothing in here models a source file.
\<close>

unbundle bit_operations_syntax

type_synonym u8 = "8 word"
type_synonym u16 = "16 word"
type_synonym u32 = "32 word"
type_synonym u64 = "64 word"

named_theorems hex_simps \<open>facts that evaluate hexadecimal fields\<close>
named_theorems mem_simps \<open>facts on reads after writes of a byte memory\<close>
named_theorems dev_simps \<open>facts on the device register file\<close>

section \<open>Characters\<close>

definition nul :: char where
  "nul = CHR 0x00"

definition cr :: char where
  "cr = CHR 0x0D"

definition lf :: char where
  "lf = CHR 0x0A"

lemma nul_cr_lf [simp]:
  "nul \<noteq> cr" "nul \<noteq> lf" "cr \<noteq> lf" "cr \<noteq> nul" "lf \<noteq> nul" "lf \<noteq> cr"
  by (simp_all add: nul_def cr_def lf_def)

definition ch_byte :: "char \<Rightarrow> u8" where
  "ch_byte c = of_nat (of_char c)"

definition byte_ch :: "u8 \<Rightarrow> char" where
  "byte_ch b = char_of (unat b)"

lemma of_char_lt_256 [simp]: "(of_char c :: nat) < 256"
  by (cases c) (auto simp: of_char_def horner_sum_simps)

lemma byte_ch_inverse [simp]: "ch_byte (byte_ch b) = b"
proof -
  have "unat b < 256"
    using unsigned_less [where w = b and 'a = nat] by simp
  then show ?thesis
    by (simp add: ch_byte_def byte_ch_def)
qed

lemma ch_byte_inverse [simp]: "byte_ch (ch_byte c) = c"
proof -
  have "unat (of_nat (of_char c) :: u8) = of_char c"
    by (simp add: unat_of_nat)
  then show ?thesis
    by (simp add: ch_byte_def byte_ch_def)
qed

section \<open>Lists\<close>

lemma takeWhile_all: "\<forall>x \<in> set xs. P x \<Longrightarrow> takeWhile P xs = xs"
  by (simp add: takeWhile_eq_all_conv)

lemma takeWhile_append_stop:
  "\<forall>x \<in> set xs. P x \<Longrightarrow> \<not> P y \<Longrightarrow> takeWhile P (xs @ y # ys) = xs"
  by (induction xs) auto

lemma take_length_append [simp]: "length xs = n \<Longrightarrow> take n (xs @ ys) = xs"
  by simp

lemma drop_length_append [simp]: "length xs = n \<Longrightarrow> drop n (xs @ ys) = ys"
  by simp

lemma take_update_prefix: "i < n \<Longrightarrow> i < length xs \<Longrightarrow> take n (xs[i := v]) = (take n xs)[i := v]"
  by (simp add: take_update_swap)

lemma take_Suc_update:
  "n < length xs \<Longrightarrow> take (Suc n) (xs[n := v]) = take n xs @ [v]"
  by (simp add: take_Suc_conv_app_nth)

lemma take_take_append: "take m (take m xs @ ys) = take m (xs @ ys)"
  by (cases "m \<le> length xs") auto

lemma take_min_length [simp]: "take (min (length xs) n) xs = take n xs"
  by (auto simp: min_def)

section \<open>Words\<close>

lemma unat_lt_pow: "unat (w :: 'a::len word) < 2 ^ LENGTH('a)"
  by (rule unsigned_less)

lemma unat_u8_less [simp]: "unat (w :: u8) < 256"
  using unat_lt_pow [of w] by simp

lemma unat_u16_less [simp]: "unat (w :: u16) < 65536"
  using unat_lt_pow [of w] by simp

lemma unat_u32_less [simp]: "unat (w :: u32) < 4294967296"
  using unat_lt_pow [of w] by simp


lemma ucast_masked_byte:
  fixes w :: u32
  shows "ucast (w AND 255) = (ucast w :: u8)"
proof -
  have "(255 :: u32) = mask 8" by (simp add: mask_eq_exp_minus_1)
  then have "ucast (w AND 255) = (ucast (w AND mask 8) :: u8)" by simp
  also have "\<dots> = ucast w" by (rule bit_eqI) (auto simp: bit_simps)
  finally show ?thesis .
qed

end
