(* ===== verification/CStdio.thy ===== *)
theory CStdio
  imports Prelude
begin

text \<open>
  The part of the C standard library that the record formats use: \<open>fgets\<close>, \<open>strncpy\<close>
  into a scratch buffer, \<open>strtol\<close> in base 16, and the conversions \<open>%N.NX\<close> of \<open>fprintf\<close>.
  The library is not under src/; its documented behaviour (C11, 7.21 and 7.22) is written
  out here, with strings as \<open>char list\<close> and \<open>long\<close> as an integer clamped at \<open>LONG_MAX\<close>.
  The lemmas say that reading back what the conversions print gives the value printed.
\<close>

section \<open>Files\<close>

text \<open>
  An input file is the characters not read yet and the flag of a pending read error; an
  output file is the characters written, the number of write calls made and the calls that
  fail.  A pointer argument that may be NULL is an option.
\<close>

record infile =
  idata :: string
  ierror :: bool

record outfile =
  odata :: string
  ocalls :: nat
  ofails :: "nat \<Rightarrow> bool"

text \<open>\<open>fgets\<close>: at most \<open>n\<close> characters, up to and with the first newline.\<close>

fun gets_n :: "nat \<Rightarrow> string \<Rightarrow> string \<times> string" where
  "gets_n 0 s = ([], s)"
| "gets_n (Suc n) [] = ([], [])"
| "gets_n (Suc n) (c # s) =
     (if c = lf then ([c], s)
      else (let (l, r) = gets_n n s in (c # l, r)))"

definition fgets :: "nat \<Rightarrow> infile \<Rightarrow> (string option) \<times> infile" where
  "fgets bufsize f =
     (if ierror f then (None, f)
      else if idata f = [] then (None, f)
      else (let (l, r) = gets_n (bufsize - 1) (idata f) in (Some l, f\<lparr>idata := r\<rparr>)))"

definition feof :: "infile \<Rightarrow> bool" where
  "feof f \<longleftrightarrow> \<not> ierror f \<and> idata f = []"

text \<open>The C string held by a character buffer ends at the first NUL.\<close>

definition cstr :: "string \<Rightarrow> string" where
  "cstr buf = takeWhile (\<lambda>c. c \<noteq> nul) buf"

definition fprintf :: "outfile \<Rightarrow> string \<Rightarrow> bool \<times> outfile" where
  "fprintf f s =
     (if ofails f (ocalls f) then (False, f\<lparr>ocalls := Suc (ocalls f)\<rparr>)
      else (True, f\<lparr>odata := odata f @ s, ocalls := Suc (ocalls f)\<rparr>))"

lemma gets_n_line:
  "lf \<notin> set l \<Longrightarrow> length l < n \<Longrightarrow> gets_n n (l @ lf # r) = (l @ [lf], r)"
proof (induction l arbitrary: n)
  case Nil
  then show ?case by (cases n) auto
next
  case (Cons c l)
  then show ?case by (cases n) auto
qed

lemma gets_n_shrinks: "0 < n \<Longrightarrow> s \<noteq> [] \<Longrightarrow> length (snd (gets_n n s)) < length s"
proof (induction n s rule: gets_n.induct)
  case (3 n c s)
  then show ?case
    by (cases n; cases s) (auto simp: Let_def split: prod.splits)
qed auto

lemma gets_n_append: "fst (gets_n n s) @ snd (gets_n n s) = s"
  by (induction n s rule: gets_n.induct) (auto simp: Let_def split: prod.splits)

lemma gets_n_length: "length (fst (gets_n n s)) \<le> n"
  by (induction n s rule: gets_n.induct) (auto simp: Let_def split: prod.splits)

lemma gets_n_all: "lf \<notin> set l \<Longrightarrow> length l \<le> n \<Longrightarrow> gets_n n l = (l, [])"
  by (induction n l rule: gets_n.induct) auto

lemma fgets_line:
  "\<not> ierror f \<Longrightarrow> idata f = l @ lf # r \<Longrightarrow> lf \<notin> set l \<Longrightarrow> length l + 1 < bufsize
   \<Longrightarrow> fgets bufsize f = (Some (l @ [lf]), f\<lparr>idata := r\<rparr>)"
  by (simp add: fgets_def gets_n_line)

section \<open>Hexadecimal digits\<close>

definition hex_val :: "char \<Rightarrow> nat option" where
  "hex_val c =
     (let n = (of_char c :: nat) in
      if 48 \<le> n \<and> n \<le> 57 then Some (n - 48)
      else if 65 \<le> n \<and> n \<le> 70 then Some (n - 55)
      else if 97 \<le> n \<and> n \<le> 102 then Some (n - 87)
      else None)"

definition hex_digit :: "nat \<Rightarrow> char" where
  "hex_digit d = char_of (if d < 10 then 48 + d else 55 + d)"

lemma hex_val_digit [simp]: "d < 16 \<Longrightarrow> hex_val (hex_digit d) = Some d"
  by (auto simp: hex_val_def hex_digit_def Let_def)

lemma hex_digit_code: "d < 16 \<Longrightarrow> (of_char (hex_digit d) :: nat) = (if d < 10 then 48 + d else 55 + d)"
  by (simp add: hex_digit_def)

lemma hex_digit_plain [simp]:
  assumes "d < 16"
  shows "hex_digit d \<noteq> nul" "hex_digit d \<noteq> cr" "hex_digit d \<noteq> lf"
    "hex_digit d \<noteq> CHR 0x20" "hex_digit d \<noteq> CHR ''-''" "hex_digit d \<noteq> CHR ''+''"
    "hex_digit d \<noteq> CHR ''x''" "hex_digit d \<noteq> CHR ''X''" "hex_digit d \<noteq> CHR '':''"
proof -
  have "hex_digit d \<noteq> c" if "hex_val c = None" for c
    using hex_val_digit [OF assms] that by auto
  then show "hex_digit d \<noteq> nul" "hex_digit d \<noteq> cr" "hex_digit d \<noteq> lf"
    "hex_digit d \<noteq> CHR 0x20" "hex_digit d \<noteq> CHR ''-''" "hex_digit d \<noteq> CHR ''+''"
    "hex_digit d \<noteq> CHR ''x''" "hex_digit d \<noteq> CHR ''X''" "hex_digit d \<noteq> CHR '':''"
    by (simp_all add: hex_val_def nul_def cr_def lf_def)
qed

lemmas hex_digit_plain_sym [simp] = hex_digit_plain [THEN not_sym]

text \<open>Value of the longest prefix of hexadecimal digits, on top of what was read before.\<close>

fun hex_acc :: "nat \<Rightarrow> string \<Rightarrow> nat" where
  "hex_acc a [] = a"
| "hex_acc a (c # s) = (case hex_val c of None \<Rightarrow> a | Some d \<Rightarrow> hex_acc (16 * a + d) s)"

text \<open>White space of the C locale: space and the codes 9 to 13.\<close>

definition is_space :: "char \<Rightarrow> bool" where
  "is_space c \<longleftrightarrow> c = CHR 0x20 \<or> (9 \<le> (of_char c :: nat) \<and> (of_char c :: nat) \<le> 13)"

definition skip_0x :: "string \<Rightarrow> string" where
  "skip_0x s =
     (case s of
        a # b # r \<Rightarrow> if a = CHR ''0'' \<and> (b = CHR ''x'' \<or> b = CHR ''X'') then r else s
      | _ \<Rightarrow> s)"

definition strtol16 :: "int \<Rightarrow> string \<Rightarrow> int" where
  "strtol16 lmax s =
     (let t = dropWhile is_space s;
          neg = (t \<noteq> [] \<and> hd t = CHR ''-'');
          u = (if t \<noteq> [] \<and> (hd t = CHR ''-'' \<or> hd t = CHR ''+'') then tl t else t);
          v = int (hex_acc 0 (skip_0x u))
      in if neg then max (- lmax - 1) (- v) else min lmax v)"

text \<open>\<open>LONG_MAX\<close> where \<open>long\<close> has 32 bits, as on the target, and 64 bits, as on a host that runs the record tools.\<close>

datatype long_width = Long32 | Long64

primrec LONG_MAX :: "long_width \<Rightarrow> int" where
  "LONG_MAX Long32 = 2 ^ 31 - 1"
| "LONG_MAX Long64 = 2 ^ 63 - 1"

lemma LONG_MAX_bounds [simp]: "2147483647 \<le> LONG_MAX w" "0 \<le> LONG_MAX w"
  by (cases w; simp)+

text \<open>\<open>%N.NX\<close> of an unsigned value: uppercase, at least \<open>p\<close> digits.\<close>

fun hex_digits :: "nat \<Rightarrow> string" where
  "hex_digits n = (if n < 16 then [hex_digit n] else hex_digits (n div 16) @ [hex_digit (n mod 16)])"

declare hex_digits.simps [simp del]

definition fmt_X :: "nat \<Rightarrow> nat \<Rightarrow> string" where
  "fmt_X p v = (let ds = hex_digits v in replicate (p - length ds) (CHR ''0'') @ ds)"

text \<open>\<open>%d\<close>: decimal, with a sign when negative.\<close>

fun dec_digits :: "nat \<Rightarrow> string" where
  "dec_digits n = (if n < 10 then [char_of (48 + n)] else dec_digits (n div 10) @ [char_of (48 + n mod 10)])"

declare dec_digits.simps [simp del]

definition fmt_d :: "int \<Rightarrow> string" where
  "fmt_d v = (if v < 0 then CHR ''-'' # dec_digits (nat (- v)) else dec_digits (nat v))"

text \<open>\<open>strncpy\<close> of \<open>n\<close> characters at an offset of a C string into a scratch buffer, closed
  by a NUL: \<open>None\<close> when the source starts before the buffer or past its terminator.\<close>

definition substr :: "string \<Rightarrow> int \<Rightarrow> nat \<Rightarrow> string option" where
  "substr s off n =
     (if off < 0 \<or> int (length s) < off then None else Some (take n (drop (nat off) s)))"

section \<open>Fixed-width fields\<close>

text \<open>\<open>hexn p v\<close>: the \<open>p\<close> low hexadecimal digits of \<open>v\<close>, most significant first.\<close>

fun hexn :: "nat \<Rightarrow> nat \<Rightarrow> string" where
  "hexn 0 v = []"
| "hexn (Suc p) v = hexn p (v div 16) @ [hex_digit (v mod 16)]"

lemma length_hexn [simp]: "length (hexn p v) = p"
  by (induction p arbitrary: v) auto

lemma hexn_digits: "c \<in> set (hexn p v) \<Longrightarrow> \<exists>d<16. c = hex_digit d"
proof (induction p arbitrary: v)
  case 0
  then show ?case by simp
next
  case (Suc p)
  then consider "c \<in> set (hexn p (v div 16))" | "c = hex_digit (v mod 16)"
    by auto
  then show ?case
    by cases (use Suc.IH in blast, use mod_less_divisor [of 16 v] in force)
qed

lemma hexn_plain [simp]:
  "nul \<notin> set (hexn p v)" "cr \<notin> set (hexn p v)" "lf \<notin> set (hexn p v)" "CHR '':'' \<notin> set (hexn p v)"
  by (auto dest!: hexn_digits)

lemma hexn_0: "hexn p 0 = replicate p (CHR ''0'')"
proof (induction p)
  case 0
  show ?case by simp
next
  case (Suc p)
  have "hex_digit 0 = CHR ''0''" by code_simp
  with Suc show ?case by (simp add: replicate_append_same)
qed

lemma fmt_X_Suc:
  "16 \<le> v \<Longrightarrow> fmt_X (Suc p) v = fmt_X p (v div 16) @ [hex_digit (v mod 16)]"
  by (simp add: fmt_X_def hex_digits.simps [of v] Let_def)

lemma fmt_X_small: "v < 16 \<Longrightarrow> fmt_X (Suc p) v = replicate p (CHR ''0'') @ [hex_digit v]"
  by (simp add: fmt_X_def hex_digits.simps [of v])

lemma fmt_X_hexn: "0 < p \<Longrightarrow> v < 16 ^ p \<Longrightarrow> fmt_X p v = hexn p v"
proof (induction p arbitrary: v)
  case 0
  then show ?case by simp
next
  case (Suc p)
  show ?case
  proof (cases "v < 16")
    case True
    then show ?thesis by (simp add: fmt_X_small hexn_0)
  next
    case False
    then have "0 < p" using Suc.prems by (cases p) auto
    moreover have "v div 16 < 16 ^ p" using Suc.prems(2) by (simp add: less_mult_imp_div_less mult.commute)
    ultimately show ?thesis using False Suc.IH by (simp add: fmt_X_Suc)
  qed
qed

lemma hexn_split: "hexn (p + q) v = hexn p (v div 16 ^ q) @ hexn q v"
proof (induction q arbitrary: v)
  case 0
  then show ?case by simp
next
  case (Suc q)
  then show ?case by (simp add: div_mult2_eq)
qed

lemma hexn_mod: "hexn p v = hexn p (v mod 16 ^ p)"
proof (induction p arbitrary: v)
  case 0
  then show ?case by simp
next
  case (Suc p)
  have "v mod 16 ^ Suc p div 16 = v div 16 mod 16 ^ p" "v mod 16 ^ Suc p mod 16 = v mod 16"
    by (simp_all add: mod_mult2_eq)
  then show ?case using Suc [of "v div 16"] by simp
qed

lemma drop_hexn: "q \<le> p \<Longrightarrow> drop (p - q) (hexn p v) = hexn q v"
  using hexn_split [of "p - q" q v] by simp

lemma hex_acc_append:
  "\<forall>c \<in> set s. hex_val c \<noteq> None \<Longrightarrow> hex_acc a (s @ t) = hex_acc (hex_acc a s) t"
  by (induction s arbitrary: a) auto

lemma hex_acc_hexn: "hex_acc a (hexn p v) = 16 ^ p * a + v mod 16 ^ p"
proof (induction p arbitrary: a v)
  case 0
  then show ?case by simp
next
  case (Suc p)
  have "\<forall>c \<in> set (hexn p (v div 16)). hex_val c \<noteq> None"
    by (auto dest!: hexn_digits)
  then show ?case
    by (simp add: hex_acc_append Suc algebra_simps mod_mult2_eq)
qed

lemma dropWhile_hexn [simp]: "0 < p \<Longrightarrow> dropWhile is_space (hexn p v) = hexn p v"
proof (cases "hexn p v")
  case Nil
  then show ?thesis by simp
next
  case (Cons c cs)
  then obtain d where "d < 16" "c = hex_digit d"
    using hexn_digits [of c p v] by auto
  then have "\<not> is_space c"
    by (auto simp: is_space_def hex_digit_code split: if_splits)
  with Cons show ?thesis by simp
qed

lemma skip_0x_hexn [simp]: "skip_0x (hexn p v) = hexn p v"
proof -
  have "CHR ''x'' \<notin> set (hexn p v)" "CHR ''X'' \<notin> set (hexn p v)"
    by (auto dest!: hexn_digits)
  then show ?thesis
    by (auto simp: skip_0x_def split: list.splits)
qed

lemma hd_hexn [simp]:
  "0 < p \<Longrightarrow> hd (hexn p v) \<noteq> CHR ''-''" "0 < p \<Longrightarrow> hd (hexn p v) \<noteq> CHR ''+''"
proof -
  assume "0 < p"
  then have "hd (hexn p v) \<in> set (hexn p v)"
    by (metis hd_in_set length_hexn length_greater_0_conv)
  then obtain d where "d < 16" "hd (hexn p v) = hex_digit d"
    using hexn_digits by blast
  then show "hd (hexn p v) \<noteq> CHR ''-''" "hd (hexn p v) \<noteq> CHR ''+''" by simp_all
qed

lemma hexn_Nil_iff [simp]: "hexn p v = [] \<longleftrightarrow> p = 0"
  by (metis length_0_conv length_hexn)

text \<open>Reading a printed field back.\<close>

lemma strtol16_hexn [hex_simps]:
  "0 < p \<Longrightarrow> v < 16 ^ p \<Longrightarrow> int v \<le> lmax \<Longrightarrow> strtol16 lmax (hexn p v) = int v"
  by (simp add: strtol16_def hex_acc_hexn)

lemma strtol16_saturates: "0 < p \<Longrightarrow> v < 16 ^ p \<Longrightarrow> strtol16 lmax (hexn p v) = min lmax (int v)"
  by (simp add: strtol16_def hex_acc_hexn)

lemma substr_append [hex_simps]:
  "int (length a) = off \<Longrightarrow> length b = n \<Longrightarrow> substr (a @ b @ c) off n = Some b"
  "int (length a) = off \<Longrightarrow> length b = n \<Longrightarrow> substr (a @ b) off n = Some b"
  by (auto simp: substr_def)

lemma substr_None_iff: "substr s off n = None \<longleftrightarrow> off < 0 \<or> int (length s) < off"
  by (simp add: substr_def)

lemma substr_length: "substr s off n = Some t \<Longrightarrow> length t \<le> n"
  by (auto simp: substr_def split: if_splits)

declare hexn.simps(2) [simp del]

text \<open>The value of a short field, whatever its characters.\<close>

lemma hex_acc_bound: "hex_acc a s < (a + 1) * 16 ^ length s"
proof (induction s arbitrary: a)
  case Nil
  then show ?case by simp
next
  case (Cons c s)
  show ?case
  proof (cases "hex_val c")
    case None
    have "a < (a + 1) * 1" by simp
    also have "\<dots> \<le> (a + 1) * 16 ^ length (c # s)" by (intro mult_le_mono) auto
    finally show ?thesis using None by simp
  next
    case (Some d)
    then have "d < 16" by (auto simp: hex_val_def Let_def split: if_splits)
    then have le: "16 * a + d + 1 \<le> (a + 1) * 16" by simp
    have "hex_acc a (c # s) = hex_acc (16 * a + d) s" using Some by simp
    also have "\<dots> < (16 * a + d + 1) * 16 ^ length s" by (rule Cons.IH)
    also have "\<dots> \<le> ((a + 1) * 16) * 16 ^ length s" by (rule mult_le_mono1 [OF le])
    also have "\<dots> = (a + 1) * 16 ^ length (c # s)" by (simp add: algebra_simps)
    finally show ?thesis .
  qed
qed

lemma skip_0x_length: "length (skip_0x s) \<le> length s"
  by (auto simp: skip_0x_def split: list.splits)

lemma hex_acc_skip_bound: "length s \<le> n \<Longrightarrow> int (hex_acc 0 (skip_0x s)) < 16 ^ n"
proof -
  assume "length s \<le> n"
  then have "length (skip_0x s) \<le> n" using skip_0x_length [of s] by simp
  then have "(16::nat) ^ length (skip_0x s) \<le> 16 ^ n" by (intro power_increasing) auto
  then have "hex_acc 0 (skip_0x s) < 16 ^ n"
    using hex_acc_bound [of 0 "skip_0x s"] by (auto intro: less_le_trans)
  then have "int (hex_acc 0 (skip_0x s)) < int (16 ^ n)" by (simp only: of_nat_less_iff)
  then show ?thesis by simp
qed

lemma strtol16_bounds:
  assumes "length s \<le> Suc n" and "0 \<le> lmax"
  shows "- (16 ^ n) < strtol16 lmax s" "strtol16 lmax s < 16 ^ Suc n"
proof -
  let ?t = "dropWhile is_space s"
  have t: "length ?t \<le> Suc n"
    using assms(1) length_dropWhile_le [of is_space s] by simp
  then have "length (tl ?t) \<le> n" by simp
  note u = hex_acc_skip_bound [OF t] hex_acc_skip_bound [OF this]
  have p: "(16::int) ^ n \<le> 16 ^ Suc n" "0 < (16::int) ^ n" by simp_all
  obtain A B P Q :: int where e: "A = int (hex_acc 0 (skip_0x ?t))" "B = int (hex_acc 0 (skip_0x (tl ?t)))"
    "P = 16 ^ n" "Q = 16 ^ Suc n" by simp
  have "0 \<le> A" "0 \<le> B" by (simp_all add: e(1,2))
  with u p have "A < Q" "B < P" "P \<le> Q" "0 < P" "0 \<le> A" "0 \<le> B" unfolding e by simp_all
  moreover have "strtol16 lmax s \<in> {max (- lmax - 1) (- B), min lmax A, min lmax B}"
    by (simp add: strtol16_def Let_def e(1,2))
  ultimately show "- (16 ^ n) < strtol16 lmax s" "strtol16 lmax s < 16 ^ Suc n"
    using assms(2) unfolding e(3,4) [symmetric] by auto
qed

section \<open>The loop over the data bytes of a record\<close>

text \<open>
  Both record readers pull the data field apart byte by byte: two characters at a time are
  copied into a scratch buffer, converted, and stored at index \<open>i\<close> of the record's array.
  \<open>None\<close> is an access outside the text or outside the array.
\<close>

fun read_hex_bytes :: "(string \<Rightarrow> int) \<Rightarrow> string \<Rightarrow> int \<Rightarrow> nat \<Rightarrow> nat \<Rightarrow> u8 list \<Rightarrow> u8 list option" where
  "read_hex_bytes conv s off i 0 d = Some d"
| "read_hex_bytes conv s off i (Suc n) d =
     (case substr s (off + 2 * int i) 2 of
        None \<Rightarrow> None
      | Some f \<Rightarrow>
          if i < length d
          then read_hex_bytes conv s off (Suc i) n (d[i := word_of_int (conv f)])
          else None)"

lemma read_hex_bytes_length:
  "read_hex_bytes conv s off i n d = Some d' \<Longrightarrow> length d' = length d"
  by (induction n arbitrary: i d) (auto split: option.splits if_splits)

lemma read_hex_bytes_defined:
  "0 \<le> off \<Longrightarrow> off + 2 * int (i + n) \<le> int (length s) \<Longrightarrow> i + n \<le> length d
   \<Longrightarrow> read_hex_bytes conv s off i n d \<noteq> None"
proof (induction n arbitrary: i d)
  case 0
  then show ?case by simp
next
  case (Suc n)
  have "substr s (off + 2 * int i) 2 \<noteq> None"
    using Suc.prems by (simp add: substr_None_iff)
  with Suc show ?case by (auto split: option.splits)
qed

text \<open>A conversion that reads two-digit fields back reads back a printed data field.\<close>

definition reads_bytes :: "(string \<Rightarrow> int) \<Rightarrow> bool" where
  "reads_bytes conv \<longleftrightarrow> (\<forall>b :: u8. conv (hexn 2 (unat b)) = int (unat b))"

definition hex_bytes :: "u8 list \<Rightarrow> string" where
  "hex_bytes bs = concat (map (\<lambda>b. hexn 2 (unat b)) bs)"

lemma length_hex_bytes [simp]: "length (hex_bytes bs) = 2 * length bs"
  by (induction bs) (auto simp: hex_bytes_def)

lemma hex_bytes_simps [simp]:
  "hex_bytes [] = []" "hex_bytes (b # bs) = hexn 2 (unat b) @ hex_bytes bs"
  by (simp_all add: hex_bytes_def)

lemma hex_bytes_plain [simp]:
  "nul \<notin> set (hex_bytes bs)" "cr \<notin> set (hex_bytes bs)" "lf \<notin> set (hex_bytes bs)"
  by (auto simp: hex_bytes_def)

lemma read_hex_bytes_roundtrip:
  assumes "reads_bytes conv" and "i + length bs \<le> length d"
    and "s = p @ hex_bytes bs @ q" and "int (length p) = off + 2 * int i"
  shows "\<exists>d'. read_hex_bytes conv s off i (length bs) d = Some d'
    \<and> length d' = length d \<and> take (i + length bs) d' = take i d @ bs"
  using assms(2-)
proof (induction bs arbitrary: i d p)
  case Nil
  then show ?case by simp
next
  case (Cons b bs)
  let ?d = "d[i := b]"
  have sub: "substr s (off + 2 * int i) 2 = Some (hexn 2 (unat b))"
    using Cons.prems(2,3) by (simp add: substr_append)
  have b: "word_of_int (conv (hexn 2 (unat b))) = b"
    using assms(1) by (simp add: reads_bytes_def)
  have "\<exists>d'. read_hex_bytes conv s off (Suc i) (length bs) ?d = Some d'
    \<and> length d' = length ?d \<and> take (Suc i + length bs) d' = take (Suc i) ?d @ bs"
    using Cons.prems by (intro Cons.IH [of "Suc i" ?d "p @ hexn 2 (unat b)"]) auto
  then show ?case
    using Cons.prems(1) by (auto simp: sub b take_Suc_update)
qed

end
