(* ===== verification/Codec.thy ===== *)
theory Codec
  imports CStdio
begin

text \<open>
  The interface the three record formats (Motorola S-Record, Intel HEX8, Atmel Generic)
  offer to the program that prints a file of records (bootstrap/testGIS.c): a writer, a
  reader that fills a record in and leaves the rest of the file, and the part of a record
  that a reader must give back.  The loop of that program is modelled once, over any
  reader; what it does on a file made by the writer is proved in the locale and holds for
  the three formats by interpretation.
\<close>

section \<open>Steps the readers and writers share\<close>

text \<open>The line read, cut at the first CR or LF.\<close>

definition cut_line :: "string \<Rightarrow> string" where
  "cut_line buf = takeWhile (\<lambda>c. c \<noteq> cr \<and> c \<noteq> lf) (cstr buf)"

text \<open>Write the bytes one \<open>fprintf\<close> at a time, stopping at the first that fails.\<close>

fun write_bytes :: "outfile \<Rightarrow> u8 list \<Rightarrow> bool \<times> outfile" where
  "write_bytes f [] = (True, f)"
| "write_bytes f (b # bs) =
     (case fprintf f (fmt_X 2 (unat b)) of
        (False, f') \<Rightarrow> (False, f')
      | (True, f') \<Rightarrow> write_bytes f' bs)"

definition out_blank :: outfile where
  "out_blank = \<lparr>odata = [], ocalls = 0, ofails = (\<lambda>_. False)\<rparr>"

lemma out_blank_simps [simp]: "odata out_blank = []" "ofails out_blank = (\<lambda>_. False)"
  by (simp_all add: out_blank_def)

text \<open>A conversion that reads printed fields back, at least up to the largest \<open>long\<close> of 32 bits.\<close>

definition reads_hex :: "(string \<Rightarrow> int) \<Rightarrow> bool" where
  "reads_hex conv \<longleftrightarrow> (\<forall>p v. 0 < p \<longrightarrow> p \<le> 8 \<longrightarrow> v < 16 ^ p \<longrightarrow> v \<le> 2147483647 \<longrightarrow> conv (hexn p v) = int v)"

lemma reads_hexD: "reads_hex conv \<Longrightarrow> 0 < p \<Longrightarrow> p \<le> 8 \<Longrightarrow> v < 16 ^ p \<Longrightarrow> v \<le> 2147483647 \<Longrightarrow> conv (hexn p v) = int v"
  by (simp add: reads_hex_def)

lemma byte_small: "unat (b :: u8) \<le> 2147483647"
proof -
  have "unat b < 2 ^ LENGTH(8)" by (rule unsigned_less)
  then have "unat b < 256" by simp
  then show ?thesis by linarith
qed

lemma half_small: "unat (h :: u16) \<le> 2147483647"
proof -
  have "unat h < 2 ^ LENGTH(16)" by (rule unsigned_less)
  then have "unat h < 65536" by simp
  then show ?thesis by linarith
qed

lemma reads_hex_bytes: "reads_hex conv \<Longrightarrow> reads_bytes conv"
  unfolding reads_bytes_def by (intro allI impI reads_hexD) (simp_all add: byte_small)

lemma reads_hex_strtol16: "2147483647 \<le> lmax \<Longrightarrow> reads_hex (strtol16 lmax)"
  unfolding reads_hex_def by (simp add: strtol16_hexn)

lemma write_bytes_ok:
  "ofails f = (\<lambda>_. False) \<Longrightarrow>
   \<exists>f'. write_bytes f bs = (True, f') \<and> odata f' = odata f @ hex_bytes bs \<and> ofails f' = ofails f"
proof (induction bs arbitrary: f)
  case Nil
  then show ?case by simp
next
  case (Cons b bs)
  have "fmt_X 2 (unat b) = hexn 2 (unat b)" by (rule fmt_X_hexn) auto
  with Cons.IH [of "f\<lparr>odata := odata f @ hexn 2 (unat b), ocalls := Suc (ocalls f)\<rparr>"] Cons.prems
  show ?case by (auto simp: fprintf_def)
qed

lemma unat_small_int: "0 \<le> i \<Longrightarrow> i < 4294967296 \<Longrightarrow> unat (word_of_int i :: u32) = nat i"
  by (simp add: unat_eq_nat_uint uint_word_of_int)

lemma cut_line_crlf:
  "nul \<notin> set l \<Longrightarrow> cr \<notin> set l \<Longrightarrow> lf \<notin> set l \<Longrightarrow> cut_line (l @ [cr, lf]) = l"
proof -
  assume a: "nul \<notin> set l" "cr \<notin> set l" "lf \<notin> set l"
  have "cstr (l @ [cr, lf]) = l @ [cr, lf]"
    unfolding cstr_def using a(1) by (intro takeWhile_all) auto
  moreover have "takeWhile (\<lambda>c. c \<noteq> cr \<and> c \<noteq> lf) (l @ [cr, lf]) = l"
    using a by (intro takeWhile_append_stop) auto
  ultimately show ?thesis by (simp add: cut_line_def)
qed

section \<open>The contract of a record format\<close>

text \<open>
  The loop \<open>while (Read(&rec, fp) == OK) Print(&rec)\<close>: the records it sees, in order.  A reader answers \<open>None\<close> where
  its behaviour is undefined, and \<open>Some None\<close> for every other result than OK; the loop is \<open>Some None\<close> if
  a reader in it is undefined, and \<open>None\<close> would be a loop that does not end.
\<close>

partial_function (option) dump_records ::
  "('r \<Rightarrow> string \<Rightarrow> ('r \<times> string) option option) \<Rightarrow> 'r \<Rightarrow> string \<Rightarrow> 'r list option option" where
  "dump_records rd r s =
     (case rd r s of
        None \<Rightarrow> Some None
      | Some None \<Rightarrow> Some (Some [])
      | Some (Some (r', s')) \<Rightarrow> Option.bind (dump_records rd r' s') (\<lambda>rs. Some (map_option (Cons r') rs)))"

locale record_codec =
  fixes write_text :: "'r \<Rightarrow> string"
    and read_text :: "'r \<Rightarrow> string \<Rightarrow> ('r \<times> string) option option"
    and valid :: "'r \<Rightarrow> bool"
    and shape :: "'r \<Rightarrow> bool"
    and view :: "'r \<Rightarrow> 'v"
  assumes read_write:
    "valid r \<Longrightarrow> shape r0 \<Longrightarrow> \<exists>r'. read_text r0 (write_text r @ s) = Some (Some (r', s)) \<and> view r' = view r"
    and read_shape: "shape r0 \<Longrightarrow> read_text r0 s = Some (Some (r', s')) \<Longrightarrow> shape r'"
    and read_progress: "read_text r0 s = Some (Some (r', s')) \<Longrightarrow> length s' < length s"
    and read_nil: "read_text r0 [] = Some None"
begin

text \<open>The loop ends on every file.\<close>

lemma dump_terminates: "\<exists>rs. dump_records read_text r s = Some rs"
proof (induction s arbitrary: r rule: length_induct)
  case (1 s)
  show ?case
  proof (cases "\<exists>r' s'. read_text r s = Some (Some (r', s'))")
    case False
    then show ?thesis by (auto simp: dump_records.simps [of _ r s] split: option.splits)
  next
    case True
    then obtain r' s' where p: "read_text r s = Some (Some (r', s'))" by blast
    then have "length s' < length s" by (rule read_progress)
    with "1.IH" obtain rs where "dump_records read_text r' s' = Some rs" by blast
    with p show ?thesis by (simp add: dump_records.simps [of _ r s])
  qed
qed

text \<open>On a file made of valid records it sees exactly those.\<close>

lemma dump_written:
  "\<forall>r \<in> set rs. valid r \<Longrightarrow> shape r0
   \<Longrightarrow> \<exists>rs'. dump_records read_text r0 (concat (map write_text rs)) = Some (Some rs')
        \<and> map view rs' = map view rs"
proof (induction rs arbitrary: r0)
  case Nil
  then show ?case by (simp add: dump_records.simps read_nil)
next
  case (Cons r rs)
  then obtain r' where r': "read_text r0 (write_text r @ concat (map write_text rs))
      = Some (Some (r', concat (map write_text rs)))" "view r' = view r"
    using read_write [of r r0 "concat (map write_text rs)"] by auto
  with Cons.prems read_shape have "shape r'" by blast
  with Cons obtain rs' where
    "dump_records read_text r' (concat (map write_text rs)) = Some (Some rs')" "map view rs' = map view rs"
    by auto
  with r' show ?case by (simp add: dump_records.simps [of _ r0])
qed

end

end
