(* ===== verification/SRecord.thy ===== *)
theory SRecord
  imports Codec
begin

text \<open>
  Motorola S-Records (bootstrap/srecord.c, bootstrap/srecord.h).  A record is the C
  structure; its \<open>data\<close> array is a list of 32 bytes.  Every operation returns the code of
  the C function, and \<open>SRECORD_UNDEFINED\<close> where the C code would index outside an array.
  The reader is split as the code is: get a line, cut it at the first CR or LF, then the
  fields; the second half is shared with the monitor of bootstrap/simple.c, which differs in
  the conversion it calls, so that conversion is a parameter.
\<close>

section \<open>Data\<close>

datatype srec_ret =
    SRECORD_OK
  | SRECORD_ERROR_FILE
  | SRECORD_ERROR_EOF
  | SRECORD_ERROR_INVALID_RECORD
  | SRECORD_ERROR_INVALID_ARGUMENTS
  | SRECORD_ERROR_NEWLINE
  | SRECORD_UNDEFINED

record srecord =
  sr_address :: u32
  sr_data :: "u8 list"
  sr_dataLen :: int
  sr_type :: int
  sr_checksum :: u8

definition SRECORD_RECORD_BUFF_SIZE :: nat where "SRECORD_RECORD_BUFF_SIZE = 768"
definition SRECORD_MAX_DATA_LEN :: int where "SRECORD_MAX_DATA_LEN = 64"
definition SRECORD_MAX_ADDRESS_LEN :: nat where "SRECORD_MAX_ADDRESS_LEN = 8"

definition SRecord_Address_Lengths :: "nat list" where
  "SRecord_Address_Lengths = [4, 4, 6, 8, 8, 4, 6, 8, 6, 4]"

lemmas srec_consts = SRECORD_RECORD_BUFF_SIZE_def SRECORD_MAX_DATA_LEN_def
  SRECORD_MAX_ADDRESS_LEN_def

definition address_length :: "int \<Rightarrow> nat option" where
  "address_length ty =
     (if 0 \<le> ty \<and> ty < int (length SRecord_Address_Lengths)
      then Some (SRecord_Address_Lengths ! nat ty) else None)"

section \<open>Operations\<close>

text \<open>The sum of the count, address and data fields, complemented.\<close>

definition Checksum_SRecord :: "srecord \<Rightarrow> u8 option" where
  "Checksum_SRecord r =
     (case address_length (sr_type r) of
        None \<Rightarrow> None
      | Some al \<Rightarrow>
          if int (length (sr_data r)) < sr_dataLen r then None
          else
            (let fieldDataCount = int (al div 2) + sr_dataLen r + 1;
                 checksum = word_of_int fieldDataCount;
                 checksum = checksum + ucast (sr_address r AND 0x000000FF);
                 checksum = checksum + ucast (drop_bit 8 (sr_address r AND 0x0000FF00));
                 checksum = checksum + ucast (drop_bit 16 (sr_address r AND 0x00FF0000));
                 checksum = checksum + ucast (drop_bit 24 (sr_address r AND 0xFF000000));
                 checksum = foldl (+) checksum (take (nat (sr_dataLen r)) (sr_data r))
             in Some (NOT checksum)))"

definition New_SRecord ::
  "int \<Rightarrow> u32 \<Rightarrow> u8 list \<Rightarrow> int \<Rightarrow> srecord option \<Rightarrow> srec_ret \<times> srecord option" where
  "New_SRecord ty address data dataLen srec =
     (case srec of
        None \<Rightarrow> (SRECORD_ERROR_INVALID_ARGUMENTS, None)
      | Some r \<Rightarrow>
          if dataLen < 0 \<or> dataLen > SRECORD_MAX_DATA_LEN div 2
          then (SRECORD_ERROR_INVALID_ARGUMENTS, Some r)
          else if int (length data) < dataLen then (SRECORD_UNDEFINED, Some r)
          else
            (let n = nat dataLen;
                 r = r\<lparr>sr_type := ty, sr_address := address,
                       sr_data := take n data @ drop n (sr_data r), sr_dataLen := dataLen\<rparr>
             in case Checksum_SRecord r of
                  None \<Rightarrow> (SRECORD_UNDEFINED, Some r)
                | Some k \<Rightarrow> (SRECORD_OK, Some (r\<lparr>sr_checksum := k\<rparr>))))"

text \<open>The fields of a line, up to the checksum comparison.\<close>

definition parse_tail :: "(string \<Rightarrow> int) \<Rightarrow> string \<Rightarrow> int \<Rightarrow> nat \<Rightarrow> srecord \<Rightarrow> srec_ret \<times> srecord" where
  "parse_tail conv s fieldDataCount al r =
     (let asciiDataLen = fieldDataCount * 2 - int al - 2 in
      if asciiDataLen < 0 \<or> asciiDataLen > SRECORD_MAX_DATA_LEN
      then (SRECORD_ERROR_INVALID_RECORD, r)
      else if int (length s) < 4 + int al + asciiDataLen + 2
      then (SRECORD_ERROR_INVALID_RECORD, r)
      else
        (let dataOffset = 4 + int al in
         case read_hex_bytes conv s dataOffset 0 (nat (asciiDataLen div 2)) (sr_data r) of
           None \<Rightarrow> (SRECORD_UNDEFINED, r)
         | Some d \<Rightarrow>
             (let r = r\<lparr>sr_data := d, sr_dataLen := asciiDataLen div 2\<rparr> in
              case substr s (dataOffset + asciiDataLen) 2 of
                None \<Rightarrow> (SRECORD_UNDEFINED, r)
              | Some kf \<Rightarrow>
                  (let r = r\<lparr>sr_checksum := word_of_int (conv kf)\<rparr> in
                   case Checksum_SRecord r of
                     None \<Rightarrow> (SRECORD_UNDEFINED, r)
                   | Some k \<Rightarrow>
                       if sr_checksum r \<noteq> k then (SRECORD_ERROR_INVALID_RECORD, r)
                       else (SRECORD_OK, r)))))"

definition parse_srecord :: "(string \<Rightarrow> int) \<Rightarrow> string \<Rightarrow> srecord \<Rightarrow> srec_ret \<times> srecord" where
  "parse_srecord conv s r =
     (if length s < 1 + 2 then (SRECORD_ERROR_INVALID_RECORD, r)
      else if s ! 0 \<noteq> CHR ''S'' then (SRECORD_ERROR_INVALID_RECORD, r)
      else
        (case (substr s 1 1, substr s 2 2) of
           (Some tf, Some cf) \<Rightarrow>
             (let r = r\<lparr>sr_type := conv tf\<rparr>; fieldDataCount = conv cf in
              if sr_type r < 0 \<or> sr_type r > 9 then (SRECORD_ERROR_INVALID_RECORD, r)
              else
                (case address_length (sr_type r) of
                   None \<Rightarrow> (SRECORD_UNDEFINED, r)
                 | Some al \<Rightarrow>
                     if length s < 4 + al then (SRECORD_ERROR_INVALID_RECORD, r)
                     else
                       (case substr s 4 al of
                          None \<Rightarrow> (SRECORD_UNDEFINED, r)
                        | Some af \<Rightarrow>
                            parse_tail conv s fieldDataCount al
                              (r\<lparr>sr_address := word_of_int (conv af)\<rparr>))))
         | _ \<Rightarrow> (SRECORD_UNDEFINED, r)))"

definition Read_SRecord ::
  "int \<Rightarrow> srecord option \<Rightarrow> infile option \<Rightarrow> srec_ret \<times> srecord option \<times> infile option" where
  "Read_SRecord lmax srec inp =
     (case (srec, inp) of
        (Some r, Some f) \<Rightarrow>
          (case fgets SRECORD_RECORD_BUFF_SIZE f of
             (None, f') \<Rightarrow>
               ((if feof f' then SRECORD_ERROR_EOF else SRECORD_ERROR_FILE), Some r, Some f')
           | (Some buf, f') \<Rightarrow>
               (let s = cut_line buf in
                if length s = 0 then (SRECORD_ERROR_NEWLINE, Some r, Some f')
                else (let (c, r') = parse_srecord (strtol16 lmax) s r in (c, Some r', Some f'))))
      | _ \<Rightarrow> (SRECORD_ERROR_INVALID_ARGUMENTS, srec, inp))"

definition Write_SRecord ::
  "srecord option \<Rightarrow> outfile option \<Rightarrow> srec_ret \<times> outfile option" where
  "Write_SRecord srec out =
     (case (srec, out) of
        (Some r, Some f) \<Rightarrow>
          if sr_type r < 0 \<or> sr_type r > 9 \<or> sr_dataLen r > SRECORD_MAX_DATA_LEN div 2
          then (SRECORD_ERROR_INVALID_RECORD, out)
          else
            (case address_length (sr_type r) of
               None \<Rightarrow> (SRECORD_UNDEFINED, out)
             | Some al \<Rightarrow>
                 (let fieldDataCount = int (al div 2) + sr_dataLen r + 1;
                      asciiAddressOffset = SRECORD_MAX_ADDRESS_LEN - al in
                  case fprintf f (CHR ''S'' # fmt_X 1 (unat (word_of_int (sr_type r) :: u32))
                                   @ fmt_X 2 (unat (word_of_int fieldDataCount :: u32))) of
                    (False, f) \<Rightarrow> (SRECORD_ERROR_FILE, Some f)
                  | (True, f) \<Rightarrow>
                      (let strAddress = take SRECORD_MAX_ADDRESS_LEN (fmt_X 8 (unat (sr_address r))) in
                       case fprintf f (drop asciiAddressOffset strAddress) of
                         (False, f) \<Rightarrow> (SRECORD_ERROR_FILE, Some f)
                       | (True, f) \<Rightarrow>
                           (case write_bytes f (take (nat (sr_dataLen r)) (sr_data r)) of
                              (False, f) \<Rightarrow> (SRECORD_ERROR_FILE, Some f)
                            | (True, f) \<Rightarrow>
                                (case Checksum_SRecord r of
                                   None \<Rightarrow> (SRECORD_UNDEFINED, Some f)
                                 | Some k \<Rightarrow>
                                     (case fprintf f (fmt_X 2 (unat k) @ [cr, lf]) of
                                        (False, f) \<Rightarrow> (SRECORD_ERROR_FILE, Some f)
                                      | (True, f) \<Rightarrow> (SRECORD_OK, Some f)))))))
      | _ \<Rightarrow> (SRECORD_ERROR_INVALID_ARGUMENTS, out))"

section \<open>Lemmas\<close>

text \<open>A record structure has a data array of 32 bytes.\<close>

definition srec_shape :: "srecord \<Rightarrow> bool" where
  "srec_shape r \<longleftrightarrow> length (sr_data r) = 32"

text \<open>The fields a record of its type can carry.\<close>

definition srec_fits :: "srecord \<Rightarrow> bool" where
  "srec_fits r \<longleftrightarrow> srec_shape r \<and> 0 \<le> sr_type r \<and> sr_type r \<le> 9
     \<and> 0 \<le> sr_dataLen r \<and> sr_dataLen r \<le> 32"

lemma address_length_Some:
  "0 \<le> ty \<Longrightarrow> ty \<le> 9 \<Longrightarrow> \<exists>al. address_length ty = Some al \<and> al \<in> {4, 6, 8}"
proof -
  assume "0 \<le> ty" "ty \<le> 9"
  then have "ty \<in> {0, 1, 2, 3, 4, 5, 6, 7, 8, 9}" by (simp, presburger)
  then show ?thesis
    by (elim insertE emptyE) (simp_all add: address_length_def SRecord_Address_Lengths_def)
qed

lemma address_length_range:
  "address_length ty = Some al \<Longrightarrow> 0 \<le> ty \<and> ty \<le> 9 \<and> al \<in> {4, 6, 8}"
proof -
  assume a: "address_length ty = Some al"
  then have "0 \<le> ty \<and> ty \<le> 9"
    by (auto simp: address_length_def SRecord_Address_Lengths_def split: if_splits)
  with a address_length_Some [of ty] show ?thesis by auto
qed

definition address_width :: "srecord \<Rightarrow> nat" where
  "address_width r = the (address_length (sr_type r))"

definition srec_count :: "srecord \<Rightarrow> nat" where
  "srec_count r = address_width r div 2 + nat (sr_dataLen r) + 1"

definition srec_payload :: "srecord \<Rightarrow> u8 list" where
  "srec_payload r = take (nat (sr_dataLen r)) (sr_data r)"

lemma srec_fits_width:
  assumes "srec_fits r"
  shows "address_length (sr_type r) = Some (address_width r)" "address_width r \<in> {4, 6, 8}"
  using assms address_length_Some [of "sr_type r"]
  by (auto simp: srec_fits_def address_width_def)

lemma srec_payload_length: "srec_fits r \<Longrightarrow> length (srec_payload r) = nat (sr_dataLen r)"
  by (auto simp: srec_payload_def srec_fits_def srec_shape_def)

lemma Checksum_SRecord_total: "srec_fits r \<Longrightarrow> \<exists>k. Checksum_SRecord r = Some k"
  by (auto simp: Checksum_SRecord_def srec_fits_width srec_fits_def srec_shape_def Let_def)

text \<open>The line of a record without its end, with checksum field \<open>k\<close>.\<close>

definition srec_line :: "srecord \<Rightarrow> u8 \<Rightarrow> string" where
  "srec_line r k = CHR ''S'' # hexn 1 (nat (sr_type r)) @ hexn 2 (srec_count r)
     @ hexn (address_width r) (unat (sr_address r))
     @ hex_bytes (srec_payload r) @ hexn 2 (unat k)"

text \<open>The address that fits the field.\<close>

definition cut_address :: "srecord \<Rightarrow> srecord" where
  "cut_address r = r\<lparr>sr_address := of_nat (unat (sr_address r) mod 16 ^ address_width r)\<rparr>"

definition srec_view :: "srecord \<Rightarrow> int \<times> u32 \<times> u8 list \<times> u8" where
  "srec_view r = (sr_type r, sr_address r, srec_payload r, sr_checksum r)"

text \<open>
  The address that comes back: a field is read with \<open>strtol\<close>, which stops at the largest \<open>long\<close>,
  so with a \<open>long\<close> of 32 bits an eight digit field from 0x80000000 on is read as 0x7FFFFFFF.
\<close>

definition read_back :: "(string \<Rightarrow> int) \<Rightarrow> srecord \<Rightarrow> srecord" where
  "read_back conv r = r\<lparr>sr_address := word_of_int (conv (hexn (address_width r) (unat (sr_address r))))\<rparr>"

lemma read_back_fields [simp]:
  "sr_type (read_back conv r) = sr_type r" "sr_dataLen (read_back conv r) = sr_dataLen r"
  "sr_data (read_back conv r) = sr_data r" "sr_checksum (read_back conv r) = sr_checksum r"
  "srec_payload (read_back conv r) = srec_payload r"
  by (simp_all add: read_back_def srec_payload_def)

lemma read_back_strtol16:
  assumes "srec_fits r"
  shows "read_back (strtol16 lmax) r =
    r\<lparr>sr_address := word_of_int (min lmax (int (unat (sr_address r) mod 16 ^ address_width r)))\<rparr>"
proof -
  have "0 < address_width r" using srec_fits_width(2) [OF assms] by auto
  then have "strtol16 lmax (hexn (address_width r) (unat (sr_address r) mod 16 ^ address_width r))
      = min lmax (int (unat (sr_address r) mod 16 ^ address_width r))"
    by (intro strtol16_saturates) simp_all
  then show ?thesis using hexn_mod [of "address_width r" "unat (sr_address r)"] by (simp add: read_back_def)
qed

lemma read_back_cut:
  assumes "srec_fits r" and "int (unat (sr_address r) mod 16 ^ address_width r) \<le> lmax"
  shows "read_back (strtol16 lmax) r = cut_address r"
  using assms(2) by (simp add: read_back_strtol16 [OF assms(1)] cut_address_def)

lemma parse_tail_line:
  assumes conv: "reads_hex conv" and n: "n \<le> 32" and shape: "length (sr_data r) = 32"
    and al: "al = address_width r" "address_length (sr_type r) = Some al" "al \<in> {4, 6, 8}"
    and pre: "length pre = 4 + al" and bs: "length bs = n"
  shows "\<exists>d. length d = 32 \<and> take n d = bs \<and>
    parse_tail conv (pre @ hex_bytes bs @ hexn 2 (unat k)) (int (al div 2 + n + 1)) al r =
      (let r' = r\<lparr>sr_data := d, sr_dataLen := int n, sr_checksum := k\<rparr> in
       (if Some k = Checksum_SRecord r' then SRECORD_OK else SRECORD_ERROR_INVALID_RECORD, r'))"
proof -
  let ?s = "pre @ hex_bytes bs @ hexn 2 (unat k)"
  have even: "int (al div 2 + n + 1) * 2 - int al - 2 = 2 * int n"
    using al(3) by auto
  obtain d where d: "read_hex_bytes conv ?s (4 + int al) 0 n (sr_data r) = Some d"
      "length d = 32" "take n d = bs"
    using read_hex_bytes_roundtrip [OF reads_hex_bytes [OF conv], of 0 bs "sr_data r" ?s pre
        "hexn 2 (unat k)" "4 + int al"] n shape pre bs by auto
  have k: "word_of_int (conv (hexn 2 (unat k))) = k"
    using reads_hexD [OF conv, of 2 "unat k"] byte_small [of k] by simp
  have sub: "substr ?s (4 + int al + 2 * int n) 2 = Some (hexn 2 (unat k))"
    using substr_append(2) [of "pre @ hex_bytes bs" _ "hexn 2 (unat k)" 2] pre bs by simp
  have sum: "Checksum_SRecord (r\<lparr>sr_data := d, sr_dataLen := int n, sr_checksum := k\<rparr>) \<noteq> None"
    using al n d(2) by (simp add: Checksum_SRecord_def Let_def)
  then obtain k' where k': "Checksum_SRecord (r\<lparr>sr_data := d, sr_dataLen := int n, sr_checksum := k\<rparr>) = Some k'"
    by blast
  show ?thesis
  proof (intro exI [of _ d] conjI d(2,3))
    show "parse_tail conv ?s (int (al div 2 + n + 1)) al r =
      (let r' = r\<lparr>sr_data := d, sr_dataLen := int n, sr_checksum := k\<rparr> in
       (if Some k = Checksum_SRecord r' then SRECORD_OK else SRECORD_ERROR_INVALID_RECORD, r'))"
      unfolding parse_tail_def even
      using n pre bs d(1) by (simp add: srec_consts sub k k')
  qed
qed

lemma srec_count_bound: "srec_fits r \<Longrightarrow> srec_count r < 256"
  using srec_fits_width(2) [of r] by (auto simp: srec_count_def srec_fits_def)

lemma nth_substr_line:
  assumes "length t = 1" "length c = 2" "length a = al"
  shows "substr (x # t @ c @ a @ z) 1 1 = Some t" "substr (x # t @ c @ a @ z) 2 2 = Some c"
    "substr (x # t @ c @ a @ z) 4 al = Some a"
  using assms substr_append(1) [of "[x]" 1 t 1 "c @ a @ z"] substr_append(1) [of "x # t" 2 c 2 "a @ z"]
    substr_append(1) [of "x # t @ c" 4 a al z] by auto

text \<open>
  Reading the line of a record gives the record with the address as the field gives it back, and
  the checksum in the line is compared with the one of that record.
\<close>

lemma parse_srecord_line:
  assumes conv: "reads_hex conv" and fits: "srec_fits r" and r0: "srec_shape r0"
  shows "\<exists>r'. srec_shape r' \<and> sr_checksum r' = k \<and> sr_dataLen r' = sr_dataLen r
     \<and> srec_view r' = srec_view ((read_back conv r)\<lparr>sr_checksum := k\<rparr>)
     \<and> parse_srecord conv (srec_line r k) r0 =
        (if Some k = Checksum_SRecord r' then SRECORD_OK else SRECORD_ERROR_INVALID_RECORD, r')"
proof -
  let ?al = "address_width r" and ?n = "nat (sr_dataLen r)"
  let ?t = "hexn 1 (nat (sr_type r))" and ?c = "hexn 2 (srec_count r)"
  let ?a = "hexn ?al (unat (sr_address r))"
  let ?pre = "CHR ''S'' # ?t @ ?c @ ?a"
  let ?z = "hex_bytes (srec_payload r) @ hexn 2 (unat k)"
  let ?r = "r0\<lparr>sr_type := sr_type r, sr_address := word_of_int (conv ?a)\<rparr>"
  have al: "address_length (sr_type r) = Some ?al" "?al \<in> {4, 6, 8}"
    using srec_fits_width [OF fits] by auto
  have ty: "0 \<le> sr_type r" "sr_type r \<le> 9" and n: "?n \<le> 32"
    using fits by (auto simp: srec_fits_def)
  have ty': "conv ?t = sr_type r"
    using reads_hexD [OF conv, of 1 "nat (sr_type r)"] ty by simp
  have cn: "conv ?c = int (?al div 2 + ?n + 1)"
    using reads_hexD [OF conv, of 2 "srec_count r"] srec_count_bound [OF fits]
    by (simp add: srec_count_def)
  have line: "srec_line r k = CHR ''S'' # ?t @ ?c @ ?a @ ?z"
    by (simp add: srec_line_def)
  have step: "parse_srecord conv (srec_line r k) r0
      = parse_tail conv (?pre @ ?z) (int (?al div 2 + ?n + 1)) ?al ?r"
    unfolding line parse_srecord_def
    using al ty fits by (simp add: nth_substr_line ty' cn srec_fits_def del: One_nat_def)
  have "\<exists>d. length d = 32 \<and> take ?n d = srec_payload r \<and>
    parse_tail conv (?pre @ ?z) (int (?al div 2 + ?n + 1)) ?al ?r =
      (let r' = ?r\<lparr>sr_data := d, sr_dataLen := int ?n, sr_checksum := k\<rparr> in
       (if Some k = Checksum_SRecord r' then SRECORD_OK else SRECORD_ERROR_INVALID_RECORD, r'))"
    using al r0 n srec_payload_length [OF fits]
    by (intro parse_tail_line conv) (auto simp: srec_shape_def address_width_def)
  then obtain d where d: "length d = 32" "take ?n d = srec_payload r" and
    p: "parse_tail conv (?pre @ ?z) (int (?al div 2 + ?n + 1)) ?al ?r =
      (let r' = ?r\<lparr>sr_data := d, sr_dataLen := int ?n, sr_checksum := k\<rparr> in
       (if Some k = Checksum_SRecord r' then SRECORD_OK else SRECORD_ERROR_INVALID_RECORD, r'))"
    by blast
  let ?r' = "?r\<lparr>sr_data := d, sr_dataLen := int ?n, sr_checksum := k\<rparr>"
  have "srec_view ?r' = srec_view ((read_back conv r)\<lparr>sr_checksum := k\<rparr>)"
    using d by (simp add: srec_view_def srec_payload_def read_back_def)
  moreover have "srec_shape ?r'" using d by (simp add: srec_shape_def)
  moreover have "sr_dataLen ?r' = sr_dataLen r" using fits by (simp add: srec_fits_def)
  ultimately show ?thesis
    using step p by (intro exI [of _ ?r']) (simp add: Let_def)
qed

section \<open>Writing\<close>

text \<open>The texts of the four writes that surround the data bytes.\<close>

lemma srec_fields_text:
  assumes fits: "srec_fits r"
  shows "fmt_X 1 (unat (word_of_int (sr_type r) :: u32)) = hexn 1 (nat (sr_type r))"
    "int (address_width r div 2) + sr_dataLen r + 1 = int (srec_count r)"
    "fmt_X 2 (unat (word_of_nat (srec_count r) :: u32)) = hexn 2 (srec_count r)"
    "drop (8 - address_width r) (take 8 (fmt_X 8 (unat (sr_address r)))) = hexn (address_width r) (unat (sr_address r))"
    "fmt_X 2 (unat (k :: u8)) = hexn 2 (unat k)"
proof -
  have r: "0 \<le> sr_type r" "sr_type r \<le> 9" "0 \<le> sr_dataLen r" "sr_dataLen r \<le> 32" "address_width r \<in> {4, 6, 8}"
    using fits srec_fits_width(2) [OF fits] by (auto simp: srec_fits_def)
  then show "fmt_X 1 (unat (word_of_int (sr_type r) :: u32)) = hexn 1 (nat (sr_type r))"
    by (simp add: unat_small_int fmt_X_hexn)
  show "int (address_width r div 2) + sr_dataLen r + 1 = int (srec_count r)"
    using r by (simp add: srec_count_def)
  show "fmt_X 2 (unat (word_of_nat (srec_count r) :: u32)) = hexn 2 (srec_count r)"
    using srec_count_bound [OF fits] by (simp add: unat_of_nat fmt_X_hexn)
  have "fmt_X 8 (unat (sr_address r)) = hexn 8 (unat (sr_address r))"
    by (rule fmt_X_hexn) simp_all
  then show "drop (8 - address_width r) (take 8 (fmt_X 8 (unat (sr_address r)))) = hexn (address_width r) (unat (sr_address r))"
    using r(5) drop_hexn [of "address_width r" 8] by auto
  show "fmt_X 2 (unat (k :: u8)) = hexn 2 (unat k)"
    by (rule fmt_X_hexn) simp_all
qed

lemma Write_SRecord_ok:
  assumes fits: "srec_fits r" and k: "Checksum_SRecord r = Some k" and ok: "ofails f = (\<lambda>_. False)"
  shows "\<exists>f'. Write_SRecord (Some r) (Some f) = (SRECORD_OK, Some f')
    \<and> odata f' = odata f @ srec_line r k @ [cr, lf] \<and> ofails f' = ofails f"
proof -
  let ?h = "CHR ''S'' # hexn 1 (nat (sr_type r)) @ hexn 2 (srec_count r)"
  let ?a = "hexn (address_width r) (unat (sr_address r))"
  let ?f = "f\<lparr>odata := (odata f @ ?h) @ ?a, ocalls := Suc (Suc (ocalls f))\<rparr>"
  have "ofails ?f = (\<lambda>_. False)" using ok by simp
  from write_bytes_ok [OF this, of "srec_payload r"] obtain f' where
    f': "write_bytes ?f (srec_payload r) = (True, f')" "odata f' = odata ?f @ hex_bytes (srec_payload r)"
      "ofails f' = ofails f" by auto
  have ranges: "\<not> sr_type r < 0" "\<not> sr_type r > 9" "\<not> sr_dataLen r > 32"
    using fits by (auto simp: srec_fits_def)
  show ?thesis
    unfolding Write_SRecord_def
    using ok ranges f' k srec_fits_width(1) [OF fits]
    by (simp add: srec_consts fprintf_def srec_fields_text [OF fits] srec_payload_def [symmetric]
        srec_line_def Let_def del: One_nat_def)
qed

section \<open>Reading\<close>

lemma srec_line_plain:
  "nul \<notin> set (srec_line r k)" "cr \<notin> set (srec_line r k)" "lf \<notin> set (srec_line r k)"
  by (simp_all add: srec_line_def) (simp_all add: nul_def cr_def lf_def)

lemma srec_line_length: "srec_fits r \<Longrightarrow> length (srec_line r k) \<le> 78"
  using srec_fits_width(2) [of r] srec_payload_length [of r]
  by (auto simp: srec_line_def srec_fits_def)

lemma Read_SRecord_line:
  assumes "srec_fits r" and "\<not> ierror f" and "idata f = srec_line r k @ [cr, lf] @ rest"
  shows "Read_SRecord lmax (Some r0) (Some f) =
    (let (c, r') = parse_srecord (strtol16 lmax) (srec_line r k) r0 in (c, Some r', Some (f\<lparr>idata := rest\<rparr>)))"
proof -
  have "fgets SRECORD_RECORD_BUFF_SIZE f = (Some (srec_line r k @ [cr] @ [lf]), f\<lparr>idata := rest\<rparr>)"
    using assms srec_line_length [OF assms(1), of k] srec_line_plain [of r k]
    by (simp add: fgets_def srec_consts gets_n_line [of "srec_line r k @ [cr]" _ rest, simplified])
  moreover have "srec_line r k \<noteq> []" by (simp add: srec_line_def)
  ultimately show ?thesis
    by (simp add: Read_SRecord_def cut_line_crlf srec_line_plain)
qed

section \<open>Properties\<close>

definition valid_srecord :: "srecord \<Rightarrow> bool" where
  "valid_srecord r \<longleftrightarrow> srec_fits r \<and> unat (sr_address r) < 16 ^ address_width r
     \<and> Checksum_SRecord r = Some (sr_checksum r)"

lemma cut_address_valid: "valid_srecord r \<Longrightarrow> cut_address r = r"
  by (simp add: valid_srecord_def cut_address_def)

lemma Checksum_SRecord_view:
  assumes "sr_type r' = sr_type r" "sr_address r' = sr_address r" "sr_dataLen r' = sr_dataLen r"
    "srec_payload r' = srec_payload r" "srec_fits r" "srec_shape r'"
  shows "Checksum_SRecord r' = Checksum_SRecord r"
  using assms unfolding Checksum_SRecord_def srec_payload_def srec_fits_def srec_shape_def
  by (simp add: Let_def cong: option.case_cong)

text \<open>
  What the reader answers on the line of a record: OK exactly when the checksum in the line is
  that of the record with the address that is read back.
\<close>

lemma Read_SRecord_written:
  assumes fits: "srec_fits r" and r0: "srec_shape r0"
  shows "\<exists>r'. srec_view r' = srec_view ((read_back (strtol16 (LONG_MAX w)) r)\<lparr>sr_checksum := k\<rparr>) \<and> srec_shape r' \<and>
    Read_SRecord (LONG_MAX w) (Some r0) (Some \<lparr>idata = srec_line r k @ [cr, lf] @ rest, ierror = False\<rparr>)
     = (if Some k = Checksum_SRecord (read_back (strtol16 (LONG_MAX w)) r) then SRECORD_OK else SRECORD_ERROR_INVALID_RECORD,
        Some r', Some \<lparr>idata = rest, ierror = False\<rparr>)"
proof -
  let ?b = "read_back (strtol16 (LONG_MAX w)) r"
  have "reads_hex (strtol16 (LONG_MAX w))" by (rule reads_hex_strtol16) simp
  from parse_srecord_line [OF this fits r0, of k] obtain r' where
    r': "srec_shape r'" "sr_checksum r' = k" "sr_dataLen r' = sr_dataLen r"
      "srec_view r' = srec_view (?b\<lparr>sr_checksum := k\<rparr>)" and
    p: "parse_srecord (strtol16 (LONG_MAX w)) (srec_line r k) r0 =
        (if Some k = Checksum_SRecord r' then SRECORD_OK else SRECORD_ERROR_INVALID_RECORD, r')"
    by blast
  have pay: "srec_payload (?b\<lparr>sr_checksum := k\<rparr>) = srec_payload ?b" by (simp add: srec_payload_def)
  have "srec_fits ?b" using fits by (simp add: srec_fits_def srec_shape_def)
  then have "Checksum_SRecord r' = Checksum_SRecord ?b"
    using r' pay by (intro Checksum_SRecord_view) (simp_all add: srec_view_def)
  with p r' fits show ?thesis
    by (intro exI [of _ r']) (simp add: Read_SRecord_line [OF fits, of _ k rest])
qed

lemma srecord_roundtrip_text:
  assumes "valid_srecord r" and "srec_shape r0" and "ofails f = (\<lambda>_. False)"
  shows "\<exists>f' line. Write_SRecord (Some r) (Some f) = (SRECORD_OK, Some f') \<and> odata f' = odata f @ line \<and>
    (\<forall>w rest. \<exists>c r'. Read_SRecord (LONG_MAX w) (Some r0) (Some \<lparr>idata = line @ rest, ierror = False\<rparr>)
       = (c, Some r', Some \<lparr>idata = rest, ierror = False\<rparr>) \<and>
       (if int (unat (sr_address r)) \<le> LONG_MAX w
        then c = SRECORD_OK \<and> srec_view r' = srec_view r
        else w = Long32 \<and> srec_view r' = srec_view (r\<lparr>sr_address := 0x7FFFFFFF\<rparr>) \<and>
          c = (if Checksum_SRecord (r\<lparr>sr_address := 0x7FFFFFFF\<rparr>) = Some (sr_checksum r)
               then SRECORD_OK else SRECORD_ERROR_INVALID_RECORD)))"
proof -
  let ?line = "srec_line r (sr_checksum r) @ [cr, lf]"
  have v: "srec_fits r" "Checksum_SRecord r = Some (sr_checksum r)" "cut_address r = r"
    and small: "unat (sr_address r) mod 16 ^ address_width r = unat (sr_address r)"
    using assms(1) cut_address_valid by (auto simp: valid_srecord_def)
  from Write_SRecord_ok [OF v(1,2) assms(3)] obtain f' where
    "Write_SRecord (Some r) (Some f) = (SRECORD_OK, Some f')" "odata f' = odata f @ ?line" by auto
  moreover have "\<exists>c r'. Read_SRecord (LONG_MAX w) (Some r0) (Some \<lparr>idata = ?line @ rest, ierror = False\<rparr>)
       = (c, Some r', Some \<lparr>idata = rest, ierror = False\<rparr>) \<and>
       (if int (unat (sr_address r)) \<le> LONG_MAX w
        then c = SRECORD_OK \<and> srec_view r' = srec_view r
        else w = Long32 \<and> srec_view r' = srec_view (r\<lparr>sr_address := 0x7FFFFFFF\<rparr>) \<and>
          c = (if Checksum_SRecord (r\<lparr>sr_address := 0x7FFFFFFF\<rparr>) = Some (sr_checksum r)
               then SRECORD_OK else SRECORD_ERROR_INVALID_RECORD))" for w rest
  proof (cases "int (unat (sr_address r)) \<le> LONG_MAX w")
    case True
    then have "read_back (strtol16 (LONG_MAX w)) r = r"
      using read_back_cut [OF v(1)] v(3) small by simp
    then show ?thesis
      using Read_SRecord_written [OF v(1) assms(2), where w = w and k = "sr_checksum r" and rest = rest] v(2) True by auto
  next
    case False
    have "int (unat (sr_address r)) < 4294967296" using unsigned_less [of "sr_address r"] by simp
    with False have w: "w = Long32" by (cases w) simp_all
    with False have "read_back (strtol16 (LONG_MAX w)) r = r\<lparr>sr_address := 0x7FFFFFFF\<rparr>"
      using read_back_strtol16 [OF v(1), of "LONG_MAX w"] small by simp
    then show ?thesis
      using Read_SRecord_written [OF v(1) assms(2), where w = w and k = "sr_checksum r" and rest = rest] False w by auto
  qed
  ultimately show ?thesis by blast
qed

text \<open>C1: Writing a record whose fields fit its type and reading the text back consumes exactly that
  text, whatever the width of \<open>long\<close>.  When the address is at most \<open>LONG_MAX\<close> (always with 64 bits; below
  0x80000000 with the 32 bits of the target) it succeeds and gives the type, address, data bytes and
  checksum that were written.  Otherwise \<open>strtol\<close> saturates: the address comes back as 0x7FFFFFFF, and
  the reader accepts this record exactly if the two addresses have the same checksum.\<close>

theorem srecord_roundtrip:
  assumes "valid_srecord r" and "srec_shape r0" and "ofails f = (\<lambda>_. False)"
  shows "\<exists>f' line. Write_SRecord (Some r) (Some f) = (SRECORD_OK, Some f') \<and> odata f' = odata f @ line \<and>
    (\<forall>w rest. \<exists>c r'. Read_SRecord (LONG_MAX w) (Some r0) (Some \<lparr>idata = line @ rest, ierror = False\<rparr>)
       = (c, Some r', Some \<lparr>idata = rest, ierror = False\<rparr>) \<and>
       (if int (unat (sr_address r)) \<le> LONG_MAX w
        then c = SRECORD_OK \<and> srec_view r' = srec_view r
        else w = Long32 \<and> srec_view r' = srec_view (r\<lparr>sr_address := 0x7FFFFFFF\<rparr>) \<and>
          c = (if Checksum_SRecord (r\<lparr>sr_address := 0x7FFFFFFF\<rparr>) = Some (sr_checksum r)
               then SRECORD_OK else SRECORD_ERROR_INVALID_RECORD)))"
  using assms by (rule srecord_roundtrip_text)

definition srec_sample :: srecord where
  "srec_sample = \<lparr>sr_address = 0x1234, sr_data = [0xAA, 0x55] @ replicate 30 0, sr_dataLen = 2,
     sr_type = 1, sr_checksum = 0xB5\<rparr>"

definition srec_blank :: srecord where
  "srec_blank = \<lparr>sr_address = 0, sr_data = replicate 32 0, sr_dataLen = 0, sr_type = 0, sr_checksum = 0\<rparr>"

lemma srec_sample_valid: "valid_srecord srec_sample"
  by (simp add: valid_srecord_def srec_fits_def srec_shape_def srec_sample_def address_width_def
      address_length_def SRecord_Address_Lengths_def Checksum_SRecord_def Let_def)

lemma srec_blank_shape: "srec_shape srec_blank"
  by (simp add: srec_shape_def srec_blank_def)

theorem srecord_roundtrip_witness:
  "valid_srecord srec_sample \<and> (\<exists>f' line. Write_SRecord (Some srec_sample) (Some out_blank) = (SRECORD_OK, Some f')
     \<and> odata f' = [] @ line)"
proof -
  have "ofails out_blank = (\<lambda>_. False)" by (simp add: out_blank_def)
  from srecord_roundtrip [OF srec_sample_valid srec_blank_shape this] srec_sample_valid
  show ?thesis by (auto simp: out_blank_def)
qed

lemma parse_tail_safe:
  assumes "parse_tail conv s cnt al r = (c, r')" and "srec_shape r" and "4 + al \<le> length s"
    and "address_length (sr_type r) = Some al"
  shows "c \<noteq> SRECORD_UNDEFINED \<and> srec_shape r' \<and>
    (c = SRECORD_OK \<longrightarrow> srec_fits r' \<and> Checksum_SRecord r' = Some (sr_checksum r'))"
proof -
  let ?adl = "cnt * 2 - int al - 2"
  show ?thesis
  proof (cases "?adl < 0 \<or> ?adl > 64 \<or> int (length s) < 4 + int al + ?adl + 2")
    case True
    with assms(1,2) show ?thesis by (auto simp: parse_tail_def srec_consts Let_def split: if_splits)
  next
    case False
    let ?n = "nat (?adl div 2)"
    have al: "al \<in> {4, 6, 8}" using address_length_range [OF assms(4)] by simp
    then have even: "?adl = 2 * int ?n" using False by auto
    have "read_hex_bytes conv s (4 + int al) 0 ?n (sr_data r) \<noteq> None"
      using False even assms(2) by (intro read_hex_bytes_defined) (auto simp: srec_shape_def)
    then obtain d where d: "read_hex_bytes conv s (4 + int al) 0 ?n (sr_data r) = Some d" by blast
    have ld: "length d = 32" using read_hex_bytes_length [OF d] assms(2) by (simp add: srec_shape_def)
    have "substr s (4 + int al + ?adl) 2 \<noteq> None" using False by (simp add: substr_None_iff)
    then obtain kf where kf: "substr s (4 + int al + ?adl) 2 = Some kf" by blast
    let ?r = "r\<lparr>sr_data := d, sr_dataLen := ?adl div 2, sr_checksum := word_of_int (conv kf)\<rparr>"
    have fits: "srec_fits ?r"
      using ld False address_length_range [OF assms(4)] by (auto simp: srec_fits_def srec_shape_def)
    from Checksum_SRecord_total [OF this] obtain k where k: "Checksum_SRecord ?r = Some k" by blast
    have "(c, r') = (if word_of_int (conv kf) \<noteq> k then SRECORD_ERROR_INVALID_RECORD else SRECORD_OK, ?r)"
      using assms(1) False d kf k by (simp add: parse_tail_def srec_consts Let_def split: if_splits)
    with fits k show ?thesis by (auto simp: srec_fits_def split: if_splits)
  qed
qed

lemma parse_srecord_safe:
  assumes "parse_srecord conv s r = (c, r')" and "srec_shape r"
  shows "c \<noteq> SRECORD_UNDEFINED \<and> srec_shape r' \<and>
    (c = SRECORD_OK \<longrightarrow> srec_fits r' \<and> Checksum_SRecord r' = Some (sr_checksum r'))"
proof (cases "length s < 3 \<or> s ! 0 \<noteq> CHR ''S''")
  case True
  with assms show ?thesis by (auto simp: parse_srecord_def split: if_splits)
next
  case False
  then have "substr s 1 1 \<noteq> None" "substr s 2 2 \<noteq> None" by (auto simp: substr_None_iff)
  then obtain tf cf where f: "substr s 1 1 = Some tf" "substr s 2 2 = Some cf" by blast
  let ?r = "r\<lparr>sr_type := conv tf\<rparr>"
  have shape: "srec_shape ?r" using assms(2) by (simp add: srec_shape_def)
  show ?thesis
  proof (cases "conv tf < 0 \<or> conv tf > 9")
    case True
    with False f assms(1) shape show ?thesis by (auto simp: parse_srecord_def Let_def)
  next
    case ty: False
    then obtain al where al: "address_length (conv tf) = Some al"
      using address_length_Some [of "conv tf"] by auto
    show ?thesis
    proof (cases "length s < 4 + al")
      case True
      with False f ty al assms(1) shape show ?thesis by (auto simp: parse_srecord_def Let_def)
    next
      case len: False
      then obtain af where af: "substr s 4 al = Some af" by (auto simp: substr_def)
      have "parse_tail conv s (conv cf) al (?r\<lparr>sr_address := word_of_int (conv af)\<rparr>) = (c, r')"
        using False f ty al len af assms(1) by (simp add: parse_srecord_def Let_def)
      from parse_tail_safe [OF this] show ?thesis
        using shape len al by (auto simp: srec_shape_def)
    qed
  qed
qed

lemma Read_SRecord_safe:
  assumes "srec_shape r0" and "Read_SRecord lmax (Some r0) (Some f) = (c, Some r', f')"
  shows "c \<noteq> SRECORD_UNDEFINED \<and> srec_shape r' \<and>
    (c = SRECORD_OK \<longrightarrow> srec_fits r' \<and> Checksum_SRecord r' = Some (sr_checksum r'))"
proof -
  obtain l g where l: "fgets SRECORD_RECORD_BUFF_SIZE f = (l, g)" by fastforce
  show ?thesis
  proof (cases l)
    case None
    with assms l show ?thesis by (auto simp: Read_SRecord_def split: if_splits)
  next
    case (Some buf)
    show ?thesis
    proof (cases "length (cut_line buf) = 0")
      case True
      with assms l Some show ?thesis by (auto simp: Read_SRecord_def)
    next
      case False
      with assms l Some have "parse_srecord (strtol16 lmax) (cut_line buf) r0 = (c, r')"
        by (auto simp: Read_SRecord_def split: prod.splits)
      with assms(1) show ?thesis by (rule parse_srecord_safe [rotated])
    qed
  qed
qed

lemmas srecord_read_shape = Read_SRecord_safe [THEN conjunct2, THEN conjunct1]

text \<open>C2: The reader accepts no record it could not hold: whatever the file, it never indexes outside
  its arrays, and after OK the data length is within the array, the type is S0 to S9 and the
  checksum field is the checksum of the fields.\<close>

theorem srecord_read_safe:
  assumes "srec_shape r0" and "Read_SRecord lmax (Some r0) (Some f) = (c, Some r', f')"
  shows "c \<noteq> SRECORD_UNDEFINED \<and> srec_shape r' \<and>
    (c = SRECORD_OK \<longrightarrow> srec_fits r' \<and> Checksum_SRecord r' = Some (sr_checksum r'))"
  using assms by (rule Read_SRecord_safe)

theorem srecord_read_safe_witness:
  "srec_shape srec_blank \<and> (\<exists>c r' f'. Read_SRecord (LONG_MAX Long32) (Some srec_blank)
      (Some \<lparr>idata = ''S9030000FC'', ierror = False\<rparr>) = (c, Some r', f') \<and> c \<noteq> SRECORD_UNDEFINED \<and> srec_shape r')"
proof -
  obtain c r' f' where r: "Read_SRecord (LONG_MAX Long32) (Some srec_blank)
      (Some \<lparr>idata = ''S9030000FC'', ierror = False\<rparr>) = (c, Some r', f')"
    by (cases "parse_srecord (strtol16 (LONG_MAX Long32)) (cut_line ''S9030000FC'') srec_blank")
      (auto simp: Read_SRecord_def fgets_def gets_n_all SRECORD_RECORD_BUFF_SIZE_def lf_def cut_line_def cstr_def
        nul_def cr_def Let_def)
  from srecord_read_safe [OF srec_blank_shape r] r srec_blank_shape show ?thesis by blast
qed

text \<open>The line of a record is complete in itself: the count, the four address bytes, the data bytes
  and the checksum of a record with its own checksum add up to 0xFF modulo 256.\<close>

theorem srecord_checksum_complement:
  assumes "Checksum_SRecord r = Some k" and "address_length (sr_type r) = Some al"
  shows "word_of_int (int (al div 2) + sr_dataLen r + 1)
    + ucast (sr_address r) + ucast (drop_bit 8 (sr_address r)) + ucast (drop_bit 16 (sr_address r))
    + ucast (drop_bit 24 (sr_address r)) + sum_list (take (nat (sr_dataLen r)) (sr_data r)) + k = 0xFF"
proof -
  have m: "ucast (w AND 255) = (ucast w :: u8)" for w :: u32
    by (rule ucast_masked_byte)
  have fold: "foldl (+) a xs = a + sum_list xs" for a :: u8 and xs
    by (induction xs arbitrary: a) (auto simp: add.assoc)
  have n: "NOT x = - x - 1" for x :: u8 by (simp add: not_eq_complement)
  from assms show ?thesis
    unfolding Checksum_SRecord_def
    by (auto simp: Let_def m fold n split: if_splits)
qed

theorem srecord_checksum_complement_witness:
  "word_of_int (int (4 div 2) + sr_dataLen srec_sample + 1)
    + ucast (sr_address srec_sample) + ucast (drop_bit 8 (sr_address srec_sample))
    + ucast (drop_bit 16 (sr_address srec_sample)) + ucast (drop_bit 24 (sr_address srec_sample))
    + sum_list (take (nat (sr_dataLen srec_sample)) (sr_data srec_sample)) + 0xB5 = (0xFF :: u8)"
proof -
  have "Checksum_SRecord srec_sample = Some 0xB5"
    using srec_sample_valid by (simp add: valid_srecord_def srec_sample_def)
  moreover have "address_length (sr_type srec_sample) = Some 4"
    by (simp add: srec_sample_def address_length_def SRecord_Address_Lengths_def)
  ultimately have "word_of_int (int (4 div 2) + sr_dataLen srec_sample + 1)
    + ucast (sr_address srec_sample) + ucast (drop_bit 8 (sr_address srec_sample))
    + ucast (drop_bit 16 (sr_address srec_sample)) + ucast (drop_bit 24 (sr_address srec_sample))
    + sum_list (take (nat (sr_dataLen srec_sample)) (sr_data srec_sample)) + 0xB5 = (0xFF :: u8)"
    by (rule srecord_checksum_complement)
  then show ?thesis .
qed

lemma Checksum_SRecord_field: "Checksum_SRecord (r\<lparr>sr_checksum := k\<rparr>) = Checksum_SRecord r"
  by (cases "address_length (sr_type r)") (simp_all add: Checksum_SRecord_def)

text \<open>Building a record checks the length and the pointer but not the type: with a type S0 to S9 it
  gives a record with its own checksum and OK, with any other type it reads the table of address
  lengths outside its bounds.\<close>

theorem srecord_new:
  assumes "srec_shape r0" and "0 \<le> n" "n \<le> 32" "n \<le> int (length data)"
  shows "(if 0 \<le> ty \<and> ty \<le> 9
      then \<exists>r. New_SRecord ty a data n (Some r0) = (SRECORD_OK, Some r) \<and> srec_fits r
        \<and> Checksum_SRecord r = Some (sr_checksum r)
        \<and> srec_view r = (ty, a, take (nat n) data, sr_checksum r)
      else fst (New_SRecord ty a data n (Some r0)) = SRECORD_UNDEFINED)"
proof -
  let ?r = "r0\<lparr>sr_type := ty, sr_address := a, sr_data := take (nat n) data @ drop (nat n) (sr_data r0), sr_dataLen := n\<rparr>"
  have shape: "srec_shape ?r" using assms by (auto simp: srec_shape_def)
  show ?thesis
  proof (cases "0 \<le> ty \<and> ty \<le> 9")
    case True
    then have "srec_fits ?r" using assms shape by (simp add: srec_fits_def)
    from Checksum_SRecord_total [OF this] obtain k where k: "Checksum_SRecord ?r = Some k" by blast
    have kk: "Checksum_SRecord (?r\<lparr>sr_checksum := k\<rparr>) = Checksum_SRecord ?r"
      by (rule Checksum_SRecord_field)
    show ?thesis
      using True assms k kk \<open>srec_fits ?r\<close>
      by (auto simp: New_SRecord_def srec_consts Let_def srec_fits_def srec_shape_def srec_view_def srec_payload_def)
  next
    case False
    then have "address_length ty = None"
      by (auto simp: address_length_def SRecord_Address_Lengths_def)
    with False assms show ?thesis
      by (auto simp: New_SRecord_def srec_consts Let_def Checksum_SRecord_def)
  qed
qed

theorem srecord_new_witness:
  "fst (New_SRecord 12 0 [] 0 (Some srec_blank)) = SRECORD_UNDEFINED \<and>
   fst (New_SRecord 3 0 [7] 1 (Some srec_blank)) = SRECORD_OK"
  using srecord_new [OF srec_blank_shape, of 0 "[]" 12 0] srecord_new [OF srec_blank_shape, of 1 "[7]" 3 0]
  by auto

text \<open>The writer does not check that the address fits the field of the record type: it prints the low
  digits but sums all four address bytes, so the line it writes is read back as OK exactly when
  the address bytes cut away do not change the checksum, and is rejected otherwise.\<close>

theorem srecord_write_read_address:
  assumes "srec_fits r" and "srec_shape r0" and "ofails f = (\<lambda>_. False)"
    and "int (unat (sr_address r) mod 16 ^ address_width r) \<le> LONG_MAX w"
  shows "\<exists>f' line. Write_SRecord (Some r) (Some f) = (SRECORD_OK, Some f') \<and> odata f' = odata f @ line \<and>
    fst (Read_SRecord (LONG_MAX w) (Some r0) (Some \<lparr>idata = line, ierror = False\<rparr>))
      = (if Checksum_SRecord (cut_address r) = Checksum_SRecord r then SRECORD_OK
         else SRECORD_ERROR_INVALID_RECORD)"
proof -
  from Checksum_SRecord_total [OF assms(1)] obtain k where k: "Checksum_SRecord r = Some k" by blast
  let ?line = "srec_line r k @ [cr, lf]"
  from Write_SRecord_ok [OF assms(1) k assms(3)] obtain f' where
    "Write_SRecord (Some r) (Some f) = (SRECORD_OK, Some f')" "odata f' = odata f @ ?line" by auto
  moreover have "fst (Read_SRecord (LONG_MAX w) (Some r0) (Some \<lparr>idata = ?line, ierror = False\<rparr>))
      = (if Checksum_SRecord (cut_address r) = Checksum_SRecord r then SRECORD_OK
         else SRECORD_ERROR_INVALID_RECORD)"
    using Read_SRecord_written [OF assms(1,2), where w = w and k = k and rest = "[]"] k read_back_cut [OF assms(1,4)] by auto
  ultimately show ?thesis by blast
qed

definition srec_wide :: srecord where
  "srec_wide = srec_sample\<lparr>sr_address := 0x00051234\<rparr>"

lemma srec_wide_fits: "srec_fits srec_wide"
  by (simp add: srec_fits_def srec_shape_def srec_wide_def srec_sample_def)

lemma srec_wide_checksum: "Checksum_SRecord (cut_address srec_wide) \<noteq> Checksum_SRecord srec_wide"
  by (simp add: cut_address_def srec_wide_def srec_sample_def address_width_def
      address_length_def SRecord_Address_Lengths_def Checksum_SRecord_def Let_def)

theorem srecord_write_read_address_witness:
  "\<exists>f' line. Write_SRecord (Some srec_wide) (Some out_blank) = (SRECORD_OK, Some f') \<and> odata f' = [] @ line \<and>
    fst (Read_SRecord (LONG_MAX Long32) (Some srec_blank) (Some \<lparr>idata = line, ierror = False\<rparr>))
      = SRECORD_ERROR_INVALID_RECORD"
proof -
  have "ofails out_blank = (\<lambda>_. False)" by (simp add: out_blank_def)
  from srecord_write_read_address [OF srec_wide_fits srec_blank_shape this, of Long32] srec_wide_checksum
  show ?thesis
    by (auto simp: out_blank_def srec_wide_def srec_sample_def address_width_def address_length_def
        SRecord_Address_Lengths_def)
qed

section \<open>S-Records as a record format\<close>

definition srec_write_text :: "srecord \<Rightarrow> string" where
  "srec_write_text r =
     (case Write_SRecord (Some r) (Some out_blank) of (SRECORD_OK, Some f) \<Rightarrow> odata f | _ \<Rightarrow> [])"

definition srec_read_text :: "long_width \<Rightarrow> srecord \<Rightarrow> string \<Rightarrow> (srecord \<times> string) option option" where
  "srec_read_text w r s =
     (case Read_SRecord (LONG_MAX w) (Some r) (Some \<lparr>idata = s, ierror = False\<rparr>) of
        (SRECORD_OK, Some r', Some f) \<Rightarrow> Some (Some (r', idata f))
      | (SRECORD_UNDEFINED, _) \<Rightarrow> None
      | _ \<Rightarrow> Some None)"

text \<open>The records that come back as written: the address fits in a \<open>long\<close>.\<close>

definition readable_srecord :: "long_width \<Rightarrow> srecord \<Rightarrow> bool" where
  "readable_srecord w r \<longleftrightarrow> valid_srecord r \<and> int (unat (sr_address r)) \<le> LONG_MAX w"

lemma Read_SRecord_rest:
  assumes "Read_SRecord lmax (Some r) (Some f) = (SRECORD_OK, Some r', Some f')"
  shows "length (idata f') < length (idata f)"
proof -
  obtain l g where l: "fgets SRECORD_RECORD_BUFF_SIZE f = (l, g)" by fastforce
  with assms obtain buf where buf: "l = Some buf" "f' = g"
    by (auto simp: Read_SRecord_def Let_def split: option.splits prod.splits if_splits)
  with l show ?thesis
    using gets_n_shrinks [of 767 "idata f"]
    by (auto simp: fgets_def srec_consts split: if_splits prod.splits)
qed

lemma srec_read_text_OK:
  assumes "srec_read_text w r0 s = Some (Some (r', s'))"
  shows "\<exists>f. Read_SRecord (LONG_MAX w) (Some r0) (Some \<lparr>idata = s, ierror = False\<rparr>) = (SRECORD_OK, Some r', Some f)
    \<and> s' = idata f"
  using assms by (auto simp: srec_read_text_def split: srec_ret.splits option.splits prod.splits)

interpretation srec: record_codec srec_write_text "srec_read_text w" "readable_srecord w" srec_shape srec_view
  for w
proof
  fix r r0 :: srecord and s :: string
  assume v: "readable_srecord w r" and r0: "srec_shape r0"
  have "ofails out_blank = (\<lambda>_. False)" by (simp add: out_blank_def)
  from v have "valid_srecord r" and small: "int (unat (sr_address r)) \<le> LONG_MAX w"
    by (simp_all only: readable_srecord_def)
  from srecord_roundtrip_text [OF this(1) r0 \<open>ofails out_blank = (\<lambda>_. False)\<close>] obtain f' line where l:
    "Write_SRecord (Some r) (Some out_blank) = (SRECORD_OK, Some f')" "odata f' = odata out_blank @ line"
    and all: "\<forall>w rest. \<exists>c r'. Read_SRecord (LONG_MAX w) (Some r0) (Some \<lparr>idata = line @ rest, ierror = False\<rparr>)
       = (c, Some r', Some \<lparr>idata = rest, ierror = False\<rparr>) \<and>
       (if int (unat (sr_address r)) \<le> LONG_MAX w
        then c = SRECORD_OK \<and> srec_view r' = srec_view r
        else w = Long32 \<and> srec_view r' = srec_view (r\<lparr>sr_address := 0x7FFFFFFF\<rparr>) \<and>
          c = (if Checksum_SRecord (r\<lparr>sr_address := 0x7FFFFFFF\<rparr>) = Some (sr_checksum r)
               then SRECORD_OK else SRECORD_ERROR_INVALID_RECORD))"
    by blast
  from all [THEN spec [of _ w], THEN spec [of _ s]] small obtain r' where
    "Read_SRecord (LONG_MAX w) (Some r0) (Some \<lparr>idata = line @ s, ierror = False\<rparr>)
       = (SRECORD_OK, Some r', Some \<lparr>idata = s, ierror = False\<rparr>)" "srec_view r' = srec_view r"
    by auto
  with l show "\<exists>r'. srec_read_text w r0 (srec_write_text r @ s) = Some (Some (r', s)) \<and> srec_view r' = srec_view r"
    by (simp add: srec_read_text_def srec_write_text_def out_blank_def)
next
  fix r0 r' :: srecord and s s' :: string
  assume "srec_shape r0" and "srec_read_text w r0 s = Some (Some (r', s'))"
  then show "srec_shape r'"
    using srecord_read_shape srec_read_text_OK by blast
next
  fix r0 r' :: srecord and s s' :: string
  assume "srec_read_text w r0 s = Some (Some (r', s'))"
  then show "length s' < length s"
    using Read_SRecord_rest srec_read_text_OK by fastforce
next
  fix r0 :: srecord
  show "srec_read_text w r0 [] = Some None"
    by (simp add: srec_read_text_def Read_SRecord_def fgets_def feof_def)
qed

text \<open>The reader is defined on every file, so the dump of S-Records never meets an undefined run.\<close>

lemma srec_read_text_defined: "srec_shape r0 \<Longrightarrow> srec_read_text w r0 s \<noteq> None"
proof -
  assume r0: "srec_shape r0"
  obtain c r' f' where r: "Read_SRecord (LONG_MAX w) (Some r0) (Some \<lparr>idata = s, ierror = False\<rparr>) = (c, r', f')"
    by (rule prod_cases3)
  then obtain r1 where "r' = Some r1" by (auto simp: Read_SRecord_def Let_def split: option.splits prod.splits if_splits)
  with r Read_SRecord_safe [OF r0, of "LONG_MAX w"] have "c \<noteq> SRECORD_UNDEFINED" by blast
  with r show ?thesis by (simp add: srec_read_text_def split: srec_ret.splits option.splits)
qed

text \<open>With a \<open>long\<close> of 32 bits a valid record with an address from 0x80000000 on is rejected.\<close>

definition srec_high :: srecord where
  "srec_high = \<lparr>sr_address = 0x80000000, sr_data = 1 # replicate 31 0, sr_dataLen = 1,
     sr_type = 3, sr_checksum = 0x78\<rparr>"

lemma srec_high_valid: "valid_srecord srec_high"
  by (simp add: valid_srecord_def srec_fits_def srec_shape_def srec_high_def address_width_def
      address_length_def SRecord_Address_Lengths_def Checksum_SRecord_def Let_def)

lemma srec_high_rejected:
  "\<exists>f' line r'. Write_SRecord (Some srec_high) (Some out_blank) = (SRECORD_OK, Some f') \<and> odata f' = line \<and>
    Read_SRecord (LONG_MAX Long32) (Some srec_blank) (Some \<lparr>idata = line, ierror = False\<rparr>)
      = (SRECORD_ERROR_INVALID_RECORD, Some r', Some \<lparr>idata = [], ierror = False\<rparr>)"
proof -
  have ok: "ofails out_blank = (\<lambda>_. False)" by (simp add: out_blank_def)
  have high: "\<not> int (unat (sr_address srec_high)) \<le> LONG_MAX Long32" by (simp add: srec_high_def)
  have "Checksum_SRecord (srec_high\<lparr>sr_address := 0x7FFFFFFF\<rparr>) \<noteq> Some (sr_checksum srec_high)"
    by (simp add: srec_high_def address_length_def SRecord_Address_Lengths_def Checksum_SRecord_def Let_def)
  note k = this
  from srecord_roundtrip_text [OF srec_high_valid srec_blank_shape ok] obtain f' line where
    w: "Write_SRecord (Some srec_high) (Some out_blank) = (SRECORD_OK, Some f')" "odata f' = odata out_blank @ line"
    and all: "\<forall>w rest. \<exists>c r'. Read_SRecord (LONG_MAX w) (Some srec_blank) (Some \<lparr>idata = line @ rest, ierror = False\<rparr>)
       = (c, Some r', Some \<lparr>idata = rest, ierror = False\<rparr>) \<and>
       (if int (unat (sr_address srec_high)) \<le> LONG_MAX w
        then c = SRECORD_OK \<and> srec_view r' = srec_view srec_high
        else w = Long32 \<and> srec_view r' = srec_view (srec_high\<lparr>sr_address := 0x7FFFFFFF\<rparr>) \<and>
          c = (if Checksum_SRecord (srec_high\<lparr>sr_address := 0x7FFFFFFF\<rparr>) = Some (sr_checksum srec_high)
               then SRECORD_OK else SRECORD_ERROR_INVALID_RECORD))"
    by blast
  from all [THEN spec [of _ Long32], THEN spec [of _ "[]"]] obtain r' where
    "Read_SRecord (LONG_MAX Long32) (Some srec_blank) (Some \<lparr>idata = line, ierror = False\<rparr>)
       = (SRECORD_ERROR_INVALID_RECORD, Some r', Some \<lparr>idata = [], ierror = False\<rparr>)"
    unfolding if_not_P [OF high] if_not_P [OF k] by auto
  with w show ?thesis by auto
qed

end
