(* ===== verification/IHex.thy ===== *)
theory IHex
  imports Codec
begin

text \<open>
  Intel HEX8 records (bootstrap/ihex.c, bootstrap/ihex.h).  The structure has a data array of
  256 bytes; \<open>IHEX_UNDEFINED\<close> stands for an access outside the array or the line buffer.
\<close>

section \<open>Data\<close>

datatype ihex_ret =
    IHEX_OK
  | IHEX_ERROR_FILE
  | IHEX_ERROR_EOF
  | IHEX_ERROR_INVALID_RECORD
  | IHEX_ERROR_INVALID_ARGUMENTS
  | IHEX_ERROR_NEWLINE
  | IHEX_UNDEFINED

record ihexrecord =
  ih_address :: u16
  ih_data :: "u8 list"
  ih_dataLen :: int
  ih_type :: int
  ih_checksum :: u8

definition IHEX_RECORD_BUFF_SIZE :: nat where "IHEX_RECORD_BUFF_SIZE = 768"
definition IHEX_MAX_DATA_LEN :: int where "IHEX_MAX_DATA_LEN = 512"

lemmas ihex_consts = IHEX_RECORD_BUFF_SIZE_def IHEX_MAX_DATA_LEN_def

section \<open>Operations\<close>

definition Checksum_IHexRecord :: "ihexrecord \<Rightarrow> u8 option" where
  "Checksum_IHexRecord r =
     (if int (length (ih_data r)) < ih_dataLen r then None
      else
        (let checksum = word_of_int (ih_dataLen r);
             checksum = checksum + word_of_int (ih_type r);
             checksum = checksum + ucast (ih_address r);
             checksum = checksum + ucast (drop_bit 8 (ih_address r AND 0xFF00));
             checksum = foldl (+) checksum (take (nat (ih_dataLen r)) (ih_data r))
         in Some (NOT checksum + 1)))"

definition New_IHexRecord ::
  "int \<Rightarrow> u16 \<Rightarrow> u8 list \<Rightarrow> int \<Rightarrow> ihexrecord option \<Rightarrow> ihex_ret \<times> ihexrecord option" where
  "New_IHexRecord ty address data dataLen ihex =
     (case ihex of
        None \<Rightarrow> (IHEX_ERROR_INVALID_ARGUMENTS, None)
      | Some r \<Rightarrow>
          if dataLen < 0 \<or> dataLen > IHEX_MAX_DATA_LEN div 2
          then (IHEX_ERROR_INVALID_ARGUMENTS, Some r)
          else if int (length data) < dataLen then (IHEX_UNDEFINED, Some r)
          else
            (let n = nat dataLen;
                 r = r\<lparr>ih_type := ty, ih_address := address,
                       ih_data := take n data @ drop n (ih_data r), ih_dataLen := dataLen\<rparr>
             in case Checksum_IHexRecord r of
                  None \<Rightarrow> (IHEX_UNDEFINED, Some r)
                | Some k \<Rightarrow> (IHEX_OK, Some (r\<lparr>ih_checksum := k\<rparr>))))"

text \<open>
  The fields of a line.  The lengths are compared as \<open>unsigned int\<close>, so a negative count
  wraps around in the second comparison.
\<close>

definition parse_ihex_data :: "(string \<Rightarrow> int) \<Rightarrow> string \<Rightarrow> int \<Rightarrow> ihexrecord \<Rightarrow> ihex_ret \<times> ihexrecord" where
  "parse_ihex_data conv s dataCount r =
     (if int (length s) < uint (word_of_int (1 + 2 + 4 + 2 + dataCount * 2 + 2) :: u32)
      then (IHEX_ERROR_INVALID_RECORD, r)
      else
        (case read_hex_bytes conv s 9 0 (nat dataCount) (ih_data r) of
           None \<Rightarrow> (IHEX_UNDEFINED, r)
         | Some d \<Rightarrow>
             (let r = r\<lparr>ih_data := d, ih_dataLen := dataCount\<rparr> in
              case substr s (9 + dataCount * 2) 2 of
                None \<Rightarrow> (IHEX_UNDEFINED, r)
              | Some kf \<Rightarrow>
                  (let r = r\<lparr>ih_checksum := word_of_int (conv kf)\<rparr> in
                   case Checksum_IHexRecord r of
                     None \<Rightarrow> (IHEX_UNDEFINED, r)
                   | Some k \<Rightarrow>
                       if ih_checksum r \<noteq> k then (IHEX_ERROR_INVALID_RECORD, r)
                       else (IHEX_OK, r)))))"

definition parse_ihex :: "(string \<Rightarrow> int) \<Rightarrow> string \<Rightarrow> ihexrecord \<Rightarrow> ihex_ret \<times> ihexrecord" where
  "parse_ihex conv s r =
     (if length s < 1 + 2 + 4 + 2 then (IHEX_ERROR_INVALID_RECORD, r)
      else if s ! 0 \<noteq> CHR '':'' then (IHEX_ERROR_INVALID_RECORD, r)
      else
        (case (substr s 1 2, substr s 3 4, substr s 7 2) of
           (Some cf, Some af, Some tf) \<Rightarrow>
             parse_ihex_data conv s (conv cf)
               (r\<lparr>ih_address := word_of_int (conv af), ih_type := conv tf\<rparr>)
         | _ \<Rightarrow> (IHEX_UNDEFINED, r)))"

definition Read_IHexRecord ::
  "int \<Rightarrow> ihexrecord option \<Rightarrow> infile option \<Rightarrow> ihex_ret \<times> ihexrecord option \<times> infile option" where
  "Read_IHexRecord lmax ihex inp =
     (case (ihex, inp) of
        (Some r, Some f) \<Rightarrow>
          (case fgets IHEX_RECORD_BUFF_SIZE f of
             (None, f') \<Rightarrow>
               ((if feof f' then IHEX_ERROR_EOF else IHEX_ERROR_FILE), Some r, Some f')
           | (Some buf, f') \<Rightarrow>
               (let s = cut_line buf in
                if length s = 0 then (IHEX_ERROR_NEWLINE, Some r, Some f')
                else (let (c, r') = parse_ihex (strtol16 lmax) s r in (c, Some r', Some f'))))
      | _ \<Rightarrow> (IHEX_ERROR_INVALID_ARGUMENTS, ihex, inp))"

definition Write_IHexRecord ::
  "ihexrecord option \<Rightarrow> outfile option \<Rightarrow> ihex_ret \<times> outfile option" where
  "Write_IHexRecord ihex out =
     (case (ihex, out) of
        (Some r, Some f) \<Rightarrow>
          if ih_dataLen r > IHEX_MAX_DATA_LEN div 2 then (IHEX_ERROR_INVALID_RECORD, out)
          else
            (case fprintf f (CHR '':'' # fmt_X 2 (unat (word_of_int (ih_dataLen r) :: u32))
                @ fmt_X 4 (unat (ih_address r)) @ fmt_X 2 (unat (word_of_int (ih_type r) :: u32))) of
               (False, f) \<Rightarrow> (IHEX_ERROR_FILE, Some f)
             | (True, f) \<Rightarrow>
                 (case write_bytes f (take (nat (ih_dataLen r)) (ih_data r)) of
                    (False, f) \<Rightarrow> (IHEX_ERROR_FILE, Some f)
                  | (True, f) \<Rightarrow>
                      (case Checksum_IHexRecord r of
                         None \<Rightarrow> (IHEX_UNDEFINED, Some f)
                       | Some k \<Rightarrow>
                           (case fprintf f (fmt_X 2 (unat k) @ [cr, lf]) of
                              (False, f) \<Rightarrow> (IHEX_ERROR_FILE, Some f)
                            | (True, f) \<Rightarrow> (IHEX_OK, Some f)))))
      | _ \<Rightarrow> (IHEX_ERROR_INVALID_ARGUMENTS, out))"

section \<open>Lemmas\<close>

definition ihex_shape :: "ihexrecord \<Rightarrow> bool" where
  "ihex_shape r \<longleftrightarrow> length (ih_data r) = 256"

definition ihex_fits :: "ihexrecord \<Rightarrow> bool" where
  "ihex_fits r \<longleftrightarrow> ihex_shape r \<and> 0 \<le> ih_dataLen r \<and> ih_dataLen r \<le> 255
     \<and> 0 \<le> ih_type r \<and> ih_type r \<le> 255"

definition valid_ihex :: "ihexrecord \<Rightarrow> bool" where
  "valid_ihex r \<longleftrightarrow> ihex_fits r \<and> Checksum_IHexRecord r = Some (ih_checksum r)"

definition ihex_payload :: "ihexrecord \<Rightarrow> u8 list" where
  "ihex_payload r = take (nat (ih_dataLen r)) (ih_data r)"

definition ihex_view :: "ihexrecord \<Rightarrow> int \<times> u16 \<times> u8 list \<times> u8" where
  "ihex_view r = (ih_type r, ih_address r, ihex_payload r, ih_checksum r)"

definition ihex_line :: "ihexrecord \<Rightarrow> u8 \<Rightarrow> string" where
  "ihex_line r k = CHR '':'' # hexn 2 (nat (ih_dataLen r)) @ hexn 4 (unat (ih_address r))
     @ hexn 2 (nat (ih_type r)) @ hex_bytes (ihex_payload r) @ hexn 2 (unat k)"

lemma Checksum_IHex_total: "int (length (ih_data r)) \<ge> ih_dataLen r \<Longrightarrow> \<exists>k. Checksum_IHexRecord r = Some k"
  by (simp add: Checksum_IHexRecord_def Let_def)

lemma Checksum_IHex_view:
  assumes "ih_type r' = ih_type r" "ih_address r' = ih_address r" "ih_dataLen r' = ih_dataLen r"
    "ihex_payload r' = ihex_payload r" "ihex_fits r" "ihex_shape r'"
  shows "Checksum_IHexRecord r' = Checksum_IHexRecord r"
  using assms unfolding Checksum_IHexRecord_def ihex_payload_def ihex_fits_def ihex_shape_def
  by (simp add: Let_def)

lemma Checksum_IHex_field: "Checksum_IHexRecord (r\<lparr>ih_checksum := k\<rparr>) = Checksum_IHexRecord r"
  by (simp add: Checksum_IHexRecord_def)

lemma ihex_payload_length: "ihex_fits r \<Longrightarrow> length (ihex_payload r) = nat (ih_dataLen r)"
  by (auto simp: ihex_payload_def ihex_fits_def ihex_shape_def)

lemma ihex_line_fields:
  assumes "length c = 2" "length a = 4" "length t = 2"
  shows "substr (x # c @ a @ t @ z) 1 2 = Some c" "substr (x # c @ a @ t @ z) 3 4 = Some a"
    "substr (x # c @ a @ t @ z) 7 2 = Some t"
  using assms substr_append(1) [of "[x]" 1 c 2 "a @ t @ z"] substr_append(1) [of "x # c" 3 a 4 "t @ z"]
    substr_append(1) [of "x # c @ a" 7 t 2 z] by auto

lemma parse_ihex_line:
  assumes conv: "reads_hex conv" and v: "valid_ihex r" and r0: "ihex_shape r0"
  shows "\<exists>r'. ihex_shape r' \<and> ihex_view r' = ihex_view r
     \<and> parse_ihex conv (ihex_line r (ih_checksum r)) r0 = (IHEX_OK, r')"
proof -
  let ?n = "nat (ih_dataLen r)" and ?k = "ih_checksum r"
  let ?c = "hexn 2 ?n" and ?a = "hexn 4 (unat (ih_address r))" and ?t = "hexn 2 (nat (ih_type r))"
  let ?pre = "CHR '':'' # ?c @ ?a @ ?t"
  let ?s = "?pre @ hex_bytes (ihex_payload r) @ hexn 2 (unat ?k)"
  have fits: "ihex_fits r" using v by (simp add: valid_ihex_def)
  then have rng: "0 \<le> ih_dataLen r" "ih_dataLen r \<le> 255" "0 \<le> ih_type r" "ih_type r \<le> 255"
    by (auto simp: ihex_fits_def)
  have line: "ihex_line r ?k = ?s" by (simp add: ihex_line_def)
  have c: "conv ?c = ih_dataLen r" "conv ?t = ih_type r"
    using reads_hexD [OF conv, of 2 ?n] reads_hexD [OF conv, of 2 "nat (ih_type r)"] rng by auto
  have a: "word_of_int (conv ?a) = ih_address r"
    using reads_hexD [OF conv, of 4 "unat (ih_address r)"] half_small [of "ih_address r"] by simp
  have k: "word_of_int (conv (hexn 2 (unat ?k))) = ?k"
    using reads_hexD [OF conv, of 2 "unat ?k"] byte_small [of ?k] by simp
  let ?r = "r0\<lparr>ih_address := ih_address r, ih_type := ih_type r\<rparr>"
  have n256: "?n \<le> 256" using rng by simp
  have len: "length (ihex_payload r) = ?n" by (rule ihex_payload_length [OF fits])
  obtain d where d: "read_hex_bytes conv ?s 9 0 ?n (ih_data ?r) = Some d" "length d = 256" "take ?n d = ihex_payload r"
    using read_hex_bytes_roundtrip [OF reads_hex_bytes [OF conv], of 0 "ihex_payload r" "ih_data ?r" ?s ?pre
        "hexn 2 (unat ?k)" 9] len r0 n256 by (auto simp: ihex_shape_def)
  let ?r' = "?r\<lparr>ih_data := d, ih_dataLen := ih_dataLen r, ih_checksum := ?k\<rparr>"
  have "Checksum_IHexRecord ?r' = Checksum_IHexRecord r"
    using d fits by (intro Checksum_IHex_view) (auto simp: ihex_payload_def ihex_shape_def)
  then have sum: "Checksum_IHexRecord ?r' = Some ?k" using v by (simp add: valid_ihex_def)
  have sub: "substr ?s (9 + ih_dataLen r * 2) 2 = Some (hexn 2 (unat ?k))"
    using substr_append(2) [of "?pre @ hex_bytes (ihex_payload r)" "9 + ih_dataLen r * 2" "hexn 2 (unat ?k)" 2] len rng
    by simp
  have un: "uint (word_of_int (1 + 2 + 4 + 2 + ih_dataLen r * 2 + 2) :: u32) = 11 + 2 * ih_dataLen r"
    using rng by (subst uint_word_of_int) simp
  have "parse_ihex conv ?s r0 = parse_ihex_data conv ?s (ih_dataLen r) ?r"
    by (simp add: parse_ihex_def ihex_line_fields c a del: One_nat_def)
  also have "\<dots> = (IHEX_OK, ?r')"
    unfolding parse_ihex_data_def un using d sub k sum len rng by simp
  finally show ?thesis
    using d len unfolding line
    by (intro exI [of _ ?r']) (simp add: ihex_shape_def ihex_view_def ihex_payload_def)
qed

lemma Write_IHex_text:
  assumes "ih_dataLen r \<le> 256" "ihex_shape r" "Checksum_IHexRecord r = Some k" "ofails f = (\<lambda>_. False)"
  shows "\<exists>f'. Write_IHexRecord (Some r) (Some f) = (IHEX_OK, Some f') \<and>
    odata f' = odata f @ CHR '':'' # fmt_X 2 (unat (word_of_int (ih_dataLen r) :: u32))
      @ fmt_X 4 (unat (ih_address r)) @ fmt_X 2 (unat (word_of_int (ih_type r) :: u32))
      @ hex_bytes (ihex_payload r) @ hexn 2 (unat k) @ [cr, lf]"
proof -
  let ?h = "CHR '':'' # fmt_X 2 (unat (word_of_int (ih_dataLen r) :: u32))
      @ fmt_X 4 (unat (ih_address r)) @ fmt_X 2 (unat (word_of_int (ih_type r) :: u32))"
  let ?f = "f\<lparr>odata := odata f @ ?h, ocalls := Suc (ocalls f)\<rparr>"
  have "ofails ?f = (\<lambda>_. False)" using assms(4) by simp
  from write_bytes_ok [OF this, of "ihex_payload r"] obtain f' where
    f': "write_bytes ?f (ihex_payload r) = (True, f')" "odata f' = odata ?f @ hex_bytes (ihex_payload r)"
      "ofails f' = ofails f" by auto
  have "fmt_X 2 (unat k) = hexn 2 (unat k)" by (rule fmt_X_hexn) simp_all
  then show ?thesis
    unfolding Write_IHexRecord_def
    using assms f' by (simp add: ihex_consts fprintf_def ihex_payload_def [symmetric])
qed

lemma ihex_line_written:
  assumes "valid_ihex r" and "ofails f = (\<lambda>_. False)"
  shows "\<exists>f'. Write_IHexRecord (Some r) (Some f) = (IHEX_OK, Some f')
    \<and> odata f' = odata f @ ihex_line r (ih_checksum r) @ [cr, lf]"
proof -
  have rng: "0 \<le> ih_dataLen r" "ih_dataLen r \<le> 255" "0 \<le> ih_type r" "ih_type r \<le> 255" "ihex_shape r"
    and k: "Checksum_IHexRecord r = Some (ih_checksum r)"
    using assms(1) by (auto simp: valid_ihex_def ihex_fits_def)
  have "fmt_X 2 (unat (word_of_int (ih_dataLen r) :: u32)) = hexn 2 (nat (ih_dataLen r))"
    "fmt_X 2 (unat (word_of_int (ih_type r) :: u32)) = hexn 2 (nat (ih_type r))"
    "fmt_X 4 (unat (ih_address r)) = hexn 4 (unat (ih_address r))"
    using rng by (simp_all add: unat_small_int fmt_X_hexn)
  with Write_IHex_text [OF _ rng(5) k assms(2)] rng show ?thesis
    by (simp add: ihex_line_def)
qed

lemma ihex_line_plain:
  "nul \<notin> set (ihex_line r k)" "cr \<notin> set (ihex_line r k)" "lf \<notin> set (ihex_line r k)"
  by (simp_all add: ihex_line_def) (simp_all add: nul_def cr_def lf_def)

lemma ihex_line_length: "ihex_fits r \<Longrightarrow> length (ihex_line r k) \<le> 521"
  using ihex_payload_length [of r] by (auto simp: ihex_line_def ihex_fits_def)

lemma Read_IHex_line:
  assumes "nul \<notin> set l" "cr \<notin> set l" "lf \<notin> set l" "l \<noteq> []" "length l \<le> 700"
  shows "Read_IHexRecord lmax (Some r0) (Some \<lparr>idata = l @ [cr, lf] @ rest, ierror = False\<rparr>) =
    (let (c, r') = parse_ihex (strtol16 lmax) l r0 in (c, Some r', Some \<lparr>idata = rest, ierror = False\<rparr>))"
proof -
  have "fgets IHEX_RECORD_BUFF_SIZE \<lparr>idata = l @ [cr, lf] @ rest, ierror = False\<rparr>
      = (Some (l @ [cr] @ [lf]), \<lparr>idata = rest, ierror = False\<rparr>)"
    using assms by (simp add: fgets_def ihex_consts gets_n_line [of "l @ [cr]" _ rest, simplified])
  with assms show ?thesis by (simp add: Read_IHexRecord_def cut_line_crlf)
qed

lemma ihex_roundtrip_text:
  assumes "valid_ihex r" and "ihex_shape r0" and "ofails f = (\<lambda>_. False)"
  shows "\<exists>f' line. Write_IHexRecord (Some r) (Some f) = (IHEX_OK, Some f') \<and> odata f' = odata f @ line \<and>
    (\<forall>w rest. \<exists>r'. Read_IHexRecord (LONG_MAX w) (Some r0) (Some \<lparr>idata = line @ rest, ierror = False\<rparr>)
       = (IHEX_OK, Some r', Some \<lparr>idata = rest, ierror = False\<rparr>) \<and> ihex_view r' = ihex_view r)"
proof -
  let ?l = "ihex_line r (ih_checksum r)"
  from ihex_line_written [OF assms(1,3)] obtain f' where
    "Write_IHexRecord (Some r) (Some f) = (IHEX_OK, Some f')" "odata f' = odata f @ ?l @ [cr, lf]" by blast
  moreover have "\<exists>r'. Read_IHexRecord (LONG_MAX w) (Some r0) (Some \<lparr>idata = (?l @ [cr, lf]) @ rest, ierror = False\<rparr>)
       = (IHEX_OK, Some r', Some \<lparr>idata = rest, ierror = False\<rparr>) \<and> ihex_view r' = ihex_view r" for w rest
  proof -
    have "reads_hex (strtol16 (LONG_MAX w))" by (rule reads_hex_strtol16) simp
    from parse_ihex_line [OF this assms(1,2)] obtain r' where
      r': "ihex_view r' = ihex_view r" "parse_ihex (strtol16 (LONG_MAX w)) ?l r0 = (IHEX_OK, r')" by blast
    have "?l \<noteq> []" "length ?l \<le> 700"
      using ihex_line_length [of r "ih_checksum r"] assms(1) by (auto simp: ihex_line_def valid_ihex_def)
    from Read_IHex_line [OF ihex_line_plain this] r' show ?thesis by simp
  qed
  ultimately show ?thesis by blast
qed

section \<open>Properties\<close>

text \<open>C14: Writing an Intel HEX8 record of at most 255 bytes and reading the text back succeeds, consumes
  exactly that text, and gives the type, address, data bytes and checksum that were written, whether
  \<open>long\<close> has 32 or 64 bits.\<close>

theorem ihex_roundtrip:
  assumes "valid_ihex r" and "ihex_shape r0" and "ofails f = (\<lambda>_. False)"
  shows "\<exists>f' line. Write_IHexRecord (Some r) (Some f) = (IHEX_OK, Some f') \<and> odata f' = odata f @ line \<and>
    (\<forall>w rest. \<exists>r'. Read_IHexRecord (LONG_MAX w) (Some r0) (Some \<lparr>idata = line @ rest, ierror = False\<rparr>)
       = (IHEX_OK, Some r', Some \<lparr>idata = rest, ierror = False\<rparr>) \<and> ihex_view r' = ihex_view r)"
  using assms by (rule ihex_roundtrip_text)

definition ihex_sample :: ihexrecord where
  "ihex_sample = \<lparr>ih_address = 0x30, ih_data = [2, 0x33, 0x7A] @ replicate 253 0, ih_dataLen = 3,
     ih_type = 0, ih_checksum = 0x1E\<rparr>"

definition ihex_blank :: ihexrecord where
  "ihex_blank = \<lparr>ih_address = 0, ih_data = replicate 256 0, ih_dataLen = 0, ih_type = 0, ih_checksum = 0\<rparr>"

lemma ihex_sample_valid: "valid_ihex ihex_sample"
  by (simp add: valid_ihex_def ihex_fits_def ihex_shape_def ihex_sample_def Checksum_IHexRecord_def)

lemma ihex_blank_shape: "ihex_shape ihex_blank"
  by (simp add: ihex_shape_def ihex_blank_def)

theorem ihex_roundtrip_witness:
  "valid_ihex ihex_sample \<and> (\<exists>f' line. Write_IHexRecord (Some ihex_sample) (Some out_blank) = (IHEX_OK, Some f')
     \<and> odata f' = [] @ line)"
  using ihex_roundtrip [OF ihex_sample_valid ihex_blank_shape, of out_blank] ihex_sample_valid by auto

lemma ihex_count_unsigned:
  assumes "-16 < n" "n < 256" "\<not> int (length s) < uint (word_of_int (1 + 2 + 4 + 2 + n * 2 + 2) :: u32)"
    and "length s < 1000"
  shows "-5 \<le> n" "11 + 2 * n \<le> int (length s)"
proof -
  show n: "-5 \<le> n"
  proof (rule ccontr)
    assume "\<not> -5 \<le> n"
    have "uint (word_of_int (1 + 2 + 4 + 2 + n * 2 + 2) :: u32) = (11 + 2 * n) mod 4294967296"
      by (subst uint_word_of_int) (simp add: algebra_simps)
    also have "\<dots> = (11 + 2 * n + 4294967296) mod 4294967296" by (rule mod_add_self2 [symmetric])
    also have "\<dots> = 11 + 2 * n + 4294967296"
      using assms(1) \<open>\<not> -5 \<le> n\<close> by (intro mod_pos_pos_trivial) auto
    finally show False using assms by simp
  qed
  have "uint (word_of_int (1 + 2 + 4 + 2 + n * 2 + 2) :: u32) = 11 + 2 * n"
    using assms(2) n by (subst uint_word_of_int) simp
  with assms show "11 + 2 * n \<le> int (length s)" by simp
qed

text \<open>The field the count is read from.\<close>

definition ihex_count :: "(string \<Rightarrow> int) \<Rightarrow> string \<Rightarrow> int" where
  "ihex_count conv s = conv (take 2 (drop 1 s))"

lemma parse_ihex_data_safe:
  assumes "parse_ihex_data conv s n r = (c, r')" and "ihex_shape r" and "9 \<le> length s" "length s < 1000"
    and "-16 < n" "n < 256"
  shows "ihex_shape r' \<and> (c = IHEX_OK \<longrightarrow> -4 \<le> ih_dataLen r' \<and> ih_dataLen r' \<le> 255
      \<and> Checksum_IHexRecord r' = Some (ih_checksum r')) \<and> (c = IHEX_UNDEFINED \<longleftrightarrow> n = -5)"
proof (cases "int (length s) < uint (word_of_int (1 + 2 + 4 + 2 + n * 2 + 2) :: u32)")
  case True
  then have "n \<noteq> -5" using assms(3) by auto
  with True assms(1,2) show ?thesis by (auto simp: parse_ihex_data_def)
next
  case False
  then have n: "-5 \<le> n" "11 + 2 * n \<le> int (length s)"
    using ihex_count_unsigned assms(4,5,6) by blast+
  have "nat n \<le> 255" using assms(6) by simp
  then have "read_hex_bytes conv s 9 0 (nat n) (ih_data r) \<noteq> None"
    using n assms(2,3) by (intro read_hex_bytes_defined) (auto simp: ihex_shape_def)
  then obtain d where d: "read_hex_bytes conv s 9 0 (nat n) (ih_data r) = Some d" by blast
  have ld: "length d = 256" using read_hex_bytes_length [OF d] assms(2) by (simp add: ihex_shape_def)
  let ?r = "r\<lparr>ih_data := d, ih_dataLen := n\<rparr>"
  show ?thesis
  proof (cases "substr s (9 + n * 2) 2")
    case None
    then have "n = -5" using n by (auto simp: substr_None_iff)
    with None d False ld assms(1) show ?thesis by (auto simp: parse_ihex_data_def ihex_shape_def)
  next
    case (Some kf)
    then have "n \<noteq> -5" by (auto simp: substr_def)
    from Checksum_IHex_total [of "?r\<lparr>ih_checksum := word_of_int (conv kf)\<rparr>"] ld assms(6) obtain k where
      "Checksum_IHexRecord (?r\<lparr>ih_checksum := word_of_int (conv kf)\<rparr>) = Some k" by auto
    with Some d False ld assms(1,6) n(1) \<open>n \<noteq> -5\<close> show ?thesis
      by (auto simp: parse_ihex_data_def ihex_shape_def Let_def split: if_splits)
  qed
qed

lemma parse_ihex_safe:
  assumes "parse_ihex conv s r = (c, r')" and "ihex_shape r" and "length s < 1000"
    and "-16 < ihex_count conv s" "ihex_count conv s < 256"
  shows "ihex_shape r' \<and> (c = IHEX_OK \<longrightarrow> -4 \<le> ih_dataLen r' \<and> ih_dataLen r' \<le> 255
      \<and> Checksum_IHexRecord r' = Some (ih_checksum r')) \<and>
    (c = IHEX_UNDEFINED \<longleftrightarrow> 9 \<le> length s \<and> s ! 0 = CHR '':'' \<and> ihex_count conv s = -5)"
proof (cases "length s < 9 \<or> s ! 0 \<noteq> CHR '':''")
  case True
  with assms show ?thesis by (auto simp: parse_ihex_def split: if_splits)
next
  case False
  then have f: "substr s 1 2 = Some (take 2 (drop 1 s))" "substr s 3 4 = Some (take 4 (drop 3 s))"
    "substr s 7 2 = Some (take 2 (drop 7 s))" by (auto simp: substr_def)
  let ?r = "r\<lparr>ih_address := word_of_int (conv (take 4 (drop 3 s))), ih_type := conv (take 2 (drop 7 s))\<rparr>"
  have "parse_ihex_data conv s (ihex_count conv s) ?r = (c, r')"
    using False f assms(1) by (simp add: parse_ihex_def ihex_count_def)
  from parse_ihex_data_safe [OF this] False assms show ?thesis
    by (auto simp: ihex_shape_def)
qed

lemma cut_line_length: "length (cut_line buf) \<le> length buf"
  by (metis cut_line_def cstr_def le_trans length_takeWhile_le)

lemma Read_IHex_safe:
  assumes "ihex_shape r0" and "0 \<le> lmax"
    and "Read_IHexRecord lmax (Some r0) (Some f) = (c, Some r', f')"
  shows "ihex_shape r' \<and> (c = IHEX_OK \<longrightarrow> -4 \<le> ih_dataLen r' \<and> ih_dataLen r' \<le> 255
      \<and> Checksum_IHexRecord r' = Some (ih_checksum r')) \<and>
    (c = IHEX_UNDEFINED \<longleftrightarrow> (\<exists>buf g. fgets IHEX_RECORD_BUFF_SIZE f = (Some buf, g) \<and>
       9 \<le> length (cut_line buf) \<and> cut_line buf ! 0 = CHR '':'' \<and>
       ihex_count (strtol16 lmax) (cut_line buf) = -5))"
proof -
  obtain l g where l: "fgets IHEX_RECORD_BUFF_SIZE f = (l, g)" by fastforce
  show ?thesis
  proof (cases l)
    case None
    with assms l show ?thesis by (auto simp: Read_IHexRecord_def split: if_splits)
  next
    case (Some buf)
    let ?s = "cut_line buf"
    have "length ?s < 1000"
      using l Some gets_n_length [of 767 "idata f"] cut_line_length [of buf]
      by (auto simp: fgets_def ihex_consts split: if_splits prod.splits)
    moreover have "-16 < ihex_count (strtol16 lmax) ?s" "ihex_count (strtol16 lmax) ?s < 256"
      using strtol16_bounds [of "take 2 (drop 1 ?s)" 1 lmax] assms(2) by (auto simp: ihex_count_def)
    ultimately have safe: "parse_ihex (strtol16 lmax) ?s r0 = (c, r') \<Longrightarrow> ?thesis"
      using parse_ihex_safe [of "strtol16 lmax" ?s r0 c r'] assms(1) l Some by auto
    show ?thesis
    proof (cases "length ?s = 0")
      case True
      with assms l Some show ?thesis by (auto simp: Read_IHexRecord_def)
    next
      case False
      with assms l Some show ?thesis
        by (intro safe) (auto simp: Read_IHexRecord_def split: prod.splits)
    qed
  qed
qed

lemmas ihex_read_shape = Read_IHex_safe [THEN conjunct1]

text \<open>The Intel HEX8 reader stays within its arrays on every line except those whose count field
  reads as -5 (the one count for which the length check wraps to zero and the checksum is taken
  one character before the buffer); what it accepts carries its own checksum, and a data length
  between -4 and 255.\<close>

theorem ihex_read_safe:
  assumes "ihex_shape r0" and "0 \<le> lmax"
    and "Read_IHexRecord lmax (Some r0) (Some f) = (c, Some r', f')"
  shows "ihex_shape r' \<and> (c = IHEX_OK \<longrightarrow> -4 \<le> ih_dataLen r' \<and> ih_dataLen r' \<le> 255
      \<and> Checksum_IHexRecord r' = Some (ih_checksum r')) \<and>
    (c = IHEX_UNDEFINED \<longleftrightarrow> (\<exists>buf g. fgets IHEX_RECORD_BUFF_SIZE f = (Some buf, g) \<and>
       9 \<le> length (cut_line buf) \<and> cut_line buf ! 0 = CHR '':'' \<and>
       ihex_count (strtol16 lmax) (cut_line buf) = -5))"
  using assms by (rule Read_IHex_safe)

theorem ihex_read_safe_witness:
  "ihex_shape ihex_blank \<and> (\<exists>r' f'. Read_IHexRecord (LONG_MAX Long32) (Some ihex_blank)
      (Some \<lparr>idata = '':-5000000'', ierror = False\<rparr>) = (IHEX_UNDEFINED, Some r', f'))"
proof -
  let ?f = "\<lparr>idata = '':-5000000'', ierror = False\<rparr>"
  have g: "fgets IHEX_RECORD_BUFF_SIZE ?f = (Some '':-5000000'', ?f\<lparr>idata := []\<rparr>)"
    by (simp add: fgets_def gets_n_all ihex_consts lf_def)
  have cut: "cut_line '':-5000000'' = '':-5000000''" by code_simp
  have "ihex_count (strtol16 (LONG_MAX Long32)) '':-5000000'' = -5" by code_simp
  then have u: "\<exists>buf g. fgets IHEX_RECORD_BUFF_SIZE ?f = (Some buf, g) \<and>
       9 \<le> length (cut_line buf) \<and> cut_line buf ! 0 = CHR '':'' \<and>
       ihex_count (strtol16 (LONG_MAX Long32)) (cut_line buf) = -5"
    using g cut by auto
  obtain c r' f' where r: "Read_IHexRecord (LONG_MAX Long32) (Some ihex_blank) (Some ?f) = (c, Some r', f')"
    using g cut by (cases "parse_ihex (strtol16 (LONG_MAX Long32)) '':-5000000'' ihex_blank")
      (auto simp: Read_IHexRecord_def)
  have "0 \<le> LONG_MAX Long32" by simp
  from ihex_read_safe [OF ihex_blank_shape this r] u have "c = IHEX_UNDEFINED" by blast
  with r ihex_blank_shape show ?thesis by blast
qed

lemma hexn_16: "hexn 2 16 = ''10''"
  by code_simp

text \<open>A record of 256 bytes, which the constructor and the writer accept, is written with a
  three-digit count: reading the line back never gives 256 bytes; if the reader accepts it at all,
  it accepts 16 bytes.\<close>

theorem ihex_write_256:
  assumes "ihex_shape r" "ih_dataLen r = 256" and "ihex_shape r0"
  shows "\<exists>f' line. Write_IHexRecord (Some r) (Some out_blank) = (IHEX_OK, Some f') \<and> odata f' = line @ [cr, lf] \<and>
    (\<forall>r'. parse_ihex (strtol16 (LONG_MAX w)) line r0 = (IHEX_OK, r') \<longrightarrow> ih_dataLen r' = 16)"
proof -
  obtain k where k: "Checksum_IHexRecord r = Some k"
    using Checksum_IHex_total [of r] assms(1,2) by (auto simp: ihex_shape_def)
  have d: "fmt_X 2 256 = ''100''" by code_simp
  have u: "unat (word_of_int 256 :: u32) = 256" by simp
  let ?z = "fmt_X 4 (unat (ih_address r)) @ fmt_X 2 (unat (word_of_int (ih_type r) :: u32))
      @ hex_bytes (ihex_payload r) @ hexn 2 (unat k)"
  let ?line = "CHR '':'' # ''100'' @ ?z"
  from Write_IHex_text [OF _ assms(1) k, of out_blank] obtain f' where
    "Write_IHexRecord (Some r) (Some out_blank) = (IHEX_OK, Some f')" "odata f' = ?line @ [cr, lf]"
    using assms(2) d u by auto
  moreover have "ihex_count (strtol16 (LONG_MAX w)) ?line = 16"
  proof -
    have "take 2 (drop 1 ?line) = ''10''" by simp
    moreover have "strtol16 (LONG_MAX w) ''10'' = 16" using order_trans [OF _ LONG_MAX_bounds(1), of 16 w] strtol16_hexn [of 2 16 "LONG_MAX w"] by (simp add: hexn_16)
    ultimately show ?thesis by (simp only: ihex_count_def)
  qed
  then have "ih_dataLen r' = 16" if "parse_ihex (strtol16 (LONG_MAX w)) ?line r0 = (IHEX_OK, r')" for r'
    using that by (auto simp: parse_ihex_def parse_ihex_data_def ihex_count_def substr_def Let_def
        split: if_splits option.splits)
  ultimately show ?thesis by blast
qed

theorem ihex_write_256_witness:
  "\<exists>f' line. Write_IHexRecord (Some (ihex_blank\<lparr>ih_dataLen := 256\<rparr>)) (Some out_blank) = (IHEX_OK, Some f')
     \<and> odata f' = line @ [cr, lf]"
  using ihex_write_256 [of "ihex_blank\<lparr>ih_dataLen := 256\<rparr>" ihex_blank Long32]
  by (auto simp: ihex_shape_def ihex_blank_def)

section \<open>Intel HEX8 as a record format\<close>

definition ihex_write_text :: "ihexrecord \<Rightarrow> string" where
  "ihex_write_text r =
     (case Write_IHexRecord (Some r) (Some out_blank) of (IHEX_OK, Some f) \<Rightarrow> odata f | _ \<Rightarrow> [])"

definition ihex_read_text :: "long_width \<Rightarrow> ihexrecord \<Rightarrow> string \<Rightarrow> (ihexrecord \<times> string) option option" where
  "ihex_read_text w r s =
     (case Read_IHexRecord (LONG_MAX w) (Some r) (Some \<lparr>idata = s, ierror = False\<rparr>) of
        (IHEX_OK, Some r', Some f) \<Rightarrow> Some (Some (r', idata f))
      | (IHEX_UNDEFINED, _) \<Rightarrow> None
      | _ \<Rightarrow> Some None)"

lemma ihex_read_text_OK:
  assumes "ihex_read_text w r0 s = Some (Some (r', s'))"
  shows "\<exists>f. Read_IHexRecord (LONG_MAX w) (Some r0) (Some \<lparr>idata = s, ierror = False\<rparr>) = (IHEX_OK, Some r', Some f)
    \<and> s' = idata f"
  using assms by (auto simp: ihex_read_text_def split: ihex_ret.splits option.splits prod.splits)

lemma Read_IHex_rest:
  assumes "Read_IHexRecord lmax (Some r) (Some f) = (IHEX_OK, Some r', Some f')"
  shows "length (idata f') < length (idata f)"
proof -
  obtain l g where l: "fgets IHEX_RECORD_BUFF_SIZE f = (l, g)" by fastforce
  with assms obtain buf where buf: "l = Some buf" "f' = g"
    by (auto simp: Read_IHexRecord_def Let_def split: option.splits prod.splits if_splits)
  with l show ?thesis
    using gets_n_shrinks [of 767 "idata f"]
    by (auto simp: fgets_def ihex_consts split: if_splits prod.splits)
qed

interpretation ihex: record_codec ihex_write_text "ihex_read_text w" valid_ihex ihex_shape ihex_view
  for w
proof
  fix r r0 :: ihexrecord and s :: string
  assume v: "valid_ihex r" and r0: "ihex_shape r0"
  have "ofails out_blank = (\<lambda>_. False)" by simp
  from ihex_roundtrip_text [OF v r0 this] obtain f' line r' where
    "Write_IHexRecord (Some r) (Some out_blank) = (IHEX_OK, Some f')" "odata f' = odata out_blank @ line"
    "Read_IHexRecord (LONG_MAX w) (Some r0) (Some \<lparr>idata = line @ s, ierror = False\<rparr>)
       = (IHEX_OK, Some r', Some \<lparr>idata = s, ierror = False\<rparr>)" "ihex_view r' = ihex_view r"
    by blast
  then show "\<exists>r'. ihex_read_text w r0 (ihex_write_text r @ s) = Some (Some (r', s)) \<and> ihex_view r' = ihex_view r"
    by (simp add: ihex_read_text_def ihex_write_text_def)
next
  fix r0 r' :: ihexrecord and s s' :: string
  assume "ihex_shape r0" and "ihex_read_text w r0 s = Some (Some (r', s'))"
  then show "ihex_shape r'"
    using ihex_read_shape [of r0 "LONG_MAX w"] ihex_read_text_OK by fastforce
next
  fix r0 r' :: ihexrecord and s s' :: string
  assume "ihex_read_text w r0 s = Some (Some (r', s'))"
  then show "length s' < length s"
    using Read_IHex_rest ihex_read_text_OK by fastforce
next
  fix r0 :: ihexrecord
  show "ihex_read_text w r0 [] = Some None"
    by (simp add: ihex_read_text_def Read_IHexRecord_def fgets_def feof_def)
qed

end
