(* ===== verification/Atmel.thy ===== *)
theory Atmel
  imports Codec
begin

text \<open>
  Atmel Generic records (bootstrap/atmel_generic.c, bootstrap/atmel_generic.h): a 24-bit
  address kept in 32 bits and a 16-bit data word, as six and four hexadecimal digits around
  a colon, read through a line buffer of 16 characters.
\<close>

section \<open>Data\<close>

datatype atmel_ret =
    ATMEL_GENERIC_OK
  | ATMEL_GENERIC_ERROR_FILE
  | ATMEL_GENERIC_ERROR_EOF
  | ATMEL_GENERIC_ERROR_INVALID_RECORD
  | ATMEL_GENERIC_ERROR_INVALID_ARGUMENTS
  | ATMEL_GENERIC_ERROR_NEWLINE

record atmelrecord =
  at_address :: u32
  at_data :: u16

definition ATMEL_GENERIC_RECORD_BUFF_SIZE :: nat where "ATMEL_GENERIC_RECORD_BUFF_SIZE = 16"

section \<open>Operations\<close>

definition New_AtmelGenericRecord ::
  "u32 \<Rightarrow> u16 \<Rightarrow> atmelrecord option \<Rightarrow> atmel_ret \<times> atmelrecord option" where
  "New_AtmelGenericRecord address data gen =
     (case gen of
        None \<Rightarrow> (ATMEL_GENERIC_ERROR_INVALID_ARGUMENTS, None)
      | Some r \<Rightarrow> (ATMEL_GENERIC_OK, Some (r\<lparr>at_address := address, at_data := data\<rparr>)))"

definition parse_atmel :: "(string \<Rightarrow> int) \<Rightarrow> string \<Rightarrow> atmelrecord \<Rightarrow> atmel_ret \<times> atmelrecord" where
  "parse_atmel conv s r =
     (if length s < 6 + 4 + 1 then (ATMEL_GENERIC_ERROR_INVALID_RECORD, r)
      else if s ! 6 \<noteq> CHR '':'' then (ATMEL_GENERIC_ERROR_INVALID_RECORD, r)
      else
        (let s = s[6 := nul];
             r = r\<lparr>at_address := word_of_int (conv (cstr s))\<rparr>;
             r = r\<lparr>at_data := word_of_int (conv (drop (6 + 1) s))\<rparr>
         in (ATMEL_GENERIC_OK, r)))"

definition Read_AtmelGenericRecord ::
  "int \<Rightarrow> atmelrecord option \<Rightarrow> infile option \<Rightarrow> atmel_ret \<times> atmelrecord option \<times> infile option" where
  "Read_AtmelGenericRecord lmax gen inp =
     (case (gen, inp) of
        (Some r, Some f) \<Rightarrow>
          (case fgets ATMEL_GENERIC_RECORD_BUFF_SIZE f of
             (None, f') \<Rightarrow>
               ((if feof f' then ATMEL_GENERIC_ERROR_EOF else ATMEL_GENERIC_ERROR_FILE), Some r, Some f')
           | (Some buf, f') \<Rightarrow>
               (let s = cut_line buf in
                if length s = 0 then (ATMEL_GENERIC_ERROR_NEWLINE, Some r, Some f')
                else (let (c, r') = parse_atmel (strtol16 lmax) s r in (c, Some r', Some f'))))
      | _ \<Rightarrow> (ATMEL_GENERIC_ERROR_INVALID_ARGUMENTS, gen, inp))"

definition Write_AtmelGenericRecord ::
  "atmelrecord option \<Rightarrow> outfile option \<Rightarrow> atmel_ret \<times> outfile option" where
  "Write_AtmelGenericRecord gen out =
     (case (gen, out) of
        (Some r, Some f) \<Rightarrow>
          (case fprintf f (fmt_X 6 (unat (at_address r)) @ CHR '':'' # fmt_X 4 (unat (at_data r)) @ [cr, lf]) of
             (False, f) \<Rightarrow> (ATMEL_GENERIC_ERROR_FILE, Some f)
           | (True, f) \<Rightarrow> (ATMEL_GENERIC_OK, Some f))
      | _ \<Rightarrow> (ATMEL_GENERIC_ERROR_INVALID_ARGUMENTS, out))"

section \<open>Lemmas\<close>

definition valid_atmel :: "atmelrecord \<Rightarrow> bool" where
  "valid_atmel r \<longleftrightarrow> unat (at_address r) < 16 ^ 6"

definition atmel_line :: "atmelrecord \<Rightarrow> string" where
  "atmel_line r = fmt_X 6 (unat (at_address r)) @ CHR '':'' # fmt_X 4 (unat (at_data r))"

lemma atmel_line_valid:
  "valid_atmel r \<Longrightarrow> atmel_line r = hexn 6 (unat (at_address r)) @ CHR '':'' # hexn 4 (unat (at_data r))"
  by (simp add: atmel_line_def valid_atmel_def fmt_X_hexn)

lemma hex_digits_plain: "c \<in> set (hex_digits n) \<Longrightarrow> \<exists>d<16. c = hex_digit d"
proof (induction n rule: hex_digits.induct)
  case (1 n)
  show ?case
  proof (cases "n < 16")
    case True
    with 1 show ?thesis by (auto simp: hex_digits.simps [of n])
  next
    case False
    with 1 have "c \<in> set (hex_digits (n div 16)) \<or> c = hex_digit (n mod 16)"
      by (auto simp: hex_digits.simps [of n])
    with 1 False show ?thesis by (auto intro: exI [of _ "n mod 16"])
  qed
qed

lemma fmt_X_plain:
  "c \<in> set (fmt_X p n) \<Longrightarrow> \<exists>d<16. c = hex_digit d"
proof -
  assume "c \<in> set (fmt_X p n)"
  then consider "c = CHR ''0''" | "c \<in> set (hex_digits n)"
    by (auto simp: fmt_X_def Let_def)
  moreover have "hex_digit 0 = CHR ''0''" by code_simp
  ultimately show ?thesis by cases (metis zero_less_numeral, rule hex_digits_plain)
qed

lemma fmt_X_chars [simp]:
  "nul \<notin> set (fmt_X p n)" "cr \<notin> set (fmt_X p n)" "lf \<notin> set (fmt_X p n)" "CHR '':'' \<notin> set (fmt_X p n)"
  by (auto dest!: fmt_X_plain)

lemma colon_plain [simp]: "CHR '':'' \<noteq> nul" "CHR '':'' \<noteq> cr" "CHR '':'' \<noteq> lf"
  by (simp_all add: nul_def cr_def lf_def)

lemma atmel_line_plain [simp]:
  "nul \<notin> set (atmel_line r)" "cr \<notin> set (atmel_line r)" "lf \<notin> set (atmel_line r)"
  by (auto simp: atmel_line_def simp del: colon_plain) (auto simp: nul_def cr_def lf_def)

lemma Read_Atmel_line:
  assumes "length (atmel_line r) < 14" "atmel_line r \<noteq> []"
  shows "Read_AtmelGenericRecord lmax (Some r0) (Some \<lparr>idata = atmel_line r @ [cr, lf] @ rest, ierror = False\<rparr>) =
    (let (c, r') = parse_atmel (strtol16 lmax) (atmel_line r) r0
     in (c, Some r', Some \<lparr>idata = rest, ierror = False\<rparr>))"
proof -
  have "fgets ATMEL_GENERIC_RECORD_BUFF_SIZE \<lparr>idata = atmel_line r @ [cr, lf] @ rest, ierror = False\<rparr>
      = (Some (atmel_line r @ [cr] @ [lf]), \<lparr>idata = rest, ierror = False\<rparr>)"
    using assms by (simp add: fgets_def ATMEL_GENERIC_RECORD_BUFF_SIZE_def
        gets_n_line [of "atmel_line r @ [cr]" _ rest, simplified])
  with assms show ?thesis by (simp add: Read_AtmelGenericRecord_def cut_line_crlf)
qed

lemma parse_atmel_valid:
  assumes "valid_atmel r" and conv: "reads_hex conv"
  shows "parse_atmel conv (atmel_line r) r0 = (ATMEL_GENERIC_OK, r)"
proof -
  let ?a = "hexn 6 (unat (at_address r))" and ?d = "hexn 4 (unat (at_data r))"
  have l: "atmel_line r = ?a @ CHR '':'' # ?d" by (rule atmel_line_valid [OF assms(1)])
  have a: "conv ?a = int (unat (at_address r))"
    using assms(1) by (intro reads_hexD [OF conv]) (auto simp: valid_atmel_def)
  have d: "conv ?d = int (unat (at_data r))"
    by (intro reads_hexD [OF conv]) (auto simp: half_small)
  have nth: "(?a @ CHR '':'' # ?d) ! 6 = CHR '':''" by (simp add: nth_append)
  have up: "(?a @ CHR '':'' # ?d)[6 := nul] = ?a @ nul # ?d" by (simp add: list_update_append)
  have c: "cstr (?a @ nul # ?d) = ?a"
    unfolding cstr_def using hexn_plain(1) [of 6 "unat (at_address r)"]
    by (intro takeWhile_append_stop) auto
  show ?thesis
    unfolding parse_atmel_def l up by (simp add: nth c a d)
qed

lemma Write_Atmel_text:
  "ofails f = (\<lambda>_. False) \<Longrightarrow>
   Write_AtmelGenericRecord (Some r) (Some f) =
     (ATMEL_GENERIC_OK, Some (f\<lparr>odata := odata f @ atmel_line r @ [cr, lf], ocalls := Suc (ocalls f)\<rparr>))"
  by (simp add: Write_AtmelGenericRecord_def fprintf_def atmel_line_def)

lemma atmel_roundtrip_text:
  assumes "valid_atmel r"
  shows "Read_AtmelGenericRecord (LONG_MAX w) (Some r0) (Some \<lparr>idata = atmel_line r @ [cr, lf] @ rest, ierror = False\<rparr>)
    = (ATMEL_GENERIC_OK, Some r, Some \<lparr>idata = rest, ierror = False\<rparr>)"
proof -
  have "reads_hex (strtol16 (LONG_MAX w))" by (rule reads_hex_strtol16) simp
  from parse_atmel_valid [OF assms this] show ?thesis
    using atmel_line_valid [OF assms] by (subst Read_Atmel_line) auto
qed

text \<open>An address that needs more than six digits pushes the colon out of its place.\<close>

lemma hex_digits_length: "n < 16 ^ p \<Longrightarrow> 0 < p \<Longrightarrow> length (hex_digits n) \<le> p"
proof (induction p arbitrary: n)
  case (Suc p)
  show ?case
  proof (cases "n < 16")
    case False
    then have "0 < p" using Suc.prems by (cases p) auto
    moreover have "n div 16 < 16 ^ p" using Suc.prems by (simp add: less_mult_imp_div_less mult.commute)
    ultimately show ?thesis using Suc.IH False by (simp add: hex_digits.simps [of n])
  qed (simp add: hex_digits.simps [of n])
qed simp

lemma hex_digits_long: "16 ^ p \<le> n \<Longrightarrow> p < length (hex_digits n)"
proof (induction p arbitrary: n)
  case 0
  then show ?case by (simp add: hex_digits.simps [of n])
next
  case (Suc p)
  have "(1::nat) \<le> 16 ^ p" by simp
  then have "(16::nat) \<le> 16 * 16 ^ p" by linarith
  then have "(16::nat) \<le> 16 ^ Suc p" by (simp only: power_Suc)
  then have "16 \<le> n" using Suc.prems by (rule order_trans)
  moreover have "16 ^ p \<le> n div 16" using Suc.prems by (simp add: less_eq_div_iff_mult_less_eq mult.commute)
  ultimately have "16 \<le> n" "16 ^ p \<le> n div 16" by auto
  with Suc.IH show ?case by (simp add: hex_digits.simps [of n])
qed

lemma parse_atmel_wide:
  assumes "\<not> valid_atmel r"
  shows "parse_atmel conv (atmel_line r) r0 = (ATMEL_GENERIC_ERROR_INVALID_RECORD, r0)"
proof -
  let ?ds = "fmt_X 6 (unat (at_address r))"
  have "6 < length ?ds"
    using assms hex_digits_long [of 6 "unat (at_address r)"] by (simp add: fmt_X_def valid_atmel_def Let_def)
  then have "atmel_line r ! 6 = ?ds ! 6" "?ds ! 6 \<in> set ?ds" by (simp_all add: atmel_line_def nth_append)
  then have "atmel_line r ! 6 \<noteq> CHR '':''" using fmt_X_chars(4) by metis
  then show ?thesis by (simp add: parse_atmel_def)
qed

section \<open>Properties\<close>

text \<open>An Atmel Generic record is written always and read back exactly when its address fits 24 bits:
  then the reader gives the same record and leaves the rest of the file; otherwise the writer
  prints seven or eight address digits and the reader rejects the line.\<close>

theorem atmel_roundtrip:
  "\<exists>f' line. Write_AtmelGenericRecord (Some r) (Some out_blank) = (ATMEL_GENERIC_OK, Some f') \<and> odata f' = line \<and>
    Read_AtmelGenericRecord (LONG_MAX w) (Some r0) (Some \<lparr>idata = line @ rest, ierror = False\<rparr>)
      = (if unat (at_address r) < 2 ^ 24
         then (ATMEL_GENERIC_OK, Some r, Some \<lparr>idata = rest, ierror = False\<rparr>)
         else (ATMEL_GENERIC_ERROR_INVALID_RECORD, Some r0, Some \<lparr>idata = rest, ierror = False\<rparr>))"
proof (intro exI conjI)
  show "Write_AtmelGenericRecord (Some r) (Some out_blank)
      = (ATMEL_GENERIC_OK, Some (out_blank\<lparr>odata := atmel_line r @ [cr, lf], ocalls := Suc (ocalls out_blank)\<rparr>))"
    by (simp add: Write_Atmel_text)
  have "length (fmt_X 6 (unat (at_address r))) \<le> 8" "length (fmt_X 4 (unat (at_data r))) \<le> 4"
    using hex_digits_length [of "unat (at_address r)" 8] hex_digits_length [of "unat (at_data r)" 4]
    by (simp_all add: fmt_X_def Let_def)
  then have "length (atmel_line r) < 14" "atmel_line r \<noteq> []" by (simp_all add: atmel_line_def)
  from Read_Atmel_line [OF this] parse_atmel_wide [of r] atmel_roundtrip_text [of r]
  show "Read_AtmelGenericRecord (LONG_MAX w) (Some r0) (Some \<lparr>idata = (atmel_line r @ [cr, lf]) @ rest, ierror = False\<rparr>)
      = (if unat (at_address r) < 2 ^ 24
         then (ATMEL_GENERIC_OK, Some r, Some \<lparr>idata = rest, ierror = False\<rparr>)
         else (ATMEL_GENERIC_ERROR_INVALID_RECORD, Some r0, Some \<lparr>idata = rest, ierror = False\<rparr>))"
    by (simp add: valid_atmel_def)
qed simp

section \<open>Atmel Generic as a record format\<close>

definition atmel_write_text :: "atmelrecord \<Rightarrow> string" where
  "atmel_write_text r =
     (case Write_AtmelGenericRecord (Some r) (Some out_blank) of (ATMEL_GENERIC_OK, Some f) \<Rightarrow> odata f | _ \<Rightarrow> [])"

definition atmel_read_text :: "long_width \<Rightarrow> atmelrecord \<Rightarrow> string \<Rightarrow> (atmelrecord \<times> string) option option" where
  "atmel_read_text w r s =
     (case Read_AtmelGenericRecord (LONG_MAX w) (Some r) (Some \<lparr>idata = s, ierror = False\<rparr>) of
        (ATMEL_GENERIC_OK, Some r', Some f) \<Rightarrow> Some (Some (r', idata f))
      | _ \<Rightarrow> Some None)"

lemma atmel_read_text_OK:
  assumes "atmel_read_text w r0 s = Some (Some (r', s'))"
  shows "\<exists>f. Read_AtmelGenericRecord (LONG_MAX w) (Some r0) (Some \<lparr>idata = s, ierror = False\<rparr>) = (ATMEL_GENERIC_OK, Some r', Some f)
    \<and> s' = idata f"
  using assms by (auto simp: atmel_read_text_def split: atmel_ret.splits option.splits prod.splits)

lemma Read_Atmel_rest:
  assumes "Read_AtmelGenericRecord lmax (Some r) (Some f) = (ATMEL_GENERIC_OK, Some r', Some f')"
  shows "length (idata f') < length (idata f)"
proof -
  obtain l g where l: "fgets ATMEL_GENERIC_RECORD_BUFF_SIZE f = (l, g)" by fastforce
  with assms obtain buf where buf: "l = Some buf" "f' = g"
    by (auto simp: Read_AtmelGenericRecord_def Let_def split: option.splits prod.splits if_splits)
  with l show ?thesis
    using gets_n_shrinks [of 15 "idata f"]
    by (auto simp: fgets_def ATMEL_GENERIC_RECORD_BUFF_SIZE_def split: if_splits prod.splits)
qed

interpretation atmel: record_codec atmel_write_text "atmel_read_text w" valid_atmel "\<lambda>_. True" id
  for w
proof
  fix r r0 :: atmelrecord and s :: string
  assume "valid_atmel r"
  then show "\<exists>r'. atmel_read_text w r0 (atmel_write_text r @ s) = Some (Some (r', s)) \<and> id r' = id r"
    by (simp add: atmel_read_text_def atmel_write_text_def Write_Atmel_text
        atmel_roundtrip_text [simplified])
next
  fix r0 r' :: atmelrecord and s s' :: string
  assume "atmel_read_text w r0 s = Some (Some (r', s'))"
  then show "length s' < length s"
    using Read_Atmel_rest atmel_read_text_OK by fastforce
next
  fix r0 :: atmelrecord
  show "atmel_read_text w r0 [] = Some None"
    by (simp add: atmel_read_text_def Read_AtmelGenericRecord_def fgets_def feof_def)
qed simp

end
