(* ===== verification/RecordTools.thy ===== *)
theory RecordTools
  imports SRecord IHex Atmel
begin

text \<open>
  The program that prints a file of records (bootstrap/testGIS.c) with the \<open>Print\<close> function
  of each format.  Its standard output is a string; the files that \<open>fopen\<close> finds are a map
  from names to contents.  The loops over the file are \<open>dump_records\<close>, so the three formats
  share one proof through the interface \<open>record_codec\<close>.
\<close>

section \<open>Printing a record\<close>

definition tab :: char where
  "tab = CHR 0x09"

fun print_data :: "u8 list \<Rightarrow> string" where
  "print_data [] = []"
| "print_data [b] = ''0x'' @ fmt_X 2 (unat b)"
| "print_data (b # bs) = ''0x'' @ fmt_X 2 (unat b) @ '', '' @ print_data bs"

definition Print_SRecord :: "srecord \<Rightarrow> string" where
  "Print_SRecord r =
     ''S-Record Type: '' @ [tab, tab] @ ''S'' @ fmt_d (sr_type r) @ [lf] @
     ''S-Record Address: '' @ [tab] @ ''0x'' @ fmt_X 8 (unat (sr_address r)) @ [lf] @
     ''S-Record Data: '' @ [tab, tab] @ ''{'' @
     print_data (take (nat (sr_dataLen r)) (sr_data r)) @ ''}'' @ [lf] @
     ''S-Record Checksum: '' @ [tab] @ ''0x'' @ fmt_X 2 (unat (sr_checksum r)) @ [lf]"

definition Print_IHexRecord :: "ihexrecord \<Rightarrow> string" where
  "Print_IHexRecord r =
     ''Intel HEX8 Record Type: '' @ [tab] @ fmt_d (ih_type r) @ [lf] @
     ''Intel HEX8 Record Address: '' @ [tab] @ ''0x'' @ fmt_X 4 (unat (ih_address r)) @ [lf] @
     ''Intel HEX8 Record Data: '' @ [tab] @ ''{'' @
     print_data (take (nat (ih_dataLen r)) (ih_data r)) @ ''}'' @ [lf] @
     ''Intel HEX8 Record Checksum: '' @ [tab] @ ''0x'' @ fmt_X 2 (unat (ih_checksum r)) @ [lf]"

definition Print_AtmelGenericRecord :: "atmelrecord \<Rightarrow> string" where
  "Print_AtmelGenericRecord r =
     ''Atmel Generic Address: '' @ [tab] @ ''0x'' @ fmt_X 6 (unat (at_address r)) @ [lf] @
     ''Atmel Generic Data: '' @ [tab] @ ''0x'' @ fmt_X 4 (unat (at_data r)) @ [lf]"

section \<open>The program\<close>

definition lower :: "char \<Rightarrow> char" where
  "lower c =
     (let n = (of_char c :: nat) in if 65 \<le> n \<and> n \<le> 90 then char_of (n + 32) else c)"

definition strcasecmp_eq :: "string \<Rightarrow> string \<Rightarrow> bool" where
  "strcasecmp_eq a b \<longleftrightarrow> map lower a = map lower b"

text \<open>The records printed, each followed by an empty line.\<close>

definition print_all :: "('r \<Rightarrow> string) \<Rightarrow> 'r list \<Rightarrow> string" where
  "print_all pr rs = concat (map (\<lambda>r. pr r @ [lf]) rs)"

text \<open>
  The exit status with what is printed; the three structures on the stack start with
  whatever is there; \<open>w\<close> is the width of \<open>long\<close> on the machine that runs it.  \<open>None\<close> is a run that
  does not end, \<open>Some None\<close> one with an undefined access.
\<close>

definition testGIS :: "long_width \<Rightarrow> (string \<Rightarrow> string option) \<Rightarrow> atmelrecord \<Rightarrow> ihexrecord \<Rightarrow> srecord \<Rightarrow> string list
    \<Rightarrow> (int \<times> string) option option" where
  "testGIS w files arec irec srec argv =
     (if length argv < 3 then Some (Some (-1, []))
      else
        (case files (argv ! 2) of
           None \<Rightarrow> Some (Some (-1, []))
         | Some fp \<Rightarrow>
             if strcasecmp_eq (argv ! 1) ''generic'' then
               map_option (map_option (\<lambda>rs. (0, print_all Print_AtmelGenericRecord rs))) (dump_records (atmel_read_text w) arec fp)
             else if strcasecmp_eq (argv ! 1) ''ihex'' then
               map_option (map_option (\<lambda>rs. (0, print_all Print_IHexRecord rs))) (dump_records (ihex_read_text w) irec fp)
             else if strcasecmp_eq (argv ! 1) ''srecord'' then
               map_option (map_option (\<lambda>rs. (0, print_all Print_SRecord rs))) (dump_records (srec_read_text w) srec fp)
             else Some (Some (-1, []))))"

section \<open>Lemmas\<close>

lemma Print_SRecord_view:
  "srec_view r' = srec_view r \<Longrightarrow> Print_SRecord r' = Print_SRecord r"
  by (simp add: srec_view_def srec_payload_def Print_SRecord_def)

lemma Print_IHexRecord_view:
  "ihex_view r' = ihex_view r \<Longrightarrow> Print_IHexRecord r' = Print_IHexRecord r"
  by (simp add: ihex_view_def ihex_payload_def Print_IHexRecord_def)

lemma print_all_view:
  assumes "map v rs' = map v rs" and "\<And>r r'. v r' = v r \<Longrightarrow> pr r' = pr r"
  shows "print_all pr rs' = print_all pr rs"
proof -
  have "map (\<lambda>r. pr r @ [lf]) rs' = map (\<lambda>r. pr r @ [lf]) rs"
    using assms(1)
  proof (induction rs' arbitrary: rs)
    case Nil
    then show ?case by simp
  next
    case (Cons x xs)
    then obtain y ys where ys: "rs = y # ys" "v x = v y" "map v xs = map v ys"
      by (cases rs) auto
    have "pr x = pr y" using ys(2) by (rule assms(2))
    with Cons.IH [OF ys(3)] ys(1) show ?case by simp
  qed
  then show ?thesis by (simp only: print_all_def)
qed

lemma format_names:
  "strcasecmp_eq ''generic'' ''generic''" "\<not> strcasecmp_eq ''ihex'' ''generic''"
  "strcasecmp_eq ''ihex'' ''ihex''" "\<not> strcasecmp_eq ''srecord'' ''generic''"
  "\<not> strcasecmp_eq ''srecord'' ''ihex''" "strcasecmp_eq ''srecord'' ''srecord''"
  by (simp_all add: strcasecmp_eq_def lower_def Let_def)

section \<open>Properties\<close>

text \<open>The program ends on every file, whatever the arguments and whatever is on the stack.\<close>

theorem testGIS_ends:
  "\<exists>result. testGIS w files arec irec srec argv = Some result"
proof -
  have "\<exists>rs. dump_records (atmel_read_text w) arec s = Some rs" for s by (rule atmel.dump_terminates)
  moreover have "\<exists>rs. dump_records (ihex_read_text w) irec s = Some rs" for s by (rule ihex.dump_terminates)
  moreover have "\<exists>rs. dump_records (srec_read_text w) srec s = Some rs" for s by (rule srec.dump_terminates)
  ultimately show ?thesis
    by (fastforce simp: testGIS_def split: option.splits)
qed

text \<open>C16: On a file that one of the three writers made from valid records the program prints exactly
  these records, in order, and exits with status 0.  For S-Records the addresses must be at most
  the \<open>LONG_MAX\<close> of the machine, which is no restriction where \<open>long\<close> has 64 bits and means below
  0x80000000 where it has 32.\<close>

theorem testGIS_prints:
  assumes "srec_shape srec" and "ihex_shape irec"
  shows "((\<forall>r \<in> set as. valid_atmel r) \<longrightarrow>
      testGIS w [f \<mapsto> concat (map atmel_write_text as)] arec irec srec [prog, ''generic'', f]
        = Some (Some (0, print_all Print_AtmelGenericRecord as))) \<and>
    ((\<forall>r \<in> set is. valid_ihex r) \<longrightarrow>
      testGIS w [f \<mapsto> concat (map ihex_write_text is)] arec irec srec [prog, ''ihex'', f]
        = Some (Some (0, print_all Print_IHexRecord is))) \<and>
    ((\<forall>r \<in> set ss. valid_srecord r \<and> int (unat (sr_address r)) \<le> LONG_MAX w) \<longrightarrow>
      testGIS w [f \<mapsto> concat (map srec_write_text ss)] arec irec srec [prog, ''srecord'', f]
        = Some (Some (0, print_all Print_SRecord ss)))"
proof (intro conjI impI)
  assume "\<forall>r \<in> set as. valid_atmel r"
  then have "\<exists>rs'. dump_records (atmel_read_text w) arec
      (concat (map atmel_write_text as)) = Some (Some rs') \<and> map id rs' = map id as"
    by (rule atmel.dump_written) simp
  then show "testGIS w [f \<mapsto> concat (map atmel_write_text as)] arec irec srec [prog, ''generic'', f]
        = Some (Some (0, print_all Print_AtmelGenericRecord as))"
    by (auto simp: testGIS_def format_names)
next
  assume "\<forall>r \<in> set is. valid_ihex r"
  from ihex.dump_written [OF this assms(2)] obtain rs' where
    "dump_records (ihex_read_text w) irec (concat (map ihex_write_text is)) = Some (Some rs')"
    "map ihex_view rs' = map ihex_view is" by blast
  moreover from print_all_view [OF this(2) Print_IHexRecord_view]
  have "print_all Print_IHexRecord rs' = print_all Print_IHexRecord is" .
  ultimately show "testGIS w [f \<mapsto> concat (map ihex_write_text is)] arec irec srec [prog, ''ihex'', f]
        = Some (Some (0, print_all Print_IHexRecord is))"
    by (simp add: testGIS_def format_names)
next
  assume "\<forall>r \<in> set ss. valid_srecord r \<and> int (unat (sr_address r)) \<le> LONG_MAX w"
  then have "\<forall>r \<in> set ss. readable_srecord w r" by (simp add: readable_srecord_def)
  from srec.dump_written [OF this assms(1)] obtain rs' where
    "dump_records (srec_read_text w) srec (concat (map srec_write_text ss)) = Some (Some rs')"
    "map srec_view rs' = map srec_view ss" by blast
  moreover from print_all_view [OF this(2) Print_SRecord_view]
  have "print_all Print_SRecord rs' = print_all Print_SRecord ss" .
  ultimately show "testGIS w [f \<mapsto> concat (map srec_write_text ss)] arec irec srec [prog, ''srecord'', f]
        = Some (Some (0, print_all Print_SRecord ss))"
    by (simp add: testGIS_def format_names)
qed

theorem testGIS_prints_witness:
  "testGIS Long32 [''f'' \<mapsto> concat (map srec_write_text [srec_sample, srec_sample])]
      \<lparr>at_address = 0, at_data = 0\<rparr> ihex_blank srec_blank [''testGIS'', ''srecord'', ''f'']
    = Some (Some (0, print_all Print_SRecord [srec_sample, srec_sample]))"
proof -
  have "int (unat (sr_address srec_sample)) \<le> LONG_MAX Long32" by (simp add: srec_sample_def)
  then show ?thesis
    using testGIS_prints [OF srec_blank_shape ihex_blank_shape, of "[]" Long32 "''f''" _ "''testGIS''" "[]"
        "[srec_sample, srec_sample]"]
    by (simp add: srec_sample_valid)
qed

end
