(* ===== verification/Memory.thy ===== *)
theory Memory
  imports Prelude
begin

text \<open>
  The byte-addressed memory the 32-bit targets work on: a function from 32-bit addresses to
  bytes, so addresses wrap around as pointers do, with little-endian accesses of 1, 2, 4 and 8
  bytes.  The contract of a memory (what a load returns after a store) is the locale
  \<open>byte_memory\<close>.
\<close>

type_synonym mem = "u32 \<Rightarrow> u8"

section \<open>Little-endian values\<close>

fun le_val :: "u8 list \<Rightarrow> nat" where
  "le_val [] = 0"
| "le_val (b # bs) = unat b + 256 * le_val bs"

fun le_bytes :: "nat \<Rightarrow> nat \<Rightarrow> u8 list" where
  "le_bytes 0 v = []"
| "le_bytes (Suc n) v = of_nat (v mod 256) # le_bytes n (v div 256)"

lemma length_le_bytes [simp]: "length (le_bytes n v) = n"
  by (induction n arbitrary: v) auto

lemma le_val_bytes [simp]: "le_val (le_bytes n v) = v mod 256 ^ n"
proof (induction n arbitrary: v)
  case 0
  then show ?case by simp
next
  case (Suc n)
  have "unat (of_nat (v mod 256) :: u8) = v mod 256" by (simp add: unat_of_nat)
  with Suc show ?case by (simp add: mod_mult2_eq)
qed

lemma le_val_bound: "le_val bs < 256 ^ length bs"
proof (induction bs)
  case (Cons b bs)
  have "unat b + 256 * le_val bs < 256 * (le_val bs + 1)" using unat_u8_less [of b] by simp
  also have "\<dots> \<le> 256 * 256 ^ length bs" using Cons by (intro mult_le_mono2) simp
  finally show ?case by simp
qed simp

lemma le_bytes_val [simp]: "le_bytes (length bs) (le_val bs) = bs"
proof (induction bs)
  case (Cons b bs)
  have "(unat b + 256 * le_val bs) mod 256 = unat b" by simp
  moreover have "(unat b + 256 * le_val bs) div 256 = le_val bs" by simp
  ultimately show ?case using Cons by simp
qed simp

lemma le_bytes_4:
  "le_bytes 4 (unat (w :: u32)) = [ucast w, ucast (drop_bit 8 w), ucast (drop_bit 16 w), ucast (drop_bit 24 w)]"
proof -
  have b: "of_nat (unat v mod 256) = (ucast v :: u8)" for v :: u32
    by (rule word_unat_eq_iff [THEN iffD2]) (simp add: unat_of_nat unsigned_ucast_eq take_bit_eq_mod)
  have d: "unat v div 256 = unat (drop_bit 8 v)" for v :: u32
    by (simp add: drop_bit_eq_div unat_div)
  have "(4 :: nat) = Suc (Suc (Suc (Suc 0)))" by simp
  then show ?thesis
    by (simp only: le_bytes.simps b d drop_bit_drop_bit) simp
qed

section \<open>Loads and stores\<close>

fun load_bytes :: "mem \<Rightarrow> u32 \<Rightarrow> nat \<Rightarrow> u8 list" where
  "load_bytes m a 0 = []"
| "load_bytes m a (Suc n) = m a # load_bytes m (a + 1) n"

fun store_bytes :: "mem \<Rightarrow> u32 \<Rightarrow> u8 list \<Rightarrow> mem" where
  "store_bytes m a [] = m"
| "store_bytes m a (b # bs) = store_bytes (m(a := b)) (a + 1) bs"

definition rd16 :: "mem \<Rightarrow> u32 \<Rightarrow> u16" where "rd16 m a = of_nat (le_val (load_bytes m a 2))"
definition rd32 :: "mem \<Rightarrow> u32 \<Rightarrow> u32" where "rd32 m a = of_nat (le_val (load_bytes m a 4))"
definition rd64 :: "mem \<Rightarrow> u32 \<Rightarrow> u64" where "rd64 m a = of_nat (le_val (load_bytes m a 8))"

definition wr16 :: "mem \<Rightarrow> u32 \<Rightarrow> u16 \<Rightarrow> mem" where "wr16 m a v = store_bytes m a (le_bytes 2 (unat v))"
definition wr32 :: "mem \<Rightarrow> u32 \<Rightarrow> u32 \<Rightarrow> mem" where "wr32 m a v = store_bytes m a (le_bytes 4 (unat v))"
definition wr64 :: "mem \<Rightarrow> u32 \<Rightarrow> u64 \<Rightarrow> mem" where "wr64 m a v = store_bytes m a (le_bytes 8 (unat v))"

lemma length_load_bytes [simp]: "length (load_bytes m a n) = n"
  by (induction n arbitrary: a) auto

lemma nth_load_bytes: "i < n \<Longrightarrow> load_bytes m a n ! i = m (a + of_nat i)"
proof (induction n arbitrary: a i)
  case 0
  then show ?case by simp
next
  case (Suc n)
  then show ?case by (cases i) (simp_all add: add.assoc)
qed

lemma load_bytes_append: "load_bytes m a (n + k) = load_bytes m a n @ load_bytes m (a + of_nat n) k"
  by (induction n arbitrary: a) (simp_all add: add.assoc)

text \<open>The offset of an address in a range that starts at \<open>a\<close>.\<close>

lemma unat_pred_offset:
  fixes x a :: u32
  shows "x \<noteq> a \<Longrightarrow> unat (x - (a + 1)) = unat (x - a) - 1"
proof -
  assume "x \<noteq> a"
  then have "x - a \<noteq> 0" by simp
  moreover have "x - (a + 1) = (x - a) - 1" by (rule diff_diff_add [symmetric])
  ultimately show ?thesis by (metis unat_minus_one)
qed

lemma store_bytes_apply:
  "length bs \<le> 2 ^ 32 \<Longrightarrow>
   store_bytes m a bs x = (if unat (x - a) < length bs then bs ! unat (x - a) else m x)"
proof (induction bs arbitrary: m a)
  case Nil
  then show ?case by simp
next
  case (Cons b bs)
  let ?i = "unat (x - (a + 1))"
  have IH: "store_bytes m a (b # bs) x = (if ?i < length bs then bs ! ?i else (m(a := b)) x)"
    using Cons.IH [of "m(a := b)" "a + 1"] Cons.prems by (simp only: store_bytes.simps list.size)
  show ?case
  proof (cases "x = a")
    case True
    have "unat (- 1 :: u32) = 2 ^ 32 - 1" by (simp add: unsigned_minus_1_eq_mask mask_eq_exp_minus_1)
    then have "?i = 2 ^ 32 - 1" unfolding True by (simp only: diff_add_eq_diff_diff_swap) simp
    then have "\<not> ?i < length bs" using Cons.prems by simp
    with IH have "store_bytes m a (b # bs) x = (m(a := b)) x" by (simp only: if_False)
    with True show ?thesis by (simp del: store_bytes.simps)
  next
    case False
    then have "0 < unat (x - a)" by (simp add: unat_gt_0)
    then obtain j where j: "unat (x - a) = Suc j" by (cases "unat (x - a)") auto
    with unat_pred_offset [OF False] have "?i = j" by simp
    with IH j False show ?thesis by (simp del: store_bytes.simps)
  qed
qed

lemma store_bytes_outside [mem_simps]:
  "length bs \<le> 2 ^ 32 \<Longrightarrow> length bs \<le> unat (x - a) \<Longrightarrow> store_bytes m a bs x = m x"
  by (simp add: store_bytes_apply)

lemma store_bytes_append: "store_bytes m a (xs @ ys) = store_bytes (store_bytes m a xs) (a + of_nat (length xs)) ys"
  by (induction xs arbitrary: m a) (simp_all add: add.assoc)

lemma unat_offset [simp]: "i < 2 ^ 32 \<Longrightarrow> unat (of_nat i :: u32) = i"
  by (simp add: unat_of_nat)

lemma load_store_same [mem_simps]:
  "length bs \<le> 2 ^ 32 \<Longrightarrow> load_bytes (store_bytes m a bs) a (length bs) = bs"
  by (rule nth_equalityI) (simp_all add: nth_load_bytes store_bytes_apply unat_offset)

text \<open>Two ranges are apart when no address is in both.\<close>

definition apart :: "u32 \<Rightarrow> nat \<Rightarrow> u32 \<Rightarrow> nat \<Rightarrow> bool" where
  "apart a n b k \<longleftrightarrow> n \<le> unat (b - a) \<and> k \<le> unat (a - b) \<or> n = 0 \<or> k = 0"

lemma unat_flip: "(b :: u32) \<noteq> a \<Longrightarrow> unat (a - b) = 2 ^ 32 - unat (b - a)"
proof -
  assume "b \<noteq> a"
  then have "unat b \<noteq> unat a" by (simp add: word_unat_eq_iff)
  moreover have "unat a < 2 ^ 32" "unat b < 2 ^ 32" by simp_all
  ultimately show ?thesis
    unfolding unat_sub_if' by (auto simp del: unat_u32_less)
qed

lemma apart_offset:
  assumes "apart a n b k" "i < k"
  shows "n \<le> unat (b + of_nat i - a)"
proof (cases "n = 0")
  case False
  with assms have ap: "n \<le> unat (b - a)" "k \<le> unat (a - b)" by (auto simp: apart_def)
  with False have ne: "b \<noteq> a" by auto
  have i: "i < 2 ^ 32 - unat (b - a)" using ap(2) assms(2) unfolding unat_flip [OF ne] by simp
  have e: "b + of_nat i - a = (b - a) + of_nat i" by simp
  moreover have "unat ((b - a) + of_nat i :: u32) = unat (b - a) + i"
    using i unat_u32_less [of "b - a"] by (auto simp: unat_plus_if')
  ultimately show ?thesis unfolding e using ap(1) by simp
qed simp

lemma apart_sym: "apart a n b k = apart b k a n"
  by (auto simp: apart_def)

lemma apart_le: "apart a n b k \<Longrightarrow> n' \<le> n \<Longrightarrow> k' \<le> k \<Longrightarrow> apart a n' b k'"
  by (auto simp: apart_def)

lemma apart_sub:
  assumes "apart a n b k" "n' \<le> n" "off + k' \<le> k"
  shows "apart a n' (b + of_nat off) k'"
proof (cases "n' = 0 \<or> k' = 0")
  case False
  then have "off < k" "n \<noteq> 0" "k \<noteq> 0" using assms by auto
  then have ab: "k \<le> unat (a - b)" using assms(1) by (simp add: apart_def)
  have o: "unat (of_nat off :: u32) = off"
  proof (rule unat_offset)
    have "unat (a - b) < 2 ^ 32" by simp
    with \<open>off < k\<close> ab show "off < 2 ^ 32" by linarith
  qed
  have e: "a - (b + of_nat off) = (a - b) - of_nat off" by (rule diff_diff_add [symmetric])
  have "unat ((a - b) - of_nat off) = unat (a - b) - off"
    using o ab \<open>off < k\<close> by (simp add: unat_sub_if')
  then have "k' \<le> unat (a - (b + of_nat off))" unfolding e using ab assms(3) by simp
  moreover have "n' \<le> unat (b + of_nat off - a)"
    using apart_offset [OF assms(1) \<open>off < k\<close>] assms(2) by simp
  ultimately show ?thesis by (simp add: apart_def)
qed (auto simp: apart_def)

lemma load_store_apart [mem_simps]:
  assumes "apart a (length bs) b k" "length bs \<le> 2 ^ 32"
  shows "load_bytes (store_bytes m a bs) b k = load_bytes m b k"
  using assms by (intro nth_equalityI) (simp_all add: nth_load_bytes store_bytes_outside apart_offset)

section \<open>The contract of a memory\<close>

locale byte_memory =
  fixes get :: "'m \<Rightarrow> u32 \<Rightarrow> nat \<Rightarrow> u8 list"
    and put :: "'m \<Rightarrow> u32 \<Rightarrow> u8 list \<Rightarrow> 'm"
  assumes get_length: "length (get m a n) = n"
    and get_put: "length bs \<le> 2 ^ 32 \<Longrightarrow> get (put m a bs) a (length bs) = bs"
    and get_put_apart: "apart a (length bs) b k \<Longrightarrow> length bs \<le> 2 ^ 32 \<Longrightarrow> get (put m a bs) b k = get m b k"
begin

text \<open>Values of \<open>n\<close> bytes.\<close>

lemma get_put_value:
  "n \<le> 2 ^ 32 \<Longrightarrow> v < 256 ^ n \<Longrightarrow> le_val (get (put m a (le_bytes n v)) a n) = v"
  using get_put [of "le_bytes n v" m a] by simp

lemma put_put_apart:
  "apart a (length xs) b (length ys) \<Longrightarrow> apart b (length ys) a (length xs) \<Longrightarrow> length xs \<le> 2 ^ 32 \<Longrightarrow> length ys \<le> 2 ^ 32
   \<Longrightarrow> get (put (put m a xs) b ys) a (length xs) = xs \<and> get (put (put m a xs) b ys) b (length ys) = ys"
  by (simp add: get_put get_put_apart)

end

interpretation ram: byte_memory load_bytes store_bytes
  by unfold_locales (simp_all add: mem_simps)

lemma rd32_wr32 [mem_simps]: "rd32 (wr32 m a v) a = v"
  using ram.get_put_value [of 4 "unat v" m a] by (simp add: rd32_def wr32_def)

lemma rd16_wr16 [mem_simps]: "rd16 (wr16 m a v) a = v"
  using ram.get_put_value [of 2 "unat v" m a] by (simp add: rd16_def wr16_def)

lemma rd64_wr64 [mem_simps]: "rd64 (wr64 m a v) a = v"
  using ram.get_put_value [of 8 "unat v" m a] unat_lt_pow [of v] by (simp add: rd64_def wr64_def)

lemma rd32_wr32_apart [mem_simps]: "apart a 4 b 4 \<Longrightarrow> rd32 (wr32 m a v) b = rd32 m b"
  using ram.get_put_apart [of a "le_bytes 4 (unat v)" b 4 m] by (simp add: rd32_def wr32_def)

end
