(* ===== verification/CLib.thy ===== *)
theory CLib
  imports Memory CStdio
begin

text \<open>
  The programs' own C library: the byte-wise functions of bootstrap/minion_lib.c and the
  word-wise ones of hello/string.c, on the 32-bit memory.  A loop that stops only at a NUL or
  at an address is a \<open>partial_function (option)\<close>: \<open>None\<close> is a loop that does not end.  \<open>char\<close> is
  unsigned, as on RISC-V.
\<close>

section \<open>The library of the boot monitor (bootstrap/minion\_lib.c)\<close>

fun copy_bytes :: "mem \<Rightarrow> u32 \<Rightarrow> u32 \<Rightarrow> nat \<Rightarrow> mem" where
  "copy_bytes m d s 0 = m"
| "copy_bytes m d s (Suc n) = copy_bytes (m(d := m s)) (d + 1) (s + 1) n"

definition memcpy :: "mem \<Rightarrow> u32 \<Rightarrow> u32 \<Rightarrow> u32 \<Rightarrow> mem" where
  "memcpy m dst src N = copy_bytes m dst src (unat N)"

fun compare_bytes :: "mem \<Rightarrow> u32 \<Rightarrow> u32 \<Rightarrow> nat \<Rightarrow> int" where
  "compare_bytes m x y 0 = 0"
| "compare_bytes m x y (Suc n) =
     (let delta = int (unat (m x)) - int (unat (m y)) in
      if delta \<noteq> 0 then delta else compare_bytes m (x + 1) (y + 1) n)"

definition memcmp :: "mem \<Rightarrow> u32 \<Rightarrow> u32 \<Rightarrow> u32 \<Rightarrow> int" where
  "memcmp m x y N = (if x = y then 0 else compare_bytes m x y (unat N))"

fun fill_bytes :: "mem \<Rightarrow> u32 \<Rightarrow> u8 \<Rightarrow> nat \<Rightarrow> mem" where
  "fill_bytes m d v 0 = m"
| "fill_bytes m d v (Suc n) = fill_bytes (m(d := v)) (d + 1) v n"

definition memset :: "mem \<Rightarrow> u32 \<Rightarrow> u32 \<Rightarrow> u32 \<Rightarrow> mem" where
  "memset m dst V N = fill_bytes m dst (ucast V) (unat N)"

text \<open>\<open>strncpy\<close>: characters up to the NUL, then NULs, \<open>n\<close> in all.\<close>

fun strncpy_loop :: "mem \<Rightarrow> u32 \<Rightarrow> u32 \<Rightarrow> nat \<Rightarrow> mem" where
  "strncpy_loop m dest src 0 = m"
| "strncpy_loop m dest src (Suc n) =
     (if m src \<noteq> 0 then strncpy_loop (m(dest := m src)) (dest + 1) (src + 1) n
      else fill_bytes m dest 0 (Suc n))"

definition strncpy :: "mem \<Rightarrow> u32 \<Rightarrow> u32 \<Rightarrow> u32 \<Rightarrow> mem" where
  "strncpy m dest src n = strncpy_loop m dest src (unat n)"

partial_function (option) strcmp :: "mem \<Rightarrow> u32 \<Rightarrow> u32 \<Rightarrow> int option" where
  "strcmp m s1 s2 =
     (if m s2 \<noteq> 0 \<and> m s1 = m s2 then strcmp m (s1 + 1) (s2 + 1)
      else Some (int (unat (m s1)) - int (unat (m s2))))"

partial_function (option) strcpy :: "mem \<Rightarrow> u32 \<Rightarrow> u32 \<Rightarrow> mem option" where
  "strcpy m s1 s2 =
     (if m s2 \<noteq> 0 then strcpy (m(s1 := m s2)) (s1 + 1) (s2 + 1) else Some m)"

partial_function (option) strlen_loop :: "mem \<Rightarrow> u32 \<Rightarrow> u32 \<Rightarrow> u32 option" where
  "strlen_loop m s len = (if m s \<noteq> 0 then strlen_loop m (s + 1) (len + 1) else Some len)"

definition strlen :: "mem \<Rightarrow> u32 \<Rightarrow> u32 option" where
  "strlen m str = (if str = 0 then Some 0 else strlen_loop m str 0)"

section \<open>The library of the kernel loader (hello/string.c)\<close>

partial_function (option) copy_words :: "mem \<Rightarrow> u32 \<Rightarrow> u32 \<Rightarrow> u32 \<Rightarrow> mem option" where
  "copy_words m d s e = (if d < e then copy_words (wr32 m d (rd32 m s)) (d + 4) (s + 4) e else Some m)"

partial_function (option) copy_chars :: "mem \<Rightarrow> u32 \<Rightarrow> u32 \<Rightarrow> u32 \<Rightarrow> mem option" where
  "copy_chars m d s e = (if d < e then copy_chars (m(d := m s)) (d + 1) (s + 1) e else Some m)"

definition k_memcpy :: "mem \<Rightarrow> u32 \<Rightarrow> u32 \<Rightarrow> u32 \<Rightarrow> mem option" where
  "k_memcpy m dest src len =
     (if (dest OR src OR len) AND 3 = 0 then copy_words m dest src (dest + len)
      else copy_chars m dest src (dest + len))"

partial_function (option) fill_words :: "mem \<Rightarrow> u32 \<Rightarrow> u32 \<Rightarrow> u32 \<Rightarrow> mem option" where
  "fill_words m d w e = (if d < e then fill_words (wr32 m d w) (d + 4) w e else Some m)"

partial_function (option) fill_chars :: "mem \<Rightarrow> u32 \<Rightarrow> u8 \<Rightarrow> u32 \<Rightarrow> mem option" where
  "fill_chars m d b e = (if d < e then fill_chars (m(d := b)) (d + 1) b e else Some m)"

definition k_memset :: "mem \<Rightarrow> u32 \<Rightarrow> u32 \<Rightarrow> u32 \<Rightarrow> mem option" where
  "k_memset m dest byte len =
     (if (dest OR len) AND 3 = 0 then
        (let w = byte AND 0xFF;
             w = w OR push_bit 8 w;
             w = w OR push_bit 16 w;
             w = w OR push_bit 16 (push_bit 16 w)
         in fill_words m dest w (dest + len))
      else fill_chars m dest (ucast byte) (dest + len))"

partial_function (option) k_strlen_loop :: "mem \<Rightarrow> u32 \<Rightarrow> u32 option" where
  "k_strlen_loop m p = (if m p \<noteq> 0 then k_strlen_loop m (p + 1) else Some p)"

definition k_strlen :: "mem \<Rightarrow> u32 \<Rightarrow> u32 option" where
  "k_strlen m s = map_option (\<lambda>p. p - s) (k_strlen_loop m s)"

partial_function (option) k_strcpy :: "mem \<Rightarrow> u32 \<Rightarrow> u32 \<Rightarrow> mem option" where
  "k_strcpy m d s =
     (let m' = m(d := m s) in if m s \<noteq> 0 then k_strcpy m' (d + 1) (s + 1) else Some m')"

text \<open>\<open>atol\<close> on the characters of a string; \<open>long\<close> has 32 bits and wraps around.\<close>

fun atol_digits :: "u32 \<Rightarrow> string \<Rightarrow> u32" where
  "atol_digits res [] = res"
| "atol_digits res (c # s) = atol_digits (res * 10 + (of_nat (of_char c) - 48)) s"

definition atol :: "string \<Rightarrow> u32" where
  "atol str =
     (let s = dropWhile (\<lambda>c. c = CHR 0x20) (cstr str);
          sgn = (s \<noteq> [] \<and> hd s = CHR ''-'');
          s = (if s \<noteq> [] \<and> (hd s = CHR ''-'' \<or> hd s = CHR ''+'') then tl s else s);
          res = atol_digits 0 s
      in if sgn then - res else res)"

section \<open>Lemmas on words of memory\<close>

lemma wr32_rd32: "wr32 m d (rd32 m s) = store_bytes m d (load_bytes m s 4)"
proof -
  have "le_val (load_bytes m s 4) < 2 ^ 32"
    using le_val_bound [of "load_bytes m s 4"] by simp
  then show ?thesis
    using le_bytes_val [of "load_bytes m s 4"] by (simp add: wr32_def rd32_def)
qed

definition aligned4 :: "u32 \<Rightarrow> bool" where
  "aligned4 x \<longleftrightarrow> unat x mod 4 = 0"

lemma and_3: "x AND 3 = 0 \<longleftrightarrow> aligned4 (x :: u32)"
proof -
  have "x AND 3 = take_bit 2 x" by (simp add: take_bit_eq_mask mask_eq_exp_minus_1)
  then have "unat (x AND 3) = unat x mod 4"
    by (simp only: unsigned_take_bit_eq) (simp add: take_bit_eq_mod)
  then show ?thesis by (metis aligned4_def unat_0_iff)
qed

lemma or_and_3: "(x OR y) AND 3 = 0 \<longleftrightarrow> aligned4 (x :: u32) \<and> aligned4 y"
  unfolding and_3 [symmetric] bit_eq_iff by (auto simp: bit_simps)

lemma unat_add_mod4: "unat (x + y :: u32) mod 4 = (unat x + unat y) mod 4"
proof -
  have "unat (x + y) = (unat x + unat y) mod 2 ^ 32" by (simp add: unat_word_ariths(1))
  then show ?thesis by (simp add: mod_mod_cancel)
qed

lemma aligned4_add: "aligned4 x \<Longrightarrow> aligned4 y \<Longrightarrow> aligned4 (x + y)"
  unfolding aligned4_def unat_add_mod4 by presburger

section \<open>Lemmas on copying and filling\<close>

lemma copy_bytes_append:
  "copy_bytes m d s (n + k) = copy_bytes (copy_bytes m d s n) (d + of_nat n) (s + of_nat n) k"
  by (induction n arbitrary: m d s) (simp_all add: add.assoc)

lemma fill_bytes_store: "fill_bytes m d v n = store_bytes m d (replicate n v)"
  by (induction n arbitrary: m d) simp_all

lemma load_bytes_upd_outside:
  "\<forall>i<n. a + of_nat i \<noteq> d \<Longrightarrow> load_bytes (m(d := v)) a n = load_bytes m a n"
  by (rule nth_equalityI) (simp_all add: nth_load_bytes)

lemma apart_ne: "apart d (Suc n) s (Suc k) \<Longrightarrow> i < k \<Longrightarrow> s + 1 + of_nat i \<noteq> d"
proof
  assume a: "apart d (Suc n) s (Suc k)" "i < k" "s + 1 + of_nat i = d"
  then have "Suc n \<le> unat (s + of_nat (Suc i) - d)" by (intro apart_offset) auto
  moreover have "s + of_nat (Suc i) = d" using a(3) by (simp add: add.assoc)
  ultimately show False by simp
qed

lemma apart_Suc: "apart d (Suc n) s (Suc k) \<Longrightarrow> apart (d + 1) n (s + 1) k"
  by (auto simp: apart_def)

lemma copy_bytes_store:
  "apart d n s n \<or> d = s \<Longrightarrow> copy_bytes m d s n = store_bytes m d (load_bytes m s n)"
proof (induction n arbitrary: m d s)
  case 0
  then show ?case by simp
next
  case (Suc n)
  show ?case
  proof (cases "d = s")
    case True
    then show ?thesis using Suc.IH [of "d + 1" "s + 1" m] by simp
  next
    case False
    with Suc.prems have ap: "apart d (Suc n) s (Suc n)" by simp
    then have "load_bytes (m(d := m s)) (s + 1) n = load_bytes m (s + 1) n"
      by (intro load_bytes_upd_outside) (auto dest: apart_ne)
    with Suc.IH [of "d + 1" "s + 1" "m(d := m s)"] apart_Suc [OF ap] show ?thesis
      by (simp del: fun_upd_apply)
  qed
qed

lemma unat_add_nowrap:
  "unat d + n < 2 ^ 32 \<Longrightarrow> unat (d + of_nat n :: u32) = unat d + n"
  by (simp add: unat_plus_if')

lemma aligned4_apart: "aligned4 d \<Longrightarrow> aligned4 s \<Longrightarrow> apart d 4 s 4 \<or> d = s"
proof -
  have dist: "aligned4 x \<Longrightarrow> aligned4 y \<Longrightarrow> x \<noteq> y \<Longrightarrow> 4 \<le> unat (x - y)" for x y :: u32
  proof -
    assume a: "aligned4 x" "aligned4 y" "x \<noteq> y"
    have "unat ((x - y) + y) mod 4 = (unat (x - y) + unat y) mod 4" by (rule unat_add_mod4)
    then have "(unat (x - y) + unat y) mod 4 = 0" using a(1) by (simp add: aligned4_def)
    with a(2) have "unat (x - y) mod 4 = 0" unfolding aligned4_def by presburger
    moreover have "unat (x - y) \<noteq> 0" using a(3) by (simp add: unat_0_iff)
    ultimately show ?thesis by presburger
  qed
  assume "aligned4 d" "aligned4 s"
  then show ?thesis using dist [of s d] dist [of d s] by (auto simp: apart_def)
qed

lemma wr32_copy: "aligned4 d \<Longrightarrow> aligned4 s \<Longrightarrow> wr32 m d (rd32 m s) = copy_bytes m d s 4"
  by (simp add: wr32_rd32 copy_bytes_store aligned4_apart del: copy_bytes.simps)

lemma copy_words_bytes:
  "aligned4 d \<Longrightarrow> aligned4 s \<Longrightarrow> unat d + 4 * k < 2 ^ 32 \<Longrightarrow>
   copy_words m d s (d + of_nat (4 * k)) = Some (copy_bytes m d s (4 * k))"
proof (induction k arbitrary: m d s)
  case 0
  then show ?case by (simp add: copy_words.simps)
next
  case (Suc k)
  have u: "unat (d + of_nat (4 * Suc k)) = unat d + 4 * Suc k" "unat (d + of_nat 4) = unat d + 4"
    using Suc.prems(3) by (intro unat_add_nowrap; simp)+
  have lt: "d < d + of_nat (4 * Suc k)" unfolding word_less_nat_alt u by simp
  have e: "d + of_nat (4 * Suc k) = (d + 4) + of_nat (4 * k)" by simp
  have al: "aligned4 (d + 4)" "aligned4 (s + 4)"
    using Suc.prems by (simp_all add: aligned4_add aligned4_def [of 4])
  have "copy_words m d s (d + of_nat (4 * Suc k))
      = copy_words (copy_bytes m d s 4) (d + 4) (s + 4) ((d + 4) + of_nat (4 * k))"
    unfolding wr32_copy [OF Suc.prems(1,2), symmetric] e [symmetric]
    using lt by (subst copy_words.simps) simp
  also have "\<dots> = Some (copy_bytes (copy_bytes m d s 4) (d + 4) (s + 4) (4 * k))"
    using al Suc.prems(3) u(2) by (intro Suc.IH) simp_all
  also have "\<dots> = Some (copy_bytes m d s (4 * Suc k))"
    using copy_bytes_append [of m d s 4 "4 * k"] by simp
  finally show ?case .
qed

lemma copy_chars_bytes:
  "unat d + k < 2 ^ 32 \<Longrightarrow> copy_chars m d s (d + of_nat k) = Some (copy_bytes m d s k)"
proof (induction k arbitrary: m d s)
  case 0
  then show ?case by (simp add: copy_chars.simps)
next
  case (Suc k)
  have u: "unat (d + of_nat (Suc k)) = unat d + Suc k" "unat (d + of_nat 1) = unat d + 1"
    using Suc.prems by (intro unat_add_nowrap; simp)+
  have lt: "d < d + of_nat (Suc k)" unfolding word_less_nat_alt u by simp
  have e: "d + of_nat (Suc k) = (d + 1) + of_nat k" by simp
  have "copy_chars m d s (d + of_nat (Suc k)) = copy_chars (m(d := m s)) (d + 1) (s + 1) ((d + 1) + of_nat k)"
    unfolding e [symmetric] using lt by (subst copy_chars.simps) simp
  also have "\<dots> = Some (copy_bytes (m(d := m s)) (d + 1) (s + 1) k)"
    using Suc.prems u(2) by (intro Suc.IH) simp
  finally show ?case by simp
qed

text \<open>The byte pattern of the word-wise \<open>memset\<close>.\<close>

definition splat :: "u32 \<Rightarrow> u32" where
  "splat byte =
     (let w = byte AND 0xFF; w = w OR push_bit 8 w; w = w OR push_bit 16 w
      in w OR push_bit 16 (push_bit 16 w))"

lemma splat_bytes: "le_bytes 4 (unat (splat byte)) = replicate 4 (ucast byte)"
proof -
  have m: "(0xFF :: u32) = mask 8" by (simp add: mask_eq_exp_minus_1)
  have "ucast (splat byte) = (ucast byte :: u8)" "ucast (drop_bit 8 (splat byte)) = (ucast byte :: u8)"
    "ucast (drop_bit 16 (splat byte)) = (ucast byte :: u8)" "ucast (drop_bit 24 (splat byte)) = (ucast byte :: u8)"
    by (rule bit_eqI; auto simp: splat_def Let_def m bit_simps)+
  moreover have "replicate 4 x = [x, x, x, x]" for x :: u8
    by (simp add: eval_nat_numeral)
  ultimately show ?thesis by (simp only: le_bytes_4)
qed

lemma fill_words_bytes:
  "unat d + 4 * k < 2 ^ 32 \<Longrightarrow> le_bytes 4 (unat w) = replicate 4 b \<Longrightarrow>
   fill_words m d w (d + of_nat (4 * k)) = Some (fill_bytes m d b (4 * k))"
proof (induction k arbitrary: m d)
  case 0
  then show ?case by (simp add: fill_words.simps)
next
  case (Suc k)
  have u: "unat (d + of_nat (4 * Suc k)) = unat d + 4 * Suc k" "unat (d + of_nat 4) = unat d + 4"
    using Suc.prems(1) by (intro unat_add_nowrap; simp)+
  have lt: "d < d + of_nat (4 * Suc k)" unfolding word_less_nat_alt u by simp
  have e: "d + of_nat (4 * Suc k) = (d + 4) + of_nat (4 * k)" by simp
  have "fill_words m d w (d + of_nat (4 * Suc k)) = fill_words (store_bytes m d (replicate 4 b)) (d + 4) w ((d + 4) + of_nat (4 * k))"
    unfolding e [symmetric] using lt Suc.prems(2) by (subst fill_words.simps) (simp add: wr32_def)
  also have "\<dots> = Some (fill_bytes (store_bytes m d (replicate 4 b)) (d + 4) b (4 * k))"
    using Suc.prems u(2) by (intro Suc.IH) simp_all
  also have "\<dots> = Some (store_bytes m d (replicate 4 b @ replicate (4 * k) b))"
    by (simp add: fill_bytes_store store_bytes_append)
  also have "\<dots> = Some (fill_bytes m d b (4 * Suc k))"
    by (simp add: fill_bytes_store replicate_add [symmetric])
  finally show ?case .
qed

lemma fill_chars_bytes:
  "unat d + k < 2 ^ 32 \<Longrightarrow> fill_chars m d b (d + of_nat k) = Some (fill_bytes m d b k)"
proof (induction k arbitrary: m d)
  case 0
  then show ?case by (simp add: fill_chars.simps)
next
  case (Suc k)
  have u: "unat (d + of_nat (Suc k)) = unat d + Suc k" "unat (d + of_nat 1) = unat d + 1"
    using Suc.prems by (intro unat_add_nowrap; simp)+
  have lt: "d < d + of_nat (Suc k)" unfolding word_less_nat_alt u by simp
  have e: "d + of_nat (Suc k) = (d + 1) + of_nat k" by simp
  have "fill_chars m d b (d + of_nat (Suc k)) = fill_chars (m(d := b)) (d + 1) b ((d + 1) + of_nat k)"
    unfolding e [symmetric] using lt by (subst fill_chars.simps) simp
  also have "\<dots> = Some (fill_bytes (m(d := b)) (d + 1) b k)"
    using Suc.prems u(2) by (intro Suc.IH) simp
  finally show ?case by simp
qed

lemma aligned4_multiple: "aligned4 x \<Longrightarrow> \<exists>k. unat x = 4 * k"
  by (auto simp: aligned4_def)

section \<open>Properties of the memory functions\<close>

text \<open>C15: The word-wise memory functions of the kernel loader are the byte-wise ones: on every
  destination range that does not run past the end of the address space, whatever the alignment and
  however source and destination overlap, they end with the same memory.\<close>

theorem k_mem_functions_bytewise:
  assumes "unat dest + unat len < 2 ^ 32"
  shows "k_memcpy m dest src len = Some (memcpy m dest src len)
    \<and> k_memset m dest byte len = Some (memset m dest byte len)"
proof
  have e: "dest + len = dest + of_nat (unat len)" by simp
  show "k_memcpy m dest src len = Some (memcpy m dest src len)"
  proof (cases "(dest OR src OR len) AND 3 = 0")
    case True
    then have al: "aligned4 dest" "aligned4 src" "aligned4 len"
      by (auto simp: or_and_3 and_3) (use or_and_3 True in \<open>auto simp: and_3\<close>)
    from aligned4_multiple [OF al(3)] obtain k where k: "unat len = 4 * k" by blast
    with copy_words_bytes [OF al(1,2), of k m] assms True show ?thesis
      by (simp add: k_memcpy_def memcpy_def e del: of_nat_unat of_nat_mult)
  next
    case False
    with copy_chars_bytes [OF assms, of m src] show ?thesis
      by (simp add: k_memcpy_def memcpy_def)
  qed
  show "k_memset m dest byte len = Some (memset m dest byte len)"
  proof (cases "(dest OR len) AND 3 = 0")
    case True
    then have "aligned4 len" by (simp add: or_and_3)
    from aligned4_multiple [OF this] obtain k where k: "unat len = 4 * k" by blast
    with fill_words_bytes [OF _ splat_bytes, of dest k m byte] assms True show ?thesis
      by (simp add: k_memset_def memset_def splat_def Let_def e del: of_nat_unat of_nat_mult)
  next
    case False
    with fill_chars_bytes [OF assms, of m "ucast byte"] show ?thesis
      by (simp add: k_memset_def memset_def)
  qed
qed

theorem k_mem_functions_bytewise_witness:
  "k_memcpy (\<lambda>_. 7) 0x100 0x104 8 = Some (memcpy (\<lambda>_. 7) 0x100 0x104 8)"
  using k_mem_functions_bytewise [of "0x100" 8 "\<lambda>_. 7" "0x104"] by simp

text \<open>Copying between ranges that are apart, or onto itself, gives the destination the bytes of
  the source and leaves every byte outside the destination as it was.\<close>

theorem memcpy_copies:
  assumes "apart d (unat N) s (unat N) \<or> d = s"
  shows "load_bytes (memcpy m d s N) d (unat N) = load_bytes m s (unat N)
    \<and> (\<forall>x. unat N \<le> unat (x - d) \<longrightarrow> memcpy m d s N x = m x)"
proof -
  have "memcpy m d s N = store_bytes m d (load_bytes m s (unat N))"
    unfolding memcpy_def by (rule copy_bytes_store [OF assms])
  moreover have "unat N \<le> 2 ^ 32" by (simp add: less_imp_le)
  ultimately show ?thesis
    using load_store_same [of "load_bytes m s (unat N)" m d] by (simp add: store_bytes_outside)
qed

theorem memcpy_copies_witness:
  "load_bytes (memcpy (\<lambda>a. ucast a) 0x100 0x200 2) 0x100 2 = [0, 1]"
proof -
  have u: "unat (2 :: u32) = 2" by simp
  have "apart 0x100 (unat (2 :: u32)) 0x200 (unat (2 :: u32))" by (simp add: apart_def)
  from memcpy_copies [OF disjI1 [OF this], of "\<lambda>a. ucast a", THEN conjunct1]
  have "load_bytes (memcpy (\<lambda>a. ucast a) 0x100 0x200 2) 0x100 2 = load_bytes (\<lambda>a. ucast a) 0x200 2"
    unfolding u .
  also have "\<dots> = [ucast (0x200 :: u32), ucast (0x200 + 1 :: u32)]" by (simp only: numeral_2_eq_2 load_bytes.simps)
  finally show ?thesis by simp
qed

section \<open>Strings in memory\<close>

lemma load_bytes_2: "load_bytes m a 2 = [m a, m (a + 1)]"
  by (simp add: numeral_2_eq_2)


definition str_at :: "mem \<Rightarrow> u32 \<Rightarrow> u8 list \<Rightarrow> bool" where
  "str_at m a s \<longleftrightarrow> load_bytes m a (length s) = s \<and> m (a + of_nat (length s)) = 0 \<and> 0 \<notin> set s"

lemma str_at_Nil [simp]: "str_at m a [] \<longleftrightarrow> m a = 0"
  by (simp add: str_at_def)

lemma str_at_Cons [simp]: "str_at m a (c # s) \<longleftrightarrow> m a = c \<and> c \<noteq> 0 \<and> str_at m (a + 1) s"
  by (auto simp: str_at_def add.assoc)

lemma str_at_upd:
  "str_at m a s \<Longrightarrow> \<forall>i\<le>length s. a + of_nat i \<noteq> d \<Longrightarrow> str_at (m(d := v)) a s"
  by (auto simp: str_at_def load_bytes_upd_outside)

lemma strlen_loop_str:
  "str_at m a s \<Longrightarrow> strlen_loop m a len = Some (len + of_nat (length s))"
  by (induction s arbitrary: a len) (simp_all add: strlen_loop.simps add.assoc)

lemma k_strlen_loop_str: "str_at m a s \<Longrightarrow> k_strlen_loop m a = Some (a + of_nat (length s))"
  by (induction s arbitrary: a) (simp_all add: k_strlen_loop.simps add.assoc)

lemma str_at_copied:
  assumes "str_at m s (c # cs)" "apart d (Suc n) s (Suc k)" "length cs < k"
  shows "str_at (m(d := v)) (s + 1) cs"
  using assms apart_ne [OF assms(2)] by (intro str_at_upd) auto

lemma strcpy_str:
  "str_at m s str \<Longrightarrow> apart d (length str + 1) s (length str + 1) \<Longrightarrow>
   strcpy m d s = Some (copy_bytes m d s (length str))"
proof (induction str arbitrary: m d s)
  case Nil
  then show ?case by (simp add: strcpy.simps)
next
  case (Cons c cs)
  have "str_at (m(d := c)) (s + 1) cs"
    using Cons.prems by (intro str_at_copied [of m s c cs d "length cs + 1" "length cs + 1"]) auto
  moreover have "apart (d + 1) (length cs + 1) (s + 1) (length cs + 1)"
    using Cons.prems(2) apart_Suc by simp
  ultimately show ?case
    using Cons.IH [of "m(d := c)" "s + 1" "d + 1"] Cons.prems(1)
    by (subst strcpy.simps) (simp del: fun_upd_apply)
qed

lemma k_strcpy_str:
  "str_at m s str \<Longrightarrow> apart d (length str + 1) s (length str + 1) \<Longrightarrow>
   k_strcpy m d s = Some (copy_bytes m d s (length str + 1))"
proof (induction str arbitrary: m d s)
  case Nil
  then show ?case by (simp add: k_strcpy.simps fun_upd_def)
next
  case (Cons c cs)
  have "str_at (m(d := c)) (s + 1) cs"
    using Cons.prems by (intro str_at_copied [of m s c cs d "length cs + 1" "length cs + 1"]) auto
  moreover have "apart (d + 1) (length cs + 1) (s + 1) (length cs + 1)"
    using Cons.prems(2) apart_Suc by simp
  ultimately show ?case
    using Cons.IH [of "m(d := c)" "s + 1" "d + 1"] Cons.prems(1)
    by (subst k_strcpy.simps) (simp del: fun_upd_apply)
qed

section \<open>Properties of the string functions\<close>

text \<open>On a string in memory both \<open>strlen\<close> give its length (except at address 0, where the boot
  monitor's gives 0).  The kernel loader's \<open>strcpy\<close> makes the destination hold the string; the boot
  monitor's copies the characters without the terminating NUL, so the byte after them is the old one.\<close>

theorem strcpy_terminator:
  assumes "str_at m s str" and "apart d (length str + 1) s (length str + 1)" and "length str + 1 < 2 ^ 32"
  shows "k_strlen m s = Some (of_nat (length str))
    \<and> strlen m s = Some (if s = 0 then 0 else of_nat (length str))
    \<and> (\<exists>m'. k_strcpy m d s = Some m' \<and> str_at m' d str)
    \<and> (\<exists>m'. strcpy m d s = Some m' \<and> load_bytes m' d (length str) = str
          \<and> m' (d + of_nat (length str)) = m (d + of_nat (length str)))"
proof (intro conjI)
  let ?n = "length str"
  show "k_strlen m s = Some (of_nat ?n)"
    using k_strlen_loop_str [OF assms(1)] by (simp add: k_strlen_def)
  show "strlen m s = Some (if s = 0 then 0 else of_nat ?n)"
    using strlen_loop_str [OF assms(1), of 0] by (simp add: strlen_def)
  have l: "load_bytes m s ?n = str" "m (s + of_nat ?n) = 0" "0 \<notin> set str"
    using assms(1) by (auto simp: str_at_def)
  have l1: "load_bytes m s (?n + 1) = str @ [0]"
    using l by (subst load_bytes_append) simp
  have c1: "copy_bytes m d s (?n + 1) = store_bytes m d (str @ [0])"
    using copy_bytes_store [OF disjI1 [OF assms(2)], of m] by (simp only: l1)
  have "length (str @ [0]) \<le> 2 ^ 32" using assms(3) by simp
  then have "load_bytes (store_bytes m d (str @ [0])) d ?n = str" "store_bytes m d (str @ [0]) (d + of_nat ?n) = 0"
    using assms(3) by (auto intro!: nth_equalityI simp: nth_load_bytes store_bytes_apply nth_append)
  then have "str_at (store_bytes m d (str @ [0])) d str" using l(3) by (simp add: str_at_def)
  then show "\<exists>m'. k_strcpy m d s = Some m' \<and> str_at m' d str"
    using k_strcpy_str [OF assms(1,2)] c1 by simp
  have "copy_bytes m d s ?n = store_bytes m d str"
    using copy_bytes_store [of d ?n s m] apart_le [OF assms(2), of ?n ?n] l(1) by simp
  moreover have "load_bytes (store_bytes m d str) d ?n = str"
    using assms(3) by (intro load_store_same) simp
  moreover have "store_bytes m d str (d + of_nat ?n) = m (d + of_nat ?n)"
    using assms(3) by (simp add: store_bytes_apply)
  ultimately show "\<exists>m'. strcpy m d s = Some m' \<and> load_bytes m' d ?n = str
          \<and> m' (d + of_nat ?n) = m (d + of_nat ?n)"
    using strcpy_str [OF assms(1,2)] by simp
qed

definition mem_sample :: mem where
  "mem_sample = (\<lambda>_. 0xFF)(0x200 := 0x41, 0x201 := 0x42, 0x202 := 0)"

theorem strcpy_terminator_witness:
  "\<exists>m'. strcpy mem_sample 0x100 0x200 = Some m' \<and> load_bytes m' 0x100 2 = [0x41, 0x42] \<and> m' 0x102 = 0xFF"
proof -
  have "str_at mem_sample 0x200 [0x41, 0x42]" by (simp add: mem_sample_def)
  moreover have two: "length [0x41, 0x42 :: u8] = 2" by simp
  moreover have "apart 0x100 (length [0x41, 0x42 :: u8] + 1) 0x200 (length [0x41, 0x42 :: u8] + 1)"
    by (simp add: apart_def)
  ultimately show ?thesis
    using strcpy_terminator [of mem_sample "0x200" "[0x41, 0x42]" "0x100", THEN conjunct2, THEN conjunct2, THEN conjunct2]
    by (simp add: two) (simp add: mem_sample_def load_bytes_2)
qed

lemma strcmp_str:
  "str_at m a xs \<Longrightarrow> str_at m b ys \<Longrightarrow> \<exists>v. strcmp m a b = Some v \<and> (v = 0 \<longleftrightarrow> xs = ys)
     \<and> (v < 0 \<longleftrightarrow> (xs, ys) \<in> lexord {(x, y). x < y})"
proof (induction ys arbitrary: a b xs)
  case Nil
  then show ?case by (cases xs) (auto simp: strcmp.simps [of m a b] uint_0_iff)
next
  case (Cons y ys)
  show ?case
  proof (cases xs)
    case Nil
    with Cons.prems have "0 < unat (m b)" by (simp add: unat_gt_0)
    then have "0 < uint (m b)" by (simp add: zero_less_nat_eq [symmetric])
    with Nil Cons.prems show ?thesis by (auto simp: strcmp.simps [of m a b])
  next
    case (Cons x xs')
    show ?thesis
    proof (cases "x = y")
      case True
      with Cons.IH [of "a + 1" xs' "b + 1"] Cons.prems Cons show ?thesis
        by (simp add: strcmp.simps [of m a b])
    next
      case False
      then have "uint x \<noteq> uint y" by (simp add: word_uint_eq_iff)
      with False Cons.prems Cons show ?thesis
        by (simp add: strcmp.simps [of m a b] word_less_def)
    qed
  qed
qed

text \<open>\<open>strcmp\<close> on two strings in memory ends; its result is zero exactly when they are equal and
  negative exactly when the first comes before the second in the byte-wise dictionary order.\<close>

theorem strcmp_order:
  assumes "str_at m a xs" "str_at m b ys"
  shows "\<exists>v. strcmp m a b = Some v \<and> (v = 0 \<longleftrightarrow> xs = ys)
     \<and> (v < 0 \<longleftrightarrow> (xs, ys) \<in> lexord {(x, y). x < y})"
  using assms by (rule strcmp_str)

theorem strcmp_order_witness:
  "\<exists>v. strcmp mem_sample 0x200 0x201 = Some v \<and> v < 0"
proof -
  have "str_at mem_sample 0x200 [0x41, 0x42]" "str_at mem_sample 0x201 [0x42]"
    by (simp_all add: mem_sample_def)
  from strcmp_order [OF this] show ?thesis by auto
qed

section \<open>Numbers\<close>

lemma atol_digits_append: "atol_digits r (xs @ [c]) = atol_digits r xs * 10 + (of_nat (of_char c) - 48)"
  by (induction xs arbitrary: r) auto

lemma digit_code: "d < 10 \<Longrightarrow> (of_char (char_of (48 + d :: nat)) :: nat) = 48 + d"
  by simp

lemma atol_dec_digits: "atol_digits 0 (dec_digits n) = of_nat n"
proof (induction n rule: less_induct)
  case (less n)
  have c: "(of_nat (of_char (char_of (48 + d) :: char)) :: u32) - 48 = of_nat d" if "d < 10" for d
    using digit_code [OF that] by simp
  show ?case
  proof (cases "n < 10")
    case True
    with c [of n] show ?thesis by (simp add: dec_digits.simps [of n])
  next
    case False
    then have "atol_digits 0 (dec_digits n) = of_nat (n div 10) * 10 + of_nat (n mod 10)"
      using less.IH [of "n div 10"] c [of "n mod 10"] by (simp add: dec_digits.simps [of n] atol_digits_append)
    also have "\<dots> = of_nat (n div 10 * 10 + n mod 10)" by (simp only: of_nat_add of_nat_mult of_nat_numeral)
    finally show ?thesis by simp
  qed
qed

lemma dec_digits_chars: "c \<in> set (dec_digits n) \<Longrightarrow> \<exists>d<10::nat. c = char_of (48 + d)"
proof (induction n rule: less_induct)
  case (less n)
  show ?case
  proof (cases "n < 10")
    case True
    with less.prems show ?thesis by (auto simp: dec_digits.simps [of n])
  next
    case False
    with less.prems have "c \<in> set (dec_digits (n div 10)) \<or> c = char_of (48 + n mod 10)"
      by (auto simp: dec_digits.simps [of n])
    with False less.IH [of "n div 10"] show ?thesis by (auto intro: exI [of _ "n mod 10"])
  qed
qed

lemma dec_digits_plain:
  "nul \<notin> set (dec_digits n)" "CHR '' '' \<notin> set (dec_digits n)"
  "CHR ''-'' \<notin> set (dec_digits n)" "CHR ''+'' \<notin> set (dec_digits n)"
proof -
  have "(of_char c :: nat) \<ge> 48" if "c \<in> set (dec_digits n)" for c
    using dec_digits_chars [OF that] digit_code by fastforce
  moreover have "(of_char nul :: nat) = 0" "(of_char (CHR '' '') :: nat) = 32"
    "(of_char (CHR ''-'') :: nat) = 45" "(of_char (CHR ''+'') :: nat) = 43" by (simp_all add: nul_def)
  ultimately show "nul \<notin> set (dec_digits n)" "CHR '' '' \<notin> set (dec_digits n)"
    "CHR ''-'' \<notin> set (dec_digits n)" "CHR ''+'' \<notin> set (dec_digits n)" by force+
qed

lemma dec_digits_ne [simp]: "dec_digits n \<noteq> []"
  by (subst dec_digits.simps) simp

lemma cstr_plain: "nul \<notin> set s \<Longrightarrow> cstr s = s"
  unfolding cstr_def by (rule takeWhile_all) auto

lemma dropWhile_hd: "s \<noteq> [] \<Longrightarrow> \<not> P (hd s) \<Longrightarrow> dropWhile P s = s"
  by (cases s) auto

text \<open>\<open>atol\<close> reads a printed decimal number back: after any number of spaces, the text of an integer
  gives that integer modulo 2^32, whatever its size and sign.\<close>

theorem atol_decimal:
  "atol (replicate k (CHR 0x20) @ fmt_d v) = word_of_int v"
proof -
  let ?sp = "\<lambda>c. c = CHR 0x20"
  have hd: "hd (dec_digits n) \<in> set (dec_digits n)" for n by (rule hd_in_set) simp
  have h: "hd (dec_digits n) \<noteq> CHR ''-''" "hd (dec_digits n) \<noteq> CHR ''+''" "hd (dec_digits n) \<noteq> CHR '' ''" for n
    using hd [of n] dec_digits_plain [of n] by metis+
  have "nul \<notin> set (replicate k (CHR 0x20) @ fmt_d v)"
    using dec_digits_plain(1) by (auto simp: fmt_d_def nul_def set_replicate_conv_if split: if_splits)
  then have c: "cstr (replicate k (CHR 0x20) @ fmt_d v) = replicate k (CHR 0x20) @ fmt_d v"
    by (rule cstr_plain)
  have "dropWhile ?sp (fmt_d v) = fmt_d v"
    using h(3) by (intro dropWhile_hd) (auto simp: fmt_d_def)
  then have d: "dropWhile ?sp (replicate k (CHR 0x20) @ fmt_d v) = fmt_d v"
    by (induction k) simp_all
  show ?thesis
    unfolding atol_def c d using h(1,2)
    by (auto simp: fmt_d_def Let_def atol_dec_digits)
qed

end
