(* ===== verification/Emulation.thy ===== *)
theory Emulation
  imports CLib "HOL-Library.Signed_Division"
begin

text \<open>
  The instruction emulator of the machine-mode firmware (hello/emulation.c, with the macros of
  hello/mtrap.h), in the configuration the Makefile builds: 32-bit registers, no compressed
  instructions, no hardware floating point.  The state is the saved register frame, the soft
  floating-point registers behind it, the thread pointer that holds the floating-point status,
  the trap CSRs, and the memory as the interrupted program sees it, where \<open>None\<close> is an address
  that faults.  An emulation function returns \<open>Some (ok, hart)\<close>, \<open>ok\<close> being the return of 0, or
  \<open>None\<close> where the C program is undefined.  The SoftFloat library is not under src/: its
  functions are the fields of the parameter \<open>softfloat\<close>, each taking and returning the status;
  what a trap inside an unprivileged access does to the CSRs mstatus, mepc and mcause is the field \<open>sf_trap\<close>.
  Shifts by more than the word size, which C leaves open, use the low five bits, as the machine.
\<close>

section \<open>State\<close>

record hart =
  xregs :: "u32 list"
  fregs :: "u64 list"
  tp :: u32
  h_mstatus :: u32
  h_mepc :: u32
  h_mcause :: u32
  umem :: "u32 \<Rightarrow> u8 option"

record softfloat =
  sf_trap :: "u32 \<times> u32 \<times> u32 \<Rightarrow> u32 \<times> u32 \<times> u32"
  f32_add :: "u32 \<Rightarrow> u32 \<Rightarrow> u32 \<Rightarrow> u32 \<times> u32"
  f64_add :: "u64 \<Rightarrow> u64 \<Rightarrow> u32 \<Rightarrow> u64 \<times> u32"
  f32_mul :: "u32 \<Rightarrow> u32 \<Rightarrow> u32 \<Rightarrow> u32 \<times> u32"
  f64_mul :: "u64 \<Rightarrow> u64 \<Rightarrow> u32 \<Rightarrow> u64 \<times> u32"
  f32_div :: "u32 \<Rightarrow> u32 \<Rightarrow> u32 \<Rightarrow> u32 \<times> u32"
  f64_div :: "u64 \<Rightarrow> u64 \<Rightarrow> u32 \<Rightarrow> u64 \<times> u32"
  f32_sqrt :: "u32 \<Rightarrow> u32 \<Rightarrow> u32 \<times> u32"
  f64_sqrt :: "u64 \<Rightarrow> u32 \<Rightarrow> u64 \<times> u32"
  f32_lt_quiet :: "u32 \<Rightarrow> u32 \<Rightarrow> u32 \<Rightarrow> bool \<times> u32"
  f64_lt_quiet :: "u64 \<Rightarrow> u64 \<Rightarrow> u32 \<Rightarrow> bool \<times> u32"
  f32_lt :: "u32 \<Rightarrow> u32 \<Rightarrow> u32 \<Rightarrow> bool \<times> u32"
  f64_lt :: "u64 \<Rightarrow> u64 \<Rightarrow> u32 \<Rightarrow> bool \<times> u32"
  f32_eq :: "u32 \<Rightarrow> u32 \<Rightarrow> u32 \<Rightarrow> bool \<times> u32"
  f64_eq :: "u64 \<Rightarrow> u64 \<Rightarrow> u32 \<Rightarrow> bool \<times> u32"
  isNaNF32UI :: "u32 \<Rightarrow> bool"
  isNaNF64UI :: "u64 \<Rightarrow> bool"
  f64_to_f32 :: "u64 \<Rightarrow> u32 \<Rightarrow> u32 \<times> u32"
  f32_to_f64 :: "u32 \<Rightarrow> u32 \<Rightarrow> u64 \<times> u32"
  ui64_to_f64 :: "u64 \<Rightarrow> u32 \<Rightarrow> u64 \<times> u32"
  f64_to_ui64 :: "u64 \<Rightarrow> u32 \<Rightarrow> u32 \<Rightarrow> u64 \<times> u32"
  mulAddF32 :: "nat \<Rightarrow> u32 \<Rightarrow> u32 \<Rightarrow> u32 \<Rightarrow> u32 \<Rightarrow> u32 \<times> u32"
  mulAddF64 :: "nat \<Rightarrow> u64 \<Rightarrow> u64 \<Rightarrow> u64 \<Rightarrow> u32 \<Rightarrow> u64 \<times> u32"
  mulAdd_subC :: nat
  mulAdd_subProd :: nat
  flag_invalid :: u32

type_synonym emu_result = "(bool \<times> hart) option"
type_synonym emulation_func = "softfloat \<Rightarrow> hart \<Rightarrow> u32 \<Rightarrow> u32 \<Rightarrow> u32 \<Rightarrow> emu_result"

definition MSTATUS_FS :: u32 where "MSTATUS_FS = 0x3000"
definition MSTATUS_MPRV :: u32 where "MSTATUS_MPRV = 0x10000"
definition MSTATUS_STACK :: u32 where "MSTATUS_STACK = 0x30 OR 0x8 OR 0x180 OR 0x40 OR 0xC00 OR 0x200"

section \<open>Registers and fields of an instruction (hello/mtrap.h)\<close>

definition reg_num :: "u32 \<Rightarrow> nat \<Rightarrow> nat" where
  "reg_num insn pos = unat (drop_bit pos insn AND 0x1F)"

definition GET_REG :: "hart \<Rightarrow> u32 \<Rightarrow> nat \<Rightarrow> u32" where
  "GET_REG h insn pos = xregs h ! reg_num insn pos"

definition GET_RS1 :: "hart \<Rightarrow> u32 \<Rightarrow> u32" where "GET_RS1 h insn = GET_REG h insn 15"
definition GET_RS2 :: "hart \<Rightarrow> u32 \<Rightarrow> u32" where "GET_RS2 h insn = GET_REG h insn 20"

definition SET_RD :: "hart \<Rightarrow> u32 \<Rightarrow> u32 \<Rightarrow> hart" where
  "SET_RD h insn val = h\<lparr>xregs := (xregs h)[reg_num insn 7 := val]\<rparr>"

definition IMM_I :: "u32 \<Rightarrow> u32" where "IMM_I insn = signed_drop_bit 20 insn"
definition IMM_S :: "u32 \<Rightarrow> u32" where
  "IMM_S insn = push_bit 5 (signed_drop_bit 25 insn) OR (drop_bit 7 insn AND 0x1F)"

definition GET_RM :: "u32 \<Rightarrow> nat" where "GET_RM insn = unat (drop_bit 12 insn AND 7)"
definition GET_PRECISION :: "u32 \<Rightarrow> nat" where "GET_PRECISION insn = unat (drop_bit 25 insn AND 3)"

definition GET_F64_REG :: "hart \<Rightarrow> u32 \<Rightarrow> nat \<Rightarrow> u64" where
  "GET_F64_REG h insn pos = fregs h ! reg_num insn pos"
definition GET_F32_REG :: "hart \<Rightarrow> u32 \<Rightarrow> nat \<Rightarrow> u32" where
  "GET_F32_REG h insn pos = ucast (GET_F64_REG h insn pos)"

definition SET_FS_DIRTY :: "hart \<Rightarrow> hart" where
  "SET_FS_DIRTY h = h\<lparr>h_mstatus := h_mstatus h OR MSTATUS_FS\<rparr>"

definition SET_F64_RD :: "hart \<Rightarrow> u32 \<Rightarrow> u64 \<Rightarrow> hart" where
  "SET_F64_RD h insn val = SET_FS_DIRTY (h\<lparr>fregs := (fregs h)[reg_num insn 7 := val]\<rparr>)"

text \<open>A 32-bit store into the 64-bit slot keeps its upper half.\<close>

definition SET_F32_RD :: "hart \<Rightarrow> u32 \<Rightarrow> u32 \<Rightarrow> hart" where
  "SET_F32_RD h insn val =
     SET_F64_RD h insn ((GET_F64_REG h insn 7 AND 0xFFFFFFFF00000000) OR ucast val)"

definition GET_FCSR :: "hart \<Rightarrow> u32" where "GET_FCSR h = tp h AND 0xFF"
definition SET_FCSR :: "hart \<Rightarrow> u32 \<Rightarrow> hart" where "SET_FCSR h v = h\<lparr>tp := v AND 0xFF\<rparr>"
definition GET_FRM :: "hart \<Rightarrow> u32" where "GET_FRM h = drop_bit 5 (GET_FCSR h)"
definition GET_FFLAGS :: "hart \<Rightarrow> u32" where "GET_FFLAGS h = GET_FCSR h AND 0x1F"
definition SET_FRM :: "hart \<Rightarrow> u32 \<Rightarrow> hart" where
  "SET_FRM h v = SET_FCSR h (GET_FFLAGS h OR push_bit 5 v)"
definition SET_FFLAGS :: "hart \<Rightarrow> u32 \<Rightarrow> hart" where
  "SET_FFLAGS h v = SET_FCSR h (push_bit 5 (GET_FRM h) OR (v AND 0x1F))"

text \<open>\<open>SETUP_STATIC_ROUNDING\<close>: the flag is False where the macro returns -1.\<close>

definition SETUP_STATIC_ROUNDING :: "hart \<Rightarrow> u32 \<Rightarrow> bool \<times> hart" where
  "SETUP_STATIC_ROUNDING h insn =
     (let t = tp h AND 0xFF in
      if insn AND 0x7000 = 0x7000 then (True, h\<lparr>tp := t OR push_bit 8 t\<rparr>)
      else if GET_RM insn > 4 then (False, h\<lparr>tp := t\<rparr>)
      else (True, h\<lparr>tp := t OR push_bit 13 (of_nat (GET_RM insn))\<rparr>))"

definition softfloat_roundingMode :: "hart \<Rightarrow> u32" where
  "softfloat_roundingMode h = signed_drop_bit 13 (tp h)"

lemmas reg_defs = GET_RS1_def GET_RS2_def GET_REG_def SET_RD_def SET_F64_RD_def SET_F32_RD_def
  SET_FS_DIRTY_def

section \<open>Unprivileged memory accesses (hello/mtrap.h)\<close>

fun uload :: "(u32 \<Rightarrow> u8 option) \<Rightarrow> u32 \<Rightarrow> nat \<Rightarrow> u8 list option" where
  "uload u a 0 = Some []"
| "uload u a (Suc n) = Option.bind (u a) (\<lambda>b. Option.bind (uload u (a + 1) n) (\<lambda>bs. Some (b # bs)))"

definition le32 :: "u8 list \<Rightarrow> u32" where "le32 bs = of_nat (le_val bs)"

text \<open>Byte stores one after the other; those before a fault have taken place.\<close>

fun ustore_bytes :: "(u32 \<Rightarrow> u8 option) \<Rightarrow> u32 \<Rightarrow> u8 list \<Rightarrow> bool \<times> (u32 \<Rightarrow> u8 option)" where
  "ustore_bytes u a [] = (True, u)"
| "ustore_bytes u a (b # bs) = (if u a = None then (False, u) else ustore_bytes (u(a := Some b)) (a + 1) bs)"

text \<open>A word store faults before it changes anything.\<close>

definition ustore_word :: "(u32 \<Rightarrow> u8 option) \<Rightarrow> u32 \<Rightarrow> u32 \<Rightarrow> bool \<times> (u32 \<Rightarrow> u8 option)" where
  "ustore_word u a v = (if uload u a 4 = None then (False, u) else ustore_bytes u a (le_bytes 4 (unat v)))"

text \<open>The CSRs after an access: MPRV is cleared at its end; a fault goes through a trap.\<close>

definition end_access :: "softfloat \<Rightarrow> bool \<Rightarrow> hart \<Rightarrow> hart" where
  "end_access E ok h =
     (let h = (if ok then h
               else (let (ms, mp, mc) = sf_trap E (h_mstatus h, h_mepc h, h_mcause h)
                     in h\<lparr>h_mstatus := ms, h_mepc := mp, h_mcause := mc\<rparr>))
      in h\<lparr>h_mstatus := h_mstatus h AND NOT MSTATUS_MPRV\<rparr>)"

definition restore_mstatus :: "u32 \<Rightarrow> u32 \<Rightarrow> hart \<Rightarrow> hart" where
  "restore_mstatus mstatus mepc h =
     h\<lparr>h_mstatus := (h_mstatus h AND NOT MSTATUS_STACK) OR (MSTATUS_STACK AND mstatus), h_mepc := mepc\<rparr>"

text \<open>\<open>get_insn\<close>: the instruction, or \<open>None\<close> on a fetch error, when the CSRs are restored.\<close>

definition get_insn :: "softfloat \<Rightarrow> hart \<Rightarrow> u32 option \<times> hart" where
  "get_insn E h =
     (case uload (umem h) (h_mepc h) 4 of
        Some bs \<Rightarrow> (Some (le32 bs), end_access E True h)
      | None \<Rightarrow> (None, (restore_mstatus (h_mstatus h) (h_mepc h) (end_access E False h))\<lparr>h_mcause := h_mcause h\<rparr>))"

definition fail_access :: "u32 \<Rightarrow> u32 \<Rightarrow> hart \<Rightarrow> emu_result" where
  "fail_access mstatus mepc h = Some (False, restore_mstatus mstatus mepc h)"

definition next_insn :: "u32 \<Rightarrow> hart \<Rightarrow> emu_result" where
  "next_insn mepc h = Some (True, h\<lparr>h_mepc := mepc + 4\<rparr>)"

text \<open>The end of a load and of a store: a fault restores the CSRs, otherwise the next instruction follows.\<close>

definition finish_load ::
  "softfloat \<Rightarrow> u32 \<Rightarrow> u32 \<Rightarrow> hart \<Rightarrow> 'a option \<Rightarrow> (hart \<Rightarrow> 'a \<Rightarrow> hart) \<Rightarrow> emu_result" where
  "finish_load E mstatus mepc h res upd =
     (case res of
        None \<Rightarrow> fail_access mstatus mepc (end_access E False h)
      | Some val \<Rightarrow> next_insn mepc (upd (end_access E True h) val))"

definition finish_store ::
  "softfloat \<Rightarrow> u32 \<Rightarrow> u32 \<Rightarrow> hart \<Rightarrow> bool \<times> (u32 \<Rightarrow> u8 option) \<Rightarrow> emu_result" where
  "finish_store E mstatus mepc h res =
     (case res of
        (False, u) \<Rightarrow> fail_access mstatus mepc (end_access E False (h\<lparr>umem := u\<rparr>))
      | (True, u) \<Rightarrow> next_insn mepc (end_access E True (h\<lparr>umem := u\<rparr>)))"

section \<open>Misaligned accesses\<close>

text \<open>\<open>DO_LOAD\<close> with two word loads.\<close>

definition do_load :: "(u32 \<Rightarrow> u8 option) \<Rightarrow> u32 \<Rightarrow> u32 option" where
  "do_load u addr =
     (let addr_lo = addr AND (- 4); addr_hi = addr_lo + 4 in
      case (uload u addr_lo 4, uload u addr_hi 4) of
        (Some lo, Some hi) \<Rightarrow>
          (let val_lo = drop_bit (unat (addr * 8) mod 32) (le32 lo);
               val_hi = push_bit (unat ((4 - addr) * 8) mod 32) (le32 hi)
           in Some (val_lo OR val_hi))
      | _ \<Rightarrow> None)"

text \<open>The two halfword loads; the high byte is sign-extended by \<open>lb\<close>.\<close>

definition do_load_half :: "bool \<Rightarrow> (u32 \<Rightarrow> u8 option) \<Rightarrow> u32 \<Rightarrow> u32 option" where
  "do_load_half sx u addr =
     (case (u addr, u (addr + 1)) of
        (Some b0, Some b1) \<Rightarrow> Some (ucast b0 OR push_bit 8 (if sx then scast b1 else ucast b1))
      | _ \<Rightarrow> None)"

definition misaligned_load_trap :: "softfloat \<Rightarrow> hart \<Rightarrow> emu_result" where
  "misaligned_load_trap E h0 =
     (let mstatus = h_mstatus h0; mepc = h_mepc h0 in
      case get_insn E h0 of
        (None, h) \<Rightarrow> Some (False, h)
      | (Some insn, h) \<Rightarrow>
          (let addr = GET_RS1 h insn + IMM_I insn; u = umem h; finish = finish_load E mstatus mepc h in
           if insn AND 0x707F = 0x2003 then finish (do_load u addr) (\<lambda>h v. SET_RD h insn v)
           else if insn AND 0x707F = 0x3007 then
             finish (Option.bind (do_load u addr) (\<lambda>lo. do_load u (addr + 4)))
               (\<lambda>h v. SET_F64_RD h insn (ucast v))
           else if insn AND 0x707F = 0x2007 then finish (do_load u addr) (\<lambda>h v. SET_F32_RD h insn v)
           else if insn AND 0x707F = 0x1003 then finish (do_load_half True u addr) (\<lambda>h v. SET_RD h insn v)
           else if insn AND 0x707F = 0x5003 then finish (do_load_half False u addr) (\<lambda>h v. SET_RD h insn v)
           else Some (False, h)))"

definition misaligned_store_trap :: "softfloat \<Rightarrow> hart \<Rightarrow> emu_result" where
  "misaligned_store_trap E h0 =
     (let mstatus = h_mstatus h0; mepc = h_mepc h0 in
      case get_insn E h0 of
        (None, h) \<Rightarrow> Some (False, h)
      | (Some insn, h) \<Rightarrow>
          (let addr = GET_RS1 h insn + IMM_S insn;
               val = GET_RS2 h insn;
               finish = (\<lambda>bs. finish_store E mstatus mepc h (ustore_bytes (umem h) addr bs))
           in
           if insn AND 0x707F = 0x2023 then finish (le_bytes 4 (unat val))
           else if insn AND 0x707F = 0x1023 then finish (le_bytes 2 (unat val))
           else if insn AND 0x707F = 0x3027 then finish (le_bytes 8 (unat (GET_F64_REG h insn 20)))
           else if insn AND 0x707F = 0x2027 then finish (le_bytes 4 (unat (GET_F32_REG h insn 20)))
           else Some (False, h)))"

section \<open>Floating-point loads and stores\<close>

definition truly_illegal_insn :: emulation_func where
  "truly_illegal_insn E h insn mstatus mepc = Some (False, h)"

definition emulate_float_load :: emulation_func where
  "emulate_float_load E h insn mstatus mepc =
     (let addr = GET_RS1 h insn + IMM_I insn in
      if insn AND 0x7000 = 0x2000 then
        (if addr mod 4 \<noteq> 0 then misaligned_load_trap E h
         else finish_load E mstatus mepc h (uload (umem h) addr 4) (\<lambda>h bs. SET_F32_RD h insn (le32 bs)))
      else if insn AND 0x7000 = 0x3000 then
        (if addr mod 4 \<noteq> 0 then misaligned_load_trap E h
         else finish_load E mstatus mepc h (uload (umem h) addr 8)
                (\<lambda>h bs. SET_F64_RD h insn (of_nat (le_val bs))))
      else fail_access mstatus mepc h)"

definition emulate_float_store :: emulation_func where
  "emulate_float_store E h insn mstatus mepc =
     (let addr = GET_RS1 h insn + IMM_S insn in
      if insn AND 0x7000 = 0x2000 then
        (if addr mod 4 \<noteq> 0 then misaligned_store_trap E h
         else finish_store E mstatus mepc h (ustore_word (umem h) addr (GET_F32_REG h insn 20)))
      else if insn AND 0x7000 = 0x3000 then
        (if addr mod 4 \<noteq> 0 then misaligned_store_trap E h
         else
           (let val = GET_F64_REG h insn 20 in
            finish_store E mstatus mepc h
              (case ustore_word (umem h) addr (ucast val) of
                 (False, u) \<Rightarrow> (False, u)
               | (True, u) \<Rightarrow> ustore_word u (addr + 4) (ucast (drop_bit 32 val)))))
      else fail_access mstatus mepc h)"

section \<open>Multiplication and division\<close>

text \<open>
  \<open>None\<close> where C leaves the division undefined: by zero, and the smallest number by -1.
  The products are taken in 64 bits, where the unsigned one wraps.
\<close>

definition mul_div_value :: "u32 \<Rightarrow> u32 \<Rightarrow> u32 \<Rightarrow> u32 option option" where
  "mul_div_value insn rs1 rs2 =
     (let k = insn AND 0xFE00707F;
          sdiv_ok = (rs2 \<noteq> 0 \<and> \<not> (rs1 = 0x80000000 \<and> rs2 = - 1))
      in
      if k = 0x2000033 then Some (Some (rs1 * rs2))
      else if k = 0x2004033 then Some (if sdiv_ok then Some (word_of_int (sint rs1 sdiv sint rs2)) else None)
      else if k = 0x2005033 then Some (if rs2 \<noteq> 0 then Some (rs1 div rs2) else None)
      else if k = 0x2006033 then Some (if sdiv_ok then Some (word_of_int (sint rs1 smod sint rs2)) else None)
      else if k = 0x2007033 then Some (if rs2 \<noteq> 0 then Some (rs1 mod rs2) else None)
      else if k = 0x2001033 then Some (Some (ucast (signed_drop_bit 32 (scast rs1 * scast rs2 :: u64))))
      else if k = 0x2003033 then Some (Some (ucast (signed_drop_bit 32 (ucast rs1 * ucast rs2 :: u64))))
      else if k = 0x2002033 then Some (Some (ucast (signed_drop_bit 32 (scast rs1 * ucast rs2 :: u64))))
      else None)"

definition emulate_mul_div :: emulation_func where
  "emulate_mul_div E h insn mstatus mepc =
     (case mul_div_value insn (GET_RS1 h insn) (GET_RS2 h insn) of
        None \<Rightarrow> Some (False, h)
      | Some None \<Rightarrow> None
      | Some (Some val) \<Rightarrow> next_insn mepc (SET_RD h insn val))"

definition emulate_mul_div32 :: emulation_func where
  "emulate_mul_div32 E h insn mstatus mepc = truly_illegal_insn E h insn mstatus mepc"

section \<open>Floating-point status registers\<close>

definition emulate_read_csr :: "hart \<Rightarrow> u32 \<Rightarrow> u32 \<Rightarrow> u32 option" where
  "emulate_read_csr h num mstatus =
     (if num \<in> {1, 2, 3} \<and> mstatus AND MSTATUS_FS = 0 then None
      else if num = 2 then Some (GET_FRM h)
      else if num = 1 then Some (GET_FFLAGS h)
      else if num = 3 then Some (GET_FCSR h)
      else None)"

definition emulate_write_csr :: "hart \<Rightarrow> u32 \<Rightarrow> u32 \<Rightarrow> hart option" where
  "emulate_write_csr h num val =
     (if num = 2 then Some (SET_FRM h val)
      else if num = 1 then Some (SET_FFLAGS h val)
      else if num = 3 then Some (SET_FCSR h val)
      else None)"

definition emulate_system :: emulation_func where
  "emulate_system E h insn mstatus mepc =
     (let rs1_num = drop_bit 15 insn AND 0x1F;
          rs1_val = GET_RS1 h insn;
          csr_num = drop_bit 20 insn
      in case emulate_read_csr h csr_num mstatus of
           None \<Rightarrow> Some (False, h)
         | Some csr_val \<Rightarrow>
             (let rm = GET_RM insn;
                  do_write = (rs1_num \<noteq> 0 \<or> rm = 1 \<or> rm = 5);
                  new_csr_val =
                    (if rm = 1 then rs1_val
                     else if rm = 2 then csr_val OR rs1_val
                     else if rm = 3 then csr_val AND NOT rs1_val
                     else if rm = 5 then rs1_num
                     else if rm = 6 then csr_val OR rs1_num
                     else csr_val AND NOT rs1_num)
              in
              if rm = 0 \<or> rm = 4 then Some (False, h)
              else
                (case (if do_write then emulate_write_csr h csr_num new_csr_val else Some h) of
                   None \<Rightarrow> Some (False, h)
                 | Some h \<Rightarrow> next_insn mepc (SET_RD h insn csr_val))))"

section \<open>Floating-point arithmetic\<close>

text \<open>Store a result of the library, which has also updated the status.\<close>

definition put_f32 :: "hart \<Rightarrow> u32 \<Rightarrow> u32 \<times> u32 \<Rightarrow> hart" where
  "put_f32 h insn r = SET_F32_RD (h\<lparr>tp := snd r\<rparr>) insn (fst r)"

definition put_f64 :: "hart \<Rightarrow> u32 \<Rightarrow> u64 \<times> u32 \<Rightarrow> hart" where
  "put_f64 h insn r = SET_F64_RD (h\<lparr>tp := snd r\<rparr>) insn (fst r)"

text \<open>The choice by precision that the operations share.\<close>

definition by_precision :: "hart \<Rightarrow> u32 \<Rightarrow> u32 \<Rightarrow> hart \<Rightarrow> hart \<Rightarrow> emu_result" where
  "by_precision h insn mepc single double =
     (if GET_PRECISION insn = 0 then next_insn mepc single
      else if GET_PRECISION insn = 1 then next_insn mepc double
      else Some (False, h))"

definition emulate_any_fadd :: "softfloat \<Rightarrow> hart \<Rightarrow> u32 \<Rightarrow> u32 \<Rightarrow> u32 \<Rightarrow> u32 \<Rightarrow> emu_result" where
  "emulate_any_fadd E h insn mstatus mepc neg_b =
     by_precision h insn mepc
       (put_f32 h insn (f32_add E (GET_F32_REG h insn 15) (GET_F32_REG h insn 20 XOR neg_b) (tp h)))
       (put_f64 h insn (f64_add E (GET_F64_REG h insn 15)
          (GET_F64_REG h insn 20 XOR push_bit 32 (ucast neg_b)) (tp h)))"

definition emulate_fadd :: emulation_func where
  "emulate_fadd E h insn mstatus mepc = emulate_any_fadd E h insn mstatus mepc 0"

definition emulate_fsub :: emulation_func where
  "emulate_fsub E h insn mstatus mepc = emulate_any_fadd E h insn mstatus mepc 0x80000000"

definition emulate_fmul :: emulation_func where
  "emulate_fmul E h insn mstatus mepc =
     by_precision h insn mepc
       (put_f32 h insn (f32_mul E (GET_F32_REG h insn 15) (GET_F32_REG h insn 20) (tp h)))
       (put_f64 h insn (f64_mul E (GET_F64_REG h insn 15) (GET_F64_REG h insn 20) (tp h)))"

definition emulate_fdiv :: emulation_func where
  "emulate_fdiv E h insn mstatus mepc =
     by_precision h insn mepc
       (put_f32 h insn (f32_div E (GET_F32_REG h insn 15) (GET_F32_REG h insn 20) (tp h)))
       (put_f64 h insn (f64_div E (GET_F64_REG h insn 15) (GET_F64_REG h insn 20) (tp h)))"

definition emulate_fsqrt :: emulation_func where
  "emulate_fsqrt E h insn mstatus mepc =
     (if drop_bit 20 insn AND 0x1F \<noteq> 0 then Some (False, h)
      else by_precision h insn mepc
        (put_f32 h insn (f32_sqrt E (GET_F32_REG h insn 15) (tp h)))
        (put_f64 h insn (f64_sqrt E (GET_F64_REG h insn 15) (tp h))))"

text \<open>\<open>DO_FSGNJ\<close> on a word: the sign bit is computed in the whole word and shifted to the top.\<close>

definition fsgnj :: "'a::len word \<Rightarrow> 'a word \<Rightarrow> nat \<Rightarrow> 'a word" where
  "fsgnj rs1 rs2 rm =
     (let top = LENGTH('a) - 1;
          rs1_sign = drop_bit top rs1;
          rs2_sign = drop_bit top rs2;
          rs1_sign = rs1_sign AND of_nat (rm div 2);
          rs1_sign = rs1_sign XOR (of_nat rm XOR rs2_sign)
      in drop_bit 1 (push_bit 1 rs1) OR push_bit top rs1_sign)"

definition emulate_fsgnj :: emulation_func where
  "emulate_fsgnj E h insn mstatus mepc =
     (let rm = GET_RM insn in
      if rm \<ge> 3 then Some (False, h)
      else by_precision h insn mepc
        (SET_F32_RD h insn (fsgnj (GET_F32_REG h insn 15) (GET_F32_REG h insn 20) rm))
        (SET_F64_RD h insn (fsgnj (GET_F64_REG h insn 15) (GET_F64_REG h insn 20) rm)))"

definition emulate_fmin :: emulation_func where
  "emulate_fmin E h insn mstatus mepc =
     (let rm = GET_RM insn in
      if rm \<ge> 2 then Some (False, h)
      else by_precision h insn mepc
        (let rs1 = GET_F32_REG h insn 15; rs2 = GET_F32_REG h insn 20;
             (lt, t) = (if rm \<noteq> 0 then f32_lt_quiet E rs2 rs1 (tp h) else f32_lt_quiet E rs1 rs2 (tp h))
         in put_f32 h insn (if lt \<or> isNaNF32UI E rs2 then rs1 else rs2, t))
        (let rs1 = GET_F64_REG h insn 15; rs2 = GET_F64_REG h insn 20;
             (lt, t) = (if rm \<noteq> 0 then f64_lt_quiet E rs2 rs1 (tp h) else f64_lt_quiet E rs1 rs2 (tp h))
         in put_f64 h insn (if lt \<or> isNaNF64UI E rs2 then rs1 else rs2, t)))"

definition emulate_fcvt_ff :: emulation_func where
  "emulate_fcvt_ff E h insn mstatus mepc =
     (let rs2_num = drop_bit 20 insn AND 0x1F in
      if GET_PRECISION insn = 0 then
        (if rs2_num \<noteq> 1 then Some (False, h)
         else next_insn mepc (put_f32 h insn (f64_to_f32 E (GET_F64_REG h insn 15) (tp h))))
      else if GET_PRECISION insn = 1 then
        (if rs2_num \<noteq> 0 then Some (False, h)
         else next_insn mepc (put_f64 h insn (f32_to_f64 E (GET_F32_REG h insn 15) (tp h))))
      else Some (False, h))"

text \<open>Negating the smallest number is undefined in C.\<close>

definition emulate_fcvt_fi :: emulation_func where
  "emulate_fcvt_fi E h insn mstatus mepc =
     (let rs2_num = drop_bit 20 insn AND 0x1F; rs1 = GET_RS1 h insn;
          store = (\<lambda>negative uint_val.
            let (f, t) = ui64_to_f64 E uint_val (tp h);
                float64 = (if negative then f XOR 0x8000000000000000 else f);
                h = h\<lparr>tp := t\<rparr>
            in next_insn mepc
                 (if GET_PRECISION insn = 0 then put_f32 h insn (f64_to_f32 E float64 (tp h))
                  else SET_F64_RD h insn float64))
      in
      if GET_PRECISION insn \<noteq> 0 \<and> GET_PRECISION insn \<noteq> 1 then Some (False, h)
      else if rs2_num = 0 then
        (if rs1 = 0x80000000 then None
         else if sint rs1 < 0 then store True (ucast (- rs1)) else store False (ucast rs1))
      else if rs2_num = 1 then store False (ucast rs1)
      else Some (False, h))"

text \<open>The integer that a conversion from floating point stores, and whether it is out of range.\<close>

definition fcvt_if_result :: "u32 \<Rightarrow> bool \<Rightarrow> u64 \<Rightarrow> u64 \<times> bool" where
  "fcvt_if_result rs2_num negative uint_val =
     (let (result, limit, limit_result) =
        (if rs2_num = 0 then
           (if negative then (scast (ucast (- uint_val) :: u32), 0x80000000, 0x80000000)
            else (scast (ucast uint_val :: u32), 0x7FFFFFFF, 0x7FFFFFFF))
         else
           (if negative then (0, 0, 0xFFFFFFFF)
            else (ucast (ucast uint_val :: u32), 0xFFFFFFFF, 0xFFFFFFFF)))
      in if uint_val > limit then (limit_result, True) else (result, False))"

definition emulate_fcvt_if :: emulation_func where
  "emulate_fcvt_if E h insn mstatus mepc =
     (let rs2_num = drop_bit 20 insn AND 0x1F in
      if rs2_num \<ge> 2 then Some (False, h)
      else if GET_PRECISION insn \<noteq> 0 \<and> GET_PRECISION insn \<noteq> 1 then Some (False, h)
      else
        (let (float64, t) = (if GET_PRECISION insn = 0 then f32_to_f64 E (GET_F32_REG h insn 15) (tp h)
                             else (GET_F64_REG h insn 15, tp h));
             h = h\<lparr>tp := t\<rparr>;
             negative = (sint float64 < 0);
             float64 = (if negative then float64 XOR 0x8000000000000000 else float64);
             (uint_val, t) = f64_to_ui64 E float64 (softfloat_roundingMode h) (tp h);
             (result, invalid) = fcvt_if_result rs2_num negative uint_val;
             h = h\<lparr>tp := (if invalid then t OR flag_invalid E else t)\<rparr>
         in next_insn mepc (SET_RD (SET_FS_DIRTY h) insn (ucast result))))"

definition fcmp_result :: "nat \<Rightarrow> ('a \<Rightarrow> 'a \<Rightarrow> u32 \<Rightarrow> bool \<times> u32) \<Rightarrow> ('a \<Rightarrow> 'a \<Rightarrow> u32 \<Rightarrow> bool \<times> u32)
    \<Rightarrow> 'a \<Rightarrow> 'a \<Rightarrow> u32 \<Rightarrow> bool \<times> u32" where
  "fcmp_result rm eq lt rs1 rs2 t =
     (let (result, t) = (if rm \<noteq> 1 then eq rs1 rs2 t else (False, t)) in
      if rm = 1 \<or> (rm = 0 \<and> \<not> result) then lt rs1 rs2 t else (result, t))"

definition emulate_fcmp :: emulation_func where
  "emulate_fcmp E h insn mstatus mepc =
     (let rm = GET_RM insn;
          store = (\<lambda>(r, t). SET_RD (h\<lparr>tp := t\<rparr>) insn (if r then 1 else 0))
      in
      if rm \<ge> 3 then Some (False, h)
      else by_precision h insn mepc
        (store (fcmp_result rm (f32_eq E) (f32_lt E) (GET_F32_REG h insn 15) (GET_F32_REG h insn 20) (tp h)))
        (store (fcmp_result rm (f64_eq E) (f64_lt E) (GET_F64_REG h insn 15) (GET_F64_REG h insn 20) (tp h))))"

definition emulate_fmv_if :: emulation_func where
  "emulate_fmv_if E h insn mstatus mepc =
     (if insn AND 0xFFF0707F = 0xE0000053 then next_insn mepc (SET_RD h insn (GET_F32_REG h insn 15))
      else Some (False, h))"

definition emulate_fmv_fi :: emulation_func where
  "emulate_fmv_fi E h insn mstatus mepc =
     (let rs1 = GET_RS1 h insn in
      if insn AND 0xFFF0707F = 0xF0000053 then next_insn mepc (SET_F32_RD h insn rs1)
      else if insn AND 0xFFF0707F = 0xF2000053 then next_insn mepc (SET_F64_RD h insn (ucast rs1))
      else Some (False, h))"

definition fp_emulation_table :: "emulation_func list" where
  "fp_emulation_table =
     [emulate_fadd, emulate_fsub, emulate_fmul, emulate_fdiv, emulate_fsgnj, emulate_fmin,
      truly_illegal_insn, truly_illegal_insn, emulate_fcvt_ff, truly_illegal_insn, truly_illegal_insn,
      emulate_fsqrt] @ replicate 8 truly_illegal_insn @
     [emulate_fcmp, truly_illegal_insn, truly_illegal_insn, truly_illegal_insn, emulate_fcvt_if,
      truly_illegal_insn, emulate_fcvt_fi, truly_illegal_insn, emulate_fmv_if, truly_illegal_insn,
      emulate_fmv_fi, truly_illegal_insn]"

definition emulate_fp :: emulation_func where
  "emulate_fp E h insn mstatus mepc =
     (if mstatus AND MSTATUS_FS = 0 then Some (False, h)
      else
        (let f = fp_emulation_table ! (unat (drop_bit 25 insn AND 0x7C) div 4) in
         case SETUP_STATIC_ROUNDING h insn of
           (False, h) \<Rightarrow> Some (False, h)
         | (True, h) \<Rightarrow> f E h insn mstatus mepc))"

definition emulate_any_fmadd :: "nat \<Rightarrow> emulation_func" where
  "emulate_any_fmadd op E h insn mstatus mepc =
     (if mstatus AND MSTATUS_FS = 0 then Some (False, h)
      else
        (case SETUP_STATIC_ROUNDING h insn of
           (False, h) \<Rightarrow> Some (False, h)
         | (True, h) \<Rightarrow>
             by_precision h insn mepc
               (put_f32 h insn (mulAddF32 E op (GET_F32_REG h insn 15) (GET_F32_REG h insn 20)
                  (GET_F32_REG h insn 27) (tp h)))
               (put_f64 h insn (mulAddF64 E op (GET_F64_REG h insn 15) (GET_F64_REG h insn 20)
                  (GET_F64_REG h insn 27) (tp h)))))"

definition emulate_fmadd :: emulation_func where
  "emulate_fmadd E = emulate_any_fmadd 0 E"
definition emulate_fmsub :: emulation_func where
  "emulate_fmsub E = emulate_any_fmadd (mulAdd_subC E) E"
definition emulate_fnmadd :: emulation_func where
  "emulate_fnmadd E = emulate_any_fmadd (mulAdd_subC E OR mulAdd_subProd E) E"
definition emulate_fnmsub :: emulation_func where
  "emulate_fnmsub E = emulate_any_fmadd (mulAdd_subProd E) E"

section \<open>The illegal-instruction trap (hello/mtrap.c)\<close>

definition illegal_insn_trap_table :: "emulation_func list" where
  "illegal_insn_trap_table =
     [truly_illegal_insn, emulate_float_load] @ replicate 7 truly_illegal_insn @
     [emulate_float_store, truly_illegal_insn, truly_illegal_insn, emulate_mul_div, truly_illegal_insn,
      emulate_mul_div32, truly_illegal_insn, emulate_fmadd, emulate_fmsub, emulate_fnmsub, emulate_fnmadd,
      emulate_fp] @ replicate 7 truly_illegal_insn @
     [emulate_system, truly_illegal_insn, truly_illegal_insn, truly_illegal_insn]"

definition illegal_insn_trap :: "softfloat \<Rightarrow> hart \<Rightarrow> emu_result" where
  "illegal_insn_trap E h0 =
     (let mstatus = h_mstatus h0; mepc = h_mepc h0 in
      case get_insn E h0 of
        (None, h) \<Rightarrow> Some (False, h)
      | (Some insn, h) \<Rightarrow>
          if insn AND 3 \<noteq> 3 then Some (False, h)
          else (illegal_insn_trap_table ! (unat (insn AND 0x7C) div 4)) E h insn mstatus mepc)"

section \<open>Lemmas: what an emulated instruction may change\<close>

definition rd_update :: "u32 \<Rightarrow> hart \<Rightarrow> hart \<Rightarrow> bool" where
  "rd_update insn h h' \<longleftrightarrow>
     (\<exists>x. xregs h' = (xregs h)[reg_num insn 7 := x]) \<and> (\<exists>f. fregs h' = (fregs h)[reg_num insn 7 := f])"

text \<open>
  The frame of an emulation: on success only the destination registers have changed and the
  program counter is past the instruction, on failure no register has changed and it is back on it.
\<close>

definition framed :: "u32 \<Rightarrow> u32 \<Rightarrow> hart \<Rightarrow> emu_result \<Rightarrow> bool" where
  "framed insn mepc h r =
     (case r of None \<Rightarrow> True
      | Some (ok, h') \<Rightarrow>
          if ok then rd_update insn h h' \<and> h_mepc h' = mepc + 4
          else xregs h' = xregs h \<and> fregs h' = fregs h \<and> h_mepc h' = mepc)"

lemma rd_update_refl: "xregs h' = xregs h \<Longrightarrow> fregs h' = fregs h \<Longrightarrow> rd_update insn h h'"
  unfolding rd_update_def by (metis list_update_id)

lemma rd_update_xregs:
  "xregs h' = (xregs h)[reg_num insn 7 := x] \<Longrightarrow> fregs h' = fregs h \<Longrightarrow> rd_update insn h h'"
  unfolding rd_update_def by (metis list_update_id)

lemma rd_update_fregs:
  "fregs h' = (fregs h)[reg_num insn 7 := x] \<Longrightarrow> xregs h' = xregs h \<Longrightarrow> rd_update insn h h'"
  unfolding rd_update_def by (metis list_update_id)

named_theorems frame_simps \<open>the registers after the primitive state changes\<close>

lemma end_access_regs [frame_simps]:
  "xregs (end_access E ok h) = xregs h" "fregs (end_access E ok h) = fregs h"
  "umem (end_access E ok h) = umem h" "tp (end_access E ok h) = tp h"
  by (auto simp: end_access_def Let_def split: prod.splits)

lemma end_access_mepc [frame_simps]: "h_mepc (end_access E True h) = h_mepc h"
  by (simp add: end_access_def)

lemma set_rd_regs [frame_simps]:
  "xregs (SET_RD h insn v) = (xregs h)[reg_num insn 7 := v]" "fregs (SET_RD h insn v) = fregs h"
  "xregs (SET_F64_RD h insn w) = xregs h" "fregs (SET_F64_RD h insn w) = (fregs h)[reg_num insn 7 := w]"
  "xregs (SET_F32_RD h insn v) = xregs h"
  "fregs (SET_F32_RD h insn v) = (fregs h)[reg_num insn 7 := (GET_F64_REG h insn 7 AND 0xFFFFFFFF00000000) OR ucast v]"
  "xregs (put_f32 h insn r) = xregs h" "xregs (put_f64 h insn r') = xregs h"
  "fregs (put_f64 h insn r') = (fregs h)[reg_num insn 7 := fst r']"
  "xregs (SET_FS_DIRTY h) = xregs h" "fregs (SET_FS_DIRTY h) = fregs h"
  by (simp_all add: SET_RD_def SET_F64_RD_def SET_F32_RD_def SET_FS_DIRTY_def put_f32_def put_f64_def)

lemma put_f32_fregs: "\<exists>w. fregs (put_f32 h insn r) = (fregs h)[reg_num insn 7 := w]"
  by (auto simp: put_f32_def frame_simps)

lemma framed_fail [intro]: "h_mepc h = mepc \<Longrightarrow> framed insn mepc h (Some (False, h))"
  by (simp add: framed_def)

lemma framed_fail_tp [intro]: "h_mepc h = mepc \<Longrightarrow> framed insn mepc h (Some (False, h\<lparr>tp := t\<rparr>))"
  by (simp add: framed_def)

lemma framed_access [intro]:
  "xregs h' = xregs h \<Longrightarrow> fregs h' = fregs h \<Longrightarrow> framed insn mepc h (fail_access mstatus mepc h')"
  by (simp add: framed_def fail_access_def restore_mstatus_def)

lemma framed_next:
  "rd_update insn h h' \<Longrightarrow> framed insn mepc h (next_insn mepc h')"
  by (simp add: framed_def next_insn_def rd_update_def)

lemma framed_precision:
  "h_mepc h = mepc \<Longrightarrow> rd_update insn h s \<Longrightarrow> rd_update insn h d \<Longrightarrow> framed insn mepc h (by_precision h insn mepc s d)"
  by (simp add: by_precision_def framed_next framed_fail)

lemma rd_update_put:
  "rd_update insn h (put_f32 h insn r)" "rd_update insn h (put_f64 h insn r')"
  "rd_update insn h (SET_F32_RD h insn v)" "rd_update insn h (SET_F64_RD h insn w)" "rd_update insn h (SET_RD h insn x)"
  "rd_update insn h (put_f32 (h\<lparr>tp := t\<rparr>) insn r)" "rd_update insn h (put_f64 (h\<lparr>tp := t\<rparr>) insn r')"
  "rd_update insn h (SET_F64_RD (h\<lparr>tp := t\<rparr>) insn w)" "rd_update insn h (SET_RD (h\<lparr>tp := t\<rparr>) insn x)"
  "rd_update insn h (SET_RD (SET_FS_DIRTY (h\<lparr>tp := t\<rparr>)) insn x)"
  using put_f32_fregs [of h insn r] put_f32_fregs [of "h\<lparr>tp := t\<rparr>" insn r]
  by (auto intro: rd_update_xregs rd_update_fregs simp: frame_simps)

text \<open>The program counter is on the instruction, whose four bytes can be read.\<close>

definition at_insn :: "hart \<Rightarrow> u32 \<Rightarrow> bool" where
  "at_insn h insn \<longleftrightarrow> (\<exists>bs. uload (umem h) (h_mepc h) 4 = Some bs \<and> le32 bs = insn)"

lemma get_insn_at:
  "at_insn h insn \<Longrightarrow> get_insn E h = (Some insn, end_access E True h)"
  by (auto simp: at_insn_def get_insn_def)

lemma at_insn_end [simp]: "at_insn (end_access E True h) insn = at_insn h insn"
  by (simp add: at_insn_def frame_simps)

lemma framed_finish_load:
  "xregs g = xregs h \<Longrightarrow> fregs g = fregs h \<Longrightarrow> (\<And>v. rd_update insn h (upd (end_access E True g) v))
   \<Longrightarrow> framed insn mepc h (finish_load E mstatus mepc g res upd)"
  by (cases res) (auto simp: finish_load_def frame_simps intro: framed_next)

lemma framed_finish_store:
  "xregs g = xregs h \<Longrightarrow> fregs g = fregs h \<Longrightarrow> framed insn mepc h (finish_store E mstatus mepc g res)"
  by (auto simp: finish_store_def frame_simps split: prod.split bool.split intro!: framed_next rd_update_refl)

lemma rd_update_end:
  "rd_update insn h (SET_RD (end_access E True g) insn v)" "rd_update insn h (SET_F64_RD (end_access E True g) insn w)"
  "rd_update insn h (SET_F32_RD (end_access E True g) insn v)"
  if "xregs g = xregs h" "fregs g = fregs h"
  using that by (auto intro: rd_update_xregs rd_update_fregs simp: frame_simps)

lemma framed_misaligned_load:
  assumes "at_insn h insn"
  shows "framed insn (h_mepc h) h (misaligned_load_trap E h)"
  unfolding misaligned_load_trap_def Let_def get_insn_at [OF assms]
  by (simp add: framed_finish_load rd_update_end frame_simps) (simp add: framed_def frame_simps)

lemma framed_misaligned_store:
  assumes "at_insn h insn"
  shows "framed insn (h_mepc h) h (misaligned_store_trap E h)"
  unfolding misaligned_store_trap_def Let_def get_insn_at [OF assms]
  by (simp add: framed_finish_store frame_simps) (simp add: framed_def frame_simps)

lemma framed_float_load:
  "at_insn h insn \<Longrightarrow> framed insn (h_mepc h) h (emulate_float_load E h insn mstatus (h_mepc h))"
  by (simp add: emulate_float_load_def Let_def framed_misaligned_load framed_finish_load rd_update_end framed_access)

lemma framed_float_store:
  "at_insn h insn \<Longrightarrow> framed insn (h_mepc h) h (emulate_float_store E h insn mstatus (h_mepc h))"
  by (simp add: emulate_float_store_def Let_def framed_misaligned_store framed_finish_store framed_access)

lemma framed_mul_div: "framed insn (h_mepc h) h (emulate_mul_div E h insn mstatus (h_mepc h))"
  by (auto simp: emulate_mul_div_def split: option.split intro!: framed_next rd_update_put)
    (simp add: framed_def)

lemma framed_system: "framed insn (h_mepc h) h (emulate_system E h insn mstatus (h_mepc h))"
proof -
  have w: "xregs h' = xregs h \<and> fregs h' = fregs h" if "emulate_write_csr h n v = Some h'" for n v h'
    using that by (auto simp: emulate_write_csr_def SET_FRM_def SET_FFLAGS_def SET_FCSR_def split: if_splits)
  have step: "framed insn (h_mepc h) h
      (case (if dw then emulate_write_csr h n v else Some h) of
         None \<Rightarrow> Some (False, h) | Some h' \<Rightarrow> next_insn (h_mepc h) (SET_RD h' insn c))" for dw n v c
  proof (cases "if dw then emulate_write_csr h n v else Some h")
    case None
    then show ?thesis by (simp add: framed_fail)
  next
    case (Some h')
    then have "xregs h' = xregs h \<and> fregs h' = fregs h" using w by (auto split: if_splits)
    with Some show ?thesis by (auto intro!: framed_next intro: rd_update_xregs simp: frame_simps)
  qed
  show ?thesis
    unfolding emulate_system_def Let_def
    by (cases "emulate_read_csr h (drop_bit 20 insn) mstatus") (simp_all only: option.case step framed_fail if_split refl simp_thms)
qed

text \<open>The functions behind \<open>emulate_fp\<close>: they run with the status already set up for rounding.\<close>

lemma framed_fp_functions:
  assumes "f \<in> set fp_emulation_table" and "h_mepc h = mepc"
  shows "framed insn mepc h (f E h insn mstatus mepc)"
proof -
  have ops: "framed insn mepc h (emulate_any_fadd E h insn mstatus mepc neg)"
    "framed insn mepc h (emulate_fmul E h insn mstatus mepc)" "framed insn mepc h (emulate_fdiv E h insn mstatus mepc)"
    "framed insn mepc h (emulate_fsqrt E h insn mstatus mepc)" "framed insn mepc h (emulate_fsgnj E h insn mstatus mepc)"
    for neg
    using assms(2)
    by (auto simp: emulate_any_fadd_def emulate_fmul_def emulate_fdiv_def emulate_fsqrt_def emulate_fsgnj_def Let_def
        intro!: framed_precision rd_update_put)
  have fmin: "framed insn mepc h (emulate_fmin E h insn mstatus mepc)"
    using assms(2) by (auto simp: emulate_fmin_def Let_def split: prod.split intro!: framed_precision rd_update_put)
  have ff: "framed insn mepc h (emulate_fcvt_ff E h insn mstatus mepc)"
    using assms(2)
    by (auto simp: emulate_fcvt_ff_def Let_def intro!: framed_next rd_update_put)
  have fi: "framed insn mepc h (emulate_fcvt_fi E h insn mstatus mepc)"
  proof -
    have none: "framed insn mepc h None" by (simp add: framed_def)
    show ?thesis
      unfolding emulate_fcvt_fi_def Let_def
      by (simp add: none assms(2) framed_fail split: prod.split) (auto intro!: framed_next rd_update_put)
  qed
  have fif: "framed insn mepc h (emulate_fcvt_if E h insn mstatus mepc)"
    unfolding emulate_fcvt_if_def Let_def
    by (simp add: assms(2) framed_fail split: prod.split) (auto intro!: framed_next rd_update_put)
  have rest: "framed insn mepc h (emulate_fcmp E h insn mstatus mepc)"
    "framed insn mepc h (emulate_fmv_if E h insn mstatus mepc)" "framed insn mepc h (emulate_fmv_fi E h insn mstatus mepc)"
    "framed insn mepc h (truly_illegal_insn E h insn mstatus mepc)"
    using assms(2)
    by (auto simp: emulate_fcmp_def emulate_fmv_if_def emulate_fmv_fi_def truly_illegal_insn_def Let_def
        split: prod.split intro!: framed_next framed_precision rd_update_put)
  show ?thesis
    using assms(1) ops fmin ff fi fif rest
    by (auto simp: fp_emulation_table_def emulate_fadd_def emulate_fsub_def)
qed
lemma framed_fmadd: "framed insn (h_mepc h) h (emulate_any_fmadd op E h insn mstatus (h_mepc h))"
proof -
  have p: "framed insn (h_mepc h) h (by_precision g insn (h_mepc h) s d)"
    if "xregs g = xregs h" "fregs g = fregs h" "h_mepc g = h_mepc h" "rd_update insn h s" "rd_update insn h d" for g s d
    using that by (auto simp: by_precision_def intro!: framed_next) (simp add: framed_def)
  show ?thesis
    by (auto simp: emulate_any_fmadd_def SETUP_STATIC_ROUNDING_def Let_def intro!: p rd_update_put framed_fail framed_fail_tp)
qed

lemma framed_cong:
  "xregs g = xregs h \<Longrightarrow> fregs g = fregs h \<Longrightarrow> framed insn mepc g r \<Longrightarrow> framed insn mepc h r"
  by (auto simp: framed_def rd_update_def split: option.splits prod.splits)

lemma framed_fp: "framed insn (h_mepc h) h (emulate_fp E h insn mstatus (h_mepc h))"
proof -
  have idx: "unat (drop_bit 25 insn AND 0x7C) div 4 < 32"
  proof -
    have "drop_bit 25 insn AND 0x7C \<le> 0x7C" by (rule word_and_le1)
    then have "unat (drop_bit 25 insn AND 0x7C) \<le> 124" by (simp add: word_le_nat_alt)
    then show ?thesis by simp
  qed
  have "length fp_emulation_table = 32" by (simp add: fp_emulation_table_def)
  then have mem: "fp_emulation_table ! (unat (drop_bit 25 insn AND 0x7C) div 4) \<in> set fp_emulation_table"
    using idx by simp
  have sub: "framed insn (h_mepc h) h (f E (h\<lparr>tp := t\<rparr>) insn mstatus (h_mepc h))" if "f \<in> set fp_emulation_table" for f t
    by (rule framed_cong [OF _ _ framed_fp_functions [OF that]]) simp_all
  show ?thesis
  proof (cases "mstatus AND MSTATUS_FS = 0")
    case True
    then show ?thesis by (simp add: emulate_fp_def framed_fail)
  next
    case False
    obtain ok g where g: "SETUP_STATIC_ROUNDING h insn = (ok, g)" by (cases "SETUP_STATIC_ROUNDING h insn")
    then obtain t where t: "g = h\<lparr>tp := t\<rparr>"
      by (auto simp: SETUP_STATIC_ROUNDING_def Let_def split: if_splits)
    show ?thesis
      unfolding emulate_fp_def Let_def g t using False sub [OF mem, of t]
      by (cases ok) (simp_all only: if_False prod.case bool.case framed_fail_tp)
  qed
qed

lemma framed_table:
  assumes "f \<in> set illegal_insn_trap_table" and "at_insn h insn"
  shows "framed insn (h_mepc h) h (f E h insn mstatus (h_mepc h))"
proof -
  have "framed insn (h_mepc h) h (truly_illegal_insn E h insn mstatus (h_mepc h))"
    by (simp add: truly_illegal_insn_def framed_fail)
  with assms framed_float_load [of h insn E mstatus] framed_float_store [of h insn E mstatus]
    framed_mul_div [of insn h E mstatus] framed_system [of insn h E mstatus] framed_fp [of insn h E mstatus]
    framed_fmadd [of insn h _ E mstatus]
  show ?thesis
    by (auto simp: illegal_insn_trap_table_def emulate_mul_div32_def emulate_fmadd_def emulate_fmsub_def
        emulate_fnmadd_def emulate_fnmsub_def)
qed

section \<open>Properties of the dispatcher\<close>

lemma insn_table_index: "unat (insn AND 0x7C :: u32) div 4 < length illegal_insn_trap_table"
proof -
  have "insn AND 0x7C \<le> 0x7C" by (rule word_and_le1)
  then have "unat (insn AND 0x7C) \<le> 124" by (simp add: word_le_nat_alt)
  then show ?thesis by (simp add: illegal_insn_trap_table_def)
qed

section \<open>The rest of the state\<close>

text \<open>Which function of the table an instruction selects: bits 2 to 6.\<close>

definition opcode :: "u32 \<Rightarrow> nat" where
  "opcode insn = unat (insn AND 0x7C) div 4"

text \<open>The bytes that a floating-point store of an instruction may write.\<close>

definition store_window :: "u32 \<Rightarrow> hart \<Rightarrow> u32 set" where
  "store_window insn h =
     {a. unat (a - (GET_RS1 h insn + IMM_S insn)) < (if insn AND 0x7000 = 0x2000 then 4 else 8)}"

text \<open>
  Outside the registers: an emulation other than a load or a store leaves memory and mcause alone, and
  mstatus up to the dirty bits; one that is not floating point or a status register leaves the thread
  pointer alone.
\<close>

definition kept :: "bool \<Rightarrow> hart \<Rightarrow> emu_result \<Rightarrow> bool" where
  "kept fp h r =
     (case r of None \<Rightarrow> True
      | Some (ok, h') \<Rightarrow> umem h' = umem h \<and> h_mcause h' = h_mcause h \<and> (fp \<or> tp h' = tp h) \<and>
          (if ok then h_mstatus h' \<in> {h_mstatus h, h_mstatus h OR MSTATUS_FS} else h_mstatus h' = h_mstatus h))"

lemma kept_intros:
  "kept fp h None" "kept fp h (Some (False, h))" "kept True h (Some (False, h\<lparr>tp := t\<rparr>))"
  "umem g = umem h \<Longrightarrow> h_mcause g = h_mcause h \<Longrightarrow> fp \<or> tp g = tp h
   \<Longrightarrow> h_mstatus g \<in> {h_mstatus h, h_mstatus h OR MSTATUS_FS} \<Longrightarrow> kept fp h (next_insn mepc g)"
  by (simp_all add: kept_def next_insn_def)

lemma set_simps:
  "umem (SET_RD h insn v) = umem h" "h_mcause (SET_RD h insn v) = h_mcause h" "tp (SET_RD h insn v) = tp h"
  "h_mstatus (SET_RD h insn v) = h_mstatus h"
  "umem (SET_FS_DIRTY h) = umem h" "h_mcause (SET_FS_DIRTY h) = h_mcause h" "tp (SET_FS_DIRTY h) = tp h"
  "h_mstatus (SET_FS_DIRTY h) = h_mstatus h OR MSTATUS_FS"
  "umem (SET_F64_RD h insn w) = umem h" "h_mcause (SET_F64_RD h insn w) = h_mcause h" "tp (SET_F64_RD h insn w) = tp h"
  "h_mstatus (SET_F64_RD h insn w) = h_mstatus h OR MSTATUS_FS"
  "umem (SET_F32_RD h insn v) = umem h" "h_mcause (SET_F32_RD h insn v) = h_mcause h" "tp (SET_F32_RD h insn v) = tp h"
  "h_mstatus (SET_F32_RD h insn v) = h_mstatus h OR MSTATUS_FS"
  "umem (put_f32 h insn r) = umem h" "h_mcause (put_f32 h insn r) = h_mcause h" "h_mstatus (put_f32 h insn r) = h_mstatus h OR MSTATUS_FS"
  "umem (put_f64 h insn q) = umem h" "h_mcause (put_f64 h insn q) = h_mcause h" "h_mstatus (put_f64 h insn q) = h_mstatus h OR MSTATUS_FS"
  by (simp_all add: SET_RD_def SET_F64_RD_def SET_F32_RD_def SET_FS_DIRTY_def put_f32_def put_f64_def)

lemma kept_precision:
  "kept fp h (next_insn mepc s) \<Longrightarrow> kept fp h (next_insn mepc d) \<Longrightarrow> kept fp h (by_precision h insn mepc s d)"
  by (simp add: by_precision_def kept_intros)

lemma kept_mul_div: "kept fp h (emulate_mul_div E h insn mstatus mepc)"
  by (auto simp: emulate_mul_div_def set_simps split: option.split intro!: kept_intros)

lemma kept_system: "kept True h (emulate_system E h insn mstatus mepc)"
  by (auto simp: emulate_system_def emulate_write_csr_def SET_FRM_def SET_FFLAGS_def SET_FCSR_def Let_def set_simps
      split: option.splits intro!: kept_intros)

lemma kept_fp_functions:
  assumes "f \<in> set fp_emulation_table"
  shows "kept True h (f E h insn mstatus mepc)"
proof -
  have "kept True h (emulate_any_fadd E h insn mstatus mepc neg)"
    "kept True h (emulate_fmul E h insn mstatus mepc)" "kept True h (emulate_fdiv E h insn mstatus mepc)"
    "kept True h (emulate_fsqrt E h insn mstatus mepc)" "kept True h (emulate_fsgnj E h insn mstatus mepc)"
    "kept True h (emulate_fcvt_ff E h insn mstatus mepc)" for neg
    by (auto simp: emulate_any_fadd_def emulate_fmul_def emulate_fdiv_def emulate_fsqrt_def emulate_fsgnj_def
        emulate_fcvt_ff_def Let_def set_simps intro!: kept_precision kept_intros)
  moreover have "kept True h (emulate_fmin E h insn mstatus mepc)" "kept True h (emulate_fcmp E h insn mstatus mepc)"
    by (simp_all add: emulate_fmin_def emulate_fcmp_def Let_def split_def set_simps kept_precision kept_intros)
  moreover have "kept True h (emulate_fcvt_fi E h insn mstatus mepc)" "kept True h (emulate_fcvt_if E h insn mstatus mepc)"
    unfolding emulate_fcvt_fi_def emulate_fcvt_if_def Let_def
    by (simp_all add: kept_intros split: prod.split) (auto simp: set_simps intro!: kept_intros)
  moreover have "kept True h (emulate_fmv_if E h insn mstatus mepc)" "kept True h (emulate_fmv_fi E h insn mstatus mepc)"
    "kept True h (truly_illegal_insn E h insn mstatus mepc)"
    by (auto simp: emulate_fmv_if_def emulate_fmv_fi_def truly_illegal_insn_def Let_def set_simps intro!: kept_intros)
  ultimately show ?thesis
    using assms by (auto simp: fp_emulation_table_def emulate_fadd_def emulate_fsub_def)
qed

lemma kept_tp: "kept True (h\<lparr>tp := t\<rparr>) r \<Longrightarrow> kept True h r"
  by (cases r) (auto simp: kept_def split: if_splits)

lemma setup_tp: "SETUP_STATIC_ROUNDING h insn = (ok, g) \<Longrightarrow> \<exists>t. g = h\<lparr>tp := t\<rparr>"
  by (auto simp: SETUP_STATIC_ROUNDING_def Let_def split: if_splits)

lemma kept_fmadd: "kept True h (emulate_any_fmadd op E h insn mstatus mepc)"
proof (cases "SETUP_STATIC_ROUNDING h insn")
  case (Pair ok g)
  then obtain t where "g = h\<lparr>tp := t\<rparr>" using setup_tp by blast
  with Pair show ?thesis
    by (auto simp: emulate_any_fmadd_def set_simps split: bool.split intro!: kept_tp [where h = h and t = t] kept_precision kept_intros)
qed

lemma fp_table_index: "fp_emulation_table ! (unat (drop_bit 25 insn AND 0x7C :: u32) div 4) \<in> set fp_emulation_table"
proof (rule nth_mem)
  have "drop_bit 25 insn AND 0x7C \<le> 0x7C" by (rule word_and_le1)
  then have "unat (drop_bit 25 insn AND 0x7C) \<le> 124" by (simp add: word_le_nat_alt)
  then show "unat (drop_bit 25 insn AND 0x7C) div 4 < length fp_emulation_table"
    by (simp add: fp_emulation_table_def)
qed

lemma kept_fp: "kept True h (emulate_fp E h insn mstatus mepc)"
proof (cases "SETUP_STATIC_ROUNDING h insn")
  case (Pair ok g)
  then obtain t where t: "g = h\<lparr>tp := t\<rparr>" using setup_tp by blast
  from kept_tp [OF kept_fp_functions [OF fp_table_index, where h = "h\<lparr>tp := t\<rparr>" and E = E and mstatus = mstatus and mepc = mepc]] show ?thesis
    using Pair t by (cases ok) (simp_all add: emulate_fp_def kept_intros)
qed

text \<open>
  Loads and stores go through memory accesses: they leave the thread pointer alone and change memory at
  most in \<open>S\<close>; a fault leaves its traces in the CSRs, where only the stack bits of mstatus are restored.
\<close>

definition mem_kept :: "u32 set \<Rightarrow> (u32 \<Rightarrow> u8 option) \<Rightarrow> (u32 \<Rightarrow> u8 option) \<Rightarrow> bool" where
  "mem_kept S u u' \<longleftrightarrow> (\<forall>a. a \<notin> S \<longrightarrow> u' a = u a) \<and> (\<forall>a. u' a = None \<longleftrightarrow> u a = None)"

lemma mem_kept_refl [simp]: "mem_kept S u u"
  by (simp add: mem_kept_def)

lemma mem_kept_trans: "mem_kept S u v \<Longrightarrow> mem_kept S v w \<Longrightarrow> mem_kept S u w"
  by (simp add: mem_kept_def)

definition accessed :: "u32 set \<Rightarrow> hart \<Rightarrow> emu_result \<Rightarrow> bool" where
  "accessed S h r =
     (case r of None \<Rightarrow> True
      | Some (ok, h') \<Rightarrow> tp h' = tp h \<and> mem_kept S (umem h) (umem h') \<and>
          (if ok then h_mcause h' = h_mcause h \<and> h_mstatus h' \<in>
               {h_mstatus h AND NOT MSTATUS_MPRV, (h_mstatus h AND NOT MSTATUS_MPRV) OR MSTATUS_FS}
           else h_mstatus h' AND MSTATUS_STACK = h_mstatus h AND MSTATUS_STACK))"

lemma restore_stack: "h_mstatus (restore_mstatus ms mp g) AND MSTATUS_STACK = ms AND MSTATUS_STACK"
  unfolding restore_mstatus_def by (simp, rule bit_word_eqI) (auto simp: bit_simps)

lemma mprv_stack: "(ms AND NOT MSTATUS_MPRV) AND MSTATUS_STACK = ms AND MSTATUS_STACK"
proof -
  have "NOT MSTATUS_MPRV AND MSTATUS_STACK = MSTATUS_STACK"
    by (simp add: MSTATUS_MPRV_def MSTATUS_STACK_def)
  then show ?thesis by (simp only: and.assoc)
qed

lemma mprv_idem [simp]: "(ms AND NOT MSTATUS_MPRV) AND NOT MSTATUS_MPRV = ms AND NOT MSTATUS_MPRV"
  by (simp add: and.assoc)

lemma end_access_True [frame_simps]:
  "h_mstatus (end_access E True h) = h_mstatus h AND NOT MSTATUS_MPRV" "h_mcause (end_access E True h) = h_mcause h"
  by (simp_all add: end_access_def)

text \<open>The hart in the middle of an access: as before, except that MPRV may have been cleared.\<close>

definition inside :: "hart \<Rightarrow> hart \<Rightarrow> bool" where
  "inside h g \<longleftrightarrow> tp g = tp h \<and> umem g = umem h \<and> h_mcause g = h_mcause h \<and>
     h_mstatus g \<in> {h_mstatus h, h_mstatus h AND NOT MSTATUS_MPRV}"

lemma inside_refl: "inside h h" and inside_end: "inside h g \<Longrightarrow> inside h (end_access E True g)"
  by (auto simp: inside_def frame_simps)

lemma accessed_fail:
  "tp g = tp h \<Longrightarrow> mem_kept S (umem h) (umem g) \<Longrightarrow> ms = h_mstatus h \<or> ms = h_mstatus h AND NOT MSTATUS_MPRV
   \<Longrightarrow> accessed S h (fail_access ms mepc g)"
  unfolding accessed_def fail_access_def
  by (auto simp: restore_stack mprv_stack) (simp_all add: restore_mstatus_def)

lemma accessed_reject: "inside h g \<Longrightarrow> accessed S h (Some (False, g))"
  by (auto simp: accessed_def inside_def mprv_stack)

lemma accessed_next:
  "tp g = tp h \<Longrightarrow> mem_kept S (umem h) (umem g) \<Longrightarrow> h_mcause g = h_mcause h \<Longrightarrow> h_mstatus g \<in>
      {h_mstatus h AND NOT MSTATUS_MPRV, (h_mstatus h AND NOT MSTATUS_MPRV) OR MSTATUS_FS}
   \<Longrightarrow> accessed S h (next_insn mepc g)"
  by (simp add: accessed_def next_insn_def)

definition plain_update :: "(hart \<Rightarrow> 'a \<Rightarrow> hart) \<Rightarrow> bool" where
  "plain_update upd \<longleftrightarrow> (\<forall>g v. tp (upd g v) = tp g \<and> umem (upd g v) = umem g \<and> h_mcause (upd g v) = h_mcause g \<and>
     h_mstatus (upd g v) \<in> {h_mstatus g, h_mstatus g OR MSTATUS_FS})"

lemma plain_updates:
  "plain_update (\<lambda>h v. SET_RD h insn (x v))" "plain_update (\<lambda>h v. SET_F64_RD h insn (y v))"
  "plain_update (\<lambda>h v. SET_F32_RD h insn (x v))"
  by (simp_all add: plain_update_def set_simps)

lemma accessed_finish_load:
  assumes "inside h g" "plain_update upd" "ms = h_mstatus h \<or> ms = h_mstatus h AND NOT MSTATUS_MPRV"
  shows "accessed S h (finish_load E ms mepc g res upd)"
proof (cases res)
  case None
  with assms show ?thesis by (auto simp: finish_load_def inside_def frame_simps intro!: accessed_fail)
next
  case (Some v)
  have "inside h (end_access E True g)" by (rule inside_end [OF assms(1)])
  moreover have "h_mstatus (end_access E True g) = h_mstatus h AND NOT MSTATUS_MPRV"
    using assms(1) by (auto simp: inside_def frame_simps)
  moreover have "h_mstatus (upd (end_access E True g) v) \<in> {h_mstatus (end_access E True g), h_mstatus (end_access E True g) OR MSTATUS_FS}"
    "tp (upd (end_access E True g) v) = tp (end_access E True g)" "umem (upd (end_access E True g) v) = umem (end_access E True g)"
    "h_mcause (upd (end_access E True g) v) = h_mcause (end_access E True g)"
    using assms(2) unfolding plain_update_def by blast+
  ultimately show ?thesis
    unfolding Some finish_load_def option.case by (intro accessed_next) (simp_all only: inside_def mem_kept_refl)
qed

lemma accessed_finish_store:
  assumes "inside h g" "mem_kept S (umem h) (snd res)" "ms = h_mstatus h \<or> ms = h_mstatus h AND NOT MSTATUS_MPRV"
  shows "accessed S h (finish_store E ms mepc g res)"
proof (cases res)
  case (Pair ok u)
  show ?thesis
  proof (cases ok)
    case False
    with assms Pair show ?thesis by (auto simp: finish_store_def inside_def frame_simps intro!: accessed_fail)
  next
    case True
    with assms Pair show ?thesis by (auto simp: finish_store_def inside_def frame_simps intro!: accessed_next)
  qed
qed

lemma ustore_bytes_kept:
  "(\<And>i. i < length bs \<Longrightarrow> a + of_nat i \<in> S) \<Longrightarrow> mem_kept S u (snd (ustore_bytes u a bs))"
proof (induction bs arbitrary: u a)
  case Nil
  then show ?case by simp
next
  case (Cons b bs)
  have a: "a \<in> S" using Cons.prems [of 0] by simp
  have "a + 1 + of_nat i \<in> S" if "i < length bs" for i
    using Cons.prems [of "Suc i"] that by (simp add: algebra_simps)
  then have k: "mem_kept S (u(a := Some b)) (snd (ustore_bytes (u(a := Some b)) (a + 1) bs))" by (rule Cons.IH)
  show ?case
  proof (cases "u a")
    case None
    then show ?thesis by simp
  next
    case (Some y)
    then have "mem_kept S u (u(a := Some b))" using a by (auto simp: mem_kept_def)
    from mem_kept_trans [OF this k] Some show ?thesis by (simp only: ustore_bytes.simps) simp
  qed
qed

lemma window_member: "n \<le> w \<Longrightarrow> w \<le> 8 \<Longrightarrow> i < n \<Longrightarrow> k + n \<le> w \<Longrightarrow> unat (a + of_nat k + of_nat i - a) < (w :: nat)" for a :: u32
proof -
  assume h: "w \<le> 8" "i < n" "k + n \<le> w"
  have "a + of_nat k + of_nat i - a = (of_nat (k + i) :: u32)" by simp
  moreover have "unat (of_nat (k + i) :: u32) = k + i" using h by (intro unat_offset) simp
  ultimately show ?thesis using h by simp
qed

lemma mask_part: "insn AND 0x707F = c \<Longrightarrow> insn AND 0x7000 = c AND 0x7000" for insn :: u32
  by (auto simp: and.assoc)

lemma accessed_misaligned_load:
  assumes "at_insn g insn" "inside h g"
  shows "accessed S h (misaligned_load_trap E g)"
proof -
  have i: "inside h (end_access E True g)" by (rule inside_end [OF assms(2)])
  have m: "h_mstatus g = h_mstatus h \<or> h_mstatus g = h_mstatus h AND NOT MSTATUS_MPRV"
    using assms(2) by (auto simp: inside_def)
  show ?thesis
    unfolding misaligned_load_trap_def Let_def get_insn_at [OF assms(1)]
    by (simp add: accessed_finish_load [OF i _ m] plain_updates accessed_reject [OF i])
qed

lemma accessed_misaligned_store:
  assumes "at_insn g insn" "inside h g" "xregs g = xregs h"
  shows "accessed (store_window insn h) h (misaligned_store_trap E g)"
proof -
  have i: "inside h (end_access E True g)" by (rule inside_end [OF assms(2)])
  have m: "h_mstatus g = h_mstatus h \<or> h_mstatus g = h_mstatus h AND NOT MSTATUS_MPRV"
    using assms(2) by (auto simp: inside_def)
  have u: "umem (end_access E True g) = umem h" using assms(2) by (simp add: inside_def frame_simps)
  have r: "GET_RS1 (end_access E True g) insn = GET_RS1 h insn"
    using assms(3) by (simp add: GET_RS1_def GET_REG_def frame_simps)
  have k: "accessed (store_window insn h) h (finish_store E (h_mstatus g) (h_mepc g) (end_access E True g)
      (ustore_bytes (umem (end_access E True g)) (GET_RS1 (end_access E True g) insn + IMM_S insn) bs))"
    if "length bs \<le> (if insn AND 0x7000 = 0x2000 then 4 else 8)" for bs
  proof (rule accessed_finish_store [OF i _ m])
    show "mem_kept (store_window insn h) (umem h)
      (snd (ustore_bytes (umem (end_access E True g)) (GET_RS1 (end_access E True g) insn + IMM_S insn) bs))"
      unfolding u r using that
      by (intro ustore_bytes_kept) (auto simp: store_window_def unat_offset split: if_splits)
  qed
  show ?thesis
    unfolding misaligned_store_trap_def Let_def get_insn_at [OF assms(1)]
    by (auto dest: mask_part simp: accessed_reject [OF i] intro!: k)
qed

lemma accessed_float_load:
  assumes "at_insn g insn" "inside h g" "ms = h_mstatus h"
  shows "accessed S h (emulate_float_load E g insn ms mepc)"
  using assms(3)
  by (auto simp: emulate_float_load_def Let_def
      intro!: accessed_misaligned_load [OF assms(1,2)] accessed_finish_load [OF assms(2)] plain_updates accessed_fail)
    (use assms(2) in \<open>auto simp: inside_def\<close>)

lemma accessed_float_store:
  assumes "at_insn g insn" "inside h g" "xregs g = xregs h" "ms = h_mstatus h"
  shows "accessed (store_window insn h) h (emulate_float_store E g insn ms mepc)"
proof -
  let ?a = "GET_RS1 h insn + IMM_S insn" and ?S = "store_window insn h"
  have r: "GET_RS1 g insn = GET_RS1 h insn" using assms(3) by (simp add: GET_RS1_def GET_REG_def)
  have u: "umem g = umem h" using assms(2) by (simp add: inside_def)
  have word: "mem_kept ?S v (snd (ustore_word v (?a + of_nat k) x))"
    if "k + 4 \<le> (if insn AND 0x7000 = 0x2000 then 4 else 8)" for v k x
    unfolding ustore_word_def using that
    by (auto intro!: ustore_bytes_kept window_member [of 4] simp: store_window_def split: if_splits)
  have one: "mem_kept ?S (umem h) (snd (ustore_word (umem h) ?a x))" for x
    using word [of 0 "umem h" x] by simp
  have two: "mem_kept ?S (umem h) (snd (case ustore_word (umem h) ?a x of
      (False, u) \<Rightarrow> (False, u) | (True, u) \<Rightarrow> ustore_word u (?a + 4) y))" if "insn AND 0x7000 = 0x3000" for x y
    using one [of x] word [of 4 _ y] that
    by (auto split: prod.split bool.split intro: mem_kept_trans)
  have fail: "accessed ?S h (fail_access ms mepc g)"
    using assms(2,4) by (intro accessed_fail) (simp_all add: inside_def)
  show ?thesis
    unfolding emulate_float_store_def Let_def r u
    using accessed_misaligned_store [OF assms(1-3)] fail one two assms(4)
    by (auto intro!: accessed_finish_store [OF assms(2)])
qed

section \<open>The frame of an emulated instruction\<close>

lemma table_entries:
  assumes "n < 32"
  shows "illegal_insn_trap_table ! n \<in>
    (if n = 1 then {emulate_float_load} else if n = 9 then {emulate_float_store}
     else if n \<in> {16, 17, 18, 19} then {emulate_fmadd, emulate_fmsub, emulate_fnmsub, emulate_fnmadd}
     else if n = 20 then {emulate_fp} else if n = 28 then {emulate_system}
     else {emulate_mul_div, emulate_mul_div32, truly_illegal_insn})"
proof -
  have "n \<in> set [0..<32]" using assms by simp
  then show ?thesis
    by (simp add: upt_rec illegal_insn_trap_table_def) (elim disjE, simp_all add: nth_append)
qed

lemma kept_table:
  assumes "n < 32" "n \<notin> {1, 9}"
  shows "kept (n \<in> {16, 17, 18, 19, 20, 28}) h ((illegal_insn_trap_table ! n) E h insn mstatus mepc)"
proof -
  have "kept fp h (truly_illegal_insn E h insn mstatus mepc)" for fp by (simp add: truly_illegal_insn_def kept_intros)
  then show ?thesis
    using table_entries [OF assms(1)] assms(2) kept_fp [of h E insn mstatus mepc] kept_system [of h E insn mstatus mepc]
      kept_mul_div [of _ h E insn mstatus mepc] kept_fmadd [of h _ E insn mstatus mepc]
    by (auto simp: emulate_mul_div32_def emulate_fmadd_def emulate_fmsub_def emulate_fnmadd_def emulate_fnmsub_def
        split: if_splits)
qed

text \<open>What an emulation may do to the state behind the registers, by the opcode of the instruction.\<close>

definition rest_framed :: "u32 \<Rightarrow> hart \<Rightarrow> bool \<Rightarrow> hart \<Rightarrow> bool" where
  "rest_framed insn h ok h' \<longleftrightarrow>
     mem_kept (if opcode insn = 9 then store_window insn h else {}) (umem h) (umem h') \<and>
     (opcode insn \<notin> {16, 17, 18, 19, 20, 28} \<longrightarrow> tp h' = tp h) \<and>
     (ok \<or> opcode insn \<notin> {1, 9} \<longrightarrow> h_mcause h' = h_mcause h) \<and>
     (if ok then h_mstatus h' \<in> {h_mstatus h AND NOT MSTATUS_MPRV, (h_mstatus h AND NOT MSTATUS_MPRV) OR MSTATUS_FS}
      else if opcode insn \<in> {1, 9} then h_mstatus h' AND MSTATUS_STACK = h_mstatus h AND MSTATUS_STACK
      else h_mstatus h' = h_mstatus h AND NOT MSTATUS_MPRV)"

lemma rest_framed_table:
  assumes "at_insn h insn"
    and "(illegal_insn_trap_table ! opcode insn) E (end_access E True h) insn (h_mstatus h) mepc = Some (ok, h')"
  shows "rest_framed insn h ok h'"
proof -
  let ?g = "end_access E True h"
  have n: "opcode insn < 32" using insn_table_index [of insn] by (simp add: opcode_def illegal_insn_trap_table_def)
  have at: "at_insn ?g insn" using assms(1) by simp
  have i: "inside h ?g" by (rule inside_end [OF inside_refl])
  consider "opcode insn = 1" | "opcode insn = 9" | "opcode insn \<notin> {1, 9}" by blast
  then show ?thesis
  proof cases
    case 1
    then show ?thesis
      using assms(2) accessed_float_load [OF at i refl, of "{}" E mepc] table_entries [OF n]
      by (auto simp: accessed_def rest_framed_def)
  next
    case 2
    then show ?thesis
      using assms(2) accessed_float_store [OF at i _ refl, of E mepc] table_entries [OF n]
      by (auto simp: accessed_def rest_framed_def frame_simps)
  next
    case 3
    then show ?thesis
      using assms(2) kept_table [OF n, of ?g E insn "h_mstatus h" mepc]
      by (auto simp: kept_def rest_framed_def frame_simps split: if_splits)
  qed
qed

text \<open>C4: Emulating an illegal instruction is a frame on the whole state of the hart.  Success: the
  instruction at the program counter was read, the program counter has advanced by four, and of the
  registers only the destination ones (one integer, one floating-point) have changed.  Failure: no
  register has changed and the program counter is back on the instruction.  In both cases memory
  changes at most in the four or eight bytes of a floating-point store, no address becomes readable
  or faulting; the floating-point status in the thread pointer changes only for floating-point
  arithmetic and status-register instructions; mcause changes only if an access of a load or store
  faulted; mstatus loses the MPRV bit and may gain the dirty bits of the floating-point state, and
  only its stack bits are sure after a faulting access.\<close>

theorem illegal_insn_frame:
  assumes "illegal_insn_trap E h0 = Some (ok, h')"
  shows "(if ok then \<exists>insn. at_insn h0 insn \<and> rd_update insn h0 h' \<and> h_mepc h' = h_mepc h0 + 4
          else xregs h' = xregs h0 \<and> fregs h' = fregs h0 \<and> h_mepc h' = h_mepc h0) \<and>
    (\<forall>insn. at_insn h0 insn \<longrightarrow> rest_framed insn h0 ok h') \<and>
    ((\<nexists>insn. at_insn h0 insn) \<longrightarrow> \<not> ok \<and> umem h' = umem h0 \<and> tp h' = tp h0 \<and> h_mcause h' = h_mcause h0 \<and>
       h_mstatus h' AND MSTATUS_STACK = h_mstatus h0 AND MSTATUS_STACK)"
proof (cases "uload (umem h0) (h_mepc h0) 4")
  case None
  then have n: "\<not> at_insn h0 insn" for insn by (simp add: at_insn_def)
  from None assms have "\<not> ok" and h': "h' = (restore_mstatus (h_mstatus h0) (h_mepc h0) (end_access E False h0))\<lparr>h_mcause := h_mcause h0\<rparr>"
    by (auto simp: illegal_insn_trap_def get_insn_def)
  moreover have "h_mstatus h' AND MSTATUS_STACK = h_mstatus h0 AND MSTATUS_STACK"
    using restore_stack [of "h_mstatus h0" "h_mepc h0" "end_access E False h0"] by (simp add: h')
  ultimately show ?thesis using n by (simp add: restore_mstatus_def frame_simps)
next
  case (Some bs)
  let ?insn = "le32 bs" and ?h = "end_access E True h0"
  have at: "at_insn h0 ?insn" using Some by (auto simp: at_insn_def)
  have un: "insn = ?insn" if "at_insn h0 insn" for insn using that Some by (auto simp: at_insn_def)
  have "framed ?insn (h_mepc h0) h0 (illegal_insn_trap E h0) \<and> rest_framed ?insn h0 ok h'"
  proof (cases "?insn AND 3 = 3")
    case False
    then have "Some (ok, h') = Some (False, ?h)" using assms by (simp add: illegal_insn_trap_def get_insn_at [OF at])
    then have "rest_framed ?insn h0 ok h'" by (simp add: rest_framed_def frame_simps mprv_stack)
    with False show ?thesis
      by (simp add: illegal_insn_trap_def get_insn_at [OF at] framed_def frame_simps)
  next
    case True
    have "framed ?insn (h_mepc ?h) ?h
        ((illegal_insn_trap_table ! (unat (?insn AND 0x7C) div 4)) E ?h ?insn (h_mstatus h0) (h_mepc ?h))"
      using at insn_table_index by (intro framed_table) (simp_all only: at_insn_end nth_mem)
    then have f: "framed ?insn (h_mepc h0) h0
        ((illegal_insn_trap_table ! (unat (?insn AND 0x7C) div 4)) E ?h ?insn (h_mstatus h0) (h_mepc h0))"
      unfolding end_access_mepc by (rule framed_cong [rotated 2]) (simp_all only: frame_simps)
    have e: "illegal_insn_trap E h0 = (illegal_insn_trap_table ! opcode ?insn) E ?h ?insn (h_mstatus h0) (h_mepc h0)"
      unfolding illegal_insn_trap_def Let_def get_insn_at [OF at] opcode_def
      using True by (simp only: prod.case option.case simp_thms if_False)
    from rest_framed_table [OF at assms [unfolded e]] f show ?thesis unfolding e opcode_def by blast
  qed
  then have f: "if ok then rd_update ?insn h0 h' \<and> h_mepc h' = h_mepc h0 + 4
      else xregs h' = xregs h0 \<and> fregs h' = fregs h0 \<and> h_mepc h' = h_mepc h0"
    and r: "rest_framed ?insn h0 ok h'"
    unfolding assms framed_def option.case prod.case by (rule conjunct1, rule conjunct2)
  have "\<forall>insn. at_insn h0 insn \<longrightarrow> rest_framed insn h0 ok h'" using r un by blast
  moreover have "if ok then \<exists>insn. at_insn h0 insn \<and> rd_update insn h0 h' \<and> h_mepc h' = h_mepc h0 + 4
      else xregs h' = xregs h0 \<and> fregs h' = fregs h0 \<and> h_mepc h' = h_mepc h0"
    using f at by (cases ok) (simp_all only: if_True if_False, blast)
  ultimately show ?thesis using at by blast
qed

lemma uload_4:
  "uload u a 4 = (case (u a, u (a + 1), u (a + 2), u (a + 3)) of
     (Some b0, Some b1, Some b2, Some b3) \<Rightarrow> Some [b0, b1, b2, b3] | _ \<Rightarrow> None)"
proof -
  have "(4 :: nat) = Suc (Suc (Suc (Suc 0)))" by simp
  then show ?thesis
    by (simp only: uload.simps add.assoc) (simp split: option.split)
qed

text \<open>A hart whose program counter is on a given instruction, with 16 bytes of data at 0x2000.\<close>

definition hart_of :: "u32 \<Rightarrow> hart" where
  "hart_of insn = \<lparr>xregs = [0, 6, 7, 0, 0, 0x2000] @ replicate 26 0, fregs = replicate 32 0, tp = 0,
     h_mstatus = 0x3000, h_mepc = 0x1000, h_mcause = 2,
     umem = (\<lambda>a. if a AND (- 4) = 0x1000 then Some (le_bytes 4 (unat insn) ! unat (a AND 3))
                 else if a AND (- 16) = 0x2000 then Some (ucast (a AND 15) + 1) else None)\<rparr>"

lemma hart_of_insn: "at_insn (hart_of insn) insn"
proof -
  have "uload (umem (hart_of insn)) 0x1000 4 = Some (le_bytes 4 (unat insn))"
    by (simp add: hart_of_def uload_4 le_bytes_4)
  moreover have "le32 (le_bytes 4 (unat insn)) = insn"
    using unat_lt_pow [of insn] by (simp add: le32_def)
  ultimately show ?thesis by (simp add: at_insn_def hart_of_def)
qed

theorem illegal_insn_frame_witness:
  "\<forall>E. \<exists>h'. illegal_insn_trap E (hart_of 0x022081B3) = Some (True, h') \<and> xregs h' ! 3 = 42
     \<and> h_mepc h' = 0x1004"
proof
  fix E
  let ?h = "hart_of 0x022081B3"
  have n: "unat (0x022081B3 AND 0x7C :: u32) div 4 = 12" by simp
  have f: "illegal_insn_trap_table ! 12 = emulate_mul_div" by (simp add: illegal_insn_trap_table_def nth_append)
  have x: "xregs (end_access E True ?h) = [0, 6, 7, 0, 0, 0x2000] @ replicate 26 0" by (simp add: frame_simps hart_of_def)
  obtain h' where h': "illegal_insn_trap E ?h = Some (True, h')" "xregs h' = ([0, 6, 7, 0, 0, 0x2000] @ replicate 26 0)[3 := 42]"
    by (simp add: illegal_insn_trap_def get_insn_at [OF hart_of_insn] n f emulate_mul_div_def mul_div_value_def
        GET_RS1_def GET_RS2_def GET_REG_def reg_num_def x next_insn_def SET_RD_def)
  from illegal_insn_frame [OF h'(1)] have "h_mepc h' = 0x1004" by (auto simp: hart_of_def)
  with h' show "\<exists>h'. illegal_insn_trap E ?h = Some (True, h') \<and> xregs h' ! 3 = 42 \<and> h_mepc h' = 0x1004"
    by auto
qed

end
