(* ===== verification/EmulationProps.thy ===== *)
theory EmulationProps
  imports Emulation
begin

text \<open>
  What the instruction emulator computes: the misaligned loads deliver the bytes of the misaligned
  address, multiplication and division are those of the instruction set, the three views of the
  floating-point status register are consistent, and conversions to integers saturate.
\<close>

section \<open>Lemmas on misaligned loads\<close>

lemma u32_and_minus4: "(x :: u32) AND (- 4) = x - x mod 4"
proof -
  have m: "(- 4 :: u32) = NOT (mask 2)" by (simp add: mask_eq_exp_minus_1)
  have "x = (x AND NOT (mask 2)) OR (x AND mask 2)" by (rule bit_eqI) (auto simp: bit_simps)
  also have "\<dots> = (x AND NOT (mask 2)) + (x AND mask 2)"
    by (rule disjunctive_add_eq_or [symmetric]) (rule bit_eqI, auto simp: bit_simps)
  finally have "x = (x AND NOT (mask 2)) + take_bit 2 x" by (simp only: take_bit_eq_mask)
  then show ?thesis unfolding m by (simp add: take_bit_eq_mod algebra_simps)
qed

text \<open>A memory whose mapping is the same for the four bytes of an aligned word, as pages make it.\<close>

definition word_mapped :: "(u32 \<Rightarrow> u8 option) \<Rightarrow> bool" where
  "word_mapped u \<longleftrightarrow> (\<forall>a. (u a = None) = (u (a AND (- 4)) = None))"

lemma aligned4_offset:
  assumes "aligned4 a" "j < 4"
  shows "(a + of_nat j) AND (- 4) = a"
proof -
  have "unat ((a + of_nat j) mod 4) = (unat a + j) mod 4"
    using assms(2) unat_add_mod4 [of a "of_nat j"] by (simp add: unat_mod)
  also have "\<dots> = j" using assms unfolding aligned4_def by presburger
  finally have "of_nat (unat ((a + of_nat j) mod 4)) = (of_nat j :: u32)" by (rule arg_cong)
  then have "(a + of_nat j) mod 4 = of_nat j" by simp
  then show ?thesis by (simp add: u32_and_minus4)
qed

lemma word_mapped_offset:
  "word_mapped u \<Longrightarrow> aligned4 a \<Longrightarrow> j < 4 \<Longrightarrow> (u (a + of_nat j) = None) = (u a = None)"
  unfolding word_mapped_def using aligned4_offset by metis

lemma le32_bytes: "length bs = 4 \<Longrightarrow> le_bytes 4 (unat (le32 bs)) = bs"
proof -
  assume l: "length bs = 4"
  then have "le_val bs < 2 ^ 32" using le_val_bound [of bs] by simp
  then have "unat (le32 bs) = le_val bs" by (simp add: le32_def)
  with l show ?thesis using le_bytes_val [of bs] by simp
qed

lemma le32_eqI: "length bs = 4 \<Longrightarrow> le_bytes 4 (unat w) = bs \<Longrightarrow> w = le32 bs"
proof -
  assume "length bs = 4" "le_bytes 4 (unat w) = bs"
  then have "le_val bs = unat w mod 256 ^ 4" by (metis le_val_bytes)
  then show ?thesis using unat_lt_pow [of w] by (simp add: le32_def)
qed

text \<open>The bytes of a word spliced from two.\<close>

lemma splice_bytes:
  fixes w v :: u32
  shows "le_bytes 4 (unat (drop_bit 8 w OR push_bit 24 v))
      = [ucast (drop_bit 8 w), ucast (drop_bit 16 w), ucast (drop_bit 24 w), ucast v]"
    "le_bytes 4 (unat (drop_bit 16 w OR push_bit 16 v))
      = [ucast (drop_bit 16 w), ucast (drop_bit 24 w), ucast v, ucast (drop_bit 8 v)]"
    "le_bytes 4 (unat (drop_bit 24 w OR push_bit 8 v))
      = [ucast (drop_bit 24 w), ucast v, ucast (drop_bit 8 v), ucast (drop_bit 16 v)]"
proof -
  have bit_u32: "bit x n \<Longrightarrow> n < 32" for x :: u32 and n by (drule bit_imp_le_length) simp
  show "le_bytes 4 (unat (drop_bit 8 w OR push_bit 24 v))
      = [ucast (drop_bit 8 w), ucast (drop_bit 16 w), ucast (drop_bit 24 w), ucast v]"
    "le_bytes 4 (unat (drop_bit 16 w OR push_bit 16 v))
      = [ucast (drop_bit 16 w), ucast (drop_bit 24 w), ucast v, ucast (drop_bit 8 v)]"
    "le_bytes 4 (unat (drop_bit 24 w OR push_bit 8 v))
      = [ucast (drop_bit 24 w), ucast v, ucast (drop_bit 8 v), ucast (drop_bit 16 v)]"
    unfolding le_bytes_4 list.inject
    by (intro conjI refl; rule bit_eqI; force simp: bit_simps dest: bit_u32)+
qed

lemma length_4: "length xs = 4 \<Longrightarrow> \<exists>a b c d. xs = [a, b, c, d]"
proof -
  assume "length xs = 4"
  moreover have "(4 :: nat) = Suc (Suc (Suc (Suc 0)))" by simp
  ultimately show ?thesis by (simp only: length_Suc_conv length_0_conv) blast
qed

lemma splice_le32:
  fixes w v :: u32
  assumes "le_bytes 4 (unat w) = [b0, b1, b2, b3]" "le_bytes 4 (unat v) = [b4, b5, b6, b7]"
  shows "drop_bit 8 w OR push_bit 24 v = le32 [b1, b2, b3, b4]"
    "drop_bit 16 w OR push_bit 16 v = le32 [b2, b3, b4, b5]"
    "drop_bit 24 w OR push_bit 8 v = le32 [b3, b4, b5, b6]"
proof -
  have b: "b0 = ucast w" "b1 = ucast (drop_bit 8 w)" "b2 = ucast (drop_bit 16 w)" "b3 = ucast (drop_bit 24 w)"
    "b4 = ucast v" "b5 = ucast (drop_bit 8 v)" "b6 = ucast (drop_bit 16 v)"
    using assms unfolding le_bytes_4 list.inject by blast+
  have l: "length [x, y, z, t] = 4" for x y z t :: u8 by simp
  show "drop_bit 8 w OR push_bit 24 v = le32 [b1, b2, b3, b4]"
    unfolding b by (rule le32_eqI [OF l splice_bytes(1)])
  show "drop_bit 16 w OR push_bit 16 v = le32 [b2, b3, b4, b5]"
    unfolding b by (rule le32_eqI [OF l splice_bytes(2)])
  show "drop_bit 24 w OR push_bit 8 v = le32 [b3, b4, b5, b6]"
    unfolding b by (rule le32_eqI [OF l splice_bytes(3)])
qed

lemma splice_words:
  assumes "length lo = 4" "length hi = 4"
  shows "drop_bit 8 (le32 lo) OR push_bit 24 (le32 hi) = le32 (take 4 (drop 1 (lo @ hi)))"
    "drop_bit 16 (le32 lo) OR push_bit 16 (le32 hi) = le32 (take 4 (drop 2 (lo @ hi)))"
    "drop_bit 24 (le32 lo) OR push_bit 8 (le32 hi) = le32 (take 4 (drop 3 (lo @ hi)))"
proof -
  from length_4 [OF assms(1)] obtain b0 b1 b2 b3 where b0: "lo = [b0, b1, b2, b3]" by blast
  from length_4 [OF assms(2)] obtain b4 b5 b6 b7 where b4: "hi = [b4, b5, b6, b7]" by blast
  note b = b0 b4
  have t: "take 4 (drop 1 (lo @ hi)) = [b1, b2, b3, b4]" "take 4 (drop 2 (lo @ hi)) = [b2, b3, b4, b5]"
    "take 4 (drop 3 (lo @ hi)) = [b3, b4, b5, b6]" by (simp_all add: b)
  show "drop_bit 8 (le32 lo) OR push_bit 24 (le32 hi) = le32 (take 4 (drop 1 (lo @ hi)))"
    unfolding t unfolding b by (rule splice_le32 [OF le32_bytes le32_bytes]) simp_all
  show "drop_bit 16 (le32 lo) OR push_bit 16 (le32 hi) = le32 (take 4 (drop 2 (lo @ hi)))"
    unfolding t unfolding b by (rule splice_le32 [OF le32_bytes le32_bytes]) simp_all
  show "drop_bit 24 (le32 lo) OR push_bit 8 (le32 hi) = le32 (take 4 (drop 3 (lo @ hi)))"
    unfolding t unfolding b by (rule splice_le32 [OF le32_bytes le32_bytes]) simp_all
qed

lemma shift_amounts:
  fixes addr :: u32
  assumes "unat addr mod 4 = k" "0 < k"
  shows "unat (addr * 8) mod 32 = 8 * k" "unat ((4 - addr) * 8) mod 32 = 32 - 8 * k"
proof -
  have m: "unat (x * 8) mod 32 = 8 * (unat x mod 4)" for x :: u32
  proof -
    have "unat (x * 8) = (unat x * 8) mod 2 ^ 32" by (simp add: unat_word_ariths(2))
    moreover have "(32 :: nat) dvd 2 ^ 32" by simp
    ultimately have "unat (x * 8) mod 32 = (unat x * 8) mod 32" by (simp only: mod_mod_cancel)
    also have "(unat x * 8) mod 32 = 8 * (unat x mod 4)" by (simp add: mult_mod_right mult.commute)
    finally show ?thesis .
  qed
  show "unat (addr * 8) mod 32 = 8 * k" by (simp only: m assms(1))
  have "unat ((4 - addr) + addr) mod 4 = (unat (4 - addr) + unat addr) mod 4" by (rule unat_add_mod4)
  then have "(unat (4 - addr) + unat addr) mod 4 = 0" by simp
  then have "unat (4 - addr) mod 4 = 4 - k" using assms by presburger
  then show "unat ((4 - addr) * 8) mod 32 = 32 - 8 * k" by (simp only: m)
qed

lemma uload_Some_iff:
  "uload u a n = Some bs \<longleftrightarrow> length bs = n \<and> (\<forall>i<n. u (a + of_nat i) = Some (bs ! i))"
proof (induction n arbitrary: a bs)
  case 0
  then show ?case by auto
next
  case (Suc n)
  show ?case
  proof (cases bs)
    case Nil
    then show ?thesis by (auto simp: bind_eq_Some_conv)
  next
    case (Cons b bs')
    have "(\<forall>i<Suc n. u (a + of_nat i) = Some ((b # bs') ! i)) \<longleftrightarrow>
        u a = Some b \<and> (\<forall>i<n. u (a + 1 + of_nat i) = Some (bs' ! i))"
      by (subst All_less_Suc2) (simp add: add.assoc)
    with Suc [of "a + 1" bs'] Cons show ?thesis by (auto simp: bind_eq_Some_conv)
  qed
qed

lemma uload_None_iff: "uload u a n = None \<longleftrightarrow> (\<exists>i<n. u (a + of_nat i) = None)"
proof (induction n arbitrary: a)
  case (Suc n)
  have "(\<exists>i<Suc n. u (a + of_nat i) = None) \<longleftrightarrow> u a = None \<or> (\<exists>i<n. u (a + 1 + of_nat i) = None)"
    by (subst Ex_less_Suc2) (simp add: add.assoc)
  with Suc [of "a + 1"] show ?case by (cases "u a"; cases "uload u (a + 1) n") auto
qed simp

lemma uload_part:
  assumes "uload u a n = Some bs" "k + m \<le> n"
  shows "uload u (a + of_nat k) m = Some (take m (drop k bs))"
proof -
  have *: "length bs = n" "\<forall>i<n. u (a + of_nat i) = Some (bs ! i)" using assms(1) by (auto simp: uload_Some_iff)
  have "\<forall>i<m. u (a + of_nat k + of_nat i) = Some (take m (drop k bs) ! i)"
  proof (intro allI impI)
    fix i assume "i < m"
    with assms(2) have "k + i < n" by simp
    with * have "u (a + of_nat (k + i)) = Some (bs ! (k + i))" by blast
    then have "u (a + of_nat k + of_nat i) = Some (bs ! (k + i))" by (simp only: of_nat_add add.assoc)
    with \<open>i < m\<close> * assms(2) show "u (a + of_nat k + of_nat i) = Some (take m (drop k bs) ! i)"
      by simp
  qed
  with *(1) assms(2) show ?thesis by (simp add: uload_Some_iff)
qed

lemma uload_append:
  assumes "uload u a n = Some xs" "uload u (a + of_nat n) k = Some ys"
  shows "uload u a (n + k) = Some (xs @ ys)"
proof -
  have *: "length xs = n" "\<forall>i<n. u (a + of_nat i) = Some (xs ! i)"
    "length ys = k" "\<forall>i<k. u (a + of_nat n + of_nat i) = Some (ys ! i)"
    using assms by (auto simp: uload_Some_iff)
  have "\<forall>i<n + k. u (a + of_nat i) = Some ((xs @ ys) ! i)"
  proof (intro allI impI)
    fix i assume i: "i < n + k"
    show "u (a + of_nat i) = Some ((xs @ ys) ! i)"
    proof (cases "i < n")
      case True
      with *(1,2) show ?thesis by (simp add: nth_append)
    next
      case False
      then obtain j where j: "i = n + j" by (metis le_add_diff_inverse not_less)
      with *(4) i have "u (a + of_nat n + of_nat j) = Some (ys ! j)" by simp
      with j *(1) show ?thesis by (simp add: add.assoc nth_append)
    qed
  qed
  with * show ?thesis by (simp add: uload_Some_iff)
qed

lemma aligned4_base: "aligned4 (x AND (- 4))"
proof -
  have "unat x mod 4 \<le> unat x" by simp
  then have "unat (x - x mod 4) = unat x - unat x mod 4" by (simp add: unat_sub word_le_nat_alt unat_mod)
  then show ?thesis unfolding aligned4_def u32_and_minus4 by (simp add: minus_mod_eq_mult_div)
qed

lemma aligned4_next: "aligned4 a \<Longrightarrow> aligned4 (a + 4)"
  using unat_add_mod4 [of a 4] by (simp add: aligned4_def)

text \<open>The two word loads together load the four bytes of the misaligned address.\<close>

lemma do_load_eq:
  assumes w: "word_mapped u" and mis: "addr mod 4 \<noteq> 0"
  shows "do_load u addr = map_option le32 (uload u addr 4)"
proof -
  let ?a = "addr AND (- 4)"
  define k where "k = unat addr mod 4"
  have "unat (addr mod 4) \<noteq> 0" using mis by (simp add: unat_eq_0)
  then have k: "0 < k" "k < 4" unfolding k_def by (simp_all add: unat_mod)
  have "of_nat (unat (addr mod 4)) = (of_nat k :: u32)" by (simp add: k_def unat_mod)
  then have "addr mod 4 = of_nat k" by simp
  then have addr: "addr = ?a + of_nat k" by (simp add: u32_and_minus4)
  note al = aligned4_base [of addr] aligned4_next [OF aligned4_base [of addr]]
  have off: "(u (?a + of_nat i) = None) = (u ?a = None)" "(u (?a + 4 + of_nat i) = None) = (u (?a + 4) = None)" if "i < 4" for i
    using word_mapped_offset [OF w _ that] al by blast+
  show ?thesis
  proof (cases "u ?a = None \<or> u (?a + 4) = None")
    case True
    then have l: "uload u ?a 4 = None \<or> uload u (?a + 4) 4 = None"
      unfolding uload_None_iff by (metis off zero_less_numeral)
    then have "do_load u addr = None" by (auto simp: do_load_def Let_def split: option.split)
    moreover have "uload u addr 4 = None"
    proof -
      have "(of_nat k + of_nat (4 - k) :: u32) = of_nat (k + (4 - k))" by (simp only: of_nat_add)
      then have e: "?a + of_nat k + of_nat (4 - k) = ?a + 4" using k by (simp add: add.assoc)
      have "u (?a + of_nat k + of_nat 0) = None \<or> u (?a + of_nat k + of_nat (4 - k)) = None"
        unfolding e using True off(1) [OF k(2)] by auto
      then show ?thesis
        unfolding uload_None_iff addr [symmetric] using k by (metis diff_less zero_less_numeral)
    qed
    ultimately show ?thesis by simp
  next
    case False
    then obtain lo hi where lh: "uload u ?a 4 = Some lo" "uload u (?a + 4) 4 = Some hi"
      unfolding uload_None_iff [symmetric] by (metis False not_None_eq off uload_None_iff)
    then have l: "length lo = 4" "length hi = 4" by (simp_all add: uload_Some_iff)
    from uload_append [of u ?a 4 lo 4 hi] lh have "uload u ?a 8 = Some (lo @ hi)" by simp
    from uload_part [OF this, of k 4] k addr
    have r: "uload u addr 4 = Some (take 4 (drop k (lo @ hi)))" by simp
    note sh = shift_amounts [OF k_def [symmetric] k(1)]
    have d: "do_load u addr = Some (drop_bit (8 * k) (le32 lo) OR push_bit (32 - 8 * k) (le32 hi))"
      unfolding do_load_def Let_def lh sh by simp
    have "k = 1 \<or> k = 2 \<or> k = 3" using k by linarith
    then have "drop_bit (8 * k) (le32 lo) OR push_bit (32 - 8 * k) (le32 hi) = le32 (take 4 (drop k (lo @ hi)))"
      by (elim disjE) (simp_all only: splice_words [OF l, symmetric], simp_all)
    with d r show ?thesis by simp
  qed
qed

lemma do_load_half_eq:
  "do_load_half sx u addr = map_option (\<lambda>bs. if sx then scast (of_nat (le_val bs) :: u16) else ucast (of_nat (le_val bs) :: u16)) (uload u addr 2)"
proof -
  have two: "(2 :: nat) = Suc (Suc 0)" by simp
  have b: "(of_nat (le_val [b0, b1]) :: u16) = ucast b0 OR push_bit 8 (ucast b1)" for b0 b1
  proof -
    have "(ucast b0 :: u16) AND push_bit 8 (ucast b1) = 0"
      by (rule bit_eqI) (auto simp: bit_simps dest: bit_imp_le_length)
    then have "ucast b0 OR push_bit 8 (ucast b1) = (ucast b0 :: u16) + push_bit 8 (ucast b1)"
      by (rule disjunctive_add_eq_or [symmetric])
    then show ?thesis by (simp add: push_bit_eq_mult mult.commute)
  qed
  have "bit x n \<Longrightarrow> n < 8" for x :: u8 and n by (drule bit_imp_le_length) simp
  then have s: "scast (ucast b0 OR push_bit 8 (ucast b1) :: u16) = (ucast b0 OR push_bit 8 (scast b1) :: u32)"
    "ucast (ucast b0 OR push_bit 8 (ucast b1) :: u16) = (ucast b0 OR push_bit 8 (ucast b1) :: u32)" for b0 b1 :: u8
    by - (rule bit_eqI; force simp: bit_simps min_def)+
  show ?thesis
    unfolding two uload.simps do_load_half_def
    by (auto simp: b s simp del: le_val.simps split: option.split bind_splits)
qed

section \<open>Misaligned loads\<close>

text \<open>
  What a load does with the bytes at its address: their number, and the register update.  The
  double-word load keeps only the second word, zero-extended.
\<close>

definition load_effect :: "u32 \<Rightarrow> (nat \<times> (hart \<Rightarrow> u8 list \<Rightarrow> hart)) option" where
  "load_effect insn =
     (let op = insn AND 0x707F in
      if op = 0x2003 then Some (4, \<lambda>h bs. SET_RD h insn (le32 bs))
      else if op = 0x3007 then Some (8, \<lambda>h bs. SET_F64_RD h insn (ucast (le32 (drop 4 bs))))
      else if op = 0x2007 then Some (4, \<lambda>h bs. SET_F32_RD h insn (le32 bs))
      else if op = 0x1003 then Some (2, \<lambda>h bs. SET_RD h insn (scast (of_nat (le_val bs) :: u16)))
      else if op = 0x5003 then Some (2, \<lambda>h bs. SET_RD h insn (ucast (of_nat (le_val bs) :: u16)))
      else None)"

lemma finish_load_map: "finish_load E ms mp h (map_option f r) upd = finish_load E ms mp h r (\<lambda>h v. upd h (f v))"
  by (cases r) (simp_all add: finish_load_def)

lemma do_load_twice:
  assumes w: "word_mapped u" and mis: "addr mod 4 \<noteq> 0"
  shows "Option.bind (do_load u addr) (\<lambda>lo. do_load u (addr + 4)) = map_option (\<lambda>bs. le32 (drop 4 bs)) (uload u addr 8)"
proof -
  have "unat ((addr + 4) mod 4) = unat (addr mod 4)" using unat_add_mod4 [of addr 4] by (simp add: unat_mod)
  then have mis4: "(addr + 4) mod 4 \<noteq> 0" using mis by (metis word_unat_eq_iff)
  show ?thesis
  proof (cases "uload u addr 8")
    case None
    then have "uload u addr 4 = None \<or> uload u (addr + 4) 4 = None"
      using uload_append [of u addr 4 _ 4] by (metis not_None_eq numeral_Bit0 of_nat_numeral option.distinct(1))
    with None show ?thesis by (auto simp: do_load_eq [OF w mis] do_load_eq [OF w mis4])
  next
    case (Some bs)
    then have "length bs = 8" by (simp add: uload_Some_iff)
    with uload_part [OF Some, of 0 4] uload_part [OF Some, of 4 4] Some show ?thesis
      by (simp add: do_load_eq [OF w mis] do_load_eq [OF w mis4])
  qed
qed

text \<open>C6: On a memory mapped by words, the emulation of a misaligned load is the load the instruction
  asks for, the bytes one after the other from the misaligned address: the instruction faults exactly
  when one of its bytes does, and otherwise its register receives the little-endian value, sign- or
  zero-extended.  For FLD the register receives only the upper word, zero-extended.\<close>

theorem misaligned_load_spec:
  assumes "at_insn h insn" and "load_effect insn = Some (n, upd)"
    and "word_mapped (umem h)" and "(GET_RS1 h insn + IMM_I insn) mod 4 \<noteq> 0"
  shows "misaligned_load_trap E h =
    finish_load E (h_mstatus h) (h_mepc h) (end_access E True h)
      (uload (umem h) (GET_RS1 h insn + IMM_I insn) n) upd"
proof -
  have r: "GET_RS1 (end_access E True h) insn = GET_RS1 h insn" by (simp add: GET_RS1_def GET_REG_def frame_simps)
  show ?thesis
    using assms(2) unfolding misaligned_load_trap_def Let_def get_insn_at [OF assms(1)] load_effect_def prod.case option.case
      r end_access_regs unfolding do_load_twice [OF assms(3,4)] unfolding do_load_eq [OF assms(3,4)] do_load_half_eq finish_load_map
    by (auto split: if_splits)
qed

lemma IMM_I_sint: "IMM_I insn = word_of_int (sint insn div 2 ^ 20)"
proof -
  have "sint (IMM_I insn) = sint insn div 2 ^ 20"
    by (simp add: IMM_I_def sint_signed_drop_bit_eq drop_bit_eq_div)
  then show ?thesis by (metis of_int_sint scast_id)
qed

lemma hart_of_mapped: "word_mapped (umem (hart_of insn))"
  by (auto simp: word_mapped_def hart_of_def and.assoc)

theorem misaligned_load_spec_witness:
  "\<forall>E. \<exists>h'. misaligned_load_trap E (hart_of 0x0012A183) = Some (True, h') \<and> xregs h' ! 3 = 0x05040302"
proof
  fix E
  let ?h = "hart_of 0x0012A183"
  have e: "load_effect 0x0012A183 = Some (4, \<lambda>h bs. SET_RD h 0x0012A183 (le32 bs))" by (simp add: load_effect_def)
  have a: "GET_RS1 ?h 0x0012A183 + IMM_I 0x0012A183 = 0x2001"
    by (simp add: GET_RS1_def GET_REG_def reg_num_def hart_of_def IMM_I_sint)
  have "uload (umem ?h) 0x2001 4 = Some [2, 3, 4, 5]" by (simp add: uload_4 hart_of_def)
  with misaligned_load_spec [OF hart_of_insn e hart_of_mapped, of E] a
  show "\<exists>h'. misaligned_load_trap E ?h = Some (True, h') \<and> xregs h' ! 3 = 0x05040302"
    by (simp add: finish_load_def next_insn_def frame_simps reg_num_def le32_def hart_of_def)
qed

section \<open>Multiplication and division\<close>

text \<open>The M extension as the instruction set defines it, by the function field.\<close>

definition isa_mul_div :: "nat \<Rightarrow> u32 \<Rightarrow> u32 \<Rightarrow> u32" where
  "isa_mul_div f a b =
     (if f = 0 then word_of_int (sint a * sint b)
      else if f = 1 then word_of_int (sint a * sint b div 2 ^ 32)
      else if f = 2 then word_of_int (sint a * uint b div 2 ^ 32)
      else if f = 3 then word_of_int (uint a * uint b div 2 ^ 32)
      else if f = 4 then (if b = 0 then - 1 else word_of_int (sint a sdiv sint b))
      else if f = 5 then (if b = 0 then - 1 else word_of_int (uint a div uint b))
      else if f = 6 then (if b = 0 then a else word_of_int (sint a smod sint b))
      else (if b = 0 then a else word_of_int (uint a mod uint b)))"

lemma high_word:
  "ucast (signed_drop_bit 32 (word_of_int p :: u64)) = (word_of_int (p div 2 ^ 32) :: u32)"
proof -
  have "(word_of_int (p div 2 ^ 32) :: u32) = word_of_int (drop_bit 32 p)" by (simp add: drop_bit_eq_div)
  moreover have "ucast (signed_drop_bit 32 (word_of_int p :: u64)) = (word_of_int (drop_bit 32 p) :: u32)"
    by (rule bit_eqI) (auto simp: bit_simps)
  ultimately show ?thesis by simp
qed

lemma and_push_bit: "x AND push_bit n y = push_bit n (drop_bit n x AND y)" for x y :: "'a::len word"
  by (rule bit_eqI) (auto simp: bit_simps)

lemma field_split:
  fixes insn :: u32
  assumes "insn AND 0xFE00007F = c"
  shows "insn AND 0xFE00707F = c OR push_bit 12 (of_nat (GET_RM insn))"
proof -
  have "insn AND 0xFE00707F = (insn AND 0xFE00007F) OR (insn AND 0x7000)"
    by (simp only: bit.conj_disj_distrib [symmetric]) simp
  moreover have "insn AND 0x7000 = push_bit 12 (drop_bit 12 insn AND 7)"
    using and_push_bit [of insn 12 7] by simp
  moreover have "drop_bit 12 insn AND 7 = of_nat (GET_RM insn)" by (simp add: GET_RM_def)
  ultimately show ?thesis using assms by simp
qed

lemma GET_RM_less: "GET_RM insn < 8"
proof -
  have "drop_bit 12 insn AND 7 \<le> 7" by (rule word_and_le1)
  then show ?thesis by (simp add: GET_RM_def word_le_nat_alt)
qed
text \<open>C5: The emulated multiplications, divisions and remainders are those of the instruction set for
  each of the eight function codes, except where the C expression is undefined: a division or remainder
  by zero, and the signed ones of the smallest number by -1.\<close>

theorem mul_div_isa:
  assumes "insn AND 0xFE00007F = 0x02000033"
  shows "mul_div_value insn a b =
    Some (if GET_RM insn \<ge> 4 \<and> b = 0 \<or> GET_RM insn \<in> {4, 6} \<and> a = 0x80000000 \<and> b = - 1 then None
          else Some (isa_mul_div (GET_RM insn) a b))"
proof -
  have s: "scast x = (word_of_int (sint x) :: u64)" "ucast x = (word_of_int (uint x) :: u64)" for x :: u32
    by (metis of_int_sint) (metis of_int_uint)
  have p: "scast a * scast b = (word_of_int (sint a * sint b) :: u64)"
    "scast a * ucast b = (word_of_int (sint a * uint b) :: u64)"
    "ucast a * ucast b = (word_of_int (uint a * uint b) :: u64)"
    by (simp_all only: s of_int_mult)
  have m: "word_of_int (sint a * sint b) = a * b" by (simp add: of_int_mult)
  have d: "word_of_int (uint a div uint b) = a div b" "word_of_int (uint a mod uint b) = a mod b"
    by (simp_all add: word_div_def word_mod_def)
  let ?k = "insn AND 0xFE00707F"
  note f = field_split [OF assms]
  consider "GET_RM insn = 0" | "GET_RM insn = 1" | "GET_RM insn = 2" | "GET_RM insn = 3"
    | "GET_RM insn = 4" | "GET_RM insn = 5" | "GET_RM insn = 6" | "GET_RM insn = 7"
    using GET_RM_less [of insn] by linarith
  then show ?thesis
  proof cases
    case 1
    then have "?k = 0x2000033" by (simp add: f)
    then show ?thesis unfolding mul_div_value_def Let_def isa_mul_div_def 1 by (simp add: m)
  next
    case 2
    then have "?k = 0x2001033" by (simp add: f)
    then show ?thesis unfolding mul_div_value_def Let_def isa_mul_div_def 2 p high_word by simp
  next
    case 3
    then have "?k = 0x2002033" by (simp add: f)
    then show ?thesis unfolding mul_div_value_def Let_def isa_mul_div_def 3 p high_word by simp
  next
    case 4
    then have "?k = 0x2003033" by (simp add: f)
    then show ?thesis unfolding mul_div_value_def Let_def isa_mul_div_def 4 p high_word by simp
  next
    case 5
    then have "?k = 0x2004033" by (simp add: f)
    then show ?thesis unfolding mul_div_value_def Let_def isa_mul_div_def 5 by simp
  next
    case 6
    then have "?k = 0x2005033" by (simp add: f)
    then show ?thesis unfolding mul_div_value_def Let_def isa_mul_div_def 6 d by simp
  next
    case 7
    then have "?k = 0x2006033" by (simp add: f)
    then show ?thesis unfolding mul_div_value_def Let_def isa_mul_div_def 7 by simp
  next
    case 8
    then have "?k = 0x2007033" by (simp add: f)
    then show ?thesis unfolding mul_div_value_def Let_def isa_mul_div_def 8 d by simp
  qed
qed

theorem mul_div_isa_witness:
  "mul_div_value 0x022091B3 0x80000000 3 = Some (Some (- 2)) \<and> mul_div_value 0x0220C1B3 5 0 = Some None"
  using mul_div_isa [where insn = "0x022091B3" and a = "0x80000000" and b = 3] mul_div_isa [where insn = "0x0220C1B3" and a = 5 and b = 0]
  by (simp add: GET_RM_def isa_mul_div_def)

section \<open>Floating-point status\<close>

lemma fcsr_parts:
  "GET_FFLAGS (SET_FCSR h v) = v AND 0x1F" "GET_FRM (SET_FCSR h v) = drop_bit 5 v AND 7"
  "GET_FCSR (SET_FCSR h v) = v AND 0xFF"
proof -
  have n: "(0x1F :: u32) = mask 5" "(7 :: u32) = mask 3" "(0xFF :: u32) = mask 8" by (simp_all add: mask_eq_exp_minus_1)
  show "GET_FFLAGS (SET_FCSR h v) = v AND 0x1F" "GET_FRM (SET_FCSR h v) = drop_bit 5 v AND 7"
    "GET_FCSR (SET_FCSR h v) = v AND 0xFF"
    unfolding GET_FFLAGS_def GET_FRM_def GET_FCSR_def SET_FCSR_def n
    by (rule bit_eqI; auto simp: bit_simps)+
qed

lemma GET_FRM_mask: "GET_FRM h AND 7 = GET_FRM h" "GET_FFLAGS h AND 0x1F = GET_FFLAGS h"
proof -
  have n: "(0x1F :: u32) = mask 5" "(7 :: u32) = mask 3" "(0xFF :: u32) = mask 8" by (simp_all add: mask_eq_exp_minus_1)
  show "GET_FRM h AND 7 = GET_FRM h" "GET_FFLAGS h AND 0x1F = GET_FFLAGS h"
    unfolding GET_FFLAGS_def GET_FRM_def GET_FCSR_def n
    by (rule bit_eqI; auto simp: bit_simps)+
qed

lemma frm_parts:
  "GET_FRM (SET_FRM h v) = v AND 7" "GET_FFLAGS (SET_FRM h v) = GET_FFLAGS h"
  "GET_FRM (SET_FFLAGS h v) = GET_FRM h" "GET_FFLAGS (SET_FFLAGS h v) = v AND 0x1F"
proof -
  have n: "(0x1F :: u32) = mask 5" "(7 :: u32) = mask 3" by (simp_all add: mask_eq_exp_minus_1)
  have o: "drop_bit 5 ((a AND mask 5) OR push_bit 5 b) AND mask 3 = b AND mask 3"
    "((a AND mask 5) OR push_bit 5 b) AND mask 5 = a AND mask 5" for a b :: u32
    by (rule bit_eqI; auto simp: bit_simps)+
  show "GET_FRM (SET_FRM h v) = v AND 7" "GET_FFLAGS (SET_FRM h v) = GET_FFLAGS h"
    unfolding SET_FRM_def fcsr_parts n using o [of "GET_FFLAGS h" v] GET_FRM_mask(2) [of h] unfolding n by (simp_all only:)
  show "GET_FRM (SET_FFLAGS h v) = GET_FRM h" "GET_FFLAGS (SET_FFLAGS h v) = v AND 0x1F"
    unfolding SET_FFLAGS_def fcsr_parts n using o [of v "GET_FRM h"] GET_FRM_mask(1) [of h] unfolding n
    by (simp_all only: or.commute [of "push_bit 5 (GET_FRM h)"] and.assoc and.idem)
qed

text \<open>After an emulated write to fflags, frm or fcsr, a read returns the written value cut to the width
  of the register, and the two fields are independent: writing the flags keeps the rounding mode and writing
  the rounding mode keeps the flags.\<close>

theorem csr_write_read:
  assumes "emulate_write_csr h n v = Some h'" and "mstatus AND MSTATUS_FS \<noteq> 0"
  shows "emulate_read_csr h' n mstatus = Some (v AND (if n = 1 then 0x1F else if n = 2 then 7 else 0xFF)) \<and>
    (n = 1 \<longrightarrow> emulate_read_csr h' 2 mstatus = emulate_read_csr h 2 mstatus) \<and>
    (n = 2 \<longrightarrow> emulate_read_csr h' 1 mstatus = emulate_read_csr h 1 mstatus)"
  using assms by (auto simp: emulate_write_csr_def emulate_read_csr_def frm_parts fcsr_parts split: if_splits)

theorem csr_write_read_witness:
  "emulate_read_csr (SET_FRM (hart_of 0) 0xB) 2 0x3000 = Some 3"
  using csr_write_read [where h = "hart_of 0" and n = 2 and v = "0xB" and h' = "SET_FRM (hart_of 0) 0xB" and mstatus = "0x3000"]
  by (simp add: emulate_write_csr_def MSTATUS_FS_def)

section \<open>Conversions to integers\<close>

text \<open>The instruction set: the value is clamped to the range of the type, and invalid when it was outside.\<close>

definition isa_fcvt :: "bool \<Rightarrow> int \<Rightarrow> u32 \<times> bool" where
  "isa_fcvt sgnd x =
     (let lo = (if sgnd then - (2 ^ 31) else 0);
          hi = (if sgnd then 2 ^ 31 - 1 else 2 ^ 32 - 1)
      in (word_of_int (max lo (min hi x)), x < lo \<or> hi < x))"

lemma ucast_word_of_int: "ucast (w :: u64) = (word_of_int (uint w) :: u32)"
  by (metis of_int_uint)

lemma cast_back: "ucast (scast (x :: u32) :: u64) = x" "ucast (ucast x :: u64) = x"
  by (rule bit_eqI; auto simp: bit_simps)+

lemma ucast_neg: "ucast (- w :: u64) = (word_of_int (- uint w) :: u32)"
proof -
  have "- w = word_of_int (- uint w)" by simp
  moreover have "ucast (word_of_int k :: u64) = (word_of_int k :: u32)" for k by (rule bit_eqI) (auto simp: bit_simps)
  ultimately show ?thesis by (simp only:)
qed

lemma fcvt_if_isa:
  "case fcvt_if_result (if sgnd then 0 else 1) negative v of (r, invalid) \<Rightarrow>
     (ucast r, invalid) =
       (if \<not> sgnd \<and> negative \<and> v \<noteq> 0 then (0xFFFFFFFF, True)
        else isa_fcvt sgnd (if negative then - uint v else uint v))"
proof -
  have v: "v > x \<longleftrightarrow> uint v > uint x" for x by (rule word_less_def)
  have p: "0 \<le> uint v" by (rule unsigned_greater_eq)
  have z: "v = 0 \<longleftrightarrow> uint v = 0" by (simp add: uint_0_iff)
  have c0: "max (- (2 ^ 31)) (min (2 ^ 31 - 1) (- x)) = (if x > 2 ^ 31 then - (2 ^ 31) else - x)"
    "max (- (2 ^ 31)) (min (2 ^ 31 - 1) (x)) = (if x > 2 ^ 31 - 1 then 2 ^ 31 - 1 else x)"
    "max 0 (min (2 ^ 32 - 1) (x)) = (if x > 2 ^ 32 - 1 then 2 ^ 32 - 1 else x)"
    "max 0 (min (2 ^ 32 - 1) (- x)) = 0"
    if "0 \<le> x" for x :: int
    using that by (auto simp: max_def min_def)
  note c = c0 [OF p]
  show ?thesis
  proof (cases sgnd)
    case True
    have n: "uint (0x80000000 :: u64) = 2 ^ 31" "uint (0x7FFFFFFF :: u64) = 2 ^ 31 - 1" by simp_all
    have f0: "- x < - (2 ^ 31) \<or> 2 ^ 31 - 1 < - x \<longleftrightarrow> 2 ^ 31 < x"
      "x < - (2 ^ 31) \<or> 2 ^ 31 - 1 < x \<longleftrightarrow> 2 ^ 31 - 1 < x" "\<not> x < - (2 ^ 31)" if "0 \<le> x" for x :: int using that by auto
    note f = f0 [OF p]
    show ?thesis
    proof (cases negative)
      case neg: True
      show ?thesis
      proof (cases "2 ^ 31 < uint v")
        case lim: True
        show ?thesis unfolding fcvt_if_result_def isa_fcvt_def Let_def v
          by (simp only: True neg lim c f n if_True if_False simp_thms prod.case) simp
      next
        case lim: False
        show ?thesis unfolding fcvt_if_result_def isa_fcvt_def Let_def v
          by (simp only: True neg lim c f n if_True if_False simp_thms prod.case cast_back ucast_neg)
      qed
    next
      case neg: False
      show ?thesis
      proof (cases "2 ^ 31 - 1 < uint v")
        case lim: True
        show ?thesis unfolding fcvt_if_result_def isa_fcvt_def Let_def v
          by (simp only: True neg lim c f n if_True if_False simp_thms prod.case) simp
      next
        case lim: False
        show ?thesis unfolding fcvt_if_result_def isa_fcvt_def Let_def v
          by (simp only: True neg lim c f n if_True if_False simp_thms prod.case cast_back) (simp only: ucast_word_of_int)
      qed
    qed
  next
    case False
    have n: "uint (0 :: u64) = 0" "uint (0xFFFFFFFF :: u64) = 2 ^ 32 - 1" by simp_all
    have f0: "- x < 0 \<or> 2 ^ 32 - 1 < - x \<longleftrightarrow> 0 < x"
      "x < 0 \<or> 2 ^ 32 - 1 < x \<longleftrightarrow> 2 ^ 32 - 1 < x" "x = 0 \<longleftrightarrow> \<not> 0 < x" if "0 \<le> x" for x :: int using that by auto
    note f = f0(1,2) [OF p] and q = f0(3) [OF p]
    show ?thesis
    proof (cases negative)
      case neg: True
      show ?thesis unfolding fcvt_if_result_def isa_fcvt_def Let_def v z
        by (cases "0 < uint v") (simp_all only: False neg q c f n if_True if_False simp_thms prod.case one_neq_zero, simp_all)
    next
      case neg: False
      show ?thesis
      proof (cases "2 ^ 32 - 1 < uint v")
        case lim: True
        show ?thesis unfolding fcvt_if_result_def isa_fcvt_def Let_def v
          by (simp only: False neg lim c f n if_True if_False simp_thms prod.case one_neq_zero) simp
      next
        case lim: False
        show ?thesis unfolding fcvt_if_result_def isa_fcvt_def Let_def v
          by (simp only: False neg lim c f n if_True if_False simp_thms prod.case cast_back one_neq_zero) (simp only: ucast_word_of_int not_less [THEN iffD2, OF p])
      qed
    qed
  qed
qed

text \<open>A conversion from floating point to a 32-bit integer stores the rounded value clamped to the range
  of the type and reports it as invalid when it was outside, as the instruction set asks; a negative value
  converted to unsigned is the exception: it becomes the largest number instead of 0.\<close>

theorem fcvt_saturates:
  "case fcvt_if_result (if sgnd then 0 else 1) negative v of (r, invalid) \<Rightarrow>
     (ucast r, invalid) =
       (if \<not> sgnd \<and> negative \<and> v \<noteq> 0 then (0xFFFFFFFF, True)
        else isa_fcvt sgnd (if negative then - uint v else uint v))"
  by (rule fcvt_if_isa)

end
