(* ===== verification/FileTable.thy ===== *)
theory FileTable
  imports Memory
begin

text \<open>
  The table of open files of the firmware (hello/file.c): reference-counted slots over FatFs.
  FatFs is the vendored library in hello/ff.c and is the parameter \<open>fatfs\<close>: its functions on a
  drive state \<open>'d\<close> and file objects \<open>'f\<close>.  A panic of the firmware is \<open>None\<close>.  Touching the pages
  of a buffer (\<open>populate_mapping\<close>) does not change the memory and is left out; the interrupt locks
  of the source are empty functions.
\<close>

section \<open>FatFs\<close>

record ('d, 'f) fatfs =
  f_open :: "'d \<Rightarrow> string \<Rightarrow> u8 \<Rightarrow> nat \<times> 'f \<times> 'd"
  f_close :: "'d \<Rightarrow> 'f \<Rightarrow> nat \<times> 'f \<times> 'd"
  f_lseek :: "'d \<Rightarrow> 'f \<Rightarrow> u32 \<Rightarrow> nat \<times> 'f \<times> 'd"
  f_read :: "'d \<Rightarrow> 'f \<Rightarrow> u32 \<Rightarrow> nat \<times> u8 list \<times> 'f \<times> 'd"
  f_write :: "'d \<Rightarrow> 'f \<Rightarrow> u8 list \<Rightarrow> nat \<times> u32 \<times> 'f \<times> 'd"
  f_stat :: "'d \<Rightarrow> string \<Rightarrow> nat \<times> u32"

section \<open>State\<close>

record 'f file_t =
  fd :: 'f
  offset :: u32
  refcnt :: u32

record ('d, 'f) fstate =
  files :: "'f file_t list"
  drive :: 'd

definition MAX_FILES :: nat where "MAX_FILES = 32"

definition upd_file :: "nat \<Rightarrow> ('f file_t \<Rightarrow> 'f file_t) \<Rightarrow> ('d, 'f) fstate \<Rightarrow> ('d, 'f) fstate" where
  "upd_file f g st = st\<lparr>files := (files st)[f := g (files st ! f)]\<rparr>"

text \<open>The file object and the drive after a FatFs call.\<close>

definition put_fd :: "nat \<Rightarrow> 'f \<Rightarrow> 'd \<Rightarrow> ('d, 'f) fstate \<Rightarrow> ('d, 'f) fstate" where
  "put_fd f x d st = (upd_file f (\<lambda>e. e\<lparr>fd := x\<rparr>) st)\<lparr>drive := d\<rparr>"

section \<open>Operations\<close>

definition file_incref :: "nat \<Rightarrow> ('d, 'f) fstate \<Rightarrow> ('d, 'f) fstate option" where
  "file_incref f st =
     (let prev = refcnt (files st ! f);
          st = upd_file f (\<lambda>e. e\<lparr>refcnt := prev + 1\<rparr>) st
      in if 0 < sint prev then Some st else None)"

definition file_decref :: "('d, 'f) fatfs \<Rightarrow> nat \<Rightarrow> ('d, 'f) fstate \<Rightarrow> ('d, 'f) fstate" where
  "file_decref E f st =
     (let prev = refcnt (files st ! f);
          st = upd_file f (\<lambda>e. e\<lparr>refcnt := prev - 1\<rparr>) st
      in
      if prev = 2 then
        (let st = upd_file f (\<lambda>e. e\<lparr>refcnt := 0, offset := 0\<rparr>) st;
             (_, x, d) = f_close E (drive st) (fd (files st ! f))
         in put_fd f x d st)
      else st)"

fun find_free :: "'f file_t list \<Rightarrow> nat \<Rightarrow> nat option" where
  "find_free [] i = None"
| "find_free (e # es) i = (if refcnt e = 0 then Some i else find_free es (i + 1))"

definition file_get_free :: "('d, 'f) fstate \<Rightarrow> (nat \<times> ('d, 'f) fstate) option" where
  "file_get_free st =
     (case find_free (files st) 0 of
        None \<Rightarrow> None
      | Some f \<Rightarrow> Some (f, upd_file f (\<lambda>e. e\<lparr>refcnt := 2\<rparr>) st))"

definition file_init :: "('d, 'f) fstate \<Rightarrow> ('d, 'f) fstate" where
  "file_init st = st\<lparr>files := map (\<lambda>e. e\<lparr>offset := 0, refcnt := 0\<rparr>) (files st)\<rparr>"

text \<open>The access mode of the flags, \<open>O_ACCMODE\<close> being 3.\<close>

definition open_mode :: "u32 \<Rightarrow> u8" where
  "open_mode flags =
     (let mode = 0;
          mode = (if flags AND 3 = 0 then 1 else mode);
          mode = (if flags AND 3 = 1 then 2 else mode)
      in if flags AND 3 = 2 then 1 OR 2 else mode)"

definition file_openat :: "('d, 'f) fatfs \<Rightarrow> string \<Rightarrow> u32 \<Rightarrow> ('d, 'f) fstate \<Rightarrow> (nat \<times> ('d, 'f) fstate) option" where
  "file_openat E fn flags st =
     (case file_get_free st of
        None \<Rightarrow> None
      | Some (f, st) \<Rightarrow>
          (let (rt, x, d) = f_open E (drive st) fn (open_mode flags) in
           if rt \<noteq> 0 then None else Some (f, put_fd f x d st)))"

definition file_open :: "('d, 'f) fatfs \<Rightarrow> string \<Rightarrow> u32 \<Rightarrow> ('d, 'f) fstate \<Rightarrow> (nat \<times> ('d, 'f) fstate) option" where
  "file_open E fn flags st = file_openat E fn flags st"

definition file_read ::
  "('d, 'f) fatfs \<Rightarrow> nat \<Rightarrow> u32 \<Rightarrow> u32 \<Rightarrow> ('d, 'f) fstate \<Rightarrow> mem \<Rightarrow> u32 \<times> ('d, 'f) fstate \<times> mem" where
  "file_read E f buf sz st m =
     (let e = files st ! f;
          (_, x, d) = f_lseek E (drive st) (fd e) (offset e);
          (_, bs, x, d) = f_read E d x sz;
          st = put_fd f x d st;
          rsize = of_nat (length bs)
      in (rsize, upd_file f (\<lambda>e. e\<lparr>offset := offset e + rsize\<rparr>) st, store_bytes m buf bs))"

text \<open>A failing seek panics; the second test of the source looks at the same result again, so a failing
  read does not.\<close>

definition file_pread ::
  "('d, 'f) fatfs \<Rightarrow> nat \<Rightarrow> u32 \<Rightarrow> u32 \<Rightarrow> u32 \<Rightarrow> ('d, 'f) fstate \<Rightarrow> mem \<Rightarrow> (u32 \<times> ('d, 'f) fstate \<times> mem) option" where
  "file_pread E f buf sz off st m =
     (let (rt, x, d) = f_lseek E (drive st) (fd (files st ! f)) off in
      if rt \<noteq> 0 then None
      else
        (let (_, bs, x, d) = f_read E d x sz
         in Some (of_nat (length bs), put_fd f x d st, store_bytes m buf bs)))"

definition file_write ::
  "('d, 'f) fatfs \<Rightarrow> nat \<Rightarrow> u32 \<Rightarrow> u32 \<Rightarrow> ('d, 'f) fstate \<Rightarrow> mem \<Rightarrow> u32 \<times> ('d, 'f) fstate" where
  "file_write E f buf sz st m =
     (let e = files st ! f;
          (_, x, d) = f_lseek E (drive st) (fd e) (offset e);
          (_, wsize, x, d) = f_write E d x (load_bytes m buf (unat sz));
          st = put_fd f x d st
      in (wsize, upd_file f (\<lambda>e. e\<lparr>offset := offset e + wsize\<rparr>) st))"

definition file_pwrite ::
  "('d, 'f) fatfs \<Rightarrow> nat \<Rightarrow> u32 \<Rightarrow> u32 \<Rightarrow> u32 \<Rightarrow> ('d, 'f) fstate \<Rightarrow> mem \<Rightarrow> u32 \<times> ('d, 'f) fstate" where
  "file_pwrite E f buf sz off st m =
     (let (_, x, d) = f_lseek E (drive st) (fd (files st ! f)) off;
          (_, wsize, x, d) = f_write E d x (load_bytes m buf (unat sz))
      in (wsize, put_fd f x d st))"

datatype seek_dir = SEEK_SET | SEEK_CUR | SEEK_END

definition file_lseek ::
  "('d, 'f) fatfs \<Rightarrow> nat \<Rightarrow> u32 \<Rightarrow> seek_dir \<Rightarrow> ('d, 'f) fstate \<Rightarrow> (u32 \<times> ('d, 'f) fstate) option" where
  "file_lseek E f p dir st =
     (case dir of
        SEEK_END \<Rightarrow> None
      | _ \<Rightarrow>
          (let to = (if dir = SEEK_SET then p else offset (files st ! f) + p);
               (rt, x, d) = f_lseek E (drive st) (fd (files st ! f)) to;
               st = put_fd f x d st
           in Some (if rt \<noteq> 0 then - 1 else to, st)))"

definition file_truncate :: "nat \<Rightarrow> u32 \<Rightarrow> ('d, 'f) fstate \<Rightarrow> (u32 \<times> ('d, 'f) fstate) option" where
  "file_truncate f len st = None"

section \<open>The slots\<close>

text \<open>A slot is free (count 0) or open (count at least 2), and a free slot has offset 0.\<close>

definition slot_ok :: "'f file_t \<Rightarrow> bool" where
  "slot_ok e \<longleftrightarrow> refcnt e \<noteq> 1 \<and> (refcnt e = 0 \<longrightarrow> offset e = 0)"

definition table_ok :: "('d, 'f) fstate \<Rightarrow> bool" where
  "table_ok st \<longleftrightarrow> (\<forall>e \<in> set (files st). slot_ok e)"

text \<open>The steps of the firmware on the table.  Descriptors are used while they are open, and the reference
  counts stay below the sign bit.\<close>

definition is_open :: "nat \<Rightarrow> ('d, 'f) fstate \<Rightarrow> bool" where
  "is_open f st \<longleftrightarrow> f < length (files st) \<and> 2 \<le> refcnt (files st ! f)"

inductive file_step :: "('d, 'f) fatfs \<Rightarrow> ('d, 'f) fstate \<Rightarrow> ('d, 'f) fstate \<Rightarrow> bool" for E where
  step_open: "file_openat E fn flags st = Some (f, st') \<Longrightarrow> file_step E st st'"
| step_incref: "is_open f st \<Longrightarrow> refcnt (files st ! f) < 0x7FFFFFFF \<Longrightarrow> file_incref f st = Some st' \<Longrightarrow> file_step E st st'"
| step_decref: "is_open f st \<Longrightarrow> file_step E st (file_decref E f st)"
| step_read: "is_open f st \<Longrightarrow> file_read E f buf sz st m = (r, st', m') \<Longrightarrow> file_step E st st'"
| step_pread: "is_open f st \<Longrightarrow> file_pread E f buf sz off st m = Some (r, st', m') \<Longrightarrow> file_step E st st'"
| step_write: "is_open f st \<Longrightarrow> file_write E f buf sz st m = (r, st') \<Longrightarrow> file_step E st st'"
| step_pwrite: "is_open f st \<Longrightarrow> file_pwrite E f buf sz off st m = (r, st') \<Longrightarrow> file_step E st st'"
| step_lseek: "is_open f st \<Longrightarrow> file_lseek E f p dir st = Some (r, st') \<Longrightarrow> file_step E st st'"

inductive_cases file_stepE: "file_step E st st'"

section \<open>Lemmas on the table\<close>

lemma files_upd [simp]:
  "files (upd_file f g st) = (files st)[f := g (files st ! f)]" "drive (upd_file f g st) = drive st"
  "files (put_fd f x d st) = (files st)[f := (files st ! f)\<lparr>fd := x\<rparr>]" "drive (put_fd f x d st) = d"
  by (simp_all add: upd_file_def put_fd_def)

lemma slot_ok_fd [simp]: "slot_ok (e\<lparr>fd := x\<rparr>) = slot_ok e"
  by (simp add: slot_ok_def)

lemma table_ok_nth: "table_ok st \<Longrightarrow> f < length (files st) \<Longrightarrow> slot_ok (files st ! f)"
  by (simp add: table_ok_def)

lemma table_ok_upd:
  "table_ok st \<Longrightarrow> files st' = (files st)[f := e] \<Longrightarrow> slot_ok e \<Longrightarrow> table_ok st'"
  by (auto simp: table_ok_def dest!: set_update_subset_insert [THEN subsetD])

lemma table_ok_put: "table_ok st \<Longrightarrow> f < length (files st) \<Longrightarrow> table_ok (put_fd f x d st)"
  by (rule table_ok_upd [of st _ f "(files st ! f)\<lparr>fd := x\<rparr>"]) (simp_all add: table_ok_nth)

lemma find_free_Some:
  "find_free es i = Some f \<Longrightarrow> i \<le> f \<and> f < i + length es \<and> refcnt (es ! (f - i)) = 0 \<and> (\<forall>j<f - i. refcnt (es ! j) \<noteq> 0)"
proof (induction es arbitrary: i)
  case (Cons e es)
  show ?case
  proof (cases "refcnt e = 0")
    case False
    with Cons have "i + 1 \<le> f" "f < i + 1 + length es" "refcnt (es ! (f - (i + 1))) = 0"
      "\<forall>j<f - (i + 1). refcnt (es ! j) \<noteq> 0" by fastforce+
    with False show ?thesis by (auto simp: nth_Cons' less_diff_conv2)
  qed (use Cons in simp)
qed simp

lemma file_get_free_spec:
  assumes "file_get_free st = Some (f, st')"
  shows "f < length (files st)" "refcnt (files st ! f) = 0" "st' = upd_file f (\<lambda>e. e\<lparr>refcnt := 2\<rparr>) st"
  using assms find_free_Some [of "files st" 0 f] by (auto simp: file_get_free_def split: option.splits)

lemma file_openat_spec:
  assumes "file_openat E fn flags st = Some (f, st')"
  obtains x d where "f < length (files st)" "refcnt (files st ! f) = 0"
    "f_open E (drive st) fn (open_mode flags) = (0, x, d)"
    "st' = st\<lparr>files := (files st)[f := (files st ! f)\<lparr>refcnt := 2, fd := x\<rparr>], drive := d\<rparr>"
proof -
  obtain g st1 where g: "file_get_free st = Some (g, st1)" using assms by (auto simp: file_openat_def split: option.splits)
  obtain rt x d where o: "f_open E (drive st1) fn (open_mode flags) = (rt, x, d)" by (cases "f_open E (drive st1) fn (open_mode flags)")
  note s = file_get_free_spec [OF g]
  from assms have "rt = 0" "f = g" "st' = put_fd f x d st1" by (auto simp: file_openat_def g o split: if_splits)
  with s o that [of x d] show thesis by (simp add: upd_file_def put_fd_def)
qed

lemma open_count: "is_open f st \<Longrightarrow> unat (refcnt (files st ! f)) \<ge> 2"
  by (simp add: is_open_def word_le_nat_alt)

lemma file_decref_slot:
  assumes "is_open f st"
  shows "\<exists>e. files (file_decref E f st) = (files st)[f := e] \<and> slot_ok e"
proof (cases "refcnt (files st ! f) = 2")
  case True
  with assms show ?thesis
    by (auto simp: file_decref_def Let_def is_open_def slot_ok_def split: prod.split)
next
  case False
  have "unat (refcnt (files st ! f)) \<noteq> 2" using False word_unat_eq_iff [of "refcnt (files st ! f)" 2] by simp
  with open_count [OF assms] have "2 < unat (refcnt (files st ! f))" by simp
  then have "unat (refcnt (files st ! f) - 1) \<ge> 2" by (simp add: unat_sub_if')
  then have "refcnt (files st ! f) - 1 \<noteq> 1" "refcnt (files st ! f) - 1 \<noteq> 0" by auto
  with False show ?thesis by (auto simp: file_decref_def Let_def slot_ok_def)
qed

text \<open>The input and output operations change the file object, the drive and the offset.\<close>

lemma table_ok_io:
  assumes "table_ok s" "is_open f s"
    and "(\<exists>x d. t = put_fd f x d s) \<or> (\<exists>x d k. t = upd_file f (\<lambda>e. e\<lparr>offset := offset e + k\<rparr>) (put_fd f x d s))"
  shows "table_ok t"
proof -
  have f: "f < length (files s)" "refcnt (files s ! f) \<noteq> 0" "refcnt (files s ! f) \<noteq> 1"
    using assms(2) open_count [OF assms(2)] by (auto simp: is_open_def)
  have p: "table_ok (put_fd f x d s)" for x d using assms(1) f(1) by (rule table_ok_put)
  have "table_ok (upd_file f (\<lambda>e. e\<lparr>offset := offset e + k\<rparr>) (put_fd f x d s))" for x d k
    by (rule table_ok_upd [OF p [of x d], of _ f "(files s ! f)\<lparr>fd := x, offset := offset (files s ! f) + k\<rparr>"])
      (use f in \<open>simp_all add: slot_ok_def\<close>)
  with p assms(3) show ?thesis by blast
qed

text \<open>C11: Every step of the firmware keeps the table of files well formed, from its initialisation on: each
  slot is free or holds at least the two counts of an open file, and a free slot has its offset reset, so a
  newly opened file starts at offset 0 with count 2.\<close>

theorem file_table_invariant:
  assumes "(file_step E)\<^sup>*\<^sup>* (file_init st0) st"
  shows "table_ok st \<and> (file_openat E fn flags st = Some (f, st') \<longrightarrow>
    offset (files st' ! f) = 0 \<and> refcnt (files st' ! f) = 2)"
proof -
  have "table_ok st" using assms
  proof (induction rule: rtranclp_induct)
    case base
    then show ?case by (simp add: table_ok_def file_init_def slot_ok_def)
  next
    case (step s t)
    note ok = \<open>table_ok s\<close>
    show ?case using \<open>file_step E s t\<close>
    proof (cases rule: file_step.cases)
      case (step_open fn flags f)
      with ok show ?thesis
        by (elim file_openat_spec) (rule table_ok_upd [OF ok], auto simp: slot_ok_def dest!: table_ok_nth)
    next
      case (step_incref f)
      then have b: "2 \<le> refcnt (files s ! f)" "refcnt (files s ! f) < 0x7FFFFFFF" "f < length (files s)" by (auto simp: is_open_def)
      then have "unat (refcnt (files s ! f) + 1) \<ge> 3"
        by (simp add: word_le_nat_alt word_less_nat_alt unat_plus_if')
      then have "refcnt (files s ! f) + 1 \<noteq> 1" "refcnt (files s ! f) + 1 \<noteq> 0" by auto
      with step_incref show ?thesis
        by (intro table_ok_upd [OF ok, of _ f]) (auto simp: file_incref_def Let_def slot_ok_def split: if_splits)
    next
      case (step_decref f)
      with file_decref_slot [of f s E] show ?thesis using table_ok_upd [OF ok] by blast
    next
      case (step_read f)
      then show ?thesis by (intro table_ok_io [OF ok, of f]) (auto simp: file_read_def Let_def split: prod.splits, blast)
    next
      case (step_pread f)
      then show ?thesis by (intro table_ok_io [OF ok, of f]) (auto simp: file_pread_def split: prod.splits if_splits)
    next
      case (step_write f)
      then show ?thesis by (intro table_ok_io [OF ok, of f]) (auto simp: file_write_def Let_def split: prod.splits, blast)
    next
      case (step_pwrite f)
      then show ?thesis by (intro table_ok_io [OF ok, of f]) (auto simp: file_pwrite_def Let_def split: prod.splits)
    next
      case (step_lseek f)
      then show ?thesis
        by (intro table_ok_io [OF ok, of f]) (auto simp: file_lseek_def Let_def split: prod.splits seek_dir.splits if_splits)
    qed
  qed
  moreover have "offset (files st' ! f) = 0 \<and> refcnt (files st' ! f) = 2"
    if "file_openat E fn flags st = Some (f, st')" "table_ok st"
    using that by (elim file_openat_spec) (auto dest: table_ok_nth simp: slot_ok_def)
  ultimately show ?thesis by blast
qed
section \<open>Reading and seeking\<close>

text \<open>What FatFs documents of a good file object on a volume: a seek within the file sets the position, and a
  read returns the bytes from the position on, fewer at the end of the file, and moves the position past them; the
  object stays good.\<close>

definition fat_laws :: "('d, 'f) fatfs \<Rightarrow> ('d \<Rightarrow> 'f \<Rightarrow> bool) \<Rightarrow> ('d \<Rightarrow> 'f \<Rightarrow> u8 list) \<Rightarrow> ('d \<Rightarrow> 'f \<Rightarrow> nat) \<Rightarrow> bool" where
  "fat_laws E good content pos \<longleftrightarrow>
     (\<forall>d x p. good d x \<and> unat p \<le> length (content d x) \<longrightarrow>
        (\<exists>x' d'. f_lseek E d x p = (0, x', d') \<and> good d' x' \<and> content d' x' = content d x \<and> pos d' x' = unat p)) \<and>
     (\<forall>d x n. good d x \<longrightarrow> (\<exists>x' d'. f_read E d x n = (0, take (unat n) (drop (pos d x) (content d x)), x', d') \<and> good d' x' \<and>
        content d' x' = content d x \<and> pos d' x' = pos d x + length (take (unat n) (drop (pos d x) (content d x)))))"

lemma fat_seek_read:
  assumes "fat_laws E good content pos" "good d x" "unat p \<le> length (content d x)"
  obtains x' d' x'' d'' where "f_lseek E d x p = (0, x', d')"
    "f_read E d' x' n = (0, take (unat n) (drop (unat p) (content d x)), x'', d'')" "content d'' x'' = content d x" "good d'' x''"
proof -
  obtain x' d' where 1: "f_lseek E d x p = (0, x', d')" "content d' x' = content d x" "pos d' x' = unat p" "good d' x'"
    using assms unfolding fat_laws_def by blast
  obtain x'' d'' where 2: "f_read E d' x' n = (0, take (unat n) (drop (pos d' x') (content d' x')), x'', d'')"
    "content d'' x'' = content d' x'" "good d'' x''" using assms(1) 1(4) unfolding fat_laws_def by blast
  show thesis using that [OF 1(1), of x'' d''] 2 1 by simp
qed

text \<open>The content and the offset of an open file.\<close>

definition file_content :: "('d \<Rightarrow> 'f \<Rightarrow> u8 list) \<Rightarrow> nat \<Rightarrow> ('d, 'f) fstate \<Rightarrow> u8 list" where
  "file_content content f st = content (drive st) (fd (files st ! f))"

definition file_good :: "('d \<Rightarrow> 'f \<Rightarrow> bool) \<Rightarrow> nat \<Rightarrow> ('d, 'f) fstate \<Rightarrow> bool" where
  "file_good good f st \<longleftrightarrow> f < length (files st) \<and> good (drive st) (fd (files st ! f))"

definition file_pos :: "nat \<Rightarrow> ('d, 'f) fstate \<Rightarrow> nat" where
  "file_pos f st = unat (offset (files st ! f))"

lemma file_read_spec:
  assumes "fat_laws E good content pos" "file_good good f st"
    and "file_pos f st \<le> length (file_content content f st)" "length (file_content content f st) < 2 ^ 32"
    and "file_read E f buf n st m = (r, st', m')"
  defines "bs \<equiv> take (unat n) (drop (file_pos f st) (file_content content f st))"
  shows "unat r = length bs \<and> m' = store_bytes m buf bs \<and> file_pos f st' = file_pos f st + length bs
    \<and> file_content content f st' = file_content content f st \<and> file_good good f st'"
proof -
  let ?e = "files st ! f"
  have g: "f < length (files st)" "good (drive st) (fd ?e)" using assms(2) by (simp_all add: file_good_def)
  obtain x' d' x d where c: "f_lseek E (drive st) (fd ?e) (offset ?e) = (0, x', d')"
    "f_read E d' x' n = (0, bs, x, d)" "content d x = file_content content f st" "good d x"
    using fat_seek_read [OF assms(1) g(2), of "offset ?e" n] assms(3)
    unfolding bs_def file_content_def file_pos_def by metis
  have l: "file_pos f st + length bs \<le> length (file_content content f st)"
    using assms(3) by (auto simp: bs_def)
  with assms(4) have l32: "file_pos f st + length bs < 2 ^ 32" by linarith
  then have u: "unat (of_nat (length bs) :: u32) = length bs" by simp
  have "unat (offset ?e + of_nat (length bs)) = unat (offset ?e) + length bs"
    using l32 u unfolding file_pos_def unat_plus_if' by simp
  with assms(5) g(1) c u show ?thesis
    by (auto simp: file_read_def Let_def file_pos_def file_content_def file_good_def)
qed

text \<open>A run of reads into consecutive parts of a buffer.\<close>

fun file_reads ::
  "('d, 'f) fatfs \<Rightarrow> nat \<Rightarrow> u32 \<Rightarrow> u32 list \<Rightarrow> ('d, 'f) fstate \<Rightarrow> mem \<Rightarrow> ('d, 'f) fstate \<times> mem" where
  "file_reads E f buf [] st m = (st, m)"
| "file_reads E f buf (n # ns) st m =
     (let (r, st, m) = file_read E f buf n st m in file_reads E f (buf + r) ns st m)"

lemma file_reads_content:
  assumes "fat_laws E good content pos" "file_good good f st"
    and "file_pos f st \<le> length (file_content content f st)" "length (file_content content f st) < 2 ^ 32"
    and "file_reads E f buf ns st m = (st', m')"
  shows "m' = store_bytes m buf (take (\<Sum>n\<leftarrow>ns. unat n) (drop (file_pos f st) (file_content content f st)))"
  using assms(2-)
proof (induction ns arbitrary: st m buf)
  case Nil
  then show ?case by simp
next
  case (Cons n ns)
  obtain r st1 m1 where r: "file_read E f buf n st m = (r, st1, m1)" by (cases "file_read E f buf n st m")
  let ?rest = "drop (file_pos f st) (file_content content f st)"
  note s = file_read_spec [OF assms(1) Cons.prems(1-3) r]
  have l: "length (take (unat n) ?rest) \<le> length ?rest" by simp
  have "m' = store_bytes m1 (buf + r) (take (\<Sum>n\<leftarrow>ns. unat n) (drop (file_pos f st1) (file_content content f st1)))"
    using Cons.prems s l r by (intro Cons.IH) auto
  moreover have "drop (file_pos f st1) (file_content content f st1) = drop (length (take (unat n) ?rest)) ?rest"
    using s by (simp add: add.commute)
  moreover have "buf + r = buf + of_nat (length (take (unat n) ?rest))" using s by (metis of_nat_unat ucast_id)
  moreover have "take (\<Sum>n\<leftarrow>n # ns. unat n) ?rest
      = take (unat n) ?rest @ take (\<Sum>n\<leftarrow>ns. unat n) (drop (length (take (unat n) ?rest)) ?rest)"
    by (cases "unat n \<le> length ?rest") (auto simp: take_add)
  ultimately show ?case using s by (simp add: store_bytes_append)
qed

text \<open>C12: On a volume that behaves as FatFs documents, a run of reads of any sizes fills consecutive parts of
  the buffer with the consecutive bytes of the file from its offset on, as one read of the total size would.\<close>

theorem file_reads_stream:
  assumes "fat_laws E good content pos" "file_good good f st"
    and "file_pos f st \<le> length (file_content content f st)" "length (file_content content f st) < 2 ^ 32"
    and "file_reads E f buf ns st m = (st', m')"
  shows "m' = store_bytes m buf (take (\<Sum>n\<leftarrow>ns. unat n) (drop (file_pos f st) (file_content content f st)))"
  using assms by (rule file_reads_content)

text \<open>\<open>file_lseek\<close> reports the new position but does not record it: the next read still takes place at
  the offset the file had before.\<close>

theorem file_lseek_lost:
  assumes "fat_laws E good content pos" "file_good good f st" "unat p \<le> length (file_content content f st)"
    and "file_pos f st \<le> length (file_content content f st)" "length (file_content content f st) < 2 ^ 32"
    and "file_lseek E f p SEEK_SET st = Some (r, st1)"
    and "file_read E f buf n st1 m = (k, st2, m2)"
  shows "r = p \<and> m2 = store_bytes m buf (take (unat n) (drop (file_pos f st) (file_content content f st)))"
proof -
  have g: "f < length (files st)" "good (drive st) (fd (files st ! f))" using assms(2) by (simp_all add: file_good_def)
  obtain x d where d: "f_lseek E (drive st) (fd (files st ! f)) p = (0, x, d)" "content d x = file_content content f st" "good d x"
    using assms(1,3) g(2) unfolding fat_laws_def file_content_def by blast
  with assms(6) have s: "r = p" "st1 = put_fd f x d st" by (simp_all add: file_lseek_def)
  with g(1) d(2,3) have "file_pos f st1 = file_pos f st" "file_good good f st1"
    "file_content content f st1 = file_content content f st" by (simp_all add: file_pos_def file_content_def file_good_def)
  with file_read_spec [OF assms(1) _ _ _ assms(7)] assms(2-5) s show ?thesis by simp
qed

section \<open>A volume in memory, for the examples\<close>

definition ram_fat :: "(unit, u8 list \<times> nat) fatfs" where
  "ram_fat = \<lparr>f_open = (\<lambda>d fn mode. (0, (map ch_byte fn, 0), d)),
     f_close = (\<lambda>d x. (0, x, d)),
     f_lseek = (\<lambda>d x p. (0, (fst x, unat p), d)),
     f_read = (\<lambda>d x n. let bs = take (unat n) (drop (snd x) (fst x)) in (0, bs, (fst x, snd x + length bs), d)),
     f_write = (\<lambda>d x bs. (0, of_nat (length bs), (take (snd x) (fst x) @ bs, snd x + length bs), d)),
     f_stat = (\<lambda>d fn. (0, of_nat (length fn)))\<rparr>"

lemma ram_fat_laws: "fat_laws ram_fat (\<lambda>d x. True) (\<lambda>d. fst) (\<lambda>d. snd)"
  by (simp add: fat_laws_def ram_fat_def Let_def)

definition st_sample :: "(unit, u8 list \<times> nat) fstate" where
  "st_sample = \<lparr>files = [\<lparr>fd = ([10, 20, 30, 40, 50], 0), offset = 1, refcnt = 2\<rparr>, \<lparr>fd = ([], 0), offset = 0, refcnt = 0\<rparr>],
     drive = ()\<rparr>"

theorem file_table_invariant_witness:
  "offset (files (snd (the (file_openat ram_fat ''ab'' 0 (file_init st_sample)))) ! 0) = 0"
proof -
  have "\<exists>x. file_openat ram_fat ''ab'' 0 (file_init st_sample) = Some (0, x)"
    by (simp add: file_openat_def file_get_free_def file_init_def st_sample_def ram_fat_def)
  then obtain x where x: "file_openat ram_fat ''ab'' 0 (file_init st_sample) = Some (0, x)" by blast
  with file_table_invariant [of ram_fat st_sample "file_init st_sample" "''ab''" 0 0 x] show ?thesis by simp
qed

theorem file_reads_stream_witness:
  "snd (file_reads ram_fat 0 0x100 [2, 3] st_sample (\<lambda>a. 0)) = store_bytes (\<lambda>a. 0) 0x100 [20, 30, 40, 50]"
proof -
  obtain st' m' where r: "file_reads ram_fat 0 0x100 [2, 3] st_sample (\<lambda>a. 0) = (st', m')"
    by (cases "file_reads ram_fat 0 0x100 [2, 3] st_sample (\<lambda>a. 0)")
  have "m' = store_bytes (\<lambda>a. 0) 0x100 [20, 30, 40, 50]"
    using file_reads_stream [OF ram_fat_laws _ _ _ r] by (simp add: st_sample_def file_pos_def file_content_def file_good_def)
  then show ?thesis unfolding r by simp
qed

theorem file_lseek_lost_witness:
  "fst (the (file_lseek ram_fat 0 3 SEEK_SET st_sample)) = 3 \<and>
   snd (snd (file_read ram_fat 0 0x100 1 (snd (the (file_lseek ram_fat 0 3 SEEK_SET st_sample))) (\<lambda>a. 0)))
     = store_bytes (\<lambda>a. 0) 0x100 [20]"
proof -
  obtain r st1 where l: "file_lseek ram_fat 0 3 SEEK_SET st_sample = Some (r, st1)"
    by (simp add: file_lseek_def ram_fat_def)
  obtain k st2 m2 where r: "file_read ram_fat 0 0x100 1 st1 (\<lambda>a. 0) = (k, st2, m2)"
    by (cases "file_read ram_fat 0 0x100 1 st1 (\<lambda>a. 0)")
  have "r = 3 \<and> m2 = store_bytes (\<lambda>a. 0) 0x100 [20]"
    using file_lseek_lost [OF ram_fat_laws _ _ _ _ l r] by (simp add: st_sample_def file_pos_def file_content_def file_good_def)
  then show ?thesis unfolding l option.sel snd_conv fst_conv r by simp
qed

section \<open>Reference counts\<close>

definition file_increfs :: "nat \<Rightarrow> nat \<Rightarrow> ('d, 'f) fstate \<Rightarrow> ('d, 'f) fstate option" where
  "file_increfs f k st = ((\<lambda>s. Option.bind s (file_incref f)) ^^ k) (Some st)"

definition set_count :: "nat \<Rightarrow> nat \<Rightarrow> ('d, 'f) fstate \<Rightarrow> ('d, 'f) fstate" where
  "set_count f n st = upd_file f (\<lambda>e. e\<lparr>refcnt := of_nat n\<rparr>) st"

lemma set_count_set_count [simp]: "set_count f n (set_count f k st) = set_count f n st"
  by (cases "f < length (files st)") (simp_all add: set_count_def upd_file_def list_update_beyond)

lemma set_count_same:
  "f < length (files st) \<Longrightarrow> refcnt (files st ! f) = of_nat n \<Longrightarrow> set_count f n st = st"
proof -
  assume "refcnt (files st ! f) = of_nat n"
  then have "(files st ! f)\<lparr>refcnt := of_nat n\<rparr> = files st ! f" by (metis file_t.surjective file_t.update_convs(3))
  then show "set_count f n st = st" by (simp add: set_count_def upd_file_def)
qed

lemma file_incref_count:
  assumes "f < length (files st)" "0 < n" "n < 2 ^ 31"
  shows "file_incref f (set_count f n st) = Some (set_count f (n + 1) st)"
proof -
  have "sint (of_nat n :: u32) = int n" using assms(3) by (simp add: signed_of_nat signed_take_bit_int_eq_self)
  with assms show ?thesis by (simp add: file_incref_def set_count_def upd_file_def add.commute)
qed

lemma file_decref_count:
  assumes "f < length (files st)" "2 < n" "n < 2 ^ 31"
  shows "file_decref E f (set_count f n st) = set_count f (n - 1) st"
proof -
  have "unat (of_nat n :: u32) \<noteq> 2" using assms by simp
  then have "(of_nat n :: u32) \<noteq> 2" using word_unat_eq_iff [of "of_nat n :: u32" 2] by simp
  with assms show ?thesis by (simp add: file_decref_def set_count_def upd_file_def of_nat_diff)
qed

lemma file_increfs_count:
  "f < length (files st) \<Longrightarrow> 2 + k < 2 ^ 31 \<Longrightarrow> file_increfs f k (set_count f 2 st) = Some (set_count f (2 + k) st)"
  unfolding file_increfs_def by (induction k) (simp_all add: file_incref_count)

lemma file_decrefs_count:
  "f < length (files st) \<Longrightarrow> 2 + k < 2 ^ 31 \<Longrightarrow> (file_decref E f ^^ k) (set_count f (2 + k) st) = set_count f 2 st"
  by (induction k) (simp_all add: funpow_swap1 file_decref_count)

text \<open>References balance: taking \<open>k\<close> more references to a newly opened file and dropping \<open>k\<close> gives back
  exactly the state before, without closing the file; dropping one more frees the slot, resets its offset
  and closes the file in FatFs.\<close>

theorem file_refs_balance:
  assumes "f < length (files st)" "refcnt (files st ! f) = 2" "k < 2 ^ 30"
  shows "\<exists>st1. file_increfs f k st = Some st1 \<and> (file_decref E f ^^ k) st1 = st \<and>
    (let (rt, x, d) = f_close E (drive st) (fd (files st ! f)) in
     file_decref E f st = st\<lparr>files := (files st)[f := \<lparr>fd = x, offset = 0, refcnt = 0\<rparr>], drive := d\<rparr>)"
proof -
  have st: "set_count f 2 st = st" using assms(1,2) by (intro set_count_same) simp_all
  have k: "2 + k < 2 ^ 31" using assms(3) by simp
  have "file_increfs f k st = Some (set_count f (2 + k) st)"
    using file_increfs_count [OF assms(1) k] by (simp only: st)
  moreover have "(file_decref E f ^^ k) (set_count f (2 + k) st) = st"
    using file_decrefs_count [OF assms(1) k] by (simp only: st)
  moreover have "let (rt, x, d) = f_close E (drive st) (fd (files st ! f)) in
     file_decref E f st = st\<lparr>files := (files st)[f := \<lparr>fd = x, offset = 0, refcnt = 0\<rparr>], drive := d\<rparr>"
    using assms(1,2) by (cases "files st ! f") (auto simp: file_decref_def put_fd_def upd_file_def split: prod.split)
  ultimately show ?thesis by blast
qed

theorem file_refs_balance_witness:
  "\<exists>st1. file_increfs 0 5 st_sample = Some st1 \<and> (file_decref ram_fat 0 ^^ 5) st1 = st_sample"
  using file_refs_balance [of 0 st_sample 5 ram_fat] by (auto simp: st_sample_def)

end
