(* ===== verification/MTrap.thy ===== *)
theory MTrap
  imports FileTable CLib
begin

text \<open>
  The machine-mode trap handler (hello/mtrap.c): the calls of the supervisor, the device requests
  and responses passed as linked lists of messages, inter-processor interrupts, the timer, and the
  faults of machine mode itself.  The messages lie in the byte memory \<open>ram\<close>, four words each, where
  they may overlap each other and the device names and disk blocks that are written there; an
  address that is no multiple of four is accessed byte by byte, as the emulated access does.  The CSR
  bits the code uses are fields of the state.  A handler returns
  \<open>Inl\<close> where it never returns: after a panic, after the shutdown (both end in the endless loop of
  \<open>die\<close>), or where C leaves the behaviour undefined.
\<close>

section \<open>State\<close>

record sbi_device_message =
  dev :: u32
  cmd :: u32
  data :: u32
  sbi_private_data :: u32

record ('d, 'f) mstate =
  req_head :: u32
  req_size :: u32
  resp_head :: u32
  resp_tail :: u32
  hart_id :: u32
  ipi_pending :: "bool list"
  num_harts :: u32
  mip_ssip :: bool
  mip_stip :: bool
  mie_mtip :: bool
  irq_enable :: u32
  send_ipi :: "u32 list"
  mtimecmp :: u64
  uart_in :: "u8 list"
  uart_out :: "u8 list"
  ram :: mem
  disk :: "('d, 'f) fstate"
  ramdisk :: "nat option"
  sup_base :: u32
  mem_size :: u32
  mstatus :: u32
  mepc :: u32
  mcause :: u32
  gprs :: "u32 list"

datatype stop = Panic | Shutdown | Undefined

type_synonym 'a outcome = "stop + 'a"

text \<open>Error numbers of the C library (newlib).\<close>

definition EFAULT :: u32 where "EFAULT = 14"
definition EINVAL :: u32 where "EINVAL = 22"
definition ENOSYS :: u32 where "ENOSYS = 88"

definition HTIF_CMD_READ :: u32 where "HTIF_CMD_READ = 0"
definition HTIF_CMD_WRITE :: u32 where "HTIF_CMD_WRITE = 1"
definition HTIF_CMD_IDENTIFY :: u32 where "HTIF_CMD_IDENTIFY = 0xFF"

lemmas htif_defs = HTIF_CMD_READ_def HTIF_CMD_WRITE_def HTIF_CMD_IDENTIFY_def

text \<open>The message at an address, and the stores to its last two fields.\<close>

definition msg_at :: "mem \<Rightarrow> u32 \<Rightarrow> sbi_device_message" where
  "msg_at r m = \<lparr>dev = rd32 r m, cmd = rd32 r (m + 4), data = rd32 r (m + 8), sbi_private_data = rd32 r (m + 12)\<rparr>"

definition msgs :: "('d, 'f) mstate \<Rightarrow> u32 \<Rightarrow> sbi_device_message" where
  "msgs st m = msg_at (ram st) m"

definition set_data :: "u32 \<Rightarrow> u32 \<Rightarrow> ('d, 'f) mstate \<Rightarrow> ('d, 'f) mstate" where
  "set_data m v st = st\<lparr>ram := wr32 (ram st) (m + 8) v\<rparr>"

definition set_next :: "u32 \<Rightarrow> u32 \<Rightarrow> ('d, 'f) mstate \<Rightarrow> ('d, 'f) mstate" where
  "set_next m n st = st\<lparr>ram := wr32 (ram st) (m + 12) n\<rparr>"

text \<open>\<open>supervisor_paddr_valid\<close> on a message of 16 bytes, and the privilege the trap came from.\<close>

definition supervisor_paddr_valid :: "('d, 'f) mstate \<Rightarrow> u32 \<Rightarrow> u32 \<Rightarrow> bool" where
  "supervisor_paddr_valid st a len \<longleftrightarrow> a \<ge> sup_base st \<and> a + len < mem_size st \<and> a + len \<ge> a"

definition from_machine :: "('d, 'f) mstate \<Rightarrow> bool" where
  "from_machine st \<longleftrightarrow> (mstatus st AND 0x30) div 0x10 = 3"

section \<open>The response queue\<close>

text \<open>Appending a message whose link is already 0.\<close>

definition enqueue_response :: "u32 \<Rightarrow> ('d, 'f) mstate \<Rightarrow> ('d, 'f) mstate" where
  "enqueue_response m st =
     (let st = (if resp_tail st \<noteq> 0 then set_next (resp_tail st) m st else st\<lparr>resp_head := m\<rparr>)
      in st\<lparr>resp_tail := m\<rparr>)"

definition mcall_respond :: "u32 \<Rightarrow> u64 \<Rightarrow> ('d, 'f) mstate \<Rightarrow> ('d, 'f) mstate" where
  "mcall_respond m resp st =
     (let st = set_next m 0 st;
          st = enqueue_response m st;
          st = set_data m (ucast resp) st
      in st\<lparr>mip_ssip := True\<rparr>)"

definition mcall_dev_resp :: "('d, 'f) mstate \<Rightarrow> u32 \<times> ('d, 'f) mstate" where
  "mcall_dev_resp st =
     (let m = resp_head st in
      if m \<noteq> 0 then
        (let nxt = sbi_private_data (msgs st m);
             st = st\<lparr>resp_head := nxt\<rparr>
         in if nxt = 0 then
              (m, st\<lparr>resp_tail := 0, mip_ssip := ipi_pending st ! unat (hart_id st)\<rparr>)
            else (m, st))
      else (0, st))"

section \<open>The UART interrupt\<close>

text \<open>The search through the request queue, \<open>n\<close> messages from \<open>m\<close> on.\<close>

fun io_irq_scan :: "nat \<Rightarrow> u32 \<Rightarrow> u32 \<Rightarrow> ('d, 'f) mstate \<Rightarrow> ('d, 'f) mstate outcome" where
  "io_irq_scan 0 m prev st = Inl Panic"
| "io_irq_scan (Suc n) m prev st =
     (if \<not> supervisor_paddr_valid st m 16 \<and> \<not> from_machine st then Inl Panic
      else
        (let nxt = sbi_private_data (msgs st m) in
         if dev (msgs st m) = 0 \<and> cmd (msgs st m) = HTIF_CMD_READ then
           (case uart_in st of
              [] \<Rightarrow> Inl Undefined
            | ch # rest \<Rightarrow>
                (let st = st\<lparr>uart_in := rest\<rparr>;
                     st = set_data m (0x100 OR ucast ch) st;
                     st = (if prev \<noteq> 0 then set_next prev nxt st else st\<lparr>req_head := nxt\<rparr>);
                     st = st\<lparr>req_size := req_size st - 1\<rparr>;
                     st = set_next m 0 st;
                     st = enqueue_response m st
                 in Inr (st\<lparr>mip_ssip := True\<rparr>)))
         else io_irq_scan n (sbi_private_data (msgs st m)) m st))"

definition io_irq_service :: "('d, 'f) mstate \<Rightarrow> ('d, 'f) mstate outcome" where
  "io_irq_service st =
     (if uart_in st = [] then Inl Panic
      else io_irq_scan (unat (req_size st)) (req_head st) 0 st)"

definition htif_interrupt :: "('d, 'f) mstate \<Rightarrow> u32 outcome" where
  "htif_interrupt st = Inl Panic"

section \<open>Device requests\<close>

definition mcall_hart_id :: "('d, 'f) mstate \<Rightarrow> u32" where
  "mcall_hart_id st = hart_id st"

definition uart_emit :: "u8 \<Rightarrow> ('d, 'f) mstate \<Rightarrow> ('d, 'f) mstate" where
  "uart_emit ch st = st\<lparr>uart_out := uart_out st @ [ch]\<rparr>"

definition mcall_console_putchar :: "u8 \<Rightarrow> ('d, 'f) mstate \<Rightarrow> u32 \<times> ('d, 'f) mstate" where
  "mcall_console_putchar ch st = (0, uart_emit ch st)"

text \<open>\<open>strcpy\<close> of a name and its terminator.\<close>

definition put_string :: "u32 \<Rightarrow> string \<Rightarrow> mem \<Rightarrow> mem" where
  "put_string a s m = store_bytes m a (map ch_byte s @ [0])"

definition handle_identify :: "u64 \<Rightarrow> string \<Rightarrow> ('d, 'f) mstate \<Rightarrow> ('d, 'f) mstate outcome" where
  "handle_identify payload dev_name st =
     (let what = (ucast (payload mod 256) :: u32); addr = (ucast (payload div 256) :: u32) in
      if addr mod 64 \<noteq> 0 then Inl Panic
      else if length dev_name > 64 then Inl Panic
      else Inr (st\<lparr>ram := put_string addr (if what = HTIF_CMD_IDENTIFY then dev_name else '''') (ram st)\<rparr>))"

text \<open>Identify a device and answer the request.\<close>

definition identify_respond :: "u32 \<Rightarrow> string \<Rightarrow> ('d, 'f) mstate \<Rightarrow> ('d, 'f) mstate outcome" where
  "identify_respond m dev_name st =
     (case handle_identify (ucast (data (msgs st m))) dev_name st of
        Inl e \<Rightarrow> Inl e
      | Inr st \<Rightarrow> Inr (mcall_respond m 1 st))"

definition bcd_request :: "u32 \<Rightarrow> ('d, 'f) mstate \<Rightarrow> ('d, 'f) mstate outcome" where
  "bcd_request m st =
     (let x = msgs st m in
      if cmd x = HTIF_CMD_IDENTIFY then identify_respond m ''bcd'' st
      else if cmd x = HTIF_CMD_READ then
        (let st = st\<lparr>irq_enable := 1\<rparr>;
             st = set_next m (req_head st) st
         in Inr (st\<lparr>req_head := m, req_size := req_size st + 1\<rparr>))
      else if cmd x = HTIF_CMD_WRITE then
        Inr (mcall_respond m (0x100 OR ucast (ucast (data x) :: u8)) (uart_emit (ucast (data x)) st))
      else Inl Panic)"

definition disk_name :: "u32 \<Rightarrow> string" where
  "disk_name fsize = ''disk size='' @ fmt_d (sint fsize)"

text \<open>The fields of a \<open>disk_request_t\<close>; the pointer and the sizes are cut to 32 bits by the calls,
  the result is compared in 64.\<close>

definition disk_request :: "('d, 'f) fatfs \<Rightarrow> u32 \<Rightarrow> ('d, 'f) mstate \<Rightarrow> ('d, 'f) mstate outcome" where
  "disk_request E m st =
     (let x = msgs st m in
      if cmd x = HTIF_CMD_IDENTIFY then
        (case f_stat E (drive (disk st)) ''root.bin'' of
           (rt, fsize) \<Rightarrow>
             if rt \<noteq> 0 then identify_respond m '''' st
             else
               (case file_open E ''root.bin'' 2 (disk st) of
                  None \<Rightarrow> if file_get_free (disk st) = None then identify_respond m '''' st else Inl Panic
                | Some (f, d) \<Rightarrow>
                    identify_respond m (disk_name fsize) (st\<lparr>disk := d, ramdisk := Some f\<rparr>)))
      else if cmd x = HTIF_CMD_READ then
        (let req = data x; a = rd64 (ram st) req; off = rd64 (ram st) (req + 8); sz = rd64 (ram st) (req + 16) in
         case ramdisk st of
           None \<Rightarrow> Inl Undefined
         | Some f \<Rightarrow>
             (case file_pread E f (ucast a) (ucast sz) (ucast off) (disk st) (ram st) of
                None \<Rightarrow> Inl Panic
              | Some (r, d, mm) \<Rightarrow>
                  if scast r \<noteq> rd64 mm (req + 16) then Inl Panic
                  else Inr (mcall_respond m (rd64 mm (req + 24)) (st\<lparr>disk := d, ram := mm\<rparr>))))
      else if cmd x = HTIF_CMD_WRITE then
        (let req = data x; a = rd64 (ram st) req; off = rd64 (ram st) (req + 8); sz = rd64 (ram st) (req + 16) in
         case ramdisk st of
           None \<Rightarrow> Inl Undefined
         | Some f \<Rightarrow>
             (case file_pwrite E f (ucast a) (ucast sz) (ucast off) (disk st) (ram st) of
                (r, d) \<Rightarrow>
                  if scast r \<noteq> sz then Inl Panic
                  else Inr (mcall_respond m (rd64 (ram st) (req + 24)) (st\<lparr>disk := d\<rparr>))))
      else Inl Panic)"

definition mcall_dev_req :: "('d, 'f) fatfs \<Rightarrow> u32 \<Rightarrow> ('d, 'f) mstate \<Rightarrow> (u32 \<times> ('d, 'f) mstate) outcome" where
  "mcall_dev_req E m st =
     (if \<not> supervisor_paddr_valid st m 16 \<and> \<not> from_machine st then Inr (- EFAULT, st)
      else if dev (msgs st m) > 0xFF \<or> cmd (msgs st m) > 0xFF \<or> (ucast (data (msgs st m)) :: u64) > 0x0000FFFFFFFFFFFF
      then Inr (- EINVAL, st)
      else
        (case (if dev (msgs st m) = 0 then bcd_request m st
               else if dev (msgs st m) = 1 then disk_request E m st
               else if cmd (msgs st m) = HTIF_CMD_IDENTIFY then identify_respond m '''' st
               else Inl Panic) of
           Inl e \<Rightarrow> Inl e
         | Inr st \<Rightarrow> Inr (0, st)))"

section \<open>Interrupts between harts, timer, shutdown\<close>

definition mcall_send_ipi :: "u32 \<Rightarrow> ('d, 'f) mstate \<Rightarrow> u32 \<times> ('d, 'f) mstate" where
  "mcall_send_ipi recipient st =
     (if recipient \<ge> num_harts st then (- 1, st)
      else
        (let old = ipi_pending st ! unat recipient;
             st = st\<lparr>ipi_pending := (ipi_pending st)[unat recipient := True]\<rparr>
         in (0, if \<not> old then st\<lparr>send_ipi := send_ipi st @ [recipient]\<rparr> else st)))"

definition mcall_clear_ipi :: "('d, 'f) mstate \<Rightarrow> u32 \<times> ('d, 'f) mstate" where
  "mcall_clear_ipi st =
     (let st = (if resp_head st = 0 then st\<lparr>mip_ssip := False\<rparr> else st);
          old = ipi_pending st ! unat (hart_id st)
      in (if old then 1 else 0, st\<lparr>ipi_pending := (ipi_pending st)[unat (hart_id st) := False]\<rparr>))"

definition mcall_shutdown :: "('d, 'f) mstate \<Rightarrow> (u32 \<times> ('d, 'f) mstate) outcome" where
  "mcall_shutdown st = Inl Shutdown"

text \<open>The two halves of the comparison register; the time comes in one argument register.\<close>

definition mcall_set_timer :: "u64 \<Rightarrow> ('d, 'f) mstate \<Rightarrow> u32 \<times> ('d, 'f) mstate" where
  "mcall_set_timer w st =
     (0, st\<lparr>mtimecmp := ucast (ucast w :: u32) OR push_bit 32 (ucast (ucast (drop_bit 32 w) :: u32)),
            mip_stip := False, mie_mtip := True\<rparr>)"

section \<open>The traps\<close>

definition mcall_value :: "('d, 'f) fatfs \<Rightarrow> u32 \<Rightarrow> u32 \<Rightarrow> ('d, 'f) mstate \<Rightarrow> (u32 \<times> ('d, 'f) mstate) outcome" where
  "mcall_value E n arg0 st =
     (if n = 0 then Inr (mcall_hart_id st, st)
      else if n = 1 then Inr (mcall_console_putchar (ucast arg0) st)
      else if n = 2 then mcall_dev_req E arg0 st
      else if n = 3 then Inr (mcall_dev_resp st)
      else if n = 4 then Inr (mcall_send_ipi arg0 st)
      else if n = 5 then Inr (mcall_clear_ipi st)
      else if n = 6 then mcall_shutdown st
      else if n = 7 then Inr (mcall_set_timer (ucast arg0) st)
      else Inr (- ENOSYS, st))"

definition mcall_trap :: "('d, 'f) fatfs \<Rightarrow> ('d, 'f) mstate \<Rightarrow> ('d, 'f) mstate outcome" where
  "mcall_trap E st =
     (case mcall_value E (gprs st ! 17) (gprs st ! 10) st of
        Inl e \<Rightarrow> Inl e
      | Inr (retval, st) \<Rightarrow> Inr (st\<lparr>gprs := (gprs st)[10 := retval], mepc := mepc st + 4\<rparr>))"

text \<open>The table of unprivileged accesses that the linker collects: the first pair is always looked at.\<close>

fun find_range :: "(u32 \<times> u32) list \<Rightarrow> u32 \<Rightarrow> u32 option" where
  "find_range [] pc = None"
| "find_range ((lo, hi) # rs) pc = (if pc \<ge> lo \<and> pc < hi then Some hi else find_range rs pc)"

definition machine_page_fault :: "(u32 \<times> u32) list \<Rightarrow> ('d, 'f) mstate \<Rightarrow> ('d, 'f) mstate outcome" where
  "machine_page_fault ranges st =
     (case find_range ranges (mepc st) of
        Some hi \<Rightarrow> Inr (st\<lparr>gprs := (gprs st)[5 := 0], mepc := hi\<rparr>)
      | None \<Rightarrow> Inl Panic)"

definition trap_from_machine_mode ::
  "('d, 'f) fatfs \<Rightarrow> (u32 \<times> u32) list \<Rightarrow> ('d, 'f) mstate \<Rightarrow> ('d, 'f) mstate outcome" where
  "trap_from_machine_mode E ranges st =
     (if mcause st = 5 \<or> mcause st = 7 then machine_page_fault ranges st
      else if mcause st = 2 then Inl Panic
      else if mcause st = 11 then mcall_trap E st
      else Inl Panic)"

section \<open>The queues as lists\<close>

text \<open>The messages of a null-terminated chain that starts at \<open>h\<close>.\<close>

fun chain :: "(u32 \<Rightarrow> sbi_device_message) \<Rightarrow> u32 \<Rightarrow> u32 list \<Rightarrow> bool" where
  "chain M h [] \<longleftrightarrow> h = 0"
| "chain M h (x # xs) \<longleftrightarrow> h = x \<and> x \<noteq> 0 \<and> chain M (sbi_private_data (M x)) xs"

text \<open>
  The state of the queues: both chains are null-terminated, no two messages on them overlap, the stored
  size and tail are those of the lists, every pending request is a read of device 0, and a software
  interrupt is pending while there are responses.
\<close>

definition msg_apart :: "u32 \<Rightarrow> u32 \<Rightarrow> bool" where
  "msg_apart a b \<longleftrightarrow> apart a 16 b 16"

definition queues_ok :: "('d, 'f) mstate \<Rightarrow> u32 list \<Rightarrow> u32 list \<Rightarrow> bool" where
  "queues_ok st req resp \<longleftrightarrow>
     chain (msgs st) (req_head st) req \<and> unat (req_size st) = length req \<and>
     chain (msgs st) (resp_head st) resp \<and> resp_tail st = (if resp = [] then 0 else last resp) \<and>
     sorted_wrt msg_apart (req @ resp) \<and> (\<forall>m \<in> set req. dev (msgs st m) = 0 \<and> cmd (msgs st m) = HTIF_CMD_READ) \<and>
     (resp \<noteq> [] \<longrightarrow> mip_ssip st)"

lemma msg_apart_sym: "msg_apart a b = msg_apart b a"
  by (simp add: msg_apart_def apart_sym)

lemma msg_apart_irrefl [simp]: "\<not> msg_apart a a"
  by (simp add: msg_apart_def apart_def)

lemma msg_apart_distinct: "sorted_wrt msg_apart xs \<Longrightarrow> distinct xs"
  by (induction xs) auto

lemma sorted_apart:
  "sorted_wrt msg_apart xs \<Longrightarrow> x \<in> set xs \<Longrightarrow> y \<in> set xs \<Longrightarrow> x \<noteq> y \<Longrightarrow> msg_apart x y"
  by (induction xs) (auto simp: msg_apart_sym)

text \<open>A message depends on its 16 bytes only, so a write elsewhere does not change it.\<close>

lemma msg_at_cong: "load_bytes r m 16 = load_bytes r' m 16 \<Longrightarrow> msg_at r m = msg_at r' m"
proof -
  assume "load_bytes r m 16 = load_bytes r' m 16"
  moreover have "load_bytes r m 16 = load_bytes r m 4 @ load_bytes r (m + 4) 4 @ load_bytes r (m + 8) 4 @ load_bytes r (m + 12) 4" for r
    using load_bytes_append [of r m 4 12] load_bytes_append [of r "m + 4" 4 8] load_bytes_append [of r "m + 8" 4 4] by (simp add: ac_simps)
  ultimately show ?thesis by (simp add: msg_at_def rd32_def)
qed

lemma word_in_msg: "apart (m + 8) 4 q 16" "apart (m + 12) 4 q 16" if "msg_apart m q"
proof -
  have "apart q 16 m 16" using that by (simp add: msg_apart_def apart_sym)
  from apart_sub [OF this, of 16 8 4] apart_sub [OF this, of 16 12 4]
  show "apart (m + 8) 4 q 16" "apart (m + 12) 4 q 16" by (simp_all add: apart_sym)
qed

lemma words_apart:
  "apart (m + 8) 4 m 4" "apart (m + 8) 4 (m + 4) 4" "apart (m + 8) 4 (m + 12) 4"
  "apart (m + 12) 4 m 4" "apart (m + 12) 4 (m + 4) 4" "apart (m + 12) 4 (m + 8) 4"
  by (simp_all add: apart_def)

lemma msgs_set_simps [simp]:
  "msgs (set_data m v st) m = (msgs st m)\<lparr>data := v\<rparr>"
  "msgs (set_next m v st) m = (msgs st m)\<lparr>sbi_private_data := v\<rparr>"
  by (simp_all add: msgs_def set_data_def set_next_def msg_at_def rd32_wr32 rd32_wr32_apart [OF words_apart(1)]
      rd32_wr32_apart [OF words_apart(2)] rd32_wr32_apart [OF words_apart(3)] rd32_wr32_apart [OF words_apart(4)]
      rd32_wr32_apart [OF words_apart(5)] rd32_wr32_apart [OF words_apart(6)])

lemma wr32_other: "apart a 4 q 16 \<Longrightarrow> msg_at (wr32 r a v) q = msg_at r q"
  by (rule msg_at_cong) (simp add: wr32_def load_store_apart)

lemma msgs_set_other [simp]:
  "msg_apart m q \<Longrightarrow> msgs (set_data m v st) q = msgs st q"
  "msg_apart m q \<Longrightarrow> msgs (set_next m v st) q = msgs st q"
  by (simp_all add: msgs_def set_data_def set_next_def wr32_other word_in_msg)

lemma set_fields [simp]:
  "req_head (set_data m v st) = req_head st" "req_size (set_data m v st) = req_size st"
  "resp_head (set_data m v st) = resp_head st" "resp_tail (set_data m v st) = resp_tail st"
  "mip_ssip (set_data m v st) = mip_ssip st" "uart_in (set_data m v st) = uart_in st"
  "req_head (set_next m v st) = req_head st" "req_size (set_next m v st) = req_size st"
  "resp_head (set_next m v st) = resp_head st" "resp_tail (set_next m v st) = resp_tail st"
  "mip_ssip (set_next m v st) = mip_ssip st" "uart_in (set_next m v st) = uart_in st"
  by (simp_all add: set_data_def set_next_def)

lemma msgs_fields [simp]:
  "msgs (st\<lparr>req_head := a\<rparr>) = msgs st" "msgs (st\<lparr>req_size := a\<rparr>) = msgs st" "msgs (st\<lparr>resp_head := a\<rparr>) = msgs st"
  "msgs (st\<lparr>resp_tail := a\<rparr>) = msgs st" "msgs (st\<lparr>mip_ssip := b\<rparr>) = msgs st" "msgs (st\<lparr>uart_in := u\<rparr>) = msgs st"
  "msgs (st\<lparr>gprs := g\<rparr>) = msgs st" "msgs (st\<lparr>mepc := a\<rparr>) = msgs st"
  by (simp_all add: msgs_def fun_eq_iff)

lemma chain_cong:
  "(\<And>x. x \<in> set xs \<Longrightarrow> sbi_private_data (M x) = sbi_private_data (M' x)) \<Longrightarrow> chain M h xs = chain M' h xs"
  by (induction xs arbitrary: h) auto

lemma chain_unique: "chain M h xs \<Longrightarrow> chain M h ys \<Longrightarrow> xs = ys"
proof (induction xs arbitrary: h ys)
  case Nil
  then show ?case by (cases ys) auto
next
  case (Cons x xs)
  then show ?case by (cases ys) auto
qed

lemma chain_nonzero: "chain M h xs \<Longrightarrow> 0 \<notin> set xs"
  by (induction xs arbitrary: h) auto

lemma chain_empty: "chain M 0 xs \<Longrightarrow> xs = []"
  by (cases xs) auto

lemma chain_snoc:
  assumes "chain M h xs" "xs \<noteq> []" "m \<noteq> 0" "sbi_private_data (M' m) = 0" "sbi_private_data (M' (last xs)) = m"
    "distinct xs" "\<And>x. x \<in> set xs \<Longrightarrow> x \<noteq> last xs \<Longrightarrow> sbi_private_data (M' x) = sbi_private_data (M x)"
  shows "chain M' h (xs @ [m])"
  using assms
proof (induction xs arbitrary: h)
  case (Cons x xs)
  show ?case
  proof (cases "xs = []")
    case True
    with Cons.prems show ?thesis by auto
  next
    case False
    then have "x \<noteq> last xs" using Cons.prems(6) by auto
    with Cons False show ?thesis by auto
  qed
qed simp

lemma queues_unique:
  "queues_ok st req resp \<Longrightarrow> queues_ok st req' resp' \<Longrightarrow> req' = req \<and> resp' = resp"
  unfolding queues_ok_def using chain_unique by blast

lemma queues_nonzero: "queues_ok st req resp \<Longrightarrow> 0 \<notin> set (req @ resp)"
  using chain_nonzero by (auto simp: queues_ok_def)

lemma nonzero_length:
  assumes "distinct (xs :: u32 list)" "0 \<notin> set xs"
  shows "length xs < 2 ^ 32"
proof -
  have "length (0 # xs) = card (set (0 # xs))" using assms by (intro distinct_card [symmetric]) simp
  also have "\<dots> \<le> card (UNIV :: u32 set)" by (rule card_mono) simp_all
  also have "\<dots> = 2 ^ 32" by (simp add: card_word)
  finally show ?thesis by simp
qed

text \<open>A message that overlaps none on the queues, and memory contents that keep those on the queues.\<close>

definition unqueued :: "u32 \<Rightarrow> ('d, 'f) mstate \<Rightarrow> bool" where
  "unqueued m st \<longleftrightarrow> m \<noteq> 0 \<and> (\<forall>req resp. queues_ok st req resp \<longrightarrow> (\<forall>q \<in> set (req @ resp). msg_apart m q))"

definition untouched :: "('d, 'f) mstate \<Rightarrow> mem \<Rightarrow> bool" where
  "untouched st r \<longleftrightarrow> (\<forall>req resp. queues_ok st req resp \<longrightarrow>
     (\<forall>q \<in> set (req @ resp). load_bytes r q 16 = load_bytes (ram st) q 16))"

lemma unqueued_iff:
  "queues_ok st req resp \<Longrightarrow> unqueued m st \<longleftrightarrow> m \<noteq> 0 \<and> (\<forall>q \<in> set (req @ resp). msg_apart m q)"
  unfolding unqueued_def using queues_unique by blast

text \<open>The state of the queues depends on the heads and the queued messages only.\<close>

lemma queues_ok_cong:
  assumes "queues_ok st req resp" "req_head st' = req_head st" "req_size st' = req_size st" "resp_head st' = resp_head st"
    "resp_tail st' = resp_tail st" "mip_ssip st \<longrightarrow> mip_ssip st'"
    "\<And>q. q \<in> set (req @ resp) \<Longrightarrow> sbi_private_data (msgs st' q) = sbi_private_data (msgs st q)"
    "\<And>q. q \<in> set req \<Longrightarrow> dev (msgs st' q) = dev (msgs st q) \<and> cmd (msgs st' q) = cmd (msgs st q)"
  shows "queues_ok st' req resp"
proof -
  have "chain (msgs st') h req = chain (msgs st) h req" "chain (msgs st') h resp = chain (msgs st) h resp" for h
    using assms(7) by (intro chain_cong; simp)+
  with assms show ?thesis by (auto simp: queues_ok_def)
qed

lemma queues_ok_set_next:
  "queues_ok st req resp \<Longrightarrow> \<forall>q \<in> set (req @ resp). msg_apart m q \<Longrightarrow> queues_ok (set_next m v st) req resp"
  by (rule queues_ok_cong) auto

lemma queues_ok_set_data:
  assumes "queues_ok st req resp" "m \<in> set (req @ resp) \<or> (\<forall>q \<in> set (req @ resp). msg_apart m q)"
  shows "queues_ok (set_data m v st) req resp"
proof -
  have "msgs (set_data m v st) q = msgs st q \<or> msgs (set_data m v st) q = (msgs st q)\<lparr>data := v\<rparr>"
    if "q \<in> set (req @ resp)" for q
  proof (cases "q = m")
    case False
    then have "msg_apart m q"
      using assms that sorted_apart [of "req @ resp" m q] by (auto simp: queues_ok_def)
    then show ?thesis by simp
  qed simp
  then have "sbi_private_data (msgs (set_data m v st) q) = sbi_private_data (msgs st q) \<and>
      dev (msgs (set_data m v st) q) = dev (msgs st q) \<and> cmd (msgs (set_data m v st) q) = cmd (msgs st q)"
    if "q \<in> set (req @ resp)" for q
    using that by fastforce
  then show ?thesis by (intro queues_ok_cong [OF assms(1)]) auto
qed

lemma queues_ok_enqueue:
  assumes "queues_ok st req resp" "m \<noteq> 0" "\<forall>q \<in> set (req @ resp). msg_apart m q" "sbi_private_data (msgs st m) = 0"
  shows "queues_ok ((enqueue_response m st)\<lparr>mip_ssip := True\<rparr>) req (resp @ [m])"
proof (cases "resp = []")
  case True
  with assms show ?thesis by (auto simp: queues_ok_def enqueue_response_def sorted_wrt_append msg_apart_sym)
next
  case False
  let ?l = "last resp" and ?st = "set_next (last resp) m st"
  have l: "?l \<in> set resp" using False by simp
  then have nz: "?l \<noteq> 0" "resp_tail st = ?l" "msg_apart m ?l" using queues_nonzero [OF assms(1)] assms(1,3) by (auto simp: queues_ok_def)
  have ap: "msg_apart ?l q" if "q \<in> set (req @ resp)" "q \<noteq> ?l" for q
    using sorted_apart [of "req @ resp" ?l q] that l assms(1) by (auto simp: queues_ok_def)
  have d: "distinct (req @ resp)" by (rule msg_apart_distinct) (use assms(1) in \<open>simp add: queues_ok_def\<close>)
  then have r: "q \<noteq> ?l" if "q \<in> set req" for q using that l by auto
  have "chain (msgs ?st) (resp_head st) (resp @ [m])"
    using assms(1,2,4) False d ap nz(3) by (intro chain_snoc) (auto simp: queues_ok_def msg_apart_sym)
  moreover have "chain (msgs ?st) (req_head st) req = chain (msgs st) (req_head st) req"
    using ap r by (intro chain_cong) simp
  ultimately show ?thesis
    using assms nz False ap r by (auto simp: queues_ok_def enqueue_response_def sorted_wrt_append msg_apart_sym)
qed

lemma mcall_respond_eq:
  "mcall_respond m v st = set_data m (ucast v) ((enqueue_response m (set_next m 0 st))\<lparr>mip_ssip := True\<rparr>)"
  by (simp add: mcall_respond_def Let_def set_data_def)

lemma queues_ok_respond:
  assumes "queues_ok st req resp" "m \<noteq> 0" "\<forall>q \<in> set (req @ resp). msg_apart m q"
  shows "queues_ok (mcall_respond m v st) req (resp @ [m])"
proof -
  have "queues_ok (set_next m 0 st) req resp" using assms by (intro queues_ok_set_next) auto
  then have "queues_ok ((enqueue_response m (set_next m 0 st))\<lparr>mip_ssip := True\<rparr>) req (resp @ [m])"
    using assms by (intro queues_ok_enqueue) simp_all
  then show ?thesis unfolding mcall_respond_eq by (rule queues_ok_set_data) simp
qed

lemma mcall_dev_resp_empty:
  "queues_ok st req [] \<Longrightarrow> mcall_dev_resp st = (0, st)"
  by (simp add: queues_ok_def mcall_dev_resp_def)

lemma mcall_dev_resp_first:
  assumes "queues_ok st req (m # resp)"
  shows "fst (mcall_dev_resp st) = m \<and> queues_ok (snd (mcall_dev_resp st)) req resp
    \<and> msgs (snd (mcall_dev_resp st)) = msgs st"
  using assms by (cases resp) (auto simp: queues_ok_def mcall_dev_resp_def Let_def sorted_wrt_append)

section \<open>Responses are delivered in order\<close>

text \<open>
  The contract of a queue: a state represents a list, one operation appends an element that may be appended,
  and the other removes the first.  A run is any sequence of the two.
\<close>

datatype 'm qop = Put 'm | Get

fun run_list :: "'m qop list \<Rightarrow> 'm list \<Rightarrow> 'm option list \<times> 'm list" where
  "run_list [] q = ([], q)"
| "run_list (Put x # ops) q = run_list ops (q @ [x])"
| "run_list (Get # ops) q =
     (case q of
        [] \<Rightarrow> (let (out, r) = run_list ops [] in (None # out, r))
      | x # q \<Rightarrow> (let (out, r) = run_list ops q in (Some x # out, r)))"

fun run_queue :: "('m \<Rightarrow> 's \<Rightarrow> 's) \<Rightarrow> ('s \<Rightarrow> 'm option \<times> 's) \<Rightarrow> 'm qop list \<Rightarrow> 's \<Rightarrow> 'm option list \<times> 's" where
  "run_queue enq deq [] s = ([], s)"
| "run_queue enq deq (Put x # ops) s = run_queue enq deq ops (enq x s)"
| "run_queue enq deq (Get # ops) s =
     (case deq s of (y, s) \<Rightarrow> (let (out, s) = run_queue enq deq ops s in (y # out, s)))"

text \<open>Every element is put at a moment when it may be.\<close>

fun puts_ok :: "('m \<Rightarrow> 'm list \<Rightarrow> bool) \<Rightarrow> 'm qop list \<Rightarrow> 'm list \<Rightarrow> bool" where
  "puts_ok ok [] q \<longleftrightarrow> True"
| "puts_ok ok (Put x # ops) q \<longleftrightarrow> ok x q \<and> puts_ok ok ops (q @ [x])"
| "puts_ok ok (Get # ops) q \<longleftrightarrow> puts_ok ok ops (tl q)"

locale message_fifo =
  fixes rep :: "'s \<Rightarrow> 'm list \<Rightarrow> bool"
    and ok :: "'m \<Rightarrow> 'm list \<Rightarrow> bool"
    and enq :: "'m \<Rightarrow> 's \<Rightarrow> 's"
    and deq :: "'s \<Rightarrow> 'm option \<times> 's"
  assumes rep_enq: "rep s q \<Longrightarrow> ok x q \<Longrightarrow> rep (enq x s) (q @ [x])"
    and deq_Nil: "rep s [] \<Longrightarrow> deq s = (None, s)"
    and deq_Cons: "rep s (x # q) \<Longrightarrow> fst (deq s) = Some x \<and> rep (snd (deq s)) q"
begin

lemma run_refines:
  "rep s q \<Longrightarrow> puts_ok ok ops q \<Longrightarrow>
   fst (run_queue enq deq ops s) = fst (run_list ops q) \<and> rep (snd (run_queue enq deq ops s)) (snd (run_list ops q))"
proof (induction ops q arbitrary: s rule: run_list.induct)
  case (2 x ops q)
  then show ?case using rep_enq by simp
next
  case (3 ops q)
  show ?case
  proof (cases q)
    case Nil
    with 3 deq_Nil show ?thesis by (simp add: split_def Let_def)
  next
    case (Cons x r)
    with 3 deq_Cons [of s x r] show ?thesis by (simp add: split_def Let_def)
  qed
qed simp

end

lemma ucast_u32_u64 [simp]: "ucast (ucast (x :: u32) :: u64) = x"
  by (rule bit_eqI) (auto simp: bit_simps)

text \<open>The response queue as a queue of messages with the data put into them.\<close>

definition respond :: "u32 \<times> u32 \<Rightarrow> ('d, 'f) mstate \<Rightarrow> ('d, 'f) mstate" where
  "respond x st = mcall_respond (fst x) (ucast (snd x)) st"

definition receive :: "('d, 'f) mstate \<Rightarrow> (u32 \<times> u32) option \<times> ('d, 'f) mstate" where
  "receive st = (case mcall_dev_resp st of (m, st') \<Rightarrow> (if m = 0 then None else Some (m, data (msgs st' m)), st'))"

definition responses :: "u32 list \<Rightarrow> ('d, 'f) mstate \<Rightarrow> (u32 \<times> u32) list \<Rightarrow> bool" where
  "responses req st q \<longleftrightarrow> queues_ok st req (map fst q) \<and> (\<forall>x \<in> set q. data (msgs st (fst x)) = snd x)"

text \<open>A message may be put when it overlaps none that is on a queue.\<close>

definition may_respond :: "u32 list \<Rightarrow> u32 \<times> u32 \<Rightarrow> (u32 \<times> u32) list \<Rightarrow> bool" where
  "may_respond req x q \<longleftrightarrow> fst x \<noteq> 0 \<and> (\<forall>y \<in> set (req @ map fst q). msg_apart (fst x) y)"

lemma mcall_respond_data: "data (msgs (mcall_respond m v st) m) = ucast v"
  by (simp add: mcall_respond_eq)

lemma mcall_respond_other:
  assumes "queues_ok st req resp" "\<forall>q \<in> set (req @ resp). msg_apart m q" "q \<in> set resp"
  shows "data (msgs (mcall_respond m v st) q) = data (msgs st q)"
proof -
  have mq: "msg_apart m q" using assms(2,3) by simp
  have "data (msgs (set_next x n st) q) = data (msgs st q)" if "x \<in> set resp" for x n and st :: "('a, 'b) mstate"
  proof (cases "x = q")
    case False
    with that assms(1,3) have "msg_apart x q" using sorted_apart [of "req @ resp" x q] by (auto simp: queues_ok_def)
    then show ?thesis by simp
  qed simp
  moreover have "resp_tail st \<in> set resp" using assms(1,3) by (auto simp: queues_ok_def)
  ultimately show ?thesis
    using mq by (simp add: mcall_respond_eq enqueue_response_def Let_def)
qed

interpretation response_queue: message_fifo "responses req" "may_respond req" respond receive for req
proof unfold_locales
  fix s :: "('d, 'f) mstate" and q :: "(u32 \<times> u32) list" and x :: "u32 \<times> u32"
  show "responses req (respond x s) (q @ [x])" if q: "responses req s q" and f: "may_respond req x q"
  proof -
    from q have r: "queues_ok s req (map fst q)" by (simp add: responses_def)
    from f have n: "fst x \<noteq> 0" "\<forall>y \<in> set (req @ map fst q). msg_apart (fst x) y" by (simp_all add: may_respond_def)
    from queues_ok_respond [OF r n] q mcall_respond_other [OF r n(2)] show ?thesis
      by (auto simp: responses_def respond_def mcall_respond_data)
  qed
  show "receive s = (None, s)" if "responses req s []"
    using that mcall_dev_resp_empty by (fastforce simp: responses_def receive_def)
  show "fst (receive s) = Some x \<and> responses req (snd (receive s)) q" if q: "responses req s (x # q)"
  proof -
    from q have r: "queues_ok s req (fst x # map fst q)" by (simp add: responses_def)
    then have "fst x \<noteq> 0" by (auto simp: queues_ok_def)
    with mcall_dev_resp_first [OF r] q show ?thesis
      by (auto simp: responses_def receive_def split: prod.split)
  qed
qed

text \<open>C8: The response queue is first in, first out: whatever responses are made and asked for, in any order and
  interleaving and from any state of the queues, the answers are those of a list to which every response is
  appended and from which every request takes the first, each message with the data put into it, and none
  while the list is empty; and afterwards the queue in memory holds that list.  The messages must not be null
  and not overlap one that is queued at that moment.\<close>

theorem device_responses_fifo:
  assumes "responses req st q" and "puts_ok (may_respond req) ops q"
  shows "fst (run_queue respond receive ops st) = fst (run_list ops q) \<and>
    responses req (snd (run_queue respond receive ops st)) (snd (run_list ops q))"
  using assms by (rule response_queue.run_refines)

section \<open>The operations on the queues\<close>

text \<open>Most handlers leave the queues alone.\<close>

definition same_queues :: "('d, 'f) mstate \<Rightarrow> ('d, 'f) mstate \<Rightarrow> bool" where
  "same_queues st st' \<longleftrightarrow> untouched st (ram st') \<and> req_head st' = req_head st \<and> req_size st' = req_size st \<and>
     resp_head st' = resp_head st \<and> resp_tail st' = resp_tail st \<and> mip_ssip st' = mip_ssip st"

lemma untouched_self: "untouched st (ram st)"
  by (simp add: untouched_def)

lemma same_queues_ok: "same_queues st st' \<Longrightarrow> queues_ok st req resp \<Longrightarrow> queues_ok st' req resp"
proof -
  assume s: "same_queues st st'" and q: "queues_ok st req resp"
  then have "msgs st' x = msgs st x" if "x \<in> set (req @ resp)" for x
    using that unfolding msgs_def same_queues_def untouched_def by (blast intro: msg_at_cong)
  with s q show ?thesis by (intro queues_ok_cong [OF q]) (simp_all add: same_queues_def)
qed

definition queued :: "('d, 'f) mstate \<Rightarrow> bool" where
  "queued st \<longleftrightarrow> (\<exists>req resp. queues_ok st req resp)"

lemma queued_same: "same_queues st st' \<Longrightarrow> queued st \<Longrightarrow> queued st'"
  unfolding queued_def using same_queues_ok by blast

lemma unqueued_same: "same_queues st st' \<Longrightarrow> queued st \<Longrightarrow> unqueued m st \<Longrightarrow> unqueued m st'"
proof -
  assume s: "same_queues st st'" and "queued st" and u: "unqueued m st"
  then obtain req resp where q: "queues_ok st req resp" by (auto simp: queued_def)
  from u show ?thesis unfolding unqueued_iff [OF q] unqueued_iff [OF same_queues_ok [OF s q]] .
qed

lemma queued_respond: "queued st \<Longrightarrow> unqueued m st \<Longrightarrow> queued (mcall_respond m v st)"
proof -
  assume "queued st" and u: "unqueued m st"
  then obtain req resp where q: "queues_ok st req resp" by (auto simp: queued_def)
  from u have "m \<noteq> 0 \<and> (\<forall>x \<in> set (req @ resp). msg_apart m x)" unfolding unqueued_iff [OF q] .
  then have "m \<noteq> 0" "\<forall>x \<in> set (req @ resp). msg_apart m x" by simp_all
  from queues_ok_respond [OF q this] show ?thesis unfolding queued_def by blast
qed

lemma queued_respond_same: "same_queues st st' \<Longrightarrow> queued st \<Longrightarrow> unqueued m st \<Longrightarrow> queued (mcall_respond m v st')"
  using queued_respond [of st' m v] queued_same unqueued_same by blast

text \<open>
  What the supervisor has to see to when it posts a message: the area for the name of a device, and what a
  read from the disk stores, must not fall on a queued message.
\<close>

definition harmless :: "('d, 'f) fatfs \<Rightarrow> u32 \<Rightarrow> ('d, 'f) mstate \<Rightarrow> bool" where
  "harmless E m st \<longleftrightarrow>
     (let x = msgs st m; req = data x;
          a = rd64 (ram st) req; off = rd64 (ram st) (req + 8); sz = rd64 (ram st) (req + 16) in
      (cmd x = HTIF_CMD_IDENTIFY \<longrightarrow>
        (\<forall>s. length s \<le> 64 \<longrightarrow> untouched st (put_string (ucast ((ucast (data x) :: u64) div 256)) s (ram st)))) \<and>
      (dev x = 1 \<and> cmd x = HTIF_CMD_READ \<longrightarrow>
        (\<forall>f r d mm. ramdisk st = Some f \<and> file_pread E f (ucast a) (ucast sz) (ucast off) (disk st) (ram st) = Some (r, d, mm)
           \<longrightarrow> untouched st mm)))"

lemma queued_identify:
  assumes "identify_respond m dn (st\<lparr>disk := d, ramdisk := f\<rparr>) = Inr st''" "queued st" "unqueued m st" "harmless E m st"
    "cmd (msgs st m) = HTIF_CMD_IDENTIFY"
  shows "queued st''"
proof -
  let ?st = "st\<lparr>disk := d, ramdisk := f\<rparr>"
  have e: "msgs ?st m = msgs st m" by (simp add: msgs_def)
  obtain st1 where h: "handle_identify (ucast (data (msgs st m))) dn ?st = Inr st1" "st'' = mcall_respond m 1 st1"
    using assms(1) by (auto simp: identify_respond_def e split: sum.splits)
  have u: "untouched st (put_string (ucast ((ucast (data (msgs st m)) :: u64) div 256)) s (ram st))" if "length s \<le> 64" for s
    using assms(4,5) that by (simp add: harmless_def Let_def)
  have "same_queues st st1"
    using h(1) u [of dn] u [of "[]"] by (auto simp: handle_identify_def same_queues_def Let_def split: if_splits)
  with h(2) assms(2,3) show ?thesis by (simp add: queued_respond_same)
qed

lemma queued_read:
  assumes "queued st" "unqueued m st" "dev (msgs st m) = 0" "cmd (msgs st m) = HTIF_CMD_READ"
  shows "queued ((set_next m (req_head st) st)\<lparr>req_head := m, req_size := req_size st + 1\<rparr>)"
proof -
  obtain req resp where q: "queues_ok st req resp" using assms(1) by (auto simp: queued_def)
  then have m: "m \<noteq> 0" "\<forall>x \<in> set (req @ resp). msg_apart m x" using assms(2) unqueued_iff by blast+
  have s: "sorted_wrt msg_apart (m # req @ resp)" using q m(2) by (simp add: queues_ok_def)
  then have "distinct (m # req)" using msg_apart_distinct [OF s] by simp
  moreover have "0 \<notin> set (m # req)" using queues_nonzero [OF q] m(1) by auto
  ultimately have "length req + 1 < 2 ^ 32" using nonzero_length [of "m # req"] by simp
  with q have n: "unat (req_size st + 1) = length req + 1" by (simp add: queues_ok_def unat_plus_if')
  have "queues_ok (set_next m (req_head st) st) req resp" using q m(2) by (rule queues_ok_set_next)
  with s n m assms(3,4) have "queues_ok ((set_next m (req_head st) st)\<lparr>req_head := m, req_size := req_size st + 1\<rparr>) (m # req) resp"
    by (simp add: queues_ok_def)
  then show ?thesis by (auto simp: queued_def)
qed

lemma same_queues_fields:
  "same_queues st st" "same_queues st (st\<lparr>irq_enable := x\<rparr>)" "same_queues st (uart_emit c st)"
  "same_queues st (st\<lparr>disk := d\<rparr>)" "untouched st r \<Longrightarrow> same_queues st (st\<lparr>disk := d, ram := r\<rparr>)"
  by (simp_all add: same_queues_def uart_emit_def untouched_self)

lemma queued_bcd:
  assumes "bcd_request m st = Inr st'" "queued st" "unqueued m st" "harmless E m st" "dev (msgs st m) = 0"
  shows "queued st'"
proof -
  consider "cmd (msgs st m) = HTIF_CMD_IDENTIFY" | "cmd (msgs st m) = HTIF_CMD_READ" | "cmd (msgs st m) = HTIF_CMD_WRITE"
    using assms(1) by (auto simp: bcd_request_def Let_def split: if_splits)
  then show ?thesis
  proof cases
    case 1
    with assms(1) have "identify_respond m ''bcd'' (st\<lparr>disk := disk st, ramdisk := ramdisk st\<rparr>) = Inr st'"
      by (simp add: bcd_request_def Let_def)
    then show ?thesis using assms(2-4) 1 by (rule queued_identify)
  next
    case 2
    let ?s = "st\<lparr>irq_enable := 1\<rparr>"
    have "queued ?s" "unqueued m ?s"
      using assms(2,3) queued_same [OF same_queues_fields(2)] unqueued_same [OF same_queues_fields(2)] by blast+
    moreover have "msgs ?s m = msgs st m" by (simp add: msgs_def)
    ultimately have "queued ((set_next m (req_head ?s) ?s)\<lparr>req_head := m, req_size := req_size ?s + 1\<rparr>)"
      using 2 assms(5) by (intro queued_read) simp_all
    then show ?thesis using 2 assms(1) by (simp add: bcd_request_def Let_def htif_defs set_next_def)
  next
    case 3
    with assms(1) have "st' = mcall_respond m (0x100 OR ucast (ucast (data (msgs st m)) :: u8)) (uart_emit (ucast (data (msgs st m))) st)"
      by (simp add: bcd_request_def Let_def htif_defs)
    then show ?thesis using queued_respond_same [OF same_queues_fields(3) assms(2,3)] by simp
  qed
qed

lemma queued_disk:
  assumes "disk_request E m st = Inr st'" "queued st" "unqueued m st" "harmless E m st" "dev (msgs st m) = 1"
  shows "queued st'"
proof -
  note i = queued_identify [OF _ assms(2-4)]
  have i0: "queued st'" if "identify_respond m dn st = Inr st'" "cmd (msgs st m) = HTIF_CMD_IDENTIFY" for dn
    using i [where dn = dn and d = "disk st" and f = "ramdisk st"] that by simp
  consider "cmd (msgs st m) = HTIF_CMD_IDENTIFY" | "cmd (msgs st m) = HTIF_CMD_READ" | "cmd (msgs st m) = HTIF_CMD_WRITE"
    using assms(1) by (auto simp: disk_request_def Let_def split: if_splits)
  then show ?thesis
  proof cases
    case 1
    then show ?thesis
      using assms(1) i i0 unfolding disk_request_def Let_def
      by (auto split: if_splits option.splits prod.splits)
  next
    case 2
    let ?req = "data (msgs st m)"
    obtain f r d mm where p: "ramdisk st = Some f" "file_pread E f (ucast (rd64 (ram st) ?req)) (ucast (rd64 (ram st) (?req + 16)))
        (ucast (rd64 (ram st) (?req + 8))) (disk st) (ram st) = Some (r, d, mm)"
      "st' = mcall_respond m (rd64 mm (?req + 24)) (st\<lparr>disk := d, ram := mm\<rparr>)"
      using assms(1) 2 by (auto simp: disk_request_def Let_def htif_defs split: option.splits prod.splits if_splits)
    have "untouched st mm" using assms(4,5) 2 p(1,2) by (simp add: harmless_def Let_def)
    then show ?thesis using queued_respond_same [OF same_queues_fields(5) assms(2,3)] p(3) by blast
  next
    case 3
    then show ?thesis
      using assms(1) queued_respond_same [OF same_queues_fields(4) assms(2,3)] unfolding disk_request_def Let_def
      by (auto simp: htif_defs split: if_splits option.splits prod.splits)
  qed
qed

lemma queued_dev_req:
  assumes "mcall_dev_req E m st = Inr (v, st')" "queued st" "unqueued m st" "harmless E m st"
  shows "queued st'"
proof -
  have "queued s" if "identify_respond m dn st = Inr s" "cmd (msgs st m) = HTIF_CMD_IDENTIFY" for dn s
    using queued_identify [where dn = dn and d = "disk st" and f = "ramdisk st", OF _ assms(2-4)] that by simp
  then show ?thesis
    using assms(1) queued_bcd [OF _ assms(2-4)] queued_disk [OF _ assms(2-4)] assms(2)
    unfolding mcall_dev_req_def by (auto split: if_splits sum.splits)
qed

lemma queued_dev_resp: "queued st \<Longrightarrow> queued (snd (mcall_dev_resp st))"
proof -
  assume "queued st"
  then obtain req resp where q: "queues_ok st req resp" by (auto simp: queued_def)
  show ?thesis
  proof (cases resp)
    case Nil
    with q mcall_dev_resp_empty have "mcall_dev_resp st = (0, st)" by blast
    with q show ?thesis by (auto simp: queued_def)
  next
    case (Cons m r)
    with q mcall_dev_resp_first show ?thesis unfolding queued_def by blast
  qed
qed

lemma queued_clear_ipi: "queued st \<Longrightarrow> queued (snd (mcall_clear_ipi st))"
proof -
  assume "queued st"
  then obtain req resp where q: "queues_ok st req resp" by (auto simp: queued_def)
  then have "resp_head st = 0 \<Longrightarrow> resp = []" by (auto simp: queues_ok_def dest: chain_empty)
  moreover have "msgs (st\<lparr>mip_ssip := b, ipi_pending := l\<rparr>) = msgs st" "msgs (st\<lparr>ipi_pending := l\<rparr>) = msgs st" for b l
    by (simp_all add: msgs_def fun_eq_iff)
  ultimately have "queues_ok (snd (mcall_clear_ipi st)) req resp"
    using q by (auto simp: mcall_clear_ipi_def Let_def queues_ok_def)
  then show ?thesis by (auto simp: queued_def)
qed

lemma queued_value:
  assumes "mcall_value E n a st = Inr (v, st')" "queued st" "n = 2 \<Longrightarrow> unqueued a st \<and> harmless E a st"
  shows "queued st'"
proof -
  have s: "same_queues st (uart_emit c st)" "same_queues st (snd (mcall_set_timer w st))"
    "same_queues st (snd (mcall_send_ipi r st))" for c w r
    by (auto simp: same_queues_def uart_emit_def mcall_set_timer_def mcall_send_ipi_def Let_def untouched_self)
  note sq = s [THEN queued_same, OF assms(2)]
  show ?thesis
  proof (cases "n = 2")
    case True
    with assms show ?thesis by (auto simp: mcall_value_def intro: queued_dev_req)
  next
    case False
    with assms(1) sq(1) [of "ucast a"] sq(2) [of "ucast a"] sq(3) [of a] assms(2) queued_dev_resp [OF assms(2)] queued_clear_ipi [OF assms(2)]
    show ?thesis
      unfolding mcall_value_def
      by (simp add: mcall_console_putchar_def mcall_shutdown_def split: if_splits)
  qed
qed

lemma queued_mcall:
  assumes "mcall_trap E st = Inr st'" "queued st" "gprs st ! 17 = 2 \<Longrightarrow> unqueued (gprs st ! 10) st \<and> harmless E (gprs st ! 10) st"
  shows "queued st'"
proof -
  obtain v st1 where v: "mcall_value E (gprs st ! 17) (gprs st ! 10) st = Inr (v, st1)"
    "st' = st1\<lparr>gprs := (gprs st1)[10 := v], mepc := mepc st1 + 4\<rparr>"
    using assms(1) by (auto simp: mcall_trap_def split: sum.splits)
  then have "same_queues st1 st'" by (simp add: same_queues_def untouched_self)
  with queued_same queued_value [OF v(1) assms(2,3)] show ?thesis by blast
qed

section \<open>The UART interrupt\<close>

lemma io_irq_moves:
  assumes "queues_ok st (m # req) resp" "uart_in st = ch # cs"
    and "supervisor_paddr_valid st m 16 \<or> from_machine st"
  shows "\<exists>st'. io_irq_service st = Inr st' \<and> queues_ok st' req (resp @ [m]) \<and>
    data (msgs st' m) = 0x100 OR ucast ch \<and> uart_in st' = cs \<and> mip_ssip st'"
proof -
  have n: "unat (req_size st) = Suc (length req)" and h: "req_head st = m" "m \<noteq> 0"
    and d: "dev (msgs st m) = 0" "cmd (msgs st m) = HTIF_CMD_READ"
    and s: "sorted_wrt msg_apart (m # req @ resp)"
    using assms(1) by (auto simp: queues_ok_def)
  then have ap: "\<forall>q \<in> set (req @ resp). msg_apart m q" by simp
  let ?nxt = "sbi_private_data (msgs st m)"
  define st0 where "st0 = set_data m (0x100 OR ucast ch) (st\<lparr>uart_in := cs\<rparr>)"
  define st1 where "st1 = set_next m 0 (st0\<lparr>req_head := ?nxt, req_size := req_size st - 1\<rparr>)"
  have "unat (req_size st - 1) = length req" using n by (simp add: unat_sub_if')
  moreover have "msgs st1 q = msgs st q" if "q \<in> set (req @ resp)" for q
    using that ap by (simp add: st1_def st0_def)
  moreover have "chain (msgs st1) ?nxt req = chain (msgs st) ?nxt req" "chain (msgs st1) h resp = chain (msgs st) h resp" for h
    using calculation(2) by (intro chain_cong; simp)+
  ultimately have q1: "queues_ok st1 req resp"
    using assms(1) by (auto simp: queues_ok_def st1_def st0_def)
  have p: "sbi_private_data (msgs st1 m) = 0" by (simp add: st1_def)
  have e: "io_irq_service st = Inr ((enqueue_response m st1)\<lparr>mip_ssip := True\<rparr>)"
    using assms(2,3) n h d by (auto simp: io_irq_service_def Let_def st1_def st0_def)
  have c: "data (msgs st1 m) = 0x100 OR ucast ch" "uart_in st1 = cs" by (simp_all add: st1_def st0_def)
  have "data (msgs (enqueue_response m st1) m) = data (msgs st1 m)" "uart_in (enqueue_response m st1) = uart_in st1"
  proof -
    have "msg_apart (resp_tail st1) m" if "resp_tail st1 \<noteq> 0"
      using q1 ap that by (auto simp: queues_ok_def msg_apart_sym split: if_splits)
    then show "data (msgs (enqueue_response m st1) m) = data (msgs st1 m)" "uart_in (enqueue_response m st1) = uart_in st1"
      by (simp_all add: enqueue_response_def Let_def)
  qed
  with e c queues_ok_enqueue [OF q1 h(2) ap p] show ?thesis by simp
qed

lemma io_irq_none: "queues_ok st [] resp \<Longrightarrow> io_irq_service st = Inl Panic"
  by (simp add: io_irq_service_def queues_ok_def)

text \<open>C9: A character from the UART answers the read request posted last: the message leaves the request
  queue, carries the character with the flag 0x100, becomes the last response, and a software interrupt is
  raised.  A character with no request pending is a panic.\<close>

theorem io_irq_answers_request:
  assumes "queues_ok st req resp" "uart_in st = ch # cs"
    and "\<forall>m \<in> set req. supervisor_paddr_valid st m 16 \<or> from_machine st"
  shows "case req of
      [] \<Rightarrow> io_irq_service st = Inl Panic
    | m # rest \<Rightarrow> \<exists>st'. io_irq_service st = Inr st' \<and> queues_ok st' rest (resp @ [m]) \<and>
        data (msgs st' m) = 0x100 OR ucast ch \<and> uart_in st' = cs \<and> mip_ssip st'"
  using assms io_irq_none [of st resp] by (auto intro: io_irq_moves split: list.split)

lemma queued_irq:
  assumes "io_irq_service st = Inr st'" "queued st"
  shows "queued st'"
proof -
  obtain req resp where q: "queues_ok st req resp" using assms(2) by (auto simp: queued_def)
  obtain ch cs where u: "uart_in st = ch # cs" using assms(1) by (cases "uart_in st") (auto simp: io_irq_service_def)
  show ?thesis
  proof (cases req)
    case Nil
    with q io_irq_none [of st resp] assms(1) show ?thesis by simp
  next
    case (Cons m r)
    then have n: "unat (req_size st) = Suc (length r)" "req_head st = m" using q by (auto simp: queues_ok_def)
    have "supervisor_paddr_valid st m 16 \<or> from_machine st"
      using assms(1) n u by (auto simp: io_irq_service_def split: if_splits)
    with io_irq_moves [of st m r resp ch cs] q Cons u assms(1) show ?thesis by (auto simp: queued_def)
  qed
qed

section \<open>Runs of the firmware\<close>

text \<open>
  The steps on the queues: a call of the supervisor; the supervisor writing its registers or the memory;
  a character arriving at the UART; and the interrupt.  The code checks nothing of a posted message but
  that it lies in the memory of the supervisor, so three obligations are the supervisor's: it posts no null
  pointer and no message that overlaps a queued one, it names no area on a queued message for the device to
  write to, and it does not write to a queued message itself.
\<close>

inductive mtrap_step :: "('d, 'f) fatfs \<Rightarrow> ('d, 'f) mstate \<Rightarrow> ('d, 'f) mstate \<Rightarrow> bool" for E where
  step_mcall: "mcall_trap E st = Inr st' \<Longrightarrow>
    (gprs st ! 17 = 2 \<longrightarrow> unqueued (gprs st ! 10) st \<and> harmless E (gprs st ! 10) st) \<Longrightarrow> mtrap_step E st st'"
| step_memory: "untouched st r \<Longrightarrow> mtrap_step E st (st\<lparr>ram := r\<rparr>)"
| step_registers: "mtrap_step E st (st\<lparr>gprs := r\<rparr>)"
| step_uart: "mtrap_step E st (st\<lparr>uart_in := uart_in st @ [c]\<rparr>)"
| step_irq: "io_irq_service st = Inr st' \<Longrightarrow> mtrap_step E st st'"

inductive_cases mtrap_stepE: "mtrap_step E st st'"

lemma queued_step:
  assumes "mtrap_step E st st'" "queued st"
  shows "queued st'"
  using assms(1)
proof (rule mtrap_stepE)
  fix s assume "mcall_trap E st = Inr st'" "gprs st ! 17 = 2 \<longrightarrow> unqueued (gprs st ! 10) st \<and> harmless E (gprs st ! 10) st"
  with assms(2) show ?thesis by (blast intro: queued_mcall)
next
  fix r assume "st' = st\<lparr>ram := r\<rparr>" "untouched st r"
  then have "same_queues st st'" by (simp add: same_queues_def)
  then show ?thesis using assms(2) by (rule queued_same)
next
  fix r assume "st' = st\<lparr>gprs := r\<rparr>"
  then have "same_queues st st'" by (simp add: same_queues_def untouched_self)
  then show ?thesis using assms(2) by (rule queued_same)
next
  fix c assume "st' = st\<lparr>uart_in := uart_in st @ [c]\<rparr>"
  then have "same_queues st st'" by (simp add: same_queues_def untouched_self)
  then show ?thesis using assms(2) by (rule queued_same)
next
  assume "io_irq_service st = Inr st'"
  then show ?thesis using assms(2) by (rule queued_irq)
qed

text \<open>The hart-local storage that the boot code clears.\<close>

definition hls_cleared :: "('d, 'f) mstate \<Rightarrow> bool" where
  "hls_cleared st \<longleftrightarrow> req_head st = 0 \<and> req_size st = 0 \<and> resp_head st = 0 \<and> resp_tail st = 0"


text \<open>
  The first obligation is needed: a read request that is posted again while it is the last one pending is
  accepted and linked to itself, and from then on the queue is no list.
\<close>

lemma double_post_breaks:
  assumes "queues_ok st (m # req) resp" "supervisor_paddr_valid st m 16 \<or> from_machine st"
    and "(ucast (data (msgs st m)) :: u64) \<le> 0x0000FFFFFFFFFFFF"
  shows "\<exists>st'. mcall_dev_req E m st = Inr (0, st') \<and> req_head st' = m \<and> sbi_private_data (msgs st' m) = m \<and> \<not> queued st'"
proof -
  have h: "dev (msgs st m) = 0" "cmd (msgs st m) = HTIF_CMD_READ" "req_head st = m" "m \<noteq> 0"
    using assms(1) by (auto simp: queues_ok_def)
  let ?s = "(set_next m m (st\<lparr>irq_enable := 1\<rparr>))\<lparr>req_head := m, req_size := req_size st + 1\<rparr>"
  have r: "mcall_dev_req E m st = Inr (0, ?s)"
    using assms(2,3) h by (auto simp: mcall_dev_req_def bcd_request_def Let_def htif_defs set_next_def not_less)
  have loop: "\<not> chain (msgs ?s) m xs" for xs
  proof
    assume c: "chain (msgs ?s) m xs"
    moreover have "xs \<noteq> []" using c h(4) by auto
    then obtain ys where ys: "xs = m # ys" using c by (cases xs) auto
    ultimately have "chain (msgs ?s) m ys" by simp
    with c have "xs = ys" by (rule chain_unique)
    with ys show False by simp
  qed
  have "\<not> queued ?s"
  proof
    assume "queued ?s"
    then obtain a b where "queues_ok ?s a b" by (auto simp: queued_def)
    then have "chain (msgs ?s) (req_head ?s) a" by (simp only: queues_ok_def)
    then show False using loop by simp
  qed
  with r show ?thesis by (intro exI [of _ ?s]) simp
qed

section \<open>Calls\<close>

text \<open>No handler but the trap itself touches the saved registers and the program counter.\<close>

definition same_regs :: "('d, 'f) mstate \<Rightarrow> ('d, 'f) mstate \<Rightarrow> bool" where
  "same_regs st st' \<longleftrightarrow> mepc st' = mepc st \<and> gprs st' = gprs st"

lemma same_regs_respond: "same_regs st st' \<Longrightarrow> same_regs st (mcall_respond m v st')"
  by (auto simp: same_regs_def mcall_respond_def enqueue_response_def set_next_def set_data_def Let_def)

lemma same_regs_identify: "identify_respond m dn st' = Inr st'' \<Longrightarrow> same_regs st st' \<Longrightarrow> same_regs st st''"
proof -
  assume a: "identify_respond m dn st' = Inr st''" "same_regs st st'"
  then obtain st1 where "handle_identify (ucast (data (msgs st' m))) dn st' = Inr st1" "st'' = mcall_respond m 1 st1"
    by (auto simp: identify_respond_def split: sum.splits)
  with a(2) show ?thesis
    by (auto simp: handle_identify_def Let_def same_regs_def split: if_splits intro!: same_regs_respond [unfolded same_regs_def])
qed

lemma same_regs_bcd: "bcd_request m st = Inr st' \<Longrightarrow> same_regs st st'"
proof -
  have s: "same_regs st st" "same_regs st (uart_emit c st)"
    "same_regs st ((set_next m x (st\<lparr>irq_enable := y\<rparr>))\<lparr>req_head := m, req_size := z\<rparr>)" for c x y z
    by (simp_all add: same_regs_def uart_emit_def set_next_def set_data_def)
  show "bcd_request m st = Inr st' \<Longrightarrow> same_regs st st'"
    unfolding bcd_request_def Let_def by (auto split: if_splits intro: same_regs_identify same_regs_respond s)
qed

lemma same_regs_disk: "disk_request E m st = Inr st' \<Longrightarrow> same_regs st st'"
proof -
  have s: "same_regs st st" "same_regs st (st\<lparr>disk := d, ramdisk := f\<rparr>)" "same_regs st (st\<lparr>disk := d, ram := r\<rparr>)"
    "same_regs st (st\<lparr>disk := d\<rparr>)" for d f r by (simp_all add: same_regs_def)
  show "disk_request E m st = Inr st' \<Longrightarrow> same_regs st st'"
    unfolding disk_request_def Let_def
    by (auto split: if_splits option.splits prod.splits intro: same_regs_identify same_regs_respond s)
qed

lemma same_regs_dev_req: "mcall_dev_req E m st = Inr (v, st') \<Longrightarrow> same_regs st st'"
proof -
  have "same_regs st st" by (simp add: same_regs_def)
  then show "mcall_dev_req E m st = Inr (v, st') \<Longrightarrow> same_regs st st'"
    unfolding mcall_dev_req_def
    by (auto split: if_splits sum.splits intro: same_regs_identify same_regs_bcd same_regs_disk)
qed

lemma same_regs_value: "mcall_value E n a st = Inr (v, st') \<Longrightarrow> same_regs st st'"
  unfolding mcall_value_def
  by (auto split: if_splits intro: same_regs_dev_req simp: same_regs_def [of st] mcall_console_putchar_def uart_emit_def
      mcall_dev_resp_def mcall_send_ipi_def mcall_clear_ipi_def mcall_shutdown_def mcall_set_timer_def Let_def
      dest!: same_regs_dev_req [unfolded same_regs_def [of st]])

text \<open>The return from a call: the result in a0 and the program counter behind the instruction.\<close>

definition call_returns :: "u32 \<Rightarrow> ('d, 'f) mstate \<Rightarrow> ('d, 'f) mstate outcome" where
  "call_returns v st = Inr (st\<lparr>gprs := (gprs st)[10 := v], mepc := mepc st + 4\<rparr>)"

lemma mcall_trap_returns:
  "mcall_value E (gprs st ! 17) (gprs st ! 10) st = Inr (v, st1) \<Longrightarrow> mcall_trap E st = call_returns v st1"
  by (simp add: mcall_trap_def call_returns_def)

lemma drop_high: "drop_bit 32 (ucast (a :: u32) :: u64) = 0"
  by (rule bit_eqI) (auto simp: bit_simps dest: bit_imp_le_length)

text \<open>C10: What each call does, by its number.  0: the number of the hart; 1: the character goes to the UART, result 0;
  2: a device request outside the memory of the supervisor gives \<open>EFAULT\<close> unless it comes from machine mode, one with a
  device or command number above 255 gives \<open>EINVAL\<close>, any other that returns gives 0; 3: the first response or
  null, which leaves its queue; 4: the flag of the recipient is set and its interrupt raised if the flag was
  clear, result 0, or -1 without such a hart; 5: the flag of this hart is cleared and its old value returned,
  and the software interrupt is taken back unless responses wait; 6: the shutdown, which does not return; 7: the
  timer is compared with the single 32-bit argument, whatever time the caller meant; any other number gives \<open>ENOSYS\<close>.
  Whichever call returns moves the program counter past the instruction and changes no register but a0.\<close>

theorem mcall_trap_result:
  fixes E :: "('d, 'f) fatfs" and st :: "('d, 'f) mstate"
  defines "n \<equiv> gprs st ! 17" and "a \<equiv> gprs st ! 10"
  shows "(n = 0 \<longrightarrow> mcall_trap E st = call_returns (hart_id st) st) \<and>
    (n = 1 \<longrightarrow> mcall_trap E st = call_returns 0 (st\<lparr>uart_out := uart_out st @ [ucast a]\<rparr>)) \<and>
    (n = 2 \<longrightarrow> (if \<not> supervisor_paddr_valid st a 16 \<and> \<not> from_machine st then mcall_trap E st = call_returns (- EFAULT) st
       else if dev (msgs st a) > 0xFF \<or> cmd (msgs st a) > 0xFF then mcall_trap E st = call_returns (- EINVAL) st
       else (\<forall>st'. mcall_trap E st = Inr st' \<longrightarrow> gprs st' = (gprs st)[10 := 0]))) \<and>
    (n = 3 \<longrightarrow> (\<forall>req resp. queues_ok st req resp \<longrightarrow> (\<exists>st1. queues_ok st1 req (tl resp) \<and> msgs st1 = msgs st \<and>
       mcall_trap E st = call_returns (if resp = [] then 0 else hd resp) st1))) \<and>
    (n = 4 \<longrightarrow> mcall_trap E st =
       (if a \<ge> num_harts st then call_returns (- 1) st
        else call_returns 0 (st\<lparr>ipi_pending := (ipi_pending st)[unat a := True],
          send_ipi := send_ipi st @ (if ipi_pending st ! unat a then [] else [a])\<rparr>))) \<and>
    (n = 5 \<longrightarrow> mcall_trap E st = call_returns (if ipi_pending st ! unat (hart_id st) then 1 else 0)
       (st\<lparr>mip_ssip := mip_ssip st \<and> resp_head st \<noteq> 0, ipi_pending := (ipi_pending st)[unat (hart_id st) := False]\<rparr>)) \<and>
    (n = 6 \<longrightarrow> mcall_trap E st = Inl Shutdown) \<and>
    (n = 7 \<longrightarrow> mcall_trap E st = call_returns 0 (st\<lparr>mtimecmp := ucast a, mip_stip := False, mie_mtip := True\<rparr>)) \<and>
    (n > 7 \<longrightarrow> mcall_trap E st = call_returns (- ENOSYS) st) \<and>
    (\<forall>st'. mcall_trap E st = Inr st' \<longrightarrow> mepc st' = mepc st + 4 \<and> (\<exists>v. gprs st' = (gprs st)[10 := v]))"
proof -
  note val = mcall_trap_returns [of E st, folded n_def a_def]
  have big: "(ucast (x :: u32) :: u64) \<le> 0x0000FFFFFFFFFFFF" for x
  proof -
    have "unat (ucast x :: u64) = unat x" 
      using unat_u32_less [of x] by (simp add: unsigned_ucast_eq take_bit_eq_mod del: unat_u32_less)
    moreover have "unat x < 4294967296" by simp
    ultimately have "unat (ucast x :: u64) \<le> 281474976710655" by linarith
    then show ?thesis by (simp add: word_le_nat_alt del: unsigned_ucast_eq)
  qed
  have r: "mepc st' = mepc st + 4 \<and> (\<exists>v. gprs st' = (gprs st)[10 := v] \<and> (\<exists>st1. mcall_value E n a st = Inr (v, st1)))"
    if res: "mcall_trap E st = Inr st'" for st'
  proof -
    obtain v st1 where v: "mcall_value E n a st = Inr (v, st1)" "st' = st1\<lparr>gprs := (gprs st1)[10 := v], mepc := mepc st1 + 4\<rparr>"
      using res unfolding mcall_trap_def n_def a_def
      by (cases "mcall_value E (gprs st ! 17) (gprs st ! 10) st") (auto split: prod.splits)
    with same_regs_value [OF v(1)] show ?thesis by (auto simp: same_regs_def)
  qed
  show ?thesis
  proof (intro conjI impI)
    show "mcall_trap E st = call_returns (hart_id st) st" if "n = 0"
      using that by (intro val) (simp add: mcall_value_def mcall_hart_id_def)
    show "mcall_trap E st = call_returns 0 (st\<lparr>uart_out := uart_out st @ [ucast a]\<rparr>)" if "n = 1"
      using that by (intro val) (simp add: mcall_value_def mcall_console_putchar_def uart_emit_def)
    show "if \<not> supervisor_paddr_valid st a 16 \<and> \<not> from_machine st then mcall_trap E st = call_returns (- EFAULT) st
       else if dev (msgs st a) > 0xFF \<or> cmd (msgs st a) > 0xFF then mcall_trap E st = call_returns (- EINVAL) st
       else (\<forall>st'. mcall_trap E st = Inr st' \<longrightarrow> gprs st' = (gprs st)[10 := 0])" if n: "n = 2"
    proof -
      have v: "mcall_value E n a st = mcall_dev_req E a st" using n by (simp add: mcall_value_def)
      consider "\<not> supervisor_paddr_valid st a 16 \<and> \<not> from_machine st"
        | "\<not> (\<not> supervisor_paddr_valid st a 16 \<and> \<not> from_machine st)" "dev (msgs st a) > 0xFF \<or> cmd (msgs st a) > 0xFF"
        | "\<not> (\<not> supervisor_paddr_valid st a 16 \<and> \<not> from_machine st)" "\<not> (dev (msgs st a) > 0xFF \<or> cmd (msgs st a) > 0xFF)"
        by blast
      then show ?thesis
      proof cases
        case 1
        then have "mcall_value E n a st = Inr (- EFAULT, st)" unfolding v mcall_dev_req_def by (simp only: simp_thms if_True)
        from val [OF this] 1 show ?thesis by (simp only: simp_thms if_True)
      next
        case 2
        have "mcall_value E n a st = Inr (- EINVAL, st)" unfolding v mcall_dev_req_def if_not_P [OF 2(1)] using 2(2) by auto
        from val [OF this] show ?thesis unfolding if_not_P [OF 2(1)] if_P [OF 2(2)] .
      next
        case 3
        then have "w = 0" if "mcall_value E n a st = Inr (w, s)" for w s
          using that unfolding v mcall_dev_req_def if_not_P [OF 3(1)]
          using big [of "data (msgs st a)"] by (auto simp: not_less split: if_splits sum.splits)
        with r show ?thesis unfolding if_not_P [OF 3(1)] if_not_P [OF 3(2)] by blast
      qed
    qed
    show "\<forall>req resp. queues_ok st req resp \<longrightarrow> (\<exists>st1. queues_ok st1 req (tl resp) \<and> msgs st1 = msgs st \<and>
       mcall_trap E st = call_returns (if resp = [] then 0 else hd resp) st1)" if n: "n = 3"
    proof (intro allI impI)
      fix req resp assume q: "queues_ok st req resp"
      have v: "mcall_value E n a st = Inr (mcall_dev_resp st)" using n by (simp add: mcall_value_def)
      show "\<exists>st1. queues_ok st1 req (tl resp) \<and> msgs st1 = msgs st \<and>
          mcall_trap E st = call_returns (if resp = [] then 0 else hd resp) st1"
      proof (cases resp)
        case Nil
        then have "mcall_value E n a st = Inr (0, st)" using v q mcall_dev_resp_empty by simp
        from val [OF this] q Nil show ?thesis by auto
      next
        case (Cons m rest)
        then have f: "fst (mcall_dev_resp st) = m" "queues_ok (snd (mcall_dev_resp st)) req rest"
          "msgs (snd (mcall_dev_resp st)) = msgs st" using q mcall_dev_resp_first [of st req m rest] by simp_all
        then have "mcall_value E n a st = Inr (m, snd (mcall_dev_resp st))" using v by (metis prod.collapse)
        from val [OF this] f Cons show ?thesis by auto
      qed
    qed
    show "mcall_trap E st = (if a \<ge> num_harts st then call_returns (- 1) st
        else call_returns 0 (st\<lparr>ipi_pending := (ipi_pending st)[unat a := True],
          send_ipi := send_ipi st @ (if ipi_pending st ! unat a then [] else [a])\<rparr>))" if n: "n = 4"
    proof (cases "a \<ge> num_harts st")
      case True
      then have "mcall_value E n a st = Inr (- 1, st)" using n by (simp add: mcall_value_def mcall_send_ipi_def)
      from val [OF this] True show ?thesis by simp
    next
      case False
      then have "mcall_value E n a st = Inr (0, st\<lparr>ipi_pending := (ipi_pending st)[unat a := True],
          send_ipi := send_ipi st @ (if ipi_pending st ! unat a then [] else [a])\<rparr>)"
        using n by (simp add: mcall_value_def mcall_send_ipi_def Let_def)
      from val [OF this] False show ?thesis by simp
    qed
    show "mcall_trap E st = call_returns (if ipi_pending st ! unat (hart_id st) then 1 else 0)
       (st\<lparr>mip_ssip := mip_ssip st \<and> resp_head st \<noteq> 0, ipi_pending := (ipi_pending st)[unat (hart_id st) := False]\<rparr>)" if "n = 5"
      using that by (intro val) (simp add: mcall_value_def mcall_clear_ipi_def Let_def)
    show "mcall_trap E st = Inl Shutdown" if "n = 6"
      using that by (simp add: mcall_trap_def mcall_value_def mcall_shutdown_def n_def)
    show "mcall_trap E st = call_returns 0 (st\<lparr>mtimecmp := ucast a, mip_stip := False, mie_mtip := True\<rparr>)" if "n = 7"
      using that by (intro val) (simp add: mcall_value_def mcall_set_timer_def drop_high)
    show "mcall_trap E st = call_returns (- ENOSYS) st" if "n > 7"
    proof -
      have "n \<noteq> k" if "k \<le> 7" for k using \<open>n > 7\<close> that by auto
      then have "n \<noteq> 0" "n \<noteq> 1" "n \<noteq> 2" "n \<noteq> 3" "n \<noteq> 4" "n \<noteq> 5" "n \<noteq> 6" "n \<noteq> 7" by simp_all
      then show ?thesis by (intro val) (simp add: mcall_value_def)
    qed
    show "\<forall>st'. mcall_trap E st = Inr st' \<longrightarrow> mepc st' = mepc st + 4 \<and> (\<exists>v. gprs st' = (gprs st)[10 := v])"
      using r by blast
  qed
qed

section \<open>Examples\<close>

definition st0_sample :: "(unit, u8 list \<times> nat) mstate" where
  "st0_sample = \<lparr>req_head = 0, req_size = 0,
     resp_head = 0, resp_tail = 0, hart_id = 0, ipi_pending = [False], num_harts = 1, mip_ssip = False,
     mip_stip = False, mie_mtip = False, irq_enable = 0, send_ipi = [], mtimecmp = 0, uart_in = [65], uart_out = [],
     ram = (\<lambda>a. 0), disk = st_sample, ramdisk = None, sup_base = 0x1000, mem_size = 0x8000000, mstatus = 0, mepc = 0x100,
     mcause = 0, gprs = replicate 32 0\<rparr>"

lemma st0_empty: "queues_ok st0_sample [] []"
  by (simp add: queues_ok_def st0_sample_def)

lemma zero_message [simp]: "msg_at (\<lambda>a. 0) m = \<lparr>dev = 0, cmd = 0, data = 0, sbi_private_data = 0\<rparr>"
proof -
  have "rd32 (\<lambda>a. 0) x = 0" for x
    by (simp add: rd32_def numeral_eq_Suc)
  then show ?thesis by (simp add: msg_at_def)
qed

text \<open>A response after the queue has run empty is delivered as well.\<close>

theorem device_responses_fifo_witness:
  "fst (run_queue respond receive [Put (0x2000, 7), Get, Put (0x2000, 9), Put (0x3000, 8), Get, Get, Get] st0_sample) =
    [Some (0x2000, 7), Some (0x2000, 9), Some (0x3000, 8), None]"
proof -
  have "responses [] st0_sample []" using st0_empty by (simp add: responses_def)
  moreover have "puts_ok (may_respond []) [Put (0x2000, 7), Get, Put (0x2000, 9), Put (0x3000, 8), Get, Get, Get] []"
    by (simp add: may_respond_def msg_apart_def apart_def)
  ultimately have "fst (run_queue respond receive [Put (0x2000, 7), Get, Put (0x2000, 9), Put (0x3000, 8), Get, Get, Get] st0_sample) =
      fst (run_list [Put (0x2000, 7), Get, Put (0x2000, 9), Put (0x3000, 8), Get, Get, Get] [])"
    by (rule device_responses_fifo [THEN conjunct1])
  then show ?thesis by (simp del: run_queue.simps)
qed

definition st1_sample :: "(unit, u8 list \<times> nat) mstate" where
  "st1_sample = st0_sample\<lparr>req_head := 0x2000, req_size := 1\<rparr>"

lemma st1_queue: "queues_ok st1_sample [0x2000] []"
  by (simp add: queues_ok_def st1_sample_def st0_sample_def msgs_def htif_defs)

theorem io_irq_answers_request_witness:
  "\<exists>st'. io_irq_service st1_sample = Inr st' \<and> data (msgs st' 0x2000) = 0x141"
proof -
  have u: "uart_in st1_sample = 65 # []" "supervisor_paddr_valid st1_sample 0x2000 16"
    by (simp_all add: st1_sample_def st0_sample_def supervisor_paddr_valid_def)
  from io_irq_answers_request [OF st1_queue u(1)] u(2) show ?thesis by fastforce
qed


theorem mcall_trap_result_witness:
  "\<exists>st'. mcall_trap ram_fat (st0_sample\<lparr>gprs := (replicate 32 0)[17 := 4]\<rparr>) = Inr st' \<and> send_ipi st' = [0]"
proof -
  let ?s = "st0_sample\<lparr>gprs := (replicate 32 0)[17 := 4]\<rparr>"
  have s: "gprs ?s ! 17 = 4" "gprs ?s ! 10 = 0" "num_harts ?s = 1" "send_ipi ?s = []" "ipi_pending ?s = [False]"
    by (simp_all add: st0_sample_def)
  from mcall_trap_result [of ?s ram_fat, THEN conjunct2, THEN conjunct2, THEN conjunct2, THEN conjunct2, THEN conjunct1, rule_format, OF s(1)]
  have "mcall_trap ram_fat ?s = call_returns 0 (?s\<lparr>ipi_pending := (ipi_pending ?s)[unat (0 :: u32) := True],
      send_ipi := send_ipi ?s @ (if ipi_pending ?s ! unat (0 :: u32) then [] else [0])\<rparr>)"
    unfolding s by simp
  then show ?thesis unfolding s by (simp add: call_returns_def)
qed

end
