(* ===== verification/Bus.thy ===== *)
theory Bus
  imports Memory
begin

text \<open>
  Memory-mapped devices.  A bus is a parameter of the model: what a load from and a store to a device
  register do to the device, whose state is of any type.  A loop that reads a register until its value
  is accepted is \<open>poll\<close>; \<open>answers\<close> says inductively that such a loop ends.  The contracts of a character
  device, for sending (\<open>serial\<close>) and for both directions (\<open>serial_io\<close>), are locales.
\<close>

section \<open>Registers and polling\<close>

record 'd bus =
  bus_read :: "u32 \<Rightarrow> 'd \<Rightarrow> u32 \<times> 'd"
  bus_write :: "u32 \<Rightarrow> u32 \<Rightarrow> 'd \<Rightarrow> 'd"

partial_function (option) poll :: "'d bus \<Rightarrow> u32 \<Rightarrow> (u32 \<Rightarrow> bool) \<Rightarrow> 'd \<Rightarrow> (u32 \<times> 'd) option" where
  "poll B a ok d =
     (case bus_read B a d of (v, d') \<Rightarrow> if ok v then Some (v, d') else poll B a ok d')"

inductive answers :: "'d bus \<Rightarrow> u32 \<Rightarrow> (u32 \<Rightarrow> bool) \<Rightarrow> (u32 \<Rightarrow> 'd \<Rightarrow> bool) \<Rightarrow> 'd \<Rightarrow> bool"
  for B a ok P where
  now: "bus_read B a d = (v, d') \<Longrightarrow> ok v \<Longrightarrow> P v d' \<Longrightarrow> answers B a ok P d"
| later: "bus_read B a d = (v, d') \<Longrightarrow> \<not> ok v \<Longrightarrow> answers B a ok P d' \<Longrightarrow> answers B a ok P d"

inductive_simps answers_step: "answers B a ok P d"

lemma poll_ends: "answers B a ok P d \<Longrightarrow> \<exists>v d'. poll B a ok d = Some (v, d') \<and> ok v \<and> P v d'"
proof (induction rule: answers.induct)
  case (now d v d')
  then show ?case by (simp add: poll.simps)
next
  case (later d v d')
  then show ?case by (subst poll.simps) simp
qed

lemma answers_mono: "answers B a ok P d \<Longrightarrow> (\<And>v d'. P v d' \<Longrightarrow> Q v d') \<Longrightarrow> answers B a ok Q d"
  by (induction rule: answers.induct) (auto intro: answers.intros)

fun send_list :: "(u8 \<Rightarrow> 'd \<Rightarrow> 'd option) \<Rightarrow> u8 list \<Rightarrow> 'd \<Rightarrow> 'd option" where
  "send_list send [] d = Some d"
| "send_list send (b # bs) d = (case send b d of None \<Rightarrow> None | Some d' \<Rightarrow> send_list send bs d')"

lemma send_list_append:
  "send_list send (xs @ ys) d = (case send_list send xs d of None \<Rightarrow> None | Some d' \<Rightarrow> send_list send ys d')"
  by (induction xs arbitrary: d) (auto split: option.splits)

section \<open>The contract of a character device\<close>

locale serial =
  fixes send :: "u8 \<Rightarrow> 'd \<Rightarrow> 'd option"
    and out :: "'d \<Rightarrow> u8 list"
    and ready :: "'d \<Rightarrow> bool"
  assumes send_ready: "ready d \<Longrightarrow> \<exists>d'. send b d = Some d' \<and> out d' = out d @ [b] \<and> ready d'"
begin

text \<open>A text arrives whole and in order, and the device is ready for more.\<close>

lemma send_list_ready: "ready d \<Longrightarrow> \<exists>d'. send_list send bs d = Some d' \<and> out d' = out d @ bs \<and> ready d'"
proof (induction bs arbitrary: d)
  case Nil
  then show ?case by simp
next
  case (Cons b bs)
  from send_ready [OF Cons.prems, of b] obtain d1 where d1: "send b d = Some d1" "out d1 = out d @ [b]" "ready d1" by blast
  from Cons.IH [OF d1(3)] d1 show ?case by auto
qed

end

locale serial_io = serial send out ready for send :: "u8 \<Rightarrow> 'd \<Rightarrow> 'd option" and out ready +
  fixes recv :: "'d \<Rightarrow> (u8 \<times> 'd) option"
    and input :: "'d \<Rightarrow> u8 list"
  assumes send_input: "ready d \<Longrightarrow> send b d = Some d' \<Longrightarrow> input d' = input d"
    and recv_ready: "ready d \<Longrightarrow> input d = c # cs \<Longrightarrow>
      \<exists>d'. recv d = Some (c, d') \<and> input d' = cs \<and> out d' = out d \<and> ready d'"
begin

lemma send_list_input: "ready d \<Longrightarrow> send_list send bs d = Some d' \<Longrightarrow> input d' = input d"
proof (induction bs arbitrary: d)
  case (Cons b bs)
  from send_ready [OF Cons.prems(1), of b] obtain d1 where d1: "send b d = Some d1" "ready d1" by blast
  with Cons send_input [OF Cons.prems(1) d1(1)] show ?case by auto
qed simp

lemma send_list_io:
  "ready d \<Longrightarrow> \<exists>d'. send_list send bs d = Some d' \<and> out d' = out d @ bs \<and> input d' = input d \<and> ready d'"
  using send_list_ready [of d bs] send_list_input [of d bs] by blast

text \<open>Reading one character and echoing it if the switch is on.\<close>

lemma recv_echo:
  assumes "ready d" "input d = c # cs"
  shows "\<exists>d1 d2. recv d = Some (c, d1) \<and> (if echo then send c d1 else Some d1) = Some d2 \<and>
    input d2 = cs \<and> out d2 = out d @ (if echo then [c] else []) \<and> ready d2"
proof -
  from recv_ready [OF assms] obtain d1 where d1: "recv d = Some (c, d1)" "input d1 = cs" "out d1 = out d" "ready d1" by blast
  from send_ready [OF d1(4), of c] obtain d2 where d2: "send c d1 = Some d2" "out d2 = out d1 @ [c]" "ready d2" by blast
  from d1 d2 send_input [OF d1(4) d2(1)] show ?thesis by (cases echo) auto
qed

end

section \<open>The contract of a block device\<close>

text \<open>Read the blocks of a list to consecutive places of 512 bytes.\<close>

fun read_blocks ::
  "(u32 \<Rightarrow> u32 \<Rightarrow> mem \<times> 's \<Rightarrow> (mem \<times> 's) option) \<Rightarrow> u32 list \<Rightarrow> u32 \<Rightarrow> mem \<times> 's \<Rightarrow> (mem \<times> 's) option" where
  "read_blocks rd [] buf s = Some s"
| "read_blocks rd (x # xs) buf s = (case rd x buf s of None \<Rightarrow> None | Some s' \<Rightarrow> read_blocks rd xs (buf + 512) s')"

locale block_device =
  fixes read_block :: "u32 \<Rightarrow> u32 \<Rightarrow> mem \<times> 's \<Rightarrow> (mem \<times> 's) option"
    and block :: "'s \<Rightarrow> u32 \<Rightarrow> u8 list"
    and ready :: "'s \<Rightarrow> bool"
  assumes block_length: "ready s \<Longrightarrow> length (block s x) = 512"
    and read_ready: "ready s \<Longrightarrow>
      \<exists>s'. read_block x buf (m, s) = Some (store_bytes m buf (block s x), s') \<and> ready s' \<and> block s' = block s"
begin

lemma read_blocks_ready:
  "ready s \<Longrightarrow> \<exists>s'. read_blocks read_block xs buf (m, s) = Some (store_bytes m buf (concat (map (block s) xs)), s') \<and>
    ready s' \<and> block s' = block s"
proof (induction xs arbitrary: buf m s)
  case (Cons x xs)
  from read_ready [OF Cons.prems, of x buf m] obtain s1 where
    s1: "read_block x buf (m, s) = Some (store_bytes m buf (block s x), s1)" "ready s1" "block s1 = block s" by blast
  from Cons.IH [OF s1(2), of "buf + 512" "store_bytes m buf (block s x)"] s1 show ?case
    by (auto simp: store_bytes_append block_length [OF Cons.prems])
qed simp

end

end
