(* ===== verification/Uart.thy ===== *)
theory Uart
  imports Bus
begin

text \<open>
  The two serial ports of the programs: the 16550 driver of the kernel (hello/driver/uart.c) and the
  character FIFO of the boot monitor (bootstrap/minion_lib.c).  \<open>None\<close> is a polling loop that does not
  end.  What the drivers rely on of the devices is \<open>uart_laws\<close> and \<open>fifo_laws\<close>; under these both are a
  \<open>serial_io\<close>.
\<close>

section \<open>The 16550 driver (hello/driver/uart.c)\<close>

definition IO_SPACE_BASE :: u32 where "IO_SPACE_BASE = 0x80000000"
definition UART_BASE :: u32 where "UART_BASE = IO_SPACE_BASE + 0x1000"

text \<open>The registers are indices of 32-bit words.\<close>

definition UART_RBR :: u32 where "UART_RBR = 0"
definition UART_THR :: u32 where "UART_THR = 0"
definition UART_IER :: u32 where "UART_IER = 1"
definition UART_LCR :: u32 where "UART_LCR = 3"
definition UART_LSR :: u32 where "UART_LSR = 5"
definition UART_DLL :: u32 where "UART_DLL = 0"
definition UART_DLM :: u32 where "UART_DLM = 1"

definition uart_reg :: "u32 \<Rightarrow> u32" where "uart_reg r = UART_BASE + 4 * r"

definition uart_init :: "'d bus \<Rightarrow> 'd \<Rightarrow> 'd" where
  "uart_init B d =
     (let d = bus_write B (uart_reg UART_LCR) 0x80 d;
          d = bus_write B (uart_reg UART_DLL) (25 * 1000 * 1000 div (16 * 115200) mod 0x100) d;
          d = bus_write B (uart_reg UART_DLM) (drop_bit 8 (25 * 1000 * 1000 div (16 * 115200))) d;
          d = bus_write B (uart_reg UART_LCR) 0x0B d
      in bus_write B (uart_reg UART_IER) 1 d)"

definition uart_send :: "'d bus \<Rightarrow> u8 \<Rightarrow> 'd \<Rightarrow> 'd option" where
  "uart_send B data d =
     (case poll B (uart_reg UART_LSR) (\<lambda>v. v AND 0x40 \<noteq> 0) d of
        None \<Rightarrow> None
      | Some (_, d) \<Rightarrow> Some (bus_write B (uart_reg UART_THR) (ucast data) d))"

fun uart_send_string :: "'d bus \<Rightarrow> u8 list \<Rightarrow> 'd \<Rightarrow> 'd option" where
  "uart_send_string B [] d = Some d"
| "uart_send_string B (c # s) d =
     (if c = 0 then Some d
      else
        (case poll B (uart_reg UART_LSR) (\<lambda>v. v AND 0x40 \<noteq> 0) d of
           None \<Rightarrow> None
         | Some (_, d) \<Rightarrow> uart_send_string B s (bus_write B (uart_reg UART_THR) (ucast c) d)))"

fun uart_send_loop :: "'d bus \<Rightarrow> mem \<Rightarrow> u32 \<Rightarrow> nat \<Rightarrow> 'd \<Rightarrow> 'd option" where
  "uart_send_loop B m a 0 d = Some d"
| "uart_send_loop B m a (Suc n) d =
     (case poll B (uart_reg UART_LSR) (\<lambda>v. v AND 0x40 \<noteq> 0) d of
        None \<Rightarrow> None
      | Some (_, d) \<Rightarrow> uart_send_loop B m (a + 1) n (bus_write B (uart_reg UART_THR) (ucast (m a)) d))"

definition uart_send_buf :: "'d bus \<Rightarrow> mem \<Rightarrow> u32 \<Rightarrow> u32 \<Rightarrow> 'd \<Rightarrow> 'd option" where
  "uart_send_buf B m buf len d = uart_send_loop B m buf (nat (sint len)) d"

definition uart_recv :: "'d bus \<Rightarrow> 'd \<Rightarrow> (u8 \<times> 'd) option" where
  "uart_recv B d =
     (case poll B (uart_reg UART_LSR) (\<lambda>v. v AND 0x01 \<noteq> 0) d of
        None \<Rightarrow> None
      | Some (_, d) \<Rightarrow> (case bus_read B (uart_reg UART_RBR) d of (v, d) \<Rightarrow> Some (ucast v, d)))"

definition uart_read_irq :: "'d bus \<Rightarrow> 'd \<Rightarrow> u8 \<times> 'd" where
  "uart_read_irq B d = (case bus_read B (uart_reg UART_RBR) d of (v, d) \<Rightarrow> (ucast v, d))"

definition uart_check_read_irq :: "'d bus \<Rightarrow> 'd \<Rightarrow> u8 \<times> 'd" where
  "uart_check_read_irq B d = (case bus_read B (uart_reg UART_LSR) d of (v, d) \<Rightarrow> (ucast (v AND 0x01), d))"

definition uart_enable_read_irq :: "'d bus \<Rightarrow> 'd \<Rightarrow> 'd" where
  "uart_enable_read_irq B d = bus_write B (uart_reg UART_IER) 1 d"

definition uart_disable_read_irq :: "'d bus \<Rightarrow> 'd \<Rightarrow> 'd" where
  "uart_disable_read_irq B d = bus_write B (uart_reg UART_IER) 0 d"

section \<open>The character FIFO (bootstrap/minion\_lib.c)\<close>

definition fifo_status :: u32 where "fifo_status = push_bit 20 3"
definition fifo_data :: u32 where "fifo_data = push_bit 20 2"
definition led_reg :: u32 where "led_reg = push_bit 20 7"

definition uart_wait_tx_done :: "'d bus \<Rightarrow> 'd \<Rightarrow> 'd option" where
  "uart_wait_tx_done B d = map_option snd (poll B fifo_status (\<lambda>v. v AND 0x400 = 0) d)"

definition uart_sendchar :: "'d bus \<Rightarrow> u8 \<Rightarrow> 'd \<Rightarrow> 'd option" where
  "uart_sendchar B c d =
     (case uart_wait_tx_done B d of None \<Rightarrow> None | Some d \<Rightarrow> Some (bus_write B fifo_data (ucast c) d))"

definition fifo_send :: "'d bus \<Rightarrow> u8 \<Rightarrow> 'd \<Rightarrow> 'd option" where
  "fifo_send B data d =
     (case poll B fifo_status (\<lambda>v. v AND 0x400 = 0) d of
        None \<Rightarrow> None
      | Some (_, d) \<Rightarrow> Some (bus_write B fifo_data (ucast data) d))"

definition fifo_init :: "'d bus \<Rightarrow> 'd \<Rightarrow> 'd option" where
  "fifo_init B d = send_list (fifo_send B) [0x4A, 0x4B, 0x0D, 0x0A] d"

fun fifo_send_loop :: "'d bus \<Rightarrow> mem \<Rightarrow> u32 \<Rightarrow> nat \<Rightarrow> 'd \<Rightarrow> 'd option" where
  "fifo_send_loop B m a 0 d = Some d"
| "fifo_send_loop B m a (Suc n) d =
     (case fifo_send B (m a) d of None \<Rightarrow> None | Some d \<Rightarrow> fifo_send_loop B m (a + 1) n d)"

definition fifo_send_buf :: "'d bus \<Rightarrow> mem \<Rightarrow> u32 \<Rightarrow> u32 \<Rightarrow> 'd \<Rightarrow> 'd option" where
  "fifo_send_buf B m buf len d = fifo_send_loop B m buf (nat (sint len)) d"

fun fifo_send_string :: "'d bus \<Rightarrow> u8 list \<Rightarrow> 'd \<Rightarrow> 'd option" where
  "fifo_send_string B [] d = Some d"
| "fifo_send_string B (c # s) d =
     (if c = 0 then Some d else case fifo_send B c d of None \<Rightarrow> None | Some d \<Rightarrow> fifo_send_string B s d)"

text \<open>Receiving: wait for the character, take it from the FIFO, read it.\<close>

definition fifo_recv :: "'d bus \<Rightarrow> 'd \<Rightarrow> (u8 \<times> 'd) option" where
  "fifo_recv B d =
     (case poll B fifo_status (\<lambda>v. v AND 0x100 \<noteq> 0) d of
        None \<Rightarrow> None
      | Some (_, d) \<Rightarrow>
          (case bus_read B fifo_status (bus_write B fifo_status 0 d) of
             (ch, d) \<Rightarrow> Some (ucast (ch AND 255), d)))"

definition uart_getchar :: "'d bus \<Rightarrow> 'd \<Rightarrow> (u8 \<times> 'd) option" where
  "uart_getchar B d =
     (case poll B fifo_status (\<lambda>v. v AND 0x100 \<noteq> 0) d of
        None \<Rightarrow> None
      | Some (_, d) \<Rightarrow>
          (case bus_read B fifo_status (bus_write B fifo_status 0 d) of
             (ch, d) \<Rightarrow> Some (ucast (ch AND 255), d)))"

definition cpu_perf_set :: "'d bus \<Rightarrow> u32 \<Rightarrow> u32 \<Rightarrow> 'd \<Rightarrow> 'd option" where
  "cpu_perf_set B counterId value d =
     fifo_send_string B (map ch_byte (''cpu_perf_set: not implemented yet'' @ [lf])) d"

definition mystatus :: "'d bus \<Rightarrow> 'd \<Rightarrow> 'd option" where
  "mystatus B d = fifo_send_string B (map ch_byte ''E'') d"

definition puts_line :: "'d bus \<Rightarrow> u8 list \<Rightarrow> 'd \<Rightarrow> 'd option" where
  "puts_line B str d =
     (case fifo_send_string B str d of
        None \<Rightarrow> None
      | Some d \<Rightarrow> (case fifo_send B 0x0D d of None \<Rightarrow> None | Some d \<Rightarrow> fifo_send B 0x0A d))"

definition o_led :: "'d bus \<Rightarrow> u32 \<Rightarrow> 'd \<Rightarrow> 'd" where
  "o_led B data d = bus_write B led_reg data d"

text \<open>Numbers in hexadecimal, as the characters sent.\<close>

definition hex_char :: "u32 \<Rightarrow> u8" where
  "hex_char n = (if n > 9 then ucast (n + 65 - 10) else ucast (n + 48))"

fun myputhex :: "u32 \<Rightarrow> nat \<Rightarrow> u8 list" where
  "myputhex n 0 = [hex_char (n AND 15)]"
| "myputhex n (Suc w) = (if w \<ge> 1 then myputhex (drop_bit 4 n) w else []) @ [hex_char (n AND 15)]"

section \<open>What the drivers rely on\<close>

text \<open>While \<open>good\<close> holds of the device, the transmitter becomes free, a byte stored goes out, and a byte that
  has come in is announced and can be read.\<close>

definition uart_laws ::
  "'d bus \<Rightarrow> ('d \<Rightarrow> u8 list) \<Rightarrow> ('d \<Rightarrow> u8 list) \<Rightarrow> ('d \<Rightarrow> bool) \<Rightarrow> bool" where
  "uart_laws B out inp good \<longleftrightarrow>
     (\<forall>d. good d \<longrightarrow> answers B (uart_reg UART_LSR) (\<lambda>v. v AND 0x40 \<noteq> 0)
        (\<lambda>_ d'. good d' \<and> out d' = out d \<and> inp d' = inp d) d) \<and>
     (\<forall>d b. good d \<longrightarrow> (let d' = bus_write B (uart_reg UART_THR) (ucast b) d in
        good d' \<and> out d' = out d @ [b] \<and> inp d' = inp d)) \<and>
     (\<forall>d. good d \<longrightarrow> inp d \<noteq> [] \<longrightarrow> answers B (uart_reg UART_LSR) (\<lambda>v. v AND 0x01 \<noteq> 0)
        (\<lambda>_ d'. good d' \<and> out d' = out d \<and> inp d' = inp d) d) \<and>
     (\<forall>d c cs. good d \<longrightarrow> inp d = c # cs \<longrightarrow> (case bus_read B (uart_reg UART_RBR) d of
        (v, d') \<Rightarrow> ucast v = c \<and> good d' \<and> out d' = out d \<and> inp d' = cs))"

definition fifo_laws ::
  "'d bus \<Rightarrow> ('d \<Rightarrow> u8 list) \<Rightarrow> ('d \<Rightarrow> u8 list) \<Rightarrow> ('d \<Rightarrow> bool) \<Rightarrow> bool" where
  "fifo_laws B out inp good \<longleftrightarrow>
     (\<forall>d. good d \<longrightarrow> answers B fifo_status (\<lambda>v. v AND 0x400 = 0)
        (\<lambda>_ d'. good d' \<and> out d' = out d \<and> inp d' = inp d) d) \<and>
     (\<forall>d b. good d \<longrightarrow> (let d' = bus_write B fifo_data (ucast b) d in
        good d' \<and> out d' = out d @ [b] \<and> inp d' = inp d)) \<and>
     (\<forall>d. good d \<longrightarrow> inp d \<noteq> [] \<longrightarrow> answers B fifo_status (\<lambda>v. v AND 0x100 \<noteq> 0)
        (\<lambda>_ d'. good d' \<and> out d' = out d \<and> inp d' = inp d) d) \<and>
     (\<forall>d c cs. good d \<longrightarrow> inp d = c # cs \<longrightarrow> (case bus_read B fifo_status (bus_write B fifo_status 0 d) of
        (v, d') \<Rightarrow> v AND 255 = ucast c \<and> good d' \<and> out d' = out d \<and> inp d' = cs))"


section \<open>The drivers keep the contract\<close>

lemma uart_lawsD:
  assumes "uart_laws B out inp good" "good d"
  shows "answers B (uart_reg UART_LSR) (\<lambda>v. v AND 0x40 \<noteq> 0) (\<lambda>_ d'. good d' \<and> out d' = out d \<and> inp d' = inp d) d"
    "inp d \<noteq> [] \<Longrightarrow> answers B (uart_reg UART_LSR) (\<lambda>v. v AND 0x01 \<noteq> 0)
      (\<lambda>_ d'. good d' \<and> out d' = out d \<and> inp d' = inp d) d"
    "inp d = c # cs \<Longrightarrow> bus_read B (uart_reg UART_RBR) d = (w, d2) \<Longrightarrow>
      ucast w = c \<and> good d2 \<and> out d2 = out d \<and> inp d2 = cs"
  using assms unfolding uart_laws_def by (blast, blast, fastforce)

lemma fifo_lawsD:
  assumes "fifo_laws B out inp good" "good d"
  shows "answers B fifo_status (\<lambda>v. v AND 0x400 = 0) (\<lambda>_ d'. good d' \<and> out d' = out d \<and> inp d' = inp d) d"
    "inp d \<noteq> [] \<Longrightarrow> answers B fifo_status (\<lambda>v. v AND 0x100 \<noteq> 0)
      (\<lambda>_ d'. good d' \<and> out d' = out d \<and> inp d' = inp d) d"
    "inp d = c # cs \<Longrightarrow> bus_read B fifo_status (bus_write B fifo_status 0 d) = (w, d2) \<Longrightarrow>
      w AND 255 = ucast c \<and> good d2 \<and> out d2 = out d \<and> inp d2 = cs"
  using assms unfolding fifo_laws_def by (blast, blast, fastforce)

lemma uart_send_law:
  assumes "uart_laws B out inp good" "good d"
  shows "\<exists>d'. uart_send B b d = Some d' \<and> out d' = out d @ [b] \<and> inp d' = inp d \<and> good d'"
proof -
  from assms obtain v d1 where "poll B (uart_reg UART_LSR) (\<lambda>v. v AND 0x40 \<noteq> 0) d = Some (v, d1)" "good d1"
    "out d1 = out d" "inp d1 = inp d"
    using poll_ends [OF uart_lawsD(1) [OF assms]] by blast
  with assms(1) show ?thesis unfolding uart_laws_def by (auto simp: uart_send_def Let_def)
qed

lemma uart_recv_law:
  assumes "uart_laws B out inp good" "good d" "inp d = c # cs"
  shows "\<exists>d'. uart_recv B d = Some (c, d') \<and> inp d' = cs \<and> out d' = out d \<and> good d'"
proof -
  from assms obtain v d1 where p: "poll B (uart_reg UART_LSR) (\<lambda>v. v AND 0x01 \<noteq> 0) d = Some (v, d1)" "good d1"
    "out d1 = out d" "inp d1 = inp d"
    using poll_ends [OF uart_lawsD(2) [OF assms(1,2)]] by auto
  obtain w d2 where r: "bus_read B (uart_reg UART_RBR) d1 = (w, d2)" by (cases "bus_read B (uart_reg UART_RBR) d1")
  have "ucast w = c \<and> good d2 \<and> out d2 = out d1 \<and> inp d2 = cs"
    using uart_lawsD(3) [OF assms(1) p(2) _ r] assms(3) p by simp
  with p r show ?thesis by (simp add: uart_recv_def)
qed

lemma fifo_send_law:
  assumes "fifo_laws B out inp good" "good d"
  shows "\<exists>d'. fifo_send B b d = Some d' \<and> out d' = out d @ [b] \<and> inp d' = inp d \<and> good d'"
proof -
  from assms obtain v d1 where "poll B fifo_status (\<lambda>v. v AND 0x400 = 0) d = Some (v, d1)" "good d1"
    "out d1 = out d" "inp d1 = inp d"
    using poll_ends [OF fifo_lawsD(1) [OF assms]] by blast
  with assms(1) show ?thesis unfolding fifo_laws_def by (auto simp: fifo_send_def Let_def)
qed

lemma uart_sendchar_fifo: "uart_sendchar B c d = fifo_send B c d"
  by (simp add: uart_sendchar_def uart_wait_tx_done_def fifo_send_def split: option.splits)

lemma ucast_back [simp]: "ucast (ucast (c :: u8) :: u32) = c"
  by (rule bit_word_eqI) (simp add: bit_simps)

lemma byte_low [simp]: "ucast (c :: u8) AND (255 :: u32) = ucast c"
proof -
  have "(255 :: u32) = mask 8" by (simp add: mask_eq_exp_minus_1)
  then show ?thesis by (simp add: bit_eq_iff bit_simps) (auto dest: bit_imp_le_length)
qed

lemma byte_no_flag: "ucast (c :: u8) AND (0x400 :: u32) = 0" "ucast (c :: u8) AND (0x100 :: u32) = 0"
proof -
  have "ucast c AND f = ucast c AND (255 AND (f :: u32))" for f
    by (simp only: and.assoc [symmetric] byte_low)
  from this [of "0x400"] this [of "0x100"]
  show "ucast (c :: u8) AND (0x400 :: u32) = 0" "ucast (c :: u8) AND (0x100 :: u32) = 0" by simp_all
qed

lemma uart_getchar_law:
  assumes "fifo_laws B out inp good" "good d" "inp d = c # cs"
  shows "\<exists>d'. uart_getchar B d = Some (c, d') \<and> inp d' = cs \<and> out d' = out d \<and> good d'"
proof -
  from assms obtain v d1 where p: "poll B fifo_status (\<lambda>v. v AND 0x100 \<noteq> 0) d = Some (v, d1)" "good d1"
    "out d1 = out d" "inp d1 = inp d"
    using poll_ends [OF fifo_lawsD(2) [OF assms(1,2)]] by auto
  obtain w d2 where r: "bus_read B fifo_status (bus_write B fifo_status 0 d1) = (w, d2)"
    by (cases "bus_read B fifo_status (bus_write B fifo_status 0 d1)")
  have "w AND 255 = ucast c \<and> good d2 \<and> out d2 = out d1 \<and> inp d2 = cs"
    using fifo_lawsD(3) [OF assms(1) p(2) _ r] assms(3) p by simp
  with p r show ?thesis by (simp add: uart_getchar_def)
qed

interpretation uart16550: serial_io "uart_send B" out "\<lambda>d. uart_laws B out inp good \<and> good d" "uart_recv B" inp
  for B :: "'d bus" and out inp good
proof unfold_locales
  fix d b d'
  assume a: "uart_laws B out inp good \<and> good d"
  then show "\<exists>d'. uart_send B b d = Some d' \<and> out d' = out d @ [b] \<and> uart_laws B out inp good \<and> good d'"
    using uart_send_law [of B out inp good d b] by blast
  show "uart_send B b d = Some d' \<Longrightarrow> inp d' = inp d" using a uart_send_law [of B out inp good d b] by auto
next
  fix d c cs
  assume "uart_laws B out inp good \<and> good d" "inp d = c # cs"
  then show "\<exists>d'. uart_recv B d = Some (c, d') \<and> inp d' = cs \<and> out d' = out d \<and> uart_laws B out inp good \<and> good d'"
    using uart_recv_law [of B out inp good d c cs] by blast
qed

interpretation fifo: serial_io "fifo_send B" out "\<lambda>d. fifo_laws B out inp good \<and> good d" "uart_getchar B" inp
  for B :: "'d bus" and out inp good
proof unfold_locales
  fix d b d'
  assume a: "fifo_laws B out inp good \<and> good d"
  then show "\<exists>d'. fifo_send B b d = Some d' \<and> out d' = out d @ [b] \<and> fifo_laws B out inp good \<and> good d'"
    using fifo_send_law [of B out inp good d b] by blast
  show "fifo_send B b d = Some d' \<Longrightarrow> inp d' = inp d" using a fifo_send_law [of B out inp good d b] by auto
next
  fix d c cs
  assume "fifo_laws B out inp good \<and> good d" "inp d = c # cs"
  then show "\<exists>d'. uart_getchar B d = Some (c, d') \<and> inp d' = cs \<and> out d' = out d \<and> fifo_laws B out inp good \<and> good d'"
    using uart_getchar_law [of B out inp good d c cs] by blast
qed

lemma uart_send_string_list: "uart_send_string B s d = send_list (uart_send B) (takeWhile (\<lambda>c. c \<noteq> 0) s) d"
  by (induction s arbitrary: d) (auto simp: uart_send_def split: option.splits)

lemma uart_send_loop_list: "uart_send_loop B m a n d = send_list (uart_send B) (load_bytes m a n) d"
  by (induction n arbitrary: a d) (auto simp: uart_send_def split: option.splits)

lemma fifo_send_string_list: "fifo_send_string B s d = send_list (fifo_send B) (takeWhile (\<lambda>c. c \<noteq> 0) s) d"
  by (induction s arbitrary: d) (auto split: option.splits)

lemma fifo_send_loop_list: "fifo_send_loop B m a n d = send_list (fifo_send B) (load_bytes m a n) d"
  by (induction n arbitrary: a d) (auto split: option.splits)

text \<open>Sending a buffer on a working 16550 returns, the bytes of the buffer go out in order, exactly as many as
  the signed length says (none if it is negative), and nothing that has come in is lost.\<close>

theorem uart_send_buf_sends:
  assumes "uart_laws B out inp good" "good d"
  shows "\<exists>d'. uart_send_buf B m buf len d = Some d' \<and> out d' = out d @ load_bytes m buf (nat (sint len)) \<and>
    inp d' = inp d \<and> good d'"
  unfolding uart_send_buf_def uart_send_loop_list
  using uart16550.send_list_io [of B out inp good d "load_bytes m buf (nat (sint len))"] assms by blast

section \<open>A port in memory\<close>

text \<open>A FIFO with a backlog: characters waiting, the character taken, those sent, and how often the transmitter
  still reports busy.  The same state serves as a 16550.\<close>

record port =
  p_in :: "u8 list"
  p_cur :: u8
  p_out :: "u8 list"
  p_busy :: nat

definition port_fifo :: "port bus" where
  "port_fifo = \<lparr>bus_read = (\<lambda>a d. if a = fifo_status then
       ((if p_in d \<noteq> [] then 0x100 else 0) OR (if p_busy d > 0 then 0x400 else 0) OR ucast (p_cur d),
        d\<lparr>p_busy := p_busy d - 1\<rparr>) else (0, d)),
     bus_write = (\<lambda>a v d. if a = fifo_data then d\<lparr>p_out := p_out d @ [ucast v], p_busy := 2\<rparr>
       else if a = fifo_status \<and> p_in d \<noteq> [] then d\<lparr>p_in := tl (p_in d), p_cur := hd (p_in d)\<rparr> else d)\<rparr>"

definition port_uart :: "port bus" where
  "port_uart = \<lparr>bus_read = (\<lambda>a d. if a = uart_reg UART_LSR then
       ((if p_in d \<noteq> [] then 0x01 else 0) OR (if p_busy d > 0 then 0 else 0x40), d\<lparr>p_busy := p_busy d - 1\<rparr>)
       else if a = uart_reg UART_RBR \<and> p_in d \<noteq> [] then (ucast (hd (p_in d)), d\<lparr>p_in := tl (p_in d)\<rparr>) else (0, d)),
     bus_write = (\<lambda>a v d. if a = uart_reg UART_THR then d\<lparr>p_out := p_out d @ [ucast v], p_busy := 2\<rparr> else d)\<rparr>"

lemma port_fifo_tx: "answers port_fifo fifo_status (\<lambda>v. v AND 0x400 = 0) (\<lambda>_ d'. p_out d' = p_out d \<and> p_in d' = p_in d) d"
proof (induction "p_busy d" arbitrary: d)
  case 0
  have "((if p_in d \<noteq> [] then 0x100 else 0) OR (0 :: u32) OR ucast (p_cur d)) AND 0x400 = 0"
    by (simp add: bit.conj_disj_distrib2 byte_no_flag)
  then show ?case using 0 by (intro answers.now [where v = "(if p_in d \<noteq> [] then 0x100 else 0) OR (0 :: u32) OR ucast (p_cur d)"
    and d' = d]) (auto simp: port_fifo_def)
next
  case (Suc n)
  then have n: "p_busy d = Suc n" by simp
  let ?v = "(if p_in d \<noteq> [] then 0x100 else 0) OR (0x400 :: u32) OR ucast (p_cur d)"
  have nv: "\<not> ?v AND 0x400 = 0" by (simp add: bit.conj_disj_distrib2 byte_no_flag)
  have b: "bus_read port_fifo fifo_status d = (?v, d\<lparr>p_busy := n\<rparr>)" by (simp add: port_fifo_def n)
  have an: "answers port_fifo fifo_status (\<lambda>v. v AND 0x400 = 0)
    (\<lambda>_ d'. p_out d' = p_out d \<and> p_in d' = p_in d) (d\<lparr>p_busy := n\<rparr>)"
    using Suc(1) [of "d\<lparr>p_busy := n\<rparr>"] by simp
  show ?case by (rule answers.later [OF b nv an])
qed

lemma port_fifo_rx:
  assumes "p_in d \<noteq> []"
  shows "answers port_fifo fifo_status (\<lambda>v. v AND 0x100 \<noteq> 0) (\<lambda>_ d'. p_out d' = p_out d \<and> p_in d' = p_in d) d"
proof (rule answers.now)
  show "bus_read port_fifo fifo_status d =
    (0x100 OR (if p_busy d > 0 then 0x400 else 0) OR ucast (p_cur d), d\<lparr>p_busy := p_busy d - 1\<rparr>)"
    using assms by (simp add: port_fifo_def)
qed (auto simp: bit.conj_disj_distrib2 byte_no_flag)

lemma port_fifo_laws: "fifo_laws port_fifo p_out p_in (\<lambda>_. True)"
  unfolding fifo_laws_def
proof (intro conjI allI impI)
  show "answers port_fifo fifo_status (\<lambda>v. v AND 0x400 = 0) (\<lambda>_ d'. True \<and> p_out d' = p_out d \<and> p_in d' = p_in d) d" for d
    using port_fifo_tx by simp
  show "answers port_fifo fifo_status (\<lambda>v. v AND 0x100 \<noteq> 0) (\<lambda>_ d'. True \<and> p_out d' = p_out d \<and> p_in d' = p_in d) d"
    if "p_in d \<noteq> []" for d using port_fifo_rx [OF that] by simp
  show "let d' = bus_write port_fifo fifo_data (ucast b) d in True \<and> p_out d' = p_out d @ [b] \<and> p_in d' = p_in d" for d b
    by (simp add: port_fifo_def)
  show "case bus_read port_fifo fifo_status (bus_write port_fifo fifo_status 0 d) of
      (v, d') \<Rightarrow> v AND 255 = ucast c \<and> True \<and> p_out d' = p_out d \<and> p_in d' = cs" if "p_in d = c # cs" for d c cs
    using that by (simp add: port_fifo_def fifo_data_def fifo_status_def bit.conj_disj_distrib2)
qed

lemma port_uart_tx:
  "answers port_uart (uart_reg UART_LSR) (\<lambda>v. v AND 0x40 \<noteq> 0) (\<lambda>_ d'. p_out d' = p_out d \<and> p_in d' = p_in d) d"
proof (induction "p_busy d" arbitrary: d)
  case 0
  then show ?case by (intro answers.now) (auto simp: port_uart_def)
next
  case (Suc n)
  then have n: "p_busy d = Suc n" by simp
  let ?v = "if p_in d \<noteq> [] then 1 else (0 :: u32)"
  have "bus_read port_uart (uart_reg UART_LSR) d = (?v, d\<lparr>p_busy := n\<rparr>)"
    by (simp add: port_uart_def n)
  moreover have "answers port_uart (uart_reg UART_LSR) (\<lambda>v. v AND 0x40 \<noteq> 0)
    (\<lambda>_ d'. p_out d' = p_out d \<and> p_in d' = p_in d) (d\<lparr>p_busy := n\<rparr>)"
    using Suc(1) [of "d\<lparr>p_busy := n\<rparr>"] by simp
  ultimately show ?case using answers.later [of port_uart "uart_reg UART_LSR" d ?v] by auto
qed

lemma port_uart_laws: "uart_laws port_uart p_out p_in (\<lambda>_. True)"
  unfolding uart_laws_def
proof (intro conjI allI impI)
  show "answers port_uart (uart_reg UART_LSR) (\<lambda>v. v AND 0x40 \<noteq> 0)
    (\<lambda>_ d'. True \<and> p_out d' = p_out d \<and> p_in d' = p_in d) d" for d
    using port_uart_tx by simp
  show "answers port_uart (uart_reg UART_LSR) (\<lambda>v. v AND 0x01 \<noteq> 0)
    (\<lambda>_ d'. True \<and> p_out d' = p_out d \<and> p_in d' = p_in d) d" if "p_in d \<noteq> []" for d
    by (rule answers.now [where d' = "d\<lparr>p_busy := p_busy d - 1\<rparr>"
          and v = "0x01 OR (if p_busy d > 0 then 0 else 0x40)"]) (use that in \<open>auto simp: port_uart_def\<close>)
  show "let d' = bus_write port_uart (uart_reg UART_THR) (ucast b) d in True \<and> p_out d' = p_out d @ [b] \<and> p_in d' = p_in d" for d b
    by (simp add: port_uart_def)
  show "case bus_read port_uart (uart_reg UART_RBR) d of
      (v, d') \<Rightarrow> ucast v = c \<and> True \<and> p_out d' = p_out d \<and> p_in d' = cs" if "p_in d = c # cs" for d c cs
    using that by (simp add: port_uart_def uart_reg_def UART_LSR_def UART_RBR_def)
qed

theorem uart_send_buf_sends_witness:
  "\<exists>d'. uart_send_buf port_uart (\<lambda>a. ucast a) 0x40 3 \<lparr>p_in = [9], p_cur = 0, p_out = [1], p_busy = 2\<rparr> = Some d' \<and>
    p_out d' = [1, 0x40, 0x41, 0x42] \<and> p_in d' = [9]"
proof -
  have "load_bytes (\<lambda>a. ucast a) 0x40 3 = [0x40, 0x41, 0x42]" by (simp add: numeral_3_eq_3)
  moreover have "nat (sint (3 :: u32)) = 3" by simp
  ultimately show ?thesis
    using uart_send_buf_sends [OF port_uart_laws TrueI, of "\<lambda>a. ucast a" "0x40" 3 "\<lparr>p_in = [9], p_cur = 0, p_out = [1], p_busy = 2\<rparr>"]
    by auto
qed

end
