(* ===== verification/Console.thy ===== *)
theory Console
  imports Uart
begin

text \<open>
  The kernel's console (hello/console.c): the formatter \<open>vsnprintf\<close>, \<open>printk\<close> over the 16550 driver, the
  register dump and the panic path.  The output buffer is part of the memory, positions are 32-bit words
  as the source's \<open>size_t\<close>.  \<open>None\<close> is a bad format (which panics), an argument that is missing or of
  the wrong kind, the undefined negation of the smallest number, or a loop that does not end.
\<close>

section \<open>The formatter\<close>

text \<open>Arguments: a number of 32 bits (\<open>int\<close> and \<open>long\<close> alike) or the characters of a string.\<close>

datatype carg = CInt u32 | CStr "u8 list"

definition put_at :: "u32 \<Rightarrow> u32 \<Rightarrow> u8 \<Rightarrow> u32 \<Rightarrow> mem \<Rightarrow> u32 \<times> mem" where
  "put_at out n c pos m = (let pos = pos + 1 in (pos, if pos < n then m(out + (pos - 1) := c) else m))"

definition nibble_char :: "u32 \<Rightarrow> u8" where
  "nibble_char d = (if sint d < 10 then ucast (0x30 + d) else ucast (0x61 + d - 10))"

fun put_hex :: "u32 \<Rightarrow> u32 \<Rightarrow> u32 \<Rightarrow> nat \<Rightarrow> u32 \<Rightarrow> mem \<Rightarrow> u32 \<times> mem" where
  "put_hex out n num 0 pos m = (pos, m)"
| "put_hex out n num (Suc i) pos m =
     (case put_at out n (nibble_char (drop_bit (4 * i) num AND 0xF)) pos m of (pos, m) \<Rightarrow> put_hex out n num i pos m)"

fun count_digits :: "nat \<Rightarrow> nat" where
  "count_digits num = (if num div 10 = 0 then 1 else count_digits (num div 10) + 1)"

declare count_digits.simps [simp del]

text \<open>The digits are stored from the last one backwards.\<close>

fun put_digits :: "u32 \<Rightarrow> u32 \<Rightarrow> u32 \<Rightarrow> nat \<Rightarrow> nat \<Rightarrow> mem \<Rightarrow> mem" where
  "put_digits out n pos 0 num m = m"
| "put_digits out n pos (Suc i) num m =
     put_digits out n pos i (num div 10)
       (if pos + of_nat i + 1 < n then m(out + (pos + of_nat i) := of_nat (48 + num mod 10)) else m)"

text \<open>The loop of \<open>%s\<close> moves on in the string only when a character was stored.\<close>

partial_function (option) put_str :: "u32 \<Rightarrow> u32 \<Rightarrow> u8 list \<Rightarrow> u32 \<Rightarrow> mem \<Rightarrow> (u32 \<times> mem) option" where
  "put_str out n s pos m =
     (if s = [] then Some (pos, m)
      else
        (let pos = pos + 1 in
         if pos < n then put_str out n (tl s) pos (m(out + (pos - 1) := hd s)) else put_str out n s pos m))"

definition put_dec :: "u32 \<Rightarrow> u32 \<Rightarrow> u32 \<Rightarrow> u32 \<Rightarrow> mem \<Rightarrow> (u32 \<times> mem) option" where
  "put_dec out n num pos m =
     (if num = 0x80000000 then None
      else
        (let neg = sint num < 0;
             num = (if neg then - num else num);
             (pos, m) = (if neg then put_at out n 0x2D pos m else (pos, m));
             digits = count_digits (unat num)
         in Some (pos + of_nat digits, put_digits out n pos digits (unat num) m)))"

definition console_conv ::
  "u32 \<Rightarrow> u32 \<Rightarrow> char \<Rightarrow> carg list \<Rightarrow> u32 \<Rightarrow> mem \<Rightarrow> (carg list \<times> u32 \<times> mem) option" where
  "console_conv out n c va pos m =
     (if c = CHR ''c'' \<and> \<not> pos + 1 < n then Some (va, pos + 1, m)
      else case va of
        CInt w # va' \<Rightarrow>
          (if c = CHR ''p'' then
             (case put_at out n 0x30 pos m of (pos, m) \<Rightarrow>
              case put_at out n 0x78 pos m of (pos, m) \<Rightarrow> Some (va', put_hex out n w 8 pos m))
           else if c = CHR ''x'' then Some (va', put_hex out n w 8 pos m)
           else if c = CHR ''d'' then map_option (Pair va') (put_dec out n w pos m)
           else if c = CHR ''c'' then Some (va', put_at out n (ucast w) pos m)
           else None)
      | CStr s # va' \<Rightarrow> if c = CHR ''s'' then map_option (Pair va') (put_str out n s pos m) else None
      | [] \<Rightarrow> None)"

fun console_loop ::
  "u32 \<Rightarrow> u32 \<Rightarrow> bool \<Rightarrow> string \<Rightarrow> carg list \<Rightarrow> u32 \<Rightarrow> mem \<Rightarrow> (u32 \<times> mem) option" where
  "console_loop out n fmt [] va pos m = Some (pos, m)"
| "console_loop out n True (c # s) va pos m =
     (if c = CHR ''l'' then console_loop out n True s va pos m
      else
        (case console_conv out n c va pos m of
           None \<Rightarrow> None
         | Some (va, pos, m) \<Rightarrow> console_loop out n False s va pos m))"
| "console_loop out n False (c # s) va pos m =
     (if c = CHR ''%'' then console_loop out n True s va pos m
      else (case put_at out n (ch_byte c) pos m of (pos, m) \<Rightarrow> console_loop out n False s va pos m))"

definition console_vsnprintf ::
  "u32 \<Rightarrow> u32 \<Rightarrow> string \<Rightarrow> carg list \<Rightarrow> mem \<Rightarrow> (u32 \<times> mem) option" where
  "console_vsnprintf out n s vl m =
     (case console_loop out n False s vl 0 m of
        None \<Rightarrow> None
      | Some (pos, m) \<Rightarrow>
          Some (pos, if pos < n then m(out + pos := 0) else if n \<noteq> 0 then m(out + (n - 1) := 0) else m))"

definition console_snprintf ::
  "u32 \<Rightarrow> u32 \<Rightarrow> string \<Rightarrow> carg list \<Rightarrow> mem \<Rightarrow> (u32 \<times> mem) option" where
  "console_snprintf out n s vl m = console_vsnprintf out n s vl m"

section \<open>Printing\<close>

text \<open>The local buffer of 256 bytes lies at the address \<open>out\<close> of the stack.\<close>

definition vprintk :: "'d bus \<Rightarrow> u32 \<Rightarrow> string \<Rightarrow> carg list \<Rightarrow> mem \<times> 'd \<Rightarrow> (mem \<times> 'd) option" where
  "vprintk B out s vl md =
     (case console_vsnprintf out 256 s vl (fst md) of
        None \<Rightarrow> None
      | Some (res, m) \<Rightarrow>
          map_option (Pair m) (uart_send_buf B m out (if res < 256 then res else 256) (snd md)))"

definition printk :: "'d bus \<Rightarrow> u32 \<Rightarrow> string \<Rightarrow> carg list \<Rightarrow> mem \<times> 'd \<Rightarrow> (mem \<times> 'd) option" where
  "printk B out s vl md = vprintk B out s vl md"

text \<open>A panic prints and then stops the machine (\<open>die\<close>, assembly), so what it leaves behind is the output.\<close>

definition do_panic :: "'d bus \<Rightarrow> u32 \<Rightarrow> string \<Rightarrow> carg list \<Rightarrow> mem \<times> 'd \<Rightarrow> (mem \<times> 'd) option" where
  "do_panic B out s vl md = vprintk B out s vl md"

definition kassert_fail :: "'d bus \<Rightarrow> u32 \<Rightarrow> u8 list \<Rightarrow> mem \<times> 'd \<Rightarrow> (mem \<times> 'd) option" where
  "kassert_fail B out s md = do_panic B out (''assertion failed: %s'' @ [lf]) [CStr s] md"

section \<open>The register dump\<close>

definition regnames :: "string list" where
  "regnames = [''z '', ''ra'', ''sp'', ''gp'', ''tp'', ''t0'', ''t1'', ''t2'',
     ''s0'', ''s1'', ''a0'', ''a1'', ''a2'', ''a3'', ''a4'', ''a5'',
     ''a6'', ''a7'', ''s2'', ''s3'', ''s4'', ''s5'', ''s6'', ''s7'',
     ''s8'', ''s9'', ''sA'', ''sB'', ''t3'', ''t4'', ''t5'', ''t6'']"

record trapframe =
  gpr :: "u32 list"
  tf_status :: u32
  tf_epc :: u32
  tf_badvaddr :: u32
  tf_cause :: u32
  tf_insn :: u32

text \<open>The two nested loops visit the registers in order; the last of each row of four ends the line.\<close>

fun dump_regs :: "'d bus \<Rightarrow> u32 \<Rightarrow> u32 list \<Rightarrow> nat list \<Rightarrow> mem \<times> 'd \<Rightarrow> (mem \<times> 'd) option" where
  "dump_regs B out g [] md = Some md"
| "dump_regs B out g (i # is) md =
     (case printk B out ''%s %lx%c''
             [CStr (map ch_byte (regnames ! i)), CInt (g ! i), CInt (if i mod 4 < 3 then 0x20 else 0x0A)] md of
        None \<Rightarrow> None
      | Some md \<Rightarrow> dump_regs B out g is md)"

definition dump_tf :: "'d bus \<Rightarrow> u32 \<Rightarrow> trapframe \<Rightarrow> mem \<times> 'd \<Rightarrow> (trapframe \<times> mem \<times> 'd) option" where
  "dump_tf B out tf md =
     (let tf = tf\<lparr>gpr := (gpr tf)[0 := 0]\<rparr> in
      case dump_regs B out (gpr tf) [0..<32] md of
        None \<Rightarrow> None
      | Some md \<Rightarrow>
          map_option (Pair tf) (printk B out (''pc %lx va %lx insn       %x sr %lx'' @ [lf])
            [CInt (tf_epc tf), CInt (tf_badvaddr tf), CInt (tf_insn tf), CInt (tf_status tf)] md))"


section \<open>The text of a format\<close>

definition hex_text :: "nat \<Rightarrow> u32 \<Rightarrow> u8 list" where
  "hex_text k num = map (\<lambda>i. nibble_char (drop_bit (4 * i) num AND 0xF)) (rev [0..<k])"

fun dec_text :: "nat \<Rightarrow> u8 list" where
  "dec_text num = (if num div 10 = 0 then [] else dec_text (num div 10)) @ [of_nat (48 + num mod 10)]"

declare dec_text.simps [simp del]

definition int_text :: "u32 \<Rightarrow> u8 list" where
  "int_text w = (if sint w < 0 then 0x2D # dec_text (unat (- w)) else dec_text (unat w))"

text \<open>
  The text a format stands for.  A string argument must end within the first \<open>N - 1\<close> characters.  A
  character argument that falls outside of them is counted but not fetched: it stays for the next
  conversion, and the text has a zero in its place, which never reaches the buffer.
\<close>

definition console_conv_text :: "nat \<Rightarrow> nat \<Rightarrow> char \<Rightarrow> carg list \<Rightarrow> (u8 list \<times> carg list) option" where
  "console_conv_text N pos c va =
     (if c = CHR ''c'' \<and> \<not> pos + 1 < N then Some ([0], va)
      else case va of
        CInt w # va' \<Rightarrow>
          (if c = CHR ''p'' then Some ([0x30, 0x78] @ hex_text 8 w, va')
           else if c = CHR ''x'' then Some (hex_text 8 w, va')
           else if c = CHR ''d'' \<and> w \<noteq> 0x80000000 then Some (int_text w, va')
           else if c = CHR ''c'' then Some ([ucast w], va')
           else None)
      | CStr s # va' \<Rightarrow> if c = CHR ''s'' \<and> pos + length s < N then Some (s, va') else None
      | [] \<Rightarrow> None)"

fun console_text :: "nat \<Rightarrow> nat \<Rightarrow> bool \<Rightarrow> string \<Rightarrow> carg list \<Rightarrow> u8 list option" where
  "console_text N pos fmt [] va = Some []"
| "console_text N pos True (c # s) va =
     (if c = CHR ''l'' then console_text N pos True s va
      else
        (case console_conv_text N pos c va of
           None \<Rightarrow> None
         | Some (t, va) \<Rightarrow> map_option (append t) (console_text N (pos + length t) False s va)))"
| "console_text N pos False (c # s) va =
     (if c = CHR ''%'' then console_text N pos True s va
      else map_option (Cons (ch_byte c)) (console_text N (pos + 1) False s va))"

section \<open>The buffer holds the text so far\<close>

definition buffered :: "u32 \<Rightarrow> u32 \<Rightarrow> mem \<Rightarrow> u8 list \<Rightarrow> mem" where
  "buffered out n m t = store_bytes m out (take (unat n - 1) t)"

lemma unat_next: "k < 2 ^ 32 - 1 \<Longrightarrow> unat (of_nat k + 1 :: u32) = k + 1"
proof -
  assume "k < 2 ^ 32 - 1"
  then have "unat (of_nat (k + 1) :: u32) = k + 1" by (intro unat_offset) simp
  then show ?thesis by (simp add: add.commute)
qed

lemma unat_inc: "(p :: u32) + 1 \<noteq> 0 \<Longrightarrow> unat (p + 1) = unat p + 1"
  using unatSuc [of p] by (simp add: add.commute)

lemma put_at_text:
  assumes "length t < 2 ^ 32 - 1"
  shows "put_at out n c (of_nat (length t)) (buffered out n m t) = (of_nat (length (t @ [c])), buffered out n m (t @ [c]))"
proof -
  have l: "(of_nat (length t) + 1 < n) = (length t < unat n - 1)"
    using unat_next [OF assms] by (auto simp: word_less_nat_alt)
  have s: "buffered out n m (t @ [c]) = (if length t < unat n - 1
      then (buffered out n m t)(out + of_nat (length t) := c) else buffered out n m t)"
    by (auto simp: buffered_def store_bytes_append)
  show ?thesis unfolding s put_at_def Let_def l by simp
qed

lemma put_hex_text:
  assumes "length t + k < 2 ^ 32"
  shows "put_hex out n num k (of_nat (length t)) (buffered out n m t) =
    (of_nat (length (t @ hex_text k num)), buffered out n m (t @ hex_text k num))"
  using assms
proof (induction k arbitrary: t)
  case 0
  then show ?case by (simp add: hex_text_def)
next
  case (Suc k)
  have h: "hex_text (Suc k) num = nibble_char (drop_bit (4 * k) num AND 0xF) # hex_text k num" by (simp add: hex_text_def)
  show ?case
    using Suc.prems Suc.IH [of "t @ [nibble_char (drop_bit (4 * k) num AND 0xF)]"]
    by (simp add: put_at_text h)
qed

lemma put_str_text:
  assumes "length t + length s < unat n"
  shows "put_str out n s (of_nat (length t)) (buffered out n m t) = Some (of_nat (length (t @ s)), buffered out n m (t @ s))"
  using assms
proof (induction s arbitrary: t)
  case Nil
  then show ?case by (simp add: put_str.simps)
next
  case (Cons c s)
  have "unat n < 4294967296" by simp
  then have "length t < 4294967295" using Cons.prems by (simp only: list.size)
  then have b: "length t < 2 ^ 32 - 1" by simp
  have lt: "of_nat (length t) + 1 < n" using Cons.prems unat_next [OF b] by (simp add: word_less_nat_alt)
  have "put_str out n (c # s) (of_nat (length t)) (buffered out n m t) =
      put_str out n s (of_nat (length (t @ [c]))) (buffered out n m (t @ [c]))"
    using put_at_text [OF b, of out n c m] lt by (subst put_str.simps) (simp add: put_at_def Let_def add.commute)
  then show ?case using Cons.IH [of "t @ [c]"] Cons.prems by simp
qed

lemma length_dec_text: "length (dec_text num) = count_digits num"
  by (induction num rule: dec_text.induct) (subst dec_text.simps, subst count_digits.simps, simp)

lemma count_digits_bound: "num < 10 ^ k \<Longrightarrow> 0 < k \<Longrightarrow> count_digits num \<le> k"
proof (induction k arbitrary: num)
  case (Suc k)
  show ?case
  proof (cases "num div 10 = 0")
    case False
    then have "0 < k" using Suc.prems by (cases k) auto
    moreover have "num div 10 < 10 ^ k" using Suc.prems(1) by (simp add: less_mult_imp_div_less mult.commute)
    ultimately show ?thesis using Suc.IH [of "num div 10"] by (subst count_digits.simps) simp
  qed (simp add: count_digits.simps)
qed simp

lemma dec_text_nth:
  "i < count_digits num \<Longrightarrow> dec_text num ! i = of_nat (48 + num div 10 ^ (count_digits num - 1 - i) mod 10)"
proof (induction num arbitrary: i rule: dec_text.induct)
  case (1 num)
  let ?k = "if num div 10 = 0 then 0 else count_digits (num div 10)"
  have c: "count_digits num = ?k + 1" by (subst count_digits.simps) simp
  have l: "length (if num div 10 = 0 then [] else dec_text (num div 10)) = ?k" by (simp add: length_dec_text)
  show ?case
  proof (cases "i = ?k")
    case True
    then show ?thesis by (subst dec_text.simps) (simp add: nth_append l c)
  next
    case False
    then have i: "i < ?k" and z: "num div 10 \<noteq> 0" using "1.prems" c by (auto split: if_splits)
    have "dec_text num ! i = dec_text (num div 10) ! i"
      using i z by (subst dec_text.simps) (simp add: nth_append length_dec_text)
    also have "\<dots> = of_nat (48 + num div 10 div 10 ^ (?k - 1 - i) mod 10)" using "1.IH" [OF z, of i] i z by simp
    also have "num div 10 div 10 ^ (?k - 1 - i) = num div 10 ^ (count_digits num - 1 - i)"
    proof -
      have "count_digits num - 1 - i = Suc (?k - 1 - i)" using i z c by simp
      then show ?thesis by (simp add: div_mult2_eq)
    qed
    finally show ?thesis .
  qed
qed

text \<open>What the backward loop stores, position by position.\<close>

lemma put_digits_apply:
  assumes "unat pos + k < 2 ^ 32"
  shows "put_digits out n pos k num m x =
    (let j = unat (x - (out + pos)) in
     if j < k \<and> unat pos + j + 1 < unat n then of_nat (48 + num div 10 ^ (k - 1 - j) mod 10) else m x)"
  using assms
proof (induction k arbitrary: num m)
  case 0
  then show ?case by simp
next
  case (Suc i)
  let ?j = "unat (x - (out + pos))"
  let ?c = "of_nat (48 + num mod 10) :: u8"
  define m1 where "m1 = (if pos + of_nat i + 1 < n then m(out + (pos + of_nat i) := ?c) else m)"
  have oi: "unat (of_nat i :: u32) = i" using Suc.prems by (intro unat_offset) simp
  have "unat pos + i + 1 < 4294967296" using Suc.prems by simp
  then have t: "(pos + of_nat i + 1 < n) = (unat pos + i + 1 < unat n)"
    by (simp add: word_less_nat_alt unat_plus_if' oi)
  have x: "x = out + (pos + of_nat i) \<longleftrightarrow> ?j = i"
  proof
    assume j: "?j = i"
    have "x - (out + pos) = of_nat ?j" by simp
    also have "\<dots> = of_nat i" by (simp only: j)
    finally have "x - (out + pos) = of_nat i" .
    then show "x = out + (pos + of_nat i)" by (simp add: algebra_simps)
  next
    assume "x = out + (pos + of_nat i)"
    then have "x - (out + pos) = of_nat i" by simp
    then show "?j = i" by (simp only: oi)
  qed
  have IH: "put_digits out n pos (Suc i) num m x =
    (if ?j < i \<and> unat pos + ?j + 1 < unat n then of_nat (48 + num div 10 div 10 ^ (i - 1 - ?j) mod 10) else m1 x)"
    using Suc.IH [of "num div 10" m1] Suc.prems by (simp add: m1_def Let_def)
  have e: "num div 10 div 10 ^ (i - 1 - ?j) = num div 10 ^ (Suc i - 1 - ?j)" if "?j < i"
  proof -
    have "Suc i - 1 - ?j = Suc (i - 1 - ?j)" using that by simp
    then show ?thesis by (simp add: div_mult2_eq)
  qed
  show ?case unfolding IH Let_def using e x t by (cases "?j < i"; cases "?j = i") (auto simp: m1_def)
qed

lemma put_digits_text:
  assumes "length t + count_digits num < 2 ^ 32"
  shows "put_digits out n (of_nat (length t)) (count_digits num) num (buffered out n m t) = buffered out n m (t @ dec_text num)"
proof (rule ext)
  fix x
  let ?L = "length t" and ?k = "count_digits num"
  let ?j = "unat (x - (out + of_nat ?L))" and ?i = "unat (x - out)"
  have p: "unat (of_nat ?L :: u32) = ?L" using assms by (intro unat_offset) simp
  have b: "buffered out n m u x = (if ?i < length u \<and> ?i < unat n - 1 then u ! ?i else m x)" if "length u < 2 ^ 32" for u
    using that by (simp add: buffered_def store_bytes_apply)
  have ij: "?j < ?k \<longleftrightarrow> ?L \<le> ?i \<and> ?i < ?L + ?k" "?j < ?k \<Longrightarrow> ?i = ?L + ?j"
  proof -
    have d: "x - out = (x - (out + of_nat ?L)) + of_nat ?L" by simp
    have "unat (x - (out + of_nat ?L)) = (if unat (of_nat ?L :: u32) \<le> ?i then ?i - unat (of_nat ?L :: u32)
        else ?i + 2 ^ 32 - unat (of_nat ?L :: u32))"
      by (simp only: diff_diff_eq [symmetric] unat_sub_if') simp
    then have j: "?j = (if ?L \<le> ?i then ?i - ?L else ?i + 2 ^ 32 - ?L)" by (simp only: p)
    show "?j < ?k \<longleftrightarrow> ?L \<le> ?i \<and> ?i < ?L + ?k" using j assms by (auto split: if_splits)
    show "?j < ?k \<Longrightarrow> ?i = ?L + ?j" using j assms by (auto split: if_splits)
  qed
  have "put_digits out n (of_nat ?L) ?k num (buffered out n m t) x =
    (if ?j < ?k \<and> ?L + ?j + 1 < unat n then of_nat (48 + num div 10 ^ (?k - 1 - ?j) mod 10) else buffered out n m t x)"
    using put_digits_apply [of "of_nat ?L" ?k out n num "buffered out n m t" x] assms by (simp add: p Let_def)
  also have "\<dots> = buffered out n m (t @ dec_text num) x"
  proof (cases "?j < ?k")
    case True
    with ij have i: "?i = ?L + ?j" by blast
    have "buffered out n m (t @ dec_text num) x = (if ?L + ?j < unat n - 1 then dec_text num ! ?j else m x)"
      using b [of "t @ dec_text num"] assms True by (simp add: i length_dec_text nth_append)
    moreover have "buffered out n m t x = m x" using b [of t] assms by (simp add: i)
    ultimately show ?thesis using True dec_text_nth [OF True] by auto
  next
    case False
    then have o: "?i < ?L \<or> ?L + ?k \<le> ?i" using ij(1) by auto
    then show ?thesis using False b [of t] b [of "t @ dec_text num"] assms by (auto simp: length_dec_text nth_append)
  qed
  finally show "put_digits out n (of_nat ?L) ?k num (buffered out n m t) x = buffered out n m (t @ dec_text num) x" .
qed

lemma put_dec_text:
  assumes "w \<noteq> 0x80000000" "length t + length (int_text w) < 2 ^ 32 - 1"
  shows "put_dec out n w (of_nat (length t)) (buffered out n m t) =
    Some (of_nat (length (t @ int_text w)), buffered out n m (t @ int_text w))"
proof (cases "sint w < 0")
  case True
  have p: "put_at out n 0x2D (of_nat (length t)) (buffered out n m t) =
      (of_nat (length (t @ [0x2D])), buffered out n m (t @ [0x2D]))" using assms(2) by (intro put_at_text) simp
  have d: "put_digits out n (of_nat (length (t @ [0x2D]))) (count_digits (unat (- w))) (unat (- w)) (buffered out n m (t @ [0x2D])) =
      buffered out n m ((t @ [0x2D]) @ dec_text (unat (- w)))"
    using assms(2) True by (intro put_digits_text) (simp add: int_text_def length_dec_text)
  show ?thesis
    unfolding put_dec_def Let_def using assms(1) True d
    by (simp only: p if_True if_False prod.case int_text_def) (simp add: length_dec_text)
next
  case False
  have d: "put_digits out n (of_nat (length t)) (count_digits (unat w)) (unat w) (buffered out n m t) =
      buffered out n m (t @ dec_text (unat w))"
    using assms(2) False by (intro put_digits_text) (simp add: int_text_def length_dec_text)
  show ?thesis
    unfolding put_dec_def Let_def using assms(1) False d by (simp add: int_text_def length_dec_text)
qed

lemma conv_ok:
  assumes "console_conv_text (unat n) (length t) c va = Some (u, va')" "length t + length u < 2 ^ 32 - 1"
  shows "console_conv out n c va (of_nat (length t)) (buffered out n m t) =
    Some (va', of_nat (length (t @ u)), buffered out n m (t @ u))"
proof -
  have at: "put_at out n x (of_nat (length t)) (buffered out n m t) = (of_nat (length (t @ [x])), buffered out n m (t @ [x]))" for x
    using assms(2) by (intro put_at_text) simp
  have at2: "put_at out n y (of_nat (length (t @ [x]))) (buffered out n m (t @ [x])) =
      (of_nat (length (t @ [x, y])), buffered out n m (t @ [x, y]))" if "2 \<le> length u" for x y
    using put_at_text [of "t @ [x]" out n y m] assms(2) that by simp
  show ?thesis
  proof (cases "c = CHR ''c'' \<and> \<not> length t + 1 < unat n")
    case True
    with assms(1) have u: "u = [0]" "va' = va" by (auto simp: console_conv_text_def)
    have b: "length t < 2 ^ 32 - 1" using assms(2) by simp
    then have "\<not> of_nat (length t) + 1 < n" using True unat_next [OF b] by (simp add: word_less_nat_alt)
    then show ?thesis using True at [of 0] by (simp add: console_conv_def put_at_def Let_def u)
  next
  case stored: False
  then have ct: "(case va of
        CInt w # va' \<Rightarrow>
          (if c = CHR ''p'' then Some ([0x30, 0x78] @ hex_text 8 w, va')
           else if c = CHR ''x'' then Some (hex_text 8 w, va')
           else if c = CHR ''d'' \<and> w \<noteq> 0x80000000 then Some (int_text w, va')
           else if c = CHR ''c'' then Some ([ucast w], va')
           else None)
      | CStr s # va' \<Rightarrow> if c = CHR ''s'' \<and> length t + length s < unat n then Some (s, va') else None
      | [] \<Rightarrow> None) = Some (u, va')"
    using assms(1) unfolding console_conv_text_def by (simp only: if_False)
  have nc: "\<not> (c = CHR ''c'' \<and> \<not> of_nat (length t) + 1 < n)"
  proof (cases "c = CHR ''c''")
    case True
    have "length t < 2 ^ 32 - 1" using stored True assms(1,2) by (cases "length u") (auto simp: console_conv_text_def split: list.splits carg.splits if_splits)
    then show ?thesis using True stored unat_next [of "length t"] by (simp add: word_less_nat_alt)
  qed simp
  show ?thesis
  proof (cases va)
    case Nil
    with ct show ?thesis by simp
  next
    case (Cons a va1)
    show ?thesis
    proof (cases a)
      case (CStr s)
      with Cons ct have "c = CHR ''s''" "length t + length s < unat n" "u = s" "va' = va1" by (auto split: if_splits)
      with Cons CStr show ?thesis by (simp add: console_conv_def if_not_P [OF nc] put_str_text)
    next
      case (CInt w)
      consider (p) "c = CHR ''p''" | (x) "c = CHR ''x''" | (d) "c = CHR ''d''" "w \<noteq> 0x80000000" | (c) "c = CHR ''c''"
      proof -
        have "c = CHR ''p'' \<or> c = CHR ''x'' \<or> c = CHR ''d'' \<and> w \<noteq> 0x80000000 \<or> c = CHR ''c''"
          by (rule ccontr) (use ct Cons CInt in \<open>auto split: if_splits\<close>)
        then show thesis using that by blast
      qed
      then show ?thesis
      proof cases
        case p
        then have u: "u = [0x30, 0x78] @ hex_text 8 w" "va' = va1" using ct Cons CInt by auto
        have "put_hex out n w 8 (of_nat (length (t @ [0x30, 0x78]))) (buffered out n m (t @ [0x30, 0x78])) =
          (of_nat (length ((t @ [0x30, 0x78]) @ hex_text 8 w)), buffered out n m ((t @ [0x30, 0x78]) @ hex_text 8 w))"
          using assms(2) by (intro put_hex_text) (simp add: u hex_text_def)
        then show ?thesis using p u Cons CInt at2 by (simp add: console_conv_def if_not_P [OF nc] at del: length_append)
      next
        case x
        then have u: "u = hex_text 8 w" "va' = va1" using ct Cons CInt by auto
        have "put_hex out n w 8 (of_nat (length t)) (buffered out n m t) =
          (of_nat (length (t @ hex_text 8 w)), buffered out n m (t @ hex_text 8 w))"
          using assms(2) by (intro put_hex_text) (simp add: u hex_text_def)
        then show ?thesis using x u Cons CInt by (simp add: console_conv_def if_not_P [OF nc])
      next
        case d
        then have u: "u = int_text w" "va' = va1" using ct Cons CInt by auto
        then show ?thesis using d Cons CInt put_dec_text [OF d(2), of t out n m] assms(2) by (simp add: console_conv_def if_not_P [OF nc])
      next
        case c
        with nc have "of_nat (length t) + 1 < n" by simp
        with c show ?thesis using ct Cons CInt by (auto simp: console_conv_def at)
      qed
    qed
  qed
qed
qed

lemma console_loop_text:
  assumes "console_text (unat n) (length t) fmt s va = Some u" "length t + length u < 2 ^ 32 - 1"
  shows "console_loop out n fmt s va (of_nat (length t)) (buffered out n m t) =
    Some (of_nat (length (t @ u)), buffered out n m (t @ u))"
  using assms
proof (induction s arbitrary: fmt va t u)
  case Nil
  then show ?case by (cases fmt) simp_all
next
  case (Cons c s)
  show ?case
  proof (cases fmt)
    case False
    show ?thesis
    proof (cases "c = CHR ''%''")
      case True
      with Cons False show ?thesis by simp
    next
      case nf: False
      with False Cons.prems(1) obtain v where v: "u = ch_byte c # v"
        "console_text (unat n) (length (t @ [ch_byte c])) False s va = Some v" by auto
      have "length t < 2 ^ 32 - 1" using Cons.prems(2) by simp
      then show ?thesis using Cons.IH [OF v(2)] Cons.prems(2) nf False by (simp add: put_at_text v(1))
    qed
  next
    case True
    show ?thesis
    proof (cases "c = CHR ''l''")
      case l: True
      with Cons True show ?thesis by simp
    next
      case False
      with True Cons.prems(1) obtain t1 va1 v where v: "console_conv_text (unat n) (length t) c va = Some (t1, va1)"
        "console_text (unat n) (length (t @ t1)) False s va1 = Some v" "u = t1 @ v"
        by (auto split: option.splits)
      have "length t + length t1 < 2 ^ 32 - 1" using Cons.prems(2) v(3) by simp
      then show ?thesis using Cons.IH [OF v(2)] Cons.prems(2) v(3) conv_ok [OF v(1), of out m] True False by simp
    qed
  qed
qed

text \<open>C21: Formatting into a buffer of \<open>n\<close> bytes: the buffer receives the first \<open>n - 1\<close> characters of the text of the
  format and a terminating zero and no other byte of memory changes; the result is the length of the whole text.
  The string arguments must end within the first \<open>n - 1\<close> characters; numbers and literal characters may be cut, and
  the argument of a character conversion past them is left for the next conversion.\<close>

theorem console_vsnprintf_text:
  assumes "console_text (unat n) 0 False s va = Some t" "length t < 2 ^ 32 - 1" "n \<noteq> 0"
  shows "console_vsnprintf out n s va m = Some (of_nat (length t), store_bytes m out (take (unat n - 1) t @ [0]))"
proof -
  have l: "console_loop out n False s va 0 m = Some (of_nat (length t), buffered out n m t)"
    using console_loop_text [of n "[]" False s va t out m] assms(1,2) by (simp add: buffered_def)
  have u: "unat (of_nat (length t) :: u32) = length t" using assms(2) by (intro unat_offset) simp
  have n: "0 < unat n" using assms(3) by (simp add: unat_gt_0)
  have "n - 1 = of_nat (unat n - 1)" using n by (simp add: of_nat_diff)
  then show ?thesis
    using u n by (auto simp: console_vsnprintf_def l word_less_nat_alt buffered_def store_bytes_append assms(3))
qed

section \<open>A string that does not fit\<close>

lemma put_str_wraps:
  assumes "s \<noteq> []" "n \<noteq> 0" "n \<le> pos + 1 \<or> pos = - 1"
  shows "put_str out n s pos m = put_str out n (tl s) 0 (m(out - 1 := hd s))"
  using assms(3)
proof (induction "unat (- 1 - pos)" arbitrary: pos rule: less_induct)
  case less
  show ?case
  proof (cases "pos = - 1")
    case True
    have "0 < n" using assms(2) by (simp add: word_gt_0)
    then show ?thesis unfolding True using assms(1) by (subst put_str.simps) (simp add: Let_def)
  next
    case False
    then have n: "n \<le> pos + 1" using less.prems by simp
    have p: "unat (pos + 1) = unat pos + 1"
    proof -
      have "pos + 1 \<noteq> 0" using False by (metis add_right_cancel add.left_inverse)
      then show ?thesis by (rule unat_inc)
    qed
    have m: "unat (- 1 - q) = 4294967295 - unat q" for q :: u32
    proof -
      have "unat (- 1 :: u32) = 4294967295" by (simp add: unsigned_minus_1_eq_mask mask_eq_exp_minus_1)
      moreover have "q \<le> - 1" by simp
      ultimately show ?thesis by (simp only: unat_sub)
    qed
    have "unat pos < 4294967296" by simp
    moreover have "unat pos \<noteq> 4294967295"
    proof
      assume "unat pos = 4294967295"
      then have "unat (pos + 1) = 4294967296" using p by simp
      moreover have "unat (pos + 1) < 4294967296" by simp
      ultimately show False by linarith
    qed
    ultimately have "unat (- 1 - (pos + 1)) < unat (- 1 - pos)" unfolding m p by linarith
    moreover have "n \<le> (pos + 1) + 1 \<or> pos + 1 = - 1"
    proof (cases "pos + 1 = - 1")
      case False
      then have "pos + 1 + 1 \<noteq> 0" by (metis add_right_cancel add.left_inverse)
      then have "unat (pos + 1 + 1) = unat (pos + 1) + 1" by (rule unat_inc)
      then show ?thesis using n by (simp add: word_le_nat_alt)
    qed simp
    ultimately have "put_str out n s (pos + 1) m = put_str out n (tl s) 0 (m(out - 1 := hd s))" by (rule less.hyps)
    moreover have nl: "\<not> pos + 1 < n" using n by (simp only: not_less)
    moreover have "put_str out n s pos m = put_str out n s (pos + 1) m"
      using assms(1) nl by (subst put_str.simps) (simp add: Let_def)
    ultimately show ?thesis by simp
  qed
qed

text \<open>A string argument that does not fit overruns the buffer: when the position passes the end it runs on until it
  wraps around.  A string of exactly \<open>n\<close> characters has its last one stored in the byte before the buffer, and then
  the buffer reads as the empty string and the result is 0.\<close>

theorem console_string_overrun:
  assumes "length s = unat n" "n \<noteq> 0"
  shows "console_vsnprintf out n ''%s'' [CStr s] m =
    Some (0, (store_bytes m out (butlast s))(out - 1 := last s, out := 0))"
proof -
  have n: "0 < unat n" using assms(2) by (simp add: unat_gt_0)
  then have ne: "s \<noteq> []" using assms(1) by auto
  define t where "t = butlast s"
  have s: "s = t @ [last s]" and lt: "length t = unat n - 1" using ne assms(1) by (simp_all add: t_def)
  have split: "put_str out n (u @ v) p q = (case put_str out n u p q of None \<Rightarrow> None | Some (p, q) \<Rightarrow> put_str out n v p q)"
    if "unat p + length u < unat n" for u v p q using that
  proof (induction u arbitrary: p q)
    case Nil
    then show ?case by (simp add: put_str.simps [of _ _ "[]"])
  next
    case (Cons c u)
    have le: "unat (p + 1) \<le> unat p + 1" by (simp add: unat_word_ariths(1))
    have "unat p + 1 < unat n" using Cons.prems by simp
    with le have lt: "p + 1 < n" by (simp only: word_less_nat_alt)
    have IH: "put_str out n (u @ v) (p + 1) (q(out + p := c)) = (case put_str out n u (p + 1) (q(out + p := c)) of None \<Rightarrow> None
        | Some (p, q) \<Rightarrow> put_str out n v p q)"
      using le Cons.prems by (intro Cons.IH) simp
    have step: "put_str out n (c # w) p q = put_str out n w (p + 1) (q(out + p := c))" for w
      using lt by (subst put_str.simps) (simp add: Let_def)
    show ?case by (simp only: append_Cons step IH)
  qed
  have a: "put_str out n t 0 m = Some (of_nat (unat n - 1), store_bytes m out t)"
    using put_str_text [of "[]" t n out m] n lt by (simp add: buffered_def)
  have e: "of_nat (unat n - 1) + 1 = n" using n by (simp add: of_nat_diff)
  have "put_str out n s 0 m = put_str out n [last s] (of_nat (unat n - 1)) (store_bytes m out t)"
    by (subst s) (simp add: split lt n a)
  also have "\<dots> = Some (0, (store_bytes m out t)(out - 1 := last s))"
    by (subst put_str_wraps) (simp_all add: assms(2) e put_str.simps del: One_nat_def)
  finally show ?thesis using assms(2)
    by (simp add: console_vsnprintf_def console_conv_def t_def word_gt_0)
qed

text \<open>\<open>printk\<close> on a working serial port sends the text of its format if it has fewer than 256 characters;
  a longer text is cut to 255 characters, which are followed on the line by the buffer's terminating zero.\<close>

theorem printk_sends:
  assumes "uart_laws B sent inp good" "good d" "console_text 256 0 False s va = Some t" "length t < 2 ^ 31"
  shows "\<exists>m' d'. printk B out s va (m, d) = Some (m', d') \<and> good d' \<and> inp d' = inp d \<and>
    sent d' = sent d @ (if length t < 256 then t else take 255 t @ [0])"
proof -
  let ?u = "take 255 t @ [0]"
  have u: "unat (256 :: u32) = 256" by simp
  have l: "length t < 2 ^ 32 - 1" using assms(4) by simp
  have v: "console_vsnprintf out 256 s va m = Some (of_nat (length t), store_bytes m out ?u)"
    using console_vsnprintf_text [of 256 s va t out m] assms(3) l by (simp only: u) simp
  let ?r = "if of_nat (length t) < (256 :: u32) then of_nat (length t) else (256 :: u32)"
  have lt: "unat (of_nat (length t) :: u32) = length t" using l by (intro unat_offset) simp
  have r: "?r = of_nat (min (length t) 256)" by (auto simp: word_less_nat_alt lt)
  have s: "nat (sint ?r) = min (length t) 256"
  proof -
    have "sint (of_nat (min (length t) 256) :: u32) = int (min (length t) 256)"
      by (simp add: signed_of_nat signed_take_bit_int_eq_self)
    then show ?thesis unfolding r by simp
  qed
  have b: "load_bytes (store_bytes m out ?u) out (min (length t) 256) = (if length t < 256 then t else ?u)"
  proof -
    have "load_bytes (store_bytes m out ?u) out (length ?u) = ?u" by (rule load_store_same) simp
    moreover have "load_bytes (store_bytes m out ?u) out (length ?u) =
        load_bytes (store_bytes m out ?u) out (length (take 255 t)) @
        load_bytes (store_bytes m out ?u) (out + of_nat (length (take 255 t))) 1"
      by (simp only: length_append list.size load_bytes_append) simp
    ultimately have "load_bytes (store_bytes m out ?u) out (length (take 255 t)) = take 255 t"
      by (metis append_eq_append_conv length_load_bytes)
    moreover have "load_bytes (store_bytes m out ?u) out (length ?u) = ?u" by (rule load_store_same) simp
    ultimately show ?thesis by (cases "length t < 256") (auto simp: min_def)
  qed
  from uart16550.send_list_io [of B sent inp good d "if length t < 256 then t else ?u"] assms(1,2)
  obtain d' where d': "send_list (uart_send B) (if length t < 256 then t else ?u) d = Some d'"
    "sent d' = sent d @ (if length t < 256 then t else ?u)" "inp d' = inp d" "good d'" by blast
  then have "uart_send_buf B (store_bytes m out ?u) out ?r d = Some d'"
    by (simp only: uart_send_buf_def uart_send_loop_list s b)
  then have "printk B out s va (m, d) = Some (store_bytes m out ?u, d')"
    by (simp add: printk_def vprintk_def v)
  with d' show ?thesis by blast
qed

section \<open>Concrete runs\<close>

theorem console_vsnprintf_text_witness:
  "console_vsnprintf 0x100 3 ''%d%c%x'' [CInt (- 42), CInt 0x1F] (\<lambda>a. 7) =
    Some (12, store_bytes (\<lambda>a. 7) 0x100 [0x2D, 0x34, 0])"
proof -
  have s: "sint (- 42 :: u32) = - 42" by simp
  have d: "dec_text 42 = [0x34, 0x32]" by (simp add: dec_text.simps)
  have h: "hex_text 8 0x1F = [0x30, 0x30, 0x30, 0x30, 0x30, 0x30, 0x31, 0x66]"
    by (simp add: hex_text_def nibble_char_def upt_rec)
  have "console_text (unat (3 :: u32)) 0 False ''%d%c%x'' [CInt (- 42), CInt 0x1F] =
      Some [0x2D, 0x34, 0x32, 0, 0x30, 0x30, 0x30, 0x30, 0x30, 0x30, 0x31, 0x66]"
    by (simp add: console_conv_text_def int_text_def s d h ch_byte_def)
  from console_vsnprintf_text [OF this, of "0x100" "\<lambda>a. 7"] show ?thesis by (simp del: store_bytes.simps)
qed

theorem console_string_overrun_witness:
  "console_vsnprintf 0x100 3 ''%s'' [CStr [0x61, 0x62, 0x63]] (\<lambda>a. 7) =
    Some (0, (store_bytes (\<lambda>a. 7) 0x100 [0x61, 0x62])(0xFF := 0x63, 0x100 := 0))"
  using console_string_overrun [of "[0x61, 0x62, 0x63]" 3 "0x100" "\<lambda>a. 7"] by (simp del: store_bytes.simps)

theorem printk_sends_witness:
  "\<exists>m' d'. printk port_uart 0x100 ''ok%c'' [CInt 0x21] (\<lambda>a. 7, \<lparr>p_in = [], p_cur = 0, p_out = [], p_busy = 5\<rparr>) = Some (m', d') \<and>
    p_out d' = [0x6F, 0x6B, 0x21]"
proof -
  have "console_text 256 0 False ''ok%c'' [CInt 0x21] = Some [0x6F, 0x6B, 0x21]"
    by (simp add: console_conv_text_def ch_byte_def)
  from printk_sends [OF port_uart_laws TrueI this, of "0x100" "\<lambda>a. 7" "\<lparr>p_in = [], p_cur = 0, p_out = [], p_busy = 5\<rparr>"]
  show ?thesis by auto
qed

end
