(* ===== verification/Syscalls.thy ===== *)
theory Syscalls
  imports Console
begin

text \<open>
  The run-time system of the boot program that loads from the SD card (bootstrap/sdcard/syscalls.c): its
  formatter \<open>vprintfmt\<close> with \<open>printf\<close> and \<open>sprintf\<close>, the line buffer of \<open>putchar\<close>, and the trap handler
  with its system calls.  A formatter returns the characters it hands to \<open>putch\<close>; \<open>None\<close> is an argument
  that is missing or of the wrong kind.
\<close>

section \<open>Numbers\<close>

text \<open>An argument of 32 bits, one of 64 bits, and a string, which may be the null pointer.\<close>

datatype varg = VInt u32 | VLong u64 | VStr "u8 list option"

fun num_digits :: "nat \<Rightarrow> nat \<Rightarrow> nat list" where
  "num_digits base num =
     (if base < 2 then [num] else num mod base # (if num < base then [] else num_digits base (num div base)))"

declare num_digits.simps [simp del]

definition digit_byte :: "nat \<Rightarrow> u8" where
  "digit_byte d = of_nat (d + (if d \<ge> 10 then 97 - 10 else 48))"

text \<open>\<open>digs\<close> holds the digits from the last one; padding comes first, whatever its character is.\<close>

definition printnum :: "nat \<Rightarrow> nat \<Rightarrow> int \<Rightarrow> u8 \<Rightarrow> u8 list" where
  "printnum num base width padc =
     (let digs = num_digits base num in
      replicate (nat (width - int (length digs))) padc @ map digit_byte (rev digs))"

definition getuint :: "nat \<Rightarrow> varg list \<Rightarrow> (u64 \<times> varg list) option" where
  "getuint lflag ap =
     (case ap of
        VLong w # ap \<Rightarrow> if lflag \<ge> 2 then Some (w, ap) else None
      | VInt w # ap \<Rightarrow> if lflag \<ge> 2 then None else Some (ucast w, ap)
      | _ \<Rightarrow> None)"

definition getint :: "nat \<Rightarrow> varg list \<Rightarrow> (u64 \<times> varg list) option" where
  "getint lflag ap =
     (case ap of
        VLong w # ap \<Rightarrow> if lflag \<ge> 2 then Some (w, ap) else None
      | VInt w # ap \<Rightarrow> if lflag \<ge> 2 then None else Some (scast w, ap)
      | _ \<Rightarrow> None)"

section \<open>The flags of a conversion\<close>

record vflags =
  v_padc :: u8
  v_width :: u32
  v_precision :: u32
  v_lflag :: nat
  v_altflag :: bool

definition vflags0 :: vflags where
  "vflags0 = \<lparr>v_padc = 0x20, v_width = - 1, v_precision = - 1, v_lflag = 0, v_altflag = False\<rparr>"

definition is_dec :: "u8 \<Rightarrow> bool" where "is_dec c \<longleftrightarrow> 0x30 \<le> c \<and> c \<le> 0x39"

definition process_precision :: "vflags \<Rightarrow> vflags" where
  "process_precision P =
     (if v_width P <s 0 then P\<lparr>v_width := v_precision P, v_precision := - 1\<rparr> else P)"

text \<open>The loop over the digits of a width or precision; the numbers wrap around.\<close>

fun precision_loop :: "u32 \<Rightarrow> u8 \<Rightarrow> u8 list \<Rightarrow> u32 \<times> u8 list" where
  "precision_loop p ch [] = (p * 10 + ucast ch - 0x30, [])"
| "precision_loop p ch (c # s) =
     (let p = p * 10 + ucast ch - 0x30 in if is_dec c then precision_loop p c s else (p, c # s))"

lemma precision_loop_length: "precision_loop p ch s = (q, t) \<Longrightarrow> length t \<le> length s"
  by (induction p ch s rule: precision_loop.induct) (auto simp: Let_def split: if_splits intro: le_SucI)

text \<open>From \<open>reswitch\<close> to the conversion character, which is NUL at the end of the format.\<close>

function vp_flags :: "u8 list \<Rightarrow> vflags \<Rightarrow> varg list \<Rightarrow> (u8 \<times> u8 list \<times> vflags \<times> varg list) option" where
  "vp_flags [] P ap = Some (0, [], P, ap)"
| "vp_flags (c # s) P ap =
     (if c = 0x2D then vp_flags s (P\<lparr>v_padc := 0x2D\<rparr>) ap
      else if c = 0x30 then vp_flags s (P\<lparr>v_padc := 0x30\<rparr>) ap
      else if is_dec c then
        (let (p, t) = precision_loop 0 c s in vp_flags t (process_precision (P\<lparr>v_precision := p\<rparr>)) ap)
      else if c = 0x2A then
        (case ap of VInt w # ap \<Rightarrow> vp_flags s (process_precision (P\<lparr>v_precision := w\<rparr>)) ap | _ \<Rightarrow> None)
      else if c = 0x2E then vp_flags s (if v_width P <s 0 then P\<lparr>v_width := 0\<rparr> else P) ap
      else if c = 0x23 then vp_flags s (P\<lparr>v_altflag := True\<rparr>) ap
      else if c = 0x6C then vp_flags s (P\<lparr>v_lflag := v_lflag P + 1\<rparr>) ap
      else Some (c, s, P, ap))"
  by pat_completeness auto
termination
  by (relation "measure (\<lambda>(s, _). length s)") (auto dest: precision_loop_length [OF sym])

section \<open>The conversions\<close>

text \<open>\<open>%s\<close>: padding on the left unless the flag is \<open>-\<close>, at most \<open>precision\<close> characters, spaces on the right.\<close>

definition vp_string :: "u8 list \<Rightarrow> vflags \<Rightarrow> u8 list" where
  "vp_string p P =
     (let width = sint (v_width P); prec = sint (v_precision P);
          len = (if prec < 0 then length p else min (length p) (nat prec));
          left = (width > 0 \<and> v_padc P \<noteq> 0x2D);
          pad = (if left then replicate (nat (width - int len)) (v_padc P) else []);
          width = (if left then min (width - int len) 0 else width);
          shown = take len p
      in pad @ shown @ replicate (nat (width - int len)) 0x20)"

definition vp_conv :: "u8 \<Rightarrow> vflags \<Rightarrow> varg list \<Rightarrow> (u8 list \<times> varg list) option" where
  "vp_conv c P ap =
     (let number = (\<lambda>base pre.
        (case getuint (v_lflag P) ap of
           None \<Rightarrow> None
         | Some (num, ap) \<Rightarrow> Some (pre @ printnum (unat num) base (sint (v_width P)) (v_padc P), ap)))
      in
      if c = 0x63 then (case ap of VInt w # ap \<Rightarrow> Some ([ucast w], ap) | _ \<Rightarrow> None)
      else if c = 0x73 then
        (case ap of
           VStr None # ap \<Rightarrow> Some (vp_string (map ch_byte ''(null)'') P, ap)
         | VStr (Some p) # ap \<Rightarrow> Some (vp_string p P, ap)
         | _ \<Rightarrow> None)
      else if c = 0x64 then
        (case getint (v_lflag P) ap of
           None \<Rightarrow> None
         | Some (num, ap) \<Rightarrow>
             Some (if num <s 0 then 0x2D # printnum (unat (- num)) 10 (sint (v_width P)) (v_padc P)
                   else printnum (unat num) 10 (sint (v_width P)) (v_padc P), ap))
      else if c = 0x75 then number 10 []
      else if c = 0x6F then number 8 []
      else if c = 0x70 then
        (case getuint 1 ap of
           None \<Rightarrow> None
         | Some (num, ap) \<Rightarrow> Some ([0x30, 0x78] @ printnum (unat num) 16 (sint (v_width P)) (v_padc P), ap))
      else if c = 0x78 then number 16 []
      else Some ([0x25], ap))"

definition is_conv :: "u8 \<Rightarrow> bool" where
  "is_conv c \<longleftrightarrow> c \<in> {0x63, 0x73, 0x64, 0x75, 0x6F, 0x70, 0x78, 0x25}"

lemma vp_flags_length: "vp_flags s P ap = Some (c, t, Q, ap') \<Longrightarrow> length t \<le> length s"
proof (induction s P ap rule: vp_flags.induct)
  case (2 c s P ap)
  obtain p t' where t': "precision_loop 0 c s = (p, t')" by (cases "precision_loop 0 c s")
  have l: "length t' \<le> length s" using precision_loop_length [OF t'] .
  show ?case
    using "2.prems" "2.IH" l
    by (auto simp: t' split: if_splits list.splits varg.splits) (fastforce intro: le_SucI dest: le_trans)+
qed simp

text \<open>The main loop; an unknown conversion prints the percent sign and goes on right behind it.\<close>

function vprintfmt :: "u8 list \<Rightarrow> varg list \<Rightarrow> u8 list option" where
  "vprintfmt [] ap = Some []"
| "vprintfmt (c # s) ap =
     (if c \<noteq> 0x25 then map_option (Cons c) (vprintfmt s ap)
      else
        (case vp_flags s vflags0 ap of
           None \<Rightarrow> None
         | Some (ch, t, P, ap) \<Rightarrow>
             if is_conv ch then
               (case vp_conv ch P ap of None \<Rightarrow> None | Some (u, ap) \<Rightarrow> map_option (append u) (vprintfmt t ap))
             else map_option (Cons 0x25) (vprintfmt s ap)))"
  by pat_completeness auto
termination
  by (relation "measure (\<lambda>(s, _). length s)") (auto dest!: vp_flags_length)


section \<open>Output\<close>

text \<open>The line buffer of \<open>putchar\<close> and the texts handed to the write system call.\<close>

record linebuf =
  lb_buf :: "u8 list"
  lb_sent :: "u8 list list"

definition LINE_SIZE :: nat where "LINE_SIZE = 64"

definition putchar :: "u8 \<Rightarrow> linebuf \<Rightarrow> linebuf" where
  "putchar ch st =
     (let st = st\<lparr>lb_buf := lb_buf st @ [ch]\<rparr> in
      if ch = 0x0A \<or> length (lb_buf st) = LINE_SIZE then st\<lparr>lb_sent := lb_sent st @ [lb_buf st], lb_buf := []\<rparr> else st)"

definition sys_printf :: "u8 list \<Rightarrow> varg list \<Rightarrow> linebuf \<Rightarrow> (u32 \<times> linebuf) option" where
  "sys_printf fmt ap st =
     (case vprintfmt fmt ap of None \<Rightarrow> None | Some t \<Rightarrow> Some (0, fold putchar t st))"

definition sprintf :: "u32 \<Rightarrow> u8 list \<Rightarrow> varg list \<Rightarrow> mem \<Rightarrow> (u32 \<times> mem) option" where
  "sprintf str fmt ap m =
     (case vprintfmt fmt ap of
        None \<Rightarrow> None
      | Some t \<Rightarrow> Some (of_nat (length t), store_bytes m str (t @ [0])))"

text \<open>Sixteen digits, the last one first.\<close>

fun hex_fill :: "nat \<Rightarrow> u64 \<Rightarrow> u8 list" where
  "hex_fill 0 x = []"
| "hex_fill (Suc n) x = hex_fill n (drop_bit 4 x) @ [digit_byte (unat (x AND 0xF))]"

definition printhex :: "u64 \<Rightarrow> u8 list" where "printhex x = hex_fill 16 x"

text \<open>\<open>tohost_exit\<close> reports a nonzero code, whose 32 bits are shifted arithmetically, and never returns.\<close>

fun exit_digits :: "nat \<Rightarrow> u32 \<Rightarrow> u8 list" where
  "exit_digits 0 code = []"
| "exit_digits (Suc n) code = exit_digits n (signed_drop_bit 4 code) @ [digit_byte (unat (code AND 0xF))]"

definition tohost_exit :: "u32 \<Rightarrow> u8 list" where
  "tohost_exit code =
     (if code = 0 then [] else map ch_byte ''error! exit(0x'' @ exit_digits 16 code @ map ch_byte '')'' @ [0x0A])"

section \<open>The trap handler\<close>

text \<open>What a trap does besides writing registers: text on the serial port, and the changes of the memory map
  and the reset, which assembly routines make.\<close>

datatype trap_effect =
  Sent "u8 list" | SetIobase nat u32 u32 | UpdateIospace | SetMembase nat u32 u32 u32 | UpdateMemspace
  | SoftReset | SetStats | ClearStats

definition CAUSE_ILLEGAL_INSTRUCTION :: u32 where "CAUSE_ILLEGAL_INSTRUCTION = 2"
definition CAUSE_USER_ECALL :: u32 where "CAUSE_USER_ECALL = 8"
definition SYS_write :: u32 where "SYS_write = 64"
definition SYS_exit :: u32 where "SYS_exit = 93"
definition SYS_stats :: u32 where "SYS_stats = 1234"
definition SYS_soft_reset :: u32 where "SYS_soft_reset = 617"
definition SYS_set_iobase :: u32 where "SYS_set_iobase = 0x12200"
definition SYS_set_membase :: u32 where "SYS_set_membase = 0x2100"

definition handle_frontend_syscall :: "mem \<Rightarrow> u32 \<Rightarrow> u32 \<Rightarrow> u32 \<Rightarrow> u32 \<Rightarrow> u32 \<times> trap_effect list" where
  "handle_frontend_syscall m which arg0 arg1 arg2 = (0, [Sent (load_bytes m arg1 (unat arg2))])"

text \<open>The values of the counter registers are a parameter; the counters keep the values at the start, and then
  the differences.\<close>

definition counter_names :: "string list" where
  "counter_names = [''cycle'', ''instret'', ''uarch0'', ''uarch1'', ''uarch2'', ''uarch3'', ''uarch4'', ''uarch5'',
     ''uarch6'', ''uarch7'', ''uarch8'', ''uarch9'', ''uarch10'', ''uarch11'', ''uarch12'', ''uarch13'', ''uarch14'',
     ''uarch15'']"

definition handle_stats :: "u32 list \<Rightarrow> u32 \<Rightarrow> u32 list \<Rightarrow> u32 list \<times> trap_effect list" where
  "handle_stats csrs enable counters =
     (map2 (\<lambda>csr c. if enable = 0 then csr - c else csr) csrs counters,
      [if enable \<noteq> 0 then SetStats else ClearStats])"

text \<open>\<open>Inl\<close> is the machine halted after its last output; \<open>csr_insn\<close> is the encoding the handler compares with.\<close>

definition trap_report :: "mem \<Rightarrow> u32 \<Rightarrow> u32 \<Rightarrow> u32 \<Rightarrow> u32 list \<Rightarrow> u8 list option" where
  "trap_report m cause epc badaddr regs =
     (let line = (\<lambda>name v. vprintfmt (map ch_byte (name @ ''=%0x'' @ [lf])) [VInt v]) in
      case (line ''mcause'' cause, line ''mepc'' epc, line ''mbadaddr'' badaddr, line ''einsn'' (rd32 m epc),
            line ''sp'' (regs ! 2), line ''tp'' (regs ! 4)) of
        (Some a, Some b, Some c, Some d, Some e, Some f) \<Rightarrow> Some (a @ b @ c @ d @ e @ f)
      | _ \<Rightarrow> None)"

definition handle_ecall ::
  "mem \<Rightarrow> u32 list \<Rightarrow> u32 list \<Rightarrow> u32 list \<Rightarrow> u8 list + u32 \<times> u32 list \<times> trap_effect list" where
  "handle_ecall m csrs counters regs =
     (let n = regs ! 17; a0 = regs ! 10; a1 = regs ! 11; a2 = regs ! 12; k = unat (n AND 7) in
      if n AND SYS_set_iobase = SYS_set_iobase then
        Inr (0, counters, [if k \<le> 3 then SetIobase k a0 a1 else UpdateIospace])
      else if n AND SYS_set_membase = SYS_set_membase then
        Inr (0, counters, [if k \<le> 3 then SetMembase k a0 a1 a2 else UpdateMemspace])
      else if n = SYS_exit then Inl (tohost_exit a0)
      else if n = SYS_stats then
        (case handle_stats csrs a0 counters of (cs, e) \<Rightarrow> Inr (0, cs, e))
      else if n = SYS_soft_reset then Inr (0, counters, [SoftReset])
      else (case handle_frontend_syscall m n a0 a1 a2 of (r, e) \<Rightarrow> Inr (r, counters, e)))"

definition handle_trap ::
  "mem \<Rightarrow> u32 \<Rightarrow> u32 \<Rightarrow> u32 list \<Rightarrow> u32 list \<Rightarrow> u32 \<Rightarrow> u32 \<Rightarrow> u32 list
    \<Rightarrow> (u8 list + u32 \<times> u32 list \<times> u32 list \<times> trap_effect list) option" where
  "handle_trap m csr_insn badaddr csrs counters cause epc regs =
     (let finish = (\<lambda>r cs e. Inr (epc + 4, regs[10 := r], cs, e)) in
      if cause = CAUSE_ILLEGAL_INSTRUCTION \<and> rd32 m epc AND csr_insn = csr_insn then Some (finish 0 counters [])
      else if cause \<noteq> CAUSE_USER_ECALL then
        (case trap_report m cause epc badaddr regs of
           None \<Rightarrow> None
         | Some t \<Rightarrow> Some (Inl (t @ tohost_exit 1337)))
      else
        (case handle_ecall m csrs counters regs of
           Inl t \<Rightarrow> Some (Inl t)
         | Inr (r, cs, e) \<Rightarrow> Some (finish r cs e)))"

text \<open>The report \<open>_init\<close> prints of the counters that are not zero, before it exits with \<open>main\<close>'s result.\<close>

fun counter_report :: "(string \<times> u32) list \<Rightarrow> u8 list option" where
  "counter_report [] = Some []"
| "counter_report ((name, c) # cs) =
     (if c = 0 then counter_report cs
      else
        (case vprintfmt (map ch_byte (''%s = %d'' @ [lf])) [VStr (Some (map ch_byte name)), VInt c] of
           None \<Rightarrow> None
         | Some t \<Rightarrow> map_option (append t) (counter_report cs)))"

section \<open>Numbers read back\<close>

text \<open>The value of a text of digits in a base of at most 16.\<close>

definition byte_digit :: "u8 \<Rightarrow> nat" where
  "byte_digit b = (if b < 0x3A then unat b - 48 else unat b - 87)"

definition text_value :: "nat \<Rightarrow> u8 list \<Rightarrow> nat" where
  "text_value base t = foldl (\<lambda>v b. base * v + byte_digit b) 0 t"

lemma byte_digit_inverse [simp]: "d < 16 \<Longrightarrow> byte_digit (digit_byte d) = d"
proof -
  assume "d < 16"
  then have "d \<in> set [0..<16]" by simp
  then show ?thesis by (simp add: upt_rec byte_digit_def digit_byte_def) (elim disjE, simp_all)
qed

lemma text_value_digits:
  assumes "2 \<le> base" "base \<le> 16"
  shows "text_value base (map digit_byte (rev (num_digits base num))) = num"
  using assms
proof (induction base num rule: num_digits.induct)
  case (1 base num)
  have "num mod base < base" using "1.prems" by simp
  then have d: "num mod base < 16" using "1.prems" by linarith
  show ?case
  proof (cases "num < base")
    case True
    then show ?thesis using "1.prems" by (subst num_digits.simps) (simp add: text_value_def)
  next
    case False
    have "text_value base (map digit_byte (rev (num_digits base (num div base)))) = num div base"
      using "1.IH" "1.prems" False by simp
    then show ?thesis using False d "1.prems" by (subst num_digits.simps) (simp add: text_value_def)
  qed
qed

lemma num_digits_length:
  assumes "2 \<le> base" "num < base ^ k" "0 < k"
  shows "length (num_digits base num) \<le> k"
  using assms
proof (induction k arbitrary: num)
  case (Suc k)
  show ?case
  proof (cases "num < base")
    case True
    then show ?thesis using Suc.prems by (subst num_digits.simps) simp
  next
    case False
    then have "0 < k" using Suc.prems by (cases k) auto
    moreover have "num div base < base ^ k" using Suc.prems(1,2) by (simp add: less_mult_imp_div_less mult.commute)
    ultimately show ?thesis using Suc False by (subst num_digits.simps) simp
  qed
qed simp

text \<open>A number is printed with as many padding characters as its width asks for beyond its digits, and then its
  digits in the base, which read back as the number, without leading zeros, and fit the local array of 64 digits.\<close>

theorem printnum_reads_back:
  assumes "base \<in> {8, 10, 16}" "num < 2 ^ 64"
  shows "\<exists>t. printnum num base width padc = replicate (nat (width - int (length t))) padc @ t \<and>
    text_value base t = num \<and> 0 < length t \<and> length t \<le> 64 \<and> (0 < num \<longrightarrow> hd t \<noteq> 0x30)"
proof -
  let ?t = "map digit_byte (rev (num_digits base num))"
  have b: "2 \<le> base" "base \<le> 16" using assms(1) by auto
  have "(2 :: nat) ^ 64 \<le> base ^ 64" using b by (intro power_mono) auto
  then have "length (num_digits base num) \<le> 64" using num_digits_length [OF b(1), of num 64] assms(2) by simp
  moreover have "0 < length (num_digits base num)" using b by (subst num_digits.simps) simp
  moreover have "last (num_digits base n) \<noteq> 0 \<and> last (num_digits base n) < base" if "0 < n" for n
    using b that
  proof (induction base n rule: num_digits.induct)
    case (1 base num)
    show ?case
    proof (cases "num < base")
      case True
      then show ?thesis using "1.prems" by (subst (1 2) num_digits.simps) simp
    next
      case False
      have "num_digits base (num div base) \<noteq> []" using "1.prems" by (subst num_digits.simps) simp
      moreover have "0 < num div base" using False "1.prems" by (simp add: div_greater_zero_iff)
      ultimately show ?thesis using "1.IH" "1.prems" False by (subst (1 2) num_digits.simps) simp
    qed
  qed
  moreover have "digit_byte d \<noteq> 0x30" if "0 < d" "d < 16" for d
  proof
    assume "digit_byte d = 0x30"
    moreover have "byte_digit 0x30 = 0" by (simp add: byte_digit_def)
    ultimately show False using that byte_digit_inverse [of d] by simp
  qed
  ultimately have "0 < num \<longrightarrow> hd ?t \<noteq> 0x30" using b by (auto simp: hd_map hd_rev dest: less_le_trans)
  moreover have "printnum num base width padc = replicate (nat (width - int (length ?t))) padc @ ?t"
    by (simp add: printnum_def Let_def)
  moreover have "text_value base ?t = num" by (rule text_value_digits [OF b])
  moreover have "length ?t \<le> 64" "0 < length ?t"
    using \<open>length (num_digits base num) \<le> 64\<close> \<open>0 < length (num_digits base num)\<close> by simp_all
  ultimately show ?thesis by blast
qed

section \<open>The line buffer\<close>

text \<open>A system call carries a whole line or a full buffer.\<close>

definition line_ok :: "u8 list \<Rightarrow> bool" where
  "line_ok t \<longleftrightarrow> t \<noteq> [] \<and> length t \<le> LINE_SIZE \<and> 0x0A \<notin> set (butlast t) \<and> (last t = 0x0A \<or> length t = LINE_SIZE)"

definition linebuf_ok :: "linebuf \<Rightarrow> bool" where
  "linebuf_ok st \<longleftrightarrow> length (lb_buf st) < LINE_SIZE \<and> 0x0A \<notin> set (lb_buf st) \<and> (\<forall>t \<in> set (lb_sent st). line_ok t)"

lemma putchar_ok: "linebuf_ok st \<Longrightarrow> linebuf_ok (putchar c st)"
  by (auto simp: linebuf_ok_def putchar_def Let_def line_ok_def LINE_SIZE_def)

lemma putchar_stream: "concat (lb_sent (putchar c st)) @ lb_buf (putchar c st) = concat (lb_sent st) @ lb_buf st @ [c]"
  by (simp add: putchar_def Let_def)

lemma putchars_ok: "linebuf_ok st \<Longrightarrow> linebuf_ok (fold putchar t st)"
  by (induction t arbitrary: st) (auto intro: putchar_ok)

lemma putchars_stream:
  "concat (lb_sent (fold putchar t st)) @ lb_buf (fold putchar t st) = concat (lb_sent st) @ lb_buf st @ t"
proof (induction t arbitrary: st)
  case (Cons c t)
  have "concat (lb_sent (fold putchar (c # t) st)) @ lb_buf (fold putchar (c # t) st) =
      concat (lb_sent (putchar c st)) @ lb_buf (putchar c st) @ t"
    using Cons by simp
  also have "\<dots> = (concat (lb_sent (putchar c st)) @ lb_buf (putchar c st)) @ t" by simp
  also have "\<dots> = concat (lb_sent st) @ lb_buf st @ c # t" unfolding putchar_stream by simp
  finally show ?case .
qed simp

text \<open>C22: \<open>printf\<close> loses and reorders nothing: what its system calls have carried, followed by what is still in the
  line buffer, grows by the text of the format; every call carries one whole line or a full buffer, and only
  the beginning of an unfinished line, never a line end, stays behind in the buffer.\<close>

theorem printf_buffered:
  assumes "linebuf_ok st" "vprintfmt fmt ap = Some t"
  shows "\<exists>st'. sys_printf fmt ap st = Some (0, st') \<and> linebuf_ok st' \<and>
    concat (lb_sent st') @ lb_buf st' = concat (lb_sent st) @ lb_buf st @ t \<and>
    (last t = 0x0A \<and> t \<noteq> [] \<longrightarrow> lb_buf st' = [])"
proof -
  let ?st' = "fold putchar t st"
  have s: "sys_printf fmt ap st = Some (0, ?st')" by (simp add: sys_printf_def assms(2))
  have o: "linebuf_ok ?st'" by (rule putchars_ok [OF assms(1)])
  have "lb_buf ?st' = []" if "last t = 0x0A" "t \<noteq> []"
  proof (rule ccontr)
    assume b: "lb_buf ?st' \<noteq> []"
    then have "last (concat (lb_sent ?st') @ lb_buf ?st') = last (lb_buf ?st')" by simp
    then have "last (lb_buf ?st') = 0x0A" unfolding putchars_stream using that by simp
    then show False using o b by (metis last_in_set linebuf_ok_def)
  qed
  then show ?thesis using s o putchars_stream [of t st] by blast
qed

section \<open>The two formatters of the programs\<close>

text \<open>Formats with \<open>%d\<close>, \<open>%c\<close> and \<open>%s\<close> only, possibly with one \<open>l\<close>.\<close>

fun plain_format :: "string \<Rightarrow> bool" where
  "plain_format [] = True"
| "plain_format (c # s) =
     (if c \<noteq> CHR ''%'' then plain_format s
      else
        (case s of
           [] \<Rightarrow> False
         | d # s' \<Rightarrow>
             if d \<in> {CHR ''d'', CHR ''c'', CHR ''s''} then plain_format s'
             else d = CHR ''l'' \<and>
               (case s' of e # s'' \<Rightarrow> e = CHR ''d'' \<and> plain_format s'' | [] \<Rightarrow> False)))"

definition to_varg :: "carg \<Rightarrow> varg" where
  "to_varg a = (case a of CInt w \<Rightarrow> VInt w | CStr s \<Rightarrow> VStr (Some s))"

lemma dec_text_digits: "map digit_byte (rev (num_digits 10 n)) = dec_text n"
proof (induction n rule: dec_text.induct)
  case (1 n)
  have d: "digit_byte (n mod 10) = of_nat (48 + n mod 10)"
  proof -
    have "n mod 10 < 10" by simp
    then have "\<not> 10 \<le> n mod 10" by simp
    then have "digit_byte (n mod 10) = of_nat (n mod 10 + 48)" by (simp only: digit_byte_def if_False)
    then show ?thesis by (simp only: add.commute)
  qed
  show ?case
  proof (cases "n div 10 = 0")
    case True
    then have "n < 10" by simp
    then show ?thesis using d True by (subst num_digits.simps, subst dec_text.simps) (simp del: of_nat_add)
  next
    case False
    then have "\<not> n < 10" by simp
    then show ?thesis using d False 1 by (subst num_digits.simps, subst dec_text.simps) (simp del: of_nat_add)
  qed
qed

lemma printnum_plain: "printnum n 10 (- 1) c = dec_text n"
  by (simp add: printnum_def dec_text_digits)

lemma vp_flags_conv: "c \<in> {0x63, 0x73, 0x64} \<Longrightarrow> vp_flags (c # s) P ap = Some (c, s, P, ap)"
  by (auto simp: is_dec_def)

lemma scast_neg:
  fixes w :: u32
  shows "(scast w :: u64) <s 0 \<longleftrightarrow> sint w < 0"
    "sint w < 0 \<Longrightarrow> unat (- (scast w :: u64)) = unat (- w)"
    "\<not> sint w < 0 \<Longrightarrow> unat (scast w :: u64) = unat w"
proof -
  have r: "- 2147483648 \<le> sint w" "sint w < 2147483648" using sint_greater_eq [of w] sint_less [of w] by simp_all
  have u: "(scast w :: u64) = word_of_int (sint w)" "w = word_of_int (sint w)" by simp_all
  have w: "uint (word_of_int k :: u32) = k mod 2 ^ 32" for k unfolding uint_word_of_int by simp
  have s: "sint (scast w :: u64) = sint w" by (rule sint_up_scast) (simp add: is_up)
  show "(scast w :: u64) <s 0 \<longleftrightarrow> sint w < 0" by (simp add: word_sless_alt s)
  show "unat (scast w :: u64) = unat w" if "\<not> sint w < 0"
  proof -
    have "uint (scast w :: u64) = sint w mod 2 ^ 64" unfolding u(1) uint_word_of_int by simp
    moreover have "uint w = sint w mod 2 ^ 32" using w [of "sint w"] by (simp only: u(2) [symmetric])
    ultimately have "uint (scast w :: u64) = uint w" using that r by simp
    then show ?thesis by (simp only: unat_eq_nat_uint)
  qed
  show "unat (- (scast w :: u64)) = unat (- w)" if "sint w < 0"
  proof -
    have "uint (- (scast w :: u64)) = (- sint w) mod 2 ^ 64" unfolding u(1) wi_hom_neg uint_word_of_int by simp
    moreover have "uint (- w) = (- sint w) mod 2 ^ 32" using w [of "- sint w"] by (simp only: wi_hom_neg [symmetric] u(2) [symmetric])
    ultimately have "uint (- (scast w :: u64)) = uint (- w)" using that r by simp
    then show ?thesis by (simp only: unat_eq_nat_uint)
  qed
qed

lemma int_text_agrees:
  "(if (scast w :: u64) <s 0 then 0x2D # printnum (unat (- (scast w :: u64))) 10 (- 1) c
    else printnum (unat (scast w :: u64)) 10 (- 1) c) = int_text w"
  by (simp add: scast_neg printnum_plain int_text_def)

lemma vp_conv_plain:
  assumes "v_width P = - 1" "v_precision P = - 1" "v_lflag P < 2"
  shows "vp_conv 0x64 P (VInt w # ap) = Some (int_text w, ap)"
    "vp_conv 0x63 P (VInt w # ap) = Some ([ucast w], ap)"
    "vp_conv 0x73 P (VStr (Some p) # ap) = Some (p, ap)"
proof -
  show "vp_conv 0x64 P (VInt w # ap) = Some (int_text w, ap)"
    using assms int_text_agrees [of w "v_padc P"]
    by (cases "(scast w :: u64) <s 0") (simp_all add: vp_conv_def Let_def getint_def)
  show "vp_conv 0x63 P (VInt w # ap) = Some ([ucast w], ap)" by (simp add: vp_conv_def Let_def)
  show "vp_conv 0x73 P (VStr (Some p) # ap) = Some (p, ap)"
    using assms by (simp add: vp_conv_def Let_def vp_string_def)
qed

lemma percent_byte: "ch_byte CHR ''%'' = 0x25" "ch_byte CHR ''d'' = 0x64" "ch_byte CHR ''c'' = 0x63"
  "ch_byte CHR ''s'' = 0x73" "ch_byte CHR ''l'' = 0x6C"
  by (simp_all add: ch_byte_def)

lemma not_percent: "c \<noteq> CHR ''%'' \<Longrightarrow> ch_byte c \<noteq> 0x25"
  using ch_byte_inverse percent_byte(1) by metis

lemma conv_agrees:
  assumes "console_conv_text N pos d va = Some (u, va1)" "d \<in> {CHR ''d'', CHR ''c'', CHR ''s''}"
    and "v_width P = - 1" "v_precision P = - 1" "v_lflag P < 2" "pos + length u < N"
  shows "vp_conv (ch_byte d) P (map to_varg va) = Some (u, map to_varg va1)"
proof -
  have fits: "\<not> (d = CHR ''c'' \<and> \<not> pos + 1 < N)"
  proof
    assume c: "d = CHR ''c'' \<and> \<not> pos + 1 < N"
    then have "u = [0]" using assms(1) unfolding console_conv_text_def by (simp only: if_P) simp
    with c assms(6) show False by simp
  qed
  note ct = assms(1) [unfolded console_conv_text_def if_not_P [OF fits]]
  obtain a va' where va: "va = a # va'" using ct by (cases va) simp_all
  note P = vp_conv_plain [OF assms(3-5)]
  show ?thesis
  proof (cases a)
    case (CInt w)
    then show ?thesis using ct assms(2) by (auto simp: va to_varg_def percent_byte P split: if_splits)
  next
    case (CStr p)
    then show ?thesis using ct assms(2) by (auto simp: va to_varg_def percent_byte P split: if_splits)
  qed
qed

lemma vprintfmt_conv:
  assumes "vp_flags s vflags0 ap = Some (ch, t, P, ap1)" "is_conv ch" "vp_conv ch P ap1 = Some (u, ap2)"
  shows "vprintfmt (0x25 # s) ap = map_option (append u) (vprintfmt t ap2)"
  using assms by (subst vprintfmt.simps) simp

text \<open>The formatter of the boot program and the one of the kernel agree: on a format that uses only decimal
  numbers, characters and strings, both stand for the same text if it fits in the buffer.\<close>

theorem formatters_agree:
  assumes "plain_format s" "console_text N pos False s va = Some t" "pos + length t < N"
  shows "vprintfmt (map ch_byte s) (map to_varg va) = Some t"
  using assms
proof (induction s arbitrary: pos va t rule: plain_format.induct)
  case 1
  then show ?case by simp
next
  case (2 c s)
  show ?case
  proof (cases "c = CHR ''%''")
    case False
    then have "ch_byte c \<noteq> 0x25" by (rule not_percent)
    with 2 False show ?thesis by auto
  next
    case True
    with "2.prems"(1) obtain d s' where s: "s = d # s'" by (auto split: list.splits)
    show ?thesis
    proof (cases "d \<in> {CHR ''d'', CHR ''c'', CHR ''s''}")
      case d: True
      then have nl: "d \<noteq> CHR ''l''" and pf: "plain_format s'" using "2.prems"(1) True s by auto
      obtain u va1 v where v: "console_conv_text N pos d va = Some (u, va1)" "console_text N (pos + length u) False s' va1 = Some v" "t = u @ v"
        using "2.prems"(2) True s nl by (auto split: option.splits)
      have IH: "vprintfmt (map ch_byte s') (map to_varg va1) = Some v"
        by (rule "2.IH"(2) [OF _ s d pf v(2)]) (use "2.prems"(3) v(3) in \<open>simp_all add: True\<close>)
      have f: "vp_flags (map ch_byte s) vflags0 (map to_varg va) = Some (ch_byte d, map ch_byte s', vflags0, map to_varg va)"
        using d by (auto simp: s vp_flags_conv percent_byte simp del: vp_flags.simps)
      have "vp_conv (ch_byte d) vflags0 (map to_varg va) = Some (u, map to_varg va1)"
        by (rule conv_agrees [OF v(1) d]) (use "2.prems"(3) v(3) in \<open>simp_all add: vflags0_def\<close>)
      moreover have "is_conv (ch_byte d)" using d by (auto simp: percent_byte is_conv_def)
      ultimately show ?thesis using vprintfmt_conv [OF f] IH v(3) by (simp add: True percent_byte del: vprintfmt.simps)
    next
      case l: False
      then obtain s'' where s': "d = CHR ''l''" "s' = CHR ''d'' # s''" and pf: "plain_format s''"
        using "2.prems"(1) True s by (auto split: list.splits if_splits)
      obtain u va1 v where v: "console_conv_text N pos CHR ''d'' va = Some (u, va1)" "console_text N (pos + length u) False s'' va1 = Some v" "t = u @ v"
        using "2.prems"(2) True s s' by (auto split: option.splits)
      have IH: "vprintfmt (map ch_byte s'') (map to_varg va1) = Some v"
        by (rule "2.IH"(3) [OF _ s l s'(2) pf v(2)]) (use "2.prems"(3) v(3) in \<open>simp_all add: True\<close>)
      let ?P = "vflags0\<lparr>v_lflag := 1\<rparr>"
      have f: "vp_flags (map ch_byte s) vflags0 (map to_varg va) = Some (0x64, map ch_byte s'', ?P, map to_varg va)"
        by (simp add: s s' percent_byte is_dec_def) (simp add: vflags0_def)
      have "vp_conv 0x64 ?P (map to_varg va) = Some (u, map to_varg va1)"
        using conv_agrees [OF v(1), of ?P] "2.prems"(3) v(3) by (simp add: vflags0_def percent_byte)
      moreover have "is_conv 0x64" by (simp add: is_conv_def)
      ultimately show ?thesis using vprintfmt_conv [OF f] IH v(3) by (simp add: True percent_byte del: vprintfmt.simps)
    qed
  qed
qed

section \<open>Concrete runs\<close>

lemma digits_42: "num_digits 10 42 = [2, 4]"
  by (simp add: num_digits.simps)

text \<open>The flag for padding on the right pads numbers on the left, with dashes.\<close>

lemma minus_flag_pads_left: "vprintfmt (map ch_byte ''%-5d'') [VInt 42] = Some (map ch_byte ''---42'')"
proof -
  have m: "map ch_byte ''%-5d'' = [0x25, 0x2D, 0x35, 0x64]" by (simp add: ch_byte_def)
  have f: "vp_flags [0x2D, 0x35, 0x64] vflags0 [VInt 42] =
      Some (0x64, [], vflags0\<lparr>v_padc := 0x2D, v_width := 5, v_precision := - 1\<rparr>, [VInt 42])"
    by (simp add: is_dec_def process_precision_def vflags0_def word_sless_alt)
  have g: "getint 0 [VInt 42] = Some (42, [])" by (simp add: getint_def)
  have "vp_conv 0x64 (vflags0\<lparr>v_padc := 0x2D, v_width := 5, v_precision := - 1\<rparr>) [VInt 42] =
      Some ([0x2D, 0x2D, 0x2D, 0x34, 0x32], [])"
    by (simp add: vp_conv_def Let_def vflags0_def g word_sless_alt printnum_def digits_42 digit_byte_def numeral_3_eq_3)
  moreover have "is_conv 0x64" by (simp add: is_conv_def)
  ultimately have "vprintfmt [0x25, 0x2D, 0x35, 0x64] [VInt 42] = Some [0x2D, 0x2D, 0x2D, 0x34, 0x32]"
    using vprintfmt_conv [OF f] by simp
  then show ?thesis by (simp add: m ch_byte_def)
qed

theorem printnum_reads_back_witness:
  "\<exists>t. printnum 0xBEEF 16 8 0x30 = replicate (nat (8 - int (length t))) 0x30 @ t \<and> text_value 16 t = 0xBEEF"
  using printnum_reads_back [of 16 "0xBEEF" 8 "0x30"] by auto

theorem printf_buffered_witness:
  "\<exists>st'. sys_printf [0x68, 0x69, 0x0A] [] \<lparr>lb_buf = [0x3E], lb_sent = []\<rparr> = Some (0, st') \<and>
    concat (lb_sent st') @ lb_buf st' = [0x3E, 0x68, 0x69, 0x0A] \<and> lb_buf st' = []"
proof -
  have "linebuf_ok \<lparr>lb_buf = [0x3E], lb_sent = []\<rparr>" by (simp add: linebuf_ok_def LINE_SIZE_def)
  moreover have "vprintfmt [0x68, 0x69, 0x0A] [] = Some [0x68, 0x69, 0x0A]" by simp
  ultimately show ?thesis
    using printf_buffered [of "\<lparr>lb_buf = [0x3E], lb_sent = []\<rparr>" "[0x68, 0x69, 0x0A]" "[]"] by auto
qed

theorem formatters_agree_witness:
  "vprintfmt (map ch_byte ''a%d%s'') [VInt 7, VStr (Some [0x7A])] = Some [0x61, 0x37, 0x7A]"
proof -
  have "console_text 10 0 False ''a%d%s'' [CInt 7, CStr [0x7A]] = Some [0x61, 0x37, 0x7A]"
    by (simp add: console_conv_text_def int_text_def dec_text.simps ch_byte_def)
  from formatters_agree [OF _ this] show ?thesis by (simp add: to_varg_def)
qed

text \<open>A system call resumes behind the instruction with its result in \<open>a0\<close> and no other register changed; a write
  sends the bytes the arguments name.\<close>

lemma write_syscall:
  assumes "regs ! 17 = SYS_write"
  shows "handle_trap m ci ba csrs counters CAUSE_USER_ECALL epc regs =
    Some (Inr (epc + 4, regs[10 := 0], counters, [Sent (load_bytes m (regs ! 11) (unat (regs ! 12)))]))"
  using assms
  by (simp add: handle_trap_def handle_ecall_def handle_frontend_syscall_def Let_def CAUSE_USER_ECALL_def
    CAUSE_ILLEGAL_INSTRUCTION_def SYS_write_def SYS_set_iobase_def SYS_set_membase_def SYS_exit_def SYS_stats_def SYS_soft_reset_def)

lemma unknown_trap_halts:
  assumes "cause \<noteq> CAUSE_USER_ECALL" "\<not> (cause = CAUSE_ILLEGAL_INSTRUCTION \<and> rd32 m epc AND ci = ci)"
    and "handle_trap m ci ba csrs counters cause epc regs = Some r"
  shows "\<exists>t. r = Inl (t @ tohost_exit 1337)"
  using assms by (auto simp: handle_trap_def Let_def split: option.splits)

end
