(* ===== verification/Monitor.thy ===== *)
theory Monitor
  imports SRecord Uart
begin

text \<open>
  The command monitor of the boot ROM (bootstrap/simple.c, the RISC-V branch without \<open>SD_LIB\<close>): it reads a line
  from the serial FIFO into \<open>ucmd\<close>, which lies in the memory the commands work on, and carries it out.  The
  commands that read and write memory act on the memory only, not on device registers.  The code that
  \<open>entry\<close> calls is a parameter.  \<open>None\<close> is a loop that does not end, or a device that never answers.
\<close>

section \<open>Text\<close>

definition mon_conv_digit :: "char \<Rightarrow> nat option" where
  "mon_conv_digit c =
     (let v = of_char c :: nat in
      if 48 \<le> v \<and> v \<le> 57 then Some (v - 48)
      else if 65 \<le> v \<and> v \<le> 70 then Some (v - 65 + 10)
      else if 97 \<le> v \<and> v \<le> 102 then Some (v - 97 + 10)
      else None)"

text \<open>\<open>scan\<close>: the rest of the text and the number; a character that is neither a digit nor a space ends it and is
  skipped.\<close>

fun scan_digits :: "u32 \<Rightarrow> u32 \<Rightarrow> string \<Rightarrow> string \<times> u32" where
  "scan_digits base data [] = ([], data)"
| "scan_digits base data (c # s) =
     (case mon_conv_digit c of
        Some v \<Rightarrow> scan_digits base (data * base + of_nat v) s
      | None \<Rightarrow> if c = CHR '' '' then scan_digits base data s else (s, data))"

definition scan :: "string \<Rightarrow> u32 \<Rightarrow> string \<times> u32" where
  "scan start base = scan_digits base 0 start"

definition mystrtol :: "string \<Rightarrow> u32 \<Rightarrow> u32" where
  "mystrtol nptr base = snd (scan nptr base)"

fun myputn :: "nat \<Rightarrow> u8 list" where
  "myputn n = (if n > 9 then myputn (n div 10) else []) @ [of_nat (n mod 10 + 48)]"

declare myputn.simps [simp del]

section \<open>State\<close>

record 'd mon =
  mmem :: mem
  mdev :: 'd
  echo :: bool
  msrec :: srecord

record 'd mon_env =
  mbus :: "'d bus"
  mcall :: "u32 \<Rightarrow> 'd mon \<Rightarrow> 'd mon option"
  ucmd :: u32

definition say :: "'d mon_env \<Rightarrow> u8 list \<Rightarrow> 'd mon \<Rightarrow> 'd mon option" where
  "say E t st = map_option (\<lambda>d. st\<lparr>mdev := d\<rparr>) (send_list (uart_sendchar (mbus E)) t (mdev st))"

definition str_bytes :: "string \<Rightarrow> u8 list" where "str_bytes s = map ch_byte s"

section \<open>Reading a command\<close>

definition mygetchar :: "'d mon_env \<Rightarrow> 'd mon \<Rightarrow> (u8 \<times> 'd mon) option" where
  "mygetchar E st =
     (case uart_getchar (mbus E) (mdev st) of
        None \<Rightarrow> None
      | Some (ch, d) \<Rightarrow>
          (let st = st\<lparr>mdev := d\<rparr> in
           if echo st then map_option (Pair ch) (say E [ch] st) else Some (ch, st)))"

partial_function (option) mygets_loop :: "'d mon_env \<Rightarrow> u32 \<Rightarrow> u8 \<Rightarrow> 'd mon \<Rightarrow> 'd mon option" where
  "mygets_loop E chp ch st =
     (if ch \<noteq> 0x0D then
        (let (chp, st) = (if ch \<noteq> 0x0A then (chp + 1, st\<lparr>mmem := (mmem st)(chp := ch)\<rparr>) else (chp, st)) in
         if ch = 4 then Some st
         else (case mygetchar E st of None \<Rightarrow> None | Some (ch, st) \<Rightarrow> mygets_loop E chp ch st))
      else Some (st\<lparr>mmem := (mmem st)(chp := 0)\<rparr>))"

definition mygets :: "'d mon_env \<Rightarrow> u32 \<Rightarrow> 'd mon \<Rightarrow> 'd mon option" where
  "mygets E cmd st =
     (case mygetchar E st of None \<Rightarrow> None | Some (ch, st) \<Rightarrow> mygets_loop E cmd ch st)"

text \<open>The characters of a string in memory.\<close>

partial_function (option) mem_string :: "mem \<Rightarrow> u32 \<Rightarrow> string option" where
  "mem_string m a =
     (if m a = 0 then Some []
      else Option.bind (mem_string m (a + 1)) (\<lambda>s. Some (byte_ch (m a) # s)))"

section \<open>The commands\<close>

text \<open>An S-Record is read from the command itself; the fields are converted with \<open>mystrtol\<close>.\<close>

definition mon_read_srecord :: "string \<Rightarrow> srecord \<Rightarrow> srec_ret \<times> srecord" where
  "mon_read_srecord recordBuff srec = parse_srecord (\<lambda>f. uint (mystrtol f 16)) recordBuff srec"

definition write_code_data :: "u32 \<Rightarrow> int \<Rightarrow> u8 list \<Rightarrow> mem \<Rightarrow> mem" where
  "write_code_data addr len data m = store_bytes m addr (take (nat len) data)"

definition write_code_data32 :: "u32 \<Rightarrow> u32 \<Rightarrow> mem \<Rightarrow> mem" where
  "write_code_data32 addr data m = wr32 m addr data"

definition read_code_data :: "u32 \<Rightarrow> mem \<Rightarrow> u32" where
  "read_code_data addr m = ucast (m addr)"

definition Convert_SRecord :: "'d mon_env \<Rightarrow> 'd mon \<Rightarrow> 'd mon option" where
  "Convert_SRecord E st =
     (let r = msrec st; ty = sr_type r in
      if ty \<in> {7, 8, 9} then
        (case say E (str_bytes ''entry = '' @ myputhex (sr_address r) 8 @ [0x0D, 0x0A]) st of
           None \<Rightarrow> None
         | Some st \<Rightarrow> mcall E (sr_address r) st)
      else if ty \<in> {1, 2, 3} then
        Some (st\<lparr>mmem := write_code_data (sr_address r) (sr_dataLen r) (sr_data r) (mmem st)\<rparr>)
      else Some st)"

text \<open>The loop of the \<open>R\<close> command.\<close>

definition dump_line :: "mem \<Rightarrow> u32 \<Rightarrow> u8 list" where
  "dump_line m addr =
     str_bytes (lf # ''R '') @ myputhex addr 8 @ str_bytes '':'' @
     myputhex (read_code_data addr m OR push_bit 8 (read_code_data (addr + 1) m)
       OR push_bit 16 (read_code_data (addr + 2) m) OR push_bit 24 (read_code_data (addr + 3) m)) 8"

partial_function (option) dump_words :: "'d mon_env \<Rightarrow> u32 \<Rightarrow> u32 \<Rightarrow> 'd mon \<Rightarrow> 'd mon option" where
  "dump_words E addr addr2 st =
     (if addr \<le> addr2 then
        (case say E (dump_line (mmem st) addr) st of None \<Rightarrow> None | Some st \<Rightarrow> dump_words E (addr + 4) addr2 st)
      else Some st)"

text \<open>The commands that print, list and change memory; the numbers follow the command letter.\<close>

definition mon_memory :: "'d mon_env \<Rightarrow> char \<Rightarrow> string \<Rightarrow> 'd mon \<Rightarrow> 'd mon option" where
  "mon_memory E c args st =
     (let (nxt, addr) = scan args 16; (nxt2, data) = scan nxt 16 in
      if c = CHR ''o'' then
        say E (str_bytes (lf # ''o '') @ myputhex addr 8 @ str_bytes '','' @ myputhex data 2) st
      else if c = CHR ''r'' then
        say E (str_bytes (lf # ''r '') @ myputhex addr 8 @ str_bytes '','' @ myputhex (read_code_data addr (mmem st)) 2) st
      else if c = CHR ''R'' then dump_words E (addr AND NOT 3) data st
      else if c = CHR ''w'' then
        (case say E (str_bytes (lf # ''w '') @ myputhex addr 8 @ str_bytes '','' @ myputhex data 2) st of
           None \<Rightarrow> None
         | Some st \<Rightarrow> Some (st\<lparr>mmem := write_code_data addr 1 [ucast data] (mmem st)\<rparr>))
      else
        (case say E (str_bytes (lf # ''W '') @ myputhex addr 8 @ str_bytes '','' @ myputhex data 8) st of
           None \<Rightarrow> None
         | Some st \<Rightarrow> Some (st\<lparr>mmem := write_code_data32 addr data (mmem st)\<rparr>)))"

definition mon_srecord :: "'d mon_env \<Rightarrow> string \<Rightarrow> 'd mon \<Rightarrow> 'd mon option" where
  "mon_srecord E line st =
     (case mon_read_srecord line (msrec st) of
        (ret, r) \<Rightarrow>
          (let st = st\<lparr>msrec := r\<rparr> in
           if ret = SRECORD_OK then Convert_SRecord E st
           else if ret = SRECORD_ERROR_INVALID_RECORD then say E (str_bytes ''?'') st
           else Some st))"

definition mon_command :: "'d mon_env \<Rightarrow> char \<Rightarrow> string \<Rightarrow> 'd mon \<Rightarrow> 'd mon option" where
  "mon_command E c args st =
     (if c = CHR ''e'' then
        (let st = st\<lparr>echo := \<not> echo st\<rparr> in say E (str_bytes (lf # ''e '') @ myputhex (of_bool (echo st)) 1) st)
      else if c = CHR ''B'' then
        (case say E (str_bytes (lf # ''Boostrapping ...'')) st of
           None \<Rightarrow> None
         | Some st \<Rightarrow>
             mcall E 0x8000 (st\<lparr>mmem := store_bytes (mmem st) 0x8000 (load_bytes (mmem st) 0x808000 0x8000)\<rparr>))
      else if c \<in> set ''orRwW'' then mon_memory E c args st
      else if c = CHR ''S'' then mon_srecord E (c # args) st
      else say E (str_bytes (lf # ''unknown command'')) st)"

text \<open>
  One round of \<open>main\<close>; the character 4 does nothing, and an empty command is the character NUL, which is
  unknown.
\<close>

definition mon_round :: "'d mon_env \<Rightarrow> 'd mon \<Rightarrow> 'd mon option" where
  "mon_round E st =
     (case say E [0x0A] st of
        None \<Rightarrow> None
      | Some st \<Rightarrow>
          (case mygets E (ucmd E) st of
             None \<Rightarrow> None
           | Some st \<Rightarrow>
               if mmem st (ucmd E) = 4 then Some st
               else
                 (case mem_string (mmem st) (ucmd E) of
                    None \<Rightarrow> None
                  | Some [] \<Rightarrow> mon_command E nul [] st
                  | Some (c # args) \<Rightarrow> mon_command E c args st)))"

partial_function (option) mon_loop :: "'d mon_env \<Rightarrow> 'd mon \<Rightarrow> 'd mon option" where
  "mon_loop E st =
     (case mon_round E st of
        None \<Rightarrow> None
      | Some st \<Rightarrow> if mmem st (ucmd E) \<noteq> 4 then mon_loop E st else Some st)"

definition mon_main :: "'d mon_env \<Rightarrow> 'd mon \<Rightarrow> 'd mon option" where
  "mon_main E st = (case say E (str_bytes ''Hello'' @ [0x0A]) st of None \<Rightarrow> None | Some st \<Rightarrow> mon_loop E st)"

text \<open>\<open>_start\<close> (bootstrap/start.c) copies the initialised data and calls \<open>main\<close>.\<close>

definition mon_start :: "'d mon_env \<Rightarrow> 'd mon \<Rightarrow> 'd mon option" where
  "mon_start E st = mon_main E (st\<lparr>mmem := store_bytes (mmem st) 0x10000 (load_bytes (mmem st) 0x810000 0x10)\<rparr>)"


section \<open>The serial line\<close>

definition mon_ready :: "'d mon_env \<Rightarrow> ('d \<Rightarrow> u8 list) \<Rightarrow> ('d \<Rightarrow> u8 list) \<Rightarrow> ('d \<Rightarrow> bool) \<Rightarrow> 'd mon \<Rightarrow> bool" where
  "mon_ready E sent inp good st \<longleftrightarrow> fifo_laws (mbus E) sent inp good \<and> good (mdev st)"

text \<open>Only the device of the state may have changed.\<close>

definition same_mon :: "'d mon \<Rightarrow> 'd mon \<Rightarrow> bool" where
  "same_mon st st' \<longleftrightarrow> mmem st' = mmem st \<and> echo st' = echo st \<and> msrec st' = msrec st"

lemma same_mon_refl [simp]: "same_mon st st"
  by (simp add: same_mon_def)

lemma same_mon_trans: "same_mon st st' \<Longrightarrow> same_mon st' st'' \<Longrightarrow> same_mon st st''"
  by (simp add: same_mon_def)

lemma say_ok:
  assumes "mon_ready E sent inp good st"
  shows "\<exists>st'. say E t st = Some st' \<and> mon_ready E sent inp good st' \<and> same_mon st st' \<and>
    sent (mdev st') = sent (mdev st) @ t \<and> inp (mdev st') = inp (mdev st)"
proof -
  have e: "uart_sendchar (mbus E) = fifo_send (mbus E)" by (intro ext) (rule uart_sendchar_fifo)
  from fifo.send_list_io [of "mbus E" sent inp good "mdev st" t] assms
  obtain d where "send_list (fifo_send (mbus E)) t (mdev st) = Some d" "sent d = sent (mdev st) @ t" "inp d = inp (mdev st)" "good d"
    by (auto simp: mon_ready_def)
  with assms show ?thesis by (auto simp: say_def e mon_ready_def same_mon_def)
qed

lemma mygetchar_ok:
  assumes "mon_ready E sent inp good st" "inp (mdev st) = c # cs"
  shows "\<exists>st'. mygetchar E st = Some (c, st') \<and> mon_ready E sent inp good st' \<and> same_mon st st' \<and>
    sent (mdev st') = sent (mdev st) @ (if echo st then [c] else []) \<and> inp (mdev st') = cs"
proof -
  from uart_getchar_law [of "mbus E" sent inp good "mdev st" c cs] assms
  obtain d where d: "uart_getchar (mbus E) (mdev st) = Some (c, d)" "inp d = cs" "sent d = sent (mdev st)" "good d"
    by (auto simp: mon_ready_def)
  have r: "mon_ready E sent inp good (st\<lparr>mdev := d\<rparr>)" using assms(1) d(4) by (simp add: mon_ready_def)
  from say_ok [OF r, of "[c]"] d r show ?thesis
    by (cases "echo st") (auto simp: mygetchar_def same_mon_def)
qed

lemma mygets_loop_line:
  assumes "mon_ready E sent inp good st" "ch # inp (mdev st) = l @ 0x0D # rest" "0x0D \<notin> set l" "4 \<notin> set l"
  shows "\<exists>st'. mygets_loop E chp ch st = Some st' \<and> mon_ready E sent inp good st' \<and>
    mmem st' = store_bytes (mmem st) chp (filter (\<lambda>c. c \<noteq> 0x0A) l @ [0]) \<and> echo st' = echo st \<and> msrec st' = msrec st \<and>
    sent (mdev st') = sent (mdev st) @ (if echo st then tl (l @ [0x0D]) else []) \<and> inp (mdev st') = rest"
  using assms
proof (induction l arbitrary: chp ch st)
  case Nil
  then show ?case by (subst mygets_loop.simps) (simp add: mon_ready_def)
next
  case (Cons c l)
  then have c: "ch = c" "inp (mdev st) = l @ 0x0D # rest" "c \<noteq> 0x0D" "c \<noteq> 4" by auto
  define chp1 where "chp1 = (if c \<noteq> 0x0A then chp + 1 else chp)"
  define st1 where "st1 = (if c \<noteq> 0x0A then st\<lparr>mmem := (mmem st)(chp := c)\<rparr> else st)"
  obtain h r where h: "l @ 0x0D # rest = h # r" by (cases "l @ 0x0D # rest") auto
  have i1: "inp (mdev st1) = h # r" "mon_ready E sent inp good st1" "echo st1 = echo st" "msrec st1 = msrec st"
    "sent (mdev st1) = sent (mdev st)" using Cons.prems(1) c(2) h by (simp_all add: st1_def mon_ready_def)
  from mygetchar_ok [OF i1(2,1)] obtain st2 where st2: "mygetchar E st1 = Some (h, st2)" "mon_ready E sent inp good st2"
    "same_mon st1 st2" "sent (mdev st2) = sent (mdev st1) @ (if echo st1 then [h] else [])" "inp (mdev st2) = r" by blast
  have step: "mygets_loop E chp ch st = mygets_loop E chp1 h st2"
    using c st2(1) by (subst mygets_loop.simps) (auto simp: chp1_def st1_def)
  have p2: "h # inp (mdev st2) = l @ 0x0D # rest" "0x0D \<notin> set l" "4 \<notin> set l" using h st2(5) Cons.prems by auto
  have hd: "tl (c # l @ [0x0D]) = h # tl (l @ [0x0D])" using h by (cases l) auto
  have m: "store_bytes (mmem st) chp (filter (\<lambda>c. c \<noteq> 0x0A) (c # l) @ [0]) =
      store_bytes (mmem st2) chp1 (filter (\<lambda>c. c \<noteq> 0x0A) l @ [0])"
    using st2(3) by (simp add: st1_def chp1_def same_mon_def)
  from Cons.IH [OF st2(2) p2, of chp1] show ?case
    unfolding step m append_Cons hd using st2(3,4) i1(3-5) by (auto simp: same_mon_def)
qed

lemma mygets_ok:
  assumes "mon_ready E sent inp good st" "inp (mdev st) = l @ 0x0D # rest" "0x0D \<notin> set l" "4 \<notin> set l"
  shows "\<exists>st'. mygets E cmd st = Some st' \<and> mon_ready E sent inp good st' \<and>
    mmem st' = store_bytes (mmem st) cmd (filter (\<lambda>c. c \<noteq> 0x0A) l @ [0]) \<and> echo st' = echo st \<and> msrec st' = msrec st \<and>
    sent (mdev st') = sent (mdev st) @ (if echo st then l @ [0x0D] else []) \<and> inp (mdev st') = rest"
proof -
  obtain h r where h: "l @ 0x0D # rest = h # r" by (cases "l @ 0x0D # rest") auto
  from mygetchar_ok [OF assms(1), of h r] assms(2) h obtain st2 where st2: "mygetchar E st = Some (h, st2)"
    "mon_ready E sent inp good st2" "same_mon st st2" "sent (mdev st2) = sent (mdev st) @ (if echo st then [h] else [])"
    "inp (mdev st2) = r" by auto
  have p2: "h # inp (mdev st2) = l @ 0x0D # rest" using h st2(5) by simp
  have hd: "l @ [0x0D] = h # tl (l @ [0x0D])" using h by (cases l) auto
  from mygets_loop_line [OF st2(2) p2 assms(3,4), of cmd] obtain st' where st': "mygets_loop E cmd h st2 = Some st'"
    "mon_ready E sent inp good st'" "mmem st' = store_bytes (mmem st2) cmd (filter (\<lambda>c. c \<noteq> 0x0A) l @ [0])"
    "echo st' = echo st2" "msrec st' = msrec st2"
    "sent (mdev st') = sent (mdev st2) @ (if echo st2 then tl (l @ [0x0D]) else [])" "inp (mdev st') = rest" by blast
  have "sent (mdev st') = sent (mdev st) @ (if echo st then l @ [0x0D] else [])"
    using st'(6) st2(3,4) hd by (auto simp: same_mon_def)
  then show ?thesis using st' st2(1,3) by (auto simp: mygets_def same_mon_def)
qed

text \<open>A line on the serial port is read to its end: up to the carriage return every character but line feeds is
  stored, followed by a zero, all of the line is echoed if the switch is on, what follows it stays for the next
  command, and no other byte of memory changes.  Nothing bounds the line, so one of 100 characters or more
  is stored past the end of the array \<open>ucmd\<close>.\<close>

theorem mygets_line:
  assumes "mon_ready E sent inp good st" "inp (mdev st) = l @ 0x0D # rest" "0x0D \<notin> set l" "4 \<notin> set l"
    and "length l < 2 ^ 31"
  shows "\<exists>st'. mygets E cmd st = Some st' \<and> inp (mdev st') = rest \<and>
    sent (mdev st') = sent (mdev st) @ (if echo st then l @ [0x0D] else []) \<and>
    (let t = filter (\<lambda>c. c \<noteq> 0x0A) l in
     load_bytes (mmem st') cmd (length t + 1) = t @ [0] \<and>
     (\<forall>x. length t < unat (x - cmd) \<longrightarrow> mmem st' x = mmem st x) \<and>
     (100 \<le> length t \<longrightarrow> mmem st' (cmd + 100) = (t @ [0]) ! 100))"
proof -
  let ?t = "filter (\<lambda>c. c \<noteq> 0x0A) l"
  have "length ?t \<le> length l" by (rule length_filter_le)
  moreover have "length l < 2147483648" using assms(5) by simp
  ultimately have "length ?t + 1 \<le> 4294967296" by linarith
  then have lt: "length (?t @ [0]) \<le> 2 ^ 32" by simp
  from mygets_ok [OF assms(1-4), of cmd] obtain st' where st': "mygets E cmd st = Some st'"
    "mmem st' = store_bytes (mmem st) cmd (?t @ [0])" "inp (mdev st') = rest"
    "sent (mdev st') = sent (mdev st) @ (if echo st then l @ [0x0D] else [])" by blast
  have "load_bytes (mmem st') cmd (length ?t + 1) = ?t @ [0]"
    using load_store_same [OF lt, of "mmem st" cmd] by (simp add: st'(2))
  moreover have "\<forall>x. length ?t < unat (x - cmd) \<longrightarrow> mmem st' x = mmem st x"
    using lt by (simp add: st'(2) store_bytes_apply)
  moreover have "mmem st' (cmd + 100) = (?t @ [0]) ! 100" if "100 \<le> length ?t"
    using that lt by (simp add: st'(2) store_bytes_apply)
  ultimately show ?thesis using st'(1,3,4) by (auto simp: Let_def)
qed

section \<open>Loading a file of S-Records\<close>

lemma mon_digit: "d < 16 \<Longrightarrow> mon_conv_digit (hex_digit d) = Some d"
proof -
  assume "d < 16"
  then have "d \<in> set [0..<16]" by simp
  then show ?thesis by (simp add: upt_rec) (elim disjE, simp_all add: mon_conv_digit_def hex_digit_def Let_def)
qed

lemma scan_hexn: "scan_digits 16 data (hexn p v @ s) = scan_digits 16 (data * 16 ^ p + of_nat (v mod 16 ^ p)) s"
proof (induction p arbitrary: v s)
  case 0
  then show ?case by simp
next
  case (Suc p)
  have "v mod 16 ^ Suc p = 16 * (v div 16 mod 16 ^ p) + v mod 16" by (simp add: mod_mult2_eq)
  moreover have "v mod 16 < 16" by simp
  ultimately show ?case
    using Suc.IH [of "v div 16" "hex_digit (v mod 16) # s"]
    by (simp add: hexn.simps(2) mon_digit algebra_simps)
qed

text \<open>Its numbers are unsigned, so unlike \<open>strtol\<close> the monitor reads eight digits exactly.\<close>

lemma mon_number: "p \<le> 8 \<Longrightarrow> v < 16 ^ p \<Longrightarrow> uint (mystrtol (hexn p v) 16) = int v"
proof -
  assume p: "p \<le> 8" and v: "v < 16 ^ p"
  have "(16::nat) ^ p \<le> 16 ^ 8" using p by (intro power_increasing) auto
  with v have "v < 2 ^ 32" by simp
  then have "unat (of_nat v :: u32) = v" by (rule unat_offset)
  moreover have "mystrtol (hexn p v) 16 = of_nat v"
    using scan_hexn [of 0 p v "[]"] v by (simp add: mystrtol_def scan_def)
  ultimately show "uint (mystrtol (hexn p v) 16) = int v" by (metis uint_nat)
qed

lemma mon_reads_hex: "reads_hex (\<lambda>f. uint (mystrtol f 16))"
  unfolding reads_hex_def by (simp add: mon_number)

lemma mon_read_back: "valid_srecord r \<Longrightarrow> read_back (\<lambda>f. uint (mystrtol f 16)) r = r"
proof -
  assume v: "valid_srecord r"
  then have "address_width r \<le> 8" "unat (sr_address r) < 16 ^ address_width r"
    using srec_fits_width(2) [of r] by (auto simp: valid_srecord_def)
  then show ?thesis by (simp add: read_back_def mon_number)
qed

lemma mem_string_ok: "load_bytes m a (length bs + 1) = bs @ [0] \<Longrightarrow> 0 \<notin> set bs \<Longrightarrow> mem_string m a = Some (map byte_ch bs)"
proof (induction bs arbitrary: a)
  case Nil
  then show ?case by (simp add: mem_string.simps)
next
  case (Cons b bs)
  then have "m a = b" "b \<noteq> 0" "mem_string m (a + 1) = Some (map byte_ch bs)" by auto
  then show ?case by (subst mem_string.simps) simp
qed

text \<open>The characters of a record's line as bytes.\<close>

lemma line_bytes:
  assumes "nul \<notin> set l" "cr \<notin> set l" "lf \<notin> set l" "\<forall>c \<in> set l. c \<noteq> CHR 0x04"
  shows "0x0D \<notin> set (map ch_byte l)" "4 \<notin> set (map ch_byte l)" "0 \<notin> set (map ch_byte l)"
    "filter (\<lambda>c. c \<noteq> 0x0A) (map ch_byte l) = map ch_byte l"
proof -
  have b: "ch_byte c \<noteq> b" if "c \<in> set l" "byte_ch b \<notin> set l" for c b using that ch_byte_inverse by metis
  have c: "ch_byte cr = 0x0D" "ch_byte CHR 0x04 = 4" "ch_byte nul = 0" "ch_byte lf = 0x0A"
    by (simp_all add: ch_byte_def cr_def nul_def lf_def)
  have e: "byte_ch 0x0D = cr" "byte_ch 4 = CHR 0x04" "byte_ch 0 = nul" "byte_ch 0x0A = lf"
    unfolding c [symmetric] by simp_all
  show "0x0D \<notin> set (map ch_byte l)" "4 \<notin> set (map ch_byte l)" "0 \<notin> set (map ch_byte l)"
    using b [of _ "0x0D"] b [of _ 4] b [of _ 0] assms unfolding e by fastforce+
  show "filter (\<lambda>c. c \<noteq> 0x0A) (map ch_byte l) = map ch_byte l"
    using b [of _ "0x0A"] assms(3) unfolding e by (intro filter_True) auto
qed

lemma srec_line_no_eot: "\<forall>c \<in> set (srec_line r k). c \<noteq> CHR 0x04"
proof -
  have "hex_val CHR 0x04 = None" by (simp add: hex_val_def Let_def)
  then have n: "CHR 0x04 \<noteq> hex_digit d" if "d < 16" for d using hex_val_digit [OF that] by auto
  have "CHR 0x04 \<notin> set (hexn p v)" for p v
  proof
    assume "CHR 0x04 \<in> set (hexn p v)"
    then obtain d where "d < 16" "CHR 0x04 = hex_digit d" using hexn_digits by blast
    then show False using n by simp
  qed
  moreover have "CHR 0x04 \<notin> set (hex_bytes bs)" for bs
    using calculation by (auto simp: hex_bytes_def)
  ultimately show ?thesis by (auto simp: srec_line_def)
qed

text \<open>One round of the monitor on a line, possibly after the line feed that ended the one before.\<close>

lemma round_line:
  assumes "mon_ready E sent inp good st" "inp (mdev st) = replicate k 0x0A @ map ch_byte (c # args) @ 0x0D # rest"
    and "nul \<notin> set (c # args)" "cr \<notin> set (c # args)" "lf \<notin> set (c # args)" "\<forall>x \<in> set (c # args). x \<noteq> CHR 0x04"
    and "length (c # args) < 2 ^ 31"
  shows "\<exists>st'. mon_round E st = mon_command E c args st' \<and> mon_ready E sent inp good st' \<and>
    mmem st' = store_bytes (mmem st) (ucmd E) (map ch_byte (c # args) @ [0]) \<and> echo st' = echo st \<and> msrec st' = msrec st \<and>
    inp (mdev st') = rest"
proof -
  let ?l = "c # args"
  from say_ok [OF assms(1), of "[0x0A]"] obtain st1 where st1: "say E [0x0A] st = Some st1" "mon_ready E sent inp good st1"
    "same_mon st st1" "inp (mdev st1) = inp (mdev st)" by blast
  note lb = line_bytes [OF assms(3-6)]
  have "inp (mdev st1) = (replicate k 0x0A @ map ch_byte ?l) @ 0x0D # rest" using assms(2) st1(4) by simp
  from mygets_ok [OF st1(2) this, of "ucmd E"] lb(1,2) obtain st2 where st2: "mygets E (ucmd E) st1 = Some st2"
    "mon_ready E sent inp good st2"
    "mmem st2 = store_bytes (mmem st1) (ucmd E) (filter (\<lambda>c. c \<noteq> 0x0A) (replicate k 0x0A @ map ch_byte ?l) @ [0])"
    "echo st2 = echo st1" "msrec st2 = msrec st1" "inp (mdev st2) = rest" by auto
  have m: "mmem st2 = store_bytes (mmem st) (ucmd E) (map ch_byte ?l @ [0])"
    using st2(3) st1(3) by (simp only: filter_append lb(4) same_mon_def) simp
  have "length (map ch_byte ?l @ [0]) \<le> 2 ^ 32" using assms(7) by simp
  then have "load_bytes (mmem st2) (ucmd E) (length (map ch_byte ?l) + 1) = map ch_byte ?l @ [0]"
    using load_store_same [of "map ch_byte ?l @ [0]" "mmem st" "ucmd E"] by (simp add: m del: store_bytes.simps load_bytes.simps)
  from mem_string_ok [OF this lb(3)] have "mem_string (mmem st2) (ucmd E) = Some (map byte_ch (map ch_byte ?l))" .
  then have ms: "mem_string (mmem st2) (ucmd E) = Some ?l" by (simp add: comp_def)
  have "mmem st2 (ucmd E) = ch_byte c"
    using \<open>load_bytes (mmem st2) (ucmd E) (length (map ch_byte ?l) + 1) = map ch_byte ?l @ [0]\<close> by simp
  then have "mmem st2 (ucmd E) \<noteq> 4" using lb(2) by auto
  then have "mon_round E st = mon_command E c args st2" unfolding mon_round_def by (simp add: st1(1) st2(1) ms)
  then show ?thesis using st2 m st1(3) by (auto simp: same_mon_def)
qed

lemma round_srecord:
  assumes "mon_ready E sent inp good st" "valid_srecord r" "sr_type r \<in> {1, 2, 3}" "srec_shape (msrec st)"
    and "inp (mdev st) = replicate k 0x0A @ map ch_byte (srec_line r (sr_checksum r)) @ 0x0D # rest"
  shows "\<exists>st'. mon_round E st = Some st' \<and> mon_ready E sent inp good st' \<and> srec_shape (msrec st') \<and> inp (mdev st') = rest \<and>
    mmem st' = store_bytes (store_bytes (mmem st) (ucmd E) (map ch_byte (srec_line r (sr_checksum r)) @ [0]))
      (sr_address r) (srec_payload r)"
proof -
  obtain args where l: "srec_line r (sr_checksum r) = CHR ''S'' # args" by (simp add: srec_line_def)
  have v: "srec_fits r" "Checksum_SRecord r = Some (sr_checksum r)" "read_back (\<lambda>f. uint (mystrtol f 16)) r = r"
    using assms(2) mon_read_back by (auto simp: valid_srecord_def)
  note p = srec_line_plain [of r "sr_checksum r"] srec_line_no_eot [of r "sr_checksum r"]
  have "length (srec_line r (sr_checksum r)) < 2 ^ 31" using srec_line_length [OF v(1), of "sr_checksum r"] by simp
  from round_line [OF assms(1) _ p [unfolded l] this [unfolded l], of k rest] assms(5) l
  obtain st1 where st1: "mon_round E st = mon_command E CHR ''S'' args st1" "mon_ready E sent inp good st1"
    "mmem st1 = store_bytes (mmem st) (ucmd E) (map ch_byte (CHR ''S'' # args) @ [0])" "msrec st1 = msrec st"
    "inp (mdev st1) = rest" by auto
  from parse_srecord_line [OF mon_reads_hex v(1) assms(4), of "sr_checksum r"] v(3) obtain r' where r': "srec_shape r'"
    "sr_dataLen r' = sr_dataLen r" "srec_view r' = srec_view r"
    "parse_srecord (\<lambda>f. uint (mystrtol f 16)) (srec_line r (sr_checksum r)) (msrec st) =
      (if Some (sr_checksum r) = Checksum_SRecord r' then SRECORD_OK else SRECORD_ERROR_INVALID_RECORD, r')" by auto
  have w: "sr_type r' = sr_type r" "sr_address r' = sr_address r" "srec_payload r' = srec_payload r"
    using r'(3) by (simp_all add: srec_view_def)
  have "Checksum_SRecord r' = Checksum_SRecord r"
    by (rule Checksum_SRecord_view [OF w(1,2) r'(2) w(3) v(1) r'(1)])
  then have rd: "mon_read_srecord (CHR ''S'' # args) (msrec st1) = (SRECORD_OK, r')"
    using r'(4) v(2) l st1(4) by (simp add: mon_read_srecord_def)
  have c: "mon_command E CHR ''S'' args st1 = Convert_SRecord E (st1\<lparr>msrec := r'\<rparr>)"
    by (simp add: mon_command_def mon_srecord_def rd)
  have "Convert_SRecord E (st1\<lparr>msrec := r'\<rparr>) =
      Some (st1\<lparr>msrec := r', mmem := store_bytes (mmem st1) (sr_address r) (srec_payload r)\<rparr>)"
    using assms(3) w r'(2) by (auto simp: Convert_SRecord_def Let_def write_code_data_def srec_payload_def)
  then show ?thesis using st1 c r'(1) l by (auto simp: mon_ready_def)
qed

text \<open>The text the record writer of the other programs makes of a record.\<close>

definition record_text :: "srecord \<Rightarrow> string" where
  "record_text r = odata (the (snd (Write_SRecord (Some r) (Some out_blank))))"

lemma record_text_line: "valid_srecord r \<Longrightarrow> record_text r = srec_line r (sr_checksum r) @ [cr, lf]"
  using Write_SRecord_ok [of r "sr_checksum r" out_blank] by (auto simp: valid_srecord_def record_text_def)

lemma store_bytes_cong:
  "m x = m' x \<Longrightarrow> length bs \<le> 2 ^ 32 \<Longrightarrow> store_bytes m a bs x = store_bytes m' a bs x"
  by (simp add: store_bytes_apply)

text \<open>
  A record that stores the byte 4 over the first byte of the command buffer makes the test of \<open>main\<close>
  end the monitor: the records that are executed are those up to the first of that kind.
\<close>

definition stores_eot :: "'d mon_env \<Rightarrow> srecord \<Rightarrow> bool" where
  "stores_eot E r \<longleftrightarrow> store_bytes (\<lambda>_. 0) (sr_address r) (srec_payload r) (ucmd E) = 4"

fun executed :: "'d mon_env \<Rightarrow> srecord list \<Rightarrow> srecord list" where
  "executed E [] = []"
| "executed E (r # rs) = r # (if stores_eot E r then [] else executed E rs)"

lemma executed_all: "\<forall>r \<in> set rs. \<not> stores_eot E r \<Longrightarrow> executed E rs = rs"
  by (induction rs) auto

text \<open>The character 4, possibly after line feeds, ends the loop.\<close>

lemma mygets_loop_eot:
  assumes "mon_ready E sent inp good st" "ch # inp (mdev st) = replicate k 0x0A @ 4 # rest"
  shows "\<exists>st'. mygets_loop E chp ch st = Some st' \<and> mon_ready E sent inp good st' \<and>
    mmem st' = (mmem st)(chp := 4) \<and> inp (mdev st') = rest"
  using assms
proof (induction k arbitrary: ch st)
  case 0
  then show ?case by (subst mygets_loop.simps) (simp add: mon_ready_def)
next
  case (Suc k)
  then have c: "ch = 0x0A" "inp (mdev st) = replicate k 0x0A @ 4 # rest" by auto
  obtain h r where h: "replicate k 0x0A @ 4 # rest = h # r" by (cases "replicate k (0x0A :: u8) @ 4 # rest") auto
  from mygetchar_ok [OF Suc.prems(1), of h r] c(2) h obtain st2 where st2: "mygetchar E st = Some (h, st2)"
    "mon_ready E sent inp good st2" "same_mon st st2" "inp (mdev st2) = r" by auto
  have "mygets_loop E chp ch st = mygets_loop E chp h st2"
    using c(1) st2(1) by (subst mygets_loop.simps) simp
  moreover have "h # inp (mdev st2) = replicate k 0x0A @ 4 # rest" using h st2(4) by simp
  from Suc.IH [OF st2(2) this] st2(3) have "\<exists>st'. mygets_loop E chp h st2 = Some st' \<and>
    mon_ready E sent inp good st' \<and> mmem st' = (mmem st)(chp := 4) \<and> inp (mdev st') = rest"
    unfolding same_mon_def by (elim conjE) (simp only:)
  ultimately show ?case by (simp only:)
qed

lemma round_eot:
  assumes "mon_ready E sent inp good st" "inp (mdev st) = replicate k 0x0A @ 4 # rest"
  shows "\<exists>st'. mon_round E st = Some st' \<and> mmem st' = (mmem st)(ucmd E := 4) \<and> inp (mdev st') = rest"
proof -
  from say_ok [OF assms(1), of "[0x0A]"] obtain st1 where st1: "say E [0x0A] st = Some st1" "mon_ready E sent inp good st1"
    "same_mon st st1" "inp (mdev st1) = inp (mdev st)" by blast
  obtain h r where h: "replicate k 0x0A @ 4 # rest = h # r" by (cases "replicate k (0x0A :: u8) @ 4 # rest") auto
  from mygetchar_ok [OF st1(2), of h r] assms(2) h st1(4) obtain st2 where st2: "mygetchar E st1 = Some (h, st2)"
    "mon_ready E sent inp good st2" "same_mon st1 st2" "inp (mdev st2) = r" by auto
  have "h # inp (mdev st2) = replicate k 0x0A @ 4 # rest" using h st2(4) by simp
  from mygets_loop_eot [OF st2(2) this, of "ucmd E"] obtain st' where st': "mygets_loop E (ucmd E) h st2 = Some st'"
    "mmem st' = (mmem st2)(ucmd E := 4)" "inp (mdev st') = rest" by blast
  then have "mygets E (ucmd E) st1 = Some st'" by (simp add: mygets_def st2(1))
  then have "mon_round E st = Some st'" using st1(1) st'(2) by (simp add: mon_round_def)
  then show ?thesis using st' st1(3) st2(3) by (auto simp: same_mon_def)
qed

lemma loop_loads:
  assumes "mon_ready E sent inp good st" "srec_shape (msrec st)" "\<forall>r \<in> set rs. valid_srecord r \<and> sr_type r \<in> {1, 2, 3}"
    and "inp (mdev st) = replicate k 0x0A @ map ch_byte (concat (map record_text rs)) @ 4 # rest"
    and "\<forall>x. 100 \<le> unat (x - ucmd E) \<longrightarrow> mmem st x = m x"
  shows "\<exists>st'. mon_loop E st = Some st' \<and> (executed E rs = rs \<and> (\<forall>r \<in> set rs. \<not> stores_eot E r) \<longrightarrow> inp (mdev st') = rest) \<and>
    (\<forall>x. 100 \<le> unat (x - ucmd E) \<longrightarrow>
      mmem st' x = fold (\<lambda>r m. store_bytes m (sr_address r) (srec_payload r)) (executed E rs) m x)"
  using assms
proof (induction rs arbitrary: st m k)
  case Nil
  then have "inp (mdev st) = replicate k 0x0A @ 4 # rest" by simp
  from round_eot [OF Nil.prems(1) this] obtain st' where st': "mon_round E st = Some st'"
    "mmem st' = (mmem st)(ucmd E := 4)" "inp (mdev st') = rest" by blast
  then have "mon_loop E st = Some st'" by (subst mon_loop.simps) simp
  then show ?case using st' Nil.prems(5) by auto
next
  case (Cons r rs)
  have v: "valid_srecord r" "sr_type r \<in> {1, 2, 3}" "srec_fits r" using Cons.prems(3) by (auto simp: valid_srecord_def)
  have b: "map ch_byte [cr, lf] = [0x0D, 0x0A]" by (simp add: ch_byte_def cr_def lf_def)
  have i: "inp (mdev st) = replicate k 0x0A @ map ch_byte (srec_line r (sr_checksum r)) @
      0x0D # (0x0A # map ch_byte (concat (map record_text rs)) @ 4 # rest)"
    using Cons.prems(4) by (simp add: record_text_line [OF v(1)] b [simplified])
  from round_srecord [OF Cons.prems(1) v(1,2) Cons.prems(2) i] obtain st1 where st1: "mon_round E st = Some st1"
    "mon_ready E sent inp good st1" "srec_shape (msrec st1)"
    "inp (mdev st1) = 0x0A # map ch_byte (concat (map record_text rs)) @ 4 # rest"
    "mmem st1 = store_bytes (store_bytes (mmem st) (ucmd E) (map ch_byte (srec_line r (sr_checksum r)) @ [0]))
      (sr_address r) (srec_payload r)" by blast
  let ?m = "store_bytes m (sr_address r) (srec_payload r)"
  have "nat (sr_dataLen r) \<le> 32" using v(3) by (auto simp: srec_fits_def)
  then have len: "length (srec_payload r) \<le> 2 ^ 32" using srec_payload_length [OF v(3)] by simp
  have mem: "\<forall>x. 100 \<le> unat (x - ucmd E) \<longrightarrow> mmem st1 x = ?m x"
  proof (intro allI impI)
    fix x assume x: "100 \<le> unat (x - ucmd E)"
    moreover have "store_bytes (mmem st) (ucmd E) (map ch_byte (srec_line r (sr_checksum r)) @ [0]) x = mmem st x"
      using srec_line_length [OF v(3), of "sr_checksum r"] x by (intro store_bytes_outside) simp_all
    ultimately show "mmem st1 x = ?m x"
      using Cons.prems(5) x len unfolding st1(5) by (intro store_bytes_cong) simp_all
  qed
  have "store_bytes (mmem st) (ucmd E) (map ch_byte (srec_line r (sr_checksum r)) @ [0]) (ucmd E) = ch_byte CHR ''S''"
    using srec_line_length [OF v(3), of "sr_checksum r"]
    by (subst store_bytes_apply) (simp_all add: srec_line_def)
  then have test: "mmem st1 (ucmd E) = 4 \<longleftrightarrow> stores_eot E r"
    using len by (simp add: st1(5) stores_eot_def store_bytes_apply ch_byte_def)
  show ?case
  proof (cases "stores_eot E r")
    case True
    then have "mon_loop E st = Some st1" using st1(1) test by (subst mon_loop.simps) simp
    then show ?thesis using True mem by auto
  next
    case False
    then have l: "mon_loop E st = mon_loop E st1" using st1(1) test by (subst mon_loop.simps) simp
    have "inp (mdev st1) = replicate 1 0x0A @ map ch_byte (concat (map record_text rs)) @ 4 # rest" using st1(4) by simp
    from Cons.IH [OF st1(2,3) _ this mem] Cons.prems(3) False show ?thesis unfolding l by auto
  qed
qed

text \<open>C23: Sending a file of S1, S2 and S3 records, as \<open>Write_SRecord\<close> prints them, and then the character 4 to the
  monitor loads the file: \<open>main\<close> returns, and the memory outside the command buffer holds the data bytes of every
  record at its address, the later ones over the earlier, and is otherwise unchanged.  A record that stores the
  byte 4 at the start of the command buffer is the last one executed, because \<open>main\<close> takes it for the end
  command; if there is none all are, and the input is read up to the character 4.\<close>

theorem monitor_loads_file:
  assumes "mon_ready E sent inp good st" "srec_shape (msrec st)" "\<forall>r \<in> set rs. valid_srecord r \<and> sr_type r \<in> {1, 2, 3}"
    and "inp (mdev st) = map ch_byte (concat (map record_text rs)) @ 4 # rest"
  shows "\<exists>st'. mon_main E st = Some st' \<and>
    (\<forall>x. 100 \<le> unat (x - ucmd E) \<longrightarrow>
      mmem st' x = fold (\<lambda>r m. store_bytes m (sr_address r) (srec_payload r)) (executed E rs) (mmem st) x) \<and>
    ((\<forall>r \<in> set rs. \<not> stores_eot E r) \<longrightarrow> executed E rs = rs \<and> inp (mdev st') = rest)"
proof -
  from say_ok [OF assms(1)] obtain st1 where st1: "say E (str_bytes ''Hello'' @ [0x0A]) st = Some st1"
    "mon_ready E sent inp good st1" "same_mon st st1" "inp (mdev st1) = inp (mdev st)" by blast
  from st1(3,4) assms(2,4) have "srec_shape (msrec st1)"
    "inp (mdev st1) = replicate 0 0x0A @ map ch_byte (concat (map record_text rs)) @ 4 # rest"
    "\<forall>x. 100 \<le> unat (x - ucmd E) \<longrightarrow> mmem st1 x = mmem st x" by (simp_all add: same_mon_def)
  from loop_loads [OF st1(2) this(1) assms(3) this(2,3)] st1(1) show ?thesis
    using executed_all [of rs E] by (auto simp: mon_main_def)
qed

section \<open>Listing memory\<close>

text \<open>The listing of the \<open>R\<close> command ends only if its last address is below the top word.\<close>

lemma word_le_add4:
  assumes "a \<le> b" "b < (0xFFFFFFFC :: u32)"
  shows "unat (a + 4) = unat a + 4"
proof -
  have "unat a < 4294967292" using assms by (simp add: word_le_nat_alt word_less_nat_alt)
  then show ?thesis by (simp add: unat_plus_if')
qed

lemma dump_words_ends:
  assumes "mon_ready E sent inp good st" "a2 < 0xFFFFFFFC"
  shows "\<exists>st' t. dump_words E a a2 st = Some st' \<and> mon_ready E sent inp good st' \<and> same_mon st st' \<and>
    sent (mdev st') = sent (mdev st) @ t \<and>
    t = concat (map (\<lambda>i. dump_line (mmem st) (a + 4 * of_nat i)) [0..<(if a \<le> a2 then unat (a2 - a) div 4 + 1 else 0)])"
  using assms(1)
proof (induction "4294967296 - unat a" arbitrary: a st rule: less_induct)
  case less
  show ?case
  proof (cases "a \<le> a2")
    case False
    then show ?thesis using less.prems by (subst dump_words.simps) auto
  next
    case True
    note u = word_le_add4 [OF True assms(2)]
    from say_ok [OF less.prems, of "dump_line (mmem st) a"] obtain st1 where st1: "say E (dump_line (mmem st) a) st = Some st1"
      "mon_ready E sent inp good st1" "same_mon st st1" "sent (mdev st1) = sent (mdev st) @ dump_line (mmem st) a" by blast
    have "unat a < 4294967296" by simp
    then have dec: "4294967296 - unat (a + 4) < 4294967296 - unat a" unfolding u by linarith
    let ?n = "\<lambda>a. if a \<le> a2 then unat (a2 - a) div 4 + 1 else 0"
    from less.hyps [OF dec st1(2)] obtain st' where st': "dump_words E (a + 4) a2 st1 = Some st'"
      "mon_ready E sent inp good st'" "same_mon st1 st'"
      "sent (mdev st') = sent (mdev st1) @ concat (map (\<lambda>i. dump_line (mmem st1) (a + 4 + 4 * of_nat i)) [0..<?n (a + 4)])" by blast
    have n: "?n a = Suc (?n (a + 4))"
    proof -
      have d: "unat (a2 - a) = unat a2 - unat a" using True by (rule unat_sub)
      show ?thesis
      proof (cases "a + 4 \<le> a2")
        case t: True
        then have d4: "unat (a2 - (a + 4)) = unat a2 - (unat a + 4)" using unat_sub [OF t] u by simp
        have "unat a + 4 \<le> unat a2" using t u by (simp add: word_le_nat_alt)
        then have "4 \<le> unat a2 - unat a" by linarith
        moreover have "k div 4 = (k - 4) div 4 + 1" if "4 \<le> k" for k :: nat using that by (simp add: le_div_geq)
        ultimately have "(unat a2 - unat a) div 4 = (unat a2 - unat a - 4) div 4 + 1" by blast
        then have "(unat a2 - unat a) div 4 = (unat a2 - (unat a + 4)) div 4 + 1" by (simp only: diff_diff_left)
        then show ?thesis using True t d d4 by simp
      next
        case f: False
        then have "unat a2 < unat a + 4" using u by (simp add: word_le_nat_alt)
        then have "(unat a2 - unat a) div 4 = 0" by simp
        then show ?thesis using True f d by simp
      qed
    qed
    have "map (\<lambda>i. dump_line (mmem st) (a + 4 * of_nat i)) [0..<Suc (?n (a + 4))] =
        dump_line (mmem st) a # map (\<lambda>i. dump_line (mmem st) (a + 4 + 4 * of_nat i)) [0..<?n (a + 4)]"
    proof -
      have e: "a + 4 * of_nat (Suc i) = a + 4 + 4 * of_nat i" for i
        by (simp only: of_nat_Suc distrib_left mult_1_right add.assoc)
      have z: "a + 4 * of_nat 0 = a" by simp
      show ?thesis unfolding map_upt_Suc z e ..
    qed
    then have "sent (mdev st') = sent (mdev st) @ concat (map (\<lambda>i. dump_line (mmem st) (a + 4 * of_nat i)) [0..<?n a])"
      using st'(4) st1(3,4) unfolding n same_mon_def by simp
    moreover have "dump_words E a a2 st = Some st'" using True st1(1) st'(1) by (subst dump_words.simps) simp
    ultimately show ?thesis using st'(2) same_mon_trans [OF st1(3) st'(3)] by blast
  qed
qed

lemma and3_mod: "(a :: u32) AND 3 = 0 \<longleftrightarrow> unat a mod 4 = 0"
proof -
  have m: "(3 :: u32) = mask 2" by (simp add: mask_eq_exp_minus_1)
  have "unat (a AND 3) = take_bit 2 (unat a)" by (simp only: m take_bit_eq_mask [symmetric] unsigned_take_bit_eq)
  also have "\<dots> = unat a mod 4" by (simp add: take_bit_eq_mod)
  finally have "unat (a AND 3) = unat a mod 4" .
  moreover have "a AND 3 = 0 \<longleftrightarrow> unat (a AND 3) = unat (0 :: u32)" by (simp only: word_unat_eq_iff)
  ultimately show ?thesis by (simp only: unat_0)
qed

lemma word_aligned4_le: "a AND 3 = 0 \<Longrightarrow> a \<le> (0xFFFFFFFC :: u32)"
proof -
  assume a: "a AND 3 = 0"
  then have "unat a mod 4 = 0" by (simp only: and3_mod)
  then obtain q where q: "unat a = 4 * q" by (metis mod_0_imp_dvd dvdE)
  have "unat a < 4294967296" by simp
  then have "4 * q < 4294967296" by (simp only: q)
  then have "4 * q \<le> 4294967292" by simp
  then show ?thesis by (simp add: word_le_nat_alt q)
qed

lemma aligned4_step: "a AND 3 = 0 \<Longrightarrow> (a + 4 :: u32) AND 3 = 0"
proof -
  assume a: "a AND 3 = 0"
  have "unat a mod 4 = 0" using a by (simp only: and3_mod)
  then have "(unat a + 4) mod 4 = 0" by simp
  moreover have "unat (a + 4) = (unat a + 4) mod 2 ^ 32" by (simp only: unat_word_ariths(1)) simp
  moreover have "(unat a + 4) mod 2 ^ 32 mod 4 = (unat a + 4) mod 4" by (rule mod_mod_cancel) simp
  ultimately have "unat (a + 4) mod 4 = 0" by (simp only:)
  then show ?thesis by (simp only: and3_mod)
qed

lemma dump_words_endless:
  assumes "dump_words E a a2 st = Some r"
  shows "a AND 3 = 0 \<longrightarrow> a2 < 0xFFFFFFFC"
proof (rule dump_words.raw_induct [where P = "\<lambda>E a a2 st r. a AND 3 = 0 \<longrightarrow> a2 < 0xFFFFFFFC", OF _ assms], rule impI)
  fix f :: "'a mon_env \<Rightarrow> u32 \<Rightarrow> u32 \<Rightarrow> 'a mon \<Rightarrow> 'a mon option" and E a a2 st r
  assume IH: "\<And>E a a2 st r. f E a a2 st = Some r \<Longrightarrow> a AND 3 = 0 \<longrightarrow> a2 < 0xFFFFFFFC"
    and b: "(if a \<le> a2 then case say E (dump_line (mmem st) a) st of None \<Rightarrow> None | Some st \<Rightarrow> f E (a + 4) a2 st
      else Some st) = Some r" and a: "a AND 3 = 0"
  show "a2 < 0xFFFFFFFC"
  proof (rule ccontr)
    assume "\<not> a2 < 0xFFFFFFFC"
    then have le: "0xFFFFFFFC \<le> a2" by simp
    with word_aligned4_le [OF a] have "a \<le> a2" by (rule order_trans)
    with b obtain st1 where "f E (a + 4) a2 st1 = Some r" by (auto split: option.splits)
    from IH [OF this] aligned4_step [OF a] have "a2 < 0xFFFFFFFC" by blast
    with le show False by simp
  qed
qed

text \<open>C24: The listing command of the monitor returns exactly if the last address is below 0xFFFFFFFC; from there on
  the address wraps around before it passes the last one, and the listing never ends.\<close>

theorem list_command_ends:
  assumes "mon_ready E sent inp good st"
  shows "(\<exists>st'. mon_command E CHR ''R'' args st = Some st') \<longleftrightarrow> snd (scan (fst (scan args 16)) 16) < 0xFFFFFFFC"
proof -
  let ?a = "snd (scan args 16) AND NOT 3" and ?b = "snd (scan (fst (scan args 16)) 16)"
  have c: "mon_command E CHR ''R'' args st = dump_words E ?a ?b st"
    by (simp add: mon_command_def mon_memory_def split_def Let_def)
  have "?a AND 3 = 0" by (rule bit_word_eqI) (auto simp: bit_simps)
  then show ?thesis unfolding c using dump_words_ends [OF assms, of ?b ?a] dump_words_endless [of E ?a ?b st] by blast
qed

section \<open>A concrete monitor\<close>

definition mon_env_sample :: "port mon_env" where
  "mon_env_sample = \<lparr>mbus = port_fifo, mcall = (\<lambda>_ st. Some st), ucmd = 0x10000\<rparr>"

definition mon_sample :: "u8 list \<Rightarrow> port mon" where
  "mon_sample input = \<lparr>mmem = (\<lambda>_. 0), mdev = \<lparr>p_in = input, p_cur = 0, p_out = [], p_busy = 3\<rparr>, echo = True, msrec = srec_blank\<rparr>"

lemma mon_sample_ready: "mon_ready mon_env_sample p_out p_in (\<lambda>_. True) (mon_sample input)"
  by (simp add: mon_ready_def mon_env_sample_def port_fifo_laws)

theorem mygets_line_witness:
  "\<exists>st'. mygets mon_env_sample 0x10000 (mon_sample [0x0A, 0x72, 0x30, 0x0D, 0x41]) = Some st' \<and>
    p_in (mdev st') = [0x41] \<and> load_bytes (mmem st') 0x10000 3 = [0x72, 0x30, 0]"
  using mygets_line [OF mon_sample_ready, of "[0x0A, 0x72, 0x30, 0x0D, 0x41]" "[0x0A, 0x72, 0x30]" "[0x41]" "0x10000"]
  by (auto simp: mon_sample_def Let_def numeral_3_eq_3)

definition srec_data_sample :: srecord where
  "srec_data_sample = \<lparr>sr_address = 0x8000, sr_data = [0xAA, 0x55] @ replicate 30 0, sr_dataLen = 2, sr_type = 1, sr_checksum = 0x7B\<rparr>"

lemma srec_data_sample_valid: "valid_srecord srec_data_sample"
  by (simp add: valid_srecord_def srec_fits_def srec_shape_def srec_data_sample_def address_width_def
      address_length_def SRecord_Address_Lengths_def Checksum_SRecord_def Let_def)

theorem monitor_loads_file_witness:
  "\<exists>st'. mon_main mon_env_sample (mon_sample (map ch_byte (record_text srec_data_sample) @ [4])) = Some st' \<and>
    mmem st' 0x8001 = 0x55 \<and> p_in (mdev st') = []"
proof -
  let ?st = "mon_sample (map ch_byte (record_text srec_data_sample) @ [4])"
  have p: "srec_payload srec_data_sample = [0xAA, 0x55]" "sr_address srec_data_sample = 0x8000"
    by (simp_all add: srec_payload_def srec_data_sample_def)
  then have "\<not> stores_eot mon_env_sample srec_data_sample"
    by (simp add: stores_eot_def mon_env_sample_def)
  moreover have "\<exists>st'. mon_main mon_env_sample ?st = Some st' \<and>
    (\<forall>x. 100 \<le> unat (x - ucmd mon_env_sample) \<longrightarrow> mmem st' x = fold (\<lambda>r m. store_bytes m (sr_address r) (srec_payload r))
      (executed mon_env_sample [srec_data_sample]) (mmem ?st) x) \<and>
    ((\<forall>r \<in> set [srec_data_sample]. \<not> stores_eot mon_env_sample r) \<longrightarrow>
      executed mon_env_sample [srec_data_sample] = [srec_data_sample] \<and> p_in (mdev st') = [])"
    by (rule monitor_loads_file [OF mon_sample_ready])
      (use srec_data_sample_valid srec_blank_shape in \<open>auto simp: mon_sample_def srec_data_sample_def\<close>)
  moreover have "100 \<le> unat ((0x8001 :: u32) - ucmd mon_env_sample)" by (simp add: mon_env_sample_def)
  ultimately show ?thesis using p by fastforce
qed

theorem list_command_ends_witness:
  "mon_command mon_env_sample CHR ''R'' ''0,FFFFFFFF'' (mon_sample []) = None"
proof -
  have "snd (scan (fst (scan ''0,FFFFFFFF'' 16)) 16) = 0xFFFFFFFF"
    by (simp add: scan_def mon_conv_digit_def)
  then show ?thesis
    using list_command_ends [OF mon_sample_ready, of "''0,FFFFFFFF''" "[]"]
    by (cases "mon_command mon_env_sample CHR ''R'' ''0,FFFFFFFF'' (mon_sample [])") auto
qed

end
