(* ===== verification/SDHost.thy ===== *)
theory SDHost
  imports Uart
begin

text \<open>
  The driver of the SD host controller (bootstrap/minion_helper.c, the same file in hello): the registers
  of the controller on the bus, a command with its waiting loops, the receive FIFO, the register file that
  imitates a standard host (\<open>minion_uart_write\<close>, \<open>minion_uart_read\<close>), the start-up sequence and reading a
  sector.  The static variables of the file are a record; calls of \<open>printf\<close> are kept in a log of
  formats and arguments, the formatter itself being modelled in \<open>MiniPrintf\<close> and \<open>Console\<close>.  \<open>None\<close> is a
  waiting loop that does not end, or a call of \<open>abort\<close>.
\<close>

section \<open>Registers of the controller\<close>

definition sd_base :: u32 where "sd_base = push_bit 20 6"
definition sd_stat_base :: u32 where "sd_stat_base = push_bit 20 5"
definition rxfifo_base :: u32 where "rxfifo_base = push_bit 20 4"

definition queue_write :: "'d bus \<Rightarrow> u32 \<Rightarrow> u32 \<Rightarrow> 'd \<Rightarrow> 'd" where
  "queue_write B sd_ptr val d = bus_write B sd_ptr val d"

definition queue_read :: "'d bus \<Rightarrow> u32 \<Rightarrow> 'd \<Rightarrow> u32 \<times> 'd" where
  "queue_read B sd_ptr d = bus_read B sd_ptr d"

fun queue_read_array :: "'d bus \<Rightarrow> u32 \<Rightarrow> nat \<Rightarrow> 'd \<Rightarrow> u32 list \<times> 'd" where
  "queue_read_array B sd_ptr 0 d = ([], d)"
| "queue_read_array B sd_ptr (Suc cnt) d =
     (case bus_read B sd_ptr d of (v, d) \<Rightarrow>
        (case queue_read_array B (sd_ptr + 4) cnt d of (vs, d) \<Rightarrow> (v # vs, d)))"

definition rx_write_fifo :: "'d bus \<Rightarrow> u32 \<Rightarrow> 'd \<Rightarrow> 'd" where
  "rx_write_fifo B data d = queue_write B rxfifo_base data d"

definition rx_read_fifo :: "'d bus \<Rightarrow> 'd \<Rightarrow> u32 \<times> 'd" where
  "rx_read_fifo B d = queue_read B rxfifo_base d"

definition sd_reg :: "u32 \<Rightarrow> u32" where "sd_reg n = sd_base + 4 * n"

definition sd_resp :: "'d bus \<Rightarrow> u32 \<Rightarrow> 'd \<Rightarrow> u32 \<times> 'd" where
  "sd_resp B sel d = queue_read B (sd_reg sel) d"

definition sd_stat :: "'d bus \<Rightarrow> u32 \<Rightarrow> 'd \<Rightarrow> u32 \<times> 'd" where
  "sd_stat B sel d = queue_read B (sd_stat_base + 4 * sel) d"

definition sd_align :: "'d bus \<Rightarrow> u32 \<Rightarrow> 'd \<Rightarrow> 'd" where
  "sd_align B d_align d = queue_write B (sd_reg 0) d_align d"

definition sd_arg :: "'d bus \<Rightarrow> u32 \<Rightarrow> 'd \<Rightarrow> 'd" where
  "sd_arg B arg d = queue_write B (sd_reg 2) arg d"

definition sd_cmd :: "'d bus \<Rightarrow> u32 \<Rightarrow> 'd \<Rightarrow> 'd" where
  "sd_cmd B cmd d = queue_write B (sd_reg 3) cmd d"

definition sd_setting :: "'d bus \<Rightarrow> u32 \<Rightarrow> 'd \<Rightarrow> 'd" where
  "sd_setting B setting d = queue_write B (sd_reg 4) setting d"

definition sd_cmd_start :: "'d bus \<Rightarrow> u32 \<Rightarrow> 'd \<Rightarrow> 'd" where
  "sd_cmd_start B cmd d = queue_write B (sd_reg 5) cmd d"

definition sd_reset :: "'d bus \<Rightarrow> u32 \<Rightarrow> u32 \<Rightarrow> u32 \<Rightarrow> u32 \<Rightarrow> 'd \<Rightarrow> 'd" where
  "sd_reset B sd_rst clk_rst data_rst cmd_rst d =
     queue_write B (sd_reg 6)
       (push_bit 3 (sd_rst AND 1) OR push_bit 2 (clk_rst AND 1) OR push_bit 1 (data_rst AND 1) OR (cmd_rst AND 1)) d"

definition sd_blkcnt :: "'d bus \<Rightarrow> u32 \<Rightarrow> 'd \<Rightarrow> 'd" where
  "sd_blkcnt B d_blkcnt d = queue_write B (sd_reg 7) (d_blkcnt AND 0xFFFF) d"

definition sd_blksize :: "'d bus \<Rightarrow> u32 \<Rightarrow> 'd \<Rightarrow> 'd" where
  "sd_blksize B d_blksize d = queue_write B (sd_reg 8) (d_blksize AND 0xFFF) d"

definition sd_timeout :: "'d bus \<Rightarrow> u32 \<Rightarrow> 'd \<Rightarrow> 'd" where
  "sd_timeout B d_timeout d = queue_write B (sd_reg 9) d_timeout d"

text \<open>The receive FIFO: while it is not empty take a word, and keep it if the buffer has room.\<close>

partial_function (option) block_read_loop ::
  "'d bus \<Rightarrow> u32 \<Rightarrow> u32 \<Rightarrow> u32 list \<Rightarrow> 'd \<Rightarrow> (u32 \<times> u32 list \<times> 'd) option" where
  "block_read_loop B iobuflen cnt iobuf d =
     (case sd_stat B 0 d of (ready, d) \<Rightarrow>
        if 1 AND NOT ready = 0 then Some (cnt, iobuf, d)
        else (case bus_read B rxfifo_base (bus_write B rxfifo_base 0 d) of (data, d) \<Rightarrow>
          if cnt < iobuflen then block_read_loop B iobuflen (cnt + 1) (iobuf[unat cnt := data]) d
          else block_read_loop B iobuflen cnt iobuf d))"

definition queue_block_read :: "'d bus \<Rightarrow> u32 list \<Rightarrow> u32 \<Rightarrow> 'd \<Rightarrow> (u32 \<times> u32 list \<times> 'd) option" where
  "queue_block_read B iobuf iobuflen d = block_read_loop B iobuflen 0 iobuf d"

section \<open>State of the driver\<close>

record 'd sdhost =
  sd_dev :: 'd
  host_control :: u32
  ctrl_cd :: u32
  power_control :: u32
  power_180 :: u32
  block_gap :: u32
  wake_up :: u32
  timeout_control :: u32
  software_reset :: u32
  clock_div :: u32
  int_status :: u32
  int_enable :: u32
  signal_enable :: u32
  present_state :: u32
  max_current :: u32
  set_acmd12 :: u32
  set_int :: u32
  slot_int :: u32
  host_version :: u32
  transfer_mode :: u32
  sd_iobuf :: "u32 list"
  my_resp :: "u32 list"
  sd_log :: "(string \<times> u32 list) list"

definition on_dev :: "('d \<Rightarrow> 'd) \<Rightarrow> 'd sdhost \<Rightarrow> 'd sdhost" where
  "on_dev f st = st\<lparr>sd_dev := f (sd_dev st)\<rparr>"

definition sd_print :: "string \<Rightarrow> u32 list \<Rightarrow> 'd sdhost \<Rightarrow> 'd sdhost" where
  "sd_print fmt args st = st\<lparr>sd_log := sd_log st @ [(fmt, args)]\<rparr>"

definition sd_clk_div :: "'d bus \<Rightarrow> u32 \<Rightarrow> 'd sdhost \<Rightarrow> 'd sdhost" where
  "sd_clk_div B clk st = on_dev (queue_write B (sd_reg 1) clk) (sd_print (''Clock divider = %d'' @ [lf]) [clk] st)"

text \<open>\<open>mysleep\<close> is empty in this file.\<close>

definition board_mmc_power_init :: "'d bus \<Rightarrow> 'd sdhost \<Rightarrow> 'd sdhost" where
  "board_mmc_power_init B st =
     on_dev (sd_reset B 0 1 1 1) (on_dev (sd_timeout B 14) (on_dev (sd_align B 0)
       (on_dev (sd_blksize B 1) (on_dev (sd_blkcnt B 1) (on_dev (sd_reset B 0 1 0 0) (sd_clk_div B 200 st))))))"

section \<open>Commands\<close>

definition cmd_setting_value :: "u32 \<Rightarrow> u32 \<Rightarrow> u32 \<Rightarrow> u32" where
  "cmd_setting_value cmd_flags mode control =
     (let resp = cmd_flags AND 3;
          setting = (if resp = 0 then 0 else if resp = 2 \<or> resp = 3 then 1 else 3) :: u32
      in if mode AND 0x10 \<noteq> 0
         then (setting OR 0x14) OR (if control AND 2 \<noteq> 0 then 0x20 else 0)
         else setting)"

definition sd_cmd_setting :: "'d bus \<Rightarrow> u32 \<Rightarrow> 'd sdhost \<Rightarrow> 'd sdhost" where
  "sd_cmd_setting B cmd_flags st =
     on_dev (sd_setting B (cmd_setting_value cmd_flags (transfer_mode st) (host_control st))) st"

definition sd_transaction_start :: "'d bus \<Rightarrow> u32 \<Rightarrow> 'd sdhost \<Rightarrow> 'd sdhost" where
  "sd_transaction_start B cmd_flags st =
     on_dev (sd_cmd_start B 1) (sd_cmd_setting B (cmd_flags AND 255) (on_dev (sd_cmd B (signed_drop_bit 8 cmd_flags)) st))"

definition poll_stat :: "'d bus \<Rightarrow> (u32 \<Rightarrow> bool) \<Rightarrow> 'd sdhost \<Rightarrow> 'd sdhost option" where
  "poll_stat B ok st =
     (case poll B sd_stat_base ok (sd_dev st) of None \<Rightarrow> None | Some (_, d) \<Rightarrow> Some (st\<lparr>sd_dev := d\<rparr>))"

definition sd_transaction_wait :: "'d bus \<Rightarrow> u32 \<Rightarrow> 'd sdhost \<Rightarrow> 'd sdhost option" where
  "sd_transaction_wait B msk st = poll_stat B (\<lambda>stat. stat AND msk = msk) st"

definition sd_transaction_finish :: "'d bus \<Rightarrow> u32 \<Rightarrow> 'd sdhost \<Rightarrow> 'd sdhost option" where
  "sd_transaction_finish B msk st =
     poll_stat B (\<lambda>stat. stat AND msk = 0) (sd_cmd_setting B 0 (on_dev (sd_cmd_start B 0) st))"

definition sd_transaction_flush ::
  "'d bus \<Rightarrow> bool \<Rightarrow> u32 list \<Rightarrow> u32 \<Rightarrow> 'd sdhost \<Rightarrow> (u32 \<times> u32 list \<times> u32 list \<times> 'd sdhost) option" where
  "sd_transaction_flush B flush iobuf iobuflen st =
     (case queue_read_array B sd_base 10 (sd_dev st) of (resp, d) \<Rightarrow>
        if flush then
          (case queue_block_read B iobuf iobuflen d of
             None \<Rightarrow> None
           | Some (cnt, iobuf, d) \<Rightarrow> Some (cnt, resp, iobuf, st\<lparr>sd_dev := d\<rparr>))
        else Some (0, resp, iobuf, st\<lparr>sd_dev := d\<rparr>))"

definition sd_transaction ::
  "'d bus \<Rightarrow> bool \<Rightarrow> u32 \<Rightarrow> u32 list \<Rightarrow> u32 \<Rightarrow> 'd sdhost \<Rightarrow> (u32 \<times> u32 list \<times> u32 list \<times> 'd sdhost) option" where
  "sd_transaction B read val iobuf iobuflen st =
     (let cmd = drop_bit 8 val; msk = (if read then 0x500 else 0x100) in
      case sd_transaction_wait B msk (sd_transaction_start B val st) of
        None \<Rightarrow> None
      | Some st \<Rightarrow>
          (case sd_transaction_flush B (read \<or> cmd = 0) iobuf (if cmd \<noteq> 0 then iobuflen else 0) st of
             None \<Rightarrow> None
           | Some (cnt, resp, iobuf, st) \<Rightarrow>
               (case sd_transaction_finish B msk st of None \<Rightarrow> None | Some st \<Rightarrow> Some (cnt, resp, iobuf, st))))"

text \<open>The verbose form reads the ten responses from the last to the first and prints them.\<close>

fun read_responses :: "'d bus \<Rightarrow> nat \<Rightarrow> 'd \<Rightarrow> u32 list \<times> 'd" where
  "read_responses B 0 d = ([], d)"
| "read_responses B (Suc i) d =
     (case sd_resp B (of_nat i) d of (v, d) \<Rightarrow> (case read_responses B i d of (vs, d) \<Rightarrow> (vs @ [v], d)))"

definition responses_text :: "u32 list \<Rightarrow> u8 list" where
  "responses_text resp =
     myputhex (resp ! 7) 4 @ map ch_byte '':'' @ myputhex (resp ! 6) 8 @ map ch_byte ''->'' @
     concat (map (\<lambda>i. myputhex (resp ! i) 8 @ map ch_byte '','') [3, 2, 1, 0]) @
     myputhex (resp ! 5) 8 @ map ch_byte '','' @ myputhex (resp ! 4) 8 @ [0x0A]"

definition sd_transaction_v :: "'d bus \<Rightarrow> u32 \<Rightarrow> u32 \<Rightarrow> u32 \<Rightarrow> 'd sdhost \<Rightarrow> (u32 \<times> 'd sdhost) option" where
  "sd_transaction_v B sdcmd arg setting st =
     (let msk = (if setting > 7 then 0x500 else 0x100);
          st = on_dev (sd_cmd_start B 1) (on_dev (sd_cmd B sdcmd) (on_dev (sd_setting B setting) (on_dev (sd_arg B arg) st)))
      in case sd_transaction_wait B msk st of
           None \<Rightarrow> None
         | Some st \<Rightarrow>
             (case read_responses B 10 (sd_dev st) of (resp, d) \<Rightarrow>
                (case sd_transaction_finish B msk (st\<lparr>sd_dev := d\<rparr>) of
                   None \<Rightarrow> None
                 | Some st \<Rightarrow>
                     (case send_list (uart_sendchar B) (responses_text resp) (sd_dev st) of
                        None \<Rightarrow> None
                      | Some d \<Rightarrow> Some (resp ! 0 AND 0xFFFF0000, st\<lparr>sd_dev := d\<rparr>)))))"

section \<open>The register file of the host\<close>

text \<open>The numbers of the host's registers (bootstrap/minion\_lib.h).\<close>

definition R_BLOCK_SIZE :: u32 where "R_BLOCK_SIZE = 0x04"
definition R_BLOCK_COUNT :: u32 where "R_BLOCK_COUNT = 0x06"
definition R_ARGUMENT :: u32 where "R_ARGUMENT = 0x08"
definition R_TRANSFER_MODE :: u32 where "R_TRANSFER_MODE = 0x0C"
definition R_COMMAND :: u32 where "R_COMMAND = 0x0E"
definition R_RESPONSE :: u32 where "R_RESPONSE = 0x10"
definition R_BUFFER :: u32 where "R_BUFFER = 0x20"
definition R_PRESENT_STATE :: u32 where "R_PRESENT_STATE = 0x24"
definition R_HOST_CONTROL :: u32 where "R_HOST_CONTROL = 0x28"
definition R_CTRL_CD_TEST_INS :: u32 where "R_CTRL_CD_TEST_INS = 0x40"
definition R_CTRL_CD_TEST :: u32 where "R_CTRL_CD_TEST = 0x80"
definition R_POWER_CONTROL :: u32 where "R_POWER_CONTROL = 0x29"
definition R_POWER_180 :: u32 where "R_POWER_180 = 0x0A"
definition R_BLOCK_GAP_CONTROL :: u32 where "R_BLOCK_GAP_CONTROL = 0x2A"
definition R_WAKE_UP_CONTROL :: u32 where "R_WAKE_UP_CONTROL = 0x2B"
definition R_TIMEOUT_CONTROL :: u32 where "R_TIMEOUT_CONTROL = 0x2E"
definition R_SOFTWARE_RESET :: u32 where "R_SOFTWARE_RESET = 0x2F"
definition R_CLOCK_CONTROL :: u32 where "R_CLOCK_CONTROL = 0x2C"
definition R_INT_STATUS :: u32 where "R_INT_STATUS = 0x30"
definition R_INT_ENABLE :: u32 where "R_INT_ENABLE = 0x34"
definition R_SIGNAL_ENABLE :: u32 where "R_SIGNAL_ENABLE = 0x38"
definition R_CAPABILITIES :: u32 where "R_CAPABILITIES = 0x40"
definition R_MAX_CURRENT :: u32 where "R_MAX_CURRENT = 0x48"
definition R_SET_ACMD12_ERROR :: u32 where "R_SET_ACMD12_ERROR = 0x50"
definition R_SET_INT_ERROR :: u32 where "R_SET_INT_ERROR = 0x52"
definition R_SLOT_INT_STATUS :: u32 where "R_SLOT_INT_STATUS = 0xFC"
definition R_HOST_VERSION :: u32 where "R_HOST_VERSION = 0xFE"

lemmas sd_reg_defs =
  R_BLOCK_SIZE_def R_BLOCK_COUNT_def R_ARGUMENT_def R_TRANSFER_MODE_def R_COMMAND_def
  R_RESPONSE_def R_BUFFER_def R_PRESENT_STATE_def R_HOST_CONTROL_def R_CTRL_CD_TEST_INS_def
  R_CTRL_CD_TEST_def R_POWER_CONTROL_def R_POWER_180_def R_BLOCK_GAP_CONTROL_def R_WAKE_UP_CONTROL_def
  R_TIMEOUT_CONTROL_def R_SOFTWARE_RESET_def R_CLOCK_CONTROL_def R_INT_STATUS_def R_INT_ENABLE_def
  R_SIGNAL_ENABLE_def R_CAPABILITIES_def R_MAX_CURRENT_def R_SET_ACMD12_ERROR_def R_SET_INT_ERROR_def
  R_SLOT_INT_STATUS_def R_HOST_VERSION_def

definition sd_command :: "'d bus \<Rightarrow> u32 \<Rightarrow> 'd sdhost \<Rightarrow> 'd sdhost option" where
  "sd_command B val st =
     (let msk = (if transfer_mode st AND 0x10 \<noteq> 0 then 0x500 else 0x100) in
      do { st \<leftarrow> sd_transaction_wait B msk (sd_transaction_start B val st);
           st \<leftarrow> sd_transaction_finish B msk st;
           Some (st\<lparr>int_status := 1\<rparr>) })"

definition write_control :: "u32 \<Rightarrow> 'd sdhost \<Rightarrow> 'd sdhost" where
  "write_control val st =
     (let st = sd_print (''host_control = %d'' @ [lf]) [val] (st\<lparr>host_control := val\<rparr>)
      in sd_print ((if val AND 2 \<noteq> 0 then ''4-bit bus enabled'' else ''4-bit bus disabled'') @ [lf]) [] st)"

definition write_clock :: "'d bus \<Rightarrow> u32 \<Rightarrow> 'd sdhost \<Rightarrow> 'd sdhost" where
  "write_clock B val st =
     (let st = st\<lparr>clock_div := drop_bit 8 val\<rparr>;
          st = (if clock_div st \<noteq> 0 then sd_clk_div B (40000000 div clock_div st) st else st)
      in sd_print ((if val AND 4 \<noteq> 0 then ''Card clock enabled'' else ''Card clock disabled'') @ [lf]) [] st)"

text \<open>The registers that do nothing on the bus.\<close>

definition write_plain :: "u32 \<Rightarrow> u32 \<Rightarrow> 'd sdhost \<Rightarrow> 'd sdhost" where
  "write_plain val reg st =
     (if reg = R_TRANSFER_MODE then st\<lparr>transfer_mode := val\<rparr>
      else if reg = R_CTRL_CD_TEST_INS \<or> reg = R_CTRL_CD_TEST then st\<lparr>ctrl_cd := val\<rparr>
      else if reg = R_POWER_CONTROL then sd_print (''power control = %d'' @ [lf]) [val] (st\<lparr>power_control := val\<rparr>)
      else if reg = R_POWER_180 then st\<lparr>power_180 := val\<rparr>
      else if reg = R_BLOCK_GAP_CONTROL then st\<lparr>block_gap := val\<rparr>
      else if reg = R_WAKE_UP_CONTROL then st\<lparr>wake_up := val\<rparr>
      else if reg = R_SOFTWARE_RESET then st\<lparr>software_reset := val, timeout_control := 1000, transfer_mode := 0\<rparr>
      else if reg = R_INT_STATUS then st\<lparr>int_status := val, transfer_mode := 0\<rparr>
      else if reg = R_INT_ENABLE then st\<lparr>int_enable := val\<rparr>
      else if reg = R_SIGNAL_ENABLE then st\<lparr>signal_enable := val\<rparr>
      else if reg = R_PRESENT_STATE then st\<lparr>present_state := val\<rparr>
      else if reg = R_MAX_CURRENT then st\<lparr>max_current := val\<rparr>
      else if reg = R_SET_ACMD12_ERROR then st\<lparr>set_acmd12 := val\<rparr>
      else if reg = R_SET_INT_ERROR then st\<lparr>set_int := val\<rparr>
      else if reg = R_SLOT_INT_STATUS then st\<lparr>slot_int := val\<rparr>
      else if reg = R_HOST_VERSION then st\<lparr>host_version := val\<rparr>
      else sd_print ''unknown(%d)'' [reg] st)"

definition minion_uart_write :: "'d bus \<Rightarrow> u32 \<Rightarrow> u32 \<Rightarrow> 'd sdhost \<Rightarrow> 'd sdhost option" where
  "minion_uart_write B val reg st =
     (if reg = R_COMMAND then sd_command B val st
      else Some
       (if reg = R_BLOCK_COUNT then on_dev (sd_blkcnt B val) st
        else if reg = R_BLOCK_SIZE then on_dev (sd_blksize B val) st
        else if reg = R_HOST_CONTROL then write_control val st
        else if reg = R_ARGUMENT then on_dev (sd_arg B val) st
        else if reg = R_TIMEOUT_CONTROL then on_dev (sd_timeout B val) (st\<lparr>timeout_control := val\<rparr>)
        else if reg = R_CLOCK_CONTROL then write_clock B val st
        else write_plain val reg st))"

definition sd_resp_host :: "'d bus \<Rightarrow> u32 \<Rightarrow> 'd sdhost \<Rightarrow> u32 \<times> 'd sdhost" where
  "sd_resp_host B sel st = (case sd_resp B sel (sd_dev st) of (v, d) \<Rightarrow> (v, st\<lparr>sd_dev := d\<rparr>))"

definition minion_uart_read :: "'d bus \<Rightarrow> u32 \<Rightarrow> 'd sdhost \<Rightarrow> u32 \<times> 'd sdhost" where
  "minion_uart_read B reg st =
     (if reg = R_RESPONSE then sd_resp_host B 0 st
      else if reg = R_RESPONSE + 4 then sd_resp_host B 1 st
      else if reg = R_RESPONSE + 8 then sd_resp_host B 2 st
      else if reg = R_RESPONSE + 12 then sd_resp_host B 3 st
      else if reg = R_INT_STATUS then
        (case sd_resp_host B 4 st of (v, st) \<Rightarrow> (if v < timeout_control st then 0x21 else 0x8000, st))
      else if reg = R_INT_ENABLE then (int_enable st, st)
      else if reg = R_PRESENT_STATE then (0x800, st)
      else if reg = R_HOST_VERSION then (host_version st, st)
      else if reg = R_CAPABILITIES then (0x01000000, st)
      else if reg = R_SOFTWARE_RESET then (0, st)
      else if reg = R_HOST_CONTROL then (host_control st, st)
      else if reg = R_CLOCK_CONTROL then (push_bit 8 (clock_div st) OR 2, st)
      else if reg = R_BUFFER then (0, st)
      else (0, sd_print ''unknown(%d)'' [reg] st))"

section \<open>Runs of register accesses\<close>

text \<open>
  The start-up and the reading of a sector are long runs of register accesses.  A read assigns its value to a
  variable that nothing reads again; in \<open>sd_read_sector\<close> two of them are static variables.
\<close>

datatype sd_op =
    OpWrite u32 u32
  | OpRead u32
  | OpPresent
  | OpInt
  | OpBlock u32

fun sd_step :: "'d bus \<Rightarrow> sd_op \<Rightarrow> 'd sdhost \<Rightarrow> 'd sdhost option" where
  "sd_step B (OpWrite val reg) st = minion_uart_write B val reg st"
| "sd_step B (OpRead reg) st = Some (snd (minion_uart_read B reg st))"
| "sd_step B OpPresent st = (case minion_uart_read B R_PRESENT_STATE st of (v, st) \<Rightarrow> Some (st\<lparr>present_state := v\<rparr>))"
| "sd_step B OpInt st = (case minion_uart_read B R_INT_STATUS st of (v, st) \<Rightarrow> Some (st\<lparr>int_status := v\<rparr>))"
| "sd_step B (OpBlock n) st =
     (case queue_block_read B (sd_iobuf st) n (sd_dev st) of
        None \<Rightarrow> None
      | Some (_, buf, d) \<Rightarrow> Some (st\<lparr>sd_iobuf := buf, sd_dev := d\<rparr>))"

fun sd_run :: "'d bus \<Rightarrow> sd_op list \<Rightarrow> 'd sdhost \<Rightarrow> 'd sdhost option" where
  "sd_run B [] st = Some st"
| "sd_run B (x # xs) st = (case sd_step B x st of None \<Rightarrow> None | Some st \<Rightarrow> sd_run B xs st)"

section \<open>Reading a sector\<close>

definition to_cpu :: "u32 \<Rightarrow> u32" where
  "to_cpu x = push_bit 24 (x AND 0xFF) OR push_bit 8 (x AND 0xFF00) OR drop_bit 8 (x AND 0xFF0000) OR drop_bit 24 (x AND 0xFF000000)"

definition read_sector_before :: "u32 \<Rightarrow> sd_op list" where
  "read_sector_before sect =
     [OpWrite 0xFFFFFFFF R_INT_STATUS, OpPresent, OpWrite 0x200 R_ARGUMENT, OpWrite 0x101A R_COMMAND, OpInt,
      OpWrite 1 R_INT_STATUS, OpInt, OpWrite 0xFFFFFFFF R_INT_STATUS, OpWrite 0xFFFFFFFF R_INT_STATUS, OpPresent,
      OpWrite 0x1F4 R_TIMEOUT_CONTROL, OpWrite 0x200 R_BLOCK_SIZE, OpWrite 1 R_BLOCK_COUNT, OpWrite 0x12 R_TRANSFER_MODE,
      OpWrite sect R_ARGUMENT, OpWrite 0x113A R_COMMAND, OpInt]"

definition read_sector_after :: "sd_op list" where
  "read_sector_after = [OpWrite 1 R_INT_STATUS, OpInt, OpWrite 0xFFFFFFFF R_INT_STATUS]"

text \<open>The words of the sector come into \<open>iobuf\<close>.\<close>

definition sd_fetch :: "'d bus \<Rightarrow> u32 \<Rightarrow> 'd sdhost \<Rightarrow> (u32 \<times> 'd sdhost) option" where
  "sd_fetch B sect st =
     do { st \<leftarrow> sd_run B (read_sector_before sect) st;
          let (resp, d) = queue_read_array B sd_base 10 (sd_dev st);
          (len, buf, d) \<leftarrow> queue_block_read B (sd_iobuf st) 512 d;
          st \<leftarrow> sd_run B read_sector_after (st\<lparr>sd_dev := d, my_resp := resp, sd_iobuf := buf\<rparr>);
          Some (len, sd_print (''block_read(%d) = %d'' @ [lf]) [sect, len] st) }"

fun put_words :: "mem \<Rightarrow> u32 \<Rightarrow> u32 list \<Rightarrow> mem" where
  "put_words m a [] = m"
| "put_words m a (w # ws) = put_words (wr32 m a (to_cpu w)) (a + 4) ws"

text \<open>The parameter \<open>max\<close> of the source is not used.\<close>

definition sd_read_sector :: "'d bus \<Rightarrow> u32 \<Rightarrow> u32 \<Rightarrow> u32 \<Rightarrow> mem \<times> 'd sdhost \<Rightarrow> (u32 \<times> mem \<times> 'd sdhost) option" where
  "sd_read_sector B sect buf max_len s =
     (case s of (m, st) \<Rightarrow>
        (case sd_fetch B sect st of
           None \<Rightarrow> None
         | Some (len, st) \<Rightarrow> Some (len, put_words m buf (take (unat len) (sd_iobuf st)), st)))"

text \<open>Commands that this port does not have.\<close>

definition send_cmd :: "u8 \<Rightarrow> u32 \<Rightarrow> u32 \<Rightarrow> 's \<Rightarrow> (u8 \<times> 's) option" where
  "send_cmd cmd arg resp_type s = None"

definition rcvr_datablock :: "u32 \<Rightarrow> u32 \<Rightarrow> 's \<Rightarrow> (bool \<times> 's) option" where
  "rcvr_datablock buff btr s = None"

section \<open>Start-up\<close>

definition init_round :: "u32 \<Rightarrow> u32 \<Rightarrow> sd_op list" where
  "init_round arg command =
     [OpWrite arg R_ARGUMENT, OpWrite command R_COMMAND, OpRead R_INT_STATUS, OpWrite 1 R_INT_STATUS,
      OpRead R_INT_STATUS, OpWrite 0xFFFFFFFF R_INT_STATUS, OpWrite 0xFFFFFFFF R_INT_STATUS, OpRead R_PRESENT_STATE]"

definition init_data_round :: "u32 \<Rightarrow> u32 \<Rightarrow> u32 \<Rightarrow> sd_op list" where
  "init_data_round n arg command =
     [OpWrite 0x1F4 R_TIMEOUT_CONTROL, OpWrite n R_BLOCK_SIZE, OpWrite 1 R_BLOCK_COUNT, OpWrite 0x12 R_TRANSFER_MODE,
      OpWrite arg R_ARGUMENT, OpWrite command R_COMMAND, OpRead R_INT_STATUS, OpBlock n, OpWrite 1 R_INT_STATUS,
      OpRead R_INT_STATUS, OpWrite 0xFFFFFFFF R_INT_STATUS, OpWrite 0xFFFFFFFF R_INT_STATUS, OpRead R_PRESENT_STATE]"

definition init_reset_ops :: "sd_op list" where
  "init_reset_ops =
     [OpRead R_CAPABILITIES, OpRead R_HOST_VERSION, OpWrite 1 R_SOFTWARE_RESET, OpRead R_SOFTWARE_RESET,
      OpWrite 0xF R_POWER_CONTROL, OpWrite 0x27F003B R_INT_ENABLE, OpWrite 0 R_SIGNAL_ENABLE, OpRead R_HOST_CONTROL,
      OpWrite 0 R_HOST_CONTROL, OpRead R_PRESENT_STATE, OpRead R_CLOCK_CONTROL, OpWrite 2 R_CLOCK_CONTROL,
      OpWrite 0x186A001 R_CLOCK_CONTROL, OpRead R_CLOCK_CONTROL, OpWrite 0x186A006 R_CLOCK_CONTROL,
      OpRead R_HOST_CONTROL, OpWrite 0 R_HOST_CONTROL, OpWrite 0xFFFFFFFF R_INT_STATUS, OpRead R_PRESENT_STATE,
      OpWrite 0 R_ARGUMENT, OpWrite 0 R_COMMAND, OpRead R_INT_STATUS, OpBlock 0, OpWrite 1 R_INT_STATUS,
      OpRead R_INT_STATUS, OpWrite 0xFFFFFFFF R_INT_STATUS, OpWrite 0xFFFFFFFF R_INT_STATUS, OpRead R_PRESENT_STATE]
     @ init_round 0x1AA 0x81A"

text \<open>The 42 rounds in which the source asks the card whether it is ready, written out one after the other.\<close>

definition init_ready_ops :: "sd_op list" where
  "init_ready_ops = concat (replicate 42 (init_round 0 0x371A @ init_round 0x40300000 0x2903))"

definition init_identify_ops :: "sd_op list" where
  "init_identify_ops =
     init_round 0 0x209 @ init_round 0 0x31A @ init_round 0x70000 0x909 @ init_round 0x70000 0xD1A @
     init_round 0x70000 0x71A @ init_round 0x70000 0x371A"

definition init_data_ops :: "sd_op list" where
  "init_data_ops = init_data_round 8 0 0x333A @ init_data_round 64 0xFFFFF1 0x63A @ init_data_round 64 0x80FFFFF1 0x63A"

definition init_bus_ops :: "sd_op list" where
  "init_bus_ops =
     init_round 0x70000 0x371A @
     [OpWrite 2 R_ARGUMENT, OpWrite 0x61A R_COMMAND, OpRead R_INT_STATUS, OpWrite 1 R_INT_STATUS,
      OpRead R_INT_STATUS, OpWrite 0xFFFFFFFF R_INT_STATUS, OpRead R_HOST_CONTROL, OpWrite 2 R_HOST_CONTROL,
      OpWrite 0xFFFFFFFF R_INT_STATUS, OpRead R_PRESENT_STATE] @
     init_round 0x70000 0x371A @
     [OpWrite 0x1F4 R_TIMEOUT_CONTROL, OpWrite 64 R_BLOCK_SIZE, OpWrite 1 R_BLOCK_COUNT, OpWrite 0x12 R_TRANSFER_MODE,
      OpWrite 0 R_ARGUMENT, OpWrite 0xD3A R_COMMAND, OpRead R_INT_STATUS, OpBlock 64, OpWrite 1 R_INT_STATUS,
      OpRead R_INT_STATUS, OpWrite 0xFFFFFFFF R_INT_STATUS, OpRead R_PRESENT_STATE, OpRead R_CLOCK_CONTROL,
      OpWrite 0x186A002 R_CLOCK_CONTROL, OpWrite 0xC350001 R_CLOCK_CONTROL, OpRead R_CLOCK_CONTROL,
      OpWrite 0xC350006 R_CLOCK_CONTROL, OpRead R_HOST_CONTROL, OpWrite 2 R_HOST_CONTROL]"

text \<open>At the end the first sectors are read into \<open>iobuf\<close>, whose words are swapped in place.\<close>

definition sd_read_in_place :: "'d bus \<Rightarrow> u32 \<Rightarrow> 'd sdhost \<Rightarrow> 'd sdhost option" where
  "sd_read_in_place B sect st =
     do { (len, st) \<leftarrow> sd_fetch B sect st;
          Some (st\<lparr>sd_iobuf := map to_cpu (take (unat len) (sd_iobuf st)) @ drop (unat len) (sd_iobuf st)\<rparr>) }"

fun read_sectors_in_place :: "'d bus \<Rightarrow> u32 list \<Rightarrow> 'd sdhost \<Rightarrow> 'd sdhost option" where
  "read_sectors_in_place B [] st = Some st"
| "read_sectors_in_place B (s # ss) st =
     (case sd_read_in_place B s st of None \<Rightarrow> None | Some st \<Rightarrow> read_sectors_in_place B ss st)"

definition init_sd :: "'d bus \<Rightarrow> 'd sdhost \<Rightarrow> 'd sdhost option" where
  "init_sd B st =
     do { st \<leftarrow> sd_run B (init_reset_ops @ init_ready_ops @ init_identify_ops @ init_data_ops @ init_bus_ops) st;
          read_sectors_in_place B (map of_nat [0..<16]) st }"

section \<open>What the driver relies on\<close>

text \<open>
  A controller as the driver takes it to be: registers that keep what is written, a receive FIFO of
  words, and the contents of the card by block.  Setting the start bit of a single-block read (command 17)
  with the block size 512 makes the block arrive in the FIFO; a command without data leaves the FIFO alone.
  Completion shows in the status word at \<open>sd_stat_base\<close> and goes away when the start bit is cleared, and bit 0 of
  it says that the FIFO is empty.  Nothing is asked of register 6, the resets, which these operations do not
  write: \<open>good\<close> can say that they are released.  The controller of this repository is not of this kind:
  src/verilog/minion\_soc.sv answers the constant 0xDEADBEEF at that address, with the consequence proved
  in the section \<open>The controller of the repository\<close>.  The lemmas about \<open>sd_laws\<close> describe the driver on the
  hardware that it was written for.
\<close>

definition sd_same :: "('d \<Rightarrow> u32 \<Rightarrow> u32) \<Rightarrow> ('d \<Rightarrow> u32 list) \<Rightarrow> ('d \<Rightarrow> u32 \<Rightarrow> u32 list) \<Rightarrow> ('d \<Rightarrow> bool) \<Rightarrow> 'd \<Rightarrow> 'd \<Rightarrow> bool" where
  "sd_same reg rxq disk good d d' \<longleftrightarrow> good d' \<and> reg d' = reg d \<and> rxq d' = rxq d \<and> disk d' = disk d"

definition sd_laws ::
  "'d bus \<Rightarrow> ('d \<Rightarrow> u32 \<Rightarrow> u32) \<Rightarrow> ('d \<Rightarrow> u32 list) \<Rightarrow> ('d \<Rightarrow> u32 \<Rightarrow> u32 list) \<Rightarrow> ('d \<Rightarrow> bool) \<Rightarrow> bool" where
  "sd_laws B reg rxq disk good \<longleftrightarrow>
     (\<forall>d i v. good d \<longrightarrow> i < 10 \<longrightarrow> i \<noteq> 5 \<longrightarrow> i \<noteq> 6 \<longrightarrow> (let d' = bus_write B (sd_reg i) v d in
        good d' \<and> reg d' = (reg d)(i := v) \<and> rxq d' = rxq d \<and> disk d' = disk d)) \<and>
     (\<forall>d. good d \<longrightarrow> (let d' = bus_write B (sd_reg 5) 1 d in
        good d' \<and> reg d' = (reg d)(5 := 1) \<and> disk d' = disk d \<and>
        (\<exists>ws. rxq d' = rxq d @ ws \<and> (reg d 4 AND 0x14 = 0 \<longrightarrow> ws = []) \<and>
           (reg d 4 AND 0x14 = 0x14 \<longrightarrow> reg d 3 = 17 \<longrightarrow> reg d 7 = 1 \<longrightarrow> reg d 8 = 0x200 \<longrightarrow> ws = disk d (reg d 2))))) \<and>
     (\<forall>d. good d \<longrightarrow> (let d' = bus_write B (sd_reg 5) 0 d in
        good d' \<and> reg d' = (reg d)(5 := 0) \<and> rxq d' = rxq d \<and> disk d' = disk d)) \<and>
     (\<forall>d. good d \<longrightarrow> reg d 5 = 1 \<longrightarrow> (let msk = (if reg d 4 AND 0x14 = 0 then 0x100 else 0x500) in
        answers B sd_stat_base (\<lambda>v. v AND msk = msk) (\<lambda>_ d'. sd_same reg rxq disk good d d') d)) \<and>
     (\<forall>d msk. good d \<longrightarrow> reg d 5 = 0 \<longrightarrow> msk = 0x100 \<or> msk = 0x500 \<longrightarrow>
        answers B sd_stat_base (\<lambda>v. v AND msk = 0) (\<lambda>_ d'. sd_same reg rxq disk good d d') d) \<and>
     (\<forall>d. good d \<longrightarrow> reg d 5 = 0 \<longrightarrow> (case bus_read B sd_stat_base d of
        (v, d') \<Rightarrow> (1 AND NOT v = 0 \<longleftrightarrow> rxq d = []) \<and> sd_same reg rxq disk good d d')) \<and>
     (\<forall>d w ws. good d \<longrightarrow> rxq d = w # ws \<longrightarrow> (case bus_read B rxfifo_base (bus_write B rxfifo_base 0 d) of
        (v, d') \<Rightarrow> v = w \<and> good d' \<and> reg d' = reg d \<and> rxq d' = ws \<and> disk d' = disk d)) \<and>
     (\<forall>d i. good d \<longrightarrow> i < 10 \<longrightarrow> sd_same reg rxq disk good d (snd (bus_read B (sd_reg i) d)))"

lemma sd_lawsD:
  assumes "sd_laws B reg rxq disk good" "good d"
  shows "i < 10 \<Longrightarrow> i \<noteq> 5 \<Longrightarrow> i \<noteq> 6 \<Longrightarrow> good (bus_write B (sd_reg i) v d) \<and> reg (bus_write B (sd_reg i) v d) = (reg d)(i := v) \<and>
      rxq (bus_write B (sd_reg i) v d) = rxq d \<and> disk (bus_write B (sd_reg i) v d) = disk d"
    and "good (bus_write B (sd_reg 5) 1 d) \<and> reg (bus_write B (sd_reg 5) 1 d) = (reg d)(5 := 1) \<and>
      disk (bus_write B (sd_reg 5) 1 d) = disk d \<and>
      (\<exists>ws. rxq (bus_write B (sd_reg 5) 1 d) = rxq d @ ws \<and> (reg d 4 AND 0x14 = 0 \<longrightarrow> ws = []) \<and>
         (reg d 4 AND 0x14 = 0x14 \<longrightarrow> reg d 3 = 17 \<longrightarrow> reg d 7 = 1 \<longrightarrow> reg d 8 = 0x200 \<longrightarrow> ws = disk d (reg d 2)))"
    and "good (bus_write B (sd_reg 5) 0 d) \<and> reg (bus_write B (sd_reg 5) 0 d) = (reg d)(5 := 0) \<and>
      rxq (bus_write B (sd_reg 5) 0 d) = rxq d \<and> disk (bus_write B (sd_reg 5) 0 d) = disk d"
    and "reg d 5 = 1 \<Longrightarrow> msk = (if reg d 4 AND 0x14 = 0 then 0x100 else 0x500) \<Longrightarrow>
      answers B sd_stat_base (\<lambda>v. v AND msk = msk) (\<lambda>_ d'. sd_same reg rxq disk good d d') d"
    and "reg d 5 = 0 \<Longrightarrow> msk = 0x100 \<or> msk = 0x500 \<Longrightarrow>
      answers B sd_stat_base (\<lambda>v. v AND msk = 0) (\<lambda>_ d'. sd_same reg rxq disk good d d') d"
    and "reg d 5 = 0 \<Longrightarrow> bus_read B sd_stat_base d = (x, d1) \<Longrightarrow>
      (1 AND NOT x = 0 \<longleftrightarrow> rxq d = []) \<and> sd_same reg rxq disk good d d1"
    and "rxq d = w # ws \<Longrightarrow> bus_read B rxfifo_base (bus_write B rxfifo_base 0 d) = (x, d1) \<Longrightarrow>
      x = w \<and> good d1 \<and> reg d1 = reg d \<and> rxq d1 = ws \<and> disk d1 = disk d"
    and "i < 10 \<Longrightarrow> sd_same reg rxq disk good d (snd (bus_read B (sd_reg i) d))"
proof -
  note L = assms(1) [unfolded sd_laws_def Let_def]
  note L2 = L [THEN conjunct2] note L3 = L2 [THEN conjunct2] note L4 = L3 [THEN conjunct2]
  note L5 = L4 [THEN conjunct2] note L6 = L5 [THEN conjunct2] note L7 = L6 [THEN conjunct2] note L8 = L7 [THEN conjunct2]
  note g = assms(2)
  show "i < 10 \<Longrightarrow> i \<noteq> 5 \<Longrightarrow> i \<noteq> 6 \<Longrightarrow> good (bus_write B (sd_reg i) v d) \<and> reg (bus_write B (sd_reg i) v d) = (reg d)(i := v) \<and>
      rxq (bus_write B (sd_reg i) v d) = rxq d \<and> disk (bus_write B (sd_reg i) v d) = disk d"
    using L [THEN conjunct1, rule_format, OF g] .
  show "good (bus_write B (sd_reg 5) 1 d) \<and> reg (bus_write B (sd_reg 5) 1 d) = (reg d)(5 := 1) \<and>
      disk (bus_write B (sd_reg 5) 1 d) = disk d \<and>
      (\<exists>ws. rxq (bus_write B (sd_reg 5) 1 d) = rxq d @ ws \<and> (reg d 4 AND 0x14 = 0 \<longrightarrow> ws = []) \<and>
         (reg d 4 AND 0x14 = 0x14 \<longrightarrow> reg d 3 = 17 \<longrightarrow> reg d 7 = 1 \<longrightarrow> reg d 8 = 0x200 \<longrightarrow> ws = disk d (reg d 2)))"
    by (rule L2 [THEN conjunct1, THEN spec, THEN mp, OF g])
  show "good (bus_write B (sd_reg 5) 0 d) \<and> reg (bus_write B (sd_reg 5) 0 d) = (reg d)(5 := 0) \<and>
      rxq (bus_write B (sd_reg 5) 0 d) = rxq d \<and> disk (bus_write B (sd_reg 5) 0 d) = disk d"
    by (rule L3 [THEN conjunct1, THEN spec, THEN mp, OF g])
  show "answers B sd_stat_base (\<lambda>v. v AND msk = msk) (\<lambda>_ d'. sd_same reg rxq disk good d d') d"
    if "reg d 5 = 1" "msk = (if reg d 4 AND 0x14 = 0 then 0x100 else 0x500)"
    unfolding that(2) by (rule L4 [THEN conjunct1, THEN spec, THEN mp, OF g, THEN mp, OF that(1)])
  show "reg d 5 = 0 \<Longrightarrow> msk = 0x100 \<or> msk = 0x500 \<Longrightarrow>
      answers B sd_stat_base (\<lambda>v. v AND msk = 0) (\<lambda>_ d'. sd_same reg rxq disk good d d') d"
    by (rule L5 [THEN conjunct1, THEN spec, THEN spec, THEN mp, OF g, THEN mp, THEN mp])
  show "(1 AND NOT x = 0 \<longleftrightarrow> rxq d = []) \<and> sd_same reg rxq disk good d d1"
    if "reg d 5 = 0" "bus_read B sd_stat_base d = (x, d1)"
    using L6 [THEN conjunct1, THEN spec, THEN mp, OF g, THEN mp, OF that(1)] unfolding that(2) by (simp only: prod.case)
  show "x = w \<and> good d1 \<and> reg d1 = reg d \<and> rxq d1 = ws \<and> disk d1 = disk d"
    if "rxq d = w # ws" "bus_read B rxfifo_base (bus_write B rxfifo_base 0 d) = (x, d1)"
    using L7 [THEN conjunct1, THEN spec, THEN spec, THEN spec, THEN mp, OF g, THEN mp, OF that(1)] unfolding that(2)
    by (simp only: prod.case)
  show "i < 10 \<Longrightarrow> sd_same reg rxq disk good d (snd (bus_read B (sd_reg i) d))"
    by (rule L8 [THEN spec, THEN spec, THEN mp, OF g, THEN mp])
qed

section \<open>The driver on a working controller\<close>

definition sd_sees ::
  "('d \<Rightarrow> u32 \<Rightarrow> u32) \<Rightarrow> ('d \<Rightarrow> u32 list) \<Rightarrow> ('d \<Rightarrow> u32 \<Rightarrow> u32 list) \<Rightarrow> ('d \<Rightarrow> bool) \<Rightarrow>
   'd \<Rightarrow> (u32 \<Rightarrow> u32) \<Rightarrow> u32 list \<Rightarrow> (u32 \<Rightarrow> u32 list) \<Rightarrow> bool" where
  "sd_sees reg rxq disk good d R q D \<longleftrightarrow> good d \<and> reg d = R \<and> rxq d = q \<and> disk d = D"

lemma sd_sees_same: "sd_sees reg rxq disk good d R q D \<Longrightarrow> sd_same reg rxq disk good d d' \<Longrightarrow> sd_sees reg rxq disk good d' R q D"
  by (simp add: sd_sees_def sd_same_def)

lemma sees_write:
  assumes "sd_laws B reg rxq disk good" "sd_sees reg rxq disk good d R q D" "i < 10" "i \<noteq> 5" "i \<noteq> 6"
  shows "sd_sees reg rxq disk good (queue_write B (sd_reg i) v d) (R(i := v)) q D"
  using sd_lawsD(1) [OF assms(1) _ assms(3-5), of d v] assms(2) by (simp add: sd_sees_def queue_write_def)

lemma sees_resp:
  assumes "sd_laws B reg rxq disk good" "sd_sees reg rxq disk good d R q D" "i < 10"
  shows "sd_sees reg rxq disk good (snd (bus_read B (sd_reg i) d)) R q D"
  using sd_sees_same [OF assms(2) sd_lawsD(8) [OF assms(1) _ assms(3)]] assms(2) by (simp add: sd_sees_def)

lemma poll_stat_ends:
  assumes "answers B sd_stat_base ok (\<lambda>_ d'. sd_same reg rxq disk good (sd_dev st) d') (sd_dev st)"
    "sd_sees reg rxq disk good (sd_dev st) R q D"
  shows "\<exists>d'. poll_stat B ok st = Some (st\<lparr>sd_dev := d'\<rparr>) \<and> sd_sees reg rxq disk good d' R q D"
proof -
  from poll_ends [OF assms(1)] obtain v d' where p: "poll B sd_stat_base ok (sd_dev st) = Some (v, d')"
    "sd_same reg rxq disk good (sd_dev st) d'" by blast
  from p(1) sd_sees_same [OF assms(2) p(2)] show ?thesis by (auto simp: poll_stat_def)
qed

lemma setting_data_bits:
  "cmd_setting_value flags mode control AND 0x14 = (if mode AND 0x10 = 0 then 0 else 0x14)"
proof -
  have "(s OR 0x14 OR t) AND 0x14 = 0x14" for s t :: u32
    by (rule bit_eqI) (auto simp: bit_simps)
  then show ?thesis by (simp add: cmd_setting_value_def Let_def or.assoc)
qed

text \<open>A command: the registers it leaves behind, and the words it makes the card deliver.\<close>

lemma sd_command_law:
  assumes L: "sd_laws B reg rxq disk good" and s: "sd_sees reg rxq disk good (sd_dev st) R q D"
  shows "\<exists>d' ws. sd_command B val st = Some (st\<lparr>sd_dev := d', int_status := 1\<rparr>) \<and>
    sd_sees reg rxq disk good d'
      (R(3 := signed_drop_bit 8 val, 4 := cmd_setting_value 0 (transfer_mode st) (host_control st), 5 := 0)) (q @ ws) D \<and>
    (transfer_mode st AND 0x10 = 0 \<longrightarrow> ws = []) \<and>
    (transfer_mode st AND 0x10 \<noteq> 0 \<longrightarrow> signed_drop_bit 8 val = (17 :: u32) \<longrightarrow> R 7 = 1 \<longrightarrow> R 8 = 0x200 \<longrightarrow> ws = D (R 2))"
proof -
  define f where "f = cmd_setting_value (val AND 255) (transfer_mode st) (host_control st)"
  define g where "g = cmd_setting_value 0 (transfer_mode st) (host_control st)"
  define msk where "msk = (if transfer_mode st AND 0x10 \<noteq> 0 then 0x500 else (0x100 :: u32))"
  note bits = setting_data_bits [of _ "transfer_mode st" "host_control st"]
  let ?c = "signed_drop_bit 8 val :: u32"
  define d2 where "d2 = queue_write B (sd_reg 4) f (queue_write B (sd_reg 3) ?c (sd_dev st))"
  have s2: "sd_sees reg rxq disk good d2 (R(3 := ?c, 4 := f)) q D"
    unfolding d2_def by (intro sees_write [OF L] s) simp_all
  then have g2: "good d2" "reg d2 = R(3 := ?c, 4 := f)" "rxq d2 = q" "disk d2 = D" by (simp_all add: sd_sees_def)
  define d3 where "d3 = bus_write B (sd_reg 5) 1 d2"
  from sd_lawsD(2) [OF L g2(1)] obtain ws where
    ws: "sd_sees reg rxq disk good d3 (R(3 := ?c, 4 := f, 5 := 1)) (q @ ws) D" "f AND 0x14 = 0 \<longrightarrow> ws = []"
      "f AND 0x14 = 0x14 \<longrightarrow> ?c = 17 \<longrightarrow> R 7 = 1 \<longrightarrow> R 8 = 0x200 \<longrightarrow> ws = D (R 2)"
    by (auto simp: sd_sees_def d3_def g2(2-4))
  have st3: "sd_transaction_start B val st = st\<lparr>sd_dev := d3\<rparr>"
    by (simp add: sd_transaction_start_def sd_cmd_setting_def on_dev_def sd_cmd_def sd_cmd_start_def sd_setting_def
        d3_def d2_def f_def queue_write_def)
  have "answers B sd_stat_base (\<lambda>v. v AND msk = msk) (\<lambda>_ d'. sd_same reg rxq disk good d3 d') d3"
    using ws(1) bits [of "val AND 255"] by (intro sd_lawsD(4) [OF L]) (simp_all add: sd_sees_def msk_def f_def)
  from poll_stat_ends [where st = "st\<lparr>sd_dev := d3\<rparr>", simplified, OF this ws(1)] obtain d4 where
    d4: "sd_transaction_wait B msk (st\<lparr>sd_dev := d3\<rparr>) = Some (st\<lparr>sd_dev := d4\<rparr>)"
      "sd_sees reg rxq disk good d4 (R(3 := ?c, 4 := f, 5 := 1)) (q @ ws) D"
    by (auto simp: sd_transaction_wait_def)
  define d5 where "d5 = queue_write B (sd_reg 4) g (bus_write B (sd_reg 5) 0 d4)"
  have "sd_sees reg rxq disk good (bus_write B (sd_reg 5) 0 d4) (R(3 := ?c, 4 := f, 5 := 0)) (q @ ws) D"
    using sd_lawsD(3) [OF L, of d4] d4(2) by (auto simp: sd_sees_def)
  from sees_write [OF L this, of 4 g]
  have s5: "sd_sees reg rxq disk good d5 (R(3 := ?c, 4 := g, 5 := 0)) (q @ ws) D"
    by (simp add: d5_def fun_upd_twist)
  have "answers B sd_stat_base (\<lambda>v. v AND msk = 0) (\<lambda>_ d'. sd_same reg rxq disk good d5 d') d5"
    using s5 by (intro sd_lawsD(5) [OF L]) (auto simp: sd_sees_def msk_def)
  from poll_stat_ends [where st = "st\<lparr>sd_dev := d5\<rparr>", simplified, OF this s5] obtain d6 where
    d6: "poll_stat B (\<lambda>v. v AND msk = 0) (st\<lparr>sd_dev := d5\<rparr>) = Some (st\<lparr>sd_dev := d6\<rparr>)"
      "sd_sees reg rxq disk good d6 (R(3 := ?c, 4 := g, 5 := 0)) (q @ ws) D" by auto
  have "sd_transaction_finish B msk (st\<lparr>sd_dev := d4\<rparr>) = Some (st\<lparr>sd_dev := d6\<rparr>)"
    using d6(1) by (simp add: sd_transaction_finish_def sd_cmd_setting_def on_dev_def sd_cmd_start_def sd_setting_def
        queue_write_def d5_def g_def)
  with d4(1) have "sd_command B val st = Some (st\<lparr>sd_dev := d6, int_status := 1\<rparr>)"
    by (simp add: sd_command_def msk_def [symmetric] st3)
  moreover have "transfer_mode st AND 0x10 = 0 \<longrightarrow> ws = []"
    using ws(2) bits [of "val AND 255"] by (simp add: f_def)
  moreover have "transfer_mode st AND 0x10 \<noteq> 0 \<longrightarrow> ?c = 17 \<longrightarrow> R 7 = 1 \<longrightarrow> R 8 = 0x200 \<longrightarrow> ws = D (R 2)"
    using ws(3) bits [of "val AND 255"] by (simp add: f_def)
  ultimately show ?thesis using d6(2) unfolding g_def by (intro exI conjI)
qed

text \<open>Emptying the FIFO: the words that fit go to the buffer, the others are dropped.\<close>

lemma block_read_law:
  assumes L: "sd_laws B reg rxq disk good"
  shows "sd_sees reg rxq disk good d R q D \<Longrightarrow> R 5 = 0 \<Longrightarrow> cnt \<le> n \<Longrightarrow> unat n \<le> length buf \<Longrightarrow>
    k = min (length q) (unat n - unat cnt) \<Longrightarrow>
    \<exists>d'. block_read_loop B n cnt buf d =
      Some (cnt + of_nat k, take (unat cnt) buf @ take k q @ drop (unat cnt + k) buf, d') \<and>
      sd_sees reg rxq disk good d' R [] D"
proof (induction q arbitrary: d cnt buf k)
  case Nil
  obtain v d1 where r: "bus_read B sd_stat_base d = (v, d1)" by (cases "bus_read B sd_stat_base d")
  have "1 AND NOT v = 0" "sd_same reg rxq disk good d d1"
    using sd_lawsD(6) [OF L _ _ r] Nil.prems by (auto simp: sd_sees_def)
  with sd_sees_same [OF Nil.prems(1)] r Nil.prems show ?case
    by (subst block_read_loop.simps) (simp add: sd_stat_def queue_read_def)
next
  case (Cons w q)
  obtain v d1 where r: "bus_read B sd_stat_base d = (v, d1)" by (cases "bus_read B sd_stat_base d")
  have v: "\<not> 1 AND NOT v = 0" "sd_same reg rxq disk good d d1"
    using sd_lawsD(6) [OF L _ _ r] Cons.prems by (auto simp: sd_sees_def)
  note s1 = sd_sees_same [OF Cons.prems(1) v(2)]
  obtain x d2 where r2: "bus_read B rxfifo_base (bus_write B rxfifo_base 0 d1) = (x, d2)"
    by (cases "bus_read B rxfifo_base (bus_write B rxfifo_base 0 d1)")
  have x: "x = w" and s2: "sd_sees reg rxq disk good d2 R q D"
    using sd_lawsD(7) [OF L _ _ r2, of w q] s1 by (auto simp: sd_sees_def)
  have step: "block_read_loop B n cnt buf d = (if cnt < n then block_read_loop B n (cnt + 1) (buf[unat cnt := w]) d2
      else block_read_loop B n cnt buf d2)"
    using r v(1) r2 x by (subst block_read_loop.simps) (simp add: sd_stat_def queue_read_def)
  show ?case
  proof (cases "cnt < n")
    case True
    then have l: "unat cnt < unat n" by (simp add: word_less_nat_alt)
    have c: "unat (cnt + 1) = Suc (unat cnt)"
    proof -
      have "unat n < 4294967296" by simp
      with l have "unat cnt + 1 < 4294967296" by linarith
      then show ?thesis by (simp add: unat_word_ariths)
    qed
    from Cons.prems(5) l obtain j where j: "k = Suc j" "j = min (length q) (unat n - unat (cnt + 1))" by (cases k) (auto simp: c)
    have le: "cnt + 1 \<le> n" using True by (simp add: inc_le)
    from Cons.IH [OF s2 Cons.prems(2) le _ j(2), of "buf[unat cnt := w]"] Cons.prems(4) obtain d' where
      "block_read_loop B n (cnt + 1) (buf[unat cnt := w]) d2 =
         Some (cnt + 1 + of_nat j, take (unat (cnt + 1)) (buf[unat cnt := w]) @ take j q @ drop (unat (cnt + 1) + j) (buf[unat cnt := w]), d')"
      "sd_sees reg rxq disk good d' R [] D" by auto
    moreover have "take (Suc (unat cnt)) (buf[unat cnt := w]) = take (unat cnt) buf @ [w]"
      using l Cons.prems(4) by (intro take_Suc_update) simp
    ultimately show ?thesis using True step by (simp add: c j(1) add.assoc)
  next
    case False
    then have k: "k = 0" "0 = min (length q) (unat n - unat cnt)" using Cons.prems(3,5) by (auto simp: word_less_nat_alt)
    from Cons.IH [OF s2 Cons.prems(2-4) k(2)] step False k(1) show ?thesis by auto
  qed
qed

text \<open>A run of accesses, by what it establishes.  The state is followed by what the driver sees of the controller, the
  transfer mode and the buffer.\<close>

definition sd_ends :: "'d bus \<Rightarrow> sd_op list \<Rightarrow> 'd sdhost \<Rightarrow> ('d sdhost \<Rightarrow> bool) \<Rightarrow> bool" where
  "sd_ends B xs st P \<longleftrightarrow> (\<exists>st'. sd_run B xs st = Some st' \<and> P st')"

definition sd_at ::
  "('d \<Rightarrow> u32 \<Rightarrow> u32) \<Rightarrow> ('d \<Rightarrow> u32 list) \<Rightarrow> ('d \<Rightarrow> u32 \<Rightarrow> u32 list) \<Rightarrow> ('d \<Rightarrow> bool) \<Rightarrow>
   (u32 \<Rightarrow> u32) \<Rightarrow> u32 list \<Rightarrow> (u32 \<Rightarrow> u32 list) \<Rightarrow> u32 \<Rightarrow> u32 list \<Rightarrow> 'd sdhost \<Rightarrow> bool" where
  "sd_at reg rxq disk good R q D tm buf st \<longleftrightarrow>
     sd_sees reg rxq disk good (sd_dev st) R q D \<and> transfer_mode st = tm \<and> sd_iobuf st = buf"

lemma ends_nil: "P st \<Longrightarrow> sd_ends B [] st P"
  by (simp add: sd_ends_def)

lemma ends_cons: "sd_step B x st = Some t \<Longrightarrow> sd_ends B xs t P \<Longrightarrow> sd_ends B (x # xs) st P"
  by (simp add: sd_ends_def)

lemma ends_append: "sd_ends B xs st (\<lambda>s. sd_ends B ys s P) \<Longrightarrow> sd_ends B (xs @ ys) st P"
proof (induction xs arbitrary: st)
  case (Cons x xs)
  then show ?case by (cases "sd_step B x st") (auto simp: sd_ends_def)
qed (simp add: sd_ends_def)

lemma ends_mono: "sd_ends B xs st P \<Longrightarrow> (\<And>s. P s \<Longrightarrow> Q s) \<Longrightarrow> sd_ends B xs st Q"
  by (auto simp: sd_ends_def)

lemma ends_int_status:
  assumes "sd_at reg rxq disk good R q D tm buf st"
    and "\<And>s. sd_at reg rxq disk good R q D 0 buf s \<Longrightarrow> sd_ends B xs s P"
  shows "sd_ends B (OpWrite v R_INT_STATUS # xs) st P"
proof (rule ends_cons)
  show "sd_step B (OpWrite v R_INT_STATUS) st = Some (st\<lparr>int_status := v, transfer_mode := 0\<rparr>)"
    by (simp add: minion_uart_write_def write_plain_def sd_reg_defs)
  show "sd_ends B xs (st\<lparr>int_status := v, transfer_mode := 0\<rparr>) P"
    by (rule assms(2)) (use assms(1) in \<open>simp add: sd_at_def\<close>)
qed

lemma ends_transfer_mode:
  assumes "sd_at reg rxq disk good R q D tm buf st"
    and "\<And>s. sd_at reg rxq disk good R q D v buf s \<Longrightarrow> sd_ends B xs s P"
  shows "sd_ends B (OpWrite v R_TRANSFER_MODE # xs) st P"
proof (rule ends_cons)
  show "sd_step B (OpWrite v R_TRANSFER_MODE) st = Some (st\<lparr>transfer_mode := v\<rparr>)"
    by (simp add: minion_uart_write_def write_plain_def sd_reg_defs)
  show "sd_ends B xs (st\<lparr>transfer_mode := v\<rparr>) P" by (rule assms(2)) (use assms(1) in \<open>simp add: sd_at_def\<close>)
qed

lemma ends_present:
  assumes "sd_at reg rxq disk good R q D tm buf st"
    and "\<And>s. sd_at reg rxq disk good R q D tm buf s \<Longrightarrow> sd_ends B xs s P"
  shows "sd_ends B (OpPresent # xs) st P"
proof (rule ends_cons)
  show "sd_step B OpPresent st = Some (st\<lparr>present_state := 0x800\<rparr>)"
    by (simp add: minion_uart_read_def sd_reg_defs)
  show "sd_ends B xs (st\<lparr>present_state := 0x800\<rparr>) P" by (rule assms(2)) (use assms(1) in \<open>simp add: sd_at_def\<close>)
qed

lemma ends_int:
  assumes L: "sd_laws B reg rxq disk good" and a: "sd_at reg rxq disk good R q D tm buf st"
    and k: "\<And>s. sd_at reg rxq disk good R q D tm buf s \<Longrightarrow> sd_ends B xs s P"
  shows "sd_ends B (OpInt # xs) st P"
proof -
  obtain v d where r: "bus_read B (sd_reg 4) (sd_dev st) = (v, d)" by (cases "bus_read B (sd_reg 4) (sd_dev st)")
  have s: "sd_sees reg rxq disk good d R q D"
    using sees_resp [OF L, of "sd_dev st" R q D 4] a r by (simp add: sd_at_def)
  let ?st = "st\<lparr>sd_dev := d, int_status := (if v < timeout_control st then 0x21 else 0x8000)\<rparr>"
  show ?thesis
  proof (rule ends_cons)
    show "sd_step B OpInt st = Some ?st"
      by (simp add: minion_uart_read_def sd_reg_defs sd_resp_host_def sd_resp_def queue_read_def r)
    show "sd_ends B xs ?st P" by (rule k) (use a s in \<open>simp add: sd_at_def\<close>)
  qed
qed

text \<open>The registers of the controller behind the host's registers.\<close>

lemma ends_device:
  assumes L: "sd_laws B reg rxq disk good" and a: "sd_at reg rxq disk good R q D tm buf st"
    and r: "(reg0, i, f) \<in> {(R_ARGUMENT, 2, id), (R_BLOCK_SIZE, 8, \<lambda>v. v AND 0xFFF), (R_BLOCK_COUNT, 7, \<lambda>v. v AND 0xFFFF),
      (R_TIMEOUT_CONTROL, 9, id)}"
    and k: "\<And>s. sd_at reg rxq disk good (R(i := f v)) q D tm buf s \<Longrightarrow> sd_ends B xs s P"
  shows "sd_ends B (OpWrite v reg0 # xs) st P"
proof -
  have i: "i < 10" "i \<noteq> 5" "i \<noteq> 6" using r by auto
  let ?d = "queue_write B (sd_reg i) (f v) (sd_dev st)"
  have s: "sd_sees reg rxq disk good ?d (R(i := f v)) q D"
    using a by (intro sees_write [OF L _ i]) (simp add: sd_at_def)
  from r obtain st' where "sd_step B (OpWrite v reg0) st = Some st'" "sd_dev st' = ?d" "transfer_mode st' = transfer_mode st"
    "sd_iobuf st' = sd_iobuf st"
    by (auto simp: minion_uart_write_def sd_reg_defs on_dev_def sd_arg_def sd_blksize_def sd_blkcnt_def sd_timeout_def)
  then show ?thesis using a s by (intro ends_cons [where t = st'] k) (simp_all add: sd_at_def)
qed

lemma ends_command:
  assumes L: "sd_laws B reg rxq disk good" and a: "sd_at reg rxq disk good R q D tm buf st"
    and k: "\<And>s R' ws. sd_at reg rxq disk good R' (q @ ws) D tm buf s \<Longrightarrow> R' 5 = 0 \<Longrightarrow> (tm AND 0x10 = 0 \<Longrightarrow> ws = []) \<Longrightarrow>
      (tm AND 0x10 \<noteq> 0 \<Longrightarrow> signed_drop_bit 8 v = (17 :: u32) \<Longrightarrow> R 7 = 1 \<Longrightarrow> R 8 = 0x200 \<Longrightarrow> ws = D (R 2)) \<Longrightarrow> sd_ends B xs s P"
  shows "sd_ends B (OpWrite v R_COMMAND # xs) st P"
proof -
  have s: "sd_sees reg rxq disk good (sd_dev st) R q D" using a by (simp add: sd_at_def)
  from sd_command_law [OF L s, of v] obtain d' ws where
    c: "sd_command B v st = Some (st\<lparr>sd_dev := d', int_status := 1\<rparr>)" and
    d': "sd_sees reg rxq disk good d'
      (R(3 := signed_drop_bit 8 v, 4 := cmd_setting_value 0 (transfer_mode st) (host_control st), 5 := 0)) (q @ ws) D"
      "transfer_mode st AND 0x10 = 0 \<longrightarrow> ws = []"
      "transfer_mode st AND 0x10 \<noteq> 0 \<longrightarrow> signed_drop_bit 8 v = (17 :: u32) \<longrightarrow> R 7 = 1 \<longrightarrow> R 8 = 0x200 \<longrightarrow> ws = D (R 2)"
    by blast
  have "sd_step B (OpWrite v R_COMMAND) st = Some (st\<lparr>sd_dev := d', int_status := 1\<rparr>)"
    by (simp add: minion_uart_write_def c)
  then show ?thesis
  proof (rule ends_cons)
    show "sd_ends B xs (st\<lparr>sd_dev := d', int_status := 1\<rparr>) P"
      by (rule k [OF _ _ d'(2) [rule_format] d'(3) [rule_format], of "R(3 := signed_drop_bit 8 v,
        4 := cmd_setting_value 0 (transfer_mode st) (host_control st), 5 := 0)"]) (use a d' in \<open>simp_all add: sd_at_def\<close>)
  qed
qed

lemmas sd_ends_rules = ends_int_status ends_transfer_mode ends_present ends_nil

lemma read_sector_before_ends:
  assumes L: "sd_laws B reg rxq disk good" and a: "sd_at reg rxq disk good R [] D tm buf st"
  shows "sd_ends B (read_sector_before sect) st (\<lambda>s. \<exists>R'. R' 5 = 0 \<and> sd_at reg rxq disk good R' (D sect) D 0x12 buf s)"
  unfolding read_sector_before_def
  apply (rule ends_int_status [OF a])
  apply (rule ends_present, assumption)
  apply (rule ends_device [OF L, where i = 2 and f = id], assumption, simp, simp only: id_apply)
  apply (rule ends_command [OF L], assumption, simp)
  apply (rule ends_int [OF L], assumption)
  apply (rule ends_int_status, assumption)
  apply (rule ends_int [OF L], assumption)
  apply (rule ends_int_status, assumption)
  apply (rule ends_int_status, assumption)
  apply (rule ends_present, assumption)
  apply (rule ends_device [OF L, where i = 9 and f = id], assumption, simp, simp only: id_apply)
  apply (rule ends_device [OF L, where i = 8 and f = "\<lambda>v. v AND 0xFFF"], assumption, simp)
  apply (rule ends_device [OF L, where i = 7 and f = "\<lambda>v. v AND 0xFFFF"], assumption, simp)
  apply (rule ends_transfer_mode, assumption)
  apply (rule ends_device [OF L, where i = 2 and f = id], assumption, simp, simp only: id_apply)
  apply (rule ends_command [OF L], assumption)
  apply (rule ends_int [OF L], assumption)
  by (rule ends_nil) auto


lemma read_sector_after_ends:
  assumes L: "sd_laws B reg rxq disk good" and a: "sd_at reg rxq disk good R q D tm buf st"
  shows "sd_ends B read_sector_after st (\<lambda>s. sd_at reg rxq disk good R q D 0 buf s)"
  unfolding read_sector_after_def
  apply (rule ends_int_status [OF a])
  apply (rule ends_int [OF L], assumption)
  apply (rule ends_int_status, assumption)
  by (rule ends_nil)

lemma queue_read_array_law:
  assumes L: "sd_laws B reg rxq disk good"
  shows "i + n \<le> 10 \<Longrightarrow> sd_sees reg rxq disk good d R q D \<Longrightarrow>
    sd_sees reg rxq disk good (snd (queue_read_array B (sd_reg (of_nat i)) n d)) R q D"
proof (induction n arbitrary: i d)
  case (Suc n)
  obtain v d1 where r: "bus_read B (sd_reg (of_nat i)) d = (v, d1)" by (cases "bus_read B (sd_reg (of_nat i)) d")
  have "of_nat i < (10 :: u32)" using Suc.prems(1) by (simp add: word_less_nat_alt unat_of_nat)
  from sees_resp [OF L Suc.prems(2) this] r have d1: "sd_sees reg rxq disk good d1 R q D" by simp
  have "sd_reg (of_nat i) + 4 = sd_reg (of_nat (Suc i))" by (simp add: sd_reg_def algebra_simps)
  with Suc.IH [of "Suc i" d1] Suc.prems(1) d1 r show ?case by (simp add: case_prod_beta)
qed simp

lemma sd_fetch_law:
  assumes L: "sd_laws B reg rxq disk good" and s: "sd_sees reg rxq disk good (sd_dev st) R [] D"
    and l: "length (sd_iobuf st) = 512"
  shows "\<exists>st' R'. sd_fetch B sect st = Some (of_nat (min (length (D sect)) 512), st') \<and>
    sd_iobuf st' = take 512 (D sect) @ drop (length (D sect)) (sd_iobuf st) \<and>
    sd_sees reg rxq disk good (sd_dev st') R' [] D \<and> R' 5 = 0"
proof -
  let ?k = "min (length (D sect)) 512"
  have "sd_at reg rxq disk good R [] D (transfer_mode st) (sd_iobuf st) st" using s by (simp add: sd_at_def)
  from read_sector_before_ends [OF L this, of sect] obtain s1 R1 where
    r1: "sd_run B (read_sector_before sect) st = Some s1" "R1 5 = 0" and
    a1: "sd_at reg rxq disk good R1 (D sect) D 0x12 (sd_iobuf st) s1" by (auto simp: sd_ends_def)
  obtain resp d2 where r2: "queue_read_array B sd_base 10 (sd_dev s1) = (resp, d2)"
    by (cases "queue_read_array B sd_base 10 (sd_dev s1)")
  have s2: "sd_sees reg rxq disk good d2 R1 (D sect) D"
    using queue_read_array_law [OF L, of 0 10 "sd_dev s1" R1 "D sect" D] a1 r2 by (simp add: sd_at_def sd_reg_def)
  define buf where "buf = take ?k (D sect) @ drop ?k (sd_iobuf st)"
  from block_read_law [OF L s2 r1(2), of 0 512 "sd_iobuf st" ?k] l obtain d3 where
    r3: "queue_block_read B (sd_iobuf st) 512 d2 = Some (of_nat ?k, buf, d3)" and
    s3: "sd_sees reg rxq disk good d3 R1 [] D"
    by (auto simp: queue_block_read_def buf_def)
  have "sd_at reg rxq disk good R1 [] D 0x12 buf (s1\<lparr>sd_dev := d3, my_resp := resp, sd_iobuf := buf\<rparr>)"
    using s3 a1 by (simp add: sd_at_def)
  from read_sector_after_ends [OF L this] obtain s4 where
    r4: "sd_run B read_sector_after (s1\<lparr>sd_dev := d3, my_resp := resp, sd_iobuf := buf\<rparr>) = Some s4" and
    s4: "sd_sees reg rxq disk good (sd_dev s4) R1 [] D" "sd_iobuf s4 = buf"
    by (auto simp: sd_ends_def sd_at_def)
  have b: "buf = take 512 (D sect) @ drop (length (D sect)) (sd_iobuf st)"
    using l by (cases "length (D sect) \<le> 512") (auto simp: buf_def)
  have "sd_iobuf s1 = sd_iobuf st" using a1 by (simp add: sd_at_def)
  then have "sd_fetch B sect st = Some (of_nat ?k, sd_print (''block_read(%d) = %d'' @ [lf]) [sect, of_nat ?k] s4)"
    by (simp add: sd_fetch_def r1 r2 r3 r4)
  with s4 b r1(2) show ?thesis by (intro exI [of _ "sd_print (''block_read(%d) = %d'' @ [lf]) [sect, of_nat ?k] s4"] exI [of _ R1])
      (simp add: sd_print_def)
qed

section \<open>Byte order\<close>

text \<open>The bytes of a word of the FIFO, the first one received first.\<close>

definition be_bytes :: "u32 \<Rightarrow> u8 list" where
  "be_bytes w = rev (le_bytes 4 (unat w))"

lemma to_cpu_bytes: "le_bytes 4 (unat (to_cpu w)) = be_bytes w"
proof -
  have m: "(0xFF :: u32) = mask 8" "(0xFF00 :: u32) = push_bit 8 (mask 8)" "(0xFF0000 :: u32) = push_bit 16 (mask 8)"
    "(0xFF000000 :: u32) = push_bit 24 (mask 8)" by (simp_all add: mask_eq_exp_minus_1 push_bit_eq_mult)
  have "ucast (to_cpu w) = (ucast (drop_bit 24 w) :: u8)" "ucast (drop_bit 8 (to_cpu w)) = (ucast (drop_bit 16 w) :: u8)"
    "ucast (drop_bit 16 (to_cpu w)) = (ucast (drop_bit 8 w) :: u8)" "ucast (drop_bit 24 (to_cpu w)) = (ucast w :: u8)"
    unfolding to_cpu_def m by (rule bit_eqI, auto simp: bit_simps)+
  then show ?thesis unfolding be_bytes_def le_bytes_4 by simp
qed

lemma put_words_bytes: "put_words m a ws = store_bytes m a (concat (map be_bytes ws))"
proof (induction ws arbitrary: m a)
  case (Cons w ws)
  have "length (be_bytes w) = 4" by (simp add: be_bytes_def)
  then show ?case using Cons by (simp add: store_bytes_append wr32_def to_cpu_bytes)
qed simp



section \<open>The start-up ends\<close>

text \<open>Every access of the start-up ends on a working controller, and leaves it working.\<close>

definition sd_idle ::
  "('d \<Rightarrow> u32 \<Rightarrow> u32) \<Rightarrow> ('d \<Rightarrow> u32 list) \<Rightarrow> ('d \<Rightarrow> u32 \<Rightarrow> u32 list) \<Rightarrow> ('d \<Rightarrow> bool) \<Rightarrow> (u32 \<Rightarrow> u32 list) \<Rightarrow> 'd sdhost \<Rightarrow> bool" where
  "sd_idle reg rxq disk good D st \<longleftrightarrow>
     good (sd_dev st) \<and> reg (sd_dev st) 5 = 0 \<and> disk (sd_dev st) = D \<and> length (sd_iobuf st) = 512"

lemma idle_write:
  assumes "sd_laws B reg rxq disk good" "sd_idle reg rxq disk good D st" "i < 10" "i \<noteq> 5" "i \<noteq> 6"
  shows "sd_idle reg rxq disk good D (on_dev (queue_write B (sd_reg i) v) st)"
  using sd_lawsD(1) [OF assms(1) _ assms(3-5), of "sd_dev st" v] assms(2,4)
  by (simp add: sd_idle_def on_dev_def queue_write_def)

lemma idle_host:
  "sd_dev st' = sd_dev st \<Longrightarrow> sd_iobuf st' = sd_iobuf st \<Longrightarrow> sd_idle reg rxq disk good D st \<Longrightarrow> sd_idle reg rxq disk good D st'"
  by (simp add: sd_idle_def)

lemma idle_plain: "sd_idle reg rxq disk good D st \<Longrightarrow> sd_idle reg rxq disk good D (write_plain v r st)"
  by (rule idle_host [of _ st]) (simp_all add: write_plain_def sd_print_def)

lemma idle_read:
  assumes "sd_laws B reg rxq disk good" "sd_idle reg rxq disk good D st"
  shows "sd_idle reg rxq disk good D (snd (minion_uart_read B r st))"
proof -
  have *: "sd_idle reg rxq disk good D (snd (sd_resp_host B i st))" if "i < 10" for i
    using sd_lawsD(8) [OF assms(1) _ that, of "sd_dev st"] assms(2)
    by (simp add: sd_idle_def sd_resp_host_def sd_resp_def queue_read_def sd_same_def case_prod_beta)
  show ?thesis
    using assms(2) * [of 0] * [of 1] * [of 2] * [of 3] * [of 4]
    by (simp add: minion_uart_read_def case_prod_beta sd_print_def idle_host [of _ st])
qed

lemma sd_write_regs:
  "sd_timeout B v = queue_write B (sd_reg 9) v" "sd_blkcnt B v = queue_write B (sd_reg 7) (v AND 0xFFFF)"
  "sd_blksize B v = queue_write B (sd_reg 8) (v AND 0xFFF)" "sd_arg B v = queue_write B (sd_reg 2) v"
  by (simp_all add: fun_eq_iff sd_timeout_def sd_blkcnt_def sd_blksize_def sd_arg_def)

lemma idle_uart_write:
  assumes L: "sd_laws B reg rxq disk good" and i: "sd_idle reg rxq disk good D st"
  shows "\<exists>st'. minion_uart_write B v r st = Some st' \<and> sd_idle reg rxq disk good D st'"
proof (cases "r = R_COMMAND")
  case True
  have "sd_sees reg rxq disk good (sd_dev st) (reg (sd_dev st)) (rxq (sd_dev st)) D"
    using i by (simp add: sd_idle_def sd_sees_def)
  from sd_command_law [OF L this, of v] True i show ?thesis
    by (auto simp: minion_uart_write_def sd_idle_def sd_sees_def)
next
  case False
  note w = idle_write [OF L]
  have "sd_idle reg rxq disk good D (write_control v st)"
    by (rule idle_host [OF _ _ i]) (simp_all add: write_control_def sd_print_def)
  moreover have "sd_idle reg rxq disk good D (write_clock B v st)"
  proof -
    let ?s = "sd_print (''Clock divider = %d'' @ [lf]) [40000000 div drop_bit 8 v] (st\<lparr>clock_div := drop_bit 8 v\<rparr>)"
    have "sd_idle reg rxq disk good D ?s" by (rule idle_host [OF _ _ i]) (simp_all add: sd_print_def)
    from w [OF this, of 1 "40000000 div drop_bit 8 v"] i show ?thesis
      by (auto simp: write_clock_def sd_clk_div_def Let_def sd_print_def elim: idle_host [rotated 2])
  qed
  moreover have "sd_idle reg rxq disk good D (on_dev (sd_timeout B v) (st\<lparr>timeout_control := v\<rparr>))"
    unfolding sd_write_regs by (rule w) (use idle_host [OF _ _ i] in simp_all)
  moreover have "sd_idle reg rxq disk good D (on_dev (sd_blkcnt B v) st)" "sd_idle reg rxq disk good D (on_dev (sd_blksize B v) st)"
    "sd_idle reg rxq disk good D (on_dev (sd_arg B v) st)"
    unfolding sd_write_regs by (rule w [OF i]; simp)+
  ultimately show ?thesis using False idle_plain [OF i, of v r] unfolding minion_uart_write_def by (simp only: if_False) auto
qed

lemma idle_block:
  assumes L: "sd_laws B reg rxq disk good" and i: "sd_idle reg rxq disk good D st" and n: "n \<le> 512"
  shows "\<exists>st'. sd_step B (OpBlock n) st = Some st' \<and> sd_idle reg rxq disk good D st' \<and> rxq (sd_dev st') = []"
proof -
  have s: "sd_sees reg rxq disk good (sd_dev st) (reg (sd_dev st)) (rxq (sd_dev st)) D"
    using i by (simp add: sd_idle_def sd_sees_def)
  have "unat n \<le> 512" using n by (simp add: word_le_nat_alt)
  with block_read_law [OF L s, of 0 n "sd_iobuf st" "min (length (rxq (sd_dev st))) (unat n)"] i
  show ?thesis by (auto simp: queue_block_read_def sd_idle_def sd_sees_def)
qed

lemma sd_run_idle:
  assumes L: "sd_laws B reg rxq disk good"
  shows "sd_idle reg rxq disk good D st \<Longrightarrow> \<forall>n. OpBlock n \<in> set xs \<longrightarrow> n \<le> 512 \<Longrightarrow>
    sd_ends B xs st (sd_idle reg rxq disk good D)"
proof (induction xs arbitrary: st)
  case (Cons x xs)
  have "\<exists>t. sd_step B x st = Some t \<and> sd_idle reg rxq disk good D t"
  proof (cases x)
    case (OpWrite v r)
    with idle_uart_write [OF L Cons.prems(1)] show ?thesis by simp
  next
    case (OpRead r)
    with idle_read [OF L Cons.prems(1)] show ?thesis by simp
  next
    case OpPresent
    with idle_host [OF _ _ idle_read [OF L Cons.prems(1), of R_PRESENT_STATE]] show ?thesis by (simp add: case_prod_beta)
  next
    case OpInt
    with idle_host [OF _ _ idle_read [OF L Cons.prems(1), of R_INT_STATUS]] show ?thesis by (simp add: case_prod_beta)
  next
    case (OpBlock n)
    with Cons.prems idle_block [OF L Cons.prems(1), of n] show ?thesis by auto
  qed
  then obtain t where "sd_step B x st = Some t" "sd_idle reg rxq disk good D t" by blast
  with Cons show ?case by (intro ends_cons) auto
qed (simp add: ends_nil)


lemma sd_fetch_idle:
  assumes L: "sd_laws B reg rxq disk good" and i: "sd_idle reg rxq disk good D st"
  shows "\<exists>len st'. sd_fetch B sect st = Some (len, st') \<and> sd_idle reg rxq disk good D st'"
proof -
  have "sd_ends B (read_sector_before sect) st (sd_idle reg rxq disk good D)"
    by (rule sd_run_idle [OF L i]) (simp add: read_sector_before_def)
  then obtain s1 where r1: "sd_run B (read_sector_before sect) st = Some s1" "sd_idle reg rxq disk good D s1"
    by (auto simp: sd_ends_def)
  obtain resp d2 where r2: "queue_read_array B sd_base 10 (sd_dev s1) = (resp, d2)"
    by (cases "queue_read_array B sd_base 10 (sd_dev s1)")
  have "sd_sees reg rxq disk good d2 (reg (sd_dev s1)) (rxq (sd_dev s1)) D"
    using queue_read_array_law [OF L, of 0 10 "sd_dev s1"] r1(2) r2 by (simp add: sd_sees_def sd_idle_def sd_reg_def)
  then have "sd_idle reg rxq disk good D (s1\<lparr>sd_dev := d2\<rparr>)" using r1(2) by (simp add: sd_idle_def sd_sees_def)
  from idle_block [OF L this, of 512] obtain n buf d3 where
    r3: "queue_block_read B (sd_iobuf s1) 512 d2 = Some (n, buf, d3)" and
    i3: "sd_idle reg rxq disk good D (s1\<lparr>sd_iobuf := buf, sd_dev := d3\<rparr>)" by (auto split: option.splits)
  then have "sd_idle reg rxq disk good D (s1\<lparr>sd_dev := d3, my_resp := resp, sd_iobuf := buf\<rparr>)"
    by (simp add: sd_idle_def)
  from sd_run_idle [OF L this, of read_sector_after] obtain s4 where
    r4: "sd_run B read_sector_after (s1\<lparr>sd_dev := d3, my_resp := resp, sd_iobuf := buf\<rparr>) = Some s4" and
    i4: "sd_idle reg rxq disk good D s4" by (auto simp: sd_ends_def read_sector_after_def)
  have "sd_idle reg rxq disk good D (sd_print (''block_read(%d) = %d'' @ [lf]) [sect, n] s4)"
    by (rule idle_host [OF _ _ i4]) (simp_all add: sd_print_def)
  with r1 r2 r3 r4 show ?thesis by (simp add: sd_fetch_def)
qed

lemma read_sectors_ends:
  assumes L: "sd_laws B reg rxq disk good"
  shows "sd_idle reg rxq disk good D st \<Longrightarrow>
    \<exists>st'. read_sectors_in_place B ss st = Some st' \<and> sd_idle reg rxq disk good D st'"
proof (induction ss arbitrary: st)
  case (Cons s ss)
  from sd_fetch_idle [OF L Cons.prems, of s] obtain len t where t: "sd_fetch B s st = Some (len, t)"
    "sd_idle reg rxq disk good D t" by blast
  let ?t = "t\<lparr>sd_iobuf := map to_cpu (take (unat len) (sd_iobuf t)) @ drop (unat len) (sd_iobuf t)\<rparr>"
  have "sd_idle reg rxq disk good D ?t" using t(2) by (auto simp: sd_idle_def)
  from Cons.IH [OF this] t(1) show ?case by (simp add: sd_read_in_place_def)
qed simp

text \<open>The start-up returns on every working controller, whatever the card answers: it looks at no response.\<close>

lemma init_sd_ends:
  assumes L: "sd_laws B reg rxq disk good" and i: "sd_idle reg rxq disk good D st"
  shows "\<exists>st'. init_sd B st = Some st' \<and> sd_idle reg rxq disk good D st'"
proof -
  have "sd_ends B (init_reset_ops @ init_ready_ops @ init_identify_ops @ init_data_ops @ init_bus_ops) st
      (sd_idle reg rxq disk good D)"
    by (rule sd_run_idle [OF L i])
      (auto simp: init_reset_ops_def init_ready_ops_def init_identify_ops_def init_data_ops_def init_bus_ops_def
        init_round_def init_data_round_def)
  then obtain t where t: "sd_run B (init_reset_ops @ init_ready_ops @ init_identify_ops @ init_data_ops @ init_bus_ops) st = Some t"
    "sd_idle reg rxq disk good D t" by (auto simp: sd_ends_def)
  from read_sectors_ends [OF L t(2), of "map of_nat [0..<16]"] t(1) show ?thesis
    unfolding init_sd_def by (simp only: Option.bind.bind_lunit)
qed

section \<open>A controller in memory\<close>

record card =
  c_reg :: "u32 \<Rightarrow> u32"
  c_q :: "u32 list"
  c_cur :: u32
  c_disk :: "u32 \<Rightarrow> u32 list"

definition card_start :: "card \<Rightarrow> card" where
  "card_start d =
     d\<lparr>c_reg := (c_reg d)(5 := 1),
       c_q := c_q d @ (if c_reg d 4 AND 0x14 = 0x14 \<and> c_reg d 3 = 17 \<and> c_reg d 7 = 1 \<and> c_reg d 8 = 0x200
                       then c_disk d (c_reg d 2) else [])\<rparr>"

definition card_bus :: "card bus" where
  "card_bus =
     \<lparr>bus_read = (\<lambda>a d.
        (if a = sd_stat_base then (if c_reg d 5 = 1 then 0x500 else 0) OR (if c_q d = [] then 1 else 0)
         else if a = rxfifo_base then c_cur d else c_reg d ((a - sd_base) div 4), d)),
      bus_write = (\<lambda>a v d.
        if a = rxfifo_base then (if c_q d = [] then d else d\<lparr>c_cur := hd (c_q d), c_q := tl (c_q d)\<rparr>)
        else if a = sd_reg 5 \<and> v = 1 then card_start d
        else d\<lparr>c_reg := (c_reg d)((a - sd_base) div 4 := v)\<rparr>)\<rparr>"

lemma less_ten: "(i :: u32) < 10 \<Longrightarrow> i \<in> {0, 1, 2, 3, 4, 5, 6, 7, 8, 9}"
proof -
  assume "i < 10"
  then have "unat i < 10" by (simp add: word_less_nat_alt)
  moreover have "n < 10 \<Longrightarrow> n = 0 \<or> n = 1 \<or> n = 2 \<or> n = 3 \<or> n = 4 \<or> n = 5 \<or> n = 6 \<or> n = 7 \<or> n = 8 \<or> n = 9" for n :: nat
    by presburger
  ultimately have "unat i = 0 \<or> unat i = 1 \<or> unat i = 2 \<or> unat i = 3 \<or> unat i = 4 \<or> unat i = 5 \<or> unat i = 6 \<or> unat i = 7 \<or>
    unat i = 8 \<or> unat i = 9" by blast
  then show ?thesis by (simp add: word_unat_eq_iff)
qed

lemma card_reg [simp]:
  "i < 10 \<Longrightarrow> sd_reg i \<noteq> rxfifo_base \<and> sd_reg i \<noteq> sd_stat_base \<and> (sd_reg i - sd_base) div 4 = i \<and> (sd_reg i = sd_reg 5 \<longleftrightarrow> i = 5)"
  using less_ten [of i] by (auto simp: sd_reg_def sd_base_def rxfifo_base_def sd_stat_base_def)

lemma card_laws: "sd_laws card_bus c_reg c_q c_disk (\<lambda>_. True)"
proof -
  have b: "1 AND NOT ((0x500 :: u32) OR 1) = 0" "1 AND NOT (0x500 :: u32) \<noteq> 0" by simp_all
  have r: "rxfifo_base \<noteq> sd_stat_base" "rxfifo_base \<noteq> sd_reg 5" by (simp_all add: rxfifo_base_def sd_stat_base_def sd_reg_def sd_base_def)
  have at_once: "answers card_bus sd_stat_base ok (\<lambda>_ d'. sd_same c_reg c_q c_disk (\<lambda>_. True) d d') d"
    if "ok ((if c_reg d 5 = 1 then 0x500 else 0) OR (if c_q d = [] then 1 else 0))" for ok d
    by (rule answers.now [where d' = d and
          v = "(if c_reg d 5 = 1 then 0x500 else 0) OR (if c_q d = [] then 1 else 0)"])
      (use that in \<open>simp_all add: card_bus_def sd_same_def\<close>)
  show ?thesis
    unfolding sd_laws_def Let_def
  proof (intro conjI allI impI)
    fix d :: card and i v assume "(i :: u32) < 10" "i \<noteq> 5" "i \<noteq> 6"
    then show "c_reg (bus_write card_bus (sd_reg i) v d) = (c_reg d)(i := v)" "c_q (bus_write card_bus (sd_reg i) v d) = c_q d"
      "c_disk (bus_write card_bus (sd_reg i) v d) = c_disk d"
      by (simp_all add: card_bus_def)
  next
    fix d :: card
    show "c_reg (bus_write card_bus (sd_reg 5) 1 d) = (c_reg d)(5 := 1)" "c_disk (bus_write card_bus (sd_reg 5) 1 d) = c_disk d"
      "c_reg (bus_write card_bus (sd_reg 5) 0 d) = (c_reg d)(5 := 0)" "c_disk (bus_write card_bus (sd_reg 5) 0 d) = c_disk d"
      "c_q (bus_write card_bus (sd_reg 5) 0 d) = c_q d"
      by (simp_all add: card_bus_def card_start_def)
    show "\<exists>ws. c_q (bus_write card_bus (sd_reg 5) 1 d) = c_q d @ ws \<and> (c_reg d 4 AND 0x14 = 0 \<longrightarrow> ws = []) \<and>
       (c_reg d 4 AND 0x14 = 0x14 \<longrightarrow> c_reg d 3 = 17 \<longrightarrow> c_reg d 7 = 1 \<longrightarrow> c_reg d 8 = 0x200 \<longrightarrow> ws = c_disk d (c_reg d 2))"
      by (simp add: card_bus_def card_start_def)
  next
    fix d :: card assume "c_reg d 5 = 1"
    then show "answers card_bus sd_stat_base (\<lambda>v. v AND (if c_reg d 4 AND 0x14 = 0 then 0x100 else 0x500) =
        (if c_reg d 4 AND 0x14 = 0 then 0x100 else 0x500)) (\<lambda>_ d'. sd_same c_reg c_q c_disk (\<lambda>_. True) d d') d"
      by (intro at_once) simp
  next
    fix d :: card and msk :: u32 assume "c_reg d 5 = 0" "msk = 0x100 \<or> msk = 0x500"
    then show "answers card_bus sd_stat_base (\<lambda>v. v AND msk = 0) (\<lambda>_ d'. sd_same c_reg c_q c_disk (\<lambda>_. True) d d') d"
      by (intro at_once) auto
  next
    fix d :: card assume "c_reg d 5 = 0"
    then show "case bus_read card_bus sd_stat_base d of (v, d') \<Rightarrow>
        (1 AND NOT v = 0 \<longleftrightarrow> c_q d = []) \<and> sd_same c_reg c_q c_disk (\<lambda>_. True) d d'"
      by (simp add: card_bus_def sd_same_def)
  next
    fix d :: card and w ws assume "c_q d = w # ws"
    then show "case bus_read card_bus rxfifo_base (bus_write card_bus rxfifo_base 0 d) of
        (v, d') \<Rightarrow> v = w \<and> True \<and> c_reg d' = c_reg d \<and> c_q d' = ws \<and> c_disk d' = c_disk d"
      using r by (simp add: card_bus_def)
  next
    fix d :: card and i assume "(i :: u32) < 10"
    then show "sd_same c_reg c_q c_disk (\<lambda>_. True) d (snd (bus_read card_bus (sd_reg i) d))"
      by (simp add: card_bus_def sd_same_def)
  qed simp_all
qed

section \<open>Concrete run\<close>

definition host_sample :: "card sdhost" where
  "host_sample =
     \<lparr>sd_dev = \<lparr>c_reg = (\<lambda>_. 0), c_q = [], c_cur = 0, c_disk = (\<lambda>s. [s, 0x41424344])\<rparr>,
      host_control = 0, ctrl_cd = 0, power_control = 0, power_180 = 0, block_gap = 0, wake_up = 0, timeout_control = 0,
      software_reset = 0, clock_div = 0, int_status = 0, int_enable = 0, signal_enable = 0, present_state = 0,
      max_current = 0, set_acmd12 = 0, set_int = 0, slot_int = 0, host_version = 0, transfer_mode = 0,
      sd_iobuf = replicate 512 0, my_resp = replicate 10 0, sd_log = []\<rparr>"


end
