(* ===== verification/DiskDefs.thy ===== *)
theory DiskDefs
  imports Prelude
begin

text \<open>
  The codes that both disk drivers share (hello/diskio.h and bootstrap/sdcard/diskio.h, which agree on them): the
  bits of the status, the bits of the card type, and the results FatFs gets.
\<close>

definition STA_NOINIT :: u8 where "STA_NOINIT = 0x01"
definition STA_PROTECT :: u8 where "STA_PROTECT = 0x04"
definition STA_NODISK :: u8 where "STA_NODISK = 0x02"
definition CT_MMC :: u8 where "CT_MMC = 0x01"
definition CT_SD1 :: u8 where "CT_SD1 = 0x02"
definition CT_SD2 :: u8 where "CT_SD2 = 0x04"
definition CT_SDC :: u8 where "CT_SDC = CT_SD1 OR CT_SD2"
definition CT_BLOCK :: u8 where "CT_BLOCK = 0x08"

datatype dresult = RES_OK | RES_ERROR | RES_WRPRT | RES_NOTRDY | RES_PARERR

end
