(* ===== verification/HostDisk.thy ===== *)
theory HostDisk
  imports SDHost DiskDefs
begin

text \<open>
  The disk functions FatFs calls in the kernel (hello/diskio.c, the same file in hello/driver) over the SD host
  controller, with the stubs of hello/dummy.c they use and the file of control registers kept there.  A
  result \<open>Inl\<close> is a call that does not return: \<open>Disk_aborts\<close> is a call of \<open>abort\<close>, \<open>Disk_hangs\<close> a waiting loop that
  does not end, \<open>Disk_undefined\<close> an access outside an array or a value that is never set.
\<close>

datatype disk_fail = Disk_aborts | Disk_hangs | Disk_undefined

section \<open>Control registers (hello/dummy.c)\<close>

text \<open>An index is compared with the number of registers as an unsigned number, and the number itself passes.\<close>

definition set_csr :: "u32 \<Rightarrow> u32 \<Rightarrow> u32 list \<Rightarrow> disk_fail + u32 list" where
  "set_csr mip b csr =
     (if mip > 512 then Inl Disk_aborts
      else if unat mip < length csr then Inr (csr[unat mip := csr ! unat mip OR b]) else Inl Disk_undefined)"

definition clear_csr :: "u32 \<Rightarrow> u32 \<Rightarrow> u32 list \<Rightarrow> disk_fail + u32 list" where
  "clear_csr mip val csr =
     (if mip > 512 then Inl Disk_aborts
      else if unat mip < length csr then Inr (csr[unat mip := csr ! unat mip AND NOT val]) else Inl Disk_undefined)"

definition write_csr :: "u32 \<Rightarrow> u32 \<Rightarrow> u32 list \<Rightarrow> disk_fail + u32 list" where
  "write_csr mip data csr =
     (if mip > 512 then Inl Disk_aborts
      else if unat mip < length csr then Inr (csr[unat mip := data]) else Inl Disk_undefined)"

definition swap_csr :: "u32 \<Rightarrow> u32 \<Rightarrow> u32 list \<Rightarrow> disk_fail + u32 list" where
  "swap_csr mip val csr = (if mip > 512 then Inl Disk_aborts else Inr csr)"

lemma csr_bound:
  assumes "length csr = 512"
  shows "set_csr mip b csr = Inl Disk_undefined \<longleftrightarrow> mip = 512"
proof -
  have "mip = 512 \<longleftrightarrow> unat mip = 512" by (simp add: word_unat_eq_iff)
  moreover have "mip > 512 \<longleftrightarrow> unat mip > 512" by (simp add: word_less_nat_alt)
  ultimately show ?thesis using assms by (auto simp: set_csr_def)
qed

section \<open>State\<close>

record 'd hostdisk =
  hd_host :: "'d sdhost"
  Stat :: u8
  CardType :: u8

definition from_host :: "('a \<times> 'd sdhost) option \<Rightarrow> 'd hostdisk \<Rightarrow> disk_fail + 'a \<times> 'd hostdisk" where
  "from_host r dk = (case r of None \<Rightarrow> Inl Disk_hangs | Some (v, st) \<Rightarrow> Inr (v, dk\<lparr>hd_host := st\<rparr>))"

section \<open>Start-up\<close>

text \<open>The former start-up asks the card until it is ready.\<close>

partial_function (option) busy_loop :: "'d bus \<Rightarrow> 'd sdhost \<Rightarrow> 'd sdhost option" where
  "busy_loop B st =
     (case sd_transaction_v B 55 0 1 st of
        None \<Rightarrow> None
      | Some (_, st) \<Rightarrow>
          (case sd_transaction_v B 41 0x40300000 1 st of
             None \<Rightarrow> None
           | Some (busy, st) \<Rightarrow> if 0x80000000 AND NOT busy \<noteq> 0 then busy_loop B st else Some st))"

fun transactions_v :: "'d bus \<Rightarrow> (u32 \<times> u32 \<times> u32) list \<Rightarrow> 'd sdhost \<Rightarrow> 'd sdhost option" where
  "transactions_v B [] st = Some st"
| "transactions_v B ((c, a, s) # xs) st =
     (case sd_transaction_v B c a s st of None \<Rightarrow> None | Some (_, st) \<Rightarrow> transactions_v B xs st)"

text \<open>The loop over \<open>i = 0\<close> and the odd numbers below 16.\<close>

definition old_init_blocks :: "u32 list" where
  "old_init_blocks = [0, 1, 3, 5, 7, 9, 11, 13, 15]"

definition sd_init_old :: "'d bus \<Rightarrow> 'd sdhost \<Rightarrow> 'd sdhost option" where
  "sd_init_old B st =
     do { st \<leftarrow> transactions_v B [(0, 0, 0), (8, 0x1AA, 1)] (board_mmc_power_init B st);
          st \<leftarrow> busy_loop B st;
          st \<leftarrow> transactions_v B [(2, 0, 3)] st;
          (rca, st) \<leftarrow> sd_transaction_v B 3 0 1 st;
          d \<leftarrow> send_list (uart_sendchar B) ([0x0D, 0x0A, 0x63] @ myputhex rca 8) (sd_dev st);
          st \<leftarrow> transactions_v B
            ([(9, rca, 3), (13, rca, 1), (7, rca, 1), (55, rca, 1), (51, 0, 1), (55, rca, 1), (13, 0, 1)] @
             concat (map (\<lambda>i. [(16, 0x200, 1), (17, i, 1), (16, 0x200, 1)]) old_init_blocks) @
             [(16, 0x200, 1), (18, 0x40, 1), (12, 0, 1)]) (st\<lparr>sd_dev := d\<rparr>);
          Some st }"

definition disk_initialize :: "'d bus \<Rightarrow> u8 \<Rightarrow> 'd hostdisk \<Rightarrow> disk_fail + u8 \<times> 'd hostdisk" where
  "disk_initialize B pdrv dk =
     (if pdrv \<noteq> 0 then Inr (STA_NOINIT, dk)
      else case init_sd B (hd_host dk) of
             None \<Rightarrow> Inl Disk_hangs
           | Some st \<Rightarrow>
               (let dk = dk\<lparr>hd_host := st, CardType := CT_SD2 OR CT_BLOCK, Stat := Stat dk AND NOT STA_NOINIT\<rparr>
                in Inr (Stat dk, dk)))"

definition disk_status :: "u8 \<Rightarrow> 'd hostdisk \<Rightarrow> u8" where
  "disk_status pdrv dk = (if pdrv \<noteq> 0 then STA_NOINIT else Stat dk)"

section \<open>Reading\<close>

definition sd_block_read :: "'d bus \<Rightarrow> u32 \<Rightarrow> u32 \<Rightarrow> mem \<times> 'd sdhost \<Rightarrow> (mem \<times> 'd sdhost) option" where
  "sd_block_read B sect buf s =
     (case sd_read_sector B sect buf 512 s of None \<Rightarrow> None | Some (len, m, st) \<Rightarrow> Some (m, st))"

text \<open>The loop of \<open>disk_read\<close>: the buffer moves on, the sector does not.\<close>

fun disk_read_loop :: "'d bus \<Rightarrow> u32 \<Rightarrow> nat \<Rightarrow> u32 \<Rightarrow> mem \<times> 'd sdhost \<Rightarrow> (mem \<times> 'd sdhost) option" where
  "disk_read_loop B sector 0 buff s = Some s"
| "disk_read_loop B sector (Suc count) buff s =
     (case sd_block_read B sector buff s of
        None \<Rightarrow> None
      | Some s \<Rightarrow> disk_read_loop B sector count (buff + 512) s)"

definition disk_read ::
  "'d bus \<Rightarrow> u8 \<Rightarrow> u32 \<Rightarrow> u32 \<Rightarrow> u32 \<Rightarrow> mem \<times> 'd hostdisk \<Rightarrow> disk_fail + dresult \<times> mem \<times> 'd hostdisk" where
  "disk_read B pdrv buff sector count s =
     (case s of (m, dk) \<Rightarrow>
        if pdrv \<noteq> 0 \<or> count = 0 then Inr (RES_PARERR, m, dk)
        else if Stat dk AND STA_NOINIT \<noteq> 0 then Inr (RES_NOTRDY, m, dk)
        else
          (let sector = (if CardType dk AND CT_BLOCK = 0 then sector * 512 else sector) in
           case disk_read_loop B sector (unat count) buff (m, hd_host dk) of
             None \<Rightarrow> Inl Disk_hangs
           | Some (m, st) \<Rightarrow> Inr (RES_OK, m, dk\<lparr>hd_host := st\<rparr>)))"

section \<open>Writing and control\<close>

text \<open>
  \<open>send_cmd\<close> of this port aborts on every command, so a write never gets past its first command, and the same
  holds of the requests that read registers of the card.  \<open>sd_select\<close> tests a byte that its stub never sets.
\<close>

definition disk_write ::
  "'d bus \<Rightarrow> u8 \<Rightarrow> u32 \<Rightarrow> u32 \<Rightarrow> u32 \<Rightarrow> mem \<times> 'd hostdisk \<Rightarrow> disk_fail + dresult \<times> mem \<times> 'd hostdisk" where
  "disk_write B pdrv buff sector count s =
     (case s of (m, dk) \<Rightarrow>
        if pdrv \<noteq> 0 \<or> count = 0 then Inr (RES_PARERR, m, dk)
        else if Stat dk AND STA_NOINIT \<noteq> 0 then Inr (RES_NOTRDY, m, dk)
        else if Stat dk AND STA_PROTECT \<noteq> 0 then Inr (RES_WRPRT, m, dk)
        else Inl Disk_aborts)"

definition disk_ioctl ::
  "'d bus \<Rightarrow> u8 \<Rightarrow> u8 \<Rightarrow> u32 \<Rightarrow> mem \<times> 'd hostdisk \<Rightarrow> disk_fail + dresult \<times> mem \<times> 'd hostdisk" where
  "disk_ioctl B pdrv cmd buff s =
     (case s of (m, dk) \<Rightarrow>
        if pdrv \<noteq> 0 then Inr (RES_PARERR, m, dk)
        else if Stat dk AND STA_NOINIT \<noteq> 0 then Inr (RES_NOTRDY, m, dk)
        else if cmd = 0 then Inl Disk_undefined
        else if cmd = 1 \<or> cmd = 3 then Inl Disk_aborts
        else if cmd = 50 then Inr (RES_OK, m(buff := CardType dk), dk)
        else if 51 \<le> cmd \<and> cmd \<le> 54 then Inl Disk_aborts
        else if cmd = 6 then Inr (RES_OK, m, dk\<lparr>Stat := Stat dk OR STA_NOINIT\<rparr>)
        else Inr (RES_PARERR, m, dk))"

section \<open>The controller is a block device\<close>

definition card_block :: "('d \<Rightarrow> u32 \<Rightarrow> u32 list) \<Rightarrow> 'd sdhost \<Rightarrow> u32 \<Rightarrow> u8 list" where
  "card_block disk st x = concat (map be_bytes (disk (sd_dev st) x))"

definition card_ready ::
  "'d bus \<Rightarrow> ('d \<Rightarrow> u32 \<Rightarrow> u32) \<Rightarrow> ('d \<Rightarrow> u32 list) \<Rightarrow> ('d \<Rightarrow> u32 \<Rightarrow> u32 list) \<Rightarrow> ('d \<Rightarrow> bool) \<Rightarrow> 'd sdhost \<Rightarrow> bool" where
  "card_ready B reg rxq disk good st \<longleftrightarrow>
     sd_laws B reg rxq disk good \<and> good (sd_dev st) \<and> rxq (sd_dev st) = [] \<and> length (sd_iobuf st) = 512 \<and>
     (\<forall>x. length (disk (sd_dev st) x) = 128)"

lemma length_be_bytes [simp]: "length (be_bytes w) = 4"
  by (simp add: be_bytes_def)

lemma length_be_words: "length (concat (map be_bytes ws)) = 4 * length ws"
  by (induction ws) simp_all

interpretation sdcard: block_device "sd_block_read B" "card_block disk" "card_ready B reg rxq disk good"
  for B :: "'d bus" and reg rxq disk good
proof unfold_locales
  fix st x
  assume "card_ready B reg rxq disk good st"
  then show "length (card_block disk st x) = 512"
    by (simp add: card_ready_def card_block_def length_be_words)
next
  fix st x buf m
  assume r: "card_ready B reg rxq disk good st"
  let ?D = "disk (sd_dev st)"
  from r have "sd_sees reg rxq disk good (sd_dev st) (reg (sd_dev st)) [] ?D" "length (sd_iobuf st) = 512"
    by (simp_all add: card_ready_def sd_sees_def)
  from sd_fetch_law [OF _ this, of B x] r obtain st' where
    f: "sd_fetch B x st = Some (128, st')" "sd_iobuf st' = ?D x @ drop 128 (sd_iobuf st)"
      "good (sd_dev st')" "rxq (sd_dev st') = []" "disk (sd_dev st') = ?D"
    by (auto simp: card_ready_def sd_sees_def)
  have "sd_block_read B x buf (m, st) = Some (store_bytes m buf (card_block disk st x), st')"
    using r by (simp add: sd_block_read_def sd_read_sector_def f put_words_bytes card_block_def card_ready_def)
  moreover have "card_ready B reg rxq disk good st'" "card_block disk st' = card_block disk st"
    using r f by (auto simp: card_ready_def card_block_def fun_eq_iff)
  ultimately show "\<exists>s'. sd_block_read B x buf (m, st) = Some (store_bytes m buf (card_block disk st x), s') \<and>
      card_ready B reg rxq disk good s' \<and> card_block disk s' = card_block disk st" by blast
qed

lemma disk_read_loop_blocks:
  "disk_read_loop B sector n buff s = read_blocks (sd_block_read B) (replicate n sector) buff s"
  by (induction n arbitrary: buff s) (auto split: option.splits)

text \<open>Reading blocks through \<open>disk_read\<close> on a working controller with an initialised card returns \<open>RES_OK\<close>,
  and every one of the \<open>count\<close> blocks at the buffer is a copy of the first sector asked for: the sector
  number is not advanced.  One block is read correctly; of two or more only the first is what was asked for.\<close>

theorem disk_read_repeats_sector:
  assumes "card_ready B reg rxq disk good (hd_host dk)" "Stat dk AND STA_NOINIT = 0" "CardType dk AND CT_BLOCK \<noteq> 0"
    "count \<noteq> 0"
  shows "\<exists>st'. disk_read B 0 buff sector count (m, dk) =
      Inr (RES_OK,
        store_bytes m buff (concat (replicate (unat count) (card_block disk (hd_host dk) sector))),
        dk\<lparr>hd_host := st'\<rparr>) \<and>
    card_ready B reg rxq disk good st' \<and> card_block disk st' = card_block disk (hd_host dk)"
proof -
  from sdcard.read_blocks_ready [OF assms(1), of "replicate (unat count) sector" buff m] obtain st' where
    "disk_read_loop B sector (unat count) buff (m, hd_host dk) =
      Some (store_bytes m buff (concat (replicate (unat count) (card_block disk (hd_host dk) sector))), st')"
    "card_ready B reg rxq disk good st'" "card_block disk st' = card_block disk (hd_host dk)"
    unfolding disk_read_loop_blocks by auto
  with assms(2-4) show ?thesis by (auto simp: disk_read_def)
qed

text \<open>A card whose sectors are filled with their number.\<close>

definition disk_sample :: "card hostdisk" where
  "disk_sample =
     \<lparr>hd_host = host_sample\<lparr>sd_dev := (sd_dev host_sample)\<lparr>c_disk := (\<lambda>s. replicate 128 s)\<rparr>\<rparr>,
      Stat = 0, CardType = CT_SD2 OR CT_BLOCK\<rparr>"

theorem disk_read_repeats_sector_witness:
  "\<exists>m' dk'. disk_read card_bus 0 0x1000 7 2 (\<lambda>a. 0, disk_sample) = Inr (RES_OK, m', dk') \<and> m' 0x1203 = 7"
proof -
  let ?b = "card_block c_disk (hd_host disk_sample) 7"
  have b: "?b = concat (replicate 128 [0, 0, 0, 7])"
    unfolding card_block_def be_bytes_def le_bytes_4 by (simp add: disk_sample_def)
  have r: "card_ready card_bus c_reg c_q c_disk (\<lambda>_. True) (hd_host disk_sample)"
    using card_laws by (simp add: card_ready_def disk_sample_def host_sample_def)
  have s: "Stat disk_sample AND STA_NOINIT = 0" "CardType disk_sample AND CT_BLOCK \<noteq> 0"
    by (simp_all add: disk_sample_def CT_SD2_def CT_BLOCK_def STA_NOINIT_def)
  have l: "length ?b = 512" by (rule sdcard.block_length [OF r])
  have "?b ! 3 = 7" unfolding b by (simp add: numeral_eq_Suc)
  with l have m: "store_bytes (\<lambda>a. 0) 0x1000 (?b @ ?b) 0x1203 = 7"
    by (simp add: store_bytes_apply nth_append del: store_bytes.simps)
  have two: "unat (2 :: u32) = Suc (Suc 0)" by simp
  have c: "concat (replicate (unat (2 :: u32)) ?b) = ?b @ ?b" unfolding two by simp
  show ?thesis
    using m c disk_read_repeats_sector [OF r s, of 2 "0x1000" 7 "\<lambda>a. 0"] by (auto simp del: store_bytes.simps)
qed

end
