(* ===== verification/Spi.thy ===== *)
theory Spi
  imports Uart
begin

text \<open>
  The SPI ports of the programs.  The disk functions of the boot program call seven operations of a port; there
  are two sets of them, one over the registers of the SD host controller (bootstrap/sdcard/spi.c) and one over
  a standard SPI master (hello/spi.c, the same file in hello/driver).  A set of operations is the record
  \<open>spi_port\<close>, and what its callers rely on is the locale \<open>spi_stream\<close>, which both sets satisfy.  \<open>None\<close> is a
  waiting loop that does not end.
\<close>

section \<open>The operations of a port\<close>

record 'd spi_port =
  sp_init :: "'d \<Rightarrow> 'd option"
  sp_disable :: "'d \<Rightarrow> 'd option"
  sp_send :: "u8 \<Rightarrow> 'd \<Rightarrow> (u8 \<times> 'd) option"
  sp_send_multi :: "u8 list \<Rightarrow> 'd \<Rightarrow> 'd option"
  sp_recv_multi :: "nat \<Rightarrow> 'd \<Rightarrow> (u8 list \<times> 'd) option"
  sp_select :: "'d \<Rightarrow> 'd option"
  sp_deselect :: "'d \<Rightarrow> 'd option"

text \<open>A card answers with a stream of bytes, one for every byte exchanged.\<close>

locale spi_stream =
  fixes P :: "'d spi_port"
    and rx :: "'d \<Rightarrow> u8 list"
    and live :: "'d \<Rightarrow> bool"
  assumes send_pops: "live d \<Longrightarrow> rx d = b # bs \<Longrightarrow> \<exists>d'. sp_send P x d = Some (b, d') \<and> rx d' = bs \<and> live d'"
    and recv_pops: "live d \<Longrightarrow> n \<le> 16 \<Longrightarrow> n \<le> length (rx d) \<Longrightarrow>
      \<exists>d'. sp_recv_multi P n d = Some (take n (rx d), d') \<and> rx d' = drop n (rx d) \<and> live d'"
    and select_keeps: "live d \<Longrightarrow> \<exists>d'. sp_select P d = Some d' \<and> rx d' = rx d \<and> live d'"
    and deselect_keeps: "live d \<Longrightarrow> \<exists>d'. sp_deselect P d = Some d' \<and> rx d' = rx d \<and> live d'"

section \<open>The port over the host controller (bootstrap/sdcard/spi.c)\<close>

text \<open>The state is the flag shown on the lamps and the device.\<close>

definition spi_led :: "'d bus \<Rightarrow> u32 \<Rightarrow> u32 \<Rightarrow> u32 \<times> 'd \<Rightarrow> u32 \<times> 'd" where
  "spi_led B flag data s = (flag, bus_write B led_reg (push_bit 12 flag OR data) (snd s))"

definition spi_sd_base :: u32 where "spi_sd_base = push_bit 20 6"
definition spi_stat_base :: u32 where "spi_stat_base = push_bit 20 5"
definition spi_rxfifo :: u32 where "spi_rxfifo = push_bit 20 4"

definition sd_store :: "'d bus \<Rightarrow> u32 \<Rightarrow> u32 \<Rightarrow> u32 \<times> 'd \<Rightarrow> u32 \<times> 'd" where
  "sd_store B i v s = (fst s, bus_write B (spi_sd_base + 4 * i) v (snd s))"

definition spi_sd_align :: "'d bus \<Rightarrow> u32 \<Rightarrow> u32 \<times> 'd \<Rightarrow> u32 \<times> 'd" where
  "spi_sd_align B d_align s = sd_store B 0 d_align s"

definition spi_sd_clk_div :: "'d bus \<Rightarrow> u32 \<Rightarrow> u32 \<times> 'd \<Rightarrow> u32 \<times> 'd" where
  "spi_sd_clk_div B clk s = sd_store B 1 clk s"

definition spi_sd_cmd :: "'d bus \<Rightarrow> u32 \<Rightarrow> u32 \<Rightarrow> u32 \<times> 'd \<Rightarrow> u32 \<times> 'd" where
  "spi_sd_cmd B cmd arg s = sd_store B 3 cmd (sd_store B 2 arg s)"

definition spi_sd_cmd_setting :: "'d bus \<Rightarrow> u32 \<Rightarrow> u32 \<times> 'd \<Rightarrow> u32 \<times> 'd" where
  "spi_sd_cmd_setting B setting s = sd_store B 4 setting s"

definition spi_sd_cmd_start :: "'d bus \<Rightarrow> u32 \<Rightarrow> u32 \<times> 'd \<Rightarrow> u32 \<times> 'd" where
  "spi_sd_cmd_start B start s = sd_store B 5 start s"

definition spi_sd_reset :: "'d bus \<Rightarrow> u32 \<Rightarrow> u32 \<Rightarrow> u32 \<Rightarrow> u32 \<Rightarrow> u32 \<times> 'd \<Rightarrow> u32 \<times> 'd" where
  "spi_sd_reset B sd_rst clk_rst data_rst cmd_rst s =
     sd_store B 6
       (push_bit 3 (sd_rst AND 1) OR push_bit 2 (clk_rst AND 1) OR push_bit 1 (data_rst AND 1) OR (cmd_rst AND 1)) s"

definition spi_sd_blkcnt :: "'d bus \<Rightarrow> u32 \<Rightarrow> u32 \<times> 'd \<Rightarrow> u32 \<times> 'd" where
  "spi_sd_blkcnt B n s = sd_store B 7 (n AND 0xFFFF) s"

definition spi_sd_blksize :: "'d bus \<Rightarrow> u32 \<Rightarrow> u32 \<times> 'd \<Rightarrow> u32 \<times> 'd" where
  "spi_sd_blksize B n s = sd_store B 8 (n AND 0xFFF) s"

definition spi_sd_timeout :: "'d bus \<Rightarrow> u32 \<Rightarrow> u32 \<times> 'd \<Rightarrow> u32 \<times> 'd" where
  "spi_sd_timeout B t s = sd_store B 9 t s"

fun spi_mysleep :: "'d bus \<Rightarrow> nat \<Rightarrow> u32 \<times> 'd \<Rightarrow> u32 \<times> 'd" where
  "spi_mysleep B 0 s = s"
| "spi_mysleep B (Suc delay) s = spi_mysleep B delay (spi_led B (fst s) (fst s) s)"

definition spi_poll_stat :: "'d bus \<Rightarrow> (u32 \<Rightarrow> bool) \<Rightarrow> u32 \<times> 'd \<Rightarrow> (u32 \<times> 'd) option" where
  "spi_poll_stat B ok s =
     (case poll B spi_stat_base ok (snd s) of None \<Rightarrow> None | Some (_, d) \<Rightarrow> Some (fst s, d))"

fun spi_responses :: "'d bus \<Rightarrow> nat \<Rightarrow> u32 \<times> 'd \<Rightarrow> u32 list \<times> u32 \<times> 'd" where
  "spi_responses B 0 s = ([], s)"
| "spi_responses B (Suc i) s =
     (case bus_read B (spi_sd_base + 4 * of_nat i) (snd s) of (v, d) \<Rightarrow>
        (case spi_responses B i (fst s, d) of (vs, s) \<Rightarrow> (vs @ [v], s)))"

definition spi_sd_transaction ::
  "'d bus \<Rightarrow> u32 \<Rightarrow> u32 \<Rightarrow> u32 \<Rightarrow> u32 \<times> 'd \<Rightarrow> (u32 list \<times> u32 \<times> 'd) option" where
  "spi_sd_transaction B cmd arg setting s =
     (let msk = (if setting > 7 then 0x700 else 0x100);
          s = spi_led B 2 0 (spi_sd_cmd_setting B setting (spi_sd_cmd B cmd arg s));
          s = spi_led B 3 0 (spi_sd_cmd_start B 1 (spi_mysleep B 10 s))
      in do { s \<leftarrow> spi_poll_stat B (\<lambda>v. v AND msk = msk) s;
              let (resp, s) = spi_responses B 8 (spi_mysleep B 10 (spi_led B 4 0 s));
              s \<leftarrow> spi_poll_stat B (\<lambda>v. v AND msk = 0) (spi_sd_cmd_setting B 0 (spi_sd_cmd_start B 0 (spi_led B 5 0 s)));
              Some (resp, spi_led B 6 0 s) })"

definition boot_spi_init :: "'d bus \<Rightarrow> u32 \<times> 'd \<Rightarrow> u32 \<times> 'd" where
  "boot_spi_init B s =
     (let s = spi_mysleep B 74 (spi_sd_reset B 0 1 0 0 (spi_sd_clk_div B 200 (spi_led B 1 0 s)));
          s = spi_sd_timeout B 14 (spi_sd_align B 3 (spi_sd_blksize B 1 (spi_sd_blkcnt B 1 s)))
      in spi_mysleep B 10 (spi_sd_reset B 0 1 1 1 (spi_mysleep B 10 s)))"

definition take_byte :: "'d bus \<Rightarrow> u32 \<times> 'd \<Rightarrow> u8 \<times> u32 \<times> 'd" where
  "take_byte B s = (case bus_read B spi_rxfifo (bus_write B spi_rxfifo 0 (snd s)) of (v, d) \<Rightarrow> (ucast v, fst s, d))"

definition boot_spi_send :: "'d bus \<Rightarrow> u8 \<Rightarrow> u32 \<times> 'd \<Rightarrow> u8 \<times> u32 \<times> 'd" where
  "boot_spi_send B dat s =
     (case spi_led B 3 (ucast dat) s of (l, d) \<Rightarrow> take_byte B (l, bus_write B spi_stat_base (ucast dat) d))"

definition boot_spi_recv :: "'d bus \<Rightarrow> u32 \<times> 'd \<Rightarrow> u8 \<times> u32 \<times> 'd" where
  "boot_spi_recv B s = take_byte B (spi_led B 5 0 s)"

fun boot_send_loop :: "'d bus \<Rightarrow> u8 list \<Rightarrow> u32 \<times> 'd \<Rightarrow> u32 \<times> 'd" where
  "boot_send_loop B [] s = s"
| "boot_send_loop B (b # bs) s = boot_send_loop B bs (fst s, bus_write B spi_stat_base (ucast b) (snd s))"

fun boot_recv_loop :: "'d bus \<Rightarrow> nat \<Rightarrow> u32 \<times> 'd \<Rightarrow> u8 list \<times> u32 \<times> 'd" where
  "boot_recv_loop B 0 s = ([], s)"
| "boot_recv_loop B (Suc n) s =
     (case take_byte B s of (b, s) \<Rightarrow> (case boot_recv_loop B n s of (bs, s) \<Rightarrow> (b # bs, s)))"

definition boot_spi :: "'d bus \<Rightarrow> (u32 \<times> 'd) spi_port" where
  "boot_spi B =
     \<lparr>sp_init = (\<lambda>s. Some (boot_spi_init B s)),
      sp_disable = (\<lambda>s. Some (spi_led B 2 0 s)),
      sp_send = (\<lambda>dat s. Some (boot_spi_send B dat s)),
      sp_send_multi = (\<lambda>bs s. Some (boot_send_loop B bs (spi_led B 6 0 s))),
      sp_recv_multi = (\<lambda>n s. Some (boot_recv_loop B n (spi_led B 7 0 s))),
      sp_select = (\<lambda>s. Some (spi_led B 8 0 s)),
      sp_deselect = (\<lambda>s. Some (spi_led B 9 0 s))\<rparr>"

section \<open>The SPI master (hello/spi.c)\<close>

definition SPI_BASE :: u32 where "SPI_BASE = IO_SPACE_BASE + 0x10000"
definition SPI_GIER :: u32 where "SPI_GIER = 0x07"
definition SPI_SRR :: u32 where "SPI_SRR = 0x10"
definition SPI_CR :: u32 where "SPI_CR = 0x18"
definition SPI_SR :: u32 where "SPI_SR = 0x19"
definition SPI_DTR :: u32 where "SPI_DTR = 0x1A"
definition SPI_DRR :: u32 where "SPI_DRR = 0x1B"
definition SPI_SSR :: u32 where "SPI_SSR = 0x1C"

definition spi_reg :: "u32 \<Rightarrow> u32" where "spi_reg r = SPI_BASE + 4 * r"

definition GetBit :: "u32 \<Rightarrow> nat \<Rightarrow> u32" where
  "GetBit r p = drop_bit p (r AND push_bit p 1)"

definition xspi_init :: "'d bus \<Rightarrow> 'd \<Rightarrow> 'd" where
  "xspi_init B d =
     bus_write B (spi_reg SPI_CR) 0x86 (bus_write B (spi_reg SPI_GIER) 0
       (bus_write B (spi_reg SPI_CR) 0xE4 (bus_write B (spi_reg SPI_SRR) 0xA d)))"

definition xspi_disable :: "'d bus \<Rightarrow> 'd \<Rightarrow> 'd" where
  "xspi_disable B d = bus_write B (spi_reg SPI_CR) 0xE4 d"

definition xspi_wait :: "'d bus \<Rightarrow> 'd \<Rightarrow> 'd option" where
  "xspi_wait B d = map_option snd (poll B (spi_reg SPI_SR) (\<lambda>v. GetBit v 2 \<noteq> 0) d)"

definition xspi_send :: "'d bus \<Rightarrow> u8 \<Rightarrow> 'd \<Rightarrow> (u8 \<times> 'd) option" where
  "xspi_send B dat d =
     do { d \<leftarrow> xspi_wait B (bus_write B (spi_reg SPI_DTR) (ucast dat) d);
          let (v, d) = bus_read B (spi_reg SPI_DRR) d;
          Some (ucast v, d) }"

fun xspi_write_loop :: "'d bus \<Rightarrow> u8 list \<Rightarrow> 'd \<Rightarrow> 'd" where
  "xspi_write_loop B [] d = d"
| "xspi_write_loop B (b # bs) d = xspi_write_loop B bs (bus_write B (spi_reg SPI_DTR) (ucast b) d)"

fun xspi_read_loop :: "'d bus \<Rightarrow> nat \<Rightarrow> 'd \<Rightarrow> u8 list \<times> 'd" where
  "xspi_read_loop B 0 d = ([], d)"
| "xspi_read_loop B (Suc n) d =
     (case bus_read B (spi_reg SPI_DRR) d of (v, d) \<Rightarrow>
        (case xspi_read_loop B n d of (bs, d) \<Rightarrow> (ucast v # bs, d)))"

definition xspi_send_multi :: "'d bus \<Rightarrow> u8 list \<Rightarrow> 'd \<Rightarrow> 'd option" where
  "xspi_send_multi B bs d =
     do { d \<leftarrow> xspi_wait B (xspi_write_loop B bs d);
          Some (bus_write B (spi_reg SPI_CR) 0xC6 d) }"

definition xspi_recv_multi :: "'d bus \<Rightarrow> nat \<Rightarrow> 'd \<Rightarrow> (u8 list \<times> 'd) option" where
  "xspi_recv_multi B n d =
     do { d \<leftarrow> xspi_wait B (xspi_write_loop B (replicate n 0xFF) d);
          Some (xspi_read_loop B n d) }"

definition xspi_select_slave :: "'d bus \<Rightarrow> 'd \<Rightarrow> 'd" where
  "xspi_select_slave B d = bus_write B (spi_reg SPI_SSR) 0xFFFFFFFE d"

definition xspi_deselect_slave :: "'d bus \<Rightarrow> 'd \<Rightarrow> 'd" where
  "xspi_deselect_slave B d = bus_write B (spi_reg SPI_SSR) 0xFFFFFFFF d"

definition xspi :: "'d bus \<Rightarrow> 'd spi_port" where
  "xspi B =
     \<lparr>sp_init = (\<lambda>d. Some (xspi_init B d)), sp_disable = (\<lambda>d. Some (xspi_disable B d)), sp_send = xspi_send B,
      sp_send_multi = xspi_send_multi B, sp_recv_multi = xspi_recv_multi B,
      sp_select = (\<lambda>d. Some (xspi_select_slave B d)), sp_deselect = (\<lambda>d. Some (xspi_deselect_slave B d))\<rparr>"

section \<open>What the ports rely on\<close>

text \<open>
  The port of the boot program: a byte stored for sending leaves the answers alone, as do the lamps; storing
  to the receive FIFO takes the next answer, which the load after it delivers.
\<close>

definition boot_spi_laws :: "'d bus \<Rightarrow> ('d \<Rightarrow> u8 list) \<Rightarrow> ('d \<Rightarrow> bool) \<Rightarrow> bool" where
  "boot_spi_laws B rx live \<longleftrightarrow>
     (\<forall>d v. live d \<longrightarrow> live (bus_write B led_reg v d) \<and> rx (bus_write B led_reg v d) = rx d) \<and>
     (\<forall>d v. live d \<longrightarrow> live (bus_write B spi_stat_base v d) \<and> rx (bus_write B spi_stat_base v d) = rx d) \<and>
     (\<forall>d b bs. live d \<longrightarrow> rx d = b # bs \<longrightarrow> (case bus_read B spi_rxfifo (bus_write B spi_rxfifo 0 d) of
        (v, d') \<Rightarrow> ucast v = b \<and> live d' \<and> rx d' = bs))"

text \<open>
  The SPI master: every byte stored is exchanged for an answer of the card, which goes to a receive FIFO of 16
  bytes; the status bit shows that the exchange is over.  Selecting the card changes neither.
\<close>

definition xspi_laws :: "'d bus \<Rightarrow> ('d \<Rightarrow> u8 list) \<Rightarrow> ('d \<Rightarrow> u8 list) \<Rightarrow> ('d \<Rightarrow> bool) \<Rightarrow> bool" where
  "xspi_laws B coming rxf live \<longleftrightarrow>
     (\<forall>d v c cs. live d \<longrightarrow> coming d = c # cs \<longrightarrow> length (rxf d) < 16 \<longrightarrow> (let d' = bus_write B (spi_reg SPI_DTR) v d in
        live d' \<and> coming d' = cs \<and> rxf d' = rxf d @ [c])) \<and>
     (\<forall>d. live d \<longrightarrow> answers B (spi_reg SPI_SR) (\<lambda>v. GetBit v 2 \<noteq> 0)
        (\<lambda>_ d'. live d' \<and> coming d' = coming d \<and> rxf d' = rxf d) d) \<and>
     (\<forall>d b bs. live d \<longrightarrow> rxf d = b # bs \<longrightarrow> (case bus_read B (spi_reg SPI_DRR) d of
        (v, d') \<Rightarrow> ucast v = b \<and> live d' \<and> coming d' = coming d \<and> rxf d' = bs)) \<and>
     (\<forall>d v. live d \<longrightarrow> live (bus_write B (spi_reg SPI_SSR) v d) \<and> coming (bus_write B (spi_reg SPI_SSR) v d) = coming d \<and>
        rxf (bus_write B (spi_reg SPI_SSR) v d) = rxf d)"

section \<open>The ports keep the contract\<close>

lemma take_byte_law:
  assumes "boot_spi_laws B rx live" "live (snd s)" "rx (snd s) = b # bs"
  shows "\<exists>s'. take_byte B s = (b, s') \<and> live (snd s') \<and> rx (snd s') = bs"
proof -
  obtain v d where r: "bus_read B spi_rxfifo (bus_write B spi_rxfifo 0 (snd s)) = (v, d)"
    by (cases "bus_read B spi_rxfifo (bus_write B spi_rxfifo 0 (snd s))")
  from assms(1) [unfolded boot_spi_laws_def, THEN conjunct2, THEN conjunct2, rule_format, OF assms(2,3)] r
  show ?thesis by (simp add: take_byte_def)
qed

lemma boot_spi_recv_law:
  assumes L: "boot_spi_laws B rx live"
  shows "live (snd s) \<Longrightarrow> n \<le> length (rx (snd s)) \<Longrightarrow>
    \<exists>s'. boot_recv_loop B n s = (take n (rx (snd s)), s') \<and> live (snd s') \<and> rx (snd s') = drop n (rx (snd s))"
proof (induction n arbitrary: s)
  case (Suc n)
  then obtain b bs where b: "rx (snd s) = b # bs" by (cases "rx (snd s)") auto
  from take_byte_law [OF L Suc.prems(1) b] obtain s1 where
    s1: "take_byte B s = (b, s1)" "live (snd s1)" "rx (snd s1) = bs" by blast
  from Suc.IH [OF s1(2)] Suc.prems(2) s1(1,3) b show ?case by auto
qed simp

interpretation boot_port: spi_stream "boot_spi B" "\<lambda>s. rx (snd s)" "\<lambda>s. boot_spi_laws B rx live \<and> live (snd s)"
  for B :: "'d bus" and rx live
proof unfold_locales
  fix s :: "u32 \<times> 'd" and b bs and x :: u8
  assume a: "boot_spi_laws B rx live \<and> live (snd s)" "rx (snd s) = b # bs"
  let ?d = "bus_write B spi_stat_base (ucast x) (bus_write B led_reg (push_bit 12 3 OR ucast x) (snd s))"
  from a have "live ?d" "rx ?d = b # bs" by (simp_all add: boot_spi_laws_def)
  with take_byte_law [of B rx live "(3, ?d)"] a(1) show "\<exists>s'. sp_send (boot_spi B) x s = Some (b, s') \<and> rx (snd s') = bs \<and>
      boot_spi_laws B rx live \<and> live (snd s')"
    by (auto simp: boot_spi_def boot_spi_send_def spi_led_def)
next
  fix s :: "u32 \<times> 'd" and n
  assume a: "boot_spi_laws B rx live \<and> live (snd s)" "n \<le> length (rx (snd s))"
  let ?s = "spi_led B 7 0 s"
  from a have "live (snd ?s)" "rx (snd ?s) = rx (snd s)" by (simp_all add: boot_spi_laws_def spi_led_def)
  with boot_spi_recv_law [of B rx live ?s n] a show "\<exists>s'. sp_recv_multi (boot_spi B) n s = Some (take n (rx (snd s)), s') \<and>
      rx (snd s') = drop n (rx (snd s)) \<and> boot_spi_laws B rx live \<and> live (snd s')"
    by (auto simp: boot_spi_def)
qed (auto simp: boot_spi_def boot_spi_laws_def spi_led_def)

lemma xspi_lawsD:
  assumes "xspi_laws B coming rxf live" "live d"
  shows "coming d = c # cs \<Longrightarrow> length (rxf d) < 16 \<Longrightarrow> live (bus_write B (spi_reg SPI_DTR) v d) \<and>
      coming (bus_write B (spi_reg SPI_DTR) v d) = cs \<and> rxf (bus_write B (spi_reg SPI_DTR) v d) = rxf d @ [c]"
    and "answers B (spi_reg SPI_SR) (\<lambda>v. GetBit v 2 \<noteq> 0) (\<lambda>_ d'. live d' \<and> coming d' = coming d \<and> rxf d' = rxf d) d"
    and "rxf d = b # bs \<Longrightarrow> bus_read B (spi_reg SPI_DRR) d = (w, d1) \<Longrightarrow>
      ucast w = b \<and> live d1 \<and> coming d1 = coming d \<and> rxf d1 = bs"
proof -
  note L = assms(1) [unfolded xspi_laws_def Let_def] note L2 = L [THEN conjunct2] note g = assms(2)
  show "coming d = c # cs \<Longrightarrow> length (rxf d) < 16 \<Longrightarrow> live (bus_write B (spi_reg SPI_DTR) v d) \<and>
      coming (bus_write B (spi_reg SPI_DTR) v d) = cs \<and> rxf (bus_write B (spi_reg SPI_DTR) v d) = rxf d @ [c]"
    by (rule L [THEN conjunct1, rule_format, OF g])
  show "answers B (spi_reg SPI_SR) (\<lambda>v. GetBit v 2 \<noteq> 0) (\<lambda>_ d'. live d' \<and> coming d' = coming d \<and> rxf d' = rxf d) d"
    by (rule L2 [THEN conjunct1, rule_format, OF g])
  show "ucast w = b \<and> live d1 \<and> coming d1 = coming d \<and> rxf d1 = bs"
    if "rxf d = b # bs" "bus_read B (spi_reg SPI_DRR) d = (w, d1)"
    using L2 [THEN conjunct2, THEN conjunct1, rule_format, OF g that(1)] unfolding that(2) by (simp only: prod.case)
qed

lemma xspi_wait_law:
  assumes "xspi_laws B coming rxf live" "live d"
  shows "\<exists>d'. xspi_wait B d = Some d' \<and> live d' \<and> coming d' = coming d \<and> rxf d' = rxf d"
  using poll_ends [OF xspi_lawsD(2) [OF assms]] by (auto simp: xspi_wait_def)

lemma xspi_write_law:
  assumes L: "xspi_laws B coming rxf live"
  shows "live d \<Longrightarrow> length ws \<le> length (coming d) \<Longrightarrow> length (rxf d) + length ws \<le> 16 \<Longrightarrow>
    live (xspi_write_loop B ws d) \<and> coming (xspi_write_loop B ws d) = drop (length ws) (coming d) \<and>
    rxf (xspi_write_loop B ws d) = rxf d @ take (length ws) (coming d)"
proof (induction ws arbitrary: d)
  case (Cons w ws)
  then obtain c cs where c: "coming d = c # cs" by (cases "coming d") auto
  from xspi_lawsD(1) [OF L Cons.prems(1) c, of "ucast w"] Cons.prems(3)
  have d1: "live (bus_write B (spi_reg SPI_DTR) (ucast w) d)" "coming (bus_write B (spi_reg SPI_DTR) (ucast w) d) = cs"
    "rxf (bus_write B (spi_reg SPI_DTR) (ucast w) d) = rxf d @ [c]" by simp_all
  from Cons.IH [OF d1(1)] Cons.prems(2,3) c show ?case by (simp add: d1(2,3))
qed simp

lemma xspi_read_law:
  assumes L: "xspi_laws B coming rxf live"
  shows "live d \<Longrightarrow> n = length (rxf d) \<Longrightarrow>
    \<exists>d'. xspi_read_loop B n d = (rxf d, d') \<and> live d' \<and> coming d' = coming d \<and> rxf d' = []"
proof (induction n arbitrary: d)
  case (Suc n)
  then obtain b bs where b: "rxf d = b # bs" by (cases "rxf d") auto
  obtain w d1 where r: "bus_read B (spi_reg SPI_DRR) d = (w, d1)" by (cases "bus_read B (spi_reg SPI_DRR) d")
  note d1 = xspi_lawsD(3) [OF L Suc.prems(1) b r]
  from Suc.IH [of d1] Suc.prems(2) b r d1 show ?case by auto
qed simp

interpretation master: spi_stream "xspi B" coming "\<lambda>d. xspi_laws B coming rxf live \<and> live d \<and> rxf d = []"
  for B :: "'d bus" and coming rxf live
proof unfold_locales
  fix d :: 'd and b bs and x :: u8
  assume a: "xspi_laws B coming rxf live \<and> live d \<and> rxf d = []" "coming d = b # bs"
  then have L: "xspi_laws B coming rxf live" by simp
  let ?d = "bus_write B (spi_reg SPI_DTR) (ucast x) d"
  from xspi_lawsD(1) [OF L _ a(2), of "ucast x"] a(1) have d: "live ?d" "coming ?d = bs" "rxf ?d = [b]" by simp_all
  from xspi_wait_law [OF L d(1)] obtain d1 where d1: "xspi_wait B ?d = Some d1" "live d1" "coming d1 = bs" "rxf d1 = [b]"
    using d by auto
  obtain w d2 where r: "bus_read B (spi_reg SPI_DRR) d1 = (w, d2)" by (cases "bus_read B (spi_reg SPI_DRR) d1")
  from xspi_lawsD(3) [OF L d1(2,4) r] d1 r L show "\<exists>d'. sp_send (xspi B) x d = Some (b, d') \<and> coming d' = bs \<and>
      xspi_laws B coming rxf live \<and> live d' \<and> rxf d' = []"
    by (simp add: xspi_def xspi_send_def)
next
  fix d :: 'd and n
  assume a: "xspi_laws B coming rxf live \<and> live d \<and> rxf d = []" "n \<le> 16" "n \<le> length (coming d)"
  then have L: "xspi_laws B coming rxf live" by simp
  let ?d = "xspi_write_loop B (replicate n 0xFF) d"
  from xspi_write_law [OF L, of d "replicate n 0xFF"] a
  have d: "live ?d" "coming ?d = drop n (coming d)" "rxf ?d = take n (coming d)" by simp_all
  from xspi_wait_law [OF L d(1)] obtain d1 where
    d1: "xspi_wait B ?d = Some d1" "live d1" "coming d1 = drop n (coming d)" "rxf d1 = take n (coming d)" using d by auto
  from xspi_read_law [OF L d1(2), of n] a(3) d1(3,4) obtain d2 where
    "xspi_read_loop B n d1 = (take n (coming d), d2)" "live d2" "coming d2 = drop n (coming d)" "rxf d2 = []" by auto
  with d1(1) L show "\<exists>d'. sp_recv_multi (xspi B) n d = Some (take n (coming d), d') \<and> coming d' = drop n (coming d) \<and>
      xspi_laws B coming rxf live \<and> live d' \<and> rxf d' = []"
    by (simp add: xspi_def xspi_recv_multi_def)
qed (auto simp: xspi_def xspi_select_slave_def xspi_deselect_slave_def xspi_laws_def)

end
