(* ===== verification/SpiDisk.thy ===== *)
theory SpiDisk
  imports Spi DiskDefs
begin

text \<open>
  The disk functions of the boot program (bootstrap/sdcard/diskio.c), an SD card in SPI mode over any SPI port.
  The functions exchange bytes with the card one by one; a timeout is a count of exchanges, so a loop with a
  timeout is a recursion on it.  \<open>None\<close> is a waiting loop that does not end, or a shift by a negative number.
\<close>

section \<open>Exchanging bytes\<close>

definition xchg_spi :: "'d spi_port \<Rightarrow> u8 \<Rightarrow> 'd \<Rightarrow> (u8 \<times> 'd) option" where
  "xchg_spi P dat d = sp_send P dat d"

text \<open>Bytes whose answers are thrown away, and bytes received for \<open>n\<close> dummies.\<close>

fun xchg_all :: "'d spi_port \<Rightarrow> u8 list \<Rightarrow> 'd \<Rightarrow> 'd option" where
  "xchg_all P [] d = Some d"
| "xchg_all P (b # bs) d = (case xchg_spi P b d of None \<Rightarrow> None | Some (_, d) \<Rightarrow> xchg_all P bs d)"

fun xchg_read :: "'d spi_port \<Rightarrow> nat \<Rightarrow> 'd \<Rightarrow> (u8 list \<times> 'd) option" where
  "xchg_read P 0 d = Some ([], d)"
| "xchg_read P (Suc n) d =
     (case xchg_spi P 0xFF d of
        None \<Rightarrow> None
      | Some (b, d) \<Rightarrow> (case xchg_read P n d of None \<Rightarrow> None | Some (bs, d) \<Rightarrow> Some (b # bs, d)))"

text \<open>Exchange until the answer is accepted, at most \<open>n\<close> times more after the first.\<close>

fun poll_byte :: "'d spi_port \<Rightarrow> (u8 \<Rightarrow> bool) \<Rightarrow> nat \<Rightarrow> 'd \<Rightarrow> (u8 \<times> 'd) option" where
  "poll_byte P ok 0 d = xchg_spi P 0xFF d"
| "poll_byte P ok (Suc n) d =
     (case xchg_spi P 0xFF d of
        None \<Rightarrow> None
      | Some (b, d) \<Rightarrow> if ok b then Some (b, d) else poll_byte P ok n d)"

partial_function (option) skip_zeros :: "'d spi_port \<Rightarrow> 'd \<Rightarrow> 'd option" where
  "skip_zeros P d =
     (case xchg_spi P 0xFF d of
        None \<Rightarrow> None
      | Some (b, d) \<Rightarrow> if b = 0 then skip_zeros P d else Some d)"

function xmit_spi_multi :: "'d spi_port \<Rightarrow> u8 list \<Rightarrow> 'd \<Rightarrow> 'd option" where
  "xmit_spi_multi P bs d =
     (if bs = [] then Some d
      else case sp_send_multi P (take 16 bs) d of None \<Rightarrow> None | Some d \<Rightarrow> xmit_spi_multi P (drop 16 bs) d)"
  by pat_completeness auto
termination by (relation "measure (\<lambda>(P, bs, d). length bs)") auto

function rcvr_spi_multi :: "'d spi_port \<Rightarrow> nat \<Rightarrow> 'd \<Rightarrow> (u8 list \<times> 'd) option" where
  "rcvr_spi_multi P cnt d =
     (if cnt = 0 then Some ([], d)
      else case sp_recv_multi P (min 16 cnt) d of
             None \<Rightarrow> None
           | Some (bs, d) \<Rightarrow>
               (case rcvr_spi_multi P (cnt - 16) d of None \<Rightarrow> None | Some (cs, d) \<Rightarrow> Some (bs @ cs, d)))"
  by pat_completeness auto
termination by (relation "measure (\<lambda>(P, cnt, d). cnt)") auto

declare xmit_spi_multi.simps [simp del] rcvr_spi_multi.simps [simp del]

section \<open>Packets\<close>

definition wait_ready :: "'d spi_port \<Rightarrow> u32 \<Rightarrow> 'd \<Rightarrow> (bool \<times> 'd) option" where
  "wait_ready P wt d =
     (case poll_byte P (\<lambda>b. b = 0xFF) (unat (wt * 5000 - 1)) d of
        None \<Rightarrow> None
      | Some (b, d) \<Rightarrow> Some (b = 0xFF, d))"

definition card_select :: "'d spi_port \<Rightarrow> 'd \<Rightarrow> (bool \<times> 'd) option" where
  "card_select P d =
     do { d \<leftarrow> sp_select P d;
          (ok, d) \<leftarrow> wait_ready P 500 d;
          if ok then Some (True, d) else do { d \<leftarrow> sp_deselect P d; Some (False, d) } }"

text \<open>The data of a packet, or \<open>None\<close> inside the result where the source returns 0.\<close>

definition spi_rcvr_datablock :: "'d spi_port \<Rightarrow> u32 \<Rightarrow> 'd \<Rightarrow> (u8 list option \<times> 'd) option" where
  "spi_rcvr_datablock P btr d =
     do { (token, d) \<leftarrow> poll_byte P (\<lambda>b. b \<noteq> 0xFF) (unat (200 * 5000 - 1 :: u32)) d;
          if token \<noteq> 0xFE then Some (None, d)
          else do { (bs, d) \<leftarrow> rcvr_spi_multi P (unat btr) d;
                    d \<leftarrow> xchg_all P [0xFF, 0xFF] d;
                    Some (Some bs, d) } }"

definition spi_xmit_datablock :: "'d spi_port \<Rightarrow> u8 list \<Rightarrow> u8 \<Rightarrow> 'd \<Rightarrow> (bool \<times> 'd) option" where
  "spi_xmit_datablock P block token d =
     do { (ok, d) \<leftarrow> wait_ready P 500 d;
          if \<not> ok then Some (False, d)
          else do {
            d \<leftarrow> xchg_all P [token] d;
            (sent, d) \<leftarrow>
              (if token = 0xFD then Some (True, d)
               else do { d \<leftarrow> xmit_spi_multi P block d;
                         d \<leftarrow> skip_zeros P d;
                         d \<leftarrow> skip_zeros P d;
                         (resp, d) \<leftarrow> xchg_spi P 0xFF d;
                         Some (resp AND 0x1F = 0x05, d) });
            if \<not> sent then Some (False, d)
            else do { (_, d) \<leftarrow> wait_ready P 500 d; Some (True, d) } } }"

definition command_packet :: "u8 \<Rightarrow> u32 \<Rightarrow> u8 list" where
  "command_packet cmd arg =
     [0x40 OR cmd, ucast (drop_bit 24 arg), ucast (drop_bit 16 arg), ucast (drop_bit 8 arg), ucast arg,
      if cmd = 8 then 0x87 else if cmd = 0 then 0x95 else 0x01]"

definition send_packet :: "'d spi_port \<Rightarrow> u8 \<Rightarrow> u32 \<Rightarrow> 'd \<Rightarrow> (u8 \<times> 'd) option" where
  "send_packet P cmd arg d =
     do { d \<leftarrow> xchg_all P (command_packet cmd arg) d;
          d \<leftarrow> (if cmd = 12 then xchg_all P [0xFF] d else Some d);
          poll_byte P (\<lambda>res. res AND 0x80 = 0) 9 d }"

text \<open>A command without the bit of an application command.\<close>

definition send_plain :: "'d spi_port \<Rightarrow> u8 \<Rightarrow> u32 \<Rightarrow> 'd \<Rightarrow> (u8 \<times> 'd) option" where
  "send_plain P cmd arg d =
     (if cmd = 12 then send_packet P cmd arg d
      else do { d \<leftarrow> sp_deselect P d;
                (ok, d) \<leftarrow> card_select P d;
                if ok then send_packet P cmd arg d else Some (0xFF, d) })"

definition spi_send_cmd :: "'d spi_port \<Rightarrow> u8 \<Rightarrow> u32 \<Rightarrow> 'd \<Rightarrow> (u8 \<times> 'd) option" where
  "spi_send_cmd P cmd arg d =
     (if cmd AND 0x80 = 0 then send_plain P cmd arg d
      else do { (res, d) \<leftarrow> send_plain P 55 0 d;
                if res > 1 then Some (res, d) else send_plain P (cmd AND 0x7F) arg d })"

section \<open>Start-up\<close>

record 'd spidisk =
  spd_dev :: 'd
  spd_stat :: u8
  spd_type :: u8

text \<open>
  \<open>while (timeout-- && send_cmd(c, a));\<close> gives the timeout behind it: one less than the attempts that were left,
  or all ones when none were left, since the decrement of 0 wraps around.
\<close>

fun busy_cmds :: "'d spi_port \<Rightarrow> u8 \<Rightarrow> u32 \<Rightarrow> nat \<Rightarrow> 'd \<Rightarrow> (u32 \<times> 'd) option" where
  "busy_cmds P c a 0 d = Some (- 1, d)"
| "busy_cmds P c a (Suc n) d =
     (case spi_send_cmd P c a d of
        None \<Rightarrow> None
      | Some (r, d) \<Rightarrow> if r \<noteq> 0 then busy_cmds P c a n d else Some (of_nat n, d))"

text \<open>The second version of the protocol; the timeout is that behind the test of command 8.\<close>

definition sdv2_type :: "'d spi_port \<Rightarrow> nat \<Rightarrow> 'd \<Rightarrow> (u8 \<times> 'd) option" where
  "sdv2_type P timeout d =
     do { (ocr, d) \<leftarrow> xchg_read P 4 d;
          if ocr ! 2 = 0x01 \<and> ocr ! 3 = 0xAA then do {
            (timeout, d) \<leftarrow> busy_cmds P (0x80 + 41) (push_bit 30 1) timeout d;
            if timeout = 0 then Some (0, d)
            else do {
              (r, d) \<leftarrow> spi_send_cmd P 58 0 d;
              if r \<noteq> 0 then Some (0, d)
              else do {
                (ocr, d) \<leftarrow> xchg_read P 4 d;
                Some (if ocr ! 0 AND 0x40 \<noteq> 0 then CT_SD2 OR CT_BLOCK else CT_SD2, d) } } }
          else Some (0, d) }"

text \<open>The older protocols; the source tests \<open>timeout-- || \<dots>\<close> where it means a timeout of zero.\<close>

definition old_type :: "'d spi_port \<Rightarrow> nat \<Rightarrow> 'd \<Rightarrow> (u8 \<times> 'd) option" where
  "old_type P timeout d =
     do { (r, d) \<leftarrow> spi_send_cmd P (0x80 + 41) 0 d;
          let (ty, cmd) = (if r \<le> 1 then (CT_SD1, 0x80 + 41) else (CT_MMC, 1));
          (timeout, d) \<leftarrow> busy_cmds P cmd 0 (timeout - 1) d;
          if timeout \<noteq> 0 then Some (0, d)
          else do { (r, d) \<leftarrow> spi_send_cmd P 16 512 d; Some (if r \<noteq> 0 then 0 else ty, d) } }"

definition find_type :: "'d spi_port \<Rightarrow> 'd \<Rightarrow> (u8 \<times> 'd) option" where
  "find_type P d =
     do { (r, d) \<leftarrow> spi_send_cmd P 0 0 d;
          if r \<noteq> 1 then Some (0, d)
          else do { (r, d) \<leftarrow> spi_send_cmd P 8 0x1AA d;
                    if r = 1 then sdv2_type P 999999 d else old_type P 999999 d } }"

definition spi_disk_initialize :: "'d spi_port \<Rightarrow> u8 \<Rightarrow> 'd spidisk \<Rightarrow> (u8 \<times> 'd spidisk) option" where
  "spi_disk_initialize P pdrv dk =
     (if pdrv \<noteq> 0 then Some (STA_NOINIT, dk)
      else do {
        d \<leftarrow> sp_disable P (spd_dev dk);
        if spd_stat dk AND STA_NODISK \<noteq> 0 then Some (spd_stat dk, dk\<lparr>spd_dev := d\<rparr>)
        else do {
          d \<leftarrow> sp_init P d;
          d \<leftarrow> xchg_all P (replicate 10 0xFF) d;
          (ty, d) \<leftarrow> find_type P d;
          d \<leftarrow> sp_deselect P d;
          let dk = dk\<lparr>spd_type := ty\<rparr>;
          if ty \<noteq> 0
          then Some (spd_stat dk AND NOT STA_NOINIT, dk\<lparr>spd_dev := d, spd_stat := spd_stat dk AND NOT STA_NOINIT\<rparr>)
          else do { d \<leftarrow> sp_disable P d; Some (spd_stat dk, dk\<lparr>spd_dev := d\<rparr>) } } })"

definition spi_disk_status :: "u8 \<Rightarrow> 'd spidisk \<Rightarrow> u8" where
  "spi_disk_status pdrv dk = (if pdrv \<noteq> 0 then STA_NOINIT else spd_stat dk)"

section \<open>Reading and writing\<close>

definition byte_address :: "'d spidisk \<Rightarrow> u32 \<Rightarrow> u32" where
  "byte_address dk sector = (if spd_type dk AND CT_BLOCK = 0 then sector * 512 else sector)"

text \<open>The blocks still to come when the loop stops.\<close>

fun rcvr_blocks :: "'d spi_port \<Rightarrow> nat \<Rightarrow> u32 \<Rightarrow> mem \<times> 'd \<Rightarrow> (nat \<times> mem \<times> 'd) option" where
  "rcvr_blocks P 0 buff (m, d) = Some (0, m, d)"
| "rcvr_blocks P (Suc count) buff (m, d) =
     (case spi_rcvr_datablock P 512 d of
        None \<Rightarrow> None
      | Some (None, d) \<Rightarrow> Some (Suc count, m, d)
      | Some (Some bs, d) \<Rightarrow> rcvr_blocks P count (buff + 512) (store_bytes m buff bs, d))"

definition spi_disk_read ::
  "'d spi_port \<Rightarrow> u8 \<Rightarrow> u32 \<Rightarrow> u32 \<Rightarrow> u32 \<Rightarrow> mem \<times> 'd spidisk \<Rightarrow> (dresult \<times> mem \<times> 'd spidisk) option" where
  "spi_disk_read P pdrv buff sector count s =
     (case s of (m, dk) \<Rightarrow>
        if pdrv \<noteq> 0 \<or> count = 0 then Some (RES_PARERR, m, dk)
        else if spd_stat dk AND STA_NOINIT \<noteq> 0 then Some (RES_NOTRDY, m, dk)
        else do {
          let cmd = (if count > 1 then 18 else 17);
          (r, d) \<leftarrow> spi_send_cmd P cmd (byte_address dk sector) (spd_dev dk);
          (left, m, d) \<leftarrow>
            (if r \<noteq> 0 then Some (unat count, m, d)
             else do {
               (left, m, d) \<leftarrow> rcvr_blocks P (unat count) buff (m, d);
               (_, d) \<leftarrow> (if cmd = 18 then spi_send_cmd P 12 0 d else Some (0, d));
               Some (left, m, d) });
          d \<leftarrow> sp_deselect P d;
          Some (if left \<noteq> 0 then RES_ERROR else RES_OK, m, dk\<lparr>spd_dev := d\<rparr>) })"

fun xmit_blocks :: "'d spi_port \<Rightarrow> nat \<Rightarrow> u32 \<Rightarrow> mem \<Rightarrow> 'd \<Rightarrow> (nat \<times> 'd) option" where
  "xmit_blocks P 0 buff m d = Some (0, d)"
| "xmit_blocks P (Suc count) buff m d =
     (case spi_xmit_datablock P (load_bytes m buff 512) 0xFC d of
        None \<Rightarrow> None
      | Some (ok, d) \<Rightarrow> if ok then xmit_blocks P count (buff + 512) m d else Some (Suc count, d))"

definition spi_disk_write ::
  "'d spi_port \<Rightarrow> u8 \<Rightarrow> u32 \<Rightarrow> u32 \<Rightarrow> u32 \<Rightarrow> mem \<times> 'd spidisk \<Rightarrow> (dresult \<times> mem \<times> 'd spidisk) option" where
  "spi_disk_write P pdrv buff sector count s =
     (case s of (m, dk) \<Rightarrow>
        if pdrv \<noteq> 0 \<or> count = 0 then Some (RES_PARERR, m, dk)
        else if spd_stat dk AND STA_NOINIT \<noteq> 0 then Some (RES_NOTRDY, m, dk)
        else if spd_stat dk AND STA_PROTECT \<noteq> 0 then Some (RES_WRPRT, m, dk)
        else do {
          let addr = byte_address dk sector;
          (left, d) \<leftarrow>
            (if count = 1 then do {
               (r, d) \<leftarrow> spi_send_cmd P 24 addr (spd_dev dk);
               if r \<noteq> 0 then Some (1, d)
               else do { (ok, d) \<leftarrow> spi_xmit_datablock P (load_bytes m buff 512) 0xFE d;
                         Some (if ok then 0 else 1, d) } }
             else do {
               (_, d) \<leftarrow> (if spd_type dk AND CT_SDC \<noteq> 0 then spi_send_cmd P (0x80 + 23) count (spd_dev dk)
                          else Some (0, spd_dev dk));
               (r, d) \<leftarrow> spi_send_cmd P 25 addr d;
               if r \<noteq> 0 then Some (unat count, d)
               else do { (left, d) \<leftarrow> xmit_blocks P (unat count) buff m d;
                         (ok, d) \<leftarrow> spi_xmit_datablock P [] 0xFD d;
                         Some (if ok then left else 1, d) } });
          d \<leftarrow> sp_deselect P d;
          Some (if left \<noteq> 0 then RES_ERROR else RES_OK, m, dk\<lparr>spd_dev := d\<rparr>) })"

section \<open>Control\<close>

text \<open>The size of a card from its CSD register, \<open>None\<close> for a shift by a negative number.\<close>

definition csd_sectors :: "u8 list \<Rightarrow> u32 option" where
  "csd_sectors csd =
     (if drop_bit 6 (csd ! 0) = 1
      then Some (push_bit 10 (ucast (csd ! 9) + push_bit 8 (ucast (csd ! 8)) + push_bit 16 (ucast (csd ! 7 AND 63)) + 1))
      else
        (let n = (csd ! 5 AND 15) + drop_bit 7 (csd ! 10 AND 128) + push_bit 1 (csd ! 9 AND 3) + 2;
             csize = ucast (drop_bit 6 (csd ! 8)) + push_bit 2 (ucast (csd ! 7)) + push_bit 10 (ucast (csd ! 6 AND 3)) + 1
         in if n < 9 then None else Some (push_bit (unat n - 9) csize)))"

definition csd_erase_block :: "u8 \<Rightarrow> u8 list \<Rightarrow> u32 option" where
  "csd_erase_block ty csd =
     (if ty AND CT_SD1 \<noteq> 0
      then (let v = push_bit 1 (ucast (csd ! 10 AND 63)) + drop_bit 7 (ucast (csd ! 11 AND 128)) + 1;
                k = unat (drop_bit 6 (csd ! 13))
            in if k = 0 then None else Some (push_bit (k - 1) v))
      else Some ((ucast (drop_bit 2 (csd ! 10 AND 124)) + 1) *
                 (push_bit 3 (ucast (csd ! 11 AND 3)) + drop_bit 5 (ucast (csd ! 11 AND 224)) + 1)))"

text \<open>A command followed by a packet of data; the packet is missing where either fails.\<close>

definition read_register :: "'d spi_port \<Rightarrow> u8 \<Rightarrow> u32 \<Rightarrow> 'd \<Rightarrow> (u8 list option \<times> 'd) option" where
  "read_register P cmd n d =
     do { (r, d) \<leftarrow> spi_send_cmd P cmd 0 d;
          if r \<noteq> 0 then Some (None, d) else spi_rcvr_datablock P n d }"

definition read_status :: "'d spi_port \<Rightarrow> u32 \<Rightarrow> 'd \<Rightarrow> (u8 list option \<times> 'd) option" where
  "read_status P n d =
     do { (r, d) \<leftarrow> spi_send_cmd P (0x80 + 13) 0 d;
          if r \<noteq> 0 then Some (None, d)
          else do { d \<leftarrow> xchg_all P [0xFF] d; spi_rcvr_datablock P n d } }"

definition erase_block_size :: "'d spi_port \<Rightarrow> u8 \<Rightarrow> 'd \<Rightarrow> (u32 option \<times> 'd) option" where
  "erase_block_size P ty d =
     (if ty AND CT_SD2 \<noteq> 0
      then do { (res, d) \<leftarrow> read_status P 16 d;
                case res of
                  None \<Rightarrow> Some (None, d)
                | Some csd \<Rightarrow>
                    do { d \<leftarrow> xchg_all P (replicate 48 0xFF) d;
                         Some (Some (push_bit (unat (drop_bit 4 (csd ! 10))) 16), d) } }
      else do { (res, d) \<leftarrow> read_register P 9 16 d;
                case res of
                  None \<Rightarrow> Some (None, d)
                | Some csd \<Rightarrow> do { v \<leftarrow> csd_erase_block ty csd; Some (Some v, d) } })"

text \<open>The request without the checks and the deselection around it: the result, what it stores at \<open>buff\<close>, the new
  status, and the device.\<close>

definition ioctl_request ::
  "'d spi_port \<Rightarrow> u8 \<Rightarrow> 'd spidisk \<Rightarrow> (dresult \<times> u8 list \<times> u8 \<times> 'd) option" where
  "ioctl_request P cmd dk =
     (let d = spd_dev dk; st = spd_stat dk;
          answer = (\<lambda>(res, d). Some (case res of None \<Rightarrow> (RES_ERROR, [], st, d) | Some bs \<Rightarrow> (RES_OK, bs, st, d)))
      in
      if cmd = 0 then do { (ok, d) \<leftarrow> card_select P d; Some (if ok then RES_OK else RES_ERROR, [], st, d) }
      else if cmd = 1 then
        do { (res, d) \<leftarrow> read_register P 9 16 d;
             case res of
               None \<Rightarrow> Some (RES_ERROR, [], st, d)
             | Some csd \<Rightarrow> do { v \<leftarrow> csd_sectors csd; Some (RES_OK, le_bytes 4 (unat v), st, d) } }
      else if cmd = 3 then
        do { (res, d) \<leftarrow> erase_block_size P (spd_type dk) d;
             answer (map_option (\<lambda>v. le_bytes 4 (unat v)) res, d) }
      else if cmd = 50 then Some (RES_OK, [spd_type dk], st, d)
      else if cmd = 51 then Option.bind (read_register P 9 16 d) answer
      else if cmd = 52 then Option.bind (read_register P 10 16 d) answer
      else if cmd = 53 then
        do { (r, d) \<leftarrow> spi_send_cmd P 58 0 d;
             if r \<noteq> 0 then Some (RES_ERROR, [], st, d)
             else do { (bs, d) \<leftarrow> xchg_read P 4 d; Some (RES_OK, bs, st, d) } }
      else if cmd = 54 then Option.bind (read_status P 64 d) answer
      else if cmd = 6 then do { d \<leftarrow> sp_disable P d; Some (RES_OK, [], st OR STA_NOINIT, d) }
      else Some (RES_PARERR, [], st, d))"

definition spi_disk_ioctl ::
  "'d spi_port \<Rightarrow> u8 \<Rightarrow> u8 \<Rightarrow> u32 \<Rightarrow> mem \<times> 'd spidisk \<Rightarrow> (dresult \<times> mem \<times> 'd spidisk) option" where
  "spi_disk_ioctl P pdrv cmd buff s =
     (case s of (m, dk) \<Rightarrow>
        if pdrv \<noteq> 0 then Some (RES_PARERR, m, dk)
        else if spd_stat dk AND STA_NOINIT \<noteq> 0 then Some (RES_NOTRDY, m, dk)
        else do {
          (res, bs, st, d) \<leftarrow> ioctl_request P cmd dk;
          d \<leftarrow> sp_deselect P d;
          Some (res, store_bytes m buff bs, dk\<lparr>spd_dev := d, spd_stat := st\<rparr>) })"

section \<open>An old card is rejected\<close>

lemma busy_cmds_ready:
  "spi_send_cmd P c a d = Some (0, d1) \<Longrightarrow> busy_cmds P c a (Suc n) d = Some (of_nat n, d1)"
  by simp

text \<open>
  A card of the older protocols that is ready at the first question gets no type, and so disk start-up fails
  for it, because the test behind the loop takes the time that is left for a timeout.
\<close>

lemma old_card_rejected:
  assumes "spi_send_cmd P (0x80 + 41) 0 d = Some (r, d1)"
    and "spi_send_cmd P (if r \<le> 1 then 0x80 + 41 else 1) 0 d1 = Some (0, d2)"
  shows "old_type P 999999 d = Some (0, d2)"
proof -
  have n: "(999999 :: nat) - 1 = Suc 999997" by simp
  have t: "of_nat 999997 \<noteq> (0 :: u32)" by simp
  show ?thesis
    unfolding old_type_def n using assms t busy_cmds_ready [of P _ 0 d1 d2 999997] by (cases "r \<le> 1") simp_all
qed

text \<open>It gets one only where every attempt but the last is refused.\<close>

lemma old_type_late:
  assumes "old_type P (Suc n) d = Some (ty, d')" "ty \<noteq> 0"
  shows "\<exists>c d1 d2. busy_cmds P c 0 n d1 = Some (0, d2)"
  using assms by (auto simp: old_type_def split: option.splits if_splits bind_splits) blast+

section \<open>The conversation with a card\<close>

text \<open>The answers of a card to a command, to the command that stops a transfer, and the packet that carries a block.\<close>

definition cmd_answer :: "u8 \<Rightarrow> u8 list \<Rightarrow> bool" where
  "cmd_answer r xs \<longleftrightarrow> (\<exists>busy junk wait. xs = busy @ [0xFF] @ junk @ wait @ [r] \<and> 0xFF \<notin> set busy \<and>
     length busy < 2500000 \<and> length junk = 6 \<and> (\<forall>b\<in>set wait. b AND 0x80 \<noteq> 0) \<and> length wait < 10 \<and> r AND 0x80 = 0)"

definition stop_answer :: "u8 list \<Rightarrow> bool" where
  "stop_answer xs \<longleftrightarrow> (\<exists>junk wait r. xs = junk @ wait @ [r] \<and> length junk = 7 \<and>
     (\<forall>b\<in>set wait. b AND 0x80 \<noteq> 0) \<and> length wait < 10 \<and> r AND 0x80 = 0)"

definition data_answer :: "u8 list \<Rightarrow> u8 list \<Rightarrow> bool" where
  "data_answer bs xs \<longleftrightarrow> (\<exists>k c1 c2. xs = replicate k 0xFF @ [0xFE] @ bs @ [c1, c2] \<and> k < 1000000 \<and> length bs = 512)"

context spi_stream
begin

lemma xchg_all_pops:
  "live d \<Longrightarrow> rx d = xs @ ys \<Longrightarrow> length xs = length bs \<Longrightarrow> \<exists>d'. xchg_all P bs d = Some d' \<and> rx d' = ys \<and> live d'"
proof (induction bs arbitrary: d xs)
  case (Cons b bs)
  then obtain x xs' where x: "xs = x # xs'" by (cases xs) auto
  with Cons.prems send_pops [of d x "xs' @ ys" b] obtain d1 where
    "sp_send P b d = Some (x, d1)" "rx d1 = xs' @ ys" "live d1" by auto
  with Cons.IH [of d1 xs'] Cons.prems(3) x show ?case by (simp add: xchg_spi_def)
qed simp

lemma poll_byte_pops:
  "live d \<Longrightarrow> rx d = pre @ b # ys \<Longrightarrow> \<forall>x\<in>set pre. \<not> ok x \<Longrightarrow> ok b \<Longrightarrow> length pre \<le> n \<Longrightarrow>
    \<exists>d'. poll_byte P ok n d = Some (b, d') \<and> rx d' = ys \<and> live d'"
proof (induction pre arbitrary: d n)
  case Nil
  with send_pops [of d b ys "0xFF"] show ?case by (cases n) (auto simp: xchg_spi_def)
next
  case (Cons x pre)
  then obtain k where k: "n = Suc k" by (cases n) auto
  from Cons.prems send_pops [of d x "pre @ b # ys" "0xFF"] obtain d1 where
    "sp_send P 0xFF d = Some (x, d1)" "rx d1 = pre @ b # ys" "live d1" by auto
  with Cons.IH [of d1 k] Cons.prems k show ?case by (simp add: xchg_spi_def)
qed

lemma rcvr_spi_multi_pops:
  "live d \<Longrightarrow> n \<le> length (rx d) \<Longrightarrow>
    \<exists>d'. rcvr_spi_multi P n d = Some (take n (rx d), d') \<and> rx d' = drop n (rx d) \<and> live d'"
proof (induction n arbitrary: d rule: less_induct)
  case (less n)
  show ?case
  proof (cases "n = 0")
    case True
    with less.prems show ?thesis by (simp add: rcvr_spi_multi.simps)
  next
    case False
    have "min 16 n \<le> length (rx d)" using less.prems(2) by linarith
    with recv_pops [OF less.prems(1), of "min 16 n"] min.cobounded1 obtain d1 where
      d1: "sp_recv_multi P (min 16 n) d = Some (take (min 16 n) (rx d), d1)" "rx d1 = drop (min 16 n) (rx d)" "live d1" by auto
    have "n - 16 < n" "n - 16 \<le> length (rx d1)" using False d1(2) less.prems(2) by simp_all
    from less.IH [OF this(1) d1(3) this(2)] obtain d2 where
      d2: "rcvr_spi_multi P (n - 16) d1 = Some (take (n - 16) (rx d1), d2)" "rx d2 = drop (n - 16) (rx d1)" "live d2" by blast
    have "take (min 16 n) (rx d) @ take (n - 16) (drop (min 16 n) (rx d)) = take n (rx d)"
      by (cases "n \<le> 16") (simp_all add: take_add [symmetric])
    moreover have "drop (n - 16) (drop (min 16 n) (rx d)) = drop n (rx d)" by (cases "n \<le> 16") simp_all
    ultimately show ?thesis using False d1 d2 by (subst rcvr_spi_multi.simps) simp
  qed
qed

lemma rcvr_datablock_delivers:
  assumes "live d" "rx d = xs @ ys" "data_answer bs xs"
  shows "\<exists>d'. spi_rcvr_datablock P 512 d = Some (Some bs, d') \<and> rx d' = ys \<and> live d'"
proof -
  from assms(3) obtain k c1 c2 where xs: "xs = replicate k 0xFF @ [0xFE] @ bs @ [c1, c2]" "k < 1000000" "length bs = 512"
    by (auto simp: data_answer_def)
  let ?n = "unat (200 * 5000 - 1 :: u32)"
  have n: "?n = 999999" by simp
  have "length (replicate k (0xFF :: u8)) \<le> ?n" unfolding n using xs(2) by simp
  from poll_byte_pops [OF assms(1), of "replicate k 0xFF" "0xFE" "bs @ [c1, c2] @ ys" "\<lambda>b. b \<noteq> 0xFF", OF _ _ _ this]
  obtain d1 where d1: "poll_byte P (\<lambda>b. b \<noteq> 0xFF) ?n d = Some (0xFE, d1)" "rx d1 = bs @ [c1, c2] @ ys" "live d1"
    using assms(2) xs(1) by auto
  from rcvr_spi_multi_pops [OF d1(3), of 512] d1(2) xs(3) obtain d2 where
    d2: "rcvr_spi_multi P 512 d1 = Some (bs, d2)" "rx d2 = [c1, c2] @ ys" "live d2" by auto
  from xchg_all_pops [OF d2(3,2), of "[0xFF, 0xFF]"] obtain d3 where
    d3: "xchg_all P [0xFF, 0xFF] d2 = Some d3" "rx d3 = ys" "live d3" by auto
  have "unat (512 :: u32) = 512" by simp
  with d1(1) d2(1) d3 show ?thesis unfolding spi_rcvr_datablock_def by (simp only: Option.bind.bind_lunit prod.case) simp
qed

lemma card_select_pops:
  assumes "live d" "rx d = busy @ 0xFF # ys" "0xFF \<notin> set busy" "length busy < 2500000"
  shows "\<exists>d'. card_select P d = Some (True, d') \<and> rx d' = ys \<and> live d'"
proof -
  from select_keeps [OF assms(1)] obtain d1 where d1: "sp_select P d = Some d1" "rx d1 = rx d" "live d1" by blast
  let ?n = "unat (500 * 5000 - 1 :: u32)"
  have n: "?n = 2499999" by simp
  have l: "length busy \<le> ?n" unfolding n using assms(4) by simp
  have "\<forall>x\<in>set busy. \<not> x = 0xFF" using assms(3) by auto
  from poll_byte_pops [where ok = "\<lambda>b. b = 0xFF", OF d1(3) _ this _ l] d1(2) assms(2) obtain d2 where
    "poll_byte P (\<lambda>b. b = 0xFF) ?n d1 = Some (0xFF, d2)" "rx d2 = ys" "live d2" by auto
  with d1(1) show ?thesis unfolding card_select_def wait_ready_def by (simp only: Option.bind.bind_lunit option.case prod.case) simp
qed

lemma send_cmd_answered:
  assumes "live d" "rx d = xs @ ys" "cmd_answer r xs" "cmd AND 0x80 = 0" "cmd \<noteq> 12"
  shows "\<exists>d'. spi_send_cmd P cmd arg d = Some (r, d') \<and> rx d' = ys \<and> live d'"
proof -
  from assms(3) obtain busy junk wait where xs: "xs = busy @ [0xFF] @ junk @ wait @ [r]" "0xFF \<notin> set busy"
    "length busy < 2500000" "length junk = 6" "\<forall>b\<in>set wait. b AND 0x80 \<noteq> 0" "length wait < 10" "r AND 0x80 = 0"
    unfolding cmd_answer_def by blast
  from deselect_keeps [OF assms(1)] obtain d0 where d0: "sp_deselect P d = Some d0" "rx d0 = rx d" "live d0" by blast
  from card_select_pops [OF d0(3) _ xs(2,3), of "junk @ wait @ [r] @ ys"] d0(2) assms(2) xs(1) obtain d1 where
    d1: "card_select P d0 = Some (True, d1)" "rx d1 = junk @ wait @ [r] @ ys" "live d1" by auto
  from xchg_all_pops [OF d1(3,2), of "command_packet cmd arg"] xs(4) obtain d2 where
    d2: "xchg_all P (command_packet cmd arg) d1 = Some d2" "rx d2 = wait @ r # ys" "live d2"
    by (auto simp: command_packet_def)
  from poll_byte_pops [of d2 wait r ys "\<lambda>res. res AND 0x80 = 0" 9, OF d2(3,2)] xs(5-7) obtain d3 where
    d3: "poll_byte P (\<lambda>res. res AND 0x80 = 0) 9 d2 = Some (r, d3)" "rx d3 = ys" "live d3" by auto
  from d0(1) d1(1) d2(1) d3 assms(4,5) show ?thesis
    by (simp add: spi_send_cmd_def send_plain_def send_packet_def del: poll_byte.simps)
qed

lemma stop_answered:
  assumes "live d" "rx d = xs @ ys" "stop_answer xs"
  shows "\<exists>r d'. spi_send_cmd P 12 arg d = Some (r, d') \<and> rx d' = ys \<and> live d'"
proof -
  from assms(3) obtain junk wait r where xs: "xs = junk @ wait @ [r]" "length junk = 7"
    "\<forall>b\<in>set wait. b AND 0x80 \<noteq> 0" "length wait < 10" "r AND 0x80 = 0" unfolding stop_answer_def by blast
  have j: "junk = take 6 junk @ drop 6 junk" by simp
  from xchg_all_pops [OF assms(1), of "take 6 junk" "drop 6 junk @ wait @ [r] @ ys" "command_packet 12 arg"] xs(1,2) assms(2)
  obtain d1 where d1: "xchg_all P (command_packet 12 arg) d = Some d1" "rx d1 = drop 6 junk @ wait @ [r] @ ys" "live d1"
    by (auto simp: command_packet_def)
  from xchg_all_pops [OF d1(3,2), of "[0xFF]"] xs(2) obtain d2 where
    d2: "xchg_all P [0xFF] d1 = Some d2" "rx d2 = wait @ r # ys" "live d2" by auto
  from poll_byte_pops [of d2 wait r ys "\<lambda>res. res AND 0x80 = 0" 9, OF d2(3,2)] xs(3-5) obtain d3 where
    "poll_byte P (\<lambda>res. res AND 0x80 = 0) 9 d2 = Some (r, d3)" "rx d3 = ys" "live d3" by auto
  with d1(1) d2(1) show ?thesis
    by (simp add: spi_send_cmd_def send_plain_def send_packet_def del: poll_byte.simps xchg_all.simps)
qed

lemma rcvr_blocks_deliver:
  "live d \<Longrightarrow> rx d = concat xss @ ys \<Longrightarrow> list_all2 data_answer bss xss \<Longrightarrow>
    \<exists>d'. rcvr_blocks P (length bss) buff (m, d) = Some (0, store_bytes m buff (concat bss), d') \<and> rx d' = ys \<and> live d'"
proof (induction bss arbitrary: d xss m buff)
  case (Cons bs bss)
  then obtain xs xss' where xss: "xss = xs # xss'" "data_answer bs xs" "list_all2 data_answer bss xss'"
    by (auto simp: list_all2_Cons1)
  from rcvr_datablock_delivers [OF Cons.prems(1) _ xss(2), of "concat xss' @ ys"] Cons.prems(2) xss(1) obtain d1 where
    d1: "spi_rcvr_datablock P 512 d = Some (Some bs, d1)" "rx d1 = concat xss' @ ys" "live d1" by auto
  have "length bs = 512" using xss(2) by (auto simp: data_answer_def)
  with Cons.IH [OF d1(3,2) xss(3), of "buff + 512" "store_bytes m buff bs"] d1(1) show ?case
    by (auto simp: store_bytes_append)
qed simp

lemma disk_read_delivers:
  assumes "live (spd_dev dk)" "spd_stat dk AND STA_NOINIT = 0" "unat count = length bss" "bss \<noteq> []"
    and "rx (spd_dev dk) = xs @ concat xss @ zs @ ys" "cmd_answer 0 xs" "list_all2 data_answer bss xss"
    and "if count = 1 then zs = [] else stop_answer zs"
  shows "\<exists>dk'. spi_disk_read P 0 buff sector count (m, dk) = Some (RES_OK, store_bytes m buff (concat bss), dk') \<and>
    rx (spd_dev dk') = ys \<and> live (spd_dev dk') \<and> spd_stat dk' = spd_stat dk"
proof -
  let ?cmd = "if 1 < count then 18 else 17 :: u8"
  have c: "count \<noteq> 0" using assms(3,4) by auto
  then have c1: "1 < count \<longleftrightarrow> count \<noteq> 1" by (auto simp: word_less_nat_alt word_unat_eq_iff)
  have "?cmd AND 0x80 = 0" "?cmd \<noteq> 12" by simp_all
  from send_cmd_answered [OF assms(1,5,6) this, of "byte_address dk sector"] obtain d1 where
    d1: "spi_send_cmd P ?cmd (byte_address dk sector) (spd_dev dk) = Some (0, d1)" "rx d1 = concat xss @ zs @ ys" "live d1"
    by blast
  from rcvr_blocks_deliver [OF d1(3,2) assms(7), of buff m] obtain d2 where
    d2: "rcvr_blocks P (unat count) buff (m, d1) = Some (0, store_bytes m buff (concat bss), d2)" "rx d2 = zs @ ys" "live d2"
    using assms(3) by auto
  have "\<exists>r d3. (if ?cmd = 18 then spi_send_cmd P 12 0 d2 else Some (0, d2)) = Some (r, d3) \<and> rx d3 = ys \<and> live d3"
    using stop_answered [OF d2(3,2), of 0] d2 assms(8) c1 by (cases "count = 1") auto
  then obtain r d3 where d3: "(if ?cmd = 18 then spi_send_cmd P 12 0 d2 else Some (0, d2)) = Some (r, d3)" "rx d3 = ys" "live d3"
    by blast
  from deselect_keeps [OF d3(3)] obtain d4 where d4: "sp_deselect P d3 = Some d4" "rx d4 = rx d3" "live d4" by blast
  have "spi_disk_read P 0 buff sector count (m, dk) =
      Some (RES_OK, store_bytes m buff (concat bss), dk\<lparr>spd_dev := d4\<rparr>)"
    unfolding spi_disk_read_def Let_def using c assms(2) d1(1) d2(1) d3(1) d4(1) by (simp split: if_splits)
  with d3 d4 show ?thesis by auto
qed

end

section \<open>Reading blocks through the port of the boot program\<close>

text \<open>C26: An initialised card that answers a read command with status 0 after at most 10 exchanges, then one packet per
  block, each a start token after fewer than 1000000 fill bytes, and for several blocks also answers the stop command,
  has all its blocks stored at the buffer, in order, and nothing else is stored.  Every waiting loop on the way
  ends, exactly the answers of the transfer are taken from the card, and the status of the disk is unchanged.\<close>
theorem spi_disk_read_delivers:
  assumes "boot_spi_laws B rx live" "live (snd (spd_dev dk))" "spd_stat dk AND STA_NOINIT = 0"
    and "unat count = length bss" "bss \<noteq> []" "rx (snd (spd_dev dk)) = xs @ concat xss @ zs @ ys"
    and "cmd_answer 0 xs" "list_all2 data_answer bss xss" "if count = 1 then zs = [] else stop_answer zs"
  shows "\<exists>dk'. spi_disk_read (boot_spi B) 0 buff sector count (m, dk) = Some (RES_OK, store_bytes m buff (concat bss), dk') \<and>
    rx (snd (spd_dev dk')) = ys \<and> live (snd (spd_dev dk')) \<and> spd_stat dk' = spd_stat dk"
  using boot_port.disk_read_delivers [where rx = rx and live = live and B = B and dk = dk and count = count and bss = bss
    and xs = xs and xss = xss and zs = zs and ys = ys and buff = buff and sector = sector and m = m] assms by blast

text \<open>A card that has its answers ready, as a device: the byte just taken and those to come.\<close>

definition ready_card :: "(u8 \<times> u8 list) bus" where
  "ready_card = \<lparr>bus_read = (\<lambda>a d. (ucast (fst d), d)),
     bus_write = (\<lambda>a v d. if a = spi_rxfifo then (case snd d of [] \<Rightarrow> d | b # bs \<Rightarrow> (b, bs)) else d)\<rparr>"

lemma ready_card_laws: "boot_spi_laws ready_card snd (\<lambda>_. True)"
  by (simp add: boot_spi_laws_def ready_card_def spi_rxfifo_def spi_stat_base_def led_reg_def)

definition one_block :: "u8 list" where
  "one_block = replicate 512 7"

definition ready_disk :: "(u32 \<times> u8 \<times> u8 list) spidisk" where
  "ready_disk =
     \<lparr>spd_dev = (0, 0, [0xFF, 1, 2, 3, 4, 5, 6, 0xFF, 0] @ ([0xFF, 0xFE] @ one_block @ [8, 9]) @ [10]), spd_stat = 0, spd_type = 0\<rparr>"

lemma spi_disk_read_delivers_witness:
  "\<exists>dk'. spi_disk_read (boot_spi ready_card) 0 0x1000 5 1 (\<lambda>a. 0, ready_disk) =
     Some (RES_OK, store_bytes (\<lambda>a. 0) 0x1000 one_block, dk') \<and> snd (snd (spd_dev dk')) = [10] \<and> spd_stat dk' = 0"
proof -
  have l: "length one_block = 512" by (simp add: one_block_def)
  have c: "cmd_answer 0 [0xFF, 1, 2, 3, 4, 5, 6, 0xFF, 0]"
    unfolding cmd_answer_def by (rule exI [of _ "[]"], rule exI [of _ "[1, 2, 3, 4, 5, 6]"], rule exI [of _ "[0xFF]"]) simp
  have a: "data_answer one_block ([0xFF, 0xFE] @ one_block @ [8, 9])"
    unfolding data_answer_def by (rule exI [of _ 1], rule exI [of _ 8], rule exI [of _ 9]) (simp add: l)
  have d: "snd (snd (spd_dev ready_disk)) =
      [0xFF, 1, 2, 3, 4, 5, 6, 0xFF, 0] @ concat [[0xFF, 0xFE] @ one_block @ [8, 9]] @ [] @ [10]" "spd_stat ready_disk = 0"
    by (simp_all add: ready_disk_def)
  from a have a2: "list_all2 data_answer [one_block] [[0xFF, 0xFE] @ one_block @ [8, 9]]" by simp
  have n: "unat (1 :: u32) = length [one_block]" "[one_block] \<noteq> []" by simp_all
  have s: "spd_stat ready_disk AND STA_NOINIT = 0" unfolding d(2) by simp
  show ?thesis
    using spi_disk_read_delivers [where buff = "0x1000" and sector = "5" and m = "\<lambda>a. 0", OF ready_card_laws _ s n d(1) c a2]
    unfolding d(2) by (simp only: refl if_True simp_thms concat.simps append_Nil2 append_Nil)
qed

end
