(* ===== verification/VM.thy ===== *)
theory VM
  imports FileTable
begin

text \<open>
  Virtual memory of the firmware (hello/vm.c) on the 32-bit target: the page allocator, the regions,
  the two-level page table, mapping, unmapping, page faults and the program break.  Page-table entries
  are words of a store \<open>ptes\<close> by address, next to the byte memory \<open>ram\<close> that holds the pages of the
  program; the array of regions, one page of the source, is a list, whose entries have addresses so
  that an entry of the table that is not valid yet can point to its region.  \<open>None\<close> is a failed
  assertion, a panic, or a loop that does not end.
\<close>

section \<open>State\<close>

record vmr_t =
  v_addr :: u32
  v_length :: u32
  v_file :: "nat option"
  v_offset :: u32
  v_refcnt :: u32
  v_prot :: u32

record ('d, 'f) vmstate =
  ptes :: "u32 \<Rightarrow> u32"
  ram :: mem
  root_page_table :: u32
  first_free_page :: u32
  next_free_page :: u32
  free_pages :: u32
  vmrs_ptr :: u32
  vmrs :: "vmr_t list"
  fs :: "('d, 'f) fstate"
  have_vm :: bool
  sptbr :: u32
  elf64 :: bool
  brk :: u32
  brk_min :: u32
  brk_max :: u32
  mmap_max :: u32
  first_free_paddr :: u32
  stack_bottom :: u32
  stack_top :: u32

definition RISCV_PGSIZE :: u32 where "RISCV_PGSIZE = 0x1000"
definition MAX_VMR :: nat where "MAX_VMR = 170"
definition vmr_size :: u32 where "vmr_size = 24"
definition vmr_zero :: vmr_t where
  "vmr_zero = \<lparr>v_addr = 0, v_length = 0, v_file = None, v_offset = 0, v_refcnt = 0, v_prot = 0\<rparr>"

definition EBADF :: u32 where "EBADF = 9"
definition EACCES :: u32 where "EACCES = 13"
definition VM_EINVAL :: u32 where "VM_EINVAL = 22"
definition ENOMEM :: u32 where "ENOMEM = 12"
definition VM_ENOSYS :: u32 where "VM_ENOSYS = 88"

definition ROUNDUP :: "u32 \<Rightarrow> u32" where "ROUNDUP a = ((a - 1) div RISCV_PGSIZE + 1) * RISCV_PGSIZE"

definition set_pte :: "u32 \<Rightarrow> u32 \<Rightarrow> ('d, 'f) vmstate \<Rightarrow> ('d, 'f) vmstate" where
  "set_pte p v st = st\<lparr>ptes := (ptes st)(p := v)\<rparr>"

section \<open>Pages and regions\<close>

text \<open>\<open>memset\<close> of the \<open>n\<close> bytes at \<open>a\<close> to zero.\<close>

definition zero_bytes :: "u32 \<Rightarrow> u32 \<Rightarrow> mem \<Rightarrow> mem" where
  "zero_bytes a n m = (\<lambda>x. if x - a < n then 0 else m x)"

definition page_alloc :: "('d, 'f) vmstate \<Rightarrow> (u32 \<times> ('d, 'f) vmstate) option" where
  "page_alloc st =
     (if next_free_page st = free_pages st then None
      else
        (let addr = first_free_page st + RISCV_PGSIZE * next_free_page st in
         Some (addr, st\<lparr>next_free_page := next_free_page st + 1,
                        ptes := (\<lambda>a. if a - addr < RISCV_PGSIZE then 0 else ptes st a),
                        ram := zero_bytes addr RISCV_PGSIZE (ram st)\<rparr>)))"

fun find_vmr :: "vmr_t list \<Rightarrow> nat \<Rightarrow> nat option" where
  "find_vmr [] i = None"
| "find_vmr (v # vs) i = (if v_refcnt v = 0 then Some i else find_vmr vs (i + 1))"

definition vmr_pointer :: "('d, 'f) vmstate \<Rightarrow> nat \<Rightarrow> u32" where
  "vmr_pointer st i = vmrs_ptr st + vmr_size * of_nat i"

definition vmr_index :: "('d, 'f) vmstate \<Rightarrow> u32 \<Rightarrow> nat" where
  "vmr_index st p = unat (p - vmrs_ptr st) div unat vmr_size"

definition ensure_vmrs :: "('d, 'f) vmstate \<Rightarrow> ('d, 'f) vmstate option" where
  "ensure_vmrs st =
     (if vmrs_ptr st \<noteq> 0 then Some st
      else
        (case page_alloc st of
           None \<Rightarrow> None
         | Some (p, st) \<Rightarrow> Some (st\<lparr>vmrs_ptr := p, vmrs := replicate MAX_VMR vmr_zero\<rparr>)))"

definition vmr_alloc ::
  "u32 \<Rightarrow> u32 \<Rightarrow> nat option \<Rightarrow> u32 \<Rightarrow> u32 \<Rightarrow> u32 \<Rightarrow> ('d, 'f) vmstate \<Rightarrow> (nat option \<times> ('d, 'f) vmstate) option" where
  "vmr_alloc addr len file off cnt prot st0 =
     (case ensure_vmrs st0 of
        None \<Rightarrow> None
      | Some st \<Rightarrow>
          (case find_vmr (vmrs st) 0 of
             None \<Rightarrow> Some (None, st)
           | Some i \<Rightarrow>
               (case (case file of None \<Rightarrow> Some (fs st) | Some f \<Rightarrow> file_incref f (fs st)) of
                  None \<Rightarrow> None
                | Some d \<Rightarrow>
                    Some (Some i, st\<lparr>fs := d, vmrs := (vmrs st)[i :=
                      \<lparr>v_addr = addr, v_length = len, v_file = file, v_offset = off, v_refcnt = cnt, v_prot = prot\<rparr>]\<rparr>))))"

definition vmr_decref :: "('d, 'f) fatfs \<Rightarrow> nat \<Rightarrow> u32 \<Rightarrow> ('d, 'f) vmstate \<Rightarrow> ('d, 'f) vmstate" where
  "vmr_decref E i n st =
     (let v = vmrs st ! i;
          v = v\<lparr>v_refcnt := v_refcnt v - n\<rparr>;
          st = st\<lparr>vmrs := (vmrs st)[i := v]\<rparr>
      in if v_refcnt v = 0 then
           (case v_file v of None \<Rightarrow> st | Some f \<Rightarrow> st\<lparr>fs := file_decref E f (fs st)\<rparr>)
         else st)"

section \<open>Page-table entries\<close>

definition PTE_V :: u32 where "PTE_V = 1"

definition pte_ppn :: "u32 \<Rightarrow> u32" where "pte_ppn pte = drop_bit 10 pte"
definition ptd_create :: "u32 \<Rightarrow> u32" where "ptd_create p = push_bit 10 p OR PTE_V OR 0x00"

definition user_type :: "u32 \<Rightarrow> u32" where
  "user_type prot =
     (if prot = 0 then 0x10 else if prot = 1 then 0x08 else if prot = 2 then 0x0A else if prot = 4 then 0x0C
      else if prot = 1 OR 2 then 0x0A else if prot = 1 OR 4 then 0x0C else 0x0E)"

definition kernel_type :: "u32 \<Rightarrow> u32 option" where
  "kernel_type prot =
     (if prot = 0 then None else if prot = 1 then Some 0x10 else if prot = 2 then Some 0x12
      else if prot = 4 then Some 0x14 else if prot = 1 OR 2 then Some 0x12 else if prot = 1 OR 4 then Some 0x14
      else Some 0x16)"

definition pte_create :: "u32 \<Rightarrow> u32 \<Rightarrow> bool \<Rightarrow> u32 option" where
  "pte_create p prot user =
     (let pte = push_bit 10 p OR PTE_V; prot = prot AND (1 OR 2 OR 4) in
      if user then Some (pte OR user_type prot) else map_option (\<lambda>t. pte OR t) (kernel_type prot))"

definition PTE_TABLE :: "u32 \<Rightarrow> bool" where "PTE_TABLE pte \<longleftrightarrow> drop_bit (unat (pte AND 0x1F)) (0xA :: u32) AND 1 \<noteq> 0"
definition PTE_UW :: "u32 \<Rightarrow> bool" where "PTE_UW pte \<longleftrightarrow> drop_bit (unat (pte AND 0x1F)) (0x8880 :: u32) AND 1 \<noteq> 0"
definition PTE_UX :: "u32 \<Rightarrow> bool" where "PTE_UX pte \<longleftrightarrow> drop_bit (unat (pte AND 0x1F)) (0xA0A0 :: u32) AND 1 \<noteq> 0"

section \<open>The page table\<close>

definition ppn :: "u32 \<Rightarrow> u32" where "ppn a = drop_bit 12 a"

definition pt_idx :: "u32 \<Rightarrow> nat \<Rightarrow> u32" where
  "pt_idx addr level = drop_bit (10 * level + 12) addr AND 0x3FF"

definition pte_addr :: "u32 \<Rightarrow> u32 \<Rightarrow> u32" where "pte_addr t idx = t + 4 * idx"

definition maybe_create_root_page_table :: "('d, 'f) vmstate \<Rightarrow> ('d, 'f) vmstate option" where
  "maybe_create_root_page_table st =
     (if root_page_table st \<noteq> 0 then Some st
      else
        (case page_alloc st of
           None \<Rightarrow> None
         | Some (p, st) \<Rightarrow>
             (let st = st\<lparr>root_page_table := p\<rparr> in Some (if have_vm st then st\<lparr>sptbr := p\<rparr> else st))))"

text \<open>The descent from level \<open>i\<close>; the address 0 is the missing entry.\<close>

fun walk_levels :: "nat \<Rightarrow> bool \<Rightarrow> u32 \<Rightarrow> u32 \<Rightarrow> ('d, 'f) vmstate \<Rightarrow> (u32 \<times> ('d, 'f) vmstate) option" where
  "walk_levels 0 create addr t st = Some (pte_addr t (pt_idx addr 0), st)"
| "walk_levels (Suc i) create addr t st =
     (let e = pte_addr t (pt_idx addr (Suc i)) in
      if ptes st e AND PTE_V = 0 then
        (if \<not> create then Some (0, st)
         else
           (case page_alloc st of
              None \<Rightarrow> None
            | Some (page, st) \<Rightarrow>
                (let st = set_pte e (ptd_create (ppn page)) st
                 in walk_levels i create addr (push_bit 12 (pte_ppn (ptes st e))) st)))
      else if \<not> PTE_TABLE (ptes st e) then None
      else walk_levels i create addr (push_bit 12 (pte_ppn (ptes st e))) st)"

text \<open>\<open>VA_BITS\<close> is 32, so there are two levels.\<close>

definition walk_internal :: "u32 \<Rightarrow> bool \<Rightarrow> ('d, 'f) vmstate \<Rightarrow> (u32 \<times> ('d, 'f) vmstate) option" where
  "walk_internal addr create st =
     (case maybe_create_root_page_table st of
        None \<Rightarrow> None
      | Some st \<Rightarrow> walk_levels ((32 - 12) div 10 - 1) create addr (root_page_table st) st)"

definition walk :: "u32 \<Rightarrow> ('d, 'f) vmstate \<Rightarrow> (u32 \<times> ('d, 'f) vmstate) option" where
  "walk addr st = walk_internal addr False st"

definition walk_create :: "u32 \<Rightarrow> ('d, 'f) vmstate \<Rightarrow> (u32 \<times> ('d, 'f) vmstate) option" where
  "walk_create addr st = walk_internal addr True st"

definition va_avail :: "u32 \<Rightarrow> ('d, 'f) vmstate \<Rightarrow> (bool \<times> ('d, 'f) vmstate) option" where
  "va_avail vaddr st =
     (case walk vaddr st of None \<Rightarrow> None | Some (p, st) \<Rightarrow> Some (p = 0 \<or> ptes st p = 0, st))"

section \<open>Loops over pages\<close>

partial_function (option) for_pages :: "(u32 \<Rightarrow> 's \<Rightarrow> 's option) \<Rightarrow> u32 \<Rightarrow> u32 \<Rightarrow> 's \<Rightarrow> 's option" where
  "for_pages body a e s =
     (if a < e then
        (case body a s of None \<Rightarrow> None | Some s \<Rightarrow> for_pages body (a + RISCV_PGSIZE) e s)
      else Some s)"

text \<open>The backward search of \<open>__vm_alloc\<close>: it stops at the first page or at one in use.\<close>

partial_function (option) vm_alloc_back ::
  "u32 \<Rightarrow> u32 \<Rightarrow> ('d, 'f) vmstate \<Rightarrow> (u32 \<times> ('d, 'f) vmstate) option" where
  "vm_alloc_back fst_page a st =
     (if a > fst_page then
        (case va_avail a st of
           None \<Rightarrow> None
         | Some (ok, st) \<Rightarrow> if ok then vm_alloc_back fst_page (a - RISCV_PGSIZE) st else Some (a, st))
      else Some (a, st))"

partial_function (option) vm_alloc_loop ::
  "u32 \<Rightarrow> u32 \<Rightarrow> u32 \<Rightarrow> ('d, 'f) vmstate \<Rightarrow> (u32 \<times> ('d, 'f) vmstate) option" where
  "vm_alloc_loop npage e a st =
     (if a \<le> e then
        (case va_avail a st of
           None \<Rightarrow> None
         | Some (ok, st) \<Rightarrow>
             if \<not> ok then vm_alloc_loop npage e (a + RISCV_PGSIZE) st
             else
               (case vm_alloc_back a (a + (npage - 1) * RISCV_PGSIZE) st of
                  None \<Rightarrow> None
                | Some (b, st) \<Rightarrow>
                    if b > a then vm_alloc_loop npage e (b + RISCV_PGSIZE) st else Some (b, st)))
      else Some (0, st))"

definition vm_alloc :: "u32 \<Rightarrow> ('d, 'f) vmstate \<Rightarrow> (u32 \<times> ('d, 'f) vmstate) option" where
  "vm_alloc npage st = vm_alloc_loop npage (mmap_max st - npage * RISCV_PGSIZE) (brk st) st"

definition valid_user_range :: "('d, 'f) vmstate \<Rightarrow> u32 \<Rightarrow> u32 \<Rightarrow> bool" where
  "valid_user_range st vaddr len \<longleftrightarrow>
     \<not> vaddr + len < vaddr \<and> vaddr \<ge> first_free_paddr st \<and> vaddr + len \<le> mmap_max st"

section \<open>Page faults\<close>

text \<open>The first part: a page whose region is still pending is filled and made valid.\<close>

definition populate_page ::
  "('d, 'f) fatfs \<Rightarrow> u32 \<Rightarrow> u32 \<Rightarrow> ('d, 'f) vmstate \<Rightarrow> ('d, 'f) vmstate option" where
  "populate_page E vaddr p st =
     (let vpn = drop_bit 12 vaddr; i = vmr_index st (ptes st p); v = vmrs st ! i in
      case pte_create vpn (1 OR 2) False of
        None \<Rightarrow> None
      | Some kpte \<Rightarrow>
          (let st = set_pte p kpte st in
           case (case v_file v of
                   None \<Rightarrow> Some (st\<lparr>ram := zero_bytes vaddr RISCV_PGSIZE (ram st)\<rparr>)
                 | Some f \<Rightarrow>
                     (let flen = min RISCV_PGSIZE (v_length v - (vaddr - v_addr v)) in
                      case file_pread E f vaddr flen (vaddr - v_addr v + v_offset v) (fs st) (ram st) of
                        None \<Rightarrow> None
                      | Some (r, d, m) \<Rightarrow>
                          if \<not> sint r > 0 then None
                          else
                            Some (st\<lparr>fs := d, ram := (if sint r < 4096 then zero_bytes (vaddr + r) (RISCV_PGSIZE - r) m else m)\<rparr>))) of
             None \<Rightarrow> None
           | Some st \<Rightarrow>
               (let st = vmr_decref E i 1 st in
                case pte_create vpn (v_prot v) True of
                  None \<Rightarrow> None
                | Some upte \<Rightarrow> Some (set_pte p upte st))))"

definition handle_page_fault_locked ::
  "('d, 'f) fatfs \<Rightarrow> u32 \<Rightarrow> u32 \<Rightarrow> ('d, 'f) vmstate \<Rightarrow> (u32 \<times> ('d, 'f) vmstate) option" where
  "handle_page_fault_locked E va prot st =
     (let vaddr = push_bit 12 (drop_bit 12 va) in
      case walk vaddr st of
        None \<Rightarrow> None
      | Some (p, st) \<Rightarrow>
          if p = 0 \<or> ptes st p = 0 \<or> \<not> valid_user_range st vaddr 1 then Some (- 1, st)
          else
            (case (if ptes st p AND PTE_V = 0 then populate_page E vaddr p st else Some st) of
               None \<Rightarrow> None
             | Some st \<Rightarrow>
                 (case pte_create 0 prot True of
                    None \<Rightarrow> None
                  | Some perms \<Rightarrow> Some (if ptes st p AND perms \<noteq> perms then - 1 else 0, st))))"

text \<open>The spin locks are empty on a single hart.\<close>

definition handle_page_fault ::
  "('d, 'f) fatfs \<Rightarrow> u32 \<Rightarrow> u32 \<Rightarrow> ('d, 'f) vmstate \<Rightarrow> (u32 \<times> ('d, 'f) vmstate) option" where
  "handle_page_fault E vaddr prot st = handle_page_fault_locked E vaddr prot st"

section \<open>Mapping and unmapping\<close>

definition unmap_page :: "('d, 'f) fatfs \<Rightarrow> u32 \<Rightarrow> ('d, 'f) vmstate \<Rightarrow> ('d, 'f) vmstate option" where
  "unmap_page E a st =
     (case walk a st of
        None \<Rightarrow> None
      | Some (p, st) \<Rightarrow>
          if p = 0 \<or> ptes st p = 0 then Some st
          else
            (let st = (if ptes st p AND PTE_V = 0 then vmr_decref E (vmr_index st (ptes st p)) 1 st else st)
             in Some (set_pte p 0 st)))"

definition munmap_locked ::
  "('d, 'f) fatfs \<Rightarrow> u32 \<Rightarrow> u32 \<Rightarrow> ('d, 'f) vmstate \<Rightarrow> ('d, 'f) vmstate option" where
  "munmap_locked E addr len st = for_pages (unmap_page E) addr (addr + len) st"

definition map_page ::
  "('d, 'f) fatfs \<Rightarrow> u32 \<Rightarrow> u32 \<Rightarrow> ('d, 'f) vmstate \<Rightarrow> ('d, 'f) vmstate option" where
  "map_page E v a st =
     (case walk_create a st of
        None \<Rightarrow> None
      | Some (p, st) \<Rightarrow>
          if p = 0 then None
          else
            (case (if ptes st p \<noteq> 0 then munmap_locked E a RISCV_PGSIZE st else Some st) of
               None \<Rightarrow> None
             | Some st \<Rightarrow> Some (set_pte p v st)))"

definition touch_page ::
  "('d, 'f) fatfs \<Rightarrow> u32 \<Rightarrow> u32 \<Rightarrow> ('d, 'f) vmstate \<Rightarrow> ('d, 'f) vmstate option" where
  "touch_page E prot a st =
     (case handle_page_fault_locked E a prot st of
        None \<Rightarrow> None
      | Some (r, st) \<Rightarrow> if r \<noteq> 0 then None else Some st)"

definition MAP_PRIVATE :: u32 where "MAP_PRIVATE = 0x2"
definition MAP_FIXED :: u32 where "MAP_FIXED = 0x10"
definition MAP_ANONYMOUS :: u32 where "MAP_ANONYMOUS = 0x20"
definition MAP_POPULATE :: u32 where "MAP_POPULATE = 0x8000"

text \<open>The part of \<open>__do_mmap\<close> after the address has been chosen.\<close>

definition mmap_at ::
  "('d, 'f) fatfs \<Rightarrow> u32 \<Rightarrow> u32 \<Rightarrow> u32 \<Rightarrow> u32 \<Rightarrow> nat option \<Rightarrow> u32 \<Rightarrow> u32 \<Rightarrow> ('d, 'f) vmstate
    \<Rightarrow> (u32 \<times> ('d, 'f) vmstate) option" where
  "mmap_at E addr len prot flags f off npage st =
     (case vmr_alloc addr len f off npage prot st of
        None \<Rightarrow> None
      | Some (None, st) \<Rightarrow> Some (- 1, st)
      | Some (Some i, st) \<Rightarrow>
          (case for_pages (map_page E (vmr_pointer st i)) addr (addr + len) st of
             None \<Rightarrow> None
           | Some st \<Rightarrow>
               (case (if \<not> have_vm st \<or> flags AND MAP_POPULATE \<noteq> 0
                      then for_pages (touch_page E prot) addr (addr + len) st else Some st) of
                  None \<Rightarrow> None
                | Some st \<Rightarrow> Some (addr, st))))"

definition mmap_locked ::
  "('d, 'f) fatfs \<Rightarrow> u32 \<Rightarrow> u32 \<Rightarrow> u32 \<Rightarrow> u32 \<Rightarrow> nat option \<Rightarrow> u32 \<Rightarrow> ('d, 'f) vmstate
    \<Rightarrow> (u32 \<times> ('d, 'f) vmstate) option" where
  "mmap_locked E addr len prot flags f off st =
     (let npage = (len - 1) div RISCV_PGSIZE + 1 in
      if flags AND MAP_FIXED \<noteq> 0 then
        (if addr AND (RISCV_PGSIZE - 1) \<noteq> 0 \<or> \<not> valid_user_range st addr len then Some (- 1, st)
         else mmap_at E addr len prot flags f off npage st)
      else
        (case vm_alloc npage st of
           None \<Rightarrow> None
         | Some (a, st) \<Rightarrow>
             if a = 0 then Some (- 1, st) else mmap_at E a len prot flags f off npage st))"

definition do_munmap ::
  "('d, 'f) fatfs \<Rightarrow> u32 \<Rightarrow> u32 \<Rightarrow> ('d, 'f) vmstate \<Rightarrow> (u32 \<times> ('d, 'f) vmstate) option" where
  "do_munmap E addr len st =
     (if addr AND (RISCV_PGSIZE - 1) \<noteq> 0 \<or> \<not> valid_user_range st addr len then Some (- VM_EINVAL, st)
      else map_option (Pair 0) (munmap_locked E addr len st))"

definition do_mmap ::
  "('d, 'f) fatfs \<Rightarrow> u32 \<Rightarrow> u32 \<Rightarrow> u32 \<Rightarrow> u32 \<Rightarrow> nat option \<Rightarrow> u32 \<Rightarrow> ('d, 'f) vmstate
    \<Rightarrow> (u32 \<times> ('d, 'f) vmstate) option" where
  "do_mmap E addr len prot flags f off st =
     (if flags AND MAP_PRIVATE = 0 \<or> len = 0 \<or> off AND (RISCV_PGSIZE - 1) \<noteq> 0 then Some (- VM_EINVAL, st)
      else if flags AND MAP_ANONYMOUS = 0 \<and> f = None then Some (- EBADF, st)
      else
        (case mmap_locked E addr len prot flags f off st of
           None \<Rightarrow> None
         | Some (a, st) \<Rightarrow> Some (a, if a < brk_max st then st\<lparr>brk_max := a\<rparr> else st)))"

section \<open>The program break\<close>

definition brk_locked :: "('d, 'f) fatfs \<Rightarrow> u32 \<Rightarrow> ('d, 'f) vmstate \<Rightarrow> (u32 \<times> ('d, 'f) vmstate) option" where
  "brk_locked E addr st =
     (let newbrk = (if addr < brk_min st then brk_min st else if addr > brk_max st then brk_max st else addr);
          st = (if brk st = 0 then st\<lparr>brk := ROUNDUP (brk_min st)\<rparr> else st);
          newbrk_page = ROUNDUP newbrk
      in
      case (if brk st > newbrk_page then munmap_locked E newbrk_page (brk st - newbrk_page) st
            else if brk st < newbrk_page then
              (case mmap_locked E (brk st) (newbrk_page - brk st) (- 1)
                      (MAP_FIXED OR MAP_PRIVATE OR MAP_ANONYMOUS) None 0 st of
                 None \<Rightarrow> None
               | Some (a, st') \<Rightarrow> if a = brk st' then Some st' else None)
            else Some st) of
        None \<Rightarrow> None
      | Some st \<Rightarrow> Some (newbrk, st\<lparr>brk := newbrk_page\<rparr>))"

definition do_brk :: "('d, 'f) fatfs \<Rightarrow> u32 \<Rightarrow> ('d, 'f) vmstate \<Rightarrow> (u32 \<times> ('d, 'f) vmstate) option" where
  "do_brk E addr st = brk_locked E addr st"

definition do_mremap :: "('d, 'f) vmstate \<Rightarrow> u32 \<times> ('d, 'f) vmstate" where
  "do_mremap st = (- VM_ENOSYS, st)"

section \<open>Protection\<close>

text \<open>One page of \<open>do_mprotect\<close>: \<open>Inl\<close> is the error that ends the loop.\<close>

definition protect_page ::
  "u32 \<Rightarrow> u32 \<Rightarrow> ('d, 'f) vmstate \<Rightarrow> ((u32 + unit) \<times> ('d, 'f) vmstate) option" where
  "protect_page prot a st =
     (case walk a st of
        None \<Rightarrow> None
      | Some (p, st) \<Rightarrow>
          if p = 0 \<or> ptes st p = 0 then Some (Inl (- ENOMEM), st)
          else if ptes st p AND PTE_V = 0 then
            (let i = vmr_index st (ptes st p); v = vmrs st ! i in
             if (v_prot v XOR prot) AND NOT (v_prot v) \<noteq> 0 then Some (Inl (- EACCES), st)
             else Some (Inr (), st\<lparr>vmrs := (vmrs st)[i := v\<lparr>v_prot := prot\<rparr>]\<rparr>))
          else if prot AND 2 \<noteq> 0 \<and> \<not> PTE_UW (ptes st p) \<or> prot AND 4 \<noteq> 0 \<and> \<not> PTE_UX (ptes st p) then
            Some (Inl (- EACCES), st)
          else
            (case pte_create (pte_ppn (ptes st p)) prot True of
               None \<Rightarrow> None
             | Some pte \<Rightarrow> Some (Inr (), set_pte p pte st)))"

partial_function (option) mprotect_loop ::
  "u32 \<Rightarrow> u32 \<Rightarrow> u32 \<Rightarrow> ('d, 'f) vmstate \<Rightarrow> (u32 \<times> ('d, 'f) vmstate) option" where
  "mprotect_loop prot a e st =
     (if a < e then
        (case protect_page prot a st of
           None \<Rightarrow> None
         | Some (Inl err, st) \<Rightarrow> Some (err, st)
         | Some (Inr _, st) \<Rightarrow> mprotect_loop prot (a + RISCV_PGSIZE) e st)
      else Some (0, st))"

definition do_mprotect ::
  "u32 \<Rightarrow> u32 \<Rightarrow> u32 \<Rightarrow> ('d, 'f) vmstate \<Rightarrow> (u32 \<times> ('d, 'f) vmstate) option" where
  "do_mprotect addr len prot st =
     (if addr AND (RISCV_PGSIZE - 1) \<noteq> 0 then Some (- VM_EINVAL, st)
      else mprotect_loop prot addr (addr + len) st)"

section \<open>Setting up\<close>

fun map_kernel_pages :: "nat \<Rightarrow> u32 \<Rightarrow> u32 \<Rightarrow> u32 \<Rightarrow> u32 \<Rightarrow> ('d, 'f) vmstate \<Rightarrow> ('d, 'f) vmstate option" where
  "map_kernel_pages 0 a vaddr paddr prot st = Some st"
| "map_kernel_pages (Suc n) a vaddr paddr prot st =
     (case walk_create a st of
        None \<Rightarrow> None
      | Some (p, st) \<Rightarrow>
          if p = 0 then None
          else
            (case pte_create (drop_bit 12 (a - vaddr + paddr)) prot False of
               None \<Rightarrow> None
             | Some pte \<Rightarrow> map_kernel_pages n (a + RISCV_PGSIZE) vaddr paddr prot (set_pte p pte st)))"

definition map_kernel_range ::
  "u32 \<Rightarrow> u32 \<Rightarrow> u32 \<Rightarrow> u32 \<Rightarrow> ('d, 'f) vmstate \<Rightarrow> ('d, 'f) vmstate option" where
  "map_kernel_range vaddr paddr len prot st =
     map_kernel_pages (unat (ROUNDUP len div RISCV_PGSIZE)) vaddr vaddr paddr prot st"

text \<open>The end of the firmware image, the number of harts and the memory size are its parameters.\<close>

definition vm_init :: "u32 \<Rightarrow> u32 \<Rightarrow> u32 \<Rightarrow> ('d, 'f) vmstate \<Rightarrow> ('d, 'f) vmstate" where
  "vm_init image_end num_harts mem_size st =
     (let mem_pages = drop_bit 12 mem_size;
          free = max 8 (drop_bit 9 mem_pages);
          ffp = mem_size - free * RISCV_PGSIZE
      in st\<lparr>first_free_paddr := ROUNDUP image_end + num_harts * RISCV_PGSIZE,
            free_pages := free, first_free_page := ffp, mmap_max := ffp, brk_max := ffp\<rparr>)"

definition CLAMP :: "u32 \<Rightarrow> u32 \<Rightarrow> u32 \<Rightarrow> u32" where "CLAMP a lo hi = min (max a lo) hi"

definition pk_vm_init ::
  "('d, 'f) fatfs \<Rightarrow> u32 \<Rightarrow> ('d, 'f) vmstate \<Rightarrow> (u32 \<times> ('d, 'f) vmstate) option" where
  "pk_vm_init E mem_size st =
     (let st = (if elf64 st then st else st\<lparr>mmap_max := min (mmap_max st) 0x80000000\<rparr>) in
      case map_kernel_range 0 0 (first_free_paddr st) (1 OR 2 OR 4) st of
        None \<Rightarrow> None
      | Some st \<Rightarrow>
          (case map_kernel_range (first_free_page st) (first_free_page st) (free_pages st * RISCV_PGSIZE) (1 OR 2) st of
             None \<Rightarrow> None
           | Some st \<Rightarrow>
               (let stack_size = RISCV_PGSIZE * CLAMP (mem_size div (RISCV_PGSIZE * 32)) 1 256 in
                case mmap_locked E (mmap_max st - stack_size) stack_size (1 OR 2 OR 4)
                       (MAP_PRIVATE OR MAP_ANONYMOUS OR MAP_FIXED) None 0 st of
                  None \<Rightarrow> None
                | Some (b, st) \<Rightarrow>
                    (let st = st\<lparr>stack_bottom := b, stack_top := b + stack_size\<rparr> in
                     if b = - 1 then None
                     else
                       (case page_alloc st of
                          None \<Rightarrow> None
                        | Some (p, st) \<Rightarrow> Some (p + RISCV_PGSIZE, st))))))"

section \<open>Pages and indices\<close>

definition page_aligned :: "u32 \<Rightarrow> bool" where "page_aligned p \<longleftrightarrow> unat p mod 4096 = 0"

definition same_page :: "u32 \<Rightarrow> u32 \<Rightarrow> bool" where "same_page a b \<longleftrightarrow> unat a div 4096 = unat b div 4096"

lemma page_multiple: "page_aligned p \<Longrightarrow> \<exists>q. unat p = 4096 * q \<and> q < 1048576"
proof -
  assume "page_aligned p"
  then obtain q where q: "unat p = 4096 * q" unfolding page_aligned_def by (metis mod_0_imp_dvd dvdE)
  with unat_lt_pow [of p] have "q < 1048576" by simp
  with q show ?thesis by blast
qed

lemma in_page: "page_aligned p \<Longrightarrow> (a - p < RISCV_PGSIZE) = same_page a p"
proof -
  assume "page_aligned p"
  then obtain q where q: "unat p = 4096 * q" "q < 1048576" using page_multiple by blast
  have s: "(a - p < RISCV_PGSIZE) = (unat (a - p) < 4096)" by (simp add: RISCV_PGSIZE_def word_less_nat_alt)
  have d: "same_page a p \<longleftrightarrow> unat a div 4096 = q" by (simp add: same_page_def q(1))
  show ?thesis
  proof (cases "unat p \<le> unat a")
    case True
    then have u: "unat (a - p) = unat a - 4096 * q" by (simp only: unat_sub_if' q(1)) simp
    have "unat a - 4096 * q < 4096 \<longleftrightarrow> unat a div 4096 = q"
    proof
      assume "unat a - 4096 * q < 4096"
      then show "unat a div 4096 = q" using True q(1) by (intro div_nat_eqI) simp_all
    next
      assume "unat a div 4096 = q"
      then have "unat a - 4096 * q = unat a mod 4096" by (metis minus_mult_div_eq_mod mult.commute)
      then show "unat a - 4096 * q < 4096" by simp
    qed
    then show ?thesis using s d u by simp
  next
    case False
    then have "unat (a - p) = unat a + 4294967296 - 4096 * q" by (simp only: unat_sub_if' q(1)) simp
    then have "unat (a - p) \<ge> 4096" using q(2) by linarith
    moreover have "unat a div 4096 < q" using False q(1) by (simp add: div_less_iff_less_mult mult.commute)
    ultimately show ?thesis using s d by simp
  qed
qed

lemma pt_idx_nat:
  "unat (pt_idx a 0) = unat a div 4096 mod 1024" "unat (pt_idx a 1) = unat a div 4096 div 1024"
proof -
  have m: "(0x3FF :: u32) = mask 10" by (simp add: mask_eq_exp_minus_1)
  have g: "unat (pt_idx a l) = unat a div 2 ^ (10 * l + 12) mod 1024" for l
  proof -
    have "unat (pt_idx a l) = take_bit 10 (unat (drop_bit (10 * l + 12) a))"
      unfolding pt_idx_def m take_bit_eq_mask [symmetric] by (rule unsigned_take_bit_eq)
    also have "unat (drop_bit (10 * l + 12) a) = drop_bit (10 * l + 12) (unat a)" by (rule unat_drop_bit_eq)
    finally show ?thesis by (simp add: drop_bit_eq_div take_bit_eq_mod)
  qed
  show "unat (pt_idx a 0) = unat a div 4096 mod 1024" by (simp add: g)
  have "unat a div 4194304 < 1024" using unat_lt_pow [of a] by (simp add: less_mult_imp_div_less)
  then show "unat (pt_idx a 1) = unat a div 4096 div 1024"
    using g [of 1] by (simp add: div_mult2_eq [symmetric])
qed

lemma pt_idx_less: "unat (pt_idx a 0) < 1024" "unat (pt_idx a 1) < 1024"
proof -
  show "unat (pt_idx a 0) < 1024" by (simp only: pt_idx_nat mod_less_divisor)
  have "unat a div 4194304 < 1024" using unat_lt_pow [of a] by (simp add: less_mult_imp_div_less)
  then show "unat (pt_idx a 1) < 1024" by (simp only: pt_idx_nat)
qed

lemma same_page_idx: "same_page a b \<longleftrightarrow> pt_idx a 1 = pt_idx b 1 \<and> pt_idx a 0 = pt_idx b 0"
proof -
  have "x = y" if "x div 1024 = y div 1024" "x mod 1024 = y mod 1024" for x y :: nat
  proof -
    have "x = x div 1024 * 1024 + x mod 1024" by (rule div_mult_mod_eq [symmetric])
    also have "\<dots> = y div 1024 * 1024 + y mod 1024" by (simp only: that)
    also have "\<dots> = y" by (rule div_mult_mod_eq)
    finally show ?thesis .
  qed
  then have iff: "x = y \<longleftrightarrow> x div 1024 = y div 1024 \<and> x mod 1024 = y mod 1024" for x y :: nat by blast
  show ?thesis unfolding same_page_def word_unat_eq_iff [of "pt_idx a _"] pt_idx_nat by (rule iff)
qed

lemma pte_addr_nat:
  assumes "page_aligned t" "unat i < 1024"
  shows "unat (pte_addr t i) = unat t + 4 * unat i"
proof -
  obtain q where q: "unat t = 4096 * q" "q < 1048576" using page_multiple [OF assms(1)] by blast
  have "unat (4 * i) = unat (4 :: u32) * unat i"
    using assms(2) by (intro unat_mult_lem [THEN iffD1]) simp
  then have f: "unat (4 * i) = 4 * unat i" by simp
  have "unat t + 4 * unat i < 4294967296" using q assms(2) by linarith
  then show ?thesis unfolding pte_addr_def unat_plus_if' f by simp
qed

lemma pte_addr_page:
  assumes "page_aligned t" "unat i < 1024"
  shows "same_page (pte_addr t i) t"
proof -
  obtain q where q: "unat t = 4096 * q" using page_multiple [OF assms(1)] by blast
  have "(4096 * q + 4 * unat i) div 4096 = q" using assms(2) by (intro div_nat_eqI) simp_all
  then show ?thesis unfolding same_page_def pte_addr_nat [OF assms] q by simp
qed

lemma aligned_eq: "page_aligned t \<Longrightarrow> page_aligned u \<Longrightarrow> same_page t u \<Longrightarrow> t = u"
  by (auto simp: same_page_def word_unat_eq_iff dest!: page_multiple)

lemma same_page_sym: "same_page a b \<Longrightarrow> same_page b a"
  by (simp add: same_page_def)

lemma same_page_trans: "same_page a b \<Longrightarrow> same_page b c \<Longrightarrow> same_page a c"
  by (simp add: same_page_def)

lemma pte_addr_inj:
  assumes "page_aligned t" "page_aligned u" "unat i < 1024" "unat j < 1024"
  shows "pte_addr t i = pte_addr u j \<longleftrightarrow> t = u \<and> i = j"
proof
  assume e: "pte_addr t i = pte_addr u j"
  have "same_page t u"
    using same_page_trans [OF same_page_sym [OF pte_addr_page [OF assms(1,3)]]] pte_addr_page [OF assms(2,4)]
    unfolding e by blast
  then have "t = u" using aligned_eq assms(1,2) by blast
  moreover have "unat t + 4 * unat i = unat u + 4 * unat j"
    using e pte_addr_nat [OF assms(1,3)] pte_addr_nat [OF assms(2,4)] by simp
  ultimately show "t = u \<and> i = j" by (simp add: word_unat_eq_iff)
qed simp

lemma aligned_bit: "page_aligned p \<Longrightarrow> n < 12 \<Longrightarrow> \<not> bit p n"
proof -
  assume "page_aligned p" "n < 12"
  then have "take_bit 12 (unat p) = 0" by (simp add: page_aligned_def take_bit_eq_mod)
  then have "\<not> bit (take_bit 12 (unat p)) n" by simp
  with \<open>n < 12\<close> show ?thesis by (simp add: bit_take_bit_iff bit_unsigned_iff)
qed

lemma ptd_page: "page_aligned p \<Longrightarrow> push_bit 12 (pte_ppn (ptd_create (ppn p))) = p"
proof (rule bit_word_eqI)
  fix n assume p: "page_aligned p" and "n < LENGTH(32)"
  with aligned_bit [OF p, of n] show "bit (push_bit 12 (pte_ppn (ptd_create (ppn p)))) n = bit p n"
    unfolding pte_ppn_def ptd_create_def ppn_def PTE_V_def
    by (cases "n < 12") (auto simp: bit_simps dest: bit_imp_le_length)
qed

lemma ptd_valid: "ptd_create x AND PTE_V \<noteq> 0"
proof
  assume "ptd_create x AND PTE_V = 0"
  moreover have "bit (ptd_create x AND PTE_V) 0" by (simp add: ptd_create_def PTE_V_def bit_simps)
  ultimately show False by simp
qed

lemma ptd_table: "PTE_TABLE (ptd_create x)"
proof -
  have m: "(0x1F :: u32) = mask 5" by (simp add: mask_eq_exp_minus_1)
  have "ptd_create x AND 0x1F = 1"
    unfolding m ptd_create_def PTE_V_def by (rule bit_eqI) (auto simp: bit_simps)
  then show ?thesis by (simp add: PTE_TABLE_def)
qed
section \<open>The page table as a map\<close>

text \<open>The pages handed out so far, and room for more.\<close>

definition pool :: "('d, 'f) vmstate \<Rightarrow> u32 \<Rightarrow> bool" where
  "pool st p \<longleftrightarrow> (\<exists>k < unat (next_free_page st). p = first_free_page st + RISCV_PGSIZE * of_nat k)"

definition frames_ok :: "('d, 'f) vmstate \<Rightarrow> bool" where
  "frames_ok st \<longleftrightarrow> page_aligned (first_free_page st) \<and> 4096 \<le> unat (first_free_page st) \<and>
     unat (first_free_page st) + 4096 * unat (free_pages st) \<le> 2 ^ 32 \<and> unat (next_free_page st) \<le> unat (free_pages st)"

definition room :: "('d, 'f) vmstate \<Rightarrow> nat \<Rightarrow> bool" where
  "room st n \<longleftrightarrow> unat (next_free_page st) + n \<le> unat (free_pages st)"

text \<open>The entries of the root table, and the second-level table behind a valid one.\<close>

definition root_entry :: "('d, 'f) vmstate \<Rightarrow> u32 \<Rightarrow> u32" where
  "root_entry st i = ptes st (pte_addr (root_page_table st) i)"

definition leaf_table :: "('d, 'f) vmstate \<Rightarrow> u32 \<Rightarrow> u32" where
  "leaf_table st i = push_bit 12 (pte_ppn (root_entry st i))"

text \<open>The page table is well formed: every valid root entry points to a table of its own.\<close>

definition pt_ok :: "('d, 'f) vmstate \<Rightarrow> bool" where
  "pt_ok st \<longleftrightarrow> frames_ok st \<and>
     (root_page_table st \<noteq> 0 \<longrightarrow> pool st (root_page_table st) \<and>
       (\<forall>i. unat i < 1024 \<longrightarrow> root_entry st i AND PTE_V \<noteq> 0 \<longrightarrow>
          (\<exists>p. pool st p \<and> p \<noteq> root_page_table st \<and> root_entry st i = ptd_create (ppn p))) \<and>
       (\<forall>i j. unat i < 1024 \<longrightarrow> unat j < 1024 \<longrightarrow> root_entry st i AND PTE_V \<noteq> 0 \<longrightarrow>
          root_entry st i = root_entry st j \<longrightarrow> i = j))"

text \<open>The map from addresses to entries that it represents, 0 where there is none.\<close>

definition lookup :: "('d, 'f) vmstate \<Rightarrow> u32 \<Rightarrow> u32" where
  "lookup st a =
     (if root_page_table st = 0 \<or> root_entry st (pt_idx a 1) AND PTE_V = 0 then 0
      else ptes st (pte_addr (leaf_table st (pt_idx a 1)) (pt_idx a 0)))"

definition slot :: "('d, 'f) vmstate \<Rightarrow> u32 \<Rightarrow> u32 \<Rightarrow> bool" where
  "slot st a p \<longleftrightarrow> root_page_table st \<noteq> 0 \<and> root_entry st (pt_idx a 1) AND PTE_V \<noteq> 0 \<and>
     p = pte_addr (leaf_table st (pt_idx a 1)) (pt_idx a 0)"

lemma frame_nat:
  assumes "frames_ok st" "k < unat (free_pages st)"
  shows "unat (first_free_page st + RISCV_PGSIZE * of_nat k) = unat (first_free_page st) + 4096 * k"
proof -
  have b: "unat (first_free_page st) + 4096 * unat (free_pages st) \<le> 4294967296" using assms(1) by (simp add: frames_ok_def)
  then have k: "unat (first_free_page st) + 4096 * k < 4294967296" using assms(2) by linarith
  have "RISCV_PGSIZE * of_nat k = of_nat (4096 * k)" by (simp add: RISCV_PGSIZE_def)
  moreover have "unat (of_nat (4096 * k) :: u32) = 4096 * k" using k by (intro unat_offset) simp
  ultimately show ?thesis using k by (simp only: unat_plus_if') simp
qed

lemma frame_aligned:
  assumes "frames_ok st" "k < unat (free_pages st)"
  shows "page_aligned (first_free_page st + RISCV_PGSIZE * of_nat k)" "first_free_page st + RISCV_PGSIZE * of_nat k \<noteq> 0"
proof -
  note n = frame_nat [OF assms]
  show "page_aligned (first_free_page st + RISCV_PGSIZE * of_nat k)"
    unfolding page_aligned_def n using assms(1) by (simp add: frames_ok_def page_aligned_def mod_add_eq)
  have "unat (first_free_page st + RISCV_PGSIZE * of_nat k) \<noteq> 0" unfolding n using assms(1) by (simp add: frames_ok_def)
  then show "first_free_page st + RISCV_PGSIZE * of_nat k \<noteq> 0" by force
qed

lemma pool_aligned: "frames_ok st \<Longrightarrow> pool st p \<Longrightarrow> page_aligned p \<and> p \<noteq> 0"
  unfolding pool_def using frame_aligned [of st] by (auto simp: frames_ok_def)

lemma pool_fresh:
  assumes "frames_ok st" "room st 1" "pool st p"
  shows "p \<noteq> first_free_page st + RISCV_PGSIZE * next_free_page st"
proof -
  from assms(3) obtain k where k: "k < unat (next_free_page st)" "p = first_free_page st + RISCV_PGSIZE * of_nat k"
    by (auto simp: pool_def)
  have l: "k < unat (free_pages st)" "unat (next_free_page st) < unat (free_pages st)" using k(1) assms(2) by (simp_all add: room_def)
  from frame_nat [OF assms(1) l(1)] frame_nat [OF assms(1) l(2)] k show ?thesis by auto
qed

lemma page_alloc_ok:
  assumes "frames_ok st" "room st 1"
  defines "pg \<equiv> first_free_page st + RISCV_PGSIZE * next_free_page st"
  shows "\<exists>st'. page_alloc st = Some (pg, st') \<and> page_aligned pg \<and> pg \<noteq> 0 \<and> frames_ok st' \<and>
    (\<forall>p. pool st' p \<longleftrightarrow> pool st p \<or> p = pg) \<and>
    st' = st\<lparr>next_free_page := next_free_page st + 1, ptes := (\<lambda>a. if same_page a pg then 0 else ptes st a),
             ram := zero_bytes pg RISCV_PGSIZE (ram st)\<rparr>"
proof -
  have l: "unat (next_free_page st) < unat (free_pages st)" using assms(2) by (simp add: room_def)
  then have n: "next_free_page st \<noteq> free_pages st" by auto
  have u: "unat (next_free_page st + 1) = unat (next_free_page st) + 1"
  proof -
    have "unat (free_pages st) < 4294967296" by simp
    with l have "unat (next_free_page st) + 1 < 4294967296" by linarith
    then show ?thesis by (simp add: unat_plus_if')
  qed
  have pg: "pg = first_free_page st + RISCV_PGSIZE * of_nat (unat (next_free_page st))" by (simp add: pg_def)
  note a = frame_aligned [OF assms(1) l, folded pg]
  let ?st' = "st\<lparr>next_free_page := next_free_page st + 1, ptes := (\<lambda>a. if same_page a pg then 0 else ptes st a),
             ram := zero_bytes pg RISCV_PGSIZE (ram st)\<rparr>"
  have "page_alloc st = Some (pg, ?st')" using n by (simp add: page_alloc_def pg_def [symmetric] in_page [OF a(1)])
  moreover have "frames_ok ?st'" using assms(1) l u by (simp add: frames_ok_def)
  moreover have "pool ?st' p \<longleftrightarrow> pool st p \<or> p = pg" for p
    unfolding pool_def pg by (auto simp: u less_Suc_eq)
  ultimately show ?thesis using a by blast
qed

lemma slot_lookup: "slot st a p \<Longrightarrow> ptes st p = lookup st a"
  by (simp add: slot_def lookup_def)

lemma pt_ok_leaf:
  assumes "pt_ok st" "root_page_table st \<noteq> 0" "unat i < 1024" "root_entry st i AND PTE_V \<noteq> 0"
  shows "pool st (leaf_table st i)" "page_aligned (leaf_table st i)" "leaf_table st i \<noteq> root_page_table st"
    "leaf_table st i \<noteq> 0" "root_entry st i = ptd_create (ppn (leaf_table st i))"
proof -
  obtain p where p: "pool st p" "p \<noteq> root_page_table st" "root_entry st i = ptd_create (ppn p)"
    using assms unfolding pt_ok_def by blast
  have f: "frames_ok st" using assms(1) by (simp add: pt_ok_def)
  then have "page_aligned p \<and> p \<noteq> 0" using p(1) by (rule pool_aligned)
  moreover from this have "leaf_table st i = p" unfolding leaf_table_def p(3) by (simp add: ptd_page)
  ultimately show "pool st (leaf_table st i)" "page_aligned (leaf_table st i)" "leaf_table st i \<noteq> root_page_table st"
    "leaf_table st i \<noteq> 0" "root_entry st i = ptd_create (ppn (leaf_table st i))" using p by simp_all
qed

lemma pt_ok_root: "pt_ok st \<Longrightarrow> root_page_table st \<noteq> 0 \<Longrightarrow> page_aligned (root_page_table st)"
  using pool_aligned unfolding pt_ok_def by blast

lemma slot_nonzero:
  assumes "pt_ok st" "slot st a p"
  shows "p \<noteq> 0"
proof -
  have v: "root_page_table st \<noteq> 0" "root_entry st (pt_idx a 1) AND PTE_V \<noteq> 0"
    and p: "p = pte_addr (leaf_table st (pt_idx a 1)) (pt_idx a 0)" using assms(2) by (auto simp: slot_def)
  note l = pt_ok_leaf [OF assms(1) v(1) pt_idx_less(2) v(2)]
  have "unat p \<noteq> 0"
    unfolding p pte_addr_nat [OF l(2) pt_idx_less(1)] using l(4) by (simp add: unat_eq_0)
  then show ?thesis by force
qed

text \<open>Storing into the entry of an address updates the map at its page and nowhere else.\<close>

lemma slot_set:
  assumes "pt_ok st" "slot st a p"
  shows "pt_ok (set_pte p v st)" "lookup (set_pte p v st) b = (if same_page b a then v else lookup st b)"
    "slot st b q \<Longrightarrow> slot (set_pte p v st) b q"
proof -
  have r: "root_page_table st \<noteq> 0" and w: "root_entry st (pt_idx a 1) AND PTE_V \<noteq> 0"
    and p: "p = pte_addr (leaf_table st (pt_idx a 1)) (pt_idx a 0)" using assms(2) by (auto simp: slot_def)
  note la = pt_ok_leaf [OF assms(1) r pt_idx_less(2) w]
  have e: "root_entry (set_pte p v st) i = root_entry st i" if "unat i < 1024" for i
    using pte_addr_inj [OF pt_ok_root [OF assms(1) r] la(2) that pt_idx_less(1) [of a]] la(3)
    by (simp add: root_entry_def set_pte_def p)
  have l: "leaf_table (set_pte p v st) i = leaf_table st i" if "unat i < 1024" for i
    by (simp add: leaf_table_def e that)
  have f: "frames_ok (set_pte p v st) = frames_ok st" "pool (set_pte p v st) = pool st"
    "root_page_table (set_pte p v st) = root_page_table st"
    by (auto simp: frames_ok_def pool_def set_pte_def fun_eq_iff)
  show "pt_ok (set_pte p v st)"
    using assms(1) e unfolding pt_ok_def f by (metis (no_types, lifting))
  show "lookup (set_pte p v st) b = (if same_page b a then v else lookup st b)"
  proof (cases "root_entry st (pt_idx b 1) AND PTE_V = 0")
    case True
    then have "\<not> same_page b a" using w by (auto simp: same_page_idx)
    with True show ?thesis by (simp add: lookup_def f e pt_idx_less del: One_nat_def)
  next
    case False
    note lb = pt_ok_leaf [OF assms(1) r pt_idx_less(2) False]
    have "pte_addr (leaf_table st (pt_idx b 1)) (pt_idx b 0) = p \<longleftrightarrow> same_page b a"
      unfolding p pte_addr_inj [OF lb(2) la(2) pt_idx_less(1) pt_idx_less(1)] same_page_idx
    proof
      assume x: "leaf_table st (pt_idx b 1) = leaf_table st (pt_idx a 1) \<and> pt_idx b 0 = pt_idx a 0"
      then have "root_entry st (pt_idx b 1) = root_entry st (pt_idx a 1)" using la(5) lb(5) by simp
      then have "pt_idx b 1 = pt_idx a 1"
        using assms(1) r False pt_idx_less(2) unfolding pt_ok_def by blast
      with x show "pt_idx b 1 = pt_idx a 1 \<and> pt_idx b 0 = pt_idx a 0" by simp
    qed simp
    with False show ?thesis by (simp add: lookup_def f e l r pt_idx_less del: One_nat_def) (auto simp: set_pte_def)
  qed
  show "slot (set_pte p v st) b q" if "slot st b q"
    using that by (simp add: slot_def f e l pt_idx_less del: One_nat_def)
qed
section \<open>Walking the table\<close>

text \<open>What a walk leaves alone.\<close>

definition same_rest :: "('d, 'f) vmstate \<Rightarrow> ('d, 'f) vmstate \<Rightarrow> bool" where
  "same_rest st st' \<longleftrightarrow> first_free_page st' = first_free_page st \<and> free_pages st' = free_pages st \<and>
     vmrs_ptr st' = vmrs_ptr st \<and> vmrs st' = vmrs st \<and> fs st' = fs st \<and> have_vm st' = have_vm st \<and>
     brk st' = brk st \<and> brk_min st' = brk_min st \<and> brk_max st' = brk_max st \<and> mmap_max st' = mmap_max st \<and>
     first_free_paddr st' = first_free_paddr st"

lemma same_rest_refl [simp]: "same_rest st st"
  by (simp add: same_rest_def)

lemma same_rest_trans: "same_rest st st' \<Longrightarrow> same_rest st' st'' \<Longrightarrow> same_rest st st''"
  by (simp add: same_rest_def)

lemma same_rest_set_pte [simp]: "same_rest st (set_pte p v st') = same_rest st st'"
  by (simp add: same_rest_def set_pte_def)

lemma unat_Suc_le: "unat (n + 1 :: u32) \<le> unat n + 1"
  by (simp only: unat_word_ariths(1) unat_1 mod_less_eq_dividend)

lemma root_created:
  assumes "pt_ok st" "root_page_table st = 0" "room st 1"
  shows "\<exists>st'. maybe_create_root_page_table st = Some st' \<and> pt_ok st' \<and> root_page_table st' \<noteq> 0 \<and>
    (\<forall>b. lookup st' b = lookup st b) \<and> same_rest st st' \<and> unat (next_free_page st') \<le> unat (next_free_page st) + 1"
proof -
  have f: "frames_ok st" using assms(1) by (simp add: pt_ok_def)
  obtain pg st1 where a: "page_alloc st = Some (pg, st1)" "page_aligned pg" "pg \<noteq> 0" "frames_ok st1"
    "\<forall>p. pool st1 p \<longleftrightarrow> pool st p \<or> p = pg"
    "st1 = st\<lparr>next_free_page := next_free_page st + 1, ptes := (\<lambda>a. if same_page a pg then 0 else ptes st a),
       ram := zero_bytes pg RISCV_PGSIZE (ram st)\<rparr>"
    using page_alloc_ok [OF f assms(3)] by blast
  define st' where "st' = (if have_vm st1 then st1\<lparr>root_page_table := pg, sptbr := pg\<rparr> else st1\<lparr>root_page_table := pg\<rparr>)"
  have s: "root_page_table st' = pg" "ptes st' = ptes st1" "frames_ok st'" "pool st' = pool st1" "same_rest st st'"
    "next_free_page st' = next_free_page st + 1"
    using a(4,6) by (auto simp: st'_def frames_ok_def pool_def fun_eq_iff same_rest_def)
  have z: "root_entry st' i = 0" if "unat i < 1024" for i
    using pte_addr_page [OF a(2) that] by (simp add: root_entry_def s a(6))
  have "maybe_create_root_page_table st = Some st'" using assms(2) a(1) by (simp add: maybe_create_root_page_table_def st'_def)
  moreover have "pt_ok st'" using a(5) s(1,3,4) z by (auto simp: pt_ok_def)
  moreover have "lookup st' b = lookup st b" for b
    using assms(2) z [OF pt_idx_less(2)] by (simp add: lookup_def del: One_nat_def)
  moreover have "unat (next_free_page st + 1) \<le> unat (next_free_page st) + 1" by (rule unat_Suc_le)
  ultimately show ?thesis using s a(3) by auto
qed

lemma root_ready: "root_page_table st \<noteq> 0 \<Longrightarrow> maybe_create_root_page_table st = Some st"
  by (simp add: maybe_create_root_page_table_def)

lemma two_levels: "((32 - 12) div 10 - 1 :: nat) = Suc 0"
  by simp

lemma walk_found:
  assumes "pt_ok st" "root_page_table st \<noteq> 0" "root_entry st (pt_idx a 1) AND PTE_V \<noteq> 0"
  shows "walk_levels (Suc 0) c a (root_page_table st) st = Some (pte_addr (leaf_table st (pt_idx a 1)) (pt_idx a 0), st)"
    "slot st a (pte_addr (leaf_table st (pt_idx a 1)) (pt_idx a 0))"
proof -
  have "PTE_TABLE (root_entry st (pt_idx a 1))"
    using ptd_table pt_ok_leaf(5) [OF assms(1,2) pt_idx_less(2) assms(3)] by metis
  then show "walk_levels (Suc 0) c a (root_page_table st) st = Some (pte_addr (leaf_table st (pt_idx a 1)) (pt_idx a 0), st)"
    using assms(3) by (simp add: Let_def leaf_table_def root_entry_def)
  show "slot st a (pte_addr (leaf_table st (pt_idx a 1)) (pt_idx a 0))" using assms(2,3) by (simp add: slot_def)
qed

text \<open>A new second-level table: the map does not change.\<close>

lemma leaf_created:
  assumes "pt_ok st" "root_page_table st \<noteq> 0" "root_entry st (pt_idx a 1) AND PTE_V = 0" "room st 1"
  shows "\<exists>p st'. walk_levels (Suc 0) True a (root_page_table st) st = Some (p, st') \<and> pt_ok st' \<and> slot st' a p \<and>
    (\<forall>b. lookup st' b = lookup st b) \<and> same_rest st st' \<and> unat (next_free_page st') \<le> unat (next_free_page st) + 1"
proof -
  have f: "frames_ok st" using assms(1) by (simp add: pt_ok_def)
  let ?root = "root_page_table st"
  have rp: "pool st ?root" "page_aligned ?root" using assms(1,2) pt_ok_root by (auto simp: pt_ok_def)
  obtain pg st1 where a: "page_alloc st = Some (pg, st1)" "page_aligned pg" "pg \<noteq> 0" "frames_ok st1"
    "\<forall>p. pool st1 p \<longleftrightarrow> pool st p \<or> p = pg"
    "st1 = st\<lparr>next_free_page := next_free_page st + 1, ptes := (\<lambda>a. if same_page a pg then 0 else ptes st a),
       ram := zero_bytes pg RISCV_PGSIZE (ram st)\<rparr>"
    and pg: "pg = first_free_page st + RISCV_PGSIZE * next_free_page st"
    using page_alloc_ok [OF f assms(4)] by blast
  have new: "p \<noteq> pg" if "pool st p" for p using pool_fresh [OF f assms(4) that] pg by simp
  let ?e = "pte_addr ?root (pt_idx a 1)"
  define st' where "st' = set_pte ?e (ptd_create (ppn pg)) st1"
  have s: "root_page_table st' = ?root" "frames_ok st'" "pool st' = pool st1" "same_rest st st'"
    "next_free_page st' = next_free_page st + 1"
    using a(4,6) by (auto simp: st'_def set_pte_def frames_ok_def pool_def fun_eq_iff same_rest_def)
  have pt: "ptes st' x = (if x = ?e then ptd_create (ppn pg) else if same_page x pg then 0 else ptes st x)" for x
    by (simp add: st'_def set_pte_def a(6))
  have e: "root_entry st' i = (if i = pt_idx a 1 then ptd_create (ppn pg) else root_entry st i)" if "unat i < 1024" for i
  proof -
    have "pte_addr ?root i = ?e \<longleftrightarrow> i = pt_idx a 1"
      using pte_addr_inj [OF rp(2) rp(2) that pt_idx_less(2) [of a]] by blast
    moreover have "\<not> same_page (pte_addr ?root i) pg"
      using aligned_eq [OF rp(2) a(2)] new [OF rp(1)] same_page_trans [OF same_page_sym [OF pte_addr_page [OF rp(2) that]]] by blast
    ultimately show ?thesis by (simp add: root_entry_def s pt)
  qed
  have v: "root_entry st' (pt_idx a 1) = ptd_create (ppn pg)" by (simp add: e pt_idx_less del: One_nat_def)
  have lp: "leaf_table st' (pt_idx a 1) = pg" by (simp add: leaf_table_def v ptd_page a(2) del: One_nat_def)
  have w: "walk_levels (Suc 0) True a ?root st = Some (pte_addr pg (pt_idx a 0), st')"
  proof -
    have "ptes (set_pte ?e (ptd_create (ppn pg)) st1) ?e = ptd_create (ppn pg)" by (simp add: set_pte_def)
    then show ?thesis
      using assms(3) a(1) ptd_page [OF a(2)] by (simp add: Let_def root_entry_def st'_def)
  qed
  have other: "root_entry st i \<noteq> ptd_create (ppn pg)" if "unat i < 1024" "root_entry st i AND PTE_V \<noteq> 0" for i
  proof
    assume x: "root_entry st i = ptd_create (ppn pg)"
    then have "leaf_table st i = pg" by (simp add: leaf_table_def ptd_page a(2))
    then show False using new pt_ok_leaf(1) [OF assms(1,2) that] by blast
  qed
  have t: "pt_ok st'"
    unfolding pt_ok_def s
  proof (intro conjI impI allI)
    show "frames_ok st'" by (rule s)
    show "pool st1 ?root" using rp a(5) by blast
  next
    fix i assume i: "unat i < 1024" "root_entry st' i AND PTE_V \<noteq> 0"
    show "\<exists>p. pool st1 p \<and> p \<noteq> ?root \<and> root_entry st' i = ptd_create (ppn p)"
    proof (cases "i = pt_idx a 1")
      case True
      with v a(5) new [OF rp(1)] show ?thesis by auto
    next
      case False
      with i have "root_entry st i AND PTE_V \<noteq> 0" by (simp add: e)
      with i(1) assms(1,2) obtain p where "pool st p" "p \<noteq> ?root" "root_entry st i = ptd_create (ppn p)"
        unfolding pt_ok_def by blast
      with False i(1) a(5) show ?thesis by (auto simp: e)
    qed
  next
    fix i j assume ij: "unat i < 1024" "unat j < 1024" "root_entry st' i AND PTE_V \<noteq> 0" "root_entry st' i = root_entry st' j"
    show "i = j"
    proof (cases "i = pt_idx a 1 \<or> j = pt_idx a 1")
      case True
      then show ?thesis using ij other [of i] other [of j] ptd_valid by (auto simp: e split: if_splits)
    next
      case False
      then show ?thesis using ij assms(1,2) unfolding pt_ok_def by (simp add: e)
    qed
  qed
  have l: "lookup st' b = lookup st b" for b
  proof (cases "pt_idx b 1 = pt_idx a 1")
    case True
    have ne: "pte_addr pg (pt_idx b 0) \<noteq> ?e"
      using pte_addr_inj [OF a(2) rp(2) pt_idx_less(1) [of b] pt_idx_less(2) [of a]] new [OF rp(1)] by simp
    have "lookup st' b = 0"
      using ne pte_addr_page [OF a(2) pt_idx_less(1) [of b]] by (simp add: lookup_def True lp pt del: One_nat_def)
    then show ?thesis using assms(3) by (simp add: lookup_def True del: One_nat_def)
  next
    case False
    then have eb: "root_entry st' (pt_idx b 1) = root_entry st (pt_idx b 1)" by (simp add: e pt_idx_less del: One_nat_def)
    then have lb: "leaf_table st' (pt_idx b 1) = leaf_table st (pt_idx b 1)" by (simp add: leaf_table_def)
    show ?thesis
    proof (cases "root_entry st (pt_idx b 1) AND PTE_V = 0")
      case True
      then show ?thesis by (simp add: lookup_def eb del: One_nat_def)
    next
      case v: False
      note k = pt_ok_leaf [OF assms(1,2) pt_idx_less(2) v]
      have "pte_addr (leaf_table st (pt_idx b 1)) (pt_idx b 0) \<noteq> ?e"
        using pte_addr_inj [OF k(2) rp(2) pt_idx_less(1) [of b] pt_idx_less(2) [of a]] k(3) by simp
      moreover have "\<not> same_page (pte_addr (leaf_table st (pt_idx b 1)) (pt_idx b 0)) pg"
        using aligned_eq [OF k(2) a(2)] new [OF k(1)] same_page_trans [OF same_page_sym [OF pte_addr_page [OF k(2) pt_idx_less(1)]]] by blast
      ultimately show ?thesis by (simp add: lookup_def eb lb s pt del: One_nat_def)
    qed
  qed
  have "slot st' a (pte_addr pg (pt_idx a 0))"
    using assms(2) ptd_valid by (simp add: slot_def s v lp del: One_nat_def)
  moreover have "unat (next_free_page st + 1) \<le> unat (next_free_page st) + 1" by (rule unat_Suc_le)
  ultimately show ?thesis using w t l s by auto
qed
lemma walk_create_ok:
  assumes "pt_ok st" "room st (if root_page_table st = 0 then 2 else 1)"
  shows "\<exists>p st'. walk_create a st = Some (p, st') \<and> pt_ok st' \<and> slot st' a p \<and> p \<noteq> 0 \<and>
    (\<forall>b. lookup st' b = lookup st b) \<and> same_rest st st' \<and>
    unat (next_free_page st') \<le> unat (next_free_page st) + (if root_page_table st = 0 then 2 else 1)"
proof -
  obtain st1 where r: "maybe_create_root_page_table st = Some st1" "pt_ok st1" "root_page_table st1 \<noteq> 0"
    "\<forall>b. lookup st1 b = lookup st b" "same_rest st st1" "room st1 1"
    "unat (next_free_page st1) \<le> unat (next_free_page st) + (if root_page_table st = 0 then 1 else 0)"
  proof (cases "root_page_table st = 0")
    case True
    with root_created [OF assms(1) True] assms(2) that show thesis
      by (fastforce simp: room_def same_rest_def)
  next
    case False
    with assms that root_ready [of st] show thesis by simp
  qed
  have w: "walk_create a st = walk_levels (Suc 0) True a (root_page_table st1) st1"
    by (simp only: walk_create_def walk_internal_def r(1) two_levels option.case)
  have "\<exists>p st'. walk_levels (Suc 0) True a (root_page_table st1) st1 = Some (p, st') \<and> pt_ok st' \<and> slot st' a p \<and>
    (\<forall>b. lookup st' b = lookup st1 b) \<and> same_rest st1 st' \<and> unat (next_free_page st') \<le> unat (next_free_page st1) + 1"
  proof (cases "root_entry st1 (pt_idx a 1) AND PTE_V = 0")
    case True
    then show ?thesis by (rule leaf_created [OF r(2,3) _ r(6)])
  next
    case False
    show ?thesis
      by (intro exI conjI allI, rule walk_found(1) [OF r(2,3) False], rule r(2), rule walk_found(2) [OF r(2,3) False]) simp_all
  qed
  then obtain p st' where p: "walk_levels (Suc 0) True a (root_page_table st1) st1 = Some (p, st')" "pt_ok st'" "slot st' a p"
    "\<forall>b. lookup st' b = lookup st1 b" "same_rest st1 st'" "unat (next_free_page st') \<le> unat (next_free_page st1) + 1"
    by blast
  have "unat (next_free_page st') \<le> unat (next_free_page st) + (if root_page_table st = 0 then 2 else 1)"
    using p(6) r(7) by (auto split: if_splits)
  with p r w same_rest_trans [OF r(5) p(5)] slot_nonzero [OF p(2,3)] show ?thesis by auto
qed

lemma walk_ok:
  assumes "pt_ok st" "root_page_table st \<noteq> 0"
  obtains "walk a st = Some (0, st)" "lookup st a = 0"
  | p where "walk a st = Some (p, st)" "p \<noteq> 0" "slot st a p"
proof -
  have w: "walk a st = walk_levels (Suc 0) False a (root_page_table st) st"
    by (simp only: walk_def walk_internal_def root_ready [OF assms(2)] two_levels option.case)
  show thesis
  proof (cases "root_entry st (pt_idx a 1) AND PTE_V = 0")
    case True
    then have "walk a st = Some (0, st)" unfolding w by (simp add: Let_def root_entry_def)
    moreover have "lookup st a = 0" using True by (simp add: lookup_def del: One_nat_def)
    ultimately show thesis by (rule that(1))
  next
    case False
    note f = walk_found [OF assms False]
    show thesis using that(2) f slot_nonzero [OF assms(1) f(2)] unfolding w by blast
  qed
qed

text \<open>C17: The two-level page table implements a map from pages to entries: walking to an address creates the
  tables it needs without changing the map, and storing an entry through the pointer found updates the map
  at the page of the address and nowhere else, with the table still well formed.\<close>

theorem page_table_map:
  assumes "pt_ok st" "room st 2"
  shows "\<exists>p st'. walk_create a st = Some (p, st') \<and> ptes st' p = lookup st a \<and> pt_ok (set_pte p v st') \<and>
    (\<forall>b. lookup (set_pte p v st') b = (if same_page b a then v else lookup st b))"
proof -
  have "room st (if root_page_table st = 0 then 2 else 1)" using assms(2) by (simp add: room_def)
  from walk_create_ok [OF assms(1) this, of a] obtain p st' where "walk_create a st = Some (p, st')" "pt_ok st'"
    "slot st' a p" "\<forall>b. lookup st' b = lookup st b" by blast
  then show ?thesis using slot_set [of st' a p v] slot_lookup [of st' a p] by auto
qed

section \<open>Loops over pages\<close>

lemma for_pages_rule:
  assumes "unat e \<le> 4294963200" "page_aligned a" "I (unat a) s"
    and step: "\<And>x s. page_aligned x \<Longrightarrow> x < e \<Longrightarrow> I (unat x) s \<Longrightarrow> \<exists>s'. body x s = Some s' \<and> I (unat x + 4096) s'"
  shows "\<exists>s' y. for_pages body a e s = Some s' \<and> I y s' \<and> unat e \<le> y \<and> y mod 4096 = 0 \<and> (y = unat a \<or> y < unat e + 4096)"
  using assms(2,3)
proof (induction "unat e - unat a" arbitrary: a s rule: less_induct)
  case less
  show ?case
  proof (cases "a < e")
    case False
    then have "for_pages body a e s = Some s" by (simp add: for_pages.simps)
    with False less.prems show ?thesis by (auto simp: word_less_nat_alt page_aligned_def)
  next
    case True
    then obtain s' where s': "body a s = Some s'" "I (unat a + 4096) s'" using step less.prems by blast
    have u: "unat (a + RISCV_PGSIZE) = unat a + 4096"
    proof -
      have "unat a + 4096 < 4294967296" using True assms(1) by (simp add: word_less_nat_alt)
      then show ?thesis by (simp add: RISCV_PGSIZE_def unat_plus_if')
    qed
    have "page_aligned (a + RISCV_PGSIZE)" using less.prems(1) by (simp add: page_aligned_def u)
    moreover have "unat e - unat (a + RISCV_PGSIZE) < unat e - unat a" using True u by (simp add: word_less_nat_alt)
    moreover have "I (unat (a + RISCV_PGSIZE)) s'" using s'(2) by (simp only: u)
    ultimately have "\<exists>s'' y. for_pages body (a + RISCV_PGSIZE) e s' = Some s'' \<and> I y s'' \<and> unat e \<le> y \<and>
      y mod 4096 = 0 \<and> (y = unat (a + RISCV_PGSIZE) \<or> y < unat e + 4096)"
      by (intro less.hyps) simp_all
    then obtain s'' y where y: "for_pages body (a + RISCV_PGSIZE) e s' = Some s''" "I y s''" "unat e \<le> y"
      "y mod 4096 = 0" "y = unat (a + RISCV_PGSIZE) \<or> y < unat e + 4096"
      by (elim exE conjE) (rule that)
    have "for_pages body a e s = Some s''" using True s'(1) y(1) by (subst for_pages.simps) simp
    moreover have "y < unat e + 4096" using y(5) u True by (auto simp: word_less_nat_alt)
    ultimately show ?thesis using y by (intro exI [of _ s''] exI [of _ y]) simp
  qed
qed

text \<open>An address whose page begins inside a range.\<close>

definition in_range :: "u32 \<Rightarrow> u32 \<Rightarrow> u32 \<Rightarrow> bool" where
  "in_range addr len b \<longleftrightarrow> unat addr \<le> unat b \<and> unat b div 4096 * 4096 < unat addr + unat len"

lemma range_end:
  fixes b e y :: nat
  assumes "y mod 4096 = 0" "e \<le> y" "y < e + 4096"
  shows "b < y \<longleftrightarrow> b div 4096 * 4096 < e"
proof -
  obtain q where q: "y = 4096 * q" using assms(1) by (metis mod_0_imp_dvd dvdE)
  have "b < 4096 * q \<longleftrightarrow> b div 4096 < q" by (simp add: div_less_iff_less_mult mult.commute)
  also have "\<dots> \<longleftrightarrow> b div 4096 * 4096 < e"
  proof
    assume "b div 4096 < q"
    then have "b div 4096 + 1 \<le> q" by simp
    then have "(b div 4096 + 1) * 4096 \<le> q * 4096" by (rule mult_le_mono1)
    moreover have "z * 4096 < e" if "(z + 1) * 4096 \<le> q * 4096" for z using that assms(3) q by simp
    ultimately show "b div 4096 * 4096 < e" by blast
  next
    assume "b div 4096 * 4096 < e"
    then have "b div 4096 * 4096 < q * 4096" using assms(2) q by linarith
    then show "b div 4096 < q" by simp
  qed
  finally show ?thesis using q by simp
qed

lemma page_interval:
  assumes "page_aligned x"
  shows "same_page b x \<longleftrightarrow> unat x \<le> unat b \<and> unat b < unat x + 4096"
proof -
  obtain q where q: "unat x = 4096 * q" using page_multiple [OF assms] by blast
  have "unat b div 4096 = q \<longleftrightarrow> 4096 * q \<le> unat b \<and> unat b < 4096 * q + 4096"
  proof
    assume "unat b div 4096 = q"
    then show "4096 * q \<le> unat b \<and> unat b < 4096 * q + 4096"
      using mult_div_mod_eq [of 4096 "unat b"] mod_less_divisor [of 4096 "unat b"] by linarith
  next
    assume "4096 * q \<le> unat b \<and> unat b < 4096 * q + 4096"
    then show "unat b div 4096 = q" by (intro div_nat_eqI) simp_all
  qed
  then show ?thesis by (simp add: same_page_def q)
qed

section \<open>Unmapping, mapping and faults over the map\<close>

definition mapped :: "('d, 'f) vmstate \<Rightarrow> bool" where
  "mapped st \<longleftrightarrow> pt_ok st \<and> root_page_table st \<noteq> 0"

text \<open>The fields that none of these operations changes, and those the page table depends on.\<close>

definition same_conf :: "('d, 'f) vmstate \<Rightarrow> ('d, 'f) vmstate \<Rightarrow> bool" where
  "same_conf st st' \<longleftrightarrow> first_free_page st' = first_free_page st \<and> free_pages st' = free_pages st \<and>
     vmrs_ptr st' = vmrs_ptr st \<and> have_vm st' = have_vm st \<and> brk st' = brk st \<and> brk_min st' = brk_min st \<and>
     brk_max st' = brk_max st \<and> mmap_max st' = mmap_max st \<and> first_free_paddr st' = first_free_paddr st"

lemma same_conf_refl [simp]: "same_conf st st"
  by (simp add: same_conf_def)

lemma same_conf_trans: "same_conf st st' \<Longrightarrow> same_conf st' st'' \<Longrightarrow> same_conf st st''"
  by (simp add: same_conf_def)

lemma same_rest_conf: "same_rest st st' \<Longrightarrow> same_conf st st'"
  by (simp add: same_rest_def same_conf_def)

lemma same_conf_set_pte [simp]: "same_conf st (set_pte p v st') = same_conf st st'"
  by (simp add: same_conf_def set_pte_def)

lemma lookup_page: "same_page b a \<Longrightarrow> lookup st b = lookup st a"
  by (simp add: same_page_idx lookup_def del: One_nat_def)

lemma pt_same:
  assumes "ptes st' = ptes st" "root_page_table st' = root_page_table st" "next_free_page st' = next_free_page st"
    "first_free_page st' = first_free_page st" "free_pages st' = free_pages st"
  shows "pt_ok st' = pt_ok st" "lookup st' = lookup st" "slot st' = slot st" "room st' = room st"
    "root_entry st' = root_entry st" "leaf_table st' = leaf_table st"
proof -
  show r: "root_entry st' = root_entry st" by (simp add: root_entry_def fun_eq_iff assms)
  show l: "leaf_table st' = leaf_table st" by (simp add: leaf_table_def fun_eq_iff r)
  have p: "pool st' = pool st" "frames_ok st' = frames_ok st" by (simp_all add: pool_def frames_ok_def fun_eq_iff assms)
  show "pt_ok st' = pt_ok st" by (simp add: pt_ok_def r p assms)
  show "lookup st' = lookup st" by (simp add: lookup_def fun_eq_iff r l assms)
  show "slot st' = slot st" by (simp add: slot_def fun_eq_iff r l assms)
  show "room st' = room st" by (simp add: room_def fun_eq_iff assms)
qed

lemma vmr_decref_fields [simp]:
  "ptes (vmr_decref E i n st) = ptes st" "root_page_table (vmr_decref E i n st) = root_page_table st"
  "next_free_page (vmr_decref E i n st) = next_free_page st" "first_free_page (vmr_decref E i n st) = first_free_page st"
  "free_pages (vmr_decref E i n st) = free_pages st" "same_conf st' (vmr_decref E i n st) = same_conf st' st"
  "ram (vmr_decref E i n st) = ram st"
  by (auto simp: vmr_decref_def Let_def same_conf_def split: option.splits)

lemma set_pte_fields [simp]:
  "root_page_table (set_pte p v st) = root_page_table st" "next_free_page (set_pte p v st) = next_free_page st"
  "ptes (set_pte p v st) q = (if q = p then v else ptes st q)" "ram (set_pte p v st) = ram st"
  "vmrs (set_pte p v st) = vmrs st" "fs (set_pte p v st) = fs st" "vmrs_ptr (set_pte p v st) = vmrs_ptr st"
  by (simp_all add: set_pte_def)

lemmas vmr_decref_pt = pt_same [OF vmr_decref_fields(1-5)]

lemma unmap_page_ok:
  assumes "mapped st"
  shows "\<exists>st'. unmap_page E a st = Some st' \<and> mapped st' \<and> same_conf st st' \<and> next_free_page st' = next_free_page st \<and>
    (\<forall>b. lookup st' b = (if same_page b a then 0 else lookup st b)) \<and> (\<forall>b q. slot st b q \<longrightarrow> slot st' b q)"
proof -
  from assms have t: "pt_ok st" "root_page_table st \<noteq> 0" by (simp_all add: mapped_def)
  show ?thesis
  proof (cases rule: walk_ok [OF t, of a])
    case 1
    then show ?thesis using assms lookup_page [of _ a st] by (auto simp: unmap_page_def)
  next
    case (2 p)
    show ?thesis
    proof (cases "ptes st p = 0")
      case True
      with 2 slot_lookup [OF 2(3)] have "lookup st a = 0" by simp
      with True 2 show ?thesis using assms lookup_page [of _ a st] by (auto simp: unmap_page_def)
    next
      case False
      define st1 where "st1 = (if ptes st p AND PTE_V = 0 then vmr_decref E (vmr_index st (ptes st p)) 1 st else st)"
      have u: "unmap_page E a st = Some (set_pte p 0 st1)" using 2(1,2) False by (simp add: unmap_page_def st1_def)
      have s: "pt_ok st1" "slot st1 = slot st" "lookup st1 = lookup st" "root_page_table st1 = root_page_table st"
        "same_conf st st1" "next_free_page st1 = next_free_page st"
        using t by (auto simp: st1_def vmr_decref_pt)
      have p: "slot st1 a p" using 2(3) s(2) by simp
      show ?thesis using u s t slot_set(1,2) [OF s(1) p, of 0] slot_set(3) [OF s(1) p] by (simp add: mapped_def)
    qed
  qed
qed

lemma aligned_mask: "addr AND (RISCV_PGSIZE - 1) = 0 \<longleftrightarrow> page_aligned addr"
proof -
  have "RISCV_PGSIZE - 1 = mask 12" by (simp add: RISCV_PGSIZE_def mask_eq_exp_minus_1)
  then have "addr AND (RISCV_PGSIZE - 1) = take_bit 12 addr" by (simp only: take_bit_eq_mask)
  moreover have "take_bit 12 addr = 0 \<longleftrightarrow> unat (take_bit 12 addr) = unat (0 :: u32)" by (simp only: word_unat_eq_iff)
  moreover have "unat (take_bit 12 addr) = take_bit 12 (unat addr)" by (rule unsigned_take_bit_eq)
  moreover have "take_bit 12 (unat addr) = unat addr mod 4096" by (simp add: take_bit_eq_mod)
  ultimately show ?thesis by (simp only: page_aligned_def unat_0)
qed

lemma user_range_sum:
  assumes "valid_user_range st addr len"
  shows "unat (addr + len) = unat addr + unat len" "unat addr + unat len \<le> unat (mmap_max st)"
proof -
  show s: "unat (addr + len) = unat addr + unat len"
    using assms by (simp add: valid_user_range_def no_olen_add_nat [symmetric] no_plus_overflow_uint_size not_less unat_plus_simple [THEN iffD1])
  from assms have "addr + len \<le> mmap_max st" by (simp add: valid_user_range_def)
  then have "unat (addr + len) \<le> unat (mmap_max st)" by (simp only: word_le_nat_alt)
  then show "unat addr + unat len \<le> unat (mmap_max st)" by (simp only: s)
qed

lemma munmap_ok:
  assumes "mapped st" "page_aligned addr" "unat addr + unat len \<le> 4294963200"
  shows "\<exists>st'. munmap_locked E addr len st = Some st' \<and> mapped st' \<and> same_conf st st' \<and> next_free_page st' = next_free_page st \<and>
    (\<forall>b. lookup st' b = (if in_range addr len b then 0 else lookup st b))"
proof -
  have e: "unat (addr + len) = unat addr + unat len" using assms(3) by (simp add: unat_plus_if')
  let ?I = "\<lambda>x st'. mapped st' \<and> same_conf st st' \<and> next_free_page st' = next_free_page st \<and> (\<forall>b. lookup st' b =
    (if unat addr \<le> unat b \<and> unat b < x then 0 else lookup st b)) \<and> unat addr \<le> x"
  have "\<exists>st' y. for_pages (unmap_page E) addr (addr + len) st = Some st' \<and> ?I y st' \<and> unat (addr + len) \<le> y \<and>
      y mod 4096 = 0 \<and> (y = unat addr \<or> y < unat (addr + len) + 4096)"
  proof (rule for_pages_rule)
    show "unat (addr + len) \<le> 4294963200" using assms(3) e by simp
    show "page_aligned addr" by (rule assms)
    show "?I (unat addr) st" using assms(1) by auto
  next
    fix x s assume x: "page_aligned x" "x < addr + len" "?I (unat x) s"
    from unmap_page_ok [of s E x] x(3) obtain s' where s': "unmap_page E x s = Some s'" "mapped s'" "same_conf s s'"
      "next_free_page s' = next_free_page s" "\<forall>b. lookup s' b = (if same_page b x then 0 else lookup s b)" by blast
    have "?I (unat x + 4096) s'"
      using x(3) s' same_conf_trans [of st s s'] page_interval [OF x(1)] by auto
    with s'(1) show "\<exists>s'. unmap_page E x s = Some s' \<and> ?I (unat x + 4096) s'" by blast
  qed
  then obtain st' y where r: "for_pages (unmap_page E) addr (addr + len) st = Some st'" "?I y st'"
    "unat (addr + len) \<le> y" "y mod 4096 = 0" "y = unat addr \<or> y < unat (addr + len) + 4096"
    by (elim exE conjE) (rule that, simp_all)
  from r(5) have l: "y < unat (addr + len) + 4096" by (auto simp: e)
  have "unat b < y \<longleftrightarrow> unat b div 4096 * 4096 < unat addr + unat len" for b
    using range_end [OF r(4,3) l, of "unat b"] by (simp only: e)
  then show ?thesis using r(1,2) by (auto simp: munmap_locked_def in_range_def)
qed

text \<open>C18: Unmapping an aligned range succeeds on every well-formed page table and takes exactly the pages that
  begin in the range out of the map; an address that is not aligned, or a range outside the user's part of
  the address space, is refused with EINVAL and changes nothing.\<close>

theorem do_munmap_map:
  assumes "mapped st" "mmap_max st \<le> 0xFFFFF000"
  shows "if page_aligned addr \<and> valid_user_range st addr len
    then \<exists>st'. do_munmap E addr len st = Some (0, st') \<and> mapped st' \<and>
      (\<forall>b. lookup st' b = (if in_range addr len b then 0 else lookup st b))
    else do_munmap E addr len st = Some (- VM_EINVAL, st)"
proof (cases "page_aligned addr \<and> valid_user_range st addr len")
  case True
  have "unat (mmap_max st) \<le> 4294963200" using assms(2) by (simp add: word_le_nat_alt)
  then have "unat addr + unat len \<le> 4294963200" using user_range_sum(2) [of st addr len] True by linarith
  from munmap_ok [OF assms(1) _ this, of E] True show ?thesis by (auto simp: do_munmap_def aligned_mask)
next
  case False
  then show ?thesis by (auto simp: do_munmap_def aligned_mask)
qed

text \<open>One page of a mapping: whatever was there is unmapped first.\<close>

lemma munmap_page:
  assumes "page_aligned a" "unat a + 4096 \<le> 4294963200"
  shows "munmap_locked E a RISCV_PGSIZE st = unmap_page E a st"
proof -
  have u: "unat (a + RISCV_PGSIZE) = unat a + 4096" using assms(2) by (simp add: RISCV_PGSIZE_def unat_plus_if')
  then have "a < a + RISCV_PGSIZE" by (simp add: word_less_nat_alt)
  then show ?thesis
    by (simp add: munmap_locked_def for_pages.simps [of _ a] for_pages.simps [of _ "a + RISCV_PGSIZE"] split: option.splits)
qed

lemma map_page_ok:
  assumes "mapped st" "room st 1" "page_aligned a" "unat a + 4096 \<le> 4294963200"
  shows "\<exists>st'. map_page E v a st = Some st' \<and> mapped st' \<and> same_conf st st' \<and>
    unat (next_free_page st') \<le> unat (next_free_page st) + 1 \<and>
    (\<forall>b. lookup st' b = (if same_page b a then v else lookup st b)) \<and>
    (lookup st a = 0 \<longrightarrow> vmrs st' = vmrs st \<and> fs st' = fs st)"
proof -
  from assms(1) have t: "pt_ok st" and r: "root_page_table st \<noteq> 0" by (simp_all add: mapped_def)
  have "room st (if root_page_table st = 0 then 2 else 1)" using assms(2) r by simp
  from walk_create_ok [OF t this, of a] r obtain p st1 where w: "walk_create a st = Some (p, st1)" "pt_ok st1"
    "slot st1 a p" "p \<noteq> 0" "\<forall>b. lookup st1 b = lookup st b" "same_rest st st1"
    "unat (next_free_page st1) \<le> unat (next_free_page st) + 1" by auto
  have m1: "mapped st1" using w(2,3) by (simp add: mapped_def slot_def)
  have pl: "ptes st1 p = lookup st a" using slot_lookup [OF w(3)] w(5) by simp
  obtain st2 where s2: "(if ptes st1 p \<noteq> 0 then munmap_locked E a RISCV_PGSIZE st1 else Some st1) = Some st2"
    "mapped st2" "same_conf st1 st2" "next_free_page st2 = next_free_page st1" "slot st2 a p"
    "\<forall>b. lookup st2 b = (if same_page b a then 0 else lookup st1 b)"
    "ptes st1 p = 0 \<longrightarrow> st2 = st1"
  proof (cases "ptes st1 p = 0")
    case True
    moreover have "lookup st1 b = 0" if "same_page b a" for b using lookup_page [OF that, of st] True pl w(5) by simp
    ultimately show thesis using that [of st1] m1 w(3) by simp
  next
    case False
    from unmap_page_ok [OF m1, of E a] obtain st2 where "unmap_page E a st1 = Some st2" "mapped st2" "same_conf st1 st2"
      "next_free_page st2 = next_free_page st1" "\<forall>b. lookup st2 b = (if same_page b a then 0 else lookup st1 b)"
      "\<forall>b q. slot st1 b q \<longrightarrow> slot st2 b q" by blast
    then show thesis using that [of st2] False w(3) by (simp add: munmap_page [OF assms(3,4)])
  qed
  have t2: "pt_ok st2" using s2(2) by (simp add: mapped_def)
  have "map_page E v a st = Some (set_pte p v st2)" using w(1,4) s2(1) by (simp add: map_page_def)
  moreover have "mapped (set_pte p v st2)" using slot_set(1) [OF t2 s2(5)] s2(2) by (simp add: mapped_def)
  moreover have "same_conf st st2" using same_conf_trans [OF same_rest_conf [OF w(6)] s2(3)] .
  moreover have "\<forall>b. lookup (set_pte p v st2) b = (if same_page b a then v else lookup st b)"
    using slot_set(2) [OF t2 s2(5)] s2(6) w(5) by simp
  moreover have "lookup st a = 0 \<longrightarrow> vmrs st2 = vmrs st \<and> fs st2 = fs st"
    using s2(7) pl w(6) by (simp add: same_rest_def)
  ultimately show ?thesis using w(7) s2(4) by (intro exI [of _ "set_pte p v st2"]) simp
qed

text \<open>A whole range; every page takes at most one new table.\<close>

lemma map_pages_ok:
  assumes "mapped st" "page_aligned addr" "unat addr + unat len \<le> 4294963200" "room st (unat len div 4096 + 1)"
  shows "\<exists>st'. for_pages (map_page E v) addr (addr + len) st = Some st' \<and> mapped st' \<and> same_conf st st' \<and>
    (\<forall>b. lookup st' b = (if in_range addr len b then v else lookup st b)) \<and>
    ((\<forall>b. in_range addr len b \<longrightarrow> lookup st b = 0) \<longrightarrow> vmrs st' = vmrs st \<and> fs st' = fs st)"
proof -
  have e: "unat (addr + len) = unat addr + unat len" using assms(3) by (simp add: unat_plus_if')
  let ?I = "\<lambda>x st'. mapped st' \<and> same_conf st st' \<and>
    (\<forall>b. lookup st' b = (if unat addr \<le> unat b \<and> unat b < x then v else lookup st b)) \<and> unat addr \<le> x \<and>
    unat (next_free_page st') * 4096 \<le> unat (next_free_page st) * 4096 + (x - unat addr) \<and>
    ((\<forall>b. in_range addr len b \<longrightarrow> lookup st b = 0) \<longrightarrow> vmrs st' = vmrs st \<and> fs st' = fs st)"
  have "\<exists>st' y. for_pages (map_page E v) addr (addr + len) st = Some st' \<and> ?I y st' \<and> unat (addr + len) \<le> y \<and>
      y mod 4096 = 0 \<and> (y = unat addr \<or> y < unat (addr + len) + 4096)"
  proof (rule for_pages_rule)
    show "unat (addr + len) \<le> 4294963200" using assms(3) e by simp
    show "page_aligned addr" by (rule assms)
    show "?I (unat addr) st" using assms(1) by auto
  next
    fix x s assume x: "page_aligned x" "x < addr + len" "?I (unat x) s"
    have xl: "unat x < unat addr + unat len" using x(2) e by (simp add: word_less_nat_alt)
    obtain q where q: "unat x = 4096 * q" using page_multiple [OF x(1)] by blast
    have top: "unat x + 4096 \<le> 4294963200"
    proof -
      have "4096 * q < 4096 * 1048575" using xl assms(3) q by linarith
      then have "q + 1 \<le> 1048575" by simp
      then show ?thesis using q by linarith
    qed
    have "next_free_page s * 1 = next_free_page s" by simp
    have rm: "room s 1"
    proof -
      have c: "unat (free_pages s) = unat (free_pages st)" using x(3) by (simp add: same_conf_def)
      have "unat len = unat len div 4096 * 4096 + unat len mod 4096" by (rule div_mult_mod_eq [symmetric])
      moreover have "unat len mod 4096 < 4096" by simp
      ultimately have "unat (next_free_page s) * 4096 < (unat (next_free_page st) + (unat len div 4096 + 1)) * 4096"
        using x(3) xl by (simp only: distrib_right) linarith
      also have "\<dots> \<le> unat (free_pages st) * 4096" using assms(4) by (simp only: room_def mult_le_mono1)
      finally show ?thesis by (simp only: room_def c mult_less_cancel2) simp
    qed
    have xr: "in_range addr len x" using x(3) xl by (simp add: in_range_def q)
    from map_page_ok [OF _ rm x(1) top, of E v] x(3) obtain s' where s': "map_page E v x s = Some s'" "mapped s'" "same_conf s s'"
      "unat (next_free_page s') \<le> unat (next_free_page s) + 1"
      "\<forall>b. lookup s' b = (if same_page b x then v else lookup s b)"
      "lookup s x = 0 \<longrightarrow> vmrs s' = vmrs s \<and> fs s' = fs s" by blast
    have n: "unat (next_free_page s') * 4096 \<le> unat (next_free_page st) * 4096 + (unat x + 4096 - unat addr)"
      using s'(4) x(3) by linarith
    have z: "lookup s x = lookup st x" using x(3) by simp
    have "?I (unat x + 4096) s'"
      using x(3) s'(2,3,5,6) n z xr same_conf_trans [of st s s'] page_interval [OF x(1)] by auto
    with s'(1) show "\<exists>s'. map_page E v x s = Some s' \<and> ?I (unat x + 4096) s'" by blast
  qed
  then obtain st' y where r: "for_pages (map_page E v) addr (addr + len) st = Some st'" "?I y st'"
    "unat (addr + len) \<le> y" "y mod 4096 = 0" "y = unat addr \<or> y < unat (addr + len) + 4096"
    by (elim exE conjE) (rule that, simp_all)
  from r(5) have l: "y < unat (addr + len) + 4096" by (auto simp: e)
  have "unat b < y \<longleftrightarrow> unat b div 4096 * 4096 < unat addr + unat len" for b
    using range_end [OF r(4,3) l, of "unat b"] by (simp only: e)
  then show ?thesis using r(1,2) by (auto simp: in_range_def)
qed

text \<open>C19: Mapping at a fixed address, with virtual memory on and no pages to populate, takes the first free
  region for the request and enters it at every page that begins in the range: afterwards the map gives the
  region's address there and what it gave before elsewhere, whatever was mapped in the range is gone, and the
  program break is kept below the mapping.\<close>

theorem do_mmap_fixed:
  assumes "mapped st" "mmap_max st \<le> 0xFFFFF000" "have_vm st" "vmrs_ptr st \<noteq> 0"
    and "find_vmr (vmrs st) 0 = Some i" "room st (unat len div 4096 + 1)"
    and "page_aligned addr" "valid_user_range st addr len" "len \<noteq> 0" "page_aligned off"
    and "flags AND MAP_PRIVATE \<noteq> 0" "flags AND MAP_FIXED \<noteq> 0" "flags AND MAP_ANONYMOUS \<noteq> 0" "flags AND MAP_POPULATE = 0"
  shows "\<exists>st'. do_mmap E addr len prot flags None off st = Some (addr, st') \<and> mapped st' \<and>
    (\<forall>b. lookup st' b = (if in_range addr len b then vmr_pointer st i else lookup st b)) \<and>
    brk_max st' = min (brk_max st) addr \<and>
    ((\<forall>b. in_range addr len b \<longrightarrow> lookup st b = 0) \<longrightarrow>
      vmrs st' = (vmrs st)[i := \<lparr>v_addr = addr, v_length = len, v_file = None, v_offset = off,
        v_refcnt = (len - 1) div RISCV_PGSIZE + 1, v_prot = prot\<rparr>])"
proof -
  have "unat (mmap_max st) \<le> 4294963200" using assms(2) by (simp add: word_le_nat_alt)
  then have top: "unat addr + unat len \<le> 4294963200" using user_range_sum(2) [OF assms(8)] by linarith
  let ?v = "\<lparr>v_addr = addr, v_length = len, v_file = None, v_offset = off,
        v_refcnt = (len - 1) div RISCV_PGSIZE + 1, v_prot = prot\<rparr>"
  define st1 where "st1 = st\<lparr>vmrs := (vmrs st)[i := ?v]\<rparr>"
  have a: "vmr_alloc addr len None off ((len - 1) div RISCV_PGSIZE + 1) prot st = Some (Some i, st1)"
    using assms(4,5) by (simp add: vmr_alloc_def ensure_vmrs_def st1_def)
  have s: "pt_ok st1 = pt_ok st" "lookup st1 = lookup st" "room st1 = room st"
    by (rule pt_same; simp add: st1_def)+
  have f: "root_page_table st1 = root_page_table st" "vmr_pointer st1 i = vmr_pointer st i" "have_vm st1" "brk_max st1 = brk_max st"
    using assms(3) by (simp_all add: st1_def vmr_pointer_def)
  have m1: "mapped st1" "room st1 (unat len div 4096 + 1)" using assms(1,6) by (simp_all only: mapped_def s f simp_thms)
  from map_pages_ok [OF m1(1) assms(7) top m1(2), of E "vmr_pointer st i"]
  obtain st' where st': "for_pages (map_page E (vmr_pointer st i)) addr (addr + len) st1 = Some st'" "mapped st'" "same_conf st1 st'"
    "\<forall>b. lookup st' b = (if in_range addr len b then vmr_pointer st i else lookup st b)"
    "(\<forall>b. in_range addr len b \<longrightarrow> lookup st b = 0) \<longrightarrow> vmrs st' = vmrs st1"
    unfolding s by blast
  have c: "have_vm st'" "brk_max st' = brk_max st" using st'(3) f(3,4) by (simp_all add: same_conf_def)
  define st2 where "st2 = (if addr < brk_max st' then st'\<lparr>brk_max := addr\<rparr> else st')"
  have m: "mmap_locked E addr len prot flags None off st = Some (addr, st')"
    using assms(7,8,12,14) a st'(1) f(2) c(1) by (simp add: mmap_locked_def mmap_at_def aligned_mask Let_def)
  have "do_mmap E addr len prot flags None off st = Some (addr, st2)"
    using assms(9,10,11,13) m by (simp add: do_mmap_def aligned_mask st2_def)
  moreover have "pt_ok st2 = pt_ok st'" "lookup st2 = lookup st'"
    by (rule pt_same; simp add: st2_def)+
  moreover have "brk_max st2 = min (brk_max st) addr" using c(2) by (auto simp: st2_def min_def)
  moreover have "root_page_table st2 = root_page_table st'" "vmrs st2 = vmrs st'" by (simp_all add: st2_def)
  ultimately show ?thesis using st'(2,4,5) by (simp add: mapped_def st1_def)
qed

section \<open>Page faults over the map\<close>

text \<open>What an access of kind \<open>q\<close> needs of a region mapped with protection \<open>p\<close>: reading is implied by any right.\<close>

definition allowed :: "u32 \<Rightarrow> u32 \<Rightarrow> bool" where
  "allowed p q \<longleftrightarrow> (p AND 7 = 0 \<longleftrightarrow> q AND 7 = 0) \<and> (q AND 2 \<noteq> 0 \<longrightarrow> p AND 2 \<noteq> 0) \<and> (q AND 4 \<noteq> 0 \<longrightarrow> p AND 4 \<noteq> 0)"

lemma low_bits: "c < 1024 \<Longrightarrow> push_bit 10 (x :: u32) AND c = 0"
proof (rule bit_word_eqI)
  fix n assume c: "c < 1024" and "n < LENGTH(32)"
  have "\<not> bit c n" if "10 \<le> n"
  proof -
    have "take_bit 10 c = c" using c by (simp add: take_bit_eq_mod unsigned_take_bit_eq word_less_nat_alt word_unat_eq_iff unat_mod)
    then show ?thesis using that by (metis bit_take_bit_iff not_le)
  qed
  then show "bit (push_bit 10 x AND c) n = bit 0 n" by (auto simp: bit_simps)
qed

lemma prot_cases:
  fixes q :: u32
  obtains "q AND 7 = 0" | "q AND 7 = 1" | "q AND 7 = 2" | "q AND 7 = 3" | "q AND 7 = 4" | "q AND 7 = 5"
    | "q AND 7 = 6" | "q AND 7 = 7"
proof -
  have "unat (q AND 7) < 8"
  proof -
    have "(7 :: u32) = mask 3" by (simp add: mask_eq_exp_minus_1)
    then have "unat (q AND 7) = take_bit 3 (unat q)" by (simp only: take_bit_eq_mask [symmetric] unsigned_take_bit_eq)
    then show ?thesis by (simp add: take_bit_eq_mod)
  qed
  then have "unat (q AND 7) \<in> {0, 1, 2, 3, 4, 5, 6, 7}" by auto
  moreover have "q AND 7 = of_nat (unat (q AND 7))" by simp
  ultimately show thesis using that by (elim insertE emptyE) (simp_all del: of_nat_unat)
qed

lemma allowed_low: "allowed p q \<longleftrightarrow> allowed (p AND 7) (q AND 7)"
  by (simp add: allowed_def and.assoc)

lemma user_type_small: "user_type t < 1024" "1 OR user_type t < 1024"
  by (simp_all add: user_type_def)

lemma user_type_sub: "(1 OR user_type (p AND 7)) AND (1 OR user_type (q AND 7)) = 1 OR user_type (q AND 7) \<longleftrightarrow> allowed p q"
  unfolding allowed_low [of p q]
  by (cases rule: prot_cases [of p]; cases rule: prot_cases [of q]; simp add: user_type_def allowed_def)

definition user_pte :: "u32 \<Rightarrow> u32 \<Rightarrow> u32" where
  "user_pte va prot = push_bit 10 (drop_bit 12 va) OR PTE_V OR user_type (prot AND (1 OR 2 OR 4))"

lemma pte_create_user: "pte_create (drop_bit 12 va) prot True = Some (user_pte va prot)"
  by (simp add: pte_create_def user_pte_def Let_def or.assoc)

lemma user_pte_allows: "user_pte va p AND (1 OR user_type (q AND 7)) = 1 OR user_type (q AND 7) \<longleftrightarrow> allowed p q"
proof -
  have "user_pte va p AND (1 OR user_type (q AND 7)) = (1 OR user_type (p AND 7)) AND (1 OR user_type (q AND 7))"
    using low_bits [OF user_type_small(2), of "drop_bit 12 va" "q AND 7"]
    by (simp add: user_pte_def PTE_V_def or.assoc bit.conj_disj_distrib2)
  then show ?thesis by (simp only: user_type_sub)
qed

lemma vmr_index_pointer: "i < MAX_VMR \<Longrightarrow> vmr_index st (vmr_pointer st i) = i"
proof -
  assume i: "i < MAX_VMR"
  have o: "unat (of_nat i :: u32) = i" using i by (intro unat_offset) (simp add: MAX_VMR_def)
  have "unat (vmr_size * of_nat i) = 24 * i"
    using i by (simp add: vmr_size_def unat_word_ariths(2) o MAX_VMR_def)
  then show ?thesis by (simp add: vmr_index_def vmr_pointer_def vmr_size_def)
qed

lemma page_base: "page_aligned (push_bit 12 (drop_bit 12 a))" "same_page a (push_bit 12 (drop_bit 12 a))"
proof -
  have n: "unat (push_bit 12 (drop_bit 12 a)) = unat a div 4096 * 4096"
  proof -
    have d: "unat (drop_bit 12 a) = unat a div 4096"
    proof -
      have "unat (drop_bit 12 a) = drop_bit 12 (unat a)" by (rule unat_drop_bit_eq)
      also have "\<dots> = unat a div 4096" by (simp add: drop_bit_eq_div)
      finally show ?thesis .
    qed
    have "unat a div 4096 * 4096 \<le> unat a" by simp
    moreover have "unat a < 4294967296" by simp
    ultimately have "unat a div 4096 * 4096 < 4294967296" by (rule le_less_trans)
    then have "unat (drop_bit 12 a * 4096) = unat a div 4096 * 4096"
      unfolding unat_word_ariths(2) d by simp
    moreover have "push_bit 12 (drop_bit 12 a) = drop_bit 12 a * 4096" by (simp add: push_bit_eq_mult)
    ultimately show ?thesis by (simp only:)
  qed
  show "page_aligned (push_bit 12 (drop_bit 12 a))" by (simp only: page_aligned_def n mod_mult_self2_is_0)
  show "same_page a (push_bit 12 (drop_bit 12 a))" unfolding same_page_def n by simp
qed

text \<open>C20: A fault on a page of an anonymous region that is still pending fills exactly that page with zeros,
  turns its entry into a user entry with the protection of the region, releases the page's reference to the
  region, and reports success exactly if the protection allows the access; every other entry, page and
  region is left as it was.\<close>

theorem page_fault_anonymous:
  assumes "mapped st" "i < MAX_VMR" "i < length (vmrs st)" "lookup st va = vmr_pointer st i"
    and "vmr_pointer st i \<noteq> 0" "vmr_pointer st i AND PTE_V = 0" "v_file (vmrs st ! i) = None"
    and "valid_user_range st (push_bit 12 (drop_bit 12 va)) 1"
  shows "\<exists>st'. handle_page_fault E va prot st = Some (if allowed (v_prot (vmrs st ! i)) prot then 0 else - 1, st') \<and>
    mapped st' \<and>
    (\<forall>b. lookup st' b = (if same_page b va then user_pte va (v_prot (vmrs st ! i)) else lookup st b)) \<and>
    (\<forall>b. ram st' b = (if same_page b va then 0 else ram st b)) \<and>
    vmrs st' = (vmrs st)[i := (vmrs st ! i)\<lparr>v_refcnt := v_refcnt (vmrs st ! i) - 1\<rparr>] \<and> fs st' = fs st"
proof -
  let ?va = "push_bit 12 (drop_bit 12 va)"
  note b = page_base [of va]
  from assms(1) have t: "pt_ok st" "root_page_table st \<noteq> 0" by (simp_all add: mapped_def)
  have l: "lookup st ?va = vmr_pointer st i" using lookup_page [OF same_page_sym [OF b(2)], of st] assms(4) by simp
  have sp: "same_page b ?va \<longleftrightarrow> same_page b va" for b using b(2) by (simp add: same_page_def)
  obtain p where w: "walk ?va st = Some (p, st)" "p \<noteq> 0" "slot st ?va p"
    using l assms(5) by (cases rule: walk_ok [OF t, of ?va]) auto
  have p: "ptes st p = vmr_pointer st i" using slot_lookup [OF w(3)] l by simp
  have dd: "drop_bit 12 ?va = drop_bit 12 va" by (rule bit_word_eqI) (auto simp: bit_simps dest: bit_imp_le_length)
  obtain kpte where k: "pte_create (drop_bit 12 ?va) (1 OR 2) False = Some kpte" by (simp add: pte_create_def kernel_type_def)
  let ?v = "vmrs st ! i" and ?pte = "user_pte va (v_prot (vmrs st ! i))"
  define st1 where "st1 = set_pte p ?pte (vmr_decref E i 1
    ((set_pte p kpte st)\<lparr>ram := zero_bytes ?va RISCV_PGSIZE (ram st)\<rparr>))"
  have u: "pte_create (drop_bit 12 ?va) (v_prot ?v) True = Some ?pte" by (simp only: dd pte_create_user)
  have pop: "populate_page E ?va p st = Some st1"
    using k u assms(7) unfolding populate_page_def p vmr_index_pointer [OF assms(2)] by (simp add: Let_def st1_def)
  define st0 where "st0 = (vmr_decref E i 1 ((set_pte p kpte st)\<lparr>ram := zero_bytes ?va RISCV_PGSIZE (ram st)\<rparr>))\<lparr>ptes := ptes st\<rparr>"
  have s0: "pt_ok st0 = pt_ok st" "lookup st0 = lookup st" "slot st0 = slot st" "root_page_table st0 = root_page_table st"
    by (rule pt_same; simp add: st0_def set_pte_def | simp add: st0_def)+
  have e1: "st1 = set_pte p ?pte st0"
    by (simp add: st1_def st0_def set_pte_def)
  have "pte_create 0 prot True = Some (1 OR user_type (prot AND 7))" by (simp add: pte_create_def Let_def PTE_V_def)
  moreover have "ptes st1 p = ?pte" by (simp add: st1_def)
  ultimately have "handle_page_fault E va prot st = Some (if allowed (v_prot ?v) prot then 0 else - 1, st1)"
    using w(1,2) p pop assms(5,6,8) user_pte_allows [of va "v_prot ?v" prot]
    by (simp add: handle_page_fault_def handle_page_fault_locked_def Let_def)
  moreover have "mapped st1" using slot_set(1) [of st0 ?va p ?pte] t w(3) s0 by (simp add: mapped_def e1)
  moreover have "lookup st1 b = (if same_page b va then ?pte else lookup st b)" for b
    using slot_set(2) [of st0 ?va p ?pte b] t w(3) by (simp add: e1 s0 sp)
  moreover have "ram st1 c = (if same_page c va then 0 else ram st c)" for c
    using in_page [OF b(1), of c] by (simp add: st1_def zero_bytes_def sp)
  moreover have "vmrs st1 = (vmrs st)[i := ?v\<lparr>v_refcnt := v_refcnt ?v - 1\<rparr>]" "fs st1 = fs st"
    using assms(3,7) by (simp_all add: st1_def vmr_decref_def Let_def)
  ultimately show ?thesis by blast
qed

section \<open>A concrete page table\<close>

text \<open>A root table in the frame 0x10000, one second-level table in 0x12000 with a page of region 2 at 0x5000, and
  the regions in 0x11000.\<close>

definition vm_sample :: "(unit, u8 list \<times> nat) vmstate" where
  "vm_sample = \<lparr>ptes = (\<lambda>_. 0)(0x10000 := ptd_create 0x12, 0x12014 := 0x11030), ram = (\<lambda>_. 7), root_page_table = 0x10000,
     first_free_page = 0x10000, next_free_page = 3, free_pages = 8, vmrs_ptr = 0x11000,
     vmrs = [vmr_zero\<lparr>v_refcnt := 1\<rparr>, vmr_zero, vmr_zero\<lparr>v_addr := 0x5000, v_length := 0x1000, v_refcnt := 1, v_prot := 3\<rparr>],
     fs = st_sample, have_vm = True, sptbr = 0x10000, elf64 = False, brk = 0, brk_min = 0x4000, brk_max = 0x10000,
     mmap_max = 0x10000, first_free_paddr = 0x4000, stack_bottom = 0, stack_top = 0\<rparr>"

lemma vm_sample_entry: "unat i < 1024 \<Longrightarrow> root_entry vm_sample i = (if i = 0 then ptd_create 0x12 else 0)"
proof -
  assume i: "unat i < 1024"
  have "page_aligned 0x10000" by (simp add: page_aligned_def)
  then have u: "unat (pte_addr 0x10000 i) = 65536 + 4 * unat i" using pte_addr_nat [OF _ i, of "0x10000"] by simp
  have "pte_addr 0x10000 i \<noteq> 0x12014"
  proof
    assume "pte_addr 0x10000 i = 0x12014"
    then have "65536 + 4 * unat i = 73748" using u by simp
    with i show False by simp
  qed
  moreover have "pte_addr 0x10000 i = 0x10000 \<longleftrightarrow> i = 0"
    using u by (auto simp: word_unat_eq_iff)
  ultimately show ?thesis by (simp add: root_entry_def vm_sample_def)
qed

lemma vm_sample_mapped: "mapped vm_sample"
proof -
  have f: "frames_ok vm_sample" "root_page_table vm_sample = 0x10000"
    by (simp_all add: frames_ok_def page_aligned_def vm_sample_def)
  have p: "pool vm_sample 0x10000" "pool vm_sample 0x12000"
    unfolding pool_def by (rule exI [of _ 0], simp add: vm_sample_def RISCV_PGSIZE_def)
      (rule exI [of _ 2], simp add: vm_sample_def RISCV_PGSIZE_def)
  have "ppn 0x12000 = 0x12" by (simp add: ppn_def)
  with f p show ?thesis
    unfolding mapped_def pt_ok_def by (auto simp: vm_sample_entry intro: exI [of _ "0x12000"])
qed

lemma vm_sample_lookup: "lookup vm_sample 0x5000 = 0x11030" "lookup vm_sample 0x6000 = 0" "lookup vm_sample 0x8000 = 0"
  "root_page_table vm_sample \<noteq> 0"
  by (simp_all add: lookup_def leaf_table_def vm_sample_entry pt_idx_def ptd_create_def PTE_V_def pte_ppn_def pte_addr_def)
    (simp_all add: vm_sample_def)

theorem page_table_map_witness:
  "\<exists>p st'. walk_create 0x5000 vm_sample = Some (p, st') \<and> lookup (set_pte p 77 st') 0x5004 = 77 \<and>
    lookup (set_pte p 77 st') 0x6000 = 0"
proof -
  have "pt_ok vm_sample" "room vm_sample 2"
    using vm_sample_mapped by (simp_all add: mapped_def room_def vm_sample_def)
  from page_table_map [OF this, of "0x5000" 77] vm_sample_lookup(2) show ?thesis by (fastforce simp: same_page_def)
qed

theorem do_munmap_map_witness:
  "\<exists>st'. do_munmap ram_fat 0x5000 0x1000 vm_sample = Some (0, st') \<and> lookup vm_sample 0x5000 = 0x11030 \<and> lookup st' 0x5000 = 0"
proof -
  have "mmap_max vm_sample \<le> 0xFFFFF000" "page_aligned 0x5000" "valid_user_range vm_sample 0x5000 0x1000"
    by (simp_all add: vm_sample_def page_aligned_def valid_user_range_def)
  moreover have "in_range 0x5000 0x1000 0x5000" by (simp add: in_range_def)
  ultimately show ?thesis
    using do_munmap_map [OF vm_sample_mapped, of "0x5000" "0x1000" ram_fat] vm_sample_lookup(1) by auto
qed

theorem do_mmap_fixed_witness:
  "\<exists>st'. do_mmap ram_fat 0x8000 0x1800 3 0x32 None 0 vm_sample = Some (0x8000, st') \<and> lookup st' 0x9000 = 0x11018 \<and>
    lookup st' 0x5000 = 0x11030"
proof -
  have "\<exists>st'. do_mmap ram_fat 0x8000 0x1800 3 0x32 None 0 vm_sample = Some (0x8000, st') \<and> mapped st' \<and>
    (\<forall>b. lookup st' b = (if in_range 0x8000 0x1800 b then vmr_pointer vm_sample 1 else lookup vm_sample b)) \<and>
    brk_max st' = min (brk_max vm_sample) 0x8000 \<and>
    ((\<forall>b. in_range 0x8000 0x1800 b \<longrightarrow> lookup vm_sample b = 0) \<longrightarrow>
      vmrs st' = (vmrs vm_sample)[1 := \<lparr>v_addr = 0x8000, v_length = 0x1800, v_file = None, v_offset = 0,
        v_refcnt = (0x1800 - 1) div RISCV_PGSIZE + 1, v_prot = 3\<rparr>])"
    by (rule do_mmap_fixed [OF vm_sample_mapped])
      (simp_all add: vm_sample_def room_def page_aligned_def valid_user_range_def vmr_zero_def
        MAP_PRIVATE_def MAP_FIXED_def MAP_ANONYMOUS_def MAP_POPULATE_def)
  moreover have "in_range 0x8000 0x1800 0x9000" "\<not> in_range 0x8000 0x1800 0x5000" by (simp_all add: in_range_def)
  moreover have "vmr_pointer vm_sample 1 = 0x11018" by (simp add: vmr_pointer_def vm_sample_def vmr_size_def)
  ultimately show ?thesis using vm_sample_lookup(1) by fastforce
qed

theorem page_fault_anonymous_witness:
  "\<exists>st'. handle_page_fault ram_fat 0x5123 1 vm_sample = Some (0, st') \<and> ram st' 0x5FFF = 0 \<and> ram st' 0x6000 = 7"
proof -
  have m: "MAX_VMR = 170" by (rule MAX_VMR_def)
  have l: "lookup vm_sample 0x5123 = vmr_pointer vm_sample 2"
    using lookup_page [of "0x5123" "0x5000" vm_sample] vm_sample_lookup(1)
    by (simp add: same_page_def vmr_pointer_def vm_sample_def vmr_size_def)
  have p: "vmr_pointer vm_sample 2 = 0x11030" by (simp add: vmr_pointer_def vm_sample_def vmr_size_def)
  have v: "v_file (vmrs vm_sample ! 2) = None" "v_prot (vmrs vm_sample ! 2) = 3" "length (vmrs vm_sample) = 3"
    "ram vm_sample = (\<lambda>_. 7)" by (simp_all add: vm_sample_def vmr_zero_def)
  have "valid_user_range vm_sample (push_bit 12 (drop_bit 12 0x5123)) 1" by (simp add: valid_user_range_def vm_sample_def)
  with page_fault_anonymous [OF vm_sample_mapped _ _ l, of ram_fat 1] obtain st' where
    "handle_page_fault ram_fat 0x5123 1 vm_sample = Some (if allowed 3 1 then 0 else - 1, st')"
    "\<forall>b. ram st' b = (if same_page b 0x5123 then 0 else 7)"
    by (auto simp: m v p PTE_V_def)
  moreover have "allowed 3 1" "same_page 0x5FFF 0x5123" "\<not> same_page 0x6000 0x5123"
    by (simp_all add: allowed_def same_page_def)
  ultimately show ?thesis by simp
qed

end
