(* ===== verification/ElfLoader.thy ===== *)
theory ElfLoader
  imports CLib
begin

text \<open>
  The ELF loader of the boot program (bootstrap/sdcard/elf.c): 64-bit ELF structures read on a
  32-bit machine, so the fields are 64-bit words, sums of fields wrap at 2^64, and addresses and
  lengths passed to \<open>memcpy\<close> and \<open>memset\<close> are cut to 32 bits.  The headers are read from memory
  at every use, as the code does, because the segments are written to the same memory.
\<close>

section \<open>Headers\<close>

record Elf64_Ehdr =
  e_ident :: "u8 list"
  e_type :: u16
  e_machine :: u16
  e_version :: u32
  e_entry :: u64
  e_phoff :: u64
  e_shoff :: u64
  e_flags :: u32
  e_ehsize :: u16
  e_phentsize :: u16
  e_phnum :: u16

record Elf64_Phdr =
  p_type :: u32
  p_flags :: u32
  p_offset :: u64
  p_vaddr :: u64
  p_paddr :: u64
  p_filesz :: u64
  p_memsz :: u64
  p_align :: u64

definition sizeof_Ehdr :: u32 where "sizeof_Ehdr = 64"
definition sizeof_Phdr :: u32 where "sizeof_Phdr = 56"
definition PT_LOAD :: u32 where "PT_LOAD = 1"

lemmas elf_consts = sizeof_Ehdr_def sizeof_Phdr_def PT_LOAD_def

definition ehdr :: "mem \<Rightarrow> u32 \<Rightarrow> Elf64_Ehdr" where
  "ehdr m a = \<lparr>e_ident = load_bytes m a 16, e_type = rd16 m (a + 16), e_machine = rd16 m (a + 18),
     e_version = rd32 m (a + 20), e_entry = rd64 m (a + 24), e_phoff = rd64 m (a + 32),
     e_shoff = rd64 m (a + 40), e_flags = rd32 m (a + 48), e_ehsize = rd16 m (a + 52),
     e_phentsize = rd16 m (a + 54), e_phnum = rd16 m (a + 56)\<rparr>"

definition phdr :: "mem \<Rightarrow> u32 \<Rightarrow> Elf64_Phdr" where
  "phdr m a = \<lparr>p_type = rd32 m a, p_flags = rd32 m (a + 4), p_offset = rd64 m (a + 8),
     p_vaddr = rd64 m (a + 16), p_paddr = rd64 m (a + 24), p_filesz = rd64 m (a + 32),
     p_memsz = rd64 m (a + 40), p_align = rd64 m (a + 48)\<rparr>"

definition IS_ELF64 :: "Elf64_Ehdr \<Rightarrow> bool" where
  "IS_ELF64 eh \<longleftrightarrow> take 5 (e_ident eh) = [0x7f, 0x45, 0x4C, 0x46, 2]"

section \<open>Loading\<close>

text \<open>One round of the loop: \<open>None\<close> is the return of error 3.\<close>

definition load_segment :: "mem \<Rightarrow> u32 \<Rightarrow> u32 \<Rightarrow> u32 \<Rightarrow> u32 \<Rightarrow> mem option" where
  "load_segment m target_base elf elf_size pa =
     (let ph = phdr m pa in
      if p_type ph = PT_LOAD \<and> p_memsz ph \<noteq> 0 then
        (if p_filesz ph \<noteq> 0 \<and> (ucast elf_size :: u64) < p_offset ph + p_filesz ph then None
         else
           (let m = (if p_filesz ph \<noteq> 0
                     then memcpy m (target_base + ucast (p_paddr ph)) (elf + ucast (p_offset ph))
                            (ucast (p_filesz ph))
                     else m);
                ph = phdr m pa
            in Some (if p_memsz ph > p_filesz ph
                     then memset m (target_base + ucast (p_paddr ph) + ucast (p_filesz ph)) 0
                            (ucast (p_memsz ph - p_filesz ph))
                     else m)))
      else Some m)"

function load_segments :: "mem \<Rightarrow> u32 \<Rightarrow> u32 \<Rightarrow> u32 \<Rightarrow> u32 \<Rightarrow> nat \<Rightarrow> int \<times> mem" where
  "load_segments m target_base elf elf_size ph i =
     (if i < unat (e_phnum (ehdr m elf)) then
        (case load_segment m target_base elf elf_size (ph + of_nat i * sizeof_Phdr) of
           None \<Rightarrow> (3, m)
         | Some m' \<Rightarrow> load_segments m' target_base elf elf_size ph (Suc i))
      else (0, m))"
  by pat_completeness auto
termination
proof (relation "measure (\<lambda>(m, t, e, s, p, i). 65536 - i)", goal_cases)
  case (2 m target_base elf elf_size ph i m')
  from 2(1) have "i < 65536" by (rule less_trans) simp
  then show ?case by simp
qed simp

declare load_segments.simps [simp del]

definition load_elf :: "mem \<Rightarrow> u32 \<Rightarrow> u32 \<Rightarrow> u32 \<Rightarrow> int \<times> mem" where
  "load_elf m target_base elf elf_size =
     (if elf_size \<le> sizeof_Ehdr then (1, m)
      else
        (let eh = ehdr m elf in
         if \<not> IS_ELF64 eh then (2, m)
         else
           (let ph = elf + ucast (e_phoff eh) in
            if (ucast elf_size :: u64) < e_phoff eh + ucast (ucast (e_phnum eh) * sizeof_Phdr) then (3, m)
            else load_segments m target_base elf elf_size ph 0)))"

section \<open>What is to be loaded\<close>

text \<open>
  The specification: the bounds are compared as natural numbers, every loadable segment is
  its bytes in the file followed by zeros, and the file is the one in the initial memory.
\<close>

definition loadable :: "Elf64_Phdr \<Rightarrow> bool" where
  "loadable ph \<longleftrightarrow> p_type ph = PT_LOAD \<and> p_memsz ph \<noteq> 0"

definition seg_image :: "mem \<Rightarrow> u32 \<Rightarrow> Elf64_Phdr \<Rightarrow> u8 list" where
  "seg_image m elf ph = load_bytes m (elf + ucast (p_offset ph)) (unat (p_filesz ph))
     @ replicate (unat (p_memsz ph) - unat (p_filesz ph)) 0"

definition seg_base :: "u32 \<Rightarrow> Elf64_Phdr \<Rightarrow> u32" where
  "seg_base target ph = target + ucast (p_paddr ph)"

fun load_spec :: "mem \<Rightarrow> u32 \<Rightarrow> u32 \<Rightarrow> nat \<Rightarrow> Elf64_Phdr list \<Rightarrow> mem \<Rightarrow> int \<times> mem" where
  "load_spec m0 target elf sz [] m = (0, m)"
| "load_spec m0 target elf sz (ph # phs) m =
     (if loadable ph then
        (if p_filesz ph \<noteq> 0 \<and> sz < unat (p_offset ph) + unat (p_filesz ph) then (3, m)
         else load_spec m0 target elf sz phs (store_bytes m (seg_base target ph) (seg_image m0 elf ph)))
      else load_spec m0 target elf sz phs m)"

definition program_headers :: "mem \<Rightarrow> u32 \<Rightarrow> Elf64_Phdr list" where
  "program_headers m elf =
     map (\<lambda>i. phdr m (elf + ucast (e_phoff (ehdr m elf)) + of_nat i * sizeof_Phdr))
       [0..<unat (e_phnum (ehdr m elf))]"

text \<open>A segment the loader's arithmetic is exact on, and whose target is apart from the file.\<close>

definition seg_sane :: "u32 \<Rightarrow> u32 \<Rightarrow> nat \<Rightarrow> Elf64_Phdr \<Rightarrow> bool" where
  "seg_sane target elf sz ph \<longleftrightarrow>
     unat (p_filesz ph) < 2 ^ 32 \<and> unat (p_memsz ph) < 2 ^ 32
     \<and> unat (p_offset ph) + unat (p_filesz ph) < 2 ^ 64
     \<and> apart (seg_base target ph) (max (unat (p_filesz ph)) (unat (p_memsz ph))) elf sz"

definition elf_sane :: "mem \<Rightarrow> u32 \<Rightarrow> u32 \<Rightarrow> nat \<Rightarrow> bool" where
  "elf_sane m target elf sz \<longleftrightarrow>
     unat (e_phoff (ehdr m elf)) + unat (e_phnum (ehdr m elf)) * 56 < 2 ^ 64
     \<and> (\<forall>ph \<in> set (program_headers m elf). loadable ph \<longrightarrow> seg_sane target elf sz ph)"

section \<open>Lemmas\<close>

text \<open>Two memories that agree on a range.\<close>

definition same_on :: "u32 \<Rightarrow> nat \<Rightarrow> mem \<Rightarrow> mem \<Rightarrow> bool" where
  "same_on a n m m' \<longleftrightarrow> (\<forall>i<n. m (a + of_nat i) = m' (a + of_nat i))"

lemma same_on_load:
  "same_on a n m m' \<Longrightarrow> off + k \<le> n \<Longrightarrow> load_bytes m (a + of_nat off) k = load_bytes m' (a + of_nat off) k"
proof (rule nth_equalityI)
  fix i assume a: "same_on a n m m'" "off + k \<le> n" "i < length (load_bytes m (a + of_nat off) k)"
  then have "off + i < n" by simp
  with a(1) have "m (a + of_nat (off + i)) = m' (a + of_nat (off + i))" unfolding same_on_def by blast
  with a(3) show "load_bytes m (a + of_nat off) k ! i = load_bytes m' (a + of_nat off) k ! i"
    by (simp add: nth_load_bytes add.assoc)
qed simp

lemma same_on_store:
  "apart d (length bs) a n \<Longrightarrow> length bs \<le> 2 ^ 32 \<Longrightarrow> same_on a n m m' \<Longrightarrow> same_on a n (store_bytes m d bs) m'"
  by (auto simp: same_on_def store_bytes_outside apart_offset)

lemma same_on_rd:
  assumes "same_on a n m m'"
  shows "off + 2 \<le> n \<Longrightarrow> rd16 m (a + of_nat off) = rd16 m' (a + of_nat off)"
    "off + 4 \<le> n \<Longrightarrow> rd32 m (a + of_nat off) = rd32 m' (a + of_nat off)"
    "off + 8 \<le> n \<Longrightarrow> rd64 m (a + of_nat off) = rd64 m' (a + of_nat off)"
  using assms by (simp_all add: rd16_def rd32_def rd64_def same_on_load)

lemma same_on_ehdr:
  assumes "same_on a n m m'" "64 \<le> n"
  shows "ehdr m a = ehdr m' a"
proof -
  note r = same_on_rd [OF assms(1)] and n = assms(2)
  have "load_bytes m a 16 = load_bytes m' a 16"
    using same_on_load [OF assms(1), of 0 16] n by simp
  then show ?thesis
    using r(1) [of 16] r(1) [of 18] r(2) [of 20] r(3) [of 24] r(3) [of 32] r(3) [of 40] r(2) [of 48]
      r(1) [of 52] r(1) [of 54] r(1) [of 56] n
    by (simp add: ehdr_def)
qed

lemma same_on_phdr:
  assumes "same_on a n m m'" "off + 56 \<le> n"
  shows "phdr m (a + of_nat off) = phdr m' (a + of_nat off)"
proof -
  note r = same_on_rd [OF assms(1)] and n = assms(2)
  show ?thesis
    using r(2) [of off] r(2) [of "off + 4"] r(3) [of "off + 8"] r(3) [of "off + 16"] r(3) [of "off + 24"]
      r(3) [of "off + 32"] r(3) [of "off + 40"] r(3) [of "off + 48"] n
    by (simp add: phdr_def add.assoc)
qed

lemma ucast_unat_small: "unat (w :: u64) < 2 ^ 32 \<Longrightarrow> unat (ucast w :: u32) = unat w"
  by (simp add: unsigned_ucast_eq take_bit_eq_mod)

lemma u64_sum:
  "unat (a :: u64) + unat b < 2 ^ 64 \<Longrightarrow> unat (a + b) = unat a + unat b"
  by (simp add: unat_plus_if')

lemma ucast_32_64: "unat (ucast (w :: u32) :: u64) = unat w"
proof -
  have "unat w < 2 ^ 64" by (rule less_trans [OF unat_lt_pow]) simp
  then show ?thesis by (simp add: unsigned_ucast_eq take_bit_eq_mod)
qed

lemma ucast_offset: "(a :: u32) + ucast (w :: u64) = a + of_nat (unat w)"
  by simp

lemma load_segment_spec:
  assumes same: "same_on elf (unat sz) m m0" and pa: "pa = elf + of_nat po" "po + 56 \<le> unat sz"
    and sane: "loadable (phdr m0 pa) \<Longrightarrow> seg_sane target elf (unat sz) (phdr m0 pa)"
  shows "load_segment m target elf sz pa =
    (let ph = phdr m0 pa in
     if loadable ph then
       (if p_filesz ph \<noteq> 0 \<and> unat sz < unat (p_offset ph) + unat (p_filesz ph) then None
        else Some (store_bytes m (seg_base target ph) (seg_image m0 elf ph)))
     else Some m)"
proof -
  let ?ph = "phdr m0 pa"
  let ?d = "seg_base target ?ph" and ?off = "unat (p_offset ?ph)" and ?fs = "unat (p_filesz ?ph)"
    and ?ms = "unat (p_memsz ?ph)"
  have ph: "phdr m pa = ?ph" unfolding pa(1) by (rule same_on_phdr [OF same pa(2)])
  show ?thesis
  proof (cases "loadable ?ph")
    case False
    then have "\<not> (p_type ?ph = PT_LOAD \<and> p_memsz ?ph \<noteq> 0)" by (simp add: loadable_def)
    then show ?thesis unfolding load_segment_def Let_def ph using False by (simp only: if_False)
  next
    case True
    note s = sane [OF True, unfolded seg_sane_def]
    have "unat sz < 2 ^ 64" by (rule less_trans [OF unat_lt_pow]) simp
    then have chk: "(ucast sz :: u64) < p_offset ?ph + p_filesz ?ph \<longleftrightarrow> unat sz < ?off + ?fs"
      using s u64_sum [of "p_offset ?ph" "p_filesz ?ph"] by (simp add: word_less_nat_alt ucast_32_64)
    show ?thesis
    proof (cases "p_filesz ?ph \<noteq> 0 \<and> unat sz < ?off + ?fs")
      case bad: True
      with True ph chk show ?thesis by (simp add: load_segment_def loadable_def Let_def)
    next
      case ok: False
      let ?bytes = "load_bytes m0 (elf + ucast (p_offset ?ph)) ?fs"
      let ?m1 = "if p_filesz ?ph \<noteq> 0 then memcpy m ?d (elf + ucast (p_offset ?ph)) (ucast (p_filesz ?ph)) else m"
      have m1: "?m1 = store_bytes m ?d ?bytes"
      proof (cases "p_filesz ?ph = 0")
        case False
        with ok have le: "?off + ?fs \<le> unat sz" by simp
        have fs: "unat (ucast (p_filesz ?ph) :: u32) = ?fs" using s by (intro ucast_unat_small) simp
        have "apart ?d ?fs (elf + of_nat ?off) ?fs" using s le by (intro apart_sub [of ?d _ elf "unat sz"]) auto
        then have "memcpy m ?d (elf + of_nat ?off) (ucast (p_filesz ?ph))
            = store_bytes m ?d (load_bytes m (elf + of_nat ?off) ?fs)"
          unfolding memcpy_def fs by (intro copy_bytes_store) simp
        also have "load_bytes m (elf + of_nat ?off) ?fs = load_bytes m0 (elf + of_nat ?off) ?fs"
          by (rule same_on_load [OF same le])
        finally show ?thesis using False by simp
      qed simp
      have "same_on elf (unat sz) ?m1 m0"
        unfolding m1
      proof (rule same_on_store [OF _ _ same])
        show "apart ?d (length ?bytes) elf (unat sz)"
          by (rule apart_le [of ?d "max ?fs ?ms" elf "unat sz"]) (use s in auto)
        show "length ?bytes \<le> 2 ^ 32" using s by simp
      qed
      then have ph1: "phdr ?m1 pa = ?ph" unfolding pa(1) by (rule same_on_phdr [OF _ pa(2)])
      have fin: "(if p_memsz ?ph > p_filesz ?ph
             then memset ?m1 (?d + ucast (p_filesz ?ph)) 0 (ucast (p_memsz ?ph - p_filesz ?ph)) else ?m1)
          = store_bytes m ?d (seg_image m0 elf ?ph)"
      proof (cases "p_memsz ?ph > p_filesz ?ph")
        case True
        then have lt: "?fs < ?ms" by (simp add: word_less_nat_alt)
        then have "unat (p_memsz ?ph - p_filesz ?ph) = ?ms - ?fs" by (simp add: unat_sub_if')
        moreover from this have "unat (ucast (p_memsz ?ph - p_filesz ?ph) :: u32) = ?ms - ?fs"
          using s by (subst ucast_unat_small) auto
        ultimately have "memset ?m1 (?d + ucast (p_filesz ?ph)) 0 (ucast (p_memsz ?ph - p_filesz ?ph))
            = store_bytes (store_bytes m ?d ?bytes) (?d + of_nat (length ?bytes)) (replicate (?ms - ?fs) 0)"
          unfolding m1 memset_def fill_bytes_store by simp
        with True show ?thesis by (simp add: store_bytes_append seg_image_def)
      next
        case False
        then have "?ms - ?fs = 0" by (simp add: word_less_nat_alt)
        then show ?thesis unfolding m1 seg_image_def using False by simp
      qed
      have c1: "(p_type ?ph = PT_LOAD \<and> p_memsz ?ph \<noteq> 0) = True" using True by (simp add: loadable_def)
      have c2: "(p_filesz ?ph \<noteq> 0 \<and> (ucast sz :: u64) < p_offset ?ph + p_filesz ?ph) = False"
        using ok chk by simp
      have "load_segment m target elf sz pa = Some (store_bytes m ?d (seg_image m0 elf ?ph))"
        unfolding load_segment_def Let_def ph c1 c2 if_True if_False
        by (simp only: ph1 [unfolded seg_base_def] fin [unfolded seg_base_def] seg_base_def)
      with True ok show ?thesis by (simp add: Let_def)
    qed
  qed
qed

lemma seg_image_length: "length (seg_image m elf ph) = max (unat (p_filesz ph)) (unat (p_memsz ph))"
  by (simp add: seg_image_def max_def)

lemma load_segments_spec:
  assumes table: "unat (e_phoff (ehdr m0 elf)) + unat (e_phnum (ehdr m0 elf)) * 56 \<le> unat sz" "64 \<le> unat sz"
    and sane: "\<forall>ph \<in> set (program_headers m0 elf). loadable ph \<longrightarrow> seg_sane target elf (unat sz) ph"
    and same: "same_on elf (unat sz) m m0"
  shows "load_segments m target elf sz (elf + ucast (e_phoff (ehdr m0 elf))) i
    = load_spec m0 target elf (unat sz) (drop i (program_headers m0 elf)) m"
  using same
proof (induction "unat (e_phnum (ehdr m0 elf)) - i" arbitrary: i m)
  case (0 i m)
  have "ehdr m elf = ehdr m0 elf" by (rule same_on_ehdr [OF 0(2) table(2)])
  with 0 show ?case by (simp add: load_segments.simps [of m] program_headers_def)
next
  case (Suc k i m)
  let ?n = "unat (e_phnum (ehdr m0 elf))" and ?o = "unat (e_phoff (ehdr m0 elf))"
  let ?pa = "elf + ucast (e_phoff (ehdr m0 elf)) + of_nat i * sizeof_Phdr"
  have i: "i < ?n" and k: "k = ?n - Suc i" using Suc.hyps(2) by auto
  have eh: "ehdr m elf = ehdr m0 elf" by (rule same_on_ehdr [OF Suc.prems table(2)])
  have pa: "?pa = elf + of_nat (?o + i * 56)" by (simp add: sizeof_Phdr_def)
  have "i * 56 + 56 \<le> ?n * 56" using i by simp
  then have po: "(?o + i * 56) + 56 \<le> unat sz" using table(1) by linarith
  have len: "length (program_headers m0 elf) = ?n" by (simp add: program_headers_def)
  have nth: "program_headers m0 elf ! i = phdr m0 ?pa" using i by (simp add: program_headers_def)
  have dr: "drop i (program_headers m0 elf) = phdr m0 ?pa # drop (Suc i) (program_headers m0 elf)"
    using i len nth by (metis Cons_nth_drop_Suc)
  have mem: "phdr m0 ?pa \<in> set (program_headers m0 elf)" using i len nth by (metis nth_mem)
  with sane have s: "loadable (phdr m0 ?pa) \<Longrightarrow> seg_sane target elf (unat sz) (phdr m0 ?pa)" by blast
  note seg = load_segment_spec [OF Suc.prems pa po s]
  have step: "same_on elf (unat sz) (store_bytes m (seg_base target (phdr m0 ?pa)) (seg_image m0 elf (phdr m0 ?pa))) m0"
    if "loadable (phdr m0 ?pa)"
    using s [OF that] Suc.prems by (intro same_on_store) (auto simp: seg_image_length seg_sane_def)
  show ?case
    unfolding dr
    using i eh seg Suc.hyps(1) [OF k Suc.prems] Suc.hyps(1) [OF k step]
    by (subst load_segments.simps) (simp add: Let_def)
qed

section \<open>Properties\<close>

lemma load_elf_spec_eq:
  assumes "elf_sane m target elf (unat sz)"
  shows "load_elf m target elf sz =
    (if unat sz \<le> 64 then (1, m)
     else if \<not> IS_ELF64 (ehdr m elf) then (2, m)
     else if unat sz < unat (e_phoff (ehdr m elf)) + unat (e_phnum (ehdr m elf)) * 56 then (3, m)
     else load_spec m target elf (unat sz) (program_headers m elf) m)"
proof -
  let ?eh = "ehdr m elf"
  have n: "unat (ucast (ucast (e_phnum ?eh) * sizeof_Phdr :: u32) :: u64) = unat (e_phnum ?eh) * 56"
  proof -
    have "unat (ucast (e_phnum ?eh) :: u32) = unat (e_phnum ?eh)"
      by (simp add: unsigned_ucast_eq take_bit_eq_mod less_trans [OF unat_u16_less])
    moreover have "unat (e_phnum ?eh) < 65536" by simp
    then have "unat (e_phnum ?eh) * 56 < 2 ^ 32" by (auto simp del: unat_u16_less)
    ultimately have "unat (ucast (e_phnum ?eh) * sizeof_Phdr :: u32) = unat (e_phnum ?eh) * 56"
      by (simp add: unat_word_ariths(2) sizeof_Phdr_def)
    then show ?thesis by (simp add: ucast_32_64)
  qed
  have chk: "(ucast sz :: u64) < e_phoff ?eh + ucast (ucast (e_phnum ?eh) * sizeof_Phdr :: u32)
      \<longleftrightarrow> unat sz < unat (e_phoff ?eh) + unat (e_phnum ?eh) * 56"
    using assms u64_sum [of "e_phoff ?eh" "ucast (ucast (e_phnum ?eh) * sizeof_Phdr :: u32)"] n
    by (simp add: word_less_nat_alt ucast_32_64 elf_sane_def)
  have small: "sz \<le> sizeof_Ehdr \<longleftrightarrow> unat sz \<le> 64" by (simp add: word_le_nat_alt sizeof_Ehdr_def)
  show ?thesis
    using assms load_segments_spec [of m elf sz target m 0] chk small
    by (auto simp: load_elf_def Let_def elf_sane_def same_on_def)
qed

text \<open>C3: On an ELF image whose sizes and sums fit (no wrap-around) and whose segments go to memory apart
  from the image, the loader does what is specified: 1 or 2 for an image that is too small or not
  64-bit ELF, 3 at the first table or segment that runs past the image, and otherwise 0 with every
  loadable segment stored, its file bytes followed by zeros, in the order of the program headers.\<close>

theorem load_elf_spec:
  assumes "elf_sane m target elf (unat sz)"
  shows "load_elf m target elf sz =
    (if unat sz \<le> 64 then (1, m)
     else if \<not> IS_ELF64 (ehdr m elf) then (2, m)
     else if unat sz < unat (e_phoff (ehdr m elf)) + unat (e_phnum (ehdr m elf)) * 56 then (3, m)
     else load_spec m target elf (unat sz) (program_headers m elf) m)"
  using assms by (rule load_elf_spec_eq)

lemma load_spec_outside:
  "load_spec m0 target elf sz phs m = (c, m') \<Longrightarrow>
   \<forall>ph \<in> set phs. loadable ph \<longrightarrow> length (seg_image m0 elf ph) \<le> unat (x - seg_base target ph)
     \<and> length (seg_image m0 elf ph) \<le> 2 ^ 32 \<Longrightarrow> m' x = m x"
  by (induction phs arbitrary: m) (auto simp: store_bytes_outside split: if_splits)

text \<open>The targets of the loadable segments are pairwise apart.\<close>

definition segs_apart :: "u32 \<Rightarrow> Elf64_Phdr list \<Rightarrow> bool" where
  "segs_apart target phs \<longleftrightarrow>
     sorted_wrt (\<lambda>p q. loadable p \<and> loadable q \<longrightarrow>
       apart (seg_base target q) (max (unat (p_filesz q)) (unat (p_memsz q)))
             (seg_base target p) (max (unat (p_filesz p)) (unat (p_memsz p)))) phs"

lemma load_spec_content:
  assumes "load_spec m0 target elf sz phs m = (0, m')" "segs_apart target phs"
    and "\<forall>ph \<in> set phs. loadable ph \<longrightarrow> length (seg_image m0 elf ph) < 2 ^ 32"
    and "ph \<in> set phs" "loadable ph"
  shows "load_bytes m' (seg_base target ph) (length (seg_image m0 elf ph)) = seg_image m0 elf ph
    \<and> (p_filesz ph \<noteq> 0 \<longrightarrow> unat (p_offset ph) + unat (p_filesz ph) \<le> sz)"
  using assms
proof (induction phs arbitrary: m)
  case (Cons q qs)
  let ?st = "store_bytes m (seg_base target q) (seg_image m0 elf q)"
  show ?case
  proof (cases "ph = q")
    case False
    with Cons show ?thesis by (auto simp: segs_apart_def split: if_splits)
  next
    case True
    with Cons.prems have ld: "load_spec m0 target elf sz qs ?st = (0, m')"
      and chk: "p_filesz ph \<noteq> 0 \<longrightarrow> unat (p_offset ph) + unat (p_filesz ph) \<le> sz"
      by (auto split: if_splits)
    let ?n = "length (seg_image m0 elf ph)"
    have n: "?n < 2 ^ 32" using Cons.prems(3,5) True by simp
    have "m' (seg_base target ph + of_nat i) = ?st (seg_base target ph + of_nat i)" if "i < ?n" for i
    proof (rule load_spec_outside [OF ld], intro ballI impI conjI)
      fix p assume p: "p \<in> set qs" "loadable p"
      then have "apart (seg_base target p) (length (seg_image m0 elf p)) (seg_base target ph) ?n"
        using Cons.prems(2,5) True by (simp add: segs_apart_def seg_image_length)
      from apart_offset [OF this that]
      show "length (seg_image m0 elf p) \<le> unat (seg_base target ph + of_nat i - seg_base target p)" .
      show "length (seg_image m0 elf p) \<le> 2 ^ 32" using Cons.prems(3) p by (simp add: less_imp_le)
    qed
    then have "load_bytes m' (seg_base target ph) ?n = load_bytes ?st (seg_base target ph) ?n"
      by (intro nth_equalityI) (simp_all add: nth_load_bytes)
    also have "\<dots> = seg_image m0 elf ph" unfolding True [symmetric] using n by (intro load_store_same) simp
    finally show ?thesis using chk by blast
  qed
qed simp

lemma load_elf_0:
  assumes "elf_sane m target elf (unat sz)" "load_elf m target elf sz = (0, m')"
  shows "load_spec m target elf (unat sz) (program_headers m elf) m = (0, m')"
    "IS_ELF64 (ehdr m elf)"
    "\<forall>ph \<in> set (program_headers m elf). loadable ph \<longrightarrow> length (seg_image m elf ph) < 2 ^ 32"
proof -
  show "load_spec m target elf (unat sz) (program_headers m elf) m = (0, m')" "IS_ELF64 (ehdr m elf)"
    using load_elf_spec_eq [OF assms(1)] assms(2) by (auto split: if_splits)
  show "\<forall>ph \<in> set (program_headers m elf). loadable ph \<longrightarrow> length (seg_image m elf ph) < 2 ^ 32"
    using assms(1) by (auto simp: elf_sane_def seg_sane_def seg_image_length)
qed

text \<open>When the loader reports success on such an image, every loadable segment lies inside the file
  and is in memory at its address (file bytes, then zeros), provided the segments are apart from each
  other, and no byte outside the segments has changed.\<close>

theorem load_elf_loaded:
  assumes "elf_sane m target elf (unat sz)" and "load_elf m target elf sz = (0, m')"
  shows "IS_ELF64 (ehdr m elf) \<and>
    (\<forall>ph \<in> set (program_headers m elf). loadable ph \<and> segs_apart target (program_headers m elf) \<longrightarrow>
       load_bytes m' (seg_base target ph) (length (seg_image m elf ph)) = seg_image m elf ph
       \<and> (p_filesz ph \<noteq> 0 \<longrightarrow> unat (p_offset ph) + unat (p_filesz ph) \<le> unat sz)) \<and>
    (\<forall>x. (\<forall>ph \<in> set (program_headers m elf). loadable ph \<longrightarrow>
            length (seg_image m elf ph) \<le> unat (x - seg_base target ph)) \<longrightarrow> m' x = m x)"
proof (intro conjI ballI allI impI)
  note l = load_elf_0 [OF assms]
  show "IS_ELF64 (ehdr m elf)" by (rule l(2))
  fix ph assume "ph \<in> set (program_headers m elf)" "loadable ph \<and> segs_apart target (program_headers m elf)"
  with load_spec_content [OF l(1) _ l(3)]
  show "load_bytes m' (seg_base target ph) (length (seg_image m elf ph)) = seg_image m elf ph"
    "p_filesz ph \<noteq> 0 \<Longrightarrow> unat (p_offset ph) + unat (p_filesz ph) \<le> unat sz" by blast+
next
  note l = load_elf_0 [OF assms]
  fix x assume "\<forall>ph \<in> set (program_headers m elf). loadable ph \<longrightarrow>
            length (seg_image m elf ph) \<le> unat (x - seg_base target ph)"
  with l(3) show "m' x = m x" by (intro load_spec_outside [OF l(1)]) (auto simp: less_imp_le)
qed

section \<open>A sample image\<close>

lemma load_store_part:
  assumes "off + k \<le> length bs" "length bs \<le> 2 ^ 32"
  shows "load_bytes (store_bytes m a bs) (a + of_nat off) k = take k (drop off bs)"
proof (rule nth_equalityI)
  fix i assume i: "i < length (load_bytes (store_bytes m a bs) (a + of_nat off) k)"
  then have "unat (of_nat (off + i) :: u32) = off + i" using assms by (intro unat_offset) simp
  moreover have "a + of_nat off + of_nat i - a = (of_nat (off + i) :: u32)" by simp
  ultimately show "load_bytes (store_bytes m a bs) (a + of_nat off) k ! i = take k (drop off bs) ! i"
    using i assms by (simp add: nth_load_bytes store_bytes_apply del: of_nat_add)
qed (use assms in simp)

text \<open>One segment with the given offset, file size and memory size, loaded at 0x2000.\<close>

definition sample_elf :: "u64 \<Rightarrow> u8 list" where
  "sample_elf off = [0x7f, 0x45, 0x4C, 0x46, 2] @ replicate 11 0
     @ le_bytes 2 2 @ le_bytes 2 243 @ le_bytes 4 1 @ le_bytes 8 0 @ le_bytes 8 64 @ le_bytes 8 0
     @ le_bytes 4 0 @ le_bytes 2 64 @ le_bytes 2 56 @ le_bytes 2 1 @ replicate 6 0
     @ le_bytes 4 1 @ le_bytes 4 5 @ le_bytes 8 (unat off) @ le_bytes 8 0x2000 @ le_bytes 8 0x2000
     @ le_bytes 8 4 @ le_bytes 8 8 @ le_bytes 8 4096 @ [1, 2, 3, 4]"

definition sample_mem :: "u64 \<Rightarrow> mem" where
  "sample_mem off = store_bytes (\<lambda>_. 0xFF) 0x1000 (sample_elf off)"

lemma sample_elf_length: "length (sample_elf off) = 124"
  by (simp add: sample_elf_def)

lemma sample_rd:
  "off' + k \<le> 124 \<Longrightarrow> load_bytes (sample_mem off) (0x1000 + of_nat off') k = take k (drop off' (sample_elf off))"
  unfolding sample_mem_def by (rule load_store_part) (simp_all add: sample_elf_length)

lemma sample_ehdr:
  "e_phoff (ehdr (sample_mem off) 0x1000) = 64" "e_phnum (ehdr (sample_mem off) 0x1000) = 1"
  "IS_ELF64 (ehdr (sample_mem off) 0x1000)"
proof -
  show "e_phoff (ehdr (sample_mem off) 0x1000) = 64"
    using sample_rd [of 32 8 off] by (simp add: ehdr_def rd64_def sample_elf_def)
  show "e_phnum (ehdr (sample_mem off) 0x1000) = 1"
    using sample_rd [of 56 2 off] by (simp add: ehdr_def rd16_def sample_elf_def)
  show "IS_ELF64 (ehdr (sample_mem off) 0x1000)"
    using sample_rd [of 0 16 off] by (simp add: ehdr_def IS_ELF64_def sample_elf_def)
qed

lemma sample_u64: "unat (w :: u64) mod 18446744073709551616 = unat w"
  using unat_lt_pow [of w] by (intro mod_less) simp

lemma sample_phdr:
  "phdr (sample_mem off) 0x1040 = \<lparr>p_type = 1, p_flags = 5, p_offset = off, p_vaddr = 0x2000, p_paddr = 0x2000,
     p_filesz = 4, p_memsz = 8, p_align = 4096\<rparr>"
  using sample_u64 [of off] sample_rd [of 64 4 off] sample_rd [of 68 4 off] sample_rd [of 72 8 off] sample_rd [of 80 8 off]
    sample_rd [of 88 8 off] sample_rd [of 96 8 off] sample_rd [of 104 8 off] sample_rd [of 112 8 off]
  by (simp add: phdr_def rd64_def rd32_def sample_elf_def)

lemma sample_headers: "program_headers (sample_mem off) 0x1000 = [phdr (sample_mem off) 0x1040]"
  by (simp add: program_headers_def sample_ehdr sizeof_Phdr_def)

lemma sample_sane: "elf_sane (sample_mem 120) 0 0x1000 124"
  by (simp add: elf_sane_def sample_ehdr sample_headers sample_phdr seg_sane_def seg_base_def apart_def)

theorem load_elf_spec_witness:
  "load_elf (sample_mem 120) 0 0x1000 124
    = load_spec (sample_mem 120) 0 0x1000 124 [phdr (sample_mem 120) 0x1040] (sample_mem 120)"
proof -
  have u: "unat (124 :: u32) = 124" by simp
  with sample_sane have "elf_sane (sample_mem 120) 0 0x1000 (unat (124 :: u32))" by (simp only: u)
  from load_elf_spec [OF this] show ?thesis
    unfolding u sample_headers sample_ehdr by (simp add: sample_ehdr)
qed

lemma replicate4: "replicate 4 x = [x, x, x, x]"
  by (simp add: eval_nat_numeral)

theorem load_elf_loaded_witness:
  "\<exists>m'. load_elf (sample_mem 120) 0 0x1000 124 = (0, m') \<and> load_bytes m' 0x2000 8 = [1, 2, 3, 4, 0, 0, 0, 0]"
proof -
  have u: "unat (124 :: u32) = 124" by simp
  with sample_sane have sane: "elf_sane (sample_mem 120) 0 0x1000 (unat (124 :: u32))" by (simp only: u)
  let ?ph = "phdr (sample_mem 120) 0x1040"
  have "load_spec (sample_mem 120) 0 0x1000 124 [?ph] (sample_mem 120)
      = (0, store_bytes (sample_mem 120) (seg_base 0 ?ph) (seg_image (sample_mem 120) 0x1000 ?ph))"
    by (simp add: sample_phdr loadable_def PT_LOAD_def)
  with load_elf_spec_eq [OF sane] obtain m' where r: "load_elf (sample_mem 120) 0 0x1000 124 = (0, m')"
    unfolding u sample_headers sample_ehdr by (simp add: sample_ehdr)
  have img: "seg_image (sample_mem 120) 0x1000 ?ph = [1, 2, 3, 4, 0, 0, 0, 0]"
    using sample_rd [of 120 4 120] by (simp add: seg_image_def sample_phdr sample_elf_def replicate4)
  have "loadable ?ph" "segs_apart 0 [?ph]" "seg_base 0 ?ph = 0x2000"
    by (simp_all add: sample_phdr loadable_def PT_LOAD_def segs_apart_def seg_base_def)
  with load_elf_loaded [OF sane r] img
  have "load_bytes m' 0x2000 (length [1, 2, 3, 4, 0, 0, 0, 0 :: u8]) = [1, 2, 3, 4, 0, 0, 0, 0]"
    unfolding sample_headers by (metis list.set_intros(1))
  moreover have "length [1, 2, 3, 4, 0, 0, 0, 0 :: u8] = 8" by simp
  ultimately show ?thesis using r by metis
qed

text \<open>The range check of a segment compares the 64-bit sum of offset and size: a segment that runs
  past the image is refused exactly when that sum, reduced modulo 2^64, is beyond the image; when it
  wraps to a small number the segment is loaded from memory outside the image.\<close>

theorem load_segment_check:
  assumes "loadable (phdr m pa)" "p_filesz (phdr m pa) \<noteq> 0"
    and "unat sz < unat (p_offset (phdr m pa)) + unat (p_filesz (phdr m pa))"
  shows "load_segment m target elf sz pa = None \<longleftrightarrow>
    unat sz < (unat (p_offset (phdr m pa)) + unat (p_filesz (phdr m pa))) mod 2 ^ 64"
proof -
  have "(ucast sz :: u64) < p_offset (phdr m pa) + p_filesz (phdr m pa)
      \<longleftrightarrow> unat sz < (unat (p_offset (phdr m pa)) + unat (p_filesz (phdr m pa))) mod 2 ^ 64"
    by (simp add: word_less_nat_alt ucast_32_64 unat_word_ariths(1))
  with assms(1,2) show ?thesis by (simp add: load_segment_def loadable_def Let_def)
qed

theorem load_segment_check_witness:
  "load_segment (sample_mem (- 2)) 0 0x1000 124 0x1040 \<noteq> None \<and> unat (- 2 :: u64) + 4 > 124"
proof -
  have "unat (- 2 :: u64) = 2 ^ 64 - 2" by simp
  moreover have "loadable (phdr (sample_mem (- 2)) 0x1040)" by (simp add: sample_phdr loadable_def PT_LOAD_def)
  ultimately show ?thesis
    using load_segment_check [of "sample_mem (- 2)" "0x1040" 124 0 "0x1000"] by (simp add: sample_phdr)
qed

end
