(* ===== verification/KernelBoot.thy ===== *)
theory KernelBoot
  imports VM ElfLoader Uart
begin

text \<open>
  The start-up of the firmware on the first hart (hello/minit.c, init.c, bbl.c) and its ELF loader (hello/elf.c),
  over the file table and the virtual memory; and \<open>supervisor_vm_init\<close> of hello/vm.c, which needs what the
  loader found out.  \<open>None\<close> is a panic, a failed assertion or a loop that does not end.
\<close>

section \<open>State\<close>

text \<open>
  The structure \<open>current\<close> of the source: the fields that virtual memory uses are those of its state, the others
  are here, with the size of the memory, the flag that other harts wait for, and the address to continue at.
\<close>

record ('d, 'f) kstate =
  k_vm :: "('d, 'f) vmstate"
  k_phent :: u32
  k_phnum :: u32
  k_supervisor :: bool
  k_phdr :: u32
  k_phdr_size :: u32
  k_first_user :: u32
  k_after_user :: u32
  k_bias :: u32
  k_entry :: u32
  k_mem_size :: u32
  k_elf_loaded :: bool
  k_mepc :: u32

definition SUPERPAGE_SIZE :: u32 where "SUPERPAGE_SIZE = push_bit 10 RISCV_PGSIZE"
definition ET_DYN :: u16 where "ET_DYN = 3"

definition round_up :: "'a::len word \<Rightarrow> 'a word \<Rightarrow> 'a word" where "round_up a b = ((a - 1) div b + 1) * b"
definition round_down :: "'a::len word \<Rightarrow> 'a word \<Rightarrow> 'a word" where "round_down a b = a div b * b"

section \<open>The loader\<close>

definition vm_pread ::
  "('d, 'f) fatfs \<Rightarrow> nat \<Rightarrow> u32 \<Rightarrow> u32 \<Rightarrow> u32 \<Rightarrow> ('d, 'f) vmstate \<Rightarrow> (u32 \<times> ('d, 'f) vmstate) option" where
  "vm_pread E f buf sz off v =
     (case file_pread E f buf sz off (fs v) (ram v) of
        None \<Rightarrow> None
      | Some (r, d, m) \<Rightarrow> Some (r, v\<lparr>fs := d, ram := m\<rparr>))"

text \<open>A read that must be complete.\<close>

definition pread_all ::
  "('d, 'f) fatfs \<Rightarrow> nat \<Rightarrow> u32 \<Rightarrow> u32 \<Rightarrow> u32 \<Rightarrow> ('d, 'f) vmstate \<Rightarrow> ('d, 'f) vmstate option" where
  "pread_all E f buf sz off v =
     (case vm_pread E f buf sz off v of None \<Rightarrow> None | Some (r, v) \<Rightarrow> if sint r < sint sz then None else Some v)"

definition zero_ram :: "u32 \<Rightarrow> u32 \<Rightarrow> ('d, 'f) vmstate \<Rightarrow> ('d, 'f) vmstate" where
  "zero_ram a n v = v\<lparr>ram := zero_bytes a n (ram v)\<rparr>"

fun lowest_vaddr :: "mem \<Rightarrow> u32 \<Rightarrow> nat \<Rightarrow> u32 \<Rightarrow> u32" where
  "lowest_vaddr m pa 0 mv = mv"
| "lowest_vaddr m pa (Suc n) mv =
     (let ph = phdr m pa in
      lowest_vaddr m (pa + sizeof_Phdr) n
        (if p_type ph = PT_LOAD \<and> p_memsz ph \<noteq> 0 \<and> p_vaddr ph < ucast mv then ucast (p_vaddr ph) else mv))"

text \<open>
  The two kinds of segment.  The program headers are in memory, at \<open>pa\<close>, and are read again after every call,
  as in the source.  The second argument of \<open>valid_user_range\<close> is the end of the segment, not its length.
\<close>

definition load_supervisor_segment ::
  "('d, 'f) fatfs \<Rightarrow> nat \<Rightarrow> u32 \<Rightarrow> u32 \<Rightarrow> u32 \<Rightarrow> ('d, 'f) vmstate \<Rightarrow> ('d, 'f) vmstate option" where
  "load_supervisor_segment E f pa prepad vaddr v =
     (let ph = phdr (ram v) pa in
      if \<not> valid_user_range v (vaddr - prepad) (ucast (ucast vaddr + p_memsz ph)) then None
      else
        do { (r, v) \<leftarrow> vm_pread E f vaddr (ucast (p_filesz ph)) (ucast (p_offset ph)) v;
             if sint r < sint (ucast (p_filesz (phdr (ram v) pa)) :: u32) then None
             else
               (let v = zero_ram (vaddr - prepad) prepad v; ph = phdr (ram v) pa in
                Some (zero_ram (vaddr + ucast (p_filesz ph)) (ucast (p_memsz ph - p_filesz ph)) v)) })"

definition load_user_segment ::
  "('d, 'f) fatfs \<Rightarrow> nat \<Rightarrow> u32 \<Rightarrow> u32 \<Rightarrow> u32 \<Rightarrow> ('d, 'f) vmstate \<Rightarrow> ('d, 'f) vmstate option" where
  "load_user_segment E f pa prepad vaddr v =
     (let flags = MAP_FIXED OR MAP_PRIVATE;
          ph = phdr (ram v) pa
      in do {
        (a, v) \<leftarrow> mmap_locked E (vaddr - prepad) (ucast (p_filesz ph + ucast prepad)) (- 1)
                    (flags OR (if prepad \<noteq> 0 then MAP_POPULATE else 0)) (Some f) (ucast (p_offset ph - ucast prepad)) v;
        if a \<noteq> vaddr - prepad then None
        else
          (let v = zero_ram (vaddr - prepad) prepad v;
               ph = phdr (ram v) pa;
               mapped = ucast (round_up (p_filesz ph + ucast prepad) 0x1000) - prepad
           in if p_memsz ph > ucast mapped then
                do { (a, v) \<leftarrow> mmap_locked E (vaddr + mapped) (ucast (p_memsz ph - ucast mapped)) (- 1)
                                 (flags OR MAP_ANONYMOUS) None 0 v;
                     if a \<noteq> vaddr + mapped then None else Some v }
              else Some v) })"

definition k_load_segment ::
  "('d, 'f) fatfs \<Rightarrow> nat \<Rightarrow> bool \<Rightarrow> u32 \<Rightarrow> u32 \<Rightarrow> u32 \<times> ('d, 'f) vmstate \<Rightarrow> (u32 \<times> ('d, 'f) vmstate) option" where
  "k_load_segment E f super bias pa s =
     (case s of (max_vaddr, v) \<Rightarrow>
        let ph = phdr (ram v) pa in
        if p_type ph = PT_LOAD \<and> p_memsz ph \<noteq> 0 then
          (let prepad = ucast (p_vaddr ph mod 0x1000);
               vaddr = ucast (p_vaddr ph + ucast bias);
               e = ucast vaddr + p_memsz ph;
               max_vaddr = (if e > ucast max_vaddr then ucast e else max_vaddr)
           in map_option (Pair max_vaddr)
                ((if super then load_supervisor_segment else load_user_segment) E f pa prepad vaddr v))
        else Some (max_vaddr, v))"

text \<open>From the last segment down to the first.\<close>

fun k_load_segments ::
  "('d, 'f) fatfs \<Rightarrow> nat \<Rightarrow> bool \<Rightarrow> u32 \<Rightarrow> u32 \<Rightarrow> nat \<Rightarrow> u32 \<times> ('d, 'f) vmstate \<Rightarrow> (u32 \<times> ('d, 'f) vmstate) option" where
  "k_load_segments E f super bias table 0 s = Some s"
| "k_load_segments E f super bias table (Suc i) s =
     (case k_load_segment E f super bias (table + sizeof_Phdr * of_nat i) s of
        None \<Rightarrow> None
      | Some s \<Rightarrow> k_load_segments E f super bias table i s)"

text \<open>The file header and the program headers; the address \<open>hp\<close> is that of the local variable \<open>eh64\<close>.\<close>

definition read_headers ::
  "('d, 'f) fatfs \<Rightarrow> u32 \<Rightarrow> nat \<Rightarrow> ('d, 'f) kstate \<Rightarrow> ('d, 'f) vmstate option" where
  "read_headers E hp f k =
     do { (r, v) \<leftarrow> vm_pread E f hp sizeof_Ehdr 0 (k_vm k);
          let eh = ehdr (ram v) hp;
          if sint r < sint sizeof_Ehdr \<or> \<not> IS_ELF64 eh then None
          else
            (let phdr_size = ucast (e_phnum eh) * sizeof_Phdr in
             if phdr_size > k_phdr_size k then None
             else pread_all E f (k_phdr k) phdr_size (ucast (e_phoff eh)) (v\<lparr>elf64 := True\<rparr>)) }"

definition k_load_elf :: "('d, 'f) fatfs \<Rightarrow> u32 \<Rightarrow> string \<Rightarrow> ('d, 'f) kstate \<Rightarrow> ('d, 'f) kstate option" where
  "k_load_elf E hp fn k =
     do { (f, d) \<leftarrow> file_open E fn 0 (fs (k_vm k));
          v \<leftarrow> read_headers E hp f (k\<lparr>k_vm := (k_vm k)\<lparr>fs := d\<rparr>\<rparr>);
          let eh = ehdr (ram v) hp;
          let n = unat (e_phnum eh);
          let super = bit (e_entry eh) 63;
          let v = (if super then v\<lparr>first_free_paddr := round_up (first_free_paddr v) SUPERPAGE_SIZE\<rparr> else v);
          let lowest = round_down (lowest_vaddr (ram v) (k_phdr k) n (- 1)) (if super then SUPERPAGE_SIZE else RISCV_PGSIZE);
          let bias = (if super \<or> e_type eh = ET_DYN then first_free_paddr v - lowest else 0);
          let entry = ucast (e_entry eh) + (if super then 0 else bias);
          let lowest = lowest + (if super then 0 else bias);
          (max_vaddr, v) \<leftarrow> k_load_segments E f super bias (k_phdr k) n (0, v);
          Some (k\<lparr>k_vm := v\<lparr>fs := file_decref E f (fs v), brk_min := max_vaddr\<rparr>,
                  k_phnum := ucast (e_phnum eh), k_phent := sizeof_Phdr, k_supervisor := super, k_bias := bias,
                  k_entry := entry, k_first_user := lowest, k_after_user := round_up (max_vaddr - bias) RISCV_PGSIZE\<rparr>) }"

section \<open>Start-up\<close>

text \<open>The addresses are those of the local variables \<open>phdrs\<close>, of 512 bytes, and \<open>eh64\<close>.\<close>

definition run_loaded_program :: "('d, 'f) kstate \<Rightarrow> ('d, 'f) kstate option" where
  "run_loaded_program k = (if \<not> k_supervisor k then None else Some (k\<lparr>k_elf_loaded := True, k_mepc := k_entry k\<rparr>))"

definition boot_loader :: "('d, 'f) fatfs \<Rightarrow> u32 \<Rightarrow> u32 \<Rightarrow> ('d, 'f) kstate \<Rightarrow> ('d, 'f) kstate option" where
  "boot_loader E phdrs hp k =
     do { k \<leftarrow> k_load_elf E hp ''hello'' (k\<lparr>k_phdr := phdrs, k_phdr_size := 512\<rparr>);
          run_loaded_program k }"

definition memory_init :: "u32 \<Rightarrow> ('d, 'f) kstate \<Rightarrow> ('d, 'f) kstate option" where
  "memory_init num_harts k =
     (let mem_mb = 128;
          mem_size = push_bit 20 mem_mb;
          mem_size = (if drop_bit 20 mem_size < mem_mb then - 1 AND - RISCV_PGSIZE else mem_size)
      in if mem_size = 0 \<or> num_harts = 0 then None else Some (k\<lparr>k_mem_size := mem_size\<rparr>))"

definition init_first_hart ::
  "('d, 'f) fatfs \<Rightarrow> u32 \<Rightarrow> u32 \<Rightarrow> u32 \<Rightarrow> u32 \<Rightarrow> ('d, 'f) kstate \<Rightarrow> ('d, 'f) kstate option" where
  "init_first_hart E image_end num_harts phdrs hp k =
     do { let k = k\<lparr>k_vm := (k_vm k)\<lparr>fs := file_init (fs (k_vm k))\<rparr>\<rparr>;
          k \<leftarrow> memory_init num_harts k;
          boot_loader E phdrs hp (k\<lparr>k_vm := vm_init image_end num_harts (k_mem_size k) (k_vm k)\<rparr>) }"

text \<open>
  The control and status registers are hardware: a parameter that reads and writes them by number.  A register
  may keep only some of the bits written to it.
\<close>

record 'c csr_file =
  csr_rd :: "u32 \<Rightarrow> 'c \<Rightarrow> u32"
  csr_wr :: "u32 \<Rightarrow> u32 \<Rightarrow> 'c \<Rightarrow> 'c"

definition CSR_MSTATUS :: u32 where "CSR_MSTATUS = 0x300"
definition CSR_MIE :: u32 where "CSR_MIE = 0x304"
definition CSR_MTIMECMP :: u32 where "CSR_MTIMECMP = 0x321"
definition CSR_MIP :: u32 where "CSR_MIP = 0x344"
definition CSR_MCPUID :: u32 where "CSR_MCPUID = 0xf00"
definition VM_CHOICE :: u32 where "VM_CHOICE = 8"
definition MSTATUS_VM :: u32 where "MSTATUS_VM = 0x3E0000"
definition FS_FIELD :: u32 where "FS_FIELD = 0x3000"

definition EXTRACT_FIELD :: "u32 \<Rightarrow> u32 \<Rightarrow> u32" where
  "EXTRACT_FIELD v which = (v AND which) div (which AND NOT (which - 1))"

definition INSERT_FIELD :: "u32 \<Rightarrow> u32 \<Rightarrow> u32 \<Rightarrow> u32" where
  "INSERT_FIELD v which fieldval = (v AND NOT which) OR (fieldval * (which AND NOT (which - 1)))"

definition supports_extension :: "'c csr_file \<Rightarrow> char \<Rightarrow> 'c \<Rightarrow> bool" where
  "supports_extension C ext c \<longleftrightarrow> csr_rd C CSR_MCPUID c AND push_bit (of_char ext - 65) 1 \<noteq> 0"

definition mstatus_value :: u32 where
  "mstatus_value =
     (let ms = INSERT_FIELD 0 0x6 3;
          ms = INSERT_FIELD ms 0x30 1;
          ms = INSERT_FIELD ms 0x180 0;
          ms = INSERT_FIELD ms 0x40 1;
          ms = INSERT_FIELD ms MSTATUS_VM VM_CHOICE;
          ms = INSERT_FIELD ms FS_FIELD 3
      in INSERT_FIELD ms 0xC000 3)"

text \<open>The result is the new value of \<open>have_vm\<close>, where it changes.\<close>

definition mstatus_init :: "'c csr_file \<Rightarrow> bool \<Rightarrow> 'c \<Rightarrow> (bool \<times> 'c) option" where
  "mstatus_init C have c =
     (if \<not> supports_extension C CHR ''S'' c then None
      else
        (let c = csr_wr C CSR_MSTATUS mstatus_value c;
             have = (if EXTRACT_FIELD (csr_rd C CSR_MSTATUS c) MSTATUS_VM \<noteq> VM_CHOICE then False else have);
             c = csr_wr C CSR_MTIMECMP 0 c;
             c = csr_wr C CSR_MIP (csr_rd C CSR_MIP c AND NOT 8) c
         in Some (have, csr_wr C CSR_MIE (csr_rd C CSR_MIE c OR 8) c)))"

text \<open>Without hardware floating point, as the Makefile builds it.\<close>

definition fp_init :: "'c csr_file \<Rightarrow> 'c \<Rightarrow> unit option" where
  "fp_init C c =
     (if csr_rd C CSR_MSTATUS c AND FS_FIELD = 0 \<or> supports_extension C CHR ''D'' c then None else Some ())"

definition hls_init :: "u32 \<Rightarrow> u32 \<Rightarrow> mem \<Rightarrow> mem" where
  "hls_init hls hart_id m = wr32 (zero_bytes hls 24 m) (hls + 16) hart_id"

text \<open>
  The other harts wait for what the first one writes; where it has not been written they wait for ever here.
\<close>

definition boot_other_hart :: "('d, 'f) kstate \<Rightarrow> ('d, 'f) kstate option" where
  "boot_other_hart k = (if \<not> k_elf_loaded k then None else Some (k\<lparr>k_mepc := k_entry k\<rparr>))"

definition init_other_hart :: "u32 \<Rightarrow> u32 \<Rightarrow> ('d, 'f) kstate \<Rightarrow> ('d, 'f) kstate option" where
  "init_other_hart hart_id num_harts k =
     (if root_page_table (k_vm k) = 0 then None
      else
        (let k = k\<lparr>k_vm := (k_vm k)\<lparr>sptbr := root_page_table (k_vm k)\<rparr>\<rparr> in
         if hart_id \<ge> num_harts then None else boot_other_hart k))"

text \<open>Mounting the drive is FatFs, the parameter \<open>mount\<close>; its result is not looked at.\<close>

record ('c, 'b, 'd, 'f) machine =
  m_csr :: 'c
  m_dev :: 'b
  m_k :: "('d, 'f) kstate"

definition machine_init ::
  "'c csr_file \<Rightarrow> 'b bus \<Rightarrow> ('d, 'f) fatfs \<Rightarrow> ('d \<Rightarrow> 'd) \<Rightarrow> u32 \<Rightarrow> u32 \<Rightarrow> u32 \<Rightarrow> u32 \<Rightarrow> u32 \<Rightarrow> u32
    \<Rightarrow> ('c, 'b, 'd, 'f) machine \<Rightarrow> ('c, 'b, 'd, 'f) machine option" where
  "machine_init C B E mount hls image_end num_harts phdrs hp hart_id s =
     (let k = m_k s;
          v = k_vm k;
          v = v\<lparr>fs := (fs v)\<lparr>drive := mount (drive (fs v))\<rparr>, ram := hls_init hls hart_id (ram v)\<rparr>
      in do { (have, c) \<leftarrow> mstatus_init C (have_vm v) (m_csr s);
              fp_init C c;
              let k = k\<lparr>k_vm := v\<lparr>have_vm := have\<rparr>\<rparr>;
              k \<leftarrow> (if hart_id = 0 then init_first_hart E image_end num_harts phdrs hp k
                   else init_other_hart hart_id num_harts k);
              Some \<lparr>m_csr = c, m_dev = uart_init B (m_dev s), m_k = k\<rparr> })"

text \<open>What the kernel asks for: the memory that is left to it, or all ones.\<close>

definition sbi_query_memory :: "u32 \<Rightarrow> u32 \<Rightarrow> ('d, 'f) kstate \<Rightarrow> u32 \<times> ('d, 'f) kstate" where
  "sbi_query_memory ident p k =
     (if ident = 0 then
        (let m = wr32 (ram (k_vm k)) p (first_free_paddr (k_vm k))
         in (0, k\<lparr>k_vm := (k_vm k)\<lparr>ram := wr32 m (p + 4) (k_mem_size k - rd32 m p)\<rparr>\<rparr>))
      else (- 1, k))"

section \<open>The page table of the program\<close>

text \<open>\<open>supervisor_vm_init\<close>: the loop over the superpages of the program, and the pages of the firmware.\<close>

partial_function (option) map_superpages ::
  "u32 \<Rightarrow> u32 \<Rightarrow> u32 \<Rightarrow> u32 \<Rightarrow> u32 \<Rightarrow> ('d, 'f) vmstate \<Rightarrow> ('d, 'f) vmstate option" where
  "map_superpages first mem_size middle vaddr paddr v =
     (if paddr < mem_size then
        (let idx = (drop_bit 22 first AND 0x3FF) + drop_bit 22 (vaddr - first) in
         case pte_create (drop_bit 12 paddr) (1 OR 2 OR 4) False of
           None \<Rightarrow> None
         | Some pte \<Rightarrow>
             map_superpages first mem_size middle (vaddr + SUPERPAGE_SIZE) (paddr + SUPERPAGE_SIZE) (set_pte (pte_addr middle idx) pte v))
      else Some v)"

fun map_firmware :: "u32 \<Rightarrow> u32 \<Rightarrow> nat \<Rightarrow> ('d, 'f) vmstate \<Rightarrow> ('d, 'f) vmstate option" where
  "map_firmware table pages 0 v = Some v"
| "map_firmware table pages (Suc n) v =
     (let i = pages - of_nat (Suc n) in
      case pte_create i (1 OR 4) False of
        None \<Rightarrow> None
      | Some pte \<Rightarrow> map_firmware table pages n (set_pte (pte_addr table (1024 - pages + i)) pte v))"

definition zero_page :: "u32 \<Rightarrow> ('d, 'f) vmstate \<Rightarrow> ('d, 'f) vmstate" where
  "zero_page p v = v\<lparr>ptes := (\<lambda>a. if a - p < RISCV_PGSIZE then 0 else ptes v a), ram := zero_bytes p RISCV_PGSIZE (ram v)\<rparr>"

definition supervisor_vm_init :: "u32 \<Rightarrow> ('d, 'f) kstate \<Rightarrow> ('d, 'f) kstate option" where
  "supervisor_vm_init image_end k =
     (let v = k_vm k;
          highest_va = - first_free_paddr v;
          mem_size = min (k_mem_size k) (highest_va - k_first_user k) AND - SUPERPAGE_SIZE;
          sbi_pt = k_after_user k + k_bias k;
          root_pt = sbi_pt + RISCV_PGSIZE;
          v = zero_page root_pt (zero_page sbi_pt v);
          pages = ROUNDUP image_end div RISCV_PGSIZE
      in do {
        v \<leftarrow> map_superpages (k_first_user k) mem_size root_pt (k_first_user k) (k_first_user k + k_bias k) v;
        v \<leftarrow> map_firmware sbi_pt pages (unat pages) v;
        let sbi_pte = pte_addr root_pt 0x3FF;
        if ptes v sbi_pte \<noteq> 0 then None
        else
          (let v = set_pte sbi_pte (ptd_create (drop_bit 12 sbi_pt)) v in
           if next_free_page v \<noteq> 0 then None
           else Some (k\<lparr>k_vm := v\<lparr>free_pages := 0, root_page_table := root_pt, sptbr := root_pt\<rparr>,
                        k_mem_size := mem_size, k_after_user := k_after_user k + 2 * RISCV_PGSIZE\<rparr>)) })"

section \<open>Headers of a file\<close>

text \<open>The file as a memory of its own, from address 0.\<close>

definition file_ehdr :: "u8 list \<Rightarrow> Elf64_Ehdr" where
  "file_ehdr img = ehdr (store_bytes (\<lambda>_. 0) 0 img) 0"

definition file_phdrs :: "u8 list \<Rightarrow> Elf64_Phdr list" where
  "file_phdrs img = program_headers (store_bytes (\<lambda>_. 0) 0 img) 0"

lemma load_bytes_shift: "load_bytes (\<lambda>x. m (x + c)) a n = load_bytes m (a + c) n"
  by (induction n arbitrary: a) (simp_all add: add.commute add.left_commute)

lemma rd_shift:
  "rd16 (\<lambda>x. m (x + c)) a = rd16 m (a + c)" "rd32 (\<lambda>x. m (x + c)) a = rd32 m (a + c)"
  "rd64 (\<lambda>x. m (x + c)) a = rd64 m (a + c)"
  by (simp_all add: rd16_def rd32_def rd64_def load_bytes_shift)

lemma hdr_shift: "ehdr (\<lambda>x. m (x + c)) a = ehdr m (a + c)" "phdr (\<lambda>x. m (x + c)) a = phdr m (a + c)"
  by (simp_all add: ehdr_def phdr_def rd_shift load_bytes_shift add_ac)

text \<open>Headers in memory are those of the file when their bytes are.\<close>

lemma store_same_on:
  assumes "off + n \<le> length img" "length img \<le> 2 ^ 32"
  shows "same_on a n (store_bytes m a (take n (drop off img))) (\<lambda>x. store_bytes (\<lambda>_. 0) 0 img (x + (of_nat off - a)))"
  unfolding same_on_def
proof (intro allI impI)
  fix i assume i: "i < n"
  let ?bs = "take n (drop off img)"
  have l: "off + i < length img" using i assms(1) by linarith
  then have o: "unat (of_nat (off + i) :: u32) = off + i" using assms(2) by (intro unat_offset) linarith
  have i2: "unat (of_nat i :: u32) = i" using l assms(2) by (intro unat_offset) linarith
  have lb: "length ?bs = n" "n \<le> 2 ^ 32" using assms by simp_all
  have "store_bytes m a ?bs (a + of_nat i) = ?bs ! i" using i lb i2 by (simp add: store_bytes_apply)
  also have "\<dots> = img ! (off + i)" using i l by simp
  also have "\<dots> = store_bytes (\<lambda>_. 0) 0 img (of_nat (off + i))" using l o assms(2) by (simp add: store_bytes_apply del: of_nat_add)
  finally show "store_bytes m a ?bs (a + of_nat i) = store_bytes (\<lambda>_. 0) 0 img (a + of_nat i + (of_nat off - a))" by (simp add: add.commute)
qed

lemma stored_ehdr:
  assumes "64 \<le> length img" "length img \<le> 2 ^ 32"
  shows "ehdr (store_bytes m a (take 64 img)) a = file_ehdr img"
  using same_on_ehdr [OF store_same_on [of 0 64 img a m]] assms hdr_shift(1) [of "store_bytes (\<lambda>_. 0) 0 img" "- a" a]
  by (simp add: file_ehdr_def)

lemma stored_phdr:
  assumes "off + 56 * n \<le> length img" "length img \<le> 2 ^ 32" "i < n"
  shows "phdr (store_bytes m a (take (56 * n) (drop off img))) (a + of_nat (56 * i)) =
    phdr (store_bytes (\<lambda>_. 0) 0 img) (of_nat off + of_nat i * sizeof_Phdr)"
proof -
  have "56 * i + 56 \<le> 56 * n" using assms(3) by simp
  from same_on_phdr [OF store_same_on [OF assms(1,2), of a m] this]
  show ?thesis by (simp add: hdr_shift sizeof_Phdr_def add_ac mult.commute)
qed

section \<open>Storing a segment\<close>

lemma zero_bytes_store: "zero_bytes a n m = store_bytes m a (replicate (unat n) 0)"
proof
  have "unat n < 2 ^ 32" by simp
  then have "unat n \<le> 2 ^ 32" by (rule less_imp_le)
  then show "zero_bytes a n m x = store_bytes m a (replicate (unat n) 0) x" for x
    by (simp add: zero_bytes_def store_bytes_apply word_less_nat_alt)
qed

lemma store_prepend:
  assumes "length xs + length ys \<le> 2 ^ 32"
  shows "store_bytes (store_bytes m (a + of_nat (length xs)) ys) a xs = store_bytes m a (xs @ ys)"
proof
  fix x
  have l: "length xs \<le> 2 ^ 32" "length ys \<le> 2 ^ 32" using assms by simp_all
  show "store_bytes (store_bytes m (a + of_nat (length xs)) ys) a xs x = store_bytes m a (xs @ ys) x"
  proof (cases "unat (x - a) < length xs")
    case True
    then show ?thesis using assms l by (simp add: store_bytes_apply nth_append)
  next
    case False
    show ?thesis unfolding store_bytes_append using l False by (simp add: store_bytes_apply)
  qed
qed

lemma store_middle:
  assumes "length xs + length ys + length zs \<le> 2 ^ 32" "b = a + of_nat (length xs)" "c = b + of_nat (length ys)"
  shows "store_bytes (store_bytes (store_bytes m b ys) a xs) c zs = store_bytes m a (xs @ ys @ zs)"
  using assms store_prepend [of xs ys m a] by (simp add: store_bytes_append add.assoc)

section \<open>Reading the file\<close>

definition holds_file :: "('d \<Rightarrow> 'f \<Rightarrow> bool) \<Rightarrow> ('d \<Rightarrow> 'f \<Rightarrow> u8 list) \<Rightarrow> nat \<Rightarrow> u8 list \<Rightarrow> ('d, 'f) fstate \<Rightarrow> bool" where
  "holds_file good content f img d \<longleftrightarrow> file_good good f d \<and> file_content content f d = img"

lemma vm_pread_ok:
  assumes "fat_laws E good content pos" "holds_file good content f img (fs v)" "unat off \<le> length img"
  shows "\<exists>d. vm_pread E f buf sz off v =
      Some (of_nat (length (take (unat sz) (drop (unat off) img))),
        v\<lparr>fs := d, ram := store_bytes (ram v) buf (take (unat sz) (drop (unat off) img))\<rparr>) \<and> holds_file good content f img d"
proof -
  have i: "f < length (files (fs v))" "content (drive (fs v)) (fd (files (fs v) ! f)) = img" "good (drive (fs v)) (fd (files (fs v) ! f))"
    using assms(2) by (simp_all add: holds_file_def file_content_def file_good_def)
  obtain x' d' x'' d'' where s: "f_lseek E (drive (fs v)) (fd (files (fs v) ! f)) off = (0, x', d')"
    "f_read E d' x' sz = (0, take (unat sz) (drop (unat off) img), x'', d'')" "content d'' x'' = img" "good d'' x''"
    by (rule fat_seek_read [OF assms(1) i(3), of off sz]) (use assms(3) i(2) in auto)
  have "file_pread E f buf sz off (fs v) (ram v) = Some (of_nat (length (take (unat sz) (drop (unat off) img))),
      put_fd f x'' d'' (fs v), store_bytes (ram v) buf (take (unat sz) (drop (unat off) img)))"
    unfolding file_pread_def s(1) Let_def prod.case s(2) by (simp only: refl not_True_eq_False if_False simp_thms)
  then have "vm_pread E f buf sz off v = Some (of_nat (length (take (unat sz) (drop (unat off) img))),
      v\<lparr>fs := put_fd f x'' d'' (fs v), ram := store_bytes (ram v) buf (take (unat sz) (drop (unat off) img))\<rparr>)"
    by (simp only: vm_pread_def option.case prod.case)
  moreover have "holds_file good content f img (put_fd f x'' d'' (fs v))"
    using i(1) s(3,4) by (simp add: holds_file_def file_content_def file_good_def)
  ultimately show ?thesis by blast
qed
section \<open>What a segment leaves in memory\<close>

definition seg_at :: "u32 \<Rightarrow> Elf64_Phdr \<Rightarrow> u32" where "seg_at bias ph = ucast (p_vaddr ph) + bias"
definition seg_pad :: "Elf64_Phdr \<Rightarrow> u32" where "seg_pad ph = ucast (p_vaddr ph mod 0x1000)"

definition seg_content :: "u8 list \<Rightarrow> Elf64_Phdr \<Rightarrow> u8 list" where
  "seg_content img ph = take (unat (p_filesz ph)) (drop (unat (p_offset ph)) img) @ replicate (unat (p_memsz ph) - unat (p_filesz ph)) 0"

text \<open>The content, and zeros from the beginning of its first page.\<close>

definition seg_store :: "u32 \<Rightarrow> u8 list \<Rightarrow> Elf64_Phdr \<Rightarrow> mem \<Rightarrow> mem" where
  "seg_store bias img ph m =
     (if loadable ph then store_bytes m (seg_at bias ph - seg_pad ph) (replicate (unat (seg_pad ph)) 0 @ seg_content img ph) else m)"

definition seg_fits :: "u8 list \<Rightarrow> Elf64_Phdr \<Rightarrow> bool" where
  "seg_fits img ph \<longleftrightarrow> unat (p_filesz ph) \<le> unat (p_memsz ph) \<and> unat (p_offset ph) + unat (p_filesz ph) \<le> length img
     \<and> unat (seg_pad ph) + unat (p_memsz ph) < 2 ^ 32"

definition seg_span :: "Elf64_Phdr \<Rightarrow> nat" where "seg_span ph = unat (seg_pad ph) + unat (p_memsz ph)"

lemma seg_content_length: "seg_fits img ph \<Longrightarrow> length (seg_content img ph) = unat (p_memsz ph)"
  by (auto simp: seg_content_def seg_fits_def min_def)

lemma apart_inside:
  "apart a n b k \<Longrightarrow> off + n' \<le> n \<Longrightarrow> apart (a + of_nat off) n' b k"
  using apart_sub [of b k a n k off n'] by (simp add: apart_sym)

lemma apart_phdr:
  assumes "apart a (length bs) pa 56" "length bs \<le> 2 ^ 32"
  shows "phdr (store_bytes m a bs) pa = phdr m pa"
  using same_on_phdr [OF same_on_store [OF assms], of m m 0] by (simp add: same_on_def)

lemma load_supervisor_segment_ok:
  assumes F: "fat_laws E good content pos" "holds_file good content f img (fs v)" "length img < 2 ^ 32"
    and P: "phdr (ram v) pa = ph" "loadable ph" "seg_fits img ph"
    and R: "valid_user_range v (seg_at bias ph - seg_pad ph) (ucast (ucast (seg_at bias ph) + p_memsz ph))"
    and A: "apart (seg_at bias ph - seg_pad ph) (seg_span ph) pa 56"
  shows "\<exists>d. load_supervisor_segment E f pa (seg_pad ph) (seg_at bias ph) v = Some (v\<lparr>fs := d, ram := seg_store bias img ph (ram v)\<rparr>)
    \<and> holds_file good content f img d"
proof -
  let ?v = "seg_at bias ph" and ?p = "seg_pad ph"
  let ?bs = "take (unat (p_filesz ph)) (drop (unat (p_offset ph)) img)" and ?zs = "replicate (unat (p_memsz ph) - unat (p_filesz ph)) (0 :: u8)"
  let ?pre = "replicate (unat ?p) (0 :: u8)"
  have n: "unat (p_filesz ph) \<le> unat (p_memsz ph)" "unat (p_offset ph) + unat (p_filesz ph) \<le> length img"
    "unat ?p + unat (p_memsz ph) < 2 ^ 32" using P(3) by (simp_all add: seg_fits_def)
  have small: "unat (p_filesz ph) < 2 ^ 32" "unat (p_offset ph) < 2 ^ 32" "unat (p_memsz ph - p_filesz ph) < 2 ^ 32"
    "unat (p_memsz ph - p_filesz ph) = unat (p_memsz ph) - unat (p_filesz ph)"
    using n F(3) by (simp_all add: unat_sub_if')
  have lb: "length ?bs = unat (p_filesz ph)" using n(2) by simp
  have off: "unat (ucast (p_offset ph) :: u32) = unat (p_offset ph)" and fsz: "unat (ucast (p_filesz ph) :: u32) = unat (p_filesz ph)"
    and gap: "unat (ucast (p_memsz ph - p_filesz ph) :: u32) = unat (p_memsz ph) - unat (p_filesz ph)"
    using small by (simp_all only: ucast_unat_small)
  have a: "?v = (?v - ?p) + of_nat (unat ?p)" by simp
  obtain d where d: "vm_pread E f ?v (ucast (p_filesz ph)) (ucast (p_offset ph)) v =
      Some (of_nat (unat (p_filesz ph)), v\<lparr>fs := d, ram := store_bytes (ram v) ?v ?bs\<rparr>)" "holds_file good content f img d"
    using vm_pread_ok [OF F(1,2), of "ucast (p_offset ph)" ?v "ucast (p_filesz ph)"] n(2) off fsz lb by auto
  let ?m1 = "store_bytes (ram v) ?v ?bs" let ?m2 = "store_bytes ?m1 (?v - ?p) ?pre"
  have A1: "apart ?v (length ?bs) pa 56"
    using apart_inside [OF A, of "unat ?p" "length ?bs"] n(1) lb by (simp add: seg_span_def)
  have A2: "apart (?v - ?p) (length ?pre) pa 56"
    using apart_le [OF A, of "length ?pre" 56] by (simp add: seg_span_def)
  have ph1: "phdr ?m1 pa = ph" using apart_phdr [OF A1] lb small(1) P(1) by simp
  have "length ?pre \<le> 2 ^ 32" using n(3) by simp
  then have ph2: "phdr ?m2 pa = ph" using apart_phdr [OF A2] ph1 by simp
  have s: "(of_nat (unat (p_filesz ph)) :: u32) = ucast (p_filesz ph)" by simp
  have "?v + ucast (p_filesz ph) = ?v + of_nat (length ?bs)" unfolding lb by simp
  then have fin: "store_bytes ?m2 (?v + ucast (p_filesz ph)) ?zs = seg_store bias img ph (ram v)"
    unfolding seg_store_def seg_content_def using P(2) n lb
    by (subst store_middle [of ?pre ?bs ?zs ?v "?v - ?p"]) simp_all
  have "load_supervisor_segment E f pa ?p ?v v = Some (v\<lparr>fs := d, ram := seg_store bias img ph (ram v)\<rparr>)"
    unfolding load_supervisor_segment_def Let_def P(1) zero_ram_def zero_bytes_store fin [symmetric]
    using R d(1) by (simp add: ph1 ph2 s gap)
  with d(2) show ?thesis by blast
qed
section \<open>The loop over the segments\<close>

definition seg_range :: "u32 \<Rightarrow> u32 \<Rightarrow> u32 \<Rightarrow> u32 \<Rightarrow> bool" where
  "seg_range lo hi a len \<longleftrightarrow> \<not> a + len < a \<and> lo \<le> a \<and> a + len \<le> hi"

lemma valid_seg_range: "valid_user_range v a len = seg_range (first_free_paddr v) (mmap_max v) a len"
  by (simp add: valid_user_range_def seg_range_def)

lemma ucast_32: "unat (ucast (w :: u64) :: u32) = unat w mod 4294967296"
  by (simp add: unsigned_ucast_eq take_bit_eq_mod)

lemma ucast_sum_32: "(ucast ((a :: u64) + ucast (b :: u32)) :: u32) = ucast a + b"
proof -
  have m: "x mod 18446744073709551616 mod 4294967296 = x mod 4294967296" for x :: nat by (rule mod_mod_cancel) simp
  have "unat (ucast (a + ucast b) :: u32) = (unat a + unat b) mod 18446744073709551616 mod 4294967296"
    by (simp only: ucast_32 unat_word_ariths(1) ucast_32_64) simp
  also have "\<dots> = (unat a mod 4294967296 + unat b) mod 4294967296" unfolding m by (rule mod_add_left_eq [symmetric])
  also have "\<dots> = unat (ucast a + b)" by (simp only: unat_word_ariths(1) ucast_32) simp
  finally show ?thesis by (simp only: word_unat_eq_iff)
qed

lemma seg_at_cast: "ucast (p_vaddr ph + ucast bias) = seg_at bias ph"
  by (simp only: seg_at_def ucast_sum_32)

text \<open>What the loader asks of a segment: it fits, passes the check of the source, and lies apart from the table.\<close>

definition seg_ok :: "u32 \<Rightarrow> u32 \<Rightarrow> u32 \<Rightarrow> nat \<Rightarrow> u32 \<Rightarrow> u8 list \<Rightarrow> Elf64_Phdr \<Rightarrow> bool" where
  "seg_ok lo hi table n bias img ph \<longleftrightarrow> seg_fits img ph \<and>
     seg_range lo hi (seg_at bias ph - seg_pad ph) (ucast (ucast (seg_at bias ph) + p_memsz ph)) \<and>
     apart (seg_at bias ph - seg_pad ph) (seg_span ph) table (56 * n)"

lemma k_load_segment_ok:
  assumes "fat_laws E good content pos" "holds_file good content f img (fs v)" "length img < 2 ^ 32"
    and "phdr (ram v) pa = ph"
    and "loadable ph \<Longrightarrow> seg_fits img ph \<and> apart (seg_at bias ph - seg_pad ph) (seg_span ph) pa 56 \<and>
      seg_range (first_free_paddr v) (mmap_max v) (seg_at bias ph - seg_pad ph) (ucast (ucast (seg_at bias ph) + p_memsz ph))"
  shows "\<exists>mx' d. k_load_segment E f True bias pa (mx, v) = Some (mx', v\<lparr>fs := d, ram := seg_store bias img ph (ram v)\<rparr>)
    \<and> holds_file good content f img d"
proof (cases "loadable ph")
  case True
  then have l: "p_type ph = PT_LOAD \<and> p_memsz ph \<noteq> 0" by (simp add: loadable_def)
  have "valid_user_range v (seg_at bias ph - seg_pad ph) (ucast (ucast (seg_at bias ph) + p_memsz ph))"
    using assms(5) [OF True] by (simp add: valid_seg_range)
  from load_supervisor_segment_ok [OF assms(1-4) True _ this] assms(5) [OF True] obtain d where
    "load_supervisor_segment E f pa (seg_pad ph) (seg_at bias ph) v = Some (v\<lparr>fs := d, ram := seg_store bias img ph (ram v)\<rparr>)"
    "holds_file good content f img d" by blast
  then show ?thesis unfolding k_load_segment_def prod.case Let_def assms(4)
    by (auto simp: l seg_at_cast seg_pad_def [symmetric])
next
  case False
  then have "\<not> (p_type ph = PT_LOAD \<and> p_memsz ph \<noteq> 0)" by (simp add: loadable_def)
  then have "k_load_segment E f True bias pa (mx, v) = Some (mx, v\<lparr>fs := fs v, ram := seg_store bias img ph (ram v)\<rparr>)"
    unfolding k_load_segment_def prod.case Let_def assms(4) if_not_P [OF \<open>\<not> (_ \<and> _)\<close>] using False by (simp add: seg_store_def)
  with assms(2) show ?thesis by blast
qed

lemma seg_store_keeps_table:
  assumes "loadable ph \<Longrightarrow> seg_ok lo hi table n bias img ph" "j < n"
  shows "phdr (seg_store bias img ph m) (table + of_nat (56 * j)) = phdr m (table + of_nat (56 * j))"
proof (cases "loadable ph")
  case True
  note s = assms(1) [OF True, unfolded seg_ok_def]
  let ?bs = "replicate (unat (seg_pad ph)) 0 @ seg_content img ph"
  have l: "length ?bs = seg_span ph" "seg_span ph \<le> 2 ^ 32" using s by (simp_all add: seg_content_length seg_span_def seg_fits_def)
  have "56 * j + 56 \<le> 56 * n" using assms(2) by simp
  with s have "apart (seg_at bias ph - seg_pad ph) (length ?bs) (table + of_nat (56 * j)) 56"
    unfolding l(1) by (intro apart_sub [of _ "seg_span ph" table "56 * n"]) simp_all
  from apart_phdr [OF this, of m] l True show ?thesis by (simp add: seg_store_def)
qed (simp add: seg_store_def)

lemma k_load_segments_ok:
  assumes L: "fat_laws E good content pos" "length img < 2 ^ 32"
    and S: "\<forall>ph\<in>set phs. loadable ph \<longrightarrow> seg_ok lo hi table (length phs) bias img ph"
  shows "i \<le> length phs \<Longrightarrow> \<forall>j<length phs. phdr (ram v) (table + of_nat (56 * j)) = phs ! j \<Longrightarrow>
    first_free_paddr v = lo \<Longrightarrow> mmap_max v = hi \<Longrightarrow> holds_file good content f img (fs v) \<Longrightarrow>
    \<exists>mx' d. k_load_segments E f True bias table i (mx, v) =
      Some (mx', v\<lparr>fs := d, ram := foldr (seg_store bias img) (take i phs) (ram v)\<rparr>) \<and> holds_file good content f img d"
proof (induction i arbitrary: v mx)
  case 0
  then show ?case by (intro exI [of _ mx] exI [of _ "fs v"]) simp
next
  case (Suc i)
  let ?ph = "phs ! i" and ?pa = "table + of_nat (56 * i)"
  have i: "i < length phs" using Suc.prems(1) by simp
  have s: "loadable ?ph \<Longrightarrow> seg_ok lo hi table (length phs) bias img ?ph" using S i by simp
  have "56 * i + 56 \<le> 56 * length phs" using i by simp
  then have ap: "loadable ?ph \<Longrightarrow> apart (seg_at bias ?ph - seg_pad ?ph) (seg_span ?ph) ?pa 56"
    using s by (intro apart_sub [of _ "seg_span ?ph" table "56 * length phs"]) (auto simp: seg_ok_def)
  have "phdr (ram v) ?pa = ?ph" using Suc.prems(2) i by blast
  from k_load_segment_ok [where mx = mx and bias = bias, OF L(1) Suc.prems(5) L(2) this] s ap Suc.prems(3,4) obtain mx1 d1 where
    st: "k_load_segment E f True bias ?pa (mx, v) = Some (mx1, v\<lparr>fs := d1, ram := seg_store bias img ?ph (ram v)\<rparr>)"
    and d1: "holds_file good content f img d1" unfolding seg_ok_def by blast
  let ?v = "v\<lparr>fs := d1, ram := seg_store bias img ?ph (ram v)\<rparr>"
  have "\<forall>j<length phs. phdr (ram ?v) (table + of_nat (56 * j)) = phs ! j"
    using seg_store_keeps_table [OF s] Suc.prems(2) by simp
  from Suc.IH [of ?v mx1, OF _ this] Suc.prems(1,3,4) d1 obtain mx2 d2 where
    "k_load_segments E f True bias table i (mx1, ?v) = Some (mx2, ?v\<lparr>fs := d2, ram := foldr (seg_store bias img) (take i phs) (ram ?v)\<rparr>)"
    "holds_file good content f img d2" by auto
  moreover have "table + sizeof_Phdr * of_nat i = ?pa" by (simp add: sizeof_Phdr_def)
  ultimately show ?case using st by (auto simp: take_Suc_conv_app_nth [OF i])
qed
section \<open>The whole load\<close>

definition lower_addr :: "Elf64_Phdr \<Rightarrow> u32 \<Rightarrow> u32" where
  "lower_addr ph mv = (if loadable ph \<and> p_vaddr ph < ucast mv then ucast (p_vaddr ph) else mv)"

lemma lowest_vaddr_fold:
  "lowest_vaddr m pa n mv = fold lower_addr (map (\<lambda>i. phdr m (pa + of_nat (56 * i))) [0..<n]) mv"
proof (induction n arbitrary: pa mv)
  case (Suc n)
  have "map (\<lambda>i. phdr m (pa + of_nat (56 * i))) [0..<Suc n] = phdr m pa # map (\<lambda>i. phdr m (pa + sizeof_Phdr + of_nat (56 * i))) [0..<n]"
    unfolding map_upt_Suc by (simp add: sizeof_Phdr_def add.assoc)
  then show ?case using Suc.IH [of "pa + sizeof_Phdr"] by (simp add: Let_def lower_addr_def loadable_def conj_assoc)
qed simp

text \<open>A kernel: a 64-bit ELF file with its headers in place, whose entry has the sign bit of a supervisor address.\<close>

definition kernel_image :: "u8 list \<Rightarrow> nat \<Rightarrow> bool" where
  "kernel_image img rm \<longleftrightarrow> 64 \<le> length img \<and> length img < 2 ^ 32 \<and> IS_ELF64 (file_ehdr img) \<and> bit (e_entry (file_ehdr img)) 63 \<and>
     56 * unat (e_phnum (file_ehdr img)) \<le> rm \<and>
     unat (e_phoff (file_ehdr img)) + 56 * unat (e_phnum (file_ehdr img)) \<le> length img"

definition load_base :: "u32 \<Rightarrow> u32" where "load_base free = round_up free SUPERPAGE_SIZE"

definition load_bias :: "u32 \<Rightarrow> u8 list \<Rightarrow> u32" where
  "load_bias free img = load_base free - round_down (fold lower_addr (file_phdrs img) (- 1)) SUPERPAGE_SIZE"

text \<open>The memory once the headers have been read.\<close>

definition with_headers :: "u8 list \<Rightarrow> u32 \<Rightarrow> u32 \<Rightarrow> mem \<Rightarrow> mem" where
  "with_headers img hp table m = store_bytes (store_bytes m hp (take 64 img)) table
     (take (56 * unat (e_phnum (file_ehdr img))) (drop (unat (e_phoff (file_ehdr img))) img))"

lemma table_size: "unat (ucast (n :: u16) * sizeof_Phdr) = 56 * unat n"
proof -
  have n: "unat n < 65536" by simp
  have "unat (ucast n :: u32) = unat n" by (simp add: unsigned_ucast_eq take_bit_eq_mod less_trans [OF unat_u16_less])
  moreover have "unat n * 56 < 2 ^ 32" using n by (simp del: unat_u16_less)
  ultimately show ?thesis by (simp add: unat_word_ariths(2) sizeof_Phdr_def mult.commute)
qed

lemma file_phdrs_length [simp]: "length (file_phdrs img) = unat (e_phnum (file_ehdr img))"
  by (simp add: file_phdrs_def program_headers_def file_ehdr_def)

lemma header_facts:
  assumes K: "kernel_image img rm" and A: "apart hp 64 table (56 * length (file_phdrs img))"
  shows "ehdr (with_headers img hp table m) hp = file_ehdr img"
    and "j < length (file_phdrs img) \<Longrightarrow> phdr (with_headers img hp table m) (table + of_nat (56 * j)) = file_phdrs img ! j"
proof -
  let ?n = "unat (e_phnum (file_ehdr img))" and ?o = "unat (e_phoff (file_ehdr img))"
  have k: "64 \<le> length img" "length img \<le> 2 ^ 32" "?o + 56 * ?n \<le> length img" using K by (simp_all add: kernel_image_def)
  let ?bs = "take (56 * ?n) (drop ?o img)"
  have l: "length ?bs = 56 * ?n" "length ?bs \<le> 2 ^ 32" using k by simp_all
  have "apart table (length ?bs) hp 64" using A l by (simp add: apart_sym)
  from same_on_store [OF this l(2), of "store_bytes m hp (take 64 img)" "store_bytes m hp (take 64 img)"]
  have "same_on hp 64 (store_bytes m hp (take 64 img)) (with_headers img hp table m)" by (simp add: with_headers_def same_on_def)
  from same_on_ehdr [OF this] stored_ehdr [OF k(1,2)] show "ehdr (with_headers img hp table m) hp = file_ehdr img" by simp
  show "phdr (with_headers img hp table m) (table + of_nat (56 * j)) = file_phdrs img ! j" if "j < length (file_phdrs img)"
  proof -
    have j: "j < ?n" using that by simp
    have p: "(ucast (e_phoff (file_ehdr img)) :: u32) = of_nat ?o" by simp
    show ?thesis using stored_phdr [OF k(3,2) j] j
      unfolding with_headers_def file_phdrs_def program_headers_def file_ehdr_def [symmetric] p by simp
  qed
qed

lemma read_headers_ok:
  assumes L: "fat_laws E good content pos" and F: "holds_file good content f img (fs (k_vm k))"
    and K: "kernel_image img (unat (k_phdr_size k))"
  shows "\<exists>d. read_headers E hp f k = Some ((k_vm k)\<lparr>elf64 := True, fs := d, ram := with_headers img hp (k_phdr k) (ram (k_vm k))\<rparr>) \<and>
    holds_file good content f img d"
proof -
  let ?eh = "file_ehdr img" let ?n = "unat (e_phnum ?eh)" and ?v = "k_vm k"
  have k: "64 \<le> length img" "length img < 2 ^ 32" "length img \<le> 2 ^ 32" "IS_ELF64 ?eh" "56 * ?n \<le> unat (k_phdr_size k)" "unat (e_phoff ?eh) + 56 * ?n \<le> length img"
    using K by (simp_all add: kernel_image_def)
  have s: "unat sizeof_Ehdr = 64" by (simp add: sizeof_Ehdr_def)
  from vm_pread_ok [OF L F, of 0 hp sizeof_Ehdr] k(1) obtain d1 where
    d1: "vm_pread E f hp sizeof_Ehdr 0 ?v = Some (sizeof_Ehdr, ?v\<lparr>fs := d1, ram := store_bytes (ram ?v) hp (take 64 img)\<rparr>)"
    "holds_file good content f img d1" by (auto simp: s sizeof_Ehdr_def)
  let ?v1 = "?v\<lparr>fs := d1, ram := store_bytes (ram ?v) hp (take 64 img)\<rparr>"
  have eh: "ehdr (ram ?v1) hp = ?eh" using stored_ehdr [OF k(1,3)] by simp
  have "unat (e_phoff ?eh) < 2 ^ 32" using k(2,6) by linarith
  then have off: "unat (ucast (e_phoff ?eh) :: u32) = unat (e_phoff ?eh)" by (rule ucast_unat_small)
  let ?sz = "ucast (e_phnum ?eh) * sizeof_Phdr" and ?w = "?v1\<lparr>elf64 := True\<rparr>"
  have "length (take (56 * ?n) (drop (unat (e_phoff ?eh)) img)) = 56 * ?n" using k(6) by simp
  moreover have "of_nat (unat ?sz) = ?sz" by simp
  then have w: "of_nat (56 * ?n) = ?sz" unfolding table_size .
  moreover have "holds_file good content f img (fs ?w)" using d1(2) by simp
  ultimately obtain d2 where
    d2: "vm_pread E f (k_phdr k) ?sz (ucast (e_phoff ?eh)) ?w =
      Some (?sz, ?w\<lparr>fs := d2, ram := with_headers img hp (k_phdr k) (ram ?v)\<rparr>)" "holds_file good content f img d2"
    using vm_pread_ok [OF L, of f img ?w "ucast (e_phoff ?eh)" "k_phdr k" ?sz] k(6) off
    by (auto simp: table_size with_headers_def)
  have "\<not> k_phdr_size k < ?sz" using k(5) by (simp add: word_less_nat_alt table_size)
  then have "read_headers E hp f k = Some (?w\<lparr>fs := d2, ram := with_headers img hp (k_phdr k) (ram ?v)\<rparr>)"
    using d1(1) d2(1) eh k(4) by (simp add: read_headers_def pread_all_def Let_def)
  with d2(2) show ?thesis by auto
qed

lemma k_load_elf_ok:
  assumes L: "fat_laws E good content pos" and O: "file_open E fn 0 (fs (k_vm k)) = Some (f, d0)" "holds_file good content f img d0"
    and K: "kernel_image img (unat (k_phdr_size k))" and A: "apart hp 64 (k_phdr k) (56 * length (file_phdrs img))"
    and S: "\<forall>ph\<in>set (file_phdrs img). loadable ph \<longrightarrow> seg_ok (load_base (first_free_paddr (k_vm k))) (mmap_max (k_vm k)) (k_phdr k)
      (length (file_phdrs img)) (load_bias (first_free_paddr (k_vm k)) img) img ph"
  shows "\<exists>k'. k_load_elf E hp fn k = Some k' \<and> k_supervisor k' \<and> k_entry k' = ucast (e_entry (file_ehdr img)) \<and>
    k_bias k' = load_bias (first_free_paddr (k_vm k)) img \<and> first_free_paddr (k_vm k') = load_base (first_free_paddr (k_vm k)) \<and>
    k_phnum k' = of_nat (length (file_phdrs img)) \<and> have_vm (k_vm k') = have_vm (k_vm k) \<and>
    ram (k_vm k') = foldr (seg_store (load_bias (first_free_paddr (k_vm k)) img) img) (file_phdrs img)
      (with_headers img hp (k_phdr k) (ram (k_vm k)))"
proof -
  let ?v = "k_vm k" and ?phs = "file_phdrs img" and ?eh = "file_ehdr img"
  let ?lo = "load_base (first_free_paddr ?v)" and ?bias = "load_bias (first_free_paddr ?v) img"
  let ?m = "with_headers img hp (k_phdr k) (ram ?v)"
  have sv: "bit (e_entry ?eh) 63" using K by (simp add: kernel_image_def)
  have "holds_file good content f img (fs (k_vm (k\<lparr>k_vm := ?v\<lparr>fs := d0\<rparr>\<rparr>)))" using O(2) by simp
  from read_headers_ok [OF L this] K obtain d1 where
    d1: "read_headers E hp f (k\<lparr>k_vm := ?v\<lparr>fs := d0\<rparr>\<rparr>) = Some (?v\<lparr>elf64 := True, fs := d1, ram := ?m\<rparr>)"
    "holds_file good content f img d1" by auto
  let ?w = "?v\<lparr>elf64 := True, fs := d1, ram := ?m, first_free_paddr := ?lo\<rparr>"
  have eh: "ehdr ?m hp = ?eh" by (rule header_facts(1) [OF K A])
  have ph: "\<forall>j<length ?phs. phdr ?m (k_phdr k + of_nat (56 * j)) = ?phs ! j" using header_facts(2) [OF K A] by blast
  have "map (\<lambda>i. phdr ?m (k_phdr k + of_nat (56 * i))) [0..<length ?phs] = ?phs" using ph by (intro nth_equalityI) simp_all
  then have low: "lowest_vaddr ?m (k_phdr k) (length ?phs) (- 1) = fold lower_addr ?phs (- 1)" by (simp only: lowest_vaddr_fold)
  from k_load_segments_ok [OF L(1) _ S, of "length ?phs" ?w f 0] ph d1(2) K obtain mx d2 where
    d2: "k_load_segments E f True ?bias (k_phdr k) (length ?phs) (0, ?w) =
      Some (mx, ?w\<lparr>fs := d2, ram := foldr (seg_store ?bias img) ?phs ?m\<rparr>)" by (auto simp: kernel_image_def)
  show ?thesis
    unfolding k_load_elf_def O(1) Option.bind.bind_lunit prod.case d1(1)
    using sv low d2 by (simp add: Let_def eh load_base_def load_bias_def)
qed
text \<open>The addresses of a 64-bit program that runs in the upper half of the addresses are never below the start value
  of the search, a 32-bit word, so the lowest address stays at its start value.\<close>

lemma lowest_ignores_upper_half:
  "\<forall>ph\<in>set phs. loadable ph \<longrightarrow> 2 ^ 32 \<le> unat (p_vaddr ph) \<Longrightarrow> fold lower_addr phs mv = mv"
proof (induction phs arbitrary: mv)
  case (Cons ph phs)
  have "\<not> p_vaddr ph < ucast mv" if "loadable ph"
  proof -
    have "unat (ucast mv :: u64) < 2 ^ 32" unfolding ucast_32_64 by simp
    moreover have "2 ^ 32 \<le> unat (p_vaddr ph)" using Cons.prems that by simp
    ultimately show ?thesis unfolding word_less_nat_alt by linarith
  qed
  then have "lower_addr ph mv = mv" by (auto simp: lower_addr_def)
  with Cons show ?case by simp
qed simp

section \<open>The segments in memory\<close>

definition load_order :: "u32 \<Rightarrow> Elf64_Phdr list \<Rightarrow> bool" where
  "load_order bias phs \<longleftrightarrow> sorted_wrt (\<lambda>p q. loadable p \<and> loadable q \<longrightarrow>
     apart (seg_at bias p - seg_pad p) (seg_span p) (seg_at bias q) (unat (p_memsz q))) phs"

lemma segments_in_memory:
  "\<forall>ph\<in>set phs. loadable ph \<longrightarrow> seg_fits img ph \<Longrightarrow> load_order bias phs \<Longrightarrow> ph \<in> set phs \<Longrightarrow> loadable ph \<Longrightarrow>
    load_bytes (foldr (seg_store bias img) phs m) (seg_at bias ph) (unat (p_memsz ph)) = seg_content img ph"
proof (induction phs)
  case (Cons p phs)
  let ?m = "foldr (seg_store bias img) phs m"
  let ?bs = "replicate (unat (seg_pad p)) 0 @ seg_content img p"
  have st: "loadable p \<Longrightarrow> seg_store bias img p ?m = store_bytes ?m (seg_at bias p - seg_pad p) ?bs"
    "\<not> loadable p \<Longrightarrow> seg_store bias img p ?m = ?m" by (simp_all add: seg_store_def)
  have len: "length ?bs = seg_span p" "seg_span p \<le> 2 ^ 32" if "loadable p"
    using Cons.prems(1) that by (simp_all add: seg_content_length seg_span_def seg_fits_def)
  show ?case
  proof (cases "ph = p")
    case True
    then have l: "loadable p" "seg_fits img p" using Cons.prems by auto
    let ?a = "seg_at bias p - seg_pad p"
    have "load_bytes (store_bytes ?m ?a ?bs) ?a (unat (seg_pad p) + unat (p_memsz p)) = ?bs"
      using load_store_same [of ?bs ?m ?a] len [OF l(1)] by (simp add: seg_span_def)
    then have "load_bytes (store_bytes ?m ?a ?bs) ?a (unat (seg_pad p)) @
        load_bytes (store_bytes ?m ?a ?bs) (?a + of_nat (unat (seg_pad p))) (unat (p_memsz p)) = ?bs"
      by (simp only: load_bytes_append)
    then have "load_bytes (store_bytes ?m ?a ?bs) (?a + of_nat (unat (seg_pad p))) (unat (p_memsz p)) = seg_content img p"
      by (simp only: append_eq_append_conv length_load_bytes length_replicate simp_thms)
    then show ?thesis using True l by (simp add: st)
  next
    case False
    then have ph: "ph \<in> set phs" using Cons.prems(3) by simp
    have IH: "load_bytes ?m (seg_at bias ph) (unat (p_memsz ph)) = seg_content img ph"
      by (rule Cons.IH) (use Cons.prems ph in \<open>simp_all add: load_order_def\<close>)
    show ?thesis
    proof (cases "loadable p")
      case True
      with Cons.prems(2,4) ph have "apart (seg_at bias p - seg_pad p) (seg_span p) (seg_at bias ph) (unat (p_memsz ph))"
        by (simp add: load_order_def)
      with len [OF True] have "load_bytes (store_bytes ?m (seg_at bias p - seg_pad p) ?bs) (seg_at bias ph) (unat (p_memsz ph)) =
          load_bytes ?m (seg_at bias ph) (unat (p_memsz ph))"
        by (intro load_store_apart) simp_all
      with IH True show ?thesis by (simp add: st)
    qed (use IH in \<open>simp add: st\<close>)
  qed
qed simp

section \<open>Starting the first hart\<close>

text \<open>The registers are independent, and each keeps what is legal of the word written to it.\<close>

definition csr_laws :: "'c csr_file \<Rightarrow> (u32 \<Rightarrow> u32 \<Rightarrow> u32) \<Rightarrow> bool" where
  "csr_laws C legal \<longleftrightarrow> (\<forall>c r v. csr_rd C r (csr_wr C r v c) = legal r v) \<and>
     (\<forall>c r r' v. r' \<noteq> r \<longrightarrow> csr_rd C r' (csr_wr C r v c) = csr_rd C r' c)"

lemma csr_lawsD:
  assumes "csr_laws C legal"
  shows "csr_rd C r (csr_wr C r v c) = legal r v" "r' \<noteq> r \<Longrightarrow> csr_rd C r' (csr_wr C r v c) = csr_rd C r' c"
  using assms by (simp_all add: csr_laws_def)

lemmas csr_defs = CSR_MSTATUS_def CSR_MIE_def CSR_MTIMECMP_def CSR_MIP_def CSR_MCPUID_def

lemma csr_init_ok:
  assumes L: "csr_laws C legal" and S: "supports_extension C CHR ''S'' c" "\<not> supports_extension C CHR ''D'' c"
    and F: "legal CSR_MSTATUS mstatus_value AND FS_FIELD \<noteq> 0"
  shows "\<exists>c'. mstatus_init C have c = Some (have \<and> EXTRACT_FIELD (legal CSR_MSTATUS mstatus_value) MSTATUS_VM = VM_CHOICE, c') \<and>
    fp_init C c' = Some ()"
  using S F by (auto simp: mstatus_init_def fp_init_def supports_extension_def Let_def csr_lawsD [OF L] csr_defs)

lemma memory_size: "memory_init n k = (if n = 0 then None else Some (k\<lparr>k_mem_size := 0x8000000\<rparr>))"
  by (simp add: memory_init_def Let_def)

lemma file_open_first:
  assumes "files d \<noteq> []" "f_open E (drive d) fn 1 = (0, x, d')" "good d' x \<and> content d' x = img"
  shows "\<exists>d0. file_open E fn 0 (file_init d) = Some (0, d0) \<and> holds_file good content 0 img d0"
proof -
  have "find_free (files (file_init d)) 0 = Some 0" using assms(1) by (cases "files d") (simp_all add: file_init_def)
  moreover have "open_mode 0 = 1" by (simp add: open_mode_def)
  moreover have "drive (file_init d) = drive d" "length (files (file_init d)) = length (files d)" by (simp_all add: file_init_def)
  ultimately show ?thesis using assms by (auto simp: file_open_def file_openat_def file_get_free_def holds_file_def file_content_def file_good_def)
qed

text \<open>What \<open>vm_init\<close> makes of 128 megabytes: the first free address and the end of the program's addresses.\<close>

definition first_free :: "u32 \<Rightarrow> u32 \<Rightarrow> u32" where "first_free image_end num_harts = ROUNDUP image_end + num_harts * RISCV_PGSIZE"
definition program_end :: u32 where "program_end = 0x7FC0000"

lemma vm_init_ends:
  "first_free_paddr (vm_init image_end n 0x8000000 v) = first_free image_end n" "mmap_max (vm_init image_end n 0x8000000 v) = program_end"
  "ram (vm_init image_end n 0x8000000 v) = ram v" "fs (vm_init image_end n 0x8000000 v) = fs v" "have_vm (vm_init image_end n 0x8000000 v) = have_vm v"
  by (simp_all add: vm_init_def first_free_def program_end_def RISCV_PGSIZE_def Let_def)
text \<open>C27: A kernel of 64-bit ELF format in an open file is loaded as follows: the lowest address of its segments, rounded
  down to a superpage, goes to the first free address, rounded up to one.  If every loadable segment fits the file, passes the check of
  the source and lies apart from the program headers, the loader returns, the memory is exactly the initial one with
  the headers read into it and the segments stored over that from the last to the first, each with zeros in front of it back to
  its page and zeros up to its size in memory; the entry point is that of the file.\<close>
theorem k_load_elf_refines:
  assumes "fat_laws E good content pos" "file_open E fn 0 (fs (k_vm k)) = Some (f, d0)" "holds_file good content f img d0"
    and "kernel_image img (unat (k_phdr_size k))" "apart hp 64 (k_phdr k) (56 * length (file_phdrs img))"
    and "\<forall>ph\<in>set (file_phdrs img). loadable ph \<longrightarrow> seg_ok (load_base (first_free_paddr (k_vm k))) (mmap_max (k_vm k)) (k_phdr k)
      (length (file_phdrs img)) (load_bias (first_free_paddr (k_vm k)) img) img ph"
  shows "\<exists>k'. k_load_elf E hp fn k = Some k' \<and> k_supervisor k' \<and> k_entry k' = ucast (e_entry (file_ehdr img)) \<and>
    k_bias k' = load_bias (first_free_paddr (k_vm k)) img \<and> first_free_paddr (k_vm k') = load_base (first_free_paddr (k_vm k)) \<and>
    ram (k_vm k') = foldr (seg_store (load_bias (first_free_paddr (k_vm k)) img) img) (file_phdrs img)
      (with_headers img hp (k_phdr k) (ram (k_vm k)))"
  using k_load_elf_ok [OF assms] by blast

section \<open>A kernel of four bytes\<close>

definition sample_kernel :: "u8 list" where
  "sample_kernel =
     [0x7F, 0x45, 0x4C, 0x46, 2, 0, 0, 0, 0, 0, 0, 0, 0, 0, 0, 0, 2, 0, 0xF3, 0, 1, 0, 0, 0] @
     [0, 0x11, 0, 0, 0, 0, 0, 0x80] @ [64, 0, 0, 0, 0, 0, 0, 0] @ [0, 0, 0, 0, 0, 0, 0, 0] @ [0, 0, 0, 0, 64, 0, 56, 0, 1, 0] @ [0, 0, 0, 0, 0, 0] @
     [1, 0, 0, 0, 7, 0, 0, 0] @ [120, 0, 0, 0, 0, 0, 0, 0] @ [0, 0x11, 0, 0, 0, 0, 0, 0] @ [0, 0x11, 0, 0, 0, 0, 0, 0] @
     [4, 0, 0, 0, 0, 0, 0, 0] @ [8, 0, 0, 0, 0, 0, 0, 0] @ [0, 0x10, 0, 0, 0, 0, 0, 0] @ [0xDE, 0xAD, 0xBE, 0xEF]"

lemma load_image:
  assumes "unat a + n \<le> length img" "length img \<le> 2 ^ 32"
  shows "load_bytes (store_bytes (\<lambda>_. 0) 0 img) a n = take n (drop (unat a) img)"
proof (rule nth_equalityI)
  fix i assume i: "i < length (load_bytes (store_bytes (\<lambda>_. 0) 0 img) a n)"
  then have "unat a + i < length img" "i < n" using assms(1) by simp_all
  then have "unat (a + of_nat i) = unat a + i" using assms(2) by (subst unat_plus_if') (auto simp: unat_of_nat)
  then show "load_bytes (store_bytes (\<lambda>_. 0) 0 img) a n ! i = take n (drop (unat a) img) ! i"
    using \<open>unat a + i < length img\<close> \<open>i < n\<close> assms(2) by (simp add: nth_load_bytes store_bytes_apply add.commute)
qed (use assms in simp)

lemma sample_length: "length sample_kernel = 124"
  by (simp add: sample_kernel_def)

lemma sample_kernel_ehdr:
  "take 5 (e_ident (file_ehdr sample_kernel)) = [0x7F, 0x45, 0x4C, 0x46, 2]" "e_entry (file_ehdr sample_kernel) = 0x8000000000001100"
  "e_phoff (file_ehdr sample_kernel) = 64" "e_phnum (file_ehdr sample_kernel) = 1"
  by (simp_all add: file_ehdr_def ehdr_def rd16_def rd64_def load_image sample_length)
    (simp_all add: sample_kernel_def)

lemma sample_phdrs:
  "file_phdrs sample_kernel = [\<lparr>p_type = 1, p_flags = 7, p_offset = 120, p_vaddr = 0x1100, p_paddr = 0x1100, p_filesz = 4,
     p_memsz = 8, p_align = 0x1000\<rparr>]"
  using sample_kernel_ehdr(3,4)
  by (simp add: file_phdrs_def program_headers_def file_ehdr_def [symmetric] phdr_def rd32_def rd64_def load_image sample_length)
    (simp add: sample_kernel_def)
definition kernel_fat :: "(unit, u8 list \<times> nat) fatfs" where
  "kernel_fat = ram_fat\<lparr>f_open := (\<lambda>d fn mode. (0, (sample_kernel, 0), d))\<rparr>"

lemma kernel_fat_laws: "fat_laws kernel_fat (\<lambda>d x. True) (\<lambda>d. fst) (\<lambda>d. snd)"
  by (simp add: fat_laws_def kernel_fat_def ram_fat_def Let_def)

definition kernel_sample :: "(unit, u8 list \<times> nat) kstate" where
  "kernel_sample =
     \<lparr>k_vm = vm_sample\<lparr>fs := \<lparr>files = [\<lparr>fd = ([], 0), offset = 0, refcnt = 0\<rparr>], drive = ()\<rparr>,
        first_free_paddr := 0x9000, mmap_max := program_end, have_vm := True\<rparr>,
      k_phent = 0, k_phnum = 0, k_supervisor = False, k_phdr = 0x2000, k_phdr_size = 512, k_first_user = 0,
      k_after_user = 0, k_bias = 0, k_entry = 0, k_mem_size = 0, k_elf_loaded = False, k_mepc = 0\<rparr>"

lemma sample_kernel_image: "512 \<le> rm \<Longrightarrow> kernel_image sample_kernel rm"
  by (simp add: kernel_image_def IS_ELF64_def sample_kernel_ehdr sample_length bit_iff_odd)

lemma ucast_top: "(ucast (- 1 :: u32) :: u64) = 0xFFFFFFFF"
  by (simp only: word_unat_eq_iff ucast_32_64) (simp add: unsigned_minus_1_eq_mask mask_eq_exp_minus_1)

lemma sample_bases:
  "load_base 0x9000 = 0x400000" "load_bias 0x9000 sample_kernel = 0x400000" "first_free 0x8000 1 = 0x9000"
  by (simp_all add: load_bias_def load_base_def round_up_def round_down_def SUPERPAGE_SIZE_def RISCV_PGSIZE_def sample_phdrs
      lower_addr_def loadable_def PT_LOAD_def first_free_def ROUNDUP_def ucast_top)

lemma sample_seg_ok:
  "\<forall>ph\<in>set (file_phdrs sample_kernel). loadable ph \<longrightarrow>
     seg_ok 0x400000 program_end 0x2000 (length (file_phdrs sample_kernel)) 0x400000 sample_kernel ph"
  unfolding sample_phdrs
  by (simp add: seg_ok_def seg_fits_def seg_at_def seg_pad_def seg_span_def seg_range_def apart_def program_end_def sample_length)

lemma k_load_elf_refines_witness:
  "\<exists>k'. k_load_elf kernel_fat 0x3000 ''hello'' kernel_sample = Some k' \<and> k_supervisor k' \<and> k_entry k' = 0x1100 \<and>
     k_bias k' = 0x400000 \<and> first_free_paddr (k_vm k') = 0x400000 \<and>
     ram (k_vm k') = foldr (seg_store 0x400000 sample_kernel) (file_phdrs sample_kernel)
       (with_headers sample_kernel 0x3000 0x2000 (ram (k_vm kernel_sample)))"
proof -
  let ?d = "\<lparr>files = [\<lparr>fd = (sample_kernel, 0), offset = 0, refcnt = 2\<rparr>], drive = ()\<rparr>"
  have o: "file_open kernel_fat ''hello'' 0 (fs (k_vm kernel_sample)) = Some (0, ?d)"
    by (simp add: kernel_sample_def file_open_def file_openat_def file_get_free_def kernel_fat_def upd_file_def put_fd_def)
  have h: "holds_file (\<lambda>d x. True) (\<lambda>d. fst) 0 sample_kernel ?d" by (simp add: holds_file_def file_content_def file_good_def)
  have k: "first_free_paddr (k_vm kernel_sample) = 0x9000" "mmap_max (k_vm kernel_sample) = program_end"
    "k_phdr kernel_sample = 0x2000" "k_phdr_size kernel_sample = 512" by (simp_all add: kernel_sample_def)
  have i: "kernel_image sample_kernel (unat (k_phdr_size kernel_sample))" unfolding k(4) by (rule sample_kernel_image) simp
  have a: "apart 0x3000 64 (k_phdr kernel_sample) (56 * length (file_phdrs sample_kernel))"
    by (simp add: k sample_phdrs apart_def del: file_phdrs_length)
  have e: "(ucast (e_entry (file_ehdr sample_kernel)) :: u32) = 0x1100" by (simp add: sample_kernel_ehdr)
  show ?thesis
    using k_load_elf_refines [OF kernel_fat_laws o h i a] sample_seg_ok unfolding k sample_bases e by simp
qed

definition plain_csrs :: "(u32 \<Rightarrow> u32) csr_file" where
  "plain_csrs = \<lparr>csr_rd = (\<lambda>r c. c r), csr_wr = (\<lambda>r v c. c(r := v))\<rparr>"

definition machine_sample :: "(u32 \<Rightarrow> u32, unit, unit, u8 list \<times> nat) machine" where
  "machine_sample = \<lparr>m_csr = (\<lambda>r. if r = CSR_MCPUID then 0x40000 else 0), m_dev = (), m_k = kernel_sample\<rparr>"

lemma mstatus_computed: "mstatus_value = 0x10F056"
  by (simp add: mstatus_value_def INSERT_FIELD_def MSTATUS_VM_def FS_FIELD_def VM_CHOICE_def Let_def)


end
