(* ===== verification/Edcl.thy ===== *)
theory Edcl
  imports Uart
begin

text \<open>
  The program of the boot ROM (bootstrap/hello.c): it obeys commands that a host puts into a mailbox in shared
  memory through the Ethernet debug port.  The address space is a parameter: what an access of one or of four
  bytes does to a state that the host and the devices change too.  The code that a bootstrap command calls is a
  parameter as well.  \<open>None\<close> is a loop that does not end, or called code that does not return.
\<close>

section \<open>The address space\<close>

record 's space =
  load8 :: "u32 \<Rightarrow> 's \<Rightarrow> u8 \<times> 's"
  load32 :: "u32 \<Rightarrow> 's \<Rightarrow> u32 \<times> 's"
  store8 :: "u32 \<Rightarrow> u8 \<Rightarrow> 's \<Rightarrow> 's"
  store32 :: "u32 \<Rightarrow> u32 \<Rightarrow> 's \<Rightarrow> 's"

text \<open>Four bytes put together: \<open>read_code_data8\<close> of the source, least significant byte first.\<close>

definition read_code_data8 :: "'s space \<Rightarrow> u32 \<Rightarrow> 's \<Rightarrow> u32 \<times> 's" where
  "read_code_data8 B a s =
     (let (b0, s) = load8 B a s; (b1, s) = load8 B (a + 1) s; (b2, s) = load8 B (a + 2) s; (b3, s) = load8 B (a + 3) s
      in (ucast b0 OR push_bit 8 (ucast b1) OR push_bit 16 (ucast b2) OR push_bit 24 (ucast b3), s))"

definition read_code_data32 :: "'s space \<Rightarrow> u32 \<Rightarrow> 's \<Rightarrow> u32 \<times> 's" where
  "read_code_data32 B a s = load32 B a s"

definition rom_write32 :: "'s space \<Rightarrow> u32 \<Rightarrow> u32 \<Rightarrow> 's \<Rightarrow> 's" where
  "rom_write32 B a data s = store32 B a data s"

definition my_stat :: "'s space \<Rightarrow> u32 \<Rightarrow> 's \<Rightarrow> u32 \<times> 's" where
  "my_stat B sel s = load32 B (push_bit 20 5 + 4 * sel) s"

section \<open>Printing\<close>

definition rom_putchar :: "'s space \<Rightarrow> u8 \<Rightarrow> 's \<Rightarrow> 's" where
  "rom_putchar B c s = store32 B (push_bit 20 2) (ucast c) s"

definition rom_send :: "'s space \<Rightarrow> u8 list \<Rightarrow> 's \<Rightarrow> 's" where
  "rom_send B bs s = fold (rom_putchar B) bs s"

definition rom_puts :: "'s space \<Rightarrow> string \<Rightarrow> 's \<Rightarrow> 's" where
  "rom_puts B str s = rom_send B (map ch_byte str) s"

section \<open>The commands\<close>

definition shm_base :: u32 where "shm_base = push_bit 20 8"
definition edcl_max :: u32 where "edcl_max = 256"
definition shm_last :: u32 where "shm_last = shm_base + push_bit 4 edcl_max + 12"

text \<open>The mode numbers of the source.\<close>

definition edcl_mode_read :: u32 where "edcl_mode_read = 1"
definition edcl_mode_write :: u32 where "edcl_mode_write = 2"
definition edcl_mode_block_read :: u32 where "edcl_mode_block_read = 3"
definition edcl_mode_bootstrap :: u32 where "edcl_mode_bootstrap = 4"

fun copy_rom :: "'s space \<Rightarrow> u32 \<Rightarrow> u32 \<Rightarrow> nat \<Rightarrow> 's \<Rightarrow> 's" where
  "copy_rom B dst src 0 s = s"
| "copy_rom B dst src (Suc n) s = (case load8 B src s of (b, s) \<Rightarrow> copy_rom B (dst + 1) (src + 1) n (store8 B dst b s))"

definition dump_word :: "'s space \<Rightarrow> u32 \<Rightarrow> 's \<Rightarrow> 's" where
  "dump_word B a s =
     (let s = rom_send B (myputhex a 8 @ [0x3A]) s; (v, s) = load32 B a s
      in rom_send B (myputhex v 8 @ [0x0D, 0x0A]) s)"

definition bootstrap :: "'s space \<Rightarrow> (u32 \<Rightarrow> 's \<Rightarrow> 's option) \<Rightarrow> u32 \<Rightarrow> 's \<Rightarrow> 's option" where
  "bootstrap B call addr2 s =
     (let s = rom_puts B (''Bootstrapping from ethernet ...'' @ [cr, lf]) s;
          s = copy_rom B 0x2000 (shm_base + 0x2000) (0x10000 - 0x2000) s;
          s = fold (\<lambda>i. dump_word B (addr2 + of_nat (4 * i))) [0..<8] s
      in call addr2 (rom_puts B (''Bye.'' @ [cr, lf]) s))"

partial_function (option) block_read :: "'s space \<Rightarrow> u32 \<Rightarrow> u32 \<Rightarrow> u32 \<Rightarrow> u32 \<Rightarrow> 's \<Rightarrow> (u32 \<times> 's) option" where
  "block_read B msk addr2 addr3 cnt s =
     (case my_stat B 0 s of (ready, s) \<Rightarrow>
        if msk AND NOT ready \<noteq> 0 then
          (case read_code_data32 B addr2 (rom_write32 B addr2 0 s) of (data, s) \<Rightarrow>
             block_read B msk addr2 addr3 (cnt + 1) (rom_write32 B (addr3 + 16 + push_bit 2 cnt) data s))
        else Some (cnt, s))"

text \<open>
  One command: the mode that the loop tests and the counter, or \<open>Inl\<close> for the return at an unknown mode.
\<close>

definition edcl_command ::
  "'s space \<Rightarrow> (u32 \<Rightarrow> 's \<Rightarrow> 's option) \<Rightarrow> u32 \<Rightarrow> 's \<Rightarrow> (('s + (u32 \<times> u32 \<times> 's))) option" where
  "edcl_command B call i s =
     (let (_, s) = my_stat B 0 s;
          addr3 = shm_base + push_bit 4 i;
          (addr2, s) = read_code_data8 B (addr3 + 4) s;
          (mode, s) = read_code_data8 B addr3 s
      in
      if mode = 0 then Some (Inr (0, i + 1, s))
      else if mode = edcl_mode_bootstrap then
        (case bootstrap B call addr2 s of None \<Rightarrow> None | Some s \<Rightarrow> Some (Inr (mode, i + 1, s)))
      else if mode = edcl_mode_block_read then
        (let (msk, s) = read_code_data8 B (addr3 + 12) s in
         case block_read B msk addr2 addr3 0 s of None \<Rightarrow> None | Some (cnt, s) \<Rightarrow> Some (Inr (0, cnt + 1, s)))
      else if mode = edcl_mode_read then
        (let (data, s) = read_code_data32 B addr2 s in Some (Inr (mode, i + 1, rom_write32 B (addr3 + 12) data s)))
      else if mode = edcl_mode_write then
        (let (data, s) = read_code_data8 B (addr3 + 12) s in Some (Inr (mode, i + 1, rom_write32 B addr2 data s)))
      else Some (Inl (rom_puts B (''unknown mode'' @ [cr, lf]) s)))"

partial_function (option) edcl_loop :: "'s space \<Rightarrow> (u32 \<Rightarrow> 's \<Rightarrow> 's option) \<Rightarrow> u32 \<Rightarrow> 's \<Rightarrow> ('s + (u32 \<times> 's)) option" where
  "edcl_loop B call i s =
     (case edcl_command B call i s of
        None \<Rightarrow> None
      | Some (Inl s) \<Rightarrow> Some (Inl s)
      | Some (Inr (mode, i, s)) \<Rightarrow> if mode \<noteq> 0 then edcl_loop B call i s else Some (Inr (i, s)))"

partial_function (option) await_magic :: "'s space \<Rightarrow> 's \<Rightarrow> 's option" where
  "await_magic B s =
     (case read_code_data8 B shm_last s of (v, s) \<Rightarrow> if v \<noteq> 0xDEADBEEF then await_magic B s else Some s)"

definition edcl_hello :: "'s space \<Rightarrow> (u32 \<Rightarrow> 's \<Rightarrow> 's option) \<Rightarrow> 's \<Rightarrow> 's option" where
  "edcl_hello B call s =
     (case await_magic B s of
        None \<Rightarrow> None
      | Some s \<Rightarrow>
          (case edcl_loop B call 0 s of
             None \<Rightarrow> None
           | Some (Inl s) \<Rightarrow> Some s
           | Some (Inr (i, s)) \<Rightarrow>
               Some (rom_write32 B shm_last 0 (rom_write32 B (shm_base + 4) 0 (rom_write32 B shm_base i s)))))"

text \<open>One round of the loop of \<open>main\<close>, which never ends.\<close>

definition poll_shm :: "'s space \<Rightarrow> (u32 \<Rightarrow> 's \<Rightarrow> 's option) \<Rightarrow> 's \<Rightarrow> 's option" where
  "poll_shm B call s =
     (case read_code_data8 B shm_last s of (v, s) \<Rightarrow> if v = 0xDEADBEEF then edcl_hello B call s else Some s)"

section \<open>Reading the mailbox\<close>

text \<open>Outside the device registers \<open>dev\<close> the accesses are those of a memory, which loads do not change.\<close>

definition space_laws :: "'s space \<Rightarrow> ('s \<Rightarrow> mem) \<Rightarrow> (u32 \<Rightarrow> bool) \<Rightarrow> bool" where
  "space_laws B view dev \<longleftrightarrow>
     (\<forall>a s b s'. load8 B a s = (b, s') \<longrightarrow> view s' = view s \<and> (\<not> dev a \<longrightarrow> b = view s a)) \<and>
     (\<forall>a s v s'. load32 B a s = (v, s') \<longrightarrow> view s' = view s \<and> (\<not> dev a \<longrightarrow> v = rd32 (view s) a)) \<and>
     (\<forall>a v s. \<not> dev a \<longrightarrow> view (store32 B a v s) = wr32 (view s) a v)"

lemma space_lawsD:
  assumes "space_laws B view dev"
  shows "load8 B a s = (b, s') \<Longrightarrow> view s' = view s \<and> (\<not> dev a \<longrightarrow> b = view s a)"
    and "load32 B a s = (v, s') \<Longrightarrow> view s' = view s \<and> (\<not> dev a \<longrightarrow> v = rd32 (view s) a)"
    and "\<not> dev a \<Longrightarrow> view (store32 B a w s) = wr32 (view s) a w"
  using assms unfolding space_laws_def by blast+

lemma four_bytes:
  fixes b0 b1 b2 b3 :: u8
  shows "(ucast b0 OR push_bit 8 (ucast b1) OR push_bit 16 (ucast b2) OR push_bit 24 (ucast b3) :: u32) = of_nat (le_val [b0, b1, b2, b3])"
proof -
  let ?w = "ucast b0 OR push_bit 8 (ucast b1) OR push_bit 16 (ucast b2) OR push_bit 24 (ucast b3) :: u32"
  have e: "ucast ?w = b0" "ucast (drop_bit 8 ?w) = b1" "ucast (drop_bit 16 ?w) = b2" "ucast (drop_bit 24 ?w) = b3"
    by (rule bit_word_eqI, auto simp: bit_simps dest: bit_imp_le_length)+
  then have "[b0, b1, b2, b3] = le_bytes 4 (unat ?w)" by (simp only: le_bytes_4)
  then have "le_val [b0, b1, b2, b3] = unat ?w" by (simp only: le_val_bytes) simp
  then show ?thesis by (simp only:) simp
qed

lemma read_code_data8_word:
  assumes L: "space_laws B view dev" and D: "\<not> dev a" "\<not> dev (a + 1)" "\<not> dev (a + 2)" "\<not> dev (a + 3)"
  shows "\<exists>s'. read_code_data8 B a s = (rd32 (view s) a, s') \<and> view s' = view s"
proof -
  obtain b0 s0 where 0: "load8 B a s = (b0, s0)" by (cases "load8 B a s")
  obtain b1 s1 where 1: "load8 B (a + 1) s0 = (b1, s1)" by (cases "load8 B (a + 1) s0")
  obtain b2 s2 where 2: "load8 B (a + 2) s1 = (b2, s2)" by (cases "load8 B (a + 2) s1")
  obtain b3 s3 where 3: "load8 B (a + 3) s2 = (b3, s3)" by (cases "load8 B (a + 3) s2")
  note v = space_lawsD(1) [OF L 0] space_lawsD(1) [OF L 1] space_lawsD(1) [OF L 2] space_lawsD(1) [OF L 3]
  have "load_bytes (view s) a 4 = [b0, b1, b2, b3]" using v D by (simp add: numeral_eq_Suc add.assoc)
  then have "ucast b0 OR push_bit 8 (ucast b1) OR push_bit 16 (ucast b2) OR push_bit 24 (ucast b3) = rd32 (view s) a"
    by (simp only: rd32_def four_bytes)
  then show ?thesis using v by (simp add: read_code_data8_def 0 1 2 3)
qed

section \<open>What the commands mean\<close>

datatype shm_cmd = Peek u32 | Poke u32 u32

fun run_cmd :: "shm_cmd \<Rightarrow> mem \<Rightarrow> mem" where
  "run_cmd (Peek a) m = m"
| "run_cmd (Poke a v) m = wr32 m a v"

definition slot_at :: "nat \<Rightarrow> u32" where "slot_at i = shm_base + of_nat (16 * i)"

fun cmd_in :: "mem \<Rightarrow> nat \<Rightarrow> shm_cmd \<Rightarrow> bool" where
  "cmd_in m i (Peek a) \<longleftrightarrow> rd32 m (slot_at i) = 1 \<and> rd32 m (slot_at i + 4) = a"
| "cmd_in m i (Poke a v) \<longleftrightarrow> rd32 m (slot_at i) = 2 \<and> rd32 m (slot_at i + 4) = a \<and> rd32 m (slot_at i + 12) = v"

text \<open>The mailbox has 257 entries of 16 bytes; the magic word is in the last one.\<close>

definition in_shm :: "u32 \<Rightarrow> bool" where "in_shm x \<longleftrightarrow> unat (x - shm_base) < 4112"

fun cmd_addr :: "shm_cmd \<Rightarrow> u32" where
  "cmd_addr (Peek a) = a"
| "cmd_addr (Poke a v) = a"

definition mailbox :: "mem \<Rightarrow> shm_cmd list \<Rightarrow> bool" where
  "mailbox m cs \<longleftrightarrow> length cs \<le> 256 \<and> (\<forall>i<length cs. cmd_in m i (cs ! i)) \<and> rd32 m (slot_at (length cs)) = 0 \<and>
     rd32 m shm_last = 0xDEADBEEF"

lemma slot_word: "shm_base + push_bit 4 (of_nat i) = slot_at i"
  by (simp add: slot_at_def push_bit_eq_mult mult.commute)

lemma slot_in_shm: "k < 16 \<Longrightarrow> i \<le> 256 \<Longrightarrow> in_shm (slot_at i + of_nat k)"
proof -
  assume "k < 16" "i \<le> 256"
  then have "16 * i + k < 4112" by simp
  moreover from this have "unat (of_nat (16 * i + k) :: u32) = 16 * i + k" by (intro unat_offset) simp
  moreover have "slot_at i + of_nat k - shm_base = of_nat (16 * i + k)" by (simp add: slot_at_def)
  ultimately show ?thesis by (simp only: in_shm_def)
qed

lemma slot_word_read:
  assumes L: "space_laws B view dev" and D: "\<forall>x. in_shm x \<longrightarrow> \<not> dev x" and i: "i \<le> 256" "k < 13"
  shows "\<exists>s'. read_code_data8 B (slot_at i + of_nat k) s = (rd32 (view s) (slot_at i + of_nat k), s') \<and> view s' = view s"
proof -
  have "in_shm (slot_at i + of_nat (k + j))" if "j < 4" for j using slot_in_shm [of "k + j" i] i that by simp
  from this [of 0] this [of 1] this [of 2] this [of 3] D show ?thesis
    by (intro read_code_data8_word [OF L]) (simp_all add: add_ac)
qed
section \<open>The loop\<close>

text \<open>What a command does to the memory, its result in the entry included.\<close>

fun mail_step :: "nat \<Rightarrow> shm_cmd \<Rightarrow> mem \<Rightarrow> mem" where
  "mail_step i (Peek a) m = wr32 m (slot_at i + 12) (rd32 m a)"
| "mail_step i (Poke a v) m = wr32 m a v"

fun run_mail :: "nat \<Rightarrow> shm_cmd list \<Rightarrow> mem \<Rightarrow> mem" where
  "run_mail i [] m = m"
| "run_mail i (c # cs) m = run_mail (Suc i) cs (mail_step i c m)"

lemma my_stat_view: "space_laws B view dev \<Longrightarrow> my_stat B sel s = (v, s') \<Longrightarrow> view s' = view s"
  using space_lawsD(2) by (fastforce simp: my_stat_def)

lemma edcl_command_start:
  assumes L: "space_laws B view dev" and D: "\<forall>x. in_shm x \<longrightarrow> \<not> dev x" and i: "i \<le> 256"
  obtains v s1 s2 s3 where "my_stat B 0 s = (v, s1)" "read_code_data8 B (slot_at i + 4) s1 = (rd32 (view s) (slot_at i + 4), s2)"
    "read_code_data8 B (slot_at i) s2 = (rd32 (view s) (slot_at i), s3)" "view s3 = view s"
proof -
  obtain v s1 where 1: "my_stat B 0 s = (v, s1)" by (cases "my_stat B 0 s")
  from slot_word_read [OF L D i, of 4 s1] obtain s2 where
    2: "read_code_data8 B (slot_at i + 4) s1 = (rd32 (view s1) (slot_at i + 4), s2)" "view s2 = view s1" by auto
  from slot_word_read [OF L D i, of 0 s2] obtain s3 where
    3: "read_code_data8 B (slot_at i) s2 = (rd32 (view s2) (slot_at i), s3)" "view s3 = view s2" by auto
  from that [OF 1] 2 3 my_stat_view [OF L 1] show thesis by simp
qed

lemma edcl_command_step:
  assumes L: "space_laws B view dev" and D: "\<forall>x. in_shm x \<longrightarrow> \<not> dev x" and i: "i \<le> 256"
    and c: "cmd_in (view s) i c" "\<not> dev (cmd_addr c)"
  shows "\<exists>m s'. m \<noteq> 0 \<and> edcl_command B call (of_nat i) s = Some (Inr (m, of_nat i + 1, s')) \<and> view s' = mail_step i c (view s)"
proof -
  obtain v s1 s2 s3 where s: "my_stat B 0 s = (v, s1)" "read_code_data8 B (slot_at i + 4) s1 = (rd32 (view s) (slot_at i + 4), s2)"
    "read_code_data8 B (slot_at i) s2 = (rd32 (view s) (slot_at i), s3)" "view s3 = view s"
    by (rule edcl_command_start [OF L D i])
  have nd: "\<not> dev (slot_at i + 12)" using slot_in_shm [of 12 i] i D by simp
  show ?thesis
  proof (cases c)
    case (Peek a)
    obtain w s4 where r: "load32 B a s3 = (w, s4)" by (cases "load32 B a s3")
    from space_lawsD(2) [OF L r] c(2) Peek s(4) have w: "view s4 = view s" "w = rd32 (view s) a" by simp_all
    have "view (store32 B (slot_at i + 12) w s4) = mail_step i c (view s)" using space_lawsD(3) [OF L nd] Peek w by simp
    with c(1) Peek s r show ?thesis
      by (simp add: edcl_command_def slot_word edcl_mode_bootstrap_def edcl_mode_block_read_def edcl_mode_read_def edcl_mode_write_def
          read_code_data32_def rom_write32_def)
  next
    case (Poke a v)
    from slot_word_read [OF L D i, of 12 s3] obtain s4 where
      r: "read_code_data8 B (slot_at i + 12) s3 = (rd32 (view s) (slot_at i + 12), s4)" "view s4 = view s" using s(4) by auto
    have "view (store32 B a v s4) = mail_step i c (view s)" using space_lawsD(3) [OF L, of a v s4] c(2) Poke r(2) by simp
    with c(1) Poke s r show ?thesis
      by (simp add: edcl_command_def slot_word edcl_mode_bootstrap_def edcl_mode_block_read_def edcl_mode_read_def edcl_mode_write_def
          read_code_data32_def rom_write32_def)
  qed
qed

text \<open>The entries behind a command are not changed by it.\<close>

definition target_ok :: "(u32 \<Rightarrow> bool) \<Rightarrow> shm_cmd \<Rightarrow> bool" where
  "target_ok dev c \<longleftrightarrow> \<not> dev (cmd_addr c) \<and> apart (cmd_addr c) 4 shm_base 4112"

lemma apart_words: "x + 4 \<le> y \<Longrightarrow> y + 4 \<le> 2 ^ 32 \<Longrightarrow> apart (b + of_nat x) 4 (b + of_nat y) 4"
proof -
  assume xy: "x + 4 \<le> y" "y + 4 \<le> 2 ^ 32"
  have e: "b + of_nat y - (b + of_nat x) = (of_nat (y - x) :: u32)" using xy(1) by (simp add: of_nat_diff)
  then have u: "unat (b + of_nat y - (b + of_nat x)) = y - x" using xy by (simp only: unat_offset)
  then have "b + of_nat y \<noteq> b + of_nat x" using xy(1) by auto
  from unat_flip [OF this] u have "unat (b + of_nat x - (b + of_nat y)) = 2 ^ 32 - (y - x)" by simp
  moreover have "4 \<le> y - x" "4 \<le> 2 ^ 32 - (y - x)" using xy by linarith+
  ultimately show ?thesis using u by (simp only: apart_def simp_thms)
qed

lemma mail_step_slot:
  assumes "target_ok dev c" "i < j" "j \<le> 256" "k \<le> 12"
  shows "rd32 (mail_step i c m) (slot_at j + of_nat k) = rd32 m (slot_at j + of_nat k)"
proof (cases c)
  case (Peek a)
  have "16 * i + 12 + 4 \<le> 16 * j + k" "16 * j + k + 4 \<le> 2 ^ 32" using assms(2-4) by simp_all
  from apart_words [OF this, of shm_base] show ?thesis using Peek by (simp add: slot_at_def add.assoc mem_simps)
next
  case (Poke a v)
  have "apart a 4 (shm_base + of_nat (16 * j + k)) 4"
    by (rule apart_sub [of a 4 shm_base 4112]) (use assms Poke in \<open>simp_all add: target_ok_def\<close>)
  then show ?thesis using Poke by (simp add: slot_at_def add.assoc mem_simps)
qed

lemma mail_step_later:
  assumes "target_ok dev c" "i < j" "j \<le> 256"
  shows "cmd_in (mail_step i c m) j c' = cmd_in m j c'" "rd32 (mail_step i c m) (slot_at j) = rd32 m (slot_at j)"
  using mail_step_slot [OF assms, of 0] mail_step_slot [OF assms, of 4] mail_step_slot [OF assms, of 12] by (cases c'; simp)+

lemma edcl_loop_runs:
  assumes L: "space_laws B view dev" and D: "\<forall>x. in_shm x \<longrightarrow> \<not> dev x"
  shows "\<forall>c\<in>set cs. target_ok dev c \<Longrightarrow> i + length cs \<le> 256 \<Longrightarrow> \<forall>j<length cs. cmd_in (view s) (i + j) (cs ! j) \<Longrightarrow>
    rd32 (view s) (slot_at (i + length cs)) = 0 \<Longrightarrow>
    \<exists>s'. edcl_loop B call (of_nat i) s = Some (Inr (of_nat (i + length cs) + 1, s')) \<and> view s' = run_mail i cs (view s)"
proof (induction cs arbitrary: i s)
  case Nil
  then have i: "i \<le> 256" by simp
  obtain v s1 s2 s3 where s: "my_stat B 0 s = (v, s1)" "read_code_data8 B (slot_at i + 4) s1 = (rd32 (view s) (slot_at i + 4), s2)"
    "read_code_data8 B (slot_at i) s2 = (rd32 (view s) (slot_at i), s3)" "view s3 = view s"
    by (rule edcl_command_start [OF L D i])
  with Nil show ?case by (simp add: edcl_loop.simps edcl_command_def slot_word)
next
  case (Cons c cs)
  have t: "target_ok dev c" and i: "i \<le> 256" using Cons.prems by simp_all
  have "cmd_in (view s) i c" using Cons.prems(3) [rule_format, of 0] by simp
  from edcl_command_step [OF L D i this] t obtain m s1 where
    s1: "m \<noteq> 0" "edcl_command B call (of_nat i) s = Some (Inr (m, of_nat i + 1, s1))" "view s1 = mail_step i c (view s)"
    unfolding target_ok_def by blast
  have "\<forall>j<length cs. cmd_in (view s1) (Suc i + j) (cs ! j)"
  proof (intro allI impI)
    fix j assume "j < length cs"
    with Cons.prems(2) Cons.prems(3) [rule_format, of "Suc j"] mail_step_later(1) [OF t, of i "Suc i + j"] s1(3)
    show "cmd_in (view s1) (Suc i + j) (cs ! j)" by simp
  qed
  moreover have "rd32 (view s1) (slot_at (Suc i + length cs)) = 0"
    using Cons.prems(2,4) mail_step_later(2) [OF t, of i "Suc i + length cs"] s1(3) by simp
  ultimately obtain s2 where "edcl_loop B call (of_nat (Suc i)) s1 = Some (Inr (of_nat (Suc i + length cs) + 1, s2))"
    "view s2 = run_mail (Suc i) cs (view s1)"
    using Cons.IH [of "Suc i" s1] Cons.prems(1,2) by auto
  with s1 show ?case by (subst edcl_loop.simps) (simp add: add_ac)
qed
section \<open>The memory afterwards\<close>

lemma wr32_outside: "4 \<le> unat (x - a) \<Longrightarrow> wr32 m a v x = m x"
  unfolding wr32_def by (intro store_bytes_outside) simp_all

lemma wr32_cong: "m x = m0 x \<Longrightarrow> wr32 m a v x = wr32 m0 a v x"
  unfolding wr32_def by (simp add: store_bytes_apply)

lemma rd32_cong:
  assumes "apart a 4 shm_base 4112" "\<And>x. \<not> in_shm x \<Longrightarrow> m x = m0 x"
  shows "rd32 m a = rd32 m0 a"
proof -
  have "\<not> in_shm (a + of_nat k)" if "k < 4" for k
    using apart_offset [of shm_base 4112 a 4 k] assms(1) that by (auto simp: in_shm_def apart_def)
  then have "load_bytes m a 4 = load_bytes m0 a 4" by (intro nth_equalityI) (simp_all add: nth_load_bytes assms(2))
  then show ?thesis by (simp add: rd32_def)
qed

lemma shm_word_far:
  assumes "\<not> in_shm x" "\<And>k. k < 4 \<Longrightarrow> in_shm (a + of_nat k)"
  shows "4 \<le> unat (x - a)"
proof (rule ccontr)
  assume "\<not> 4 \<le> unat (x - a)"
  then have "in_shm (a + of_nat (unat (x - a)))" by (intro assms(2)) simp
  with assms(1) show False by simp
qed

lemma mail_step_outside:
  assumes "i \<le> 256" "\<And>x. \<not> in_shm x \<Longrightarrow> m x = m0 x" "\<not> in_shm x"
  shows "mail_step i c m x = run_cmd c m0 x"
proof (cases c)
  case (Peek a)
  have "in_shm (slot_at i + 12 + of_nat k)" if "k < 4" for k using slot_in_shm [of "12 + k" i] assms(1) that by (simp add: add.assoc)
  from shm_word_far [OF assms(3) this] have "4 \<le> unat (x - (slot_at i + 12))" .
  then show ?thesis using Peek assms(2,3) by (simp add: wr32_outside)
next
  case (Poke a v)
  then show ?thesis using wr32_cong [of m x m0 a v] assms(2) [OF assms(3)] by simp
qed

lemma run_mail_outside:
  "i + length cs \<le> 256 \<Longrightarrow> (\<And>x. \<not> in_shm x \<Longrightarrow> m x = m0 x) \<Longrightarrow> \<not> in_shm x \<Longrightarrow> run_mail i cs m x = fold run_cmd cs m0 x"
proof (induction cs arbitrary: i m m0)
  case (Cons c cs)
  have "\<not> in_shm y \<Longrightarrow> mail_step i c m y = run_cmd c m0 y" for y
    by (rule mail_step_outside) (use Cons.prems in auto)
  from Cons.IH [of "Suc i" "mail_step i c m" "run_cmd c m0", OF _ this Cons.prems(3)] Cons.prems(1) show ?case by simp
qed simp

lemma mail_step_earlier:
  assumes "target_ok dev c" "j < i" "i \<le> 256"
  shows "rd32 (mail_step i c m) (slot_at j + 12) = rd32 m (slot_at j + 12)"
proof (cases c)
  case (Peek a)
  have "apart (shm_base + of_nat (16 * i + 12)) 4 (shm_base + of_nat (16 * j + 12)) 4"
    by (subst apart_sym) (rule apart_words, use assms(2,3) in simp_all)
  then show ?thesis using Peek by (simp add: slot_at_def add.assoc mem_simps)
next
  case (Poke a v)
  have "apart a 4 (shm_base + of_nat (16 * j + 12)) 4"
    by (rule apart_sub [of a 4 shm_base 4112]) (use assms Poke in \<open>simp_all add: target_ok_def\<close>)
  then show ?thesis using Poke by (simp add: slot_at_def add.assoc mem_simps)
qed

lemma run_mail_earlier:
  "\<forall>c\<in>set cs. target_ok dev c \<Longrightarrow> j < i \<Longrightarrow> i + length cs \<le> 256 \<Longrightarrow> rd32 (run_mail i cs m) (slot_at j + 12) = rd32 m (slot_at j + 12)"
  by (induction cs arbitrary: i m) (simp_all add: mail_step_earlier [where dev = dev])

lemma run_mail_peeks:
  "\<forall>c\<in>set cs. target_ok dev c \<Longrightarrow> i + length cs \<le> 256 \<Longrightarrow> (\<And>x. \<not> in_shm x \<Longrightarrow> m x = m0 x) \<Longrightarrow>
   j < length cs \<Longrightarrow> cs ! j = Peek a \<Longrightarrow> rd32 (run_mail i cs m) (slot_at (i + j) + 12) = rd32 (fold run_cmd (take j cs) m0) a"
proof (induction cs arbitrary: i m m0 j)
  case (Cons c cs)
  show ?case
  proof (cases j)
    case 0
    with Cons.prems have c: "c = Peek a" "apart a 4 shm_base 4112" by (simp_all add: target_ok_def)
    have "rd32 m a = rd32 m0 a" by (rule rd32_cong [OF c(2)]) (rule Cons.prems(3))
    then show ?thesis using 0 c Cons.prems(1,2) run_mail_earlier [of cs dev i "Suc i"] by (simp add: mem_simps)
  next
    case (Suc l)
    have "\<not> in_shm y \<Longrightarrow> mail_step i c m y = run_cmd c m0 y" for y
      by (rule mail_step_outside) (use Cons.prems in auto)
    from Cons.IH [of "Suc i" "mail_step i c m" "run_cmd c m0" l, OF _ _ this] Cons.prems(1,2,4,5) Suc show ?thesis by simp
  qed
qed simp

text \<open>C29: The boot ROM obeys a mailbox: when the magic word is set and the entries hold up to 256 commands to read and to
  write words outside the mailbox and the device registers, followed by an entry of mode 0, then one call of the command loop
  returns.  The memory outside the mailbox is that of the commands run in order, the data field of every read command holds the
  word that was at its address when its turn came, the count of entries is in the first word, and the magic word is cleared.\<close>

theorem edcl_hello_obeys:
  assumes "space_laws B view dev" "\<forall>x. in_shm x \<longrightarrow> \<not> dev x" "mailbox (view s) cs" "\<forall>c\<in>set cs. target_ok dev c"
  shows "\<exists>s'. edcl_hello B call s = Some s' \<and> (\<forall>x. \<not> in_shm x \<longrightarrow> view s' x = fold run_cmd cs (view s) x) \<and>
    (\<forall>j a. j < length cs \<and> cs ! j = Peek a \<longrightarrow> rd32 (view s') (slot_at j + 12) = rd32 (fold run_cmd (take j cs) (view s)) a) \<and>
    rd32 (view s') shm_base = of_nat (length cs) + 1 \<and> rd32 (view s') shm_last = 0"
proof -
  note L = assms(1) and D = assms(2)
  have n: "length cs \<le> 256" using assms(3) by (simp add: mailbox_def)
  have last: "shm_last = slot_at 256 + 12" by (simp add: shm_last_def slot_at_def edcl_max_def shm_base_def)
  have "rd32 (view s) shm_last = 0xDEADBEEF" using assms(3) by (simp add: mailbox_def)
  with slot_word_read [OF L D, of 256 12 s] obtain s1 where s1: "read_code_data8 B shm_last s = (0xDEADBEEF, s1)" "view s1 = view s"
    by (auto simp: last)
  have w: "await_magic B s = Some s1" by (subst await_magic.simps) (simp add: s1)
  from edcl_loop_runs [OF L D, of cs 0 s1 call] assms(3,4) s1(2) obtain s2 where
    s2: "edcl_loop B call 0 s1 = Some (Inr (of_nat (length cs) + 1, s2))" "view s2 = run_mail 0 cs (view s)"
    by (auto simp: mailbox_def)
  let ?s = "store32 B shm_last 0 (store32 B (shm_base + 4) 0 (store32 B shm_base (of_nat (length cs) + 1) s2))"
  have a: "in_shm (shm_base + of_nat k)" if "k < 4112" for k using that by (simp add: in_shm_def)
  have nd: "\<not> dev shm_base" "\<not> dev (shm_base + 4)" "\<not> dev shm_last"
    using a [of 0] a [of 4] slot_in_shm [of 12 256] D by (simp_all add: last)
  have v: "view ?s = wr32 (wr32 (wr32 (view s2) shm_base (of_nat (length cs) + 1)) (shm_base + 4) 0) shm_last 0"
    using nd space_lawsD(3) [OF L] by simp
  have l: "shm_last = shm_base + of_nat 4108" by (simp add: last slot_at_def)
  have ap: "apart (shm_base + of_nat 4) 4 (shm_base + of_nat 0) 4" "apart (shm_base + of_nat 4108) 4 (shm_base + of_nat 0) 4"
    by (subst apart_sym, rule apart_words; simp)+
  have outside: "view ?s x = fold run_cmd cs (view s) x" if "\<not> in_shm x" for x
  proof -
    have "4 \<le> unat (x - (shm_base + of_nat k))" if "k \<le> 4108" for k
      by (rule shm_word_far [OF \<open>\<not> in_shm x\<close>]) (use a [of "k + _"] that in \<open>simp add: add.assoc\<close>)
    from this [of 0] this [of 4] this [of 4108] have "view ?s x = run_mail 0 cs (view s) x"
      unfolding v unfolding l s2(2) by (simp add: wr32_outside)
    with run_mail_outside [of 0 cs "view s" "view s" x] n that show ?thesis by simp
  qed
  have peeks: "rd32 (view ?s) (slot_at j + 12) = rd32 (fold run_cmd (take j cs) (view s)) b" if "j < length cs" "cs ! j = Peek b" for j b
  proof -
    have j: "slot_at j + 12 = shm_base + of_nat (16 * j + 12)" by (simp add: slot_at_def add.assoc)
    have "apart (shm_base + of_nat 0) 4 (slot_at j + 12) 4" "apart (shm_base + of_nat 4) 4 (slot_at j + 12) 4"
      unfolding j by (rule apart_words; use that(1) n in simp)+
    moreover have "apart (shm_base + of_nat 4108) 4 (slot_at j + 12) 4"
      unfolding j by (subst apart_sym) (rule apart_words, use that(1) n in simp_all)
    ultimately have "rd32 (view ?s) (slot_at j + 12) = rd32 (run_mail 0 cs (view s)) (slot_at j + 12)"
      unfolding v unfolding l s2(2) by (simp add: rd32_wr32_apart)
    with run_mail_peeks [of cs dev 0 "view s" "view s" j b] assms(4) n that show ?thesis by simp
  qed
  have "rd32 (view ?s) shm_base = of_nat (length cs) + 1" "rd32 (view ?s) shm_last = 0"
    unfolding v unfolding l using ap by (simp_all add: rd32_wr32 rd32_wr32_apart)
  moreover have "edcl_hello B call s = Some ?s" by (simp add: edcl_hello_def w s2(1) rom_write32_def)
  ultimately show ?thesis using outside peeks by blast
qed
lemma apart_four: "apart a 4 b 4 \<longleftrightarrow> unat a + 4 \<le> unat b \<and> unat b + 4 \<le> 2 ^ 32 + unat a \<or> unat b + 4 \<le> unat a \<and> unat a + 4 \<le> 2 ^ 32 + unat b"
  by (auto simp: apart_def unat_sub_if')

definition plain_space :: "mem space" where
  "plain_space = \<lparr>load8 = (\<lambda>a m. (m a, m)), load32 = (\<lambda>a m. (rd32 m a, m)), store8 = (\<lambda>a b m. m(a := b)), store32 = (\<lambda>a v m. wr32 m a v)\<rparr>"

definition mail_sample :: mem where
  "mail_sample = wr32 (wr32 (wr32 (wr32 (wr32 (wr32 (\<lambda>_. 0) 0x800000 2) 0x800004 0x1000) 0x80000C 0x12345678) 0x800010 1) 0x800014 0x1000)
     0x80100C 0xDEADBEEF"

lemma edcl_hello_obeys_witness:
  "\<exists>m'. edcl_hello plain_space (\<lambda>a m. None) mail_sample = Some m' \<and>
     (\<forall>x. \<not> in_shm x \<longrightarrow> m' x = wr32 mail_sample 0x1000 0x12345678 x) \<and>
     rd32 m' 0x80001C = 0x12345678 \<and> rd32 m' shm_base = 3 \<and> rd32 m' shm_last = 0"
proof -
  let ?cs = "[Poke 0x1000 0x12345678, Peek 0x1000]"
  have l: "space_laws plain_space (\<lambda>m. m) (\<lambda>_. False)" by (simp add: space_laws_def plain_space_def)
  have z: "rd32 (\<lambda>_. 0) a = 0" for a by (simp add: rd32_def numeral_eq_Suc)
  have m: "mailbox mail_sample ?cs"
    unfolding mailbox_def mail_sample_def
    by (auto simp: less_Suc_eq slot_at_def shm_base_def shm_last_def edcl_max_def rd32_wr32 rd32_wr32_apart apart_four z)
  have t: "\<forall>c\<in>set ?cs. target_ok (\<lambda>_. False) c" by (simp add: target_ok_def apart_def shm_base_def)
  have s: "slot_at 1 + 12 = 0x80001C" by (simp add: slot_at_def shm_base_def)
  from edcl_hello_obeys [where view = "\<lambda>m. m" and s = mail_sample and call = "\<lambda>a m. None", OF l _ m t] obtain m' where m':
    "edcl_hello plain_space (\<lambda>a m. None) mail_sample = Some m'" "\<forall>x. \<not> in_shm x \<longrightarrow> m' x = fold run_cmd ?cs mail_sample x"
    "\<forall>j a. j < length ?cs \<and> ?cs ! j = Peek a \<longrightarrow> rd32 m' (slot_at j + 12) = rd32 (fold run_cmd (take j ?cs) mail_sample) a"
    "rd32 m' shm_base = of_nat (length ?cs) + 1" "rd32 m' shm_last = 0" by auto
  have "rd32 m' (slot_at 1 + 12) = rd32 (fold run_cmd (take 1 ?cs) mail_sample) 0x1000"
    by (rule m'(3) [rule_format]) simp
  with m' show ?thesis unfolding s by (simp add: rd32_wr32)
qed

end
