(* ===== verification/MiniPrintf.thy ===== *)
theory MiniPrintf
  imports CStdio
begin

text \<open>
  The formatter of the boot monitor (bootstrap/mini-printf.c) and the \<open>printf\<close> built on it
  (bootstrap/minion_lib.c).  The destination is the buffer itself, a list as long as
  \<open>buffer_len\<close>, with the position of \<open>pbuffer\<close> in it; \<open>None\<close> is a store outside the buffer, an
  argument that is missing or of the wrong type, a division by zero, the negation of the smallest \<open>int\<close>
  or a loop that does not end.
\<close>

section \<open>Integers to text\<close>

definition digit_char :: "bool \<Rightarrow> nat \<Rightarrow> char" where
  "digit_char uppercase digit =
     (if digit < 10 then char_of (48 + digit)
      else char_of ((if uppercase then 65 else 97) + digit - 10))"

text \<open>
  The digits, least significant first.  \<open>value\<close> is divided as an unsigned and tested as a
  signed number, as the C types make it.
\<close>

partial_function (option) itoa_digits :: "u32 \<Rightarrow> u32 \<Rightarrow> bool \<Rightarrow> string option" where
  "itoa_digits val radix uppercase =
     (if radix = 0 then None
      else
        (let c = digit_char uppercase (unat (val mod radix)); val' = val div radix
         in if sint val' > 0
            then Option.bind (itoa_digits val' radix uppercase) (\<lambda>cs. Some (c # cs))
            else Some [c]))"

definition mini_itoa :: "u32 \<Rightarrow> u32 \<Rightarrow> bool \<Rightarrow> bool \<Rightarrow> nat \<Rightarrow> string option" where
  "mini_itoa val radix uppercase unsig zero_pad =
     (if radix > 16 then Some []
      else if val = 0x80000000 \<and> \<not> unsig then None
      else
        (let negative = (sint val < 0 \<and> \<not> unsig);
             val = (if negative then - val else val)
         in map_option
              (\<lambda>ds. rev (ds @ replicate (zero_pad - length ds) (CHR ''0'') @ (if negative then ''-'' else [])))
              (itoa_digits val radix uppercase)))"

section \<open>The bounded output buffer\<close>

type_synonym obuf = "string \<times> nat"

fun store_chars :: "string \<Rightarrow> nat \<Rightarrow> string \<Rightarrow> string option" where
  "store_chars buf i [] = Some buf"
| "store_chars buf i (c # cs) = (if i < length buf then store_chars (buf[i := c]) (Suc i) cs else None)"

definition putc' :: "nat \<Rightarrow> char \<Rightarrow> obuf \<Rightarrow> obuf option" where
  "putc' n ch st =
     (let (buf, pos) = st in
      if pos + 1 \<ge> n then Some (buf, pos)
      else map_option (\<lambda>b. (b, pos + 1)) (store_chars buf pos [ch, nul]))"

definition puts' :: "nat \<Rightarrow> string \<Rightarrow> obuf \<Rightarrow> obuf option" where
  "puts' n s st =
     (let (buf, pos) = st;
          room = nat ((int n - int pos - 1) mod 2 ^ 32);
          len = (if room < length s then room else length s)
      in map_option (\<lambda>b. (b, pos + len)) (store_chars buf pos (take len s @ [nul])))"

section \<open>Formats\<close>

datatype arg = ArgInt u32 | ArgStr string

text \<open>What one conversion prints, and the arguments left.\<close>

fun conv_text :: "char \<Rightarrow> nat \<Rightarrow> arg list \<Rightarrow> (string \<times> arg list) option" where
  "conv_text ch zero_pad va =
     (if ch = CHR ''u'' \<or> ch = CHR ''d'' then
        (case va of ArgInt v # va \<Rightarrow> map_option (\<lambda>s. (s, va)) (mini_itoa v 10 False (ch = CHR ''u'') zero_pad)
         | _ \<Rightarrow> None)
      else if ch = CHR ''x'' \<or> ch = CHR ''X'' then
        (case va of ArgInt v # va \<Rightarrow> map_option (\<lambda>s. (s, va)) (mini_itoa v 16 (ch = CHR ''X'') True zero_pad)
         | _ \<Rightarrow> None)
      else if ch = CHR ''c'' then
        (case va of ArgInt v # va \<Rightarrow> Some ([byte_ch (ucast v)], va) | _ \<Rightarrow> None)
      else if ch = CHR ''s'' then
        (case va of ArgStr s # va \<Rightarrow> Some (cstr s, va) | _ \<Rightarrow> None)
      else Some ([ch], va))"

text \<open>Characters go through \<open>_putc\<close>, converted numbers and strings through \<open>_puts\<close>.\<close>

definition emit :: "nat \<Rightarrow> char \<Rightarrow> string \<Rightarrow> obuf \<Rightarrow> obuf option" where
  "emit n ch s st =
     (if ch \<in> set ''udxXs'' then puts' n s st
      else (case s of [c] \<Rightarrow> putc' n c st | _ \<Rightarrow> None))"

text \<open>
  The head of a conversion after the percent sign: an optional zero with one digit of width,
  and the conversion character.  The character after the zero is skipped even when it is not
  a digit.  \<open>None\<close> is the end of the format.
\<close>

fun conv_head :: "string \<Rightarrow> (nat \<times> char \<times> string) option" where
  "conv_head [] = None"
| "conv_head (ch # fmt) =
     (if ch = CHR ''0'' then
        (case fmt of
           [] \<Rightarrow> None
         | [d] \<Rightarrow> None
         | d # ch' # fmt' \<Rightarrow>
             (let n = (of_char d :: nat)
              in Some (if 48 \<le> n \<and> n \<le> 57 then n - 48 else 0, ch', fmt')))
      else Some (0, ch, fmt))"

lemma conv_head_length: "conv_head fmt = Some (z, ch, fmt') \<Longrightarrow> length fmt' < length fmt"
  by (cases fmt rule: conv_head.cases) (auto simp: Let_def split: if_splits list.splits)

function vsn_loop :: "nat \<Rightarrow> string \<Rightarrow> arg list \<Rightarrow> obuf \<Rightarrow> obuf option" where
  "vsn_loop n [] va st = Some st"
| "vsn_loop n (ch # fmt) va st =
     (if snd st + 1 \<ge> n then Some st
      else if ch \<noteq> CHR ''%'' then Option.bind (putc' n ch st) (vsn_loop n fmt va)
      else
        (case conv_head fmt of
           None \<Rightarrow> Some st
         | Some (zero_pad, ch', fmt') \<Rightarrow>
             Option.bind (conv_text ch' zero_pad va) (\<lambda>(s, va').
               Option.bind (emit n ch' s st) (vsn_loop n fmt' va'))))"
  by pat_completeness auto
termination
  by (relation "measure (\<lambda>(n, fmt, va, st). length fmt)")
    (auto dest!: conv_head_length)

text \<open>The number of characters put and the buffer.\<close>

definition mini_vsnprintf :: "string \<Rightarrow> string \<Rightarrow> arg list \<Rightarrow> (nat \<times> string) option" where
  "mini_vsnprintf buf fmt va =
     map_option (\<lambda>(b, pos). (pos, b)) (vsn_loop (length buf) (cstr fmt) va (buf, 0))"

text \<open>
  \<open>printf\<close>: a buffer of 99 characters on the stack, whose content is arbitrary, is formatted
  into and sent up to its first NUL; \<open>None\<close> as well when there is none.
\<close>

definition printf' :: "string \<Rightarrow> string \<Rightarrow> arg list \<Rightarrow> (nat \<times> string) option" where
  "printf' stack fmt va =
     Option.bind (mini_vsnprintf (take 99 stack) fmt va)
       (\<lambda>(r, buf). if nul \<in> set buf then Some (r, cstr buf) else None)"

section \<open>What is to be printed\<close>

function format_text :: "string \<Rightarrow> arg list \<Rightarrow> string option" where
  "format_text [] va = Some []"
| "format_text (ch # fmt) va =
     (if ch \<noteq> CHR ''%'' then map_option (Cons ch) (format_text fmt va)
      else
        (case conv_head fmt of
           None \<Rightarrow> Some []
         | Some (zero_pad, ch', fmt') \<Rightarrow>
             Option.bind (conv_text ch' zero_pad va) (\<lambda>(s, va').
               map_option (\<lambda>t. s @ t) (format_text fmt' va'))))"
  by pat_completeness auto
termination
  by (relation "measure (\<lambda>(fmt, va). length fmt)") (auto dest!: conv_head_length)

section \<open>Lemmas on the buffer\<close>

lemma store_chars_eq:
  "i + length cs \<le> length buf \<Longrightarrow>
   store_chars buf i cs = Some (take i buf @ cs @ drop (i + length cs) buf)"
proof (induction cs arbitrary: i buf)
  case Nil
  then show ?case by simp
next
  case (Cons c cs)
  then have "store_chars (buf[i := c]) (Suc i) cs
      = Some (take (Suc i) (buf[i := c]) @ cs @ drop (Suc i + length cs) (buf[i := c]))"
    by (intro Cons.IH) simp
  with Cons.prems show ?case by (simp add: take_Suc_update)
qed

lemma room_eq:
  "pos + 1 < n \<Longrightarrow> n < 2 ^ 32 \<Longrightarrow> nat ((int n - int pos - 1) mod 2 ^ 32) = n - pos - 1"
  by (subst mod_pos_pos_trivial) auto

text \<open>Putting text: as much of it as there is room for, then a NUL.\<close>

definition put_text :: "string \<Rightarrow> obuf \<Rightarrow> obuf" where
  "put_text s st =
     (let (buf, pos) = st; k = min (length s) (length buf - pos - 1)
      in (take pos buf @ take k s @ nul # drop (pos + k + 1) buf, pos + k))"

lemma puts_put_text:
  assumes "pos + 1 < length buf" "length buf < 2 ^ 32"
  shows "puts' (length buf) s (buf, pos) = Some (put_text s (buf, pos))"
proof -
  have "nat ((int (length buf) - int pos - 1) mod 2 ^ 32) = length buf - pos - 1"
    using assms by (rule room_eq)
  moreover have "store_chars buf pos (take k s @ [nul]) = Some (take pos buf @ take k s @ nul # drop (pos + k + 1) buf)"
    if "k \<le> length s" "k \<le> length buf - pos - 1" for k
    using that assms by (subst store_chars_eq) (auto simp: min_def)
  ultimately show ?thesis
    using assms unfolding puts'_def put_text_def Let_def
    by (simp add: min_def)
qed

lemma putc_put_text:
  "pos + 1 < length buf \<Longrightarrow> putc' (length buf) c (buf, pos) = Some (put_text [c] (buf, pos))"
  by (simp add: putc'_def put_text_def Let_def store_chars_eq min_def del: store_chars.simps)

lemma conv_text_single:
  "conv_text ch z va = Some (s, va') \<Longrightarrow> ch \<notin> set ''udxXs'' \<Longrightarrow> length s = 1"
  by (auto split: if_splits list.splits arg.splits)

lemma emit_put_text:
  assumes "conv_text ch z va = Some (s, va')" "pos + 1 < length buf" "length buf < 2 ^ 32"
  shows "emit (length buf) ch s (buf, pos) = Some (put_text s (buf, pos))"
proof (cases "ch \<in> set ''udxXs''")
  case True
  with assms show ?thesis by (simp add: emit_def puts_put_text)
next
  case False
  then obtain c where "s = [c]" using conv_text_single [OF assms(1)] by (auto simp: length_Suc_conv)
  with False assms show ?thesis by (simp add: emit_def putc_put_text)
qed

text \<open>
  The state of the loop: the text so far is in front of \<open>pos\<close>, which is inside the buffer and
  holds a NUL unless nothing was put.
\<close>

definition obuf_ok :: "string \<Rightarrow> obuf \<Rightarrow> bool" where
  "obuf_ok buf0 st \<longleftrightarrow> length (fst st) = length buf0 \<and> snd st < length buf0
     \<and> (fst st ! snd st = nul \<or> (snd st = 0 \<and> fst st = buf0))"

lemma put_text_ok:
  assumes "obuf_ok buf0 (buf, pos)"
  shows "obuf_ok buf0 (put_text s (buf, pos))"
    "take (snd (put_text s (buf, pos))) (fst (put_text s (buf, pos)))
      = take (length buf0 - 1) (take pos buf @ s)"
proof -
  let ?k = "min (length s) (length buf - pos - 1)"
  have l: "length buf = length buf0" "pos < length buf0" using assms by (auto simp: obuf_ok_def)
  then show "obuf_ok buf0 (put_text s (buf, pos))"
    by (auto simp: obuf_ok_def put_text_def nth_append Let_def)
  have "take (length buf0 - 1) (take pos buf @ s) = take pos buf @ take ?k s"
    using l by (simp add: take_append min.commute)
  with l show "take (snd (put_text s (buf, pos))) (fst (put_text s (buf, pos)))
      = take (length buf0 - 1) (take pos buf @ s)"
    by (simp add: put_text_def Let_def)
qed

text \<open>
  The loop against the text to be printed: it ends without a store outside the buffer, and
  what it leaves is the text cut to the buffer.
\<close>

lemma vsn_loop_text:
  assumes "format_text fmt va = Some t" "obuf_ok buf0 st" "length buf0 < 2 ^ 32"
  shows "\<exists>st'. vsn_loop (length buf0) fmt va st = Some st' \<and> obuf_ok buf0 st'
    \<and> take (snd st') (fst st') = take (length buf0 - 1) (take (snd st) (fst st) @ t)"
  using assms
proof (induction fmt va arbitrary: st t rule: format_text.induct)
  case (1 va)
  then have "take (length buf0 - 1) (take (snd st) (fst st)) = take (snd st) (fst st)"
    by (intro take_all) (auto simp: obuf_ok_def)
  with 1 show ?case by simp
next
  case (2 ch fmt va)
  obtain buf pos where st: "st = (buf, pos)" by (cases st)
  have len: "length buf = length buf0" "pos < length buf0" using 2 st by (auto simp: obuf_ok_def)
  show ?case
  proof (cases "pos + 1 < length buf0")
    case False
    then have "pos = length buf0 - 1" using len by simp
    then have "take (length buf0 - 1) (take pos buf @ t) = take pos buf" using len by simp
    with False st 2 len show ?thesis by auto
  next
    case room: True
    note step = put_text_ok [OF "2.prems"(2) [unfolded st]]
    have cut: "take m (take m (a @ b) @ c) = take m (a @ b @ c)" for m and a b c :: string
      using take_take_append [of m "a @ b" c] by simp
    show ?thesis
    proof (cases "ch = CHR ''%''")
      case False
      then obtain t' where t': "format_text fmt va = Some t'" "t = ch # t'" using 2 by auto
      from "2.IH"(1) [OF False t'(1) step(1) "2.prems"(3), of "[ch]"] False room st t' len
      show ?thesis by (simp add: putc_put_text [of pos buf, unfolded len] step(2) cut)
    next
      case perc: True
      show ?thesis
      proof (cases "conv_head fmt")
        case None
        with perc 2 st room len show ?thesis by (auto simp: min_def)
      next
        case (Some h)
        obtain z ch' fmt' where h: "h = (z, ch', fmt')" by (cases h)
        then obtain s va' t' where s: "conv_text ch' z va = Some (s, va')"
          "format_text fmt' va' = Some t'" "t = s @ t'"
          using 2 perc Some by (auto split: bind_splits simp del: conv_text.simps)
        have "emit (length buf0) ch' s (buf, pos) = Some (put_text s (buf, pos))"
          using emit_put_text [OF s(1), of pos buf] room len "2.prems"(3) by simp
        then have "vsn_loop (length buf0) (ch # fmt) va st = vsn_loop (length buf0) fmt' va' (put_text s (buf, pos))"
          using perc Some h s(1) st room by (simp del: conv_text.simps)
        moreover have "\<exists>st'. vsn_loop (length buf0) fmt' va' (put_text s (buf, pos)) = Some st' \<and> obuf_ok buf0 st'
            \<and> take (snd st') (fst st') = take (length buf0 - 1)
                (take (snd (put_text s (buf, pos))) (fst (put_text s (buf, pos))) @ t')"
          by (rule "2.IH"(2)) (use perc Some h s step(1) "2.prems"(3) in \<open>auto simp del: conv_text.simps\<close>)
        ultimately show ?thesis
          unfolding step(2) cut using s(3) st by simp
      qed
    qed
  qed
qed

section \<open>Lemmas on the digits\<close>

lemma sint_small: "unat (w :: u32) < 2 ^ 31 \<Longrightarrow> sint w = int (unat w)"
proof -
  assume "unat w < 2 ^ 31"
  then have "int (unat w) < int (2 ^ 31)" by (simp only: of_nat_less_iff)
  then have u: "uint w < 2 ^ 31" by simp
  have l: "- (2 ^ 31) \<le> uint w" by (rule order_trans [of _ 0]) simp_all
  have "sint w = signed_take_bit 31 (uint w)" by (simp add: sint_uint)
  also have "\<dots> = uint w" using u l by (rule signed_take_bit_int_eq_self [rotated])
  finally show ?thesis by simp
qed

text \<open>The digits of a number in a base, most significant first.\<close>

fun base_digits :: "bool \<Rightarrow> nat \<Rightarrow> nat \<Rightarrow> string" where
  "base_digits up r n =
     (if n < r \<or> r < 2 then [digit_char up (n mod r)] else base_digits up r (n div r) @ [digit_char up (n mod r)])"

declare base_digits.simps [simp del]

lemma itoa_digits_base:
  assumes "1 < unat radix"
  shows "itoa_digits v radix up = Some (rev (base_digits up (unat radix) (unat v)))"
proof (induction "unat v" arbitrary: v rule: less_induct)
  case less
  let ?v = "v div radix"
  have r0: "radix \<noteq> 0" using assms by auto
  have dv: "unat ?v = unat v div unat radix" and mv: "unat (v mod radix) = unat v mod unat radix"
    by (simp_all add: unat_div unat_mod)
  have "unat v div unat radix \<le> unat v div 2" using assms by (intro div_le_mono2) auto
  moreover have "unat v div 2 < 2 ^ 31" using unat_u32_less [of v] by (simp add: less_mult_imp_div_less)
  ultimately have "unat ?v < 2 ^ 31" unfolding dv by (rule le_less_trans)
  then have pos: "sint ?v > 0 \<longleftrightarrow> unat radix \<le> unat v"
    using assms by (simp add: sint_small dv div_greater_zero_iff)
  show ?case
  proof (cases "unat radix \<le> unat v")
    case True
    then have "unat ?v < unat v" unfolding dv using assms by (intro div_less_dividend) auto
    from less [OF this] True assms r0 pos show ?thesis
      by (simp add: itoa_digits.simps [of v] base_digits.simps [of up "unat radix" "unat v"] Let_def dv mv)
  next
    case False
    with assms r0 pos show ?thesis
      by (simp add: itoa_digits.simps [of v] base_digits.simps [of up "unat radix" "unat v"] Let_def mv)
  qed
qed

lemma base_digits_dec: "base_digits up 10 n = dec_digits n"
proof (induction n rule: less_induct)
  case (less n)
  then show ?case
    by (simp add: base_digits.simps [of up 10 n] dec_digits.simps [of n] digit_char_def)
qed

lemma base_digits_hex: "base_digits True 16 n = hex_digits n"
proof (induction n rule: less_induct)
  case (less n)
  have "digit_char True d = hex_digit d" for d
    by (simp add: digit_char_def hex_digit_def)
  with less show ?case
    by (simp add: base_digits.simps [of True 16 n] hex_digits.simps [of n])
qed

lemma replicate2: "replicate 2 x = [x, x]"
  by (simp add: numeral_2_eq_2)

lemma digit_chars:
  "digit_char up 2 = CHR ''2''" "digit_char up 4 = CHR ''4''" "digit_char up 7 = CHR ''7''"
  "digit_char True 11 = CHR ''B''" "digit_char True 14 = CHR ''E''" "digit_char True 15 = CHR ''F''"
  by (cases up; code_simp)+

text \<open>For the radixes 2 to 16 the conversion ends and prints the digits of the number, most
  significant first, after the zeros that fill up the width and, for a negative signed number,
  the sign; for radix 10 these are the decimal digits, for radix 16 the hexadecimal ones, of the
  unsigned value or of the absolute value of the signed one.  The smallest signed number has no
  negation in C: printing it is undefined.\<close>

theorem mini_itoa_digits:
  assumes "1 < unat radix" "unat radix \<le> 16"
  shows "mini_itoa v radix up unsig z =
    (let neg = sint v < 0 \<and> \<not> unsig; ds = base_digits up (unat radix) (unat (if neg then - v else v))
     in if v = 0x80000000 \<and> neg then None else Some ((if neg then ''-'' else []) @ replicate (z - length ds) (CHR ''0'') @ ds)) \<and>
    base_digits up 10 n = dec_digits n \<and> base_digits True 16 n = hex_digits n"
proof -
  have "radix \<le> 16" using assms(2) by (simp add: word_le_nat_alt)
  then have "\<not> radix > 16" by simp
  with assms show ?thesis
    by (simp add: mini_itoa_def itoa_digits_base Let_def base_digits_dec base_digits_hex)
qed

theorem mini_itoa_digits_witness:
  "mini_itoa (- 42) 10 False False 4 = Some ''-0042'' \<and> mini_itoa 0xBEEF 16 True True 0 = Some ''BEEF''"
proof -
  have "base_digits False 10 42 = ''42''" "base_digits True 16 0xBEEF = ''BEEF''"
    by (simp_all add: base_digits.simps digit_chars)
  moreover have "sint (- 42 :: u32) = - 42" "sint (0xBEEF :: u32) = 0xBEEF" by simp_all
  moreover have "unat (42 :: u32) = 42" "unat (0xBEEF :: u32) = 0xBEEF" by simp_all
  ultimately show ?thesis
    using mini_itoa_digits [of 10, where v = "- 42" and up = False and unsig = False and z = 4]
      mini_itoa_digits [of 16, where v = "0xBEEF" and up = True and unsig = True and z = 0]
    by (simp add: Let_def replicate2)
qed

section \<open>Properties\<close>

lemma vsnprintf_text:
  assumes "format_text (cstr fmt) va = Some t" "buf \<noteq> []" "length buf < 2 ^ 32"
  shows "\<exists>r buf'. mini_vsnprintf buf fmt va = Some (r, buf') \<and> length buf' = length buf
    \<and> r < length buf \<and> take r buf' = take (length buf - 1) t
    \<and> (buf' ! r = nul \<or> r = 0 \<and> buf' = buf)"
proof -
  have "obuf_ok buf (buf, 0)" using assms(2) by (simp add: obuf_ok_def)
  from vsn_loop_text [OF assms(1) this assms(3)] show ?thesis
    by (auto simp: mini_vsnprintf_def obuf_ok_def)
qed

text \<open>C13: Formatting into a buffer of fewer than 2^32 characters never stores outside it, and
  leaves the text of the format cut to one character less than the buffer, with its length as the
  result; the text is followed by a NUL, or else nothing was put and the buffer is untouched.\<close>

theorem mini_vsnprintf_text:
  assumes "format_text (cstr fmt) va = Some t" "buf \<noteq> []" "length buf < 2 ^ 32"
  shows "\<exists>r buf'. mini_vsnprintf buf fmt va = Some (r, buf') \<and> length buf' = length buf
    \<and> r < length buf \<and> take r buf' = take (length buf - 1) t
    \<and> (buf' ! r = nul \<or> r = 0 \<and> buf' = buf)"
  using assms by (rule vsnprintf_text)

lemma sample_format: "format_text (cstr ''a%d%s'') [ArgInt 7, ArgStr ''xyz''] = Some ''a7xyz''"
proof -
  have "mini_itoa 7 10 False False 0 = Some ''7''"
  proof -
    have "itoa_digits 7 10 False = Some ''7''"
      by (subst itoa_digits_base) (simp_all add: base_digits.simps digit_chars)
    then show ?thesis by (simp add: mini_itoa_def)
  qed
  moreover have "cstr ''a%d%s'' = ''a%d%s''" "cstr ''xyz'' = ''xyz''" by code_simp+
  ultimately show ?thesis by simp
qed

theorem mini_vsnprintf_text_witness:
  "\<exists>r buf'. mini_vsnprintf ''----'' ''a%d%s'' [ArgInt 7, ArgStr ''xyz''] = Some (r, buf') \<and> take r buf' = ''a7x''"
  using mini_vsnprintf_text [OF sample_format, of "''----''"] by auto

text \<open>What \<open>printf\<close> sends is the text of the format cut to 98 characters, when that text is not
  empty and has no NUL in it; for a format that prints nothing the buffer is never terminated, and
  what is sent is whatever the stack holds.\<close>

theorem printf_sends:
  assumes "format_text (cstr fmt) va = Some t" "length stack \<ge> 99" "nul \<notin> set t"
  shows "(t \<noteq> [] \<longrightarrow> (\<exists>r. printf' stack fmt va = Some (r, take 98 t))) \<and>
    (cstr fmt = [] \<longrightarrow> printf' stack fmt va =
       (if nul \<in> set (take 99 stack) then Some (0, cstr (take 99 stack)) else None))"
proof
  have len: "length (take 99 stack) = 99" using assms(2) by simp
  then have "take 99 stack \<noteq> []" "length (take 99 stack) < 2 ^ 32" by auto
  from vsnprintf_text [OF assms(1) this] len obtain r buf' where
    r: "mini_vsnprintf (take 99 stack) fmt va = Some (r, buf')" "length buf' = 99" "r < 99"
      "take r buf' = take 98 t" "buf' ! r = nul \<or> r = 0 \<and> buf' = take 99 stack"
    by auto
  show "t \<noteq> [] \<longrightarrow> (\<exists>r. printf' stack fmt va = Some (r, take 98 t))"
  proof
    assume "t \<noteq> []"
    then have "take 98 t \<noteq> []" by (cases t) auto
    then have "r \<noteq> 0" using r(4) by (metis take0)
    then have nulr: "buf' ! r = nul" using r(5) by simp
    then have nn: "nul \<in> set buf'" using r(2,3) by (metis nth_mem)
    have "buf' = take r buf' @ nul # drop (Suc r) buf'"
      using r(2,3) nulr by (metis id_take_nth_drop)
    then have split: "buf' = take 98 t @ nul # drop (Suc r) buf'" using r(4) by simp
    have "\<forall>c \<in> set (take 98 t). c \<noteq> nul" using assms(3) by (metis in_set_takeD)
    then have "cstr (take 98 t @ nul # drop (Suc r) buf') = take 98 t"
      unfolding cstr_def by (intro takeWhile_append_stop) auto
    then have "cstr buf' = take 98 t" using split by simp
    with r nn show "\<exists>r. printf' stack fmt va = Some (r, take 98 t)"
      by (simp add: printf'_def)
  qed
  show "cstr fmt = [] \<longrightarrow> printf' stack fmt va =
       (if nul \<in> set (take 99 stack) then Some (0, cstr (take 99 stack)) else None)"
    by (simp add: printf'_def mini_vsnprintf_def)
qed

theorem printf_sends_witness:
  "(\<exists>r. printf' (replicate 99 (CHR ''?'')) ''a%d%s'' [ArgInt 7, ArgStr ''xyz''] = Some (r, ''a7xyz'')) \<and>
   printf' (replicate 99 (CHR ''?'')) [] [] = None"
proof -
  have "nul \<notin> set ''a7xyz''" "CHR ''?'' \<noteq> nul" by (simp_all add: nul_def)
  with printf_sends [OF sample_format, of "replicate 99 (CHR ''?'')"]
    printf_sends [of "[]" "[]" "[]" "replicate 99 (CHR ''?'')"]
  show ?thesis by (auto simp: cstr_def set_replicate_conv_if)
qed

section \<open>The types of the arguments\<close>

text \<open>
  The formats are untyped in C; this is the type system that their callers keep to.  A signed number
  must have a negation, so it is any number but the smallest.
\<close>

datatype arg_ty = IntT | SignedT | StrT

fun has_ty :: "arg \<Rightarrow> arg_ty \<Rightarrow> bool" where
  "has_ty (ArgInt v) IntT = True"
| "has_ty (ArgInt v) SignedT = (v \<noteq> 0x80000000)"
| "has_ty (ArgInt v) StrT = False"
| "has_ty (ArgStr s) ty = (ty = StrT)"

definition conv_ty :: "char \<Rightarrow> arg_ty list" where
  "conv_ty ch =
     (if ch \<in> set ''uxXc'' then [IntT] else if ch = CHR ''d'' then [SignedT]
      else if ch = CHR ''s'' then [StrT] else [])"

function fmt_types :: "string \<Rightarrow> arg_ty list" where
  "fmt_types [] = []"
| "fmt_types (ch # fmt) =
     (if ch \<noteq> CHR ''%'' then fmt_types fmt
      else (case conv_head fmt of None \<Rightarrow> [] | Some (zero_pad, ch', fmt') \<Rightarrow> conv_ty ch' @ fmt_types fmt'))"
  by pat_completeness auto
termination
  by (relation "measure length") (auto dest!: conv_head_length)

definition has_types :: "arg list \<Rightarrow> arg_ty list \<Rightarrow> bool" where
  "has_types va tys \<longleftrightarrow> list_all2 has_ty (take (length tys) va) tys"

definition well_typed :: "string \<Rightarrow> arg list \<Rightarrow> bool" where
  "well_typed fmt va \<longleftrightarrow> has_types va (fmt_types fmt)"

lemma mini_itoa_total:
  "1 < unat radix \<Longrightarrow> unat radix \<le> 16 \<Longrightarrow> (\<exists>s. mini_itoa v radix up unsig z = Some s) \<longleftrightarrow> unsig \<or> v \<noteq> 0x80000000"
  by (auto simp: mini_itoa_def itoa_digits_base Let_def word_le_nat_alt word_less_nat_alt)

text \<open>A conversion succeeds exactly on an argument of its type, and takes it.\<close>

lemma conv_text_typed: "(\<exists>s va'. conv_text ch z va = Some (s, va')) \<longleftrightarrow> has_types va (conv_ty ch)"
proof (cases va)
  case Nil
  then show ?thesis by (auto simp: conv_ty_def has_types_def split: if_splits)
next
  case (Cons a vb)
  show ?thesis
  proof (cases a)
    case (ArgInt v)
    have d: "(\<exists>s. mini_itoa v 10 False unsig z = Some s) \<longleftrightarrow> unsig \<or> v \<noteq> 0x80000000"
      "(\<exists>s. mini_itoa v 16 up True z = Some s)" for unsig up
      using mini_itoa_total [of 10 v False unsig z] mini_itoa_total [of 16 v up True z] by simp_all
    show ?thesis using d by (auto simp: Cons ArgInt conv_ty_def has_types_def)
  qed (auto simp: Cons conv_ty_def has_types_def)
qed

lemma conv_text_rest: "conv_text ch z va = Some (s, va') \<Longrightarrow> va' = drop (length (conv_ty ch)) va"
  by (cases va; cases "hd va") (auto simp: conv_ty_def split: if_splits)

lemma typed_append:
  "has_types va (xs @ ys) \<longleftrightarrow> has_types va xs \<and> has_types (drop (length xs) va) ys"
proof (cases "length xs \<le> length va")
  case True
  have "take (length (xs @ ys)) va = take (length xs) va @ take (length ys) (drop (length xs) va)" by (simp add: take_add)
  with True show ?thesis unfolding has_types_def by (simp only:) (simp add: list_all2_append)
next
  case False
  then have "\<not> has_types va (xs @ ys)" "\<not> has_types va xs"
    unfolding has_types_def by (auto dest!: list_all2_lengthD)
  then show ?thesis by simp
qed

lemma format_text_typed: "(\<exists>t. format_text fmt va = Some t) \<longleftrightarrow> well_typed fmt va"
proof (induction fmt va rule: format_text.induct)
  case (1 va)
  then show ?case by (simp add: well_typed_def has_types_def)
next
  case (2 ch fmt va)
  show ?case
  proof (cases "ch = CHR ''%'' \<and> conv_head fmt \<noteq> None")
    case False
    then consider "ch \<noteq> CHR ''%''" | "ch = CHR ''%''" "conv_head fmt = None" by blast
    then show ?thesis using 2(1) by cases (auto simp: well_typed_def has_types_def)
  next
    case True
    then obtain z ch' fmt' where h: "ch = CHR ''%''" "conv_head fmt = Some (z, ch', fmt')" by auto
    show ?thesis
    proof (cases "conv_text ch' z va")
      case None
      with conv_text_typed [of ch' z va] h show ?thesis by (simp add: well_typed_def typed_append del: conv_text.simps length_append)
    next
      case (Some p)
      then obtain s va' where c: "conv_text ch' z va = Some (s, va')" by (cases p) simp
      have "(\<exists>t. format_text fmt' va' = Some t) \<longleftrightarrow> well_typed fmt' va'"
        using 2(2) [OF _ h(2)] h(1) c by (simp del: conv_text.simps)
      with c conv_text_rest [OF c] conv_text_typed [of ch' z va] h show ?thesis
        by (simp add: well_typed_def typed_append del: conv_text.simps length_append)
    qed
  qed
qed

text \<open>C30: The formatter never gets stuck on a well-typed call: exactly the calls whose arguments begin with one
  number for every conversion to a number or a character (for \<open>%d\<close> not the smallest one, whose negation is undefined) and one string
  for every conversion to a string have a text, and on those the
  formatter returns for every buffer, with a position inside the buffer and the buffer's length unchanged.\<close>
theorem mini_vsnprintf_typed:
  "(well_typed (cstr fmt) va \<longleftrightarrow> format_text (cstr fmt) va \<noteq> None) \<and>
   (well_typed (cstr fmt) va \<longrightarrow> 0 < length buf \<longrightarrow> length buf < 2 ^ 32 \<longrightarrow>
     (\<exists>r buf'. mini_vsnprintf buf fmt va = Some (r, buf') \<and> length buf' = length buf \<and> r < length buf))"
proof (intro conjI impI)
  show "well_typed (cstr fmt) va \<longleftrightarrow> format_text (cstr fmt) va \<noteq> None"
    using format_text_typed [of "cstr fmt" va] by auto
  assume a: "well_typed (cstr fmt) va" "0 < length buf" "length buf < 2 ^ 32"
  then obtain t where "format_text (cstr fmt) va = Some t" using format_text_typed by blast
  from vsnprintf_text [OF this _ a(3)] a(2)
  show "\<exists>r buf'. mini_vsnprintf buf fmt va = Some (r, buf') \<and> length buf' = length buf \<and> r < length buf" by auto
qed

theorem mini_vsnprintf_typed_witness:
  "\<exists>r buf'. mini_vsnprintf ''----'' ''a%d%s'' [ArgInt 7, ArgStr ''xyz''] = Some (r, buf') \<and> length buf' = length ''----'' \<and> r < length ''----''"
proof -
  have "cstr ''a%d%s'' = ''a%d%s''" by code_simp
  then have "well_typed (cstr ''a%d%s'') [ArgInt 7, ArgStr ''xyz'']" by (simp add: well_typed_def has_types_def conv_ty_def)
  moreover have "0 < length ''----''" "length ''----'' < 2 ^ 32" by simp_all
  ultimately show ?thesis
    using mini_vsnprintf_typed [of "''a%d%s''" "[ArgInt 7, ArgStr ''xyz'']" "''----''"] by blast
qed

end
