(* ===== verification/SdTest.thy ===== *)
theory SdTest
  imports FileTable MiniPrintf
begin

text \<open>
  The test program of the boot program's card driver (bootstrap/sdcard/sdcard.c): it prints a text file.  FatFs is
  the parameter of the file table, with mounting as a parameter of its own; the state is the drive and the text
  sent since the port was set up.  \<open>None\<close> is a store outside the buffer, a \<open>printf\<close> with no result, or a file
  that does not end.
\<close>

record 'd cat_state =
  cat_drive :: 'd
  cat_out :: string

definition cat_say :: "string \<Rightarrow> string \<Rightarrow> arg list \<Rightarrow> 'd cat_state \<Rightarrow> 'd cat_state option" where
  "cat_say stack fmt va st = map_option (\<lambda>(r, t). st\<lparr>cat_out := cat_out st @ t\<rparr>) (printf' stack fmt va)"

text \<open>The loop: a chunk of at most 64 bytes, ended with a zero behind it in a buffer of 64 bytes.\<close>

partial_function (option) cat_loop ::
  "('d, 'f) fatfs \<Rightarrow> string \<Rightarrow> 'f \<Rightarrow> u32 \<Rightarrow> 'd cat_state \<Rightarrow> (u32 \<times> 'f \<times> 'd cat_state) option" where
  "cat_loop E stack x fsize st =
     (case f_read E (cat_drive st) x 64 of
        (fr, bs, x, d) \<Rightarrow>
          (let st = st\<lparr>cat_drive := d\<rparr>; br = length bs in
           if fr \<noteq> 0 \<or> br = 0 then Some (fsize, x, st)
           else if br \<ge> 64 then None
           else
             (case cat_say stack ''%s'' [ArgStr (map byte_ch bs)] st of
                None \<Rightarrow> None
              | Some st \<Rightarrow> cat_loop E stack x (fsize + of_nat br) st)))"

definition sdcard ::
  "('d, 'f) fatfs \<Rightarrow> ('d \<Rightarrow> nat \<times> 'd) \<Rightarrow> ('d \<Rightarrow> nat \<times> 'd) \<Rightarrow> string \<Rightarrow> 'd cat_state \<Rightarrow> (nat \<times> 'd cat_state) option" where
  "sdcard E mount unmount stack st =
     (let (r, d) = mount (cat_drive st); st = st\<lparr>cat_drive := d\<rparr> in
      if r \<noteq> 0 then map_option (Pair 1) (cat_say stack (''Fail to mount SD driver!'' @ [lf]) [] st)
      else
        (let (fr, x, d) = f_open E d ''test.txt'' 1; st = st\<lparr>cat_drive := d\<rparr> in
         if fr \<noteq> 0 then map_option (Pair fr) (cat_say stack (''failed to open test.text!'' @ [lf]) [] st)
         else
           do { st \<leftarrow> cat_say stack (''test.txt opened'' @ [lf]) [] st;
                (fsize, x, st) \<leftarrow> cat_loop E stack x 0 st;
                st \<leftarrow> cat_say stack (''file size %d'' @ [lf]) [ArgInt fsize] st;
                let (c, x, d) = f_close E (cat_drive st) x;
                let st = st\<lparr>cat_drive := d\<rparr>;
                if c \<noteq> 0 then map_option (Pair 1) (cat_say stack ''fail to close file!'' [] st)
                else
                  (let (u, d) = unmount (cat_drive st); st = st\<lparr>cat_drive := d\<rparr> in
                   if u \<noteq> 0 then map_option (Pair 1) (cat_say stack ''fail to umount disk!'' [] st)
                   else map_option (Pair 0) (cat_say stack (''test.txt closed.'' @ [lf]) [] st)) }))"

text \<open>A full chunk: the zero is stored behind the buffer, whatever the file holds.\<close>

lemma cat_overrun:
  assumes "fat_laws E good content pos" "good (cat_drive st) x" "pos (cat_drive st) x + 64 \<le> length (content (cat_drive st) x)"
  shows "cat_loop E stack x fsize st = None"
proof -
  have n: "unat (64 :: u32) = 64" by simp
  from assms(1) [unfolded fat_laws_def, THEN conjunct2, THEN spec [of _ "cat_drive st"], THEN spec [of _ x], THEN spec [of _ 64]] assms(2)
  obtain x' d' where "f_read E (cat_drive st) x 64 = (0, take 64 (drop (pos (cat_drive st) x) (content (cat_drive st) x)), x', d')"
    unfolding n by blast
  then show ?thesis using assms(3) by (simp add: cat_loop.simps)
qed

end
