(* ===== verification/FatVolume.thy ===== *)
theory FatVolume
  imports DiskDefs
begin

text \<open>
  The volume layer of FatFs (hello/ff.c, the same file in hello/driver and bootstrap/sdcard, with ff.h and the
  settings of ffconf.h: sectors of 512 bytes, short names, read and write, two volumes): the window on one
  sector, the file allocation table in its three widths and the chains of clusters in it.  The disk functions
  FatFs calls are the parameter \<open>disk_ops\<close>; \<open>None\<close> is a call of one of them that does not return, and otherwise a
  loop that does not end.
\<close>

section \<open>The disk\<close>

text \<open>A read returns the bytes that are in the buffer afterwards, whatever its result.\<close>

record 'd disk_ops =
  dk_read :: "u8 \<Rightarrow> u32 \<Rightarrow> u32 \<Rightarrow> 'd \<Rightarrow> (dresult \<times> u8 list \<times> 'd) option"
  dk_write :: "u8 \<Rightarrow> u8 list \<Rightarrow> u32 \<Rightarrow> u32 \<Rightarrow> 'd \<Rightarrow> (dresult \<times> 'd) option"
  dk_sync :: "u8 \<Rightarrow> 'd \<Rightarrow> (dresult \<times> 'd) option"
  dk_status :: "u8 \<Rightarrow> 'd \<Rightarrow> u8"
  dk_init :: "u8 \<Rightarrow> 'd \<Rightarrow> (u8 \<times> 'd) option"

section \<open>Data\<close>

datatype FRESULT =
    FR_OK | FR_DISK_ERR | FR_INT_ERR | FR_NOT_READY | FR_NO_FILE | FR_NO_PATH | FR_INVALID_NAME | FR_DENIED
  | FR_EXIST | FR_INVALID_OBJECT | FR_WRITE_PROTECTED | FR_INVALID_DRIVE | FR_NOT_ENABLED | FR_NO_FILESYSTEM
  | FR_MKFS_ABORTED | FR_TIMEOUT | FR_LOCKED | FR_NOT_ENOUGH_CORE | FR_TOO_MANY_OPEN_FILES | FR_INVALID_PARAMETER

text \<open>The field \<open>fsize\<close> of the source, the sectors of one table, is \<open>fat_size\<close> here.\<close>

record FATFS =
  fs_type :: u8
  drv :: u8
  csize :: u8
  n_fats :: u8
  wflag :: u8
  fsi_flag :: u8
  fs_id :: u16
  n_rootdir :: u16
  last_clust :: u32
  free_clust :: u32
  cdir :: u32
  n_fatent :: u32
  fat_size :: u32
  volbase :: u32
  fatbase :: u32
  dirbase :: u32
  database :: u32
  winsect :: u32
  win :: "u8 list"

text \<open>A volume in use: its object and the disk under it.\<close>

record 'd volume = FATFS +
  dsk :: 'd

definition FS_FAT12 :: u8 where "FS_FAT12 = 1"
definition FS_FAT16 :: u8 where "FS_FAT16 = 2"
definition FS_FAT32 :: u8 where "FS_FAT32 = 3"

text \<open>Little-endian values in a sector buffer.\<close>

definition LD_WORD :: "u8 list \<Rightarrow> nat \<Rightarrow> u16" where
  "LD_WORD bs i = push_bit 8 (ucast (bs ! (i + 1))) OR ucast (bs ! i)"

definition LD_DWORD :: "u8 list \<Rightarrow> nat \<Rightarrow> u32" where
  "LD_DWORD bs i = push_bit 24 (ucast (bs ! (i + 3))) OR push_bit 16 (ucast (bs ! (i + 2))) OR
     push_bit 8 (ucast (bs ! (i + 1))) OR ucast (bs ! i)"

definition ST_WORD :: "nat \<Rightarrow> u16 \<Rightarrow> u8 list \<Rightarrow> u8 list" where
  "ST_WORD i v bs = bs[i := ucast v, i + 1 := ucast (drop_bit 8 v)]"

definition ST_DWORD :: "nat \<Rightarrow> u32 \<Rightarrow> u8 list \<Rightarrow> u8 list" where
  "ST_DWORD i v bs =
     bs[i := ucast v, i + 1 := ucast (drop_bit 8 v), i + 2 := ucast (drop_bit 16 v), i + 3 := ucast (drop_bit 24 v)]"

section \<open>The window\<close>

text \<open>The copies of a sector of the first table; the results of these writes are ignored.\<close>

fun write_copies :: "'d disk_ops \<Rightarrow> nat \<Rightarrow> u32 \<Rightarrow> 'd volume \<Rightarrow> 'd volume option" where
  "write_copies D (Suc (Suc n)) wsect v =
     (let wsect = wsect + fat_size v in
      case dk_write D (drv v) (win v) wsect 1 (dsk v) of
        None \<Rightarrow> None
      | Some (_, d) \<Rightarrow> write_copies D (Suc n) wsect (v\<lparr>dsk := d\<rparr>))"
| "write_copies D _ wsect v = Some v"

definition sync_window :: "'d disk_ops \<Rightarrow> 'd volume \<Rightarrow> (FRESULT \<times> 'd volume) option" where
  "sync_window D v =
     (if wflag v \<noteq> 0 then
        (let wsect = winsect v in
         case dk_write D (drv v) (win v) wsect 1 (dsk v) of
           None \<Rightarrow> None
         | Some (r, d) \<Rightarrow>
             if r \<noteq> RES_OK then Some (FR_DISK_ERR, v\<lparr>dsk := d\<rparr>)
             else
               (let v = v\<lparr>wflag := 0, dsk := d\<rparr> in
                if wsect - fatbase v < fat_size v
                then map_option (\<lambda>v. (FR_OK, v)) (write_copies D (unat (n_fats v)) wsect v)
                else Some (FR_OK, v)))
      else Some (FR_OK, v))"

definition move_window :: "'d disk_ops \<Rightarrow> u32 \<Rightarrow> 'd volume \<Rightarrow> (FRESULT \<times> 'd volume) option" where
  "move_window D sector v =
     (if sector \<noteq> winsect v then
        (case sync_window D v of
           None \<Rightarrow> None
         | Some (res, v) \<Rightarrow>
             if res = FR_OK then
               (case dk_read D (drv v) sector 1 (dsk v) of
                  None \<Rightarrow> None
                | Some (r, bs, d) \<Rightarrow>
                    if r \<noteq> RES_OK then Some (FR_DISK_ERR, v\<lparr>dsk := d, win := bs, winsect := 0xFFFFFFFF\<rparr>)
                    else Some (FR_OK, v\<lparr>dsk := d, win := bs, winsect := sector\<rparr>))
             else Some (res, v))
      else Some (FR_OK, v))"

text \<open>The information sector of a volume with 32-bit entries.\<close>

definition fsinfo_sector :: "'d volume \<Rightarrow> u8 list" where
  "fsinfo_sector v =
     ST_DWORD 492 (last_clust v) (ST_DWORD 488 (free_clust v)
       (ST_DWORD 484 0x61417272 (ST_DWORD 0 0x41615252 (ST_WORD 510 0xAA55 (replicate 512 0)))))"

definition sync_fs :: "'d disk_ops \<Rightarrow> 'd volume \<Rightarrow> (FRESULT \<times> 'd volume) option" where
  "sync_fs D v =
     do { (res, v) \<leftarrow> sync_window D v;
          if res = FR_OK then
            do { v \<leftarrow> (if fs_type v = FS_FAT32 \<and> fsi_flag v = 1 then
                       (let v = v\<lparr>win := fsinfo_sector v, winsect := volbase v + 1\<rparr> in
                        do { (_, d) \<leftarrow> dk_write D (drv v) (win v) (winsect v) 1 (dsk v);
                             Some (v\<lparr>dsk := d, fsi_flag := 0\<rparr>) })
                     else Some v);
                 (r, d) \<leftarrow> dk_sync D (drv v) (dsk v);
                 Some (if r \<noteq> RES_OK then FR_DISK_ERR else FR_OK, v\<lparr>dsk := d\<rparr>) }
          else Some (res, v) }"

section \<open>Clusters and the allocation table\<close>

definition clust2sect :: "'d volume \<Rightarrow> u32 \<Rightarrow> u32" where
  "clust2sect v clst =
     (let clst = clst - 2 in
      if clst \<ge> n_fatent v - 2 then 0 else clst * ucast (csize v) + database v)"

definition get_fat :: "'d disk_ops \<Rightarrow> u32 \<Rightarrow> 'd volume \<Rightarrow> (u32 \<times> 'd volume) option" where
  "get_fat D clst v =
     (if clst < 2 \<or> clst \<ge> n_fatent v then Some (1, v)
      else if fs_type v = FS_FAT12 then
        (let bc = clst + clst div 2 in
         do { (res, v) \<leftarrow> move_window D (fatbase v + bc div 512) v;
              if res \<noteq> FR_OK then Some (0xFFFFFFFF, v)
              else
                (let wc = ucast (win v ! unat (bc mod 512)); bc = bc + 1 in
                 do { (res, v) \<leftarrow> move_window D (fatbase v + bc div 512) v;
                      if res \<noteq> FR_OK then Some (0xFFFFFFFF, v)
                      else
                        (let wc = wc OR push_bit 8 (ucast (win v ! unat (bc mod 512)))
                         in Some (if clst AND 1 \<noteq> 0 then drop_bit 4 wc else wc AND 0xFFF, v)) }) })
      else if fs_type v = FS_FAT16 then
        do { (res, v) \<leftarrow> move_window D (fatbase v + clst div 256) v;
             Some (if res \<noteq> FR_OK then 0xFFFFFFFF else ucast (LD_WORD (win v) (unat (clst * 2 mod 512))), v) }
      else if fs_type v = FS_FAT32 then
        do { (res, v) \<leftarrow> move_window D (fatbase v + clst div 128) v;
             Some (if res \<noteq> FR_OK then 0xFFFFFFFF
                   else LD_DWORD (win v) (unat (clst * 4 mod 512)) AND 0x0FFFFFFF, v) }
      else Some (1, v))"

text \<open>A change of the window marks it dirty.\<close>

definition set_win :: "u8 list \<Rightarrow> 'd volume \<Rightarrow> 'd volume" where
  "set_win bs v = v\<lparr>win := bs, wflag := 1\<rparr>"

text \<open>The two bytes of a twelve-bit entry after a value is stored in it.\<close>

definition low12 :: "u32 \<Rightarrow> u32 \<Rightarrow> u8 \<Rightarrow> u8" where
  "low12 c val p = (if c AND 1 \<noteq> 0 then p AND 0x0F OR push_bit 4 (ucast val) else ucast val)"

definition high12 :: "u32 \<Rightarrow> u32 \<Rightarrow> u8 \<Rightarrow> u8" where
  "high12 c val p = (if c AND 1 \<noteq> 0 then ucast (drop_bit 4 val) else p AND 0xF0 OR (ucast (drop_bit 8 val) AND 0x0F))"

definition put_fat :: "'d disk_ops \<Rightarrow> u32 \<Rightarrow> u32 \<Rightarrow> 'd volume \<Rightarrow> (FRESULT \<times> 'd volume) option" where
  "put_fat D clst val v =
     (if clst < 2 \<or> clst \<ge> n_fatent v then Some (FR_INT_ERR, v)
      else if fs_type v = FS_FAT12 then
        (let bc = clst + clst div 2 in
         do { (res, v) \<leftarrow> move_window D (fatbase v + bc div 512) v;
              if res \<noteq> FR_OK then Some (res, v)
              else
                (let i = unat (bc mod 512); p = win v ! i;
                     v = set_win ((win v)[i := low12 clst val p]) v;
                     bc = bc + 1 in
                 do { (res, v) \<leftarrow> move_window D (fatbase v + bc div 512) v;
                      if res \<noteq> FR_OK then Some (res, v)
                      else
                        (let i = unat (bc mod 512); p = win v ! i in
                         Some (FR_OK, set_win ((win v)[i := high12 clst val p]) v)) }) })
      else if fs_type v = FS_FAT16 then
        do { (res, v) \<leftarrow> move_window D (fatbase v + clst div 256) v;
             Some (if res \<noteq> FR_OK then (res, v)
                   else (FR_OK, set_win (ST_WORD (unat (clst * 2 mod 512)) (ucast val) (win v)) v)) }
      else if fs_type v = FS_FAT32 then
        do { (res, v) \<leftarrow> move_window D (fatbase v + clst div 128) v;
             Some (if res \<noteq> FR_OK then (res, v)
                   else
                     (let i = unat (clst * 4 mod 512); val = val OR (LD_DWORD (win v) i AND 0xF0000000)
                      in (FR_OK, set_win (ST_DWORD i val (win v)) v))) }
      else Some (FR_INT_ERR, v))"

text \<open>The count of free clusters is kept while it is known.\<close>

definition count_free :: "u32 \<Rightarrow> 'd volume \<Rightarrow> 'd volume" where
  "count_free k v =
     (if free_clust v \<noteq> 0xFFFFFFFF then v\<lparr>free_clust := free_clust v + k, fsi_flag := fsi_flag v OR 1\<rparr> else v)"

partial_function (option) remove_loop :: "'d disk_ops \<Rightarrow> u32 \<Rightarrow> 'd volume \<Rightarrow> (FRESULT \<times> 'd volume) option" where
  "remove_loop D clst v =
     (if clst < n_fatent v then
        (case get_fat D clst v of
           None \<Rightarrow> None
         | Some (nxt, v) \<Rightarrow>
             if nxt = 0 then Some (FR_OK, v)
             else if nxt = 1 then Some (FR_INT_ERR, v)
             else if nxt = 0xFFFFFFFF then Some (FR_DISK_ERR, v)
             else
               (case put_fat D clst 0 v of
                  None \<Rightarrow> None
                | Some (res, v) \<Rightarrow>
                    if res \<noteq> FR_OK then Some (res, v)
                    else remove_loop D nxt (count_free 1 v)))
      else Some (FR_OK, v))"

definition remove_chain :: "'d disk_ops \<Rightarrow> u32 \<Rightarrow> 'd volume \<Rightarrow> (FRESULT \<times> 'd volume) option" where
  "remove_chain D clst v =
     (if clst < 2 \<or> clst \<ge> n_fatent v then Some (FR_INT_ERR, v) else remove_loop D clst v)"

text \<open>The search of a free cluster after \<open>scl\<close>, around the end of the table; a result below 2 or \<open>0xFFFFFFFF\<close> is a
  failure.\<close>

partial_function (option) free_search :: "'d disk_ops \<Rightarrow> u32 \<Rightarrow> u32 \<Rightarrow> 'd volume \<Rightarrow> (u32 \<times> 'd volume) option" where
  "free_search D scl ncl v =
     (let ncl = ncl + 1; wrap = ncl \<ge> n_fatent v; ncl = (if wrap then 2 else ncl) in
      if wrap \<and> ncl > scl then Some (0, v)
      else
        (case get_fat D ncl v of
           None \<Rightarrow> None
         | Some (cs, v) \<Rightarrow>
             if cs = 0 then Some (ncl, v)
             else if cs = 0xFFFFFFFF \<or> cs = 1 then Some (cs, v)
             else if ncl = scl then Some (0, v)
             else free_search D scl ncl v))"

definition link_cluster :: "'d disk_ops \<Rightarrow> u32 \<Rightarrow> u32 \<Rightarrow> 'd volume \<Rightarrow> (u32 \<times> 'd volume) option" where
  "link_cluster D clst ncl v =
     do { (res, v) \<leftarrow> put_fat D ncl 0x0FFFFFFF v;
          (res, v) \<leftarrow> (if res = FR_OK \<and> clst \<noteq> 0 then put_fat D clst ncl v else Some (res, v));
          Some (if res = FR_OK then (ncl, count_free (- 1) (v\<lparr>last_clust := ncl\<rparr>))
                else (if res = FR_DISK_ERR then 0xFFFFFFFF else 1, v)) }"

definition create_from :: "'d disk_ops \<Rightarrow> u32 \<Rightarrow> u32 \<Rightarrow> 'd volume \<Rightarrow> (u32 \<times> 'd volume) option" where
  "create_from D clst scl v =
     do { (ncl, v) \<leftarrow> free_search D scl scl v;
          if ncl < 2 \<or> ncl = 0xFFFFFFFF then Some (ncl, v) else link_cluster D clst ncl v }"

definition create_chain :: "'d disk_ops \<Rightarrow> u32 \<Rightarrow> 'd volume \<Rightarrow> (u32 \<times> 'd volume) option" where
  "create_chain D clst v =
     (if clst = 0 then
        (let scl = last_clust v in create_from D 0 (if scl = 0 \<or> scl \<ge> n_fatent v then 1 else scl) v)
      else
        do { (cs, v) \<leftarrow> get_fat D clst v;
             if cs < 2 then Some (1, v)
             else if cs = 0xFFFFFFFF then Some (cs, v)
             else if cs < n_fatent v then Some (cs, v)
             else create_from D clst clst v })"

section \<open>What the window shows\<close>

text \<open>The part of a volume that moving the window leaves alone.\<close>

definition meta :: "'d volume \<Rightarrow> FATFS" where
  "meta v = (FATFS.truncate v)\<lparr>win := [], winsect := 0, wflag := 0\<rparr>"

lemma meta_fields:
  assumes "meta v' = meta v"
  shows "fs_type v' = fs_type v" "drv v' = drv v" "csize v' = csize v" "n_fats v' = n_fats v" "fsi_flag v' = fsi_flag v"
    "fs_id v' = fs_id v" "n_rootdir v' = n_rootdir v" "last_clust v' = last_clust v" "free_clust v' = free_clust v"
    "cdir v' = cdir v" "n_fatent v' = n_fatent v" "fat_size v' = fat_size v" "volbase v' = volbase v"
    "fatbase v' = fatbase v" "dirbase v' = dirbase v" "database v' = database v"
  using assms by (auto simp: meta_def FATFS.defs)

text \<open>The part that the operations on the table leave alone: all but the window and the account of free clusters.\<close>

definition geo :: "'d volume \<Rightarrow> FATFS" where
  "geo v = (meta v)\<lparr>last_clust := 0, free_clust := 0, fsi_flag := 0\<rparr>"

lemma geo_fields:
  assumes "geo v' = geo v"
  shows "fs_type v' = fs_type v" "drv v' = drv v" "csize v' = csize v" "n_fats v' = n_fats v"
    "fs_id v' = fs_id v" "n_rootdir v' = n_rootdir v" "cdir v' = cdir v" "n_fatent v' = n_fatent v"
    "fat_size v' = fat_size v" "volbase v' = volbase v" "fatbase v' = fatbase v" "dirbase v' = dirbase v"
    "database v' = database v"
  using assms by (auto simp: geo_def meta_def FATFS.defs)

lemma geo_meta: "meta v' = meta v \<Longrightarrow> geo v' = geo v"
  by (simp add: geo_def)

lemma geo_update [simp]:
  "geo (v\<lparr>dsk := d\<rparr>) = geo v" "geo (v\<lparr>win := bs\<rparr>) = geo v" "geo (v\<lparr>winsect := s\<rparr>) = geo v"
  "geo (v\<lparr>wflag := f\<rparr>) = geo v" "geo (set_win bs v) = geo v" "geo (v\<lparr>last_clust := a\<rparr>) = geo v"
  "geo (v\<lparr>free_clust := a\<rparr>) = geo v" "geo (v\<lparr>fsi_flag := f\<rparr>) = geo v" "geo (count_free k v) = geo v"
  by (simp_all add: geo_def meta_def FATFS.defs set_win_def count_free_def)

lemma meta_update [simp]:
  "meta (v\<lparr>dsk := d\<rparr>) = meta v" "meta (v\<lparr>win := bs\<rparr>) = meta v" "meta (v\<lparr>winsect := s\<rparr>) = meta v"
  "meta (v\<lparr>wflag := f\<rparr>) = meta v" "meta (set_win bs v) = meta v"
  by (simp_all add: meta_def FATFS.defs set_win_def)

text \<open>A volume whose table has room for its entries.  An entry has at most 28 bits, so the number of entries is
  bounded as well; the data area ends before the last sector number.\<close>

definition fat_room :: "'d volume \<Rightarrow> bool" where
  "fat_room v \<longleftrightarrow>
     (fs_type v = FS_FAT12 \<and> unat (n_fatent v) \<le> 0xFFF \<and> 3 * unat (n_fatent v) \<le> 1024 * unat (fat_size v) \<or>
      fs_type v = FS_FAT16 \<and> unat (n_fatent v) \<le> 0xFFFF \<and> unat (n_fatent v) \<le> 256 * unat (fat_size v) \<or>
      fs_type v = FS_FAT32 \<and> unat (n_fatent v) \<le> 0xFFFFFFF \<and> unat (n_fatent v) \<le> 128 * unat (fat_size v))"

text \<open>The value of an entry of the table, read from the contents of the sectors.\<close>

definition table_byte :: "(u32 \<Rightarrow> u8 list) \<Rightarrow> u32 \<Rightarrow> u32 \<Rightarrow> u8" where
  "table_byte S base i = S (base + i div 512) ! unat (i mod 512)"

definition fat_value :: "(u32 \<Rightarrow> u8 list) \<Rightarrow> 'd volume \<Rightarrow> u32 \<Rightarrow> u32" where
  "fat_value S v c =
     (if fs_type v = FS_FAT12 then
        (let i = c + c div 2;
             w = ucast (table_byte S (fatbase v) i) OR push_bit 8 (ucast (table_byte S (fatbase v) (i + 1)))
         in if c AND 1 \<noteq> 0 then drop_bit 4 w else w AND 0xFFF)
      else if fs_type v = FS_FAT16 then ucast (LD_WORD (S (fatbase v + c div 256)) (unat (c * 2 mod 512)))
      else LD_DWORD (S (fatbase v + c div 128)) (unat (c * 4 mod 512)) AND 0x0FFFFFFF)"

lemma fat_value_geo: "geo v' = geo v \<Longrightarrow> fat_value S v' = fat_value S v"
  by (rule ext) (simp add: fat_value_def geo_fields [of v' v])

lemma div_bound: "unat (i :: u32) < n * unat k \<Longrightarrow> 0 < unat k \<Longrightarrow> unat (i div k) < n"
  by (simp add: unat_div less_mult_imp_div_less mult.commute)

text \<open>The sectors that hold the entry of a cluster belong to the table.\<close>

lemma fat_sector_bound:
  assumes "fat_room v" "c < n_fatent v"
  shows "fs_type v = FS_FAT12 \<Longrightarrow> (c + c div 2) div 512 < fat_size v \<and> (c + c div 2 + 1) div 512 < fat_size v"
    "fs_type v = FS_FAT16 \<Longrightarrow> c div 256 < fat_size v"
    "fs_type v = FS_FAT32 \<Longrightarrow> c div 128 < fat_size v"
proof -
  have c: "unat c < unat (n_fatent v)" using assms(2) by (simp add: word_less_nat_alt)
  have "unat (c div 256) < unat (fat_size v)" if "fs_type v = FS_FAT16"
    by (rule div_bound) (use that assms(1) c in \<open>simp_all add: fat_room_def FS_FAT12_def FS_FAT16_def FS_FAT32_def\<close>)
  then show "fs_type v = FS_FAT16 \<Longrightarrow> c div 256 < fat_size v" by (simp add: word_less_nat_alt)
  have "unat (c div 128) < unat (fat_size v)" if "fs_type v = FS_FAT32"
    by (rule div_bound) (use that assms(1) c in \<open>simp_all add: fat_room_def FS_FAT12_def FS_FAT16_def FS_FAT32_def\<close>)
  then show "fs_type v = FS_FAT32 \<Longrightarrow> c div 128 < fat_size v" by (simp add: word_less_nat_alt)
  assume t: "fs_type v = FS_FAT12"
  with assms(1) have n: "unat (n_fatent v) \<le> 0xFFF" "3 * unat (n_fatent v) \<le> 1024 * unat (fat_size v)"
    by (auto simp: fat_room_def FS_FAT12_def FS_FAT16_def FS_FAT32_def)
  have d: "unat (c div 2) = unat c div 2" by (simp add: unat_div)
  have l: "unat c + unat c div 2 + 1 < 4294967296" using c n by linarith
  have s: "unat (c + c div 2) = unat c + unat c div 2" using l d by (simp add: unat_plus_if')
  have s1: "unat (c + c div 2 + 1) = unat c + unat c div 2 + 1" using l s by (simp add: unat_plus_if')
  have m: "unat c + unat c div 2 + 1 < unat (fat_size v) * 512" using c n by linarith
  have "unat ((c + c div 2) div 512) < unat (fat_size v)" "unat ((c + c div 2 + 1) div 512) < unat (fat_size v)"
    by (rule div_bound, use s s1 m in simp_all)+
  then show "(c + c div 2) div 512 < fat_size v \<and> (c + c div 2 + 1) div 512 < fat_size v"
    by (simp add: word_less_nat_alt)
qed

locale volume_window =
  fixes D :: "'d disk_ops"
    and okv :: "'d volume \<Rightarrow> bool"
    and view :: "'d volume \<Rightarrow> u32 \<Rightarrow> u8 list"
    and live :: "'d volume \<Rightarrow> u32 \<Rightarrow> bool"
  assumes okv_room: "okv v \<Longrightarrow> fat_room v"
    and table_live: "okv v \<Longrightarrow> s < fat_size v \<Longrightarrow> live v (fatbase v + s)"
    and live_geo: "geo v' = geo v \<Longrightarrow> live v' = live v"
    and view_length: "okv v \<Longrightarrow> live v s \<Longrightarrow> length (view v s) = 512"
    and move_view: "okv v \<Longrightarrow> live v s \<Longrightarrow> \<exists>v'. move_window D s v = Some (FR_OK, v') \<and> winsect v' = s \<and>
      win v' = view v s \<and> okv v' \<and> view v' = view v \<and> meta v' = meta v"
begin

lemma move_viewE:
  assumes "okv v" "live v s"
  obtains v' where "move_window D s v = Some (FR_OK, v')" "winsect v' = s" "win v' = view v s" "okv v'"
    "view v' = view v" "meta v' = meta v" "live v' = live v"
  using move_view [OF assms] live_geo geo_meta by blast

lemma get_fat_value:
  assumes "okv v" "2 \<le> c" "c < n_fatent v"
  obtains v' where "get_fat D c v = Some (fat_value (view v) v c, v')" "okv v'" "view v' = view v" "meta v' = meta v"
proof -
  note b = fat_sector_bound [OF okv_room [OF assms(1)] assms(3)]
  have g: "\<not> (c < 2 \<or> n_fatent v \<le> c)" using assms(2,3) by auto
  from okv_room [OF assms(1)] consider "fs_type v = FS_FAT12" | "fs_type v = FS_FAT16" | "fs_type v = FS_FAT32"
    by (auto simp: fat_room_def)
  then show thesis
  proof cases
    case 1
    obtain v1 where v1: "move_window D (fatbase v + (c + c div 2) div 512) v = Some (FR_OK, v1)"
      "win v1 = view v (fatbase v + (c + c div 2) div 512)" "okv v1" "view v1 = view v" "meta v1 = meta v" "live v1 = live v"
      using move_viewE [OF assms(1) table_live [OF assms(1)]] b(1) [OF 1] by metis
    have "live v1 (fatbase v + (c + c div 2 + 1) div 512)"
      using table_live [OF assms(1)] b(1) [OF 1] v1(6) by simp
    then obtain v2 where v2: "move_window D (fatbase v + (c + c div 2 + 1) div 512) v1 = Some (FR_OK, v2)"
      "win v2 = view v (fatbase v + (c + c div 2 + 1) div 512)" "okv v2" "view v2 = view v" "meta v2 = meta v"
      using move_viewE [OF v1(3)] v1(4,5) by metis
    have "get_fat D c v = Some (fat_value (view v) v c, v2)"
      using 1 g v1(1,2,5) v2(1,2) by (simp add: get_fat_def fat_value_def table_byte_def Let_def meta_fields [OF v1(5)])
    with v2 that show thesis by blast
  next
    case 2
    obtain v1 where v1: "move_window D (fatbase v + c div 256) v = Some (FR_OK, v1)"
      "win v1 = view v (fatbase v + c div 256)" "okv v1" "view v1 = view v" "meta v1 = meta v"
      using move_viewE [OF assms(1) table_live [OF assms(1)]] b(2) [OF 2] by metis
    have "get_fat D c v = Some (fat_value (view v) v c, v1)"
      using 2 g v1(1,2) by (simp add: get_fat_def fat_value_def FS_FAT12_def FS_FAT16_def)
    with v1 that show thesis by blast
  next
    case 3
    obtain v1 where v1: "move_window D (fatbase v + c div 128) v = Some (FR_OK, v1)"
      "win v1 = view v (fatbase v + c div 128)" "okv v1" "view v1 = view v" "meta v1 = meta v"
      using move_viewE [OF assms(1) table_live [OF assms(1)]] b(3) [OF 3] by metis
    have "get_fat D c v = Some (fat_value (view v) v c, v1)"
      using 3 g v1(1,2) by (simp add: get_fat_def fat_value_def FS_FAT12_def FS_FAT16_def FS_FAT32_def)
    with v1 that show thesis by blast
  qed
qed

end

section \<open>Entries of the table as a map\<close>

lemma ST_length [simp]: "length (ST_WORD i w bs) = length bs" "length (ST_DWORD i x bs) = length bs"
  by (simp_all add: ST_WORD_def ST_DWORD_def)

lemma LD_ST_WORD:
  assumes "i + 1 < length bs"
  shows "LD_WORD (ST_WORD i w bs) i = w"
proof (rule bit_word_eqI)
  fix n assume n: "n < LENGTH(16)"
  then show "bit (LD_WORD (ST_WORD i w bs) i) n = bit w n"
    using assms by (cases "n < 8") (auto simp: LD_WORD_def ST_WORD_def bit_simps)
qed

lemma LD_ST_DWORD:
  assumes "i + 3 < length bs"
  shows "LD_DWORD (ST_DWORD i w bs) i = w"
proof (rule bit_word_eqI)
  fix n assume n: "n < LENGTH(32)"
  then consider "n < 8" | "8 \<le> n \<and> n < 16" | "16 \<le> n \<and> n < 24" | "24 \<le> n" by fastforce
  then show "bit (LD_DWORD (ST_DWORD i w bs) i) n = bit w n"
    using assms n by cases (auto simp: LD_DWORD_def ST_DWORD_def bit_simps)
qed

lemma LD_ST_apart:
  "j + 1 < i \<or> i + 1 < j \<Longrightarrow> LD_WORD (ST_WORD i w bs) j = LD_WORD bs j"
  "j + 3 < i \<or> i + 3 < j \<Longrightarrow> LD_DWORD (ST_DWORD i x bs) j = LD_DWORD bs j"
  by (auto simp: LD_WORD_def ST_WORD_def LD_DWORD_def ST_DWORD_def nth_list_update)

text \<open>A position in a sector.\<close>

lemma unat_slot:
  assumes "unat (c :: u32) < 0x10000000" "k * m = 512" "0 < k" "k \<le> 4"
  shows "unat (c * of_nat k mod 512) = k * (unat c mod m)"
proof -
  have "unat c * k < 0x10000000 * 4" using assms(1,3,4) by (intro mult_less_le_imp_less) auto
  moreover have k: "unat (of_nat k :: u32) = k" using assms(4) by (simp add: unat_of_nat)
  ultimately have "unat (c * of_nat k) = unat c * k"
    using unat_mult_lem [of c "of_nat k"] by simp
  then have "unat (c * of_nat k) = k * unat c" by simp
  then have "unat (c * of_nat k mod 512) = (k * unat c) mod (k * m)" using assms(2) by (simp add: unat_mod)
  also have "\<dots> = k * (unat c mod m)" by (simp only: mult_mod_right)
  finally show ?thesis .
qed

lemma slot_eq: "(x :: u32) div k = y div k \<Longrightarrow> unat x mod unat k = unat y mod unat k \<Longrightarrow> x = y"
  by (metis div_mult_mod_eq unat_div unat_mod word_unat_eq_iff)

text \<open>Twelve-bit entries: two of them share a byte.\<close>

definition put_byte :: "(u32 \<Rightarrow> u8 list) \<Rightarrow> u32 \<Rightarrow> u32 \<Rightarrow> u8 \<Rightarrow> u32 \<Rightarrow> u8 list" where
  "put_byte S base i b = S(base + i div 512 := (S (base + i div 512))[unat (i mod 512) := b])"

lemma table_put_byte:
  assumes "length (S (base + i div 512)) = 512"
  shows "table_byte (put_byte S base i b) base j = (if j = i then b else table_byte S base j)"
proof -
  have l: "unat (i mod 512) < 512" using unat_mod [of i 512] by simp
  have "j = i" if "j div 512 = i div 512" "unat (j mod 512) = unat (i mod 512)"
    using slot_eq [of j 512 i] that by (simp add: unat_mod)
  with assms l show ?thesis by (auto simp: table_byte_def put_byte_def nth_list_update)
qed

lemma mask_bits:
  fixes p :: u8 and w :: u32
  shows "p AND 0x0F = take_bit 4 p" "p AND 0xF0 = push_bit 4 (drop_bit 4 p)" "w AND 0xFFF = take_bit 12 w"
    "w AND 0xFFFF = take_bit 16 w" "w AND 0x0FFFFFFF = take_bit 28 w"
proof -
  show "p AND 0x0F = take_bit 4 p" "w AND 0xFFF = take_bit 12 w" "w AND 0xFFFF = take_bit 16 w"
    "w AND 0x0FFFFFFF = take_bit 28 w" by (simp_all add: take_bit_eq_mask mask_eq_exp_minus_1)
  show "p AND 0xF0 = push_bit 4 (drop_bit 4 p)"
  proof (rule bit_word_eqI)
    fix n assume "n < LENGTH(8)"
    then have "n < 8" by simp
    then consider "n = 0" | "n = 1" | "n = 2" | "n = 3" | "n = 4" | "n = 5" | "n = 6" | "n = 7" by linarith
    then show "bit (p AND 0xF0) n = bit (push_bit 4 (drop_bit 4 p)) n"
      by cases (simp_all add: bit_simps)
  qed
qed

lemma pair_odd:
  fixes p b :: u8 and val :: u32
  shows "drop_bit 4 (ucast (p AND 0x0F OR push_bit 4 (ucast val)) OR push_bit 8 (ucast (ucast (drop_bit 4 val) :: u8)))
      = val AND 0xFFF"
    "drop_bit 4 (ucast p OR push_bit 8 (ucast b) :: u32) = ucast (drop_bit 4 p) OR push_bit 4 (ucast b)"
    "drop_bit 4 (p AND 0xF0 OR (b AND 0x0F)) = drop_bit 4 p"
  unfolding mask_bits by (rule bit_word_eqI, (auto simp: bit_simps dest: bit_imp_le_length)[1])+

lemma pair_even:
  fixes p b :: u8 and val :: u32
  shows "(ucast (ucast val :: u8) OR push_bit 8 (ucast (p AND 0xF0 OR (ucast (drop_bit 8 val) AND 0x0F)))) AND 0xFFF
      = val AND 0xFFF"
    "(ucast p OR push_bit 8 (ucast b) :: u32) AND 0xFFF = ucast p OR push_bit 8 (ucast (b AND 0x0F))"
    "(p AND 0x0F OR push_bit 4 b) AND 0x0F = p AND 0x0F"
  unfolding mask_bits by (rule bit_word_eqI, (auto simp: bit_simps dest: bit_imp_le_length)[1])+

text \<open>The part of a value that an entry keeps.\<close>

definition clip :: "'d volume \<Rightarrow> u32 \<Rightarrow> u32" where
  "clip v val = (if fs_type v = FS_FAT12 then val AND 0xFFF
     else if fs_type v = FS_FAT16 then val AND 0xFFFF else val AND 0x0FFFFFFF)"

lemmas FS_types = FS_FAT12_def FS_FAT16_def FS_FAT32_def

lemma fat_room_small: "fat_room v \<Longrightarrow> c < n_fatent v \<Longrightarrow> unat c < 0x10000000"
  by (auto simp: fat_room_def word_less_nat_alt)

lemma fat16_put:
  assumes "fat_room v" "fs_type v = FS_FAT16" "c < n_fatent v" "c' < n_fatent v"
    and "length (S (fatbase v + c div 256)) = 512"
  shows "fat_value (S(fatbase v + c div 256 := ST_WORD (unat (c * 2 mod 512)) (ucast val) (S (fatbase v + c div 256)))) v c'
    = (if c' = c then clip v val else fat_value S v c')"
proof -
  have p: "unat (x * 2 mod 512) = 2 * (unat x mod 256)" if "x < n_fatent v" for x
    using unat_slot [OF fat_room_small [OF assms(1) that], of 2 256] by simp
  have v16: "(ucast (ucast val :: u16) :: u32) = val AND 0xFFFF"
    unfolding mask_bits by (rule bit_word_eqI) (auto simp: bit_simps)
  consider "c' = c" | "c' div 256 \<noteq> c div 256" | "c' div 256 = c div 256" "unat c' mod 256 \<noteq> unat c mod 256"
    using slot_eq [of c' 256 c] by auto
  then show ?thesis
  proof cases
    case 1
    have "unat c mod 256 < 256" by simp
    with 1 assms(5) show ?thesis
      by (simp add: fat_value_def assms(2) clip_def p [OF assms(3)] LD_ST_WORD v16 FS_types)
  next
    case 2
    then show ?thesis by (auto simp: fat_value_def assms(2) FS_types)
  next
    case 3
    then have "2 * (unat c' mod 256) + 1 < 2 * (unat c mod 256) \<or> 2 * (unat c mod 256) + 1 < 2 * (unat c' mod 256)" by linarith
    with 3 show ?thesis
      by (auto simp: fat_value_def assms(2) p assms(3,4) LD_ST_apart FS_types)
  qed
qed

lemma fat32_put:
  assumes "fat_room v" "fs_type v = FS_FAT32" "c < n_fatent v" "c' < n_fatent v"
    and "length (S (fatbase v + c div 128)) = 512"
  shows "fat_value (S(fatbase v + c div 128 := ST_DWORD (unat (c * 4 mod 512))
      (val OR (LD_DWORD (S (fatbase v + c div 128)) (unat (c * 4 mod 512)) AND 0xF0000000)) (S (fatbase v + c div 128)))) v c'
    = (if c' = c then clip v val else fat_value S v c')"
proof -
  have p: "unat (x * 4 mod 512) = 4 * (unat x mod 128)" if "x < n_fatent v" for x
    using unat_slot [OF fat_room_small [OF assms(1) that], of 4 128] by simp
  have v32: "(val OR (w AND 0xF0000000)) AND 0x0FFFFFFF = val AND 0x0FFFFFFF" for w
    by (simp add: bit.conj_disj_distrib2 and.assoc)
  consider "c' = c" | "c' div 128 \<noteq> c div 128" | "c' div 128 = c div 128" "unat c' mod 128 \<noteq> unat c mod 128"
    using slot_eq [of c' 128 c] by auto
  then show ?thesis
  proof cases
    case 1
    have "unat c mod 128 < 128" by simp
    with 1 assms(5) show ?thesis
      by (simp add: fat_value_def assms(2) clip_def p [OF assms(3)] LD_ST_DWORD v32 FS_types)
  next
    case 2
    then show ?thesis by (auto simp: fat_value_def assms(2) FS_types)
  next
    case 3
    then have "4 * (unat c' mod 128) + 3 < 4 * (unat c mod 128) \<or> 4 * (unat c mod 128) + 3 < 4 * (unat c' mod 128)" by linarith
    with 3 show ?thesis
      by (auto simp: fat_value_def assms(2) p assms(3,4) LD_ST_apart FS_types)
  qed
qed

definition put12 :: "(u32 \<Rightarrow> u8 list) \<Rightarrow> u32 \<Rightarrow> u32 \<Rightarrow> u32 \<Rightarrow> u32 \<Rightarrow> u8 list" where
  "put12 S base c val =
     (let i = c + c div 2; S = put_byte S base i (low12 c val (table_byte S base i))
      in put_byte S base (i + 1) (high12 c val (table_byte S base (i + 1))))"

lemma put_byte_length: "length (S s) = 512 \<Longrightarrow> length (put_byte S base i b s) = 512"
  by (auto simp: put_byte_def)

lemma odd_and_1: "(c :: u32) AND 1 \<noteq> 0 \<longleftrightarrow> odd (unat c)"
  using bit_unsigned_iff [of c 0, where 'a = nat] by (simp add: bit_0 and_one_eq mod_2_eq_odd)

lemma thirds:
  fixes k l r s :: nat
  assumes "r < 2" "s < 2"
  shows "3 * k + r = 3 * l + s + 1 \<Longrightarrow> s = 0 \<and> r = 1" "3 * k + r = 3 * l + s \<Longrightarrow> k = l \<and> r = s"
  using assms by presburger+

lemma pairs_of_thirds:
  fixes a b :: nat
  shows "a + a div 2 = b + b div 2 + 1 \<Longrightarrow> even b \<and> odd a" "a + a div 2 = b + b div 2 \<Longrightarrow> a = b"
proof -
  have a: "a + a div 2 = 3 * (a div 2) + a mod 2" "b + b div 2 = 3 * (b div 2) + b mod 2"
    using div_mult_mod_eq [of a 2] div_mult_mod_eq [of b 2] by linarith+
  have m: "a mod 2 < 2" "b mod 2 < 2" by simp_all
  show "even b \<and> odd a" if "a + a div 2 = b + b div 2 + 1"
    using thirds(1) [OF m, of "a div 2" "b div 2"] that unfolding a by (simp add: even_iff_mod_2_eq_zero)
  show "a = b" if "a + a div 2 = b + b div 2"
    using thirds(2) [OF m, of "a div 2" "b div 2"] that unfolding a by (metis div_mult_mod_eq)
qed

lemma fat12_put:
  assumes "fat_room v" "fs_type v = FS_FAT12" "c < n_fatent v" "c' < n_fatent v"
    and "length (S (fatbase v + (c + c div 2) div 512)) = 512" "length (S (fatbase v + (c + c div 2 + 1) div 512)) = 512"
  shows "fat_value (put12 S (fatbase v) c val) v c' = (if c' = c then clip v val else fat_value S v c')"
proof -
  let ?b = "fatbase v" let ?i = "c + c div 2" let ?i' = "c' + c' div 2"
  have n: "unat x < 0xFFF" if "x < n_fatent v" for x
    using that assms(1,2) by (auto simp: fat_room_def word_less_nat_alt FS_types)
  have u: "unat (x + x div 2) = unat x + unat x div 2" "unat (x + x div 2 + 1) = unat x + unat x div 2 + 1"
    if "x < n_fatent v" for x
  proof -
    have d: "unat (x div 2) = unat x div 2" by (simp add: unat_div)
    have l: "unat x + unat x div 2 + 1 < 4294967296" using n [OF that] by linarith
    then show "unat (x + x div 2) = unat x + unat x div 2" using d by (simp add: unat_plus_if')
    with l show "unat (x + x div 2 + 1) = unat x + unat x div 2 + 1" by (simp add: unat_plus_if')
  qed
  note uc = u [OF assms(3)] and uc' = u [OF assms(4)]
  define S1 where "S1 = put_byte S ?b ?i (low12 c val (table_byte S ?b ?i))"
  have i1: "?i + 1 \<noteq> ?i" "?i' + 1 \<noteq> ?i'" by simp_all
  have t1: "table_byte S1 ?b j = (if j = ?i then low12 c val (table_byte S ?b ?i) else table_byte S ?b j)" for j
    unfolding S1_def by (rule table_put_byte) (rule assms)
  have t2: "table_byte (put12 S ?b c val) ?b j =
      (if j = ?i + 1 then high12 c val (table_byte S ?b (?i + 1)) else table_byte S1 ?b j)" for j
    unfolding put12_def Let_def S1_def [symmetric]
    using table_put_byte [of S1 ?b "?i + 1"] put_byte_length [where S = S, OF assms(6)] t1 [of "?i + 1"] by (simp add: S1_def)
  consider (same) "c' = c" | (up) "?i' = ?i + 1" "even (unat c)" "odd (unat c')"
    | (down) "?i' + 1 = ?i" "odd (unat c)" "even (unat c')"
    | (apart) "c' \<noteq> c" "?i' \<noteq> ?i" "?i' \<noteq> ?i + 1" "?i' + 1 \<noteq> ?i" "?i' + 1 \<noteq> ?i + 1"
  proof -
    have "c' = c \<longleftrightarrow> unat c' = unat c" by (simp add: word_unat_eq_iff)
    moreover have "?i' = ?i \<longleftrightarrow> unat c' + unat c' div 2 = unat c + unat c div 2"
      "?i' = ?i + 1 \<longleftrightarrow> unat c' + unat c' div 2 = unat c + unat c div 2 + 1"
      "?i' + 1 = ?i \<longleftrightarrow> unat c' + unat c' div 2 + 1 = unat c + unat c div 2"
      by (simp_all only: word_unat_eq_iff uc uc')
    ultimately show thesis
      using that pairs_of_thirds [of "unat c'" "unat c"] pairs_of_thirds(1) [of "unat c" "unat c'"] by fastforce
  qed
  then show ?thesis
  proof cases
    case same
    show ?thesis
      unfolding same fat_value_def assms(2) clip_def Let_def t2 t1 low12_def high12_def
      using pair_odd(1) pair_even(1) i1 by simp
  next
    case up
    show ?thesis
      unfolding fat_value_def assms(2) Let_def t2 t1
      using up pair_odd(2,3) i1 odd_and_1 [of c] odd_and_1 [of c'] by (auto simp: high12_def)
  next
    case down
    show ?thesis
      unfolding fat_value_def assms(2) Let_def t2 t1
      using down pair_even(2,3) i1 odd_and_1 [of c] odd_and_1 [of c'] by (auto simp: low12_def)
  next
    case apart
    then show ?thesis by (simp add: fat_value_def assms(2) Let_def t2 t1)
  qed
qed

section \<open>The contract of a volume that can be written\<close>

definition in_table :: "'d volume \<Rightarrow> u32 \<Rightarrow> bool" where
  "in_table v s \<longleftrightarrow> s - fatbase v < fat_size v"

locale volume_store = volume_window +
  assumes set_view: "okv v \<Longrightarrow> live v (winsect v) \<Longrightarrow> length bs = 512 \<Longrightarrow>
      okv (set_win bs v) \<and> view (set_win bs v) = (view v)(winsect v := bs)"
    and count_view: "okv v \<Longrightarrow> okv (v\<lparr>last_clust := a, free_clust := k, fsi_flag := f\<rparr>) \<and>
      view (v\<lparr>last_clust := a, free_clust := k, fsi_flag := f\<rparr>) = view v"
begin

text \<open>Move the window to a sector and change its contents.\<close>

lemma move_setE:
  assumes "okv v" "live v s"
  obtains v' where "move_window D s v = Some (FR_OK, v')" "win v' = view v s" "meta v' = meta v"
    "\<And>bs. length bs = 512 \<Longrightarrow> okv (set_win bs v') \<and> view (set_win bs v') = (view v)(s := bs)"
proof -
  obtain v' where v': "move_window D s v = Some (FR_OK, v')" "winsect v' = s" "win v' = view v s" "okv v'"
    "view v' = view v" "meta v' = meta v" "live v' = live v" by (rule move_viewE [OF assms])
  have "okv (set_win bs v') \<and> view (set_win bs v') = (view v)(s := bs)" if "length bs = 512" for bs
    using set_view [OF v'(4) _ that] v' assms(2) by simp
  with v' that show thesis by blast
qed

lemma put_fat_value:
  assumes "okv v" "2 \<le> c" "c < n_fatent v"
  obtains v' where "put_fat D c val v = Some (FR_OK, v')" "okv v'" "meta v' = meta v"
    "\<And>c'. c' < n_fatent v \<Longrightarrow> fat_value (view v') v c' = (if c' = c then clip v val else fat_value (view v) v c')"
    "\<And>s. \<not> in_table v s \<Longrightarrow> view v' s = view v s"
proof -
  note room = okv_room [OF assms(1)]
  note b = fat_sector_bound [OF room assms(3)]
  have g: "\<not> (c < 2 \<or> n_fatent v \<le> c)" using assms(2,3) by auto
  have t: "live v (fatbase v + s)" "length (view v (fatbase v + s)) = 512" "in_table v (fatbase v + s)"
    if "s < fat_size v" for s
    using table_live [OF assms(1) that] view_length [OF assms(1)] that by (auto simp: in_table_def)
  from room consider "fs_type v = FS_FAT12" | "fs_type v = FS_FAT16" | "fs_type v = FS_FAT32"
    by (auto simp: fat_room_def)
  then show thesis
  proof cases
    case 1
    let ?i = "c + c div 2" let ?s = "fatbase v + ?i div 512" let ?s' = "fatbase v + (?i + 1) div 512"
    note t1 = t [OF b(1) [OF 1, THEN conjunct1]] and t2 = t [OF b(1) [OF 1, THEN conjunct2]]
    let ?bs = "(view v ?s)[unat (?i mod 512) := low12 c val (view v ?s ! unat (?i mod 512))]"
    let ?S1 = "(view v)(?s := ?bs)"
    let ?bs' = "(?S1 ?s')[unat ((?i + 1) mod 512) := high12 c val (?S1 ?s' ! unat ((?i + 1) mod 512))]"
    obtain v1 where v1: "move_window D ?s v = Some (FR_OK, v1)" "win v1 = view v ?s" "meta v1 = meta v"
      "okv (set_win ?bs v1)" "view (set_win ?bs v1) = ?S1" "live (set_win ?bs v1) = live v"
    proof -
      obtain v1 where *: "move_window D ?s v = Some (FR_OK, v1)" "win v1 = view v ?s" "meta v1 = meta v"
        "\<And>bs. length bs = 512 \<Longrightarrow> okv (set_win bs v1) \<and> view (set_win bs v1) = (view v)(?s := bs)"
        using move_setE [OF assms(1) t1(1)] by metis
      have "live (set_win ?bs v1) = live v" by (rule live_geo) (simp add: geo_meta [OF *(3)])
      with * t1(2) that show thesis by simp
    qed
    have l: "length (?S1 ?s') = 512" using t1(2) t2(2) by simp
    obtain v2 where v2: "move_window D ?s' (set_win ?bs v1) = Some (FR_OK, v2)" "win v2 = ?S1 ?s'"
      "meta v2 = meta (set_win ?bs v1)" "okv (set_win ?bs' v2)" "view (set_win ?bs' v2) = ?S1(?s' := ?bs')"
    proof -
      obtain v2 where *: "move_window D ?s' (set_win ?bs v1) = Some (FR_OK, v2)" "win v2 = ?S1 ?s'"
        "meta v2 = meta (set_win ?bs v1)"
        "\<And>bs. length bs = 512 \<Longrightarrow> okv (set_win bs v2) \<and> view (set_win bs v2) = ?S1(?s' := bs)"
        using move_setE [OF v1(4), of ?s'] v1(5,6) t2(1) by metis
      have "length ?bs' = 512" using l by simp
      with * that show thesis by blast
    qed
    have S: "view (set_win ?bs' v2) = put12 (view v) (fatbase v) c val"
      unfolding v2(5) put12_def put_byte_def Let_def table_byte_def ..
    have f: "fatbase (set_win ?bs v1) = fatbase v" "fatbase v1 = fatbase v"
      using meta_fields(14) [OF v1(3)] by (simp_all add: set_win_def)
    have p: "put_fat D c val v = Some (FR_OK, set_win ?bs' v2)"
      using 1 g v1(1,2) v2(1,2) f unfolding put_fat_def Let_def by (simp del: fun_upd_apply)
    show thesis
    proof (rule that [OF p v2(4)])
      show "meta (set_win ?bs' v2) = meta v" using v1(3) v2(3) by simp
      show "fat_value (view (set_win ?bs' v2)) v c' = (if c' = c then clip v val else fat_value (view v) v c')"
        if "c' < n_fatent v" for c'
        unfolding S by (rule fat12_put [where S = "view v", OF room 1 assms(3) that t1(2) t2(2)])
      show "view (set_win ?bs' v2) s = view v s" if "\<not> in_table v s" for s
        using that t1(3) t2(3) unfolding v2(5) by auto
    qed
  next
    case 2
    let ?s = "fatbase v + c div 256"
    note t1 = t [OF b(2) [OF 2]]
    let ?bs = "ST_WORD (unat (c * 2 mod 512)) (ucast val) (view v ?s)"
    obtain v1 where v1: "move_window D ?s v = Some (FR_OK, v1)" "win v1 = view v ?s" "meta v1 = meta v"
      "\<And>bs. length bs = 512 \<Longrightarrow> okv (set_win bs v1) \<and> view (set_win bs v1) = (view v)(?s := bs)"
      using move_setE [OF assms(1) t1(1)] by metis
    with t1(2) have w: "okv (set_win ?bs v1)" "view (set_win ?bs v1) = (view v)(?s := ?bs)" by simp_all
    have p: "put_fat D c val v = Some (FR_OK, set_win ?bs v1)"
      using 2 g v1(1,2) by (simp add: put_fat_def FS_types)
    show thesis
    proof (rule that [OF p w(1)])
      show "meta (set_win ?bs v1) = meta v" using v1(3) by simp
      show "fat_value (view (set_win ?bs v1)) v c' = (if c' = c then clip v val else fat_value (view v) v c')"
        if "c' < n_fatent v" for c'
        unfolding w(2) by (rule fat16_put [where S = "view v", OF room 2 assms(3) that t1(2)])
      show "view (set_win ?bs v1) s = view v s" if "\<not> in_table v s" for s
        using that t1(3) unfolding w(2) by auto
    qed
  next
    case 3
    let ?s = "fatbase v + c div 128" let ?i = "unat (c * 4 mod 512)"
    note t1 = t [OF b(3) [OF 3]]
    let ?bs = "ST_DWORD ?i (val OR (LD_DWORD (view v ?s) ?i AND 0xF0000000)) (view v ?s)"
    obtain v1 where v1: "move_window D ?s v = Some (FR_OK, v1)" "win v1 = view v ?s" "meta v1 = meta v"
      "\<And>bs. length bs = 512 \<Longrightarrow> okv (set_win bs v1) \<and> view (set_win bs v1) = (view v)(?s := bs)"
      using move_setE [OF assms(1) t1(1)] by metis
    with t1(2) have w: "okv (set_win ?bs v1)" "view (set_win ?bs v1) = (view v)(?s := ?bs)" by simp_all
    have p: "put_fat D c val v = Some (FR_OK, set_win ?bs v1)"
      using 3 g v1(1,2) by (simp add: put_fat_def FS_types Let_def)
    show thesis
    proof (rule that [OF p w(1)])
      show "meta (set_win ?bs v1) = meta v" using v1(3) by simp
      show "fat_value (view (set_win ?bs v1)) v c' = (if c' = c then clip v val else fat_value (view v) v c')"
        if "c' < n_fatent v" for c'
        unfolding w(2) by (rule fat32_put [where S = "view v", OF room 3 assms(3) that t1(2)])
      show "view (set_win ?bs v1) s = view v s" if "\<not> in_table v s" for s
        using that t1(3) unfolding w(2) by auto
    qed
  qed
qed

end

end
