(* ===== verification/FatDisk.thy ===== *)
theory FatDisk
  imports FatVolume
begin

text \<open>
  What FatFs relies on of a disk, as locales: sectors that can be read (\<open>sector_reader\<close>) and a disk that stores
  what it is given (\<open>sector_store\<close>).  A volume on the first, as long as it is not changed, meets the contract
  \<open>volume_window\<close> of the volume layer, a volume on the second the contract \<open>volume_store\<close>; the second keeps the two
  copies of the table equal.
\<close>

section \<open>Volumes on a disk\<close>

text \<open>The areas of a volume lie on the disk of \<open>N\<close> sectors one after the other.\<close>

definition fat_layout :: "nat \<Rightarrow> 'd volume \<Rightarrow> bool" where
  "fat_layout N v \<longleftrightarrow> fat_room v \<and> (n_fats v = 1 \<or> n_fats v = 2) \<and> N < 2 ^ 32 \<and>
     unat (fatbase v) + unat (n_fats v) * unat (fat_size v) \<le> unat (database v) \<and> unat (database v) \<le> N"

text \<open>A sector of the second copy of the table, and where the copy of a sector of the table is.\<close>

definition mirror :: "'d volume \<Rightarrow> u32 \<Rightarrow> bool" where
  "mirror v s \<longleftrightarrow> n_fats v = 2 \<and> s - (fatbase v + fat_size v) < fat_size v"

lemma layout_geo: "geo v' = geo v \<Longrightarrow> fat_layout N v' = fat_layout N v" "geo v' = geo v \<Longrightarrow> mirror v' = mirror v"
  by (simp_all add: fat_layout_def fat_room_def mirror_def fun_eq_iff geo_fields [of v' v])

lemma layout_sums:
  assumes "fat_layout N v" "s < fat_size v"
  shows "unat (fatbase v + s) = unat (fatbase v) + unat s" "unat (fatbase v + s) < N" "in_table v (fatbase v + s)"
    "n_fats v = 2 \<Longrightarrow> unat (fatbase v + s + fat_size v) = unat (fatbase v) + unat s + unat (fat_size v)"
    "n_fats v = 2 \<Longrightarrow> unat (fatbase v + s + fat_size v) < N"
    "n_fats v = 2 \<Longrightarrow> unat (fatbase v + fat_size v) = unat (fatbase v) + unat (fat_size v)"
proof -
  have s: "unat s < unat (fat_size v)" using assms(2) by (simp add: word_less_nat_alt)
  have n: "n_fats v = 1 \<or> n_fats v = 2" "N < 4294967296" "unat (database v) \<le> N"
    "unat (fatbase v) + unat (n_fats v) * unat (fat_size v) \<le> unat (database v)"
    using assms(1) by (auto simp: fat_layout_def)
  then have b1: "unat (fatbase v) + unat (fat_size v) \<le> N" by auto
  with s n(2) show 1: "unat (fatbase v + s) = unat (fatbase v) + unat s"
    using unat_plus_if' [of "fatbase v" s] by simp
  with b1 s show "unat (fatbase v + s) < N" by simp
  show "in_table v (fatbase v + s)" using assms(2) by (simp add: in_table_def)
  assume "n_fats v = 2"
  then have b2: "unat (fatbase v) + unat (fat_size v) + unat (fat_size v) \<le> N" using n by simp
  with 1 s n(2) show 2: "unat (fatbase v + s + fat_size v) = unat (fatbase v) + unat s + unat (fat_size v)"
    using unat_plus_if' [of "fatbase v + s" "fat_size v"] by simp
  with b2 s show "unat (fatbase v + s + fat_size v) < N" by simp
  from b2 n(2) show "unat (fatbase v + fat_size v) = unat (fatbase v) + unat (fat_size v)"
    using unat_plus_if' [of "fatbase v" "fat_size v"] by simp
qed

lemma table_offset: "in_table v s \<Longrightarrow> \<exists>t < fat_size v. s = fatbase v + t"
  by (auto simp: in_table_def intro: exI [of _ "s - fatbase v"])

lemma mirror_iff:
  assumes "fat_layout N v"
  shows "mirror v s \<longleftrightarrow> n_fats v = 2 \<and> (\<exists>t < fat_size v. s = fatbase v + t + fat_size v)"
proof
  assume "mirror v s"
  then show "n_fats v = 2 \<and> (\<exists>t < fat_size v. s = fatbase v + t + fat_size v)"
    by (auto simp: mirror_def intro!: exI [of _ "s - (fatbase v + fat_size v)"])
qed (auto simp: mirror_def)

lemma table_not_mirror:
  assumes "fat_layout N v" "s < fat_size v"
  shows "\<not> mirror v (fatbase v + s)"
proof
  assume "mirror v (fatbase v + s)"
  then obtain t where t: "n_fats v = 2" "t < fat_size v" "fatbase v + s = fatbase v + t + fat_size v"
    using mirror_iff [OF assms(1)] by blast
  have "unat (fatbase v + s) = unat (fatbase v) + unat t + unat (fat_size v)"
    unfolding t(3) by (rule layout_sums(4) [OF assms(1) t(2,1)])
  with layout_sums(1) [OF assms] assms(2) show False by (simp add: word_less_nat_alt)
qed

section \<open>A disk that can be read\<close>

locale sector_reader =
  fixes D :: "'d disk_ops" and p :: u8 and N :: nat and sect :: "'d \<Rightarrow> u32 \<Rightarrow> u8 list" and ready :: "'d \<Rightarrow> bool"
  assumes sect_length: "ready d \<Longrightarrow> length (sect d s) = 512"
    and read_sector: "ready d \<Longrightarrow> unat s < N \<Longrightarrow>
      \<exists>d'. dk_read D p s 1 d = Some (RES_OK, sect d s, d') \<and> ready d' \<and> sect d' = sect d"

text \<open>A volume whose window has not been changed.\<close>

definition clean_volume :: "u8 \<Rightarrow> nat \<Rightarrow> ('d \<Rightarrow> u32 \<Rightarrow> u8 list) \<Rightarrow> ('d \<Rightarrow> bool) \<Rightarrow> 'd volume \<Rightarrow> bool" where
  "clean_volume p N sect ready v \<longleftrightarrow> ready (dsk v) \<and> drv v = p \<and> fat_layout N v \<and> wflag v = 0 \<and>
     (winsect v = 0xFFFFFFFF \<or> win v = sect (dsk v) (winsect v))"

sublocale sector_reader \<subseteq> clean: volume_window D "clean_volume p N sect ready" "\<lambda>v. sect (dsk v)" "\<lambda>v s. unat s < N"
proof unfold_locales
  fix v s assume "clean_volume p N sect ready v" "s < fat_size v"
  then show "unat (fatbase v + s) < N" using layout_sums(2) by (auto simp: clean_volume_def)
next
  fix v and s :: u32 assume v: "clean_volume p N sect ready v" and s: "unat s < N"
  then have n: "s \<noteq> 0xFFFFFFFF" by (auto simp: clean_volume_def fat_layout_def)
  have c: "ready (dsk v)" "drv v = p" "fat_layout N v" "wflag v = 0" using v by (auto simp: clean_volume_def)
  obtain d' where d: "dk_read D p s 1 (dsk v) = Some (RES_OK, sect (dsk v) s, d')" "ready d'" "sect d' = sect (dsk v)"
    using read_sector [OF c(1) s] by blast
  show "\<exists>v'. move_window D s v = Some (FR_OK, v') \<and> winsect v' = s \<and> win v' = sect (dsk v) s \<and>
      clean_volume p N sect ready v' \<and> sect (dsk v') = sect (dsk v) \<and> meta v' = meta v"
  proof (cases "s = winsect v")
    case True
    with v n show ?thesis by (auto simp: move_window_def clean_volume_def)
  next
    case False
    let ?v = "v\<lparr>dsk := d', win := sect (dsk v) s, winsect := s\<rparr>"
    have "geo ?v = geo v" by simp
    then have "fat_layout N ?v" using layout_geo(1) [of ?v v N] c(3) by blast
    with False c d show ?thesis by (auto simp: move_window_def sync_window_def clean_volume_def)
  qed
qed (auto simp: clean_volume_def fat_layout_def sect_length)

section \<open>A disk that stores what it is given\<close>

locale sector_store = sector_reader +
  assumes write_sector: "ready d \<Longrightarrow> unat s < N \<Longrightarrow> length bs = 512 \<Longrightarrow>
      \<exists>d'. dk_write D p bs s 1 d = Some (RES_OK, d') \<and> ready d' \<and> sect d' = (sect d)(s := bs)"

text \<open>The contents of the volume: the window hides its sector on the disk.\<close>

definition volume_view :: "nat \<Rightarrow> ('d \<Rightarrow> u32 \<Rightarrow> u8 list) \<Rightarrow> 'd volume \<Rightarrow> u32 \<Rightarrow> u8 list" where
  "volume_view N sect v s =
     (if unat s < N \<and> \<not> mirror v s then if s = winsect v then win v else sect (dsk v) s else replicate 512 0)"

text \<open>The copies of the table agree, but for a changed sector in the window.\<close>

definition copies_agree :: "('d \<Rightarrow> u32 \<Rightarrow> u8 list) \<Rightarrow> 'd volume \<Rightarrow> bool" where
  "copies_agree sect v \<longleftrightarrow> (n_fats v = 2 \<longrightarrow> (\<forall>t < fat_size v. wflag v \<noteq> 0 \<and> winsect v = fatbase v + t \<or>
     sect (dsk v) (fatbase v + t + fat_size v) = sect (dsk v) (fatbase v + t)))"

definition volume_ok :: "u8 \<Rightarrow> nat \<Rightarrow> ('d \<Rightarrow> u32 \<Rightarrow> u8 list) \<Rightarrow> ('d \<Rightarrow> bool) \<Rightarrow> 'd volume \<Rightarrow> bool" where
  "volume_ok p N sect ready v \<longleftrightarrow> ready (dsk v) \<and> drv v = p \<and> fat_layout N v \<and> length (win v) = 512 \<and>
     (winsect v = 0xFFFFFFFF \<and> wflag v = 0 \<or> unat (winsect v) < N \<and> \<not> mirror v (winsect v)) \<and>
     (wflag v = 0 \<longrightarrow> winsect v = 0xFFFFFFFF \<or> win v = sect (dsk v) (winsect v)) \<and> copies_agree sect v"

context sector_store
begin

lemma write_copies_done:
  assumes "volume_ok p N sect ready v" "wflag v \<noteq> 0" "in_table v (winsect v)" "ready (dsk w)"
    "w = v\<lparr>wflag := 0, dsk := d\<rparr>" "sect d = (sect (dsk v))(winsect v := win v)"
  shows "\<exists>d'. write_copies D (unat (n_fats v)) (winsect v) w = Some (w\<lparr>dsk := d'\<rparr>) \<and> ready d' \<and>
    sect d' = (if n_fats v = 2 then (sect d)(winsect v + fat_size v := win v) else sect d)"
proof -
  have lay: "fat_layout N v" and l: "length (win v) = 512" using assms(1) by (auto simp: volume_ok_def)
  consider "n_fats v = 1" | "n_fats v = 2" using lay by (auto simp: fat_layout_def)
  then show ?thesis
  proof cases
    case 1
    then have "unat (n_fats v) = Suc 0" by simp
    moreover have "w = w\<lparr>dsk := d\<rparr>" "ready d" using assms(4,5) by simp_all
    ultimately have "write_copies D (unat (n_fats v)) (winsect v) w = Some (w\<lparr>dsk := d\<rparr>) \<and> ready d" by simp
    with 1 show ?thesis by (intro exI [of _ d]) simp
  next
    case 2
    then have u: "unat (n_fats v) = Suc (Suc 0)" by simp
    obtain t where t: "t < fat_size v" "winsect v = fatbase v + t" using table_offset [OF assms(3)] by blast
    have "unat (winsect v + fat_size v) < N" unfolding t(2) by (rule layout_sums(5) [OF lay t(1) 2])
    moreover have "ready d" using assms(4,5) by simp
    ultimately obtain d' where "dk_write D p (win v) (winsect v + fat_size v) 1 d = Some (RES_OK, d')" "ready d'"
      "sect d' = (sect d)(winsect v + fat_size v := win v)" using write_sector [OF _ _ l] by blast
    moreover have "drv w = p" "win w = win v" "fat_size w = fat_size v" "dsk w = d"
      using assms(1) unfolding assms(5) by (simp_all add: volume_ok_def)
    ultimately show ?thesis unfolding u using 2 by (auto simp: Let_def intro!: exI [of _ d'])
  qed
qed

lemma sync_window_done:
  assumes "volume_ok p N sect ready v"
  shows "\<exists>v'. sync_window D v = Some (FR_OK, v') \<and> wflag v' = 0 \<and> winsect v' = winsect v \<and> win v' = win v \<and>
    volume_ok p N sect ready v' \<and> volume_view N sect v' = volume_view N sect v \<and> meta v' = meta v"
proof (cases "wflag v = 0")
  case True
  with assms show ?thesis by (simp add: sync_window_def)
next
  case dirty: False
  let ?w = "winsect v" and ?S = "sect (dsk v)"
  have ok: "ready (dsk v)" "drv v = p" "fat_layout N v" "length (win v) = 512" "unat ?w < N" "\<not> mirror v ?w"
    "copies_agree sect v" using assms dirty by (auto simp: volume_ok_def)
  obtain d where d: "dk_write D p (win v) ?w 1 (dsk v) = Some (RES_OK, d)" "ready d" "sect d = ?S(?w := win v)"
    using write_sector [OF ok(1,5,4)] by blast
  let ?v1 = "v\<lparr>wflag := 0, dsk := d\<rparr>"
  obtain d' where d': "sync_window D v = Some (FR_OK, v\<lparr>wflag := 0, dsk := d'\<rparr>)" "ready d'"
    "sect d' = (if n_fats v = 2 \<and> in_table v ?w then ?S(?w := win v, ?w + fat_size v := win v) else ?S(?w := win v))"
  proof (cases "in_table v ?w")
    case True
    with write_copies_done [OF assms dirty True, of ?v1 d] d obtain d' where
      "write_copies D (unat (n_fats v)) ?w ?v1 = Some (?v1\<lparr>dsk := d'\<rparr>)" "ready d'"
      "sect d' = (if n_fats v = 2 then (sect d)(?w + fat_size v := win v) else sect d)" by auto
    with True d ok(2) dirty that [of d'] show thesis by (auto simp: sync_window_def Let_def in_table_def split: if_splits)
  next
    case False
    with d ok(2) dirty that [of d] show thesis by (auto simp: sync_window_def Let_def in_table_def)
  qed
  let ?v2 = "v\<lparr>wflag := 0, dsk := d'\<rparr>"
  have m: "mirror ?v2 = mirror v" "fat_layout N ?v2" using layout_geo [of ?v2 v] ok(3) by auto
  have cp: "mirror v (fatbase v + t + fat_size v)" if "n_fats v = 2" "t < fat_size v" for t
    using mirror_iff [OF ok(3)] that by blast
  have S: "sect d' s = (if s = ?w then win v else ?S s)" if "\<not> mirror v s" for s
    using that cp table_offset [of v ?w] unfolding d'(3) by auto
  have ag: "copies_agree sect ?v2"
    unfolding copies_agree_def
  proof (intro impI allI)
    fix t assume n2: "n_fats ?v2 = 2" and t: "t < fat_size ?v2"
    have nm: "\<not> mirror v (fatbase v + t)" using table_not_mirror [OF ok(3)] t by simp
    show "wflag ?v2 \<noteq> 0 \<and> winsect ?v2 = fatbase ?v2 + t \<or>
        sect (dsk ?v2) (fatbase ?v2 + t + fat_size ?v2) = sect (dsk ?v2) (fatbase ?v2 + t)"
    proof (cases "?w = fatbase v + t")
      case True
      then have "in_table v ?w" using layout_sums(3) [OF ok(3)] t by simp
      with True n2 show ?thesis by (simp add: d'(3))
    next
      case False
      have "fatbase v + t + fat_size v \<noteq> ?w" using cp [of t] n2 t ok(6) by force
      then have "sect d' (fatbase v + t + fat_size v) = ?S (fatbase v + t + fat_size v)" using False by (auto simp: d'(3))
      moreover have "sect d' (fatbase v + t) = ?S (fatbase v + t)" using S [OF nm] False by simp
      ultimately show ?thesis using ok(7) False n2 t by (auto simp: copies_agree_def)
    qed
  qed
  have "volume_ok p N sect ready ?v2"
    using ok d'(2) m ag S [OF ok(6)] by (auto simp: volume_ok_def)
  moreover have "volume_view N sect ?v2 = volume_view N sect v"
    using S by (auto simp: volume_view_def m fun_eq_iff)
  ultimately show ?thesis using d'(1) by auto
qed

end

lemma volume_ok_counts:
  "volume_ok p N sect ready (v\<lparr>last_clust := a, free_clust := k, fsi_flag := f\<rparr>) = volume_ok p N sect ready v"
  "volume_view N sect (v\<lparr>last_clust := a, free_clust := k, fsi_flag := f\<rparr>) = volume_view N sect v"
  using layout_geo [of "v\<lparr>last_clust := a, free_clust := k, fsi_flag := f\<rparr>" v]
  by (auto simp: volume_ok_def volume_view_def copies_agree_def fun_eq_iff)

sublocale sector_store \<subseteq> store: volume_store D "volume_ok p N sect ready" "volume_view N sect"
  "\<lambda>v s. unat s < N \<and> \<not> mirror v s"
proof unfold_locales
  fix v assume "volume_ok p N sect ready v"
  then show "fat_room v" by (simp add: volume_ok_def fat_layout_def)
next
  fix v s assume v: "volume_ok p N sect ready v" and s: "s < fat_size v"
  from v have l: "fat_layout N v" by (simp add: volume_ok_def)
  from layout_sums(2) [OF l s] table_not_mirror [OF l s] show "unat (fatbase v + s) < N \<and> \<not> mirror v (fatbase v + s)" by simp
next
  fix v' v :: "'a volume" assume "geo v' = geo v"
  then show "(\<lambda>s. unat s < N \<and> \<not> mirror v' s) = (\<lambda>s. unat s < N \<and> \<not> mirror v s)"
    using layout_geo(2) by metis
next
  fix v s assume "volume_ok p N sect ready v" "unat s < N \<and> \<not> mirror v s"
  then show "length (volume_view N sect v s) = 512" by (auto simp: volume_view_def volume_ok_def sect_length)
next
  fix v and s :: u32 assume v: "volume_ok p N sect ready v" and s: "unat s < N \<and> \<not> mirror v s"
  have N: "N < 4294967296" using v by (auto simp: volume_ok_def fat_layout_def)
  obtain v1 where v1: "sync_window D v = Some (FR_OK, v1)" "wflag v1 = 0" "winsect v1 = winsect v" "win v1 = win v"
    "volume_ok p N sect ready v1" "volume_view N sect v1 = volume_view N sect v" "meta v1 = meta v"
    using sync_window_done [OF v] by blast
  have "geo v1 = geo v" by (rule geo_meta) (rule v1(7))
  then have m1: "mirror v1 = mirror v" by (rule layout_geo)
  have r1: "ready (dsk v1)" "drv v1 = p" using v1(5) by (auto simp: volume_ok_def)
  obtain d where d: "dk_read D p s 1 (dsk v1) = Some (RES_OK, sect (dsk v1) s, d)" "ready d" "sect d = sect (dsk v1)"
    using read_sector [OF r1(1)] s by blast
  show "\<exists>v'. move_window D s v = Some (FR_OK, v') \<and> winsect v' = s \<and> win v' = volume_view N sect v s \<and>
      volume_ok p N sect ready v' \<and> volume_view N sect v' = volume_view N sect v \<and> meta v' = meta v"
  proof (cases "s = winsect v")
    case True
    with v s show ?thesis by (auto simp: move_window_def volume_view_def)
  next
    case False
    let ?v = "v1\<lparr>winsect := s, win := sect (dsk v1) s, dsk := d\<rparr>"
    have "geo ?v = geo v1" by simp
    then have g: "mirror ?v = mirror v" "fat_layout N ?v = fat_layout N v1"
      using layout_geo(2) [of ?v v1] layout_geo(1) [of ?v v1 N] unfolding m1 by blast+
    have mv: "move_window D s v = Some (FR_OK, ?v)"
      using False v1(1) r1(2) d(1) by (simp add: move_window_def)
    have c: "winsect v1 = 0xFFFFFFFF \<or> win v1 = sect (dsk v1) (winsect v1)" using v1(2,5) by (auto simp: volume_ok_def)
    have ok: "volume_ok p N sect ready ?v"
      using v1(2,5) s d sect_length [OF r1(1)] g by (auto simp: volume_ok_def copies_agree_def)
    have "unat (0xFFFFFFFF :: u32) \<ge> N" using N by simp
    then have x: "t \<noteq> 0xFFFFFFFF" if "unat t < N" for t :: u32 using that by auto
    have "volume_view N sect ?v t = volume_view N sect v1 t" for t
      using c s x [of t] unfolding volume_view_def g m1 by (auto simp: d(3))
    then have vw: "volume_view N sect ?v = volume_view N sect v" using v1(6) by auto
    have "win ?v = volume_view N sect v s"
      using c s x [of s] False v1(3) unfolding v1(6) [symmetric] volume_view_def m1 by auto
    moreover have "meta ?v = meta v" using v1(7) by simp
    ultimately show ?thesis using mv ok vw by auto
  qed
next
  fix v and bs :: "u8 list" assume "volume_ok p N sect ready v" "unat (winsect v) < N \<and> \<not> mirror v (winsect v)" "length bs = 512"
  moreover have "mirror (set_win bs v) = mirror v" "fat_layout N (set_win bs v) = fat_layout N v"
    by (rule layout_geo, simp)+
  ultimately show "volume_ok p N sect ready (set_win bs v) \<and>
      volume_view N sect (set_win bs v) = (volume_view N sect v)(winsect v := bs)"
    by (auto simp: volume_ok_def volume_view_def fun_eq_iff set_win_def copies_agree_def)
qed (simp_all add: volume_ok_counts)

end
