(* ===== verification/FatChain.thy ===== *)
theory FatChain
  imports FatDisk
begin

text \<open>
  The chains of clusters of a FatFs volume (\<open>remove_chain\<close> and \<open>create_chain\<close> of hello/ff.c): the table of a volume
  seen as a map from clusters to entries, chains in that map, and what the two operations do to them.  The
  lemmas hold for every volume that meets the contract \<open>volume_store\<close>; the end of the theory shows that a
  volume on a disk that stores what it is given meets it.
\<close>

section \<open>Chains\<close>

text \<open>The clusters from \<open>c\<close> on, to the first link beyond the \<open>n\<close> entries of the table.\<close>

fun fat_chain :: "(u32 \<Rightarrow> u32) \<Rightarrow> u32 \<Rightarrow> u32 \<Rightarrow> u32 list \<Rightarrow> bool" where
  "fat_chain F n c [] \<longleftrightarrow> n \<le> c"
| "fat_chain F n c (x # xs) \<longleftrightarrow> x = c \<and> 2 \<le> c \<and> c < n \<and> fat_chain F n (F c) xs"

lemma fat_chain_cong: "(\<And>x. x \<in> set xs \<Longrightarrow> G x = F x) \<Longrightarrow> fat_chain G n c xs = fat_chain F n c xs"
  by (induction xs arbitrary: c) auto

lemma fat_chain_range: "fat_chain F n c xs \<Longrightarrow> x \<in> set xs \<Longrightarrow> 2 \<le> x \<and> x < n"
  by (induction xs arbitrary: c) auto

lemma fat_chain_unique: "fat_chain F n c xs \<Longrightarrow> fat_chain F n c ys \<Longrightarrow> xs = ys"
proof (induction xs arbitrary: c ys)
  case Nil
  then show ?case by (cases ys) auto
next
  case (Cons x xs)
  then show ?case by (cases ys) auto
qed

lemma fat_chain_suffix: "fat_chain F n c (xs @ y # ys) \<Longrightarrow> fat_chain F n y (y # ys)"
  by (induction xs arbitrary: c) auto

lemma fat_chain_distinct: "fat_chain F n c xs \<Longrightarrow> distinct xs"
proof (induction xs arbitrary: c)
  case (Cons x xs)
  have "x \<notin> set xs"
  proof
    assume "x \<in> set xs"
    then obtain as bs where "xs = as @ x # bs" by (auto simp: in_set_conv_decomp)
    with Cons.prems have "fat_chain F n x (x # bs)" "fat_chain F n x (x # xs)" using fat_chain_suffix [of F n c "x # as"] by auto
    then have "xs = bs" using fat_chain_unique by blast
    moreover have "length bs < length xs" using \<open>xs = as @ x # bs\<close> by simp
    ultimately show False by simp
  qed
  with Cons show ?case by auto
qed simp

text \<open>A chain with one more cluster linked to its end.\<close>

lemma fat_chain_snoc:
  assumes "fat_chain F n c (xs @ [y])" "z \<notin> set (xs @ [y])" "2 \<le> z" "z < n" "n \<le> e"
  shows "fat_chain (F(z := e, y := z)) n c (xs @ [y, z])"
  using assms(1,2)
proof (induction xs arbitrary: c)
  case Nil
  with assms(3-5) show ?case by auto
next
  case (Cons x xs)
  then have "distinct ((x # xs) @ [y])" using fat_chain_distinct by blast
  with Cons show ?case by auto
qed

lemma fat_value_bound: "fat_value S v c < 0x10000000"
proof -
  have t: "unat (take_bit k w) < 2 ^ k" for k and w :: u32
    unfolding unsigned_take_bit_eq by (rule take_bit_nat_less_exp)
  have "w AND 0xFFF < 0x10000000" "w AND 0x0FFFFFFF < 0x10000000" for w :: u32
    unfolding mask_bits word_less_nat_alt using t [of 12 w] t [of 28 w] by simp_all
  moreover have "ucast (w :: u16) < (0x10000000 :: u32)" for w
    using unat_u16_less [of w] by (simp add: word_less_nat_alt unsigned_ucast_eq take_bit_eq_mod del: unat_u16_less)
  moreover have "drop_bit 4 (w :: u32) < 0x10000000" for w
  proof -
    have "unat w < 4294967296" by simp
    then have "unat w div 16 < 0x10000000" by linarith
    moreover have "unat (drop_bit 4 w) = unat w div 16" by (simp add: drop_bit_eq_div unat_div)
    ultimately show ?thesis by (simp only: word_less_nat_alt) simp
  qed
  ultimately show ?thesis by (simp add: fat_value_def Let_def del: drop_bit_or)
qed

lemma fat_value_ok: "fat_value S v c \<noteq> 0xFFFFFFFF"
  using fat_value_bound [of S v c] by auto

lemma clip_bound: "n_fatent v = n \<Longrightarrow> fat_room v \<Longrightarrow> x < n \<Longrightarrow> clip v x = x" "fat_room v \<Longrightarrow> n_fatent v \<le> clip v 0x0FFFFFFF"
  "clip v 0 = 0"
proof -
  have t: "take_bit k x = x" if "unat x < 2 ^ k" for k and x :: u32
    using that by (simp add: word_unat_eq_iff unsigned_take_bit_eq take_bit_nat_eq_self)
  show "clip v x = x" if "n_fatent v = n" "fat_room v" "x < n"
    using that unfolding clip_def mask_bits
    by (auto simp: fat_room_def word_less_nat_alt FS_types intro!: t)
  show "n_fatent v \<le> clip v 0x0FFFFFFF" if "fat_room v"
    using that by (auto simp: fat_room_def clip_def word_le_nat_alt FS_types)
  show "clip v 0 = 0" by (simp add: clip_def)
qed

section \<open>Removing and stretching chains\<close>

context volume_store
begin

abbreviation entries :: "'a volume \<Rightarrow> u32 \<Rightarrow> u32" where
  "entries v \<equiv> fat_value (view v) v"

text \<open>What an operation on the table keeps: the contract, the geometry and every sector outside the table.\<close>

definition kept :: "'a volume \<Rightarrow> 'a volume \<Rightarrow> bool" where
  "kept v v' \<longleftrightarrow> okv v' \<and> geo v' = geo v \<and> (\<forall>s. \<not> in_table v s \<longrightarrow> view v' s = view v s)"

lemma kept_refl: "okv v \<Longrightarrow> kept v v"
  by (simp add: kept_def)

lemma kept_trans: "kept v v1 \<Longrightarrow> kept v1 v2 \<Longrightarrow> kept v v2"
  unfolding kept_def in_table_def using geo_fields(9,11) by metis

lemma kept_fields: "kept v v' \<Longrightarrow> okv v' \<and> n_fatent v' = n_fatent v \<and> geo v' = geo v"
  using geo_fields(8) by (auto simp: kept_def)

lemma count_free_kept: "okv v \<Longrightarrow> kept v (count_free k v) \<and> view (count_free k v) = view v"
  using count_view [where v = v and a = "last_clust v" and k = "free_clust v + k" and f = "fsi_flag v OR 1"]
  by (auto simp: count_free_def kept_def geo_def meta_def FATFS.defs)

lemma get_fat_entry:
  assumes "okv v" "2 \<le> c" "c < n_fatent v"
  obtains v' where "get_fat D c v = Some (entries v c, v')" "kept v v'" "view v' = view v" "entries v' = entries v"
    "meta v' = meta v"
proof -
  obtain v' where "get_fat D c v = Some (entries v c, v')" "okv v'" "view v' = view v" "meta v' = meta v"
    by (rule get_fat_value [OF assms])
  with that [of v'] show thesis using fat_value_geo [OF geo_meta, of v' v] geo_meta [of v' v] by (simp add: kept_def)
qed

lemma put_fat_entry:
  assumes "okv v" "2 \<le> c" "c < n_fatent v"
  obtains v' where "put_fat D c val v = Some (FR_OK, v')" "kept v v'" "meta v' = meta v"
    "\<And>x. x < n_fatent v \<Longrightarrow> entries v' x = (if x = c then clip v val else entries v x)"
proof -
  obtain v' where "put_fat D c val v = Some (FR_OK, v')" "okv v'" "meta v' = meta v"
    "\<And>c'. c' < n_fatent v \<Longrightarrow> fat_value (view v') v c' = (if c' = c then clip v val else fat_value (view v) v c')"
    "\<And>s. \<not> in_table v s \<Longrightarrow> view v' s = view v s" using put_fat_value [OF assms] by metis
  with that [of v'] show thesis using fat_value_geo [OF geo_meta, of v' v] geo_meta [of v' v] by (simp add: kept_def)
qed

text \<open>One round of the removal of a chain.\<close>

lemma remove_step:
  assumes "okv v" "2 \<le> c" "c < n_fatent v" "2 \<le> entries v c"
  obtains v' where "remove_loop D c v = remove_loop D (entries v c) v'" "kept v v'"
    "\<And>x. x < n_fatent v \<Longrightarrow> entries v' x = (if x = c then 0 else entries v x)"
    "free_clust v' = (if free_clust v = 0xFFFFFFFF then free_clust v else free_clust v + 1)"
proof -
  obtain v1 where v1: "get_fat D c v = Some (entries v c, v1)" "kept v v1" "view v1 = view v" "entries v1 = entries v"
    "meta v1 = meta v" by (rule get_fat_entry [OF assms(1-3)])
  from v1(2) have k1: "okv v1" "n_fatent v1 = n_fatent v" "geo v1 = geo v" using kept_fields by auto
  then obtain v2 where v2: "put_fat D c 0 v1 = Some (FR_OK, v2)" "kept v1 v2" "meta v2 = meta v1"
    "\<And>x. x < n_fatent v \<Longrightarrow> entries v2 x = (if x = c then clip v1 0 else entries v1 x)"
    using put_fat_entry [of v1 c 0] assms(2,3) by metis
  have k2: "okv v2" using v2(2) kept_fields by blast
  have "entries v c \<noteq> 0" "entries v c \<noteq> 1" using assms(4) by (auto simp: word_le_nat_alt)
  then have "remove_loop D c v = remove_loop D (entries v c) (count_free 1 v2)"
    using v1(1) v2(1) assms(3) fat_value_ok [of "view v" v c] by (subst remove_loop.simps) simp
  moreover have "kept v (count_free 1 v2)" using v1(2) v2(2) count_free_kept [OF k2] kept_trans by blast
  moreover have "entries (count_free 1 v2) = entries v2"
    using count_free_kept [OF k2, of 1] fat_value_geo [of "count_free 1 v2" v2] by (simp add: kept_def)
  moreover have "free_clust v2 = free_clust v" using v2(3) v1(5) meta_fields(9) by metis
  then have "free_clust (count_free 1 v2) = (if free_clust v = 0xFFFFFFFF then free_clust v else free_clust v + 1)"
    by (simp add: count_free_def)
  ultimately show thesis using that [of "count_free 1 v2"] v2(4) v1(4) by (simp add: clip_bound(3))
qed

text \<open>A chain is freed whole, and nothing else changes.\<close>

lemma remove_loop_chain:
  assumes "okv v" "fat_chain (entries v) (n_fatent v) c cs"
  shows "\<exists>v'. remove_loop D c v = Some (FR_OK, v') \<and> kept v v' \<and>
    (\<forall>x<n_fatent v. entries v' x = (if x \<in> set cs then 0 else entries v x)) \<and>
    (free_clust v \<noteq> 0xFFFFFFFF \<and> unat (free_clust v) + length cs < 0xFFFFFFFF \<longrightarrow>
      unat (free_clust v') = unat (free_clust v) + length cs)"
  using assms
proof (induction cs arbitrary: c v)
  case Nil
  then have "remove_loop D c v = Some (FR_OK, v)" by (subst remove_loop.simps) auto
  with Nil kept_refl show ?case by auto
next
  case (Cons x xs)
  from Cons.prems(2) have c: "x = c" "2 \<le> c" "c < n_fatent v" and ch: "fat_chain (entries v) (n_fatent v) (entries v c) xs" by auto
  have d: "c \<notin> set xs" using fat_chain_distinct [OF Cons.prems(2)] c(1) by simp
  have "2 \<le> entries v c"
    using ch c(2,3) by (cases xs) (auto simp: word_le_nat_alt word_less_nat_alt)
  then obtain v1 where v1: "remove_loop D c v = remove_loop D (entries v c) v1" "kept v v1"
    "\<And>x. x < n_fatent v \<Longrightarrow> entries v1 x = (if x = c then 0 else entries v x)"
    "free_clust v1 = (if free_clust v = 0xFFFFFFFF then free_clust v else free_clust v + 1)"
    using remove_step [OF Cons.prems(1) c(2,3)] by metis
  have k: "okv v1" "n_fatent v1 = n_fatent v" using kept_fields [OF v1(2)] by auto
  have "fat_chain (entries v1) (n_fatent v1) (entries v c) xs"
    using ch v1(3) d fat_chain_range [OF ch] k(2) fat_chain_cong [of xs "entries v1" "entries v"] by metis
  from Cons.IH [OF k(1) this] obtain v' where v': "remove_loop D (entries v c) v1 = Some (FR_OK, v')" "kept v1 v'"
    "\<And>x. x < n_fatent v \<Longrightarrow> entries v' x = (if x \<in> set xs then 0 else entries v1 x)"
    "free_clust v1 \<noteq> 0xFFFFFFFF \<Longrightarrow> unat (free_clust v1) + length xs < 0xFFFFFFFF \<Longrightarrow>
      unat (free_clust v') = unat (free_clust v1) + length xs" unfolding k(2) by metis
  have "unat (free_clust v') = unat (free_clust v) + length (x # xs)"
    if "free_clust v \<noteq> 0xFFFFFFFF" "unat (free_clust v) + length (x # xs) < 0xFFFFFFFF"
  proof -
    have u: "unat (free_clust v1) = unat (free_clust v) + 1" using that v1(4) by (simp add: unat_plus_if')
    with that have "unat (free_clust v1) < 0xFFFFFFFF" by simp
    then have "free_clust v1 \<noteq> 0xFFFFFFFF" by auto
    with v'(4) u that show ?thesis by simp
  qed
  with v' v1 c(1) kept_trans [OF v1(2) v'(2)] show ?case by auto
qed

text \<open>The removal ends on every table, also on one whose links form a cycle: each round frees an entry.\<close>

lemma remove_loop_ends: "okv v \<Longrightarrow> 2 \<le> c \<Longrightarrow> \<exists>r v'. remove_loop D c v = Some (r, v')"
proof (induction "card {x. x < n_fatent v \<and> entries v x \<noteq> 0}" arbitrary: v c rule: less_induct)
  case less
  consider (out) "\<not> c < n_fatent v" | (stop) "c < n_fatent v" "\<not> 2 \<le> entries v c" | (go) "c < n_fatent v" "2 \<le> entries v c" by blast
  then show ?case
  proof cases
    case out
    then show ?thesis by (subst remove_loop.simps) auto
  next
    case stop
    obtain v1 where "get_fat D c v = Some (entries v c, v1)" by (rule get_fat_entry [OF less.prems stop(1)])
    moreover have "entries v c = 0 \<or> entries v c = 1"
      using stop(2) by (auto simp: word_unat_eq_iff word_le_nat_alt)
    ultimately show ?thesis using stop(1) by (subst remove_loop.simps) auto
  next
    case go
    obtain v1 where v1: "remove_loop D c v = remove_loop D (entries v c) v1" "kept v v1"
      "\<And>x. x < n_fatent v \<Longrightarrow> entries v1 x = (if x = c then 0 else entries v x)"
      using remove_step [OF less.prems go] by metis
    have "{x. x < n_fatent v \<and> entries v1 x \<noteq> 0} = {x. x < n_fatent v \<and> entries v x \<noteq> 0} - {c}"
      using v1(3) by (auto split: if_splits)
    moreover have "c \<in> {x. x < n_fatent v \<and> entries v x \<noteq> 0}" using go by (auto simp: word_le_nat_alt)
    moreover have "finite {x. x < n_fatent v \<and> entries v x \<noteq> 0}" by simp
    ultimately have "card {x. x < n_fatent v \<and> entries v1 x \<noteq> 0} < card {x. x < n_fatent v \<and> entries v x \<noteq> 0}"
      by (simp only: card_Diff1_less)
    moreover have "okv v1" "n_fatent v1 = n_fatent v" using kept_fields [OF v1(2)] by auto
    ultimately have "\<exists>r v'. remove_loop D (entries v c) v1 = Some (r, v')"
      using less.hyps [of v1 "entries v c"] go(2) by metis
    then show ?thesis unfolding v1(1) .
  qed
qed

end

context volume_store
begin

text \<open>The clusters a search that started after \<open>scl\<close> has been to when it is at \<open>ncl\<close>.\<close>

definition seen :: "u32 \<Rightarrow> u32 \<Rightarrow> u32 \<Rightarrow> bool" where
  "seen scl ncl x \<longleftrightarrow> (if scl \<le> ncl then scl < x \<and> x \<le> ncl else scl < x \<or> x \<le> ncl)"

lemma free_search_result:
  assumes "okv v" "1 \<le> scl" "scl < n_fatent v" "ncl < n_fatent v" "scl \<le> ncl \<or> 2 \<le> ncl"
    and "\<And>x. 2 \<le> x \<Longrightarrow> x < n_fatent v \<Longrightarrow> entries v x \<noteq> 1"
    and "\<And>x. 2 \<le> x \<Longrightarrow> x < n_fatent v \<Longrightarrow> seen scl ncl x \<Longrightarrow> entries v x \<noteq> 0"
  shows "\<exists>r v'. free_search D scl ncl v = Some (r, v') \<and> kept v v' \<and> meta v' = meta v \<and> entries v' = entries v \<and>
    (r = 0 \<and> (\<forall>x. 2 \<le> x \<and> x < n_fatent v \<longrightarrow> entries v x \<noteq> 0) \<or> 2 \<le> r \<and> r < n_fatent v \<and> entries v r = 0)"
  using assms
proof (induction "if scl \<le> ncl then unat (n_fatent v) - unat ncl + unat scl else unat scl - unat ncl"
    arbitrary: v ncl rule: less_induct)
  case less
  let ?n = "n_fatent v"
  define wrap where "wrap \<longleftrightarrow> ncl + 1 \<ge> ?n"
  define k where "k = (if wrap then 2 else ncl + 1)"
  have u: "unat (ncl + 1) = unat ncl + 1"
    using less.prems(4) unat_u32_less [of ?n] by (simp add: word_less_nat_alt unat_plus_if' del: unat_u32_less)
  note nat = word_less_nat_alt word_le_nat_alt
  have unf: "free_search D scl ncl v =
      (if wrap \<and> k > scl then Some (0, v)
       else case get_fat D k v of None \<Rightarrow> None
         | Some (cs, v) \<Rightarrow> if cs = 0 then Some (k, v) else if cs = 0xFFFFFFFF \<or> cs = 1 then Some (cs, v)
             else if k = scl then Some (0, v) else free_search D scl k v)"
    unfolding wrap_def k_def by (subst free_search.simps) (simp only: Let_def)
  show ?case
  proof (cases "wrap \<and> k > scl")
    case True
    then have scl: "unat scl = 1" using less.prems(2) by (simp add: k_def nat split: if_splits)
    have "entries v x \<noteq> 0" if x: "2 \<le> x" "x < ?n" for x
    proof -
      have "scl \<le> ncl" using less.prems(5) scl by (auto simp: nat)
      moreover have "scl < x" "x \<le> ncl" using x scl True u by (auto simp: nat wrap_def)
      ultimately show ?thesis using less.prems(7) [OF x] by (simp add: seen_def)
    qed
    with True less.prems(1) kept_refl show ?thesis unfolding unf by auto
  next
    case False
    have k2: "2 \<le> k" "k < ?n"
    proof -
      have "2 \<le> unat k" using less.prems(2,5) u by (auto simp: k_def nat split: if_splits)
      then show "2 \<le> k" by (simp add: nat)
      have "unat k < unat ?n" using False less.prems(3) by (auto simp: k_def nat wrap_def)
      then show "k < ?n" by (simp add: nat)
    qed
    obtain v1 where v1: "get_fat D k v = Some (entries v k, v1)" "kept v v1" "entries v1 = entries v" "meta v1 = meta v"
      by (rule get_fat_entry [OF less.prems(1) k2])
    have k1: "okv v1" "n_fatent v1 = ?n" using kept_fields [OF v1(2)] by auto
    have seen': "(if k = scl then True else seen scl k x) \<longleftrightarrow> seen scl ncl x \<or> x = k" if "2 \<le> x" "x < ?n" for x
    proof (cases wrap)
      case True
      then have "k = 2" "\<not> 2 > unat scl" "unat ncl + 1 \<ge> unat ?n" using False u by (auto simp: k_def nat wrap_def)
      moreover have "scl \<le> ncl \<or> unat ncl < unat scl" by (auto simp: nat)
      ultimately show ?thesis using that less.prems(3,4) unfolding seen_def by (auto simp: nat word_unat_eq_iff)
    next
      case w: False
      then have "unat k = unat ncl + 1" using u by (simp add: k_def)
      then show ?thesis unfolding seen_def using k2 less.prems(3) by (auto simp: nat word_unat_eq_iff)
    qed
    show ?thesis
    proof (cases "entries v k = 0")
      case True
      with v1 False k2 show ?thesis unfolding unf by auto
    next
      case nz: False
      have nz1: "entries v k \<noteq> 1" by (rule less.prems(6) [OF k2])
      have go: "free_search D scl ncl v = (if k = scl then Some (0, v1) else free_search D scl k v1)"
        unfolding unf if_not_P [OF False] v1(1) using nz nz1 fat_value_ok [of "view v" v k] by simp
      show ?thesis
      proof (cases "k = scl")
        case True
        then have "entries v x \<noteq> 0" if "2 \<le> x" "x < ?n" for x
          using that less.prems(7) nz seen' [OF that] by metis
        with True go v1 show ?thesis by auto
      next
        case kn: False
        have sn: "entries v x \<noteq> 0" if "2 \<le> x" "x < ?n" "seen scl k x" for x
          using that less.prems(7) nz seen' [OF that(1,2)] kn by metis
        have m: "(if scl \<le> k then unat (n_fatent v1) - unat k + unat scl else unat scl - unat k)
            < (if scl \<le> ncl then unat ?n - unat ncl + unat scl else unat scl - unat ncl)"
          unfolding k1(2) using False u k2 kn less.prems(3,4) by (auto simp: k_def nat wrap_def word_unat_eq_iff)
        have "\<exists>r v'. free_search D scl k v1 = Some (r, v') \<and> kept v1 v' \<and> meta v' = meta v1 \<and> entries v' = entries v1 \<and>
          (r = 0 \<and> (\<forall>x. 2 \<le> x \<and> x < n_fatent v1 \<longrightarrow> entries v1 x \<noteq> 0) \<or> 2 \<le> r \<and> r < n_fatent v1 \<and> entries v1 r = 0)"
          using k1 less.prems(2,3,6) k2 v1(3) sn by (intro less.hyps [OF m]) auto
        then show ?thesis unfolding go using kn v1 k1(2) kept_trans [OF v1(2)] by auto
      qed
    qed
  qed
qed


lemma link_cluster_result:
  assumes "okv v" "2 \<le> z" "z < n_fatent v" "c = 0 \<or> 2 \<le> c \<and> c < n_fatent v \<and> c \<noteq> z"
  shows "\<exists>v'. link_cluster D c z v = Some (z, v') \<and> kept v v' \<and> last_clust v' = z \<and> n_fatent v \<le> clip v 0x0FFFFFFF \<and>
    (\<forall>x<n_fatent v. entries v' x = (if x = z then clip v 0x0FFFFFFF else if x = c \<and> c \<noteq> 0 then z else entries v x))"
proof -
  have room: "fat_room v" by (rule okv_room [OF assms(1)])
  obtain v1 where v1: "put_fat D z 0x0FFFFFFF v = Some (FR_OK, v1)" "kept v v1"
    "\<And>x. x < n_fatent v \<Longrightarrow> entries v1 x = (if x = z then clip v 0x0FFFFFFF else entries v x)"
    using put_fat_entry [OF assms(1-3)] by metis
  have k1: "okv v1" "n_fatent v1 = n_fatent v" "geo v1 = geo v" using kept_fields [OF v1(2)] by auto
  obtain v2 where v2: "(if c \<noteq> 0 then put_fat D c z v1 else Some (FR_OK, v1)) = Some (FR_OK, v2)" "kept v1 v2"
    "\<And>x. x < n_fatent v \<Longrightarrow> entries v2 x = (if x = c \<and> c \<noteq> 0 then z else entries v1 x)"
  proof (cases "c = 0")
    case True
    with that [of v1] kept_refl [OF k1(1)] show thesis by simp
  next
    case False
    with assms(4) have c: "2 \<le> c" "c < n_fatent v1" using k1(2) by auto
    have "clip v1 z = z" using clip_bound(1) [of v1 "n_fatent v1" z] okv_room [OF k1(1)] assms(3) k1(2) by simp
    with put_fat_entry [OF k1(1) c, of z] that False k1(2) show thesis by metis
  qed
  let ?w = "v2\<lparr>last_clust := z\<rparr>"
  have k2: "okv v2" using kept_fields [OF v2(2)] by auto
  have w: "okv ?w" "view ?w = view v2"
    using count_view [OF k2, where a = z and k = "free_clust v2" and f = "fsi_flag v2"] by auto
  then have "kept v2 ?w" by (simp add: kept_def)
  with count_free_kept [OF w(1)] have k3: "kept v (count_free (- 1) ?w)"
    using v1(2) v2(2) kept_trans by blast
  have e: "entries (count_free (- 1) ?w) = entries v2"
    using count_free_kept [OF w(1)] w(2) fat_value_geo [of "count_free (- 1) ?w" v2] by simp
  have l: "link_cluster D c z v = Some (z, count_free (- 1) ?w)"
    using v1(1) v2(1) by (simp add: link_cluster_def split: if_splits)
  have "last_clust (count_free (- 1) ?w) = z" by (simp add: count_free_def)
  with l k3 e v1(3) v2(3) assms(4) clip_bound(2) [OF room] show ?thesis by fastforce
qed

end

context volume_store
begin

lemma create_chain_result:
  assumes "okv v" "2 < n_fatent v" "\<And>x. 2 \<le> x \<Longrightarrow> x < n_fatent v \<Longrightarrow> entries v x \<noteq> 1"
    and "c = 0 \<or> 2 \<le> c \<and> c < n_fatent v \<and> n_fatent v \<le> entries v c"
  shows "\<exists>r v'. create_chain D c v = Some (r, v') \<and> kept v v' \<and>
    (r = 0 \<and> (\<forall>x. 2 \<le> x \<and> x < n_fatent v \<longrightarrow> entries v x \<noteq> 0) \<and> entries v' = entries v \<or>
     2 \<le> r \<and> r < n_fatent v \<and> r \<noteq> c \<and> entries v r = 0 \<and>
     (\<forall>x<n_fatent v. entries v' x = (if x = r then clip v 0x0FFFFFFF else if x = c \<and> c \<noteq> 0 then r else entries v x)))"
proof -
  have search: "\<exists>r v'. create_from D c scl w = Some (r, v') \<and> kept v v' \<and>
    (r = 0 \<and> (\<forall>x. 2 \<le> x \<and> x < n_fatent v \<longrightarrow> entries v x \<noteq> 0) \<and> entries v' = entries v \<or>
     2 \<le> r \<and> r < n_fatent v \<and> r \<noteq> c \<and> entries v r = 0 \<and>
     (\<forall>x<n_fatent v. entries v' x = (if x = r then clip v 0x0FFFFFFF else if x = c \<and> c \<noteq> 0 then r else entries v x)))"
    if w: "kept v w" "entries w = entries v" and s: "1 \<le> scl" "scl < n_fatent v" for scl w
  proof -
    have kw: "okv w" "n_fatent w = n_fatent v" "geo w = geo v" using kept_fields [OF w(1)] by auto
    have cl: "clip w x = clip v x" for x using geo_fields(1) [OF kw(3)] by (simp add: clip_def)
    have ns: "entries v x \<noteq> 0" if "2 \<le> x" "x < n_fatent v" "seen scl scl x" for x using that by (auto simp: seen_def)
    obtain r w1 where f: "free_search D scl scl w = Some (r, w1)" "kept w w1" "entries w1 = entries v"
      "r = 0 \<and> (\<forall>x. 2 \<le> x \<and> x < n_fatent v \<longrightarrow> entries v x \<noteq> 0) \<or> 2 \<le> r \<and> r < n_fatent v \<and> entries v r = 0"
      using free_search_result [OF kw(1), of scl scl, unfolded kw(2) w(2),
        OF s s(2) disjI1 [OF order_refl] assms(3) ns] by blast
    have k1: "okv w1" "n_fatent w1 = n_fatent v" "geo w1 = geo v" using kept_fields [OF f(2)] kw by auto
    have k: "kept v w1" by (rule kept_trans [OF w(1) f(2)])
    from f(4) show ?thesis
    proof
      assume r: "r = 0 \<and> (\<forall>x. 2 \<le> x \<and> x < n_fatent v \<longrightarrow> entries v x \<noteq> 0)"
      with f(1) have "create_from D c scl w = Some (0, w1)" by (simp add: create_from_def)
      with k f(3) r show ?thesis by blast
    next
      assume r: "2 \<le> r \<and> r < n_fatent v \<and> entries v r = 0"
      with assms(4) have c: "c = 0 \<or> 2 \<le> c \<and> c < n_fatent w1 \<and> c \<noteq> r" "r \<noteq> c" using k1(2) by auto
      have "\<not> (r < 2 \<or> r = 0xFFFFFFFF)" using r unat_u32_less [of "n_fatent v"]
        by (auto simp: word_less_nat_alt word_le_nat_alt simp del: unat_u32_less)
      then have "create_from D c scl w = link_cluster D c r w1" using f(1) by (simp add: create_from_def)
      moreover have "clip w1 x = clip v x" for x using geo_fields(1) [OF k1(3)] by (simp add: clip_def)
      ultimately show ?thesis
        using link_cluster_result [OF k1(1), of r c] r c k1(2) f(3) kept_trans [OF k] by auto
    qed
  qed
  show ?thesis
  proof (cases "c = 0")
    case True
    define scl where "scl = (if last_clust v = 0 \<or> last_clust v \<ge> n_fatent v then 1 else last_clust v)"
    have s: "1 \<le> scl" "scl < n_fatent v"
      using assms(2) by (auto simp: scl_def word_less_nat_alt word_le_nat_alt word_unat_eq_iff)
    have e: "create_chain D 0 v = create_from D 0 scl v" by (simp add: create_chain_def scl_def Let_def)
    from search [OF kept_refl [OF assms(1)] refl s] show ?thesis unfolding True e .
  next
    case False
    with assms(4) have c: "2 \<le> c" "c < n_fatent v" "n_fatent v \<le> entries v c" by auto
    obtain w where w: "get_fat D c v = Some (entries v c, w)" "kept v w" "entries w = entries v"
      by (rule get_fat_entry [OF assms(1) c(1,2)])
    have "\<not> entries v c < 2" "\<not> entries v c < n_fatent w" "entries v c \<noteq> 0xFFFFFFFF"
      using c assms(2) kept_fields [OF w(2)] fat_value_ok [of "view v" v c] by auto
    with w(1) False have e: "create_chain D c v = create_from D c c w" by (simp add: create_chain_def)
    have "1 \<le> c" using c(1) by (simp add: word_le_nat_alt)
    from search [OF w(2,3) this c(2)] show ?thesis unfolding e .
  qed
qed

end

section \<open>A disk that works\<close>

text \<open>What FatFs documents of the disk functions: a sector below the size of the disk can be read and written, and
  a read returns what was written last.\<close>

definition disk_laws :: "'d disk_ops \<Rightarrow> u8 \<Rightarrow> nat \<Rightarrow> ('d \<Rightarrow> u32 \<Rightarrow> u8 list) \<Rightarrow> ('d \<Rightarrow> bool) \<Rightarrow> bool" where
  "disk_laws D p N sect live \<longleftrightarrow> (\<forall>d. live d \<longrightarrow>
     (\<forall>s. length (sect d s) = 512) \<and>
     (\<forall>s. unat s < N \<longrightarrow> (\<exists>d'. dk_read D p s 1 d = Some (RES_OK, sect d s, d') \<and> live d' \<and> sect d' = sect d)) \<and>
     (\<forall>s bs. unat s < N \<longrightarrow> length bs = 512 \<longrightarrow>
        (\<exists>d'. dk_write D p bs s 1 d = Some (RES_OK, d') \<and> live d' \<and> sect d' = (sect d)(s := bs))))"

abbreviation sound_disk :: "'d disk_ops \<Rightarrow> u8 \<Rightarrow> nat \<Rightarrow> ('d \<Rightarrow> u32 \<Rightarrow> u8 list) \<Rightarrow> ('d \<Rightarrow> bool) \<Rightarrow> 'd \<Rightarrow> bool" where
  "sound_disk D p N sect live \<equiv> \<lambda>d. disk_laws D p N sect live \<and> live d"

interpretation good_disk: sector_store D p N sect "sound_disk D p N sect live"
  for D :: "'d disk_ops" and p N sect live
  by unfold_locales (auto simp: disk_laws_def)

section \<open>The table and the chains of a volume\<close>

text \<open>The table of a volume as a map from clusters to entries.\<close>

definition fat_map :: "nat \<Rightarrow> ('d \<Rightarrow> u32 \<Rightarrow> u8 list) \<Rightarrow> 'd volume \<Rightarrow> u32 \<Rightarrow> u32" where
  "fat_map N sect v = fat_value (volume_view N sect v) v"

lemma kept_map:
  assumes "good_disk.store.kept p N sect D live v v'"
  shows "volume_ok p N sect (sound_disk D p N sect live) v' \<and> n_fatent v' = n_fatent v \<and>
    (\<forall>s. \<not> in_table v s \<longrightarrow> volume_view N sect v' s = volume_view N sect v s)"
  using assms good_disk.store.kept_fields unfolding good_disk.store.kept_def by blast

text \<open>C31: The allocation table of a volume on a working disk is a map from clusters to entries, in each of its
  three widths.  Reading an entry gives its value; storing a value in an entry succeeds, changes that entry to
  the bits of the value it has room for and no other entry, also where two entries share a byte or an entry lies in two
  sectors, and changes no sector outside the table.  The second copy of the table stays equal to the first.\<close>

theorem fat_table_map:
  assumes "volume_ok p N sect (sound_disk D p N sect live) v" "2 \<le> c" "c < n_fatent v"
  shows "(\<exists>w. get_fat D c v = Some (fat_map N sect v c, w)) \<and>
    (\<exists>v'. put_fat D c val v = Some (FR_OK, v') \<and> volume_ok p N sect (sound_disk D p N sect live) v' \<and>
      (\<forall>x. 2 \<le> x \<and> x < n_fatent v \<longrightarrow>
        (\<exists>w. get_fat D x v' = Some (if x = c then clip v val else fat_map N sect v x, w))) \<and>
      (\<forall>s. \<not> in_table v s \<longrightarrow> volume_view N sect v' s = volume_view N sect v s))"
proof -
  obtain w where w: "get_fat D c v = Some (fat_map N sect v c, w)"
    unfolding fat_map_def using good_disk.store.get_fat_entry [OF assms] by metis
  obtain v' where v': "put_fat D c val v = Some (FR_OK, v')" "good_disk.store.kept p N sect D live v v'"
    "\<And>x. x < n_fatent v \<Longrightarrow> fat_map N sect v' x = (if x = c then clip v val else fat_map N sect v x)"
    unfolding fat_map_def using good_disk.store.put_fat_entry [OF assms, of val] by metis
  note k = kept_map [OF v'(2)]
  have "\<exists>w. get_fat D x v' = Some (if x = c then clip v val else fat_map N sect v x, w)"
    if x: "2 \<le> x" "x < n_fatent v" for x
  proof -
    have "volume_ok p N sect (sound_disk D p N sect live) v'" "x < n_fatent v'" using k x by auto
    from good_disk.store.get_fat_entry [OF this(1) x(1) this(2)] obtain w
      where "get_fat D x v' = Some (fat_map N sect v' x, w)" unfolding fat_map_def by metis
    with v'(3) [OF x(2)] show ?thesis by simp
  qed
  with w v'(1) k show ?thesis by blast
qed

text \<open>C32: Removing a chain on a working disk frees exactly its clusters: their entries become 0, every other entry
  and every sector outside the table keeps its value, and a known count of free clusters grows by the length
  of the chain.  On a table whose links form a cycle or run into a bad entry the removal ends as well.\<close>

theorem remove_chain_frees:
  assumes "volume_ok p N sect (sound_disk D p N sect live) v" "2 \<le> c" "c < n_fatent v"
  shows "(\<exists>r v'. remove_chain D c v = Some (r, v')) \<and>
    (fat_chain (fat_map N sect v) (n_fatent v) c cs \<longrightarrow>
      (\<exists>v'. remove_chain D c v = Some (FR_OK, v') \<and> volume_ok p N sect (sound_disk D p N sect live) v' \<and>
        (\<forall>x < n_fatent v. fat_map N sect v' x = (if x \<in> set cs then 0 else fat_map N sect v x)) \<and>
        (\<forall>s. \<not> in_table v s \<longrightarrow> volume_view N sect v' s = volume_view N sect v s) \<and>
        (free_clust v \<noteq> 0xFFFFFFFF \<and> unat (free_clust v) + length cs < 0xFFFFFFFF \<longrightarrow>
          unat (free_clust v') = unat (free_clust v) + length cs)))"
proof -
  have "\<not> (c < 2 \<or> n_fatent v \<le> c)" using assms(2,3) by auto
  then have e: "remove_chain D c v = remove_loop D c v" by (simp add: remove_chain_def)
  show ?thesis
    unfolding e fat_map_def
    using good_disk.store.remove_loop_ends [OF assms(1,2)] good_disk.store.remove_loop_chain [OF assms(1), of c cs]
      kept_map [of p N sect D live v] by blast
qed

text \<open>C33: Stretching a chain, or starting one with cluster 0, on a working disk with a table without bad
  entries finds a free cluster wherever it is: the new cluster was free, is now the end of the chain, and
  no other chain changes.  It reports a full disk, and changes no entry, only when every cluster is in use.\<close>

theorem create_chain_stretches:
  assumes "volume_ok p N sect (sound_disk D p N sect live) v" "2 < n_fatent v"
    and "\<And>x. 2 \<le> x \<Longrightarrow> x < n_fatent v \<Longrightarrow> fat_map N sect v x \<noteq> 1"
    and "c = 0 \<and> cs = [] \<or> fat_chain (fat_map N sect v) (n_fatent v) c0 (cs @ [c])"
  shows "\<exists>r v'. create_chain D c v = Some (r, v') \<and> volume_ok p N sect (sound_disk D p N sect live) v' \<and>
    (\<forall>s. \<not> in_table v s \<longrightarrow> volume_view N sect v' s = volume_view N sect v s) \<and>
    (r = 0 \<and> (\<forall>x. 2 \<le> x \<and> x < n_fatent v \<longrightarrow> fat_map N sect v x \<noteq> 0) \<and> fat_map N sect v' = fat_map N sect v \<or>
     2 \<le> r \<and> r < n_fatent v \<and> fat_map N sect v r = 0 \<and>
     fat_chain (fat_map N sect v') (n_fatent v') (if c = 0 then r else c0) (if c = 0 then [r] else cs @ [c, r]) \<and>
     (\<forall>x < n_fatent v. x \<noteq> r \<and> x \<noteq> c \<longrightarrow> fat_map N sect v' x = fat_map N sect v x))"
proof -
  let ?F = "fat_map N sect v" and ?n = "n_fatent v"
  have room: "fat_room v" using assms(1) by (simp add: volume_ok_def fat_layout_def)
  have c: "c = 0 \<or> 2 \<le> c \<and> c < ?n \<and> ?n \<le> ?F c"
    using assms(4) fat_chain_range [of ?F ?n c0 "cs @ [c]" c] fat_chain_suffix [of ?F ?n c0 cs c "[]"] by auto
  obtain r v' where r: "create_chain D c v = Some (r, v')" "good_disk.store.kept p N sect D live v v'"
    "r = 0 \<and> (\<forall>x. 2 \<le> x \<and> x < ?n \<longrightarrow> ?F x \<noteq> 0) \<and> fat_map N sect v' = ?F \<or>
     2 \<le> r \<and> r < ?n \<and> r \<noteq> c \<and> ?F r = 0 \<and>
     (\<forall>x<?n. fat_map N sect v' x = (if x = r then clip v 0x0FFFFFFF else if x = c \<and> c \<noteq> 0 then r else ?F x))"
    using good_disk.store.create_chain_result [OF assms(1,2), of c, folded fat_map_def, OF assms(3) c] by blast
  note k = kept_map [OF r(2)]
  have stretched: "fat_chain (fat_map N sect v') (n_fatent v') (if c = 0 then r else c0) (if c = 0 then [r] else cs @ [c, r])"
    if n: "2 \<le> r" "r < ?n" "r \<noteq> c" "?F r = 0"
      and e: "\<And>x. x < ?n \<Longrightarrow> fat_map N sect v' x = (if x = r then clip v 0x0FFFFFFF else if x = c \<and> c \<noteq> 0 then r else ?F x)"
  proof -
    have n': "n_fatent v' = ?n" "?n \<le> clip v 0x0FFFFFFF" using k clip_bound(2) [OF room] by auto
    show ?thesis
    proof (cases "c = 0")
      case True
      with n n' e show ?thesis by auto
    next
      case False
      with assms(4) have ch: "fat_chain ?F ?n c0 (cs @ [c])" by auto
      have rn: "r \<notin> set (cs @ [c])"
      proof
        assume "r \<in> set (cs @ [c])"
        with n(3) obtain as bs where "cs @ [c] = as @ r # bs" "bs \<noteq> []" by (auto dest!: split_list)
        then have "fat_chain ?F ?n r (r # bs)" using ch fat_chain_suffix by metis
        with n(4) \<open>bs \<noteq> []\<close> show False by (cases bs) auto
      qed
      let ?G = "?F(r := clip v 0x0FFFFFFF, c := r)"
      have "fat_chain ?G ?n c0 (cs @ [c, r])" by (rule fat_chain_snoc [OF ch rn n(1,2) n'(2)])
      moreover have "fat_map N sect v' x = ?G x" if "x \<in> set (cs @ [c, r])" for x
        using that e [of x] fat_chain_range [OF ch, of x] n(2,3) False by auto
      ultimately show ?thesis using fat_chain_cong [of "cs @ [c, r]" "fat_map N sect v'" ?G ?n c0] False n'(1) by simp
    qed
  qed
  from r(3) show ?thesis
  proof
    assume "r = 0 \<and> (\<forall>x. 2 \<le> x \<and> x < ?n \<longrightarrow> ?F x \<noteq> 0) \<and> fat_map N sect v' = ?F"
    with r(1) k show ?thesis by blast
  next
    assume a: "2 \<le> r \<and> r < ?n \<and> r \<noteq> c \<and> ?F r = 0 \<and>
      (\<forall>x<?n. fat_map N sect v' x = (if x = r then clip v 0x0FFFFFFF else if x = c \<and> c \<noteq> 0 then r else ?F x))"
    then have "fat_chain (fat_map N sect v') (n_fatent v') (if c = 0 then r else c0) (if c = 0 then [r] else cs @ [c, r])"
      by (intro stretched) auto
    moreover have "\<forall>x < ?n. x \<noteq> r \<and> x \<noteq> c \<longrightarrow> fat_map N sect v' x = ?F x" using a by simp
    ultimately have "2 \<le> r \<and> r < ?n \<and> ?F r = 0 \<and>
      fat_chain (fat_map N sect v') (n_fatent v') (if c = 0 then r else c0) (if c = 0 then [r] else cs @ [c, r]) \<and>
      (\<forall>x < ?n. x \<noteq> r \<and> x \<noteq> c \<longrightarrow> fat_map N sect v' x = ?F x)" using a by blast
    with r(1) k show ?thesis by blast
  qed
qed

section \<open>A disk in memory, for the examples\<close>

definition ram_disk :: "(u32 \<Rightarrow> u8 list) disk_ops" where
  "ram_disk = \<lparr>dk_read = (\<lambda>p s n d. Some (RES_OK, concat (map (\<lambda>i. d (s + of_nat i)) [0..<unat n]), d)),
     dk_write = (\<lambda>p bs s n d. Some (RES_OK, \<lambda>t. if unat (t - s) < unat n then take 512 (drop (512 * unat (t - s)) bs) else d t)),
     dk_sync = (\<lambda>p d. Some (RES_OK, d)), dk_status = (\<lambda>p d. 0), dk_init = (\<lambda>p d. Some (0, d))\<rparr>"

definition whole :: "(u32 \<Rightarrow> u8 list) \<Rightarrow> bool" where
  "whole d \<longleftrightarrow> (\<forall>s. length (d s) = 512)"

lemma ram_disk_laws: "disk_laws ram_disk p N (\<lambda>d. d) whole"
proof -
  have "dk_write ram_disk p bs s 1 d = Some (RES_OK, d(s := bs))" if "length bs = 512" for bs s d
    using that by (auto simp: ram_disk_def fun_eq_iff unat_eq_0)
  then show ?thesis by (simp add: disk_laws_def whole_def) (simp add: ram_disk_def)
qed

text \<open>A volume with 16-bit entries, two copies of a table of one sector and eight clusters, of which two form a
  chain.\<close>

definition sample_table :: "u8 list" where
  "sample_table = ST_WORD 4 3 (ST_WORD 6 0xFFFF (replicate 512 0))"

definition sample_volume :: "(u32 \<Rightarrow> u8 list) volume" where
  "sample_volume = \<lparr>fs_type = 2, drv = 0, csize = 1, n_fats = 2, wflag = 0, fsi_flag = 0x80, fs_id = 1, n_rootdir = 16,
     last_clust = 0xFFFFFFFF, free_clust = 0xFFFFFFFF, cdir = 0, n_fatent = 10, fat_size = 1, volbase = 0, fatbase = 1,
     dirbase = 3, database = 4, winsect = 0xFFFFFFFF, win = replicate 512 0,
     dsk = (\<lambda>s. if s = 1 \<or> s = 2 then sample_table else replicate 512 0)\<rparr>"

lemma sample_volume_ok:
  "volume_ok 0 100 (\<lambda>d. d) (sound_disk ram_disk 0 100 (\<lambda>d. d) whole) sample_volume"
proof -
  have one: "t < 1 \<longleftrightarrow> t = 0" for t :: u32 by (simp add: word_less_nat_alt unat_eq_0)
  show ?thesis
    using ram_disk_laws [of 0 100]
    by (auto simp: volume_ok_def sample_volume_def fat_layout_def fat_room_def FS_types copies_agree_def whole_def
        sample_table_def one)
qed

lemma sample_entry:
  assumes "c < 10"
  shows "fat_map 100 (\<lambda>d. d) sample_volume c = (if c = 2 then 3 else if c = 3 then 0xFFFF else 0)"
proof -
  have c: "unat c < 10" using assms by (simp add: word_less_nat_alt)
  then have "unat (c div 256) = 0" by (simp add: unat_div)
  then have d: "c div 256 = 0" by (simp add: unat_eq_0)
  have m: "\<not> mirror sample_volume 1" by (simp add: mirror_def sample_volume_def)
  have p: "unat (c * 2 mod 512) = 2 * unat c" using unat_slot [of c 2 256] c by simp
  have "fat_map 100 (\<lambda>d. d) sample_volume c = ucast (LD_WORD sample_table (2 * unat c))"
    using m by (simp add: fat_map_def fat_value_def volume_view_def d p)
      (simp add: sample_volume_def FS_types)
  also have "LD_WORD sample_table (2 * unat c) = (if c = 2 then 3 else if c = 3 then 0xFFFF else 0)"
  proof -
    have "c = 2 \<longleftrightarrow> unat c = 2" "c = 3 \<longleftrightarrow> unat c = 3" by (simp_all add: word_unat_eq_iff)
    moreover have "LD_WORD (replicate 512 0) i = 0" if "i < 100" for i using that by (simp add: LD_WORD_def)
    moreover have "LD_WORD (ST_WORD (2 * k) w bs) (2 * unat c) = LD_WORD bs (2 * unat c)" if "unat c \<noteq> k" for k w bs
      using that by (intro LD_ST_apart) linarith
    from this [of 2] this [of 3] have "unat c \<noteq> 2 \<Longrightarrow> LD_WORD (ST_WORD 4 w bs) (2 * unat c) = LD_WORD bs (2 * unat c)"
      "unat c \<noteq> 3 \<Longrightarrow> LD_WORD (ST_WORD 6 w bs) (2 * unat c) = LD_WORD bs (2 * unat c)" for w bs by simp_all
    ultimately show ?thesis using c LD_ST_WORD [where i = 4 and bs = "ST_WORD 6 0xFFFF (replicate 512 0)" and w = 3]
        LD_ST_WORD [where i = 6 and bs = "replicate 512 0" and w = "0xFFFF"]
      by (auto simp: sample_table_def)
  qed
  finally show ?thesis by (simp split: if_splits)
qed

theorem fat_table_map_witness:
  "\<exists>v' w. put_fat ram_disk 2 0x10005 sample_volume = Some (FR_OK, v') \<and> get_fat ram_disk 2 v' = Some (5, w)"
proof -
  have r: "2 < n_fatent sample_volume" by (simp add: sample_volume_def)
  from fat_table_map [where val = "0x10005", OF sample_volume_ok order_refl r] obtain v' w where
    "put_fat ram_disk 2 0x10005 sample_volume = Some (FR_OK, v')"
    "get_fat ram_disk 2 v' = Some (clip sample_volume 0x10005, w)" using r by fastforce
  moreover have "clip sample_volume 0x10005 = 5" by (simp add: clip_def sample_volume_def FS_types)
  ultimately show ?thesis by auto
qed

theorem remove_chain_frees_witness:
  "\<exists>v'. remove_chain ram_disk 2 sample_volume = Some (FR_OK, v') \<and> fat_map 100 (\<lambda>d. d) v' 3 = 0"
proof -
  have r: "2 < n_fatent sample_volume" by (simp add: sample_volume_def)
  have "fat_chain (fat_map 100 (\<lambda>d. d) sample_volume) (n_fatent sample_volume) 2 [2, 3]"
    by (simp add: sample_entry) (simp add: sample_volume_def)
  with remove_chain_frees [where cs = "[2, 3]", OF sample_volume_ok order_refl r] show ?thesis
    by (auto simp: sample_volume_def)
qed

theorem create_chain_stretches_witness:
  "\<exists>r v'. create_chain ram_disk 3 sample_volume = Some (r, v') \<and> 2 \<le> r \<and>
     fat_chain (fat_map 100 (\<lambda>d. d) v') (n_fatent v') 2 [2, 3, r]"
proof -
  let ?F = "fat_map 100 (\<lambda>d. d) sample_volume"
  have n: "n_fatent sample_volume = 10" by (simp add: sample_volume_def)
  have r: "2 < n_fatent sample_volume" "?F 4 = 0" by (simp_all add: n sample_entry)
  have b: "?F x \<noteq> 1" if "2 \<le> x" "x < n_fatent sample_volume" for x using that by (simp add: n sample_entry)
  have c: "3 = 0 \<and> [2] = [] \<or> fat_chain ?F (n_fatent sample_volume) 2 ([2] @ [3])"
    by (simp add: n sample_entry)
  have "\<not> (\<forall>x. 2 \<le> x \<and> x < n_fatent sample_volume \<longrightarrow> ?F x \<noteq> 0)" using r(2) n by force
  with create_chain_stretches [OF sample_volume_ok r(1) b c] show ?thesis by auto
qed

end
