(* ===== verification/FatFile.thy ===== *)
theory FatFile
  imports FatChain
begin

text \<open>
  Files of FatFs (hello/ff.c): reading, writing, seeking, truncating, flushing and closing an open file.  The
  operations work on the file object and the volume; a call first checks that the object still belongs to a
  mounted volume (\<open>validate\<close>).  \<open>None\<close> is a call of a disk function or a loop that does not end.
\<close>

section \<open>The module's state\<close>

text \<open>The file system objects live in memory the callers own; \<open>FatFs\<close> is the table of pointers to them, one for
  each logical drive, and a pointer is the number of an object.\<close>

record 'd ffs =
  FatFs :: "nat option list"
  objs :: "nat \<Rightarrow> FATFS"
  Fsid :: u16
  CurrVol :: u8
  disk :: 'd

definition volume_of :: "'d ffs \<Rightarrow> nat \<Rightarrow> 'd volume" where
  "volume_of st f = FATFS.extend (objs st f) (volume.fields (disk st))"

definition put_volume :: "nat \<Rightarrow> 'd volume \<Rightarrow> 'd ffs \<Rightarrow> 'd ffs" where
  "put_volume f v st = st\<lparr>objs := (objs st)(f := FATFS.truncate v), disk := dsk v\<rparr>"

definition STA_OFF :: "u8 \<Rightarrow> bool" where
  "STA_OFF s \<longleftrightarrow> s AND STA_NOINIT \<noteq> 0"

text \<open>An object is valid as long as its file system is mounted under the same number and the drive is on.\<close>

definition validate :: "'d disk_ops \<Rightarrow> nat option \<Rightarrow> u16 \<Rightarrow> 'd ffs \<Rightarrow> FRESULT" where
  "validate D fs i st =
     (case fs of
        None \<Rightarrow> FR_INVALID_OBJECT
      | Some f \<Rightarrow>
          if fs_type (objs st f) = 0 \<or> fs_id (objs st f) \<noteq> i \<or> STA_OFF (dk_status D (drv (objs st f)) (disk st))
          then FR_INVALID_OBJECT else FR_OK)"

section \<open>File objects\<close>

text \<open>\<open>dir_ptr\<close> is the offset of the directory entry in the window.\<close>

record FIL =
  fl_fs :: "nat option"
  fl_id :: u16
  fl_flag :: u8
  fl_err :: FRESULT
  fptr :: u32
  fl_size :: u32
  sclust :: u32
  clust :: u32
  dsect :: u32
  dir_sect :: u32
  dir_ptr :: nat
  buf :: "u8 list"

definition FA_READ :: u8 where "FA_READ = 0x01"
definition FA_WRITE :: u8 where "FA_WRITE = 0x02"
definition FA_CREATE_NEW :: u8 where "FA_CREATE_NEW = 0x04"
definition FA_CREATE_ALWAYS :: u8 where "FA_CREATE_ALWAYS = 0x08"
definition FA_OPEN_ALWAYS :: u8 where "FA_OPEN_ALWAYS = 0x10"
definition FA_WRITTEN :: u8 where "FA_WRITTEN = 0x20"
definition FA_DIRTY :: u8 where "FA_DIRTY = 0x40"

text \<open>One round of a transfer: it stops the call with an error, finds the disk full, or moves some bytes.\<close>

datatype io_step = Aborted FRESULT | Full | Moved u32 "u8 list"

text \<open>The macro \<open>ABORT\<close> records the error in the file object.\<close>

definition ABORT :: "FRESULT \<Rightarrow> FIL \<Rightarrow> 'd volume \<Rightarrow> (io_step \<times> FIL \<times> 'd volume) option" where
  "ABORT res fp v = Some (Aborted res, fp\<lparr>fl_err := res\<rparr>, v)"

text \<open>Write a changed sector buffer back; false is a failing write.\<close>

definition flush_buf :: "'d disk_ops \<Rightarrow> FIL \<Rightarrow> 'd volume \<Rightarrow> (bool \<times> FIL \<times> 'd volume) option" where
  "flush_buf D fp v =
     (if fl_flag fp AND FA_DIRTY \<noteq> 0 then
        (case dk_write D (drv v) (buf fp) (dsect fp) 1 (dsk v) of
           None \<Rightarrow> None
         | Some (r, d) \<Rightarrow>
             if r \<noteq> RES_OK then Some (False, fp, v\<lparr>dsk := d\<rparr>)
             else Some (True, fp\<lparr>fl_flag := fl_flag fp AND NOT FA_DIRTY\<rparr>, v\<lparr>dsk := d\<rparr>))
      else Some (True, fp, v))"

text \<open>Fill the sector buffer.\<close>

definition fill_buf :: "'d disk_ops \<Rightarrow> u32 \<Rightarrow> FIL \<Rightarrow> 'd volume \<Rightarrow> (bool \<times> FIL \<times> 'd volume) option" where
  "fill_buf D s fp v =
     (case dk_read D (drv v) s 1 (dsk v) of
        None \<Rightarrow> None
      | Some (r, bs, d) \<Rightarrow> Some (r = RES_OK, fp\<lparr>buf := bs\<rparr>, v\<lparr>dsk := d\<rparr>))"

definition sector_in_cluster :: "FIL \<Rightarrow> 'd volume \<Rightarrow> u8" where
  "sector_in_cluster fp v = ucast (fptr fp div 512 AND (ucast (csize v) - 1))"

text \<open>The number of whole sectors of \<open>n\<close> bytes that lie in the cluster from sector \<open>csect\<close> on.\<close>

definition clip_sectors :: "u8 \<Rightarrow> u32 \<Rightarrow> 'd volume \<Rightarrow> u32" where
  "clip_sectors csect n v =
     (let cc = n div 512 in if ucast csect + cc > ucast (csize v) then ucast (csize v) - ucast csect else cc)"

text \<open>The bytes up to the end of the sector.\<close>

definition in_sector :: "FIL \<Rightarrow> u32 \<Rightarrow> u32" where
  "in_sector fp n = (let k = 512 - fptr fp mod 512 in if k > n then n else k)"

section \<open>Reading\<close>

text \<open>The cluster of the position, at the start of a cluster.\<close>

definition read_cluster :: "'d disk_ops \<Rightarrow> FIL \<Rightarrow> 'd volume \<Rightarrow> (u32 \<times> 'd volume) option" where
  "read_cluster D fp v = (if fptr fp = 0 then Some (sclust fp, v) else get_fat D (clust fp) v)"

definition read_partial :: "u32 \<Rightarrow> FIL \<Rightarrow> 'd volume \<Rightarrow> (io_step \<times> FIL \<times> 'd volume) option" where
  "read_partial btr fp v =
     (let rcnt = in_sector fp btr
      in Some (Moved rcnt (take (unat rcnt) (drop (unat (fptr fp mod 512)) (buf fp))), fp, v))"

text \<open>A changed sector buffer replaces its sector among those read from the disk.\<close>

definition overlay :: "FIL \<Rightarrow> u32 \<Rightarrow> u32 \<Rightarrow> u8 list \<Rightarrow> u8 list" where
  "overlay fp sect cc bs =
     (if fl_flag fp AND FA_DIRTY \<noteq> 0 \<and> dsect fp - sect < cc
      then (let i = 512 * unat (dsect fp - sect) in take i bs @ buf fp @ drop (i + 512) bs) else bs)"

definition read_sectors_of :: "'d disk_ops \<Rightarrow> u32 \<Rightarrow> FIL \<Rightarrow> 'd volume \<Rightarrow> (io_step \<times> FIL \<times> 'd volume) option" where
  "read_sectors_of D btr fp v =
     (let csect = sector_in_cluster fp v; sect = clust2sect v (clust fp) in
      if sect = 0 then ABORT FR_INT_ERR fp v
      else
        (let sect = sect + ucast csect; cc = clip_sectors csect btr v in
         if btr div 512 \<noteq> 0 then
           do { (r, bs, d) \<leftarrow> dk_read D (drv v) sect cc (dsk v);
                if r \<noteq> RES_OK then ABORT FR_DISK_ERR fp (v\<lparr>dsk := d\<rparr>)
                else Some (Moved (512 * cc) (overlay fp sect cc bs), fp, v\<lparr>dsk := d\<rparr>) }
         else if dsect fp \<noteq> sect then
           do { (ok, fp, v) \<leftarrow> flush_buf D fp v;
                if \<not> ok then ABORT FR_DISK_ERR fp v
                else
                  do { (ok, fp, v) \<leftarrow> fill_buf D sect fp v;
                       if \<not> ok then ABORT FR_DISK_ERR fp v
                       else read_partial btr (fp\<lparr>dsect := sect\<rparr>) v } }
         else read_partial btr (fp\<lparr>dsect := sect\<rparr>) v))"

definition read_round :: "'d disk_ops \<Rightarrow> u32 \<Rightarrow> FIL \<Rightarrow> 'd volume \<Rightarrow> (io_step \<times> FIL \<times> 'd volume) option" where
  "read_round D btr fp v =
     (if fptr fp mod 512 \<noteq> 0 then read_partial btr fp v
      else if sector_in_cluster fp v = 0 then
        do { (clst, v) \<leftarrow> read_cluster D fp v;
             if clst < 2 then ABORT FR_INT_ERR fp v
             else if clst = 0xFFFFFFFF then ABORT FR_DISK_ERR fp v
             else read_sectors_of D btr (fp\<lparr>clust := clst\<rparr>) v }
      else read_sectors_of D btr fp v)"

definition advance :: "u32 \<Rightarrow> FIL \<Rightarrow> FIL" where
  "advance n fp = fp\<lparr>fptr := fptr fp + n\<rparr>"

partial_function (option) read_loop ::
  "'d disk_ops \<Rightarrow> u32 \<Rightarrow> u8 list \<Rightarrow> FIL \<Rightarrow> 'd volume \<Rightarrow> (FRESULT \<times> u8 list \<times> FIL \<times> 'd volume) option" where
  "read_loop D btr out fp v =
     (if btr = 0 then Some (FR_OK, out, fp, v)
      else
        (case read_round D btr fp v of
           None \<Rightarrow> None
         | Some (Aborted res, fp, v) \<Rightarrow> Some (res, out, fp, v)
         | Some (Full, fp, v) \<Rightarrow> Some (FR_OK, out, fp, v)
         | Some (Moved rcnt bs, fp, v) \<Rightarrow> read_loop D (btr - rcnt) (out @ bs) (advance rcnt fp) v))"

text \<open>A call on an open file: the checks of every function that transfers data.\<close>

definition check_file :: "'d disk_ops \<Rightarrow> u8 \<Rightarrow> FIL \<Rightarrow> 'd ffs \<Rightarrow> FRESULT" where
  "check_file D need fp st =
     (let res = validate D (fl_fs fp) (fl_id fp) st in
      if res \<noteq> FR_OK then res
      else if fl_err fp \<noteq> FR_OK then fl_err fp
      else if need \<noteq> 0 \<and> fl_flag fp AND need = 0 then FR_DENIED else FR_OK)"

definition ff_read ::
  "'d disk_ops \<Rightarrow> u32 \<Rightarrow> FIL \<Rightarrow> 'd ffs \<Rightarrow> (FRESULT \<times> u8 list \<times> FIL \<times> 'd ffs) option" where
  "ff_read D btr fp st =
     (let res = check_file D FA_READ fp st; f = the (fl_fs fp) in
      if res \<noteq> FR_OK then Some (res, [], fp, st)
      else
        (let remain = fl_size fp - fptr fp; btr = (if btr > remain then remain else btr) in
         do { (res, bs, fp, v) \<leftarrow> read_loop D btr [] fp (volume_of st f);
              Some (res, bs, fp, put_volume f v st) }))"

section \<open>Writing\<close>

text \<open>The cluster of the position, which is allocated when the file ends before it.\<close>

definition write_cluster :: "'d disk_ops \<Rightarrow> FIL \<Rightarrow> 'd volume \<Rightarrow> (u32 \<times> 'd volume) option" where
  "write_cluster D fp v =
     (if fptr fp = 0 then
        (if sclust fp = 0 then create_chain D 0 v else Some (sclust fp, v))
      else create_chain D (clust fp) v)"

definition write_partial :: "u32 \<Rightarrow> u8 list \<Rightarrow> FIL \<Rightarrow> 'd volume \<Rightarrow> (io_step \<times> FIL \<times> 'd volume) option" where
  "write_partial btw wbuff fp v =
     (let wcnt = in_sector fp btw; i = unat (fptr fp mod 512)
      in Some (Moved wcnt [], fp\<lparr>buf := take i (buf fp) @ take (unat wcnt) wbuff @ drop (i + unat wcnt) (buf fp),
           fl_flag := fl_flag fp OR FA_DIRTY\<rparr>, v))"

text \<open>A direct write of the sector in the buffer refreshes the buffer.\<close>

definition refill :: "u32 \<Rightarrow> u32 \<Rightarrow> u8 list \<Rightarrow> FIL \<Rightarrow> FIL" where
  "refill sect cc wbuff fp =
     (if dsect fp - sect < cc
      then fp\<lparr>buf := take 512 (drop (512 * unat (dsect fp - sect)) wbuff), fl_flag := fl_flag fp AND NOT FA_DIRTY\<rparr>
      else fp)"

definition write_sectors_of ::
  "'d disk_ops \<Rightarrow> u32 \<Rightarrow> u8 list \<Rightarrow> FIL \<Rightarrow> 'd volume \<Rightarrow> (io_step \<times> FIL \<times> 'd volume) option" where
  "write_sectors_of D btw wbuff fp v =
     (let csect = sector_in_cluster fp v in
      do { (ok, fp, v) \<leftarrow> flush_buf D fp v;
           if \<not> ok then ABORT FR_DISK_ERR fp v
           else
             (let sect = clust2sect v (clust fp) in
              if sect = 0 then ABORT FR_INT_ERR fp v
              else
                (let sect = sect + ucast csect; cc = clip_sectors csect btw v in
                 if btw div 512 \<noteq> 0 then
                   do { (r, d) \<leftarrow> dk_write D (drv v) (take (512 * unat cc) wbuff) sect cc (dsk v);
                        if r \<noteq> RES_OK then ABORT FR_DISK_ERR fp (v\<lparr>dsk := d\<rparr>)
                        else Some (Moved (512 * cc) [], refill sect cc wbuff fp, v\<lparr>dsk := d\<rparr>) }
                 else if dsect fp \<noteq> sect \<and> fptr fp < fl_size fp then
                   do { (ok, fp, v) \<leftarrow> fill_buf D sect fp v;
                        if \<not> ok then ABORT FR_DISK_ERR fp v
                        else write_partial btw wbuff (fp\<lparr>dsect := sect\<rparr>) v }
                 else write_partial btw wbuff (fp\<lparr>dsect := sect\<rparr>) v)) })"

definition write_round ::
  "'d disk_ops \<Rightarrow> u32 \<Rightarrow> u8 list \<Rightarrow> FIL \<Rightarrow> 'd volume \<Rightarrow> (io_step \<times> FIL \<times> 'd volume) option" where
  "write_round D btw wbuff fp v =
     (if fptr fp mod 512 \<noteq> 0 then write_partial btw wbuff fp v
      else if sector_in_cluster fp v = 0 then
        do { (clst, v) \<leftarrow> write_cluster D fp v;
             if clst = 0 then Some (Full, fp, v)
             else if clst = 1 then ABORT FR_INT_ERR fp v
             else if clst = 0xFFFFFFFF then ABORT FR_DISK_ERR fp v
             else write_sectors_of D btw wbuff
               (fp\<lparr>clust := clst, sclust := (if sclust fp = 0 then clst else sclust fp)\<rparr>) v }
      else write_sectors_of D btw wbuff fp v)"

text \<open>The file grows with the position; the number of bytes written is the third component.\<close>

definition end_write :: "u32 \<Rightarrow> FIL \<Rightarrow> 'd volume \<Rightarrow> FRESULT \<times> u32 \<times> FIL \<times> 'd volume" where
  "end_write bw fp v =
     (FR_OK, bw, fp\<lparr>fl_size := (if fptr fp > fl_size fp then fptr fp else fl_size fp),
        fl_flag := fl_flag fp OR FA_WRITTEN\<rparr>, v)"

partial_function (option) write_loop ::
  "'d disk_ops \<Rightarrow> u32 \<Rightarrow> u32 \<Rightarrow> u8 list \<Rightarrow> FIL \<Rightarrow> 'd volume \<Rightarrow> (FRESULT \<times> u32 \<times> FIL \<times> 'd volume) option" where
  "write_loop D btw bw wbuff fp v =
     (if btw = 0 then Some (end_write bw fp v)
      else
        (case write_round D btw wbuff fp v of
           None \<Rightarrow> None
         | Some (Aborted res, fp, v) \<Rightarrow> Some (res, bw, fp, v)
         | Some (Full, fp, v) \<Rightarrow> Some (end_write bw fp v)
         | Some (Moved wcnt bs, fp, v) \<Rightarrow>
             write_loop D (btw - wcnt) (bw + wcnt) (drop (unat wcnt) wbuff) (advance wcnt fp) v))"

definition ff_write ::
  "'d disk_ops \<Rightarrow> u8 list \<Rightarrow> u32 \<Rightarrow> FIL \<Rightarrow> 'd ffs \<Rightarrow> (FRESULT \<times> u32 \<times> FIL \<times> 'd ffs) option" where
  "ff_write D wbuff btw fp st =
     (let res = check_file D FA_WRITE fp st; f = the (fl_fs fp) in
      if res \<noteq> FR_OK then Some (res, 0, fp, st)
      else
        (let btw = (if fptr fp + btw < fptr fp then 0 else btw) in
         do { (res, bw, fp, v) \<leftarrow> write_loop D btw 0 wbuff fp (volume_of st f);
              Some (res, bw, fp, put_volume f v st) }))"

section \<open>Flushing and closing\<close>

text \<open>The time of the build, as there is no clock.\<close>

definition GET_FATTIME :: u32 where
  "GET_FATTIME = push_bit 25 (2015 - 1980) OR push_bit 21 1 OR push_bit 16 1"

text \<open>The first cluster in a directory entry at offset \<open>i\<close> of a sector.\<close>

definition st_clust :: "nat \<Rightarrow> u32 \<Rightarrow> u8 list \<Rightarrow> u8 list" where
  "st_clust i cl bs = ST_WORD (i + 20) (ucast (drop_bit 16 cl)) (ST_WORD (i + 26) (ucast cl) bs)"

definition sync_entry :: "FIL \<Rightarrow> u8 list \<Rightarrow> u8 list" where
  "sync_entry fp bs =
     (let i = dir_ptr fp; bs = bs[i + 11 := bs ! (i + 11) OR 0x20]
      in ST_WORD (i + 18) 0 (ST_DWORD (i + 22) GET_FATTIME (st_clust i (sclust fp) (ST_DWORD (i + 28) (fl_size fp) bs))))"

definition sync_volume :: "'d disk_ops \<Rightarrow> FIL \<Rightarrow> 'd volume \<Rightarrow> (FRESULT \<times> FIL \<times> 'd volume) option" where
  "sync_volume D fp v =
     do { (ok, fp, v) \<leftarrow> flush_buf D fp v;
          if \<not> ok then Some (FR_DISK_ERR, fp, v)
          else
            do { (res, v) \<leftarrow> move_window D (dir_sect fp) v;
                 if res \<noteq> FR_OK then Some (res, fp, v)
                 else
                   do { (res, v) \<leftarrow> sync_fs D (set_win (sync_entry fp (win v)) v);
                        Some (res, fp\<lparr>fl_flag := fl_flag fp AND NOT FA_WRITTEN\<rparr>, v) } } }"

definition ff_sync :: "'d disk_ops \<Rightarrow> FIL \<Rightarrow> 'd ffs \<Rightarrow> (FRESULT \<times> FIL \<times> 'd ffs) option" where
  "ff_sync D fp st =
     (let res = validate D (fl_fs fp) (fl_id fp) st; f = the (fl_fs fp) in
      if res = FR_OK \<and> fl_flag fp AND FA_WRITTEN \<noteq> 0 then
        do { (res, fp, v) \<leftarrow> sync_volume D fp (volume_of st f);
             Some (res, fp, put_volume f v st) }
      else Some (res, fp, st))"

definition ff_close :: "'d disk_ops \<Rightarrow> FIL \<Rightarrow> 'd ffs \<Rightarrow> (FRESULT \<times> FIL \<times> 'd ffs) option" where
  "ff_close D fp st =
     do { (res, fp, st) \<leftarrow> ff_sync D fp st;
          if res = FR_OK then
            (let res = validate D (fl_fs fp) (fl_id fp) st in
             Some (res, if res = FR_OK then fp\<lparr>fl_fs := None\<rparr> else fp, st))
          else Some (res, fp, st) }"

section \<open>Seeking\<close>

datatype seek_end = Seek_aborts FRESULT | Seek_at u32 u32

text \<open>Follow the chain to the cluster of the offset; in write mode it is stretched, up to a full disk.\<close>

partial_function (option) seek_loop ::
  "'d disk_ops \<Rightarrow> u32 \<Rightarrow> u32 \<Rightarrow> u32 \<Rightarrow> FIL \<Rightarrow> 'd volume \<Rightarrow> (seek_end \<times> FIL \<times> 'd volume) option" where
  "seek_loop D bcs ofs clst fp v =
     (if ofs > bcs then
        (case (if fl_flag fp AND FA_WRITE \<noteq> 0 then create_chain D clst v else get_fat D clst v) of
           None \<Rightarrow> None
         | Some (clst, v) \<Rightarrow>
             if fl_flag fp AND FA_WRITE \<noteq> 0 \<and> clst = 0 then Some (Seek_at bcs clst, fp, v)
             else if clst = 0xFFFFFFFF then Some (Seek_aborts FR_DISK_ERR, fp, v)
             else if clst \<le> 1 \<or> clst \<ge> n_fatent v then Some (Seek_aborts FR_INT_ERR, fp, v)
             else seek_loop D bcs (ofs - bcs) clst (fp\<lparr>clust := clst, fptr := fptr fp + bcs\<rparr>) v)
      else Some (Seek_at ofs clst, fp, v))"

text \<open>Where the walk starts: at the current cluster if the offset does not lie before it, otherwise at the first
  one, which is allocated if there is none.\<close>

definition seek_start ::
  "'d disk_ops \<Rightarrow> u32 \<Rightarrow> u32 \<Rightarrow> FIL \<Rightarrow> 'd volume \<Rightarrow> (seek_end \<times> FIL \<times> 'd volume) option" where
  "seek_start D bcs ofs fp v =
     (let ifptr = fptr fp; fp = fp\<lparr>fptr := 0\<rparr> in
      if ifptr > 0 \<and> (ofs - 1) div bcs \<ge> (ifptr - 1) div bcs then
        (let p = (ifptr - 1) AND NOT (bcs - 1) in Some (Seek_at (ofs - p) (clust fp), fp\<lparr>fptr := p\<rparr>, v))
      else if sclust fp = 0 then
        do { (clst, v) \<leftarrow> create_chain D 0 v;
             Some (if clst = 1 then (Seek_aborts FR_INT_ERR, fp, v)
                   else if clst = 0xFFFFFFFF then (Seek_aborts FR_DISK_ERR, fp, v)
                   else (Seek_at ofs clst, fp\<lparr>sclust := clst, clust := clst\<rparr>, v)) }
      else Some (Seek_at ofs (sclust fp), fp\<lparr>clust := sclust fp\<rparr>, v))"

text \<open>The position and its sector; sector 0 when the position is at the start of one.\<close>

definition seek_walk ::
  "'d disk_ops \<Rightarrow> u32 \<Rightarrow> FIL \<Rightarrow> 'd volume \<Rightarrow> (seek_end \<times> FIL \<times> 'd volume) option" where
  "seek_walk D ofs fp v =
     (let bcs = ucast (csize v) * 512 in
      do { (s, fp, v) \<leftarrow> seek_start D bcs ofs fp v;
           case s of
             Seek_aborts res \<Rightarrow> Some (s, fp, v)
           | Seek_at ofs clst \<Rightarrow>
               if clst = 0 then Some (Seek_at 0 0, fp, v)
               else
                 do { (s, fp, v) \<leftarrow> seek_loop D bcs ofs clst fp v;
                      case s of
                        Seek_aborts res \<Rightarrow> Some (s, fp, v)
                      | Seek_at ofs clst \<Rightarrow>
                          (let fp = fp\<lparr>fptr := fptr fp + ofs\<rparr> in
                           if ofs mod 512 \<noteq> 0 then
                             (let nsect = clust2sect v clst in
                              Some (if nsect = 0 then Seek_aborts FR_INT_ERR else Seek_at (nsect + ofs div 512) clst, fp, v))
                           else Some (Seek_at 0 clst, fp, v)) } })"

definition seek_volume :: "'d disk_ops \<Rightarrow> u32 \<Rightarrow> FIL \<Rightarrow> 'd volume \<Rightarrow> (FRESULT \<times> FIL \<times> 'd volume) option" where
  "seek_volume D ofs fp v =
     (let ofs = (if ofs > fl_size fp \<and> fl_flag fp AND FA_WRITE = 0 then fl_size fp else ofs) in
      do { (s, fp, v) \<leftarrow> (if ofs \<noteq> 0 then seek_walk D ofs fp v else Some (Seek_at 0 0, fp\<lparr>fptr := 0\<rparr>, v));
           case s of
             Seek_aborts res \<Rightarrow> Some (res, fp\<lparr>fl_err := res\<rparr>, v)
           | Seek_at nsect _ \<Rightarrow>
               do { (ok, fp, v) \<leftarrow>
                      (if fptr fp mod 512 \<noteq> 0 \<and> nsect \<noteq> dsect fp then
                         do { (ok, fp, v) \<leftarrow> flush_buf D fp v;
                              if \<not> ok then Some (False, fp, v)
                              else
                                do { (ok, fp, v) \<leftarrow> fill_buf D nsect fp v;
                                     Some (ok, if ok then fp\<lparr>dsect := nsect\<rparr> else fp, v) } }
                       else Some (True, fp, v));
                    Some (if \<not> ok then (FR_DISK_ERR, fp\<lparr>fl_err := FR_DISK_ERR\<rparr>, v)
                          else if fptr fp > fl_size fp
                          then (FR_OK, fp\<lparr>fl_size := fptr fp, fl_flag := fl_flag fp OR FA_WRITTEN\<rparr>, v)
                          else (FR_OK, fp, v)) } })"

definition ff_lseek :: "'d disk_ops \<Rightarrow> u32 \<Rightarrow> FIL \<Rightarrow> 'd ffs \<Rightarrow> (FRESULT \<times> FIL \<times> 'd ffs) option" where
  "ff_lseek D ofs fp st =
     (let res = check_file D 0 fp st; f = the (fl_fs fp) in
      if res \<noteq> FR_OK then Some (res, fp, st)
      else
        do { (res, fp, v) \<leftarrow> seek_volume D ofs fp (volume_of st f);
             Some (res, fp, put_volume f v st) })"

section \<open>Truncating\<close>

definition truncate_chain :: "'d disk_ops \<Rightarrow> FIL \<Rightarrow> 'd volume \<Rightarrow> (FRESULT \<times> FIL \<times> 'd volume) option" where
  "truncate_chain D fp v =
     (if fptr fp = 0 then
        do { (res, v) \<leftarrow> remove_chain D (sclust fp) v; Some (res, fp\<lparr>sclust := 0\<rparr>, v) }
      else
        do { (ncl, v) \<leftarrow> get_fat D (clust fp) v;
             (let res = (if ncl = 1 then FR_INT_ERR else if ncl = 0xFFFFFFFF then FR_DISK_ERR else FR_OK) in
              if res = FR_OK \<and> ncl < n_fatent v then
                do { (res, v) \<leftarrow> put_fat D (clust fp) 0x0FFFFFFF v;
                     (res, v) \<leftarrow> (if res = FR_OK then remove_chain D ncl v else Some (res, v));
                     Some (res, fp, v) }
              else Some (res, fp, v)) })"

definition truncate_volume :: "'d disk_ops \<Rightarrow> FIL \<Rightarrow> 'd volume \<Rightarrow> (FRESULT \<times> FIL \<times> 'd volume) option" where
  "truncate_volume D fp v =
     (if fl_size fp > fptr fp then
        do { (res, fp, v) \<leftarrow> truncate_chain D (fp\<lparr>fl_size := fptr fp, fl_flag := fl_flag fp OR FA_WRITTEN\<rparr>) v;
             (res, fp, v) \<leftarrow>
               (if res = FR_OK then
                  map_option (\<lambda>(ok, fp, v). (if ok then FR_OK else FR_DISK_ERR, fp, v)) (flush_buf D fp v)
                else Some (res, fp, v));
             Some (res, if res \<noteq> FR_OK then fp\<lparr>fl_err := res\<rparr> else fp, v) }
      else Some (FR_OK, fp, v))"

definition ff_truncate :: "'d disk_ops \<Rightarrow> FIL \<Rightarrow> 'd ffs \<Rightarrow> (FRESULT \<times> FIL \<times> 'd ffs) option" where
  "ff_truncate D fp st =
     (let res = check_file D FA_WRITE fp st; f = the (fl_fs fp) in
      if res \<noteq> FR_OK then Some (res, fp, st)
      else
        do { (res, fp, v) \<leftarrow> truncate_volume D fp (volume_of st f);
             Some (res, fp, put_volume f v st) })"

section \<open>The contents of a file\<close>

text \<open>Clusters have a power of two sectors and lie on the disk.\<close>

definition data_room :: "nat \<Rightarrow> 'd volume \<Rightarrow> bool" where
  "data_room N v \<longleftrightarrow> (\<exists>k<8. csize v = 2 ^ k) \<and> 0 < unat (database v) \<and> N < 2 ^ 32 \<and>
     unat (database v) + unat (csize v) * (unat (n_fatent v) - 2) \<le> N"

text \<open>The sector number of the \<open>k\<close>th sector of a file with clusters \<open>cs\<close>, and the bytes of the file.\<close>

definition sector_no :: "'d volume \<Rightarrow> u32 list \<Rightarrow> nat \<Rightarrow> u32" where
  "sector_no v cs k = clust2sect v (cs ! (k div unat (csize v))) + of_nat (k mod unat (csize v))"

definition byte_at :: "(u32 \<Rightarrow> u8 list) \<Rightarrow> 'd volume \<Rightarrow> u32 list \<Rightarrow> nat \<Rightarrow> u8" where
  "byte_at S v cs i = S (sector_no v cs (i div 512)) ! (i mod 512)"

definition file_bytes :: "(u32 \<Rightarrow> u8 list) \<Rightarrow> 'd volume \<Rightarrow> u32 list \<Rightarrow> FIL \<Rightarrow> u8 list" where
  "file_bytes S v cs fp = map (byte_at S v cs) [0..<unat (fl_size fp)]"

lemma data_room_geo: "geo v' = geo v \<Longrightarrow> data_room N v' = data_room N v"
  by (simp add: data_room_def geo_fields [of v' v])

lemma bytes_geo:
  assumes "geo v' = geo v"
  shows "sector_no v' = sector_no v" "byte_at S v' = byte_at S v" "file_bytes S v' = file_bytes S v"
proof -
  show s: "sector_no v' = sector_no v"
    by (intro ext) (simp add: sector_no_def clust2sect_def geo_fields [OF assms] cong: if_cong)
  then show b: "byte_at S v' = byte_at S v" by (intro ext) (simp add: byte_at_def)
  then show "file_bytes S v' = file_bytes S v" by (intro ext) (simp add: file_bytes_def)
qed

lemma unat_power8:
  assumes "k < 8"
  shows "unat (2 ^ k :: u8) = 2 ^ k \<and> unat (2 ^ k :: u32) = 2 ^ k"
proof -
  from assms consider "k = 0" | "k = 1" | "k = 2" | "k = 3" | "k = 4" | "k = 5" | "k = 6" | "k = 7" by linarith
  then show ?thesis by cases simp_all
qed

lemma unat_ucast_8_32 [simp]: "unat (ucast (b :: u8) :: u32) = unat b"
  using unat_u8_less [of b] by (simp add: unsigned_ucast_eq take_bit_eq_mod del: unat_u8_less)

lemma csize_pos: "data_room N v \<Longrightarrow> 0 < unat (csize v) \<and> unat (csize v) \<le> 128"
proof -
  assume "data_room N v"
  then obtain k where k: "k < 8" "csize v = 2 ^ k" by (auto simp: data_room_def)
  then have "unat (csize v) = 2 ^ k" by (simp add: unat_power8)
  moreover have "(2 :: nat) ^ k \<le> 2 ^ 7" using k(1) by (intro power_increasing) auto
  ultimately show ?thesis by simp
qed

lemma unat_sector_in_cluster:
  assumes "data_room N v"
  shows "unat (sector_in_cluster fp v) = unat (fptr fp) div 512 mod unat (csize v)"
proof -
  obtain k where k: "k < 8" "csize v = 2 ^ k" using assms by (auto simp: data_room_def)
  have z: "unat (csize v) = 2 ^ k" using k by (simp add: unat_power8)
  have "(ucast (csize v) :: u32) = 2 ^ k"
    using z unat_power8 [OF k(1)] by (simp add: word_unat_eq_iff)
  then have "fptr fp div 512 AND (ucast (csize v) - 1) = take_bit k (fptr fp div 512)"
    by (simp add: take_bit_eq_mask mask_eq_exp_minus_1)
  then have "unat (fptr fp div 512 AND (ucast (csize v) - 1)) = unat (fptr fp) div 512 mod 2 ^ k"
    by (simp add: take_bit_eq_mod unat_mod unat_div unat_power8 [OF k(1)])
  moreover have "unat (fptr fp) div 512 mod 2 ^ k < 256"
    using csize_pos [OF assms] z mod_less_divisor [of "2 ^ k" "unat (fptr fp) div 512"] by linarith
  ultimately show ?thesis
    unfolding sector_in_cluster_def z by (simp add: unsigned_ucast_eq take_bit_nat_eq_self)
qed

lemma unat_clust2sect:
  assumes "data_room N v" "2 \<le> c" "c < n_fatent v"
  shows "unat (clust2sect v c) = unat (database v) + unat (csize v) * (unat c - 2)"
    "unat (clust2sect v c) + unat (csize v) \<le> N"
proof -
  have c: "2 \<le> unat c" "unat c < unat (n_fatent v)" using assms(2,3) by (auto simp: word_le_nat_alt word_less_nat_alt)
  have u: "unat (c - 2) = unat c - 2" "unat (n_fatent v - 2) = unat (n_fatent v) - 2" using c by (simp_all add: unat_sub_if')
  have l: "\<not> c - 2 \<ge> n_fatent v - 2" using c u by (simp add: word_le_nat_alt)
  have b: "unat (csize v) * (unat c - 2) + unat (csize v) \<le> unat (csize v) * (unat (n_fatent v) - 2)"
  proof -
    have "unat c - 2 + 1 \<le> unat (n_fatent v) - 2" using c by linarith
    then have "unat (csize v) * (unat c - 2 + 1) \<le> unat (csize v) * (unat (n_fatent v) - 2)" by (rule mult_le_mono2)
    then show ?thesis by (simp only: distrib_left mult_1_right)
  qed
  have N: "unat (database v) + unat (csize v) * (unat (n_fatent v) - 2) < 4294967296" "N < 4294967296"
    "unat (database v) + unat (csize v) * (unat (n_fatent v) - 2) \<le> N"
    using assms(1) by (auto simp: data_room_def)
  have cz: "unat (ucast (csize v) :: u32) = unat (csize v)" by simp
  have m: "unat ((c - 2) * ucast (csize v)) = unat (csize v) * (unat c - 2)"
    using unat_mult_lem [of "c - 2" "ucast (csize v) :: u32"] u cz b N(1) by (simp add: mult.commute)
  show s: "unat (clust2sect v c) = unat (database v) + unat (csize v) * (unat c - 2)"
    using l m b N(1) unat_plus_if' [of "(c - 2) * ucast (csize v)" "database v"] by (simp add: clust2sect_def)
  with b N(3) show "unat (clust2sect v c) + unat (csize v) \<le> N" by linarith
qed

lemma fat_chain_nth:
  "fat_chain F n c cs \<Longrightarrow> i < length cs \<Longrightarrow> (cs ! 0 = c) \<and> (Suc i < length cs \<longrightarrow> F (cs ! i) = cs ! Suc i)"
proof (induction cs arbitrary: c i)
  case (Cons x xs)
  then show ?case by (cases i; cases xs) auto
qed simp
text \<open>Bytes within a sector, and the sectors of a cluster one after the other.\<close>

lemma div_between: "q * m \<le> x \<Longrightarrow> x < (q + 1) * m \<Longrightarrow> x div m = (q :: nat)"
  by (rule div_nat_eqI) (simp_all add: mult.commute add.commute)

lemma div_mod_add:
  assumes "k mod m + i < (m :: nat)"
  shows "(k + i) div m = k div m" "(k + i) mod m = k mod m + i"
proof -
  have "m * (k div m) + k mod m = k" by simp
  then have e: "k + i = (k mod m + i) + m * (k div m)" by linarith
  have "((k mod m + i) + m * q) div m = q" "((k mod m + i) + m * q) mod m = k mod m + i" for q
    using assms by simp_all
  from this [of "k div m"] show "(k + i) div m = k div m" "(k + i) mod m = k mod m + i" by (simp_all only: e [symmetric])
qed

lemma bytes_in_sector:
  assumes "length (S (sector_no v cs (pos div 512))) = 512" "pos mod 512 + r \<le> 512"
  shows "take r (drop (pos mod 512) (S (sector_no v cs (pos div 512)))) = map (byte_at S v cs) [pos..<pos + r]"
proof (rule nth_equalityI)
  show "length (take r (drop (pos mod 512) (S (sector_no v cs (pos div 512))))) = length (map (byte_at S v cs) [pos..<pos + r])"
    using assms by simp
  fix i assume "i < length (take r (drop (pos mod 512) (S (sector_no v cs (pos div 512)))))"
  then have i: "i < r" "pos mod 512 + i < 512" using assms by auto
  with div_mod_add [of pos 512 i] assms show "take r (drop (pos mod 512) (S (sector_no v cs (pos div 512)))) ! i = map (byte_at S v cs) [pos..<pos + r] ! i"
    by (simp add: byte_at_def)
qed

lemma sector_no_next:
  assumes "k mod unat (csize v) + i < unat (csize v)"
  shows "sector_no v cs (k + i) = sector_no v cs k + of_nat i"
  using div_mod_add [OF assms] by (simp add: sector_no_def add.assoc)

lemma bytes_of_sectors:
  assumes "\<And>s. length (S s) = 512" "k mod unat (csize v) + c \<le> unat (csize v)"
  shows "concat (map (\<lambda>i. S (sector_no v cs k + of_nat i)) [0..<c]) = map (byte_at S v cs) [512 * k..<512 * (k + c)]"
  using assms(2)
proof (induction c)
  case (Suc c)
  have e: "sector_no v cs (k + c) = sector_no v cs k + of_nat c" by (rule sector_no_next) (use Suc.prems in simp)
  have "S (sector_no v cs (k + c)) = map (byte_at S v cs) [512 * (k + c)..<512 * (k + c) + 512]"
    using bytes_in_sector [of S v cs "512 * (k + c)" 512] assms(1) by simp
  moreover have "[512 * k..<512 * (k + Suc c)] = [512 * k..<512 * (k + c)] @ [512 * (k + c)..<512 * (k + c) + 512]"
    using upt_add_eq_append [of "512 * k" "512 * (k + c)" 512] by (simp add: algebra_simps)
  ultimately show ?case using Suc e by simp
qed simp

section \<open>Reading delivers the bytes of the file\<close>

text \<open>The file object agrees with its position: the current cluster is the one of the byte before it, and the
  sector buffer holds the sector it names, that of the position inside a sector.\<close>

definition placed :: "(u32 \<Rightarrow> u8 list) \<Rightarrow> 'd volume \<Rightarrow> u32 list \<Rightarrow> FIL \<Rightarrow> bool" where
  "placed S v cs fp \<longleftrightarrow> fl_flag fp AND FA_DIRTY = 0 \<and>
     (fptr fp \<noteq> 0 \<longrightarrow> clust fp = cs ! ((unat (fptr fp) - 1) div (512 * unat (csize v)))) \<and>
     (dsect fp = 0 \<or> buf fp = S (dsect fp)) \<and>
     (unat (fptr fp) mod 512 \<noteq> 0 \<longrightarrow> dsect fp = sector_no v cs (unat (fptr fp) div 512))"

definition same_file :: "FIL \<Rightarrow> FIL \<Rightarrow> bool" where
  "same_file fp fp' \<longleftrightarrow> fl_fs fp' = fl_fs fp \<and> fl_id fp' = fl_id fp \<and> fl_flag fp' = fl_flag fp \<and> fl_err fp' = fl_err fp \<and>
     fl_size fp' = fl_size fp \<and> sclust fp' = sclust fp"

locale extent_reader = sector_reader +
  assumes read_extent: "ready d \<Longrightarrow> 0 < n \<Longrightarrow> unat s + unat n \<le> N \<Longrightarrow>
    \<exists>d'. dk_read D p s n d = Some (RES_OK, concat (map (\<lambda>i. sect d (s + of_nat i)) [0..<unat n]), d') \<and>
      ready d' \<and> sect d' = sect d"
begin

lemma clean_disk:
  assumes "clean_volume p N sect ready v" "ready d" "sect d = sect (dsk v)"
  shows "clean_volume p N sect ready (v\<lparr>dsk := d\<rparr>)"
proof -
  have "geo (v\<lparr>dsk := d\<rparr>) = geo v" by simp
  then have "fat_layout N (v\<lparr>dsk := d\<rparr>) = fat_layout N v" by (rule layout_geo)
  with assms show ?thesis by (simp add: clean_volume_def)
qed

text \<open>The sector of a position inside the chain lies on the disk and is not sector 0.\<close>

lemma sector_on_disk:
  assumes "clean_volume p N sect ready v" "data_room N v" "fat_chain F (n_fatent v) c cs"
    and "k < length cs * unat (csize v)"
  shows "unat (sector_no v cs k) = unat (clust2sect v (cs ! (k div unat (csize v)))) + k mod unat (csize v)"
    "unat (sector_no v cs k) + (unat (csize v) - k mod unat (csize v)) \<le> N" "sector_no v cs k \<noteq> 0"
    "clust2sect v (cs ! (k div unat (csize v))) \<noteq> 0"
proof -
  let ?z = "unat (csize v)" and ?c = "cs ! (k div unat (csize v))"
  have z: "0 < ?z" "?z \<le> 128" using csize_pos [OF assms(2)] by auto
  have "k div ?z < length cs" using assms(4) z by (simp add: less_mult_imp_div_less)
  then have c: "2 \<le> ?c" "?c < n_fatent v" using fat_chain_range [OF assms(3)] by auto
  note u = unat_clust2sect [OF assms(2) c]
  have d: "0 < unat (database v)" "N < 4294967296" using assms(2) by (auto simp: data_room_def)
  have m: "k mod ?z < ?z" using z by simp
  have "k mod ?z < 4294967296" using m z(2) by linarith
  then have "unat (of_nat (k mod ?z) :: u32) = k mod ?z" by (simp only: unat_of_nat mod_less len_of_numeral_defs) (simp add: unat_of_nat)
  then show s: "unat (sector_no v cs k) = unat (clust2sect v ?c) + k mod ?z"
    using u(2) m d(2) unat_plus_if' [of "clust2sect v ?c" "of_nat (k mod ?z)"] by (simp add: sector_no_def)
  with u(2) m show "unat (sector_no v cs k) + (?z - k mod ?z) \<le> N" by linarith
  from s u(1) d(1) have "0 < unat (sector_no v cs k)" "0 < unat (clust2sect v ?c)" by linarith+
  then show "sector_no v cs k \<noteq> 0" "clust2sect v ?c \<noteq> 0" by auto
qed

end
lemma unat_clip_sectors:
  assumes "unat csect < unat (csize v)"
  shows "unat (clip_sectors csect n v) = min (unat n div 512) (unat (csize v) - unat csect)"
proof -
  have n: "unat n < 4294967296" by simp
  have d: "unat (n div 512) = unat n div 512" by (simp add: unat_div)
  have l: "unat (ucast csect :: u32) + unat (n div 512) < 4294967296"
    unfolding d unat_ucast_8_32 using n unat_u8_less [of csect] by linarith
  then have s: "unat (ucast csect + n div 512 :: u32) = unat csect + unat n div 512"
    using d unat_plus_if' [of "ucast csect :: u32" "n div 512"] by simp
  have m: "unat (ucast (csize v) - ucast csect :: u32) = unat (csize v) - unat csect"
    using assms by (simp add: unat_sub_if')
  show ?thesis
    unfolding clip_sectors_def Let_def using s m d by (auto simp: word_less_nat_alt min_def)
qed

lemma unat_in_sector:
  assumes "n \<noteq> 0"
  shows "unat (in_sector fp n) = min (unat n) (512 - unat (fptr fp) mod 512)" "0 < unat (in_sector fp n)"
proof -
  have m: "unat (fptr fp mod 512) = unat (fptr fp) mod 512" by (simp add: unat_mod)
  have l: "unat (fptr fp) mod 512 < 512" by simp
  have "unat (512 - fptr fp mod 512) = 512 - unat (fptr fp) mod 512"
    using m l by (simp add: unat_sub_if')
  then show u: "unat (in_sector fp n) = min (unat n) (512 - unat (fptr fp) mod 512)"
    by (auto simp: in_sector_def Let_def word_less_nat_alt min_def)
  have "0 < unat n" using assms by (simp add: unat_gt_0)
  with l u show "0 < unat (in_sector fp n)" by simp
qed

context extent_reader
begin

text \<open>What a round of a read promises.\<close>

definition round_ok :: "u32 list \<Rightarrow> u32 \<Rightarrow> FIL \<Rightarrow> 'a volume \<Rightarrow> (io_step \<times> FIL \<times> 'a volume) option \<Rightarrow> bool" where
  "round_ok cs btr fp v r \<longleftrightarrow> (\<exists>rcnt fp' v'. r = Some (Moved rcnt
       (map (byte_at (sect (dsk v)) v cs) [unat (fptr fp)..<unat (fptr fp) + unat rcnt]), fp', v') \<and>
     0 < unat rcnt \<and> unat rcnt \<le> unat btr \<and> fptr fp' = fptr fp \<and> same_file fp fp' \<and>
     clean_volume p N sect ready v' \<and> sect (dsk v') = sect (dsk v) \<and> meta v' = meta v \<and>
     placed (sect (dsk v)) v cs (advance rcnt fp'))"

lemma advance_fptr:
  assumes "unat (fptr fp) + unat n < 2 ^ 32"
  shows "unat (fptr (advance n fp)) = unat (fptr fp) + unat n"
  using assms unat_plus_if' [of "fptr fp" n] by (simp add: advance_def)

lemma read_partial_ok:
  assumes "clean_volume p N sect ready v" "data_room N v" "btr \<noteq> 0" "unat (fptr fp) + unat btr < 2 ^ 32"
    and "fl_flag fp AND FA_DIRTY = 0" "dsect fp = sector_no v cs (unat (fptr fp) div 512)" "buf fp = sect (dsk v) (dsect fp)"
    and "clust fp = cs ! (unat (fptr fp) div 512 div unat (csize v))"
  shows "round_ok cs btr fp v (read_partial btr fp v)"
proof -
  let ?S = "sect (dsk v)" and ?pos = "unat (fptr fp)" and ?r = "in_sector fp btr"
  have r: "0 < unat ?r" "unat ?r \<le> unat btr" "?pos mod 512 + unat ?r \<le> 512"
    using unat_in_sector [OF assms(3), of fp] by auto
  have l: "length (?S s) = 512" for s using assms(1) by (intro sect_length) (simp add: clean_volume_def)
  have m: "unat (fptr fp mod 512) = ?pos mod 512" by (simp add: unat_mod)
  have b: "take (unat ?r) (drop (unat (fptr fp mod 512)) (buf fp)) = map (byte_at ?S v cs) [?pos..<?pos + unat ?r]"
    unfolding m assms(7,6) by (rule bytes_in_sector [where S = ?S, OF l r(3)])
  have f: "unat (fptr (advance ?r fp)) = ?pos + unat ?r" using assms(4) r(2) by (intro advance_fptr) simp
  have q: "(?pos + unat ?r - 1) div 512 = ?pos div 512"
    using div_mod_add(1) [of ?pos 512 "unat ?r - 1"] r by simp
  have "placed ?S v cs (advance ?r fp)"
    unfolding placed_def f
  proof (intro conjI impI)
    show "fl_flag (advance ?r fp) AND FA_DIRTY = 0" using assms(5) by (simp add: advance_def)
    show "clust (advance ?r fp) = cs ! ((?pos + unat ?r - 1) div (512 * unat (csize v)))"
      using assms(8) q by (simp add: advance_def div_mult2_eq)
    show "dsect (advance ?r fp) = 0 \<or> buf (advance ?r fp) = ?S (dsect (advance ?r fp))"
      using assms(7) by (simp add: advance_def)
    assume n: "(?pos + unat ?r) mod 512 \<noteq> 0"
    have "?pos mod 512 + unat ?r \<noteq> 512"
    proof
      assume "?pos mod 512 + unat ?r = 512"
      then have "?pos + unat ?r = 512 * (?pos div 512) + 512" using mult_div_mod_eq [of 512 ?pos] by linarith
      with n show False by simp
    qed
    then have "(?pos + unat ?r) div 512 = ?pos div 512" using div_mod_add(1) [of ?pos 512 "unat ?r"] r(3) by simp
    then show "dsect (advance ?r fp) = sector_no v cs ((?pos + unat ?r) div 512)" using assms(6) by (simp add: advance_def)
  qed
  with b r assms(1) show ?thesis by (auto simp: round_ok_def read_partial_def same_file_def Let_def)
qed

end
context extent_reader
begin

lemma round_ok_cong:
  assumes "round_ok cs btr fp1 v1 r" "fptr fp1 = fptr fp" "same_file fp fp1" "sect (dsk v1) = sect (dsk v)" "meta v1 = meta v"
  shows "round_ok cs btr fp v r"
proof -
  note b = bytes_geo [OF geo_meta [OF assms(5)]]
  have c: "csize v1 = csize v" using meta_fields(3) [OF assms(5)] .
  show ?thesis using assms unfolding round_ok_def placed_def b c same_file_def by simp
qed

lemma read_sectors_of_ok:
  assumes v: "clean_volume p N sect ready v" "data_room N v" and ch: "fat_chain F (n_fatent v) c cs"
    and fp: "fl_flag fp AND FA_DIRTY = 0" "dsect fp = 0 \<or> buf fp = sect (dsk v) (dsect fp)"
    and pos: "unat (fptr fp) mod 512 = 0" "clust fp = cs ! (unat (fptr fp) div 512 div unat (csize v))"
    and btr: "btr \<noteq> 0" "unat (fptr fp) + unat btr < 2 ^ 32" "unat (fptr fp) + unat btr \<le> length cs * unat (csize v) * 512"
  shows "round_ok cs btr fp v (read_sectors_of D btr fp v)"
proof -
  let ?S = "sect (dsk v)" and ?pos = "unat (fptr fp)" and ?z = "unat (csize v)"
  define k where "k = ?pos div 512"
  have p512: "?pos = 512 * k" using pos(1) by (auto simp: k_def)
  have b0: "0 < unat btr" using btr(1) by (simp add: unat_gt_0)
  have z: "0 < ?z" using csize_pos [OF v(2)] by simp
  have kl: "k < length cs * ?z" using btr(3) b0 p512 by linarith
  note sd = sector_on_disk [OF v ch kl]
  have cs': "unat (sector_in_cluster fp v) = k mod ?z" unfolding k_def by (rule unat_sector_in_cluster [OF v(2)])
  have cl: "k mod ?z < ?z" using z by simp
  have "unat (ucast (sector_in_cluster fp v) :: u32) = k mod ?z" using cs' by simp
  then have uc: "ucast (sector_in_cluster fp v) = (of_nat (k mod ?z) :: u32)" by (metis of_nat_unat ucast_id)
  have sn: "clust2sect v (clust fp) + ucast (sector_in_cluster fp v) = sector_no v cs k"
    using pos(2) uc by (simp add: sector_no_def k_def)
  have c0: "clust2sect v (clust fp) \<noteq> 0" using sd(4) pos(2) by (simp add: k_def)
  have cv: "ready (dsk v)" "drv v = p" using v(1) by (auto simp: clean_volume_def)
  let ?cc = "clip_sectors (sector_in_cluster fp v) btr v"
  have cc: "unat ?cc = min (unat btr div 512) (?z - k mod ?z)"
    using unat_clip_sectors [of "sector_in_cluster fp v" v btr] cs' cl by simp
  show ?thesis
  proof (cases "btr div 512 = 0")
    case False
    then have "0 < unat (btr div 512)" by (simp add: unat_gt_0)
    then have c1: "0 < unat ?cc" "unat ?cc \<le> ?z - k mod ?z" "512 * unat ?cc \<le> unat btr"
      using cc cl by (auto simp: unat_div)
    then have "0 < ?cc" by (simp add: word_less_nat_alt)
    moreover have "unat (sector_no v cs k) + unat ?cc \<le> N" using sd(2) c1(2) by linarith
    ultimately obtain d where d: "dk_read D p (sector_no v cs k) ?cc (dsk v) =
        Some (RES_OK, concat (map (\<lambda>i. ?S (sector_no v cs k + of_nat i)) [0..<unat ?cc]), d)" "ready d" "sect d = ?S"
      using read_extent [OF cv(1)] by blast
    have l: "length (?S s) = 512" for s by (rule sect_length [OF cv(1)])
    have u: "unat (512 * ?cc) = 512 * unat ?cc"
      using c1(3) unat_mult_lem [of "512 :: u32" ?cc] unat_u32_less [of btr] by (simp del: unat_u32_less)
    have bytes: "concat (map (\<lambda>i. ?S (sector_no v cs k + of_nat i)) [0..<unat ?cc]) =
        map (byte_at ?S v cs) [?pos..<?pos + unat (512 * ?cc)]"
      using bytes_of_sectors [where S = ?S and v = v and cs = cs and k = k and c = "unat ?cc", OF l] c1(2) cl
      by (simp only: p512 u distrib_left)
    have f: "unat (fptr (advance (512 * ?cc) fp)) = 512 * (k + unat ?cc)"
      using btr(2) c1(3) u p512 by (subst advance_fptr) simp_all
    have q: "(512 * (k + unat ?cc) - 1) div (512 * ?z) = k div ?z"
    proof -
      have "(512 * (k + unat ?cc) - 1) div 512 = k + (unat ?cc - 1)" using c1(1) by (simp add: div_nat_eqI)
      then show ?thesis using div_mod_add(1) [of k ?z "unat ?cc - 1"] c1 cl by (simp add: div_mult2_eq)
    qed
    have pl: "placed ?S v cs (advance (512 * ?cc) fp)"
      unfolding placed_def f q using fp pos(2) by (simp add: advance_def k_def)
    have "read_sectors_of D btr fp v = Some (Moved (512 * ?cc) (map (byte_at ?S v cs) [?pos..<?pos + unat (512 * ?cc)]), fp, v\<lparr>dsk := d\<rparr>)"
      using c0 False d(1) cv(2) fp(1) bytes by (simp add: read_sectors_of_def Let_def sn overlay_def)
    moreover have "clean_volume p N sect ready (v\<lparr>dsk := d\<rparr>)" by (rule clean_disk [OF v(1) d(2,3)])
    ultimately show ?thesis using c1 u d(3) pl by (auto simp: round_ok_def same_file_def)
  next
    case True
    have pk: "sector_no v cs (?pos div 512) = sector_no v cs k" by (simp add: k_def)
    show ?thesis
    proof (cases "dsect fp = sector_no v cs k")
      case hit: True
      have "read_sectors_of D btr fp v = read_partial btr (fp\<lparr>dsect := dsect fp\<rparr>) v"
        using c0 True hit by (simp add: read_sectors_of_def Let_def sn)
      also have "fp\<lparr>dsect := dsect fp\<rparr> = fp" by simp
      finally show ?thesis
        using read_partial_ok [OF v btr(1,2) fp(1), of cs] hit pk fp(2) sd(3) pos(2) by simp
    next
      case miss: False
      have "unat (sector_no v cs k) < N" using sd(2) cl by linarith
      then obtain d where d: "dk_read D p (sector_no v cs k) 1 (dsk v) = Some (RES_OK, ?S (sector_no v cs k), d)" "ready d"
        "sect d = ?S" using read_sector [OF cv(1)] by blast
      let ?fp = "fp\<lparr>buf := ?S (sector_no v cs k), dsect := sector_no v cs k\<rparr>" and ?v = "v\<lparr>dsk := d\<rparr>"
      have e: "read_sectors_of D btr fp v = read_partial btr ?fp ?v"
        using c0 True miss d(1) cv(2) fp(1) by (simp add: read_sectors_of_def Let_def sn flush_buf_def fill_buf_def)
      have g: "geo ?v = geo v" by simp
      note b = bytes_geo [OF g]
      have cvd: "clean_volume p N sect ready ?v" by (rule clean_disk [OF v(1) d(2,3)])
      have "round_ok cs btr ?fp ?v (read_partial btr ?fp ?v)"
        using btr(2) fp(1) pk pos(2) data_room_geo [OF g, of N] v(2)
        by (intro read_partial_ok [OF cvd _ btr(1)]) (simp_all add: b d(3))
      then show ?thesis
        unfolding e by (rule round_ok_cong) (simp_all add: same_file_def d(3))
    qed
  qed
qed

end
lemma div_pred:
  fixes k z :: nat
  assumes "0 < k mod z"
  shows "(k - 1) div z = k div z"
proof -
  have "0 < z \<or> z = 0" by blast
  moreover have "k div z * z \<le> k - 1" using assms div_mult_mod_eq [of k z] by linarith
  moreover have "k - 1 < (k div z + 1) * z" if "0 < z"
    using assms div_mult_mod_eq [of k z] mod_less_divisor [OF that, of k] unfolding distrib_right by linarith
  ultimately show ?thesis using div_between by auto
qed

lemma div_mult_pred:
  fixes x m q :: nat
  assumes "x = m * q" "0 < q" "0 < m"
  shows "(x - 1) div m = q - 1"
proof (rule div_between)
  obtain p where q: "q = Suc p" using \<open>0 < q\<close> by (cases q) auto
  show "(q - 1) * m \<le> x - 1" "x - 1 < (q - 1 + 1) * m" using assms by (simp_all add: q mult.commute)
qed

context extent_reader
begin

lemma read_round_ok:
  assumes v: "clean_volume p N sect ready v" "data_room N v"
    and ch: "fat_chain (fat_value (sect (dsk v)) v) (n_fatent v) (sclust fp) cs"
    and fp: "placed (sect (dsk v)) v cs fp"
    and btr: "btr \<noteq> 0" "unat (fptr fp) + unat btr < 2 ^ 32" "unat (fptr fp) + unat btr \<le> length cs * unat (csize v) * 512"
  shows "round_ok cs btr fp v (read_round D btr fp v)"
proof -
  let ?S = "sect (dsk v)" and ?pos = "unat (fptr fp)" and ?z = "unat (csize v)"
  let ?F = "fat_value ?S v"
  have b0: "0 < unat btr" using btr(1) by (simp add: unat_gt_0)
  have z: "0 < ?z" using csize_pos [OF v(2)] by simp
  have f: "fl_flag fp AND FA_DIRTY = 0" "dsect fp = 0 \<or> buf fp = ?S (dsect fp)"
    and cl: "fptr fp \<noteq> 0 \<Longrightarrow> clust fp = cs ! ((?pos - 1) div (512 * ?z))"
    and ds: "?pos mod 512 \<noteq> 0 \<Longrightarrow> dsect fp = sector_no v cs (?pos div 512)"
    using fp by (auto simp: placed_def)
  have m: "fptr fp mod 512 \<noteq> 0 \<longleftrightarrow> ?pos mod 512 \<noteq> 0" by (simp add: unat_mod word_unat_eq_iff)
  have kl: "?pos div 512 < length cs * ?z" using btr(3) b0 by (intro less_mult_imp_div_less) linarith
  have cn: "?pos div 512 div ?z < length cs" using kl z by (simp add: less_mult_imp_div_less)
  have csz: "unat (sector_in_cluster fp v) = ?pos div 512 mod ?z" by (rule unat_sector_in_cluster [OF v(2)])
  consider (inside) "?pos mod 512 \<noteq> 0" | (sector) "?pos mod 512 = 0" "?pos div 512 mod ?z \<noteq> 0"
    | (start) "?pos mod 512 = 0" "?pos div 512 mod ?z = 0" by blast
  then show ?thesis
  proof cases
    case inside
    then have "fptr fp \<noteq> 0" by auto
    have "(?pos - 1) div 512 = ?pos div 512"
      using inside div_mod_add(1) [of "512 * (?pos div 512)" 512 "?pos mod 512 - 1"] mult_div_mod_eq [of 512 ?pos] by simp
    then have "clust fp = cs ! (?pos div 512 div ?z)" using cl [OF \<open>fptr fp \<noteq> 0\<close>] by (simp add: div_mult2_eq)
    moreover have "sector_no v cs (?pos div 512) \<noteq> 0" by (rule sector_on_disk(3) [OF v ch kl])
    ultimately show ?thesis
      using inside m f ds read_partial_ok [OF v btr(1,2), of cs] by (simp add: read_round_def)
  next
    case sector
    let ?k = "?pos div 512"
    have pk: "?pos = 512 * ?k" using sector(1) by auto
    have k0: "0 < ?k mod ?z" using sector(2) by simp
    then have "0 < ?k" by (cases "?k = 0") auto
    then have "fptr fp \<noteq> 0" by auto
    have "(x - 1) div 512 = k - 1" if "x = 512 * k" "0 < k" for x k :: nat
      using that by (cases k) (auto intro!: div_nat_eqI)
    from this [OF pk \<open>0 < ?k\<close>] have "(?pos - 1) div 512 = ?k - 1" .
    moreover have "(?k - 1) div ?z = ?k div ?z" by (rule div_pred [OF k0])
    ultimately have "clust fp = cs ! (?k div ?z)" using cl [OF \<open>fptr fp \<noteq> 0\<close>] by (simp add: div_mult2_eq)
    then have "round_ok cs btr fp v (read_sectors_of D btr fp v)"
      using read_sectors_of_ok [OF v ch f sector(1) _ btr] by blast
    moreover have "sector_in_cluster fp v \<noteq> 0" using csz k0 by auto
    ultimately show ?thesis using m sector(1) by (simp add: read_round_def)
  next
    case start
    let ?q = "?pos div 512 div ?z"
    have pq: "?pos = 512 * (?z * ?q)" using start by auto
    have rng: "2 \<le> cs ! ?q \<and> cs ! ?q < n_fatent v" using fat_chain_range [OF ch] cn by simp
    have "\<exists>v1. read_cluster D fp v = Some (cs ! ?q, v1) \<and> clean_volume p N sect ready v1 \<and> sect (dsk v1) = ?S \<and> meta v1 = meta v"
    proof (cases "fptr fp = 0")
      case True
      with fat_chain_nth [OF ch cn] v(1) show ?thesis by (simp add: read_cluster_def)
    next
      case False
      then have q0: "0 < ?q" using pq by (cases "?q = 0") (auto simp: unat_eq_0)
      have "(?pos - 1) div (512 * ?z) = ?q - 1"
        using div_mult_pred [of "?pos" "512 * ?z" ?q] pq q0 z by (simp add: mult.assoc)
      then have c: "clust fp = cs ! (?q - 1)" using cl [OF False] by simp
      have i: "?q - 1 < length cs" "Suc (?q - 1) < length cs" using cn q0 by auto
      have rc: "2 \<le> clust fp" "clust fp < n_fatent v" using fat_chain_range [OF ch, of "clust fp"] i(1) c by auto
      have "?F (clust fp) = cs ! ?q" using fat_chain_nth [OF ch i(1)] i(2) q0 c by simp
      moreover obtain v1 where "get_fat D (clust fp) v = Some (?F (clust fp), v1)" "clean_volume p N sect ready v1"
        "sect (dsk v1) = ?S" "meta v1 = meta v" by (rule clean.get_fat_value [OF v(1) rc])
      ultimately show ?thesis using False by (simp add: read_cluster_def)
    qed
    then obtain v1 where v1: "read_cluster D fp v = Some (cs ! ?q, v1)" "clean_volume p N sect ready v1" "sect (dsk v1) = ?S"
      "meta v1 = meta v" by blast
    note g = geo_meta [OF v1(4)]
    have n1: "n_fatent v1 = n_fatent v" "csize v1 = csize v" using meta_fields [OF v1(4)] by auto
    let ?fp = "fp\<lparr>clust := cs ! ?q\<rparr>"
    have "round_ok cs btr ?fp v1 (read_sectors_of D btr ?fp v1)"
    proof (rule read_sectors_of_ok [OF v1(2)])
      show "data_room N v1" using data_room_geo [OF g] v(2) by simp
      show "fat_chain ?F (n_fatent v1) (sclust fp) cs" using ch n1 by simp
    qed (use f start btr v1(3) n1 in simp_all)
    then have "round_ok cs btr fp v (read_sectors_of D btr ?fp v1)"
      by (rule round_ok_cong) (simp_all add: same_file_def v1)
    moreover have "\<not> cs ! ?q < 2" "cs ! ?q \<noteq> 0xFFFFFFFF"
      using rng unat_u32_less [of "n_fatent v"]
      by (auto simp: word_less_nat_alt word_le_nat_alt simp del: unat_u32_less)
    moreover have "sector_in_cluster fp v = 0" using csz start(2) by (simp add: unat_eq_0)
    ultimately show ?thesis using m start(1) v1(1) by (simp add: read_round_def)
  qed
qed

lemma read_loop_ok:
  assumes "clean_volume p N sect ready v" "data_room N v"
    and "fat_chain (fat_value (sect (dsk v)) v) (n_fatent v) (sclust fp) cs" "placed (sect (dsk v)) v cs fp"
    and "unat (fptr fp) + unat btr < 2 ^ 32" "unat (fptr fp) + unat btr \<le> length cs * unat (csize v) * 512"
  shows "\<exists>fp' v'. read_loop D btr out fp v =
      Some (FR_OK, out @ map (byte_at (sect (dsk v)) v cs) [unat (fptr fp)..<unat (fptr fp) + unat btr], fp', v') \<and>
    unat (fptr fp') = unat (fptr fp) + unat btr \<and> same_file fp fp' \<and> placed (sect (dsk v)) v cs fp' \<and>
    clean_volume p N sect ready v' \<and> sect (dsk v') = sect (dsk v) \<and> meta v' = meta v"
  using assms
proof (induction "unat btr" arbitrary: btr out fp v rule: less_induct)
  case less
  show ?case
  proof (cases "btr = 0")
    case True
    with less.prems show ?thesis by (subst read_loop.simps) (auto simp: same_file_def)
  next
    case False
    let ?S = "sect (dsk v)"
    obtain r fp1 v1 where r: "read_round D btr fp v =
        Some (Moved r (map (byte_at ?S v cs) [unat (fptr fp)..<unat (fptr fp) + unat r]), fp1, v1)"
      "0 < unat r" "unat r \<le> unat btr" "fptr fp1 = fptr fp" "same_file fp fp1" "clean_volume p N sect ready v1"
      "sect (dsk v1) = ?S" "meta v1 = meta v" "placed ?S v cs (advance r fp1)"
      using read_round_ok [OF less.prems(1-4) False less.prems(5,6)] unfolding round_ok_def by blast
    let ?fp = "advance r fp1"
    note g = geo_meta [OF r(8)]
    note b = bytes_geo [OF g]
    have n1: "n_fatent v1 = n_fatent v" "csize v1 = csize v" using meta_fields [OF r(8)] by auto
    have f: "unat (fptr ?fp) = unat (fptr fp) + unat r" using advance_fptr [of fp1 r] r(3,4) less.prems(5) by simp
    have u: "unat (btr - r) = unat btr - unat r" using r(3) by (simp add: unat_sub_if')
    have sf: "same_file fp ?fp" using r(5) by (simp add: same_file_def advance_def)
    have pl: "placed (sect (dsk v1)) v1 cs ?fp" using r(9) unfolding placed_def b n1 r(7) .
    have "\<exists>fp' v'. read_loop D (btr - r) (out @ map (byte_at ?S v cs) [unat (fptr fp)..<unat (fptr fp) + unat r]) ?fp v1 =
        Some (FR_OK, (out @ map (byte_at ?S v cs) [unat (fptr fp)..<unat (fptr fp) + unat r]) @
          map (byte_at (sect (dsk v1)) v1 cs) [unat (fptr ?fp)..<unat (fptr ?fp) + unat (btr - r)], fp', v') \<and>
      unat (fptr fp') = unat (fptr ?fp) + unat (btr - r) \<and> same_file ?fp fp' \<and> placed (sect (dsk v1)) v1 cs fp' \<and>
      clean_volume p N sect ready v' \<and> sect (dsk v') = sect (dsk v1) \<and> meta v' = meta v1"
    proof (rule less.hyps [OF _ r(6)])
      show "unat (btr - r) < unat btr" using u r(2,3) by simp
      show "data_room N v1" using data_room_geo [OF g] less.prems(2) by simp
      show "fat_chain (fat_value (sect (dsk v1)) v1) (n_fatent v1) (sclust ?fp) cs"
        using less.prems(3) sf unfolding r(7) n1 fat_value_geo [OF g] same_file_def by simp
      show "placed (sect (dsk v1)) v1 cs ?fp" by (rule pl)
      show "unat (fptr ?fp) + unat (btr - r) < 2 ^ 32" using f u r(3) less.prems(5) by simp
      show "unat (fptr ?fp) + unat (btr - r) \<le> length cs * unat (csize v1) * 512" using f u r(3) less.prems(6) n1 by simp
    qed
    then obtain fp' v' where l: "read_loop D (btr - r) (out @ map (byte_at ?S v cs) [unat (fptr fp)..<unat (fptr fp) + unat r]) ?fp v1 =
        Some (FR_OK, (out @ map (byte_at ?S v cs) [unat (fptr fp)..<unat (fptr fp) + unat r]) @
          map (byte_at ?S v cs) [unat (fptr fp) + unat r..<unat (fptr fp) + unat r + (unat btr - unat r)], fp', v')"
      "unat (fptr fp') = unat (fptr fp) + unat btr" "same_file ?fp fp'" "placed ?S v1 cs fp'"
      "clean_volume p N sect ready v'" "sect (dsk v') = ?S" "meta v' = meta v"
      unfolding f u r(7) b using r(3,8) by auto
    have j: "map h [a..<a + n] @ map h [a + n..<a + n + (m - n)] = map h [a..<a + m]" if "n \<le> m" for h a and n m :: nat
      using that upt_add_eq_append [of a "a + n" "m - n"] by (simp flip: map_append)
    have "read_loop D btr out fp v = Some (FR_OK, out @ map (byte_at ?S v cs) [unat (fptr fp)..<unat (fptr fp) + unat btr], fp', v')"
      using False r(1) l(1) j [OF r(3), of "byte_at ?S v cs" "unat (fptr fp)"] by (subst read_loop.simps) simp
    moreover have "same_file fp fp'" using sf l(3) by (simp add: same_file_def)
    moreover have "placed ?S v cs fp'" using l(4) unfolding placed_def b n1 .
    ultimately show ?thesis using l by blast
  qed
qed

end

section \<open>Reading a file from a disk\<close>

text \<open>A disk whose reads return the sectors asked for.\<close>

definition read_laws :: "'d disk_ops \<Rightarrow> u8 \<Rightarrow> nat \<Rightarrow> ('d \<Rightarrow> u32 \<Rightarrow> u8 list) \<Rightarrow> ('d \<Rightarrow> bool) \<Rightarrow> bool" where
  "read_laws D p N sect live \<longleftrightarrow> (\<forall>d. live d \<longrightarrow>
     (\<forall>s. length (sect d s) = 512) \<and>
     (\<forall>s n. 0 < n \<longrightarrow> unat s + unat n \<le> N \<longrightarrow>
        (\<exists>d'. dk_read D p s n d = Some (RES_OK, concat (map (\<lambda>i. sect d (s + of_nat i)) [0..<unat n]), d') \<and>
          live d' \<and> sect d' = sect d)))"

abbreviation readable_disk :: "'d disk_ops \<Rightarrow> u8 \<Rightarrow> nat \<Rightarrow> ('d \<Rightarrow> u32 \<Rightarrow> u8 list) \<Rightarrow> ('d \<Rightarrow> bool) \<Rightarrow> 'd \<Rightarrow> bool" where
  "readable_disk D p N sect live \<equiv> \<lambda>d. read_laws D p N sect live \<and> live d"

lemma read_lawsD:
  assumes "readable_disk D p N sect live d" "0 < n" "unat s + unat n \<le> N"
  shows "\<exists>d'. dk_read D p s n d = Some (RES_OK, concat (map (\<lambda>i. sect d (s + of_nat i)) [0..<unat n]), d') \<and>
    readable_disk D p N sect live d' \<and> sect d' = sect d"
  using assms unfolding read_laws_def by blast

interpretation readable: extent_reader D p N sect "readable_disk D p N sect live"
  for D :: "'d disk_ops" and p N sect live
proof unfold_locales
  fix d and s :: u32
  show "readable_disk D p N sect live d \<Longrightarrow> length (sect d s) = 512" by (simp add: read_laws_def)
  show "\<exists>d'. dk_read D p s 1 d = Some (RES_OK, sect d s, d') \<and> readable_disk D p N sect live d' \<and> sect d' = sect d"
    if "readable_disk D p N sect live d" "unat s < N"
    using read_lawsD [OF that(1), of 1 s] that(2) by simp
qed (rule read_lawsD)

lemma volume_of_put [simp]: "volume_of (put_volume f v st) f = v"
  by (simp add: volume_of_def put_volume_def FATFS.defs volume.defs)

lemma dsk_volume_of [simp]: "dsk (volume_of st f) = disk st"
  by (simp add: volume_of_def FATFS.defs volume.defs)

lemma disk_put_volume [simp]: "disk (put_volume f v st) = dsk v"
  by (simp add: put_volume_def)

lemma take_file_bytes:
  assumes "pos \<le> unat (fl_size fp)"
  shows "take n (drop pos (file_bytes S v cs fp)) = map (byte_at S v cs) [pos..<pos + min n (unat (fl_size fp) - pos)]"
  using assms by (simp add: file_bytes_def drop_map take_map drop_upt min_def) 

lemma read_delivers:
  assumes "check_file D FA_READ fp st = FR_OK" "fl_fs fp = Some f" "volume_of st f = v"
    and v: "clean_volume p N sect (readable_disk D p N sect live) v" "data_room N v"
    and ch: "fat_chain (fat_value (sect (disk st)) v) (n_fatent v) (sclust fp) cs"
    and pl: "placed (sect (disk st)) v cs fp"
    and sz: "fptr fp \<le> fl_size fp" "unat (fl_size fp) \<le> length cs * unat (csize v) * 512"
  shows "\<exists>fp' st'. ff_read D btr fp st =
      Some (FR_OK, take (unat btr) (drop (unat (fptr fp)) (file_bytes (sect (disk st)) v cs fp)), fp', st') \<and>
    unat (fptr fp') = min (unat (fl_size fp)) (unat (fptr fp) + unat btr) \<and> same_file fp fp' \<and>
    placed (sect (disk st')) (volume_of st' f) cs fp' \<and> sect (disk st') = sect (disk st) \<and>
    clean_volume p N sect (readable_disk D p N sect live) (volume_of st' f) \<and> meta (volume_of st' f) = meta v"
proof -
  let ?S = "sect (disk st)" and ?pos = "unat (fptr fp)"
  let ?n = "if btr > fl_size fp - fptr fp then fl_size fp - fptr fp else btr"
  have d: "dsk v = disk st" using assms(3) by auto
  have le: "?pos \<le> unat (fl_size fp)" using sz(1) by (simp add: word_le_nat_alt)
  then have s: "unat (fl_size fp - fptr fp) = unat (fl_size fp) - ?pos" by (simp add: unat_sub_if')
  have n: "unat ?n = min (unat btr) (unat (fl_size fp) - ?pos)" using s by (auto simp: word_less_nat_alt)
  have b: "?pos + unat ?n < 2 ^ 32" using n le unat_u32_less [of "fl_size fp"] by (auto simp del: unat_u32_less)
  have m: "?pos + unat ?n \<le> length cs * unat (csize v) * 512" using n le sz(2) by linarith
  obtain fp' v' where r: "read_loop D ?n [] fp v = Some (FR_OK, [] @ map (byte_at ?S v cs) [?pos..<?pos + unat ?n], fp', v')"
    "unat (fptr fp') = ?pos + unat ?n" "same_file fp fp'" "placed ?S v cs fp'"
    "clean_volume p N sect (readable_disk D p N sect live) v'" "sect (dsk v') = ?S" "meta v' = meta v"
    using readable.read_loop_ok [OF v _ _ b m, of "[]"] ch pl unfolding d by blast
  note g = geo_meta [OF r(7)]
  have p': "placed (sect (dsk v')) v' cs fp'"
    using r(4) meta_fields [OF r(7)] unfolding placed_def bytes_geo [OF g] r(6) by simp
  have q: "?pos + unat ?n = min (unat (fl_size fp)) (?pos + unat btr)" using n le by simp
  have "ff_read D btr fp st = Some (FR_OK, map (byte_at ?S v cs) [?pos..<?pos + unat ?n], fp', put_volume f v' st)"
    using assms(1,2,3) r(1) by (simp add: ff_read_def Let_def)
  then show ?thesis using r p' q n unfolding take_file_bytes [OF le] by simp
qed

text \<open>C34: Reading a file delivers its bytes.  On a disk whose reads return the sectors asked for, a read of an
  open file at any position up to its end returns exactly the file's bytes from that position on, as many as were asked
  for or are left, whatever mix of whole sectors and parts of sectors and however many clusters that takes; the
  position moves behind them, the object is ready for the next read, and neither the disk nor the volume changes.\<close>

theorem ff_read_delivers:
  assumes "check_file D FA_READ fp st = FR_OK" "fl_fs fp = Some f" "volume_of st f = v"
    and v: "clean_volume p N sect (readable_disk D p N sect live) v" "data_room N v"
    and ch: "fat_chain (fat_value (sect (disk st)) v) (n_fatent v) (sclust fp) cs"
    and pl: "placed (sect (disk st)) v cs fp"
    and sz: "fptr fp \<le> fl_size fp" "unat (fl_size fp) \<le> length cs * unat (csize v) * 512"
  shows "\<exists>fp' st'. ff_read D btr fp st =
      Some (FR_OK, take (unat btr) (drop (unat (fptr fp)) (file_bytes (sect (disk st)) v cs fp)), fp', st') \<and>
    unat (fptr fp') = min (unat (fl_size fp)) (unat (fptr fp) + unat btr) \<and> same_file fp fp' \<and>
    placed (sect (disk st')) (volume_of st' f) cs fp' \<and> sect (disk st') = sect (disk st) \<and>
    clean_volume p N sect (readable_disk D p N sect live) (volume_of st' f) \<and> meta (volume_of st' f) = meta v"
  by (rule read_delivers [OF assms])

text \<open>The chain of the sample volume holds a file of 700 bytes; its two sectors are 4 and 5.\<close>

definition sample_disk :: "u32 \<Rightarrow> u8 list" where
  "sample_disk s = (if s = 1 \<or> s = 2 then sample_table else if s = 4 then replicate 512 7 else replicate 512 9)"

definition sample_state :: "(u32 \<Rightarrow> u8 list) ffs" where
  "sample_state = \<lparr>FatFs = [Some 0, None], objs = (\<lambda>_. FATFS.truncate sample_volume), Fsid = 1, CurrVol = 0, disk = sample_disk\<rparr>"

definition sample_file :: FIL where
  "sample_file = \<lparr>fl_fs = Some 0, fl_id = 1, fl_flag = FA_READ, fl_err = FR_OK, fptr = 500, fl_size = 700, sclust = 2,
     clust = 2, dsect = 4, dir_sect = 3, dir_ptr = 0, buf = replicate 512 7\<rparr>"

lemma sample_state_volume: "volume_of sample_state f = sample_volume\<lparr>dsk := sample_disk\<rparr>"
  by (simp add: volume_of_def sample_state_def sample_volume_def FATFS.defs volume.defs)

lemma sample_readable: "read_laws ram_disk p N (\<lambda>d. d) whole"
  by (simp add: read_laws_def whole_def ram_disk_def)

lemma sample_chain:
  "fat_chain (fat_value sample_disk (sample_volume\<lparr>dsk := sample_disk\<rparr>)) 10 2 [2, 3]"
proof -
  have g: "geo (sample_volume\<lparr>dsk := sample_disk\<rparr>) = geo sample_volume" by simp
  have e: "fat_value sample_disk sample_volume c = fat_map 100 (\<lambda>d. d) sample_volume c" if "c < 10" for c
  proof -
    have "unat (c div 256) = 0" using that by (simp add: word_less_nat_alt unat_div)
    then have "c div 256 = 0" by (simp add: unat_eq_0)
    moreover have "\<not> mirror sample_volume 1" by (simp add: mirror_def sample_volume_def)
    ultimately show ?thesis
      by (simp add: fat_map_def fat_value_def volume_view_def) (simp add: sample_volume_def FS_types sample_disk_def)
  qed
  show ?thesis unfolding fat_value_geo [OF g] by (simp add: e sample_entry)
qed

lemma sample_file_ok:
  "check_file ram_disk FA_READ sample_file sample_state = FR_OK" "fl_fs sample_file = Some 0"
  "clean_volume 0 100 (\<lambda>d. d) (readable_disk ram_disk 0 100 (\<lambda>d. d) whole) (sample_volume\<lparr>dsk := sample_disk\<rparr>)"
  "data_room 100 (sample_volume\<lparr>dsk := sample_disk\<rparr>)"
  "fat_chain (fat_value (disk sample_state) (sample_volume\<lparr>dsk := sample_disk\<rparr>)) (n_fatent (sample_volume\<lparr>dsk := sample_disk\<rparr>))
    (sclust sample_file) [2, 3]"
  "placed (disk sample_state) (sample_volume\<lparr>dsk := sample_disk\<rparr>) [2, 3] sample_file"
  "fptr sample_file \<le> fl_size sample_file"
  "unat (fl_size sample_file) \<le> length [2, 3 :: u32] * unat (csize (sample_volume\<lparr>dsk := sample_disk\<rparr>)) * 512"
proof -
  let ?v = "sample_volume\<lparr>dsk := sample_disk\<rparr>"
  show "check_file ram_disk FA_READ sample_file sample_state = FR_OK" "fl_fs sample_file = Some 0"
    by (simp_all add: check_file_def validate_def sample_file_def sample_state_def sample_volume_def FATFS.defs ram_disk_def
        STA_OFF_def FA_READ_def)
  show "clean_volume 0 100 (\<lambda>d. d) (readable_disk ram_disk 0 100 (\<lambda>d. d) whole) ?v"
    using sample_readable [of 0 100] sample_volume_ok
    by (auto simp: clean_volume_def volume_ok_def whole_def sample_disk_def sample_table_def sample_volume_def fat_layout_def
        fat_room_def FS_types)
  show "data_room 100 ?v" by (auto simp: data_room_def sample_volume_def intro!: exI [of _ "0 :: nat"])
  have d: "disk sample_state = sample_disk" by (simp add: sample_state_def)
  show "placed (disk sample_state) ?v [2, 3] sample_file"
    by (simp add: placed_def sample_file_def sample_volume_def sector_no_def clust2sect_def FA_READ_def FA_DIRTY_def
        sample_disk_def d)
  have n: "n_fatent ?v = 10" "sclust sample_file = 2" by (simp_all add: sample_volume_def sample_file_def)
  show "fat_chain (fat_value (disk sample_state) ?v) (n_fatent ?v) (sclust sample_file) [2, 3]"
    using sample_chain by (simp only: d n)
  show "fptr sample_file \<le> fl_size sample_file" "unat (fl_size sample_file) \<le> length [2, 3 :: u32] * unat (csize ?v) * 512"
    by (simp_all add: sample_file_def sample_volume_def)
qed

lemma sample_file_bytes:
  "file_bytes (disk sample_state) (sample_volume\<lparr>dsk := sample_disk\<rparr>) [2, 3] sample_file = replicate 512 7 @ replicate 188 9"
proof (rule nth_equalityI)
  let ?v = "sample_volume\<lparr>dsk := sample_disk\<rparr>"
  have d: "disk sample_state = sample_disk" by (simp add: sample_state_def)
  have b: "byte_at sample_disk ?v [2, 3] i = (if i < 512 then 7 else 9)" if "i < 1024" for i
  proof -
    have "i div 512 = 0 \<longleftrightarrow> i < 512" "i div 512 = 1 \<longleftrightarrow> 512 \<le> i" using that by auto
    then consider "i < 512" "i div 512 = 0" | "512 \<le> i" "i div 512 = 1" by linarith
    then show ?thesis
      by cases (simp_all add: byte_at_def sector_no_def clust2sect_def sample_volume_def sample_disk_def)
  qed
  show "length (file_bytes (disk sample_state) ?v [2, 3] sample_file) = length (replicate 512 7 @ replicate 188 (9 :: u8))"
    by (simp add: file_bytes_def sample_file_def)
  fix i assume "i < length (file_bytes (disk sample_state) ?v [2, 3] sample_file)"
  then have "i < 700" by (simp add: file_bytes_def sample_file_def)
  then show "file_bytes (disk sample_state) ?v [2, 3] sample_file ! i = (replicate 512 7 @ replicate 188 9) ! i"
    by (auto simp: file_bytes_def sample_file_def b nth_append d)
qed

theorem ff_read_delivers_witness:
  "\<exists>fp st. ff_read ram_disk 100 sample_file sample_state = Some (FR_OK, replicate 12 7 @ replicate 88 9, fp, st) \<and>
     unat (fptr fp) = 600"
proof -
  have "unat (100 :: u32) = 100" "unat (fptr sample_file) = 500" "unat (fl_size sample_file) = 700"
    by (simp_all add: sample_file_def)
  then show ?thesis
    using ff_read_delivers [where btr = 100 and sect = "\<lambda>d. d" and live = whole and cs = "[2, 3]",
        OF sample_file_ok(1,2) sample_state_volume sample_file_ok(3-8)]
    unfolding sample_file_bytes by fastforce
qed

end
