(* ===== verification/FatSeek.thy ===== *)
theory FatSeek
  imports FatFile
begin

text \<open>
  Seeking in a file of FatFs that is open for reading: the walk along the chain of clusters from the current or the
  first one, the sector that is loaded, and what a read after the seek returns.
\<close>

section \<open>Seeking and then reading\<close>

text \<open>The size of a cluster in bytes, and the start of the cluster of a position.\<close>

lemma unat_cluster_bytes:
  assumes "data_room N v"
  shows "unat (ucast (csize v) * 512 :: u32) = 512 * unat (csize v)" "ucast (csize v) * 512 \<noteq> (0 :: u32)"
proof -
  have z: "0 < unat (csize v)" "unat (csize v) \<le> 128" using csize_pos [OF assms] by auto
  then show u: "unat (ucast (csize v) * 512 :: u32) = 512 * unat (csize v)"
    using unat_mult_lem [of "ucast (csize v) :: u32" 512] by simp
  with z show "ucast (csize v) * 512 \<noteq> (0 :: u32)" by (auto simp: word_unat_eq_iff)
qed

lemma cluster_start:
  fixes x :: u32
  assumes "data_room N v"
  shows "unat (x AND NOT (ucast (csize v) * 512 - 1)) = unat x div (512 * unat (csize v)) * (512 * unat (csize v))"
proof -
  obtain k where k: "k < 8" "csize v = 2 ^ k" using assms by (auto simp: data_room_def)
  have z: "unat (csize v) = 2 ^ k" using k by (simp add: unat_power8)
  have "(ucast (csize v) :: u32) = 2 ^ k" using z unat_power8 [OF k(1)] by (simp add: word_unat_eq_iff)
  then have "ucast (csize v) * 512 = (2 :: u32) ^ (k + 9)" by (simp add: power_add)
  then have m: "(ucast (csize v) * 512 - 1 :: u32) = mask (k + 9)" by (simp add: mask_eq_exp_minus_1)
  have "x AND mask (k + 9) = take_bit (k + 9) x" by (simp add: take_bit_eq_mask)
  then have "unat (x AND mask (k + 9)) = take_bit (k + 9) (unat x)" by (simp only: unsigned_take_bit_eq)
  then have "unat (x AND mask (k + 9)) = unat x mod 2 ^ (k + 9)" by (simp only: take_bit_eq_mod)
  moreover have "x AND NOT (mask (k + 9)) = x - (x AND mask (k + 9))"
  proof -
    have "(x AND mask (k + 9)) OR (x AND NOT (mask (k + 9))) = x" by (rule bit_eqI) (auto simp: bit_simps)
    moreover have "(x AND mask (k + 9)) + (x AND NOT (mask (k + 9))) = (x AND mask (k + 9)) OR (x AND NOT (mask (k + 9)))"
      by (rule disjunctive_add_eq_or) (auto intro: bit_eqI simp: bit_simps)
    ultimately show ?thesis by (simp add: eq_diff_eq add.commute)
  qed
  moreover have "x AND mask (k + 9) \<le> x" by (rule word_and_le2)
  ultimately have "unat (x AND NOT (mask (k + 9))) = unat x - unat x mod 2 ^ (k + 9)"
    by (simp add: unat_sub)
  then show ?thesis unfolding m z by (simp add: power_add minus_mod_eq_div_mult mult.commute)
qed

context extent_reader
begin

text \<open>The walk along the chain ends in the cluster of the offset.\<close>

lemma seek_loop_ok:
  assumes "clean_volume p N sect ready v" "data_room N v" "fat_chain (fat_value (sect (dsk v)) v) (n_fatent v) c cs"
    and "fl_flag fp AND FA_WRITE = 0" "q < length cs" "clst = cs ! q" "clust fp = clst"
    and "unat (fptr fp) = q * (512 * unat (csize v))" "0 < unat ofs" "q * (512 * unat (csize v)) + unat ofs \<le> length cs * (512 * unat (csize v))"
    and "q * (512 * unat (csize v)) + unat ofs < 2 ^ 32"
  shows "\<exists>ofs' clst' fp' v'. seek_loop D (ucast (csize v) * 512) ofs clst fp v = Some (Seek_at ofs' clst', fp', v') \<and>
    unat (fptr fp') + unat ofs' = q * (512 * unat (csize v)) + unat ofs \<and> 0 < unat ofs' \<and> unat ofs' \<le> 512 * unat (csize v) \<and>
    (\<exists>q'<length cs. clst' = cs ! q' \<and> clust fp' = clst' \<and> unat (fptr fp') = q' * (512 * unat (csize v))) \<and>
    same_file fp fp' \<and> dsect fp' = dsect fp \<and> buf fp' = buf fp \<and>
    clean_volume p N sect ready v' \<and> sect (dsk v') = sect (dsk v) \<and> meta v' = meta v"
  using assms
proof (induction "unat ofs" arbitrary: ofs clst fp v q rule: less_induct)
  case less
  let ?S = "sect (dsk v)" and ?b = "512 * unat (csize v)"
  note u = unat_cluster_bytes [OF less.prems(2)]
  have z: "0 < unat (csize v)" using csize_pos [OF less.prems(2)] by simp
  show ?case
  proof (cases "ofs > ucast (csize v) * 512")
    case False
    then have "unat ofs \<le> ?b" using u by (simp add: word_less_nat_alt)
    then show ?thesis using False less.prems by (subst seek_loop.simps) (auto simp: same_file_def)
  next
    case True
    then have l: "?b < unat ofs" using u by (simp add: word_less_nat_alt)
    have q: "Suc q < length cs"
    proof (rule ccontr)
      assume "\<not> Suc q < length cs"
      then have "length cs = Suc q" using less.prems(5) by simp
      then show False using less.prems(10) l by simp
    qed
    have rc: "2 \<le> clst" "clst < n_fatent v" using fat_chain_range [OF less.prems(3)] less.prems(5,6) by auto
    have nx: "fat_value ?S v clst = cs ! Suc q" using fat_chain_nth [OF less.prems(3,5)] q less.prems(6) by simp
    have rn: "2 \<le> cs ! Suc q" "cs ! Suc q < n_fatent v" using fat_chain_range [OF less.prems(3)] q by auto
    obtain v1 where g: "get_fat D clst v = Some (cs ! Suc q, v1)" "clean_volume p N sect ready v1" "sect (dsk v1) = ?S" "meta v1 = meta v"
      using clean.get_fat_value [OF less.prems(1) rc] nx by metis
    have m: "n_fatent v1 = n_fatent v" "csize v1 = csize v" using meta_fields [OF g(4)] by auto
    note gg = geo_meta [OF g(4)]
    let ?fp = "fp\<lparr>clust := cs ! Suc q, fptr := fptr fp + ucast (csize v) * 512\<rparr>" and ?ofs = "ofs - ucast (csize v) * 512"
    have o: "unat ?ofs = unat ofs - ?b" using u l by (simp add: unat_sub_if')
    have fpt: "unat (fptr ?fp) = Suc q * ?b"
      using u less.prems(8,11) l unat_add_lem [of "fptr fp" "ucast (csize v) * 512"] by simp
    have "\<exists>ofs' clst' fp' v'. seek_loop D (ucast (csize v1) * 512) ?ofs (cs ! Suc q) ?fp v1 = Some (Seek_at ofs' clst', fp', v') \<and>
      unat (fptr fp') + unat ofs' = Suc q * (512 * unat (csize v1)) + unat ?ofs \<and> 0 < unat ofs' \<and> unat ofs' \<le> 512 * unat (csize v1) \<and>
      (\<exists>q'<length cs. clst' = cs ! q' \<and> clust fp' = clst' \<and> unat (fptr fp') = q' * (512 * unat (csize v1))) \<and>
      same_file ?fp fp' \<and> dsect fp' = dsect ?fp \<and> buf fp' = buf ?fp \<and>
      clean_volume p N sect ready v' \<and> sect (dsk v') = sect (dsk v1) \<and> meta v' = meta v1"
    proof (rule less.hyps [OF _ g(2)])
      show "unat ?ofs < unat ofs" using o l z by simp
      show "data_room N v1" using data_room_geo [OF gg] less.prems(2) by simp
      show "fat_chain (fat_value (sect (dsk v1)) v1) (n_fatent v1) c cs"
        using less.prems(3) unfolding g(3) m fat_value_geo [OF gg] .
    qed (use less.prems q fpt o l m in auto)
    then obtain ofs' clst' fp' v' where r:
      "seek_loop D (ucast (csize v) * 512) ?ofs (cs ! Suc q) ?fp v1 = Some (Seek_at ofs' clst', fp', v')"
      "unat (fptr fp') + unat ofs' = Suc q * ?b + unat ?ofs" "0 < unat ofs'" "unat ofs' \<le> ?b"
      "\<exists>q'<length cs. clst' = cs ! q' \<and> clust fp' = clst' \<and> unat (fptr fp') = q' * ?b"
      "same_file ?fp fp'" "dsect fp' = dsect fp" "buf fp' = buf fp"
      "clean_volume p N sect ready v'" "sect (dsk v') = ?S" "meta v' = meta v"
      unfolding m g(3,4) by auto
    have "\<not> cs ! Suc q \<le> 1" "cs ! Suc q \<noteq> 0xFFFFFFFF" "\<not> n_fatent v \<le> cs ! Suc q"
      using rn unat_u32_less [of "n_fatent v"] by (auto simp: word_less_nat_alt word_le_nat_alt simp del: unat_u32_less)
    then have "seek_loop D (ucast (csize v) * 512) ofs clst fp v = Some (Seek_at ofs' clst', fp', v')"
      using True g(1) r(1) less.prems(4) m by (subst seek_loop.simps) simp
    moreover have "unat (fptr fp') + unat ofs' = q * ?b + unat ofs" using r(2) o l by simp
    moreover have "same_file fp fp'" using r(6) by (simp add: same_file_def)
    ultimately show ?thesis using r(3-5,7-) by blast
  qed
qed

end

context extent_reader
begin

lemma seek_start_ok:
  assumes "data_room N v" "fat_chain F (n_fatent v) (sclust fp) cs" "placed S v cs fp" "sclust fp \<noteq> 0"
    and "ofs \<noteq> 0" "unat ofs \<le> length cs * (512 * unat (csize v))"
  shows "\<exists>ofs' q fp'. seek_start D (ucast (csize v) * 512) ofs fp v = Some (Seek_at ofs' (cs ! q), fp', v) \<and> q < length cs \<and>
    clust fp' = cs ! q \<and> unat (fptr fp') = q * (512 * unat (csize v)) \<and> q * (512 * unat (csize v)) + unat ofs' = unat ofs \<and>
    0 < unat ofs' \<and> same_file fp fp' \<and> dsect fp' = dsect fp \<and> buf fp' = buf fp"
proof -
  let ?b = "512 * unat (csize v)" and ?c = "ucast (csize v) * 512 :: u32"
  note u = unat_cluster_bytes [OF assms(1)]
  have b0: "0 < ?b" using csize_pos [OF assms(1)] by simp
  have o: "0 < unat ofs" "unat (ofs - 1) = unat ofs - 1" using assms(5) by (simp_all add: unat_gt_0 unat_minus_one)
  show ?thesis
  proof (cases "fptr fp > 0 \<and> (ofs - 1) div ?c \<ge> (fptr fp - 1) div ?c")
    case True
    let ?q = "(unat (fptr fp) - 1) div ?b"
    have f: "unat (fptr fp - 1) = unat (fptr fp) - 1" using True by (simp add: unat_minus_one word_gt_0)
    have le: "?q \<le> (unat ofs - 1) div ?b" using True f o(2) u(1) by (simp add: word_le_nat_alt unat_div)
    have p: "unat ((fptr fp - 1) AND NOT (?c - 1)) = ?q * ?b" using cluster_start [OF assms(1), of "fptr fp - 1"] f by simp
    have "?q * ?b \<le> (unat ofs - 1) div ?b * ?b" using le by (rule mult_le_mono1)
    also have "\<dots> \<le> unat ofs - 1" by (rule div_times_less_eq_dividend)
    finally have lt: "?q * ?b < unat ofs" using o(1) by linarith
    have "(unat ofs - 1) div ?b < length cs" using assms(6) o(1) by (intro less_mult_imp_div_less) linarith
    then have ql: "?q < length cs" using le by linarith
    have cl: "clust fp = cs ! ?q" using assms(3) True by (auto simp: placed_def)
    have s: "unat (ofs - ((fptr fp - 1) AND NOT (?c - 1))) = unat ofs - ?q * ?b" using p lt by (simp add: unat_sub_if')
    show ?thesis
      using True cl ql p s lt by (intro exI [of _ "ofs - ((fptr fp - 1) AND NOT (?c - 1))"] exI [of _ ?q])
        (auto simp: seek_start_def Let_def same_file_def)
  next
    case False
    have "cs \<noteq> []" using assms(5,6) o(1) by auto
    then have "sclust fp = cs ! 0" using assms(2) fat_chain_nth [OF assms(2), of 0] by simp
    then show ?thesis using False assms(4) o(1) \<open>cs \<noteq> []\<close>
      by (intro exI [of _ ofs] exI [of _ 0]) (auto simp: seek_start_def Let_def same_file_def)
  qed
qed

lemma seek_walk_ok:
  assumes v: "clean_volume p N sect ready v" "data_room N v" "fat_chain (fat_value (sect (dsk v)) v) (n_fatent v) (sclust fp) cs"
    and pl: "placed (sect (dsk v)) v cs fp" "sclust fp \<noteq> 0" "fl_flag fp AND FA_WRITE = 0"
    and ofs: "ofs \<noteq> 0" "unat ofs \<le> length cs * (512 * unat (csize v))"
  shows "\<exists>ns clst fp' v'. seek_walk D ofs fp v = Some (Seek_at ns clst, fp', v') \<and> fptr fp' = ofs \<and>
    clust fp' = cs ! ((unat ofs - 1) div (512 * unat (csize v))) \<and>
    ns = (if ofs mod 512 = 0 then 0 else sector_no v cs (unat ofs div 512)) \<and> same_file fp fp' \<and> dsect fp' = dsect fp \<and> buf fp' = buf fp \<and>
    clean_volume p N sect ready v' \<and> sect (dsk v') = sect (dsk v) \<and> meta v' = meta v"
proof -
  let ?b = "512 * unat (csize v)" and ?z = "unat (csize v)"
  note u = unat_cluster_bytes [OF v(2)]
  have z: "0 < ?z" using csize_pos [OF v(2)] by simp
  obtain ofs1 q fp1 where s: "seek_start D (ucast (csize v) * 512) ofs fp v = Some (Seek_at ofs1 (cs ! q), fp1, v)" "q < length cs"
    "clust fp1 = cs ! q" "unat (fptr fp1) = q * ?b" "q * ?b + unat ofs1 = unat ofs" "0 < unat ofs1"
    "same_file fp fp1" "dsect fp1 = dsect fp" "buf fp1 = buf fp"
    using seek_start_ok [OF v(2,3) pl(1,2) ofs] by blast
  have w: "fl_flag fp1 AND FA_WRITE = 0" using s(7) pl(3) by (simp add: same_file_def)
  obtain ofs2 clst fp2 v2 where l: "seek_loop D (ucast (csize v) * 512) ofs1 (cs ! q) fp1 v = Some (Seek_at ofs2 clst, fp2, v2)"
    "unat (fptr fp2) + unat ofs2 = q * ?b + unat ofs1" "0 < unat ofs2" "unat ofs2 \<le> ?b"
    "\<exists>q'<length cs. clst = cs ! q' \<and> clust fp2 = clst \<and> unat (fptr fp2) = q' * ?b"
    "same_file fp1 fp2" "dsect fp2 = dsect fp1" "buf fp2 = buf fp1"
    "clean_volume p N sect ready v2" "sect (dsk v2) = sect (dsk v)" "meta v2 = meta v"
    using seek_loop_ok [OF v w s(2) refl s(3,4,6)] s(5) ofs(2) unat_u32_less [of ofs] by auto
  obtain q' where q': "q' < length cs" "clst = cs ! q'" "clust fp2 = clst" "unat (fptr fp2) = q' * ?b" using l(5) by blast
  have tot: "q' * ?b + unat ofs2 = unat ofs" using l(2) q'(4) s(5) by simp
  then have "unat (fptr fp2 + ofs2) = unat ofs"
    using q'(4) unat_u32_less [of ofs] unat_add_lem [of "fptr fp2" ofs2] by (simp del: unat_u32_less)
  then have f: "fptr fp2 + ofs2 = ofs" by (simp add: word_unat_eq_iff)
  have d: "(unat ofs - 1) div ?b = q'"
  proof (rule div_between)
    show "q' * ?b \<le> unat ofs - 1" "unat ofs - 1 < (q' + 1) * ?b"
      using tot l(3,4) unfolding distrib_right by linarith+
  qed
  have mo: "ofs mod 512 = 0 \<longleftrightarrow> ofs2 mod 512 = 0"
  proof -
    have "unat ofs mod 512 = unat ofs2 mod 512"
      using tot mod_mult_self3 [of "q' * ?z" 512 "unat ofs2"] by (simp add: ac_simps)
    then show ?thesis by (simp add: word_unat_eq_iff unat_mod)
  qed
  note gf = geo_fields [OF geo_meta [OF l(11)]]
  have cs2: "clust2sect v2 c = clust2sect v c" for c by (simp add: clust2sect_def gf cong: if_cong)
  have ns: "clust2sect v clst + ofs2 div 512 = sector_no v cs (unat ofs div 512) \<and> clust2sect v clst \<noteq> 0" if "ofs mod 512 \<noteq> 0"
  proof -
    have n0: "unat ofs2 mod 512 \<noteq> 0" using that mo by (simp add: word_unat_eq_iff unat_mod)
    then have "unat ofs2 \<noteq> ?b" by auto
    then have lt: "unat ofs2 < ?b" using l(4) by simp
    then have k: "unat ofs2 div 512 < ?z" by (simp add: less_mult_imp_div_less mult.commute)
    have "unat ofs = 512 * (q' * ?z) + unat ofs2" using tot by (simp add: ac_simps)
    then have dv: "unat ofs div 512 = q' * ?z + unat ofs2 div 512" by (simp only: div_mult_self4)
    have e: "(q' * ?z + unat ofs2 div 512) div ?z = q'" "(q' * ?z + unat ofs2 div 512) mod ?z = unat ofs2 div 512"
      using k z by simp_all
    have w: "of_nat (unat ofs2 div 512) = ofs2 div 512" 
    proof -
      have "unat (ofs2 div 512) = unat ofs2 div 512" by (simp add: unat_div)
      from arg_cong [OF this, of "of_nat :: nat \<Rightarrow> u32"] show ?thesis by simp
    qed
    have "unat ofs div 512 < length cs * ?z"
      using dv k q'(1) by (metis e(1) div_less_iff_less_mult z)
    note o = sector_on_disk(4) [OF v this]
    have "sector_no v cs (unat ofs div 512) = clust2sect v (cs ! q') + of_nat (unat ofs2 div 512)"
      unfolding sector_no_def dv e ..
    then show ?thesis using o w q'(2) unfolding dv e by simp
  qed
  have "cs ! i \<noteq> 0" if "i < length cs" for i using fat_chain_range [OF v(3), of "cs ! i"] that by auto
  then have "clst \<noteq> 0" "cs ! q \<noteq> 0" using q'(1,2) s(2) by auto
  then show ?thesis
    using s(1) l(1) f mo ns cs2 q'(2,3) d l(6-) s(7-9)
    by (auto simp: seek_walk_def Let_def same_file_def)
qed

end

context extent_reader
begin

lemma seek_volume_ok:
  assumes v: "clean_volume p N sect ready v" "data_room N v" "fat_chain (fat_value (sect (dsk v)) v) (n_fatent v) (sclust fp) cs"
    and pl: "placed (sect (dsk v)) v cs fp" "fl_flag fp AND FA_WRITE = 0" "fl_size fp \<noteq> 0 \<longrightarrow> sclust fp \<noteq> 0"
    and sz: "unat (fl_size fp) \<le> length cs * (512 * unat (csize v))"
  shows "\<exists>fp' v'. seek_volume D ofs fp v = Some (FR_OK, fp', v') \<and> fptr fp' = min ofs (fl_size fp) \<and> same_file fp fp' \<and>
    placed (sect (dsk v)) v cs fp' \<and> clean_volume p N sect ready v' \<and> sect (dsk v') = sect (dsk v) \<and> meta v' = meta v"
proof -
  let ?S = "sect (dsk v)" and ?o = "min ofs (fl_size fp)"
  have o: "(if ofs > fl_size fp \<and> fl_flag fp AND FA_WRITE = 0 then fl_size fp else ofs) = ?o"
    using pl(2) by (auto simp: min_def)
  have f: "fl_flag fp AND FA_DIRTY = 0" "dsect fp = 0 \<or> buf fp = ?S (dsect fp)" using pl(1) by (auto simp: placed_def)
  show ?thesis
  proof (cases "?o = 0")
    case True
    then show ?thesis using o f v(1)
      by (intro exI [of _ "fp\<lparr>fptr := 0\<rparr>"] exI [of _ v]) (auto simp: seek_volume_def Let_def same_file_def placed_def)
  next
    case False
    have ol: "unat ?o \<le> unat (fl_size fp)" by (simp add: min_def word_le_nat_alt)
    have "fl_size fp \<noteq> 0" using False by (auto simp: min_def split: if_splits)
    then have sc: "sclust fp \<noteq> 0" using pl(3) by simp
    have le: "unat ?o \<le> length cs * (512 * unat (csize v))" using ol sz by linarith
    obtain ns clst fp1 v1 where w: "seek_walk D ?o fp v = Some (Seek_at ns clst, fp1, v1)" "fptr fp1 = ?o"
      "clust fp1 = cs ! ((unat ?o - 1) div (512 * unat (csize v)))"
      "ns = (if ?o mod 512 = 0 then 0 else sector_no v cs (unat ?o div 512))" "same_file fp fp1" "dsect fp1 = dsect fp" "buf fp1 = buf fp"
      "clean_volume p N sect ready v1" "sect (dsk v1) = ?S" "meta v1 = meta v"
      using seek_walk_ok [OF v pl(1) sc pl(2) False le] by blast
    have m: "?o mod 512 = 0 \<longleftrightarrow> unat ?o mod 512 = 0" by (simp only: word_unat_eq_iff unat_mod) simp
    have d1: "fl_flag fp1 AND FA_DIRTY = 0" "fl_size fp1 = fl_size fp" using w(5) f by (auto simp: same_file_def)
    have nsz: "\<not> fl_size fp < ?o" by (simp add: min_def not_less)
    show ?thesis
    proof (cases "?o mod 512 \<noteq> 0 \<and> ns \<noteq> dsect fp1")
      case False
      then have "placed ?S v cs fp1" using w f d1 m by (auto simp: placed_def)
      moreover have "seek_volume D ofs fp v = Some (FR_OK, fp1, v1)"
        unfolding seek_volume_def o Let_def using w(1,2) \<open>?o \<noteq> 0\<close> False d1 nsz by auto
      ultimately show ?thesis using w by blast
    next
      case True
      have n: "ns = sector_no v cs (unat ?o div 512)" using w(4) True by simp
      have z: "0 < unat (csize v)" using csize_pos [OF v(2)] by simp
      have "unat ?o \<noteq> length cs * (512 * unat (csize v))" using True m by auto
      then have "unat ?o < length cs * unat (csize v) * 512" using le by (simp add: ac_simps)
      then have k: "unat ?o div 512 < length cs * unat (csize v)" by (rule less_mult_imp_div_less)
      have "unat ns < N" using sector_on_disk(2) [OF v k] z mod_less_divisor [OF z, of "unat ?o div 512"]
        unfolding n by linarith
      moreover have r: "ready (dsk v1)" "drv v1 = p" using w(8) by (auto simp: clean_volume_def)
      ultimately obtain d where d: "dk_read D p ns 1 (dsk v1) = Some (RES_OK, ?S ns, d)" "ready d" "sect d = ?S"
        using read_sector [OF r(1)] w(9) by metis
      let ?fp = "fp1\<lparr>buf := ?S ns, dsect := ns\<rparr>" and ?v = "v1\<lparr>dsk := d\<rparr>"
      have "seek_volume D ofs fp v = Some (FR_OK, ?fp, ?v)"
        unfolding seek_volume_def o Let_def using w(1,2) \<open>?o \<noteq> 0\<close> True d1 nsz d(1) r(2)
        by (simp add: flush_buf_def fill_buf_def)
      moreover have "placed ?S v cs ?fp" using w d1 n by (auto simp: placed_def)
      moreover have "clean_volume p N sect ready ?v" using clean_disk [OF w(8) d(2)] d(3) w(9) by simp
      moreover have "same_file fp ?fp" using w(5) by (simp add: same_file_def)
      ultimately show ?thesis using w(2,10) d(3) by (intro exI [of _ ?fp] exI [of _ ?v]) simp
    qed
  qed
qed

end

section \<open>Files open for reading\<close>

text \<open>A file open for reading on the volume \<open>f\<close>, with the clusters \<open>cs\<close>, and its bytes.\<close>

definition good_file :: "'d disk_ops \<Rightarrow> u8 \<Rightarrow> nat \<Rightarrow> ('d \<Rightarrow> u32 \<Rightarrow> u8 list) \<Rightarrow> ('d \<Rightarrow> bool) \<Rightarrow> nat \<Rightarrow> u32 list \<Rightarrow> 'd ffs \<Rightarrow> FIL \<Rightarrow> bool" where
  "good_file D p N sect live f cs st fp \<longleftrightarrow>
     check_file D FA_READ fp st = FR_OK \<and> fl_fs fp = Some f \<and> fl_flag fp AND FA_WRITE = 0 \<and>
     clean_volume p N sect (readable_disk D p N sect live) (volume_of st f) \<and> data_room N (volume_of st f) \<and>
     fat_chain (fat_value (sect (disk st)) (volume_of st f)) (n_fatent (volume_of st f)) (sclust fp) cs \<and>
     (fl_size fp \<noteq> 0 \<longrightarrow> sclust fp \<noteq> 0) \<and> placed (sect (disk st)) (volume_of st f) cs fp \<and>
     unat (fl_size fp) \<le> length cs * unat (csize (volume_of st f)) * 512 \<and> (\<forall>d. live d \<longrightarrow> \<not> STA_OFF (dk_status D p d))"

definition good_bytes :: "('d \<Rightarrow> u32 \<Rightarrow> u8 list) \<Rightarrow> nat \<Rightarrow> u32 list \<Rightarrow> 'd ffs \<Rightarrow> FIL \<Rightarrow> u8 list" where
  "good_bytes sect f cs st fp = file_bytes (sect (disk st)) (volume_of st f) cs fp"

lemma length_good_bytes [simp]: "length (good_bytes sect f cs st fp) = unat (fl_size fp)"
  by (simp add: good_bytes_def file_bytes_def)

lemma volume_of_fields: "fs_type (objs st f) = fs_type (volume_of st f)" "fs_id (objs st f) = fs_id (volume_of st f)"
  "drv (objs st f) = drv (volume_of st f)"
  by (simp_all add: volume_of_def FATFS.defs volume.defs)

text \<open>An operation that moves the position keeps the file good.\<close>

lemma good_file_moves:
  assumes "good_file D p N sect live f cs st fp" "same_file fp fp1" "placed (sect (disk st)) (volume_of st f) cs fp1"
    and "clean_volume p N sect (readable_disk D p N sect live) (volume_of st1 f)" "sect (disk st1) = sect (disk st)"
    and "meta (volume_of st1 f) = meta (volume_of st f)"
  shows "good_file D p N sect live f cs st1 fp1 \<and> good_bytes sect f cs st1 fp1 = good_bytes sect f cs st fp \<and> fl_size fp1 = fl_size fp"
proof -
  note g = geo_meta [OF assms(6)] and m = meta_fields [OF assms(6)]
  have sf: "fl_fs fp1 = fl_fs fp" "fl_id fp1 = fl_id fp" "fl_flag fp1 = fl_flag fp" "fl_err fp1 = fl_err fp" "fl_size fp1 = fl_size fp"
    "sclust fp1 = sclust fp" using assms(2) by (simp_all add: same_file_def)
  have "live (disk st1)" "drv (volume_of st1 f) = p" using assms(4) by (auto simp: clean_volume_def)
  then have "\<not> STA_OFF (dk_status D (drv (volume_of st1 f)) (disk st1))" using assms(1) by (simp add: good_file_def)
  then have "check_file D FA_READ fp1 st1 = FR_OK"
    using assms(1) sf m by (auto simp: good_file_def check_file_def validate_def volume_of_fields Let_def split: if_splits option.splits)
  moreover have "placed (sect (disk st1)) (volume_of st1 f) cs fp1"
    using assms(3) m unfolding placed_def bytes_geo [OF g] assms(5) by simp
  ultimately have "good_file D p N sect live f cs st1 fp1"
    using assms(1,4) sf m unfolding good_file_def assms(5) fat_value_geo [OF g] data_room_geo [OF g] by simp
  moreover have "good_bytes sect f cs st1 fp1 = good_bytes sect f cs st fp"
    using sf(5) unfolding good_bytes_def assms(5) by (simp add: file_bytes_def bytes_geo [OF g])
  ultimately show ?thesis using sf(5) by simp
qed

lemma lseek_good:
  assumes "good_file D p N sect live f cs st fp"
  shows "\<exists>fp1 st1. ff_lseek D ofs fp st = Some (FR_OK, fp1, st1) \<and> fptr fp1 = min ofs (fl_size fp) \<and>
    good_file D p N sect live f cs st1 fp1 \<and> good_bytes sect f cs st1 fp1 = good_bytes sect f cs st fp \<and> fl_size fp1 = fl_size fp"
proof -
  let ?v = "volume_of st f"
  note g = assms [unfolded good_file_def]
  have c0: "check_file D 0 fp st = FR_OK" using g by (auto simp: check_file_def Let_def split: if_splits)
  obtain fp1 v1 where s: "seek_volume D ofs fp ?v = Some (FR_OK, fp1, v1)" "fptr fp1 = min ofs (fl_size fp)" "same_file fp fp1"
    "placed (sect (disk st)) ?v cs fp1" "clean_volume p N sect (readable_disk D p N sect live) v1" "sect (dsk v1) = sect (disk st)" "meta v1 = meta ?v"
    using readable.seek_volume_ok [of p N sect D live ?v fp cs ofs] g by (auto simp: ac_simps)
  let ?st = "put_volume f v1 st"
  have "ff_lseek D ofs fp st = Some (FR_OK, fp1, ?st)" using c0 g s(1) by (simp add: ff_lseek_def Let_def)
  moreover have "good_file D p N sect live f cs ?st fp1 \<and> good_bytes sect f cs ?st fp1 = good_bytes sect f cs st fp \<and> fl_size fp1 = fl_size fp"
    by (rule good_file_moves [OF assms s(3,4)]) (use s in simp_all)
  ultimately show ?thesis using s(2) by blast
qed

lemma read_good:
  assumes "good_file D p N sect live f cs st fp" "fptr fp \<le> fl_size fp"
  shows "\<exists>fp1 st1. ff_read D btr fp st = Some (FR_OK, take (unat btr) (drop (unat (fptr fp)) (good_bytes sect f cs st fp)), fp1, st1) \<and>
    unat (fptr fp1) = min (unat (fl_size fp)) (unat (fptr fp) + unat btr) \<and>
    good_file D p N sect live f cs st1 fp1 \<and> good_bytes sect f cs st1 fp1 = good_bytes sect f cs st fp \<and> fl_size fp1 = fl_size fp"
proof -
  let ?v = "volume_of st f"
  note g = assms(1) [unfolded good_file_def]
  obtain fp1 st1 where r: "ff_read D btr fp st = Some (FR_OK, take (unat btr) (drop (unat (fptr fp)) (good_bytes sect f cs st fp)), fp1, st1)"
    "unat (fptr fp1) = min (unat (fl_size fp)) (unat (fptr fp) + unat btr)" "same_file fp fp1"
    "placed (sect (disk st1)) (volume_of st1 f) cs fp1" "sect (disk st1) = sect (disk st)"
    "clean_volume p N sect (readable_disk D p N sect live) (volume_of st1 f)" "meta (volume_of st1 f) = meta ?v"
    using read_delivers [of D fp st f ?v p N sect live cs btr] g assms(2) unfolding good_bytes_def by blast
  have "placed (sect (disk st)) ?v cs fp1"
    using r(4) meta_fields [OF r(7)] unfolding placed_def bytes_geo [OF geo_meta [OF r(7)]] r(5) by simp
  then show ?thesis using good_file_moves [OF assms(1) r(3) _ r(6,5,7)] r(1,2) by blast
qed

text \<open>C37: Seeking and then reading delivers the bytes from the place that was sought.  For a file open for
  reading, wherever its position is, \<open>f_lseek\<close> to any offset succeeds, with the position at the offset or, for an offset behind
  the end, at the end; the read that follows returns the bytes of the file from there on, whether the walk along
  the chain went on from the current cluster or started again at the first.\<close>

theorem seek_then_read:
  assumes "check_file D FA_READ fp st = FR_OK" "fl_fs fp = Some f" "volume_of st f = v" "fl_flag fp AND FA_WRITE = 0"
    and v: "clean_volume p N sect (readable_disk D p N sect live) v" "data_room N v"
    and ch: "fat_chain (fat_value (sect (disk st)) v) (n_fatent v) (sclust fp) cs" "fl_size fp \<noteq> 0 \<longrightarrow> sclust fp \<noteq> 0"
    and pl: "placed (sect (disk st)) v cs fp" "unat (fl_size fp) \<le> length cs * unat (csize v) * 512"
    and on: "\<And>d. live d \<Longrightarrow> \<not> STA_OFF (dk_status D p d)"
  shows "\<exists>fp1 st1 fp2 st2. ff_lseek D ofs fp st = Some (FR_OK, fp1, st1) \<and> fptr fp1 = min ofs (fl_size fp) \<and>
    ff_read D btr fp1 st1 =
      Some (FR_OK, take (unat btr) (drop (unat ofs) (file_bytes (sect (disk st)) v cs fp)), fp2, st2)"
proof -
  have d: "volume_of st f = v" using assms(3) .
  have G: "good_file D p N sect live f cs st fp"
    unfolding good_file_def d using assms by blast
  obtain fp1 st1 where s: "ff_lseek D ofs fp st = Some (FR_OK, fp1, st1)" "fptr fp1 = min ofs (fl_size fp)"
    "good_file D p N sect live f cs st1 fp1" "good_bytes sect f cs st1 fp1 = good_bytes sect f cs st fp" "fl_size fp1 = fl_size fp"
    using lseek_good [OF G] by blast
  have "drop (unat (min ofs (fl_size fp))) xs = drop (unat ofs) xs" if "length xs = unat (fl_size fp)" for xs :: "u8 list"
    using that by (auto simp: min_def word_le_nat_alt)
  then have "drop (unat (fptr fp1)) (good_bytes sect f cs st1 fp1) = drop (unat ofs) (good_bytes sect f cs st fp)"
    by (simp only: s(2,4) length_good_bytes)
  moreover have "fptr fp1 \<le> fl_size fp1" by (simp add: s(2,5))
  ultimately show ?thesis using read_good [OF s(3), of btr] s(1,2) unfolding good_bytes_def d by auto
qed

theorem seek_then_read_witness:
  "\<exists>fp1 st1 fp2 st2. ff_lseek ram_disk 510 sample_file sample_state = Some (FR_OK, fp1, st1) \<and>
     ff_read ram_disk 4 fp1 st1 = Some (FR_OK, [7, 7, 9, 9], fp2, st2)"
proof -
  have s: "fl_flag sample_file AND FA_WRITE = 0" "fl_size sample_file \<noteq> 0 \<longrightarrow> sclust sample_file \<noteq> 0"
    by (simp_all add: sample_file_def FA_READ_def FA_WRITE_def)
  have on: "\<not> STA_OFF (dk_status ram_disk 0 d)" for d by (simp add: ram_disk_def STA_OFF_def)
  have "take (unat (4 :: u32)) (drop (unat (510 :: u32)) (replicate 512 7 @ replicate 188 9)) = replicate 2 7 @ replicate 2 (9 :: u8)"
    by simp
  moreover have "replicate 2 7 @ replicate 2 9 = [7, 7, 9, 9 :: u8]" by (simp add: numeral_eq_Suc)
  ultimately show ?thesis
    using seek_then_read [where ofs = 510 and btr = 4 and sect = "\<lambda>d. d" and live = whole and cs = "[2, 3]",
        OF sample_file_ok(1,2) sample_state_volume s(1) sample_file_ok(3-5) s(2) sample_file_ok(6,8) on]
    unfolding sample_file_bytes by auto
qed

end
