(* ===== verification/FatDir.thy ===== *)
theory FatDir
  imports FatFile
begin

text \<open>
  Directories of FatFs (hello/ff.c, short names): the walk over the entries of a directory, which is a chain of
  clusters or the fixed area of the root directory of a volume with 12- or 16-bit entries; finding, reading, allocating,
  registering and removing entries; the conversion of the segments of a path to the names in entries.
\<close>

section \<open>Directory objects\<close>

text \<open>The pointer \<open>dir\<close> into the window is an offset; \<open>fn\<close>, the buffer of the short name and its flags, is
  held by value.\<close>

record DIR =
  dj_fs :: "nat option"
  dj_id :: u16
  dj_index :: u16
  dj_sclust :: u32
  dj_clust :: u32
  dj_sect :: u32
  dj_dir :: "nat option"
  dj_fn :: "u8 list"

record FILINFO =
  fi_size :: u32
  fi_date :: u16
  fi_time :: u16
  fi_attrib :: u8
  fi_name :: "u8 list"

definition AM_RDO :: u8 where "AM_RDO = 0x01"
definition AM_HID :: u8 where "AM_HID = 0x02"
definition AM_SYS :: u8 where "AM_SYS = 0x04"
definition AM_VOL :: u8 where "AM_VOL = 0x08"
definition AM_LFN :: u8 where "AM_LFN = 0x0F"
definition AM_DIR :: u8 where "AM_DIR = 0x10"
definition AM_ARC :: u8 where "AM_ARC = 0x20"
definition AM_MASK :: u8 where "AM_MASK = 0x3F"

text \<open>The mark of a deleted entry, and the byte that stands for it in a name.\<close>

definition DDEM :: u8 where "DDEM = 0xE5"
definition RDDEM :: u8 where "RDDEM = 0x05"

text \<open>The offset of the current entry in the window, and a byte of it.\<close>

abbreviation entry_at :: "DIR \<Rightarrow> nat" where
  "entry_at dp \<equiv> the (dj_dir dp)"

abbreviation entry_byte :: "DIR \<Rightarrow> nat \<Rightarrow> 'd volume \<Rightarrow> u8" where
  "entry_byte dp k v \<equiv> win v ! (entry_at dp + k)"

definition ld_clust :: "'d volume \<Rightarrow> nat \<Rightarrow> u32" where
  "ld_clust v i =
     (let cl = ucast (LD_WORD (win v) (i + 26)) in
      if fs_type v = FS_FAT32 then cl OR push_bit 16 (ucast (LD_WORD (win v) (i + 20))) else cl)"

section \<open>The walk over a directory\<close>

text \<open>Set the index: follow the chain to the cluster of the entry.\<close>

partial_function (option) sdi_loop ::
  "'d disk_ops \<Rightarrow> u32 \<Rightarrow> u32 \<Rightarrow> u32 \<Rightarrow> 'd volume \<Rightarrow> (FRESULT \<times> u32 \<times> u32 \<times> 'd volume) option" where
  "sdi_loop D ic idx clst v =
     (if idx \<ge> ic then
        (case get_fat D clst v of
           None \<Rightarrow> None
         | Some (clst, v) \<Rightarrow>
             if clst = 0xFFFFFFFF then Some (FR_DISK_ERR, idx, clst, v)
             else if clst < 2 \<or> clst \<ge> n_fatent v then Some (FR_INT_ERR, idx, clst, v)
             else sdi_loop D ic (idx - ic) clst v)
      else Some (FR_OK, idx, clst, v))"

definition dir_set :: "u32 \<Rightarrow> u32 \<Rightarrow> u32 \<Rightarrow> DIR \<Rightarrow> FRESULT \<times> DIR" where
  "dir_set clst sect idx dp =
     (let dp = dp\<lparr>dj_clust := clst\<rparr> in
      if sect = 0 then (FR_INT_ERR, dp)
      else (FR_OK, dp\<lparr>dj_sect := sect + idx div 16, dj_dir := Some (unat (idx mod 16) * 32)\<rparr>))"

definition dir_sdi :: "'d disk_ops \<Rightarrow> u32 \<Rightarrow> DIR \<Rightarrow> 'd volume \<Rightarrow> (FRESULT \<times> DIR \<times> 'd volume) option" where
  "dir_sdi D idx dp v =
     (let dp = dp\<lparr>dj_index := ucast idx\<rparr>; clst = dj_sclust dp in
      if clst = 1 \<or> clst \<ge> n_fatent v then Some (FR_INT_ERR, dp, v)
      else
        (let clst = (if clst = 0 \<and> fs_type v = FS_FAT32 then dirbase v else clst) in
         if clst = 0 then
           (if idx \<ge> ucast (n_rootdir v) then Some (FR_INT_ERR, dp, v)
            else (let (res, dp) = dir_set 0 (dirbase v) idx dp in Some (res, dp, v)))
         else
           do { (res, idx, clst, v) \<leftarrow> sdi_loop D (16 * ucast (csize v)) idx clst v;
                if res \<noteq> FR_OK then Some (res, dp, v)
                else (let (res, dp) = dir_set clst (clust2sect v clst) idx dp in Some (res, dp, v)) }))"

text \<open>A cluster added to a directory is filled with zeros through the window.\<close>

fun zero_cluster :: "'d disk_ops \<Rightarrow> nat \<Rightarrow> 'd volume \<Rightarrow> (bool \<times> 'd volume) option" where
  "zero_cluster D (Suc n) v =
     do { (res, v) \<leftarrow> sync_window D (v\<lparr>wflag := 1\<rparr>);
          if res \<noteq> FR_OK then Some (False, v) else zero_cluster D n (v\<lparr>winsect := winsect v + 1\<rparr>) }"
| "zero_cluster D 0 v = Some (True, v)"

definition clear_cluster :: "'d disk_ops \<Rightarrow> u32 \<Rightarrow> 'd volume \<Rightarrow> (bool \<times> 'd volume) option" where
  "clear_cluster D clst v =
     do { (res, v) \<leftarrow> sync_window D v;
          if res \<noteq> FR_OK then Some (False, v)
          else
            do { (ok, v) \<leftarrow> zero_cluster D (unat (csize v)) (v\<lparr>win := replicate 512 0, winsect := clust2sect v clst\<rparr>);
                 Some (ok, if ok then v\<lparr>winsect := winsect v - ucast (csize v)\<rparr> else v) } }"

text \<open>The cluster after the current one, which may be allocated.\<close>

definition dir_cluster :: "'d disk_ops \<Rightarrow> bool \<Rightarrow> u32 \<Rightarrow> 'd volume \<Rightarrow> (FRESULT \<times> u32 \<times> 'd volume) option" where
  "dir_cluster D stretch c v =
     do { (clst, v) \<leftarrow> get_fat D c v;
          if clst \<le> 1 then Some (FR_INT_ERR, clst, v)
          else if clst = 0xFFFFFFFF then Some (FR_DISK_ERR, clst, v)
          else if clst \<ge> n_fatent v then
            (if \<not> stretch then Some (FR_NO_FILE, clst, v)
             else
               do { (clst, v) \<leftarrow> create_chain D c v;
                    if clst = 0 then Some (FR_DENIED, clst, v)
                    else if clst = 1 then Some (FR_INT_ERR, clst, v)
                    else if clst = 0xFFFFFFFF then Some (FR_DISK_ERR, clst, v)
                    else
                      do { (ok, v) \<leftarrow> clear_cluster D clst v;
                           Some (if ok then FR_OK else FR_DISK_ERR, clst, v) } })
          else Some (FR_OK, clst, v) }"

definition dir_next :: "'d disk_ops \<Rightarrow> bool \<Rightarrow> DIR \<Rightarrow> 'd volume \<Rightarrow> (FRESULT \<times> DIR \<times> 'd volume) option" where
  "dir_next D stretch dp v =
     (let i = ucast (dj_index dp) + 1 :: u32;
          here = (\<lambda>dp. dp\<lparr>dj_index := ucast i, dj_dir := Some (unat (i mod 16) * 32)\<rparr>) in
      if i AND 0xFFFF = 0 \<or> dj_sect dp = 0 then Some (FR_NO_FILE, dp, v)
      else if i mod 16 \<noteq> 0 then Some (FR_OK, here dp, v)
      else
        (let dp = dp\<lparr>dj_sect := dj_sect dp + 1\<rparr> in
         if dj_clust dp = 0 then
           Some (if i \<ge> ucast (n_rootdir v) then (FR_NO_FILE, dp, v) else (FR_OK, here dp, v))
         else if (i div 16) AND (ucast (csize v) - 1) = 0 then
           do { (res, clst, v) \<leftarrow> dir_cluster D stretch (dj_clust dp) v;
                Some (if res \<noteq> FR_OK then (res, dp, v)
                      else (FR_OK, here (dp\<lparr>dj_clust := clst, dj_sect := clust2sect v clst\<rparr>), v)) }
         else Some (FR_OK, here dp, v)))"

section \<open>Entries\<close>

partial_function (option) alloc_loop ::
  "'d disk_ops \<Rightarrow> u32 \<Rightarrow> u32 \<Rightarrow> DIR \<Rightarrow> 'd volume \<Rightarrow> (FRESULT \<times> DIR \<times> 'd volume) option" where
  "alloc_loop D nent n dp v =
     (case move_window D (dj_sect dp) v of
        None \<Rightarrow> None
      | Some (res, v) \<Rightarrow>
          if res \<noteq> FR_OK then Some (res, dp, v)
          else
            (let free = entry_byte dp 0 v = DDEM \<or> entry_byte dp 0 v = 0; n = (if free then n + 1 else 0) in
             if free \<and> n = nent then Some (FR_OK, dp, v)
             else
               (case dir_next D True dp v of
                  None \<Rightarrow> None
                | Some (res, dp, v) \<Rightarrow> if res = FR_OK then alloc_loop D nent n dp v else Some (res, dp, v))))"

definition dir_alloc :: "'d disk_ops \<Rightarrow> u32 \<Rightarrow> DIR \<Rightarrow> 'd volume \<Rightarrow> (FRESULT \<times> DIR \<times> 'd volume) option" where
  "dir_alloc D nent dp v =
     do { (res, dp, v) \<leftarrow> dir_sdi D 0 dp v;
          (res, dp, v) \<leftarrow> (if res = FR_OK then alloc_loop D nent 0 dp v else Some (res, dp, v));
          Some (if res = FR_NO_FILE then FR_DENIED else res, dp, v) }"

definition entry_matches :: "DIR \<Rightarrow> 'd volume \<Rightarrow> bool" where
  "entry_matches dp v \<longleftrightarrow>
     entry_byte dp 11 v AND AM_VOL = 0 \<and> take 11 (drop (entry_at dp) (win v)) = take 11 (dj_fn dp)"

partial_function (option) find_loop :: "'d disk_ops \<Rightarrow> DIR \<Rightarrow> 'd volume \<Rightarrow> (FRESULT \<times> DIR \<times> 'd volume) option" where
  "find_loop D dp v =
     (case move_window D (dj_sect dp) v of
        None \<Rightarrow> None
      | Some (res, v) \<Rightarrow>
          if res \<noteq> FR_OK then Some (res, dp, v)
          else if entry_byte dp 0 v = 0 then Some (FR_NO_FILE, dp, v)
          else if entry_matches dp v then Some (FR_OK, dp, v)
          else
            (case dir_next D False dp v of
               None \<Rightarrow> None
             | Some (res, dp, v) \<Rightarrow> if res = FR_OK then find_loop D dp v else Some (res, dp, v)))"

definition dir_find :: "'d disk_ops \<Rightarrow> DIR \<Rightarrow> 'd volume \<Rightarrow> (FRESULT \<times> DIR \<times> 'd volume) option" where
  "dir_find D dp v =
     do { (res, dp, v) \<leftarrow> dir_sdi D 0 dp v;
          if res \<noteq> FR_OK then Some (res, dp, v) else find_loop D dp v }"

text \<open>An entry of the kind asked for: a label of the volume, or a file or directory.\<close>

definition entry_shown :: "bool \<Rightarrow> DIR \<Rightarrow> 'd volume \<Rightarrow> bool" where
  "entry_shown label dp v \<longleftrightarrow>
     (let a = entry_byte dp 11 v AND AM_MASK in
      entry_byte dp 0 v \<noteq> DDEM \<and> a \<noteq> AM_LFN \<and> (a AND NOT AM_ARC = AM_VOL) = label)"

partial_function (option) dir_read_loop ::
  "'d disk_ops \<Rightarrow> bool \<Rightarrow> FRESULT \<Rightarrow> DIR \<Rightarrow> 'd volume \<Rightarrow> (FRESULT \<times> DIR \<times> 'd volume) option" where
  "dir_read_loop D label res dp v =
     (if dj_sect dp = 0 then Some (res, dp, v)
      else
        (case move_window D (dj_sect dp) v of
           None \<Rightarrow> None
         | Some (res, v) \<Rightarrow>
             if res \<noteq> FR_OK then Some (res, dp, v)
             else if entry_byte dp 0 v = 0 then Some (FR_NO_FILE, dp, v)
             else if entry_shown label dp v then Some (FR_OK, dp, v)
             else
               (case dir_next D False dp v of
                  None \<Rightarrow> None
                | Some (res, dp, v) \<Rightarrow>
                    if res = FR_OK then dir_read_loop D label res dp v else Some (res, dp, v))))"

definition dir_read :: "'d disk_ops \<Rightarrow> bool \<Rightarrow> DIR \<Rightarrow> 'd volume \<Rightarrow> (FRESULT \<times> DIR \<times> 'd volume) option" where
  "dir_read D label dp v =
     do { (res, dp, v) \<leftarrow> dir_read_loop D label FR_NO_FILE dp v;
          Some (res, if res \<noteq> FR_OK then dp\<lparr>dj_sect := 0\<rparr> else dp, v) }"

text \<open>Bytes put over a part of the window.\<close>

definition put_bytes :: "nat \<Rightarrow> u8 list \<Rightarrow> u8 list \<Rightarrow> u8 list" where
  "put_bytes i xs bs = take i bs @ xs @ drop (i + length xs) bs"

definition dir_register :: "'d disk_ops \<Rightarrow> DIR \<Rightarrow> 'd volume \<Rightarrow> (FRESULT \<times> DIR \<times> 'd volume) option" where
  "dir_register D dp v =
     do { (res, dp, v) \<leftarrow> dir_alloc D 1 dp v;
          if res \<noteq> FR_OK then Some (res, dp, v)
          else
            do { (res, v) \<leftarrow> move_window D (dj_sect dp) v;
                 Some (res, dp,
                   if res = FR_OK
                   then set_win (put_bytes (entry_at dp) (take 11 (dj_fn dp)) (put_bytes (entry_at dp) (replicate 32 0) (win v))) v
                   else v) } }"

definition dir_remove :: "'d disk_ops \<Rightarrow> DIR \<Rightarrow> 'd volume \<Rightarrow> (FRESULT \<times> DIR \<times> 'd volume) option" where
  "dir_remove D dp v =
     do { (res, dp, v) \<leftarrow> dir_sdi D (ucast (dj_index dp)) dp v;
          if res \<noteq> FR_OK then Some (res, dp, v)
          else
            do { (res, v) \<leftarrow> move_window D (dj_sect dp) v;
                 Some (res, dp,
                   if res = FR_OK then set_win ((put_bytes (entry_at dp) (replicate 32 0) (win v))[entry_at dp := DDEM]) v
                   else v) } }"

text \<open>The name in an entry, without its padding and with the dot.\<close>

definition entry_name :: "nat \<Rightarrow> u8 list \<Rightarrow> u8 list" where
  "entry_name i bs =
     concat (map (\<lambda>k. let c = bs ! (i + k) in
       if c = 0x20 then [] else (if k = 8 then [0x2E] else []) @ [if c = RDDEM then DDEM else c]) [0..<11])"

definition get_fileinfo :: "DIR \<Rightarrow> 'd volume \<Rightarrow> FILINFO \<Rightarrow> FILINFO" where
  "get_fileinfo dp v fno =
     (if dj_sect dp \<noteq> 0 then
        (let i = entry_at dp in
         \<lparr>fi_size = LD_DWORD (win v) (i + 28), fi_date = LD_WORD (win v) (i + 24), fi_time = LD_WORD (win v) (i + 22),
          fi_attrib = entry_byte dp 11 v, fi_name = entry_name i (win v)\<rparr>)
      else fno\<lparr>fi_name := []\<rparr>)"

section \<open>Names\<close>

text \<open>A path is a string without its terminating zero; a pointer into it is the rest of the string.\<close>

definition NS_LAST :: u8 where "NS_LAST = 0x04"
definition NS_BODY :: u8 where "NS_BODY = 0x08"
definition NS_EXT :: u8 where "NS_EXT = 0x10"
definition NS_DOT :: u8 where "NS_DOT = 0x20"

definition front :: "u8 list \<Rightarrow> u8" where
  "front p = (case p of [] \<Rightarrow> 0 | c # _ \<Rightarrow> c)"

abbreviation is_sep :: "u8 \<Rightarrow> bool" where
  "is_sep c \<equiv> c = 0x2F \<or> c = 0x5C"

definition IsUpper :: "u8 \<Rightarrow> bool" where "IsUpper c \<longleftrightarrow> 0x41 \<le> c \<and> c \<le> 0x5A"
definition IsLower :: "u8 \<Rightarrow> bool" where "IsLower c \<longleftrightarrow> 0x61 \<le> c \<and> c \<le> 0x7A"

text \<open>The characters a short name must not have.\<close>

definition illegal_chars :: "u8 list" where
  "illegal_chars = [0x22, 0x2A, 0x2B, 0x2C, 0x3A, 0x3B, 0x3C, 0x3D, 0x3E, 0x3F, 0x5B, 0x5D, 0x7C, 0x7F]"

text \<open>The dots of a segment that starts with one, at most two, and the character after them.\<close>

fun dot_seg :: "nat \<Rightarrow> u8 list \<Rightarrow> u8 list \<Rightarrow> u8 \<times> u8 list \<times> u8 list" where
  "dot_seg 0 p sfn = (front p, tl p, sfn)"
| "dot_seg (Suc k) p sfn = (if front p \<noteq> 0x2E then (front p, tl p, sfn) else dot_seg k (tl p) (sfn @ [0x2E]))"

record name_scan =
  ns_res :: FRESULT
  ns_char :: u8
  ns_rest :: "u8 list"
  ns_i :: nat
  ns_ni :: nat
  ns_b :: u8
  ns_sfn :: "u8 list"

fun name_loop :: "u8 list \<Rightarrow> nat \<Rightarrow> nat \<Rightarrow> u8 \<Rightarrow> u8 list \<Rightarrow> name_scan" where
  "name_loop [] i ni b sfn =
     \<lparr>ns_res = FR_OK, ns_char = 0, ns_rest = [], ns_i = i, ns_ni = ni, ns_b = b, ns_sfn = sfn\<rparr>"
| "name_loop (c # p) i ni b sfn =
     (let stop = (\<lambda>res. \<lparr>ns_res = res, ns_char = c, ns_rest = p, ns_i = i, ns_ni = ni, ns_b = b, ns_sfn = sfn\<rparr>) in
      if c \<le> 0x20 \<or> is_sep c then stop FR_OK
      else if c = 0x2E \<or> i \<ge> ni then
        (if ni \<noteq> 8 \<or> c \<noteq> 0x2E then stop FR_INVALID_NAME else name_loop p 8 11 (push_bit 2 b) sfn)
      else if c \<ge> 0x80 then stop FR_INVALID_NAME
      else if c \<in> set illegal_chars then stop FR_INVALID_NAME
      else if IsUpper c then name_loop p (i + 1) ni (b OR 2) (sfn[i := c])
      else if IsLower c then name_loop p (i + 1) ni (b OR 1) (sfn[i := c - 0x20])
      else name_loop p (i + 1) ni b (sfn[i := c]))"

text \<open>The flags of the name: last segment, and whether the body or the extension is in small letters.\<close>

definition name_flags :: "name_scan \<Rightarrow> u8" where
  "name_flags n =
     (let b = (if ns_ni n = 8 then push_bit 2 (ns_b n) else ns_b n) in
      (if ns_char n \<le> 0x20 then NS_LAST else 0) OR (if b AND 0x03 = 0x01 then NS_EXT else 0) OR
      (if b AND 0x0C = 0x04 then NS_BODY else 0))"

definition create_name :: "u8 list \<Rightarrow> u8 list \<Rightarrow> FRESULT \<times> u8 list \<times> u8 list" where
  "create_name fn path =
     (let p = dropWhile is_sep path; sfn = replicate 11 0x20 @ [fn ! 11] in
      if front p = 0x2E then
        (let (c, rest, dots) = dot_seg 2 p []; sfn = put_bytes 0 dots sfn in
         if \<not> is_sep c \<and> c > 0x20 then (FR_INVALID_NAME, sfn, path)
         else (FR_OK, sfn[11 := if c \<le> 0x20 then NS_LAST OR NS_DOT else NS_DOT], rest))
      else
        (let n = name_loop p 0 8 0 sfn; sfn = ns_sfn n in
         if ns_res n \<noteq> FR_OK then (ns_res n, sfn, path)
         else if ns_i n = 0 then (FR_INVALID_NAME, sfn, ns_rest n)
         else
           (let sfn = (if sfn ! 0 = DDEM then sfn[0 := RDDEM] else sfn)
            in (FR_OK, sfn[11 := name_flags n], ns_rest n))))"

section \<open>Following a path\<close>

text \<open>A directory that has no entry for a dot name is the root directory, where the walk stays.\<close>

partial_function (option) follow_loop ::
  "'d disk_ops \<Rightarrow> u8 list \<Rightarrow> DIR \<Rightarrow> 'd volume \<Rightarrow> (FRESULT \<times> DIR \<times> 'd volume) option" where
  "follow_loop D path dp v =
     (case create_name (dj_fn dp) path of (res, fn, path) \<Rightarrow>
        if res \<noteq> FR_OK then Some (res, dp\<lparr>dj_fn := fn\<rparr>, v)
        else
          (case dir_find D (dp\<lparr>dj_fn := fn\<rparr>) v of
             None \<Rightarrow> None
           | Some (res, dp, v) \<Rightarrow>
               let ns = dj_fn dp ! 11 in
               if res = FR_NO_FILE then
                 (if ns AND NS_DOT \<noteq> 0 then
                    (let dp = dp\<lparr>dj_sclust := 0, dj_dir := None\<rparr> in
                     if ns AND NS_LAST = 0 then follow_loop D path dp v else Some (FR_OK, dp, v))
                  else Some (if ns AND NS_LAST = 0 then FR_NO_PATH else FR_NO_FILE, dp, v))
               else if res \<noteq> FR_OK then Some (res, dp, v)
               else if ns AND NS_LAST \<noteq> 0 then Some (FR_OK, dp, v)
               else if entry_byte dp 11 v AND AM_DIR = 0 then Some (FR_NO_PATH, dp, v)
               else follow_loop D path (dp\<lparr>dj_sclust := ld_clust v (entry_at dp)\<rparr>) v))"

definition follow_path :: "'d disk_ops \<Rightarrow> u8 list \<Rightarrow> DIR \<Rightarrow> 'd volume \<Rightarrow> (FRESULT \<times> DIR \<times> 'd volume) option" where
  "follow_path D path dp v =
     (let (path, dp) = (if is_sep (front path) then (tl path, dp\<lparr>dj_sclust := 0\<rparr>) else (path, dp\<lparr>dj_sclust := cdir v\<rparr>)) in
      if front path < 0x20 then
        do { (res, dp, v) \<leftarrow> dir_sdi D 0 dp v; Some (res, dp\<lparr>dj_dir := None\<rparr>, v) }
      else follow_loop D path dp v)"

end
