(* ===== verification/FatNames.thy ===== *)
theory FatNames
  imports FatDir
begin

text \<open>
  Short names in FatFs: what the conversion of a path segment to the bytes of a directory entry makes of a name, and
  that the name read back from an entry is the one that was given.
\<close>

section \<open>Names of files\<close>

text \<open>A character of a short name, and its capital.\<close>

definition name_char :: "u8 \<Rightarrow> bool" where
  "name_char c \<longleftrightarrow> 0x20 < c \<and> c < 0x80 \<and> \<not> is_sep c \<and> c \<noteq> 0x2E \<and> c \<notin> set illegal_chars"

definition capital :: "u8 \<Rightarrow> u8" where
  "capital c = (if IsLower c then c - 0x20 else c)"

definition case_bits :: "u8 list \<Rightarrow> u8 \<Rightarrow> u8" where
  "case_bits = fold (\<lambda>c b. if IsUpper c then b OR 2 else if IsLower c then b OR 1 else b)"

lemma put_bytes_simps [simp]:
  "put_bytes i [] bs = bs" "i < length bs \<Longrightarrow> put_bytes i (x # xs) bs = put_bytes (Suc i) xs (bs[i := x])"
  by (simp_all add: put_bytes_def take_Suc_conv_app_nth)

lemma name_loop_chars:
  assumes "\<forall>c\<in>set cs. name_char c" "i + length cs \<le> ni" "ni \<le> length sfn"
  shows "name_loop (cs @ p) i ni b sfn = name_loop p (i + length cs) ni (case_bits cs b) (put_bytes i (map capital cs) sfn)"
  using assms
proof (induction cs arbitrary: i b sfn)
  case (Cons c cs)
  have "name_char c" using Cons.prems(1) by simp
  then have c: "\<not> c \<le> 0x20" "\<not> is_sep c" "c \<noteq> 0x2E" "\<not> 0x80 \<le> c" "c \<notin> set illegal_chars" "\<not> i \<ge> ni"
    using Cons.prems(2) by (auto simp: name_char_def not_le not_less)
  have "\<not> (IsUpper c \<and> IsLower c)" by (auto simp: IsUpper_def IsLower_def word_le_nat_alt)
  then show ?case
    using Cons.IH [of "Suc i"] Cons.prems c by (auto simp: case_bits_def capital_def simp del: name_loop.simps(1))
qed (simp add: case_bits_def)

lemma dropWhile_name: "name_char c \<Longrightarrow> dropWhile is_sep (c # p) = c # p"
  by (auto simp: name_char_def)

text \<open>The end of a segment: the end of the string, a character up to the space, or a separator.\<close>

definition segment_end :: "u8 list \<Rightarrow> bool" where
  "segment_end r \<longleftrightarrow> r = [] \<or> hd r \<le> 0x20 \<or> is_sep (hd r)"

definition padded :: "nat \<Rightarrow> u8 list \<Rightarrow> u8 list" where
  "padded n cs = map capital cs @ replicate (n - length cs) 0x20"

lemma name_loop_end:
  "segment_end r \<Longrightarrow> name_loop r i ni b sfn =
     \<lparr>ns_res = FR_OK, ns_char = front r, ns_rest = tl r, ns_i = i, ns_ni = ni, ns_b = b, ns_sfn = sfn\<rparr>"
  by (cases r) (auto simp: segment_end_def front_def)

lemma put_bytes_nth:
  "i + length xs \<le> length bs \<Longrightarrow> k < length bs \<Longrightarrow>
     put_bytes i xs bs ! k = (if i \<le> k \<and> k < i + length xs then xs ! (k - i) else bs ! k)"
  by (auto simp: put_bytes_def nth_append)

lemma length_put_bytes [simp]: "i + length xs \<le> length bs \<Longrightarrow> length (put_bytes i xs bs) = length bs"
  by (simp add: put_bytes_def)

text \<open>What the conversion makes of a body and an extension.\<close>

lemma name_loop_name:
  assumes "\<forall>c\<in>set body. name_char c" "length body \<le> 8" "\<forall>c\<in>set ext. name_char c" "length ext \<le> 3" "segment_end r" "length sfn = 12"
  shows "\<exists>b i ni. name_loop (body @ (if ext = [] then [] else 0x2E # ext) @ r) 0 8 0 sfn =
    \<lparr>ns_res = FR_OK, ns_char = front r, ns_rest = tl r, ns_i = i, ns_ni = ni, ns_b = b,
      ns_sfn = put_bytes 8 (map capital ext) (put_bytes 0 (map capital body) sfn)\<rparr> \<and> (body \<noteq> [] \<longrightarrow> 0 < i)"
proof (cases "ext = []")
  case True
  then show ?thesis using assms name_loop_chars [OF assms(1), of 0 8 sfn r 0] name_loop_end [OF assms(5)] by simp
next
  case False
  have d: "name_loop (0x2E # p) i 8 b s = name_loop p 8 11 (push_bit 2 b) s" for p i b s by simp
  show ?thesis
    using False assms name_loop_chars [OF assms(1), of 0 8 sfn "0x2E # ext @ r" 0]
      name_loop_chars [OF assms(3), of 8 11 "put_bytes 0 (map capital body) sfn" r] name_loop_end [OF assms(5)]
    by (simp add: d del: name_loop.simps)
qed

lemma capital_name:
  assumes "name_char c"
  shows "capital c \<noteq> RDDEM" "capital c \<noteq> DDEM" "capital c \<noteq> 0x20"
proof -
  have c: "32 < unat c" "unat c < 128" using assms by (simp_all add: name_char_def word_less_nat_alt)
  have "32 < unat (capital c) \<and> unat (capital c) < 128"
  proof (cases "IsLower c")
    case True
    then have "97 \<le> unat c" by (simp add: IsLower_def word_le_nat_alt)
    then have "unat (c - 0x20) = unat c - 32" by (simp add: unat_sub_if')
    then show ?thesis using True c(2) \<open>97 \<le> unat c\<close> by (simp add: capital_def) linarith
  qed (use c in \<open>simp add: capital_def\<close>)
  then show "capital c \<noteq> RDDEM" "capital c \<noteq> DDEM" "capital c \<noteq> 0x20" by (auto simp: RDDEM_def DDEM_def)
qed

lemma concat_some:
  "concat (map (\<lambda>k. if k < length xs then [xs ! k] else []) [0..<length xs + m]) = xs"
proof (induction m)
  case 0
  have "map (\<lambda>k. if k < length xs then [xs ! k] else []) [0..<length xs] = map (\<lambda>x. [x]) xs"
    by (rule nth_equalityI) simp_all
  then show ?case by simp
qed simp

lemma entry_name_padded:
  assumes "\<forall>c\<in>set body. name_char c" "length body \<le> 8" "\<forall>c\<in>set ext. name_char c" "length ext \<le> 3"
    and "take 11 (drop i w) = padded 8 body @ padded 3 ext"
  shows "entry_name i w = map capital body @ (if ext = [] then [] else 0x2E # map capital ext)"
proof -
  let ?e = "padded 8 body @ padded 3 ext"
  have l: "length (padded 8 body) = 8" "length ?e = 11" using assms(2,4) by (simp_all add: padded_def)
  have w: "w ! (i + k) = ?e ! k" if "k < 11" for k
  proof -
    have "length (take 11 (drop i w)) = 11" using assms(5) l by simp
    then have "i + k < length w" using that by (auto simp: min_def split: if_splits)
    then have "take 11 (drop i w) ! k = w ! (i + k)" using that by simp
    then show ?thesis using assms(5) by simp
  qed
  let ?f = "\<lambda>k. let c = w ! (i + k) in
       if c = 0x20 then [] else (if k = 8 then [0x2E] else []) @ [if c = RDDEM then DDEM else c]"
  have "map ?f [0..<8] = map (\<lambda>k. if k < length (map capital body) then [map capital body ! k] else []) [0..<8]"
  proof (rule map_cong [OF refl])
    fix k :: nat assume "k \<in> set [0..<8]"
    then have k: "k < 8" by simp
    then have "w ! (i + k) = (if k < length body then capital (body ! k) else 0x20)"
      using w [of k] l assms(2) by (auto simp: nth_append padded_def)
    then show "?f k = (if k < length (map capital body) then [map capital body ! k] else [])"
      using k assms(1) capital_name [of "body ! k"] by (auto simp: Let_def)
  qed
  moreover have "concat (map (\<lambda>k. if k < length (map capital body) then [map capital body ! k] else []) [0..<8]) = map capital body"
    using concat_some [of "map capital body" "8 - length body"] assms(2) by simp
  ultimately have 1: "concat (map ?f [0..<8]) = map capital body" by (rule ssubst)
  have e: "w ! (i + 8) = padded 3 ext ! 0" "w ! (i + 9) = padded 3 ext ! 1" "w ! (i + 10) = padded 3 ext ! 2"
    using w [of 8] w [of 9] w [of 10] l(1) by (simp_all add: nth_append)
  have u: "[8..<11] = [8, 9, 10 :: nat]" by (simp add: upt_rec)
  have 2: "concat (map ?f [8..<11]) = (if ext = [] then [] else 0x2E # map capital ext)"
  proof -
    have n: "capital c \<noteq> 0x20" "capital c \<noteq> RDDEM" if "c \<in> set ext" for c using assms(3) that capital_name by auto
    from assms(4) consider "ext = []" | a where "ext = [a]" | a b where "ext = [a, b]" | a b c where "ext = [a, b, c]"
      by (cases ext rule: list.exhaust [case_product list.exhaust]; cases "tl ext"; cases "tl (tl ext)"; cases "tl (tl (tl ext))"; fastforce)
    then show ?thesis
      unfolding u by cases (use n e in \<open>auto simp: padded_def Let_def numeral_eq_Suc\<close>)
  qed
  have "[0..<11] = [0..<8] @ [8..<11 :: nat]" by (simp add: upt_rec)
  then show ?thesis unfolding entry_name_def using 1 2 by (simp only: map_append concat_append)
qed

text \<open>C38: Names survive the way into a directory entry and back.  For a path that starts with a name of one to eight
  characters and an extension of up to three, none of them forbidden, \<open>create_name\<close> succeeds, makes the eleven bytes of the
  entry the body and the extension in capitals, each padded with spaces, sets the flag of the last segment exactly when the path
  ends there, and leaves the rest of the path; and the name that \<open>get_fileinfo\<close> makes of
  these eleven bytes, wherever the entry lies in the window, is the name that was given, in capitals.\<close>

theorem names_round_trip:
  assumes "\<forall>c\<in>set body. name_char c" "0 < length body" "length body \<le> 8" "\<forall>c\<in>set ext. name_char c" "length ext \<le> 3" "segment_end r"
  shows "\<exists>sfn. create_name fn (body @ (if ext = [] then [] else 0x2E # ext) @ r) = (FR_OK, sfn, tl r) \<and>
    length sfn = 12 \<and> take 11 sfn = padded 8 body @ padded 3 ext \<and>
    (sfn ! 11 AND NS_LAST \<noteq> 0 \<longleftrightarrow> front r \<le> 0x20) \<and> sfn ! 11 AND NS_DOT = 0 \<and>
    (\<forall>w i. take 11 (drop i w) = take 11 sfn \<longrightarrow>
       entry_name i w = map capital body @ (if ext = [] then [] else 0x2E # map capital ext))"
proof -
  let ?p = "body @ (if ext = [] then [] else 0x2E # ext) @ r" and ?s = "replicate 11 0x20 @ [fn ! 11]"
  let ?t = "put_bytes 8 (map capital ext) (put_bytes 0 (map capital body) ?s)"
  obtain c cs where c: "body = c # cs" "name_char c" using assms(1,2) by (cases body) auto
  have d: "dropWhile is_sep ?p = ?p" "front ?p \<noteq> 0x2E"
    using c dropWhile_name [OF c(2)] by (auto simp: front_def name_char_def)
  have "length ?s = 12" by simp
  from name_loop_name [OF assms(1,3-6) this] obtain b i ni where n: "name_loop ?p 0 8 0 ?s =
    \<lparr>ns_res = FR_OK, ns_char = front r, ns_rest = tl r, ns_i = i, ns_ni = ni, ns_b = b, ns_sfn = ?t\<rparr>" "0 < i"
    using assms(2) by auto
  have lt: "length ?t = 12" using assms(3,5) by simp
  have tn: "?t ! k = (padded 8 body @ padded 3 ext) ! k" if "k < 11" for k
    using that assms(3,5) by (auto simp: put_bytes_nth nth_append padded_def)
  have "?t ! 0 = capital c" using tn [of 0] c by (simp add: padded_def)
  then have z: "?t ! 0 \<noteq> DDEM" using capital_name(2) [OF c(2)] by simp
  let ?g = "name_flags \<lparr>ns_res = FR_OK, ns_char = front r, ns_rest = tl r, ns_i = i, ns_ni = ni, ns_b = b, ns_sfn = ?t\<rparr>"
  let ?sfn = "?t[11 := ?g]"
  have cn: "create_name fn ?p = (FR_OK, ?sfn, tl r)"
    unfolding create_name_def Let_def d(1) using d(2) n z by simp
  have t: "take 11 ?sfn = padded 8 body @ padded 3 ext"
  proof (rule nth_equalityI)
    show "length (take 11 ?sfn) = length (padded 8 body @ padded 3 ext)" using lt assms(3,5) by (simp add: padded_def)
    show "take 11 ?sfn ! k = (padded 8 body @ padded 3 ext) ! k" if "k < length (take 11 ?sfn)" for k
      using that lt tn by simp
  qed
  have g: "?sfn ! 11 = ?g" using lt by simp
  have "(?g AND NS_LAST \<noteq> 0 \<longleftrightarrow> front r \<le> 0x20) \<and> ?g AND NS_DOT = 0"
    by (simp add: name_flags_def Let_def NS_LAST_def NS_EXT_def NS_BODY_def NS_DOT_def)
  then show ?thesis
    using cn t g lt entry_name_padded [OF assms(1,3-5)] by (intro exI [of _ ?sfn]) simp
qed

theorem names_round_trip_witness:
  "\<exists>sfn. create_name (replicate 12 0) [0x61, 0x42, 0x2E, 0x63, 0x2F, 0x64] = (FR_OK, sfn, [0x64]) \<and>
     entry_name 0 sfn = [0x41, 0x42, 0x2E, 0x43]"
proof -
  have n: "\<forall>c\<in>set [0x61, 0x42]. name_char c" "\<forall>c\<in>set [0x63]. name_char c" "segment_end [0x2F, 0x64]"
    by (simp_all add: name_char_def illegal_chars_def segment_end_def)
  have c: "capital 0x61 = 0x41" "capital 0x42 = 0x42" "capital 0x63 = 0x43" by (simp_all add: capital_def IsLower_def)
  show ?thesis
    using names_round_trip [OF n(1) _ _ n(2) _ n(3), of "replicate 12 0"] by (auto simp: c)
qed

end
