(* ===== verification/FatMount.thy ===== *)
theory FatMount
  imports FatDir
begin

text \<open>
  Mounting in FatFs (hello/ff.c): the number of a logical drive, the search of a partition with a boot
  sector, the reading of its parameters into the file system object, and \<open>f_mount\<close>.  A path is \<open>None\<close> for a null
  pointer.
\<close>

section \<open>Logical drives\<close>

text \<open>The drive named before the first colon of a path, and the path after it; otherwise the current drive.\<close>

definition get_ldnumber :: "u8 \<Rightarrow> u8 list option \<Rightarrow> (nat \<times> u8 list) option" where
  "get_ldnumber cur path =
     (case path of
        None \<Rightarrow> None
      | Some p \<Rightarrow>
          let word = takeWhile (\<lambda>c. c \<ge> 0x21 \<and> c \<noteq> 0x3A) p; rest = drop (length word) p in
          if front rest = 0x3A then
            (let i = ucast (front p) - 0x30 :: u32 in
             if i < 10 \<and> length word = 1 \<and> i < 2 then Some (unat i, tl rest) else None)
          else Some (unat cur, p))"

section \<open>The boot sector\<close>

text \<open>0: a boot sector of a FAT volume, 1: a boot sector, 2: none, 3: the disk failed.\<close>

definition check_fs :: "'d disk_ops \<Rightarrow> u32 \<Rightarrow> 'd volume \<Rightarrow> (u8 \<times> 'd volume) option" where
  "check_fs D sect v =
     do { (res, v) \<leftarrow> move_window D sect (v\<lparr>wflag := 0, winsect := 0xFFFFFFFF\<rparr>);
          Some (if res \<noteq> FR_OK then 3
                else if LD_WORD (win v) 510 \<noteq> 0xAA55 then 2
                else if LD_DWORD (win v) 54 AND 0xFFFFFF = 0x544146 then 0
                else if LD_DWORD (win v) 82 AND 0xFFFFFF = 0x544146 then 0 else 1, v) }"

text \<open>The start of a partition in the partition table, 0 for an unused slot.\<close>

definition partition_start :: "u8 list \<Rightarrow> nat \<Rightarrow> u32" where
  "partition_start bs i = (if bs ! (446 + 16 * i + 4) \<noteq> 0 then LD_DWORD bs (446 + 16 * i + 8) else 0)"

fun try_partitions :: "'d disk_ops \<Rightarrow> u32 list \<Rightarrow> 'd volume \<Rightarrow> (u8 \<times> u32 \<times> 'd volume) option" where
  "try_partitions D (b # bs) v =
     do { (fmt, v) \<leftarrow> (if b \<noteq> 0 then check_fs D b v else Some (2, v));
          if fmt \<noteq> 0 \<and> bs \<noteq> [] then try_partitions D bs v else Some (fmt, b, v) }"
| "try_partitions D [] v = Some (2, 0, v)"

definition find_partition :: "'d disk_ops \<Rightarrow> 'd volume \<Rightarrow> (u8 \<times> u32 \<times> 'd volume) option" where
  "find_partition D v =
     do { (fmt, v) \<leftarrow> check_fs D 0 v;
          if fmt = 1 then try_partitions D (map (partition_start (win v)) [0..<4]) v else Some (fmt, 0, v) }"

section \<open>The parameters of the volume\<close>

text \<open>The type of a volume follows from the number of its clusters.\<close>

definition fat_type :: "u32 \<Rightarrow> u8" where
  "fat_type nclst = (if nclst \<ge> 65526 then FS_FAT32 else if nclst \<ge> 4086 then FS_FAT16 else FS_FAT12)"

text \<open>The bytes a table needs.\<close>

definition table_bytes :: "u8 \<Rightarrow> u32 \<Rightarrow> u32" where
  "table_bytes fmt n =
     (if fmt = FS_FAT32 then n * 4 else if fmt = FS_FAT16 then n * 2 else n * 3 div 2 + (n AND 1))"

definition read_fsinfo :: "'d disk_ops \<Rightarrow> u8 \<Rightarrow> u32 \<Rightarrow> 'd volume \<Rightarrow> 'd volume option" where
  "read_fsinfo D fmt bsect v =
     (if fmt = FS_FAT32 \<and> LD_WORD (win v) 48 = 1 then
        do { (res, v) \<leftarrow> move_window D (bsect + 1) v;
             Some (if res \<noteq> FR_OK then v
                   else
                     (let v = v\<lparr>fsi_flag := 0\<rparr>; w = win v in
                      if LD_WORD w 510 = 0xAA55 \<and> LD_DWORD w 0 = 0x41615252 \<and> LD_DWORD w 484 = 0x61417272
                      then v\<lparr>free_clust := LD_DWORD w 488, last_clust := LD_DWORD w 492\<rparr> else v)) }
      else Some v)"

text \<open>The last part: the bases, the size of the table, the account of free clusters and the type, which makes the
  object valid.\<close>

definition finish_volume ::
  "'d disk_ops \<Rightarrow> u32 \<Rightarrow> u32 \<Rightarrow> u32 \<Rightarrow> u32 \<Rightarrow> u32 \<Rightarrow> 'd volume \<Rightarrow> (FRESULT \<times> 'd volume) option" where
  "finish_volume D bsect nrsv fasize sysect nclst v =
     (let fmt = fat_type nclst; w = win v;
          v = v\<lparr>n_fatent := nclst + 2, volbase := bsect, fatbase := bsect + nrsv, database := bsect + sysect\<rparr> in
      if fmt = FS_FAT32 \<and> n_rootdir v \<noteq> 0 \<or> fmt \<noteq> FS_FAT32 \<and> n_rootdir v = 0 then Some (FR_NO_FILESYSTEM, v)
      else
        (let v = v\<lparr>dirbase := if fmt = FS_FAT32 then LD_DWORD w 44 else fatbase v + fasize\<rparr> in
         if fat_size v < (table_bytes fmt (n_fatent v) + 511) div 512 then Some (FR_NO_FILESYSTEM, v)
         else
           do { v \<leftarrow> read_fsinfo D fmt bsect (v\<lparr>free_clust := 0xFFFFFFFF, last_clust := 0xFFFFFFFF, fsi_flag := 0x80\<rparr>);
                Some (FR_OK, v\<lparr>fs_type := fmt, cdir := 0\<rparr>) }))"

definition init_volume :: "'d disk_ops \<Rightarrow> u32 \<Rightarrow> 'd volume \<Rightarrow> (FRESULT \<times> 'd volume) option" where
  "init_volume D bsect v =
     (let w = win v; bad = (\<lambda>v. Some (FR_NO_FILESYSTEM, v)) in
      if LD_WORD w 11 \<noteq> 512 then bad v
      else
        (let fasize = (if LD_WORD w 22 = 0 then LD_DWORD w 36 else ucast (LD_WORD w 22));
             v = v\<lparr>n_fats := w ! 16, fat_size := fasize\<rparr> in
         if n_fats v \<noteq> 1 \<and> n_fats v \<noteq> 2 then bad v
         else
           (let fasize = fasize * ucast (n_fats v); v = v\<lparr>csize := w ! 13\<rparr> in
            if csize v = 0 \<or> csize v AND (csize v - 1) \<noteq> 0 then bad v
            else
              (let v = v\<lparr>n_rootdir := LD_WORD w 17\<rparr> in
               if n_rootdir v mod 16 \<noteq> 0 then bad v
               else
                 (let tsect = (if LD_WORD w 19 = 0 then LD_DWORD w 32 else ucast (LD_WORD w 19)); nrsv = LD_WORD w 14 in
                  if nrsv = 0 then bad v
                  else
                    (let sysect = ucast nrsv + fasize + ucast (n_rootdir v div 16) in
                     if tsect < sysect then bad v
                     else
                       (let nclst = (tsect - sysect) div ucast (csize v) in
                        if nclst = 0 then bad v
                        else finish_volume D bsect (ucast nrsv) fasize sysect nclst v)))))))"

section \<open>Mounting\<close>

definition mount_volume :: "'d disk_ops \<Rightarrow> nat \<Rightarrow> bool \<Rightarrow> 'd volume \<Rightarrow> (FRESULT \<times> 'd volume) option" where
  "mount_volume D vol wmode v =
     do { let v = v\<lparr>fs_type := 0, drv := of_nat vol\<rparr>;
          (stat, d) \<leftarrow> dk_init D (drv v) (dsk v);
          let v = v\<lparr>dsk := d\<rparr>;
          if STA_OFF stat then Some (FR_NOT_READY, v)
          else if wmode \<and> stat AND STA_PROTECT \<noteq> 0 then Some (FR_WRITE_PROTECTED, v)
          else
            do { (fmt, bsect, v) \<leftarrow> find_partition D v;
                 if fmt = 3 then Some (FR_DISK_ERR, v)
                 else if fmt \<noteq> 0 then Some (FR_NO_FILESYSTEM, v)
                 else init_volume D bsect v } }"

text \<open>The volume of a path, mounted when it is not; every mount has a number of its own.\<close>

definition find_volume ::
  "'d disk_ops \<Rightarrow> u8 list option \<Rightarrow> bool \<Rightarrow> 'd ffs \<Rightarrow> (FRESULT \<times> nat option \<times> u8 list \<times> 'd ffs) option" where
  "find_volume D path wmode st =
     (case get_ldnumber (CurrVol st) path of
        None \<Rightarrow> Some (FR_INVALID_DRIVE, None, [], st)
      | Some (vol, p) \<Rightarrow>
          case FatFs st ! vol of
            None \<Rightarrow> Some (FR_NOT_ENABLED, None, p, st)
          | Some f \<Rightarrow>
              let stat = dk_status D (drv (objs st f)) (disk st) in
              if fs_type (objs st f) \<noteq> 0 \<and> \<not> STA_OFF stat then
                Some (if wmode \<and> stat AND STA_PROTECT \<noteq> 0 then FR_WRITE_PROTECTED else FR_OK, Some f, p, st)
              else
                do { (res, v) \<leftarrow> mount_volume D vol wmode (volume_of st f);
                     let n = Fsid st + 1;
                     Some (res, Some f, p,
                       if res = FR_OK then (put_volume f (v\<lparr>fs_id := n\<rparr>) st)\<lparr>Fsid := n\<rparr> else put_volume f v st) })"

definition ff_mount :: "'d disk_ops \<Rightarrow> nat option \<Rightarrow> u8 list option \<Rightarrow> u8 \<Rightarrow> 'd ffs \<Rightarrow> (FRESULT \<times> 'd ffs) option" where
  "ff_mount D fs path opt st =
     (let clear = (\<lambda>f st. case f of None \<Rightarrow> st | Some f \<Rightarrow> st\<lparr>objs := (objs st)(f := (objs st f)\<lparr>fs_type := 0\<rparr>)\<rparr>) in
      case get_ldnumber (CurrVol st) path of
        None \<Rightarrow> Some (FR_INVALID_DRIVE, st)
      | Some (vol, _) \<Rightarrow>
          let st = clear fs (clear (FatFs st ! vol) st); st = st\<lparr>FatFs := (FatFs st)[vol := fs]\<rparr> in
          if fs = None \<or> opt \<noteq> 1 then Some (FR_OK, st)
          else do { (res, _, _, st) \<leftarrow> find_volume D path False st; Some (res, st) })"

section \<open>What mounting establishes\<close>

text \<open>The sectors of a volume by its boot sector.\<close>

definition volume_sectors :: "u8 list \<Rightarrow> u32" where
  "volume_sectors w = (if LD_WORD w 19 = 0 then LD_DWORD w 32 else ucast (LD_WORD w 19))"

lemma init_volume_ok:
  assumes "init_volume D b v = Some (FR_OK, v')"
  obtains nrsv v1 where "nrsv \<noteq> (0 :: u16)" "n_fats v1 = 1 \<or> n_fats v1 = 2" "csize v1 \<noteq> 0" "csize v1 AND (csize v1 - 1) = 0"
    "ucast nrsv + fat_size v1 * ucast (n_fats v1) + ucast (n_rootdir v1 div 16) \<le> volume_sectors (win v)"
    "finish_volume D b (ucast nrsv) (fat_size v1 * ucast (n_fats v1))
       (ucast nrsv + fat_size v1 * ucast (n_fats v1) + ucast (n_rootdir v1 div 16))
       ((volume_sectors (win v) - (ucast nrsv + fat_size v1 * ucast (n_fats v1) + ucast (n_rootdir v1 div 16))) div ucast (csize v1))
       v1 = Some (FR_OK, v')"
    "(volume_sectors (win v) - (ucast nrsv + fat_size v1 * ucast (n_fats v1) + ucast (n_rootdir v1 div 16))) div ucast (csize v1) \<noteq> 0"
    "dsk v1 = dsk v" "win v1 = win v" "winsect v1 = winsect v" "wflag v1 = wflag v" "drv v1 = drv v"
proof -
  let ?w = "win v"
  let ?v = "v\<lparr>n_fats := ?w ! 16, fat_size := if LD_WORD ?w 22 = 0 then LD_DWORD ?w 36 else ucast (LD_WORD ?w 22),
    csize := ?w ! 13, n_rootdir := LD_WORD ?w 17\<rparr>"
  show thesis
    by (rule that [of "LD_WORD ?w 14" ?v])
      (use assms in \<open>auto simp: init_volume_def volume_sectors_def Let_def not_less split: if_splits\<close>)
qed

lemma finish_volume_ok:
  assumes "finish_volume D b nrsv fasize sysect nclst v = Some (FR_OK, v')"
  obtains v1 where "n_fatent v1 = nclst + 2" "volbase v1 = b" "fatbase v1 = b + nrsv" "database v1 = b + sysect"
    "(table_bytes (fat_type nclst) (nclst + 2) + 511) div 512 \<le> fat_size v1" "csize v1 = csize v" "n_fats v1 = n_fats v"
    "fat_size v1 = fat_size v" "dsk v1 = dsk v" "win v1 = win v" "winsect v1 = winsect v" "wflag v1 = wflag v" "drv v1 = drv v"
    "map_option (\<lambda>v. v\<lparr>fs_type := fat_type nclst, cdir := 0\<rparr>) (read_fsinfo D (fat_type nclst) b v1) = Some v'"
proof -
  let ?v = "v\<lparr>n_fatent := nclst + 2, volbase := b, fatbase := b + nrsv, database := b + sysect,
    dirbase := if fat_type nclst = FS_FAT32 then LD_DWORD (win v) 44 else b + nrsv + fasize,
    free_clust := 0xFFFFFFFF, last_clust := 0xFFFFFFFF, fsi_flag := 0x80\<rparr>"
  show thesis
    by (rule that [of ?v])
      (use assms in \<open>auto simp: finish_volume_def Let_def not_less bind_eq_Some_conv split: if_splits\<close>)
qed

lemma table_bytes_room:
  assumes "unat n \<le> 0x0FFFFFFF" "fat_type nclst = t" "n = nclst + 2" "(table_bytes t n + 511) div 512 \<le> f"
    and "unat nclst + 2 = unat n"
  shows "t = FS_FAT12 \<and> unat n \<le> 0xFFF \<and> 3 * unat n \<le> 1024 * unat f \<or> t = FS_FAT16 \<and> unat n \<le> 0xFFFF \<and> unat n \<le> 256 * unat f \<or>
    t = FS_FAT32 \<and> unat n \<le> 0xFFFFFFF \<and> unat n \<le> 128 * unat f"
proof -
  have le: "unat (table_bytes t n + 511) div 512 \<le> unat f" using assms(4) by (simp add: word_le_nat_alt unat_div)
  have nm: "unat (n * 4) = unat n * 4" "unat (n * 2) = unat n * 2" "unat (n * 3) = unat n * 3"
    using assms(1) unat_mult_lem [of n 4] unat_mult_lem [of n 2] unat_mult_lem [of n 3] by simp_all
  have ad: "unat (x + 511) = unat x + 511" if "unat x \<le> 4 * unat n" for x :: u32
    using assms(1) that unat_add_lem [of x 511] by simp
  consider "t = FS_FAT12" "unat nclst < 4086" | "t = FS_FAT16" "unat nclst < 65526" | "t = FS_FAT32"
    using assms(2) by (auto simp: fat_type_def word_le_nat_alt split: if_splits)
  then show ?thesis
  proof cases
    case 1
    let ?b = "n * 3 div 2 + (n AND 1)"
    have o: "unat (n AND 1) = unat n mod 2" by (simp add: and_one_eq unat_mod)
    have "unat (n * 3 div 2) = 3 * unat n div 2" using nm by (simp add: unat_div mult.commute)
    then have b: "unat ?b = 3 * unat n div 2 + unat n mod 2"
    proof -
      have "3 * unat n div 2 + unat n mod 2 < 4294967296" using 1 assms(5) by linarith
      then show ?thesis using \<open>unat (n * 3 div 2) = 3 * unat n div 2\<close> o unat_add_lem [of "n * 3 div 2" "n AND 1"] by simp
    qed
    then have "(3 * unat n div 2 + unat n mod 2 + 511) div 512 \<le> unat f"
      using le ad [of ?b] 1 by (simp add: table_bytes_def FS_types)
    then have "3 * unat n div 2 + unat n mod 2 \<le> 512 * unat f" by linarith
    moreover have "3 * m \<le> 2 * (3 * m div 2 + m mod 2)" for m :: nat by presburger
    ultimately have "3 * unat n \<le> 1024 * unat f" using le_trans [of "3 * unat n" "2 * (3 * unat n div 2 + unat n mod 2)"] by simp
    moreover have "unat n \<le> 0xFFF" using 1 assms(5) by simp
    ultimately show ?thesis using 1 by simp
  next
    case 2
    then have "(unat n * 2 + 511) div 512 \<le> unat f" using le ad [of "n * 2"] nm by (simp add: table_bytes_def FS_types)
    then show ?thesis using 2 assms(5) by linarith
  next
    case 3
    then have "(unat n * 4 + 511) div 512 \<le> unat f" using le ad [of "n * 4"] nm by (simp add: table_bytes_def FS_types)
    then show ?thesis using 3 assms(1) by linarith
  qed
qed

lemma power2_csize:
  assumes "c \<noteq> (0 :: u8)" "c AND (c - 1) = 0"
  shows "\<exists>k<8. c = 2 ^ k"
proof -
  have t: "\<forall>i \<in> set [1..255 :: int]. i AND (i - 1) = 0 \<longrightarrow> (\<exists>k \<in> set [0..<8]. i = 2 ^ k)" by code_simp
  have "0 < unat c" "unat c < 256" "uint c = int (unat c)" using assms(1) unat_u8_less [of c] by (simp_all add: unat_gt_0)
  then have "1 \<le> uint c" "uint c \<le> 255" by linarith+
  then have u: "uint c \<in> set [1..255]" "uint (c - 1) = uint c - 1" by (simp_all add: uint_sub_if')
  have "uint c AND (uint c - 1) = 0" using assms(2) u(2) by (metis unsigned_0 unsigned_and_eq)
  then obtain k where k: "k < 8" "uint c = 2 ^ k" using t u(1) by auto
  then have "unat c = unat (2 ^ k :: u8)" using unat_power8 [OF k(1)] by (simp add: nat_power_eq flip: nat_uint_eq)
  then show ?thesis using k(1) by (auto simp: word_unat_eq_iff)
qed

text \<open>A sector that \<open>check_fs\<close> takes for the boot sector of a FAT volume.\<close>

definition fat_boot :: "u8 list \<Rightarrow> bool" where
  "fat_boot w \<longleftrightarrow> LD_WORD w 510 = 0xAA55 \<and>
     (LD_DWORD w 54 AND 0xFFFFFF = 0x544146 \<or> LD_DWORD w 82 AND 0xFFFFFF = 0x544146)"

text \<open>The window shows sector \<open>s\<close> of the disk \<open>d\<close> as it is on the disk.\<close>

definition shows_sector ::
  "u8 \<Rightarrow> ('d \<Rightarrow> u32 \<Rightarrow> u8 list) \<Rightarrow> ('d \<Rightarrow> bool) \<Rightarrow> 'd \<Rightarrow> u32 \<Rightarrow> 'd volume \<Rightarrow> bool" where
  "shows_sector p sect ready d s v \<longleftrightarrow>
     ready (dsk v) \<and> sect (dsk v) = sect d \<and> drv v = p \<and> wflag v = 0 \<and> winsect v = s \<and> win v = sect d s"

context sector_reader
begin

lemma check_fs_shows:
  assumes "ready (dsk v)" "sect (dsk v) = sect d" "drv v = p" "unat s < N" "N < 2 ^ 32"
  obtains fmt v1 where "check_fs D s v = Some (fmt, v1)" "fmt \<noteq> 3" "shows_sector p sect ready d s v1"
    "fat_boot (sect d s) \<longleftrightarrow> fmt = 0"
proof -
  obtain d' where d: "dk_read D p s 1 (dsk v) = Some (RES_OK, sect d s, d')" "ready d'" "sect d' = sect d"
    using read_sector [OF assms(1,4)] assms(2) by auto
  have "unat s < 2 ^ 32 - 1" using assms(4,5) by simp
  then have "s \<noteq> 0xFFFFFFFF" by auto
  then have m: "move_window D s (v\<lparr>wflag := 0, winsect := 0xFFFFFFFF\<rparr>) =
      Some (FR_OK, v\<lparr>wflag := 0, dsk := d', win := sect d s, winsect := s\<rparr>)"
    using d(1) assms(3) by (simp add: move_window_def sync_window_def)
  let ?v = "v\<lparr>wflag := 0, dsk := d', win := sect d s, winsect := s\<rparr>"
  show thesis
  proof (rule that)
    show "check_fs D s v = Some (if LD_WORD (sect d s) 510 \<noteq> 0xAA55 then 2
        else if LD_DWORD (sect d s) 54 AND 0xFFFFFF = 0x544146 then 0
        else if LD_DWORD (sect d s) 82 AND 0xFFFFFF = 0x544146 then 0 else 1, ?v)"
      by (simp add: check_fs_def m)
    show "shows_sector p sect ready d s ?v" using d assms(3) by (simp add: shows_sector_def)
  qed (simp_all add: fat_boot_def)
qed

lemma try_partitions_shows:
  assumes "ready (dsk v)" "sect (dsk v) = sect d" "drv v = p" "N < 2 ^ 32" "\<forall>b\<in>set bs. unat b < N"
    and "try_partitions D bs v = Some (fmt, b, v1)" "fmt = 0"
  shows "shows_sector p sect ready d b v1"
  using assms
proof (induction bs arbitrary: v)
  case (Cons b' bs)
  show ?case
  proof (cases "b' = 0")
    case True
    then show ?thesis using Cons by (auto split: if_splits)
  next
    case False
    obtain fmt' v' where c: "check_fs D b' v = Some (fmt', v')" "shows_sector p sect ready d b' v'"
      using check_fs_shows [OF Cons.prems(1-3)] Cons.prems(4,5) by (metis list.set_intros(1))
    have r: "ready (dsk v')" "sect (dsk v') = sect d" "drv v' = p" using c(2) by (auto simp: shows_sector_def)
    show ?thesis
    proof (cases "fmt' \<noteq> 0 \<and> bs \<noteq> []")
      case True
      then show ?thesis using Cons.IH [OF r Cons.prems(4)] Cons.prems(5-) c(1) False by simp
    next
      case stop: False
      then show ?thesis using Cons.prems(6,7) c False by auto
    qed
  qed
qed simp

lemma find_partition_shows:
  assumes "ready (dsk v)" "sect (dsk v) = sect d" "drv v = p" "0 < N" "N < 2 ^ 32"
    and "fat_boot (sect d 0) \<or> (\<forall>i<4. unat (partition_start (sect d 0) i) < N)" "find_partition D v = Some (0, b, v1)"
  shows "shows_sector p sect ready d b v1"
proof -
  obtain fmt' v' where c: "check_fs D 0 v = Some (fmt', v')" "shows_sector p sect ready d 0 v'"
    and fb: "fat_boot (sect d 0) \<longleftrightarrow> fmt' = 0"
    using check_fs_shows [OF assms(1-3) _ assms(5), of 0] assms(4) by (metis unat_0)
  have r: "ready (dsk v')" "sect (dsk v') = sect d" "drv v' = p" "win v' = sect d 0" using c(2) by (auto simp: shows_sector_def)
  show ?thesis
  proof (cases "fmt' = 1")
    case True
    then have "try_partitions D (map (partition_start (sect d 0)) [0..<4]) v' = Some (0, b, v1)"
      using assms(7) c(1) r(4) by (simp add: find_partition_def)
    moreover have "\<forall>b\<in>set (map (partition_start (sect d 0)) [0..<4]). unat b < N" using assms(6) fb True by auto
    ultimately show ?thesis using try_partitions_shows [OF r(1-3) assms(5)] by blast
  next
    case False
    then show ?thesis using assms(7) c by (auto simp: find_partition_def)
  qed
qed

lemma read_fsinfo_shows:
  assumes "shows_sector p sect ready d b v" "unat b + 1 < N" "N < 2 ^ 32" "read_fsinfo D t b v = Some v'"
  shows "\<exists>s. shows_sector p sect ready d s v'" "geo v' = geo v"
proof -
  have b: "unat (b + 1) = unat b + 1" using assms(2,3) unat_add_lem [of b 1] by simp
  then have n: "b + 1 \<noteq> 0xFFFFFFFF" "unat (b + 1) < N" using assms(2,3) by auto
  have s: "ready (dsk v)" "sect (dsk v) = sect d" "drv v = p" "wflag v = 0" "winsect v = b" using assms(1) by (auto simp: shows_sector_def)
  obtain d' where d: "dk_read D p (b + 1) 1 (dsk v) = Some (RES_OK, sect d (b + 1), d')" "ready d'" "sect d' = sect d"
    using read_sector [OF s(1) n(2)] s(2) by auto
  have m: "move_window D (b + 1) v = Some (FR_OK, v\<lparr>dsk := d', win := sect d (b + 1), winsect := b + 1\<rparr>)"
    using d(1) s by (simp add: move_window_def sync_window_def)
  have "(\<exists>s. shows_sector p sect ready d s v') \<and> geo v' = geo v"
    using assms(1,4) d(2,3) s m by (auto simp: read_fsinfo_def Let_def shows_sector_def split: if_splits)
  then show "\<exists>s. shows_sector p sect ready d s v'" "geo v' = geo v" by auto
qed

end

lemma unat_ucast_16_32 [simp]: "unat (ucast (w :: u16) :: u32) = unat w"
  using unat_u16_less [of w] by (simp add: unsigned_ucast_eq take_bit_eq_mod del: unat_u16_less)

text \<open>The numbers of a boot sector that fits on the disk: nothing wraps around.\<close>

lemma boot_numbers:
  fixes b tsect fs sys nclst :: u32 and nrsv rd :: u16 and nf cz :: u8
  assumes N: "N < 0x0FFFFFFF" "unat b + unat tsect \<le> N" "unat fs \<le> N"
    and nf: "nf = 1 \<or> nf = 2" and cz: "cz \<noteq> 0" and nr: "nrsv \<noteq> 0"
    and sys: "sys = ucast nrsv + fs * ucast nf + ucast (rd div 16)" "sys \<le> tsect" "nclst = (tsect - sys) div ucast cz" "nclst \<noteq> 0"
  shows "unat (b + ucast nrsv) + unat nf * unat fs \<le> unat (b + sys)" "unat nclst + 2 = unat (nclst + 2)"
    "unat (nclst + 2) \<le> 0x0FFFFFFF" "unat (b + sys) + unat cz * unat nclst \<le> N" "0 < unat (b + sys)" "unat b + 1 < N"
proof -
  have u: "unat (ucast nrsv :: u32) = unat nrsv" "unat (ucast (rd div 16) :: u32) = unat (rd div 16)"
    "unat (ucast nf :: u32) = unat nf" "unat (ucast cz :: u32) = unat cz"
    by simp_all
  have r: "0 < unat nrsv" "unat nrsv < 65536" "unat (rd div 16) < 65536" "0 < unat cz"
    using nr cz unat_u16_less [of nrsv] unat_u16_less [of "rd div 16"] by (simp_all add: unat_gt_0)
  have f: "unat nf = 1 \<or> unat nf = 2" using nf by auto
  have m: "unat nf * unat fs \<le> 2 * N" using f N(3) by auto
  then have fa: "unat (fs * ucast nf) = unat nf * unat fs"
    using N(1) u(3) unat_mult_lem [of fs "ucast nf"] by (simp add: mult.commute)
  have s1: "unat (ucast nrsv + fs * ucast nf) = unat nrsv + unat nf * unat fs"
  proof -
    have "unat nrsv + unat nf * unat fs < 4294967296" using m N(1) r(2) by linarith
    then show ?thesis using fa u(1) unat_add_lem [of "ucast nrsv" "fs * ucast nf"] by simp
  qed
  have s: "unat sys = unat nrsv + unat nf * unat fs + unat (rd div 16)"
  proof -
    have "unat nrsv + unat nf * unat fs + unat (rd div 16) < 4294967296" using m N(1) r(2,3) by linarith
    then show ?thesis
      using s1 u(2) unat_add_lem [of "ucast nrsv + fs * ucast nf" "ucast (rd div 16)"] unfolding sys(1) by simp
  qed
  have le: "unat sys \<le> unat tsect" using sys(2) by (simp add: word_le_nat_alt)
  have n: "unat nclst = (unat tsect - unat sys) div unat cz" using sys(3) le u(4) by (simp add: unat_div unat_sub_if')
  have b: "unat (b + ucast nrsv) = unat b + unat nrsv" "unat (b + sys) = unat b + unat sys"
    using N s le u(1) unat_add_lem [of b "ucast nrsv"] unat_add_lem [of b sys] by simp_all
  have q: "unat cz * unat nclst \<le> unat tsect - unat sys" unfolding n by (simp add: div_times_less_eq_dividend mult.commute)
  have nl: "unat nclst \<le> unat tsect - unat sys" unfolding n by (rule div_le_dividend)
  have np: "0 < unat nclst" using sys(4) by (simp add: unat_gt_0)
  show "unat (b + ucast nrsv) + unat nf * unat fs \<le> unat (b + sys)" using b s by simp
  have t: "unat nclst + 2 < 4294967296" using nl N by linarith
  then show p2: "unat nclst + 2 = unat (nclst + 2)" using unat_add_lem [of nclst 2] by simp
  show "unat (nclst + 2) \<le> 0x0FFFFFFF" using p2 nl N s r(1) by linarith
  show "unat (b + sys) + unat cz * unat nclst \<le> N" using b q le N(2) by linarith
  show "0 < unat (b + sys)" using b s r(1) by simp
  show "unat b + 1 < N" using nl np s r(1) le N(2) by linarith
qed

lemma read_fsinfo_geo: "wflag v = 0 \<Longrightarrow> read_fsinfo D t b v = Some v' \<Longrightarrow> geo v' = geo v"
  by (auto simp: read_fsinfo_def Let_def move_window_def sync_window_def bind_eq_Some_conv split: if_splits option.splits)

context sector_reader
begin

lemma init_volume_layout:
  assumes "shows_sector p sect ready d b v" "init_volume D b v = Some (FR_OK, v')"
    and N: "N < 0x0FFFFFFF" "unat (fat_size v') \<le> N" "unat (volbase v') + unat (volume_sectors (sect d (volbase v'))) \<le> N"
  shows "clean_volume p N sect ready v' \<and> data_room N v' \<and> sect (dsk v') = sect d \<and> cdir v' = 0"
proof -
  obtain nrsv v1 where i: "nrsv \<noteq> (0 :: u16)" "n_fats v1 = 1 \<or> n_fats v1 = 2" "csize v1 \<noteq> 0" "csize v1 AND (csize v1 - 1) = 0"
    "ucast nrsv + fat_size v1 * ucast (n_fats v1) + ucast (n_rootdir v1 div 16) \<le> volume_sectors (win v)"
    "finish_volume D b (ucast nrsv) (fat_size v1 * ucast (n_fats v1))
       (ucast nrsv + fat_size v1 * ucast (n_fats v1) + ucast (n_rootdir v1 div 16))
       ((volume_sectors (win v) - (ucast nrsv + fat_size v1 * ucast (n_fats v1) + ucast (n_rootdir v1 div 16))) div ucast (csize v1))
       v1 = Some (FR_OK, v')"
    "(volume_sectors (win v) - (ucast nrsv + fat_size v1 * ucast (n_fats v1) + ucast (n_rootdir v1 div 16))) div ucast (csize v1) \<noteq> 0"
    "dsk v1 = dsk v" "win v1 = win v" "winsect v1 = winsect v" "wflag v1 = wflag v" "drv v1 = drv v"
    by (rule init_volume_ok [OF assms(2)])
  define sys where "sys = ucast nrsv + fat_size v1 * ucast (n_fats v1) + ucast (n_rootdir v1 div 16)"
  define nclst where "nclst = (volume_sectors (win v) - sys) div ucast (csize v1)"
  note i = i [folded sys_def, folded nclst_def]
  obtain v2 where f: "n_fatent v2 = nclst + 2" "volbase v2 = b" "fatbase v2 = b + ucast nrsv" "database v2 = b + sys"
    "(table_bytes (fat_type nclst) (nclst + 2) + 511) div 512 \<le> fat_size v2" "csize v2 = csize v1" "n_fats v2 = n_fats v1"
    "fat_size v2 = fat_size v1" "dsk v2 = dsk v1" "win v2 = win v1" "winsect v2 = winsect v1" "wflag v2 = wflag v1" "drv v2 = drv v1"
    "map_option (\<lambda>v. v\<lparr>fs_type := fat_type nclst, cdir := 0\<rparr>) (read_fsinfo D (fat_type nclst) b v2) = Some v'"
    by (rule finish_volume_ok [OF i(6)])
  obtain v3 where r: "read_fsinfo D (fat_type nclst) b v2 = Some v3" "v' = v3\<lparr>fs_type := fat_type nclst, cdir := 0\<rparr>"
    using f(14) by auto
  have sh: "shows_sector p sect ready d b v2" using assms(1) i(8-) f(9-13) by (simp add: shows_sector_def)
  have w: "win v = sect d b" using assms(1) by (simp add: shows_sector_def)
  have t: "nclst = (volume_sectors (win v) - sys) div ucast (csize v1)" "sys \<le> volume_sectors (win v)" "nclst \<noteq> 0"
    using i(5,7) by (auto simp: nclst_def)
  have z: "wflag v2 = 0" using sh by (simp add: shows_sector_def)
  have g: "geo v3 = geo v2" by (rule read_fsinfo_geo [OF z r(1)])
  note gf = geo_fields [OF g]
  have k: "unat b + unat (volume_sectors (win v)) \<le> N" "unat (fat_size v1) \<le> N"
    using N(2,3) r(2) gf f w by simp_all
  note n = boot_numbers [OF N(1) k i(2,3,1) sys_def t(2,1,3)]
  obtain s where s: "shows_sector p sect ready d s v3"
    using read_fsinfo_shows(1) [OF sh n(6) _ r(1)] N(1) by auto
  have "fat_room v'"
    using table_bytes_room [OF n(3) refl refl _ n(2)] f(5) r(2) gf f(1,8) by (simp add: fat_room_def)
  moreover have "n_fats v' = n_fats v1" "fatbase v' = b + ucast nrsv" "database v' = b + sys" "fat_size v' = fat_size v1"
    "csize v' = csize v1" "n_fatent v' = nclst + 2" using r(2) gf f by auto
  moreover have "unat (b + sys) \<le> N" using n(4) by linarith
  moreover have "\<exists>k<8. csize v1 = 2 ^ k" using power2_csize i(3,4) by blast
  moreover have "unat (nclst + 2) - 2 = unat nclst" using n(2) by linarith
  ultimately show ?thesis
    using s r(2) i(2) n N(1) by (auto simp: clean_volume_def shows_sector_def fat_layout_def data_room_def)
qed

lemma mount_volume_layout:
  assumes "mount_volume D vol wmode v = Some (FR_OK, v')" "dk_init D p (dsk v) = Some (stat, d)" "ready d" "p = of_nat vol"
    and "fat_boot (sect d 0) \<or> (\<forall>i<4. unat (partition_start (sect d 0) i) < N)"
    and "N < 0x0FFFFFFF" "unat (fat_size v') \<le> N" "unat (volbase v') + unat (volume_sectors (sect d (volbase v'))) \<le> N" "0 < N"
  shows "clean_volume p N sect ready v' \<and> data_room N v' \<and> sect (dsk v') = sect d \<and> cdir v' = 0"
proof -
  let ?v = "v\<lparr>fs_type := 0, drv := p, dsk := d\<rparr>"
  obtain b v1 where f: "find_partition D ?v = Some (0, b, v1)" "init_volume D b v1 = Some (FR_OK, v')"
    using assms(1,2,4) by (auto simp: mount_volume_def Let_def bind_eq_Some_conv split: if_splits)
  have "shows_sector p sect ready d b v1"
    using find_partition_shows [OF _ _ _ assms(9) _ assms(5) f(1)] assms(3,6) by simp
  then show ?thesis by (rule init_volume_layout [OF _ f(2) assms(6-8)])
qed

end

lemma FatFs_put [simp]:
  "FatFs (put_volume f v st) = FatFs st" "Fsid (put_volume f v st) = Fsid st" "CurrVol (put_volume f v st) = CurrVol st"
  by (simp_all add: put_volume_def)

lemma find_volume_mounts:
  assumes "get_ldnumber (CurrVol st) path = Some (vol, r)" "FatFs st ! vol = Some f" "fs_type (objs st f) = 0"
    and "find_volume D path w st = Some (FR_OK, fs, p, st')"
  obtains v where "mount_volume D vol w (volume_of st f) = Some (FR_OK, v)" "fs = Some f" "p = r"
    "st' = (put_volume f (v\<lparr>fs_id := Fsid st + 1\<rparr>) st)\<lparr>Fsid := Fsid st + 1\<rparr>"
  using assms by (auto simp: find_volume_def Let_def bind_eq_Some_conv split: if_splits)

lemma clean_volume_id [simp]:
  "clean_volume p N sect ready (v\<lparr>fs_id := i\<rparr>) = clean_volume p N sect ready v" "data_room N (v\<lparr>fs_id := i\<rparr>) = data_room N v"
  by (simp_all add: clean_volume_def data_room_def fat_layout_def fat_room_def)

text \<open>C35: A successful mount establishes what the rest of the module relies on.  If \<open>f_mount\<close> with immediate
  mounting returns success on a disk of fewer than 2 to the 28 sectors whose reads return the sectors asked for, and the boot sector
  that was found claims neither a table larger than the disk nor an end behind it (and, where sector 0 is not itself the boot sector of a
  FAT volume, its partition table names no partition that starts behind the end of the disk), then the file system object
  describes a volume on that disk: a table with room for an entry for every cluster, clusters of a power of two sectors that all lie behind the
  tables and before the end of the disk, a window that shows what is on the disk, the root as current directory, and a number of its
  own.  The disk is not changed.\<close>

theorem mount_establishes_layout:
  assumes "ff_mount D (Some f) path 1 st = Some (FR_OK, st')" "get_ldnumber (CurrVol st) path = Some (vol, r)"
    and "vol < length (FatFs st)" "read_laws D (of_nat vol) N sect live"
    and "dk_init D (of_nat vol) (disk st) = Some (stat, d)" "live d"
    and "fat_boot (sect d 0) \<or> (\<forall>i<4. unat (partition_start (sect d 0) i) < N)" "volume_of st' f = v"
    and "0 < N" "N < 0x0FFFFFFF" "unat (fat_size v) \<le> N" "unat (volbase v) + unat (volume_sectors (sect d (volbase v))) \<le> N"
  shows "clean_volume (of_nat vol) N sect (readable_disk D (of_nat vol) N sect live) v \<and> data_room N v \<and>
    sect (disk st') = sect d \<and> cdir v = 0 \<and> fs_id v = Fsid st + 1 \<and> FatFs st' = (FatFs st)[vol := Some f]"
proof -
  let ?clear = "\<lambda>g st :: 'a ffs. case g of None \<Rightarrow> st | Some f \<Rightarrow> st\<lparr>objs := (objs st)(f := (objs st f)\<lparr>fs_type := 0\<rparr>)\<rparr>"
  define st1 where "st1 = ?clear (Some f) (?clear (FatFs st ! vol) st)"
  define st2 where "st2 = st1\<lparr>FatFs := (FatFs st1)[vol := Some f]\<rparr>"
  have c: "FatFs st1 = FatFs st" "CurrVol st1 = CurrVol st" "Fsid st1 = Fsid st" "disk st1 = disk st" "fs_type (objs st1 f) = 0"
    by (auto simp: st1_def split: option.splits)
  obtain fs p where fv: "find_volume D path False st2 = Some (FR_OK, fs, p, st')"
    using assms(1,2) by (auto simp: ff_mount_def st1_def st2_def Let_def bind_eq_Some_conv)
  have l: "get_ldnumber (CurrVol st2) path = Some (vol, r)" "FatFs st2 ! vol = Some f" "fs_type (objs st2 f) = 0"
    using assms(2,3) c by (simp_all add: st2_def)
  obtain v' where m: "mount_volume D vol False (volume_of st2 f) = Some (FR_OK, v')"
    "st' = (put_volume f (v'\<lparr>fs_id := Fsid st2 + 1\<rparr>) st2)\<lparr>Fsid := Fsid st2 + 1\<rparr>"
    by (rule find_volume_mounts [OF l fv])
  have "volume_of (st\<lparr>Fsid := n\<rparr>) f = volume_of st f" for st :: "'a ffs" and n by (simp add: volume_of_def)
  then have v: "v = v'\<lparr>fs_id := Fsid st + 1\<rparr>" using m(2) assms(8) c by (simp add: st2_def)
  have "dk_init D (of_nat vol) (dsk (volume_of st2 f)) = Some (stat, d)" using assms(5) c by (simp add: st2_def)
  then have "clean_volume (of_nat vol) N sect (readable_disk D (of_nat vol) N sect live) v' \<and> data_room N v' \<and>
      sect (dsk v') = sect d \<and> cdir v' = 0"
    using readable.mount_volume_layout [where D = D and p = "of_nat vol" and sect = sect and live = live and d = d and N = N,
        OF m(1) _ _ refl assms(7,10)] assms(4,6,9,11,12) v by simp
  then show ?thesis using v m(2) c by (simp add: st2_def)
qed

text \<open>A boot sector of a volume with 46 clusters.\<close>

definition sample_boot :: "u8 list" where
  "sample_boot =
     ST_WORD 510 0xAA55 (ST_DWORD 54 0x00544146 (ST_WORD 22 1 (ST_WORD 19 50 (ST_WORD 17 16 (ST_WORD 14 1
       ((ST_WORD 11 512 (replicate 512 0))[13 := 1, 16 := 2]))))))"

definition boot_disk :: "u32 \<Rightarrow> u8 list" where
  "boot_disk s = (if s = 0 then sample_boot else replicate 512 0)"

lemma sample_boot_bytes:
  "length sample_boot = 512" "LD_WORD sample_boot 510 = 0xAA55" "LD_DWORD sample_boot 54 = 0x00544146"
  "LD_WORD sample_boot 11 = 512" "sample_boot ! 13 = 1" "LD_WORD sample_boot 14 = 1" "sample_boot ! 16 = 2"
  "LD_WORD sample_boot 17 = 16" "LD_WORD sample_boot 19 = 50" "LD_WORD sample_boot 22 = 1"
  "\<forall>i<4. partition_start sample_boot i = 0"
proof -
  have four: "i < 4 \<Longrightarrow> i = 0 \<or> i = 1 \<or> i = 2 \<or> i = 3" for i :: nat by linarith
  show "length sample_boot = 512" by (simp add: sample_boot_def ST_WORD_def ST_DWORD_def)
  show "LD_WORD sample_boot 510 = 0xAA55" "LD_DWORD sample_boot 54 = 0x00544146"
    "LD_WORD sample_boot 11 = 512" "sample_boot ! 13 = 1" "LD_WORD sample_boot 14 = 1" "sample_boot ! 16 = 2"
    "LD_WORD sample_boot 17 = 16" "LD_WORD sample_boot 19 = 50" "LD_WORD sample_boot 22 = 1"
    by (simp_all add: sample_boot_def ST_WORD_def ST_DWORD_def LD_WORD_def LD_DWORD_def nth_list_update)
  show "\<forall>i<4. partition_start sample_boot i = 0"
    by (auto dest!: four simp: partition_start_def sample_boot_def ST_WORD_def ST_DWORD_def nth_list_update)
qed

theorem mount_establishes_layout_witness:
  "\<exists>st. ff_mount ram_disk (Some 0) (Some []) 1 (sample_state\<lparr>disk := boot_disk\<rparr>) = Some (FR_OK, st) \<and>
     data_room 100 (volume_of st 0) \<and> n_fatent (volume_of st 0) = 48"
proof -
  let ?st = "sample_state\<lparr>disk := boot_disk\<rparr>"
  have b: "boot_disk 0 = sample_boot" by (simp add: boot_disk_def)
  have "check_fs ram_disk 0 v = Some (0, v\<lparr>wflag := 0, dsk := dsk v, win := sample_boot, winsect := 0\<rparr>)"
    if "dsk v = boot_disk" for v
    using that sample_boot_bytes by (simp add: check_fs_def move_window_def sync_window_def ram_disk_def b)
  then have f: "find_partition ram_disk v = Some (0, 0, v\<lparr>wflag := 0, dsk := dsk v, win := sample_boot, winsect := 0\<rparr>)"
    if "dsk v = boot_disk" for v
    using that by (simp add: find_partition_def)
  have i: "dk_init ram_disk q d = Some (0, d)" for q d by (simp add: ram_disk_def)
  have m: "\<exists>v'. mount_volume ram_disk 0 False v = Some (FR_OK, v') \<and> fat_size v' = 1 \<and> volbase v' = 0 \<and> n_fatent v' = 48"
    if "dsk v = boot_disk" for v
    using that sample_boot_bytes
    by (simp add: mount_volume_def i f STA_OFF_def init_volume_def finish_volume_def Let_def fat_type_def table_bytes_def
        read_fsinfo_def FS_types)
  let ?st1 = "?st\<lparr>objs := (objs ?st)(0 := (objs ?st 0)\<lparr>fs_type := 0\<rparr>)\<rparr>"
  have d: "dsk (volume_of ?st1 0) = boot_disk" by simp
  obtain v' where v': "mount_volume ram_disk 0 False (volume_of ?st1 0) = Some (FR_OK, v')" "fat_size v' = 1" "volbase v' = 0"
    "n_fatent v' = 48" using m [OF d] by blast
  let ?st2 = "(put_volume 0 (v'\<lparr>fs_id := 2\<rparr>) ?st1)\<lparr>Fsid := 2\<rparr>"
  have st: "ff_mount ram_disk (Some 0) (Some []) 1 ?st = Some (FR_OK, ?st2)"
    using v'(1) by (simp add: ff_mount_def get_ldnumber_def front_def find_volume_def sample_state_def)
  have vv: "volume_of ?st2 0 = v'\<lparr>fs_id := 2\<rparr>"
    using volume_of_put [of 0 "v'\<lparr>fs_id := 2\<rparr>" ?st1] by (simp add: volume_of_def)
  have g: "get_ldnumber (CurrVol ?st) (Some []) = Some (0, [])" "0 < length (FatFs ?st)"
    by (simp_all add: get_ldnumber_def front_def sample_state_def)
  have k: "read_laws ram_disk (of_nat 0) 100 (\<lambda>d. d) whole" "dk_init ram_disk (of_nat 0) (disk ?st) = Some (0, boot_disk)"
    "whole boot_disk" "fat_boot (boot_disk 0) \<or> (\<forall>i<4. unat (partition_start (boot_disk 0) i) < 100)"
    "0 < (100 :: nat)" "(100 :: nat) < 0x0FFFFFFF"
    using sample_readable [of 0 100] sample_boot_bytes by (simp_all add: i b fat_boot_def) (simp add: whole_def boot_disk_def)
  have n: "unat (fat_size (v'\<lparr>fs_id := 2\<rparr>)) \<le> 100"
    "unat (volbase (v'\<lparr>fs_id := 2\<rparr>)) + unat (volume_sectors (boot_disk (volbase (v'\<lparr>fs_id := 2\<rparr>)))) \<le> 100"
    using v'(2,3) sample_boot_bytes by (simp_all add: b volume_sectors_def)
  have "data_room 100 (v'\<lparr>fs_id := 2\<rparr>)"
    using mount_establishes_layout [where sect = "\<lambda>d. d" and live = whole and d = boot_disk, OF st g k(1-4) vv k(5,6) n] by blast
  then show ?thesis using st v' vv by auto
qed

end
