(* ===== verification/FatApi.thy ===== *)
theory FatApi
  imports FatMount
begin

text \<open>
  The functions of FatFs that take a path (hello/ff.c): opening and creating files, directories, attributes,
  renaming, removing, labels, free clusters and the current directory.  The local directory object of a function,
  which C leaves uninitialised, is the argument \<open>dj\<close>: its fields hold what happens to be on the stack.
\<close>

section \<open>A call on the volume of a path\<close>

definition with_volume ::
  "'d disk_ops \<Rightarrow> u8 list option \<Rightarrow> bool \<Rightarrow> 'r \<Rightarrow> (nat \<Rightarrow> u8 list \<Rightarrow> 'd volume \<Rightarrow> (FRESULT \<times> 'r \<times> 'd volume) option) \<Rightarrow>
   'd ffs \<Rightarrow> (FRESULT \<times> 'r \<times> 'd ffs) option" where
  "with_volume D path wmode r body st =
     do { (res, fs, p, st) \<leftarrow> find_volume D path wmode st;
          if res \<noteq> FR_OK then Some (res, r, st)
          else
            (let f = the fs in
             do { (res, r, v) \<leftarrow> body f p (volume_of st f); Some (res, r, put_volume f v st) }) }"

text \<open>A call whose only result is its status.\<close>

definition on_volume ::
  "'d disk_ops \<Rightarrow> u8 list option \<Rightarrow> bool \<Rightarrow> (u8 list \<Rightarrow> 'd volume \<Rightarrow> (FRESULT \<times> 'd volume) option) \<Rightarrow>
   'd ffs \<Rightarrow> (FRESULT \<times> 'd ffs) option" where
  "on_volume D path wmode body st =
     do { (res, _, st) \<leftarrow> with_volume D path wmode () (\<lambda>_ p v. do { (res, v) \<leftarrow> body p v; Some (res, (), v) }) st;
          Some (res, st) }"

section \<open>Opening a file\<close>

definition blank_entry :: "nat \<Rightarrow> u8 list \<Rightarrow> u8 list" where
  "blank_entry i bs =
     st_clust i 0 (ST_DWORD (i + 28) 0 ((ST_DWORD (i + 22) GET_FATTIME (ST_DWORD (i + 14) GET_FATTIME bs))[i + 11 := 0]))"

text \<open>The file that is there loses its contents, and the clusters become the next to be allocated.\<close>

definition overwrite_file :: "'d disk_ops \<Rightarrow> nat \<Rightarrow> 'd volume \<Rightarrow> (FRESULT \<times> 'd volume) option" where
  "overwrite_file D i v =
     (let cl = ld_clust v i; v = set_win (blank_entry i (win v)) v in
      if cl \<noteq> 0 then
        (let dw = winsect v in
         do { (res, v) \<leftarrow> remove_chain D cl v;
              if res = FR_OK then move_window D dw (v\<lparr>last_clust := cl - 1\<rparr>) else Some (res, v) })
      else Some (FR_OK, v))"

definition open_create ::
  "'d disk_ops \<Rightarrow> u8 \<Rightarrow> FRESULT \<Rightarrow> DIR \<Rightarrow> 'd volume \<Rightarrow> (FRESULT \<times> u8 \<times> DIR \<times> 'd volume) option" where
  "open_create D mode res dj v =
     do { (res, mode, dj, v) \<leftarrow>
            (if res \<noteq> FR_OK then
               do { (res, dj, v) \<leftarrow> (if res = FR_NO_FILE then dir_register D dj v else Some (res, dj, v));
                    Some (res, mode OR FA_CREATE_ALWAYS, dj, v) }
             else
               Some (if entry_byte dj 11 v AND (AM_RDO OR AM_DIR) \<noteq> 0 then FR_DENIED
                     else if mode AND FA_CREATE_NEW \<noteq> 0 then FR_EXIST else FR_OK, mode, dj, v));
          if res = FR_OK \<and> mode AND FA_CREATE_ALWAYS \<noteq> 0 then
            do { (res, v) \<leftarrow> overwrite_file D (entry_at dj) v; Some (res, mode, dj, v) }
          else Some (res, mode, dj, v) }"

definition open_existing :: "u8 \<Rightarrow> FRESULT \<Rightarrow> DIR \<Rightarrow> 'd volume \<Rightarrow> FRESULT" where
  "open_existing mode res dj v =
     (if res \<noteq> FR_OK then res
      else if entry_byte dj 11 v AND AM_DIR \<noteq> 0 then FR_NO_FILE
      else if mode AND FA_WRITE \<noteq> 0 \<and> entry_byte dj 11 v AND AM_RDO \<noteq> 0 then FR_DENIED else FR_OK)"

definition open_volume ::
  "'d disk_ops \<Rightarrow> u8 \<Rightarrow> FIL \<Rightarrow> DIR \<Rightarrow> nat \<Rightarrow> u8 list \<Rightarrow> 'd volume \<Rightarrow> (FRESULT \<times> FIL \<times> 'd volume) option" where
  "open_volume D mode fp dj f p v =
     do { (res, dj, v) \<leftarrow> follow_path D p dj v;
          let res = (if res = FR_OK \<and> dj_dir dj = None then FR_INVALID_NAME else res);
          (res, mode, dj, v) \<leftarrow>
            (if mode AND (FA_CREATE_ALWAYS OR FA_OPEN_ALWAYS OR FA_CREATE_NEW) \<noteq> 0 then open_create D mode res dj v
             else Some (open_existing mode res dj v, mode, dj, v));
          Some (res,
            if res \<noteq> FR_OK then fp
            else
              fp\<lparr>dir_sect := winsect v, dir_ptr := entry_at dj,
                fl_flag := (if mode AND FA_CREATE_ALWAYS \<noteq> 0 then mode OR FA_WRITTEN else mode), fl_err := FR_OK,
                sclust := ld_clust v (entry_at dj), fl_size := LD_DWORD (win v) (entry_at dj + 28), fptr := 0, dsect := 0,
                fl_fs := Some f, fl_id := fs_id v\<rparr>,
            v) }"

definition ff_open ::
  "'d disk_ops \<Rightarrow> FIL option \<Rightarrow> u8 list option \<Rightarrow> u8 \<Rightarrow> DIR \<Rightarrow> 'd ffs \<Rightarrow> (FRESULT \<times> FIL option \<times> 'd ffs) option" where
  "ff_open D fp path mode dj st =
     (case fp of
        None \<Rightarrow> Some (FR_INVALID_OBJECT, None, st)
      | Some fp \<Rightarrow>
          let fp = fp\<lparr>fl_fs := None\<rparr>;
              mode = mode AND (FA_READ OR FA_WRITE OR FA_CREATE_ALWAYS OR FA_OPEN_ALWAYS OR FA_CREATE_NEW) in
          do { (res, fp, st) \<leftarrow> with_volume D path (mode AND NOT FA_READ \<noteq> 0) fp (open_volume D mode fp dj) st;
               Some (res, Some fp, st) })"

section \<open>Directories\<close>

definition ff_chdrive :: "u8 list option \<Rightarrow> 'd ffs \<Rightarrow> FRESULT \<times> 'd ffs" where
  "ff_chdrive path st =
     (case get_ldnumber (CurrVol st) path of
        None \<Rightarrow> (FR_INVALID_DRIVE, st)
      | Some (vol, _) \<Rightarrow> (FR_OK, st\<lparr>CurrVol := of_nat vol\<rparr>))"

definition chdir_volume :: "'d disk_ops \<Rightarrow> DIR \<Rightarrow> u8 list \<Rightarrow> 'd volume \<Rightarrow> (FRESULT \<times> 'd volume) option" where
  "chdir_volume D dj p v =
     do { (res, dj, v) \<leftarrow> follow_path D p dj v;
          Some (if res = FR_OK then
                  (if dj_dir dj = None then (FR_OK, v\<lparr>cdir := dj_sclust dj\<rparr>)
                   else if entry_byte dj 11 v AND AM_DIR \<noteq> 0 then (FR_OK, v\<lparr>cdir := ld_clust v (entry_at dj)\<rparr>)
                   else (FR_NO_PATH, v))
                else (if res = FR_NO_FILE then FR_NO_PATH else res, v)) }"

definition ff_chdir :: "'d disk_ops \<Rightarrow> u8 list option \<Rightarrow> DIR \<Rightarrow> 'd ffs \<Rightarrow> (FRESULT \<times> 'd ffs) option" where
  "ff_chdir D path dj st = on_volume D path False (chdir_volume D dj) st"

definition opendir_volume ::
  "'d disk_ops \<Rightarrow> DIR \<Rightarrow> nat \<Rightarrow> u8 list \<Rightarrow> 'd volume \<Rightarrow> (FRESULT \<times> DIR \<times> 'd volume) option" where
  "opendir_volume D dp f p v =
     do { (res, dp, v) \<leftarrow> follow_path D p (dp\<lparr>dj_fs := Some f\<rparr>) v;
          (res, dp, v) \<leftarrow>
            (if res \<noteq> FR_OK then Some (res, dp, v)
             else if dj_dir dp \<noteq> None \<and> entry_byte dp 11 v AND AM_DIR = 0 then Some (FR_NO_PATH, dp, v)
             else
               (let dp = (if dj_dir dp \<noteq> None then dp\<lparr>dj_sclust := ld_clust v (entry_at dp)\<rparr> else dp)
                in dir_sdi D 0 (dp\<lparr>dj_id := fs_id v\<rparr>) v));
          Some (if res = FR_NO_FILE then FR_NO_PATH else res, dp, v) }"

definition ff_opendir ::
  "'d disk_ops \<Rightarrow> DIR option \<Rightarrow> u8 list option \<Rightarrow> 'd ffs \<Rightarrow> (FRESULT \<times> DIR option \<times> 'd ffs) option" where
  "ff_opendir D dp path st =
     (case dp of
        None \<Rightarrow> Some (FR_INVALID_OBJECT, None, st)
      | Some dp \<Rightarrow>
          do { (res, dp, st) \<leftarrow> with_volume D path False dp (opendir_volume D dp) st;
               Some (res, Some (if res \<noteq> FR_OK then dp\<lparr>dj_fs := None\<rparr> else dp), st) })"

definition ff_closedir :: "'d disk_ops \<Rightarrow> DIR \<Rightarrow> 'd ffs \<Rightarrow> FRESULT \<times> DIR" where
  "ff_closedir D dp st =
     (let res = validate D (dj_fs dp) (dj_id dp) st in (res, if res = FR_OK then dp\<lparr>dj_fs := None\<rparr> else dp))"

text \<open>The next item of a directory; at its end the sector is 0 and the name is empty.\<close>

definition readdir_volume ::
  "'d disk_ops \<Rightarrow> DIR \<Rightarrow> FILINFO option \<Rightarrow> 'd volume \<Rightarrow> (FRESULT \<times> DIR \<times> FILINFO option \<times> 'd volume) option" where
  "readdir_volume D dp fno v =
     (case fno of
        None \<Rightarrow> do { (res, dp, v) \<leftarrow> dir_sdi D 0 dp v; Some (res, dp, None, v) }
      | Some fno \<Rightarrow>
          do { (res, dp, v) \<leftarrow> dir_read D False dp v;
               let (res, dp) = (if res = FR_NO_FILE then (FR_OK, dp\<lparr>dj_sect := 0\<rparr>) else (res, dp));
               if res \<noteq> FR_OK then Some (res, dp, Some fno, v)
               else
                 (let fno = get_fileinfo dp v fno in
                  do { (res, dp, v) \<leftarrow> dir_next D False dp v;
                       let (res, dp) = (if res = FR_NO_FILE then (FR_OK, dp\<lparr>dj_sect := 0\<rparr>) else (res, dp));
                       Some (res, dp, Some fno, v) }) })"

definition ff_readdir ::
  "'d disk_ops \<Rightarrow> DIR \<Rightarrow> FILINFO option \<Rightarrow> 'd ffs \<Rightarrow> (FRESULT \<times> DIR \<times> FILINFO option \<times> 'd ffs) option" where
  "ff_readdir D dp fno st =
     (let res = validate D (dj_fs dp) (dj_id dp) st; f = the (dj_fs dp) in
      if res \<noteq> FR_OK then Some (res, dp, fno, st)
      else
        do { (res, dp, fno, v) \<leftarrow> readdir_volume D dp fno (volume_of st f);
             Some (res, dp, fno, put_volume f v st) })"

definition stat_volume ::
  "'d disk_ops \<Rightarrow> FILINFO option \<Rightarrow> DIR \<Rightarrow> u8 list \<Rightarrow> 'd volume \<Rightarrow> (FRESULT \<times> FILINFO option \<times> 'd volume) option" where
  "stat_volume D fno dj p v =
     do { (res, dj, v) \<leftarrow> follow_path D p dj v;
          Some (if res \<noteq> FR_OK then (res, fno, v)
                else if dj_dir dj = None then (FR_INVALID_NAME, fno, v)
                else (FR_OK, map_option (get_fileinfo dj v) fno, v)) }"

definition ff_stat ::
  "'d disk_ops \<Rightarrow> u8 list option \<Rightarrow> FILINFO option \<Rightarrow> DIR \<Rightarrow> 'd ffs \<Rightarrow> (FRESULT \<times> FILINFO option \<times> 'd ffs) option" where
  "ff_stat D path fno dj st = with_volume D path False fno (\<lambda>_. stat_volume D fno dj) st"

section \<open>The path of the current directory\<close>

text \<open>The entry of a directory that leads to the cluster \<open>ccl\<close>.\<close>

partial_function (option) cwd_find :: "'d disk_ops \<Rightarrow> u32 \<Rightarrow> DIR \<Rightarrow> 'd volume \<Rightarrow> (FRESULT \<times> DIR \<times> 'd volume) option" where
  "cwd_find D ccl dj v =
     (case dir_read D False dj v of
        None \<Rightarrow> None
      | Some (res, dj, v) \<Rightarrow>
          if res \<noteq> FR_OK then Some (res, dj, v)
          else if ccl = ld_clust v (entry_at dj) then Some (FR_OK, dj, v)
          else
            (case dir_next D False dj v of
               None \<Rightarrow> None
             | Some (res, dj, v) \<Rightarrow> if res = FR_OK then cwd_find D ccl dj v else Some (res, dj, v)))"

text \<open>One level up: the parent is the second entry, and the name is that of the entry in the parent.\<close>

definition cwd_up :: "'d disk_ops \<Rightarrow> DIR \<Rightarrow> 'd volume \<Rightarrow> (FRESULT \<times> DIR \<times> 'd volume) option" where
  "cwd_up D dj v =
     (let ccl = dj_sclust dj in
      do { (res, dj, v) \<leftarrow> dir_sdi D 1 dj v;
           if res \<noteq> FR_OK then Some (res, dj, v)
           else
             do { (res, dj, v) \<leftarrow> dir_read D False dj v;
                  if res \<noteq> FR_OK then Some (res, dj, v)
                  else
                    do { (res, dj, v) \<leftarrow> dir_sdi D 0 (dj\<lparr>dj_sclust := ld_clust v (entry_at dj)\<rparr>) v;
                         if res \<noteq> FR_OK then Some (res, dj, v)
                         else
                           do { (res, dj, v) \<leftarrow> cwd_find D ccl dj v;
                                Some (if res = FR_NO_FILE then FR_INT_ERR else res, dj, v) } } } })"

text \<open>The buffer is memory from its first byte on, so that a write behind its end shows.\<close>

type_synonym text_mem = "nat \<Rightarrow> u8"

fun put_text :: "nat \<Rightarrow> u8 list \<Rightarrow> text_mem \<Rightarrow> text_mem" where
  "put_text i [] b = b"
| "put_text i (c # cs) b = put_text (i + 1) cs (b(i := c))"

partial_function (option) cwd_loop ::
  "'d disk_ops \<Rightarrow> text_mem \<Rightarrow> nat \<Rightarrow> DIR \<Rightarrow> 'd volume \<Rightarrow> (FRESULT \<times> text_mem \<times> nat \<times> 'd volume) option" where
  "cwd_loop D buff i dj v =
     (if dj_sclust dj = 0 then Some (FR_OK, buff, i, v)
      else
        (case cwd_up D dj v of
           None \<Rightarrow> None
         | Some (res, dj, v) \<Rightarrow>
             if res \<noteq> FR_OK then Some (res, buff, i, v)
             else
               (let name = (if dj_sect dj \<noteq> 0 then entry_name (entry_at dj) (win v) else []); n = length name in
                if i < n + 3 then Some (FR_NOT_ENOUGH_CORE, buff, i, v)
                else cwd_loop D (put_text (i - n - 1) (0x2F # name) buff) (i - n - 1) dj v)))"

fun copy_down :: "nat \<Rightarrow> nat \<Rightarrow> nat \<Rightarrow> text_mem \<Rightarrow> text_mem" where
  "copy_down (Suc n) tp i b = copy_down n (tp + 1) (i + 1) (b(tp := b i))"
| "copy_down 0 tp i b = b"

text \<open>The drive, the path stacked from position \<open>i\<close> on, and the end of the string.\<close>

definition cwd_string :: "u8 \<Rightarrow> nat \<Rightarrow> nat \<Rightarrow> text_mem \<Rightarrow> text_mem" where
  "cwd_string vol i len b =
     (let b = b(0 := 0x30 + vol, 1 := 0x3A) in
      if i = len then b(2 := 0x2F, 3 := 0) else (copy_down (len - i) 2 i b)(2 + (len - i) := 0))"

definition getcwd_volume ::
  "'d disk_ops \<Rightarrow> u8 \<Rightarrow> nat \<Rightarrow> DIR \<Rightarrow> text_mem \<Rightarrow> 'd volume \<Rightarrow> (FRESULT \<times> text_mem \<times> 'd volume) option" where
  "getcwd_volume D vol len dj buff v =
     do { (res, buff, i, v) \<leftarrow> cwd_loop D buff len (dj\<lparr>dj_sclust := cdir v\<rparr>) v;
          Some (res, if res = FR_OK then cwd_string vol i len buff else buff(0 := 0), v) }"

definition ff_getcwd :: "'d disk_ops \<Rightarrow> text_mem \<Rightarrow> u32 \<Rightarrow> DIR \<Rightarrow> 'd ffs \<Rightarrow> (FRESULT \<times> text_mem \<times> 'd ffs) option" where
  "ff_getcwd D buff len dj st =
     (let buff = buff(0 := 0) in
      with_volume D (Some []) False buff (\<lambda>_ _. getcwd_volume D (CurrVol st) (unat len) dj buff) st)"

section \<open>Free clusters\<close>

partial_function (option) count12 :: "'d disk_ops \<Rightarrow> u32 \<Rightarrow> u32 \<Rightarrow> 'd volume \<Rightarrow> (FRESULT \<times> u32 \<times> 'd volume) option" where
  "count12 D clst nfree v =
     (case get_fat D clst v of
        None \<Rightarrow> None
      | Some (stat, v) \<Rightarrow>
          if stat = 0xFFFFFFFF then Some (FR_DISK_ERR, nfree, v)
          else if stat = 1 then Some (FR_INT_ERR, nfree, v)
          else
            (let nfree = (if stat = 0 then nfree + 1 else nfree); clst = clst + 1 in
             if clst < n_fatent v then count12 D clst nfree v else Some (FR_OK, nfree, v)))"

text \<open>The sectors of the table one after the other: \<open>i\<close> bytes of the window are left, from offset \<open>p\<close>.\<close>

partial_function (option) count_free_entries ::
  "'d disk_ops \<Rightarrow> u32 \<Rightarrow> nat \<Rightarrow> nat \<Rightarrow> u32 \<Rightarrow> u32 \<Rightarrow> 'd volume \<Rightarrow> (FRESULT \<times> u32 \<times> 'd volume) option" where
  "count_free_entries D sect i p clst nfree v =
     (case (if i = 0 then map_option (\<lambda>(res, v). (res, sect + 1, 512, 0, v)) (move_window D sect v)
            else Some (FR_OK, sect, i, p, v)) of
        None \<Rightarrow> None
      | Some (res, sect, i, p, v) \<Rightarrow>
          if res \<noteq> FR_OK then Some (res, nfree, v)
          else
            (let wide = fs_type v \<noteq> FS_FAT16; n = (if wide then 4 else 2);
                 free = (if wide then LD_DWORD (win v) p AND 0x0FFFFFFF = 0 else LD_WORD (win v) p = 0);
                 nfree = (if free then nfree + 1 else nfree); clst = clst - 1 in
             if clst \<noteq> 0 then count_free_entries D sect (i - n) (p + n) clst nfree v else Some (FR_OK, nfree, v)))"

text \<open>The count is stored also when the loop was broken off.\<close>

definition getfree_volume :: "'d disk_ops \<Rightarrow> 'd volume \<Rightarrow> (FRESULT \<times> u32 \<times> 'd volume) option" where
  "getfree_volume D v =
     (if free_clust v \<le> n_fatent v - 2 then Some (FR_OK, free_clust v, v)
      else
        do { (res, nfree, v) \<leftarrow>
               (if fs_type v = FS_FAT12 then count12 D 2 0 v
                else count_free_entries D (fatbase v) 0 0 (n_fatent v) 0 v);
             Some (res, nfree, v\<lparr>free_clust := nfree, fsi_flag := fsi_flag v OR 1\<rparr>) })"

text \<open>Beside the count it returns the file system object, which is a null pointer if the drive has none.\<close>

definition ff_getfree ::
  "'d disk_ops \<Rightarrow> u8 list option \<Rightarrow> u32 \<Rightarrow> 'd ffs \<Rightarrow> (FRESULT \<times> u32 \<times> nat option \<times> 'd ffs) option" where
  "ff_getfree D path nclst st =
     do { (res, fs, _, st) \<leftarrow> find_volume D path False st;
          if res \<noteq> FR_OK then Some (res, nclst, fs, st)
          else
            (let f = the fs in
             do { (res, n, v) \<leftarrow> getfree_volume D (volume_of st f); Some (res, n, fs, put_volume f v st) }) }"

section \<open>Removing and creating\<close>

text \<open>A directory can be removed when it is not the current one and has nothing after its dot entries.\<close>

definition may_unlink :: "'d disk_ops \<Rightarrow> DIR \<Rightarrow> u32 \<Rightarrow> 'd volume \<Rightarrow> (FRESULT \<times> 'd volume) option" where
  "may_unlink D dj dclst v =
     (if dclst \<noteq> 0 \<and> entry_byte dj 11 v AND AM_DIR \<noteq> 0 then
        (if dclst = cdir v then Some (FR_DENIED, v)
         else
           do { (res, sdj, v) \<leftarrow> dir_sdi D 2 (dj\<lparr>dj_sclust := dclst\<rparr>) v;
                if res \<noteq> FR_OK then Some (res, v)
                else
                  do { (res, sdj, v) \<leftarrow> dir_read D False sdj v;
                       Some (if res = FR_OK then FR_DENIED else if res = FR_NO_FILE then FR_OK else res, v) } })
      else Some (FR_OK, v))"

definition is_dot :: "DIR \<Rightarrow> bool" where
  "is_dot dj \<longleftrightarrow> dj_fn dj ! 11 AND NS_DOT \<noteq> 0"

definition unlink_volume :: "'d disk_ops \<Rightarrow> DIR \<Rightarrow> u8 list \<Rightarrow> 'd volume \<Rightarrow> (FRESULT \<times> 'd volume) option" where
  "unlink_volume D dj p v =
     do { (res, dj, v) \<leftarrow> follow_path D p dj v;
          if res \<noteq> FR_OK then Some (res, v)
          else if is_dot dj then Some (FR_INVALID_NAME, v)
          else if dj_dir dj = None then Some (FR_INVALID_NAME, v)
          else if entry_byte dj 11 v AND AM_RDO \<noteq> 0 then Some (FR_DENIED, v)
          else
            (let dclst = ld_clust v (entry_at dj) in
             do { (res, v) \<leftarrow> may_unlink D dj dclst v;
                  if res \<noteq> FR_OK then Some (res, v)
                  else
                    do { (res, dj, v) \<leftarrow> dir_remove D dj v;
                         (res, v) \<leftarrow> (if res = FR_OK \<and> dclst \<noteq> 0 then remove_chain D dclst v else Some (res, v));
                         if res = FR_OK then sync_fs D v else Some (res, v) } }) }"

definition ff_unlink :: "'d disk_ops \<Rightarrow> u8 list option \<Rightarrow> DIR \<Rightarrow> 'd ffs \<Rightarrow> (FRESULT \<times> 'd ffs) option" where
  "ff_unlink D path dj st = on_volume D path True (unlink_volume D dj) st"

text \<open>The first sector of a new directory: the entries for the directory and its parent.\<close>

definition dot_entries :: "u32 \<Rightarrow> u32 \<Rightarrow> u8 list" where
  "dot_entries dcl pcl =
     (let w = (put_bytes 0 (replicate 11 0x20) (replicate 512 0))[0 := 0x2E, 11 := AM_DIR];
          w = st_clust 0 dcl (ST_DWORD 22 GET_FATTIME w);
          w = (put_bytes 32 (take 32 w) w)[33 := 0x2E]
      in st_clust 32 pcl w)"

fun write_table :: "'d disk_ops \<Rightarrow> nat \<Rightarrow> u32 \<Rightarrow> 'd volume \<Rightarrow> (FRESULT \<times> 'd volume) option" where
  "write_table D (Suc n) dsc v =
     do { (res, v) \<leftarrow> sync_window D (v\<lparr>winsect := dsc, wflag := 1\<rparr>);
          if res \<noteq> FR_OK then Some (res, v) else write_table D n (dsc + 1) (v\<lparr>win := replicate 512 0\<rparr>) }"
| "write_table D 0 dsc v = Some (FR_OK, v)"

definition make_table :: "'d disk_ops \<Rightarrow> u32 \<Rightarrow> DIR \<Rightarrow> 'd volume \<Rightarrow> (FRESULT \<times> 'd volume) option" where
  "make_table D dcl dj v =
     do { (res, v) \<leftarrow> sync_window D v;
          if res \<noteq> FR_OK then Some (res, v)
          else
            (let pcl = (if fs_type v = FS_FAT32 \<and> dj_sclust dj = dirbase v then 0 else dj_sclust dj)
             in write_table D (unat (csize v)) (clust2sect v dcl) (v\<lparr>win := dot_entries dcl pcl\<rparr>)) }"

definition mkdir_volume :: "'d disk_ops \<Rightarrow> DIR \<Rightarrow> u8 list \<Rightarrow> 'd volume \<Rightarrow> (FRESULT \<times> 'd volume) option" where
  "mkdir_volume D dj p v =
     do { (res, dj, v) \<leftarrow> follow_path D p dj v;
          if res = FR_OK then Some (FR_EXIST, v)
          else if res = FR_NO_FILE \<and> is_dot dj then Some (FR_INVALID_NAME, v)
          else if res \<noteq> FR_NO_FILE then Some (res, v)
          else
            do { (dcl, v) \<leftarrow> create_chain D 0 v;
                 let res = (if dcl = 0 then FR_DENIED else if dcl = 1 then FR_INT_ERR
                            else if dcl = 0xFFFFFFFF then FR_DISK_ERR else FR_OK);
                 (res, v) \<leftarrow> (if res = FR_OK then make_table D dcl dj v else Some (res, v));
                 (res, dj, v) \<leftarrow> (if res = FR_OK then dir_register D dj v else Some (res, dj, v));
                 if res \<noteq> FR_OK then do { (_, v) \<leftarrow> remove_chain D dcl v; Some (res, v) }
                 else
                   (let i = entry_at dj
                    in sync_fs D (set_win (st_clust i dcl (ST_DWORD (i + 22) GET_FATTIME ((win v)[i + 11 := AM_DIR]))) v)) } }"

definition ff_mkdir :: "'d disk_ops \<Rightarrow> u8 list option \<Rightarrow> DIR \<Rightarrow> 'd ffs \<Rightarrow> (FRESULT \<times> 'd ffs) option" where
  "ff_mkdir D path dj st = on_volume D path True (mkdir_volume D dj) st"

section \<open>Attributes, times and names\<close>

text \<open>A change of the entry a path leads to.\<close>

definition change_entry ::
  "'d disk_ops \<Rightarrow> (nat \<Rightarrow> u8 list \<Rightarrow> u8 list) \<Rightarrow> DIR \<Rightarrow> u8 list \<Rightarrow> 'd volume \<Rightarrow> (FRESULT \<times> 'd volume) option" where
  "change_entry D change dj p v =
     do { (res, dj, v) \<leftarrow> follow_path D p dj v;
          if res \<noteq> FR_OK then Some (res, v)
          else if is_dot dj then Some (FR_INVALID_NAME, v)
          else if dj_dir dj = None then Some (FR_INVALID_NAME, v)
          else sync_fs D (set_win (change (entry_at dj) (win v)) v) }"

definition set_attributes :: "u8 \<Rightarrow> u8 \<Rightarrow> nat \<Rightarrow> u8 list \<Rightarrow> u8 list" where
  "set_attributes attr msk i bs =
     (let msk = msk AND (AM_RDO OR AM_HID OR AM_SYS OR AM_ARC)
      in bs[i + 11 := (attr AND msk) OR (bs ! (i + 11) AND NOT msk)])"

definition ff_chmod :: "'d disk_ops \<Rightarrow> u8 list option \<Rightarrow> u8 \<Rightarrow> u8 \<Rightarrow> DIR \<Rightarrow> 'd ffs \<Rightarrow> (FRESULT \<times> 'd ffs) option" where
  "ff_chmod D path attr msk dj st = on_volume D path True (change_entry D (set_attributes attr msk) dj) st"

definition set_time :: "FILINFO \<Rightarrow> nat \<Rightarrow> u8 list \<Rightarrow> u8 list" where
  "set_time fno i bs = ST_WORD (i + 24) (fi_date fno) (ST_WORD (i + 22) (fi_time fno) bs)"

definition ff_utime :: "'d disk_ops \<Rightarrow> u8 list option \<Rightarrow> FILINFO \<Rightarrow> DIR \<Rightarrow> 'd ffs \<Rightarrow> (FRESULT \<times> 'd ffs) option" where
  "ff_utime D path fno dj st = on_volume D path True (change_entry D (set_time fno) dj) st"

text \<open>A directory that moves gets its new parent.\<close>

definition move_parent :: "'d disk_ops \<Rightarrow> DIR \<Rightarrow> DIR \<Rightarrow> 'd volume \<Rightarrow> (FRESULT \<times> 'd volume) option" where
  "move_parent D djo djn v =
     (if entry_byte djn 11 v AND AM_DIR \<noteq> 0 \<and> dj_sclust djo \<noteq> dj_sclust djn then
        (let dw = clust2sect v (ld_clust v (entry_at djn)) in
         if dw = 0 then Some (FR_INT_ERR, v)
         else
           do { (res, v) \<leftarrow> move_window D dw v;
                Some (res, if res = FR_OK \<and> win v ! 33 = 0x2E then set_win (st_clust 32 (dj_sclust djn) (win v)) v else v) })
      else Some (FR_OK, v))"

definition rename_volume :: "'d disk_ops \<Rightarrow> u8 \<Rightarrow> u8 list option \<Rightarrow> DIR \<Rightarrow> u8 list \<Rightarrow> 'd volume \<Rightarrow> (FRESULT \<times> 'd volume) option" where
  "rename_volume D cur new djo p v =
     do { (res, djo, v) \<leftarrow> follow_path D p djo v;
          if res \<noteq> FR_OK then Some (res, v)
          else if is_dot djo then Some (FR_INVALID_NAME, v)
          else if dj_dir djo = None then Some (FR_NO_FILE, v)
          else
            (let info = take 21 (drop (entry_at djo + 11) (win v)) in
             do { (res, djn, v) \<leftarrow>
                    (case get_ldnumber cur new of
                       Some (_, p) \<Rightarrow> follow_path D p djo v
                     | None \<Rightarrow> Some (FR_INVALID_DRIVE, djo, v));
                  if res = FR_OK then Some (FR_EXIST, v)
                  else if res \<noteq> FR_NO_FILE then Some (res, v)
                  else
                    do { (res, djn, v) \<leftarrow> dir_register D djn v;
                         if res \<noteq> FR_OK then Some (res, v)
                         else
                           (let i = entry_at djn;
                                v = set_win ((put_bytes (i + 13) (drop 2 info) (win v))[i + 11 := info ! 0 OR AM_ARC]) v in
                            do { (res, v) \<leftarrow> move_parent D djo djn v;
                                 (res, djo, v) \<leftarrow> (if res = FR_OK then dir_remove D djo v else Some (res, djo, v));
                                 if res = FR_OK then sync_fs D v else Some (res, v) }) } }) }"

definition ff_rename ::
  "'d disk_ops \<Rightarrow> u8 list option \<Rightarrow> u8 list option \<Rightarrow> DIR \<Rightarrow> 'd ffs \<Rightarrow> (FRESULT \<times> 'd ffs) option" where
  "ff_rename D old new djo st = on_volume D old True (rename_volume D (CurrVol st) new djo) st"

section \<open>The label of a volume\<close>

text \<open>The name without trailing spaces.\<close>

definition trim_spaces :: "u8 list \<Rightarrow> u8 list" where
  "trim_spaces s = rev (dropWhile (\<lambda>c. c = 0x20) (rev s))"

text \<open>Neither the label nor the serial number need be asked for.\<close>

definition getlabel_volume ::
  "'d disk_ops \<Rightarrow> u8 list option \<Rightarrow> u32 option \<Rightarrow> DIR \<Rightarrow> 'd volume \<Rightarrow>
   (FRESULT \<times> (u8 list option \<times> u32 option) \<times> 'd volume) option" where
  "getlabel_volume D label vsn dj v =
     do { (res, label, v) \<leftarrow>
            (if label = None then Some (FR_OK, label, v)
             else
               do { (res, dj, v) \<leftarrow> dir_sdi D 0 (dj\<lparr>dj_sclust := 0\<rparr>) v;
                    if res \<noteq> FR_OK then Some (res, label, v)
                    else
                      do { (res, dj, v) \<leftarrow> dir_read D True dj v;
                           Some (if res = FR_OK then (FR_OK, Some (trim_spaces (take 11 (drop (entry_at dj) (win v)))), v)
                                 else if res = FR_NO_FILE then (FR_OK, Some [], v) else (res, label, v)) } });
          if res = FR_OK \<and> vsn \<noteq> None then
            do { (res, v) \<leftarrow> move_window D (volbase v) v;
                 Some (res, (label,
                   if res = FR_OK then Some (LD_DWORD (win v) (if fs_type v = FS_FAT32 then 67 else 39)) else vsn), v) }
          else Some (res, (label, vsn), v) }"

definition ff_getlabel ::
  "'d disk_ops \<Rightarrow> u8 list option \<Rightarrow> u8 list option \<Rightarrow> u32 option \<Rightarrow> DIR \<Rightarrow> 'd ffs \<Rightarrow>
   (FRESULT \<times> (u8 list option \<times> u32 option) \<times> 'd ffs) option" where
  "ff_getlabel D path label vsn dj st =
     with_volume D path False (label, vsn) (\<lambda>_ _. getlabel_volume D label vsn dj) st"

text \<open>The label in the form of an entry, empty for no label; \<open>None\<close> is a name that is not valid.\<close>

definition label_form :: "u8 list \<Rightarrow> u8 list option" where
  "label_form s =
     (let s = map (\<lambda>c. if IsLower c then c - 0x20 else c) (trim_spaces s) in
      if s = [] then Some []
      else if (\<exists>c\<in>set s. c \<ge> 0x80 \<or> c \<in> set illegal_chars \<or> c = 0x2E) \<or> length s > 11 \<or> s ! 0 = DDEM then None
      else Some (s @ replicate (11 - length s) 0x20))"

definition setlabel_volume :: "'d disk_ops \<Rightarrow> DIR \<Rightarrow> u8 list \<Rightarrow> 'd volume \<Rightarrow> (FRESULT \<times> 'd volume) option" where
  "setlabel_volume D dj s v =
     (case label_form s of
        None \<Rightarrow> Some (FR_INVALID_NAME, v)
      | Some vn \<Rightarrow>
          do { (res, dj, v) \<leftarrow> dir_sdi D 0 (dj\<lparr>dj_sclust := 0\<rparr>) v;
               if res \<noteq> FR_OK then Some (res, v)
               else
                 do { (res, dj, v) \<leftarrow> dir_read D True dj v;
                      let i = entry_at dj;
                      if res = FR_OK then
                        sync_fs D (set_win (if vn \<noteq> [] then ST_DWORD (i + 22) GET_FATTIME (put_bytes i vn (win v))
                                            else (win v)[i := DDEM]) v)
                      else if res \<noteq> FR_NO_FILE then Some (res, v)
                      else if vn = [] then Some (FR_OK, v)
                      else
                        do { (res, dj, v) \<leftarrow> dir_alloc D 1 dj v;
                             let i = entry_at dj;
                             if res \<noteq> FR_OK then Some (res, v)
                             else
                               sync_fs D (set_win (ST_DWORD (i + 22) GET_FATTIME
                                 ((put_bytes i vn (put_bytes i (replicate 32 0) (win v)))[i + 11 := AM_VOL])) v) } } })"

definition ff_setlabel :: "'d disk_ops \<Rightarrow> u8 list option \<Rightarrow> DIR \<Rightarrow> 'd ffs \<Rightarrow> (FRESULT \<times> 'd ffs) option" where
  "ff_setlabel D label dj st = on_volume D label True (setlabel_volume D dj) st"

end
