(* ===== verification/FatCount.thy ===== *)
theory FatCount
  imports FatApi
begin

text \<open>
  Two queries of FatFs: the path of the current directory and its buffer, and the number of free clusters, counted right when
  the table can be read and kept wrong when it could not.
\<close>

section \<open>The buffer of the current directory\<close>

text \<open>In the root directory \<open>f_getcwd\<close> writes four bytes into the buffer of its caller and reports success,
  whatever length it was given: for a buffer of fewer than four bytes it writes behind the end.\<close>

theorem getcwd_ignores_length:
  assumes "find_volume D (Some []) False st = Some (FR_OK, Some f, [], st')" "cdir (volume_of st' f) = 0"
  shows "\<exists>st''. ff_getcwd D buff len dj st =
    Some (FR_OK, buff(0 := 0x30 + CurrVol st, 1 := 0x3A, 2 := 0x2F, 3 := 0), st'')"
proof -
  have "cwd_loop D b i (dj\<lparr>dj_sclust := 0\<rparr>) v = Some (FR_OK, b, i, v)" for b i v by (subst cwd_loop.simps) simp
  then show ?thesis
    using assms by (simp add: ff_getcwd_def with_volume_def getcwd_volume_def cwd_string_def Let_def fun_upd_twist)
qed

theorem getcwd_ignores_length_witness:
  "\<exists>st. ff_getcwd ram_disk (\<lambda>_. 0xFF) 2 \<lparr>dj_fs = None, dj_id = 0, dj_index = 0, dj_sclust = 0, dj_clust = 0, dj_sect = 0, dj_dir = None, dj_fn = []\<rparr>
       sample_state = Some (FR_OK, (\<lambda>_. 0xFF)(0 := 0x30, 1 := 0x3A, 2 := 0x2F, 3 := 0), st)"
proof -
  have "find_volume ram_disk (Some []) False sample_state = Some (FR_OK, Some 0, [], sample_state)"
    by (simp add: find_volume_def get_ldnumber_def front_def sample_state_def sample_volume_def FATFS.defs ram_disk_def STA_OFF_def)
  moreover have "cdir (volume_of sample_state 0) = 0" by (simp add: sample_state_volume) (simp add: sample_volume_def)
  ultimately show ?thesis using getcwd_ignores_length [of ram_disk sample_state 0 sample_state] by (auto simp: sample_state_def)
qed

section \<open>The count of free clusters\<close>

text \<open>A failed count is taken for a good one.  If the first sector of a table of 16- or 32-bit entries cannot be read while
  the number of free clusters is not known, \<open>f_getfree\<close> reports the error, but stores the count it had, which is none; from
  then on it reports success and no free cluster without reading anything.\<close>

theorem getfree_keeps_failed_count:
  assumes "fs_type v \<noteq> FS_FAT12" "n_fatent v - 2 < free_clust v"
    and "move_window D (fatbase v) v = Some (res, v1)" "res \<noteq> FR_OK"
  shows "\<exists>v2. getfree_volume D v = Some (res, 0, v2) \<and> getfree_volume D v2 = Some (FR_OK, 0, v2)"
proof -
  have "count_free_entries D (fatbase v) 0 0 (n_fatent v) 0 v = Some (res, 0, v1)"
    using assms(3,4) by (subst count_free_entries.simps) simp
  then have "getfree_volume D v = Some (res, 0, v1\<lparr>free_clust := 0, fsi_flag := fsi_flag v1 OR 1\<rparr>)"
  proof -
    have "\<not> free_clust v \<le> n_fatent v - 2" using assms(2) by (simp only: not_le)
    then show ?thesis using assms(1) \<open>count_free_entries D (fatbase v) 0 0 (n_fatent v) 0 v = Some (res, 0, v1)\<close>
      by (simp add: getfree_volume_def)
  qed
  moreover have "getfree_volume D (v1\<lparr>free_clust := 0, fsi_flag := x\<rparr>) = Some (FR_OK, 0, v1\<lparr>free_clust := 0, fsi_flag := x\<rparr>)" for x
    by (simp add: getfree_volume_def)
  ultimately show ?thesis by blast
qed

text \<open>A disk that cannot be read.\<close>

definition dead_disk :: "(u32 \<Rightarrow> u8 list) disk_ops" where
  "dead_disk = ram_disk\<lparr>dk_read := (\<lambda>p s n d. Some (RES_ERROR, replicate 512 0, d))\<rparr>"

theorem getfree_keeps_failed_count_witness:
  "\<exists>v. getfree_volume dead_disk sample_volume = Some (FR_DISK_ERR, 0, v) \<and> getfree_volume dead_disk v = Some (FR_OK, 0, v)"
proof -
  have t: "fs_type sample_volume \<noteq> FS_FAT12" "n_fatent sample_volume - 2 < free_clust sample_volume"
    by (simp_all add: sample_volume_def FS_types)
  obtain v1 where "move_window dead_disk (fatbase sample_volume) sample_volume = Some (FR_DISK_ERR, v1)"
    by (simp add: move_window_def sync_window_def sample_volume_def dead_disk_def)
  from getfree_keeps_failed_count [OF t this] show ?thesis by blast
qed
section \<open>The count of a table that can be read\<close>

text \<open>The number of free entries of a table from \<open>a\<close> up to \<open>b\<close>.\<close>

definition free_entries :: "(u32 \<Rightarrow> u32) \<Rightarrow> nat \<Rightarrow> nat \<Rightarrow> nat" where
  "free_entries F a b = length (filter (\<lambda>k. F (of_nat k) = 0) [a..<b])"

lemma free_entries_step: "a < b \<Longrightarrow> free_entries F a b = (if F (of_nat a) = 0 then 1 else 0) + free_entries F (Suc a) b"
  by (simp add: free_entries_def upt_conv_Cons)

lemma free_entries_none [simp]: "b \<le> a \<Longrightarrow> free_entries F a b = 0"
  by (simp add: free_entries_def)

lemma fat_value_12:
  assumes "fs_type v = FS_FAT12"
  shows "fat_value S v c \<noteq> 0xFFFFFFFF"
proof -
  have "\<not> bit (drop_bit 4 w) 31" "\<not> bit (w AND 0xFFF) 31" for w :: u32
    by (auto simp: bit_drop_bit_eq bit_and_iff dest: bit_imp_le_length)
  then have "\<not> bit (fat_value S v c) 31" using assms unfolding fat_value_def Let_def by (simp only: if_True split: if_split) blast
  moreover have "bit (0xFFFFFFFF :: u32) 31" by simp
  ultimately show ?thesis by metis
qed

context volume_window
begin

lemma count12_ok:
  assumes "okv v" "fs_type v = FS_FAT12" "2 \<le> c" "c < n_fatent v"
    and "\<forall>x. 2 \<le> x \<and> x < n_fatent v \<longrightarrow> fat_value (view v) v x \<noteq> 1"
  shows "\<exists>v'. count12 D c k v = Some (FR_OK, k + of_nat (free_entries (fat_value (view v) v) (unat c) (unat (n_fatent v))), v') \<and>
    okv v' \<and> view v' = view v \<and> meta v' = meta v"
  using assms
proof (induction "unat (n_fatent v) - unat c" arbitrary: c k v rule: less_induct)
  case less
  let ?F = "fat_value (view v) v" and ?n = "unat (n_fatent v)"
  obtain v1 where g: "get_fat D c v = Some (?F c, v1)" "okv v1" "view v1 = view v" "meta v1 = meta v"
    by (rule get_fat_value [OF less.prems(1,3,4)])
  note m = meta_fields [OF g(4)] and gg = geo_meta [OF g(4)]
  have F: "fat_value (view v1) v1 = ?F" unfolding g(3) fat_value_geo [OF gg] ..
  have c: "unat c < ?n" using less.prems(4) by (simp add: word_less_nat_alt)
  have b: "?F c \<noteq> 0xFFFFFFFF" "?F c \<noteq> 1" using fat_value_12 [OF less.prems(2)] less.prems(3-5) by auto
  have s: "unat (c + 1) = Suc (unat c)" using c unat_u32_less [of "n_fatent v"] by (simp add: unat_plus_if' del: unat_u32_less)
  let ?k = "if ?F c = 0 then k + 1 else k"
  have e: "free_entries ?F (unat c) ?n = (if ?F c = 0 then 1 else 0) + free_entries ?F (Suc (unat c)) ?n"
    using free_entries_step [OF c, of ?F] by simp
  show ?case
  proof (cases "c + 1 < n_fatent v")
    case True
    have "\<exists>v'. count12 D (c + 1) ?k v1 = Some (FR_OK, ?k + of_nat (free_entries (fat_value (view v1) v1) (unat (c + 1)) (unat (n_fatent v1))), v') \<and>
        okv v' \<and> view v' = view v1 \<and> meta v' = meta v1"
    proof (rule less.hyps [OF _ g(2)])
      show "unat (n_fatent v1) - unat (c + 1) < ?n - unat c" using s c m by simp
      show "2 \<le> c + 1" using less.prems(3) s by (simp add: word_le_nat_alt)
    qed (use less.prems True m F in simp_all)
    then show ?thesis using g b True m F e s by (subst count12.simps) auto
  next
    case False
    then have "?n \<le> Suc (unat c)" using s by (simp add: word_less_nat_alt)
    then show ?thesis using g b False m e by (subst count12.simps) auto
  qed
qed

end

text \<open>The loop over the sectors, at entry \<open>c\<close>: bytes are left in the window unless a sector starts.\<close>

definition at_entry :: "('d volume \<Rightarrow> u32 \<Rightarrow> u8 list) \<Rightarrow> nat \<Rightarrow> nat \<Rightarrow> u32 \<Rightarrow> nat \<Rightarrow> nat \<Rightarrow> 'd volume \<Rightarrow> bool" where
  "at_entry view w c s i q v \<longleftrightarrow> (let per = 512 div w in
     if c mod per = 0 then i = 0 \<and> s = fatbase v + of_nat (c div per)
     else i = 512 - w * (c mod per) \<and> q = w * (c mod per) \<and> s = fatbase v + of_nat (c div per) + 1 \<and>
       win v = view v (fatbase v + of_nat (c div per)))"

context volume_window
begin

lemma count_free_entries_ok:
  assumes "okv v" "fs_type v = FS_FAT16 \<and> w = 2 \<or> fs_type v = FS_FAT32 \<and> w = 4" "c < unat (n_fatent v)"
    and "at_entry view w c s i q v" "unat clst = unat (n_fatent v) - c"
  shows "\<exists>v'. count_free_entries D s i q clst k v =
      Some (FR_OK, k + of_nat (free_entries (fat_value (view v) v) c (unat (n_fatent v))), v') \<and>
    okv v' \<and> view v' = view v \<and> meta v' = meta v"
  using assms
proof (induction "unat (n_fatent v) - c" arbitrary: c s i q clst k v rule: less_induct)
  case less
  let ?F = "fat_value (view v) v" and ?n = "unat (n_fatent v)" and ?per = "512 div w"
  let ?b = "fatbase v + of_nat (c div ?per)"
  have w: "w = 2 \<or> w = 4" "w = 2 \<longleftrightarrow> fs_type v = FS_FAT16" using less.prems(2) by (auto simp: FS_types)
  have per: "0 < ?per" "w * ?per = 512" using w(1) by auto
  have room: "fat_room v" by (rule okv_room [OF less.prems(1)])
  have cu: "unat (of_nat c :: u32) = c" "(of_nat c :: u32) < n_fatent v"
    using less.prems(3) unat_u32_less [of "n_fatent v"] by (auto simp: unat_of_nat word_less_nat_alt simp del: unat_u32_less)
  have cs: "unat (of_nat c :: u32) < 0x10000000" by (rule fat_room_small [OF room cu(2)])
  have dv: "(of_nat c :: u32) div 256 = of_nat (c div 256)" "(of_nat c :: u32) div 128 = of_nat (c div 128)"
    using cs cu(1) by (simp_all add: word_unat_eq_iff unat_div unat_of_nat)
  have live: "live v ?b"
  proof -
    have "of_nat c div 256 < fat_size v \<and> w = 2 \<or> of_nat c div 128 < fat_size v \<and> w = 4"
      using fat_sector_bound(2,3) [OF room cu(2)] less.prems(2) by auto
    then show ?thesis using dv table_live [OF less.prems(1), of "of_nat (c div ?per)"] w(1) by auto
  qed
  have val: "?F (of_nat c) = 0 \<longleftrightarrow>
      (if fs_type v \<noteq> FS_FAT16 then LD_DWORD (view v ?b) (w * (c mod ?per)) AND 0x0FFFFFFF = 0
       else LD_WORD (view v ?b) (w * (c mod ?per)) = 0)"
  proof -
    have "unat (of_nat c * 2 mod 512 :: u32) = 2 * (c mod 256)" "unat (of_nat c * 4 mod 512 :: u32) = 4 * (c mod 128)"
      using unat_slot [OF cs, of 2 256] unat_slot [OF cs, of 4 128] cu(1) by simp_all
    moreover have "ucast x = (0 :: u32) \<longleftrightarrow> x = 0" for x :: u16 by (simp add: word_unat_eq_iff)
    moreover have "w = 2 \<Longrightarrow> ?per = 256" "w = 4 \<Longrightarrow> ?per = 128" by simp_all
    ultimately show ?thesis using less.prems(2) by (elim disjE) (simp_all add: fat_value_def FS_types dv)
  qed
  obtain v1 where v1: "(if i = 0 then map_option (\<lambda>(res, v). (res, s + 1, 512, 0, v)) (move_window D s v) else Some (FR_OK, s, i, q, v)) =
      Some (FR_OK, ?b + 1, 512 - w * (c mod ?per), w * (c mod ?per), v1)"
    "okv v1" "view v1 = view v" "meta v1 = meta v" "win v1 = view v ?b"
  proof (cases "c mod ?per = 0")
    case True
    then have i: "i = 0" "s = ?b" using less.prems(4) by (auto simp: at_entry_def Let_def)
    obtain v1 where "move_window D ?b v = Some (FR_OK, v1)" "win v1 = view v ?b" "okv v1" "view v1 = view v" "meta v1 = meta v"
      using move_viewE [OF less.prems(1) live] by metis
    then show ?thesis using that [of v1] i True by simp
  next
    case False
    then have i: "i = 512 - w * (c mod ?per)" "q = w * (c mod ?per)" "s = ?b + 1" "win v = view v ?b"
      using less.prems(4) by (auto simp: at_entry_def Let_def)
    have "c mod ?per < ?per" using per by simp
    then have "w * (c mod ?per) < 512" using w(1) by auto
    then show ?thesis using that [of v] i less.prems(1) by simp
  qed
  note m = meta_fields [OF v1(4)] and gg = geo_meta [OF v1(4)]
  have F: "fat_value (view v1) v1 = ?F" unfolding v1(3) fat_value_geo [OF gg] ..
  let ?k = "if ?F (of_nat c) = 0 then k + 1 else k"
  have e: "free_entries ?F c ?n = (if ?F (of_nat c) = 0 then 1 else 0) + free_entries ?F (Suc c) ?n"
    using free_entries_step [OF less.prems(3), of ?F] by simp
  have cl: "unat (clst - 1) = ?n - Suc c" using less.prems(3,5) by (simp add: unat_sub_if')
  have st: "count_free_entries D s i q clst k v =
      (if clst - 1 \<noteq> 0 then count_free_entries D (?b + 1) (512 - w * (c mod ?per) - w) (w * (c mod ?per) + w) (clst - 1) ?k v1
       else Some (FR_OK, ?k, v1))"
    by (subst count_free_entries.simps) (use v1(1,5) m(1) val w in \<open>auto simp: Let_def FS_types\<close>)
  show ?case
  proof (cases "Suc c < ?n")
    case True
    have nx: "at_entry view w (Suc c) (?b + 1) (512 - w * (c mod ?per) - w) (w * (c mod ?per) + w) v1"
    proof -
      have fb: "fatbase v1 = fatbase v" using m by simp
      show ?thesis
      proof (cases "Suc (c mod ?per) = ?per")
        case True
        then have "Suc c mod ?per = 0" "Suc c div ?per = Suc (c div ?per)" by (simp_all add: mod_Suc div_Suc)
        moreover have "w * (c mod ?per) + w = 512" using per(2) True by (metis mult_Suc_right add.commute)
        ultimately show ?thesis by (simp add: at_entry_def Let_def fb algebra_simps)
      next
        case False
        then have "Suc c mod ?per = Suc (c mod ?per)" "Suc c div ?per = c div ?per" by (simp_all add: mod_Suc div_Suc)
        then show ?thesis using v1(3,5) by (simp add: at_entry_def Let_def fb)
      qed
    qed
    have "\<exists>v'. count_free_entries D (?b + 1) (512 - w * (c mod ?per) - w) (w * (c mod ?per) + w) (clst - 1) ?k v1 =
        Some (FR_OK, ?k + of_nat (free_entries (fat_value (view v1) v1) (Suc c) (unat (n_fatent v1))), v') \<and>
      okv v' \<and> view v' = view v1 \<and> meta v' = meta v1"
      by (rule less.hyps [OF _ v1(2)]) (use less.prems True m nx cl in simp_all)
    moreover have "clst - 1 \<noteq> 0" using True cl by (auto simp: word_unat_eq_iff)
    ultimately show ?thesis using st v1 m F e by auto
  next
    case False
    then have "clst - 1 = 0" using cl by (auto simp: word_unat_eq_iff)
    then show ?thesis using st v1 m e False by auto
  qed
qed

end

text \<open>C39: The count of free clusters is right.  When the number is not known, \<open>f_getfree\<close> on a mounted volume whose disk can be read
  returns the number of clusters whose entry in the table is 0, in each of the three widths, and keeps it with the
  volume; for the 12-bit table no entry may hold the reserved value 1, and for the wider ones, which are counted from
  their first entry on, the two entries that stand for no cluster must not be 0.\<close>

theorem getfree_counts:
  assumes "clean_volume p N sect (readable_disk D p N sect live) v" "2 < n_fatent v" "n_fatent v - 2 < free_clust v"
    and "fs_type v = FS_FAT12 \<longrightarrow> (\<forall>x. 2 \<le> x \<and> x < n_fatent v \<longrightarrow> fat_value (sect (dsk v)) v x \<noteq> 1)"
    and "fs_type v \<noteq> FS_FAT12 \<longrightarrow> fat_value (sect (dsk v)) v 0 \<noteq> 0 \<and> fat_value (sect (dsk v)) v 1 \<noteq> 0"
  shows "\<exists>v'. getfree_volume D v = Some (FR_OK, of_nat (free_entries (fat_value (sect (dsk v)) v) 2 (unat (n_fatent v))), v') \<and>
    free_clust v' = of_nat (free_entries (fat_value (sect (dsk v)) v) 2 (unat (n_fatent v))) \<and>
    clean_volume p N sect (readable_disk D p N sect live) v' \<and> sect (dsk v') = sect (dsk v)"
proof -
  let ?F = "fat_value (sect (dsk v)) v" and ?n = "unat (n_fatent v)" and ?ok = "clean_volume p N sect (readable_disk D p N sect live)"
  have n: "2 < ?n" using assms(2) by (simp add: word_less_nat_alt)
  have f: "\<not> free_clust v \<le> n_fatent v - 2" using assms(3) by (simp only: not_le)
  have "\<exists>v'. (if fs_type v = FS_FAT12 then count12 D 2 0 v else count_free_entries D (fatbase v) 0 0 (n_fatent v) 0 v) =
      Some (FR_OK, of_nat (free_entries ?F 2 ?n), v') \<and> ?ok v' \<and> sect (dsk v') = sect (dsk v)"
  proof (cases "fs_type v = FS_FAT12")
    case True
    then show ?thesis using readable.clean.count12_ok [OF assms(1) True order_refl assms(2), of 0] assms(4) by auto
  next
    case False
    define w :: nat where "w = (if fs_type v = FS_FAT16 then 2 else 4)"
    have "fat_room v" by (rule readable.clean.okv_room [OF assms(1)])
    then have w: "fs_type v = FS_FAT16 \<and> w = 2 \<or> fs_type v = FS_FAT32 \<and> w = 4" using False by (auto simp: fat_room_def w_def)
    have a: "at_entry (\<lambda>v. sect (dsk v)) w 0 (fatbase v) 0 0 v" by (simp add: at_entry_def)
    have "free_entries ?F 0 ?n = free_entries ?F 2 ?n"
      using n assms(5) False free_entries_step [of 0 ?n ?F] free_entries_step [of 1 ?n ?F] by (simp add: numeral_2_eq_2)
    then show ?thesis
      using readable.clean.count_free_entries_ok [OF assms(1) w _ a, of "n_fatent v" 0] n False by auto
  qed
  then obtain v' where v': "(if fs_type v = FS_FAT12 then count12 D 2 0 v else count_free_entries D (fatbase v) 0 0 (n_fatent v) 0 v) =
      Some (FR_OK, of_nat (free_entries ?F 2 ?n), v')" "?ok v'" "sect (dsk v') = sect (dsk v)" by blast
  let ?v = "v'\<lparr>free_clust := of_nat (free_entries ?F 2 ?n), fsi_flag := fsi_flag v' OR 1\<rparr>"
  have "getfree_volume D v = Some (FR_OK, of_nat (free_entries ?F 2 ?n), ?v)"
    using f v'(1) by (simp add: getfree_volume_def)
  moreover have "?ok ?v" using v'(2) layout_geo(1) [of ?v v' N] by (simp add: clean_volume_def)
  ultimately show ?thesis using v'(3) by (intro exI [of _ ?v]) simp
qed

text \<open>A table of ten entries of which six are free.\<close>

definition count_table :: "u8 list" where
  "count_table = ST_WORD 0 0xFFF8 (ST_WORD 2 0xFFFF sample_table)"

definition count_disk :: "u32 \<Rightarrow> u8 list" where
  "count_disk s = (if s = 1 \<or> s = 2 then count_table else replicate 512 0)"

theorem getfree_counts_witness:
  "\<exists>v. getfree_volume ram_disk (sample_volume\<lparr>dsk := count_disk\<rparr>) = Some (FR_OK, 6, v)"
proof -
  let ?v = "sample_volume\<lparr>dsk := count_disk\<rparr>"
  let ?F = "fat_value (count_disk) ?v"
  have t: "fs_type ?v = FS_FAT16" "fatbase ?v = 1" "n_fatent ?v = 10" "free_clust ?v = 0xFFFFFFFF" "dsk ?v = count_disk"
    by (simp_all add: sample_volume_def FS_types)
  have F: "?F (of_nat k) = ucast (LD_WORD count_table (2 * k))" if "k < 10" for k
  proof -
    have u: "unat (of_nat k :: u32) = k" using that by (simp add: unat_of_nat)
    have "unat (of_nat k div 256 :: u32) = 0" using u that by (simp add: unat_div)
    then have "(of_nat k :: u32) div 256 = 0" by (simp add: unat_eq_0)
    moreover have "unat (of_nat k * 2 mod 512 :: u32) = 2 * k" using unat_slot [of "of_nat k" 2 256] u that by simp
    ultimately show ?thesis by (simp add: fat_value_def t FS_types count_disk_def)
  qed
  have L: "LD_WORD count_table (2 * k) = [0xFFF8, 0xFFFF, 3, 0xFFFF, 0, 0, 0, 0, 0, 0] ! k" if "k < 10" for k
  proof -
    have "k = 0 \<or> k = 1 \<or> k = 2 \<or> k = 3 \<or> k = 4 \<or> k = 5 \<or> k = 6 \<or> k = 7 \<or> k = 8 \<or> k = 9" using that by presburger
    then show ?thesis by (elim disjE) (simp_all add: count_table_def sample_table_def ST_WORD_def LD_WORD_def nth_list_update)
  qed
  have c: "clean_volume 0 100 (\<lambda>d. d) (readable_disk ram_disk 0 100 (\<lambda>d. d) whole) ?v"
    using sample_readable [of 0 100] sample_volume_ok
    by (auto simp: clean_volume_def volume_ok_def whole_def count_disk_def count_table_def sample_table_def sample_volume_def
        fat_layout_def fat_room_def FS_types ST_WORD_def)
  have z: "ucast x = (0 :: u32) \<longleftrightarrow> x = 0" for x :: u16 by (simp add: word_unat_eq_iff)
  have e: "(?F (of_nat k) = 0) = ([0xFFF8, 0xFFFF, 3, 0xFFFF, 0, 0, 0, 0, 0, 0] ! k = (0 :: u16))" if "k \<in> set [2..<10]" for k
  proof -
    have "k < 10" using that by auto
    then show ?thesis using F [of k] L [of k] z by simp
  qed
  have "free_entries ?F 2 10 = length (filter (\<lambda>k. [0xFFF8, 0xFFFF, 3, 0xFFFF, 0, 0, 0, 0, 0, 0] ! k = (0 :: u16)) [2..<10])"
    unfolding free_entries_def by (rule arg_cong [where f = length], rule filter_cong [OF refl e])
  also have "\<dots> = 6" by code_simp
  finally have n: "free_entries ?F 2 10 = 6" .
  have "?F 0 = 0xFFF8" "?F 1 = 0xFFFF" using F [of 0] F [of 1] L [of 0] L [of 1] by simp_all
  then show ?thesis
    using getfree_counts [OF c] n by (simp add: t FS_types) blast
qed

end
