(* ===== verification/FatLookup.thy ===== *)
theory FatLookup
  imports FatSeek FatMount
begin

text \<open>
  The search of a directory for a name (hello/ff.c, \<open>dir_sdi\<close>, \<open>dir_next\<close>, \<open>dir_find\<close>): the directory as a list of
  entries, in the root area or in a chain of clusters, and the correctness of the walk over it.
\<close>

section \<open>Directories as lists of entries\<close>

text \<open>A directory is the fixed root area, for an empty list of clusters, or a chain of clusters.  Its entries are
  numbered from 0; at most 65536 can be reached.\<close>

definition dir_sector :: "'d volume \<Rightarrow> u32 list \<Rightarrow> nat \<Rightarrow> u32" where
  "dir_sector v cs i = (if cs = [] then dirbase v + of_nat (i div 16) else sector_no v cs (i div 16))"

definition dir_entry :: "(u32 \<Rightarrow> u8 list) \<Rightarrow> 'd volume \<Rightarrow> u32 list \<Rightarrow> nat \<Rightarrow> u8 list" where
  "dir_entry S v cs i = take 32 (drop (32 * (i mod 16)) (S (dir_sector v cs i)))"

definition dir_limit :: "'d volume \<Rightarrow> u32 list \<Rightarrow> nat" where
  "dir_limit v cs = (if cs = [] then unat (n_rootdir v) else min 65536 (16 * (length cs * unat (csize v))))"

definition root_room :: "nat \<Rightarrow> 'd volume \<Rightarrow> bool" where
  "root_room N v \<longleftrightarrow> fs_type v \<noteq> FS_FAT32 \<and> 0 < unat (n_fatent v) \<and> 0 < unat (n_rootdir v) \<and> unat (n_rootdir v) mod 16 = 0 \<and> 0 < unat (dirbase v) \<and>
     unat (dirbase v) + unat (n_rootdir v) div 16 \<le> N"

text \<open>The directory object is for the directory with these clusters.\<close>

definition dir_of :: "nat \<Rightarrow> (u32 \<Rightarrow> u8 list) \<Rightarrow> 'd volume \<Rightarrow> DIR \<Rightarrow> u32 list \<Rightarrow> bool" where
  "dir_of N S v dp cs \<longleftrightarrow>
     (if cs = [] then dj_sclust dp = 0 \<and> root_room N v
      else fat_chain (fat_value S v) (n_fatent v) (if dj_sclust dp = 0 then dirbase v else dj_sclust dp) cs \<and>
        (dj_sclust dp = 0 \<longrightarrow> fs_type v = FS_FAT32))"

text \<open>The object is at entry \<open>i\<close>.\<close>

definition at_dir :: "'d volume \<Rightarrow> u32 list \<Rightarrow> nat \<Rightarrow> DIR \<Rightarrow> bool" where
  "at_dir v cs i dp \<longleftrightarrow> dj_index dp = of_nat i \<and> dj_sect dp = dir_sector v cs i \<and> dj_dir dp = Some (32 * (i mod 16)) \<and>
     dj_clust dp = (if cs = [] then 0 else cs ! (i div 16 div unat (csize v)))"

definition same_dir :: "DIR \<Rightarrow> DIR \<Rightarrow> bool" where
  "same_dir dp dp' \<longleftrightarrow> dj_fs dp' = dj_fs dp \<and> dj_id dp' = dj_id dp \<and> dj_sclust dp' = dj_sclust dp \<and> dj_fn dp' = dj_fn dp"

lemma fat_value_small: "fat_room v \<Longrightarrow> fat_value S v c \<noteq> 0xFFFFFFFF"
proof -
  have "\<not> bit (drop_bit 4 w) 31" "\<not> bit (w AND 0xFFF) 31" "\<not> bit (w AND 0x0FFFFFFF) 31" "\<not> bit (ucast x :: u32) 31"
    for w :: u32 and x :: u16
    by (auto simp: bit_drop_bit_eq bit_and_iff bit_ucast_iff dest: bit_imp_le_length)
  then have "\<not> bit (fat_value S v c) 31" unfolding fat_value_def Let_def by (simp only: if_True split: if_split) blast
  moreover have "bit (0xFFFFFFFF :: u32) 31" by simp
  ultimately show ?thesis by metis
qed

lemma fat_chain_last: "fat_chain F n c cs \<Longrightarrow> i < length cs \<Longrightarrow> Suc i = length cs \<Longrightarrow> n \<le> F (cs ! i)"
proof (induction cs arbitrary: c i)
  case (Cons x xs)
  then show ?case by (cases i; cases xs) auto
qed simp

lemma unat_and_csize:
  assumes "data_room N v"
  shows "unat (x AND (ucast (csize v) - 1) :: u32) = unat x mod unat (csize v)"
proof -
  obtain k where k: "k < 8" "csize v = 2 ^ k" using assms by (auto simp: data_room_def)
  have z: "unat (csize v) = 2 ^ k" using k by (simp add: unat_power8)
  have "(ucast (csize v) :: u32) = 2 ^ k" using z unat_power8 [OF k(1)] by (simp add: word_unat_eq_iff)
  then have "x AND (ucast (csize v) - 1) = take_bit k x" by (simp add: take_bit_eq_mask mask_eq_exp_minus_1)
  then have "unat (x AND (ucast (csize v) - 1)) = take_bit k (unat x)" by (simp only: unsigned_take_bit_eq)
  then show ?thesis unfolding z by (simp only: take_bit_eq_mod)
qed

lemma div16_less: "i < n \<Longrightarrow> n mod 16 = 0 \<Longrightarrow> i div 16 < n div (16 :: nat)"
  by (rule less_mult_imp_div_less) (metis div_mult_mod_eq add.right_neutral)

lemma same_dir_refl [simp]: "same_dir dp dp"
  by (simp add: same_dir_def)

lemma dir_limit_bounds:
  assumes "dir_of N S v dp cs"
  shows "dir_limit v cs \<le> 65536" "dir_limit v cs mod 16 = 0"
  using unat_u16_less [of "n_rootdir v"] assms by (auto simp: dir_limit_def dir_of_def root_room_def min_def simp del: unat_u16_less)

text \<open>The number of the next entry, in the width the code computes it.\<close>

lemma next_index:
  assumes "dj_index dp = of_nat i" "i < 65536"
  shows "unat (ucast (dj_index dp) + 1 :: u32) = Suc i" "(ucast (dj_index dp) + 1 :: u32) AND 0xFFFF = 0 \<longleftrightarrow> Suc i = 65536"
    "ucast (ucast (dj_index dp) + 1 :: u32) = (of_nat (Suc i) :: u16)"
proof -
  let ?i = "ucast (dj_index dp) + 1 :: u32"
  have "unat (dj_index dp) = i" using assms by (simp add: unat_of_nat)
  then show u: "unat ?i = Suc i" using assms(2) unat_add_lem [of "ucast (dj_index dp) :: u32" 1] by simp
  have "?i AND 0xFFFF = take_bit 16 ?i" by (simp add: take_bit_eq_mask mask_eq_exp_minus_1)
  then have "unat (?i AND 0xFFFF) = take_bit 16 (unat ?i)" by (simp only: unsigned_take_bit_eq)
  then have "unat (?i AND 0xFFFF) = Suc i mod 65536" unfolding u by (simp add: take_bit_eq_mod)
  moreover have "Suc i \<le> 65536" using assms(2) by linarith
  ultimately show "?i AND 0xFFFF = 0 \<longleftrightarrow> Suc i = 65536"
    by (metis mod_less mod_self unat_0 unat_eq_0 le_neq_implies_less nat.distinct(1))
  show "ucast ?i = (of_nat (Suc i) :: u16)" using arg_cong [OF u, of "of_nat :: nat \<Rightarrow> u16"] by simp
qed

text \<open>The step to the next entry, once the end of the index is excluded.\<close>

definition step_here :: "DIR \<Rightarrow> nat \<Rightarrow> DIR" where
  "step_here dp i = dp\<lparr>dj_index := of_nat i, dj_dir := Some (i mod 16 * 32)\<rparr>"

lemma dir_next_unfold:
  assumes "dj_index dp = of_nat i" "Suc i < 65536" "dj_sect dp \<noteq> 0" "data_room N v"
  shows "dir_next D False dp v =
    (if Suc i mod 16 \<noteq> 0 then Some (FR_OK, step_here dp (Suc i), v)
     else
       (let dp = dp\<lparr>dj_sect := dj_sect dp + 1\<rparr> in
        if dj_clust dp = 0 then
          Some (if Suc i \<ge> unat (n_rootdir v) then (FR_NO_FILE, dp, v) else (FR_OK, step_here dp (Suc i), v))
        else if Suc i div 16 mod unat (csize v) = 0 then
          do { (res, clst, v) \<leftarrow> dir_cluster D False (dj_clust dp) v;
               Some (if res \<noteq> FR_OK then (res, dp, v)
                     else (FR_OK, step_here (dp\<lparr>dj_clust := clst, dj_sect := clust2sect v clst\<rparr>) (Suc i), v)) }
        else Some (FR_OK, step_here dp (Suc i), v)))"
proof -
  let ?i = "ucast (dj_index dp) + 1 :: u32"
  have i: "i < 65536" using assms(2) by simp
  note n = next_index [OF assms(1) i]
  have m: "unat (?i mod 16) = Suc i mod 16" "unat (?i div 16) = Suc i div 16" using n(1) by (simp_all add: unat_mod unat_div)
  then have m0: "?i mod 16 = 0 \<longleftrightarrow> Suc i mod 16 = 0" by (metis unat_0 unat_eq_0)
  have c: "(?i div 16) AND (ucast (csize v) - 1) = 0 \<longleftrightarrow> Suc i div 16 mod unat (csize v) = 0"
    using unat_and_csize [OF assms(4), of "?i div 16"] m(2) by (metis unat_0 unat_eq_0)
  have r: "?i \<ge> ucast (n_rootdir v) \<longleftrightarrow> Suc i \<ge> unat (n_rootdir v)" by (simp only: word_le_nat_alt n(1) unat_ucast_16_32)
  have "\<not> (?i AND 0xFFFF = 0 \<or> dj_sect dp = 0)" using n(2) assms(2,3) by simp
  then show ?thesis unfolding dir_next_def Let_def n(3) m(1) m0 c r by (simp add: step_here_def cong: if_cong)
qed

lemma step_here_at:
  assumes "dj_sect dp = dir_sector v cs i" "dj_clust dp = (if cs = [] then 0 else cs ! (i div 16 div unat (csize v)))"
  shows "at_dir v cs i (step_here dp i)"
  using assms by (simp add: at_dir_def step_here_def mult.commute)

lemma step_here_same [simp]:
  "same_dir dp (step_here dp i)" "same_dir dp (step_here (dp\<lparr>dj_sect := x\<rparr>) i)"
  "same_dir dp (step_here (dp\<lparr>dj_clust := y, dj_sect := x\<rparr>) i)" "same_dir dp (dp\<lparr>dj_sect := x\<rparr>)"
  by (simp_all add: same_dir_def step_here_def)

lemma sdi_loop_here: "\<not> ic \<le> idx \<Longrightarrow> sdi_loop D ic idx clst v = Some (FR_OK, idx, clst, v)"
  by (subst sdi_loop.simps) simp

text \<open>The entry that ends a search: one that is free with all that follow, or the one looked for.\<close>

definition entry_hit :: "u8 list \<Rightarrow> u8 list \<Rightarrow> bool" where
  "entry_hit fn e \<longleftrightarrow> e ! 11 AND AM_VOL = 0 \<and> take 11 e = take 11 fn"

definition dir_stop :: "(u32 \<Rightarrow> u8 list) \<Rightarrow> 'd volume \<Rightarrow> u32 list \<Rightarrow> u8 list \<Rightarrow> nat \<Rightarrow> bool" where
  "dir_stop S v cs fn i \<longleftrightarrow> dir_entry S v cs i ! 0 = 0 \<or> entry_hit fn (dir_entry S v cs i)"

definition dir_first :: "(u32 \<Rightarrow> u8 list) \<Rightarrow> 'd volume \<Rightarrow> u32 list \<Rightarrow> u8 list \<Rightarrow> nat \<Rightarrow> nat option" where
  "dir_first S v cs fn i = find (dir_stop S v cs fn) [i..<dir_limit v cs]"

lemma dir_first_step:
  "i < dir_limit v cs \<Longrightarrow> dir_first S v cs fn i = (if dir_stop S v cs fn i then Some i else dir_first S v cs fn (Suc i))"
  by (simp add: dir_first_def upt_rec [of i])

lemma dir_first_end: "\<not> i < dir_limit v cs \<Longrightarrow> dir_first S v cs fn i = None"
  by (simp add: dir_first_def)

definition search_ends :: "(u32 \<Rightarrow> u8 list) \<Rightarrow> 'd volume \<Rightarrow> u32 list \<Rightarrow> u8 list \<Rightarrow> nat \<Rightarrow> FRESULT \<Rightarrow> DIR \<Rightarrow> bool" where
  "search_ends S v cs fn i res dp \<longleftrightarrow> (case dir_first S v cs fn i of None \<Rightarrow> res = FR_NO_FILE
     | Some j \<Rightarrow> if dir_entry S v cs j ! 0 = 0 then res = FR_NO_FILE else res = FR_OK \<and> at_dir v cs j dp)"

lemma dir_geo:
  assumes "geo v' = geo v"
  shows "dir_sector v' = dir_sector v" "dir_entry S v' = dir_entry S v" "dir_limit v' = dir_limit v" "dir_of N S v' = dir_of N S v"
    "at_dir v' = at_dir v" "dir_stop S v' = dir_stop S v" "dir_first S v' = dir_first S v" "search_ends S v' = search_ends S v"
proof -
  show a: "dir_sector v' = dir_sector v" by (intro ext) (simp add: dir_sector_def geo_fields [OF assms] bytes_geo [OF assms])
  then show b: "dir_entry S v' = dir_entry S v" by (intro ext) (simp add: dir_entry_def)
  show c: "dir_limit v' = dir_limit v" by (intro ext) (simp add: dir_limit_def geo_fields [OF assms])
  show "dir_of N S v' = dir_of N S v"
    by (intro ext) (simp add: dir_of_def root_room_def geo_fields [OF assms] fat_value_geo [OF assms])
  show t: "at_dir v' = at_dir v" by (intro ext) (simp add: at_dir_def a geo_fields [OF assms])
  show d: "dir_stop S v' = dir_stop S v" by (intro ext) (simp add: dir_stop_def b)
  show f: "dir_first S v' = dir_first S v" by (intro ext) (simp add: dir_first_def c d)
  show "search_ends S v' = search_ends S v" by (intro ext) (simp add: search_ends_def b f t cong: option.case_cong)
qed

lemma dir_of_same: "same_dir dp dp' \<Longrightarrow> dir_of N S v dp' cs = dir_of N S v dp cs"
  by (simp add: same_dir_def dir_of_def)

lemma same_dir_trans: "same_dir a b \<Longrightarrow> same_dir b c \<Longrightarrow> same_dir a c"
  by (simp add: same_dir_def)

text \<open>The entry in the window.\<close>

lemma dir_entry_window:
  assumes "length (S (dir_sector v cs i)) = 512" "win v' = S (dir_sector v cs i)" "dj_dir dp = Some (32 * (i mod 16))"
  shows "k < 32 \<Longrightarrow> entry_byte dp k v' = dir_entry S v cs i ! k" "entry_matches dp v' \<longleftrightarrow> entry_hit (dj_fn dp) (dir_entry S v cs i)"
proof -
  have m: "32 * (i mod 16) + 32 \<le> 512" by simp
  show e: "entry_byte dp k v' = dir_entry S v cs i ! k" if "k < 32" for k
    using that m assms by (simp add: dir_entry_def del: mult_le_cancel1)
  have "take 11 (drop (32 * (i mod 16)) (S (dir_sector v cs i))) = take 11 (dir_entry S v cs i)" by (simp add: dir_entry_def)
  then show "entry_matches dp v' \<longleftrightarrow> entry_hit (dj_fn dp) (dir_entry S v cs i)"
    using e [of 11] assms(2,3) by (simp add: entry_matches_def entry_hit_def)
qed

context extent_reader
begin

lemma dir_sector_on_disk:
  assumes "clean_volume p N sect ready v" "data_room N v" "dir_of N (sect (dsk v)) v dp cs" "i < dir_limit v cs"
  shows "unat (dir_sector v cs i) < N \<and> dir_sector v cs i \<noteq> 0"
proof (cases "cs = []")
  case True
  then have r: "root_room N v" "i < unat (n_rootdir v)" using assms(3,4) by (auto simp: dir_of_def dir_limit_def)
  then have d: "i div 16 < unat (n_rootdir v) div 16" by (intro div16_less) (auto simp: root_room_def)
  have "N < 4294967296" using assms(2) by (simp add: data_room_def)
  then have l: "unat (dirbase v) + i div 16 < 4294967296" "unat (dirbase v) + i div 16 < N" using r(1) d by (auto simp: root_room_def)
  then have "unat (of_nat (i div 16) :: u32) = i div 16" by (simp add: unat_of_nat)
  then have "unat (dirbase v + of_nat (i div 16)) = unat (dirbase v) + i div 16"
    using l unat_add_lem [of "dirbase v" "of_nat (i div 16)"] by simp
  then show ?thesis using True l r(1) by (auto simp: dir_sector_def root_room_def word_unat_eq_iff)
next
  case False
  then have ch: "fat_chain (fat_value (sect (dsk v)) v) (n_fatent v) (if dj_sclust dp = 0 then dirbase v else dj_sclust dp) cs"
    using assms(3) by (simp add: dir_of_def)
  have "i < length cs * unat (csize v) * 16" using False assms(4) by (simp add: dir_limit_def ac_simps)
  then have k: "i div 16 < length cs * unat (csize v)" by (rule less_mult_imp_div_less)
  have z: "0 < unat (csize v)" using csize_pos [OF assms(2)] by simp
  show ?thesis
    using sector_on_disk(2,3) [OF assms(1,2) ch k] z mod_less_divisor [OF z, of "i div 16"] False unfolding dir_sector_def by auto
qed

lemma dir_limit_pos:
  assumes "data_room N v" "dir_of N S v dp cs"
  shows "0 < dir_limit v cs"
  using assms csize_pos [OF assms(1)] by (auto simp: dir_limit_def dir_of_def root_room_def)

lemma dir_sdi_ok:
  assumes "clean_volume p N sect ready v" "data_room N v" "dir_of N (sect (dsk v)) v dp cs"
  shows "\<exists>dp'. dir_sdi D 0 dp v = Some (FR_OK, dp', v) \<and> at_dir v cs 0 dp' \<and> same_dir dp dp'"
proof -
  let ?dp = "dp\<lparr>dj_index := 0, dj_clust := if cs = [] then 0 else cs ! 0, dj_sect := dir_sector v cs 0, dj_dir := Some 0\<rparr>"
  have s0: "dir_sector v cs 0 \<noteq> 0" using dir_sector_on_disk [OF assms dir_limit_pos [OF assms(2,3)]] by simp
  have "dir_sdi D 0 dp v = Some (FR_OK, ?dp, v)"
  proof (cases "cs = []")
    case True
    then have r: "dj_sclust dp = 0" "fs_type v \<noteq> FS_FAT32" "0 < unat (n_rootdir v)" "\<not> n_fatent v \<le> 0"
      using assms(3) by (auto simp: dir_of_def root_room_def word_le_nat_alt)
    have "\<not> (ucast (n_rootdir v) :: u32) \<le> 0" using r(3) by (simp add: word_le_nat_alt)
    then show ?thesis using True r s0 by (simp add: dir_sdi_def dir_set_def dir_sector_def Let_def)
  next
    case False
    let ?c = "if dj_sclust dp = 0 then dirbase v else dj_sclust dp"
    have ch: "fat_chain (fat_value (sect (dsk v)) v) (n_fatent v) ?c cs" "dj_sclust dp = 0 \<longrightarrow> fs_type v = FS_FAT32"
      using assms(3) False by (auto simp: dir_of_def)
    have c: "cs ! 0 = ?c" using fat_chain_nth [OF ch(1), of 0] False by simp
    have "cs ! 0 \<in> set cs" using False by simp
    then have "?c \<in> set cs" unfolding c .
    note rg = fat_chain_range [OF ch(1) this]
    have "unat (16 * ucast (csize v) :: u32) = 16 * unat (csize v)"
      using unat_mult_lem [of "16 :: u32" "ucast (csize v)"] unat_u8_less [of "csize v"] by (simp del: unat_u8_less)
    then have z: "\<not> (16 * ucast (csize v) :: u32) \<le> 0" using csize_pos [OF assms(2)] by (simp add: word_le_nat_alt)
    have s: "clust2sect v ?c \<noteq> 0" "dir_sector v cs 0 = clust2sect v ?c" using s0 False c by (simp_all add: dir_sector_def sector_no_def)
    have k: "\<not> n_fatent v \<le> ?c" "dj_sclust dp \<noteq> 1" "dj_sclust dp = 0 \<or> \<not> n_fatent v \<le> dj_sclust dp" "0 < unat (n_fatent v)" "?c \<noteq> 0"
      using rg by (auto simp: word_le_nat_alt word_less_nat_alt split: if_splits)
    have n0: "\<not> n_fatent v \<le> 0" using k(4) by (simp add: word_le_nat_alt)
    show ?thesis
    proof (cases "dj_sclust dp = 0")
      case True
      then show ?thesis using False ch(2) c k n0 s by (simp add: dir_sdi_def dir_set_def sdi_loop_here [OF z] Let_def)
    next
      case nz: False
      then show ?thesis using False c k s by (simp add: dir_sdi_def dir_set_def sdi_loop_here [OF z] Let_def)
    qed
  qed
  moreover have "at_dir v cs 0 ?dp" by (simp add: at_dir_def)
  ultimately show ?thesis by (auto simp: same_dir_def)
qed

text \<open>The cluster after the \<open>q\<close>th of the chain, or the end.\<close>

lemma dir_cluster_ok:
  assumes v: "clean_volume p N sect ready v" and ch: "fat_chain (fat_value (sect (dsk v)) v) (n_fatent v) c cs" and q: "q < length cs"
  shows "\<exists>res x v'. dir_cluster D False (cs ! q) v = Some (res, x, v') \<and> clean_volume p N sect ready v' \<and>
    sect (dsk v') = sect (dsk v) \<and> meta v' = meta v \<and>
    (if Suc q < length cs then res = FR_OK \<and> x = cs ! Suc q else res = FR_NO_FILE)"
proof -
  let ?F = "fat_value (sect (dsk v)) v" and ?c = "cs ! q"
  have rg: "2 \<le> ?c" "?c < n_fatent v" using fat_chain_range [OF ch] q by auto
  obtain v1 where g: "get_fat D ?c v = Some (?F ?c, v1)" "clean_volume p N sect ready v1" "sect (dsk v1) = sect (dsk v)" "meta v1 = meta v"
    by (rule clean.get_fat_value [OF v rg])
  note mf = meta_fields [OF g(4)]
  have big: "?F ?c \<noteq> 0xFFFFFFFF" by (rule fat_value_small) (use v in \<open>simp add: clean_volume_def fat_layout_def\<close>)
  show ?thesis
  proof (cases "Suc q < length cs")
    case True
    have nx: "?F ?c = cs ! Suc q" using fat_chain_nth [OF ch q] True by simp
    have "2 \<le> unat (cs ! Suc q)" "\<not> n_fatent v \<le> cs ! Suc q" 
      using fat_chain_range [OF ch nth_mem [OF True]] by (simp_all add: word_le_nat_alt word_less_nat_alt)
    moreover have "\<not> cs ! Suc q \<le> 1" using calculation(1) by (simp add: word_le_nat_alt)
    ultimately have "dir_cluster D False ?c v = Some (FR_OK, cs ! Suc q, v1)"
      using g(1) big mf nx by (simp add: dir_cluster_def)
    then show ?thesis using True g(2-4) by simp
  next
    case False
    then have "n_fatent v \<le> ?F ?c" using fat_chain_last [OF ch q] q by simp
    moreover have "2 < unat (n_fatent v)" using rg by (simp add: word_le_nat_alt word_less_nat_alt)
    ultimately have "dir_cluster D False ?c v = Some (FR_NO_FILE, ?F ?c, v1)"
      using g(1) big mf by (auto simp: dir_cluster_def word_le_nat_alt)
    then show ?thesis using False g(2-4) by simp
  qed
qed

text \<open>Arithmetic of a chain: the entry after the last one of a sector.\<close>

lemma chain_steps:
  fixes i z len :: nat
  assumes "0 < z" "i div 16 < len * z" "Suc i mod 16 = 0"
  shows "Suc i = 16 * Suc (i div 16)" "Suc i div 16 = Suc (i div 16)"
    "Suc (i div 16) mod z = 0 \<Longrightarrow> Suc (i div 16) div z = Suc (i div 16 div z) \<and> (Suc (i div 16) < len * z \<longleftrightarrow> Suc (i div 16 div z) < len)"
    "Suc (i div 16) mod z \<noteq> 0 \<Longrightarrow> i div 16 mod z + 1 < z \<and> Suc (i div 16) < len * z"
proof -
  show d: "Suc i div 16 = Suc (i div 16)" using assms(3) by (simp add: div_Suc)
  show "Suc i = 16 * Suc (i div 16)" using assms(3) d by (metis mult_div_mod_eq add.right_neutral)
  show "Suc (i div 16) div z = Suc (i div 16 div z) \<and> (Suc (i div 16) < len * z \<longleftrightarrow> Suc (i div 16 div z) < len)"
    if "Suc (i div 16) mod z = 0"
  proof -
    have dz: "Suc (i div 16) div z = Suc (i div 16 div z)" using that by (simp add: div_Suc)
    then have "Suc (i div 16) = Suc (i div 16 div z) * z" using that by (metis div_mult_mod_eq add.right_neutral)
    then have "Suc (i div 16) < len * z \<longleftrightarrow> Suc (i div 16 div z) * z < len * z" by simp
    then show ?thesis using dz assms(1) by (simp only: mult_less_cancel2) simp
  qed
  show "i div 16 mod z + 1 < z \<and> Suc (i div 16) < len * z" if "Suc (i div 16) mod z \<noteq> 0"
  proof -
    have "Suc (i div 16) \<noteq> len * z" using that by auto
    then show ?thesis using that assms(1,2) mod_less_divisor [OF assms(1), of "i div 16"] by (auto simp: mod_Suc split: if_splits)
  qed
qed

lemma dir_next_chain:
  assumes v: "clean_volume p N sect ready v" "data_room N v" and d: "dir_of N (sect (dsk v)) v dp cs" "cs \<noteq> []"
    and i: "at_dir v cs i dp" "i < dir_limit v cs" "Suc i < 65536" "Suc i mod 16 = 0"
  shows "\<exists>res dp' v'. dir_next D False dp v = Some (res, dp', v') \<and> clean_volume p N sect ready v' \<and> sect (dsk v') = sect (dsk v) \<and>
    meta v' = meta v \<and> same_dir dp dp' \<and> (if Suc i < dir_limit v cs then res = FR_OK \<and> at_dir v cs (Suc i) dp' else res = FR_NO_FILE)"
proof -
  let ?z = "unat (csize v)" and ?q = "i div 16 div unat (csize v)"
  have z: "0 < ?z" using csize_pos [OF v(2)] by simp
  have ch: "fat_chain (fat_value (sect (dsk v)) v) (n_fatent v) (if dj_sclust dp = 0 then dirbase v else dj_sclust dp) cs"
    using d by (simp add: dir_of_def)
  have "i < length cs * ?z * 16" using d(2) i(2) by (simp add: dir_limit_def ac_simps)
  then have k: "i div 16 < length cs * ?z" by (rule less_mult_imp_div_less)
  then have q: "?q < length cs" by (rule less_mult_imp_div_less)
  note st = chain_steps [OF z k i(4)]
  have at: "dj_index dp = of_nat i" "dj_sect dp = sector_no v cs (i div 16)" "dj_clust dp = cs ! ?q"
    using i(1) d(2) by (auto simp: at_dir_def dir_sector_def)
  have s0: "dj_sect dp \<noteq> 0" using dir_sector_on_disk [OF v d(1) i(2)] i(1) by (simp add: at_dir_def)
  have c0: "dj_clust dp \<noteq> 0" using fat_chain_range [OF ch, of "cs ! ?q"] q at(3) by auto
  have lim: "Suc i < dir_limit v cs \<longleftrightarrow> Suc (i div 16) < length cs * ?z"
  proof -
    have "Suc i < 16 * (length cs * ?z) \<longleftrightarrow> Suc (i div 16) < length cs * ?z" by (subst st(1)) (simp only: mult_less_cancel1, simp)
    then show ?thesis using d(2) i(3) by (simp add: dir_limit_def)
  qed
  note n = dir_next_unfold [OF at(1) i(3) s0 v(2), of D]
  show ?thesis
  proof (cases "Suc (i div 16) mod ?z = 0")
    case False
    have r: "i div 16 mod ?z + 1 < ?z" using st(4) [OF False] by simp
    have "at_dir v cs (Suc i) (step_here (dp\<lparr>dj_sect := dj_sect dp + 1\<rparr>) (Suc i))"
      by (rule step_here_at) (use at d(2) st(2) sector_no_next [OF r, of cs] div_mod_add(1) [OF r] in \<open>simp_all add: dir_sector_def\<close>)
    then show ?thesis using n i(4) c0 st(2) st(4) [OF False] False lim v(1) by (auto simp: Let_def)
  next
    case True
    obtain res x v1 where c: "dir_cluster D False (cs ! ?q) v = Some (res, x, v1)" "clean_volume p N sect ready v1"
      "sect (dsk v1) = sect (dsk v)" "meta v1 = meta v" "if Suc ?q < length cs then res = FR_OK \<and> x = cs ! Suc ?q else res = FR_NO_FILE"
      using dir_cluster_ok [OF v(1) ch q] by blast
    have cs2: "clust2sect v1 y = clust2sect v y" for y by (simp add: clust2sect_def meta_fields [OF c(4)] cong: if_cong)
    show ?thesis
    proof (cases "Suc ?q < length cs")
      case more: True
      have "at_dir v cs (Suc i) (step_here (dp\<lparr>dj_clust := x, dj_sect := clust2sect v1 x\<rparr>) (Suc i))"
        by (rule step_here_at) (use more c(5) d(2) st(2) st(3) [OF True] True cs2 in \<open>simp_all add: dir_sector_def sector_no_def\<close>)
      then show ?thesis using n i(4) c0 st(2) st(3) [OF True] True lim c more at(3) by (auto simp: Let_def)
    next
      case last: False
      then show ?thesis using n i(4) c0 st(2) st(3) [OF True] True lim c at(3) by (auto simp: Let_def)
    qed
  qed
qed

lemma dir_next_ok:
  assumes v: "clean_volume p N sect ready v" "data_room N v" and d: "dir_of N (sect (dsk v)) v dp cs"
    and i: "at_dir v cs i dp" "i < dir_limit v cs"
  shows "\<exists>res dp' v'. dir_next D False dp v = Some (res, dp', v') \<and> clean_volume p N sect ready v' \<and> sect (dsk v') = sect (dsk v) \<and>
    meta v' = meta v \<and> same_dir dp dp' \<and> (if Suc i < dir_limit v cs then res = FR_OK \<and> at_dir v cs (Suc i) dp' else res = FR_NO_FILE)"
proof -
  note lim = dir_limit_bounds [OF d]
  have ix: "dj_index dp = of_nat i" "i < 65536" using i lim(1) by (auto simp: at_dir_def)
  have s0: "dj_sect dp \<noteq> 0" using dir_sector_on_disk [OF v d i(2)] i(1) by (simp add: at_dir_def)
  consider "Suc i = 65536" | "Suc i < 65536" "Suc i mod 16 \<noteq> 0" | "Suc i < 65536" "Suc i mod 16 = 0" "cs = []"
    | "Suc i < 65536" "Suc i mod 16 = 0" "cs \<noteq> []" using ix(2) by linarith
  then show ?thesis
  proof cases
    case 1
    then have "dir_next D False dp v = Some (FR_NO_FILE, dp, v)" using next_index(2) [OF ix] by (simp add: dir_next_def Let_def)
    then show ?thesis using 1 lim(1) v(1) by auto
  next
    case 2
    then have dv: "Suc i div 16 = i div 16" by (simp add: div_Suc)
    have "Suc i \<noteq> dir_limit v cs" using 2(2) lim(2) by auto
    then have "Suc i < dir_limit v cs" using i(2) by linarith
    moreover have "at_dir v cs (Suc i) (step_here dp (Suc i))"
      by (rule step_here_at) (use i(1) dv in \<open>simp_all add: dir_sector_def at_dir_def\<close>)
    ultimately show ?thesis using dir_next_unfold [OF ix(1) 2(1) s0 v(2), of D] 2(2) v(1) by auto
  next
    case 3
    then have dv: "Suc i div 16 = Suc (i div 16)" by (simp add: div_Suc)
    have "at_dir v cs (Suc i) (step_here (dp\<lparr>dj_sect := dj_sect dp + 1\<rparr>) (Suc i))"
      by (rule step_here_at) (use i(1) dv 3(3) in \<open>simp_all add: dir_sector_def at_dir_def add.commute\<close>)
    moreover have "dj_clust dp = 0" using i(1) 3(3) by (simp add: at_dir_def)
    ultimately show ?thesis using dir_next_unfold [OF ix(1) 3(1) s0 v(2), of D] 3(2,3) v(1) by (auto simp: dir_limit_def Let_def)
  next
    case 4
    then show ?thesis by (intro dir_next_chain [OF v d _ i])
  qed
qed

text \<open>The search from entry \<open>i\<close> on.\<close>

lemma find_loop_ok:
  assumes "clean_volume p N sect ready v" "data_room N v" "dir_of N (sect (dsk v)) v dp cs" "at_dir v cs i dp" "i < dir_limit v cs"
  shows "\<exists>res dp' v'. find_loop D dp v = Some (res, dp', v') \<and> clean_volume p N sect ready v' \<and> sect (dsk v') = sect (dsk v) \<and>
    meta v' = meta v \<and> same_dir dp dp' \<and>
    search_ends (sect (dsk v)) v cs (dj_fn dp) i res dp'"
  using assms
proof (induction "dir_limit v cs - i" arbitrary: i dp v rule: less_induct)
  case less
  let ?S = "sect (dsk v)"
  note v = less.prems(1,2) and d = less.prems(3) and i = less.prems(4,5)
  have at: "dj_sect dp = dir_sector v cs i" "dj_dir dp = Some (32 * (i mod 16))" using i(1) by (auto simp: at_dir_def)
  obtain v1 where m: "move_window D (dj_sect dp) v = Some (FR_OK, v1)" "win v1 = ?S (dir_sector v cs i)"
    "clean_volume p N sect ready v1" "sect (dsk v1) = ?S" "meta v1 = meta v"
    using clean.move_viewE [OF v(1), of "dj_sect dp"] dir_sector_on_disk [OF v d i(2)] at(1) by metis
  have l: "length (?S (dir_sector v cs i)) = 512" using v(1) by (intro sect_length) (simp add: clean_volume_def)
  note e = dir_entry_window [where S = ?S, OF l m(2) at(2)]
  have e0: "entry_byte dp 0 v1 = dir_entry ?S v cs i ! 0" using e(1) [of 0] by simp
  note g = geo_meta [OF m(5)]
  show ?case
  proof (cases "dir_stop ?S v cs (dj_fn dp) i")
    case True
    then show ?thesis using m e(2) e0 i dir_first_step [OF i(2)] by (subst find_loop.simps) (auto simp: dir_stop_def search_ends_def)
  next
    case False
    then have f: "find_loop D dp v = (case dir_next D False dp v1 of None \<Rightarrow> None
        | Some (res, dp, v) \<Rightarrow> if res = FR_OK then find_loop D dp v else Some (res, dp, v))"
      using m(1) e(2) e0 by (subst find_loop.simps) (simp add: dir_stop_def)
    have st: "search_ends ?S v cs (dj_fn dp) i = search_ends ?S v cs (dj_fn dp) (Suc i)"
      using False dir_first_step [OF i(2)] by (intro ext) (simp add: search_ends_def)
    have p1: "data_room N v1" "dir_of N (sect (dsk v1)) v1 dp cs" "at_dir v1 cs i dp" "i < dir_limit v1 cs"
      using v(2) d i by (simp_all add: m(4) dir_geo [OF g] data_room_geo [OF g])
    obtain res dp2 v2 where n: "dir_next D False dp v1 = Some (res, dp2, v2)" "clean_volume p N sect ready v2" "sect (dsk v2) = sect (dsk v1)"
      "meta v2 = meta v1" "same_dir dp dp2" "if Suc i < dir_limit v1 cs then res = FR_OK \<and> at_dir v1 cs (Suc i) dp2 else res = FR_NO_FILE"
      using dir_next_ok [OF m(3) p1] by blast
    have g2: "geo v2 = geo v" using geo_meta [OF n(4)] g by simp
    show ?thesis
    proof (cases "Suc i < dir_limit v cs")
      case True
      then have r: "res = FR_OK" "at_dir v2 cs (Suc i) dp2" using n(6) by (simp_all add: dir_geo [OF g] dir_geo [OF g2])
      have "\<exists>res dp' v'. find_loop D dp2 v2 = Some (res, dp', v') \<and> clean_volume p N sect ready v' \<and> sect (dsk v') = sect (dsk v2) \<and>
          meta v' = meta v2 \<and> same_dir dp2 dp' \<and>
          search_ends (sect (dsk v2)) v2 cs (dj_fn dp2) (Suc i) res dp'"
      proof (rule less.hyps)
        show "dir_limit v2 cs - Suc i < dir_limit v cs - i" using True by (simp add: dir_geo [OF g2])
        show "dir_of N (sect (dsk v2)) v2 dp2 cs" using d by (simp add: n(3) m(4) dir_geo [OF g2] dir_of_same [OF n(5)])
      qed (use v(2) n(2) r(2) True in \<open>simp_all add: dir_geo [OF g2] data_room_geo [OF g2]\<close>)
      moreover have "dj_fn dp2 = dj_fn dp" using n(5) by (simp add: same_dir_def)
      ultimately show ?thesis
        using f n(1) r(1) st same_dir_trans [OF n(5)] unfolding dir_geo [OF g2] n(3) m(4) n(4) m(5) by auto
    next
      case False
      then show ?thesis using f n m st dir_first_end [OF False] by (auto simp: dir_geo [OF g] search_ends_def)
    qed
  qed
qed

lemma dir_find_ok:
  assumes v: "clean_volume p N sect ready v" "data_room N v" and d: "dir_of N (sect (dsk v)) v dp cs"
  shows "\<exists>res dp' v'. dir_find D dp v = Some (res, dp', v') \<and> clean_volume p N sect ready v' \<and> sect (dsk v') = sect (dsk v) \<and>
    meta v' = meta v \<and> same_dir dp dp' \<and>
    search_ends (sect (dsk v)) v cs (dj_fn dp) 0 res dp'"
proof -
  obtain dp1 where s: "dir_sdi D 0 dp v = Some (FR_OK, dp1, v)" "at_dir v cs 0 dp1" "same_dir dp dp1"
    using dir_sdi_ok [OF assms] by blast
  have "dir_of N (sect (dsk v)) v dp1 cs" using d by (simp add: dir_of_same [OF s(3)])
  note f = find_loop_ok [OF v this s(2) dir_limit_pos [OF v(2) d]]
  have "dj_fn dp1 = dj_fn dp" using s(3) by (simp add: same_dir_def)
  then show ?thesis using f s(1) same_dir_trans [OF s(3)] unfolding dir_find_def by auto
qed

end

text \<open>C36: A search finds the first entry.  In any directory, the fixed root area or a chain of clusters, on a disk
  whose reads return the sectors asked for, the search ends and answers about the first entry that is either the end
  mark (its first byte is 0) or a file or directory of the name looked for: if that is an entry of the name, the
  object is left at exactly that entry; at an end mark, or where there is no such entry before the directory ends (at
  entry 65536 at the latest), it says there is no file.  Neither the disk nor the volume changes.\<close>

theorem dir_find_first:
  assumes "clean_volume p N sect (readable_disk D p N sect live) v" "data_room N v" "dir_of N (sect (dsk v)) v dp cs"
  shows "\<exists>res dp' v'. dir_find D dp v = Some (res, dp', v') \<and> sect (dsk v') = sect (dsk v) \<and> meta v' = meta v \<and> same_dir dp dp' \<and>
    (let ent = dir_entry (sect (dsk v)) v cs in
     case find (\<lambda>i. ent i ! 0 = 0 \<or> ent i ! 11 AND AM_VOL = 0 \<and> take 11 (ent i) = take 11 (dj_fn dp)) [0..<dir_limit v cs] of
       None \<Rightarrow> res = FR_NO_FILE
     | Some j \<Rightarrow> if ent j ! 0 = 0 then res = FR_NO_FILE else res = FR_OK \<and> at_dir v cs j dp')"
proof -
  have st: "dir_stop S v cs fn = (\<lambda>i. dir_entry S v cs i ! 0 = 0 \<or>
      dir_entry S v cs i ! 11 AND AM_VOL = 0 \<and> take 11 (dir_entry S v cs i) = take 11 fn)" for S :: "u32 \<Rightarrow> u8 list" and fn
    by (intro ext) (simp add: dir_stop_def entry_hit_def)
  then show ?thesis
    using readable.dir_find_ok [OF assms] unfolding search_ends_def dir_first_def Let_def st by blast
qed

text \<open>A root directory with a label and a file of the same name.\<close>

definition root_name :: "u8 list" where
  "root_name = 0x41 # replicate 10 0x20"

definition root_disk :: "u32 \<Rightarrow> u8 list" where
  "root_disk s = (if s = 1 \<or> s = 2 then sample_table
     else if s = 3 then root_name @ AM_VOL # replicate 20 0 @ root_name @ AM_ARC # replicate 468 0 else replicate 512 0)"

definition root_dir :: DIR where
  "root_dir = \<lparr>dj_fs = Some 0, dj_id = 1, dj_index = 0, dj_sclust = 0, dj_clust = 0, dj_sect = 0, dj_dir = None, dj_fn = root_name @ [0]\<rparr>"

lemma root_disk_ok:
  "clean_volume 0 100 (\<lambda>d. d) (readable_disk ram_disk 0 100 (\<lambda>d. d) whole) (sample_volume\<lparr>dsk := root_disk\<rparr>)"
  "data_room 100 (sample_volume\<lparr>dsk := root_disk\<rparr>)"
  "dir_of 100 (dsk (sample_volume\<lparr>dsk := root_disk\<rparr>)) (sample_volume\<lparr>dsk := root_disk\<rparr>) root_dir []"
proof -
  let ?v = "sample_volume\<lparr>dsk := root_disk\<rparr>"
  show "clean_volume 0 100 (\<lambda>d. d) (readable_disk ram_disk 0 100 (\<lambda>d. d) whole) ?v"
    using sample_readable [of 0 100] sample_volume_ok
    by (auto simp: clean_volume_def volume_ok_def whole_def root_disk_def root_name_def sample_table_def sample_volume_def fat_layout_def
        fat_room_def FS_types)
  show "data_room 100 ?v" by (auto simp: data_room_def sample_volume_def intro!: exI [of _ "0 :: nat"])
  show "dir_of 100 (dsk ?v) ?v root_dir []" by (simp add: dir_of_def root_dir_def root_room_def sample_volume_def FS_types)
qed

theorem dir_find_first_witness:
  "\<exists>dp v. dir_find ram_disk root_dir (sample_volume\<lparr>dsk := root_disk\<rparr>) = Some (FR_OK, dp, v) \<and> dj_index dp = 1 \<and> dj_dir dp = Some 32"
proof -
  let ?v = "sample_volume\<lparr>dsk := root_disk\<rparr>" and ?S = "root_disk"
  let ?ent = "dir_entry ?S ?v []"
  have e: "?ent 0 = root_name @ AM_VOL # replicate 20 0" "?ent 1 = root_name @ AM_ARC # replicate 20 0"
    by (simp_all add: dir_entry_def dir_sector_def sample_volume_def root_disk_def root_name_def)
  have l: "[0..<dir_limit ?v []] = 0 # 1 # [2..<16]" by (simp add: dir_limit_def sample_volume_def upt_rec)
  have b: "?ent 0 ! 0 = 0x41" "?ent 0 ! 11 = AM_VOL" "?ent 1 ! 0 = 0x41" "?ent 1 ! 11 = AM_ARC" "take 11 (?ent 1) = root_name"
    by (simp_all only: e root_name_def) (simp_all add: nth_append)
  have n: "AM_VOL AND AM_VOL \<noteq> 0" "AM_ARC AND AM_VOL = 0" "(0x41 :: u8) \<noteq> 0" "take 11 (dj_fn root_dir) = root_name"
    by (simp_all add: AM_VOL_def AM_ARC_def root_dir_def root_name_def)
  have f: "find (\<lambda>i. ?ent i ! 0 = 0 \<or> ?ent i ! 11 AND AM_VOL = 0 \<and> take 11 (?ent i) = take 11 (dj_fn root_dir))
      [0..<dir_limit ?v []] = Some 1"
    unfolding l find.simps b n(4) using n(1-3) by simp
  have n1: "?ent 1 ! 0 \<noteq> 0" unfolding b by simp
  have d: "dsk ?v = root_disk" by simp
  show ?thesis
    using dir_find_first [where sect = "\<lambda>d. d" and live = whole, OF root_disk_ok] n1
    unfolding Let_def d f by (auto simp: at_dir_def)
qed

end
