(* ===== verification/EdclHost.thy ===== *)
theory EdclHost
  imports Edcl ElfLoader
begin

text \<open>
  The host side of the mailbox (tester/stub_main.c): the program that loads an image through the Ethernet debug port
  and makes the boot ROM jump to it, and the hand-over between the two programs.  The debug link and
  the loader are the C++ part of the tester and a parameter here; addresses of the link are offsets into the shared memory.
  The host has 64-bit pointers, for which the packed entry has the 16 bytes that the boot ROM expects.
\<close>

section \<open>The link\<close>

record 'h edcl_link =
  link_main :: "'h \<Rightarrow> 'h"
  link_close :: "'h \<Rightarrow> 'h"
  link_write :: "u64 \<Rightarrow> u8 list \<Rightarrow> 'h \<Rightarrow> 'h"
  link_read :: "u64 \<Rightarrow> nat \<Rightarrow> 'h \<Rightarrow> u8 list \<times> 'h"
  link_loadelf :: "string option \<Rightarrow> 'h \<Rightarrow> u32 \<times> 'h"
  link_report :: "string \<Rightarrow> 'h \<Rightarrow> 'h"

section \<open>The stub\<close>

record etrans =
  et_mode :: u32
  et_ptr :: u64
  et_val :: u32

text \<open>The entry as it lies in the memory of the host, least significant byte first.\<close>

definition etrans_bytes :: "etrans \<Rightarrow> u8 list" where
  "etrans_bytes t = le_bytes 4 (unat (et_mode t)) @ le_bytes 8 (unat (et_ptr t)) @ le_bytes 4 (unat (et_val t))"

abbreviation etrans_size :: nat where "etrans_size \<equiv> 16"

definition edcl_bootstrap :: "'h edcl_link \<Rightarrow> u32 \<Rightarrow> 'h \<Rightarrow> 'h" where
  "edcl_bootstrap L entry h =
     (let tmp = \<lparr>et_mode = edcl_mode_bootstrap, et_ptr = scast entry, et_val = 0xDEADBEEF\<rparr>;
          h = link_write L 0 (etrans_bytes tmp) h;
          (_, h) = link_read L 0 etrans_size h
      in link_write L (ucast edcl_max * of_nat etrans_size) (etrans_bytes tmp) h)"

text \<open>The arguments; the one after the last is a null pointer.\<close>

fun stub_args :: "'h edcl_link \<Rightarrow> u32 \<Rightarrow> string list \<Rightarrow> 'h \<Rightarrow> 'h" where
  "stub_args L entry [] h = h"
| "stub_args L entry (a # as) h =
     (if a = ''-loadelf'' then
        (let (entry, h) = link_loadelf L (case as of [] \<Rightarrow> None | f # _ \<Rightarrow> Some f) h in stub_args L entry (tl as) h)
      else if a = ''-bootstrap'' then stub_args L entry as (edcl_bootstrap L entry h)
      else stub_args L entry as (link_report L (''Invalid flag '' @ a @ [char_of (10 :: nat)]) h))"

definition stub_main :: "'h edcl_link \<Rightarrow> string list \<Rightarrow> 'h \<Rightarrow> 'h" where
  "stub_main L args h = link_close L (stub_args L 0 args (link_main L h))"

section \<open>What the link does\<close>

definition link_laws :: "'h edcl_link \<Rightarrow> ('h \<Rightarrow> mem) \<Rightarrow> bool" where
  "link_laws L view \<longleftrightarrow>
     (\<forall>a bs h. view (link_write L a bs h) = store_bytes (view h) (shm_base + ucast a) bs) \<and>
     (\<forall>a n h. view (snd (link_read L a n h)) = view h)"

lemma length_etrans [simp]: "length (etrans_bytes t) = etrans_size"
  by (simp add: etrans_bytes_def)

lemma edcl_bootstrap_view:
  assumes "link_laws L view"
  shows "view (edcl_bootstrap L entry h) =
    (let bs = etrans_bytes \<lparr>et_mode = edcl_mode_bootstrap, et_ptr = scast entry, et_val = 0xDEADBEEF\<rparr>
     in store_bytes (store_bytes (view h) shm_base bs) (shm_base + 4096) bs)"
proof -
  have s: "view (snd (link_read L a n k)) = view k" for a n k using assms by (simp add: link_laws_def)
  have "view k' = view k" if "link_read L a n k = (bs, k')" for a n k bs k' using s [of a n k] that by simp
  then show ?thesis
    using assms by (simp add: edcl_bootstrap_def link_laws_def edcl_max_def Let_def split: prod.split)
qed

text \<open>The words that the boot ROM reads of the entry.\<close>

lemma take_le_bytes: "k \<le> n \<Longrightarrow> take k (le_bytes n v) = le_bytes k v"
proof (induction n arbitrary: k v)
  case (Suc n)
  then show ?case by (cases k) simp_all
qed simp

lemma le_val_mod: "le_val (le_bytes n v) = v mod 256 ^ n"
proof (induction n arbitrary: v)
  case (Suc n)
  have "v mod (256 * 256 ^ n) = v mod 256 + 256 * (v div 256 mod 256 ^ n)" by (simp only: mod_mult2_eq)
  moreover have "unat (of_nat (v mod 256) :: u8) = v mod 256" by (simp add: unat_of_nat)
  ultimately show ?case using Suc by simp
qed simp

lemma etrans_words:
  fixes e :: u32
  assumes "bs = etrans_bytes \<lparr>et_mode = m, et_ptr = scast e, et_val = v\<rparr>"
  shows "of_nat (le_val (take 4 bs)) = m" "of_nat (le_val (take 4 (drop 4 bs))) = e" "of_nat (le_val (take 4 (drop 12 bs))) = v"
proof -
  have "unat (ucast (scast e :: u64) :: u32) = unat (scast e :: u64) mod 256 ^ 4"
    by (simp add: unsigned_ucast_eq take_bit_eq_mod)
  moreover have "ucast (scast e :: u64) = e" by (rule bit_word_eqI) (auto simp: bit_simps)
  ultimately have p: "unat (scast e :: u64) mod 256 ^ 4 = unat e" by simp
  have w: "unat x mod 4294967296 = unat x" for x :: u32 using unat_u32_less [of x] by (simp del: unat_u32_less)
  show "of_nat (le_val (take 4 bs)) = m" "of_nat (le_val (take 4 (drop 4 bs))) = e" "of_nat (le_val (take 4 (drop 12 bs))) = v"
    using p by (simp_all add: assms etrans_bytes_def take_le_bytes le_val_mod w)
qed

lemma bootstrap_mailbox:
  assumes "link_laws L view" and m_def: "m = view (edcl_bootstrap L entry h)"
  shows "rd32 m shm_base = edcl_mode_bootstrap" "rd32 m (shm_base + 4) = entry" "rd32 m shm_last = 0xDEADBEEF"
    "\<not> in_shm x \<Longrightarrow> m x = view h x"
proof -
  define bs where "bs = etrans_bytes \<lparr>et_mode = edcl_mode_bootstrap, et_ptr = scast entry, et_val = 0xDEADBEEF\<rparr>"
  let ?m0 = "store_bytes (view h) shm_base bs"
  have m: "m = store_bytes ?m0 (shm_base + of_nat 4096) bs"
    unfolding m_def edcl_bootstrap_view [OF assms(1)] Let_def bs_def by simp
  have l: "length bs = 16" by (simp add: bs_def)
  note w = etrans_words [OF bs_def]
  have ap: "apart (shm_base + of_nat 4096) (length bs) (shm_base + of_nat k) 4" if "k \<le> 12" for k
  proof -
    have "shm_base + of_nat 4096 - (shm_base + of_nat k) = (of_nat (4096 - k) :: u32)" using that by (simp add: of_nat_diff)
    moreover have "unat (of_nat (4096 - k) :: u32) = 4096 - k" by (rule unat_offset) simp
    ultimately have u: "unat (shm_base + of_nat 4096 - (shm_base + of_nat k)) = 4096 - k" by (simp only:)
    then have "shm_base + of_nat 4096 \<noteq> shm_base + of_nat k" using that by auto
    from unat_flip [OF this] u have "unat (shm_base + of_nat k - (shm_base + of_nat 4096)) = 2 ^ 32 - (4096 - k)" by simp
    then show ?thesis using that l u by (simp only: apart_def) simp
  qed
  have low: "rd32 m (shm_base + of_nat k) = of_nat (le_val (take 4 (drop k bs)))" if "k \<le> 12" for k
    unfolding m rd32_def using load_store_apart [OF ap [OF that]] load_store_part [of k 4 bs "view h" shm_base] l that by simp
  show "rd32 m shm_base = edcl_mode_bootstrap" "rd32 m (shm_base + 4) = entry" using low [of 0] low [of 4] w by simp_all
  have "shm_last = shm_base + of_nat 4096 + of_nat 12" by (simp add: shm_last_def edcl_max_def add.assoc)
  then show "rd32 m shm_last = 0xDEADBEEF"
    using load_store_part [of 12 4 bs ?m0 "shm_base + of_nat 4096"] l w(3) by (simp add: m rd32_def)
  show "m x = view h x" if "\<not> in_shm x"
  proof -
    have "16 \<le> unat (x - shm_base)" "16 \<le> unat (x - (shm_base + of_nat 4096))"
      using that by (auto simp: in_shm_def unat_sub_if' shm_base_def split: if_splits)
    then show ?thesis unfolding m using l by (simp add: store_bytes_outside)
  qed
qed

section \<open>The hand-over\<close>

text \<open>Printing and copying on the side of the boot ROM.\<close>

definition rom_laws :: "'s space \<Rightarrow> ('s \<Rightarrow> mem) \<Rightarrow> (u32 \<Rightarrow> bool) \<Rightarrow> bool" where
  "rom_laws B view dev \<longleftrightarrow> space_laws B view dev \<and>
     (\<forall>v s. view (store32 B (push_bit 20 2) v s) = view s) \<and>
     (\<forall>a b s. \<not> dev a \<longrightarrow> view (store8 B a b s) = (view s)(a := b))"

lemma rom_send_view: "rom_laws B view dev \<Longrightarrow> view (rom_send B bs s) = view s"
  by (induction bs arbitrary: s) (simp_all add: rom_send_def rom_putchar_def rom_laws_def)

lemma dump_word_view:
  assumes "rom_laws B view dev"
  shows "view (dump_word B a s) = view s"
proof -
  have "view s' = view k" if "load32 B a k = (v, s')" for k v s'
    using assms that by (auto simp: rom_laws_def space_laws_def)
  then show ?thesis
    using rom_send_view [OF assms] by (simp add: dump_word_def Let_def split: prod.split)
qed

lemma dump_words_view: "rom_laws B view dev \<Longrightarrow> view (fold (\<lambda>i. dump_word B (f i)) xs s) = view s"
  by (induction xs arbitrary: s) (simp_all add: dump_word_view)

lemma copy_rom_view:
  assumes "rom_laws B view dev"
  shows "apart dst n src n \<Longrightarrow> \<forall>k<n. \<not> dev (dst + of_nat k) \<and> \<not> dev (src + of_nat k) \<Longrightarrow>
    view (copy_rom B dst src n s) = store_bytes (view s) dst (load_bytes (view s) src n)"
proof (induction n arbitrary: dst src s)
  case (Suc n)
  obtain b s1 where l: "load8 B src s = (b, s1)" by (cases "load8 B src s")
  have d: "\<not> dev dst" "\<not> dev src" using Suc.prems(2) [rule_format, of 0] by simp_all
  have b: "b = view s src" "view s1 = view s" using assms l d by (auto simp: rom_laws_def space_laws_def)
  have v: "view (store8 B dst b s1) = (view s)(dst := b)" using assms d b(2) by (simp add: rom_laws_def)
  have "\<forall>k<n. \<not> dev (dst + 1 + of_nat k) \<and> \<not> dev (src + 1 + of_nat k)"
    using Suc.prems(2) [rule_format, of "Suc _"] by (simp add: add.assoc)
  from Suc.IH [OF apart_Suc [OF Suc.prems(1)] this, of "store8 B dst b s1"]
  have "view (copy_rom B (dst + 1) (src + 1) n (store8 B dst b s1)) =
      store_bytes ((view s)(dst := b)) (dst + 1) (load_bytes ((view s)(dst := b)) (src + 1) n)" by (simp only: v)
  moreover have "load_bytes ((view s)(dst := b)) (src + 1) n = load_bytes (view s) (src + 1) n"
    by (rule load_bytes_upd_outside) (use apart_ne [OF Suc.prems(1)] in blast)
  ultimately show ?case using l b(1) by (simp del: fun_upd_apply)
qed simp

text \<open>The boot ROM up to the call of the loaded program.\<close>

lemma bootstrap_calls:
  assumes "rom_laws B view dev" "\<forall>k<0xE000. \<not> dev (0x2000 + of_nat k) \<and> \<not> dev (shm_base + 0x2000 + of_nat k)"
  shows "\<exists>s'. view s' = store_bytes (view s) 0x2000 (load_bytes (view s) (shm_base + 0x2000) 0xE000) \<and>
    (\<forall>call. bootstrap B call e s = call e s')"
proof -
  let ?s1 = "rom_puts B (''Bootstrapping from ethernet ...'' @ [cr, lf]) s"
  let ?s2 = "copy_rom B 0x2000 (shm_base + 0x2000) (0x10000 - 0x2000) ?s1"
  let ?s3 = "rom_puts B (''Bye.'' @ [cr, lf]) (fold (\<lambda>i. dump_word B (e + of_nat (4 * i))) [0..<8] ?s2)"
  have p: "view (rom_puts B str t) = view t" for str t by (simp only: rom_puts_def rom_send_view [OF assms(1)])
  have "apart 0x2000 0xE000 (shm_base + 0x2000) 0xE000" by (simp add: apart_def shm_base_def unat_sub_if')
  then have "view ?s2 = store_bytes (view s) 0x2000 (load_bytes (view s) (shm_base + 0x2000) 0xE000)"
    using copy_rom_view [OF assms(1), where dst = "0x2000" and n = "0xE000" and src = "shm_base + 0x2000" and s = ?s1] assms(2) p by simp
  then have "view ?s3 = store_bytes (view s) 0x2000 (load_bytes (view s) (shm_base + 0x2000) 0xE000)"
    by (simp only: p dump_words_view [OF assms(1)])
  moreover have "bootstrap B call e s = call e ?s3" for call by (simp only: bootstrap_def Let_def)
  ultimately show ?thesis by blast
qed

text \<open>What follows when the loaded program returns.\<close>

definition after_call :: "'s space \<Rightarrow> (u32 \<Rightarrow> 's \<Rightarrow> 's option) \<Rightarrow> 's \<Rightarrow> 's option" where
  "after_call B call s =
     (case edcl_loop B call 1 s of
        None \<Rightarrow> None
      | Some (Inl s) \<Rightarrow> Some s
      | Some (Inr (i, s)) \<Rightarrow> Some (rom_write32 B shm_last 0 (rom_write32 B (shm_base + 4) 0 (rom_write32 B shm_base i s))))"

text \<open>C40: The host starts the program it has loaded.  After the tester has written its two entries through the
  link, the boot ROM, waiting for them, copies the image from the shared memory to its place at 0x2000 and calls the program at exactly the
  entry point the host named, with nothing else in the memory outside the mailbox changed; what happens afterwards is what the program does:
  the boot ROM never comes back if it does not return, and goes on with entry 1 of the mailbox if it does.\<close>

theorem host_boots_image:
  assumes L: "link_laws L view" and B: "rom_laws B view dev" and dev: "\<forall>x. in_shm x \<longrightarrow> \<not> dev x"
    "\<forall>k<0xE000. \<not> dev (0x2000 + of_nat k) \<and> \<not> dev (shm_base + 0x2000 + of_nat k)"
  shows "\<exists>s'. (\<forall>x. \<not> in_shm x \<longrightarrow> view s' x = store_bytes (view s) 0x2000 (load_bytes (view s) (shm_base + 0x2000) 0xE000) x) \<and>
    (\<forall>call. edcl_hello B call (edcl_bootstrap L entry s) = Option.bind (call entry s') (after_call B call))"
proof -
  let ?h = "edcl_bootstrap L entry s"
  have S: "space_laws B view dev" using B by (simp add: rom_laws_def)
  note m = bootstrap_mailbox [OF L refl, where entry = entry and h = s]
  have last: "shm_last = slot_at 256 + 12" by (simp add: shm_last_def slot_at_def edcl_max_def)
  from slot_word_read [OF S dev(1), of 256 12 ?h] m(3) obtain s1 where s1: "read_code_data8 B shm_last ?h = (0xDEADBEEF, s1)" "view s1 = view ?h"
    by (auto simp: last)
  have w: "await_magic B ?h = Some s1" by (subst await_magic.simps) (simp add: s1)
  have z: "slot_at 0 = shm_base" by (simp add: slot_at_def)
  obtain v t1 t2 t3 where t: "my_stat B 0 s1 = (v, t1)" "read_code_data8 B (slot_at 0 + 4) t1 = (rd32 (view s1) (slot_at 0 + 4), t2)"
    "read_code_data8 B (slot_at 0) t2 = (rd32 (view s1) (slot_at 0), t3)" "view t3 = view s1"
    by (rule edcl_command_start [OF S dev(1) le0, of s1])
  obtain s' where s': "view s' = store_bytes (view t3) 0x2000 (load_bytes (view t3) (shm_base + 0x2000) 0xE000)"
    "\<And>call. bootstrap B call entry t3 = call entry s'"
    using bootstrap_calls [OF B dev(2), of t3 entry] by blast
  have vt: "view t3 = view ?h" using t(4) s1(2) by simp
  have "edcl_command B call 0 s1 = map_option (\<lambda>s. Inr (edcl_mode_bootstrap, 1, s)) (call entry s')" for call
    using t m(1,2) s'(2) unfolding z s1(2)
    by (simp add: edcl_command_def edcl_mode_bootstrap_def map_option_case cong: option.case_cong)
  then have l: "edcl_loop B call 0 s1 = Option.bind (call entry s') (edcl_loop B call 1)" for call
    by (subst edcl_loop.simps) (simp add: edcl_mode_bootstrap_def split: option.split)
  have h: "edcl_hello B call ?h = Option.bind (call entry s') (after_call B call)" for call
    by (cases "call entry s'") (simp_all add: edcl_hello_def w after_call_def l)
  have im: "load_bytes (view ?h) (shm_base + 0x2000) 0xE000 = load_bytes (view s) (shm_base + 0x2000) 0xE000"
  proof (rule nth_equalityI)
    fix i assume "i < length (load_bytes (view ?h) (shm_base + 0x2000) 0xE000)"
    then have i: "i < 0xE000" by simp
    have "shm_base + 0x2000 + of_nat i - shm_base = (of_nat (0x2000 + i) :: u32)" by simp
    moreover have "unat (of_nat (0x2000 + i) :: u32) = 0x2000 + i" using i by (intro unat_offset) simp
    ultimately have "\<not> in_shm (shm_base + 0x2000 + of_nat i)" by (simp only: in_shm_def)
    then show "load_bytes (view ?h) (shm_base + 0x2000) 0xE000 ! i = load_bytes (view s) (shm_base + 0x2000) 0xE000 ! i"
      using i by (simp add: nth_load_bytes m(4))
  qed simp
  have "view s' x = store_bytes (view s) 0x2000 (load_bytes (view s) (shm_base + 0x2000) 0xE000) x" if "\<not> in_shm x" for x
    unfolding s'(1) vt im by (simp add: store_bytes_apply m(4) [OF that])
  then show ?thesis using h by blast
qed

text \<open>A link that is the memory itself, an image of one byte, and a program that does not return where that byte is in place.\<close>

definition plain_link :: "mem edcl_link" where
  "plain_link = \<lparr>link_main = (\<lambda>m. m), link_close = (\<lambda>m. m), link_write = (\<lambda>a bs m. store_bytes m (shm_base + ucast a) bs),
     link_read = (\<lambda>a n m. (load_bytes m (shm_base + ucast a) n, m)), link_loadelf = (\<lambda>f m. (0x2000, m)), link_report = (\<lambda>t m. m)\<rparr>"

definition deaf_space :: "mem space" where
  "deaf_space = plain_space\<lparr>store32 := (\<lambda>a v m. if a = push_bit 20 2 then m else wr32 m a v)\<rparr>"

definition boot_image :: mem where
  "boot_image = (\<lambda>_. 0)(shm_base + 0x2004 := 7)"

theorem host_boots_image_witness:
  "edcl_hello deaf_space (\<lambda>e m. if e = 0x2000 \<and> m 0x2004 = 7 then None else Some m) (edcl_bootstrap plain_link 0x2000 boot_image) = None"
proof -
  have L: "link_laws plain_link (\<lambda>m. m)" by (simp add: link_laws_def plain_link_def)
  have B: "rom_laws deaf_space (\<lambda>m. m) (\<lambda>x. x = push_bit 20 2)"
    by (simp add: rom_laws_def space_laws_def deaf_space_def plain_space_def)
  have d: "\<forall>x. in_shm x \<longrightarrow> x \<noteq> push_bit 20 2" by (auto simp: in_shm_def shm_base_def unat_sub_if')
  have e: "\<forall>k<0xE000. 0x2000 + of_nat k \<noteq> (push_bit 20 2 :: u32) \<and> shm_base + 0x2000 + of_nat k \<noteq> push_bit 20 2"
    by (auto simp: shm_base_def unat_of_nat word_unat_eq_iff unat_word_ariths)
  obtain s' where s': "\<forall>x. \<not> in_shm x \<longrightarrow> s' x = store_bytes boot_image 0x2000 (load_bytes boot_image (shm_base + 0x2000) 0xE000) x"
    "\<And>call. edcl_hello deaf_space call (edcl_bootstrap plain_link 0x2000 boot_image) = Option.bind (call 0x2000 s') (after_call deaf_space call)"
    using host_boots_image [OF L B d e, where s = boot_image and entry = "0x2000"] by blast
  have "s' 0x2004 = 7" using s'(1) [rule_format, of "0x2004"]
    by (simp add: in_shm_def shm_base_def unat_sub_if' store_bytes_apply nth_load_bytes boot_image_def)
  then show ?thesis by (simp add: s'(2))
qed

end
