(* ===== verification/Spec2Isabelle.thy ===== *)
theory Spec2Isabelle
  imports RecordTools EmulationProps MTrap Syscalls Monitor HostDisk SpiDisk KernelBoot Edcl SdTest
    FatSeek FatNames FatCount FatLookup EdclHost
begin

text \<open>
  A verification development for the software of the minion subsystem: the C programs under
  src/software that run on a small 32-bit RISC-V core next to an SD card, a serial port and an Ethernet
  debug port.  There are four of them.  The program of the boot ROM (bootstrap/hello.c) obeys commands that a host
  puts into shared memory.  The boot monitor (bootstrap) is a command line over a character
  FIFO that pokes memory and loads files of S-Records.  The boot program (bootstrap/sdcard) mounts the
  card, reads an ELF image into memory and copies its segments to their place.  The kernel (hello) is
  machine-mode firmware: it handles traps, emulates instructions the core lacks, keeps a table of open
  files over FatFs and the virtual memory of the program it serves, and prints on a 16550 serial port.
  Files that exist in several directories with the same contents are modelled once, from bootstrap where
  there is a copy.  The target is riscv32: pointers and \<open>long\<close> have 32 bits and \<open>char\<close> is unsigned.

  Conventions.  A C integer is a word of its width, a structure a record, an enumeration a datatype.  A
  pointer is a 32-bit address into a memory of bytes (\<open>Memory\<close>) where the code computes with addresses,
  and a list or string with a position where it only walks a buffer.  State is passed explicitly.  The
  result \<open>None\<close> is behaviour with no result: an undefined C operation, a panic or a loop that does not
  end; every theory says which.  Loops without a bound are \<open>partial_function (option)\<close>, so a theorem that
  they return states \<open>Some\<close>; nothing in the development uses fuel.

  The theories, with what they model under src/software and what their lemmas show.

  \<^item> \<open>Prelude\<close>, \<open>Memory\<close>, \<open>CStdio\<close>, \<open>Bus\<close>: shared vocabulary.  Words and characters; the byte memory with
    little-endian accesses and its contract, the locale \<open>byte_memory\<close>; the part of the C library the
    record formats call (\<open>fgets\<close>, \<open>strtol\<close>, \<open>%X\<close>); device registers as a parameter, with polling loops and the
    contracts \<open>serial\<close> and \<open>serial_io\<close> of a character device and \<open>block_device\<close> of a disk.
  \<^item> \<open>Codec\<close>, \<open>SRecord\<close>, \<open>IHex\<close>, \<open>Atmel\<close>, \<open>RecordTools\<close>: the three record formats (bootstrap/srecord.c,
    ihex.c, atmel_generic.c) and the program that dumps a file of records (testGIS.c).  Round trips of
    writer and reader, exact conditions for them, the readers stay inside their arrays, the dump ends on
    every file.  The formats share the locale \<open>record_codec\<close>.
  \<^item> \<open>MiniPrintf\<close>: the formatter of the boot programs (bootstrap/mini-printf.c) equals a reference that
    produces the text and cuts it, and a type system for its arguments under which it never gets stuck.
  \<^item> \<open>CLib\<close>: the memory and string functions of bootstrap/minion_lib.c and hello/string.c; the word-wise ones
    of the kernel equal byte-wise ones for every alignment.
  \<^item> \<open>ElfLoader\<close>: bootstrap/sdcard/elf.c refines an abstract loading of segments.
  \<^item> \<open>Emulation\<close>, \<open>EmulationProps\<close>: hello/emulation.c.  Emulation changes only what the instruction may
    change; multiplication, division, misaligned loads, conversions and the status registers follow the
    instruction set.  SoftFloat is a parameter.
  \<^item> \<open>FileTable\<close>: hello/file.c over FatFs as a parameter; reference counts, streaming reads.
  \<^item> \<open>MTrap\<close>: hello/mtrap.c.  The queues of device messages as linked lists in memory refine first-in
    first-out lists; the result of every supervisor call.
  \<^item> \<open>VM\<close>: hello/vm.c.  The two-level page table implements a partial map from pages to entries; mapping,
    unmapping and page faults are operations on that map.
  \<^item> \<open>Uart\<close>, \<open>Console\<close>: hello/driver/uart.c and hello/console.c.  Under laws on the device a buffer goes out
    whole and in order; the formatter writes its text cut to the buffer.  The two drivers are
    interpretations of the contracts in \<open>Bus\<close>.
  \<^item> \<open>Syscalls\<close>: bootstrap/sdcard/syscalls.c, its formatter, line buffer and system calls; its formatter and
    the one of the kernel agree on plain formats.
  \<^item> \<open>Monitor\<close>: bootstrap/simple.c.  The monitor reads lines and carries out commands; loading a file that
    the S-Record writer made puts every record's data at its address.

  \<^item> \<open>SDHost\<close>, \<open>DiskDefs\<close>, \<open>HostDisk\<close>: the driver of the SD host controller (bootstrap/minion_helper.c, the
    same in hello), the constants of the disk interface, and the kernel's disk functions over it (hello/diskio.c,
    the register file of dummy.c).  A sector goes to memory in order; a read of several sectors delivers
    the first one every time.
  \<^item> \<open>Spi\<close>, \<open>SpiDisk\<close>: two SPI ports (bootstrap/sdcard/spi.c, hello/spi.c) as interpretations of the contract
    \<open>spi_stream\<close>, and the disk functions of the boot program over any port (bootstrap/sdcard/diskio.c).  A
    card that answers has its blocks stored in order; a card of the old protocols is rejected.
  \<^item> \<open>KernelBoot\<close>: the kernel's ELF loader and start-up (hello/elf.c, minit.c, init.c, bbl.c, sbi_impl.c) over
    \<open>FileTable\<close> and \<open>VM\<close>.  The loader stores exactly the segments of the file, and start-up on a good card ends
    at the entry of the kernel with the kernel in memory.
  \<^item> \<open>Edcl\<close>: the program of the boot ROM (bootstrap/hello.c).  It runs the commands of a mailbox in order.
  \<^item> \<open>SdTest\<close>: the test program of the card driver (bootstrap/sdcard/sdcard.c).

  Bounds.  Where a theorem limits a length or an address it is the limit of the C type (32 bits, the array of
  the source) and the text above the theorem says so.

  Not modelled.  FatFs (ff.c, three copies) is vendored and SoftFloat is not under src/: both are parameters.
  The hardware (verilog, vivado, pulpino), the generated memory images (code.v, data.v) and the host-side
  tester in C++ are not C programs of the system.  The parts of simple.c under \<open>SD_LIB\<close> are not compiled.
  \<open>populate_mapping\<close> (hello/vm.c) only touches pages.  \<open>init_tls\<close> (syscalls.c), \<open>init_tf\<close> (init.c, never called)
  and the start-up code in assembly set up the machine itself.  hello/init_sd.c is an unused copy of the
  start-up of the SD host controller, hello/sd_lib.c an older form of it; bootstrap/junk.c prints for ever.
  The parallel harts are sequential here: a hart that waits for another one is \<open>None\<close>.
\<close>

end
